(* ===== verification/Rhino_Prelude.thy ===== *)
theory Rhino_Prelude
  imports Main "HOL-Library.Word"
begin

text \<open>
  Shared ground of the development: the machine types of the kernel's C code, the collections of
  simplification rules the components fill, and the generic facts about ordered insertion and
  about lists that several components use.

  The kernel keeps three time- or priority-ordered intrusive lists (the wait list of a blocking
  object, the tick list, the list of software timers) and fills each of them with the same loop:
  walk from the front, stop at the first element whose key is greater than the new one, insert
  before it. The locale \<open>ordered_insert\<close> states that loop once, with the laws a client relies
  on; each component interprets it on its own loop.
\<close>

section \<open>Machine types\<close>

type_synonym u8 = "8 word"
type_synonym u32 = "32 word"
type_synonym u64 = "64 word"

section \<open>Collections of rules\<close>

text \<open>
  \<open>kframe\<close>: what an operation leaves alone; \<open>kdefs\<close>: the definitions of the operations that
  straight-line proofs unfold; \<open>krefs\<close>: the laws that relate a concrete structure to the list or
  the set it stands for.
\<close>

named_theorems kframe \<open>frame equations of the kernel operations\<close>
named_theorems kdefs \<open>definitions unfolded by straight-line proofs\<close>
named_theorems krefs \<open>refinement equations\<close>

section \<open>Lists\<close>

lemma remove1_split:
  "x \<in> set xs \<Longrightarrow> distinct xs \<Longrightarrow> \<exists>ys zs. xs = ys @ x # zs \<and> remove1 x xs = ys @ zs"
  by (metis distinct.simps(2) distinct_append not_distinct_conv_prefix remove1_append
      remove1.simps(2) split_list)

lemma set_remove1_distinct [simp]: "distinct xs \<Longrightarrow> set (remove1 x xs) = set xs - {x}"
  by simp

lemma sorted_wrt_remove1: "sorted_wrt P xs \<Longrightarrow> sorted_wrt P (remove1 x xs)"
  by (induction xs) (use notin_set_remove1 in fastforce)+

lemma sorted_wrt_key_cong:
  "(\<And>x. x \<in> set xs \<Longrightarrow> f x = g x)
    \<Longrightarrow> sorted_wrt (\<lambda>a b. f a \<le> (f b :: 'k::ord)) xs \<longleftrightarrow> sorted_wrt (\<lambda>a b. g a \<le> g b) xs"
  by (induction xs) auto

lemma remove1_eq_Nil_iff:
  "distinct xs \<Longrightarrow> x \<in> set xs \<Longrightarrow> remove1 x xs = [] \<longleftrightarrow> length xs = 1"
  by (induction xs) (auto split: if_splits)

lemma hd_remove1_other: "xs \<noteq> [] \<Longrightarrow> hd xs \<noteq> x \<Longrightarrow> hd (remove1 x xs) = hd xs"
  by (cases xs) auto

lemma sorted_wrt_rotate_free:
  "sorted_wrt P (xs @ ys) \<Longrightarrow> sorted_wrt P xs \<and> sorted_wrt P ys"
  by (simp add: sorted_wrt_append)

section \<open>Ordered insertion\<close>

text \<open>
  \<open>ins v x xs\<close> inserts \<open>x\<close> with key \<open>v\<close> before the first element whose key is strictly greater.
\<close>

locale ordered_insert =
  fixes key :: "'a \<Rightarrow> 'k::linorder"
    and ins :: "'k \<Rightarrow> 'a \<Rightarrow> 'a list \<Rightarrow> 'a list"
  assumes ins_Nil: "ins v x [] = [x]"
    and ins_Cons: "ins v x (y # ys) = (if v < key y then x # y # ys else y # ins v x ys)"
begin

lemma set_ins: "set (ins v x xs) = insert x (set xs)"
  by (induction xs) (auto simp: ins_Nil ins_Cons)

lemma length_ins: "length (ins v x xs) = Suc (length xs)"
  by (induction xs) (auto simp: ins_Nil ins_Cons)

lemma ins_not_Nil: "ins v x xs \<noteq> []"
  using set_ins by (metis insert_not_empty set_empty)

lemma distinct_ins: "distinct (ins v x xs) \<longleftrightarrow> x \<notin> set xs \<and> distinct xs"
  by (induction xs) (auto simp: ins_Nil ins_Cons set_ins)

lemma sorted_ins:
  assumes "sorted_wrt (\<lambda>a b. key a \<le> key b) xs" and "key x = v"
  shows "sorted_wrt (\<lambda>a b. key a \<le> key b) (ins v x xs)"
  using assms by (induction xs) (auto simp: ins_Nil ins_Cons set_ins)

text \<open>Equal keys keep their order of arrival: the new element goes behind all of them.\<close>

lemma ins_split:
  "ins v x xs = takeWhile (\<lambda>y. key y \<le> v) xs @ x # dropWhile (\<lambda>y. key y \<le> v) xs"
  by (induction xs) (auto simp: ins_Nil ins_Cons)

lemma ins_last: "(\<And>y. y \<in> set xs \<Longrightarrow> key y \<le> v) \<Longrightarrow> ins v x xs = xs @ [x]"
  by (induction xs) (force simp: ins_Nil ins_Cons)+

lemma ins_first: "(\<And>y. y \<in> set xs \<Longrightarrow> v < key y) \<Longrightarrow> ins v x xs = x # xs"
  by (cases xs) (auto simp: ins_Nil ins_Cons)

lemma hd_ins:
  "hd (ins v x xs) = (if xs = [] \<or> v < key (hd xs) then x else hd xs)"
  by (cases xs) (auto simp: ins_Nil ins_Cons)

lemma remove1_ins: "x \<notin> set xs \<Longrightarrow> remove1 x (ins v x xs) = xs"
  by (induction xs) (auto simp: ins_Nil ins_Cons)

end

lemma sorted_wrt_hd_least:
  "sorted_wrt (\<lambda>a b. key a \<le> (key b :: 'k::linorder)) xs \<Longrightarrow> x \<in> set xs \<Longrightarrow> key (hd xs) \<le> key x"
  by (cases xs) auto

end
