(* ===== verification/Klist.thy ===== *)
theory Klist
  imports Rhino_Prelude
begin

text \<open>
  The intrusive doubly linked list of \<^verbatim>\<open>core/include/k_list.h\<close>, on an explicit store of nodes, and
  the proof that each of its operations is the corresponding operation on an Isabelle list. The
  other components work on lists; this theory is what entitles them to do so.
\<close>

section \<open>The code\<close>

text \<open>A node address is a number; the store gives every address its two links.\<close>

type_synonym naddr = nat

record klist_store =
  lnext :: "naddr \<Rightarrow> naddr"
  lprev :: "naddr \<Rightarrow> naddr"

definition set_next :: "naddr \<Rightarrow> naddr \<Rightarrow> klist_store \<Rightarrow> klist_store" where
  "set_next a b h = h\<lparr>lnext := (lnext h)(a := b)\<rparr>"

definition set_prev :: "naddr \<Rightarrow> naddr \<Rightarrow> klist_store \<Rightarrow> klist_store" where
  "set_prev a b h = h\<lparr>lprev := (lprev h)(a := b)\<rparr>"

definition klist_init :: "naddr \<Rightarrow> klist_store \<Rightarrow> klist_store" where
  "klist_init list_head h = set_prev list_head list_head (set_next list_head list_head h)"

definition is_klist_empty :: "naddr \<Rightarrow> klist_store \<Rightarrow> bool" where
  "is_klist_empty list h \<longleftrightarrow> lnext h list = list"

text \<open>Insertion before \<open>head\<close>, in the order of the four assignments of the source.\<close>

definition klist_insert :: "naddr \<Rightarrow> naddr \<Rightarrow> klist_store \<Rightarrow> klist_store" where
  "klist_insert head element h =
     (let h1 = set_prev element (lprev h head) h;
          h2 = set_next element head h1;
          h3 = set_next (lprev h2 head) element h2
      in set_prev head element h3)"

definition klist_add :: "naddr \<Rightarrow> naddr \<Rightarrow> klist_store \<Rightarrow> klist_store" where
  "klist_add head element h =
     (let h1 = set_prev element head h;
          h2 = set_next element (lnext h1 head) h1;
          h3 = set_prev (lnext h2 head) element h2
      in set_next head element h3)"

definition klist_rm :: "naddr \<Rightarrow> klist_store \<Rightarrow> klist_store" where
  "klist_rm element h =
     (let h1 = set_next (lprev h element) (lnext h element) h
      in set_prev (lnext h1 element) (lprev h1 element) h1)"

definition klist_rm_init :: "naddr \<Rightarrow> klist_store \<Rightarrow> klist_store" where
  "klist_rm_init element h =
     (let h2 = klist_rm element h
      in set_next element element (set_prev element element h2))"

lemmas klist_ops = set_next_def set_prev_def klist_init_def klist_insert_def klist_add_def
  klist_rm_def klist_rm_init_def Let_def

section \<open>The list a ring stands for\<close>

text \<open>Consecutive addresses of \<open>xs\<close> point at each other.\<close>

fun linked :: "klist_store \<Rightarrow> naddr list \<Rightarrow> bool" where
  "linked h (a # b # xs) \<longleftrightarrow> lnext h a = b \<and> lprev h b = a \<and> linked h (b # xs)"
| "linked h _ \<longleftrightarrow> True"

text \<open>The ring through \<open>head\<close> whose other nodes are, in order, \<open>xs\<close>.\<close>

definition ring :: "klist_store \<Rightarrow> naddr \<Rightarrow> naddr list \<Rightarrow> bool" where
  "ring h head xs \<longleftrightarrow> distinct (head # xs) \<and> linked h (head # xs @ [head])"

lemma linked_append: "linked h (xs @ a # ys) \<longleftrightarrow> linked h (xs @ [a]) \<and> linked h (a # ys)"
proof (induction xs)
  case (Cons x xs)
  then show ?case by (cases xs) auto
qed simp

lemma linked_cong:
  assumes "\<And>a. a \<in> set (butlast xs) \<Longrightarrow> lnext h' a = lnext h a"
    and "\<And>a. a \<in> set (tl xs) \<Longrightarrow> lprev h' a = lprev h a"
  shows "linked h' xs \<longleftrightarrow> linked h xs"
  using assms
proof (induction h xs rule: linked.induct)
  case (1 h a b xs)
  have "linked h' (b # xs) \<longleftrightarrow> linked h (b # xs)"
    using "1.prems" by (intro "1.IH") (auto split: if_splits dest: list.set_sel)
  then show ?case using "1.prems" by auto
qed auto

text \<open>A ring may be read from any of its nodes.\<close>

lemma ring_rotate: "ring h head (xs @ x # ys) \<longleftrightarrow> ring h x (ys @ head # xs)"
proof -
  have "linked h ((head # xs) @ x # (ys @ [head]))
      \<longleftrightarrow> linked h ((x # ys) @ head # (xs @ [x]))"
    using linked_append [of h "head # xs" x "ys @ [head]"]
      linked_append [of h "x # ys" head "xs @ [x]"] by auto
  then show ?thesis by (auto simp: ring_def)
qed

lemma ring_init: "ring (klist_init a h) a []"
  by (simp add: ring_def klist_ops)

lemma ring_is_empty: "ring h head xs \<Longrightarrow> is_klist_empty head h \<longleftrightarrow> xs = []"
  by (cases xs) (auto simp: ring_def is_klist_empty_def)

lemma ring_first: "ring h head (x # xs) \<Longrightarrow> lnext h head = x"
  by (simp add: ring_def)

lemma ring_next: "ring h head (xs @ x # y # ys) \<Longrightarrow> lnext h x = y"
  using ring_rotate [of h head xs x "y # ys"] by (simp add: ring_def)

lemma ring_last: "ring h head (xs @ [x]) \<Longrightarrow> lprev h head = x"
  using linked_append [of h "head # xs" x "[head]"] by (simp add: ring_def)

section \<open>The operations on rings\<close>

text \<open>
  \<open>klist_insert\<close> on the head appends; on any other node of the ring it inserts before that node.
\<close>

lemma ring_insert_tail:
  assumes r: "ring h head xs" and e: "e \<notin> set (head # xs)"
  shows "ring (klist_insert head e h) head (xs @ [e])"
proof (cases xs rule: rev_cases)
  case Nil
  with assms show ?thesis by (auto simp: ring_def klist_ops)
next
  case (snoc ys y)
  let ?h = "klist_insert head e h"
  have prev: "lprev h head = y"
    using r snoc by (auto intro: ring_last)
  have eqs: "lprev ?h e = y" "lnext ?h e = head" "lnext ?h y = e" "lprev ?h head = e"
    using e snoc r prev by (auto simp: klist_ops ring_def)
  have "linked h (head # ys @ [y])"
    using r snoc linked_append [of h "head # ys" y "[head]"] by (simp add: ring_def)
  moreover have "linked ?h (head # ys @ [y]) \<longleftrightarrow> linked h (head # ys @ [y])"
  proof (rule linked_cong)
    show "lnext ?h a = lnext h a" if "a \<in> set (butlast (head # ys @ [y]))" for a
      using that e r snoc prev by (auto simp: klist_ops ring_def butlast_append)
    show "lprev ?h a = lprev h a" if "a \<in> set (tl (head # ys @ [y]))" for a
      using that e r snoc prev by (auto simp: klist_ops ring_def)
  qed
  ultimately have "linked ?h (head # ys @ [y])" by simp
  then have "linked ?h ((head # ys) @ y # [e, head])"
    using eqs linked_append [of ?h "head # ys" y "[e, head]"] by simp
  then show ?thesis using r e snoc by (simp add: ring_def)
qed

lemma ring_insert_before:
  assumes "ring h head (xs @ x # ys)" and "e \<notin> set (head # xs @ x # ys)"
  shows "ring (klist_insert x e h) head (xs @ e # x # ys)"
proof -
  have "ring h x (ys @ head # xs)"
    using assms(1) ring_rotate [of h head xs x ys] by simp
  then have "ring (klist_insert x e h) x ((ys @ head # xs) @ [e])"
    using assms(2) by (intro ring_insert_tail) auto
  then have "ring (klist_insert x e h) x (ys @ head # (xs @ [e]))"
    by simp
  then have "ring (klist_insert x e h) head ((xs @ [e]) @ x # ys)"
    using ring_rotate [of "klist_insert x e h" x ys head "xs @ [e]"] by blast
  then show ?thesis by simp
qed

lemma klist_add_insert:
  assumes "ring h head (x # xs)" and "e \<notin> set (head # x # xs)"
  shows "klist_add head e h = klist_insert x e h"
proof -
  have "lnext h head = x" "lprev h x = head" "head \<noteq> x"
    using assms(1) by (auto simp: ring_def)
  then show ?thesis using assms(2) by (auto simp: klist_ops)
qed

text \<open>\<open>klist_add\<close> puts the element in front.\<close>

lemma ring_add:
  assumes "ring h head xs" and "e \<notin> set (head # xs)"
  shows "ring (klist_add head e h) head (e # xs)"
proof (cases xs)
  case Nil
  with assms show ?thesis by (auto simp: ring_def klist_ops)
next
  case (Cons y ys)
  with assms klist_add_insert [of h head y ys e] ring_insert_before [of h head "[]" y ys e]
  show ?thesis by simp
qed

text \<open>\<open>klist_rm\<close> takes the element out of the ring it is in, wherever it stands.\<close>

lemma ring_rm_last:
  assumes r: "ring h head (xs @ [x])"
  shows "ring (klist_rm x h) head xs"
proof -
  let ?h = "klist_rm x h"
  have nx: "lnext h x = head"
    using r linked_append [of h "head # xs" x "[head]"] by (simp add: ring_def)
  show ?thesis
  proof (cases xs rule: rev_cases)
    case Nil
    with r show ?thesis by (auto simp: ring_def klist_ops)
  next
    case (snoc ys y)
    have l: "linked h (head # ys @ [y])" and pv: "lprev h x = y"
      using r snoc linked_append [of h "head # ys" y "[x, head]"] by (auto simp: ring_def)
    have "linked ?h (head # ys @ [y]) \<longleftrightarrow> linked h (head # ys @ [y])"
    proof (rule linked_cong)
      show "lnext ?h a = lnext h a" if "a \<in> set (butlast (head # ys @ [y]))" for a
        using that r snoc nx pv by (auto simp: klist_ops ring_def butlast_append)
      show "lprev ?h a = lprev h a" if "a \<in> set (tl (head # ys @ [y]))" for a
        using that r snoc nx pv by (auto simp: klist_ops ring_def)
    qed
    moreover have "lnext ?h y = head" "lprev ?h head = y"
      using r snoc nx pv by (auto simp: klist_ops ring_def)
    ultimately have "linked ?h ((head # ys) @ y # [head])"
      using l linked_append [of ?h "head # ys" y "[head]"] by simp
    then show ?thesis using r snoc by (simp add: ring_def)
  qed
qed

lemma ring_rm:
  assumes "ring h head (xs @ x # ys)"
  shows "ring (klist_rm x h) head (xs @ ys)"
proof (cases ys)
  case Nil
  with assms ring_rm_last show ?thesis by simp
next
  case (Cons y zs)
  have "ring h head ((xs @ [x]) @ y # zs)" using assms Cons by simp
  then have "ring h y (zs @ head # (xs @ [x]))" by (simp only: ring_rotate)
  then have "ring h y ((zs @ head # xs) @ [x])" by simp
  then have "ring (klist_rm x h) y (zs @ head # xs)" by (rule ring_rm_last)
  then have "ring (klist_rm x h) head (xs @ y # zs)" by (simp only: ring_rotate)
  then show ?thesis using Cons by simp
qed

lemma ring_rm_remove1:
  "ring h head xs \<Longrightarrow> x \<in> set xs \<Longrightarrow> ring (klist_rm x h) head (remove1 x xs)"
proof -
  assume r: "ring h head xs" and x: "x \<in> set xs"
  then obtain ys zs where "xs = ys @ x # zs" "remove1 x xs = ys @ zs"
    using remove1_split [of x xs] by (auto simp: ring_def)
  with r show ?thesis using ring_rm by simp
qed

text \<open>A store in which another ring is changed keeps this one: rings do not share nodes.\<close>

lemma ring_cong:
  assumes "\<And>a. a \<in> set (head # xs) \<Longrightarrow> lnext h' a = lnext h a \<and> lprev h' a = lprev h a"
  shows "ring h' head xs \<longleftrightarrow> ring h head xs"
proof -
  have "linked h' (head # xs @ [head]) \<longleftrightarrow> linked h (head # xs @ [head])"
    using assms by (intro linked_cong) (auto simp: butlast_append split: if_splits)
  then show ?thesis by (simp add: ring_def)
qed

section \<open>The ordered walk\<close>

text \<open>
  The loop \<^verbatim>\<open>for (q = head->next; q != head; q = q->next) if (P(q)) break;\<close> on the store. It may run
  forever on a store that is no ring, hence the option.
\<close>

partial_function (option) klist_walk ::
  "(naddr \<Rightarrow> bool) \<Rightarrow> klist_store \<Rightarrow> naddr \<Rightarrow> naddr \<Rightarrow> naddr option" where
  "klist_walk P h head q =
     (if q = head then Some q else if P q then Some q else klist_walk P h head (lnext h q))"

definition klist_ordered_insert ::
  "(naddr \<Rightarrow> bool) \<Rightarrow> naddr \<Rightarrow> naddr \<Rightarrow> klist_store \<Rightarrow> klist_store option" where
  "klist_ordered_insert P head element h =
     map_option (\<lambda>q. klist_insert q element h) (klist_walk P h head (lnext h head))"

lemma klist_walk_ring:
  "ring h head (xs @ ys) \<Longrightarrow>
     klist_walk P h head (hd (ys @ [head])) = Some (hd (dropWhile (\<lambda>y. \<not> P y) ys @ [head]))"
proof (induction ys arbitrary: xs)
  case Nil
  then show ?case by (simp add: klist_walk.simps)
next
  case (Cons y ys)
  have ny: "lnext h y = hd (ys @ [head])"
    using Cons.prems ring_rotate [of h head xs y ys] by (cases ys) (auto simp: ring_def)
  have "y \<noteq> head" using Cons.prems by (auto simp: ring_def)
  moreover have "ring h head ((xs @ [y]) @ ys)" using Cons.prems by simp
  ultimately show ?case
    using Cons.IH [of "xs @ [y]"] ny by (simp add: klist_walk.simps)
qed

text \<open>On a ring the loop ends and the insertion it leads to is the ordered insertion on the list.\<close>

lemma ring_ordered_insert:
  assumes "ordered_insert key ins" and r: "ring h head xs" and e: "e \<notin> set (head # xs)"
  shows "\<exists>h'. klist_ordered_insert (\<lambda>q. v < key q) head e h = Some h' \<and> ring h' head (ins v e xs)"
proof -
  let ?P = "\<lambda>y. \<not> v < key y"
  have ins: "ins v e xs = takeWhile ?P xs @ e # dropWhile ?P xs"
    using ordered_insert.ins_split [OF assms(1)] by (simp add: not_less)
  have split: "ring h head (takeWhile ?P xs @ dropWhile ?P xs)" using r by simp
  have "lnext h head = hd (xs @ [head])"
    using r by (cases xs) (auto simp: ring_def)
  then have walk: "klist_walk (\<lambda>q. v < key q) h head (lnext h head)
      = Some (hd (dropWhile ?P xs @ [head]))"
    using klist_walk_ring [of h head "[]" xs] r by simp
  show ?thesis
  proof (cases "dropWhile ?P xs")
    case Nil
    then have "takeWhile ?P xs = xs" by (simp add: dropWhile_eq_Nil_conv takeWhile_eq_all_conv)
    with Nil have "ins v e xs = xs @ [e]"
      "klist_walk (\<lambda>q. v < key q) h head (lnext h head) = Some head"
      using ins walk by (simp_all only: append_Nil list.sel)
    with ring_insert_tail [OF r e] show ?thesis
      by (simp add: klist_ordered_insert_def)
  next
    case (Cons y ys)
    then have "ring h head (takeWhile ?P xs @ y # ys)" using split by simp
    moreover have "e \<notin> set (head # takeWhile ?P xs @ y # ys)"
      using e Cons by (metis set_ConsD takeWhile_dropWhile_id list.set_intros)
    ultimately have "ring (klist_insert y e h) head (takeWhile ?P xs @ e # y # ys)"
      by (rule ring_insert_before)
    with Cons walk ins show ?thesis by (simp add: klist_ordered_insert_def)
  qed
qed

end
