(* ===== verification/Kernel_Types.thy ===== *)
theory Kernel_Types
  imports Rhino_Prelude
begin

text \<open>
  The enumerations and build constants of the kernel: status codes (\<^verbatim>\<open>core/include/k_err.h\<close>),
  object and task states (\<^verbatim>\<open>core/include/k_obj.h\<close>, \<^verbatim>\<open>core/include/k_task.h\<close>), and the values the
  firmware's configuration (\<^verbatim>\<open>arch/include/k_config.h\<close>, \<^verbatim>\<open>configs/csi_config.h\<close>) gives to the
  symbols the modelled code uses.
\<close>

section \<open>Status codes\<close>

datatype (plugins only:) kstat =
    RHINO_SUCCESS | RHINO_SYS_FATAL_ERR | RHINO_SYS_SP_ERR | RHINO_RUNNING | RHINO_STOPPED
  | RHINO_INV_PARAM | RHINO_NULL_PTR | RHINO_INV_ALIGN | RHINO_KOBJ_TYPE_ERR | RHINO_KOBJ_DEL_ERR
  | RHINO_KOBJ_DOCKER_EXIST | RHINO_KOBJ_BLK | RHINO_KOBJ_SET_FULL | RHINO_NOTIFY_FUNC_EXIST
  | RHINO_MM_POOL_SIZE_ERR | RHINO_MM_ALLOC_SIZE_ERR | RHINO_MM_FREE_ADDR_ERR
  | RHINO_MM_CORRUPT_ERR | RHINO_DYN_MEM_PROC_ERR | RHINO_NO_MEM | RHINO_RINGBUF_FULL
  | RHINO_RINGBUF_EMPTY
  | RHINO_SCHED_DISABLE | RHINO_SCHED_ALREADY_ENABLED | RHINO_SCHED_LOCK_COUNT_OVF
  | RHINO_INV_SCHED_WAY
  | RHINO_TASK_INV_STACK_SIZE | RHINO_TASK_NOT_SUSPENDED | RHINO_TASK_DEL_NOT_ALLOWED
  | RHINO_TASK_SUSPEND_NOT_ALLOWED | RHINO_SUSPENDED_COUNT_OVF | RHINO_BEYOND_MAX_PRI
  | RHINO_PRI_CHG_NOT_ALLOWED | RHINO_INV_TASK_STATE | RHINO_IDLE_TASK_EXIST
  | RHINO_NO_PEND_WAIT | RHINO_BLK_ABORT | RHINO_BLK_TIMEOUT | RHINO_BLK_DEL
  | RHINO_BLK_INV_STATE | RHINO_BLK_POOL_SIZE_ERR
  | RHINO_TIMER_STATE_INV
  | RHINO_NO_THIS_EVENT_OPT
  | RHINO_BUF_QUEUE_INV_SIZE | RHINO_BUF_QUEUE_SIZE_ZERO | RHINO_BUF_QUEUE_FULL
  | RHINO_BUF_QUEUE_MSG_SIZE_OVERFLOW | RHINO_QUEUE_FULL | RHINO_QUEUE_NOT_FULL
  | RHINO_SEM_OVF | RHINO_SEM_TASK_WAITING
  | RHINO_MUTEX_NOT_RELEASED_BY_OWNER | RHINO_MUTEX_OWNER_NESTED | RHINO_MUTEX_NESTED_OVF
  | RHINO_INTRPT_NESTED_LEVEL_OVERFLOW | RHINO_INV_INTRPT_NESTED_LEVEL
  | RHINO_NOT_CALLED_BY_INTRPT | RHINO_TRY_AGAIN
  | RHINO_WORKQUEUE_EXIST | RHINO_WORKQUEUE_NOT_EXIST | RHINO_WORKQUEUE_WORK_EXIST
  | RHINO_WORKQUEUE_BUSY | RHINO_WORKQUEUE_WORK_RUNNING
  | RHINO_TASK_STACK_OVF | RHINO_INTRPT_STACK_OVF

text \<open>Equality of status codes, for the code that compares them.\<close>

instantiation kstat :: equal
begin

definition equal_kstat :: "kstat \<Rightarrow> kstat \<Rightarrow> bool" where
  "equal_kstat a b \<longleftrightarrow> a = b"

instance by standard (simp add: equal_kstat_def)

end

section \<open>Object and task states\<close>

datatype blk_policy_t = BLK_POLICY_PRI | BLK_POLICY_FIFO

datatype blk_state_t = BLK_FINISH | BLK_ABORT | BLK_TIMEOUT | BLK_DEL | BLK_INVALID

datatype kobj_type_t =
    RHINO_OBJ_TYPE_NONE | RHINO_SEM_OBJ_TYPE | RHINO_MUTEX_OBJ_TYPE | RHINO_QUEUE_OBJ_TYPE
  | RHINO_BUF_QUEUE_OBJ_TYPE | RHINO_TIMER_OBJ_TYPE | RHINO_EVENT_OBJ_TYPE
  | RHINO_MM_BLK_OBJ_TYPE | RHINO_MM_OBJ_TYPE

datatype task_stat_t =
    K_SEED | K_RDY | K_PEND | K_SUSPENDED | K_PEND_SUSPENDED | K_SLEEP | K_SLEEP_SUSPENDED
  | K_DELETED

datatype mm_alloc_flag_t = K_OBJ_STATIC_ALLOC | K_OBJ_DYN_ALLOC

section \<open>Build constants\<close>

definition RHINO_CONFIG_PRI_MAX :: nat where
  "RHINO_CONFIG_PRI_MAX = 62"

definition RHINO_IDLE_PRI :: nat where
  "RHINO_IDLE_PRI = RHINO_CONFIG_PRI_MAX - 1"

definition RHINO_CONFIG_TIME_SLICE_DEFAULT :: u32 where
  "RHINO_CONFIG_TIME_SLICE_DEFAULT = 5"

definition RHINO_CONFIG_INTRPT_MAX_NESTED_LEVEL :: u8 where
  "RHINO_CONFIG_INTRPT_MAX_NESTED_LEVEL = 188"

definition RHINO_CONFIG_TICKS_PER_SECOND :: nat where
  "RHINO_CONFIG_TICKS_PER_SECOND = 1000"

definition SCHED_MAX_LOCK_COUNT :: u8 where
  "SCHED_MAX_LOCK_COUNT = 200"

definition NUM_WORDS :: nat where
  "NUM_WORDS = (RHINO_CONFIG_PRI_MAX + 31) div 32"

definition RHINO_NO_WAIT :: u64 where
  "RHINO_NO_WAIT = 0"

definition RHINO_WAIT_FOREVER :: u64 where
  "RHINO_WAIT_FOREVER = - 1"

definition KSCHED_FIFO :: u8 where
  "KSCHED_FIFO = 0"

definition KSCHED_RR :: u8 where
  "KSCHED_RR = 1"

lemma pri_consts [simp]:
  "RHINO_CONFIG_PRI_MAX = 62" "RHINO_IDLE_PRI = 61" "NUM_WORDS = 2"
  by (simp_all add: RHINO_CONFIG_PRI_MAX_def RHINO_IDLE_PRI_def NUM_WORDS_def)

lemma wait_consts [simp]: "RHINO_NO_WAIT = 0" "RHINO_WAIT_FOREVER = - 1"
  by (simp_all add: RHINO_NO_WAIT_def RHINO_WAIT_FOREVER_def)

end
