(* ===== verification/Ringbuf.thy ===== *)
theory Ringbuf
  imports Kernel_Types
begin

unbundle bit_operations_syntax

text \<open>
  The byte ring of \<^verbatim>\<open>core/k_ringbuf.c\<close>, which stores the messages of the kernel's queues, either as
  blocks of one size or as messages of any length behind a one to three byte length header. The
  memory from \<open>buf\<close> to \<open>end\<close> is a list of bytes and the pointers \<open>head\<close> and \<open>tail\<close> are offsets into
  it; \<open>end\<close> is its length. A \<^verbatim>\<open>memcpy\<close> that left the buffer would change the length of that list, so
  that the length is kept is the statement that every access stays inside.

  The refinement: a ring holds a list of messages; \<open>push\<close> appends one or reports that it does not
  fit, \<open>pop\<close> takes the oldest. The locale \<open>message_fifo\<close> is this contract.
\<close>

section \<open>The code\<close>

datatype ringbuf_type = RINGBUF_TYPE_FIX | RINGBUF_TYPE_DYN

record k_ringbuf_t =
  rb_mem :: "u8 list"
  rb_head :: nat
  rb_tail :: nat
  rb_freesize :: nat
  rb_type :: ringbuf_type
  rb_blk_size :: nat

definition rb_end :: "k_ringbuf_t \<Rightarrow> nat" where
  "rb_end rb = length (rb_mem rb)"

definition mem_put :: "u8 list \<Rightarrow> nat \<Rightarrow> u8 list \<Rightarrow> u8 list" where
  "mem_put mem off bs = take off mem @ bs @ drop (off + length bs) mem"

definition mem_get :: "u8 list \<Rightarrow> nat \<Rightarrow> nat \<Rightarrow> u8 list" where
  "mem_get mem off n = take n (drop off mem)"

definition ringbuf_reset :: "k_ringbuf_t \<Rightarrow> k_ringbuf_t" where
  "ringbuf_reset rb = rb\<lparr>rb_head := 0, rb_tail := 0, rb_freesize := rb_end rb\<rparr>"

definition ringbuf_init :: "u8 list \<Rightarrow> ringbuf_type \<Rightarrow> nat \<Rightarrow> k_ringbuf_t" where
  "ringbuf_init buf type block_size =
     ringbuf_reset \<lparr>rb_mem = buf, rb_head = 0, rb_tail = 0, rb_freesize = 0, rb_type = type,
       rb_blk_size = block_size\<rparr>"

text \<open>The number of header bytes; \<open>None\<close> is the \<open>RHINO_INV_PARAM\<close> the macro yields.\<close>

definition COMPRESS_LEN :: "nat \<Rightarrow> nat option" where
  "COMPRESS_LEN x = (if x \<le> 0x7f then Some 1 else if x \<le> 0x3fff then Some 2
     else if x \<le> 0x3fffff then Some 3 else None)"

text \<open>\<open>len_byte i len\<close> is the byte \<open>p_len[i]\<close> of the length in network order.\<close>

definition len_byte :: "nat \<Rightarrow> nat \<Rightarrow> u8" where
  "len_byte i len = word_of_nat (drop_bit (8 * (3 - i)) len)"

definition ringbuf_headlen_compress :: "nat \<Rightarrow> u8 list option" where
  "ringbuf_headlen_compress head_len = (case COMPRESS_LEN head_len of
     None \<Rightarrow> None
   | Some n \<Rightarrow>
       Some (if n = 1 then [0x7f AND len_byte 3 head_len]
        else if n = 2 then [0x80 OR len_byte 2 head_len, len_byte 3 head_len]
        else [0xC0 OR len_byte 1 head_len, len_byte 2 head_len, len_byte 3 head_len]))"

definition ringbuf_headlen_decompress :: "u8 list \<Rightarrow> nat" where
  "ringbuf_headlen_decompress cmp_buf =
     (let bs = (if length cmp_buf > 1 then (hd cmp_buf AND 0x3f) # tl cmp_buf else cmp_buf)
      in foldl (\<lambda>v b. 256 * v + unat b) 0 bs)"

definition ringbuf_is_full :: "k_ringbuf_t \<Rightarrow> bool" where
  "ringbuf_is_full rb \<longleftrightarrow>
     (rb_type rb = RINGBUF_TYPE_DYN \<and> rb_freesize rb < 2) \<or>
     (rb_type rb = RINGBUF_TYPE_FIX \<and> rb_freesize rb < rb_blk_size rb)"

definition ringbuf_is_empty :: "k_ringbuf_t \<Rightarrow> bool" where
  "ringbuf_is_empty rb \<longleftrightarrow> rb_freesize rb = rb_end rb"

definition norm_tail :: "k_ringbuf_t \<Rightarrow> k_ringbuf_t" where
  "norm_tail rb = (if rb_tail rb = rb_end rb then rb\<lparr>rb_tail := 0\<rparr> else rb)"

definition norm_head :: "k_ringbuf_t \<Rightarrow> k_ringbuf_t" where
  "norm_head rb = (if rb_head rb = rb_end rb then rb\<lparr>rb_head := 0\<rparr> else rb)"

text \<open>Copying bytes to the tail and moving it, the two statements that occur four times in \<open>push\<close>.\<close>

definition put_tail :: "u8 list \<Rightarrow> k_ringbuf_t \<Rightarrow> k_ringbuf_t" where
  "put_tail bs rb = rb\<lparr>rb_mem := mem_put (rb_mem rb) (rb_tail rb) bs,
     rb_tail := rb_tail rb + length bs, rb_freesize := rb_freesize rb - length bs\<rparr>"

text \<open>
  The copy of one item (header or data) with the split at the end of the buffer. After a split the
  source sets \<open>tail\<close> to \<open>buf\<close>, which is what \<open>rb_tail := 0\<close> does.
\<close>

definition copy_in :: "u8 list \<Rightarrow> k_ringbuf_t \<Rightarrow> k_ringbuf_t" where
  "copy_in bs rb =
     (let split_len = rb_end rb - rb_tail rb
      in if rb_head rb \<le> rb_tail rb \<and> split_len < length bs \<and> split_len > 0
         then put_tail (drop split_len bs) ((put_tail (take split_len bs) rb)\<lparr>rb_tail := 0\<rparr>)
         else put_tail bs rb)"

definition ringbuf_push :: "u8 list \<Rightarrow> nat \<Rightarrow> k_ringbuf_t \<Rightarrow> k_ringbuf_t \<times> kstat" where
  "ringbuf_push data len rb =
     (if ringbuf_is_full rb then (rb, RHINO_RINGBUF_FULL)
      else if rb_type rb = RINGBUF_TYPE_FIX
      then (put_tail (take (rb_blk_size rb) data) (norm_tail rb), RHINO_SUCCESS)
      else (case ringbuf_headlen_compress len of
          None \<Rightarrow> (rb, RHINO_INV_PARAM)
        | Some c_len \<Rightarrow>
            if rb_freesize rb < length c_len + len then (rb, RHINO_RINGBUF_FULL)
            else (let rb1 = copy_in c_len (norm_tail rb);
                      rb2 = copy_in (take len data) (norm_tail rb1)
                  in (rb2, RHINO_SUCCESS))))"

text \<open>Reading from the head and moving it.\<close>

definition get_head :: "nat \<Rightarrow> k_ringbuf_t \<Rightarrow> u8 list \<times> k_ringbuf_t" where
  "get_head n rb = (mem_get (rb_mem rb) (rb_head rb) n,
     rb\<lparr>rb_head := rb_head rb + n, rb_freesize := rb_freesize rb + n\<rparr>)"

definition head_len_bytes :: "u8 \<Rightarrow> nat option" where
  "head_len_bytes b =
     (if b AND 0x80 = 0 then Some 1
      else if b AND 0xC0 = 0x80 then Some 2
      else if b AND 0xC0 = 0xC0 then Some 3 else None)"

definition copy_out_header :: "nat \<Rightarrow> k_ringbuf_t \<Rightarrow> u8 list \<times> k_ringbuf_t" where
  "copy_out_header len_bytes rb =
     (let split_len = rb_end rb - rb_head rb
      in if split_len < len_bytes \<and> split_len > 0
         then (case get_head split_len rb of (b1, rb1) \<Rightarrow>
               case get_head (len_bytes - split_len) (rb1\<lparr>rb_head := 0\<rparr>) of (b2, rb2) \<Rightarrow>
                 (b1 @ b2, rb2))
         else get_head len_bytes rb)"

definition copy_out_data :: "nat \<Rightarrow> k_ringbuf_t \<Rightarrow> u8 list \<times> k_ringbuf_t" where
  "copy_out_data len rb =
     (let split_len = rb_end rb - rb_head rb
      in if rb_tail rb < rb_head rb \<and> split_len < len
         then (case get_head split_len rb of (b1, rb1) \<Rightarrow>
               case get_head (len - split_len) (rb1\<lparr>rb_head := 0\<rparr>) of (b2, rb2) \<Rightarrow>
                 (b1 @ b2, rb2))
         else get_head len rb)"

text \<open>The result of \<open>pop\<close>: the ring, the status, and the bytes written to \<open>pdata\<close> (their number is \<open>*plen\<close>).\<close>

definition ringbuf_pop :: "k_ringbuf_t \<Rightarrow> k_ringbuf_t \<times> kstat \<times> u8 list" where
  "ringbuf_pop rb =
     (if ringbuf_is_empty rb then (rb, RHINO_RINGBUF_EMPTY, [])
      else if rb_type rb = RINGBUF_TYPE_FIX
      then (case get_head (rb_blk_size rb) (norm_head rb) of (bs, rb1) \<Rightarrow> (rb1, RHINO_SUCCESS, bs))
      else (let rb0 = norm_head rb in
        case head_len_bytes (rb_mem rb0 ! rb_head rb0) of
          None \<Rightarrow> (rb0, RHINO_INV_PARAM, [])
        | Some len_bytes \<Rightarrow>
            (case copy_out_header len_bytes rb0 of (c_len, rb1) \<Rightarrow>
               let len = ringbuf_headlen_decompress c_len in
               case copy_out_data len (norm_head rb1) of (bs, rb2) \<Rightarrow> (rb2, RHINO_SUCCESS, bs))))"

section \<open>The bytes a ring stands for\<close>

definition rb_used :: "k_ringbuf_t \<Rightarrow> nat" where
  "rb_used rb = rb_end rb - rb_freesize rb"

definition ring_bytes :: "k_ringbuf_t \<Rightarrow> u8 list" where
  "ring_bytes rb =
     map (\<lambda>i. rb_mem rb ! ((rb_head rb + i) mod rb_end rb)) [0..<rb_used rb]"

definition rb_inv :: "k_ringbuf_t \<Rightarrow> bool" where
  "rb_inv rb \<longleftrightarrow> 0 < rb_end rb \<and> rb_head rb \<le> rb_end rb \<and> rb_tail rb \<le> rb_end rb
     \<and> rb_freesize rb \<le> rb_end rb
     \<and> rb_tail rb mod rb_end rb = (rb_head rb + rb_used rb) mod rb_end rb"

lemma length_ring_bytes [simp]: "length (ring_bytes rb) = rb_used rb"
  by (simp add: ring_bytes_def)

lemma mod_offset_inj:
  fixes h :: nat
  assumes "(h + i) mod n = (h + j) mod n" "i < n" "j < n"
  shows "i = j"
proof -
  have *: "i = j" if "i \<le> j" "(h + j) mod n = (h + i) mod n" "j < n" for i j
  proof -
    have "n dvd (h + j) - (h + i)" using that mod_eq_dvd_iff_nat [of "h + i" "h + j" n] by simp
    then have "n dvd j - i" by simp
    then show ?thesis using that by (metis diff_is_0_eq dvd_imp_le le_antisym less_imp_diff_less
        not_le zero_less_diff)
  qed
  show ?thesis using *[of i j] *[of j i] assms by (cases "i \<le> j") auto
qed

lemma length_mem_put [simp]: "off + length bs \<le> length mem \<Longrightarrow> length (mem_put mem off bs) = length mem"
  by (simp add: mem_put_def)

lemma nth_mem_put:
  assumes "off + length bs \<le> length mem" "j < length mem"
  shows "mem_put mem off bs ! j = (if off \<le> j \<and> j < off + length bs then bs ! (j - off) else mem ! j)"
  using assms by (auto simp: mem_put_def nth_append)

lemma rb_end_simps [simp]:
  "rb_end (rb\<lparr>rb_head := x\<rparr>) = rb_end rb" "rb_end (rb\<lparr>rb_tail := x\<rparr>) = rb_end rb"
  "rb_end (rb\<lparr>rb_freesize := x\<rparr>) = rb_end rb" "rb_end (rb\<lparr>rb_mem := m\<rparr>) = length m"
  by (simp_all add: rb_end_def)

text \<open>Where no wrap is needed, the copy to the tail appends the bytes and stays in the buffer.\<close>

lemma put_tail_spec:
  assumes inv: "rb_inv rb" and t: "rb_tail rb < rb_end rb"
    and fit: "length bs \<le> rb_freesize rb" and room: "rb_tail rb + length bs \<le> rb_end rb"
  shows "rb_inv (put_tail bs rb)" "ring_bytes (put_tail bs rb) = ring_bytes rb @ bs"
    "rb_end (put_tail bs rb) = rb_end rb"
proof -
  let ?N = "rb_end rb" and ?u = "rb_used rb" and ?l = "length bs" and ?rb = "put_tail bs rb"
  have len: "length (mem_put (rb_mem rb) (rb_tail rb) bs) = ?N"
    using room by (simp add: rb_end_def)
  then show e: "rb_end ?rb = ?N" by (simp add: put_tail_def)
  have u: "rb_used ?rb = ?u + ?l" "?u + ?l \<le> ?N"
    using fit inv e by (auto simp: rb_used_def put_tail_def rb_inv_def)
  have tl: "(rb_head rb + (?u + k)) mod ?N = (rb_tail rb + k) mod ?N" for k
    using inv by (metis add.assoc mod_add_left_eq rb_inv_def)
  have "(rb_tail rb + ?l) mod ?N = (rb_head rb + (?u + ?l)) mod ?N"
    by (simp add: tl)
  then show "rb_inv ?rb"
    using inv room fit e u by (auto simp: rb_inv_def put_tail_def)
  show "ring_bytes ?rb = ring_bytes rb @ bs"
  proof (rule nth_equalityI)
    show "length (ring_bytes ?rb) = length (ring_bytes rb @ bs)" using u by simp
    fix i assume "i < length (ring_bytes ?rb)"
    then have i: "i < ?u + ?l" "i < ?N" using u by auto
    let ?j = "(rb_head rb + i) mod ?N"
    have "0 < length (rb_mem rb)" using t unfolding rb_end_def by linarith
    then have j: "?j < length (rb_mem rb)" by (simp add: rb_end_def)
    have lhs: "ring_bytes ?rb ! i = mem_put (rb_mem rb) (rb_tail rb) bs ! ?j"
      using i u e by (simp add: ring_bytes_def put_tail_def)
    show "ring_bytes ?rb ! i = (ring_bytes rb @ bs) ! i"
    proof (cases "i < ?u")
      case True
      have "\<not> (rb_tail rb \<le> ?j \<and> ?j < rb_tail rb + ?l)"
      proof
        assume *: "rb_tail rb \<le> ?j \<and> ?j < rb_tail rb + ?l"
        define k where "k = ?j - rb_tail rb"
        have k: "k < ?l" "?j = rb_tail rb + k" using * by (auto simp: k_def)
        have "rb_tail rb + k < ?N" using k(1) room by linarith
        then have "(rb_head rb + i) mod ?N = (rb_head rb + (?u + k)) mod ?N"
          unfolding tl [of k] k(2) by simp
        moreover have "?u + k < ?N" using k(1) u(2) by linarith
        ultimately have "i = ?u + k" by (rule mod_offset_inj [OF _ i(2)])
        with True show False by simp
      qed
      then have "mem_put (rb_mem rb) (rb_tail rb) bs ! ?j = rb_mem rb ! ?j"
        using nth_mem_put [OF _ j, of "rb_tail rb" bs] room by (auto simp: rb_end_def)
      then show ?thesis
        unfolding lhs using True by (simp add: nth_append) (simp add: ring_bytes_def)
    next
      case False
      define k where "k = i - ?u"
      have k: "k < ?l" "i = ?u + k" using False i by (auto simp: k_def)
      have "?j = rb_tail rb + k" using tl [of k] k room by simp
      then show ?thesis
        using lhs k j nth_mem_put [of "rb_tail rb" bs "rb_mem rb" ?j] room
        by (simp add: nth_append rb_end_def)
    qed
  qed
qed

lemma put_tail_frame [simp]:
  "rb_head (put_tail bs rb) = rb_head rb" "rb_type (put_tail bs rb) = rb_type rb"
  "rb_blk_size (put_tail bs rb) = rb_blk_size rb"
  "rb_freesize (put_tail bs rb) = rb_freesize rb - length bs"
  "rb_tail (put_tail bs rb) = rb_tail rb + length bs"
  by (simp_all add: put_tail_def)

text \<open>A pointer at the end of the buffer and one at its start mean the same place.\<close>

lemma tail_zero_spec:
  assumes "rb_inv rb" "rb_tail rb = rb_end rb"
  shows "rb_inv (rb\<lparr>rb_tail := 0\<rparr>)" "ring_bytes (rb\<lparr>rb_tail := 0\<rparr>) = ring_bytes rb"
  using assms by (auto simp: rb_inv_def ring_bytes_def rb_used_def)

lemma head_zero_spec:
  assumes "rb_inv rb" "rb_head rb = rb_end rb"
  shows "rb_inv (rb\<lparr>rb_head := 0\<rparr>)" "ring_bytes (rb\<lparr>rb_head := 0\<rparr>) = ring_bytes rb"
  using assms by (auto simp: rb_inv_def ring_bytes_def rb_used_def)

lemma norm_tail_spec:
  assumes "rb_inv rb"
  shows "rb_inv (norm_tail rb)" "ring_bytes (norm_tail rb) = ring_bytes rb"
    "rb_tail (norm_tail rb) < rb_end rb" "rb_end (norm_tail rb) = rb_end rb"
    "rb_freesize (norm_tail rb) = rb_freesize rb" "rb_type (norm_tail rb) = rb_type rb"
    "rb_blk_size (norm_tail rb) = rb_blk_size rb" "rb_head (norm_tail rb) = rb_head rb"
  using assms tail_zero_spec [OF assms] by (auto simp: norm_tail_def rb_inv_def)

lemma norm_head_spec:
  assumes "rb_inv rb"
  shows "rb_inv (norm_head rb)" "ring_bytes (norm_head rb) = ring_bytes rb"
    "rb_head (norm_head rb) < rb_end rb" "rb_end (norm_head rb) = rb_end rb"
    "rb_freesize (norm_head rb) = rb_freesize rb" "rb_type (norm_head rb) = rb_type rb"
    "rb_blk_size (norm_head rb) = rb_blk_size rb" "rb_tail (norm_head rb) = rb_tail rb"
  using assms head_zero_spec [OF assms] by (auto simp: norm_head_def rb_inv_def)

text \<open>Below the head, the free space is exactly the gap up to the head.\<close>

lemma free_below_head:
  assumes "rb_inv rb" "rb_tail rb < rb_head rb"
  shows "rb_freesize rb \<le> rb_head rb - rb_tail rb"
proof -
  let ?N = "rb_end rb" and ?u = "rb_used rb" and ?h = "rb_head rb" and ?t = "rb_tail rb"
  have b: "?h \<le> ?N" "?u \<le> ?N" "0 < ?N" "rb_freesize rb = ?N - ?u"
    using assms by (auto simp: rb_inv_def rb_used_def)
  have m: "?t = (?h + ?u) mod ?N" using assms b by (simp add: rb_inv_def)
  show ?thesis
  proof (cases "?h + ?u < ?N")
    case True
    then show ?thesis using m assms(2) by simp
  next
    case False
    have "(?h + ?u) mod ?N = (?h + ?u - ?N) mod ?N"
      using False by (simp add: le_mod_geq)
    also have "\<dots> \<le> ?h + ?u - ?N" by simp
    finally have "?t \<le> ?h + ?u - ?N" using m by simp
    then show ?thesis using b False by linarith
  qed
qed

lemma copy_in_spec:
  assumes inv: "rb_inv rb" and t: "rb_tail rb < rb_end rb" and fit: "length bs \<le> rb_freesize rb"
  shows "rb_inv (copy_in bs rb)" "ring_bytes (copy_in bs rb) = ring_bytes rb @ bs"
    "rb_end (copy_in bs rb) = rb_end rb" "rb_freesize (copy_in bs rb) = rb_freesize rb - length bs"
    "rb_type (copy_in bs rb) = rb_type rb" "rb_blk_size (copy_in bs rb) = rb_blk_size rb"
    "rb_head (copy_in bs rb) = rb_head rb"
proof -
  let ?k = "rb_end rb - rb_tail rb"
  have "rb_inv (copy_in bs rb) \<and> ring_bytes (copy_in bs rb) = ring_bytes rb @ bs
    \<and> rb_end (copy_in bs rb) = rb_end rb"
  proof (cases "rb_head rb \<le> rb_tail rb \<and> ?k < length bs \<and> ?k > 0")
    case True
    let ?r1 = "put_tail (take ?k bs) rb"
    have l1: "length (take ?k bs) = ?k" using True by simp
    have r1: "rb_inv ?r1" "ring_bytes ?r1 = ring_bytes rb @ take ?k bs" "rb_end ?r1 = rb_end rb"
      using put_tail_spec [OF inv t, of "take ?k bs"] l1 fit True by auto
    have z: "rb_tail ?r1 = rb_end ?r1" using l1 r1(3) t by simp
    let ?r2 = "?r1\<lparr>rb_tail := 0\<rparr>"
    have r2: "rb_inv ?r2" "ring_bytes ?r2 = ring_bytes rb @ take ?k bs" "rb_end ?r2 = rb_end rb"
      using tail_zero_spec [OF r1(1) z] r1 by auto
    have l3: "length (drop ?k bs) \<le> rb_freesize ?r2" "length (drop ?k bs) \<le> rb_end ?r2"
      using fit l1 inv r2(3) by (auto simp: rb_inv_def)
    have "rb_tail ?r2 < rb_end ?r2" using t r2(3) by simp
    from put_tail_spec [OF r2(1) this l3(1)] l3(2) r2 True
    show ?thesis by (simp add: copy_in_def Let_def)
  next
    case False
    have "rb_tail rb + length bs \<le> rb_end rb"
    proof (cases "rb_tail rb < rb_head rb")
      case True
      then show ?thesis using free_below_head [OF inv] fit inv by (auto simp: rb_inv_def)
    next
      case False2: False
      with False t show ?thesis by auto
    qed
    from put_tail_spec [OF inv t fit this] show ?thesis
      unfolding copy_in_def Let_def if_not_P [OF False] by simp
  qed
  then show "rb_inv (copy_in bs rb)" "ring_bytes (copy_in bs rb) = ring_bytes rb @ bs"
    "rb_end (copy_in bs rb) = rb_end rb" by auto
qed (auto simp: copy_in_def Let_def)

text \<open>Reading from the head without a wrap takes the oldest bytes.\<close>

lemma get_head_spec:
  assumes inv: "rb_inv rb" and n: "n \<le> rb_used rb" and room: "rb_head rb + n \<le> rb_end rb"
  shows "fst (get_head n rb) = take n (ring_bytes rb)"
    "rb_inv (snd (get_head n rb))" "ring_bytes (snd (get_head n rb)) = drop n (ring_bytes rb)"
proof -
  let ?N = "rb_end rb" and ?rb = "snd (get_head n rb)"
  have used: "rb_used ?rb = rb_used rb - n" "rb_used rb \<le> ?N" "rb_end ?rb = ?N"
    using inv by (auto simp: rb_used_def get_head_def rb_end_def)
  show "fst (get_head n rb) = take n (ring_bytes rb)"
  proof (rule nth_equalityI)
    show "length (fst (get_head n rb)) = length (take n (ring_bytes rb))"
      using room n by (simp add: get_head_def mem_get_def rb_end_def)
    fix i assume "i < length (fst (get_head n rb))"
    then have i: "i < n" "rb_head rb + i < ?N"
      using room by (auto simp: get_head_def mem_get_def rb_end_def)
    then show "fst (get_head n rb) ! i = take n (ring_bytes rb) ! i"
      using n by (simp add: get_head_def mem_get_def ring_bytes_def rb_end_def)
  qed
  show "rb_inv ?rb"
    using inv used n room by (auto simp: rb_inv_def get_head_def rb_used_def rb_end_def)
  show "ring_bytes ?rb = drop n (ring_bytes rb)"
  proof (rule nth_equalityI)
    show "length (ring_bytes ?rb) = length (drop n (ring_bytes rb))" using used by simp
    fix i assume "i < length (ring_bytes ?rb)"
    then show "ring_bytes ?rb ! i = drop n (ring_bytes rb) ! i"
      using used by (simp add: ring_bytes_def get_head_def add.assoc rb_end_def)
  qed
qed

lemma get_head_frame [simp]:
  "rb_type (snd (get_head n rb)) = rb_type rb"
  "rb_blk_size (snd (get_head n rb)) = rb_blk_size rb"
  "rb_tail (snd (get_head n rb)) = rb_tail rb" "rb_end (snd (get_head n rb)) = rb_end rb"
  "rb_head (snd (get_head n rb)) = rb_head rb + n" "rb_mem (snd (get_head n rb)) = rb_mem rb"
  "rb_freesize (snd (get_head n rb)) = rb_freesize rb + n"
  by (simp_all add: get_head_def rb_end_def)

text \<open>The wrapped read, from a head that has bytes up to the end of the buffer.\<close>

definition get_split :: "nat \<Rightarrow> k_ringbuf_t \<Rightarrow> u8 list \<times> k_ringbuf_t" where
  "get_split n rb = (let k = rb_end rb - rb_head rb in
     case get_head k rb of (b1, rb1) \<Rightarrow>
     case get_head (n - k) (rb1\<lparr>rb_head := 0\<rparr>) of (b2, rb2) \<Rightarrow> (b1 @ b2, rb2))"

lemma get_split_spec:
  assumes inv: "rb_inv rb" and n: "n \<le> rb_used rb" and k: "rb_end rb - rb_head rb \<le> n"
  shows "fst (get_split n rb) = take n (ring_bytes rb)" "rb_inv (snd (get_split n rb))"
    "ring_bytes (snd (get_split n rb)) = drop n (ring_bytes rb)"
    "rb_freesize (snd (get_split n rb)) = rb_freesize rb + n"
proof -
  let ?k = "rb_end rb - rb_head rb"
  obtain b1 rb1 where g1: "get_head ?k rb = (b1, rb1)" by fastforce
  have hk: "rb_head rb + ?k \<le> rb_end rb" "?k \<le> rb_used rb"
    using inv k n by (auto simp: rb_inv_def)
  have r1: "b1 = take ?k (ring_bytes rb)" "rb_inv rb1" "ring_bytes rb1 = drop ?k (ring_bytes rb)"
    using get_head_spec [OF inv hk(2,1)] g1 by simp_all
  have f1: "rb_head rb1 = rb_end rb1" "rb_freesize rb1 = rb_freesize rb + ?k"
    using get_head_frame [of ?k rb] g1 inv by (auto simp: rb_inv_def)
  let ?r = "rb1\<lparr>rb_head := 0\<rparr>"
  have r2: "rb_inv ?r" "ring_bytes ?r = drop ?k (ring_bytes rb)"
    using head_zero_spec [OF r1(2) f1(1)] r1(3) by auto
  obtain b2 rb2 where g2: "get_head (n - ?k) ?r = (b2, rb2)" by fastforce
  have u: "n - ?k \<le> rb_used ?r" using r2(2) n by (metis diff_le_mono length_drop length_ring_bytes)
  moreover have "rb_head ?r + (n - ?k) \<le> rb_end ?r"
    using u r2(1) by (simp add: rb_used_def rb_inv_def) 
  ultimately have r3: "b2 = take (n - ?k) (ring_bytes ?r)" "rb_inv rb2"
    "ring_bytes rb2 = drop (n - ?k) (ring_bytes ?r)"
    using get_head_spec [OF r2(1)] g2 by fastforce+
  have "get_split n rb = (b1 @ b2, rb2)" using g1 g2 by (simp add: get_split_def)
  moreover have "b1 @ b2 = take n (ring_bytes rb)"
    using r1(1) r3(1) r2(2) k by (metis le_add_diff_inverse take_add)
  moreover have "ring_bytes rb2 = drop n (ring_bytes rb)"
    using r3(3) r2(2) k by simp
  moreover have "rb_freesize rb2 = rb_freesize rb + n"
    using get_head_frame(7) [of "n - ?k" ?r] g2 f1(2) k by simp
  ultimately show "fst (get_split n rb) = take n (ring_bytes rb)" "rb_inv (snd (get_split n rb))"
    "ring_bytes (snd (get_split n rb)) = drop n (ring_bytes rb)"
    "rb_freesize (snd (get_split n rb)) = rb_freesize rb + n"
    using r3(2) by simp_all
qed

lemma get_split_frame [simp]:
  "rb_type (snd (get_split n rb)) = rb_type rb"
  "rb_blk_size (snd (get_split n rb)) = rb_blk_size rb" "rb_end (snd (get_split n rb)) = rb_end rb"
  by (simp_all add: get_split_def get_head_def rb_end_def Let_def)

lemma copy_out_header_spec:
  assumes "rb_inv rb" "rb_head rb < rb_end rb" "n \<le> rb_used rb"
  shows "fst (copy_out_header n rb) = take n (ring_bytes rb)" "rb_inv (snd (copy_out_header n rb))"
    "ring_bytes (snd (copy_out_header n rb)) = drop n (ring_bytes rb)"
    "rb_freesize (snd (copy_out_header n rb)) = rb_freesize rb + n"
    "rb_end (snd (copy_out_header n rb)) = rb_end rb"
    "rb_type (snd (copy_out_header n rb)) = rb_type rb"
proof -
  have "copy_out_header n rb
      = (if rb_end rb - rb_head rb < n then get_split n rb else get_head n rb)"
    using assms(2) by (simp add: copy_out_header_def get_split_def Let_def)
  then show "fst (copy_out_header n rb) = take n (ring_bytes rb)"
    "rb_inv (snd (copy_out_header n rb))"
    "ring_bytes (snd (copy_out_header n rb)) = drop n (ring_bytes rb)"
    "rb_freesize (snd (copy_out_header n rb)) = rb_freesize rb + n"
    "rb_end (snd (copy_out_header n rb)) = rb_end rb"
    "rb_type (snd (copy_out_header n rb)) = rb_type rb"
    using get_split_spec [OF assms(1,3)] get_head_spec [OF assms(1,3)] assms(2) by auto
qed

text \<open>
  The data copy decides by \<open>head > tail\<close> whether a wrap is possible. That is right once the header
  has been read, because the ring is then not full.
\<close>

lemma copy_out_data_spec:
  assumes "rb_inv rb" "rb_head rb < rb_end rb" "n \<le> rb_used rb" "0 < rb_freesize rb"
  shows "fst (copy_out_data n rb) = take n (ring_bytes rb)" "rb_inv (snd (copy_out_data n rb))"
    "ring_bytes (snd (copy_out_data n rb)) = drop n (ring_bytes rb)"
    "rb_freesize (snd (copy_out_data n rb)) = rb_freesize rb + n"
    "rb_end (snd (copy_out_data n rb)) = rb_end rb"
    "rb_type (snd (copy_out_data n rb)) = rb_type rb"
proof -
  let ?N = "rb_end rb"
  have "copy_out_data n rb = get_split n rb \<and> ?N - rb_head rb \<le> n
    \<or> copy_out_data n rb = get_head n rb \<and> rb_head rb + n \<le> ?N"
  proof (cases "rb_tail rb < rb_head rb \<and> ?N - rb_head rb < n")
    case True
    then show ?thesis by (simp add: copy_out_data_def get_split_def Let_def)
  next
    case False
    have "rb_head rb + n \<le> ?N"
    proof (rule ccontr)
      assume c: "\<not> rb_head rb + n \<le> ?N"
      with False assms(2) have t: "rb_head rb \<le> rb_tail rb" by linarith
      have u: "rb_used rb < ?N" using assms by (auto simp: rb_used_def rb_inv_def)
      have "(rb_head rb + rb_used rb) mod ?N = rb_head rb + rb_used rb - ?N"
        using c assms(2,3) u by (simp add: le_mod_geq)
      then have "rb_tail rb mod ?N < rb_head rb" using u c assms by (auto simp: rb_inv_def)
      moreover have "rb_tail rb mod ?N = (if rb_tail rb = ?N then 0 else rb_tail rb)"
        using assms(1) by (auto simp: rb_inv_def)
      ultimately have "rb_tail rb = ?N" using t by (auto split: if_splits)
      then have "rb_head rb + rb_used rb - ?N = 0"
        using \<open>(rb_head rb + rb_used rb) mod ?N = _\<close> assms(1) by (simp add: rb_inv_def)
      with c assms(3) show False by linarith
    qed
    then show ?thesis unfolding copy_out_data_def Let_def if_not_P [OF False] by simp
  qed
  then show "fst (copy_out_data n rb) = take n (ring_bytes rb)"
    "rb_inv (snd (copy_out_data n rb))"
    "ring_bytes (snd (copy_out_data n rb)) = drop n (ring_bytes rb)"
    "rb_freesize (snd (copy_out_data n rb)) = rb_freesize rb + n"
    "rb_end (snd (copy_out_data n rb)) = rb_end rb"
    "rb_type (snd (copy_out_data n rb)) = rb_type rb"
    using get_split_spec [OF assms(1,3)] get_head_spec [OF assms(1,3)] by auto
qed

section \<open>The length header\<close>

lemma COMPRESS_LEN_Some:
  "len \<le> 0x3fffff \<Longrightarrow> \<exists>n. COMPRESS_LEN len = Some n"
  by (simp add: COMPRESS_LEN_def)

lemma take_bit6_of_nat: "k < 64 \<Longrightarrow> take_bit 6 (word_of_nat k :: u8) = word_of_nat k"
  by (simp add: take_bit_nat_eq_self flip: of_nat_take_bit)

lemma low6_and:
  assumes "take_bit 6 b = (b :: u8)"
  shows "b AND 0xC0 = 0" "b AND 0x3f = b"
proof -
  have m: "mask 6 = (0x3f :: u8)" by (simp add: mask_eq_exp_minus_1)
  have b: "b AND 0x3f = b" using assms by (simp add: take_bit_eq_mask m)
  then show "b AND 0x3f = b" .
  have "b AND 0xC0 = (b AND 0x3f) AND 0xC0" by (simp only: b)
  also have "\<dots> = b AND (0x3f AND 0xC0)" by (simp only: and.assoc)
  finally show "b AND 0xC0 = 0" by simp
qed

lemma header_bits:
  assumes "take_bit 6 b = (b :: u8)"
  shows "(0x80 OR b) AND 0xC0 = 0x80" "(0xC0 OR b) AND 0xC0 = 0xC0"
    "(0x80 OR b) AND 0x80 \<noteq> 0" "(0xC0 OR b) AND 0x80 \<noteq> 0"
    "(0x80 OR b) AND 0x3f = b" "(0xC0 OR b) AND 0x3f = b"
  using low6_and [OF assms] low6_and(1) [OF assms, THEN arg_cong [where f = "\<lambda>x. x AND 0x80"]]
  by (simp_all add: bit.conj_disj_distrib2 and.assoc)

text \<open>The byte \<open>i\<close> of a length, and the sum the bytes stand for.\<close>

lemma unat_len_byte: "unat (len_byte i len) = len div 2 ^ (8 * (3 - i)) mod 256"
  by (simp add: len_byte_def unat_of_nat drop_bit_eq_div)

lemma COMPRESS_LEN_cases:
  assumes "COMPRESS_LEN len = Some n"
  obtains "n = 1" "len \<le> 0x7f" | "n = 2" "0x7f < len" "len \<le> 0x3fff"
    | "n = 3" "0x3fff < len" "len \<le> 0x3fffff"
  using assms by (auto simp: COMPRESS_LEN_def split: if_splits)

lemma header_roundtrip:
  assumes "ringbuf_headlen_compress len = Some h"
  shows "h \<noteq> []" "head_len_bytes (hd h) = Some (length h)"
    "ringbuf_headlen_decompress h = len" "len \<le> 0x3fffff"
proof -
  obtain n where n: "COMPRESS_LEN len = Some n"
    using assms by (auto simp: ringbuf_headlen_compress_def split: option.splits)
  have "h \<noteq> [] \<and> head_len_bytes (hd h) = Some (length h)
    \<and> ringbuf_headlen_decompress h = len \<and> len \<le> 0x3fffff"
    using n
  proof (cases rule: COMPRESS_LEN_cases)
    case 1
    have b: "len_byte 3 len = word_of_nat len" by (simp add: len_byte_def)
    have "take_bit 7 (word_of_nat len :: u8) = word_of_nat len"
      using 1 by (simp add: take_bit_nat_eq_self flip: of_nat_take_bit)
    then have m: "0x7f AND word_of_nat len = (word_of_nat len :: u8)"
      using take_bit_eq_mask [of 7 "word_of_nat len :: u8"]
      by (simp add: mask_eq_exp_minus_1 and.commute)
    have "(word_of_nat len :: u8) AND 0x80 = (0x7f AND word_of_nat len) AND 0x80"
      by (simp only: m)
    also have "\<dots> = word_of_nat len AND (0x7f AND 0x80)" by (simp only: ac_simps)
    finally have z: "(word_of_nat len :: u8) AND 0x80 = 0" by simp
    have "h = [word_of_nat len]" using assms n 1 m b by (simp add: ringbuf_headlen_compress_def)
    then show ?thesis
      using z 1 by (simp add: head_len_bytes_def ringbuf_headlen_decompress_def unat_of_nat)
  next
    case 2
    have t: "take_bit 6 (len_byte 2 len) = len_byte 2 len"
      unfolding len_byte_def using 2 by (intro take_bit6_of_nat) (simp add: drop_bit_eq_div)
    have "h = [0x80 OR len_byte 2 len, len_byte 3 len]"
      using assms n 2 by (simp add: ringbuf_headlen_compress_def)
    moreover have "256 * (len div 256 mod 256) + len mod 256 = len" using 2 by simp
    ultimately show ?thesis
      using 2 header_bits [OF t]
      by (simp add: head_len_bytes_def ringbuf_headlen_decompress_def unat_len_byte)
  next
    case 3
    have t: "take_bit 6 (len_byte 1 len) = len_byte 1 len"
      unfolding len_byte_def using 3 by (intro take_bit6_of_nat) (simp add: drop_bit_eq_div)
    have "h = [0xC0 OR len_byte 1 len, len_byte 2 len, len_byte 3 len]"
      using assms n 3 by (simp add: ringbuf_headlen_compress_def)
    moreover have "256 * (256 * (len div 65536 mod 256) + len div 256 mod 256) + len mod 256 = len"
    proof -
      have "len div 65536 mod 256 = len div 256 div 256"
        using 3 by (simp add: div_mult2_eq [symmetric])
      then show ?thesis using mult_div_mod_eq [of 256 len] mult_div_mod_eq [of 256 "len div 256"]
        by presburger
    qed
    ultimately show ?thesis
      using 3 header_bits [OF t]
      by (simp add: head_len_bytes_def ringbuf_headlen_decompress_def unat_len_byte)
  qed
  then show "h \<noteq> []" "head_len_bytes (hd h) = Some (length h)"
    "ringbuf_headlen_decompress h = len" "len \<le> 0x3fffff" by auto
qed

lemma header_length:
  "ringbuf_headlen_compress len = Some h \<longleftrightarrow> h = the (ringbuf_headlen_compress len) \<and> len \<le> 0x3fffff"
  using header_roundtrip(4) [of len h]
  by (auto simp: ringbuf_headlen_compress_def COMPRESS_LEN_def split: option.splits)

section \<open>The contract of a message store\<close>

text \<open>
  What the queues rely on: the store holds a list of messages, a push that succeeds appends one and
  a push that fails leaves the store as it was, a pop takes the oldest message. \<open>run\<close> replays a
  sequence of pushes (\<open>Some m\<close>) and pops (\<open>None\<close>) and collects the accepted and the delivered
  messages.
\<close>

fun run :: "('m \<Rightarrow> 'r \<Rightarrow> 'r \<times> kstat) \<Rightarrow> ('r \<Rightarrow> 'r \<times> kstat \<times> 'm) \<Rightarrow> 'm option list \<Rightarrow> 'r
    \<Rightarrow> 'r \<times> 'm list \<times> 'm list" where
  "run push pop [] r = (r, [], [])"
| "run push pop (Some m # ops) r = (case push m r of (r1, st) \<Rightarrow>
     case run push pop ops r1 of (r2, ins, outs) \<Rightarrow>
       (r2, if st = RHINO_SUCCESS then m # ins else ins, outs))"
| "run push pop (None # ops) r = (case pop r of (r1, st, m) \<Rightarrow>
     case run push pop ops r1 of (r2, ins, outs) \<Rightarrow>
       (r2, ins, if st = RHINO_SUCCESS then m # outs else outs))"

locale message_fifo =
  fixes holds :: "'r \<Rightarrow> 'm list \<Rightarrow> bool"
    and fits :: "'m \<Rightarrow> bool"
    and push :: "'m \<Rightarrow> 'r \<Rightarrow> 'r \<times> kstat"
    and pop :: "'r \<Rightarrow> 'r \<times> kstat \<times> 'm"
  assumes push_ok: "holds r ms \<Longrightarrow> fits m \<Longrightarrow> push m r = (r', RHINO_SUCCESS) \<Longrightarrow> holds r' (ms @ [m])"
    and push_err: "holds r ms \<Longrightarrow> push m r = (r', st) \<Longrightarrow> st \<noteq> RHINO_SUCCESS \<Longrightarrow> r' = r"
    and pop_first: "holds r (m # ms) \<Longrightarrow> \<exists>r'. pop r = (r', RHINO_SUCCESS, m) \<and> holds r' ms"
    and pop_none: "holds r [] \<Longrightarrow> \<exists>m. pop r = (r, RHINO_RINGBUF_EMPTY, m)"
begin

text \<open>No message is lost, duplicated, invented or reordered, whatever the sequence of calls.\<close>

lemma run_fifo:
  assumes "holds r ms" "\<And>m. Some m \<in> set ops \<Longrightarrow> fits m"
  shows "\<exists>r' ins outs rest. run push pop ops r = (r', ins, outs) \<and> ms @ ins = outs @ rest
    \<and> holds r' rest"
  using assms
proof (induction ops arbitrary: r ms)
  case Nil
  then show ?case by auto
next
  case (Cons op ops)
  show ?case
  proof (cases op)
    case (Some m)
    obtain r1 st where p: "push m r = (r1, st)" by fastforce
    define ms1 where "ms1 = (if st = RHINO_SUCCESS then ms @ [m] else ms)"
    have "holds r1 ms1"
      using push_ok [OF Cons.prems(1)] push_err [OF Cons.prems(1) p] Cons.prems Some p
      by (auto simp: ms1_def)
    from Cons.IH [OF this] Cons.prems(2) obtain r' ins outs rest where
      "run push pop ops r1 = (r', ins, outs)" "ms1 @ ins = outs @ rest" "holds r' rest" by auto
    then show ?thesis using Some p by (auto simp: ms1_def)
  next
    case None
    show ?thesis
    proof (cases ms)
      case Nil
      with Cons.prems(1) pop_none obtain m where p: "pop r = (r, RHINO_RINGBUF_EMPTY, m)" by blast
      from Cons.IH [OF Cons.prems(1)] Cons.prems(2) obtain r' ins outs rest where
        "run push pop ops r = (r', ins, outs)" "ms @ ins = outs @ rest" "holds r' rest" by auto
      then show ?thesis using None p by auto
    next
      case (Cons m ms')
      with Cons.prems(1) pop_first obtain r1 where
        p: "pop r = (r1, RHINO_SUCCESS, m)" "holds r1 ms'" by blast
      from Cons.IH [OF p(2)] Cons.prems(2) obtain r' ins outs rest where
        "run push pop ops r1 = (r', ins, outs)" "ms' @ ins = outs @ rest" "holds r' rest" by auto
      then show ?thesis using None p \<open>ms = m # ms'\<close> by auto
    qed
  qed
qed

end

section \<open>Rings of messages of any length\<close>

definition enc :: "u8 list \<Rightarrow> u8 list" where
  "enc m = the (ringbuf_headlen_compress (length m)) @ m"

definition dyn_fits :: "u8 list \<Rightarrow> bool" where
  "dyn_fits m \<longleftrightarrow> length m \<le> 0x3fffff"

definition dyn_holds :: "k_ringbuf_t \<Rightarrow> u8 list list \<Rightarrow> bool" where
  "dyn_holds rb ms \<longleftrightarrow> rb_inv rb \<and> rb_type rb = RINGBUF_TYPE_DYN
     \<and> ring_bytes rb = concat (map enc ms) \<and> (\<forall>m\<in>set ms. dyn_fits m)"

abbreviation push_msg :: "u8 list \<Rightarrow> k_ringbuf_t \<Rightarrow> k_ringbuf_t \<times> kstat" where
  "push_msg m \<equiv> ringbuf_push m (length m)"

lemma ring_used_holds: "ring_bytes rb = bs \<Longrightarrow> rb_used rb = length bs"
  by auto

lemma fits_header:
  assumes "dyn_fits m"
  obtains h where "ringbuf_headlen_compress (length m) = Some h" "enc m = h @ m"
  using assms header_length [of "length m"] by (auto simp: dyn_fits_def enc_def)

lemma push_dyn_spec:
  assumes h: "dyn_holds rb ms" and f: "dyn_fits m"
    and room: "2 \<le> rb_freesize rb" "length (enc m) \<le> rb_freesize rb"
  shows "\<exists>rb'. push_msg m rb = (rb', RHINO_SUCCESS) \<and> dyn_holds rb' (ms @ [m])
    \<and> rb_end rb' = rb_end rb \<and> rb_freesize rb' = rb_freesize rb - length (enc m)"
proof -
  obtain hd where hd: "ringbuf_headlen_compress (length m) = Some hd" and e: "enc m = hd @ m"
    using f by (rule fits_header)
  have inv: "rb_inv rb" using h by (simp add: dyn_holds_def)
  note n = norm_tail_spec [OF inv]
  let ?r1 = "copy_in hd (norm_tail rb)"
  have l1: "length hd \<le> rb_freesize (norm_tail rb)" using room n e by simp
  note c1 = copy_in_spec [OF n(1) n(3) [folded n(4)] l1]
  note n1 = norm_tail_spec [OF c1(1)]
  have l2: "length m \<le> rb_freesize (norm_tail ?r1)" using room n n1 c1 e by simp
  note c2 = copy_in_spec [OF n1(1) n1(3) [folded n1(4)] l2]
  have "push_msg m rb = (copy_in m (norm_tail ?r1), RHINO_SUCCESS)"
    using h room hd e by (simp add: ringbuf_push_def dyn_holds_def ringbuf_is_full_def Let_def)
  moreover have "dyn_holds (copy_in m (norm_tail ?r1)) (ms @ [m])"
    using h f c1 c2 n n1 e by (simp add: dyn_holds_def)
  ultimately show ?thesis using c1 c2 n n1 e by simp
qed

lemma push_dyn_full:
  assumes "dyn_holds rb ms" "dyn_fits m" "rb_freesize rb < 2 \<or> rb_freesize rb < length (enc m)"
  shows "push_msg m rb = (rb, RHINO_RINGBUF_FULL)"
proof -
  obtain h where "ringbuf_headlen_compress (length m) = Some h" "enc m = h @ m"
    using assms(2) by (rule fits_header)
  then show ?thesis using assms(1,3) by (auto simp: ringbuf_push_def ringbuf_is_full_def dyn_holds_def)
qed

lemma pop_dyn_spec:
  assumes h: "dyn_holds rb (m # ms)"
  shows "\<exists>rb'. ringbuf_pop rb = (rb', RHINO_SUCCESS, m) \<and> dyn_holds rb' ms
    \<and> rb_end rb' = rb_end rb \<and> rb_freesize rb' = rb_freesize rb + length (enc m)"
proof -
  have f: "dyn_fits m" and inv: "rb_inv rb" using h by (auto simp: dyn_holds_def)
  obtain hd where hd: "ringbuf_headlen_compress (length m) = Some hd" and e: "enc m = hd @ m"
    using f by (rule fits_header)
  note rt = header_roundtrip [OF hd]
  let ?r0 = "norm_head rb"
  note n = norm_head_spec [OF inv]
  have b0: "ring_bytes ?r0 = hd @ m @ concat (map enc ms)"
    using n h e by (simp add: dyn_holds_def)
  have u0: "rb_used ?r0 = length hd + length m + length (concat (map enc ms))"
    using ring_used_holds [OF b0] by simp
  have ne: "\<not> ringbuf_is_empty rb"
    using u0 rt(1) n inv by (auto simp: ringbuf_is_empty_def rb_used_def rb_inv_def)
  have first: "rb_mem ?r0 ! rb_head ?r0 = List.hd hd"
  proof -
    have "0 < rb_used ?r0" "rb_head ?r0 < rb_end ?r0" using n(3,4) u0 rt(1) by auto
    then have "ring_bytes ?r0 ! 0 = rb_mem ?r0 ! rb_head ?r0" by (simp add: ring_bytes_def)
    then show ?thesis using b0 rt(1) by (simp add: nth_append hd_conv_nth)
  qed
  obtain c r1 where r1: "copy_out_header (length hd) ?r0 = (c, r1)" by fastforce
  have c1: "c = hd" "rb_inv r1" "ring_bytes r1 = m @ concat (map enc ms)"
    "rb_freesize r1 = rb_freesize rb + length hd" "rb_end r1 = rb_end rb" "rb_type r1 = rb_type rb"
    using copy_out_header_spec [OF n(1) n(3) [folded n(4)], of "length hd"] r1 u0 b0 n by simp_all
  note n1 = norm_head_spec [OF c1(2)]
  obtain d r2 where r2: "copy_out_data (length m) (norm_head r1) = (d, r2)" by fastforce
  have u1: "length m \<le> rb_used (norm_head r1)"
    using ring_used_holds [of "norm_head r1"] n1 c1 by simp
  have pos: "0 < rb_freesize (norm_head r1)" using c1 n1 rt(1) by simp
  have c2: "d = m" "rb_inv r2" "ring_bytes r2 = concat (map enc ms)"
    "rb_freesize r2 = rb_freesize rb + length (enc m)" "rb_end r2 = rb_end rb"
    "rb_type r2 = rb_type rb"
    using copy_out_data_spec [OF n1(1) n1(3) [folded n1(4)] u1 pos] r2 n1 c1 e by simp_all
  have "ringbuf_pop rb = (r2, RHINO_SUCCESS, m)"
    using ne h first rt r1 r2 c1 c2 by (simp add: ringbuf_pop_def dyn_holds_def Let_def)
  moreover have "dyn_holds r2 ms" using c2 h by (simp add: dyn_holds_def)
  ultimately show ?thesis using c2 by simp
qed

lemma enc_not_Nil: "dyn_fits m \<Longrightarrow> enc m \<noteq> []"
  by (erule fits_header) (auto dest: header_roundtrip(1))

lemma empty_dyn_iff: "dyn_holds rb ms \<Longrightarrow> ringbuf_is_empty rb \<longleftrightarrow> ms = []"
  using ring_used_holds [of rb "concat (map enc ms)"]
  by (cases ms) (auto simp: ringbuf_is_empty_def dyn_holds_def rb_used_def rb_inv_def enc_not_Nil)

interpretation dyn: message_fifo dyn_holds dyn_fits push_msg ringbuf_pop
proof
  fix r ms m r'
  assume *: "dyn_holds r ms" "dyn_fits m" "push_msg m r = (r', RHINO_SUCCESS)"
  show "dyn_holds r' (ms @ [m])"
    using push_dyn_spec [OF *(1,2)] push_dyn_full [OF *(1,2)] *(3) by (force simp: not_less)
next
  fix r ms m r' st
  assume "dyn_holds r ms" "push_msg m r = (r', st)" "st \<noteq> RHINO_SUCCESS"
  then show "r' = r"
    by (auto simp: ringbuf_push_def Let_def dyn_holds_def split: if_splits option.splits)
next
  fix r m ms
  assume "dyn_holds r (m # ms)"
  from pop_dyn_spec [OF this] show "\<exists>r'. ringbuf_pop r = (r', RHINO_SUCCESS, m) \<and> dyn_holds r' ms"
    by auto
next
  fix r
  assume "dyn_holds r []"
  then show "\<exists>m. ringbuf_pop r = (r, RHINO_RINGBUF_EMPTY, m)"
    by (simp add: ringbuf_pop_def empty_dyn_iff)
qed

section \<open>Rings of blocks of one size\<close>

text \<open>
  A block ring whose capacity is a multiple of the block size never has to split a block: head and
  tail stay on block boundaries. \<open>b\<close> is the block size.
\<close>

definition fix_holds :: "nat \<Rightarrow> k_ringbuf_t \<Rightarrow> u8 list list \<Rightarrow> bool" where
  "fix_holds b rb ms \<longleftrightarrow> rb_inv rb \<and> rb_type rb = RINGBUF_TYPE_FIX \<and> rb_blk_size rb = b \<and> 0 < b
     \<and> b dvd rb_end rb \<and> b dvd rb_head rb \<and> b dvd rb_tail rb
     \<and> ring_bytes rb = concat ms \<and> (\<forall>m\<in>set ms. length m = b)"

lemma aligned_room:
  fixes b :: nat
  assumes "b dvd n" "b dvd x" "x < n"
  shows "x + b \<le> n"
proof -
  have "b dvd n - x" using assms by (simp add: dvd_diff_nat)
  then show ?thesis using assms(3) dvd_imp_le [of b "n - x"] by linarith
qed

lemma length_concat_blocks: "\<forall>m\<in>set ms. length m = b \<Longrightarrow> length (concat ms) = length ms * b"
  by (induction ms) auto

lemma norm_aligned:
  "b dvd rb_tail rb \<Longrightarrow> b dvd rb_tail (norm_tail rb)"
  "b dvd rb_head rb \<Longrightarrow> b dvd rb_head (norm_head rb)"
  by (simp_all add: norm_tail_def norm_head_def)

lemma push_fix_spec:
  assumes h: "fix_holds b rb ms" and m: "length m = b" and room: "b \<le> rb_freesize rb"
  shows "\<exists>rb'. push_msg m rb = (rb', RHINO_SUCCESS) \<and> fix_holds b rb' (ms @ [m])
    \<and> rb_end rb' = rb_end rb \<and> rb_freesize rb' = rb_freesize rb - b"
proof -
  have inv: "rb_inv rb" using h by (simp add: fix_holds_def)
  note n = norm_tail_spec [OF inv]
  have al: "rb_tail (norm_tail rb) + length m \<le> rb_end (norm_tail rb)"
    using h n m norm_aligned(1) [of b rb]
    by (auto simp: fix_holds_def intro: aligned_room)
  have fit: "length m \<le> rb_freesize (norm_tail rb)" using room m n by simp
  note p = put_tail_spec [OF n(1) n(3) [folded n(4)] fit al]
  have "push_msg m rb = (put_tail m (norm_tail rb), RHINO_SUCCESS)"
    using h room m by (simp add: ringbuf_push_def fix_holds_def ringbuf_is_full_def)
  moreover have "fix_holds b (put_tail m (norm_tail rb)) (ms @ [m])"
    using h p n m norm_aligned(1) [of b rb] by (simp add: fix_holds_def)
  ultimately show ?thesis using p n m by simp
qed

lemma push_fix_full:
  "fix_holds b rb ms \<Longrightarrow> rb_freesize rb < b \<Longrightarrow> push_msg m rb = (rb, RHINO_RINGBUF_FULL)"
  by (simp add: ringbuf_push_def ringbuf_is_full_def fix_holds_def)

lemma pop_fix_spec:
  assumes h: "fix_holds b rb (m # ms)"
  shows "\<exists>rb'. ringbuf_pop rb = (rb', RHINO_SUCCESS, m) \<and> fix_holds b rb' ms
    \<and> rb_end rb' = rb_end rb \<and> rb_freesize rb' = rb_freesize rb + b"
proof -
  have inv: "rb_inv rb" and m: "length m = b" and b: "0 < b" using h by (auto simp: fix_holds_def)
  note n = norm_head_spec [OF inv]
  have b0: "ring_bytes (norm_head rb) = m @ concat ms" using n h by (simp add: fix_holds_def)
  have u: "rb_used (norm_head rb) = b + length (concat ms)" using ring_used_holds [OF b0] m by simp
  have ne: "\<not> ringbuf_is_empty rb"
    using u b n inv by (auto simp: ringbuf_is_empty_def rb_used_def rb_inv_def)
  have al: "rb_head (norm_head rb) + b \<le> rb_end (norm_head rb)"
    using h n norm_aligned(2) [of b rb] by (auto simp: fix_holds_def intro: aligned_room)
  obtain d r1 where r1: "get_head b (norm_head rb) = (d, r1)" by fastforce
  have "b \<le> rb_used (norm_head rb)" using u by simp
  from get_head_spec [OF n(1) this al] r1 b0 m
  have g: "d = m" "rb_inv r1" "ring_bytes r1 = concat ms" by simp_all
  have fr: "rb_type r1 = rb_type rb" "rb_blk_size r1 = rb_blk_size rb" "rb_tail r1 = rb_tail rb"
    "rb_end r1 = rb_end rb" "rb_head r1 = rb_head (norm_head rb) + b"
    "rb_freesize r1 = rb_freesize rb + b"
    using get_head_frame [of b "norm_head rb"] r1 n by simp_all
  have "ringbuf_pop rb = (r1, RHINO_SUCCESS, m)"
    using ne h r1 g by (simp add: ringbuf_pop_def fix_holds_def)
  moreover have "fix_holds b r1 ms"
    using h g fr norm_aligned(2) [of b rb] by (simp add: fix_holds_def)
  ultimately show ?thesis using fr by simp
qed

lemma empty_fix_iff: "fix_holds b rb ms \<Longrightarrow> ringbuf_is_empty rb \<longleftrightarrow> ms = []"
  using ring_used_holds [of rb "concat ms"]
  by (cases ms) (auto simp: ringbuf_is_empty_def fix_holds_def rb_used_def rb_inv_def)

interpretation fixed: message_fifo "fix_holds b" "\<lambda>m. length m = b" push_msg ringbuf_pop for b
proof
  fix r ms r' and m :: "u8 list"
  assume *: "fix_holds b r ms" "length m = b" "push_msg m r = (r', RHINO_SUCCESS)"
  show "fix_holds b r' (ms @ [m])"
    using push_fix_spec [OF *(1,2)] push_fix_full [OF *(1)] *(3) by (force simp: not_less)
next
  fix r ms m r' st
  assume "fix_holds b r ms" "push_msg m r = (r', st)" "st \<noteq> RHINO_SUCCESS"
  then show "r' = r"
    by (auto simp: ringbuf_push_def Let_def fix_holds_def split: if_splits option.splits)
next
  fix r m ms
  assume "fix_holds b r (m # ms)"
  from pop_fix_spec [OF this]
  show "\<exists>r'. ringbuf_pop r = (r', RHINO_SUCCESS, m) \<and> fix_holds b r' ms" by auto
next
  fix r
  assume "fix_holds b r []"
  then show "\<exists>m. ringbuf_pop r = (r, RHINO_RINGBUF_EMPTY, m)"
    by (simp add: ringbuf_pop_def empty_fix_iff)
qed

section \<open>Fresh rings\<close>

lemma ringbuf_init_dyn: "buf \<noteq> [] \<Longrightarrow> dyn_holds (ringbuf_init buf RINGBUF_TYPE_DYN b) []"
  by (simp add: dyn_holds_def ringbuf_init_def ringbuf_reset_def rb_inv_def rb_used_def
      ring_bytes_def rb_end_def)

lemma ringbuf_init_fix:
  "buf \<noteq> [] \<Longrightarrow> 0 < b \<Longrightarrow> b dvd length buf \<Longrightarrow> fix_holds b (ringbuf_init buf RINGBUF_TYPE_FIX b) []"
  by (simp add: fix_holds_def ringbuf_init_def ringbuf_reset_def rb_inv_def rb_used_def
      ring_bytes_def rb_end_def)

section \<open>Properties\<close>

text \<open>
  C18: The ring of messages of any length is a lossless first-in first-out store. Starting from a
  ring made by \<open>ringbuf_init\<close> on a buffer that is not empty, after any sequence of pushes (of
  messages a header can describe) and pops, the messages the pops delivered are, in order, the first
  of those the pushes accepted, and the ring holds exactly the rest; every copy stayed inside the
  buffer, since the invariant in \<open>dyn_holds\<close> holds after it.
\<close>

theorem ringbuf_dyn_fifo:
  assumes "buf \<noteq> []" "\<And>m. Some m \<in> set ops \<Longrightarrow> length m \<le> 0x3fffff"
  shows "\<exists>rb accepted delivered rest.
    run push_msg ringbuf_pop ops (ringbuf_init buf RINGBUF_TYPE_DYN b) = (rb, accepted, delivered)
    \<and> accepted = delivered @ rest \<and> dyn_holds rb rest"
  using dyn.run_fifo [OF ringbuf_init_dyn [OF assms(1)], of ops b] assms(2)
  by (fastforce simp: dyn_fits_def)

theorem ringbuf_dyn_fifo_witness:
  "\<exists>rb accepted delivered rest.
    run push_msg ringbuf_pop [Some [1, 2], Some [3], None, Some [4, 5, 6], None]
      (ringbuf_init [0, 0, 0, 0, 0, 0] RINGBUF_TYPE_DYN 0) = (rb, accepted, delivered)
    \<and> accepted = delivered @ rest \<and> dyn_holds rb rest"
  by (rule ringbuf_dyn_fifo) auto

text \<open>
  C19: The same for the ring of blocks of one size, on a buffer whose length is a multiple of the
  block size.
\<close>

theorem ringbuf_fix_fifo:
  assumes "buf \<noteq> []" "0 < b" "b dvd length buf" "\<And>m. Some m \<in> set ops \<Longrightarrow> length m = b"
  shows "\<exists>rb accepted delivered rest.
    run push_msg ringbuf_pop ops (ringbuf_init buf RINGBUF_TYPE_FIX b) = (rb, accepted, delivered)
    \<and> accepted = delivered @ rest \<and> fix_holds b rb rest"
  using fixed.run_fifo [OF ringbuf_init_fix [OF assms(1-3)], of ops] assms(4) by fastforce

theorem ringbuf_fix_fifo_witness:
  "\<exists>rb accepted delivered rest.
    run push_msg ringbuf_pop [Some [1, 2], Some [3, 4], None, Some [5, 6], None]
      (ringbuf_init [0, 0, 0, 0] RINGBUF_TYPE_FIX 2) = (rb, accepted, delivered)
    \<and> accepted = delivered @ rest \<and> fix_holds 2 rb rest"
  by (rule ringbuf_fix_fifo) auto

text \<open>
  The length header of a message is read back as it was written: a length that can be compressed
  is at most \<open>0x3fffff\<close>, its first byte tells the number of header bytes, and decompressing gives
  the length again.
\<close>

theorem ringbuf_header_roundtrip:
  assumes "ringbuf_headlen_compress len = Some h"
  shows "head_len_bytes (hd h) = Some (length h) \<and> ringbuf_headlen_decompress h = len
    \<and> len \<le> 0x3fffff"
  using header_roundtrip [OF assms] by simp

theorem ringbuf_header_roundtrip_witness:
  "ringbuf_headlen_decompress (the (ringbuf_headlen_compress 300)) = 300"
proof -
  obtain h where "ringbuf_headlen_compress 300 = Some h"
    by (simp add: ringbuf_headlen_compress_def COMPRESS_LEN_def)
  with ringbuf_header_roundtrip [OF this] show ?thesis by simp
qed

text \<open>
  C20: A push of a message fails exactly when fewer than two bytes are free or header and message do
  not fit, and then changes nothing; a pop fails exactly on the empty ring.
\<close>

theorem ringbuf_dyn_full_iff:
  assumes "dyn_holds rb ms" "length m \<le> 0x3fffff"
  shows "(snd (push_msg m rb) = RHINO_SUCCESS
      \<longleftrightarrow> 2 \<le> rb_freesize rb \<and> length (enc m) \<le> rb_freesize rb)
    \<and> (snd (push_msg m rb) \<noteq> RHINO_SUCCESS \<longrightarrow> push_msg m rb = (rb, RHINO_RINGBUF_FULL))
    \<and> (fst (snd (ringbuf_pop rb)) = RHINO_SUCCESS \<longleftrightarrow> ms \<noteq> [])"
proof -
  have f: "dyn_fits m" using assms(2) by (simp add: dyn_fits_def)
  have "fst (snd (ringbuf_pop rb)) = RHINO_SUCCESS \<longleftrightarrow> ms \<noteq> []"
    using assms(1) dyn.pop_first dyn.pop_none by (cases ms) fastforce+
  then show ?thesis
    using push_dyn_spec [OF assms(1) f] push_dyn_full [OF assms(1) f] by (force simp: not_less)
qed

theorem ringbuf_dyn_full_iff_witness:
  "snd (push_msg [7, 8] (ringbuf_init [0, 0] RINGBUF_TYPE_DYN 0)) = RHINO_RINGBUF_FULL"
  using ringbuf_dyn_full_iff [OF ringbuf_init_dyn [of "[0, 0]" 0], of "[7, 8]"]
  by (auto simp: ringbuf_init_def ringbuf_reset_def rb_end_def enc_def ringbuf_headlen_compress_def
      COMPRESS_LEN_def)

end
