(* ===== verification/Kfifo.thy ===== *)
theory Kfifo
  imports Ringbuf
begin

unbundle bit_operations_syntax

text \<open>
  The byte queue of \<^verbatim>\<open>common/k_fifo.c\<close>. Its two indices are 32-bit counters that are never reduced: the difference is the
  number of stored bytes and the low bits are the position in the buffer, also after the counters have wrapped around, because
  the size is a power of two. The functions run inside a critical section; the state here is the structure alone.
\<close>

section \<open>The code\<close>

record k_fifo =
  f_in :: u32
  f_out :: u32
  f_mask :: u32
  f_data :: "u8 list"
  free_bytes :: u32
  f_size :: u32

definition fifo_min :: "u32 \<Rightarrow> u32 \<Rightarrow> u32" where
  "fifo_min x y = (if x > y then y else x)"

definition fifo_unused :: "k_fifo \<Rightarrow> u32" where
  "fifo_unused f = (f_mask f + 1) - (f_in f - f_out f)"

definition is_power_of_2 :: "u32 \<Rightarrow> bool" where
  "is_power_of_2 n \<longleftrightarrow> n \<noteq> 0 \<and> n AND (n - 1) = 0"

definition fifo_init :: "u8 list \<Rightarrow> u32 \<Rightarrow> k_fifo \<Rightarrow> k_fifo \<times> int" where
  "fifo_init buffer sz f = (if \<not> is_power_of_2 sz then (f, 1)
     else (let f1 = f\<lparr>f_in := 0, f_out := 0, f_data := buffer\<rparr> in
       if sz < 2 then (f1\<lparr>f_mask := 0\<rparr>, 1)
       else (f1\<lparr>f_mask := sz - 1, free_bytes := sz, f_size := sz\<rparr>, 0)))"

definition fifo_copy_in :: "u8 list \<Rightarrow> u32 \<Rightarrow> u32 \<Rightarrow> k_fifo \<Rightarrow> k_fifo" where
  "fifo_copy_in src len off f = (let sz = f_mask f + 1; off = off AND f_mask f; l = fifo_min len (sz - off);
       d1 = mem_put (f_data f) (unat off) (take (unat l) src)
     in f\<lparr>f_data := mem_put d1 0 (take (unat (len - l)) (drop (unat l) src))\<rparr>)"

definition fifo_in :: "u8 list \<Rightarrow> u32 \<Rightarrow> k_fifo \<Rightarrow> k_fifo \<times> u32" where
  "fifo_in buf len f = (let l = fifo_unused f; len = (if len > l then l else len);
       f1 = fifo_copy_in buf len (f_in f) f
     in (f1\<lparr>f_in := f_in f1 + len, free_bytes := free_bytes f1 - len\<rparr>, len))"

text \<open>The result is the destination buffer after the two copies.\<close>

definition kfifo_copy_out :: "u8 list \<Rightarrow> u32 \<Rightarrow> u32 \<Rightarrow> k_fifo \<Rightarrow> u8 list" where
  "kfifo_copy_out dst len off f = (let sz = f_mask f + 1; off = off AND f_mask f; l = fifo_min len (sz - off);
       d1 = mem_put dst 0 (mem_get (f_data f) (unat off) (unat l))
     in mem_put d1 (unat l) (mem_get (f_data f) 0 (unat (len - l))))"

definition internal_fifo_out_peek :: "u8 list \<Rightarrow> u32 \<Rightarrow> k_fifo \<Rightarrow> u8 list \<times> u32" where
  "internal_fifo_out_peek buf len f = (let l = f_in f - f_out f; len = (if len > l then l else len)
     in (kfifo_copy_out buf len (f_out f) f, len))"

definition fifo_out_peek :: "u8 list \<Rightarrow> u32 \<Rightarrow> k_fifo \<Rightarrow> u8 list \<times> u32" where
  "fifo_out_peek buf len f = internal_fifo_out_peek buf len f"

definition fifo_out :: "u8 list \<Rightarrow> u32 \<Rightarrow> k_fifo \<Rightarrow> k_fifo \<times> u8 list \<times> u32" where
  "fifo_out buf len f = (case internal_fifo_out_peek buf len f of (dst, n) \<Rightarrow>
     (f\<lparr>f_out := f_out f + n, free_bytes := free_bytes f + n\<rparr>, dst, n))"

definition fifo_out_all :: "u8 list \<Rightarrow> k_fifo \<Rightarrow> k_fifo \<times> u8 list \<times> u32" where
  "fifo_out_all buf f = (let len = f_size f - free_bytes f in
     if len = 0 then (f, buf, 0)
     else (case internal_fifo_out_peek buf len f of (dst, n) \<Rightarrow>
       (f\<lparr>f_out := f_out f + n, free_bytes := free_bytes f + n\<rparr>, dst, n)))"

section \<open>The bytes in the queue\<close>

definition fifo_used :: "k_fifo \<Rightarrow> nat" where
  "fifo_used f = unat (f_in f - f_out f)"

definition fifo_bytes :: "k_fifo \<Rightarrow> u8 list" where
  "fifo_bytes f = map (\<lambda>i. f_data f ! ((unat (f_out f) + i) mod length (f_data f))) [0..<fifo_used f]"

definition fifo_inv :: "k_fifo \<Rightarrow> bool" where
  "fifo_inv f \<longleftrightarrow> (\<exists>k. 0 < k \<and> k < 32 \<and> f_size f = 2 ^ k \<and> f_mask f = 2 ^ k - 1 \<and> length (f_data f) = 2 ^ k)
     \<and> f_in f - f_out f \<le> f_size f \<and> free_bytes f = f_size f - (f_in f - f_out f)"

lemma length_fifo_bytes [simp]: "length (fifo_bytes f) = fifo_used f"
  by (simp add: fifo_bytes_def)

lemma unat_and_mask: "unat ((w::u32) AND (2 ^ k - 1)) = unat w mod 2 ^ k"
proof -
  have "w AND (2 ^ k - 1) = take_bit k w" by (simp add: take_bit_eq_mask mask_eq_exp_minus_1)
  then show ?thesis by (simp add: unsigned_take_bit_eq take_bit_eq_mod [of k "unat w"])
qed

lemma unat_2p32: "k < 32 \<Longrightarrow> unat (2 ^ k :: u32) = 2 ^ k"
proof -
  assume "k < 32"
  then have "(2::nat) ^ k < 2 ^ 32" by (rule power_strict_increasing) simp
  then show ?thesis using unat_of_nat [of "2 ^ k", where ?'a = 32] by simp
qed

lemma power_of_2_ex:
  assumes "is_power_of_2 n"
  shows "\<exists>k < 32. n = 2 ^ k"
proof -
  have n: "n \<noteq> 0" "n AND (n - 1) = 0" using assms by (simp_all add: is_power_of_2_def)
  then have "1 \<le> unat n" by (simp add: Suc_le_eq unat_gt_0)
  from ex_power_ivl1 [OF order_refl this] obtain k where k: "2 ^ k \<le> unat n" "unat n < 2 ^ (k + 1)" by blast
  have "unat n < 2 ^ 32" using unsigned_less [of n, where ?'a = nat] by simp
  then have k32: "k < 32" using k(1) by (metis le_less_trans nat_power_less_imp_less zero_less_numeral)
  have b: "bit (w :: u32) k" if "2 ^ k \<le> unat w" "unat w < 2 ^ (k + 1)" for w
  proof -
    have "unat w div 2 ^ k = 1" using that by (simp add: div_nat_eqI)
    then show ?thesis using bit_iff_odd [of "unat w" k] k32 by (simp add: bit_unsigned_iff)
  qed
  have "unat n = 2 ^ k"
  proof (rule ccontr)
    assume "unat n \<noteq> 2 ^ k"
    then have "2 ^ k \<le> unat (n - 1)" "unat (n - 1) < 2 ^ (k + 1)" using k n(1) by (simp_all add: unat_minus_one)
    then have "bit (n AND (n - 1)) k" using b k by (simp add: bit_and_iff)
    then show False using n(2) by simp
  qed
  moreover have "unat (2 ^ k :: u32) = 2 ^ k" using k32 by (rule unat_2p32)
  ultimately show ?thesis using k32 by (auto simp: word_unat_eq_iff)
qed

text \<open>The copy with a split at the end of the buffer writes the positions \<open>off, off + 1, \<dots>\<close> modulo the size.\<close>

lemma split_write:
  fixes data src :: "u8 list"
  assumes "off < N" "length data = N" "len \<le> N" "len \<le> length src"
  defines "l \<equiv> min len (N - off)"
  defines "d \<equiv> mem_put (mem_put data off (take l src)) 0 (take (len - l) (drop l src))"
  shows "length d = N" "m < len \<Longrightarrow> d ! ((off + m) mod N) = src ! m"
    "j < N \<Longrightarrow> (\<And>m. m < len \<Longrightarrow> (off + m) mod N \<noteq> j) \<Longrightarrow> d ! j = data ! j"
proof -
  show L: "length d = N" using assms(1-4) by (simp add: d_def l_def)
  have nth: "d ! j = (if j < len - l then src ! (l + j) else if off \<le> j \<and> j < off + l then src ! (j - off) else data ! j)" if "j < N" for j
    using that assms(1-4) by (auto simp: d_def l_def nth_mem_put min_def)
  show "d ! ((off + m) mod N) = src ! m" if "m < len"
  proof (cases "off + m < N")
    case True
    then show ?thesis using nth [of "off + m"] that assms(1-4) by (auto simp: l_def)
  next
    case False
    then have "(off + m) mod N = off + m - N" using that assms(1-3) by (simp add: mod_if)
    then show ?thesis using nth [of "off + m - N"] False that assms(1-4) by (auto simp: l_def)
  qed
  show "d ! j = data ! j" if "j < N" "\<And>m. m < len \<Longrightarrow> (off + m) mod N \<noteq> j"
  proof -
    have "\<not> j < len - l"
    proof
      assume j: "j < len - l"
      then have "l = N - off" "l + j < len" by (simp_all add: l_def min_def split: if_splits)
      then have "(off + (l + j)) mod N = j" "l + j < len" using that(1) assms(1) by simp_all
      then show False using that(2) by blast
    qed
    moreover have "\<not> (off \<le> j \<and> j < off + l)"
    proof
      assume j: "off \<le> j \<and> j < off + l"
      moreover have "l \<le> len" by (simp add: l_def)
      ultimately have "j - off < len" by linarith
      moreover have "(off + (j - off)) mod N = j" using j that(1) by simp
      ultimately have "j - off < len" "(off + (j - off)) mod N = j" by simp_all
      then show False using that(2) by blast
    qed
    ultimately show ?thesis unfolding nth [OF that(1)] by (simp only: if_False)
  qed
qed

lemma split_read:
  fixes data dst :: "u8 list"
  assumes "off < N" "length data = N" "len \<le> N" "len \<le> length dst"
  defines "l \<equiv> min len (N - off)"
  shows "mem_put (mem_put dst 0 (mem_get data off l)) l (mem_get data 0 (len - l))
    = map (\<lambda>m. data ! ((off + m) mod N)) [0..<len] @ drop len dst" (is "?a = ?b")
proof (rule nth_equalityI)
  show len: "length ?a = length ?b" using assms by (auto simp: mem_get_def)
  fix i assume "i < length ?a"
  then have i: "i < length dst" using assms len by (auto simp: mem_get_def)
  have lg: "length (mem_get data off l) = l" "length (mem_get data 0 (len - l)) = len - l" "len - l \<le> N"
    using assms by (auto simp: mem_get_def l_def)
  have "?a ! i = (if l \<le> i \<and> i < len then data ! (i - l) else if i < l then data ! (off + i) else dst ! i)"
    using i lg assms(1-4) by (auto simp: nth_mem_put mem_get_def l_def)
  also have "\<dots> = ?b ! i" using i assms(1-4) by (auto simp: nth_append l_def mod_if add.commute)
  finally show "?a ! i = ?b ! i" .
qed

section \<open>A bounded queue of bytes\<close>

lemma fifo_invE:
  assumes "fifo_inv f"
  obtains k where "0 < k" "k < 32" "f_size f = 2 ^ k" "f_mask f = 2 ^ k - 1" "length (f_data f) = 2 ^ k"
    "fifo_used f \<le> 2 ^ k" "free_bytes f = f_size f - (f_in f - f_out f)" "unat (fifo_unused f) = 2 ^ k - fifo_used f"
proof -
  from assms obtain k where k: "0 < k" "k < 32" "f_size f = 2 ^ k" "f_mask f = 2 ^ k - 1" "length (f_data f) = 2 ^ k"
    and u: "f_in f - f_out f \<le> 2 ^ k" "free_bytes f = f_size f - (f_in f - f_out f)"
    by (auto simp: fifo_inv_def)
  have "fifo_used f \<le> 2 ^ k" using u(1) unat_2p32 [OF k(2)] by (simp add: fifo_used_def word_le_nat_alt)
  moreover have "unat (fifo_unused f) = 2 ^ k - fifo_used f"
    using u(1) unat_2p32 [OF k(2)] k(4) by (simp add: fifo_unused_def fifo_used_def unat_sub)
  ultimately show thesis using k u(2) that by blast
qed

text \<open>The counters may wrap: only their difference and their low bits matter.\<close>

lemma in_position:
  assumes "k < 32"
  shows "unat (i :: u32) mod 2 ^ k = (unat (w :: u32) + unat (i - w)) mod 2 ^ k"
proof -
  have "unat i = (unat w + unat (i - w)) mod 2 ^ 32"
    using unat_word_ariths(1) [of w "i - w"] by simp
  moreover have "(2::nat) ^ k dvd 2 ^ 32" using assms by (intro le_imp_power_dvd) simp
  ultimately show ?thesis by (simp add: mod_mod_cancel)
qed

lemma fifo_in_spec:
  assumes i: "fifo_inv f" and len: "unat len \<le> length buf" and r: "fifo_in buf len f = (f', n)"
  shows "fifo_inv f' \<and> unat n = min (unat len) (unat (f_size f) - length (fifo_bytes f))
      \<and> fifo_bytes f' = fifo_bytes f @ take (unat n) buf \<and> f_size f' = f_size f"
proof -
  obtain k where k: "0 < k" "k < 32" "f_size f = 2 ^ k" "f_mask f = 2 ^ k - 1" "length (f_data f) = 2 ^ k"
    and u: "fifo_used f \<le> 2 ^ k" "free_bytes f = f_size f - (f_in f - f_out f)" "unat (fifo_unused f) = 2 ^ k - fifo_used f"
    using fifo_invE [OF i] .
  define N :: nat where "N = 2 ^ k"
  let ?o = "unat (f_out f)" and ?u = "fifo_used f"
  have N: "unat (2 ^ k :: u32) = N" "N < 2 ^ 32"
    using unat_2p32 [OF k(2)] power_strict_increasing [OF k(2), of "2::nat"] by (simp_all add: N_def)
  have n: "n = (if len > fifo_unused f then fifo_unused f else len)" using r by (simp add: fifo_in_def Let_def)
  then have un: "unat n = min (unat len) (N - ?u)" using u(3) by (simp add: N_def word_less_nat_alt min_def)
  define off where "off = unat (f_in f AND f_mask f)"
  have off: "off = (?o + ?u) mod N" "off < N"
    using in_position [OF k(2), of "f_in f" "f_out f"] unat_and_mask [of "f_in f" k] k(4) by (simp_all add: off_def N_def fifo_used_def)
  define l where "l = fifo_min n (f_mask f + 1 - (f_in f AND f_mask f))"
  have "f_in f AND f_mask f \<le> 2 ^ k" using off(2) N(1) by (simp add: off_def word_le_nat_alt)
  then have ul: "unat l = min (unat n) (N - off)"
    using k(4) N(1) by (simp add: l_def fifo_min_def word_less_nat_alt unat_sub off_def min_def)
  then have unl: "unat (n - l) = unat n - unat l" by (simp add: unat_sub word_le_nat_alt)
  have f': "f_in f' = f_in f + n" "f_out f' = f_out f" "f_mask f' = f_mask f" "f_size f' = f_size f" "free_bytes f' = free_bytes f - n"
    "f_data f' = mem_put (mem_put (f_data f) off (take (unat l) buf)) 0 (take (unat n - unat l) (drop (unat l) buf))"
    using r n unl by (auto simp: fifo_in_def fifo_copy_in_def Let_def off_def l_def)
  note w = split_write [OF off(2) k(5) [folded N_def], of "unat n" buf, folded ul, folded f'(6)]
  have nb: "unat n \<le> N" "unat n \<le> length buf" using un len by simp_all
  have us: "fifo_used f' = ?u + unat n"
  proof -
    have "f_in f' - f_out f' = (f_in f - f_out f) + n" by (simp add: f')
    moreover have "?u + unat n < 2 ^ 32" using un u(1) N(2) by (simp add: N_def)
    ultimately show ?thesis by (simp add: fifo_used_def unat_word_ariths(1))
  qed
  have inv: "fifo_inv f'"
  proof -
    have "f_in f' - f_out f' \<le> 2 ^ k" using us un u(1) N(1) by (simp add: word_le_nat_alt fifo_used_def N_def)
    moreover have "free_bytes f' = f_size f' - (f_in f' - f_out f')" by (simp add: f' u(2))
    ultimately show ?thesis using k f' w(1) [OF nb] by (auto simp: fifo_inv_def N_def)
  qed
  have "fifo_bytes f' = fifo_bytes f @ take (unat n) buf"
  proof (rule nth_equalityI)
    show "length (fifo_bytes f') = length (fifo_bytes f @ take (unat n) buf)" using us nb by simp
    fix j assume "j < length (fifo_bytes f')"
    then have j: "j < ?u + unat n" using us by simp
    have L: "length (f_data f') = N" "length (f_data f) = N" using w(1) [OF nb] k(5) by (simp_all add: N_def)
    have fb: "fifo_bytes f' ! j = f_data f' ! ((?o + j) mod N)" using j us L by (simp add: fifo_bytes_def f')
    show "fifo_bytes f' ! j = (fifo_bytes f @ take (unat n) buf) ! j"
    proof (cases "j < ?u")
      case True
      have "(off + m) mod N \<noteq> (?o + j) mod N" if "m < unat n" for m
      proof
        assume "(off + m) mod N = (?o + j) mod N"
        then have "(?o + (?u + m)) mod N = (?o + j) mod N" unfolding off(1) by (simp add: mod_add_left_eq add.assoc)
        moreover have "m < N - ?u" using that un by simp
        then have "?u + m < N" "j < N" using u(1) True by (simp_all add: N_def)
        ultimately have "?u + m = j" by (rule mod_offset_inj)
        then show False using True by simp
      qed
      then have "f_data f' ! ((?o + j) mod N) = f_data f ! ((?o + j) mod N)" using w(3) [OF nb, of "(?o + j) mod N"] off(2) by simp
      then show ?thesis using fb True L by (simp add: nth_append fifo_bytes_def)
    next
      case False
      then have "?o + j = (?o + ?u) + (j - ?u)" by simp
      then have "(?o + j) mod N = (off + (j - ?u)) mod N" unfolding off(1) mod_add_left_eq by (rule arg_cong)
      then show ?thesis using fb w(2) [OF nb, of "j - ?u"] False j by (simp add: nth_append)
    qed
  qed
  then show ?thesis using inv un f'(4) k(3) N(1) by simp
qed

lemma fifo_out_spec:
  assumes i: "fifo_inv f" and len: "unat len \<le> length buf" and r: "fifo_out buf len f = (f', dst, n)"
  shows "fifo_inv f' \<and> unat n = min (unat len) (length (fifo_bytes f)) \<and> dst = take (unat n) (fifo_bytes f) @ drop (unat n) buf
      \<and> fifo_bytes f' = drop (unat n) (fifo_bytes f) \<and> fifo_out_peek buf len f = (dst, n)"
proof -
  obtain k where k: "0 < k" "k < 32" "f_size f = 2 ^ k" "f_mask f = 2 ^ k - 1" "length (f_data f) = 2 ^ k"
    and u: "fifo_used f \<le> 2 ^ k" "free_bytes f = f_size f - (f_in f - f_out f)"
    using fifo_invE [OF i] .
  define N :: nat where "N = 2 ^ k"
  let ?o = "unat (f_out f)" and ?u = "fifo_used f"
  have N: "unat (2 ^ k :: u32) = N" using unat_2p32 [OF k(2)] by (simp add: N_def)
  have n: "n = (if len > f_in f - f_out f then f_in f - f_out f else len)"
    using r by (simp add: fifo_out_def internal_fifo_out_peek_def Let_def)
  then have un: "unat n = min (unat len) ?u" by (simp add: fifo_used_def word_less_nat_alt min_def)
  have le: "n \<le> f_in f - f_out f" using n by (simp add: not_less split: if_splits)
  define off where "off = unat (f_out f AND f_mask f)"
  have off: "off = ?o mod N" "off < N" using unat_and_mask [of "f_out f" k] k(4) by (simp_all add: off_def N_def)
  define l where "l = fifo_min n (f_mask f + 1 - (f_out f AND f_mask f))"
  have "f_out f AND f_mask f \<le> 2 ^ k" using off(2) N by (simp add: off_def word_le_nat_alt)
  then have ul: "unat l = min (unat n) (N - off)"
    using k(4) N by (simp add: l_def fifo_min_def word_less_nat_alt unat_sub off_def min_def)
  then have unl: "unat (n - l) = unat n - unat l" by (simp add: unat_sub word_le_nat_alt)
  have nb: "unat n \<le> N" "unat n \<le> length buf" using un len u(1) by (simp_all add: N_def)
  have "dst = mem_put (mem_put buf 0 (mem_get (f_data f) off (unat l))) (unat l) (mem_get (f_data f) 0 (unat n - unat l))"
    using r n unl by (auto simp: fifo_out_def internal_fifo_out_peek_def kfifo_copy_out_def Let_def off_def l_def)
  also have "\<dots> = map (\<lambda>m. f_data f ! ((off + m) mod N)) [0..<unat n] @ drop (unat n) buf"
    using split_read [OF off(2) k(5) [folded N_def] nb] by (simp add: ul)
  also have "map (\<lambda>m. f_data f ! ((off + m) mod N)) [0..<unat n] = take (unat n) (fifo_bytes f)"
    using un k(5) by (intro nth_equalityI) (simp_all add: fifo_bytes_def off(1) mod_add_left_eq N_def)
  finally have dst: "dst = take (unat n) (fifo_bytes f) @ drop (unat n) buf" .
  have f': "f' = f\<lparr>f_out := f_out f + n, free_bytes := free_bytes f + n\<rparr>"
    using r n by (auto simp: fifo_out_def internal_fifo_out_peek_def Let_def)
  have d: "f_in f - (f_out f + n) = (f_in f - f_out f) - n" by simp
  have us: "fifo_used f' = ?u - unat n" using unat_sub [OF le] by (simp add: fifo_used_def f' diff_diff_eq)
  have "fifo_inv f'"
  proof -
    have "unat ((f_in f - f_out f) - n) \<le> N" using unat_sub [OF le] u(1) by (simp add: fifo_used_def N_def)
    then have "(f_in f - f_out f) - n \<le> 2 ^ k" using N by (simp add: word_le_nat_alt)
    then show ?thesis using k u(2) unfolding fifo_inv_def f' by (auto simp: diff_diff_eq [symmetric] d)
  qed
  moreover have "fifo_bytes f' = drop (unat n) (fifo_bytes f)"
  proof (rule nth_equalityI)
    show "length (fifo_bytes f') = length (drop (unat n) (fifo_bytes f))" using us by simp
    fix j assume "j < length (fifo_bytes f')"
    then have j: "j < ?u - unat n" using us by simp
    have "unat (f_out f + n) mod N = (?o + unat n) mod N" using in_position [OF k(2), of "f_out f + n" "f_out f"] by (simp add: N_def)
    then have "(unat (f_out f + n) + j) mod N = (?o + unat n + j) mod N" by (rule mod_add_cong) (rule refl)
    then have p: "(unat (f_out f + n) + j) mod N = (?o + (unat n + j)) mod N" by (simp only: add.assoc)
    have "fifo_bytes f' ! j = f_data f ! ((unat (f_out f + n) + j) mod N)" using j us k(5) by (simp add: fifo_bytes_def f' N_def)
    also have "\<dots> = fifo_bytes f ! (unat n + j)" using j k(5) nth_upt [of 0 "unat n + j" ?u] unfolding p by (simp add: fifo_bytes_def N_def less_diff_conv add.commute)
    finally show "fifo_bytes f' ! j = drop (unat n) (fifo_bytes f) ! j" using j by simp
  qed
  moreover have "fifo_out_peek buf len f = (dst, n)"
    using r by (auto simp: fifo_out_def fifo_out_peek_def split: prod.splits)
  ultimately show ?thesis using un dst by simp
qed

text \<open>
  C33: The byte queue is a bounded first-in first-out buffer, also when its 32-bit counters wrap around: writing appends as many of the given
  bytes as there is room for and reports how many; reading delivers the oldest bytes and removes them; peeking delivers
  them and changes nothing. No copy leaves the buffer.
\<close>

theorem fifo_refines_queue:
  assumes "fifo_inv f" "unat len \<le> length buf"
  shows "(case fifo_in buf len f of (f', n) \<Rightarrow> fifo_inv f' \<and> unat n = min (unat len) (unat (f_size f) - length (fifo_bytes f))
      \<and> fifo_bytes f' = fifo_bytes f @ take (unat n) buf)
    \<and> (case fifo_out buf len f of (f', dst, n) \<Rightarrow> fifo_inv f' \<and> unat n = min (unat len) (length (fifo_bytes f))
      \<and> dst = take (unat n) (fifo_bytes f) @ drop (unat n) buf \<and> fifo_bytes f' = drop (unat n) (fifo_bytes f)
      \<and> fifo_out_peek buf len f = (dst, n))"
proof -
  obtain f1 n1 f2 dst n2 where r: "fifo_in buf len f = (f1, n1)" "fifo_out buf len f = (f2, dst, n2)" by (metis prod_cases3 surj_pair)
  show ?thesis using fifo_in_spec [OF assms r(1)] fifo_out_spec [OF assms r(2)] by (simp add: r)
qed

text \<open>A queue of four bytes just before its counters wrap: one byte is stored, at the last position.\<close>

definition wrapping_fifo :: k_fifo where
  "wrapping_fifo = \<lparr>f_in = 0, f_out = - 1, f_mask = 3, f_data = [0, 0, 0, 9], free_bytes = 3, f_size = 4\<rparr>"

theorem fifo_refines_queue_witness:
  "fifo_bytes (fst (fifo_in [1, 2, 3] 3 wrapping_fifo)) = [9, 1, 2, 3]"
proof -
  have i: "fifo_inv wrapping_fifo"
    unfolding fifo_inv_def wrapping_fifo_def by (auto intro!: exI [of _ 2])
  have b: "fifo_bytes wrapping_fifo = [9]"
    by (simp add: fifo_bytes_def fifo_used_def wrapping_fifo_def unsigned_minus_1_eq_mask mask_eq_exp_minus_1)
  show ?thesis
    using fifo_refines_queue [OF i, of 3 "[1, 2, 3]"] unfolding b by (auto simp: wrapping_fifo_def)
qed

text \<open>
  A fresh queue is empty and ready: \<open>fifo_init\<close> accepts exactly the sizes that are powers of two and at least two, and \<open>fifo_out_all\<close>
  empties a queue into a large enough buffer.
\<close>

theorem fifo_init_all:
  assumes "length buffer = unat sz"
  shows "(snd (fifo_init buffer sz f) = 0 \<longleftrightarrow> (\<exists>k. 0 < k \<and> k < 32 \<and> sz = 2 ^ k))
    \<and> (snd (fifo_init buffer sz f) = 0 \<longrightarrow> fifo_inv (fst (fifo_init buffer sz f)) \<and> fifo_bytes (fst (fifo_init buffer sz f)) = [])
    \<and> (fifo_inv g \<and> fifo_used g \<le> length buf \<longrightarrow>
        (case fifo_out_all buf g of (g', dst, n) \<Rightarrow> fifo_inv g' \<and> fifo_bytes g' = [] \<and> take (unat n) dst = fifo_bytes g))"
proof -
  have "is_power_of_2 sz \<longleftrightarrow> (\<exists>k < 32. sz = 2 ^ k)"
  proof
    assume "\<exists>k < 32. sz = 2 ^ k"
    then obtain k where k: "k < 32" "sz = 2 ^ k" by blast
    have "unat (2 ^ k AND (2 ^ k - 1) :: u32) = 0" unfolding unat_and_mask unat_2p32 [OF k(1)] by simp
    then show "is_power_of_2 sz" using k unat_2p32 [OF k(1)] by (auto simp: is_power_of_2_def unat_eq_0)
  qed (rule power_of_2_ex)
  moreover have "(2 ^ k :: u32) < 2 \<longleftrightarrow> k = 0" if "k < 32" for k
    using unat_2p32 [OF that] power_increasing [of 1 k "2::nat"] by (cases k) (simp_all add: word_less_nat_alt)
  ultimately have p: "is_power_of_2 sz \<and> \<not> sz < 2 \<longleftrightarrow> (\<exists>k. 0 < k \<and> k < 32 \<and> sz = 2 ^ k)" by auto
  have st: "snd (fifo_init buffer sz f) = 0 \<longleftrightarrow> is_power_of_2 sz \<and> \<not> sz < 2" by (simp add: fifo_init_def Let_def)
  have "fifo_inv (fst (fifo_init buffer sz f)) \<and> fifo_bytes (fst (fifo_init buffer sz f)) = []" if c: "is_power_of_2 sz \<and> \<not> sz < 2"
  proof -
    obtain k where k: "0 < k" "k < 32" "sz = 2 ^ k" using c p by blast
    show ?thesis using c k assms unat_2p32 [OF k(2)]
      by (auto simp: fifo_init_def Let_def fifo_inv_def fifo_bytes_def fifo_used_def intro!: exI [of _ k])
  qed
  moreover have "case fifo_out_all buf g of (g', dst, n) \<Rightarrow> fifo_inv g' \<and> fifo_bytes g' = [] \<and> take (unat n) dst = fifo_bytes g"
    if g: "fifo_inv g" "fifo_used g \<le> length buf"
  proof -
    let ?len = "f_size g - free_bytes g"
    have l: "?len = f_in g - f_out g" using g(1) by (simp add: fifo_inv_def)
    show ?thesis
    proof (cases "?len = 0")
      case True
      then have "fifo_bytes g = []" using l by (simp add: fifo_bytes_def fifo_used_def)
      then show ?thesis using True g(1) by (simp add: fifo_out_all_def)
    next
      case False
      obtain g' dst n where r: "fifo_out buf ?len g = (g', dst, n)" by (metis prod_cases3)
      have ul: "unat ?len = fifo_used g" using l by (simp add: fifo_used_def)
      then show ?thesis using False r fifo_out_spec [OF g(1) _ r] g(2) by (simp add: fifo_out_all_def fifo_out_def Let_def)
    qed
  qed
  ultimately show ?thesis unfolding st p [symmetric] by (intro conjI impI refl) simp_all
qed

theorem fifo_init_all_witness:
  "snd (fifo_init (replicate 8 0) 8 wrapping_fifo) = 0"
proof -
  have "\<exists>k. 0 < k \<and> k < 32 \<and> (8::u32) = 2 ^ k" by (rule exI [of _ 3]) simp
  then show ?thesis using fifo_init_all [of "replicate 8 0" 8 wrapping_fifo] by simp
qed

end
