(* ===== verification/Bitmap.thy ===== *)
theory Bitmap
  imports Rhino_Prelude
begin

unbundle bit_operations_syntax

text \<open>
  The priority bitmap of \<^verbatim>\<open>core/include/k_bitmap.h\<close> and the bit searches of \<^verbatim>\<open>common/k_ffs.c\<close>.
  Priority \<open>nr\<close> is bit \<open>31 - nr mod 32\<close> of word \<open>nr div 32\<close>, so the first bit of the bitmap is the
  most significant one of word 0. The result of the search is characterised as the least
  priority whose bit is set.
\<close>

section \<open>The code\<close>

definition BITMAP_WORD :: "nat \<Rightarrow> nat" where
  "BITMAP_WORD nr = drop_bit 5 nr"

definition BITMAP_MASK :: "nat \<Rightarrow> u32" where
  "BITMAP_MASK nr = push_bit (31 - (nr AND 31)) 1"

definition krhino_bitmap_set :: "u32 list \<Rightarrow> nat \<Rightarrow> u32 list" where
  "krhino_bitmap_set bm nr = bm[BITMAP_WORD nr := bm ! BITMAP_WORD nr OR BITMAP_MASK nr]"

definition krhino_bitmap_clear :: "u32 list \<Rightarrow> nat \<Rightarrow> u32 list" where
  "krhino_bitmap_clear bm nr = bm[BITMAP_WORD nr := bm ! BITMAP_WORD nr AND NOT (BITMAP_MASK nr)]"

text \<open>
  The while loop over zero words. \<open>None\<close>: the loop has run past the last word of the array, which
  in C reads memory that is not part of the bitmap.
\<close>

fun first_word :: "u32 list \<Rightarrow> nat \<Rightarrow> (u32 \<times> nat) option" where
  "first_word [] nr = None"
| "first_word (w # ws) nr = (if w = 0 then first_word ws (nr + 32) else Some (w, nr))"

text \<open>One of the five halving steps, on the current word and count.\<close>

definition ffb_step :: "u32 \<Rightarrow> nat \<Rightarrow> u32 \<times> nat \<Rightarrow> u32 \<times> nat" where
  "ffb_step msk k st = (case st of (tmp, nr) \<Rightarrow>
     if tmp AND msk = 0 then (push_bit k tmp, nr + k) else (tmp, nr))"

definition ffb_word :: "u32 \<Rightarrow> nat \<Rightarrow> nat" where
  "ffb_word w nr =
     (let st1 = ffb_step 0xFFFF0000 16 (w, nr);
          st2 = ffb_step 0xFF000000 8 st1;
          st3 = ffb_step 0xF0000000 4 st2;
          st4 = ffb_step 0xC0000000 2 st3
      in if fst st4 AND 0x80000000 = 0 then snd st4 + 1 else snd st4)"

definition krhino_find_first_bit :: "u32 list \<Rightarrow> nat option" where
  "krhino_find_first_bit bm =
     (case first_word bm 0 of None \<Rightarrow> None | Some (tmp, nr) \<Rightarrow> Some (ffb_word tmp nr))"

definition ffs32_msb :: "u32 \<Rightarrow> int" where
  "ffs32_msb bitmap =
     (if bitmap = 0 then 0 else 32 - int (the (krhino_find_first_bit [bitmap])))"

definition ffs32_lsb :: "u32 \<Rightarrow> int" where
  "ffs32_lsb bitmap =
     (if bitmap = 0 then 0
      else let x = bitmap AND (- bitmap) in 32 - int (the (krhino_find_first_bit [x])))"

section \<open>The set a bitmap stands for\<close>

definition bitmap_test :: "u32 list \<Rightarrow> nat \<Rightarrow> bool" where
  "bitmap_test bm nr \<longleftrightarrow> nr div 32 < length bm \<and> bit (bm ! (nr div 32)) (31 - nr mod 32)"

lemma BITMAP_WORD_div: "BITMAP_WORD nr = nr div 32"
  by (simp add: BITMAP_WORD_def drop_bit_eq_div)

lemma and_31_mod: "nr AND 31 = nr mod (32::nat)"
proof -
  have "nr AND mask 5 = nr mod 2 ^ 5"
    by (simp only: take_bit_eq_mod flip: take_bit_eq_mask)
  then show ?thesis by (simp add: mask_eq_exp_minus_1)
qed

lemma bit_BITMAP_MASK: "i < 32 \<Longrightarrow> bit (BITMAP_MASK nr) i \<longleftrightarrow> i = 31 - nr mod 32"
  by (auto simp: BITMAP_MASK_def and_31_mod bit_simps)

lemma bit_index_less [simp]: "31 - nr mod 32 < (32::nat)"
  by simp

lemma same_bit_iff: "31 - nr mod 32 = 31 - mr mod 32 \<longleftrightarrow> nr mod 32 = mr mod (32::nat)"
proof -
  have "nr mod 32 < 32" "mr mod 32 < 32" by simp_all
  then show ?thesis by linarith
qed

lemma bitmap_test_set:
  assumes "nr div 32 < length bm"
  shows "bitmap_test (krhino_bitmap_set bm nr) mr \<longleftrightarrow> mr = nr \<or> bitmap_test bm mr"
proof (cases "mr div 32 = nr div 32")
  case True
  have "mr = nr \<longleftrightarrow> mr mod 32 = nr mod 32"
    using True by (metis div_mult_mod_eq)
  then show ?thesis
    using assms True same_bit_iff [of mr nr]
    by (auto simp: bitmap_test_def krhino_bitmap_set_def BITMAP_WORD_div bit_or_iff bit_BITMAP_MASK)
next
  case False
  then show ?thesis
    by (auto simp: bitmap_test_def krhino_bitmap_set_def BITMAP_WORD_div)
qed

lemma bitmap_test_clear:
  assumes "nr div 32 < length bm"
  shows "bitmap_test (krhino_bitmap_clear bm nr) mr \<longleftrightarrow> mr \<noteq> nr \<and> bitmap_test bm mr"
proof (cases "mr div 32 = nr div 32")
  case True
  have "mr = nr \<longleftrightarrow> mr mod 32 = nr mod 32"
    using True by (metis div_mult_mod_eq)
  then show ?thesis
    using assms True same_bit_iff [of mr nr]
    by (auto simp: bitmap_test_def krhino_bitmap_clear_def BITMAP_WORD_div bit_and_iff bit_not_iff
        bit_BITMAP_MASK less_Suc_eq_le)
next
  case False
  then show ?thesis
    by (auto simp: bitmap_test_def krhino_bitmap_clear_def BITMAP_WORD_div)
qed

lemma length_bitmap_set [simp]: "length (krhino_bitmap_set bm nr) = length bm"
  by (simp add: krhino_bitmap_set_def)

lemma length_bitmap_clear [simp]: "length (krhino_bitmap_clear bm nr) = length bm"
  by (simp add: krhino_bitmap_clear_def)

section \<open>The search\<close>

text \<open>\<open>lead w n\<close>: the \<open>n\<close> most significant bits of \<open>w\<close> are clear and the next one is set.\<close>

definition lead :: "u32 \<Rightarrow> nat \<Rightarrow> bool" where
  "lead w n \<longleftrightarrow> n < 32 \<and> bit w (31 - n) \<and> (\<forall>j<n. \<not> bit w (31 - j))"

lemma lead_exists:
  assumes "w \<noteq> 0"
  shows "\<exists>n. lead w n"
proof -
  have "\<exists>n. n < 32 \<and> bit w (31 - n)"
  proof -
    obtain i where "bit w i" using assms by (auto simp: bit_eq_iff)
    then have "i < 32" using bit_imp_le_length by force
    then have "31 - i < 32 \<and> bit w (31 - (31 - i))" using \<open>bit w i\<close> by simp
    then show ?thesis by blast
  qed
  then obtain n where "n < 32 \<and> bit w (31 - n)" "\<forall>m<n. \<not> (m < 32 \<and> bit w (31 - m))"
    using exists_least_iff [of "\<lambda>n. n < 32 \<and> bit w (31 - n)"] by blast
  then show ?thesis by (auto simp: lead_def)
qed

lemma lead_unique: "lead w n \<Longrightarrow> lead w m \<Longrightarrow> n = m"
  by (metis lead_def linorder_neqE_nat)

lemma top_mask_clear:
  assumes "lead w n" and "\<And>i. i < 32 \<Longrightarrow> bit m i \<longleftrightarrow> 32 - k \<le> i" and "k \<le> 32"
  shows "w AND m = 0 \<longleftrightarrow> k \<le> n"
proof
  assume z: "w AND m = 0"
  show "k \<le> n"
  proof (rule ccontr)
    assume "\<not> k \<le> n"
    then have "bit (w AND m) (31 - n)"
      using assms by (auto simp: lead_def bit_and_iff)
    with z show False by simp
  qed
next
  assume kn: "k \<le> n"
  show "w AND m = 0"
  proof (rule bit_word_eqI)
    fix i assume "i < LENGTH(32)"
    then have i: "i < 32" by simp
    have "\<not> bit w i" if "32 - k \<le> i"
    proof -
      have "31 - i < n" "31 - (31 - i) = i" using that i kn assms(3) by auto
      then show ?thesis using assms(1) by (metis lead_def)
    qed
    then show "bit (w AND m) i \<longleftrightarrow> bit (0::u32) i"
      using assms(2) [OF i] by (auto simp: bit_and_iff)
  qed
qed

lemma lead_push: "lead w n \<Longrightarrow> k \<le> n \<Longrightarrow> lead (push_bit k w) (n - k)"
  by (auto simp: lead_def bit_push_bit_iff)

lemma ffb_step_lead:
  assumes "lead w n" and "\<And>i. i < 32 \<Longrightarrow> bit m i \<longleftrightarrow> 32 - k \<le> i" and "k \<le> 32" and "n < 2 * k"
  shows "\<exists>w' n'. ffb_step m k (w, nr) = (w', nr + n - n') \<and> lead w' n' \<and> n' < k \<and> n' \<le> n"
proof (cases "k \<le> n")
  case True
  then have "ffb_step m k (w, nr) = (push_bit k w, nr + n - (n - k))"
    using top_mask_clear [OF assms(1-3)] by (simp add: ffb_step_def)
  then show ?thesis using lead_push [OF assms(1) True] assms(4) True by fastforce
next
  case False
  then have "ffb_step m k (w, nr) = (w, nr + n - n)"
    using top_mask_clear [OF assms(1-3)] by (simp add: ffb_step_def)
  then show ?thesis using assms(1) False by fastforce
qed

lemma mask_bits:
  "i < 32 \<Longrightarrow> bit (0xFFFF0000::u32) i \<longleftrightarrow> 32 - 16 \<le> i"
  "i < 32 \<Longrightarrow> bit (0xFF000000::u32) i \<longleftrightarrow> 32 - 8 \<le> i"
  "i < 32 \<Longrightarrow> bit (0xF0000000::u32) i \<longleftrightarrow> 32 - 4 \<le> i"
  "i < 32 \<Longrightarrow> bit (0xC0000000::u32) i \<longleftrightarrow> 32 - 2 \<le> i"
  "i < 32 \<Longrightarrow> bit (0x80000000::u32) i \<longleftrightarrow> 32 - 1 \<le> i"
proof -
  have m: "bit (push_bit (32 - k) (mask k) :: u32) i \<longleftrightarrow> 32 - k \<le> i" if "i < 32" "k \<le> 32" for k
    using that by (auto simp: bit_push_bit_iff bit_mask_iff)
  show "i < 32 \<Longrightarrow> bit (0xFFFF0000::u32) i \<longleftrightarrow> 32 - 16 \<le> i"
    using m [of 16] by (simp add: mask_eq_exp_minus_1 push_bit_eq_mult)
  show "i < 32 \<Longrightarrow> bit (0xFF000000::u32) i \<longleftrightarrow> 32 - 8 \<le> i"
    using m [of 8] by (simp add: mask_eq_exp_minus_1 push_bit_eq_mult)
  show "i < 32 \<Longrightarrow> bit (0xF0000000::u32) i \<longleftrightarrow> 32 - 4 \<le> i"
    using m [of 4] by (simp add: mask_eq_exp_minus_1 push_bit_eq_mult)
  show "i < 32 \<Longrightarrow> bit (0xC0000000::u32) i \<longleftrightarrow> 32 - 2 \<le> i"
    using m [of 2] by (simp add: mask_eq_exp_minus_1 push_bit_eq_mult)
  show "i < 32 \<Longrightarrow> bit (0x80000000::u32) i \<longleftrightarrow> 32 - 1 \<le> i"
    using m [of 1] by (simp add: mask_eq_exp_minus_1 push_bit_eq_mult)
qed

lemma ffb_word_lead:
  assumes "lead w n"
  shows "ffb_word w nr = nr + n"
proof -
  have "n < 2 * 16" using assms by (simp add: lead_def)
  from ffb_step_lead [OF assms mask_bits(1) _ this] obtain w1 n1 where
    s1: "ffb_step 0xFFFF0000 16 (w, nr) = (w1, nr + n - n1)" "lead w1 n1" "n1 < 2 * 8" "n1 \<le> n"
    by fastforce
  from ffb_step_lead [where nr = "nr + n - n1", OF s1(2) mask_bits(2) _ s1(3)] obtain w2 n2 where
    s2: "ffb_step 0xFF000000 8 (w1, nr + n - n1) = (w2, nr + n - n2)" "lead w2 n2" "n2 < 2 * 4" "n2 \<le> n"
    using s1(4) by fastforce
  from ffb_step_lead [where nr = "nr + n - n2", OF s2(2) mask_bits(3) _ s2(3)] obtain w3 n3 where
    s3: "ffb_step 0xF0000000 4 (w2, nr + n - n2) = (w3, nr + n - n3)" "lead w3 n3" "n3 < 2 * 2" "n3 \<le> n"
    using s2(4) by fastforce
  from ffb_step_lead [where nr = "nr + n - n3", OF s3(2) mask_bits(4) _ s3(3)] obtain w4 n4 where
    s4: "ffb_step 0xC0000000 2 (w3, nr + n - n3) = (w4, nr + n - n4)" "lead w4 n4" "n4 < 2" "n4 \<le> n"
    using s3(4) by fastforce
  have "w4 AND 0x80000000 = 0 \<longleftrightarrow> 1 \<le> n4"
    by (rule top_mask_clear [OF s4(2) mask_bits(5)]) simp_all
  then show ?thesis
    using s1(1) s2(1) s3(1) s4(1,3,4) by (auto simp: ffb_word_def Let_def)
qed

lemma first_word_Some:
  "first_word bm nr = Some (w, m) \<Longrightarrow>
     \<exists>i < length bm. w = bm ! i \<and> w \<noteq> 0 \<and> m = nr + 32 * i \<and> (\<forall>j<i. bm ! j = 0)"
proof (induction bm arbitrary: nr)
  case (Cons v vs)
  show ?case
  proof (cases "v = 0")
    case True
    with Cons.prems have "first_word vs (nr + 32) = Some (w, m)" by simp
    from Cons.IH [OF this] obtain i where "i < length vs" "w = vs ! i" "w \<noteq> 0"
      "m = nr + 32 + 32 * i" "\<forall>j<i. vs ! j = 0" by blast
    with True show ?thesis
      by (intro exI [of _ "Suc i"]) (auto simp: nth_Cons split: nat.splits)
  next
    case False
    with Cons.prems show ?thesis by (intro exI [of _ 0]) auto
  qed
qed simp

lemma first_word_None: "first_word bm nr = None \<longleftrightarrow> (\<forall>w \<in> set bm. w = 0)"
  by (induction bm arbitrary: nr) auto

text \<open>The search returns the least element of the set, and runs off the array iff the set is empty.\<close>

lemma find_first_bit_Some:
  assumes "krhino_find_first_bit bm = Some n"
  shows "bitmap_test bm n \<and> (\<forall>m<n. \<not> bitmap_test bm m)"
proof -
  from assms obtain w k where fw: "first_word bm 0 = Some (w, k)" and n: "n = ffb_word w k"
    by (auto simp: krhino_find_first_bit_def split: option.splits)
  then obtain i where i: "i < length bm" "w = bm ! i" "w \<noteq> 0" "k = 32 * i" "\<forall>j<i. bm ! j = 0"
    using first_word_Some by fastforce
  obtain l where l: "lead w l" using lead_exists i(3) by blast
  then have nl: "n = 32 * i + l" "l < 32"
    using ffb_word_lead [OF l] n i(4) by (simp_all add: lead_def)
  then have nd: "n div 32 = i" "n mod 32 = l" by auto
  have "bitmap_test bm n"
    using l i nd by (simp add: bitmap_test_def lead_def)
  moreover have "\<not> bitmap_test bm m" if "m < n" for m
  proof (cases "m div 32 = i")
    case True
    have "m = 32 * (m div 32) + m mod 32" by simp
    then have "m mod 32 < l" using that nl True by linarith
    then show ?thesis using l i True by (auto simp: bitmap_test_def lead_def)
  next
    case False
    have "m div 32 \<le> n div 32" using that by (simp add: div_le_mono)
    with False nd have "m div 32 < i" by simp
    with i show ?thesis by (simp add: bitmap_test_def)
  qed
  ultimately show ?thesis by blast
qed

lemma find_first_bit_None: "krhino_find_first_bit bm = None \<longleftrightarrow> (\<forall>n. \<not> bitmap_test bm n)"
proof
  assume "krhino_find_first_bit bm = None"
  then have "\<forall>w \<in> set bm. w = 0"
    by (auto simp: krhino_find_first_bit_def first_word_None split: option.splits prod.splits)
  then show "\<forall>n. \<not> bitmap_test bm n"
    by (metis bitmap_test_def bit_0_eq bot_apply bot_bool_def nth_mem)
next
  assume "\<forall>n. \<not> bitmap_test bm n"
  then show "krhino_find_first_bit bm = None"
    using find_first_bit_Some by (cases "krhino_find_first_bit bm") auto
qed

text \<open>C-shaped corollary: what the search returns when some bit is set.\<close>

lemma find_first_bit_least:
  assumes "bitmap_test bm m"
  shows "krhino_find_first_bit bm = Some (LEAST n. bitmap_test bm n)"
proof -
  from assms obtain n where n: "krhino_find_first_bit bm = Some n"
    using find_first_bit_None by fastforce
  have "(LEAST n. bitmap_test bm n) = n"
    using find_first_bit_Some [OF n] by (intro Least_equality) (auto simp: not_less [symmetric])
  with n show ?thesis by simp
qed

text \<open>
  C36: The search for the highest ready priority is right: the binary search by shifting in \<open>krhino_find_first_bit\<close> returns what a linear search over all bit numbers
  would, the least number whose bit is set, and none when no bit is set.
\<close>

theorem find_first_bit_linear:
  "krhino_find_first_bit bm = find (bitmap_test bm) [0..<32 * length bm]"
proof (cases "krhino_find_first_bit bm")
  case None
  then have "find (bitmap_test bm) [0..<32 * length bm] = None" by (simp add: find_first_bit_None find_None_iff)
  then show ?thesis using None by simp
next
  case (Some n)
  note n = find_first_bit_Some [OF Some]
  then have "n div 32 < length bm" by (simp add: bitmap_test_def)
  then have "n < 32 * length bm" by (simp add: div_less_iff_less_mult)
  then have "find (bitmap_test bm) [0..<32 * length bm] = Some n"
    using n unfolding find_Some_iff by (intro exI [of _ n]) simp
  then show ?thesis using Some by simp
qed

end
