(* ===== verification/Kernel_State.thy ===== *)
theory Kernel_State
  imports Kernel_Types Bitmap Ringbuf
begin

text \<open>
  The state of the kernel: one record per structure of \<^verbatim>\<open>core/include\<close>, and the record of the
  kernel's global variables (\<^verbatim>\<open>core/k_obj.c\<close>).

  Objects live in stores indexed by their address. An address of a blocking object is at the same
  time the address of its first member, the \<open>blk_obj_t\<close>; the stores \<open>blks\<close> and \<open>sems\<close>, \<open>mutexes\<close>,
  \<open>events\<close>, \<open>queues\<close>, \<open>buf_queues\<close> hold the two parts, so that the casts of the C code between
  \<open>blk_obj_t *\<close> and the object's own type are the identity. A pointer that may be \<open>NULL\<close> is an
  option. An intrusive list is the list of the objects linked in it, in order from the head; theory
  \<open>Klist\<close> justifies this reading of the list operations. The ready lists have no head node: the
  pointer \<open>cur_list_item[p]\<close> is the first element of the list here, \<open>NULL\<close> the empty list. The chain
  of the mutexes a task owns (\<open>mutex_list\<close>) is the list of those mutexes.

  The processor is described by the two bits the kernel's assembly works with: interrupts masked,
  and a task switch pending in the interrupt controller. \<open>k_faults\<close> records calls of \<open>k_err_proc\<close>,
  and the places where the C code would follow a null pointer or never return.
\<close>

type_synonym tid = nat
type_synonym oid = nat

section \<open>Structures\<close>

record ktask_t =
  task_stack_base :: nat
  stack_size :: nat
  suspend_count :: u8
  mutex_list :: "oid list"
  tick_match :: u64
  tick_remain :: u64
  tick_head :: bool
  msg :: "u8 list"
  bq_msg_size :: nat
  task_state :: task_stat_t
  blk_state :: blk_state_t
  blk_obj :: "oid option"
  task_sem_obj :: "oid option"
  task_time_slice :: u32
  time_total :: u32
  pend_flags :: u32
  pend_info :: u32
  pend_option :: u8
  sched_policy :: u8
  prio :: nat
  b_prio :: nat
  task_mm_alloc_flag :: mm_alloc_flag_t
  runtime :: u32

record blk_obj_t =
  blk_list :: "tid list"
  blk_policy :: blk_policy_t
  obj_type :: kobj_type_t

record ksem_t =
  count :: u32
  peak_count :: u32
  sem_mm_alloc_flag :: mm_alloc_flag_t

record kmutex_t =
  mutex_task :: "tid option"
  owner_nested :: u32
  mutex_mm_alloc_flag :: mm_alloc_flag_t

record kevent_t =
  flags :: u32
  event_mm_alloc_flag :: mm_alloc_flag_t

record msg_q_t =
  queue_start :: nat
  q_size :: nat
  cur_num :: nat
  peak_num :: nat

record kqueue_t =
  ringbuf :: k_ringbuf_t
  msg_q :: msg_q_t
  queue_mm_alloc_flag :: mm_alloc_flag_t

record kbuf_queue_t =
  bq_buf :: nat
  bq_ringbuf :: k_ringbuf_t
  max_msg_size :: nat
  bq_cur_num :: nat
  bq_peak_num :: nat
  min_free_buf_size :: nat
  bq_mm_alloc_flag :: mm_alloc_flag_t

record runqueue_t =
  cur_list_item :: "nat \<Rightarrow> tid list"
  task_bit_map :: "u32 list"
  highest_pri :: nat

record kobj_list_t =
  task_head :: "tid list"
  mutex_head :: "oid list"
  sem_head :: "oid list"
  queue_head :: "oid list"
  event_head :: "oid list"
  buf_queue_head :: "oid list"

datatype kfault = KErr kstat | KNull | KHang

section \<open>Global variables\<close>

record kstate =
  tasks :: "tid \<Rightarrow> ktask_t"
  blks :: "oid \<Rightarrow> blk_obj_t"
  sems :: "oid \<Rightarrow> ksem_t"
  mutexes :: "oid \<Rightarrow> kmutex_t"
  events :: "oid \<Rightarrow> kevent_t"
  queues :: "oid \<Rightarrow> kqueue_t"
  buf_queues :: "oid \<Rightarrow> kbuf_queue_t"
  g_ready_queue :: runqueue_t
  g_kobj_list :: kobj_list_t
  g_tick_head :: "tid list"
  g_tick_count :: u64
  g_active_task :: tid
  g_preferred_ready_task :: tid
  g_sched_lock :: u8
  g_intrpt_nested_level :: u8
  g_sys_stat :: kstat
  g_idle_task_spawned :: bool
  g_res_list :: "tid list"
  mm_freed :: "nat list"
  irq_off :: bool
  tspend :: bool
  k_faults :: "kfault list"

text \<open>The addresses of the statically allocated idle task and of \<open>g_res_sem\<close>.\<close>

definition g_idle_task :: tid where
  "g_idle_task = 0"

definition g_res_sem :: oid where
  "g_res_sem = 0"

section \<open>Access\<close>

definition upd_task :: "tid \<Rightarrow> (ktask_t \<Rightarrow> ktask_t) \<Rightarrow> kstate \<Rightarrow> kstate" where
  "upd_task t f s = s\<lparr>tasks := (tasks s)(t := f (tasks s t))\<rparr>"

definition upd_blk :: "oid \<Rightarrow> (blk_obj_t \<Rightarrow> blk_obj_t) \<Rightarrow> kstate \<Rightarrow> kstate" where
  "upd_blk ob f s = s\<lparr>blks := (blks s)(ob := f (blks s ob))\<rparr>"

definition upd_rq :: "(runqueue_t \<Rightarrow> runqueue_t) \<Rightarrow> kstate \<Rightarrow> kstate" where
  "upd_rq f s = s\<lparr>g_ready_queue := f (g_ready_queue s)\<rparr>"

definition fault :: "kfault \<Rightarrow> kstate \<Rightarrow> kstate" where
  "fault f s = s\<lparr>k_faults := k_faults s @ [f]\<rparr>"

definition k_err_proc :: "kstat \<Rightarrow> kstate \<Rightarrow> kstate" where
  "k_err_proc err s = fault (KErr err) s"

definition krhino_mm_free :: "nat \<Rightarrow> kstate \<Rightarrow> kstate" where
  "krhino_mm_free p s = s\<lparr>mm_freed := mm_freed s @ [p]\<rparr>"

text \<open>Unlinking a task from whatever wait list it is on: \<open>klist_rm(&task->task_list)\<close> of a waiting task.\<close>

definition task_list_rm :: "tid \<Rightarrow> kstate \<Rightarrow> kstate" where
  "task_list_rm t s = s\<lparr>blks := \<lambda>ob. (blks s ob)\<lparr>blk_list := remove1 t (blk_list (blks s ob))\<rparr>\<rparr>"

abbreviation ready_at :: "kstate \<Rightarrow> nat \<Rightarrow> tid list" where
  "ready_at s p \<equiv> cur_list_item (g_ready_queue s) p"

abbreviation active_prio :: "kstate \<Rightarrow> nat" where
  "active_prio s \<equiv> prio (tasks s (g_active_task s))"

abbreviation waiters :: "kstate \<Rightarrow> oid \<Rightarrow> tid list" where
  "waiters s ob \<equiv> blk_list (blks s ob)"

abbreviation all_tasks :: "kstate \<Rightarrow> tid set" where
  "all_tasks s \<equiv> set (task_head (g_kobj_list s))"

lemmas access_defs = upd_task_def upd_blk_def upd_rq_def fault_def k_err_proc_def task_list_rm_def

section \<open>The processor\<close>

text \<open>
  \<open>cpu_intrpt_save\<close> masks interrupts, the caller keeps the old mask. \<open>cpu_task_switch\<close> and
  \<open>cpu_intrpt_switch\<close> request the switch exception; it is taken as soon as interrupts are open
  outside an interrupt handler, and \<open>cpu_intrpt_restore\<close> waits for it there. The handler leaves the
  active task alone while the scheduler is locked.
\<close>

definition cpu_intrpt_save :: "kstate \<Rightarrow> kstate" where
  "cpu_intrpt_save s = s\<lparr>irq_off := True\<rparr>"

definition cpu_task_switch :: "kstate \<Rightarrow> kstate" where
  "cpu_task_switch s = s\<lparr>tspend := True\<rparr>"

definition cpu_intrpt_switch :: "kstate \<Rightarrow> kstate" where
  "cpu_intrpt_switch s = s\<lparr>tspend := True\<rparr>"

definition tspend_handler :: "kstate \<Rightarrow> kstate" where
  "tspend_handler s =
     (if g_sched_lock s = 0 then s\<lparr>tspend := False, g_active_task := g_preferred_ready_task s\<rparr>
      else s\<lparr>tspend := False\<rparr>)"

definition cpu_intrpt_restore :: "bool \<Rightarrow> kstate \<Rightarrow> kstate" where
  "cpu_intrpt_restore psr s =
     (if \<not> psr \<and> g_intrpt_nested_level s = 0 \<and> tspend s then tspend_handler (s\<lparr>irq_off := psr\<rparr>)
      else s\<lparr>irq_off := psr\<rparr>)"

abbreviation RHINO_CRITICAL_ENTER :: "kstate \<Rightarrow> kstate" where
  "RHINO_CRITICAL_ENTER \<equiv> cpu_intrpt_save"

abbreviation RHINO_CRITICAL_EXIT :: "bool \<Rightarrow> kstate \<Rightarrow> kstate" where
  "RHINO_CRITICAL_EXIT \<equiv> cpu_intrpt_restore"

section \<open>What the processor operations leave alone\<close>

lemma cpu_intrpt_save_frame [simp, kframe]:
  "tasks (cpu_intrpt_save s) = tasks s" "blks (cpu_intrpt_save s) = blks s"
  "sems (cpu_intrpt_save s) = sems s" "mutexes (cpu_intrpt_save s) = mutexes s"
  "events (cpu_intrpt_save s) = events s" "queues (cpu_intrpt_save s) = queues s"
  "buf_queues (cpu_intrpt_save s) = buf_queues s"
  "g_ready_queue (cpu_intrpt_save s) = g_ready_queue s"
  "g_kobj_list (cpu_intrpt_save s) = g_kobj_list s"
  "g_tick_head (cpu_intrpt_save s) = g_tick_head s"
  "g_tick_count (cpu_intrpt_save s) = g_tick_count s"
  "g_active_task (cpu_intrpt_save s) = g_active_task s"
  "g_preferred_ready_task (cpu_intrpt_save s) = g_preferred_ready_task s"
  "g_sched_lock (cpu_intrpt_save s) = g_sched_lock s"
  "g_intrpt_nested_level (cpu_intrpt_save s) = g_intrpt_nested_level s"
  "g_sys_stat (cpu_intrpt_save s) = g_sys_stat s"
  "g_idle_task_spawned (cpu_intrpt_save s) = g_idle_task_spawned s"
  "g_res_list (cpu_intrpt_save s) = g_res_list s" "mm_freed (cpu_intrpt_save s) = mm_freed s"
  "tspend (cpu_intrpt_save s) = tspend s" "k_faults (cpu_intrpt_save s) = k_faults s"
  by (simp_all add: cpu_intrpt_save_def)

lemma cpu_task_switch_frame [simp, kframe]:
  "tasks (cpu_task_switch s) = tasks s" "blks (cpu_task_switch s) = blks s"
  "sems (cpu_task_switch s) = sems s" "mutexes (cpu_task_switch s) = mutexes s"
  "events (cpu_task_switch s) = events s" "queues (cpu_task_switch s) = queues s"
  "buf_queues (cpu_task_switch s) = buf_queues s"
  "g_ready_queue (cpu_task_switch s) = g_ready_queue s"
  "g_kobj_list (cpu_task_switch s) = g_kobj_list s"
  "g_tick_head (cpu_task_switch s) = g_tick_head s"
  "g_tick_count (cpu_task_switch s) = g_tick_count s"
  "g_active_task (cpu_task_switch s) = g_active_task s"
  "g_preferred_ready_task (cpu_task_switch s) = g_preferred_ready_task s"
  "g_sched_lock (cpu_task_switch s) = g_sched_lock s"
  "g_intrpt_nested_level (cpu_task_switch s) = g_intrpt_nested_level s"
  "g_sys_stat (cpu_task_switch s) = g_sys_stat s"
  "g_idle_task_spawned (cpu_task_switch s) = g_idle_task_spawned s"
  "g_res_list (cpu_task_switch s) = g_res_list s" "mm_freed (cpu_task_switch s) = mm_freed s"
  "irq_off (cpu_task_switch s) = irq_off s" "k_faults (cpu_task_switch s) = k_faults s"
  by (simp_all add: cpu_task_switch_def)

lemma cpu_intrpt_switch_frame [simp, kframe]:
  "tasks (cpu_intrpt_switch s) = tasks s" "blks (cpu_intrpt_switch s) = blks s"
  "sems (cpu_intrpt_switch s) = sems s" "mutexes (cpu_intrpt_switch s) = mutexes s"
  "events (cpu_intrpt_switch s) = events s" "queues (cpu_intrpt_switch s) = queues s"
  "buf_queues (cpu_intrpt_switch s) = buf_queues s"
  "g_ready_queue (cpu_intrpt_switch s) = g_ready_queue s"
  "g_kobj_list (cpu_intrpt_switch s) = g_kobj_list s"
  "g_tick_head (cpu_intrpt_switch s) = g_tick_head s"
  "g_tick_count (cpu_intrpt_switch s) = g_tick_count s"
  "g_active_task (cpu_intrpt_switch s) = g_active_task s"
  "g_preferred_ready_task (cpu_intrpt_switch s) = g_preferred_ready_task s"
  "g_sched_lock (cpu_intrpt_switch s) = g_sched_lock s"
  "g_intrpt_nested_level (cpu_intrpt_switch s) = g_intrpt_nested_level s"
  "g_sys_stat (cpu_intrpt_switch s) = g_sys_stat s"
  "g_idle_task_spawned (cpu_intrpt_switch s) = g_idle_task_spawned s"
  "g_res_list (cpu_intrpt_switch s) = g_res_list s" "mm_freed (cpu_intrpt_switch s) = mm_freed s"
  "irq_off (cpu_intrpt_switch s) = irq_off s" "k_faults (cpu_intrpt_switch s) = k_faults s"
  by (simp_all add: cpu_intrpt_switch_def)

lemma cpu_intrpt_restore_frame [simp, kframe]:
  "tasks (cpu_intrpt_restore psr s) = tasks s" "blks (cpu_intrpt_restore psr s) = blks s"
  "sems (cpu_intrpt_restore psr s) = sems s" "mutexes (cpu_intrpt_restore psr s) = mutexes s"
  "events (cpu_intrpt_restore psr s) = events s" "queues (cpu_intrpt_restore psr s) = queues s"
  "buf_queues (cpu_intrpt_restore psr s) = buf_queues s"
  "g_ready_queue (cpu_intrpt_restore psr s) = g_ready_queue s"
  "g_kobj_list (cpu_intrpt_restore psr s) = g_kobj_list s"
  "g_tick_head (cpu_intrpt_restore psr s) = g_tick_head s"
  "g_tick_count (cpu_intrpt_restore psr s) = g_tick_count s"
  "g_preferred_ready_task (cpu_intrpt_restore psr s) = g_preferred_ready_task s"
  "g_sched_lock (cpu_intrpt_restore psr s) = g_sched_lock s"
  "g_intrpt_nested_level (cpu_intrpt_restore psr s) = g_intrpt_nested_level s"
  "g_sys_stat (cpu_intrpt_restore psr s) = g_sys_stat s"
  "g_idle_task_spawned (cpu_intrpt_restore psr s) = g_idle_task_spawned s"
  "g_res_list (cpu_intrpt_restore psr s) = g_res_list s"
  "mm_freed (cpu_intrpt_restore psr s) = mm_freed s"
  "k_faults (cpu_intrpt_restore psr s) = k_faults s"
  by (simp_all add: cpu_intrpt_restore_def tspend_handler_def)

lemma fault_frame [simp, kframe]:
  "tasks (fault f s) = tasks s" "blks (fault f s) = blks s" "sems (fault f s) = sems s"
  "mutexes (fault f s) = mutexes s" "events (fault f s) = events s" "queues (fault f s) = queues s"
  "buf_queues (fault f s) = buf_queues s" "g_ready_queue (fault f s) = g_ready_queue s"
  "g_kobj_list (fault f s) = g_kobj_list s" "g_tick_head (fault f s) = g_tick_head s"
  "g_tick_count (fault f s) = g_tick_count s" "g_active_task (fault f s) = g_active_task s"
  "g_preferred_ready_task (fault f s) = g_preferred_ready_task s"
  "g_sched_lock (fault f s) = g_sched_lock s"
  "g_intrpt_nested_level (fault f s) = g_intrpt_nested_level s"
  "g_sys_stat (fault f s) = g_sys_stat s" "g_idle_task_spawned (fault f s) = g_idle_task_spawned s"
  "g_res_list (fault f s) = g_res_list s" "mm_freed (fault f s) = mm_freed s"
  "irq_off (fault f s) = irq_off s" "tspend (fault f s) = tspend s"
  by (simp_all add: fault_def)

lemma upd_task_frame [simp, kframe]:
  "blks (upd_task t f s) = blks s" "sems (upd_task t f s) = sems s"
  "mutexes (upd_task t f s) = mutexes s" "events (upd_task t f s) = events s"
  "queues (upd_task t f s) = queues s" "buf_queues (upd_task t f s) = buf_queues s"
  "g_ready_queue (upd_task t f s) = g_ready_queue s" "g_kobj_list (upd_task t f s) = g_kobj_list s"
  "g_tick_head (upd_task t f s) = g_tick_head s" "g_tick_count (upd_task t f s) = g_tick_count s"
  "g_active_task (upd_task t f s) = g_active_task s"
  "g_preferred_ready_task (upd_task t f s) = g_preferred_ready_task s"
  "g_sched_lock (upd_task t f s) = g_sched_lock s"
  "g_intrpt_nested_level (upd_task t f s) = g_intrpt_nested_level s"
  "g_sys_stat (upd_task t f s) = g_sys_stat s"
  "g_idle_task_spawned (upd_task t f s) = g_idle_task_spawned s"
  "g_res_list (upd_task t f s) = g_res_list s" "mm_freed (upd_task t f s) = mm_freed s"
  "irq_off (upd_task t f s) = irq_off s" "tspend (upd_task t f s) = tspend s"
  "k_faults (upd_task t f s) = k_faults s"
  by (simp_all add: upd_task_def)

lemma upd_blk_frame [simp, kframe]:
  "tasks (upd_blk ob f s) = tasks s" "sems (upd_blk ob f s) = sems s"
  "mutexes (upd_blk ob f s) = mutexes s" "events (upd_blk ob f s) = events s"
  "queues (upd_blk ob f s) = queues s" "buf_queues (upd_blk ob f s) = buf_queues s"
  "g_ready_queue (upd_blk ob f s) = g_ready_queue s" "g_kobj_list (upd_blk ob f s) = g_kobj_list s"
  "g_tick_head (upd_blk ob f s) = g_tick_head s" "g_tick_count (upd_blk ob f s) = g_tick_count s"
  "g_active_task (upd_blk ob f s) = g_active_task s"
  "g_preferred_ready_task (upd_blk ob f s) = g_preferred_ready_task s"
  "g_sched_lock (upd_blk ob f s) = g_sched_lock s"
  "g_intrpt_nested_level (upd_blk ob f s) = g_intrpt_nested_level s"
  "g_sys_stat (upd_blk ob f s) = g_sys_stat s"
  "g_idle_task_spawned (upd_blk ob f s) = g_idle_task_spawned s"
  "g_res_list (upd_blk ob f s) = g_res_list s" "mm_freed (upd_blk ob f s) = mm_freed s"
  "irq_off (upd_blk ob f s) = irq_off s" "tspend (upd_blk ob f s) = tspend s"
  "k_faults (upd_blk ob f s) = k_faults s"
  by (simp_all add: upd_blk_def)

lemma task_list_rm_frame [simp, kframe]:
  "tasks (task_list_rm t s) = tasks s" "sems (task_list_rm t s) = sems s"
  "mutexes (task_list_rm t s) = mutexes s" "events (task_list_rm t s) = events s"
  "queues (task_list_rm t s) = queues s" "buf_queues (task_list_rm t s) = buf_queues s"
  "g_ready_queue (task_list_rm t s) = g_ready_queue s"
  "g_kobj_list (task_list_rm t s) = g_kobj_list s" "g_tick_head (task_list_rm t s) = g_tick_head s"
  "g_tick_count (task_list_rm t s) = g_tick_count s"
  "g_active_task (task_list_rm t s) = g_active_task s"
  "g_preferred_ready_task (task_list_rm t s) = g_preferred_ready_task s"
  "g_sched_lock (task_list_rm t s) = g_sched_lock s"
  "g_intrpt_nested_level (task_list_rm t s) = g_intrpt_nested_level s"
  "g_sys_stat (task_list_rm t s) = g_sys_stat s"
  "g_idle_task_spawned (task_list_rm t s) = g_idle_task_spawned s"
  "g_res_list (task_list_rm t s) = g_res_list s" "mm_freed (task_list_rm t s) = mm_freed s"
  "irq_off (task_list_rm t s) = irq_off s" "tspend (task_list_rm t s) = tspend s"
  "k_faults (task_list_rm t s) = k_faults s"
  by (simp_all add: task_list_rm_def)

lemma irq_simps [simp]:
  "irq_off (cpu_intrpt_save s)" "irq_off (cpu_intrpt_restore psr s) = psr"
  "tspend (cpu_task_switch s)" "tspend (cpu_intrpt_switch s)"
  by (simp_all add: cpu_intrpt_save_def cpu_intrpt_restore_def tspend_handler_def
      cpu_task_switch_def cpu_intrpt_switch_def)

lemma restore_no_switch [simp]:
  "\<not> tspend s \<Longrightarrow> g_active_task (cpu_intrpt_restore psr s) = g_active_task s"
  "\<not> tspend s \<Longrightarrow> \<not> tspend (cpu_intrpt_restore psr s)"
  "g_intrpt_nested_level s > 0 \<Longrightarrow> g_active_task (cpu_intrpt_restore psr s) = g_active_task s"
  by (auto simp: cpu_intrpt_restore_def tspend_handler_def)

lemma upd_task_tasks [simp]:
  "tasks (upd_task t f s) u = (if u = t then f (tasks s t) else tasks s u)"
  by (simp add: upd_task_def)

lemma upd_blk_blks [simp]: "blks (upd_blk ob f s) x = (if x = ob then f (blks s ob) else blks s x)"
  by (simp add: upd_blk_def)

lemma task_list_rm_blks [simp]:
  "waiters (task_list_rm t s) ob = remove1 t (waiters s ob)"
  "obj_type (blks (task_list_rm t s) ob) = obj_type (blks s ob)"
  "blk_policy (blks (task_list_rm t s) ob) = blk_policy (blks s ob)"
  by (simp_all add: task_list_rm_def)

end
