(* ===== verification/Sched.thy ===== *)
theory Sched
  imports Kernel_State
begin

text \<open>
  The scheduler, \<^verbatim>\<open>core/k_sched.c\<close> (the single-core branches), and the interrupt entry and exit of
  \<^verbatim>\<open>core/k_sys.c\<close>: ready lists per priority, the bitmap over them, the cached highest priority, the
  scheduler lock, the round-robin time slice and the decision to switch.

  \<open>rq_inv R s\<close> says that the run queue holds exactly the tasks \<open>R\<close>, each in the list of its
  priority; the lemmas show what each operation does to \<open>R\<close>, and that the preferred task is a task of
  least priority number.
\<close>

section \<open>Ready lists\<close>

definition runqueue_init :: "kstate \<Rightarrow> kstate" where
  "runqueue_init = upd_rq (\<lambda>rq. rq\<lparr>highest_pri := RHINO_CONFIG_PRI_MAX, cur_list_item := \<lambda>p. []\<rparr>)"

definition ready_list_init :: "tid \<Rightarrow> kstate \<Rightarrow> kstate" where
  "ready_list_init t s = (let p = prio (tasks s t) in
     upd_rq (\<lambda>rq. rq\<lparr>cur_list_item := (cur_list_item rq)(p := [t]),
       task_bit_map := krhino_bitmap_set (task_bit_map rq) p,
       highest_pri := if p < highest_pri rq then p else highest_pri rq\<rparr>) s)"

definition is_ready_list_empty :: "nat \<Rightarrow> kstate \<Rightarrow> bool" where
  "is_ready_list_empty p s \<longleftrightarrow> ready_at s p = []"

definition ready_list_add_tail :: "tid \<Rightarrow> kstate \<Rightarrow> kstate" where
  "ready_list_add_tail t s = (let p = prio (tasks s t) in
     if is_ready_list_empty p s then ready_list_init t s
     else upd_rq (\<lambda>rq. rq\<lparr>cur_list_item := (cur_list_item rq)(p := cur_list_item rq p @ [t])\<rparr>) s)"

text \<open>The insertion before the current item makes the task the last one; moving the pointer to it, the first.\<close>

definition ready_list_add_head :: "tid \<Rightarrow> kstate \<Rightarrow> kstate" where
  "ready_list_add_head t s = (let p = prio (tasks s t) in
     if is_ready_list_empty p s then ready_list_init t s
     else upd_rq (\<lambda>rq. rq\<lparr>cur_list_item := (cur_list_item rq)(p := t # cur_list_item rq p)\<rparr>) s)"

definition ready_list_add :: "tid \<Rightarrow> kstate \<Rightarrow> kstate" where
  "ready_list_add t s =
     (if prio (tasks s t) = active_prio s then ready_list_add_tail t s else ready_list_add_head t s)"

definition ready_list_rm :: "tid \<Rightarrow> kstate \<Rightarrow> kstate" where
  "ready_list_rm t s = (let pri = prio (tasks s t); l = ready_at s pri in
     if l = [] then fault KNull s
     else if length l \<noteq> 1 then
       (let l1 = (if hd l = t then rotate1 l else l)
        in upd_rq (\<lambda>rq. rq\<lparr>cur_list_item := (cur_list_item rq)(pri := remove1 t l1)\<rparr>) s)
     else
       (let s1 = upd_rq (\<lambda>rq. rq\<lparr>cur_list_item := (cur_list_item rq)(pri := []),
                   task_bit_map := krhino_bitmap_clear (task_bit_map rq) pri\<rparr>) s
        in if pri \<noteq> highest_pri (g_ready_queue s1) then s1
           else (case krhino_find_first_bit (task_bit_map (g_ready_queue s1)) of
               Some i \<Rightarrow> upd_rq (\<lambda>rq. rq\<lparr>highest_pri := i\<rparr>) s1
             | None \<Rightarrow> fault KNull s1)))"

definition ready_list_head_to_tail :: "tid \<Rightarrow> kstate \<Rightarrow> kstate" where
  "ready_list_head_to_tail t s = (let p = prio (tasks s t) in
     if ready_at s p = [] then fault KNull s
     else upd_rq (\<lambda>rq. rq\<lparr>cur_list_item := (cur_list_item rq)(p := rotate1 (cur_list_item rq p))\<rparr>) s)"

definition preferred_cpu_ready_task_get :: "kstate \<Rightarrow> kstate" where
  "preferred_cpu_ready_task_get s = (let l = ready_at s (highest_pri (g_ready_queue s)) in
     if l = [] then fault KNull s else s\<lparr>g_preferred_ready_task := hd l\<rparr>)"

section \<open>Scheduling\<close>

definition core_sched :: "kstate \<Rightarrow> kstate" where
  "core_sched s = (let psr = irq_off s; s0 = cpu_intrpt_save s in
     if g_intrpt_nested_level s0 > 0 then cpu_intrpt_restore psr s0
     else if g_sched_lock s0 > 0 then cpu_intrpt_restore psr s0
     else (let s1 = preferred_cpu_ready_task_get s0 in
       if g_preferred_ready_task s1 = g_active_task s1 then cpu_intrpt_restore psr s1
       else cpu_intrpt_restore psr (cpu_task_switch s1)))"

definition RHINO_CRITICAL_EXIT_SCHED :: "bool \<Rightarrow> kstate \<Rightarrow> kstate" where
  "RHINO_CRITICAL_EXIT_SCHED psr s = core_sched (cpu_intrpt_restore psr s)"

definition krhino_sched_disable :: "kstate \<Rightarrow> kstate \<times> kstat" where
  "krhino_sched_disable s = (let psr = irq_off s; s0 = RHINO_CRITICAL_ENTER s in
     if g_intrpt_nested_level s0 > 0 then (RHINO_CRITICAL_EXIT psr s0, RHINO_NOT_CALLED_BY_INTRPT)
     else if g_sched_lock s0 \<ge> SCHED_MAX_LOCK_COUNT
     then (RHINO_CRITICAL_EXIT psr s0, RHINO_SCHED_LOCK_COUNT_OVF)
     else (RHINO_CRITICAL_EXIT psr (s0\<lparr>g_sched_lock := g_sched_lock s0 + 1\<rparr>), RHINO_SUCCESS))"

definition krhino_sched_enable :: "kstate \<Rightarrow> kstate \<times> kstat" where
  "krhino_sched_enable s = (let psr = irq_off s; s0 = RHINO_CRITICAL_ENTER s in
     if g_intrpt_nested_level s0 > 0 then (RHINO_CRITICAL_EXIT psr s0, RHINO_NOT_CALLED_BY_INTRPT)
     else if g_sched_lock s0 = 0 then (RHINO_CRITICAL_EXIT psr s0, RHINO_SCHED_ALREADY_ENABLED)
     else (let s1 = s0\<lparr>g_sched_lock := g_sched_lock s0 - 1\<rparr> in
       if g_sched_lock s1 > 0 then (RHINO_CRITICAL_EXIT psr s1, RHINO_SCHED_DISABLE)
       else (RHINO_CRITICAL_EXIT_SCHED psr s1, RHINO_SUCCESS)))"

definition time_slice_update :: "kstate \<Rightarrow> kstate" where
  "time_slice_update s =
     (let psr = irq_off s; s0 = RHINO_CRITICAL_ENTER s; task_pri = active_prio s0;
          l = ready_at s0 task_pri
      in if is_ready_list_empty task_pri s0 then RHINO_CRITICAL_EXIT psr s0
      else (let task = hd l; s1 = upd_task task (\<lambda>t. t\<lparr>runtime := runtime t + 1\<rparr>) s0 in
        if sched_policy (tasks s1 task) = KSCHED_FIFO then RHINO_CRITICAL_EXIT psr s1
        else if length l = 1 then RHINO_CRITICAL_EXIT psr s1
        else (let s2 = (if task_time_slice (tasks s1 task) > 0
                        then upd_task task (\<lambda>t. t\<lparr>task_time_slice := task_time_slice t - 1\<rparr>) s1 else s1) in
          if task_time_slice (tasks s2 task) > 0 then RHINO_CRITICAL_EXIT psr s2
          else (let s3 = ready_list_head_to_tail task s2;
                    s4 = upd_task task (\<lambda>t. t\<lparr>task_time_slice := time_total t\<rparr>) s3
                in RHINO_CRITICAL_EXIT psr s4))))"

section \<open>Interrupts\<close>

definition krhino_intrpt_enter :: "kstate \<Rightarrow> kstate \<times> kstat" where
  "krhino_intrpt_enter s = (let psr = irq_off s; s0 = cpu_intrpt_save s in
     if g_intrpt_nested_level s0 \<ge> RHINO_CONFIG_INTRPT_MAX_NESTED_LEVEL
     then (cpu_intrpt_restore psr (k_err_proc RHINO_INTRPT_NESTED_LEVEL_OVERFLOW s0),
           RHINO_INTRPT_NESTED_LEVEL_OVERFLOW)
     else (cpu_intrpt_restore psr (s0\<lparr>g_intrpt_nested_level := g_intrpt_nested_level s0 + 1\<rparr>),
           RHINO_SUCCESS))"

definition krhino_intrpt_exit :: "kstate \<Rightarrow> kstate" where
  "krhino_intrpt_exit s =
     (let psr = irq_off s; s0 = cpu_intrpt_save s;
          s1 = (if g_intrpt_nested_level s0 = 0
                then k_err_proc RHINO_INV_INTRPT_NESTED_LEVEL (cpu_intrpt_restore psr s0) else s0);
          s2 = s1\<lparr>g_intrpt_nested_level := g_intrpt_nested_level s1 - 1\<rparr>
      in if g_intrpt_nested_level s2 > 0 then cpu_intrpt_restore psr s2
         else if g_sched_lock s2 > 0 then cpu_intrpt_restore psr s2
         else (let s3 = preferred_cpu_ready_task_get s2 in
           if g_preferred_ready_task s3 = g_active_task s3 then cpu_intrpt_restore psr s3
           else cpu_intrpt_restore psr (cpu_intrpt_switch s3)))"

text \<open>The return from the interrupt opens interrupts again; a pending switch is taken then.\<close>

definition intrpt_return :: "kstate \<Rightarrow> kstate" where
  "intrpt_return s = cpu_intrpt_restore False (krhino_intrpt_exit s)"

section \<open>What the scheduler leaves alone\<close>

lemma ready_list_init_frame [simp, kframe]:
  "tasks (ready_list_init t s) = tasks s" "blks (ready_list_init t s) = blks s"
  "sems (ready_list_init t s) = sems s" "mutexes (ready_list_init t s) = mutexes s"
  "events (ready_list_init t s) = events s" "queues (ready_list_init t s) = queues s"
  "buf_queues (ready_list_init t s) = buf_queues s"
  "g_kobj_list (ready_list_init t s) = g_kobj_list s"
  "g_tick_head (ready_list_init t s) = g_tick_head s"
  "g_tick_count (ready_list_init t s) = g_tick_count s"
  "g_active_task (ready_list_init t s) = g_active_task s"
  "g_preferred_ready_task (ready_list_init t s) = g_preferred_ready_task s"
  "g_sched_lock (ready_list_init t s) = g_sched_lock s"
  "g_intrpt_nested_level (ready_list_init t s) = g_intrpt_nested_level s"
  "g_sys_stat (ready_list_init t s) = g_sys_stat s"
  "g_idle_task_spawned (ready_list_init t s) = g_idle_task_spawned s"
  "g_res_list (ready_list_init t s) = g_res_list s" "mm_freed (ready_list_init t s) = mm_freed s"
  "irq_off (ready_list_init t s) = irq_off s" "tspend (ready_list_init t s) = tspend s"
  "k_faults (ready_list_init t s) = k_faults s"
  by (simp_all add: ready_list_init_def upd_rq_def Let_def)

lemma ready_list_add_tail_frame [simp, kframe]:
  "tasks (ready_list_add_tail t s) = tasks s" "blks (ready_list_add_tail t s) = blks s"
  "sems (ready_list_add_tail t s) = sems s" "mutexes (ready_list_add_tail t s) = mutexes s"
  "events (ready_list_add_tail t s) = events s" "queues (ready_list_add_tail t s) = queues s"
  "buf_queues (ready_list_add_tail t s) = buf_queues s"
  "g_kobj_list (ready_list_add_tail t s) = g_kobj_list s"
  "g_tick_head (ready_list_add_tail t s) = g_tick_head s"
  "g_tick_count (ready_list_add_tail t s) = g_tick_count s"
  "g_active_task (ready_list_add_tail t s) = g_active_task s"
  "g_preferred_ready_task (ready_list_add_tail t s) = g_preferred_ready_task s"
  "g_sched_lock (ready_list_add_tail t s) = g_sched_lock s"
  "g_intrpt_nested_level (ready_list_add_tail t s) = g_intrpt_nested_level s"
  "g_sys_stat (ready_list_add_tail t s) = g_sys_stat s"
  "g_idle_task_spawned (ready_list_add_tail t s) = g_idle_task_spawned s"
  "g_res_list (ready_list_add_tail t s) = g_res_list s"
  "mm_freed (ready_list_add_tail t s) = mm_freed s" "irq_off (ready_list_add_tail t s) = irq_off s"
  "tspend (ready_list_add_tail t s) = tspend s" "k_faults (ready_list_add_tail t s) = k_faults s"
  by (simp_all add: ready_list_add_tail_def upd_rq_def Let_def)

lemma ready_list_add_head_frame [simp, kframe]:
  "tasks (ready_list_add_head t s) = tasks s" "blks (ready_list_add_head t s) = blks s"
  "sems (ready_list_add_head t s) = sems s" "mutexes (ready_list_add_head t s) = mutexes s"
  "events (ready_list_add_head t s) = events s" "queues (ready_list_add_head t s) = queues s"
  "buf_queues (ready_list_add_head t s) = buf_queues s"
  "g_kobj_list (ready_list_add_head t s) = g_kobj_list s"
  "g_tick_head (ready_list_add_head t s) = g_tick_head s"
  "g_tick_count (ready_list_add_head t s) = g_tick_count s"
  "g_active_task (ready_list_add_head t s) = g_active_task s"
  "g_preferred_ready_task (ready_list_add_head t s) = g_preferred_ready_task s"
  "g_sched_lock (ready_list_add_head t s) = g_sched_lock s"
  "g_intrpt_nested_level (ready_list_add_head t s) = g_intrpt_nested_level s"
  "g_sys_stat (ready_list_add_head t s) = g_sys_stat s"
  "g_idle_task_spawned (ready_list_add_head t s) = g_idle_task_spawned s"
  "g_res_list (ready_list_add_head t s) = g_res_list s"
  "mm_freed (ready_list_add_head t s) = mm_freed s" "irq_off (ready_list_add_head t s) = irq_off s"
  "tspend (ready_list_add_head t s) = tspend s" "k_faults (ready_list_add_head t s) = k_faults s"
  by (simp_all add: ready_list_add_head_def upd_rq_def Let_def)

lemma ready_list_add_frame [simp, kframe]:
  "tasks (ready_list_add t s) = tasks s" "blks (ready_list_add t s) = blks s"
  "sems (ready_list_add t s) = sems s" "mutexes (ready_list_add t s) = mutexes s"
  "events (ready_list_add t s) = events s" "queues (ready_list_add t s) = queues s"
  "buf_queues (ready_list_add t s) = buf_queues s"
  "g_kobj_list (ready_list_add t s) = g_kobj_list s"
  "g_tick_head (ready_list_add t s) = g_tick_head s"
  "g_tick_count (ready_list_add t s) = g_tick_count s"
  "g_active_task (ready_list_add t s) = g_active_task s"
  "g_preferred_ready_task (ready_list_add t s) = g_preferred_ready_task s"
  "g_sched_lock (ready_list_add t s) = g_sched_lock s"
  "g_intrpt_nested_level (ready_list_add t s) = g_intrpt_nested_level s"
  "g_sys_stat (ready_list_add t s) = g_sys_stat s"
  "g_idle_task_spawned (ready_list_add t s) = g_idle_task_spawned s"
  "g_res_list (ready_list_add t s) = g_res_list s" "mm_freed (ready_list_add t s) = mm_freed s"
  "irq_off (ready_list_add t s) = irq_off s" "tspend (ready_list_add t s) = tspend s"
  "k_faults (ready_list_add t s) = k_faults s"
  by (simp_all add: ready_list_add_def)

lemma ready_list_rm_frame [simp, kframe]:
  "tasks (ready_list_rm t s) = tasks s" "blks (ready_list_rm t s) = blks s"
  "sems (ready_list_rm t s) = sems s" "mutexes (ready_list_rm t s) = mutexes s"
  "events (ready_list_rm t s) = events s" "queues (ready_list_rm t s) = queues s"
  "buf_queues (ready_list_rm t s) = buf_queues s" "g_kobj_list (ready_list_rm t s) = g_kobj_list s"
  "g_tick_head (ready_list_rm t s) = g_tick_head s"
  "g_tick_count (ready_list_rm t s) = g_tick_count s"
  "g_active_task (ready_list_rm t s) = g_active_task s"
  "g_preferred_ready_task (ready_list_rm t s) = g_preferred_ready_task s"
  "g_sched_lock (ready_list_rm t s) = g_sched_lock s"
  "g_intrpt_nested_level (ready_list_rm t s) = g_intrpt_nested_level s"
  "g_sys_stat (ready_list_rm t s) = g_sys_stat s"
  "g_idle_task_spawned (ready_list_rm t s) = g_idle_task_spawned s"
  "g_res_list (ready_list_rm t s) = g_res_list s" "mm_freed (ready_list_rm t s) = mm_freed s"
  "irq_off (ready_list_rm t s) = irq_off s" "tspend (ready_list_rm t s) = tspend s"
  by (simp_all add: ready_list_rm_def upd_rq_def fault_def Let_def split: option.split)

lemma ready_list_head_to_tail_frame [simp, kframe]:
  "tasks (ready_list_head_to_tail t s) = tasks s" "blks (ready_list_head_to_tail t s) = blks s"
  "sems (ready_list_head_to_tail t s) = sems s" "mutexes (ready_list_head_to_tail t s) = mutexes s"
  "events (ready_list_head_to_tail t s) = events s"
  "queues (ready_list_head_to_tail t s) = queues s"
  "buf_queues (ready_list_head_to_tail t s) = buf_queues s"
  "g_kobj_list (ready_list_head_to_tail t s) = g_kobj_list s"
  "g_tick_head (ready_list_head_to_tail t s) = g_tick_head s"
  "g_tick_count (ready_list_head_to_tail t s) = g_tick_count s"
  "g_active_task (ready_list_head_to_tail t s) = g_active_task s"
  "g_preferred_ready_task (ready_list_head_to_tail t s) = g_preferred_ready_task s"
  "g_sched_lock (ready_list_head_to_tail t s) = g_sched_lock s"
  "g_intrpt_nested_level (ready_list_head_to_tail t s) = g_intrpt_nested_level s"
  "g_sys_stat (ready_list_head_to_tail t s) = g_sys_stat s"
  "g_idle_task_spawned (ready_list_head_to_tail t s) = g_idle_task_spawned s"
  "g_res_list (ready_list_head_to_tail t s) = g_res_list s"
  "mm_freed (ready_list_head_to_tail t s) = mm_freed s"
  "irq_off (ready_list_head_to_tail t s) = irq_off s"
  "tspend (ready_list_head_to_tail t s) = tspend s"
  by (simp_all add: ready_list_head_to_tail_def upd_rq_def fault_def Let_def)

lemma preferred_frame [simp, kframe]:
  "tasks (preferred_cpu_ready_task_get s) = tasks s"
  "blks (preferred_cpu_ready_task_get s) = blks s" "sems (preferred_cpu_ready_task_get s) = sems s"
  "mutexes (preferred_cpu_ready_task_get s) = mutexes s"
  "events (preferred_cpu_ready_task_get s) = events s"
  "queues (preferred_cpu_ready_task_get s) = queues s"
  "buf_queues (preferred_cpu_ready_task_get s) = buf_queues s"
  "g_ready_queue (preferred_cpu_ready_task_get s) = g_ready_queue s"
  "g_kobj_list (preferred_cpu_ready_task_get s) = g_kobj_list s"
  "g_tick_head (preferred_cpu_ready_task_get s) = g_tick_head s"
  "g_tick_count (preferred_cpu_ready_task_get s) = g_tick_count s"
  "g_active_task (preferred_cpu_ready_task_get s) = g_active_task s"
  "g_sched_lock (preferred_cpu_ready_task_get s) = g_sched_lock s"
  "g_intrpt_nested_level (preferred_cpu_ready_task_get s) = g_intrpt_nested_level s"
  "g_sys_stat (preferred_cpu_ready_task_get s) = g_sys_stat s"
  "g_idle_task_spawned (preferred_cpu_ready_task_get s) = g_idle_task_spawned s"
  "g_res_list (preferred_cpu_ready_task_get s) = g_res_list s"
  "mm_freed (preferred_cpu_ready_task_get s) = mm_freed s"
  "irq_off (preferred_cpu_ready_task_get s) = irq_off s"
  "tspend (preferred_cpu_ready_task_get s) = tspend s"
  by (simp_all add: preferred_cpu_ready_task_get_def fault_def Let_def)

lemma core_sched_frame [simp, kframe]:
  "tasks (core_sched s) = tasks s" "blks (core_sched s) = blks s" "sems (core_sched s) = sems s"
  "mutexes (core_sched s) = mutexes s" "events (core_sched s) = events s"
  "queues (core_sched s) = queues s" "buf_queues (core_sched s) = buf_queues s"
  "g_ready_queue (core_sched s) = g_ready_queue s" "g_kobj_list (core_sched s) = g_kobj_list s"
  "g_tick_head (core_sched s) = g_tick_head s" "g_tick_count (core_sched s) = g_tick_count s"
  "g_sched_lock (core_sched s) = g_sched_lock s"
  "g_intrpt_nested_level (core_sched s) = g_intrpt_nested_level s"
  "g_sys_stat (core_sched s) = g_sys_stat s"
  "g_idle_task_spawned (core_sched s) = g_idle_task_spawned s"
  "g_res_list (core_sched s) = g_res_list s" "mm_freed (core_sched s) = mm_freed s"
  "irq_off (core_sched s) = irq_off s"
  by (simp_all add: core_sched_def Let_def)

lemma EXIT_SCHED_frame [simp, kframe]:
  "tasks (RHINO_CRITICAL_EXIT_SCHED psr s) = tasks s"
  "blks (RHINO_CRITICAL_EXIT_SCHED psr s) = blks s"
  "sems (RHINO_CRITICAL_EXIT_SCHED psr s) = sems s"
  "mutexes (RHINO_CRITICAL_EXIT_SCHED psr s) = mutexes s"
  "events (RHINO_CRITICAL_EXIT_SCHED psr s) = events s"
  "queues (RHINO_CRITICAL_EXIT_SCHED psr s) = queues s"
  "buf_queues (RHINO_CRITICAL_EXIT_SCHED psr s) = buf_queues s"
  "g_ready_queue (RHINO_CRITICAL_EXIT_SCHED psr s) = g_ready_queue s"
  "g_kobj_list (RHINO_CRITICAL_EXIT_SCHED psr s) = g_kobj_list s"
  "g_tick_head (RHINO_CRITICAL_EXIT_SCHED psr s) = g_tick_head s"
  "g_tick_count (RHINO_CRITICAL_EXIT_SCHED psr s) = g_tick_count s"
  "g_sched_lock (RHINO_CRITICAL_EXIT_SCHED psr s) = g_sched_lock s"
  "g_intrpt_nested_level (RHINO_CRITICAL_EXIT_SCHED psr s) = g_intrpt_nested_level s"
  "g_sys_stat (RHINO_CRITICAL_EXIT_SCHED psr s) = g_sys_stat s"
  "g_idle_task_spawned (RHINO_CRITICAL_EXIT_SCHED psr s) = g_idle_task_spawned s"
  "g_res_list (RHINO_CRITICAL_EXIT_SCHED psr s) = g_res_list s"
  "mm_freed (RHINO_CRITICAL_EXIT_SCHED psr s) = mm_freed s"
  by (simp_all add: RHINO_CRITICAL_EXIT_SCHED_def)

lemma EXIT_SCHED_irq [simp]: "irq_off (RHINO_CRITICAL_EXIT_SCHED psr s) = psr"
  by (simp add: RHINO_CRITICAL_EXIT_SCHED_def)

section \<open>The run queue as a set of tasks\<close>

definition rq_inv :: "tid set \<Rightarrow> kstate \<Rightarrow> bool" where
  "rq_inv R s \<longleftrightarrow>
     (\<forall>p. distinct (ready_at s p) \<and> set (ready_at s p) = {t \<in> R. prio (tasks s t) = p})
     \<and> (\<forall>t\<in>R. prio (tasks s t) < RHINO_CONFIG_PRI_MAX)
     \<and> length (task_bit_map (g_ready_queue s)) = NUM_WORDS
     \<and> (\<forall>p. bitmap_test (task_bit_map (g_ready_queue s)) p \<longleftrightarrow> ready_at s p \<noteq> [])
     \<and> highest_pri (g_ready_queue s) \<le> RHINO_CONFIG_PRI_MAX
     \<and> (\<forall>t\<in>R. highest_pri (g_ready_queue s) \<le> prio (tasks s t))
     \<and> (highest_pri (g_ready_queue s) < RHINO_CONFIG_PRI_MAX
         \<longrightarrow> (\<exists>t\<in>R. prio (tasks s t) = highest_pri (g_ready_queue s)))"

lemma rq_inv_cong:
  assumes "g_ready_queue s' = g_ready_queue s" "\<And>t. t \<in> R \<Longrightarrow> prio (tasks s' t) = prio (tasks s t)"
  shows "rq_inv R s' \<longleftrightarrow> rq_inv R s"
proof -
  have "{t \<in> R. prio (tasks s' t) = p} = {t \<in> R. prio (tasks s t) = p}" for p
    using assms(2) by auto
  then show ?thesis using assms by (simp add: rq_inv_def)
qed

lemma rq_inv_mem: "rq_inv R s \<Longrightarrow> t \<in> set (ready_at s p) \<longleftrightarrow> t \<in> R \<and> prio (tasks s t) = p"
  by (simp add: rq_inv_def)

lemma rq_inv_prio: "rq_inv R s \<Longrightarrow> t \<in> R \<Longrightarrow> prio (tasks s t) < 62"
  by (simp add: rq_inv_def)

lemma rq_inv_empty_iff:
  "rq_inv R s \<Longrightarrow> ready_at s p = [] \<longleftrightarrow> (\<forall>t\<in>R. prio (tasks s t) \<noteq> p)"
  using rq_inv_mem [of R s _ p] by (metis empty_iff empty_set ex_in_conv set_empty)

lemma word_index: "(p::nat) < 62 \<Longrightarrow> p div 32 < 2"
  by auto

text \<open>Only the run queue's set changes in the updates below; the other conjuncts follow from it.\<close>

lemma rq_inv_insert_list:
  assumes inv: "rq_inv R s" and new: "t \<notin> R" and p: "p = prio (tasks s t)" "ready_at s p \<noteq> []"
    and l: "distinct l" "set l = insert t (set (ready_at s p))"
  shows "rq_inv (insert t R) (upd_rq (\<lambda>rq. rq\<lparr>cur_list_item := (cur_list_item rq)(p := l)\<rparr>) s)"
proof -
  obtain u where u: "u \<in> R" "prio (tasks s u) = p"
    using p(2) rq_inv_empty_iff [OF inv] by blast
  have "{x. (x = t \<or> x \<in> R) \<and> prio (tasks s x) = q} = {x \<in> R. prio (tasks s x) = q}" if "q \<noteq> p" for q
    using that p(1) by auto
  moreover have "l \<noteq> []" using l(2) by auto
  ultimately show ?thesis
    using inv u l p by (auto simp: rq_inv_def upd_rq_def)
qed

lemma rq_inv_ready_list_init:
  assumes inv: "rq_inv R s" and new: "t \<notin> R" and p: "prio (tasks s t) < 62"
    and e: "ready_at s (prio (tasks s t)) = []"
  shows "rq_inv (insert t R) (ready_list_init t s)"
proof -
  let ?p = "prio (tasks s t)" and ?s = "ready_list_init t s"
  have none: "\<forall>u\<in>R. prio (tasks s u) \<noteq> ?p" using rq_inv_empty_iff [OF inv] e by blast
  have *: "{x. (x = t \<or> x \<in> R) \<and> prio (tasks s x) = q}
      = (if q = ?p then {t} else {x \<in> R. prio (tasks s x) = q})" for q
    using none by auto
  have bm: "bitmap_test (krhino_bitmap_set (task_bit_map (g_ready_queue s)) ?p) q
      \<longleftrightarrow> q = ?p \<or> bitmap_test (task_bit_map (g_ready_queue s)) q" for q
    using word_index [OF p] inv by (intro bitmap_test_set) (simp add: rq_inv_def)
  show ?thesis
    using inv p * bm by (auto simp: rq_inv_def ready_list_init_def upd_rq_def Let_def not_less)
qed

lemma rq_inv_add_tail:
  assumes "rq_inv R s" "t \<notin> R" "prio (tasks s t) < 62"
  shows "rq_inv (insert t R) (ready_list_add_tail t s)"
proof (cases "ready_at s (prio (tasks s t)) = []")
  case True
  then show ?thesis using rq_inv_ready_list_init [OF assms]
    by (simp add: ready_list_add_tail_def is_ready_list_empty_def)
next
  case False
  let ?l = "ready_at s (prio (tasks s t)) @ [t]"
  have "distinct ?l" using assms(1,2) by (simp add: rq_inv_def)
  from rq_inv_insert_list [OF assms(1,2) refl False this] False show ?thesis
    by (simp add: ready_list_add_tail_def is_ready_list_empty_def Let_def upd_rq_def)
qed

lemma rq_inv_add_head:
  assumes "rq_inv R s" "t \<notin> R" "prio (tasks s t) < 62"
  shows "rq_inv (insert t R) (ready_list_add_head t s)"
proof (cases "ready_at s (prio (tasks s t)) = []")
  case True
  then show ?thesis using rq_inv_ready_list_init [OF assms]
    by (simp add: ready_list_add_head_def is_ready_list_empty_def)
next
  case False
  let ?l = "t # ready_at s (prio (tasks s t))"
  have "distinct ?l" using assms(1,2) by (simp add: rq_inv_def)
  from rq_inv_insert_list [OF assms(1,2) refl False this] False show ?thesis
    by (simp add: ready_list_add_head_def is_ready_list_empty_def Let_def upd_rq_def)
qed

lemma rq_inv_add:
  assumes "rq_inv R s" "t \<notin> R" "prio (tasks s t) < 62"
  shows "rq_inv (insert t R) (ready_list_add t s)"
  using rq_inv_add_tail [OF assms] rq_inv_add_head [OF assms] by (simp add: ready_list_add_def)

text \<open>
  Removal. The cached highest priority is recomputed only when the last task of that priority
  leaves; some other task must remain, which the idle task guarantees.
\<close>

lemma rq_inv_remove_list:
  assumes inv: "rq_inv R s" and t: "t \<in> R" and p: "p = prio (tasks s t)"
    and l: "distinct l" "set l = set (ready_at s p) - {t}" "l \<noteq> []"
  shows "rq_inv (R - {t}) (upd_rq (\<lambda>rq. rq\<lparr>cur_list_item := (cur_list_item rq)(p := l)\<rparr>) s)"
proof -
  obtain u where u: "u \<in> R" "u \<noteq> t" "prio (tasks s u) = p"
    using l(2,3) rq_inv_mem [OF inv] by (metis DiffE empty_iff ex_in_conv insertI1 set_empty)
  have "{x. x \<in> R \<and> x \<noteq> t \<and> prio (tasks s x) = q} = {x \<in> R. prio (tasks s x) = q}" if "q \<noteq> p" for q
    using that p by auto
  moreover have "ready_at s p \<noteq> []" using rq_inv_empty_iff [OF inv] u by blast
  ultimately show ?thesis
    using inv u l p t by (auto simp: rq_inv_def upd_rq_def)
qed

lemma rq_inv_rm:
  assumes inv: "rq_inv R s" and t: "t \<in> R" and other: "R - {t} \<noteq> {}"
  shows "rq_inv (R - {t}) (ready_list_rm t s)" "k_faults (ready_list_rm t s) = k_faults s"
proof -
  let ?p = "prio (tasks s t)" and ?l = "ready_at s (prio (tasks s t))"
  let ?bm = "krhino_bitmap_clear (task_bit_map (g_ready_queue s)) (prio (tasks s t))"
  let ?s1 = "upd_rq (\<lambda>rq. rq\<lparr>cur_list_item := (cur_list_item rq)(?p := []), task_bit_map := ?bm\<rparr>) s"
  have p: "?p < 62" using rq_inv_prio [OF inv t] .
  have tl: "t \<in> set ?l" and d: "distinct ?l" using rq_inv_mem [OF inv] t inv by (auto simp: rq_inv_def)
  have ne: "?l \<noteq> []" using tl by auto
  have bm: "bitmap_test ?bm q \<longleftrightarrow> q \<noteq> ?p \<and> ready_at s q \<noteq> []" for q
    using word_index [OF p] inv by (simp add: rq_inv_def bitmap_test_clear)
  have "rq_inv (R - {t}) (ready_list_rm t s) \<and> k_faults (ready_list_rm t s) = k_faults s"
  proof (cases "length ?l = 1")
    case False
    define l1 where "l1 = remove1 t (if hd ?l = t then rotate1 ?l else ?l)"
    have l1: "distinct l1" "set l1 = set ?l - {t}" using d by (auto simp: l1_def)
    moreover have "l1 \<noteq> []"
      using remove1_eq_Nil_iff [of "if hd ?l = t then rotate1 ?l else ?l" t] d tl False
      by (simp add: l1_def split: if_splits)
    ultimately have "rq_inv (R - {t}) (upd_rq (\<lambda>rq. rq\<lparr>cur_list_item := (cur_list_item rq)(?p := l1)\<rparr>) s)"
      by (rule rq_inv_remove_list [OF inv t refl])
    then show ?thesis using False ne by (simp add: ready_list_rm_def Let_def l1_def upd_rq_def)
  next
    case True
    then have lt: "?l = [t]" using tl by (auto simp: length_Suc_conv)
    have alone: "\<And>u. u \<in> R \<Longrightarrow> prio (tasks s u) = ?p \<Longrightarrow> u = t"
      using rq_inv_mem [OF inv, of _ ?p] lt by simp
    have st: "{x. x \<in> R \<and> x \<noteq> t \<and> prio (tasks s x) = q}
        = (if q = ?p then {} else {x \<in> R. prio (tasks s x) = q})" for q
      using alone by auto
    show ?thesis
    proof (cases "?p = highest_pri (g_ready_queue s)")
      case False
      then have "ready_list_rm t s = ?s1" using lt by (simp add: ready_list_rm_def Let_def upd_rq_def)
      moreover have "rq_inv (R - {t}) ?s1"
        using inv bm st False by (auto simp: rq_inv_def upd_rq_def)
      ultimately show ?thesis by (simp add: upd_rq_def)
    next
      case True
      obtain u where u: "u \<in> R" "u \<noteq> t" using other by auto
      then have "bitmap_test ?bm (prio (tasks s u))"
        using bm alone rq_inv_empty_iff [OF inv] by blast
      then obtain i where i: "krhino_find_first_bit ?bm = Some i"
        using find_first_bit_least by blast
      note least = find_first_bit_Some [OF i]
      have rm: "ready_list_rm t s = upd_rq (\<lambda>rq. rq\<lparr>highest_pri := i\<rparr>) ?s1"
        using lt True i by (simp add: ready_list_rm_def Let_def upd_rq_def)
      obtain v where v: "v \<in> R" "v \<noteq> t" "prio (tasks s v) = i"
        using least bm rq_inv_empty_iff [OF inv] by metis
      have "i \<le> prio (tasks s x)" if "x \<in> R" "x \<noteq> t" for x
        using least bm rq_inv_empty_iff [OF inv] that alone by (metis not_le)
      then have "rq_inv (R - {t}) (upd_rq (\<lambda>rq. rq\<lparr>highest_pri := i\<rparr>) ?s1)"
        using inv bm st v rq_inv_prio [OF inv v(1)] by (auto simp: rq_inv_def upd_rq_def)
      then show ?thesis using rm by (simp add: upd_rq_def)
    qed
  qed
  then show "rq_inv (R - {t}) (ready_list_rm t s)" "k_faults (ready_list_rm t s) = k_faults s" by auto
qed

lemma rq_inv_head_to_tail:
  assumes "rq_inv R s" "t \<in> R"
  shows "rq_inv R (ready_list_head_to_tail t s)"
    "k_faults (ready_list_head_to_tail t s) = k_faults s"
  using assms rq_inv_empty_iff [OF assms(1)]
  by (auto simp: rq_inv_def ready_list_head_to_tail_def Let_def upd_rq_def)

section \<open>The preferred task\<close>

text \<open>\<open>best s\<close>: the task the scheduler would choose.\<close>

definition best :: "kstate \<Rightarrow> tid" where
  "best s = hd (ready_at s (highest_pri (g_ready_queue s)))"

lemma rq_inv_best:
  assumes inv: "rq_inv R s" and ne: "R \<noteq> {}"
  shows "best s \<in> R" "prio (tasks s (best s)) = highest_pri (g_ready_queue s)"
    "\<And>t. t \<in> R \<Longrightarrow> prio (tasks s (best s)) \<le> prio (tasks s t)"
    "ready_at s (highest_pri (g_ready_queue s)) \<noteq> []"
proof -
  obtain t where t: "t \<in> R" "prio (tasks s t) = highest_pri (g_ready_queue s)"
    using inv ne by (fastforce simp: rq_inv_def)
  then show "ready_at s (highest_pri (g_ready_queue s)) \<noteq> []"
    using rq_inv_empty_iff [OF inv] by blast
  then have "best s \<in> set (ready_at s (highest_pri (g_ready_queue s)))" by (simp add: best_def)
  then show "best s \<in> R" and p: "prio (tasks s (best s)) = highest_pri (g_ready_queue s)"
    using rq_inv_mem [OF inv] by auto
  show "\<And>t. t \<in> R \<Longrightarrow> prio (tasks s (best s)) \<le> prio (tasks s t)"
    using inv p by (simp add: rq_inv_def)
qed

lemma preferred_spec:
  "rq_inv R s \<Longrightarrow> R \<noteq> {} \<Longrightarrow> preferred_cpu_ready_task_get s = s\<lparr>g_preferred_ready_task := best s\<rparr>"
  using rq_inv_best(4) by (simp add: preferred_cpu_ready_task_get_def best_def Let_def)

text \<open>
  Outside an interrupt, with the scheduler unlocked and interrupts open, \<open>core_sched\<close> makes the best
  task the active one; otherwise it leaves the active task alone.
\<close>

lemma core_sched_switch:
  assumes "rq_inv R s" "R \<noteq> {}" "g_intrpt_nested_level s = 0" "g_sched_lock s = 0" "\<not> irq_off s"
  shows "g_active_task (core_sched s) = best s" "\<not> tspend (core_sched s)"
    "k_faults (core_sched s) = k_faults s"
proof -
  have "rq_inv R (cpu_intrpt_save s)" using assms(1) by (subst rq_inv_cong) auto
  from preferred_spec [OF this assms(2)]
  have p: "preferred_cpu_ready_task_get (cpu_intrpt_save s)
      = (cpu_intrpt_save s)\<lparr>g_preferred_ready_task := best s\<rparr>"
    by (simp add: best_def)
  show "g_active_task (core_sched s) = best s" "\<not> tspend (core_sched s)"
    "k_faults (core_sched s) = k_faults s"
    using assms(3-5)
    by (auto simp: core_sched_def p Let_def cpu_intrpt_restore_def tspend_handler_def
        cpu_task_switch_def)
qed

lemma core_sched_stay:
  assumes "g_intrpt_nested_level s > 0 \<or> g_sched_lock s > 0" "g_intrpt_nested_level s > 0 \<or> \<not> tspend s"
  shows "g_active_task (core_sched s) = g_active_task s"
    "g_intrpt_nested_level s > 0 \<or> \<not> tspend (core_sched s)"
    "k_faults (core_sched s) = k_faults s"
  using assms by (auto simp: core_sched_def Let_def)

end
