(* ===== verification/Tick.thy ===== *)
theory Tick
  imports Sched
begin

text \<open>
  The tick list of \<^verbatim>\<open>core/k_tick.c\<close>: the tasks that sleep or wait with a timeout, ordered by the
  time that remains. Ticks are 64-bit words; the remaining time of a task is
  \<open>tick_match - g_tick_count\<close>, which is right across the wrap-around of the counter. The expiry of
  tasks (\<open>tick_list_update\<close>) is in theory \<open>Tick_Update\<close>.
\<close>

section \<open>The code\<close>

definition tick_list_init :: "kstate \<Rightarrow> kstate" where
  "tick_list_init s = s\<lparr>g_tick_head := []\<rparr>"

text \<open>The walk along the list up to the first task with more time left than \<open>val\<close>.\<close>

fun tick_list_pri_insert :: "kstate \<Rightarrow> u64 \<Rightarrow> tid \<Rightarrow> tid list \<Rightarrow> tid list" where
  "tick_list_pri_insert s val task [] = [task]"
| "tick_list_pri_insert s val task (q # qs) =
     (if tick_match (tasks s q) - g_tick_count s > val then task # q # qs
      else q # tick_list_pri_insert s val task qs)"

definition tick_list_insert :: "tid \<Rightarrow> u64 \<Rightarrow> kstate \<Rightarrow> kstate" where
  "tick_list_insert task time s =
     (if time > 0 then
        (let s1 = upd_task task (\<lambda>t. t\<lparr>tick_match := g_tick_count s + time, tick_remain := time\<rparr>) s;
             s2 = s1\<lparr>g_tick_head :=
                      tick_list_pri_insert s1 (tick_remain (tasks s1 task)) task (g_tick_head s1)\<rparr>
         in upd_task task (\<lambda>t. t\<lparr>tick_head := True\<rparr>) s2)
      else s)"

definition tick_list_rm :: "tid \<Rightarrow> kstate \<Rightarrow> kstate" where
  "tick_list_rm task s =
     (if tick_head (tasks s task)
      then upd_task task (\<lambda>t. t\<lparr>tick_head := False\<rparr>)
             (s\<lparr>g_tick_head := remove1 task (g_tick_head s)\<rparr>)
      else s)"

interpretation tick_ins: ordered_insert "\<lambda>q. tick_match (tasks s q) - g_tick_count s"
  "tick_list_pri_insert s" for s
  by unfold_locales simp_all

section \<open>Frames\<close>

lemma tick_list_insert_frame [simp, kframe]:
  "blks (tick_list_insert t n s) = blks s" "sems (tick_list_insert t n s) = sems s"
  "mutexes (tick_list_insert t n s) = mutexes s" "events (tick_list_insert t n s) = events s"
  "queues (tick_list_insert t n s) = queues s" "buf_queues (tick_list_insert t n s) = buf_queues s"
  "g_ready_queue (tick_list_insert t n s) = g_ready_queue s"
  "g_kobj_list (tick_list_insert t n s) = g_kobj_list s"
  "g_tick_count (tick_list_insert t n s) = g_tick_count s"
  "g_active_task (tick_list_insert t n s) = g_active_task s"
  "g_preferred_ready_task (tick_list_insert t n s) = g_preferred_ready_task s"
  "g_sched_lock (tick_list_insert t n s) = g_sched_lock s"
  "g_intrpt_nested_level (tick_list_insert t n s) = g_intrpt_nested_level s"
  "g_sys_stat (tick_list_insert t n s) = g_sys_stat s"
  "g_idle_task_spawned (tick_list_insert t n s) = g_idle_task_spawned s"
  "g_res_list (tick_list_insert t n s) = g_res_list s"
  "mm_freed (tick_list_insert t n s) = mm_freed s" "irq_off (tick_list_insert t n s) = irq_off s"
  "tspend (tick_list_insert t n s) = tspend s" "k_faults (tick_list_insert t n s) = k_faults s"
  by (simp_all add: tick_list_insert_def Let_def)

lemma tick_list_rm_frame [simp, kframe]:
  "blks (tick_list_rm t s) = blks s" "sems (tick_list_rm t s) = sems s"
  "mutexes (tick_list_rm t s) = mutexes s" "events (tick_list_rm t s) = events s"
  "queues (tick_list_rm t s) = queues s" "buf_queues (tick_list_rm t s) = buf_queues s"
  "g_ready_queue (tick_list_rm t s) = g_ready_queue s"
  "g_kobj_list (tick_list_rm t s) = g_kobj_list s"
  "g_tick_count (tick_list_rm t s) = g_tick_count s"
  "g_active_task (tick_list_rm t s) = g_active_task s"
  "g_preferred_ready_task (tick_list_rm t s) = g_preferred_ready_task s"
  "g_sched_lock (tick_list_rm t s) = g_sched_lock s"
  "g_intrpt_nested_level (tick_list_rm t s) = g_intrpt_nested_level s"
  "g_sys_stat (tick_list_rm t s) = g_sys_stat s"
  "g_idle_task_spawned (tick_list_rm t s) = g_idle_task_spawned s"
  "g_res_list (tick_list_rm t s) = g_res_list s" "mm_freed (tick_list_rm t s) = mm_freed s"
  "irq_off (tick_list_rm t s) = irq_off s" "tspend (tick_list_rm t s) = tspend s"
  "k_faults (tick_list_rm t s) = k_faults s"
  by (simp_all add: tick_list_rm_def)

lemma tick_other_tasks [simp]:
  "u \<noteq> t \<Longrightarrow> tasks (tick_list_insert t n s) u = tasks s u"
  "u \<noteq> t \<Longrightarrow> tasks (tick_list_rm t s) u = tasks s u"
  by (simp_all add: tick_list_insert_def tick_list_rm_def Let_def)

lemma tick_list_insert_tasks [simp, kframe]:
  "suspend_count (tasks (tick_list_insert t n s) u) = suspend_count (tasks s u)"
  "mutex_list (tasks (tick_list_insert t n s) u) = mutex_list (tasks s u)"
  "msg (tasks (tick_list_insert t n s) u) = msg (tasks s u)"
  "bq_msg_size (tasks (tick_list_insert t n s) u) = bq_msg_size (tasks s u)"
  "task_state (tasks (tick_list_insert t n s) u) = task_state (tasks s u)"
  "blk_state (tasks (tick_list_insert t n s) u) = blk_state (tasks s u)"
  "blk_obj (tasks (tick_list_insert t n s) u) = blk_obj (tasks s u)"
  "task_sem_obj (tasks (tick_list_insert t n s) u) = task_sem_obj (tasks s u)"
  "task_time_slice (tasks (tick_list_insert t n s) u) = task_time_slice (tasks s u)"
  "time_total (tasks (tick_list_insert t n s) u) = time_total (tasks s u)"
  "pend_flags (tasks (tick_list_insert t n s) u) = pend_flags (tasks s u)"
  "pend_info (tasks (tick_list_insert t n s) u) = pend_info (tasks s u)"
  "pend_option (tasks (tick_list_insert t n s) u) = pend_option (tasks s u)"
  "sched_policy (tasks (tick_list_insert t n s) u) = sched_policy (tasks s u)"
  "prio (tasks (tick_list_insert t n s) u) = prio (tasks s u)"
  "b_prio (tasks (tick_list_insert t n s) u) = b_prio (tasks s u)"
  "task_mm_alloc_flag (tasks (tick_list_insert t n s) u) = task_mm_alloc_flag (tasks s u)"
  "runtime (tasks (tick_list_insert t n s) u) = runtime (tasks s u)"
  by (simp_all add: tick_list_insert_def Let_def)

lemma tick_list_rm_tasks [simp, kframe]:
  "suspend_count (tasks (tick_list_rm t s) u) = suspend_count (tasks s u)"
  "mutex_list (tasks (tick_list_rm t s) u) = mutex_list (tasks s u)"
  "tick_match (tasks (tick_list_rm t s) u) = tick_match (tasks s u)"
  "tick_remain (tasks (tick_list_rm t s) u) = tick_remain (tasks s u)"
  "msg (tasks (tick_list_rm t s) u) = msg (tasks s u)"
  "bq_msg_size (tasks (tick_list_rm t s) u) = bq_msg_size (tasks s u)"
  "task_state (tasks (tick_list_rm t s) u) = task_state (tasks s u)"
  "blk_state (tasks (tick_list_rm t s) u) = blk_state (tasks s u)"
  "blk_obj (tasks (tick_list_rm t s) u) = blk_obj (tasks s u)"
  "task_sem_obj (tasks (tick_list_rm t s) u) = task_sem_obj (tasks s u)"
  "task_time_slice (tasks (tick_list_rm t s) u) = task_time_slice (tasks s u)"
  "time_total (tasks (tick_list_rm t s) u) = time_total (tasks s u)"
  "pend_flags (tasks (tick_list_rm t s) u) = pend_flags (tasks s u)"
  "pend_info (tasks (tick_list_rm t s) u) = pend_info (tasks s u)"
  "pend_option (tasks (tick_list_rm t s) u) = pend_option (tasks s u)"
  "sched_policy (tasks (tick_list_rm t s) u) = sched_policy (tasks s u)"
  "prio (tasks (tick_list_rm t s) u) = prio (tasks s u)"
  "b_prio (tasks (tick_list_rm t s) u) = b_prio (tasks s u)"
  "task_mm_alloc_flag (tasks (tick_list_rm t s) u) = task_mm_alloc_flag (tasks s u)"
  "runtime (tasks (tick_list_rm t s) u) = runtime (tasks s u)"
  by (simp_all add: tick_list_rm_def)

lemma tick_list_rm_head [simp]:
  "tick_head (tasks (tick_list_rm t s) u) = (tick_head (tasks s u) \<and> u \<noteq> t)"
  by (auto simp: tick_list_rm_def)

section \<open>The tick list as a set of tasks\<close>

definition tick_left :: "kstate \<Rightarrow> tid \<Rightarrow> u64" where
  "tick_left s t = tick_match (tasks s t) - g_tick_count s"

text \<open>\<open>tick_inv s\<close>: the list holds the tasks that have a tick head, in the order of expiry, each with time left.\<close>

definition tick_inv :: "kstate \<Rightarrow> bool" where
  "tick_inv s \<longleftrightarrow> distinct (g_tick_head s)
     \<and> set (g_tick_head s) = {t \<in> all_tasks s. tick_head (tasks s t)}
     \<and> sorted_wrt (\<lambda>a b. tick_left s a \<le> tick_left s b) (g_tick_head s)
     \<and> (\<forall>t \<in> set (g_tick_head s). tick_left s t > 0)"

lemma tick_inv_cong:
  assumes "g_tick_head s' = g_tick_head s" "g_tick_count s' = g_tick_count s"
    "all_tasks s' = all_tasks s"
    "\<And>t. t \<in> all_tasks s \<Longrightarrow> tick_match (tasks s' t) = tick_match (tasks s t)
       \<and> tick_head (tasks s' t) = tick_head (tasks s t)"
  shows "tick_inv s' \<longleftrightarrow> tick_inv s"
proof -
  have S: "{t \<in> all_tasks s'. tick_head (tasks s' t)} = {t \<in> all_tasks s. tick_head (tasks s t)}"
    using assms by auto
  have L: "tick_left s' t = tick_left s t" if "t \<in> all_tasks s" for t
    using assms that by (simp add: tick_left_def)
  have "sorted_wrt (\<lambda>a b. tick_left s' a \<le> tick_left s' b) (g_tick_head s)
      \<longleftrightarrow> sorted_wrt (\<lambda>a b. tick_left s a \<le> tick_left s b) (g_tick_head s)"
    if "set (g_tick_head s) \<subseteq> all_tasks s"
    using that L by (intro sorted_wrt_key_cong) auto
  then show ?thesis unfolding tick_inv_def S assms(1) using L by (auto 0 3)
qed

lemma tick_inv_sub: "tick_inv s \<Longrightarrow> t \<in> set (g_tick_head s) \<longleftrightarrow> t \<in> all_tasks s \<and> tick_head (tasks s t)"
  by (simp add: tick_inv_def)

lemma tick_inv_insert:
  assumes inv: "tick_inv s" and t: "t \<in> all_tasks s" "\<not> tick_head (tasks s t)"
  shows "tick_inv (tick_list_insert t n s)"
proof (cases "n > 0")
  case True
  define s1 where "s1 = upd_task t (\<lambda>x. x\<lparr>tick_match := g_tick_count s + n, tick_remain := n\<rparr>) s"
  let ?l = "tick_list_pri_insert s1 n t (g_tick_head s)" and ?s = "tick_list_insert t n s"
  have nl: "t \<notin> set (g_tick_head s)" using tick_inv_sub [OF inv] t(2) by simp
  have e: "g_tick_head ?s = ?l"
    using True by (simp add: tick_list_insert_def Let_def s1_def)
  have left: "tick_left ?s u = (if u = t then n else tick_left s u)" for u
    using True by (simp add: tick_list_insert_def Let_def tick_left_def)
  have left1: "tick_left s1 u = (if u = t then n else tick_left s u)" for u
    by (simp add: s1_def tick_left_def)
  have srt: "sorted_wrt (\<lambda>a b. tick_left s1 a \<le> tick_left s1 b) ?l"
  proof -
    have "sorted_wrt (\<lambda>a b. tick_left s1 a \<le> tick_left s1 b) (g_tick_head s)
        \<longleftrightarrow> sorted_wrt (\<lambda>a b. tick_left s a \<le> tick_left s b) (g_tick_head s)"
      using nl by (intro sorted_wrt_key_cong) (auto simp: left1)
    with inv have "sorted_wrt (\<lambda>a b. tick_left s1 a \<le> tick_left s1 b) (g_tick_head s)"
      by (simp add: tick_inv_def)
    then show ?thesis unfolding tick_left_def
      by (intro tick_ins.sorted_ins) (simp_all add: s1_def)
  qed
  have "distinct ?l" using inv nl by (simp add: tick_ins.distinct_ins tick_inv_def)
  moreover have "set ?l = {u \<in> all_tasks ?s. tick_head (tasks ?s u)}"
    using inv t True by (auto simp: tick_ins.set_ins tick_inv_def tick_list_insert_def Let_def)
  moreover have "sorted_wrt (\<lambda>a b. tick_left ?s a \<le> tick_left ?s b) ?l"
    using srt by (simp only: left left1)
  moreover have "\<forall>u\<in>set ?l. tick_left ?s u > 0"
    using inv True by (auto simp: tick_ins.set_ins left tick_inv_def)
  ultimately show ?thesis unfolding tick_inv_def e by simp
next
  case False
  then show ?thesis using inv by (simp add: tick_list_insert_def)
qed

lemma tick_list_rm_left [simp]: "tick_left (tick_list_rm t s) u = tick_left s u"
  by (simp add: tick_left_def)

lemma tick_inv_rm:
  assumes "tick_inv s" "t \<in> all_tasks s"
  shows "tick_inv (tick_list_rm t s)" "g_tick_head (tick_list_rm t s) = remove1 t (g_tick_head s)"
proof -
  show e: "g_tick_head (tick_list_rm t s) = remove1 t (g_tick_head s)"
    using assms tick_inv_sub [OF assms(1), of t] by (simp add: tick_list_rm_def remove1_idem)
  show "tick_inv (tick_list_rm t s)"
    using assms unfolding tick_inv_def e by (auto simp: sorted_wrt_remove1)
qed

end
