(* ===== verification/Pend.thy ===== *)
theory Pend
  imports Tick
begin

text \<open>
  Blocking and waking, \<^verbatim>\<open>core/k_pend.c\<close>. A blocked task is on the wait list of one object, which is
  ordered by priority (or by arrival, for an object with that policy), and on the tick list if it
  waits with a timeout.

  \<open>wait_inv W s\<close> says that the wait lists hold exactly the tasks \<open>W\<close>, each in the list of the object
  it waits for, and that a list with priority policy is sorted.
\<close>

section \<open>The code\<close>

text \<open>The walk along the wait list up to the first task of lower priority (greater number).\<close>

fun pend_list_add :: "kstate \<Rightarrow> nat \<Rightarrow> tid \<Rightarrow> tid list \<Rightarrow> tid list" where
  "pend_list_add s pri task [] = [task]"
| "pend_list_add s pri task (q # qs) =
     (if prio (tasks s q) > pri then task # q # qs else q # pend_list_add s pri task qs)"

definition pend_task_wakeup :: "tid \<Rightarrow> kstate \<Rightarrow> kstate" where
  "pend_task_wakeup task s =
     (let s1 = (case task_state (tasks s task) of
            K_PEND \<Rightarrow> upd_task task (\<lambda>t. t\<lparr>task_state := K_RDY\<rparr>)
                        (ready_list_add task (task_list_rm task s))
          | K_PEND_SUSPENDED \<Rightarrow> upd_task task (\<lambda>t. t\<lparr>task_state := K_SUSPENDED\<rparr>)
                        (task_list_rm task s)
          | _ \<Rightarrow> k_err_proc RHINO_SYS_FATAL_ERR s);
          s2 = tick_list_rm task s1
      in upd_task task (\<lambda>t. t\<lparr>blk_state := BLK_FINISH, blk_obj := None\<rparr>) s2)"

definition pend_to_blk_obj :: "oid \<Rightarrow> tid \<Rightarrow> u64 \<Rightarrow> kstate \<Rightarrow> kstate" where
  "pend_to_blk_obj ob task timeout s =
     (let s1 = upd_task task (\<lambda>t. t\<lparr>blk_obj := Some ob\<rparr>) s;
          s2 = (if timeout \<noteq> RHINO_WAIT_FOREVER then tick_list_insert task timeout s1 else s1);
          s3 = upd_task task (\<lambda>t. t\<lparr>task_state := K_PEND\<rparr>) s2;
          s4 = ready_list_rm task s3
      in if blk_policy (blks s4 ob) = BLK_POLICY_FIFO
         then upd_blk ob (\<lambda>b. b\<lparr>blk_list := blk_list b @ [task]\<rparr>) s4
         else upd_blk ob (\<lambda>b. b\<lparr>blk_list :=
                pend_list_add s4 (prio (tasks s4 task)) task (blk_list b)\<rparr>) s4)"

definition pend_task_rm :: "tid \<Rightarrow> kstate \<Rightarrow> kstate" where
  "pend_task_rm task s =
     (let s1 = (case task_state (tasks s task) of
            K_PEND \<Rightarrow> upd_task task (\<lambda>t. t\<lparr>task_state := K_RDY\<rparr>)
                        (ready_list_add task (task_list_rm task s))
          | K_PEND_SUSPENDED \<Rightarrow> upd_task task (\<lambda>t. t\<lparr>task_state := K_SUSPENDED\<rparr>)
                        (task_list_rm task s)
          | _ \<Rightarrow> k_err_proc RHINO_SYS_FATAL_ERR s);
          s2 = tick_list_rm task s1;
          s3 = upd_task task (\<lambda>t. t\<lparr>blk_state := BLK_DEL\<rparr>) s2
      in upd_task task (\<lambda>t. t\<lparr>blk_obj := None\<rparr>) s3)"

definition pend_list_reorder :: "tid \<Rightarrow> kstate \<Rightarrow> kstate" where
  "pend_list_reorder task s = (case blk_obj (tasks s task) of
     None \<Rightarrow> fault KNull s
   | Some ob \<Rightarrow>
       if blk_policy (blks s ob) = BLK_POLICY_PRI
       then (let s1 = task_list_rm task s in
             upd_blk ob (\<lambda>b. b\<lparr>blk_list :=
               pend_list_add s1 (prio (tasks s1 task)) task (blk_list b)\<rparr>) s1)
       else s)"

definition pend_state_end_proc :: "tid \<Rightarrow> kstate \<Rightarrow> kstate \<times> kstat" where
  "pend_state_end_proc task s = (case blk_state (tasks s task) of
     BLK_FINISH \<Rightarrow> (s, RHINO_SUCCESS)
   | BLK_ABORT \<Rightarrow> (s, RHINO_BLK_ABORT)
   | BLK_TIMEOUT \<Rightarrow> (s, RHINO_BLK_TIMEOUT)
   | BLK_DEL \<Rightarrow> (s, RHINO_BLK_DEL)
   | BLK_INVALID \<Rightarrow> (k_err_proc RHINO_BLK_INV_STATE s, RHINO_BLK_INV_STATE))"

text \<open>
  The loop of the deletion functions: wake every waiter of an object, the first one of the list
  each time, with the given wake function. It ends because each call shortens the list; the
  \<open>fuel\<close> is the length of the list.
\<close>

fun wake_all :: "nat \<Rightarrow> (tid \<Rightarrow> kstate \<Rightarrow> kstate) \<Rightarrow> oid \<Rightarrow> kstate \<Rightarrow> kstate" where
  "wake_all 0 wake ob s = (if waiters s ob = [] then s else fault KHang s)"
| "wake_all (Suc n) wake ob s =
     (if waiters s ob = [] then s else wake_all n wake ob (wake (hd (waiters s ob)) s))"

definition pend_all_rm :: "oid \<Rightarrow> kstate \<Rightarrow> kstate" where
  "pend_all_rm ob s = wake_all (length (waiters s ob)) pend_task_rm ob s"

interpretation pend_ins: ordered_insert "\<lambda>q. prio (tasks s q)" "pend_list_add s" for s
  by unfold_locales simp_all

section \<open>Frames\<close>

lemma pend_task_wakeup_frame [simp, kframe]:
  "sems (pend_task_wakeup t s) = sems s" "mutexes (pend_task_wakeup t s) = mutexes s"
  "events (pend_task_wakeup t s) = events s" "queues (pend_task_wakeup t s) = queues s"
  "buf_queues (pend_task_wakeup t s) = buf_queues s"
  "g_kobj_list (pend_task_wakeup t s) = g_kobj_list s"
  "g_tick_count (pend_task_wakeup t s) = g_tick_count s"
  "g_active_task (pend_task_wakeup t s) = g_active_task s"
  "g_preferred_ready_task (pend_task_wakeup t s) = g_preferred_ready_task s"
  "g_sched_lock (pend_task_wakeup t s) = g_sched_lock s"
  "g_intrpt_nested_level (pend_task_wakeup t s) = g_intrpt_nested_level s"
  "g_sys_stat (pend_task_wakeup t s) = g_sys_stat s"
  "g_idle_task_spawned (pend_task_wakeup t s) = g_idle_task_spawned s"
  "g_res_list (pend_task_wakeup t s) = g_res_list s" "mm_freed (pend_task_wakeup t s) = mm_freed s"
  "irq_off (pend_task_wakeup t s) = irq_off s" "tspend (pend_task_wakeup t s) = tspend s"
  by (simp_all add: pend_task_wakeup_def Let_def k_err_proc_def split: task_stat_t.split)

lemma pend_task_rm_frame [simp, kframe]:
  "sems (pend_task_rm t s) = sems s" "mutexes (pend_task_rm t s) = mutexes s"
  "events (pend_task_rm t s) = events s" "queues (pend_task_rm t s) = queues s"
  "buf_queues (pend_task_rm t s) = buf_queues s" "g_kobj_list (pend_task_rm t s) = g_kobj_list s"
  "g_tick_count (pend_task_rm t s) = g_tick_count s"
  "g_active_task (pend_task_rm t s) = g_active_task s"
  "g_preferred_ready_task (pend_task_rm t s) = g_preferred_ready_task s"
  "g_sched_lock (pend_task_rm t s) = g_sched_lock s"
  "g_intrpt_nested_level (pend_task_rm t s) = g_intrpt_nested_level s"
  "g_sys_stat (pend_task_rm t s) = g_sys_stat s"
  "g_idle_task_spawned (pend_task_rm t s) = g_idle_task_spawned s"
  "g_res_list (pend_task_rm t s) = g_res_list s" "mm_freed (pend_task_rm t s) = mm_freed s"
  "irq_off (pend_task_rm t s) = irq_off s" "tspend (pend_task_rm t s) = tspend s"
  by (simp_all add: pend_task_rm_def Let_def k_err_proc_def split: task_stat_t.split)

lemma pend_to_blk_obj_frame [simp, kframe]:
  "sems (pend_to_blk_obj ob t n s) = sems s" "mutexes (pend_to_blk_obj ob t n s) = mutexes s"
  "events (pend_to_blk_obj ob t n s) = events s" "queues (pend_to_blk_obj ob t n s) = queues s"
  "buf_queues (pend_to_blk_obj ob t n s) = buf_queues s"
  "g_kobj_list (pend_to_blk_obj ob t n s) = g_kobj_list s"
  "g_tick_count (pend_to_blk_obj ob t n s) = g_tick_count s"
  "g_active_task (pend_to_blk_obj ob t n s) = g_active_task s"
  "g_preferred_ready_task (pend_to_blk_obj ob t n s) = g_preferred_ready_task s"
  "g_sched_lock (pend_to_blk_obj ob t n s) = g_sched_lock s"
  "g_intrpt_nested_level (pend_to_blk_obj ob t n s) = g_intrpt_nested_level s"
  "g_sys_stat (pend_to_blk_obj ob t n s) = g_sys_stat s"
  "g_idle_task_spawned (pend_to_blk_obj ob t n s) = g_idle_task_spawned s"
  "g_res_list (pend_to_blk_obj ob t n s) = g_res_list s"
  "mm_freed (pend_to_blk_obj ob t n s) = mm_freed s"
  "irq_off (pend_to_blk_obj ob t n s) = irq_off s" "tspend (pend_to_blk_obj ob t n s) = tspend s"
  by (simp_all add: pend_to_blk_obj_def Let_def)

lemma pend_list_reorder_frame [simp, kframe]:
  "tasks (pend_list_reorder t s) = tasks s" "sems (pend_list_reorder t s) = sems s"
  "mutexes (pend_list_reorder t s) = mutexes s" "events (pend_list_reorder t s) = events s"
  "queues (pend_list_reorder t s) = queues s" "buf_queues (pend_list_reorder t s) = buf_queues s"
  "g_ready_queue (pend_list_reorder t s) = g_ready_queue s"
  "g_kobj_list (pend_list_reorder t s) = g_kobj_list s"
  "g_tick_head (pend_list_reorder t s) = g_tick_head s"
  "g_tick_count (pend_list_reorder t s) = g_tick_count s"
  "g_active_task (pend_list_reorder t s) = g_active_task s"
  "g_preferred_ready_task (pend_list_reorder t s) = g_preferred_ready_task s"
  "g_sched_lock (pend_list_reorder t s) = g_sched_lock s"
  "g_intrpt_nested_level (pend_list_reorder t s) = g_intrpt_nested_level s"
  "g_sys_stat (pend_list_reorder t s) = g_sys_stat s"
  "g_idle_task_spawned (pend_list_reorder t s) = g_idle_task_spawned s"
  "g_res_list (pend_list_reorder t s) = g_res_list s"
  "mm_freed (pend_list_reorder t s) = mm_freed s" "irq_off (pend_list_reorder t s) = irq_off s"
  "tspend (pend_list_reorder t s) = tspend s"
  by (simp_all add: pend_list_reorder_def Let_def split: option.split)

lemma pend_task_wakeup_tasks [simp, kframe]:
  "suspend_count (tasks (pend_task_wakeup t s) u) = suspend_count (tasks s u)"
  "mutex_list (tasks (pend_task_wakeup t s) u) = mutex_list (tasks s u)"
  "tick_match (tasks (pend_task_wakeup t s) u) = tick_match (tasks s u)"
  "tick_remain (tasks (pend_task_wakeup t s) u) = tick_remain (tasks s u)"
  "msg (tasks (pend_task_wakeup t s) u) = msg (tasks s u)"
  "bq_msg_size (tasks (pend_task_wakeup t s) u) = bq_msg_size (tasks s u)"
  "task_sem_obj (tasks (pend_task_wakeup t s) u) = task_sem_obj (tasks s u)"
  "task_time_slice (tasks (pend_task_wakeup t s) u) = task_time_slice (tasks s u)"
  "time_total (tasks (pend_task_wakeup t s) u) = time_total (tasks s u)"
  "pend_flags (tasks (pend_task_wakeup t s) u) = pend_flags (tasks s u)"
  "pend_info (tasks (pend_task_wakeup t s) u) = pend_info (tasks s u)"
  "pend_option (tasks (pend_task_wakeup t s) u) = pend_option (tasks s u)"
  "sched_policy (tasks (pend_task_wakeup t s) u) = sched_policy (tasks s u)"
  "prio (tasks (pend_task_wakeup t s) u) = prio (tasks s u)"
  "b_prio (tasks (pend_task_wakeup t s) u) = b_prio (tasks s u)"
  "task_mm_alloc_flag (tasks (pend_task_wakeup t s) u) = task_mm_alloc_flag (tasks s u)"
  "runtime (tasks (pend_task_wakeup t s) u) = runtime (tasks s u)"
  by (simp_all add: pend_task_wakeup_def Let_def k_err_proc_def split: task_stat_t.split)

lemma pend_task_rm_tasks [simp, kframe]:
  "suspend_count (tasks (pend_task_rm t s) u) = suspend_count (tasks s u)"
  "mutex_list (tasks (pend_task_rm t s) u) = mutex_list (tasks s u)"
  "tick_match (tasks (pend_task_rm t s) u) = tick_match (tasks s u)"
  "tick_remain (tasks (pend_task_rm t s) u) = tick_remain (tasks s u)"
  "msg (tasks (pend_task_rm t s) u) = msg (tasks s u)"
  "bq_msg_size (tasks (pend_task_rm t s) u) = bq_msg_size (tasks s u)"
  "task_sem_obj (tasks (pend_task_rm t s) u) = task_sem_obj (tasks s u)"
  "task_time_slice (tasks (pend_task_rm t s) u) = task_time_slice (tasks s u)"
  "time_total (tasks (pend_task_rm t s) u) = time_total (tasks s u)"
  "pend_flags (tasks (pend_task_rm t s) u) = pend_flags (tasks s u)"
  "pend_info (tasks (pend_task_rm t s) u) = pend_info (tasks s u)"
  "pend_option (tasks (pend_task_rm t s) u) = pend_option (tasks s u)"
  "sched_policy (tasks (pend_task_rm t s) u) = sched_policy (tasks s u)"
  "prio (tasks (pend_task_rm t s) u) = prio (tasks s u)"
  "b_prio (tasks (pend_task_rm t s) u) = b_prio (tasks s u)"
  "task_mm_alloc_flag (tasks (pend_task_rm t s) u) = task_mm_alloc_flag (tasks s u)"
  "runtime (tasks (pend_task_rm t s) u) = runtime (tasks s u)"
  by (simp_all add: pend_task_rm_def Let_def k_err_proc_def split: task_stat_t.split)

lemma pend_to_blk_obj_tasks [simp, kframe]:
  "suspend_count (tasks (pend_to_blk_obj ob t n s) u) = suspend_count (tasks s u)"
  "mutex_list (tasks (pend_to_blk_obj ob t n s) u) = mutex_list (tasks s u)"
  "msg (tasks (pend_to_blk_obj ob t n s) u) = msg (tasks s u)"
  "bq_msg_size (tasks (pend_to_blk_obj ob t n s) u) = bq_msg_size (tasks s u)"
  "blk_state (tasks (pend_to_blk_obj ob t n s) u) = blk_state (tasks s u)"
  "task_sem_obj (tasks (pend_to_blk_obj ob t n s) u) = task_sem_obj (tasks s u)"
  "task_time_slice (tasks (pend_to_blk_obj ob t n s) u) = task_time_slice (tasks s u)"
  "time_total (tasks (pend_to_blk_obj ob t n s) u) = time_total (tasks s u)"
  "pend_flags (tasks (pend_to_blk_obj ob t n s) u) = pend_flags (tasks s u)"
  "pend_info (tasks (pend_to_blk_obj ob t n s) u) = pend_info (tasks s u)"
  "pend_option (tasks (pend_to_blk_obj ob t n s) u) = pend_option (tasks s u)"
  "sched_policy (tasks (pend_to_blk_obj ob t n s) u) = sched_policy (tasks s u)"
  "prio (tasks (pend_to_blk_obj ob t n s) u) = prio (tasks s u)"
  "b_prio (tasks (pend_to_blk_obj ob t n s) u) = b_prio (tasks s u)"
  "task_mm_alloc_flag (tasks (pend_to_blk_obj ob t n s) u) = task_mm_alloc_flag (tasks s u)"
  "runtime (tasks (pend_to_blk_obj ob t n s) u) = runtime (tasks s u)"
  by (simp_all add: pend_to_blk_obj_def Let_def)

lemma wake_all_pend_task_wakeup_frame [simp, kframe]:
  "sems (wake_all n pend_task_wakeup ob s) = sems s"
  "mutexes (wake_all n pend_task_wakeup ob s) = mutexes s"
  "events (wake_all n pend_task_wakeup ob s) = events s"
  "queues (wake_all n pend_task_wakeup ob s) = queues s"
  "buf_queues (wake_all n pend_task_wakeup ob s) = buf_queues s"
  "g_kobj_list (wake_all n pend_task_wakeup ob s) = g_kobj_list s"
  "g_tick_count (wake_all n pend_task_wakeup ob s) = g_tick_count s"
  "g_active_task (wake_all n pend_task_wakeup ob s) = g_active_task s"
  "g_preferred_ready_task (wake_all n pend_task_wakeup ob s) = g_preferred_ready_task s"
  "g_sched_lock (wake_all n pend_task_wakeup ob s) = g_sched_lock s"
  "g_intrpt_nested_level (wake_all n pend_task_wakeup ob s) = g_intrpt_nested_level s"
  "g_sys_stat (wake_all n pend_task_wakeup ob s) = g_sys_stat s"
  "g_idle_task_spawned (wake_all n pend_task_wakeup ob s) = g_idle_task_spawned s"
  "g_res_list (wake_all n pend_task_wakeup ob s) = g_res_list s"
  "mm_freed (wake_all n pend_task_wakeup ob s) = mm_freed s"
  "irq_off (wake_all n pend_task_wakeup ob s) = irq_off s"
  "tspend (wake_all n pend_task_wakeup ob s) = tspend s"
  by (induction n arbitrary: s) auto

lemma wake_all_pend_task_wakeup_tasks [simp, kframe]:
  "suspend_count (tasks (wake_all n pend_task_wakeup ob s) u) = suspend_count (tasks s u)"
  "mutex_list (tasks (wake_all n pend_task_wakeup ob s) u) = mutex_list (tasks s u)"
  "tick_match (tasks (wake_all n pend_task_wakeup ob s) u) = tick_match (tasks s u)"
  "tick_remain (tasks (wake_all n pend_task_wakeup ob s) u) = tick_remain (tasks s u)"
  "msg (tasks (wake_all n pend_task_wakeup ob s) u) = msg (tasks s u)"
  "bq_msg_size (tasks (wake_all n pend_task_wakeup ob s) u) = bq_msg_size (tasks s u)"
  "task_sem_obj (tasks (wake_all n pend_task_wakeup ob s) u) = task_sem_obj (tasks s u)"
  "task_time_slice (tasks (wake_all n pend_task_wakeup ob s) u) = task_time_slice (tasks s u)"
  "time_total (tasks (wake_all n pend_task_wakeup ob s) u) = time_total (tasks s u)"
  "pend_flags (tasks (wake_all n pend_task_wakeup ob s) u) = pend_flags (tasks s u)"
  "pend_info (tasks (wake_all n pend_task_wakeup ob s) u) = pend_info (tasks s u)"
  "pend_option (tasks (wake_all n pend_task_wakeup ob s) u) = pend_option (tasks s u)"
  "sched_policy (tasks (wake_all n pend_task_wakeup ob s) u) = sched_policy (tasks s u)"
  "prio (tasks (wake_all n pend_task_wakeup ob s) u) = prio (tasks s u)"
  "b_prio (tasks (wake_all n pend_task_wakeup ob s) u) = b_prio (tasks s u)"
  "task_mm_alloc_flag (tasks (wake_all n pend_task_wakeup ob s) u) = task_mm_alloc_flag (tasks s u)"
  "runtime (tasks (wake_all n pend_task_wakeup ob s) u) = runtime (tasks s u)"
  by (induction n arbitrary: s) auto

lemma wake_all_pend_task_rm_frame [simp, kframe]:
  "sems (wake_all n pend_task_rm ob s) = sems s"
  "mutexes (wake_all n pend_task_rm ob s) = mutexes s"
  "events (wake_all n pend_task_rm ob s) = events s"
  "queues (wake_all n pend_task_rm ob s) = queues s"
  "buf_queues (wake_all n pend_task_rm ob s) = buf_queues s"
  "g_kobj_list (wake_all n pend_task_rm ob s) = g_kobj_list s"
  "g_tick_count (wake_all n pend_task_rm ob s) = g_tick_count s"
  "g_active_task (wake_all n pend_task_rm ob s) = g_active_task s"
  "g_preferred_ready_task (wake_all n pend_task_rm ob s) = g_preferred_ready_task s"
  "g_sched_lock (wake_all n pend_task_rm ob s) = g_sched_lock s"
  "g_intrpt_nested_level (wake_all n pend_task_rm ob s) = g_intrpt_nested_level s"
  "g_sys_stat (wake_all n pend_task_rm ob s) = g_sys_stat s"
  "g_idle_task_spawned (wake_all n pend_task_rm ob s) = g_idle_task_spawned s"
  "g_res_list (wake_all n pend_task_rm ob s) = g_res_list s"
  "mm_freed (wake_all n pend_task_rm ob s) = mm_freed s"
  "irq_off (wake_all n pend_task_rm ob s) = irq_off s"
  "tspend (wake_all n pend_task_rm ob s) = tspend s"
  by (induction n arbitrary: s) auto

lemma wake_all_pend_task_rm_tasks [simp, kframe]:
  "suspend_count (tasks (wake_all n pend_task_rm ob s) u) = suspend_count (tasks s u)"
  "mutex_list (tasks (wake_all n pend_task_rm ob s) u) = mutex_list (tasks s u)"
  "tick_match (tasks (wake_all n pend_task_rm ob s) u) = tick_match (tasks s u)"
  "tick_remain (tasks (wake_all n pend_task_rm ob s) u) = tick_remain (tasks s u)"
  "msg (tasks (wake_all n pend_task_rm ob s) u) = msg (tasks s u)"
  "bq_msg_size (tasks (wake_all n pend_task_rm ob s) u) = bq_msg_size (tasks s u)"
  "task_sem_obj (tasks (wake_all n pend_task_rm ob s) u) = task_sem_obj (tasks s u)"
  "task_time_slice (tasks (wake_all n pend_task_rm ob s) u) = task_time_slice (tasks s u)"
  "time_total (tasks (wake_all n pend_task_rm ob s) u) = time_total (tasks s u)"
  "pend_flags (tasks (wake_all n pend_task_rm ob s) u) = pend_flags (tasks s u)"
  "pend_info (tasks (wake_all n pend_task_rm ob s) u) = pend_info (tasks s u)"
  "pend_option (tasks (wake_all n pend_task_rm ob s) u) = pend_option (tasks s u)"
  "sched_policy (tasks (wake_all n pend_task_rm ob s) u) = sched_policy (tasks s u)"
  "prio (tasks (wake_all n pend_task_rm ob s) u) = prio (tasks s u)"
  "b_prio (tasks (wake_all n pend_task_rm ob s) u) = b_prio (tasks s u)"
  "task_mm_alloc_flag (tasks (wake_all n pend_task_rm ob s) u) = task_mm_alloc_flag (tasks s u)"
  "runtime (tasks (wake_all n pend_task_rm ob s) u) = runtime (tasks s u)"
  by (induction n arbitrary: s) auto

lemma pend_other_tasks [simp]:
  "u \<noteq> t \<Longrightarrow> tasks (pend_task_wakeup t s) u = tasks s u"
  "u \<noteq> t \<Longrightarrow> tasks (pend_task_rm t s) u = tasks s u"
  "u \<noteq> t \<Longrightarrow> tasks (pend_to_blk_obj ob t n s) u = tasks s u"
  by (simp_all add: pend_task_wakeup_def pend_task_rm_def pend_to_blk_obj_def Let_def k_err_proc_def
      split: task_stat_t.split)

section \<open>The wait lists as a set of tasks\<close>

definition wait_inv :: "tid set \<Rightarrow> kstate \<Rightarrow> bool" where
  "wait_inv W s \<longleftrightarrow> (\<forall>ob. distinct (waiters s ob)
       \<and> set (waiters s ob) = {t \<in> W. blk_obj (tasks s t) = Some ob}
       \<and> (blk_policy (blks s ob) = BLK_POLICY_PRI
          \<longrightarrow> sorted_wrt (\<lambda>a b. prio (tasks s a) \<le> prio (tasks s b)) (waiters s ob)))
     \<and> (\<forall>t\<in>W. blk_obj (tasks s t) \<noteq> None)"

lemma wait_inv_mem: "wait_inv W s \<Longrightarrow> t \<in> set (waiters s ob) \<longleftrightarrow> t \<in> W \<and> blk_obj (tasks s t) = Some ob"
  by (simp add: wait_inv_def)

lemma wait_inv_distinct: "wait_inv W s \<Longrightarrow> distinct (waiters s ob)"
  by (simp add: wait_inv_def)

lemma wait_inv_sorted:
  "wait_inv W s \<Longrightarrow> blk_policy (blks s ob) = BLK_POLICY_PRI
    \<Longrightarrow> sorted_wrt (\<lambda>a b. prio (tasks s a) \<le> prio (tasks s b)) (waiters s ob)"
  by (simp add: wait_inv_def)

lemma wait_inv_cong:
  assumes "\<And>ob. waiters s' ob = waiters s ob" "\<And>ob. blk_policy (blks s' ob) = blk_policy (blks s ob)"
    "\<And>t. t \<in> W \<Longrightarrow> prio (tasks s' t) = prio (tasks s t) \<and> blk_obj (tasks s' t) = blk_obj (tasks s t)"
  shows "wait_inv W s' \<longleftrightarrow> wait_inv W s"
proof -
  have S: "{t \<in> W. blk_obj (tasks s' t) = Some ob} = {t \<in> W. blk_obj (tasks s t) = Some ob}" for ob
    using assms(3) by auto
  have "sorted_wrt (\<lambda>a b. prio (tasks s' a) \<le> prio (tasks s' b)) (waiters s ob)
      \<longleftrightarrow> sorted_wrt (\<lambda>a b. prio (tasks s a) \<le> prio (tasks s b)) (waiters s ob)"
    if "set (waiters s ob) \<subseteq> W" for ob
    using that assms(3) by (intro sorted_wrt_key_cong) auto
  then show ?thesis
    unfolding wait_inv_def assms(1,2) S using assms(3) by (auto 0 3)
qed

lemma wait_inv_rm:
  assumes "wait_inv W s"
  shows "wait_inv (W - {t}) (task_list_rm t s)"
  using assms by (auto simp: wait_inv_def sorted_wrt_remove1)

text \<open>A task whose object is set joins the list of that object.\<close>

lemma wait_inv_pri_add:
  assumes inv: "wait_inv W s" and t: "t \<notin> W" "blk_obj (tasks s t) = Some ob"
    and p: "p = prio (tasks s t)"
  shows "wait_inv (insert t W) (upd_blk ob (\<lambda>b. b\<lparr>blk_list := pend_list_add s p t (blk_list b)\<rparr>) s)"
proof -
  have nt: "t \<notin> set (waiters s ob)" using wait_inv_mem [OF inv] t(1) by simp
  have "sorted_wrt (\<lambda>a b. prio (tasks s a) \<le> prio (tasks s b)) (pend_list_add s p t (waiters s ob))"
    if "blk_policy (blks s ob) = BLK_POLICY_PRI"
    using wait_inv_sorted [OF inv that] p by (intro pend_ins.sorted_ins) auto
  then show ?thesis
    using inv t nt by (auto simp: wait_inv_def pend_ins.set_ins pend_ins.distinct_ins)
qed

lemma wait_inv_fifo_add:
  assumes "wait_inv W s" "t \<notin> W" "blk_obj (tasks s t) = Some ob"
    "blk_policy (blks s ob) = BLK_POLICY_FIFO"
  shows "wait_inv (insert t W) (upd_blk ob (\<lambda>b. b\<lparr>blk_list := blk_list b @ [t]\<rparr>) s)"
  using assms by (auto simp: wait_inv_def)

section \<open>Waking a task\<close>

text \<open>
  Both wake functions have one contract. The task leaves the wait lists and the tick list, and
  enters the ready lists unless it is suspended as well.
\<close>

definition waiting :: "ktask_t \<Rightarrow> bool" where
  "waiting t \<longleftrightarrow> task_state t = K_PEND \<or> task_state t = K_PEND_SUSPENDED"

definition woken_state :: "task_stat_t \<Rightarrow> task_stat_t" where
  "woken_state st = (if st = K_PEND then K_RDY else K_SUSPENDED)"

locale wake_fun =
  fixes wake :: "tid \<Rightarrow> kstate \<Rightarrow> kstate" and reason :: blk_state_t
  assumes reason_valid: "reason \<noteq> BLK_INVALID"
    and wake_eq: "waiting (tasks s t) \<Longrightarrow> wake t s =
    (let s1 = task_list_rm t s;
         s2 = (if task_state (tasks s t) = K_PEND then ready_list_add t s1 else s1)
     in upd_task t (\<lambda>x. x\<lparr>task_state := woken_state (task_state (tasks s t)), blk_state := reason,
          blk_obj := None\<rparr>) (tick_list_rm t s2))"
begin

lemma wake_task:
  assumes "waiting (tasks s t)"
  shows "tasks (wake t s) = (tasks s)(t := (tasks s t)\<lparr>tick_head := False, blk_state := reason,
      blk_obj := None, task_state := woken_state (task_state (tasks s t))\<rparr>)"
  using assms by (auto simp: wake_eq Let_def tick_list_rm_def upd_task_def fun_eq_iff)

lemma wake_fields:
  assumes "waiting (tasks s t)"
  shows "waiters (wake t s) ob = remove1 t (waiters s ob)"
    "obj_type (blks (wake t s) ob) = obj_type (blks s ob)"
    "blk_policy (blks (wake t s) ob) = blk_policy (blks s ob)"
    "k_faults (wake t s) = k_faults s" "g_kobj_list (wake t s) = g_kobj_list s"
    "mutexes (wake t s) = mutexes s"
  using assms by (simp_all add: wake_eq Let_def)

lemma wake_rq:
  assumes "rq_inv R s" "t \<notin> R" "waiting (tasks s t)" "prio (tasks s t) < 62"
  shows "rq_inv (if task_state (tasks s t) = K_PEND then insert t R else R) (wake t s)"
proof -
  have 1: "rq_inv R (task_list_rm t s)" using assms(1) by (subst rq_inv_cong) auto
  have 2: "rq_inv (if task_state (tasks s t) = K_PEND then insert t R else R)
      (if task_state (tasks s t) = K_PEND then ready_list_add t (task_list_rm t s)
       else task_list_rm t s)"
    using rq_inv_add [OF 1 assms(2)] 1 assms(4) by simp
  show ?thesis unfolding wake_eq [OF assms(3)] Let_def
    by (subst rq_inv_cong [OF _ _, THEN iffD2, OF _ _ 2]) auto
qed

lemma wake_wait:
  assumes "wait_inv W s" "waiting (tasks s t)"
  shows "wait_inv (W - {t}) (wake t s)"
proof -
  have "wait_inv (W - {t}) (wake t s) \<longleftrightarrow> wait_inv (W - {t}) (task_list_rm t s)"
    by (rule wait_inv_cong) (auto simp: wake_fields [OF assms(2)] wake_task [OF assms(2)])
  then show ?thesis using wait_inv_rm [OF assms(1)] by simp
qed

lemma wake_tick:
  assumes "tick_inv s" "t \<in> all_tasks s" "waiting (tasks s t)"
  shows "tick_inv (wake t s)"
proof -
  define s2 where "s2 = (if task_state (tasks s t) = K_PEND
    then ready_list_add t (task_list_rm t s) else task_list_rm t s)"
  have "tick_inv s2" using assms(1) by (subst tick_inv_cong [of s2 s]) (auto simp: s2_def)
  moreover have "t \<in> all_tasks s2" using assms(2) by (simp add: s2_def)
  ultimately have "tick_inv (tick_list_rm t s2)" by (rule tick_inv_rm)
  then show ?thesis unfolding wake_eq [OF assms(3)] Let_def s2_def [symmetric]
    by (subst tick_inv_cong [of _ "tick_list_rm t s2"]) auto
qed

end

lemma state_tick_swap:
  "r\<lparr>task_state := a, tick_head := b\<rparr> = (r :: ktask_t)\<lparr>tick_head := b, task_state := a\<rparr>"
  by simp

interpretation wakeup: wake_fun pend_task_wakeup BLK_FINISH
  by unfold_locales (auto simp: pend_task_wakeup_def Let_def upd_task_def waiting_def woken_state_def
      tick_list_rm_def state_tick_swap)

interpretation wakerm: wake_fun pend_task_rm BLK_DEL
  by unfold_locales (auto simp: pend_task_rm_def Let_def upd_task_def waiting_def woken_state_def
      tick_list_rm_def state_tick_swap)

text \<open>The loop that empties a wait list keeps what one wake keeps, and ends with the list empty.\<close>

lemma wake_all_rule:
  assumes "P s" "length (waiters s ob) \<le> n"
    and "\<And>s. P s \<Longrightarrow> waiters s ob \<noteq> [] \<Longrightarrow> P (wake (hd (waiters s ob)) s)
      \<and> length (waiters (wake (hd (waiters s ob)) s) ob) < length (waiters s ob)"
  shows "P (wake_all n wake ob s) \<and> waiters (wake_all n wake ob s) ob = []"
  using assms(1,2)
proof (induction n arbitrary: s)
  case (Suc n)
  then show ?case using assms(3) [OF Suc.prems(1)] Suc.IH [of "wake (hd (waiters s ob)) s"] by fastforce
qed simp

section \<open>Blocking a task\<close>

lemma pend_to_blk_obj_task:
  "task_state (tasks (pend_to_blk_obj ob t n s) t) = K_PEND"
  "blk_obj (tasks (pend_to_blk_obj ob t n s) t) = Some ob"
  "tick_head (tasks (pend_to_blk_obj ob t n s) t)
    \<longleftrightarrow> tick_head (tasks s t) \<or> (n \<noteq> RHINO_WAIT_FOREVER \<and> n \<noteq> 0)"
  by (auto simp: pend_to_blk_obj_def Let_def tick_list_insert_def word_gt_0)

lemma pend_to_blk_obj_blks [simp]:
  "obj_type (blks (pend_to_blk_obj ob t n s) x) = obj_type (blks s x)"
  "blk_policy (blks (pend_to_blk_obj ob t n s) x) = blk_policy (blks s x)"
  "x \<noteq> ob \<Longrightarrow> waiters (pend_to_blk_obj ob t n s) x = waiters s x"
  by (simp_all add: pend_to_blk_obj_def Let_def)

lemma pend_to_blk_obj_waiters:
  "set (waiters (pend_to_blk_obj ob t n s) ob) = insert t (set (waiters s ob))"
  by (simp add: pend_to_blk_obj_def Let_def pend_ins.set_ins)

lemma pend_to_blk_obj_spec:
  assumes rq: "rq_inv R s" "t \<in> R" "R - {t} \<noteq> {}" and w: "wait_inv W s" "t \<notin> W"
    and tk: "tick_inv s" "t \<in> all_tasks s" "\<not> tick_head (tasks s t)"
  shows "rq_inv (R - {t}) (pend_to_blk_obj ob t n s)"
    "wait_inv (insert t W) (pend_to_blk_obj ob t n s)"
    "tick_inv (pend_to_blk_obj ob t n s)"
    "k_faults (pend_to_blk_obj ob t n s) = k_faults s"
proof -
  define s1 where "s1 = upd_task t (\<lambda>t. t\<lparr>blk_obj := Some ob\<rparr>) s"
  define s2 where "s2 = (if n \<noteq> RHINO_WAIT_FOREVER then tick_list_insert t n s1 else s1)"
  define s3 where "s3 = upd_task t (\<lambda>t. t\<lparr>task_state := K_PEND\<rparr>) s2"
  define s4 where "s4 = ready_list_rm t s3"
  let ?s = "pend_to_blk_obj ob t n s"
  have s: "?s = (if blk_policy (blks s4 ob) = BLK_POLICY_FIFO
      then upd_blk ob (\<lambda>b. b\<lparr>blk_list := blk_list b @ [t]\<rparr>) s4
      else upd_blk ob (\<lambda>b. b\<lparr>blk_list := pend_list_add s4 (prio (tasks s4 t)) t (blk_list b)\<rparr>) s4)"
    by (simp add: pend_to_blk_obj_def Let_def s1_def s2_def s3_def s4_def)
  have "rq_inv R s3" using rq(1) by (subst rq_inv_cong [of s3 s]) (auto simp: s1_def s2_def s3_def)
  note rm = rq_inv_rm [OF this rq(2,3)]
  show "rq_inv (R - {t}) ?s"
    unfolding s using rm(1) by (subst rq_inv_cong [of _ s4]) (auto simp: s4_def)
  show "k_faults ?s = k_faults s"
    unfolding s using rm(2) by (simp add: s4_def s3_def s2_def s1_def)
  have "wait_inv W s4"
    using w by (subst wait_inv_cong [of s4 s]) (auto simp: s1_def s2_def s3_def s4_def)
  moreover have "blk_obj (tasks s4 t) = Some ob" by (simp add: s1_def s2_def s3_def s4_def)
  ultimately show "wait_inv (insert t W) ?s"
    unfolding s using wait_inv_pri_add [of W s4 t ob] wait_inv_fifo_add [of W s4 t ob] w(2) by simp
  have "tick_inv s1" using tk(1) by (subst tick_inv_cong [of s1 s]) (auto simp: s1_def)
  then have "tick_inv s2" using tick_inv_insert [of s1 t n] tk by (simp add: s2_def s1_def)
  then show "tick_inv ?s"
    unfolding s by (subst tick_inv_cong [of _ s2]) (auto simp: s3_def s4_def)
qed

end
