(* ===== verification/Prio_Inherit.thy ===== *)
theory Prio_Inherit
  imports Pend
begin

text \<open>
  Priority changes and priority inheritance: \<open>task_pri_change\<close> of \<^verbatim>\<open>core/k_task.c\<close> and the functions
  of \<^verbatim>\<open>core/k_mutex.c\<close> it works with. A task that owns mutexes runs at the highest of its own
  priority and the priorities of the tasks that wait for them; the change of one task's priority may
  move along a chain of owners that themselves wait.

  The contract is stated with \<open>is_eff B s t p\<close>: \<open>p\<close> is the priority task \<open>t\<close> should have if \<open>B\<close> gives
  the base priorities. The loop of \<open>task_pri_change\<close> repairs the whole chain: if every task but the
  first has its effective priority, then afterwards all have.
\<close>

section \<open>The code\<close>

fun pri_limit_loop :: "kstate \<Rightarrow> nat \<Rightarrow> nat \<Rightarrow> oid list \<Rightarrow> nat" where
  "pri_limit_loop s high_pri pri [] = high_pri"
| "pri_limit_loop s high_pri pri (m # ms) =
     (let pri' = (if waiters s m \<noteq> [] then prio (tasks s (hd (waiters s m))) else pri)
      in pri_limit_loop s (if pri' < high_pri then pri' else high_pri) pri' ms)"

definition mutex_pri_limit :: "tid \<Rightarrow> nat \<Rightarrow> kstate \<Rightarrow> nat" where
  "mutex_pri_limit task pri s = pri_limit_loop s pri pri (mutex_list (tasks s task))"

text \<open>The walk along the chain of owned mutexes, unlinking \<open>mutex_rel\<close>: the new chain and the priority.\<close>

fun pri_look_loop :: "kstate \<Rightarrow> oid option \<Rightarrow> nat \<Rightarrow> nat \<Rightarrow> oid list \<Rightarrow> oid list \<times> nat" where
  "pri_look_loop s mutex_rel new_pri pri [] = ([], new_pri)"
| "pri_look_loop s mutex_rel new_pri pri (m # ms) =
     (if Some m = mutex_rel then pri_look_loop s mutex_rel new_pri pri ms
      else (let pri' = (if waiters s m \<noteq> [] then prio (tasks s (hd (waiters s m))) else pri);
                r = pri_look_loop s mutex_rel (if new_pri > pri' then pri' else new_pri) pri' ms
            in (m # fst r, snd r)))"

definition mutex_pri_look :: "tid \<Rightarrow> oid option \<Rightarrow> kstate \<Rightarrow> kstate \<times> nat" where
  "mutex_pri_look task mutex_rel s =
     (let b = b_prio (tasks s task);
          r = pri_look_loop s mutex_rel b b (mutex_list (tasks s task))
      in (upd_task task (\<lambda>t. t\<lparr>mutex_list := fst r\<rparr>) s, snd r))"

text \<open>The loop of \<open>task_pri_change\<close>; running out of fuel is recorded as \<open>KHang\<close>.\<close>

fun pri_change_loop :: "nat \<Rightarrow> tid \<Rightarrow> nat \<Rightarrow> kstate \<Rightarrow> kstate \<times> kstat" where
  "pri_change_loop 0 task new_pri s = (fault KHang s, RHINO_SUCCESS)"
| "pri_change_loop (Suc n) task new_pri s =
     (if prio (tasks s task) = new_pri then (s, RHINO_SUCCESS)
      else (let st = task_state (tasks s task) in
        if st = K_RDY then
          (let s1 = ready_list_rm task s;
               s2 = upd_task task (\<lambda>t. t\<lparr>prio := new_pri\<rparr>) s1
           in (if task = g_active_task s2 then ready_list_add_head task s2
               else ready_list_add_tail task s2, RHINO_SUCCESS))
        else if st = K_SLEEP \<or> st = K_SUSPENDED \<or> st = K_SLEEP_SUSPENDED then
          (upd_task task (\<lambda>t. t\<lparr>prio := new_pri\<rparr>) s, RHINO_SUCCESS)
        else if st = K_PEND \<or> st = K_PEND_SUSPENDED then
          (let old_pri = prio (tasks s task);
               s1 = upd_task task (\<lambda>t. t\<lparr>prio := new_pri\<rparr>) s;
               s2 = pend_list_reorder task s1
           in case blk_obj (tasks s2 task) of
                None \<Rightarrow> (fault KNull s2, RHINO_SUCCESS)
              | Some ob \<Rightarrow>
                  if obj_type (blks s2 ob) = RHINO_MUTEX_OBJ_TYPE then
                    (case mutex_task (mutexes s2 ob) of
                       None \<Rightarrow> (fault KNull s2, RHINO_SUCCESS)
                     | Some mt \<Rightarrow>
                         if prio (tasks s2 mt) > prio (tasks s2 task) then pri_change_loop n mt new_pri s2
                         else if prio (tasks s2 mt) = old_pri then
                           (case mutex_pri_look mt None s2 of (s3, new_pri') \<Rightarrow>
                              if new_pri' \<noteq> prio (tasks s3 mt) then pri_change_loop n mt new_pri' s3
                              else (s3, RHINO_SUCCESS))
                         else (s2, RHINO_SUCCESS))
                  else (s2, RHINO_SUCCESS))
        else (k_err_proc RHINO_INV_TASK_STATE s, RHINO_INV_TASK_STATE)))"

definition task_pri_change :: "tid \<Rightarrow> nat \<Rightarrow> kstate \<Rightarrow> kstate \<times> kstat" where
  "task_pri_change task new_pri s =
     pri_change_loop (length (task_head (g_kobj_list s)) + 1) task new_pri s"

definition mutex_release :: "tid \<Rightarrow> oid option \<Rightarrow> kstate \<Rightarrow> kstate" where
  "mutex_release task mutex_rel s = (case mutex_pri_look task mutex_rel s of (s1, new_pri) \<Rightarrow>
     if new_pri \<noteq> prio (tasks s1 task) then fst (task_pri_change task new_pri s1) else s1)"

definition mutex_task_pri_reset :: "tid \<Rightarrow> kstate \<Rightarrow> kstate" where
  "mutex_task_pri_reset task s = (case blk_obj (tasks s task) of
     None \<Rightarrow> fault KNull s
   | Some ob \<Rightarrow>
       if obj_type (blks s ob) = RHINO_MUTEX_OBJ_TYPE then
         (case mutex_task (mutexes s ob) of
            None \<Rightarrow> fault KNull s
          | Some mt \<Rightarrow> if prio (tasks s mt) = prio (tasks s task) then mutex_release mt None s else s)
       else s)"

section \<open>Frames\<close>

lemma pri_look_loop_None: "fst (pri_look_loop s None n p ms) = ms"
  by (induction ms arbitrary: n p) (auto simp: Let_def)

lemma pri_look_loop_chain: "fst (pri_look_loop s (Some m) n p ms) = filter (\<lambda>x. x \<noteq> m) ms"
  by (induction ms arbitrary: n p) (auto simp: Let_def)

definition look_val :: "kstate \<Rightarrow> tid \<Rightarrow> nat" where
  "look_val s t = (let b = b_prio (tasks s t) in snd (pri_look_loop s None b b (mutex_list (tasks s t))))"

lemma mutex_pri_look_None [simp]: "mutex_pri_look t None s = (s, look_val s t)"
  by (simp add: mutex_pri_look_def Let_def pri_look_loop_None upd_task_def look_val_def)

declare pri_change_loop.simps(2) [simp del]

text \<open>
  \<open>forget s\<close> is the state without what a change of priorities touches: priorities, the order of
  wait lists, the run queue and the fault log. Two states that agree on it agree on the rest.
\<close>

definition forget :: "kstate \<Rightarrow> kstate" where
  "forget s = s\<lparr>tasks := \<lambda>t. (tasks s t)\<lparr>prio := 0\<rparr>, blks := \<lambda>ob. (blks s ob)\<lparr>blk_list := []\<rparr>,
     g_ready_queue := \<lparr>cur_list_item = \<lambda>p. [], task_bit_map = [], highest_pri = 0\<rparr>, k_faults := []\<rparr>"

lemma forget_prio [simp]: "forget (upd_task t (\<lambda>x. x\<lparr>prio := p\<rparr>) s) = forget s"
  by (auto simp: forget_def upd_task_def fun_eq_iff)

lemma forget_ready [simp]:
  "forget (ready_list_rm t s) = forget s" "forget (ready_list_add_head t s) = forget s"
  "forget (ready_list_add_tail t s) = forget s" "forget (ready_list_add t s) = forget s"
  by (auto simp: forget_def)

lemma forget_fault [simp]: "forget (fault f s) = forget s" "forget (k_err_proc e s) = forget s"
  by (simp_all add: forget_def fault_def k_err_proc_def)

lemma forget_task_list_rm [simp]: "forget (task_list_rm t s) = forget s"
  by (simp add: forget_def task_list_rm_def)

lemma forget_blk_list [simp]: "forget (upd_blk ob (\<lambda>b. b\<lparr>blk_list := f b\<rparr>) s) = forget s"
  by (auto simp: forget_def upd_blk_def fun_eq_iff)

lemma forget_reorder [simp]: "forget (pend_list_reorder t s) = forget s"
  by (simp add: pend_list_reorder_def Let_def split: option.split)

text \<open>The branches of one iteration, and what it does for a waiting task.\<close>

definition reprio :: "tid \<Rightarrow> nat \<Rightarrow> kstate \<Rightarrow> kstate" where
  "reprio t p s = pend_list_reorder t (upd_task t (\<lambda>x. x\<lparr>prio := p\<rparr>) s)"

lemma forget_reprio [simp]: "forget (reprio t p s) = forget s"
  by (simp add: reprio_def)

lemma pri_change_same: "prio (tasks s t) = p \<Longrightarrow> pri_change_loop (Suc n) t p s = (s, RHINO_SUCCESS)"
  by (simp add: pri_change_loop.simps(2))

lemma pri_change_rdy:
  assumes "prio (tasks s t) \<noteq> p" "task_state (tasks s t) = K_RDY"
  shows "pri_change_loop (Suc n) t p s =
    (let s2 = upd_task t (\<lambda>x. x\<lparr>prio := p\<rparr>) (ready_list_rm t s)
     in (if t = g_active_task s2 then ready_list_add_head t s2 else ready_list_add_tail t s2,
         RHINO_SUCCESS))"
  using assms by (simp add: pri_change_loop.simps(2) Let_def)

lemma pri_change_off:
  assumes "prio (tasks s t) \<noteq> p" "task_state (tasks s t) \<in> {K_SLEEP, K_SUSPENDED, K_SLEEP_SUSPENDED}"
  shows "pri_change_loop (Suc n) t p s = (upd_task t (\<lambda>x. x\<lparr>prio := p\<rparr>) s, RHINO_SUCCESS)"
  using assms by (auto simp: pri_change_loop.simps(2) Let_def)

lemma pri_change_wait:
  assumes "prio (tasks s t) \<noteq> p" "waiting (tasks s t)"
  shows "pri_change_loop (Suc n) t p s = (case blk_obj (tasks (reprio t p s) t) of
      None \<Rightarrow> (fault KNull (reprio t p s), RHINO_SUCCESS)
    | Some ob \<Rightarrow>
        if obj_type (blks (reprio t p s) ob) = RHINO_MUTEX_OBJ_TYPE then
          (case mutex_task (mutexes (reprio t p s) ob) of
             None \<Rightarrow> (fault KNull (reprio t p s), RHINO_SUCCESS)
           | Some mt \<Rightarrow>
               if prio (tasks (reprio t p s) mt) > prio (tasks (reprio t p s) t)
               then pri_change_loop n mt p (reprio t p s)
               else if prio (tasks (reprio t p s) mt) = prio (tasks s t) then
                 (if look_val (reprio t p s) mt \<noteq> prio (tasks (reprio t p s) mt)
                  then pri_change_loop n mt (look_val (reprio t p s) mt) (reprio t p s)
                  else (reprio t p s, RHINO_SUCCESS))
               else (reprio t p s, RHINO_SUCCESS))
        else (reprio t p s, RHINO_SUCCESS))"
proof -
  have "task_state (tasks s t) = K_PEND \<or> task_state (tasks s t) = K_PEND_SUSPENDED"
    using assms(2) by (simp add: waiting_def)
  then show ?thesis
    using assms(1) by (elim disjE) (simp_all only: pri_change_loop.simps(2) Let_def reprio_def
        mutex_pri_look_None prod.case if_False if_True task_stat_t.distinct simp_thms)
qed

lemma pri_change_bad:
  assumes "prio (tasks s t) \<noteq> p" "task_state (tasks s t) \<in> {K_SEED, K_DELETED}"
  shows "pri_change_loop (Suc n) t p s = (k_err_proc RHINO_INV_TASK_STATE s, RHINO_INV_TASK_STATE)"
  using assms by (auto simp: pri_change_loop.simps(2) Let_def)

lemma task_cases:
  obtains "task_state x = K_RDY" | "task_state x \<in> {K_SLEEP, K_SUSPENDED, K_SLEEP_SUSPENDED}"
    | "waiting x" | "task_state x \<in> {K_SEED, K_DELETED}"
  unfolding waiting_def by (cases "task_state x") auto

lemma forget_pri_change_loop [simp]: "forget (fst (pri_change_loop n t p s)) = forget s"
proof (induction n arbitrary: t p s)
  case (Suc n)
  show ?case
  proof (cases "prio (tasks s t) = p")
    case False
    show ?thesis
    proof (cases rule: task_cases [of "tasks s t"])
      case 3
      then show ?thesis
        by (simp add: pri_change_wait [OF False] Suc.IH split: option.split)
    qed (use False in \<open>simp_all add: pri_change_rdy pri_change_off pri_change_bad Let_def\<close>)
  qed (simp add: pri_change_same)
qed simp

lemma forget_task_pri_change [simp]: "forget (fst (task_pri_change t p s)) = forget s"
  by (simp add: task_pri_change_def)

lemma forget_fields:
  assumes "forget s' = forget s"
  shows
    "sems s' = sems s" "mutexes s' = mutexes s" "events s' = events s" "queues s' = queues s"
    "buf_queues s' = buf_queues s" "g_kobj_list s' = g_kobj_list s"
    "g_tick_head s' = g_tick_head s" "g_tick_count s' = g_tick_count s"
    "g_active_task s' = g_active_task s" "g_preferred_ready_task s' = g_preferred_ready_task s"
    "g_sched_lock s' = g_sched_lock s" "g_intrpt_nested_level s' = g_intrpt_nested_level s"
    "g_sys_stat s' = g_sys_stat s" "g_idle_task_spawned s' = g_idle_task_spawned s"
    "g_res_list s' = g_res_list s" "mm_freed s' = mm_freed s" "irq_off s' = irq_off s"
    "tspend s' = tspend s"
  using
    arg_cong [OF assms, of sems] arg_cong [OF assms, of mutexes] arg_cong [OF assms, of events]
    arg_cong [OF assms, of queues] arg_cong [OF assms, of buf_queues]
    arg_cong [OF assms, of g_kobj_list] arg_cong [OF assms, of g_tick_head]
    arg_cong [OF assms, of g_tick_count] arg_cong [OF assms, of g_active_task]
    arg_cong [OF assms, of g_preferred_ready_task] arg_cong [OF assms, of g_sched_lock]
    arg_cong [OF assms, of g_intrpt_nested_level] arg_cong [OF assms, of g_sys_stat]
    arg_cong [OF assms, of g_idle_task_spawned] arg_cong [OF assms, of g_res_list]
    arg_cong [OF assms, of mm_freed] arg_cong [OF assms, of irq_off]
    arg_cong [OF assms, of tspend]
  by (simp_all add: forget_def)

lemma forget_tasks:
  assumes "forget s' = forget s"
  shows
    "suspend_count (tasks s' t) = suspend_count (tasks s t)"
    "mutex_list (tasks s' t) = mutex_list (tasks s t)"
    "tick_match (tasks s' t) = tick_match (tasks s t)"
    "tick_remain (tasks s' t) = tick_remain (tasks s t)"
    "tick_head (tasks s' t) = tick_head (tasks s t)" "msg (tasks s' t) = msg (tasks s t)"
    "bq_msg_size (tasks s' t) = bq_msg_size (tasks s t)"
    "task_state (tasks s' t) = task_state (tasks s t)"
    "blk_state (tasks s' t) = blk_state (tasks s t)" "blk_obj (tasks s' t) = blk_obj (tasks s t)"
    "task_sem_obj (tasks s' t) = task_sem_obj (tasks s t)"
    "task_time_slice (tasks s' t) = task_time_slice (tasks s t)"
    "time_total (tasks s' t) = time_total (tasks s t)"
    "pend_flags (tasks s' t) = pend_flags (tasks s t)"
    "pend_info (tasks s' t) = pend_info (tasks s t)"
    "pend_option (tasks s' t) = pend_option (tasks s t)"
    "sched_policy (tasks s' t) = sched_policy (tasks s t)"
    "b_prio (tasks s' t) = b_prio (tasks s t)"
    "task_mm_alloc_flag (tasks s' t) = task_mm_alloc_flag (tasks s t)"
    "runtime (tasks s' t) = runtime (tasks s t)"
  using
    arg_cong [OF assms, of "\<lambda>s. suspend_count (tasks s t)"]
    arg_cong [OF assms, of "\<lambda>s. mutex_list (tasks s t)"]
    arg_cong [OF assms, of "\<lambda>s. tick_match (tasks s t)"]
    arg_cong [OF assms, of "\<lambda>s. tick_remain (tasks s t)"]
    arg_cong [OF assms, of "\<lambda>s. tick_head (tasks s t)"]
    arg_cong [OF assms, of "\<lambda>s. msg (tasks s t)"]
    arg_cong [OF assms, of "\<lambda>s. bq_msg_size (tasks s t)"]
    arg_cong [OF assms, of "\<lambda>s. task_state (tasks s t)"]
    arg_cong [OF assms, of "\<lambda>s. blk_state (tasks s t)"]
    arg_cong [OF assms, of "\<lambda>s. blk_obj (tasks s t)"]
    arg_cong [OF assms, of "\<lambda>s. task_sem_obj (tasks s t)"]
    arg_cong [OF assms, of "\<lambda>s. task_time_slice (tasks s t)"]
    arg_cong [OF assms, of "\<lambda>s. time_total (tasks s t)"]
    arg_cong [OF assms, of "\<lambda>s. pend_flags (tasks s t)"]
    arg_cong [OF assms, of "\<lambda>s. pend_info (tasks s t)"]
    arg_cong [OF assms, of "\<lambda>s. pend_option (tasks s t)"]
    arg_cong [OF assms, of "\<lambda>s. sched_policy (tasks s t)"]
    arg_cong [OF assms, of "\<lambda>s. b_prio (tasks s t)"]
    arg_cong [OF assms, of "\<lambda>s. task_mm_alloc_flag (tasks s t)"]
    arg_cong [OF assms, of "\<lambda>s. runtime (tasks s t)"]
  by (simp_all add: forget_def)

lemma forget_blks:
  assumes "forget s' = forget s"
  shows "obj_type (blks s' ob) = obj_type (blks s ob)" "blk_policy (blks s' ob) = blk_policy (blks s ob)"
  using arg_cong [OF assms, of "\<lambda>s. obj_type (blks s ob)"]
    arg_cong [OF assms, of "\<lambda>s. blk_policy (blks s ob)"] by (simp_all add: forget_def)

section \<open>Effective priorities\<close>

text \<open>\<open>donors s t\<close>: the tasks that wait for a mutex of \<open>t\<close>.\<close>

definition donors :: "kstate \<Rightarrow> tid \<Rightarrow> tid set" where
  "donors s t = (\<Union>m \<in> set (mutex_list (tasks s t)). set (waiters s m))"

definition is_eff :: "(tid \<Rightarrow> nat) \<Rightarrow> kstate \<Rightarrow> tid \<Rightarrow> nat \<Rightarrow> bool" where
  "is_eff B s t p \<longleftrightarrow> p \<le> B t \<and> (\<forall>u \<in> donors s t. p \<le> prio (tasks s u))
     \<and> (p = B t \<or> (\<exists>u \<in> donors s t. p = prio (tasks s u)))"

abbreviation base :: "kstate \<Rightarrow> tid \<Rightarrow> nat" where
  "base s \<equiv> \<lambda>t. b_prio (tasks s t)"

lemma is_eff_unique: "is_eff B s t p \<Longrightarrow> is_eff B s t q \<Longrightarrow> p = q"
  unfolding is_eff_def by (metis le_antisym)

lemma is_eff_cong:
  "B' t = B t \<Longrightarrow> donors s' t = donors s t \<Longrightarrow>
    (\<And>u. u \<in> donors s t \<Longrightarrow> prio (tasks s' u) = prio (tasks s u)) \<Longrightarrow> is_eff B' s' t p \<longleftrightarrow> is_eff B s t p"
  by (auto simp: is_eff_def)

definition prio_sorted :: "kstate \<Rightarrow> oid \<Rightarrow> bool" where
  "prio_sorted s m \<longleftrightarrow> sorted_wrt (\<lambda>a b. prio (tasks s a) \<le> prio (tasks s b)) (waiters s m)"

lemma prio_sorted_hd:
  "prio_sorted s m \<Longrightarrow> u \<in> set (waiters s m) \<Longrightarrow> prio (tasks s (hd (waiters s m))) \<le> prio (tasks s u)"
  unfolding prio_sorted_def by (rule sorted_wrt_hd_least)

text \<open>The walk over the owned mutexes computes the least priority number of all their waiters.\<close>

lemma pri_look_loop_spec:
  assumes "\<And>m. m \<in> set ms \<Longrightarrow> prio_sorted s m" "n \<le> p"
  shows "snd (pri_look_loop s rel n p ms) \<le> n"
    "\<And>m u. m \<in> set ms \<Longrightarrow> Some m \<noteq> rel \<Longrightarrow> u \<in> set (waiters s m)
      \<Longrightarrow> snd (pri_look_loop s rel n p ms) \<le> prio (tasks s u)"
    "snd (pri_look_loop s rel n p ms) = n \<or> (\<exists>m\<in>set ms. Some m \<noteq> rel
      \<and> (\<exists>u\<in>set (waiters s m). snd (pri_look_loop s rel n p ms) = prio (tasks s u)))"
proof -
  have "snd (pri_look_loop s rel n p ms) \<le> n
    \<and> (\<forall>m\<in>set ms. Some m \<noteq> rel \<longrightarrow> (\<forall>u\<in>set (waiters s m).
         snd (pri_look_loop s rel n p ms) \<le> prio (tasks s u)))
    \<and> (snd (pri_look_loop s rel n p ms) = n \<or> (\<exists>m\<in>set ms. Some m \<noteq> rel
      \<and> (\<exists>u\<in>set (waiters s m). snd (pri_look_loop s rel n p ms) = prio (tasks s u))))"
    using assms
  proof (induction ms arbitrary: n p)
    case (Cons m ms)
    show ?case
    proof (cases "Some m = rel")
      case True
      then show ?thesis using Cons.IH [of n p] Cons.prems by auto
    next
      case False
      define p' where "p' = (if waiters s m \<noteq> [] then prio (tasks s (hd (waiters s m))) else p)"
      define n' where "n' = (if n > p' then p' else n)"
      have r: "snd (pri_look_loop s rel n p (m # ms)) = snd (pri_look_loop s rel n' p' ms)"
        using False by (simp add: Let_def p'_def n'_def)
      have n': "n' \<le> n" "n' \<le> p'" by (auto simp: n'_def)
      have w: "\<forall>u\<in>set (waiters s m). n' \<le> prio (tasks s u)"
      proof
        fix u assume u: "u \<in> set (waiters s m)"
        then have "p' = prio (tasks s (hd (waiters s m)))" by (auto simp: p'_def)
        also have "\<dots> \<le> prio (tasks s u)" using prio_sorted_hd u Cons.prems(1) by simp
        finally show "n' \<le> prio (tasks s u)" using n'(2) by simp
      qed
      have at: "n' = n \<or> (\<exists>u\<in>set (waiters s m). n' = prio (tasks s u))"
        using Cons.prems(2) by (auto simp: n'_def p'_def intro!: bexI [of _ "hd (waiters s m)"])
      let ?r = "snd (pri_look_loop s rel n' p' ms)"
      from Cons.IH [of n' p'] Cons.prems n' have IH: "?r \<le> n'"
        "\<forall>m\<in>set ms. Some m \<noteq> rel \<longrightarrow> (\<forall>u\<in>set (waiters s m). ?r \<le> prio (tasks s u))"
        "?r = n' \<or> (\<exists>m\<in>set ms. Some m \<noteq> rel \<and> (\<exists>u\<in>set (waiters s m). ?r = prio (tasks s u)))"
        by auto
      have "?r \<le> n" using IH(1) n'(1) by linarith
      moreover have "\<forall>u\<in>set (waiters s m). ?r \<le> prio (tasks s u)" using IH(1) w le_trans by blast
      moreover have "?r = n \<or> (\<exists>x\<in>set (m # ms). Some x \<noteq> rel
          \<and> (\<exists>u\<in>set (waiters s x). ?r = prio (tasks s u)))"
        using IH(3) at False by (metis list.set_intros)
      ultimately show ?thesis unfolding r using IH(2) by simp
    qed
  qed simp
  then show "snd (pri_look_loop s rel n p ms) \<le> n"
    "\<And>m u. m \<in> set ms \<Longrightarrow> Some m \<noteq> rel \<Longrightarrow> u \<in> set (waiters s m)
      \<Longrightarrow> snd (pri_look_loop s rel n p ms) \<le> prio (tasks s u)"
    "snd (pri_look_loop s rel n p ms) = n \<or> (\<exists>m\<in>set ms. Some m \<noteq> rel
      \<and> (\<exists>u\<in>set (waiters s m). snd (pri_look_loop s rel n p ms) = prio (tasks s u)))"
    by blast+
qed

lemma look_val_eff:
  assumes "\<And>m. m \<in> set (mutex_list (tasks s t)) \<Longrightarrow> prio_sorted s m"
  shows "is_eff (base s) s t (look_val s t)"
  using pri_look_loop_spec [where ms = "mutex_list (tasks s t)" and n = "b_prio (tasks s t)" and rel = None,
      OF assms order_refl]
  by (fastforce simp: is_eff_def donors_def look_val_def Let_def)

lemma look_rel_eff:
  assumes "\<And>m. m \<in> set (mutex_list (tasks s t)) \<Longrightarrow> prio_sorted s m"
  shows "is_eff (base s) (fst (mutex_pri_look t (Some r) s)) t (snd (mutex_pri_look t (Some r) s))"
proof -
  let ?s = "fst (mutex_pri_look t (Some r) s)"
  have d: "donors ?s t = (\<Union>m \<in> {m \<in> set (mutex_list (tasks s t)). m \<noteq> r}. set (waiters s m))"
    by (simp add: donors_def mutex_pri_look_def Let_def pri_look_loop_chain)
  have p: "prio (tasks ?s u) = prio (tasks s u)" for u
    by (simp add: mutex_pri_look_def Let_def)
  have "snd (mutex_pri_look t (Some r) s)
      = snd (pri_look_loop s (Some r) (b_prio (tasks s t)) (b_prio (tasks s t)) (mutex_list (tasks s t)))"
    by (simp add: mutex_pri_look_def Let_def)
  with pri_look_loop_spec [where ms = "mutex_list (tasks s t)" and n = "b_prio (tasks s t)"
      and rel = "Some r" and s = s and p = "b_prio (tasks s t)"] assms
  show ?thesis unfolding is_eff_def d p by auto
qed

lemma pri_limit_loop_look: "pri_limit_loop s n p ms = snd (pri_look_loop s None n p ms)"
  by (induction ms arbitrary: n p) (simp_all add: Let_def)

lemma mutex_pri_limit_eff:
  assumes "\<And>m. m \<in> set (mutex_list (tasks s t)) \<Longrightarrow> prio_sorted s m"
  shows "is_eff ((base s)(t := p)) s t (mutex_pri_limit t p s)"
  using pri_look_loop_spec [where ms = "mutex_list (tasks s t)" and n = p and rel = None,
      OF assms order_refl]
  by (fastforce simp: is_eff_def donors_def mutex_pri_limit_def pri_limit_loop_look)

section \<open>The structure a priority change relies on\<close>

definition mutex_ok :: "tid set \<Rightarrow> kstate \<Rightarrow> bool" where
  "mutex_ok T s \<longleftrightarrow>
     (\<forall>t\<in>T. distinct (mutex_list (tasks s t)) \<and> (\<forall>m. m \<in> set (mutex_list (tasks s t))
        \<longleftrightarrow> obj_type (blks s m) = RHINO_MUTEX_OBJ_TYPE \<and> mutex_task (mutexes s m) = Some t))
     \<and> (\<forall>m. obj_type (blks s m) = RHINO_MUTEX_OBJ_TYPE \<longrightarrow> blk_policy (blks s m) = BLK_POLICY_PRI
        \<and> (waiters s m \<noteq> [] \<longrightarrow> mutex_task (mutexes s m) \<noteq> None)
        \<and> (\<forall>t. mutex_task (mutexes s m) = Some t
             \<longrightarrow> t \<in> T \<and> t \<notin> set (waiters s m) \<and> owner_nested (mutexes s m) > 0))"

definition core :: "tid set \<Rightarrow> kstate \<Rightarrow> bool" where
  "core T s \<longleftrightarrow> rq_inv {t \<in> T. task_state (tasks s t) = K_RDY} s
     \<and> wait_inv {t \<in> T. waiting (tasks s t)} s \<and> mutex_ok T s
     \<and> (\<forall>t\<in>T. task_state (tasks s t) \<notin> {K_SEED, K_DELETED} \<and> prio (tasks s t) < 62
           \<and> b_prio (tasks s t) < 62)
     \<and> g_idle_task \<in> T \<and> task_state (tasks s g_idle_task) = K_RDY
     \<and> mutex_list (tasks s g_idle_task) = []"

lemma mutex_ok_cong:
  assumes "\<And>m. obj_type (blks s' m) = obj_type (blks s m) \<and> blk_policy (blks s' m) = blk_policy (blks s m)
      \<and> set (waiters s' m) = set (waiters s m)"
    "mutexes s' = mutexes s" "\<And>t. t \<in> T \<Longrightarrow> mutex_list (tasks s' t) = mutex_list (tasks s t)"
  shows "mutex_ok T s' \<longleftrightarrow> mutex_ok T s"
proof -
  have "waiters s' m = [] \<longleftrightarrow> waiters s m = []" for m
    using assms(1) by (metis set_empty)
  then show ?thesis using assms by (simp add: mutex_ok_def)
qed

lemma core_sorted: "core T s \<Longrightarrow> obj_type (blks s m) = RHINO_MUTEX_OBJ_TYPE \<Longrightarrow> prio_sorted s m"
  by (simp add: core_def prio_sorted_def wait_inv_def mutex_ok_def)

lemma core_owned:
  "core T s \<Longrightarrow> t \<in> T \<Longrightarrow> m \<in> set (mutex_list (tasks s t))
    \<longleftrightarrow> obj_type (blks s m) = RHINO_MUTEX_OBJ_TYPE \<and> mutex_task (mutexes s m) = Some t"
  by (simp add: core_def mutex_ok_def)

lemma core_owned_sorted: "core T s \<Longrightarrow> t \<in> T \<Longrightarrow> m \<in> set (mutex_list (tasks s t)) \<Longrightarrow> prio_sorted s m"
  using core_owned core_sorted by blast

lemma core_waiter:
  assumes "core T s"
  shows "u \<in> set (waiters s m) \<longleftrightarrow> u \<in> T \<and> waiting (tasks s u) \<and> blk_obj (tasks s u) = Some m"
  using assms wait_inv_mem [of "{t \<in> T. waiting (tasks s t)}" s u m] by (simp add: core_def)

lemma core_donor:
  assumes "core T s" "x \<in> T"
  shows "u \<in> donors s x \<longleftrightarrow> u \<in> T \<and> waiting (tasks s u) \<and> (\<exists>m. blk_obj (tasks s u) = Some m
      \<and> obj_type (blks s m) = RHINO_MUTEX_OBJ_TYPE \<and> mutex_task (mutexes s m) = Some x)"
  using core_waiter [OF assms(1)] core_owned [OF assms] by (auto simp: donors_def)

lemma core_blk_obj: "core T s \<Longrightarrow> t \<in> T \<Longrightarrow> waiting (tasks s t) \<Longrightarrow> \<exists>ob. blk_obj (tasks s t) = Some ob"
  by (auto simp: core_def wait_inv_def)

lemma core_owner:
  assumes "core T s" "t \<in> T" "waiting (tasks s t)" "blk_obj (tasks s t) = Some m"
    "obj_type (blks s m) = RHINO_MUTEX_OBJ_TYPE"
  obtains x where "mutex_task (mutexes s m) = Some x" "x \<in> T" "x \<noteq> t" "x \<noteq> g_idle_task"
proof -
  have w: "t \<in> set (waiters s m)" using core_waiter [OF assms(1)] assms by simp
  then have "waiters s m \<noteq> []" by auto
  then obtain x where x: "mutex_task (mutexes s m) = Some x" "x \<in> T" "x \<notin> set (waiters s m)"
    using assms(1,5) by (auto simp: core_def mutex_ok_def)
  moreover have "x \<noteq> g_idle_task"
    using core_owned [OF assms(1) x(2), of m] assms x(1) by (auto simp: core_def)
  ultimately show ?thesis using that w by blast
qed

section \<open>One iteration\<close>

lemma core_set_prio:
  assumes c: "core T s" and t: "t \<in> T" "task_state (tasks s t) \<noteq> K_RDY" "\<not> waiting (tasks s t)"
    and p: "p < 62"
  shows "core T (upd_task t (\<lambda>x. x\<lparr>prio := p\<rparr>) s)"
proof -
  let ?s = "upd_task t (\<lambda>x. x\<lparr>prio := p\<rparr>) s"
  have R: "{u \<in> T. task_state (tasks ?s u) = K_RDY} = {u \<in> T. task_state (tasks s u) = K_RDY}"
    "{u \<in> T. waiting (tasks ?s u)} = {u \<in> T. waiting (tasks s u)}"
    by (auto simp: waiting_def)
  have "rq_inv {u \<in> T. task_state (tasks s u) = K_RDY} ?s"
    using c t by (subst rq_inv_cong [of ?s s]) (auto simp: core_def)
  moreover have "wait_inv {u \<in> T. waiting (tasks s u)} ?s"
    using c t by (subst wait_inv_cong [of ?s s]) (auto simp: core_def)
  moreover have "mutex_ok T ?s" using c by (subst mutex_ok_cong [of ?s s]) (auto simp: core_def)
  ultimately show ?thesis using c p unfolding core_def R by simp
qed

lemma reprio_tasks: "tasks (reprio t p s) = (tasks s)(t := (tasks s t)\<lparr>prio := p\<rparr>)"
  by (simp add: reprio_def) (simp add: upd_task_def)

lemma reprio_spec:
  assumes c: "core T s" and t: "t \<in> T" "waiting (tasks s t)" and p: "p < 62"
  shows "core T (reprio t p s)" "k_faults (reprio t p s) = k_faults s"
    "\<And>m. set (waiters (reprio t p s) m) = set (waiters s m)"
    "\<And>x. donors (reprio t p s) x = donors s x"
proof -
  let ?s1 = "upd_task t (\<lambda>x. x\<lparr>prio := p\<rparr>) s" and ?s = "reprio t p s"
  let ?W = "{u \<in> T. waiting (tasks s u)}" and ?R = "{u \<in> T. task_state (tasks s u) = K_RDY}"
  have W: "wait_inv ?W s" and R: "rq_inv ?R s" using c by (auto simp: core_def)
  obtain ob where ob: "blk_obj (tasks s t) = Some ob" using core_blk_obj [OF c t] by blast
  have tW: "t \<in> ?W" using t by simp
  have "wait_inv ?W ?s"
  proof (cases "blk_policy (blks s ob) = BLK_POLICY_PRI")
    case True
    let ?s2 = "task_list_rm t ?s1"
    have "wait_inv (?W - {t}) ?s2"
      using wait_inv_rm [OF W] by (subst wait_inv_cong [of ?s2 "task_list_rm t s"]) auto
    from wait_inv_pri_add [OF this, of t ob p] ob
    have "wait_inv (insert t (?W - {t})) (upd_blk ob (\<lambda>b. b\<lparr>blk_list := pend_list_add ?s2 p t (blk_list b)\<rparr>) ?s2)"
      by simp
    moreover have "insert t (?W - {t}) = ?W" using tW by auto
    ultimately show ?thesis
      using True ob by (simp add: reprio_def pend_list_reorder_def Let_def)
  next
    case False
    then have e: "?s = ?s1" using ob by (simp add: reprio_def pend_list_reorder_def)
    have "x = ob" if "t \<in> set (waiters s x)" for x
      using that wait_inv_mem [OF W] ob by simp
    then have "sorted_wrt (\<lambda>a b. prio (tasks ?s1 a) \<le> prio (tasks ?s1 b)) (waiters s x)"
      if "blk_policy (blks s x) = BLK_POLICY_PRI" for x
      using wait_inv_sorted [OF W that] False that
      by (subst sorted_wrt_key_cong [of _ _ "\<lambda>u. prio (tasks s u)"]) auto
    then show ?thesis unfolding e using W by (auto simp: wait_inv_def)
  qed
  moreover have "?W = {u \<in> T. waiting (tasks ?s u)}" "?R = {u \<in> T. task_state (tasks ?s u) = K_RDY}"
    by (auto simp: reprio_tasks waiting_def)
  moreover have "rq_inv ?R ?s"
    using R t(2) by (subst rq_inv_cong [of ?s s]) (auto simp: reprio_tasks reprio_def waiting_def)
  moreover show w: "set (waiters ?s m) = set (waiters s m)" for m
    using wait_inv_mem [OF W] wait_inv_mem [OF \<open>wait_inv ?W ?s\<close>]
    by (auto simp: reprio_tasks split: if_splits)
  moreover have "mutex_ok T ?s"
    using c w forget_blks [OF forget_reprio] forget_fields(2) [OF forget_reprio]
      forget_tasks(2) [OF forget_reprio]
    by (subst mutex_ok_cong [of ?s s]) (auto simp: core_def)
  ultimately show "core T ?s"
    using c p by (auto simp: core_def reprio_tasks)
  show "k_faults ?s = k_faults s" using ob by (simp add: reprio_def pend_list_reorder_def Let_def)
  show "donors ?s x = donors s x" for x
    using w by (simp add: donors_def forget_tasks(2) [OF forget_reprio])
qed

text \<open>A ready task moves between two ready lists; it waits for nothing, so no other task is concerned.\<close>

lemma pri_change_rdy_spec:
  assumes rq: "rq_inv R s" "t \<in> R" "R - {t} \<noteq> {}" and p: "p < 62"
    and n: "prio (tasks s t) \<noteq> p" "task_state (tasks s t) = K_RDY"
    and r: "r = pri_change_loop (Suc n) t p s"
  shows "rq_inv R (fst r)" "tasks (fst r) = (tasks s)(t := (tasks s t)\<lparr>prio := p\<rparr>)"
    "k_faults (fst r) = k_faults s" "snd r = RHINO_SUCCESS" "blks (fst r) = blks s"
proof -
  define s2 where "s2 = upd_task t (\<lambda>x. x\<lparr>prio := p\<rparr>) (ready_list_rm t s)"
  note rm = rq_inv_rm [OF rq]
  have "rq_inv (R - {t}) s2" using rm(1) by (subst rq_inv_cong [of s2 "ready_list_rm t s"]) (auto simp: s2_def)
  moreover have "prio (tasks s2 t) < 62" using p by (simp add: s2_def)
  moreover have "insert t (R - {t}) = R" using rq(2) by auto
  ultimately have add: "rq_inv R (ready_list_add_head t s2)" "rq_inv R (ready_list_add_tail t s2)"
    using rq_inv_add_head [of "R - {t}" s2 t] rq_inv_add_tail [of "R - {t}" s2 t] by auto
  have e: "r = (if t = g_active_task s2 then ready_list_add_head t s2 else ready_list_add_tail t s2,
      RHINO_SUCCESS)"
    unfolding r pri_change_rdy [OF n] Let_def s2_def by simp
  show "rq_inv R (fst r)" "k_faults (fst r) = k_faults s" "snd r = RHINO_SUCCESS" "blks (fst r) = blks s"
    using add rm(2) by (auto simp: e s2_def)
  show "tasks (fst r) = (tasks s)(t := (tasks s t)\<lparr>prio := p\<rparr>)"
    by (simp add: e s2_def) (simp add: upd_task_def)
qed

section \<open>The whole chain\<close>

text \<open>
  The tasks a run of the loop can still visit: while priorities are raised, those below the new
  priority; while one is lowered, those at the old priority. Each iteration removes one.
\<close>

definition pri_measure :: "tid set \<Rightarrow> kstate \<Rightarrow> tid \<Rightarrow> nat \<Rightarrow> nat" where
  "pri_measure T s t p = card {x \<in> T. if p < prio (tasks s t) then p < prio (tasks s x)
     else prio (tasks s x) = prio (tasks s t)}"

lemma pri_measure_le: "finite T \<Longrightarrow> pri_measure T s t p \<le> card T"
  by (simp add: pri_measure_def card_mono)

lemma pri_measure_raise:
  assumes "finite T" "t \<in> T" "p < prio (tasks s t)" "p < prio (tasks (reprio t p s) mt)"
  shows "pri_measure T (reprio t p s) mt p < pri_measure T s t p"
  unfolding pri_measure_def using assms
  by (intro psubset_card_mono) (auto simp: reprio_tasks psubset_eq split: if_splits)

lemma pri_measure_lower:
  assumes "finite T" "t \<in> T" "mt \<noteq> t" "prio (tasks s t) < p" "prio (tasks s mt) = prio (tasks s t)"
    "prio (tasks s t) \<le> q"
  shows "pri_measure T (reprio t p s) mt q < pri_measure T s t p"
  unfolding pri_measure_def using assms
  by (intro psubset_card_mono) (auto simp: reprio_tasks psubset_eq split: if_splits)

lemma pri_measure_pos:
  assumes "finite T" "t \<in> T" "prio (tasks s t) \<noteq> p"
  shows "0 < pri_measure T s t p"
  unfolding pri_measure_def using assms by (auto simp: card_gt_0_iff)

text \<open>
  The effect of one priority change on the owner of the mutex the task waits for. All other tasks
  keep their effective priority.
\<close>

lemma eff_other:
  assumes "core T s" "t \<in> T" "waiting (tasks s t)" "p < 62" "t \<notin> donors s x"
  shows "is_eff B (reprio t p s) x q \<longleftrightarrow> is_eff B s x q"
  using reprio_spec(4) [OF assms(1-4)] assms(5)
  by (intro is_eff_cong) (auto simp: reprio_tasks)

lemma eff_owner_raised:
  assumes c: "core T s" and t: "t \<in> T" "waiting (tasks s t)" "p < 62"
    and d: "t \<in> donors s x" and e: "is_eff B s x q" and r: "p < q"
  shows "is_eff B (reprio t p s) x p"
  using e r d reprio_spec(4) [OF c t] by (auto simp: is_eff_def reprio_tasks)

lemma eff_owner_same:
  assumes c: "core T s" and t: "t \<in> T" "waiting (tasks s t)" "p < 62"
    and d: "t \<in> donors s x" and e: "is_eff B s x q" and r: "q \<le> p" "q \<noteq> prio (tasks s t)"
  shows "is_eff B (reprio t p s) x q"
  using e r d reprio_spec(4) [OF c t] by (auto simp: is_eff_def reprio_tasks)

lemma eff_owner_lowered:
  assumes c: "core T s" and t: "t \<in> T" "waiting (tasks s t)" "p < 62"
    and e: "is_eff B s x q" "is_eff B (reprio t p s) x q'" and l: "prio (tasks s t) < p"
  shows "q \<le> q'"
  using e l reprio_spec(4) [OF c t] by (fastforce simp: is_eff_def reprio_tasks split: if_splits)

definition all_eff :: "(tid \<Rightarrow> nat) \<Rightarrow> tid set \<Rightarrow> kstate \<Rightarrow> bool" where
  "all_eff B T s \<longleftrightarrow> (\<forall>x\<in>T. is_eff B s x (prio (tasks s x)))"

lemma is_eff_not_donor:
  assumes "t \<notin> donors s x" "x \<noteq> t"
  shows "is_eff B (upd_task t (\<lambda>x. x\<lparr>prio := p\<rparr>) s) x q \<longleftrightarrow> is_eff B s x q"
  using assms by (intro is_eff_cong) (auto simp: donors_def)

lemma core_upd_prio_rdy:
  assumes c: "core T s" and t: "t \<in> T" "task_state (tasks s t) = K_RDY" and p: "p < 62"
    and rq: "rq_inv {u \<in> T. task_state (tasks s u) = K_RDY} s'"
    and s': "tasks s' = (tasks s)(t := (tasks s t)\<lparr>prio := p\<rparr>)" "blks s' = blks s" "mutexes s' = mutexes s"
  shows "core T s'"
proof -
  have "{u \<in> T. task_state (tasks s' u) = K_RDY} = {u \<in> T. task_state (tasks s u) = K_RDY}"
    "{u \<in> T. waiting (tasks s' u)} = {u \<in> T. waiting (tasks s u)}"
    by (auto simp: s'(1) waiting_def)
  moreover have "wait_inv {u \<in> T. waiting (tasks s u)} s'"
    using c t by (subst wait_inv_cong [of s' s]) (auto simp: core_def s' waiting_def)
  moreover have "mutex_ok T s'" using c by (subst mutex_ok_cong [of s' s]) (auto simp: core_def s')
  ultimately show ?thesis using c p rq by (simp add: core_def s'(1))
qed

lemma pri_change_loop_spec:
  assumes "core T s" "finite T" "t \<in> T" "t \<noteq> g_idle_task" "p < 62"
    "\<And>x. x \<in> T \<Longrightarrow> x \<noteq> t \<Longrightarrow> is_eff B s x (prio (tasks s x))" "is_eff B s t p"
    "prio (tasks s t) < p \<Longrightarrow> \<forall>x\<in>T. B x = base s x"
    "0 < n" "pri_measure T s t p \<le> n"
  shows "core T (fst (pri_change_loop n t p s)) \<and> all_eff B T (fst (pri_change_loop n t p s))
    \<and> snd (pri_change_loop n t p s) = RHINO_SUCCESS
    \<and> k_faults (fst (pri_change_loop n t p s)) = k_faults s"
  using assms
proof (induction n arbitrary: t p s)
  case (Suc n)
  note c = Suc.prems(1) and fin = Suc.prems(2) and tT = Suc.prems(3) and ti = Suc.prems(4)
    and p = Suc.prems(5) and H = Suc.prems(6) and E = Suc.prems(7) and B = Suc.prems(8)
  let ?R = "{u \<in> T. task_state (tasks s u) = K_RDY}"
  show ?case
  proof (cases "prio (tasks s t) = p")
    case True
    then show ?thesis using c H E by (auto simp: pri_change_same all_eff_def)
  next
    case False
    show ?thesis
    proof (cases rule: task_cases [of "tasks s t"])
      case 1
      let ?r = "pri_change_loop (Suc n) t p s"
      have R: "rq_inv ?R s" "t \<in> ?R" "?R - {t} \<noteq> {}" using c tT 1 ti by (auto simp: core_def)
      note r = pri_change_rdy_spec [OF R p False 1 refl, of n]
      have "core T (fst ?r)"
        using core_upd_prio_rdy [OF c tT 1 p r(1,2,5)] forget_fields(2) [OF forget_pri_change_loop] by blast
      moreover have "is_eff B (fst ?r) x (prio (tasks (fst ?r) x))" if x: "x \<in> T" for x
      proof -
        have "t \<notin> donors s x" using core_donor [OF c x] 1 by (simp add: waiting_def)
        then have "is_eff B (fst ?r) x q \<longleftrightarrow> is_eff B s x q" for q
          using r(2,5) by (intro is_eff_cong) (auto simp: donors_def)
        then show ?thesis using H E x r(2) by (cases "x = t") auto
      qed
      ultimately show ?thesis using r by (simp add: all_eff_def)
    next
      case 2
      then have nw: "task_state (tasks s t) \<noteq> K_RDY" "\<not> waiting (tasks s t)" by (auto simp: waiting_def)
      have "is_eff B (upd_task t (\<lambda>x. x\<lparr>prio := p\<rparr>) s) x
          (prio (tasks (upd_task t (\<lambda>x. x\<lparr>prio := p\<rparr>) s) x))" if x: "x \<in> T" for x
      proof -
        have "t \<notin> donors s x" using core_donor [OF c x] nw by simp
        then have "is_eff B (upd_task t (\<lambda>x. x\<lparr>prio := p\<rparr>) s) x q \<longleftrightarrow> is_eff B s x q" for q
          by (intro is_eff_cong) (auto simp: donors_def)
        then show ?thesis using H E x by (cases "x = t") auto
      qed
      then show ?thesis
        using core_set_prio [OF c tT nw p] by (simp add: pri_change_off [OF False 2] all_eff_def)
    next
      case 3
      note w = tT 3 p
      let ?s = "reprio t p s"
      note sp = reprio_spec [OF c w]
      obtain ob where ob: "blk_obj (tasks s t) = Some ob" using core_blk_obj [OF c tT 3] by blast
      have fr: "blk_obj (tasks ?s t) = Some ob" "obj_type (blks ?s ob) = obj_type (blks s ob)"
        "mutexes ?s = mutexes s"
        using ob forget_blks [OF forget_reprio] forget_fields(2) [OF forget_reprio]
        by (auto simp: reprio_tasks)
      have Et: "is_eff B ?s t (prio (tasks ?s t))" if "t \<notin> donors s t"
        using E eff_other [OF c w that] by (simp add: reprio_tasks)
      show ?thesis
      proof (cases "obj_type (blks s ob) = RHINO_MUTEX_OBJ_TYPE")
        case mx: False
        have "t \<notin> donors s x" if "x \<in> T" for x using core_donor [OF c that] ob mx by simp
        then have "all_eff B T ?s"
          using H Et eff_other [OF c w] tT by (auto simp: all_eff_def reprio_tasks)
        then show ?thesis using sp fr mx by (simp add: pri_change_wait [OF False 3])
      next
        case mx: True
        obtain mt where mt: "mutex_task (mutexes s ob) = Some mt" "mt \<in> T" "mt \<noteq> t" "mt \<noteq> g_idle_task"
          using core_owner [OF c tT 3 ob mx] by blast
        have dn: "t \<in> donors s x \<longleftrightarrow> x = mt" if "x \<in> T" for x
          using core_donor [OF c that] ob mx mt(1) tT 3 by auto
        have Ht: "is_eff B ?s t (prio (tasks ?s t))" using Et dn tT mt(3) by simp
        have Ho: "is_eff B ?s x (prio (tasks ?s x))" if "x \<in> T" "x \<noteq> mt" for x
          using H [OF that(1)] Ht eff_other [OF c w] dn [OF that(1)] that
          by (cases "x = t") (auto simp: reprio_tasks)
        have pm: "prio (tasks ?s mt) = prio (tasks s mt)" "prio (tasks ?s t) = p"
          using mt(3) by (auto simp: reprio_tasks)
        have em: "is_eff B s mt (prio (tasks s mt))" using H mt by simp
        have dm: "t \<in> donors s mt" using dn mt(2) by simp
        have le: "prio (tasks s mt) \<le> prio (tasks s t)" using em dm by (simp add: is_eff_def)
        have loop: "pri_change_loop (Suc n) t p s =
          (if prio (tasks s mt) > p then pri_change_loop n mt p ?s
           else if prio (tasks s mt) = prio (tasks s t) then
             (if look_val ?s mt \<noteq> prio (tasks s mt) then pri_change_loop n mt (look_val ?s mt) ?s
              else (?s, RHINO_SUCCESS))
           else (?s, RHINO_SUCCESS))"
          using fr mx mt(1) pm by (simp add: pri_change_wait [OF False 3])
        consider (raise) "p < prio (tasks s mt)"
          | (low) "prio (tasks s mt) \<le> p" "prio (tasks s mt) = prio (tasks s t)"
          | (stop) "prio (tasks s mt) \<le> p" "prio (tasks s mt) \<noteq> prio (tasks s t)" by linarith
        then show ?thesis
        proof cases
          case raise
          have m: "pri_measure T ?s mt p < pri_measure T s t p"
            using pri_measure_raise [OF fin tT] raise le pm by simp
          have "pri_measure T ?s mt p \<le> n" "0 < n"
            using m Suc.prems(10) pri_measure_pos [OF fin mt(2), of ?s p] pm raise by linarith+
          then show ?thesis
            using Suc.IH [OF sp(1) fin mt(2,4) p, of] Ho eff_owner_raised [OF c w dm em raise] raise pm sp(2)
              loop by simp
        next
          case low
          have lt: "prio (tasks s t) < p" using low False by linarith
          have Bb: "\<forall>x\<in>T. B x = base ?s x"
            using B [OF lt] forget_tasks(18) [OF forget_reprio] by simp
          have lk: "is_eff B ?s mt (look_val ?s mt)"
            using look_val_eff [of ?s mt] core_owned_sorted [OF sp(1) mt(2)] Bb mt(2)
            by (simp add: is_eff_def)
          have ge: "prio (tasks s mt) \<le> look_val ?s mt" using eff_owner_lowered [OF c w em lk lt] .
          show ?thesis
          proof (cases "look_val ?s mt = prio (tasks s mt)")
            case True
            have "all_eff B T ?s" unfolding all_eff_def
              using Ho lk True pm by (metis (no_types))
            then show ?thesis using loop True low sp by simp
          next
            case ne: False
            have m: "pri_measure T ?s mt (look_val ?s mt) < pri_measure T s t p"
              using pri_measure_lower [OF fin tT mt(3) lt low(2)] ge low(2) by simp
            have fuel: "pri_measure T ?s mt (look_val ?s mt) \<le> n" "0 < n"
              using m Suc.prems(10) pri_measure_pos [OF fin mt(2), of ?s "look_val ?s mt"] pm ne by linarith+
            have "look_val ?s mt < 62"
              using lk Bb mt(2) sp(1) by (auto simp: is_eff_def core_def intro: le_less_trans)
            then show ?thesis
              using Suc.IH [OF sp(1) fin mt(2,4) _ Ho lk _ fuel(2,1)] Bb loop ne low sp(2) by simp
          qed
        next
          case stop
          have "is_eff B ?s mt (prio (tasks ?s mt))"
            using eff_owner_same [OF c w dm em stop] pm by simp
          then have "all_eff B T ?s" using Ho by (metis all_eff_def)
          then show ?thesis using loop stop sp by simp
        qed
      qed
    next
      case 4
      then show ?thesis using c tT by (auto simp: core_def)
    qed
  qed
qed simp

text \<open>With the fuel of the model, one more than the number of tasks, the loop always ends.\<close>

lemma task_pri_change_spec:
  assumes c: "core T s" and T: "T \<subseteq> all_tasks s" "t \<in> T" "t \<noteq> g_idle_task" and p: "p < 62"
    and H: "\<And>x. x \<in> T \<Longrightarrow> x \<noteq> t \<Longrightarrow> is_eff B s x (prio (tasks s x))" "is_eff B s t p"
    and B: "prio (tasks s t) < p \<Longrightarrow> \<forall>x\<in>T. B x = base s x"
  shows "core T (fst (task_pri_change t p s))" "all_eff B T (fst (task_pri_change t p s))"
    "snd (task_pri_change t p s) = RHINO_SUCCESS"
    "k_faults (fst (task_pri_change t p s)) = k_faults s"
proof -
  have fin: "finite T" using T(1) finite_subset by blast
  have "card T \<le> length (task_head (g_kobj_list s))"
    using T(1) card_length card_mono le_trans by (metis List.finite_set)
  then have fuel: "pri_measure T s t p \<le> length (task_head (g_kobj_list s)) + 1"
    using pri_measure_le [OF fin, of s t p] by linarith
  from pri_change_loop_spec [OF c fin T(2,3) p H B _ fuel]
  show "core T (fst (task_pri_change t p s))" "all_eff B T (fst (task_pri_change t p s))"
    "snd (task_pri_change t p s) = RHINO_SUCCESS"
    "k_faults (fst (task_pri_change t p s)) = k_faults s"
    by (simp_all add: task_pri_change_def)
qed

text \<open>
  \<open>mutex_release\<close> with no mutex recomputes the priority of an owner after one of its waiters has
  gone; with the owner's priority repaired, all priorities are effective again.
\<close>

lemma mutex_release_None_spec:
  assumes c: "core T s" and T: "T \<subseteq> all_tasks s" "t \<in> T" "t \<noteq> g_idle_task"
    and H: "\<And>x. x \<in> T \<Longrightarrow> x \<noteq> t \<Longrightarrow> is_eff (base s) s x (prio (tasks s x))"
  shows "core T (mutex_release t None s)" "all_eff (base s) T (mutex_release t None s)"
    "k_faults (mutex_release t None s) = k_faults s" "forget (mutex_release t None s) = forget s"
proof -
  have lk: "is_eff (base s) s t (look_val s t)"
    using look_val_eff [of s t] core_owned_sorted [OF c T(2)] by blast
  then have "look_val s t < 62"
    using c T(2) by (auto simp: is_eff_def core_def intro: le_less_trans)
  note sp = task_pri_change_spec [OF c T this H lk]
  have eq: "all_eff (base s) T s" if "look_val s t = prio (tasks s t)"
    unfolding all_eff_def using lk H that by metis
  show "core T (mutex_release t None s)" "all_eff (base s) T (mutex_release t None s)"
    "k_faults (mutex_release t None s) = k_faults s" "forget (mutex_release t None s) = forget s"
    using sp c eq by (auto simp: mutex_release_def)
qed

text \<open>
  \<open>mutex_task_pri_reset\<close> runs when the task \<open>t\<close> has just left the wait list of the object it still
  names. \<open>H\<close> says that the owner of that mutex is the only task whose priority may be too high.
\<close>

lemma mutex_task_pri_reset_spec:
  assumes c: "core T s" and T: "T \<subseteq> all_tasks s"
    and ob: "blk_obj (tasks s t) = Some ob"
    and own: "obj_type (blks s ob) = RHINO_MUTEX_OBJ_TYPE \<Longrightarrow> \<exists>x. mutex_task (mutexes s ob) = Some x"
    and H: "\<And>x. x \<in> T \<Longrightarrow> \<not> (obj_type (blks s ob) = RHINO_MUTEX_OBJ_TYPE
        \<and> mutex_task (mutexes s ob) = Some x \<and> prio (tasks s x) = prio (tasks s t))
      \<Longrightarrow> is_eff (base s) s x (prio (tasks s x))"
  shows "core T (mutex_task_pri_reset t s)" "all_eff (base s) T (mutex_task_pri_reset t s)"
    "k_faults (mutex_task_pri_reset t s) = k_faults s" "forget (mutex_task_pri_reset t s) = forget s"
proof -
  have "core T (mutex_task_pri_reset t s) \<and> all_eff (base s) T (mutex_task_pri_reset t s)
    \<and> k_faults (mutex_task_pri_reset t s) = k_faults s \<and> forget (mutex_task_pri_reset t s) = forget s"
  proof (cases "obj_type (blks s ob) = RHINO_MUTEX_OBJ_TYPE")
    case False
    then show ?thesis using c ob H by (auto simp: mutex_task_pri_reset_def all_eff_def)
  next
    case True
    then obtain x where x: "mutex_task (mutexes s ob) = Some x" using own by blast
    then have xT: "x \<in> T" using c True by (auto simp: core_def mutex_ok_def)
    then have xi: "x \<noteq> g_idle_task"
      using core_owned [OF c xT, of ob] True x c by (auto simp: core_def)
    show ?thesis
    proof (cases "prio (tasks s x) = prio (tasks s t)")
      case eq: True
      have "\<And>y. y \<in> T \<Longrightarrow> y \<noteq> x \<Longrightarrow> is_eff (base s) s y (prio (tasks s y))" using H x by auto
      from mutex_release_None_spec [OF c T xT xi this] True x eq ob show ?thesis
        by (simp add: mutex_task_pri_reset_def)
    next
      case False
      then show ?thesis using c ob H True x by (auto simp: mutex_task_pri_reset_def all_eff_def)
    qed
  qed
  then show "core T (mutex_task_pri_reset t s)" "all_eff (base s) T (mutex_task_pri_reset t s)"
    "k_faults (mutex_task_pri_reset t s) = k_faults s" "forget (mutex_task_pri_reset t s) = forget s"
    by auto
qed

end
