(* ===== verification/Kernel_Inv.thy ===== *)
theory Kernel_Inv
  imports Prio_Inherit
begin

text \<open>
  The invariant of the scheduler's data, \<open>ksys\<close>: run queue, wait lists, tick list, mutex ownership
  and priority inheritance fit the states of the tasks, the idle task is ready, and no fault has
  occurred. The lemmas lift the operations of the previous theories to it, so that the API functions
  are proved by applying one lemma per call.
\<close>

section \<open>The invariant\<close>

definition sleeping :: "ktask_t \<Rightarrow> bool" where
  "sleeping t \<longleftrightarrow> task_state t = K_SLEEP \<or> task_state t = K_SLEEP_SUSPENDED"

definition suspended :: "ktask_t \<Rightarrow> bool" where
  "suspended t \<longleftrightarrow> task_state t \<in> {K_SUSPENDED, K_PEND_SUSPENDED, K_SLEEP_SUSPENDED}"

definition task_ok :: "ktask_t \<Rightarrow> bool" where
  "task_ok t \<longleftrightarrow> (tick_head t \<longrightarrow> waiting t \<or> sleeping t) \<and> (sleeping t \<longrightarrow> tick_head t)
     \<and> (suspend_count t > 0 \<longleftrightarrow> suspended t)"

definition ksys :: "kstate \<Rightarrow> bool" where
  "ksys s \<longleftrightarrow> core (all_tasks s) s \<and> all_eff (base s) (all_tasks s) s \<and> tick_inv s
     \<and> (\<forall>t\<in>all_tasks s. task_ok (tasks s t)) \<and> distinct (task_head (g_kobj_list s))
     \<and> prio (tasks s g_idle_task) = RHINO_IDLE_PRI \<and> k_faults s = []"

text \<open>The part without the tick list, which holds while tasks expire.\<close>

definition tsys :: "kstate \<Rightarrow> bool" where
  "tsys s \<longleftrightarrow> core (all_tasks s) s \<and> all_eff (base s) (all_tasks s) s
     \<and> (\<forall>t\<in>all_tasks s. task_ok (tasks s t)) \<and> distinct (task_head (g_kobj_list s))
     \<and> prio (tasks s g_idle_task) = RHINO_IDLE_PRI \<and> k_faults s = []"

lemma ksys_tsys: "ksys s \<longleftrightarrow> tsys s \<and> tick_inv s"
  by (auto simp: ksys_def tsys_def)

section \<open>What the invariant depends on\<close>

definition task_view :: "ktask_t \<Rightarrow> nat \<times> nat \<times> task_stat_t \<times> oid option \<times> oid list \<times> u64 \<times> bool \<times> u8" where
  "task_view t = (prio t, b_prio t, task_state t, blk_obj t, mutex_list t, tick_match t, tick_head t,
     suspend_count t)"

definition sysview :: "kstate \<Rightarrow> (tid \<Rightarrow> nat \<times> nat \<times> task_stat_t \<times> oid option \<times> oid list \<times> u64 \<times> bool \<times> u8)
    \<times> (oid \<Rightarrow> blk_obj_t) \<times> (oid \<Rightarrow> kmutex_t) \<times> runqueue_t \<times> tid list \<times> tid list \<times> u64 \<times> kfault list" where
  "sysview s = (\<lambda>t. task_view (tasks s t), blks s, mutexes s, g_ready_queue s,
     task_head (g_kobj_list s), g_tick_head s, g_tick_count s, k_faults s)"

lemma ksys_view:
  assumes "sysview s' = sysview s"
  shows "ksys s' \<longleftrightarrow> ksys s"
proof -
  have v: "\<And>t. task_view (tasks s' t) = task_view (tasks s t)" and
    f: "blks s' = blks s" "mutexes s' = mutexes s" "g_ready_queue s' = g_ready_queue s"
    "task_head (g_kobj_list s') = task_head (g_kobj_list s)" "g_tick_head s' = g_tick_head s"
    "g_tick_count s' = g_tick_count s" "k_faults s' = k_faults s"
    using assms by (auto simp: sysview_def fun_eq_iff)
  have t: "prio (tasks s' t) = prio (tasks s t)" "b_prio (tasks s' t) = b_prio (tasks s t)"
    "task_state (tasks s' t) = task_state (tasks s t)" "blk_obj (tasks s' t) = blk_obj (tasks s t)"
    "mutex_list (tasks s' t) = mutex_list (tasks s t)" "tick_match (tasks s' t) = tick_match (tasks s t)"
    "tick_head (tasks s' t) = tick_head (tasks s t)" "suspend_count (tasks s' t) = suspend_count (tasks s t)"
    for t using v [of t] by (simp_all add: task_view_def)
  show ?thesis
    by (simp add: ksys_def core_def rq_inv_def wait_inv_def mutex_ok_def all_eff_def is_eff_def
        donors_def tick_inv_def tick_left_def task_ok_def waiting_def sleeping_def suspended_def f t)
qed

lemma sysview_simps [simp]:
  "sysview (cpu_intrpt_save s) = sysview s" "sysview (cpu_intrpt_restore psr s) = sysview s"
  "sysview (s\<lparr>sems := x1\<rparr>) = sysview s" "sysview (s\<lparr>events := x2\<rparr>) = sysview s"
  "sysview (s\<lparr>queues := x3\<rparr>) = sysview s" "sysview (s\<lparr>buf_queues := x4\<rparr>) = sysview s"
  "sysview (s\<lparr>g_sched_lock := x5\<rparr>) = sysview s" "sysview (s\<lparr>g_intrpt_nested_level := x6\<rparr>) = sysview s"
  "sysview (s\<lparr>g_res_list := x7\<rparr>) = sysview s" "sysview (krhino_mm_free x8 s) = sysview s"
  "sysview (s\<lparr>g_active_task := x9\<rparr>) = sysview s" "sysview (s\<lparr>g_preferred_ready_task := x9\<rparr>) = sysview s"
  "sysview (s\<lparr>tspend := b\<rparr>) = sysview s" "sysview (s\<lparr>irq_off := b\<rparr>) = sysview s"
  "sysview (cpu_task_switch s) = sysview s" "sysview (cpu_intrpt_switch s) = sysview s"
  by (simp_all add: sysview_def krhino_mm_free_def)

lemma sysview_upd_task:
  "(\<And>t. task_view (f t) = task_view t) \<Longrightarrow> sysview (upd_task u f s) = sysview s"
  by (auto simp: sysview_def fun_eq_iff)

section \<open>Reading the invariant\<close>

lemma ksysD:
  assumes "ksys s"
  shows "core (all_tasks s) s" "all_eff (base s) (all_tasks s) s" "tick_inv s"
    "\<And>t. t \<in> all_tasks s \<Longrightarrow> task_ok (tasks s t)" "k_faults s = []"
    "rq_inv {t \<in> all_tasks s. task_state (tasks s t) = K_RDY} s"
    "wait_inv {t \<in> all_tasks s. waiting (tasks s t)} s" "mutex_ok (all_tasks s) s"
    "g_idle_task \<in> all_tasks s" "task_state (tasks s g_idle_task) = K_RDY"
    "mutex_list (tasks s g_idle_task) = []" "prio (tasks s g_idle_task) = RHINO_IDLE_PRI"
    "\<And>t. t \<in> all_tasks s \<Longrightarrow> task_state (tasks s t) \<notin> {K_SEED, K_DELETED}"
    "\<And>t. t \<in> all_tasks s \<Longrightarrow> prio (tasks s t) < 62" "\<And>t. t \<in> all_tasks s \<Longrightarrow> b_prio (tasks s t) < 62"
    "distinct (task_head (g_kobj_list s))"
  using assms by (auto simp: ksys_def core_def)

lemma ksys_waiter:
  assumes "ksys s" "t \<in> set (waiters s ob)"
  shows "t \<in> all_tasks s" "waiting (tasks s t)" "blk_obj (tasks s t) = Some ob"
    "t \<notin> {u \<in> all_tasks s. task_state (tasks s u) = K_RDY}" "t \<noteq> g_idle_task"
proof -
  show w: "t \<in> all_tasks s" "waiting (tasks s t)" "blk_obj (tasks s t) = Some ob"
    using core_waiter [OF ksysD(1) [OF assms(1)]] assms(2) by auto
  then show "t \<notin> {u \<in> all_tasks s. task_state (tasks s u) = K_RDY}" "t \<noteq> g_idle_task"
    using ksysD(10) [OF assms(1)] by (auto simp: waiting_def)
qed

lemma ready_not_empty: "ksys s \<Longrightarrow> {t \<in> all_tasks s. task_state (tasks s t) = K_RDY} \<noteq> {}"
  using ksysD(9,10) by fastforce

text \<open>The task the scheduler picks is ready and no ready task has a higher priority.\<close>

lemma ksys_best:
  assumes "ksys s"
  shows "best s \<in> all_tasks s" "task_state (tasks s (best s)) = K_RDY"
    "\<And>t. t \<in> all_tasks s \<Longrightarrow> task_state (tasks s t) = K_RDY \<Longrightarrow> prio (tasks s (best s)) \<le> prio (tasks s t)"
  using rq_inv_best [OF ksysD(6) [OF assms] ready_not_empty [OF assms]] by auto

section \<open>Leaving the critical section\<close>

lemma ksys_preferred:
  assumes "ksys s"
  shows "preferred_cpu_ready_task_get s = s\<lparr>g_preferred_ready_task := best s\<rparr>"
  using preferred_spec [OF ksysD(6) [OF assms] ready_not_empty [OF assms]] .

lemma ksys_irq [simp]:
  "ksys (cpu_intrpt_save s) = ksys s" "ksys (cpu_intrpt_restore psr s) = ksys s"
  by (rule ksys_view; simp)+

lemma sysview_core_sched:
  assumes "ksys s"
  shows "sysview (core_sched s) = sysview s"
proof -
  have "ksys (cpu_intrpt_save s)" using assms by simp
  from ksys_preferred [OF this] show ?thesis by (simp add: core_sched_def Let_def)
qed

lemma ksys_core_sched: "ksys s \<Longrightarrow> ksys (core_sched s)"
  using ksys_view sysview_core_sched by blast

lemma sysview_EXIT_SCHED: "ksys s \<Longrightarrow> sysview (RHINO_CRITICAL_EXIT_SCHED psr s) = sysview s"
  using sysview_core_sched [of "cpu_intrpt_restore psr s"] by (simp add: RHINO_CRITICAL_EXIT_SCHED_def)

lemma ksys_EXIT_SCHED [intro]: "ksys s \<Longrightarrow> ksys (RHINO_CRITICAL_EXIT_SCHED psr s)"
  using ksys_view sysview_EXIT_SCHED by blast

text \<open>The active task after a critical section that ends with a scheduling point.\<close>

lemma EXIT_SCHED_active:
  assumes "ksys s" "\<not> tspend s" "\<not> psr" "g_intrpt_nested_level s = 0" "g_sched_lock s = 0"
  shows "g_active_task (RHINO_CRITICAL_EXIT_SCHED psr s) = best s"
    "\<not> tspend (RHINO_CRITICAL_EXIT_SCHED psr s)"
proof -
  let ?s = "cpu_intrpt_restore psr s"
  have k: "ksys ?s" using assms(1) by simp
  from core_sched_switch [OF ksysD(6) [OF k] ready_not_empty [OF k]] assms(3-5)
  show "g_active_task (RHINO_CRITICAL_EXIT_SCHED psr s) = best s"
    "\<not> tspend (RHINO_CRITICAL_EXIT_SCHED psr s)"
    by (simp_all add: RHINO_CRITICAL_EXIT_SCHED_def best_def)
qed

lemma EXIT_SCHED_stay:
  assumes "g_intrpt_nested_level s > 0 \<or> g_sched_lock s > 0" "g_intrpt_nested_level s > 0 \<or> \<not> tspend s"
  shows "g_active_task (RHINO_CRITICAL_EXIT_SCHED psr s) = g_active_task s"
    "g_intrpt_nested_level s > 0 \<or> \<not> tspend (RHINO_CRITICAL_EXIT_SCHED psr s)"
  using core_sched_stay [of "cpu_intrpt_restore psr s"] assms
  by (auto simp: RHINO_CRITICAL_EXIT_SCHED_def)

section \<open>Operations that do not touch mutexes\<close>

text \<open>The parts of the invariant that concern mutexes carry over when their waiters and owners stay.\<close>

lemma tsysD:
  assumes "tsys s"
  shows "core (all_tasks s) s" "all_eff (base s) (all_tasks s) s" "mutex_ok (all_tasks s) s"
    "g_idle_task \<in> all_tasks s" "mutex_list (tasks s g_idle_task) = []" "k_faults s = []"
    "task_state (tasks s g_idle_task) = K_RDY"
    "\<And>t. t \<in> all_tasks s \<Longrightarrow> task_ok (tasks s t)"
    "\<And>t. t \<in> all_tasks s \<Longrightarrow> task_state (tasks s t) \<notin> {K_SEED, K_DELETED}"
    "\<And>t. t \<in> all_tasks s \<Longrightarrow> prio (tasks s t) < 62" "\<And>t. t \<in> all_tasks s \<Longrightarrow> b_prio (tasks s t) < 62"
    "rq_inv {t \<in> all_tasks s. task_state (tasks s t) = K_RDY} s"
    "wait_inv {t \<in> all_tasks s. waiting (tasks s t)} s"
  using assms by (auto simp: tsys_def core_def)

lemma tsys_assemble:
  assumes k: "tsys s" and hd: "task_head (g_kobj_list s') = task_head (g_kobj_list s)"
    and rq: "rq_inv {u \<in> all_tasks s. task_state (tasks s' u) = K_RDY} s'"
    and w: "wait_inv {u \<in> all_tasks s. waiting (tasks s' u)} s'"
    and t: "\<And>u. u \<in> all_tasks s \<Longrightarrow> task_ok (tasks s' u) \<and> task_state (tasks s' u) \<notin> {K_SEED, K_DELETED}
      \<and> prio (tasks s' u) = prio (tasks s u) \<and> b_prio (tasks s' u) = b_prio (tasks s u)
      \<and> mutex_list (tasks s' u) = mutex_list (tasks s u)"
    and m: "\<And>m. obj_type (blks s' m) = RHINO_MUTEX_OBJ_TYPE \<longleftrightarrow> obj_type (blks s m) = RHINO_MUTEX_OBJ_TYPE"
      "\<And>m. obj_type (blks s m) = RHINO_MUTEX_OBJ_TYPE \<Longrightarrow> blk_policy (blks s' m) = blk_policy (blks s m)
         \<and> set (waiters s' m) = set (waiters s m)"
    and mx: "mutexes s' = mutexes s" and idle: "task_state (tasks s' g_idle_task) = K_RDY"
    and nf: "k_faults s' = []"
  shows "tsys s'"
proof -
  have T: "all_tasks s' = all_tasks s" using hd by simp
  have we: "waiters s' x = [] \<longleftrightarrow> waiters s x = []" if "obj_type (blks s x) = RHINO_MUTEX_OBJ_TYPE" for x
    using m(2) [OF that] by (metis set_empty)
  have "mutex_ok (all_tasks s) s'"
    using tsysD(3) [OF k] t m we mx by (simp add: mutex_ok_def)
  then have c: "core (all_tasks s') s'"
    unfolding core_def T using rq w t tsysD [OF k] idle by simp
  have dn: "donors s' x = donors s x" if "x \<in> all_tasks s" for x
    using core_owned [OF tsysD(1) [OF k] that] t [OF that] m(2) by (auto simp: donors_def)
  have "u \<in> all_tasks s" if "u \<in> donors s x" "x \<in> all_tasks s" for u x
    using core_donor [OF tsysD(1) [OF k] that(2)] that(1) by simp
  then have "is_eff (base s') s' x (prio (tasks s' x))" if "x \<in> all_tasks s" for x
    using tsysD(2) [OF k] t that dn [OF that] unfolding all_eff_def
    by (subst is_eff_cong [where B = "base s" and s = s]) (auto simp: t)
  then show ?thesis
    unfolding tsys_def all_eff_def using c t k nf hd tsysD(4) [OF k] by (simp add: T tsys_def)
qed

lemma ksys_assemble:
  assumes k: "ksys s" and hd: "task_head (g_kobj_list s') = task_head (g_kobj_list s)"
    and rq: "rq_inv {u \<in> all_tasks s. task_state (tasks s' u) = K_RDY} s'"
    and w: "wait_inv {u \<in> all_tasks s. waiting (tasks s' u)} s'" and tk: "tick_inv s'"
    and t: "\<And>u. u \<in> all_tasks s \<Longrightarrow> task_ok (tasks s' u) \<and> task_state (tasks s' u) \<notin> {K_SEED, K_DELETED}
      \<and> prio (tasks s' u) = prio (tasks s u) \<and> b_prio (tasks s' u) = b_prio (tasks s u)
      \<and> mutex_list (tasks s' u) = mutex_list (tasks s u)"
    and m: "\<And>m. obj_type (blks s' m) = RHINO_MUTEX_OBJ_TYPE \<longleftrightarrow> obj_type (blks s m) = RHINO_MUTEX_OBJ_TYPE"
      "\<And>m. obj_type (blks s m) = RHINO_MUTEX_OBJ_TYPE \<Longrightarrow> blk_policy (blks s' m) = blk_policy (blks s m)
         \<and> set (waiters s' m) = set (waiters s m)"
    and mx: "mutexes s' = mutexes s" and idle: "task_state (tasks s' g_idle_task) = K_RDY"
    and nf: "k_faults s' = []"
  shows "ksys s'"
  using tsys_assemble [of s s'] assms ksys_tsys by blast

lemma woken_states [simp]:
  "waiting x \<Longrightarrow> task_state x = K_PEND \<Longrightarrow> woken_state (task_state x) = K_RDY"
  "waiting x \<Longrightarrow> task_state x \<noteq> K_PEND \<Longrightarrow> woken_state (task_state x) = K_SUSPENDED"
  by (simp_all add: woken_state_def)

context wake_fun
begin

lemma wake_frame_rq:
  assumes "ksys s" "t \<in> set (waiters s ob)"
  shows "rq_inv {u \<in> all_tasks s. task_state (tasks (wake t s) u) = K_RDY} (wake t s)"
proof -
  note w = ksys_waiter [OF assms]
  have "{u \<in> all_tasks s. task_state (tasks (wake t s) u) = K_RDY}
      = (if task_state (tasks s t) = K_PEND then insert t {u \<in> all_tasks s. task_state (tasks s u) = K_RDY}
         else {u \<in> all_tasks s. task_state (tasks s u) = K_RDY})"
    using w by (auto simp: wake_task woken_state_def waiting_def)
  then show ?thesis
    using wake_rq [OF ksysD(6) [OF assms(1)] w(4,2) ksysD(14) [OF assms(1) w(1)]] by simp
qed

lemma wake_frame_wait:
  assumes "ksys s" "t \<in> set (waiters s ob)"
  shows "wait_inv {u \<in> all_tasks s. waiting (tasks (wake t s) u)} (wake t s)"
proof -
  note w = ksys_waiter [OF assms]
  have "{u \<in> all_tasks s. waiting (tasks (wake t s) u)} = {u \<in> all_tasks s. waiting (tasks s u)} - {t}"
    using w by (auto simp: wake_task woken_state_def waiting_def)
  then show ?thesis using wake_wait [OF ksysD(7) [OF assms(1)] w(2)] by simp
qed

lemma wake_task_ok:
  assumes "ksys s" "t \<in> set (waiters s ob)" "u \<in> all_tasks s"
  shows "task_ok (tasks (wake t s) u) \<and> task_state (tasks (wake t s) u) \<notin> {K_SEED, K_DELETED}"
  using ksysD(4,13) [OF assms(1,3)] ksys_waiter(2) [OF assms(1,2)] 
  by (auto simp: wake_task task_ok_def woken_state_def waiting_def sleeping_def suspended_def)

lemma wake_idle:
  assumes "ksys s" "t \<in> set (waiters s ob)"
  shows "task_state (tasks (wake t s) g_idle_task) = K_RDY"
  using ksys_waiter(2,5) [OF assms] ksysD(10) [OF assms(1)] by (simp add: wake_task)

lemma wake_waiters_other:
  assumes "ksys s" "t \<in> set (waiters s ob)" "x \<noteq> ob"
  shows "waiters (wake t s) x = waiters s x"
proof -
  have "t \<notin> set (waiters s x)" using ksys_waiter(3) [OF assms(1)] assms(2,3) by (metis option.inject)
  then show ?thesis using wake_fields(1) [OF ksys_waiter(2) [OF assms(1,2)]] by (simp add: remove1_idem)
qed

text \<open>Waking a task that waits for something else than a mutex keeps the invariant.\<close>

lemma ksys_wake:
  assumes k: "ksys s" and t: "t \<in> set (waiters s ob)" and ob: "obj_type (blks s ob) \<noteq> RHINO_MUTEX_OBJ_TYPE"
  shows "ksys (wake t s)"
proof -
  note w = ksys_waiter [OF k t] and f = wake_fields [OF ksys_waiter(2) [OF k t]]
  show ?thesis
  proof (rule ksys_assemble [OF k])
    show "rq_inv {u \<in> all_tasks s. task_state (tasks (wake t s) u) = K_RDY} (wake t s)"
      by (rule wake_frame_rq [OF k t])
    show "wait_inv {u \<in> all_tasks s. waiting (tasks (wake t s) u)} (wake t s)"
      by (rule wake_frame_wait [OF k t])
    show "tick_inv (wake t s)" by (rule wake_tick [OF ksysD(3) [OF k] w(1,2)])
    show "task_state (tasks (wake t s) g_idle_task) = K_RDY" by (rule wake_idle [OF k t])
  next
    fix u assume "u \<in> all_tasks s"
    then show "task_ok (tasks (wake t s) u) \<and> task_state (tasks (wake t s) u) \<notin> {K_SEED, K_DELETED}
      \<and> prio (tasks (wake t s) u) = prio (tasks s u) \<and> b_prio (tasks (wake t s) u) = b_prio (tasks s u)
      \<and> mutex_list (tasks (wake t s) u) = mutex_list (tasks s u)"
      using wake_task_ok [OF k t] w(2) by (simp add: wake_task)
  next
    fix m assume "obj_type (blks s m) = RHINO_MUTEX_OBJ_TYPE"
    then have "m \<noteq> ob" using ob by auto
    then show "blk_policy (blks (wake t s) m) = blk_policy (blks s m)
        \<and> set (waiters (wake t s) m) = set (waiters s m)"
      using f wake_waiters_other [OF k t] by simp
  qed (use f ksysD(5) [OF k] in simp_all)
qed

text \<open>Waking all waiters of such an object.\<close>

lemma wake_all_ksys:
  assumes k: "ksys s" and ob: "obj_type (blks s ob) \<noteq> RHINO_MUTEX_OBJ_TYPE" and n: "length (waiters s ob) \<le> n"
  shows "ksys (wake_all n wake ob s)" "waiters (wake_all n wake ob s) ob = []"
    "\<And>x. x \<noteq> ob \<Longrightarrow> waiters (wake_all n wake ob s) x = waiters s x"
    "\<And>x. obj_type (blks (wake_all n wake ob s) x) = obj_type (blks s x)"
    "\<And>u. task_state (tasks s u) = K_RDY \<Longrightarrow> tasks (wake_all n wake ob s) u = tasks s u"
    "\<And>u. blk_state (tasks s u) \<noteq> BLK_INVALID \<Longrightarrow> blk_state (tasks (wake_all n wake ob s) u) \<noteq> BLK_INVALID"
    "g_kobj_list (wake_all n wake ob s) = g_kobj_list s"
proof -
  define P where "P = (\<lambda>s'. ksys s' \<and> (\<forall>x. obj_type (blks s' x) = obj_type (blks s x))
    \<and> (\<forall>x. x \<noteq> ob \<longrightarrow> waiters s' x = waiters s x) \<and> g_kobj_list s' = g_kobj_list s
    \<and> (\<forall>u. task_state (tasks s u) = K_RDY \<longrightarrow> tasks s' u = tasks s u)
    \<and> (\<forall>u. blk_state (tasks s u) \<noteq> BLK_INVALID \<longrightarrow> blk_state (tasks s' u) \<noteq> BLK_INVALID))"
  have "P (wake_all n wake ob s) \<and> waiters (wake_all n wake ob s) ob = []"
  proof (rule wake_all_rule)
    show "P s" using k by (simp add: P_def)
    show "length (waiters s ob) \<le> n" by (rule n)
    fix s' assume p: "P s'" and ne: "waiters s' ob \<noteq> []"
    then have t: "hd (waiters s' ob) \<in> set (waiters s' ob)" by simp
    have k': "ksys s'" "obj_type (blks s' ob) \<noteq> RHINO_MUTEX_OBJ_TYPE" using p ob by (auto simp: P_def)
    have w: "waiting (tasks s' (hd (waiters s' ob)))" using ksys_waiter(2) [OF k'(1) t] .
    note f = wake_fields [OF w]
    have "P (wake (hd (waiters s' ob)) s')"
      using p ksys_wake [OF k'(1) t k'(2)] f(2,5) wake_waiters_other [OF k'(1) t] reason_valid w
      by (auto simp: P_def wake_task waiting_def)
    moreover have "length (waiters (wake (hd (waiters s' ob)) s') ob) < length (waiters s' ob)"
      using f(1) [of ob] t ne by (simp add: length_remove1)
    ultimately show "P (wake (hd (waiters s' ob)) s')
      \<and> length (waiters (wake (hd (waiters s' ob)) s') ob) < length (waiters s' ob)" by blast
  qed
  then show "ksys (wake_all n wake ob s)" "waiters (wake_all n wake ob s) ob = []"
    "\<And>x. x \<noteq> ob \<Longrightarrow> waiters (wake_all n wake ob s) x = waiters s x"
    "\<And>x. obj_type (blks (wake_all n wake ob s) x) = obj_type (blks s x)"
    "\<And>u. task_state (tasks s u) = K_RDY \<Longrightarrow> tasks (wake_all n wake ob s) u = tasks s u"
    "\<And>u. blk_state (tasks s u) \<noteq> BLK_INVALID \<Longrightarrow> blk_state (tasks (wake_all n wake ob s) u) \<noteq> BLK_INVALID"
    "g_kobj_list (wake_all n wake ob s) = g_kobj_list s"
    by (auto simp: P_def)
qed

end

text \<open>A ready task other than the idle task may block on an object that is not a mutex.\<close>

lemma ksys_block:
  assumes k: "ksys s" and t: "t \<in> all_tasks s" "task_state (tasks s t) = K_RDY" "t \<noteq> g_idle_task"
    and ob: "obj_type (blks s ob) \<noteq> RHINO_MUTEX_OBJ_TYPE"
  shows "ksys (pend_to_blk_obj ob t n s)"
proof -
  let ?s = "pend_to_blk_obj ob t n s"
  have ok: "\<not> tick_head (tasks s t)"
    using ksysD(4) [OF k t(1)] t(2) by (auto simp: task_ok_def waiting_def sleeping_def)
  have R: "t \<in> {u \<in> all_tasks s. task_state (tasks s u) = K_RDY}"
    "{u \<in> all_tasks s. task_state (tasks s u) = K_RDY} - {t} \<noteq> {}"
    "t \<notin> {u \<in> all_tasks s. waiting (tasks s u)}"
    using t ksysD(9,10) [OF k] by (auto simp: waiting_def)
  note sp = pend_to_blk_obj_spec [OF ksysD(6) [OF k] R(1,2) ksysD(7) [OF k] R(3) ksysD(3) [OF k] t(1) ok]
  note pt = pend_to_blk_obj_task [of ob t n s]
  have st: "task_state (tasks ?s u) = (if u = t then K_PEND else task_state (tasks s u))" for u
    using pt(1) by simp
  show ?thesis
  proof (rule ksys_assemble [OF k])
    have "{u \<in> all_tasks s. task_state (tasks ?s u) = K_RDY}
        = {u \<in> all_tasks s. task_state (tasks s u) = K_RDY} - {t}"
      by (auto simp: st)
    then show "rq_inv {u \<in> all_tasks s. task_state (tasks ?s u) = K_RDY} ?s" using sp(1) by simp
    have "{u \<in> all_tasks s. waiting (tasks ?s u)} = insert t {u \<in> all_tasks s. waiting (tasks s u)}"
      using t(1) by (auto simp: waiting_def st)
    then show "wait_inv {u \<in> all_tasks s. waiting (tasks ?s u)} ?s" using sp(2) by simp
    show "tick_inv ?s" by (rule sp(3))
    show "task_state (tasks ?s g_idle_task) = K_RDY" using ksysD(10) [OF k] t(3) by simp
  next
    fix u assume u: "u \<in> all_tasks s"
    have "task_ok (tasks ?s u) \<and> task_state (tasks ?s u) \<notin> {K_SEED, K_DELETED}"
    proof (cases "u = t")
      case True
      have "suspend_count (tasks s t) = 0"
        using ksysD(4) [OF k t(1)] t(2) by (simp add: task_ok_def suspended_def word_gt_0)
      then show ?thesis using True pt by (simp add: task_ok_def waiting_def sleeping_def suspended_def)
    next
      case False
      then show ?thesis using ksysD(4,13) [OF k u] by simp
    qed
    then show "task_ok (tasks ?s u) \<and> task_state (tasks ?s u) \<notin> {K_SEED, K_DELETED}
      \<and> prio (tasks ?s u) = prio (tasks s u) \<and> b_prio (tasks ?s u) = b_prio (tasks s u)
      \<and> mutex_list (tasks ?s u) = mutex_list (tasks s u)" by simp
  next
    fix m assume "obj_type (blks s m) = RHINO_MUTEX_OBJ_TYPE"
    then have "m \<noteq> ob" using ob by auto
    then show "blk_policy (blks ?s m) = blk_policy (blks s m) \<and> set (waiters ?s m) = set (waiters s m)"
      by simp
  qed (use sp(4) ksysD(5) [OF k] in simp_all)
qed

end
