(* ===== verification/Kobj.thy ===== *)
theory Kobj
  imports Kernel_Inv
begin

unbundle bit_operations_syntax

text \<open>
  The invariant of the whole kernel. \<open>obj_ok s ob\<close> is what holds of one kernel object: tasks wait only
  when what they wait for is not there. \<open>reg_ok\<close> concerns the lists of live objects. \<open>kinv\<close> adds them
  to the invariant of the scheduler's data; \<open>good\<close> adds that the processor runs the right task.

  The last section gives the two ways an API function ends, with and without a scheduling point,
  as lemmas on \<open>good\<close>.
\<close>

section \<open>Return of a blocking call\<close>

text \<open>
  A call that blocks does not return before the task runs again. \<open>Blocks\<close> says that the caller was
  switched out; the rest of the call is \<open>pend_return\<close>, executed when the task is active again.
\<close>

datatype kret = Ret kstat | Blocks

definition pend_return :: "kstate \<Rightarrow> kstate \<times> kret" where
  "pend_return s = (let psr = irq_off s; s0 = cpu_intrpt_save s in
     case pend_state_end_proc (g_active_task s0) s0 of (s1, stat) \<Rightarrow>
       (cpu_intrpt_restore psr s1, Ret stat))"

definition block_return :: "tid \<Rightarrow> kstate \<Rightarrow> kstate \<times> kret" where
  "block_return task s = (if g_active_task s = task then pend_return s else (s, Blocks))"

section \<open>Objects\<close>

definition RHINO_FLAGS_AND_MASK :: u8 where
  "RHINO_FLAGS_AND_MASK = 0x2"

definition RHINO_FLAGS_CLEAR_MASK :: u8 where
  "RHINO_FLAGS_CLEAR_MASK = 0x1"

text \<open>The test of an event's flags against the flags a task asks for.\<close>

definition flags_met :: "u32 \<Rightarrow> u32 \<Rightarrow> u8 \<Rightarrow> bool" where
  "flags_met cur want opt =
     (if opt AND RHINO_FLAGS_AND_MASK \<noteq> 0 then cur AND want = want else cur AND want > 0)"

definition sem_ok :: "ksem_t \<Rightarrow> tid list \<Rightarrow> bool" where
  "sem_ok sem w \<longleftrightarrow> (w \<noteq> [] \<longrightarrow> count sem = 0) \<and> count sem \<le> peak_count sem"

definition event_ok :: "kstate \<Rightarrow> kevent_t \<Rightarrow> tid list \<Rightarrow> bool" where
  "event_ok s ev w \<longleftrightarrow>
     (\<forall>t \<in> set w. \<not> flags_met (flags ev) (pend_flags (tasks s t)) (pend_option (tasks s t)))"

text \<open>A pointer message is its four bytes.\<close>

definition queue_ok :: "kqueue_t \<Rightarrow> tid list \<Rightarrow> bool" where
  "queue_ok q w \<longleftrightarrow> (\<exists>ms. fix_holds 4 (ringbuf q) ms \<and> length ms = cur_num (msg_q q)
     \<and> rb_end (ringbuf q) = 4 * q_size (msg_q q) \<and> (w \<noteq> [] \<longrightarrow> ms = []))"

definition ring_holds :: "k_ringbuf_t \<Rightarrow> u8 list list \<Rightarrow> bool" where
  "ring_holds rb ms \<longleftrightarrow> (if rb_type rb = RINGBUF_TYPE_DYN then dyn_holds rb ms
     else fix_holds (rb_blk_size rb) rb ms)"

definition buf_queue_ok :: "kbuf_queue_t \<Rightarrow> tid list \<Rightarrow> bool" where
  "buf_queue_ok q w \<longleftrightarrow> (\<exists>ms. ring_holds (bq_ringbuf q) ms \<and> length ms = bq_cur_num q
     \<and> rb_blk_size (bq_ringbuf q) = max_msg_size q \<and> (w \<noteq> [] \<longrightarrow> ms = []))"

definition obj_ok :: "kstate \<Rightarrow> oid \<Rightarrow> bool" where
  "obj_ok s ob = (case obj_type (blks s ob) of
     RHINO_OBJ_TYPE_NONE \<Rightarrow> waiters s ob = []
   | RHINO_SEM_OBJ_TYPE \<Rightarrow> sem_ok (sems s ob) (waiters s ob)
   | RHINO_EVENT_OBJ_TYPE \<Rightarrow> event_ok s (events s ob) (waiters s ob)
   | RHINO_QUEUE_OBJ_TYPE \<Rightarrow> queue_ok (queues s ob) (waiters s ob)
   | RHINO_BUF_QUEUE_OBJ_TYPE \<Rightarrow> buf_queue_ok (buf_queues s ob) (waiters s ob)
   | _ \<Rightarrow> True)"

definition reg_ok :: "kstate \<Rightarrow> bool" where
  "reg_ok s \<longleftrightarrow> (let g = g_kobj_list s in
     (\<forall>(l, ty) \<in> {(sem_head g, RHINO_SEM_OBJ_TYPE), (mutex_head g, RHINO_MUTEX_OBJ_TYPE),
        (event_head g, RHINO_EVENT_OBJ_TYPE), (queue_head g, RHINO_QUEUE_OBJ_TYPE),
        (buf_queue_head g, RHINO_BUF_QUEUE_OBJ_TYPE)}.
        distinct l \<and> set l = {ob. obj_type (blks s ob) = ty}))"

definition kinv :: "kstate \<Rightarrow> bool" where
  "kinv s \<longleftrightarrow> ksys s \<and> (\<forall>ob. obj_ok s ob) \<and> reg_ok s
     \<and> (\<forall>t\<in>all_tasks s. blk_state (tasks s t) \<noteq> BLK_INVALID)"

text \<open>An object stays in order when some of its waiters leave.\<close>

lemma obj_ok_mono:
  assumes "obj_ok s ob" "obj_type (blks s' ob) = obj_type (blks s ob)"
    "set (waiters s' ob) \<subseteq> set (waiters s ob)" "sems s' ob = sems s ob" "events s' ob = events s ob"
    "queues s' ob = queues s ob" "buf_queues s' ob = buf_queues s ob"
    "\<And>t. t \<in> set (waiters s' ob) \<Longrightarrow> pend_flags (tasks s' t) = pend_flags (tasks s t)
      \<and> pend_option (tasks s' t) = pend_option (tasks s t)"
  shows "obj_ok s' ob"
proof -
  have ne: "waiters s' ob \<noteq> [] \<Longrightarrow> waiters s ob \<noteq> []" using assms(3) by auto
  show ?thesis
    using assms ne
    by (cases "obj_type (blks s ob)")
       (auto simp: obj_ok_def sem_ok_def event_ok_def queue_ok_def buf_queue_ok_def)
qed

lemma reg_ok_cong:
  "g_kobj_list s' = g_kobj_list s \<Longrightarrow> (\<And>ob. obj_type (blks s' ob) = obj_type (blks s ob))
    \<Longrightarrow> reg_ok s' \<longleftrightarrow> reg_ok s"
  by (simp add: reg_ok_def)

text \<open>Operations on tasks and wait lists that leave objects alone but may take waiters away.\<close>

lemma kinv_step:
  assumes "kinv s" "ksys s'" "g_kobj_list s' = g_kobj_list s"
    "\<And>ob. obj_type (blks s' ob) = obj_type (blks s ob) \<and> set (waiters s' ob) \<subseteq> set (waiters s ob)"
    "sems s' = sems s" "events s' = events s" "queues s' = queues s" "buf_queues s' = buf_queues s"
    "\<And>t. t \<in> all_tasks s \<Longrightarrow> pend_flags (tasks s' t) = pend_flags (tasks s t)
      \<and> pend_option (tasks s' t) = pend_option (tasks s t) \<and> blk_state (tasks s' t) \<noteq> BLK_INVALID"
  shows "kinv s'"
  unfolding kinv_def
proof (intro conjI allI ballI)
  fix ob
  show "obj_ok s' ob"
  proof (rule obj_ok_mono)
    show "obj_ok s ob" using assms(1) by (simp add: kinv_def)
    fix t assume "t \<in> set (waiters s' ob)"
    then have "t \<in> all_tasks s" using ksys_waiter(1) [OF assms(2)] assms(3) by simp
    then show "pend_flags (tasks s' t) = pend_flags (tasks s t)
      \<and> pend_option (tasks s' t) = pend_option (tasks s t)" using assms(9) by blast
  qed (use assms in simp_all)
next
  show "reg_ok s'" using assms(1,3,4) reg_ok_cong [of s' s] by (simp add: kinv_def)
qed (use assms in \<open>auto simp: kinv_def\<close>)

section \<open>The running task\<close>

definition run_ok :: "kstate \<Rightarrow> bool" where
  "run_ok s \<longleftrightarrow> g_active_task s \<in> all_tasks s
     \<and> (g_intrpt_nested_level s = 0 \<or> g_sched_lock s > 0 \<longrightarrow> task_state (tasks s (g_active_task s)) = K_RDY)
     \<and> (g_intrpt_nested_level s = 0 \<longrightarrow> \<not> tspend s \<and> \<not> irq_off s)
     \<and> (g_intrpt_nested_level s = 0 \<and> g_sched_lock s = 0 \<longrightarrow> g_active_task s = best s)"

definition good :: "kstate \<Rightarrow> bool" where
  "good s \<longleftrightarrow> kinv s \<and> run_ok s"

lemma goodD:
  assumes "good s"
  shows "kinv s" "ksys s" "run_ok s" "g_active_task s \<in> all_tasks s"
    "g_intrpt_nested_level s = 0 \<Longrightarrow> task_state (tasks s (g_active_task s)) = K_RDY"
    "g_sched_lock s > 0 \<Longrightarrow> task_state (tasks s (g_active_task s)) = K_RDY"
    "g_intrpt_nested_level s = 0 \<Longrightarrow> \<not> tspend s" "g_intrpt_nested_level s = 0 \<Longrightarrow> \<not> irq_off s"
    "g_intrpt_nested_level s = 0 \<Longrightarrow> g_sched_lock s = 0 \<Longrightarrow> g_active_task s = best s"
  using assms by (auto simp: good_def kinv_def run_ok_def)

text \<open>What an API function may not change between its entry and its end.\<close>

definition same_run :: "kstate \<Rightarrow> kstate \<Rightarrow> bool" where
  "same_run s s' \<longleftrightarrow> g_active_task s' = g_active_task s \<and> g_sched_lock s' = g_sched_lock s
     \<and> g_intrpt_nested_level s' = g_intrpt_nested_level s \<and> tspend s' = tspend s"

lemma kinv_view:
  assumes "sysview s' = sysview s" "g_kobj_list s' = g_kobj_list s" "sems s' = sems s"
    "events s' = events s" "queues s' = queues s" "buf_queues s' = buf_queues s"
    "\<And>t. pend_flags (tasks s' t) = pend_flags (tasks s t)
      \<and> pend_option (tasks s' t) = pend_option (tasks s t) \<and> blk_state (tasks s' t) = blk_state (tasks s t)"
  shows "kinv s' \<longleftrightarrow> kinv s"
proof -
  have b: "blks s' = blks s" using assms(1) by (simp add: sysview_def)
  have e: "event_ok s' = event_ok s" using assms(7) by (simp add: event_ok_def fun_eq_iff)
  have "obj_ok s' ob = obj_ok s ob" for ob
    unfolding obj_ok_def b e assms(3-6) ..
  moreover have "reg_ok s' = reg_ok s" using b assms(2) by (simp add: reg_ok_def)
  ultimately show ?thesis
    using ksys_view [OF assms(1)] assms(2,7) by (simp add: kinv_def)
qed

text \<open>A change of a task that concerns neither the scheduler nor a wait.\<close>

definition inert :: "(ktask_t \<Rightarrow> ktask_t) \<Rightarrow> bool" where
  "inert f \<longleftrightarrow> (\<forall>x. task_view (f x) = task_view x \<and> pend_flags (f x) = pend_flags x
     \<and> pend_option (f x) = pend_option x \<and> blk_state (f x) = blk_state x)"

lemma kinv_inert:
  assumes "kinv s" "inert f"
  shows "kinv (upd_task t f s)"
proof (subst kinv_view [of _ s])
  show "sysview (upd_task t f s) = sysview s"
    by (rule sysview_upd_task) (use assms(2) in \<open>simp add: inert_def\<close>)
qed (use assms in \<open>simp_all add: inert_def\<close>)

lemma kinv_irq [simp]:
  "kinv (cpu_intrpt_save s) = kinv s" "kinv (cpu_intrpt_restore psr s) = kinv s"
  by (rule kinv_view; simp)+

lemma kinv_EXIT_SCHED: "kinv s \<Longrightarrow> kinv (RHINO_CRITICAL_EXIT_SCHED psr s)"
  by (subst kinv_view [of _ s]) (simp_all add: sysview_EXIT_SCHED kinv_def)

lemma best_cong: "g_ready_queue s' = g_ready_queue s \<Longrightarrow> best s' = best s"
  by (simp add: best_def)

text \<open>The end without a scheduling point: the run queue must be as at the entry.\<close>

lemma good_EXIT:
  assumes g: "good s" and k: "kinv s'" and r: "same_run s s'" and q: "g_ready_queue s' = g_ready_queue s"
    and a: "g_active_task s \<in> all_tasks s'"
      "task_state (tasks s' (g_active_task s)) = task_state (tasks s (g_active_task s))"
    and psr: "g_intrpt_nested_level s = 0 \<Longrightarrow> psr = irq_off s"
  shows "good (RHINO_CRITICAL_EXIT psr s')"
proof -
  have act: "g_active_task (cpu_intrpt_restore psr s') = g_active_task s"
    using g r by (cases "g_intrpt_nested_level s = 0")
      (auto simp: good_def run_ok_def same_run_def word_gt_0)
  have tp: "g_intrpt_nested_level s = 0 \<Longrightarrow> \<not> tspend (cpu_intrpt_restore psr s')"
    using g r by (auto simp: good_def run_ok_def same_run_def)
  have bs: "best (cpu_intrpt_restore psr s') = best s" by (rule best_cong) (simp add: q)
  have sm: "g_sched_lock s' = g_sched_lock s" "g_intrpt_nested_level s' = g_intrpt_nested_level s"
    using r by (simp_all add: same_run_def)
  define r where "r = cpu_intrpt_restore psr s'"
  have fr: "g_sched_lock r = g_sched_lock s" "g_intrpt_nested_level r = g_intrpt_nested_level s"
    "tasks r = tasks s'" "g_kobj_list r = g_kobj_list s'" "irq_off r = psr"
    using sm by (simp_all add: r_def)
  have "run_ok r"
    using goodD(3) [OF g] a tp [folded r_def] goodD(8) [OF g] psr
    by (simp add: run_ok_def fr act [folded r_def] bs [folded r_def])
  then show ?thesis using k by (simp add: good_def r_def)
qed

text \<open>The end with a scheduling point.\<close>

lemma good_EXIT_SCHED:
  assumes g: "good s" and k: "kinv s'" and r: "same_run s s'" and psr: "g_intrpt_nested_level s = 0 \<Longrightarrow> psr = irq_off s"
    and a: "g_intrpt_nested_level s > 0 \<or> g_sched_lock s > 0 \<Longrightarrow> g_active_task s \<in> all_tasks s'"
      "g_sched_lock s > 0 \<Longrightarrow> task_state (tasks s' (g_active_task s)) = K_RDY"
  shows "good (RHINO_CRITICAL_EXIT_SCHED psr s')"
proof -
  let ?s = "RHINO_CRITICAL_EXIT_SCHED psr s'"
  have ks: "ksys s'" using k by (simp add: kinv_def)
  have bs: "best ?s = best s'" by (rule best_cong) simp
  have "run_ok ?s"
  proof (cases "g_intrpt_nested_level s = 0 \<and> g_sched_lock s = 0")
    case True
    then have *: "\<not> tspend s'" "\<not> psr" "g_intrpt_nested_level s' = 0" "g_sched_lock s' = 0"
      using goodD(7,8) [OF g] r psr by (auto simp: same_run_def)
    show ?thesis
      using EXIT_SCHED_active [OF ks *] ksys_best(1,2) [OF ks] bs * by (simp add: run_ok_def)
  next
    case False
    then have *: "g_intrpt_nested_level s' > 0 \<or> g_sched_lock s' > 0"
      "g_intrpt_nested_level s' > 0 \<or> \<not> tspend s'"
      using goodD(7) [OF g] r by (auto simp: same_run_def word_gt_0)
    show ?thesis
      using EXIT_SCHED_stay [OF *, of psr] False a r psr goodD(8) [OF g]
      by (auto simp: run_ok_def same_run_def word_gt_0)
  qed
  then show ?thesis using kinv_EXIT_SCHED [OF k] by (simp add: good_def)
qed

lemma good_pend_return:
  assumes "good s"
  shows "good (fst (pend_return s))" "\<exists>st. snd (pend_return s) = Ret st"
proof -
  have b: "blk_state (tasks s (g_active_task s)) \<noteq> BLK_INVALID"
    using assms goodD(4) [OF assms] by (auto simp: good_def kinv_def)
  then have e: "fst (pend_return s) = RHINO_CRITICAL_EXIT (irq_off s) (cpu_intrpt_save s)"
    by (simp add: pend_return_def pend_state_end_proc_def Let_def split: blk_state_t.split)
  show "good (fst (pend_return s))" unfolding e
    using assms goodD(1,4) [OF assms] by (intro good_EXIT [of s]) (auto simp: same_run_def)
  show "\<exists>st. snd (pend_return s) = Ret st"
    by (auto simp: pend_return_def split: prod.split)
qed

lemma good_block_return: "good s \<Longrightarrow> good (fst (block_return t s))"
  by (simp add: block_return_def good_pend_return)

lemma word_pos: "0 < (w :: 'a::len word) \<longleftrightarrow> w \<noteq> 0"
  by (metis word_gt_0)

section \<open>Creating and deleting objects\<close>

text \<open>
  The common part of the five deletion functions: the object loses its type and all its waiters are
  woken with \<open>BLK_DEL\<close>.
\<close>

definition obj_unlink :: "oid \<Rightarrow> kstate \<Rightarrow> kstate" where
  "obj_unlink ob s = pend_all_rm ob (upd_blk ob (\<lambda>b. b\<lparr>obj_type := RHINO_OBJ_TYPE_NONE\<rparr>) s)"

lemma ksys_obj_type:
  assumes k: "ksys s" and t: "obj_type (blks s ob) \<noteq> RHINO_MUTEX_OBJ_TYPE" "ty \<noteq> RHINO_MUTEX_OBJ_TYPE"
  shows "ksys (upd_blk ob (\<lambda>b. b\<lparr>obj_type := ty\<rparr>) s)"
proof (rule ksys_assemble [OF k])
  let ?s = "upd_blk ob (\<lambda>b. b\<lparr>obj_type := ty\<rparr>) s"
  show "rq_inv {u \<in> all_tasks s. task_state (tasks ?s u) = K_RDY} ?s"
    using ksysD(6) [OF k] by (subst rq_inv_cong [of _ s]) auto
  show "wait_inv {u \<in> all_tasks s. waiting (tasks ?s u)} ?s"
    using ksysD(7) [OF k] by (subst wait_inv_cong [of _ s]) auto
  show "tick_inv ?s" using ksysD(3) [OF k] by (subst tick_inv_cong [of _ s]) auto
qed (use ksysD [OF k] t in auto)

lemma obj_unlink_spec:
  assumes k: "kinv s" and ty: "obj_type (blks s ob) \<noteq> RHINO_MUTEX_OBJ_TYPE"
  shows "ksys (obj_unlink ob s)" "waiters (obj_unlink ob s) ob = []"
    "\<And>x. x \<noteq> ob \<Longrightarrow> obj_ok (obj_unlink ob s) x"
    "\<And>x. obj_type (blks (obj_unlink ob s) x) = (if x = ob then RHINO_OBJ_TYPE_NONE else obj_type (blks s x))"
    "\<And>u. task_state (tasks s u) = K_RDY \<Longrightarrow> task_state (tasks (obj_unlink ob s) u) = K_RDY"
    "\<And>u. u \<in> all_tasks s \<Longrightarrow> blk_state (tasks (obj_unlink ob s) u) \<noteq> BLK_INVALID"
    "g_kobj_list (obj_unlink ob s) = g_kobj_list s" "same_run s (obj_unlink ob s)"
proof -
  let ?s1 = "upd_blk ob (\<lambda>b. b\<lparr>obj_type := RHINO_OBJ_TYPE_NONE\<rparr>) s"
  have k1: "ksys ?s1" using k ksys_obj_type ty by (simp add: kinv_def)
  note w = wakerm.wake_all_ksys [OF k1, of ob "length (waiters ?s1 ob)"]
  show "ksys (obj_unlink ob s)" "waiters (obj_unlink ob s) ob = []"
    "g_kobj_list (obj_unlink ob s) = g_kobj_list s"
    using w(1,2,7) by (simp_all add: obj_unlink_def pend_all_rm_def)
  show t: "obj_type (blks (obj_unlink ob s) x) = (if x = ob then RHINO_OBJ_TYPE_NONE else obj_type (blks s x))" for x
    using w(4) [of x] by (simp add: obj_unlink_def pend_all_rm_def)
  show "task_state (tasks (obj_unlink ob s) u) = K_RDY" if "task_state (tasks s u) = K_RDY" for u
    using w(5) [of u] that by (simp add: obj_unlink_def pend_all_rm_def)
  show "blk_state (tasks (obj_unlink ob s) u) \<noteq> BLK_INVALID" if "u \<in> all_tasks s" for u
    using w(6) [of u] k that by (simp add: obj_unlink_def pend_all_rm_def kinv_def)
  show "same_run s (obj_unlink ob s)" by (simp add: same_run_def obj_unlink_def pend_all_rm_def)
  show "obj_ok (obj_unlink ob s) x" if "x \<noteq> ob" for x
  proof (rule obj_ok_mono [of s])
    show "obj_ok s x" using k by (simp add: kinv_def)
    show "set (waiters (obj_unlink ob s) x) \<subseteq> set (waiters s x)"
      using w(3) [of x] that by (simp add: obj_unlink_def pend_all_rm_def)
  qed (use that t in \<open>simp_all add: obj_unlink_def pend_all_rm_def\<close>)
qed

text \<open>The invariant after a change at one object only.\<close>

lemma kinv_one_object:
  assumes "ksys s'" "reg_ok s'" "obj_ok s' ob" "\<And>x. x \<noteq> ob \<Longrightarrow> obj_ok s' x"
    "\<And>t. t \<in> all_tasks s' \<Longrightarrow> blk_state (tasks s' t) \<noteq> BLK_INVALID"
  shows "kinv s'"
  using assms by (metis kinv_def)

lemma kinv_obj: "kinv s \<Longrightarrow> obj_ok s ob"
  by (simp add: kinv_def)

text \<open>A change of the contents of one object, with the scheduler's data as they were.\<close>

lemma kinv_payload:
  assumes k: "kinv s" and v: "sysview s' = sysview s" and l: "g_kobj_list s' = g_kobj_list s"
    and t: "\<And>t. pend_flags (tasks s' t) = pend_flags (tasks s t) \<and> pend_option (tasks s' t) = pend_option (tasks s t)
      \<and> blk_state (tasks s' t) = blk_state (tasks s t)"
    and x: "\<And>x. x \<noteq> ob \<Longrightarrow> sems s' x = sems s x \<and> events s' x = events s x \<and> queues s' x = queues s x
      \<and> buf_queues s' x = buf_queues s x"
    and ok: "obj_ok s' ob"
  shows "kinv s'"
proof -
  have b: "blks s' = blks s" using v by (simp add: sysview_def)
  have "ksys s'" using k ksys_view [OF v] by (simp add: kinv_def)
  moreover have "reg_ok s'" using k reg_ok_cong [OF l] b by (simp add: kinv_def)
  moreover have "obj_ok s' x" if "x \<noteq> ob" for x
    by (rule obj_ok_mono [OF kinv_obj [OF k, of x]]) (use x [OF that] t b in simp_all)
  moreover have "blk_state (tasks s' t) \<noteq> BLK_INVALID" if "t \<in> all_tasks s'" for t
    using k that l t by (simp add: kinv_def)
  ultimately show ?thesis using ok by (intro kinv_one_object)
qed

text \<open>The early return of a call that has changed nothing.\<close>

lemma good_return:
  assumes "good s" "psr = irq_off s"
  shows "good (RHINO_CRITICAL_EXIT psr (RHINO_CRITICAL_ENTER s))"
  by (rule good_EXIT [OF assms(1)]) (use assms goodD(1,4) [OF assms(1)] in \<open>simp_all add: same_run_def\<close>)

text \<open>
  \<open>same_tasks\<close>: the entry and the end of a critical section that changed no task and no list.
\<close>

definition same_tasks :: "kstate \<Rightarrow> kstate \<Rightarrow> bool" where
  "same_tasks s s' \<longleftrightarrow> tasks s' = tasks s \<and> sysview s' = sysview s \<and> g_kobj_list s' = g_kobj_list s"

lemma good_payload:
  assumes g: "good s" and t: "same_tasks s s'" and r: "same_run s s'"
    and x: "\<And>x. x \<noteq> ob \<Longrightarrow> sems s' x = sems s x \<and> events s' x = events s x \<and> queues s' x = queues s x
      \<and> buf_queues s' x = buf_queues s x"
    and ok: "obj_ok s' ob" and psr: "psr = irq_off s"
  shows "good (RHINO_CRITICAL_EXIT psr s')"
proof -
  have f: "tasks s' = tasks s" "sysview s' = sysview s" "g_kobj_list s' = g_kobj_list s"
    using t by (simp_all add: same_tasks_def)
  then have "kinv s'" by (intro kinv_payload [OF goodD(1) [OF g] _ _ _ x ok]) simp_all
  moreover have "g_ready_queue s' = g_ready_queue s" using f(2) by (simp add: sysview_def)
  ultimately show ?thesis using g r f goodD(4) [OF g] psr by (intro good_EXIT [of s]) simp_all
qed

text \<open>Waking waiters of an object that is not a mutex, and its scheduling point.\<close>

lemma kinv_wake:
  assumes k: "kinv s" and w: "t \<in> set (waiters s ob)" "obj_type (blks s ob) \<noteq> RHINO_MUTEX_OBJ_TYPE"
  shows "kinv (pend_task_wakeup t s)" "\<And>u. task_state (tasks s u) = K_RDY \<Longrightarrow> tasks (pend_task_wakeup t s) u = tasks s u"
proof -
  let ?s = "pend_task_wakeup t s"
  have ks: "ksys s" using k by (simp add: kinv_def)
  have wt: "waiting (tasks s t)" using ksys_waiter(2) [OF ks w(1)] .
  note f = wakeup.wake_fields [OF wt]
  show "kinv ?s"
  proof (rule kinv_step [OF k])
    show "ksys ?s" by (rule wakeup.ksys_wake [OF ks w])
    fix x
    show "obj_type (blks ?s x) = obj_type (blks s x) \<and> set (waiters ?s x) \<subseteq> set (waiters s x)"
      using f(1,2) by (simp add: set_remove1_subset)
  next
    fix u assume "u \<in> all_tasks s"
    then show "pend_flags (tasks ?s u) = pend_flags (tasks s u)
      \<and> pend_option (tasks ?s u) = pend_option (tasks s u) \<and> blk_state (tasks ?s u) \<noteq> BLK_INVALID"
      using k wakeup.wake_task [OF wt] by (simp add: kinv_def)
  qed simp_all
  show "tasks ?s u = tasks s u" if "task_state (tasks s u) = K_RDY" for u
    using that wt wakeup.wake_task [OF wt] by (auto simp: waiting_def)
qed

lemma good_wake:
  assumes g: "good s" and w: "t \<in> set (waiters s ob)" "obj_type (blks s ob) \<noteq> RHINO_MUTEX_OBJ_TYPE"
    and psr: "psr = irq_off s"
  shows "good (RHINO_CRITICAL_EXIT_SCHED psr (pend_task_wakeup t (RHINO_CRITICAL_ENTER s)))"
proof -
  let ?e = "RHINO_CRITICAL_ENTER s"
  have "kinv ?e" "t \<in> set (waiters ?e ob)" "obj_type (blks ?e ob) \<noteq> RHINO_MUTEX_OBJ_TYPE"
    using goodD(1) [OF g] w by simp_all
  note k = kinv_wake [OF this]
  then show ?thesis
    using g goodD(4,6) [OF g] psr by (intro good_EXIT_SCHED [of s]) (simp_all add: same_run_def)
qed

lemma good_wake_all:
  assumes g: "good s" and w: "obj_type (blks s ob) \<noteq> RHINO_MUTEX_OBJ_TYPE" and psr: "psr = irq_off s"
    and n: "n = length (waiters s ob)"
  shows "good (RHINO_CRITICAL_EXIT_SCHED psr (wake_all n pend_task_wakeup ob (RHINO_CRITICAL_ENTER s)))"
proof -
  let ?e = "RHINO_CRITICAL_ENTER s" and ?s = "wake_all n pend_task_wakeup ob (RHINO_CRITICAL_ENTER s)"
  have k0: "ksys ?e" "kinv ?e" using goodD [OF g] by simp_all
  have w0: "obj_type (blks ?e ob) \<noteq> RHINO_MUTEX_OBJ_TYPE" "length (waiters ?e ob) \<le> n"
    using w n by simp_all
  note f = wakeup.wake_all_ksys [OF k0(1) w0]
  have "kinv ?s"
  proof (rule kinv_step [OF k0(2) f(1,7)])
    fix x
    show "obj_type (blks ?s x) = obj_type (blks ?e x) \<and> set (waiters ?s x) \<subseteq> set (waiters ?e x)"
      using f(2) f(3,4) [of x] by (cases "x = ob") simp_all
  next
    fix u assume "u \<in> all_tasks ?e"
    then show "pend_flags (tasks ?s u) = pend_flags (tasks ?e u)
      \<and> pend_option (tasks ?s u) = pend_option (tasks ?e u) \<and> blk_state (tasks ?s u) \<noteq> BLK_INVALID"
      using k0(2) f(6) [of u] by (simp add: kinv_def)
  qed simp_all
  moreover have "same_run s ?s" by (simp add: same_run_def)
  moreover have "task_state (tasks ?s (g_active_task s)) = K_RDY" if "g_sched_lock s > 0"
    using goodD(6) [OF g that] f(5) [of "g_active_task s"] by simp
  ultimately show ?thesis
    using g goodD(4) [OF g] psr by (intro good_EXIT_SCHED [of s]) simp_all
qed

text \<open>
  Blocking the active task. \<open>s1\<close> is the state in which it blocks, which differs from the entry state
  in what the task remembers of its request; \<open>ok\<close> says that the object allows waiting.
\<close>

lemma good_block:
  assumes g: "good s" and k: "kinv s1" and v: "sysview s1 = sysview s" "same_run s s1"
    and n: "g_intrpt_nested_level s = 0" "g_sched_lock s = 0"
    and idle: "g_active_task s \<noteq> g_idle_task" and ob: "obj_type (blks s ob) \<noteq> RHINO_MUTEX_OBJ_TYPE"
    and ok: "obj_ok (pend_to_blk_obj ob (g_active_task s) ticks s1) ob" and psr: "psr = irq_off s"
  shows "good (RHINO_CRITICAL_EXIT_SCHED psr (pend_to_blk_obj ob (g_active_task s) ticks s1))"
proof -
  let ?t = "g_active_task s" and ?s = "pend_to_blk_obj ob (g_active_task s) ticks s1"
  have ks: "ksys s1" using k by (simp add: kinv_def)
  have b: "blks s1 = blks s" "task_head (g_kobj_list s1) = task_head (g_kobj_list s)"
    using v(1) by (simp_all add: sysview_def)
  have "task_view (tasks s1 ?t) = task_view (tasks s ?t)"
    using v(1) by (simp add: sysview_def) meson
  then have ts: "task_state (tasks s1 ?t) = K_RDY" using goodD(5) [OF g n(1)] by (simp add: task_view_def)
  have "kinv ?s"
  proof (rule kinv_one_object [where ob = ob])
    show "ksys ?s" by (rule ksys_block [OF ks _ ts idle]) (use goodD(4) [OF g] b ob in simp_all)
    show "reg_ok ?s" using k reg_ok_cong [of ?s s1] by (simp add: kinv_def)
    show "obj_ok ?s x" if "x \<noteq> ob" for x
      by (rule obj_ok_mono [OF kinv_obj [OF k, of x]]) (use that in simp_all)
  qed (use k ok in \<open>simp_all add: kinv_def\<close>)
  then show ?thesis
    using g psr v(2) n by (intro good_EXIT_SCHED [of s]) (simp_all add: same_run_def)
qed

text \<open>
  Creating an object in memory that holds no live object. The caller of the API guarantees the
  latter: an object that is in use must not be created again.
\<close>

lemma ksys_create:
  assumes k: "ksys s" and t: "tasks s' = tasks s" and ob: "waiters s ob = []"
    "obj_type (blks s ob) \<noteq> RHINO_MUTEX_OBJ_TYPE"
    and b: "blks s' = (blks s)(ob := b)" "blk_list b = []" "blk_policy b = BLK_POLICY_PRI"
    and m: "\<And>x. x \<noteq> ob \<Longrightarrow> mutexes s' x = mutexes s x"
      "obj_type b = RHINO_MUTEX_OBJ_TYPE \<Longrightarrow> mutex_task (mutexes s' ob) = None"
    and f: "g_ready_queue s' = g_ready_queue s" "task_head (g_kobj_list s') = task_head (g_kobj_list s)"
      "g_tick_head s' = g_tick_head s" "g_tick_count s' = g_tick_count s" "k_faults s' = k_faults s"
  shows "ksys s'"
proof -
  let ?T = "all_tasks s"
  have T: "all_tasks s' = ?T" using f(2) by simp
  have w: "waiters s' x = waiters s x" for x using b ob by simp
  have "rq_inv {u \<in> ?T. task_state (tasks s u) = K_RDY} s'"
    using ksysD(6) [OF k] rq_inv_cong [OF f(1)] t by simp
  moreover have "wait_inv {u \<in> ?T. waiting (tasks s u)} s'"
    using ksysD(7) [OF k] w t b ob(1) by (auto simp: wait_inv_def)
  moreover have mo: "m \<in> set (mutex_list (tasks s u)) \<longleftrightarrow>
      obj_type (blks s' m) = RHINO_MUTEX_OBJ_TYPE \<and> mutex_task (mutexes s' m) = Some u" if "u \<in> ?T" for u m
    using core_owned [OF ksysD(1) [OF k] that, of m] m b(1) ob(2) by (cases "m = ob") auto
  moreover have "mutex_ok ?T s'"
    unfolding mutex_ok_def
  proof (intro conjI allI ballI impI)
    fix x assume "obj_type (blks s' x) = RHINO_MUTEX_OBJ_TYPE"
    then show "blk_policy (blks s' x) = BLK_POLICY_PRI"
      "waiters s' x \<noteq> [] \<Longrightarrow> mutex_task (mutexes s' x) \<noteq> None"
      "mutex_task (mutexes s' x) = Some u \<Longrightarrow> u \<in> ?T"
      "mutex_task (mutexes s' x) = Some u \<Longrightarrow> u \<notin> set (waiters s' x)"
      "mutex_task (mutexes s' x) = Some u \<Longrightarrow> 0 < owner_nested (mutexes s' x)" for u
      using ksysD(8) [OF k] b m w by (cases "x = ob"; simp add: mutex_ok_def)+
  qed (use mo t ksysD(8) [OF k] in \<open>auto simp: mutex_ok_def\<close>)
  ultimately have c: "core ?T s'" using ksysD [OF k] t by (simp add: core_def)
  have "donors s' x = donors s x" for x using w t by (simp add: donors_def)
  then have "all_eff (base s') ?T s'" using ksysD(2) [OF k] t by (simp add: all_eff_def is_eff_def)
  moreover have "tick_inv s'" using ksysD(3) [OF k] tick_inv_cong [OF f(3,4) T] t by simp
  ultimately show ?thesis using c k t f T by (simp add: ksys_def)
qed

lemma good_create:
  assumes g: "good s" and t: "tasks s' = tasks s" and ob: "obj_type (blks s ob) = RHINO_OBJ_TYPE_NONE"
    and b: "blks s' = (blks s)(ob := b)" "blk_list b = []" "blk_policy b = BLK_POLICY_PRI"
    and m: "\<And>x. x \<noteq> ob \<Longrightarrow> mutexes s' x = mutexes s x"
      "obj_type b = RHINO_MUTEX_OBJ_TYPE \<Longrightarrow> mutex_task (mutexes s' ob) = None"
    and f: "g_ready_queue s' = g_ready_queue s" "task_head (g_kobj_list s') = task_head (g_kobj_list s)"
      "g_tick_head s' = g_tick_head s" "g_tick_count s' = g_tick_count s" "k_faults s' = k_faults s"
    and x: "\<And>x. x \<noteq> ob \<Longrightarrow> sems s' x = sems s x \<and> events s' x = events s x \<and> queues s' x = queues s x
      \<and> buf_queues s' x = buf_queues s x"
    and ok: "reg_ok s'" "obj_ok s' ob" and r: "same_run s s'" "irq_off s' = irq_off s"
  shows "good s'"
proof -
  have "waiters s ob = []" using kinv_obj [OF goodD(1) [OF g], of ob] ob by (simp add: obj_ok_def)
  then have "ksys s'" using ksys_create [OF goodD(2) [OF g] t _ _ b m f] ob by simp
  moreover have "obj_ok s' y" if "y \<noteq> ob" for y
    by (rule obj_ok_mono [OF kinv_obj [OF goodD(1) [OF g], of y]]) (use x [OF that] t b(1) that in simp_all)
  ultimately have "kinv s'"
    using ok goodD(1) [OF g] t f(2) by (intro kinv_one_object [where ob = ob]) (simp_all add: kinv_def)
  moreover have "run_ok s'"
    using goodD(3) [OF g] best_cong [OF f(1)] t f(2) r by (simp add: run_ok_def same_run_def)
  ultimately show ?thesis by (simp add: good_def)
qed

text \<open>The deletion of an object that is not a mutex, with the change \<open>f\<close> of its contents and registry.\<close>

lemma good_delete:
  assumes g: "good s" and ty: "obj_type (blks s ob) \<noteq> RHINO_MUTEX_OBJ_TYPE" and psr: "psr = irq_off s"
    and s1: "s1 = obj_unlink ob (RHINO_CRITICAL_ENTER s)"
    and v: "sysview s' = sysview s1" "tasks s' = tasks s1" "same_run s1 s'" "reg_ok s'"
    and x: "\<And>x. x \<noteq> ob \<Longrightarrow> sems s' x = sems s1 x \<and> events s' x = events s1 x \<and> queues s' x = queues s1 x
      \<and> buf_queues s' x = buf_queues s1 x"
  shows "good (RHINO_CRITICAL_EXIT_SCHED psr s')"
proof -
  have k0: "kinv (RHINO_CRITICAL_ENTER s)" using goodD(1) [OF g] by simp
  have "obj_type (blks (RHINO_CRITICAL_ENTER s) ob) \<noteq> RHINO_MUTEX_OBJ_TYPE" using ty by simp
  note u = obj_unlink_spec [OF k0 this, folded s1]
  have b: "blks s' = blks s1" "task_head (g_kobj_list s') = task_head (g_kobj_list s)"
    using v(1) u(7) by (simp_all add: sysview_def)
  have "kinv s'"
  proof (rule kinv_one_object [where ob = ob])
    show "ksys s'" using u(1) ksys_view [OF v(1)] by simp
    show "obj_ok s' ob" using u(2,4) b by (simp add: obj_ok_def)
    show "obj_ok s' y" if "y \<noteq> ob" for y
      by (rule obj_ok_mono [OF u(3) [OF that]]) (use x [OF that] b v(2) in simp_all)
  qed (use v u(6) b in simp_all)
  moreover have "same_run s s'" using u(8) v(3) by (simp add: same_run_def)
  moreover have "task_state (tasks s' (g_active_task s)) = K_RDY" if "g_sched_lock s > 0"
    using goodD(6) [OF g that] u(5) [of "g_active_task s"] v(2) by simp
  ultimately show ?thesis using g psr goodD(4) [OF g] b by (intro good_EXIT_SCHED [of s]) simp_all
qed

text \<open>The registry when one object changes its type.\<close>

lemma reg_ok_swap:
  assumes "reg_ok s" "g_kobj_list s' = f (g_kobj_list s)"
    "\<And>x. obj_type (blks s' x) = (if x = ob then ty else obj_type (blks s x))"
    "\<And>l old. (l, old) \<in> {(sem_head, RHINO_SEM_OBJ_TYPE), (mutex_head, RHINO_MUTEX_OBJ_TYPE),
        (event_head, RHINO_EVENT_OBJ_TYPE), (queue_head, RHINO_QUEUE_OBJ_TYPE),
        (buf_queue_head, RHINO_BUF_QUEUE_OBJ_TYPE)}
      \<Longrightarrow> l (f (g_kobj_list s)) = (if ty = old then l (g_kobj_list s) @ [ob]
           else if obj_type (blks s ob) = old then remove1 ob (l (g_kobj_list s)) else l (g_kobj_list s))"
    "obj_type (blks s ob) \<noteq> ty"
  shows "reg_ok s'"
proof -
  have *: "distinct (l (f (g_kobj_list s))) \<and> set (l (f (g_kobj_list s))) = {x. obj_type (blks s' x) = old}"
    if "(l, old) \<in> {(sem_head, RHINO_SEM_OBJ_TYPE), (mutex_head, RHINO_MUTEX_OBJ_TYPE),
        (event_head, RHINO_EVENT_OBJ_TYPE), (queue_head, RHINO_QUEUE_OBJ_TYPE),
        (buf_queue_head, RHINO_BUF_QUEUE_OBJ_TYPE)}" for l old
  proof -
    have "distinct (l (g_kobj_list s)) \<and> set (l (g_kobj_list s)) = {x. obj_type (blks s x) = old}"
      using assms(1) that by (auto simp: reg_ok_def Let_def)
    then show ?thesis unfolding assms(4) [OF that] using assms(3,5) by auto
  qed
  show ?thesis
    using * [of sem_head RHINO_SEM_OBJ_TYPE] * [of mutex_head RHINO_MUTEX_OBJ_TYPE]
      * [of event_head RHINO_EVENT_OBJ_TYPE] * [of queue_head RHINO_QUEUE_OBJ_TYPE]
      * [of buf_queue_head RHINO_BUF_QUEUE_OBJ_TYPE]
    by (simp add: reg_ok_def Let_def assms(2))
qed

end
