(* ===== verification/Tick_Update.thy ===== *)
theory Tick_Update
  imports Kobj
begin

text \<open>
  The passing of time: \<open>tick_list_update\<close> of \<^verbatim>\<open>core/k_tick.c\<close>, called by \<open>krhino_tick_proc\<close> of
  \<^verbatim>\<open>core/k_time.c\<close> in the tick interrupt. Tasks whose time is over become ready; a task that waited
  for a mutex takes its priority back from the owner.

  While the tasks expire the tick list holds tasks with no time left, so the invariant of the
  scheduler's data is split: \<open>tsys\<close> is the part without the tick list.
\<close>

section \<open>The code\<close>

text \<open>The difference of the two counters as \<open>tick_i_t\<close>.\<close>

definition tick_delta :: "kstate \<Rightarrow> tid \<Rightarrow> int" where
  "tick_delta s t = sint (tick_match (tasks s t) - g_tick_count s)"

definition tick_expire :: "tid \<Rightarrow> kstate \<Rightarrow> kstate" where
  "tick_expire t s = (let st = task_state (tasks s t) in
     if st = K_SLEEP then
       (let s1 = upd_task t (\<lambda>x. x\<lparr>blk_state := BLK_FINISH, task_state := K_RDY\<rparr>) s
        in ready_list_add t (tick_list_rm t s1))
     else if st = K_PEND then
       (let s1 = ready_list_add t (task_list_rm t (tick_list_rm t s));
            s2 = upd_task t (\<lambda>x. x\<lparr>blk_state := BLK_TIMEOUT, task_state := K_RDY\<rparr>) s1
        in upd_task t (\<lambda>x. x\<lparr>blk_obj := None\<rparr>) (mutex_task_pri_reset t s2))
     else if st = K_PEND_SUSPENDED then
       (let s1 = task_list_rm t (tick_list_rm t s);
            s2 = upd_task t (\<lambda>x. x\<lparr>blk_state := BLK_TIMEOUT, task_state := K_SUSPENDED\<rparr>) s1
        in upd_task t (\<lambda>x. x\<lparr>blk_obj := None\<rparr>) (mutex_task_pri_reset t s2))
     else if st = K_SLEEP_SUSPENDED then
       tick_list_rm t (upd_task t (\<lambda>x. x\<lparr>task_state := K_SUSPENDED, blk_state := BLK_FINISH\<rparr>) s)
     else k_err_proc RHINO_SYS_FATAL_ERR s)"

text \<open>The walk from the head; the loop keeps the successor before it unlinks a task.\<close>

fun tick_scan :: "tid list \<Rightarrow> kstate \<Rightarrow> kstate" where
  "tick_scan [] s = s"
| "tick_scan (t # ts) s = (if tick_delta s t \<le> 0 then tick_scan ts (tick_expire t s) else s)"

definition tick_list_update :: "u64 \<Rightarrow> kstate \<Rightarrow> kstate" where
  "tick_list_update ticks s = (let psr = irq_off s; s0 = RHINO_CRITICAL_ENTER s;
       s1 = s0\<lparr>g_tick_count := g_tick_count s0 + ticks\<rparr>
     in RHINO_CRITICAL_EXIT psr (tick_scan (g_tick_head s1) s1))"

text \<open>The watchdog of the board, fed at the end of the handler, is not part of the kernel's state.\<close>

definition krhino_tick_proc :: "kstate \<Rightarrow> kstate" where
  "krhino_tick_proc s = time_slice_update (tick_list_update 1 s)"

section \<open>A task leaves its wait list\<close>

text \<open>
  \<open>s1\<close> is \<open>s\<close> after the waiting task \<open>t\<close> has been unlinked and is no longer waiting; \<open>T'\<close> is the set
  of tasks afterwards, which may have lost \<open>t\<close>. What \<open>mutex_task_pri_reset\<close> needs holds.
\<close>

lemma core_unwait:
  assumes c: "core T s" "\<And>x. x \<in> T' \<Longrightarrow> is_eff (base s) s x (prio (tasks s x))"
    and t: "t \<in> T" "waiting (tasks s t)" "t \<noteq> g_idle_task" "blk_obj (tasks s t) = Some ob"
    and T': "T' = T \<or> T' = T - {t} \<and> mutex_list (tasks s t) = []"
    and w: "\<And>x. waiters s1 x = remove1 t (waiters s x)"
      "\<And>x. obj_type (blks s1 x) = obj_type (blks s x) \<and> blk_policy (blks s1 x) = blk_policy (blks s x)"
    and m: "mutexes s1 = mutexes s"
    and u: "\<And>u. u \<noteq> t \<Longrightarrow> tasks s1 u = tasks s u"
    and t1: "prio (tasks s1 t) = prio (tasks s t)" "b_prio (tasks s1 t) = b_prio (tasks s t)"
      "mutex_list (tasks s1 t) = mutex_list (tasks s t)" "blk_obj (tasks s1 t) = blk_obj (tasks s t)"
      "\<not> waiting (tasks s1 t)" "t \<in> T' \<Longrightarrow> task_state (tasks s1 t) \<notin> {K_SEED, K_DELETED}"
    and rq: "rq_inv {u \<in> T'. task_state (tasks s1 u) = K_RDY} s1"
  shows "core T' s1" "blk_obj (tasks s1 t) = Some ob"
    "obj_type (blks s1 ob) = RHINO_MUTEX_OBJ_TYPE \<Longrightarrow> \<exists>x. mutex_task (mutexes s1 ob) = Some x"
    "\<And>x. x \<in> T' \<Longrightarrow> \<not> (obj_type (blks s1 ob) = RHINO_MUTEX_OBJ_TYPE
        \<and> mutex_task (mutexes s1 ob) = Some x \<and> prio (tasks s1 x) = prio (tasks s1 t))
      \<Longrightarrow> is_eff (base s1) s1 x (prio (tasks s1 x))"
    "\<And>x. x \<in> T' \<Longrightarrow> base s1 x = base s x"
proof -
  have sub: "T' \<subseteq> T" using T' by auto
  have f: "prio (tasks s1 x) = prio (tasks s x)" "b_prio (tasks s1 x) = b_prio (tasks s x)"
    "mutex_list (tasks s1 x) = mutex_list (tasks s x)" "blk_obj (tasks s1 x) = blk_obj (tasks s x)" for x
    using u [of x] t1 by (cases "x = t"; simp)+
  then show "\<And>x. x \<in> T' \<Longrightarrow> base s1 x = base s x" by simp
  have W: "{x \<in> T'. waiting (tasks s1 x)} = {x \<in> T. waiting (tasks s x)} - {t}"
  proof -
    have "x \<in> T' \<and> waiting (tasks s1 x) \<longleftrightarrow> x \<in> T \<and> waiting (tasks s x) \<and> x \<noteq> t" for x
      using u [of x] t1(5) T' by (cases "x = t") auto
    then show ?thesis by auto
  qed
  have "wait_inv ({x \<in> T. waiting (tasks s x)} - {t}) s1"
    using wait_inv_rm [of "{x \<in> T. waiting (tasks s x)}" s t] c(1) w f
    by (subst wait_inv_cong [of s1 "task_list_rm t s"]) (auto simp: core_def)
  moreover have "mutex_ok T' s1"
  proof -
    have own: "x \<in> T'" if "obj_type (blks s y) = RHINO_MUTEX_OBJ_TYPE" "mutex_task (mutexes s y) = Some x" for x y
    proof -
      have "x \<in> T" using c(1) that by (auto simp: core_def mutex_ok_def)
      moreover have "y \<in> set (mutex_list (tasks s x))" using core_owned [OF c(1) \<open>x \<in> T\<close>] that by simp
      ultimately show ?thesis using T' by auto
    qed
    have "waiters s y \<noteq> []" if "waiters s1 y \<noteq> []" for y using that w by auto
    then show ?thesis
      using c(1) w m f sub own unfolding core_def mutex_ok_def
      by (auto dest: notin_set_remove1 simp: subset_iff)
  qed
  moreover have "g_idle_task \<in> T'" using c(1) T' t(3) by (auto simp: core_def)
  ultimately show "core T' s1"
    using c(1) rq u f sub t1(6) t(3) unfolding core_def W
    by (auto simp: subset_iff) (metis t1(6))+
  show "blk_obj (tasks s1 t) = Some ob" using t(4) t1(4) by simp
  show "\<exists>x. mutex_task (mutexes s1 ob) = Some x" if "obj_type (blks s1 ob) = RHINO_MUTEX_OBJ_TYPE"
    using core_owner [OF c(1) t(1,2,4)] that w(2) m by metis
  fix x assume x: "x \<in> T'" and nx: "\<not> (obj_type (blks s1 ob) = RHINO_MUTEX_OBJ_TYPE
        \<and> mutex_task (mutexes s1 ob) = Some x \<and> prio (tasks s1 x) = prio (tasks s1 t))"
  have xT: "x \<in> T" using x sub by auto
  have d: "donors s1 x = donors s x - {t}"
  proof -
    have "set (remove1 t (waiters s y)) = set (waiters s y) - {t}" for y
      using c(1) wait_inv_distinct by (fastforce simp: core_def)
    then show ?thesis using f w by (auto simp: donors_def)
  qed
  have e: "is_eff (base s) s x (prio (tasks s x))" using c(2) x by blast
  have "prio (tasks s x) \<noteq> prio (tasks s t)" if "t \<in> donors s x"
    using that core_donor [OF c(1) xT] t(4) nx w(2) m f by auto
  then show "is_eff (base s1) s1 x (prio (tasks s1 x))"
    using e unfolding is_eff_def d f by blast
qed

section \<open>One task expires\<close>

text \<open>\<open>expired t s s'\<close>: what the expiry of task \<open>t\<close> does, apart from priorities and the order of lists.\<close>

definition expired :: "tid \<Rightarrow> kstate \<Rightarrow> kstate \<Rightarrow> bool" where
  "expired t s s' \<longleftrightarrow> g_tick_head s' = remove1 t (g_tick_head s) \<and> g_tick_count s' = g_tick_count s
     \<and> (\<forall>u. tick_match (tasks s' u) = tick_match (tasks s u)
          \<and> tick_head (tasks s' u) = (tick_head (tasks s u) \<and> u \<noteq> t)
          \<and> pend_flags (tasks s' u) = pend_flags (tasks s u) \<and> pend_option (tasks s' u) = pend_option (tasks s u))
     \<and> (\<forall>u. u \<noteq> t \<longrightarrow> task_state (tasks s' u) = task_state (tasks s u)
          \<and> blk_state (tasks s' u) = blk_state (tasks s u))
     \<and> task_state (tasks s' t) = (if suspended (tasks s t) then K_SUSPENDED else K_RDY)
     \<and> blk_state (tasks s' t) = (if waiting (tasks s t) then BLK_TIMEOUT else BLK_FINISH)
     \<and> sems s' = sems s \<and> events s' = events s \<and> queues s' = queues s \<and> buf_queues s' = buf_queues s
     \<and> g_kobj_list s' = g_kobj_list s \<and> same_run s s' \<and> irq_off s' = irq_off s
     \<and> (\<forall>x. obj_type (blks s' x) = obj_type (blks s x) \<and> set (waiters s' x) \<subseteq> set (waiters s x))"

lemma tick_list_rm_fun: "tasks (tick_list_rm t s) = (tasks s)(t := (tasks s t)\<lparr>tick_head := False\<rparr>)"
  by (auto simp: tick_list_rm_def upd_task_def)

lemma tick_expire_sleep_tasks:
  assumes "sleeping (tasks s t)"
  shows "tasks (tick_expire t s) = (tasks s)(t := (tasks s t)\<lparr>tick_head := False, blk_state := BLK_FINISH,
    task_state := if task_state (tasks s t) = K_SLEEP then K_RDY else K_SUSPENDED\<rparr>)"
  using assms by (auto simp: tick_expire_def Let_def sleeping_def tick_list_rm_fun upd_task_def)

lemma tick_expire_sleep:
  assumes k: "tsys s" and t: "t \<in> all_tasks s" "sleeping (tasks s t)"
  shows "tsys (tick_expire t s)"
proof (rule tsys_assemble [OF k])
  let ?s = "tick_expire t s"
  let ?s1 = "tick_list_rm t (upd_task t (\<lambda>x. x\<lparr>blk_state := BLK_FINISH, task_state := K_RDY\<rparr>) s)"
  have nr: "task_state (tasks s t) \<noteq> K_RDY" "\<not> waiting (tasks s t)" "t \<noteq> g_idle_task"
    using t(2) tsysD(7) [OF k] by (auto simp: sleeping_def waiting_def)
  have st: "task_state (tasks ?s u) = (if u = t then (if task_state (tasks s t) = K_SLEEP then K_RDY else K_SUSPENDED)
      else task_state (tasks s u))" for u
    by (simp add: tick_expire_sleep_tasks [OF t(2)])
  have "rq_inv {u \<in> all_tasks s. task_state (tasks s u) = K_RDY} ?s1"
    using tsysD(12) [OF k] nr by (subst rq_inv_cong [of ?s1 s]) auto
  then have "rq_inv (insert t {u \<in> all_tasks s. task_state (tasks s u) = K_RDY}) (ready_list_add t ?s1)"
    using nr tsysD(10) [OF k t(1)] by (intro rq_inv_add) simp_all
  moreover have "rq_inv {u \<in> all_tasks s. task_state (tasks s u) = K_RDY} ?s" if "task_state (tasks s t) \<noteq> K_SLEEP"
    using tsysD(12) [OF k] nr that t(2)
    by (subst rq_inv_cong [of ?s s]) (auto simp: tick_expire_def Let_def sleeping_def)
  moreover have "{u \<in> all_tasks s. task_state (tasks ?s u) = K_RDY} =
      (if task_state (tasks s t) = K_SLEEP then insert t {u \<in> all_tasks s. task_state (tasks s u) = K_RDY}
       else {u \<in> all_tasks s. task_state (tasks s u) = K_RDY})"
    using t(1) nr by (auto simp: st)
  ultimately show "rq_inv {u \<in> all_tasks s. task_state (tasks ?s u) = K_RDY} ?s"
    by (auto simp: tick_expire_def Let_def)
  have "{u \<in> all_tasks s. waiting (tasks ?s u)} = {u \<in> all_tasks s. waiting (tasks s u)}"
    using nr(2) by (auto simp: waiting_def st split: if_splits)
  then show "wait_inv {u \<in> all_tasks s. waiting (tasks ?s u)} ?s"
    using tsysD(13) [OF k] t(2)
    by (subst wait_inv_cong [of ?s s]) (auto simp: tick_expire_def Let_def sleeping_def)
  fix u assume u: "u \<in> all_tasks s"
  have "task_ok (tasks ?s u)"
    using tsysD(8) [OF k u] t(2) unfolding tick_expire_sleep_tasks [OF t(2)]
    by (cases "u = t") (auto simp: task_ok_def waiting_def sleeping_def suspended_def)
  then show "task_ok (tasks ?s u) \<and> task_state (tasks ?s u) \<notin> {K_SEED, K_DELETED}
      \<and> prio (tasks ?s u) = prio (tasks s u) \<and> b_prio (tasks ?s u) = b_prio (tasks s u)
      \<and> mutex_list (tasks ?s u) = mutex_list (tasks s u)"
    using tsysD(9) [OF k u] by (simp add: tick_expire_sleep_tasks [OF t(2)])
next
  show "task_state (tasks (tick_expire t s) g_idle_task) = K_RDY"
    using tsysD(7) [OF k] t(2) unfolding tick_expire_sleep_tasks [OF t(2)] by (auto simp: sleeping_def)
qed (use t(2) tsysD(6) [OF k] in \<open>auto simp: tick_expire_def Let_def sleeping_def\<close>)

text \<open>A task that does not wait may forget the object it waited for.\<close>

lemma core_clear_blk:
  assumes c: "core T s" and t: "\<not> waiting (tasks s t)"
  shows "core T (upd_task t (\<lambda>x. x\<lparr>blk_obj := None\<rparr>) s)"
    "all_eff B T s \<Longrightarrow> all_eff B T (upd_task t (\<lambda>x. x\<lparr>blk_obj := None\<rparr>) s)"
proof -
  let ?s = "upd_task t (\<lambda>x. x\<lparr>blk_obj := None\<rparr>) s"
  have R: "{u \<in> T. task_state (tasks ?s u) = K_RDY} = {u \<in> T. task_state (tasks s u) = K_RDY}"
    "{u \<in> T. waiting (tasks ?s u)} = {u \<in> T. waiting (tasks s u)}"
    by (auto simp: waiting_def)
  have "rq_inv {u \<in> T. task_state (tasks s u) = K_RDY} ?s"
    using c by (subst rq_inv_cong [of ?s s]) (auto simp: core_def)
  moreover have "wait_inv {u \<in> T. waiting (tasks s u)} ?s"
    using c t by (subst wait_inv_cong [of ?s s]) (auto simp: core_def)
  moreover have "mutex_ok T ?s" using c by (subst mutex_ok_cong [of ?s s]) (auto simp: core_def)
  ultimately show "core T ?s" using c unfolding core_def R by simp
  show "all_eff B T ?s" if "all_eff B T s"
  proof -
    have f: "prio (tasks ?s u) = prio (tasks s u)" "mutex_list (tasks ?s u) = mutex_list (tasks s u)" for u
      by simp_all
    then have "donors ?s x = donors s x" for x by (simp only: donors_def upd_task_frame)
    then show ?thesis using that unfolding all_eff_def is_eff_def f by simp
  qed
qed

text \<open>Nobody waits for a mutex of the idle task, so it has its own priority.\<close>

lemma idle_prio: "core T s \<Longrightarrow> all_eff B T s \<Longrightarrow> prio (tasks s g_idle_task) = B g_idle_task"
  by (auto simp: core_def all_eff_def is_eff_def donors_def)

text \<open>The waiting cases. \<open>s1\<close> is the state in which \<open>mutex_task_pri_reset\<close> is called.\<close>

definition unwait :: "tid \<Rightarrow> kstate \<Rightarrow> kstate" where
  "unwait t s = upd_task t (\<lambda>x. x\<lparr>blk_state := BLK_TIMEOUT,
       task_state := if task_state (tasks s t) = K_PEND then K_RDY else K_SUSPENDED\<rparr>)
     (if task_state (tasks s t) = K_PEND then ready_list_add t (task_list_rm t (tick_list_rm t s))
      else task_list_rm t (tick_list_rm t s))"

lemma tick_expire_unwait:
  "waiting (tasks s t) \<Longrightarrow>
    tick_expire t s = upd_task t (\<lambda>x. x\<lparr>blk_obj := None\<rparr>) (mutex_task_pri_reset t (unwait t s))"
  by (auto simp: tick_expire_def unwait_def Let_def waiting_def)

lemma unwait_tasks:
  "tasks (unwait t s) = (tasks s)(t := (tasks s t)\<lparr>tick_head := False, blk_state := BLK_TIMEOUT,
     task_state := if task_state (tasks s t) = K_PEND then K_RDY else K_SUSPENDED\<rparr>)"
  by (auto simp: unwait_def tick_list_rm_fun upd_task_def)

lemma unwait_frame:
  "waiters (unwait t s) x = remove1 t (waiters s x)" "obj_type (blks (unwait t s) x) = obj_type (blks s x)"
  "blk_policy (blks (unwait t s) x) = blk_policy (blks s x)" "mutexes (unwait t s) = mutexes s"
  "k_faults (unwait t s) = k_faults s" "g_kobj_list (unwait t s) = g_kobj_list s"
  "sems (unwait t s) = sems s" "events (unwait t s) = events s" "queues (unwait t s) = queues s"
  "buf_queues (unwait t s) = buf_queues s" "g_tick_count (unwait t s) = g_tick_count s"
  "same_run s (unwait t s)" "irq_off (unwait t s) = irq_off s"
  "g_tick_head (unwait t s) = g_tick_head (tick_list_rm t s)"
  by (simp_all add: unwait_def same_run_def)

lemma unwait_rq:
  assumes k: "tsys s" and t: "t \<in> all_tasks s" "waiting (tasks s t)"
  shows "rq_inv {u \<in> all_tasks s. task_state (tasks (unwait t s) u) = K_RDY} (unwait t s)"
proof -
  let ?R = "{u \<in> all_tasks s. task_state (tasks s u) = K_RDY}"
  let ?s1 = "task_list_rm t (tick_list_rm t s)"
  have nr: "t \<notin> ?R" using t(2) by (auto simp: waiting_def)
  have 1: "rq_inv ?R ?s1" using tsysD(12) [OF k] by (subst rq_inv_cong [of ?s1 s]) auto
  have 2: "rq_inv (insert t ?R) (ready_list_add t ?s1)"
    using 1 nr tsysD(10) [OF k t(1)] by (intro rq_inv_add) simp_all
  have R: "{u \<in> all_tasks s. task_state (tasks (unwait t s) u) = K_RDY} =
      (if task_state (tasks s t) = K_PEND then insert t ?R else ?R)"
    using t nr by (auto simp: unwait_tasks)
  show ?thesis
  proof (cases "task_state (tasks s t) = K_PEND")
    case True
    have "rq_inv (insert t ?R) (unwait t s)"
      using 2 by (subst rq_inv_cong [of _ "ready_list_add t ?s1"]) (auto simp: unwait_def True)
    then show ?thesis unfolding R using True by simp
  next
    case False
    have "rq_inv ?R (unwait t s)"
      using 1 by (subst rq_inv_cong [of _ ?s1]) (auto simp: unwait_def False)
    then show ?thesis unfolding R using False by simp
  qed
qed

lemma tick_expire_wait:
  assumes k: "tsys s" and t: "t \<in> all_tasks s" "waiting (tasks s t)"
  shows "tsys (tick_expire t s)" "forget (mutex_task_pri_reset t (unwait t s)) = forget (unwait t s)"
    "core (all_tasks s) (tick_expire t s)"
proof -
  let ?T = "all_tasks s" and ?s1 = "unwait t s" and ?s2 = "mutex_task_pri_reset t (unwait t s)"
  have ti: "t \<noteq> g_idle_task" using t(2) tsysD(7) [OF k] by (auto simp: waiting_def)
  obtain ob where ob: "blk_obj (tasks s t) = Some ob" using core_blk_obj [OF tsysD(1) [OF k] t] by blast
  have nw: "\<not> waiting (tasks ?s1 t)" by (auto simp: unwait_tasks waiting_def)
  have ef: "\<And>x. x \<in> ?T \<Longrightarrow> is_eff (base s) s x (prio (tasks s x))" using tsysD(2) [OF k] by (simp add: all_eff_def)
  note u = core_unwait [OF tsysD(1) [OF k] ef t ti ob, of ?T ?s1]
  have c: "core ?T ?s1" "blk_obj (tasks ?s1 t) = Some ob"
    "obj_type (blks ?s1 ob) = RHINO_MUTEX_OBJ_TYPE \<Longrightarrow> \<exists>x. mutex_task (mutexes ?s1 ob) = Some x"
    "\<And>x. x \<in> ?T \<Longrightarrow> \<not> (obj_type (blks ?s1 ob) = RHINO_MUTEX_OBJ_TYPE
        \<and> mutex_task (mutexes ?s1 ob) = Some x \<and> prio (tasks ?s1 x) = prio (tasks ?s1 t))
      \<Longrightarrow> is_eff (base ?s1) ?s1 x (prio (tasks ?s1 x))"
    by (rule u; use nw unwait_rq [OF k t] in \<open>simp add: unwait_frame unwait_tasks\<close>)+
  have T1: "?T \<subseteq> all_tasks ?s1" by (simp add: unwait_frame)
  note r = mutex_task_pri_reset_spec [OF c(1) T1 c(2,3,4)]
  show fg: "forget ?s2 = forget ?s1" using r(4) .
  note ft = forget_tasks [OF fg] and ff = forget_fields [OF fg]
  have nw2: "\<not> waiting (tasks ?s2 t)" using nw ft(8) [of t] by (simp add: waiting_def)
  have tk: "all_tasks (tick_expire t s) = ?T"
    using ff(6) by (simp add: tick_expire_unwait [OF t(2)] unwait_frame)
  show c2: "core ?T (tick_expire t s)"
    unfolding tick_expire_unwait [OF t(2)] by (rule core_clear_blk(1) [OF r(1) nw2])
  have "all_eff (base ?s1) ?T (tick_expire t s)"
    unfolding tick_expire_unwait [OF t(2)] by (rule core_clear_blk(2) [OF r(1) nw2 r(2)])
  moreover have "base (tick_expire t s) = base ?s1"
    using ft(18) by (simp add: tick_expire_unwait [OF t(2)] fun_eq_iff)
  ultimately have e: "all_eff (base (tick_expire t s)) ?T (tick_expire t s)" by simp
  have tok: "task_ok (tasks (tick_expire t s) u)" if "u \<in> ?T" for u
  proof -
    have "task_ok (tasks ?s1 u)"
      using tsysD(8) [OF k that] t(2)
      by (cases "u = t") (auto simp: unwait_tasks task_ok_def waiting_def sleeping_def suspended_def)
    then show ?thesis
      using ft(1,5,8) [of u]
      by (cases "u = t") (simp_all add: tick_expire_unwait [OF t(2)] task_ok_def waiting_def sleeping_def suspended_def)
  qed
  have idle: "prio (tasks (tick_expire t s) g_idle_task) = RHINO_IDLE_PRI"
  proof -
    have "prio (tasks (tick_expire t s) g_idle_task) = b_prio (tasks (tick_expire t s) g_idle_task)"
      using idle_prio [OF c2 e] .
    also have "\<dots> = b_prio (tasks s g_idle_task)"
      using ft(18) [of g_idle_task] ti by (simp add: tick_expire_unwait [OF t(2)] unwait_tasks)
    also have "\<dots> = RHINO_IDLE_PRI" using idle_prio [OF tsysD(1,2) [OF k]] k by (simp add: tsys_def)
    finally show ?thesis .
  qed
  have "k_faults (tick_expire t s) = []"
    using r(3) tsysD(6) [OF k] by (simp add: tick_expire_unwait [OF t(2)] unwait_frame)
  moreover have "distinct (task_head (g_kobj_list (tick_expire t s)))"
    using k ff(6) by (simp add: tick_expire_unwait [OF t(2)] unwait_frame tsys_def)
  ultimately show "tsys (tick_expire t s)"
    unfolding tsys_def tk using c2 e tok idle by simp
qed

lemma tick_list_rm_head_list:
  "(tick_head (tasks s t) \<longleftrightarrow> t \<in> set (g_tick_head s)) \<Longrightarrow> g_tick_head (tick_list_rm t s) = remove1 t (g_tick_head s)"
  by (auto simp: tick_list_rm_def remove1_idem)

lemma tick_expire_expired:
  assumes k: "tsys s" and t: "t \<in> all_tasks s" "waiting (tasks s t) \<or> sleeping (tasks s t)"
    and h: "tick_head (tasks s t) \<longleftrightarrow> t \<in> set (g_tick_head s)"
  shows "expired t s (tick_expire t s)"
proof (cases "waiting (tasks s t)")
  case False
  then have sl: "sleeping (tasks s t)" using t(2) by simp
  then have "g_tick_head (tick_expire t s) = remove1 t (g_tick_head s)"
    using h tick_list_rm_head_list [of "upd_task t f s" t for f]
    by (auto simp: tick_expire_def Let_def sleeping_def)
  moreover have "waiters (tick_expire t s) x = waiters s x" "obj_type (blks (tick_expire t s) x) = obj_type (blks s x)" for x
    using sl by (auto simp: tick_expire_def Let_def sleeping_def)
  ultimately show ?thesis
    using sl False unfolding expired_def tick_expire_sleep_tasks [OF sl]
    by (auto simp: tick_expire_def Let_def sleeping_def suspended_def same_run_def)
next
  case True
  let ?s = "tick_expire t s" and ?s2 = "mutex_task_pri_reset t (unwait t s)"
  note x = tick_expire_wait [OF k t(1) True]
  note e = tick_expire_unwait [OF True]
  note ft = forget_tasks [OF x(2)] and ff = forget_fields [OF x(2)] and fb = forget_blks [OF x(2)]
  have st: "task_state (tasks ?s u) = task_state (tasks (unwait t s) u)" "blk_state (tasks ?s u) = blk_state (tasks (unwait t s) u)"
    "tick_head (tasks ?s u) = tick_head (tasks (unwait t s) u)" "tick_match (tasks ?s u) = tick_match (tasks (unwait t s) u)"
    "pend_flags (tasks ?s u) = pend_flags (tasks (unwait t s) u)" "pend_option (tasks ?s u) = pend_option (tasks (unwait t s) u)"
    "blk_obj (tasks ?s u) = (if u = t then None else blk_obj (tasks (unwait t s) u))" for u
    using ft(3,5,8,9,10,14,16) [of u] unfolding e by (cases "u = t"; simp)+
  have "set (waiters ?s y) \<subseteq> set (waiters s y)" for y
  proof
    fix u assume "u \<in> set (waiters ?s y)"
    then have "u \<in> all_tasks s" "waiting (tasks ?s u)" "blk_obj (tasks ?s u) = Some y"
      using core_waiter [OF x(3)] by auto
    then show "u \<in> set (waiters s y)"
      using core_waiter [OF tsysD(1) [OF k]] st(1,7) [of u]
      by (cases "u = t") (auto simp: waiting_def unwait_tasks)
  qed
  moreover have "obj_type (blks ?s y) = obj_type (blks s y)" for y
    using fb(1) [of y] by (simp add: e unwait_frame)
  moreover have "same_run s ?s"
    using unwait_frame(12) [of s t] ff(9,11,12,18) by (simp add: same_run_def e)
  moreover have "g_tick_head ?s = remove1 t (g_tick_head s)"
    using ff(7) tick_list_rm_head_list [OF h] by (simp add: e unwait_frame)
  ultimately show ?thesis
    using True ff(1,3,4,5,6,8,17) unfolding expired_def st
    by (auto simp: unwait_tasks unwait_frame e waiting_def suspended_def)
qed

section \<open>The walk\<close>

definition tick_ord :: "kstate \<Rightarrow> bool" where
  "tick_ord s \<longleftrightarrow> distinct (g_tick_head s) \<and> set (g_tick_head s) = {t \<in> all_tasks s. tick_head (tasks s t)}
     \<and> sorted_wrt (\<lambda>a b. tick_left s a \<le> tick_left s b) (g_tick_head s)"

lemma tick_inv_ord: "tick_inv s \<longleftrightarrow> tick_ord s \<and> (\<forall>t\<in>set (g_tick_head s). tick_left s t > 0)"
  by (auto simp: tick_inv_def tick_ord_def)

definition expired_all :: "tid set \<Rightarrow> kstate \<Rightarrow> kstate \<Rightarrow> bool" where
  "expired_all E s s' \<longleftrightarrow> g_tick_count s' = g_tick_count s
     \<and> (\<forall>u. tick_match (tasks s' u) = tick_match (tasks s u)
          \<and> pend_flags (tasks s' u) = pend_flags (tasks s u) \<and> pend_option (tasks s' u) = pend_option (tasks s u))
     \<and> (\<forall>u. u \<notin> E \<longrightarrow> task_state (tasks s' u) = task_state (tasks s u)
          \<and> blk_state (tasks s' u) = blk_state (tasks s u))
     \<and> (\<forall>u\<in>E. task_state (tasks s' u) = (if suspended (tasks s u) then K_SUSPENDED else K_RDY)
          \<and> blk_state (tasks s' u) = (if waiting (tasks s u) then BLK_TIMEOUT else BLK_FINISH))
     \<and> sems s' = sems s \<and> events s' = events s \<and> queues s' = queues s \<and> buf_queues s' = buf_queues s
     \<and> g_kobj_list s' = g_kobj_list s \<and> same_run s s' \<and> irq_off s' = irq_off s
     \<and> (\<forall>x. obj_type (blks s' x) = obj_type (blks s x) \<and> set (waiters s' x) \<subseteq> set (waiters s x))"

lemma expired_all_step:
  assumes "expired t s s1" "expired_all E s1 s2" "t \<notin> E"
  shows "expired_all (insert t E) s s2"
proof -
  have "task_state (tasks s1 u) = task_state (tasks s u)" if "u \<in> E" for u
    using assms(1,3) that by (auto simp: expired_def)
  then have "suspended (tasks s1 u) = suspended (tasks s u)" "waiting (tasks s1 u) = waiting (tasks s u)" if "u \<in> E" for u
    using that by (simp_all add: suspended_def waiting_def)
  then show ?thesis
    using assms unfolding expired_def expired_all_def same_run_def by (simp add: subset_iff)
qed

lemma tick_ord_expired:
  assumes o: "tick_ord s" and e: "expired t s s'"
  shows "tick_ord s'"
proof -
  have f: "g_tick_head s' = remove1 t (g_tick_head s)" "g_kobj_list s' = g_kobj_list s"
    "\<And>u. tick_head (tasks s' u) = (tick_head (tasks s u) \<and> u \<noteq> t)" "tick_left s' = tick_left s"
    using e by (auto simp: expired_def tick_left_def fun_eq_iff)
  then show ?thesis using o by (auto simp: tick_ord_def sorted_wrt_remove1)
qed

lemma tick_scan_spec:
  assumes "tsys s" "tick_ord s" "g_tick_head s = ts"
  shows "tsys (tick_scan ts s) \<and> tick_ord (tick_scan ts s)
    \<and> g_tick_head (tick_scan ts s) = dropWhile (\<lambda>t. tick_delta s t \<le> 0) ts
    \<and> expired_all (set (takeWhile (\<lambda>t. tick_delta s t \<le> 0) ts)) s (tick_scan ts s)"
  using assms
proof (induction ts arbitrary: s)
  case Nil
  then show ?case by (simp add: expired_all_def same_run_def)
next
  case (Cons t ts)
  show ?case
  proof (cases "tick_delta s t \<le> 0")
    case False
    then show ?thesis using Cons.prems by (simp add: expired_all_def same_run_def)
  next
    case True
    have t: "t \<in> all_tasks s" "tick_head (tasks s t)" "t \<in> set (g_tick_head s)" "t \<notin> set ts"
      using Cons.prems by (auto simp: tick_ord_def)
    have w: "waiting (tasks s t) \<or> sleeping (tasks s t)"
      using tsysD(8) [OF Cons.prems(1) t(1)] t(2) by (simp add: task_ok_def)
    have e: "expired t s (tick_expire t s)"
      using t by (intro tick_expire_expired [OF Cons.prems(1) t(1) w]) simp
    have k: "tsys (tick_expire t s)"
      using w tick_expire_wait(1) tick_expire_sleep Cons.prems(1) t(1) by blast
    have h: "g_tick_head (tick_expire t s) = ts" using e Cons.prems(3) by (simp add: expired_def)
    have d: "tick_delta (tick_expire t s) = tick_delta s"
      using e by (auto simp: tick_delta_def expired_def fun_eq_iff)
    from Cons.IH [OF k tick_ord_expired [OF Cons.prems(2) e] h]
    have "expired_all (set (takeWhile (\<lambda>t. tick_delta s t \<le> 0) ts)) (tick_expire t s) (tick_scan ts (tick_expire t s))"
      by (simp add: d)
    from expired_all_step [OF e this] Cons.IH [OF k tick_ord_expired [OF Cons.prems(2) e] h]
    show ?thesis using True t(4) by (auto simp: d dest: set_takeWhileD)
  qed
qed

text \<open>
  One tick: the tasks that expire. Nothing with time left is before a task with none, so the tick
  list is in order again.
\<close>

definition expires :: "kstate \<Rightarrow> tid set" where
  "expires s = set (takeWhile (\<lambda>t. sint (tick_left s t - 1) \<le> 0) (g_tick_head s))"

lemma word_minus_one_mono:
  fixes a b :: "'a::len word"
  assumes "0 < a" "a \<le> b"
  shows "a - 1 \<le> b - 1"
proof -
  have "a \<noteq> 0" "b \<noteq> 0" using assms by (auto simp: word_gt_0)
  then show ?thesis using assms(2) by (simp add: word_le_nat_alt unat_minus_one)
qed

lemma tick_scan_one:
  assumes k: "ksys s" and s1: "s1 = cpu_intrpt_save s\<lparr>g_tick_count := g_tick_count s + 1\<rparr>"
    and s2: "s2 = tick_scan (g_tick_head s) s1"
  shows "ksys s2" "expired_all (expires s) s1 s2"
    "g_tick_head s2 = dropWhile (\<lambda>t. sint (tick_left s t - 1) \<le> 0) (g_tick_head s)"
proof -
  have l1: "tick_left s1 t = tick_left s t - 1" for t by (simp add: s1 tick_left_def diff_diff_add)
  have d: "tick_delta s1 t = sint (tick_left s t - 1)" for t
    using l1 [of t] by (simp add: tick_delta_def tick_left_def)
  have "tsys s1 \<longleftrightarrow> tsys s"
    by (simp add: s1 tsys_def core_def rq_inv_def wait_inv_def mutex_ok_def all_eff_def is_eff_def donors_def)
  moreover have o: "tick_ord s" "\<forall>t\<in>set (g_tick_head s). tick_left s t > 0"
    using ksysD(3) [OF k] by (simp_all add: tick_inv_ord)
  moreover have "sorted_wrt (\<lambda>a b. tick_left s1 a \<le> tick_left s1 b) (g_tick_head s)"
    using o unfolding tick_ord_def l1
    by (elim conjE sorted_wrt_mono_rel [rotated]) (simp add: word_minus_one_mono)
  then have "tick_ord s1" using o(1) by (simp add: tick_ord_def s1)
  moreover have h: "g_tick_head s1 = g_tick_head s" by (simp add: s1)
  ultimately have sc: "tsys s2" "tick_ord s2"
    "g_tick_head s2 = dropWhile (\<lambda>t. tick_delta s1 t \<le> 0) (g_tick_head s)"
    "expired_all (set (takeWhile (\<lambda>t. tick_delta s1 t \<le> 0) (g_tick_head s))) s1 s2"
    using tick_scan_spec [of s1 "g_tick_head s"] k by (simp_all add: s2 ksys_tsys)
  have l2: "tick_left s2 = tick_left s1" using sc(4) by (auto simp: expired_all_def tick_left_def fun_eq_iff)
  have "tick_left s2 t > 0" if t: "t \<in> set (g_tick_head s2)" for t
  proof -
    let ?h = "hd (g_tick_head s2)"
    have "g_tick_head s2 \<noteq> []" using t by auto
    then have "tick_delta s1 ?h > 0" using hd_dropWhile sc(3) by (metis not_le)
    then have "tick_left s1 ?h \<noteq> 0" by (auto simp: tick_delta_def tick_left_def)
    moreover have "tick_left s2 ?h \<le> tick_left s2 t"
      using sc(2) sorted_wrt_hd_least [OF _ t, of "tick_left s2"] by (simp add: tick_ord_def)
    ultimately show ?thesis unfolding l2 by (metis order_less_le_trans word_gt_0)
  qed
  then show "ksys s2" using sc(1,2) by (simp add: ksys_tsys tick_inv_ord)
  show "expired_all (expires s) s1 s2" using sc(4) by (simp add: d expires_def)
  show "g_tick_head s2 = dropWhile (\<lambda>t. sint (tick_left s t - 1) \<le> 0) (g_tick_head s)" using sc(3) by (simp add: d)
qed

section \<open>The tick interrupt keeps the kernel in order\<close>

text \<open>Inside an interrupt handler the running task need not be the best one.\<close>

lemma good_isr:
  assumes g: "good s" and n: "g_intrpt_nested_level s > 0" and k: "kinv s'" and r: "same_run s s'"
    and a: "g_active_task s \<in> all_tasks s'"
      "g_sched_lock s > 0 \<Longrightarrow> task_state (tasks s' (g_active_task s)) = K_RDY"
  shows "good s'"
  using assms by (auto simp: good_def run_ok_def same_run_def word_gt_0)

lemma tick_list_update_kinv:
  assumes k: "kinv s"
  shows "kinv (tick_list_update 1 s)" "\<And>u. task_state (tasks s u) = K_RDY \<Longrightarrow> u \<in> all_tasks s
    \<Longrightarrow> task_state (tasks (tick_list_update 1 s) u) = K_RDY"
    "g_kobj_list (tick_list_update 1 s) = g_kobj_list s"
proof -
  have ks: "ksys s" using k by (simp add: kinv_def)
  define s1 where "s1 = cpu_intrpt_save s\<lparr>g_tick_count := g_tick_count s + 1\<rparr>"
  define s2 where "s2 = tick_scan (g_tick_head s) s1"
  have e: "tick_list_update 1 s = cpu_intrpt_restore (irq_off s) s2"
    by (simp add: tick_list_update_def Let_def s2_def s1_def)
  note t = tick_scan_one [OF ks s1_def s2_def]
  have f: "tasks s1 = tasks s" "sems s1 = sems s" "events s1 = events s" "queues s1 = queues s"
    "buf_queues s1 = buf_queues s" "g_kobj_list s1 = g_kobj_list s" "blks s1 = blks s"
    by (simp_all add: s1_def)
  have b: "blk_state (tasks s2 u) \<noteq> BLK_INVALID" if "u \<in> all_tasks s" for u
    using t(2) k that by (cases "u \<in> expires s") (auto simp: expired_all_def f kinv_def)
  have "kinv s2"
    by (rule kinv_step [OF k t(1)]) (use t(2) b in \<open>auto simp: expired_all_def f\<close>)
  then show "kinv (tick_list_update 1 s)" by (simp add: e)
  show "g_kobj_list (tick_list_update 1 s) = g_kobj_list s" using t(2) by (simp add: e expired_all_def f)
  fix u assume u: "task_state (tasks s u) = K_RDY" "u \<in> all_tasks s"
  then show "task_state (tasks (tick_list_update 1 s) u) = K_RDY"
    using t(2) by (cases "u \<in> expires s") (auto simp: e expired_all_def f suspended_def)
qed

lemma tick_list_update_run: "kinv s \<Longrightarrow> g_intrpt_nested_level s > 0 \<Longrightarrow> same_run s (tick_list_update 1 s)"
proof -
  assume k: "kinv s" and n: "g_intrpt_nested_level s > 0"
  define s1 where "s1 = cpu_intrpt_save s\<lparr>g_tick_count := g_tick_count s + 1\<rparr>"
  define s2 where "s2 = tick_scan (g_tick_head s) s1"
  have "same_run s1 s2" using tick_scan_one(2) [OF _ s1_def s2_def] k by (simp add: kinv_def expired_all_def)
  then have r: "same_run s s2" by (simp add: same_run_def s1_def)
  then have "\<not> g_intrpt_nested_level s2 = 0" using n by (auto simp: same_run_def)
  then have "cpu_intrpt_restore (irq_off s) s2 = s2\<lparr>irq_off := irq_off s\<rparr>" by (simp add: cpu_intrpt_restore_def)
  then have "tick_list_update 1 s = s2\<lparr>irq_off := irq_off s\<rparr>"
    by (simp add: tick_list_update_def Let_def s2_def s1_def)
  then show ?thesis using r by (simp add: same_run_def)
qed

text \<open>The end of a time slice: the task goes to the end of the ready list of its priority.\<close>

lemma kinv_rotate:
  assumes k: "kinv s" and t: "t \<in> all_tasks s" "task_state (tasks s t) = K_RDY"
  shows "kinv (ready_list_head_to_tail t s)"
proof -
  let ?s = "ready_list_head_to_tail t s"
  have ks: "ksys s" using k by (simp add: kinv_def)
  have "t \<in> {u \<in> all_tasks s. task_state (tasks s u) = K_RDY}" using t by simp
  note r = rq_inv_head_to_tail [OF ksysD(6) [OF ks] this]
  have "ksys ?s"
  proof (rule ksys_assemble [OF ks])
    show "wait_inv {u \<in> all_tasks s. waiting (tasks ?s u)} ?s"
      using ksysD(7) [OF ks] by (subst wait_inv_cong [of _ s]) auto
    show "tick_inv ?s" using ksysD(3) [OF ks] by (subst tick_inv_cong [of _ s]) auto
  qed (use r ksysD [OF ks] in auto)
  then show ?thesis by (rule kinv_step [OF k]) (use k in \<open>auto simp: kinv_def\<close>)
qed

lemma restore_isr: "g_intrpt_nested_level s > 0 \<Longrightarrow> cpu_intrpt_restore psr s = s\<lparr>irq_off := psr\<rparr>"
  by (simp add: cpu_intrpt_restore_def word_gt_0)

lemma time_slice_update_frame:
  "task_state (tasks (time_slice_update s) u) = task_state (tasks s u)"
  "g_kobj_list (time_slice_update s) = g_kobj_list s"
  "g_intrpt_nested_level s > 0 \<Longrightarrow> same_run s (time_slice_update s)"
  by (simp_all add: time_slice_update_def Let_def same_run_def restore_isr)

lemma time_slice_update_kinv:
  assumes k: "kinv s"
  shows "kinv (time_slice_update s)"
proof (cases "ready_at s (active_prio s) = []")
  case True
  then show ?thesis using k by (simp add: time_slice_update_def Let_def is_ready_list_empty_def)
next
  case False
  let ?t = "hd (ready_at s (active_prio s))"
  have ks: "ksys s" using k by (simp add: kinv_def)
  have t: "?t \<in> all_tasks s" "task_state (tasks s ?t) = K_RDY"
    using rq_inv_mem [OF ksysD(6) [OF ks], of ?t "active_prio s"] False by auto
  define s1 where "s1 = upd_task ?t (\<lambda>t. t\<lparr>runtime := runtime t + 1\<rparr>) (cpu_intrpt_save s)"
  define s2 where "s2 = (if task_time_slice (tasks s1 ?t) > 0
    then upd_task ?t (\<lambda>t. t\<lparr>task_time_slice := task_time_slice t - 1\<rparr>) s1 else s1)"
  have i: "inert (\<lambda>t. t\<lparr>runtime := runtime t + 1\<rparr>)" "inert (\<lambda>t. t\<lparr>task_time_slice := f t\<rparr>)" for f
    by (simp_all add: inert_def task_view_def)
  have k1: "kinv s1" unfolding s1_def by (rule kinv_inert [OF _ i(1)]) (use k in simp)
  have k2: "kinv s2" unfolding s2_def using kinv_inert [OF k1 i(2)] k1 by simp
  have "kinv (ready_list_head_to_tail ?t s2)"
    by (rule kinv_rotate [OF k2]) (use t in \<open>auto simp: s2_def s1_def\<close>)
  then have k4: "kinv (upd_task ?t (\<lambda>t. t\<lparr>task_time_slice := time_total t\<rparr>) (ready_list_head_to_tail ?t s2))"
    by (rule kinv_inert [OF _ i(2)])
  have "time_slice_update s = cpu_intrpt_restore (irq_off s)
     (if sched_policy (tasks s1 ?t) = KSCHED_FIFO \<or> length (ready_at s (active_prio s)) = 1 then s1
      else if task_time_slice (tasks s2 ?t) > 0 then s2
      else upd_task ?t (\<lambda>t. t\<lparr>task_time_slice := time_total t\<rparr>) (ready_list_head_to_tail ?t s2))"
    using False unfolding time_slice_update_def Let_def s2_def s1_def is_ready_list_empty_def
    by (simp only: cpu_intrpt_save_frame if_False) simp
  then show ?thesis using k1 k2 k4 by simp
qed

lemma krhino_tick_proc_good:
  assumes g: "good s" and n: "g_intrpt_nested_level s > 0"
  shows "good (krhino_tick_proc s)"
proof (rule good_isr [OF g n])
  let ?s = "tick_list_update 1 s"
  note t = tick_list_update_kinv [OF goodD(1) [OF g]]
  have r: "same_run s ?s" using tick_list_update_run [OF goodD(1) [OF g] n] .
  show "kinv (krhino_tick_proc s)" unfolding krhino_tick_proc_def by (rule time_slice_update_kinv [OF t(1)])
  have "g_intrpt_nested_level ?s > 0" using r n by (simp add: same_run_def)
  then show "same_run s (krhino_tick_proc s)"
    using r time_slice_update_frame(3) [of ?s] by (simp add: same_run_def krhino_tick_proc_def)
  show "g_active_task s \<in> all_tasks (krhino_tick_proc s)"
    using goodD(4) [OF g] t(3) by (simp add: krhino_tick_proc_def time_slice_update_frame)
  show "task_state (tasks (krhino_tick_proc s) (g_active_task s)) = K_RDY" if "g_sched_lock s > 0"
    using goodD(4,6) [OF g] that t(2) by (simp add: krhino_tick_proc_def time_slice_update_frame)
qed

end
