(* ===== verification/Sem.thy ===== *)
theory Sem
  imports Kobj
begin

text \<open>
  Counting semaphores, \<^verbatim>\<open>core/k_sem.c\<close>, and the semaphore of a task, \<^verbatim>\<open>core/k_task_sem.c\<close>. A pointer
  argument is an option; the name of an object is only checked for \<open>NULL\<close>. Where a function allocates
  its object, the result of \<open>krhino_mm_alloc\<close> is an argument.
\<close>

section \<open>The code\<close>

definition upd_sem :: "oid \<Rightarrow> (ksem_t \<Rightarrow> ksem_t) \<Rightarrow> kstate \<Rightarrow> kstate" where
  "upd_sem sem f s = s\<lparr>sems := (sems s)(sem := f (sems s sem))\<rparr>"

definition sem_create :: "oid option \<Rightarrow> string option \<Rightarrow> u32 \<Rightarrow> mm_alloc_flag_t \<Rightarrow> kstate \<Rightarrow> kstate \<times> kstat" where
  "sem_create sem name cnt mm_alloc_flag s = (case (sem, name) of
     (Some sem, Some name) \<Rightarrow>
       (let s1 = upd_blk sem (\<lambda>b. b\<lparr>blk_list := [], blk_policy := BLK_POLICY_PRI\<rparr>) s;
            s2 = upd_sem sem (\<lambda>m. m\<lparr>count := cnt, peak_count := cnt, sem_mm_alloc_flag := mm_alloc_flag\<rparr>) s1;
            psr = irq_off s2; s3 = RHINO_CRITICAL_ENTER s2;
            s4 = s3\<lparr>g_kobj_list := (g_kobj_list s3)\<lparr>sem_head := sem_head (g_kobj_list s3) @ [sem]\<rparr>\<rparr>;
            s5 = RHINO_CRITICAL_EXIT psr s4
        in (upd_blk sem (\<lambda>b. b\<lparr>obj_type := RHINO_SEM_OBJ_TYPE\<rparr>) s5, RHINO_SUCCESS))
   | _ \<Rightarrow> (s, RHINO_NULL_PTR))"

definition krhino_sem_create :: "oid option \<Rightarrow> string option \<Rightarrow> u32 \<Rightarrow> kstate \<Rightarrow> kstate \<times> kstat" where
  "krhino_sem_create sem name cnt s = sem_create sem name cnt K_OBJ_STATIC_ALLOC s"

text \<open>The loop that wakes all waiters and the removal from the list of semaphores, shared by both deletions.\<close>

definition sem_unlink :: "oid \<Rightarrow> kstate \<Rightarrow> kstate" where
  "sem_unlink sem s = (let s1 = obj_unlink sem s in
     s1\<lparr>g_kobj_list := (g_kobj_list s1)\<lparr>sem_head := remove1 sem (sem_head (g_kobj_list s1))\<rparr>\<rparr>)"

definition krhino_sem_del :: "oid option \<Rightarrow> kstate \<Rightarrow> kstate \<times> kstat" where
  "krhino_sem_del sem s = (case sem of None \<Rightarrow> (s, RHINO_NULL_PTR) | Some sem \<Rightarrow>
     (let psr = irq_off s; s0 = RHINO_CRITICAL_ENTER s in
      if g_intrpt_nested_level s0 > 0 then (RHINO_CRITICAL_EXIT psr s0, RHINO_NOT_CALLED_BY_INTRPT)
      else if obj_type (blks s0 sem) \<noteq> RHINO_SEM_OBJ_TYPE
      then (RHINO_CRITICAL_EXIT psr s0, RHINO_KOBJ_TYPE_ERR)
      else if sem_mm_alloc_flag (sems s0 sem) \<noteq> K_OBJ_STATIC_ALLOC
      then (RHINO_CRITICAL_EXIT psr s0, RHINO_KOBJ_DEL_ERR)
      else (RHINO_CRITICAL_EXIT_SCHED psr (sem_unlink sem s0), RHINO_SUCCESS)))"

text \<open>The pointer stored in \<open>*sem\<close> on success is the third component.\<close>

definition krhino_sem_dyn_create ::
  "bool \<Rightarrow> oid option \<Rightarrow> string option \<Rightarrow> u32 \<Rightarrow> kstate \<Rightarrow> kstate \<times> kstat \<times> oid option" where
  "krhino_sem_dyn_create sem_out alloc name cnt s =
     (if \<not> sem_out then (s, RHINO_NULL_PTR, None)
      else case alloc of
        None \<Rightarrow> (s, RHINO_NO_MEM, None)
      | Some sem_obj \<Rightarrow>
          (case sem_create (Some sem_obj) name cnt K_OBJ_DYN_ALLOC s of (s1, stat) \<Rightarrow>
             if stat \<noteq> RHINO_SUCCESS then (krhino_mm_free sem_obj s1, stat, None)
             else (s1, stat, Some sem_obj)))"

definition krhino_sem_dyn_del :: "oid option \<Rightarrow> kstate \<Rightarrow> kstate \<times> kstat" where
  "krhino_sem_dyn_del sem s = (case sem of None \<Rightarrow> (s, RHINO_NULL_PTR) | Some sem \<Rightarrow>
     (let psr = irq_off s; s0 = RHINO_CRITICAL_ENTER s in
      if g_intrpt_nested_level s0 > 0 then (RHINO_CRITICAL_EXIT psr s0, RHINO_NOT_CALLED_BY_INTRPT)
      else if obj_type (blks s0 sem) \<noteq> RHINO_SEM_OBJ_TYPE
      then (RHINO_CRITICAL_EXIT psr s0, RHINO_KOBJ_TYPE_ERR)
      else if sem_mm_alloc_flag (sems s0 sem) \<noteq> K_OBJ_DYN_ALLOC
      then (RHINO_CRITICAL_EXIT psr s0, RHINO_KOBJ_DEL_ERR)
      else (krhino_mm_free sem (RHINO_CRITICAL_EXIT_SCHED psr (sem_unlink sem s0)), RHINO_SUCCESS)))"

definition sem_give :: "oid \<Rightarrow> bool \<Rightarrow> kstate \<Rightarrow> kstate \<times> kstat" where
  "sem_give sem opt_wake_all s = (let psr = irq_off s; s0 = RHINO_CRITICAL_ENTER s in
     if obj_type (blks s0 sem) \<noteq> RHINO_SEM_OBJ_TYPE
     then (RHINO_CRITICAL_EXIT psr s0, RHINO_KOBJ_TYPE_ERR)
     else if waiters s0 sem = [] then
       (if count (sems s0 sem) = - 1 then (RHINO_CRITICAL_EXIT psr s0, RHINO_SEM_OVF)
        else (let s1 = upd_sem sem (\<lambda>m. m\<lparr>count := count m + 1\<rparr>) s0;
                  s2 = (if count (sems s1 sem) > peak_count (sems s1 sem)
                        then upd_sem sem (\<lambda>m. m\<lparr>peak_count := count m\<rparr>) s1 else s1)
              in (RHINO_CRITICAL_EXIT psr s2, RHINO_SUCCESS)))
     else if opt_wake_all then
       (RHINO_CRITICAL_EXIT_SCHED psr (wake_all (length (waiters s0 sem)) pend_task_wakeup sem s0),
        RHINO_SUCCESS)
     else (RHINO_CRITICAL_EXIT_SCHED psr (pend_task_wakeup (hd (waiters s0 sem)) s0), RHINO_SUCCESS))"

definition krhino_sem_give :: "oid option \<Rightarrow> kstate \<Rightarrow> kstate \<times> kstat" where
  "krhino_sem_give sem s = (case sem of None \<Rightarrow> (s, RHINO_NULL_PTR) | Some sem \<Rightarrow> sem_give sem False s)"

definition krhino_sem_give_all :: "oid option \<Rightarrow> kstate \<Rightarrow> kstate \<times> kstat" where
  "krhino_sem_give_all sem s = (case sem of None \<Rightarrow> (s, RHINO_NULL_PTR) | Some sem \<Rightarrow> sem_give sem True s)"

definition krhino_sem_take :: "oid option \<Rightarrow> u64 \<Rightarrow> kstate \<Rightarrow> kstate \<times> kret" where
  "krhino_sem_take sem ticks s = (case sem of None \<Rightarrow> (s, Ret RHINO_NULL_PTR) | Some sem \<Rightarrow>
     (let psr = irq_off s; s0 = RHINO_CRITICAL_ENTER s in
      if g_intrpt_nested_level s0 > 0 then (RHINO_CRITICAL_EXIT psr s0, Ret RHINO_NOT_CALLED_BY_INTRPT)
      else if obj_type (blks s0 sem) \<noteq> RHINO_SEM_OBJ_TYPE
      then (RHINO_CRITICAL_EXIT psr s0, Ret RHINO_KOBJ_TYPE_ERR)
      else if count (sems s0 sem) > 0
      then (RHINO_CRITICAL_EXIT psr (upd_sem sem (\<lambda>m. m\<lparr>count := count m - 1\<rparr>) s0), Ret RHINO_SUCCESS)
      else if ticks = RHINO_NO_WAIT then (RHINO_CRITICAL_EXIT psr s0, Ret RHINO_NO_PEND_WAIT)
      else if g_sched_lock s0 > 0 then (RHINO_CRITICAL_EXIT psr s0, Ret RHINO_SCHED_DISABLE)
      else block_return (g_active_task s0)
             (RHINO_CRITICAL_EXIT_SCHED psr (pend_to_blk_obj sem (g_active_task s0) ticks s0))))"

definition krhino_sem_count_set :: "oid option \<Rightarrow> u32 \<Rightarrow> kstate \<Rightarrow> kstate \<times> kstat" where
  "krhino_sem_count_set sem sem_count s = (case sem of None \<Rightarrow> (s, RHINO_NULL_PTR) | Some sem \<Rightarrow>
     (let psr = irq_off s; s0 = RHINO_CRITICAL_ENTER s in
      if g_intrpt_nested_level s0 > 0 then (RHINO_CRITICAL_EXIT psr s0, RHINO_NOT_CALLED_BY_INTRPT)
      else if obj_type (blks s0 sem) \<noteq> RHINO_SEM_OBJ_TYPE
      then (RHINO_CRITICAL_EXIT psr s0, RHINO_KOBJ_TYPE_ERR)
      else if count (sems s0 sem) = 0 \<and> waiters s0 sem \<noteq> []
      then (RHINO_CRITICAL_EXIT psr s0, RHINO_SEM_TASK_WAITING)
      else (let s1 = upd_sem sem (\<lambda>m. m\<lparr>count := sem_count\<rparr>) s0;
                s2 = (if count (sems s1 sem) > peak_count (sems s1 sem)
                      then upd_sem sem (\<lambda>m. m\<lparr>peak_count := count m\<rparr>) s1 else s1)
            in (RHINO_CRITICAL_EXIT psr s2, RHINO_SUCCESS))))"

definition krhino_sem_count_get :: "oid option \<Rightarrow> bool \<Rightarrow> kstate \<Rightarrow> kstat \<times> u32 option" where
  "krhino_sem_count_get sem count_out s = (case sem of
     Some sem \<Rightarrow> if count_out then (RHINO_SUCCESS, Some (count (sems s sem))) else (RHINO_NULL_PTR, None)
   | None \<Rightarrow> (RHINO_NULL_PTR, None))"

section \<open>The semaphore of a task\<close>

definition krhino_task_sem_create ::
  "tid option \<Rightarrow> oid option \<Rightarrow> string option \<Rightarrow> u32 \<Rightarrow> kstate \<Rightarrow> kstate \<times> kstat" where
  "krhino_task_sem_create task sem name cnt s = (case task of None \<Rightarrow> (s, RHINO_NULL_PTR) | Some task \<Rightarrow>
     (case krhino_sem_create sem name cnt s of (s1, ret) \<Rightarrow>
        (upd_task task (\<lambda>t. t\<lparr>task_sem_obj := if ret = RHINO_SUCCESS then sem else None\<rparr>) s1, ret)))"

definition krhino_task_sem_del :: "tid option \<Rightarrow> kstate \<Rightarrow> kstate \<times> kstat" where
  "krhino_task_sem_del task s = (case task of None \<Rightarrow> (s, RHINO_NULL_PTR)
     | Some task \<Rightarrow> krhino_sem_del (task_sem_obj (tasks s task)) s)"

definition krhino_task_sem_give :: "tid option \<Rightarrow> kstate \<Rightarrow> kstate \<times> kstat" where
  "krhino_task_sem_give task s = (case task of None \<Rightarrow> (s, RHINO_NULL_PTR)
     | Some task \<Rightarrow> krhino_sem_give (task_sem_obj (tasks s task)) s)"

definition krhino_task_sem_take :: "u64 \<Rightarrow> kstate \<Rightarrow> kstate \<times> kret" where
  "krhino_task_sem_take ticks s = krhino_sem_take (task_sem_obj (tasks s (g_active_task s))) ticks s"

definition krhino_task_sem_count_set :: "tid option \<Rightarrow> u32 \<Rightarrow> kstate \<Rightarrow> kstate \<times> kstat" where
  "krhino_task_sem_count_set task cnt s = (case task of None \<Rightarrow> (s, RHINO_NULL_PTR)
     | Some task \<Rightarrow> krhino_sem_count_set (task_sem_obj (tasks s task)) cnt s)"

definition krhino_task_sem_count_get :: "tid option \<Rightarrow> bool \<Rightarrow> kstate \<Rightarrow> kstat \<times> u32 option" where
  "krhino_task_sem_count_get task count_out s = (case task of None \<Rightarrow> (RHINO_NULL_PTR, None)
     | Some task \<Rightarrow> krhino_sem_count_get (task_sem_obj (tasks s task)) count_out s)"

section \<open>Every call keeps the kernel in order\<close>

lemma upd_sem_sems: "sems (upd_sem sem f s) x = (if x = sem then f (sems s sem) else sems s x)"
  by (simp add: upd_sem_def)

lemma good_upd_sem:
  assumes g: "good s" and sem: "obj_type (blks s sem) = RHINO_SEM_OBJ_TYPE"
    and ok: "sem_ok (f (sems s sem)) (waiters s sem)" and psr: "psr = irq_off s"
  shows "good (RHINO_CRITICAL_EXIT psr (upd_sem sem f (RHINO_CRITICAL_ENTER s)))"
proof (rule good_payload [OF g])
  show "same_tasks s (upd_sem sem f (RHINO_CRITICAL_ENTER s))"
    by (simp add: same_tasks_def upd_sem_def)
  show "same_run s (upd_sem sem f (RHINO_CRITICAL_ENTER s))" by (simp add: same_run_def upd_sem_def)
  show "obj_ok (upd_sem sem f (RHINO_CRITICAL_ENTER s)) sem"
    using sem ok by (simp add: obj_ok_def upd_sem_def)
qed (simp_all add: psr upd_sem_def)

lemma sem_obj_ok: "kinv s \<Longrightarrow> obj_type (blks s sem) = RHINO_SEM_OBJ_TYPE \<Longrightarrow> sem_ok (sems s sem) (waiters s sem)"
  using kinv_obj [of s sem] by (simp add: obj_ok_def)

lemma sem_create_good:
  assumes "good s" "\<And>ob. sem = Some ob \<Longrightarrow> obj_type (blks s ob) = RHINO_OBJ_TYPE_NONE"
  shows "good (fst (sem_create sem name cnt fl s))"
  proof (cases "\<exists>ob n. sem = Some ob \<and> name = Some n")
    case True
    then obtain ob n where e: "sem = Some ob" "name = Some n" by blast
    let ?s = "fst (sem_create sem name cnt fl s)"
    have ty: "obj_type (blks s ob) = RHINO_OBJ_TYPE_NONE" using assms(2) e by simp
    have bk: "blks ?s = (blks s)(ob := (blks s ob)\<lparr>blk_list := [], blk_policy := BLK_POLICY_PRI,
        obj_type := RHINO_SEM_OBJ_TYPE\<rparr>)"
      by (simp add: sem_create_def e Let_def upd_blk_def upd_sem_def)
    have kl: "g_kobj_list ?s = (g_kobj_list s)\<lparr>sem_head := sem_head (g_kobj_list s) @ [ob]\<rparr>"
      by (simp add: sem_create_def e Let_def upd_blk_def upd_sem_def)
    have "reg_ok ?s"
      by (rule reg_ok_swap [where f = "\<lambda>g. g\<lparr>sem_head := sem_head g @ [ob]\<rparr>" and ob = ob
            and ty = RHINO_SEM_OBJ_TYPE])
         (use goodD(1) [OF assms(1)] kl bk ty in \<open>auto simp: kinv_def\<close>)
    moreover have "obj_ok ?s ob"
      by (simp add: sem_create_def e Let_def upd_blk_def upd_sem_def obj_ok_def sem_ok_def)
    moreover have "same_run s ?s"
      using goodD(7) [OF assms(1)]
      by (simp add: sem_create_def e Let_def upd_blk_def upd_sem_def same_run_def cpu_intrpt_restore_def
          tspend_handler_def cpu_intrpt_save_def)
    ultimately show ?thesis
      by (intro good_create [OF assms(1) _ ty bk]) (simp_all add: sem_create_def e Let_def upd_sem_def)
  next
    case False
    then show ?thesis using assms(1) by (auto simp: sem_create_def split: option.split)
  qed

lemma krhino_mm_free_good: "good s \<Longrightarrow> good (krhino_mm_free p s)"
proof -
  assume g: "good s"
  have "kinv (krhino_mm_free p s)"
    using goodD(1) [OF g] by (subst kinv_view [of _ s]) (simp_all add: krhino_mm_free_def sysview_def)
  then show ?thesis
    using goodD(3) [OF g] by (simp add: good_def run_ok_def best_def krhino_mm_free_def)
qed

lemma sem_unlink_good:
  assumes g: "good s" and ty: "obj_type (blks s ob) = RHINO_SEM_OBJ_TYPE" and psr: "psr = irq_off s"
  shows "good (RHINO_CRITICAL_EXIT_SCHED psr (sem_unlink ob (RHINO_CRITICAL_ENTER s)))"
proof -
  let ?e = "RHINO_CRITICAL_ENTER s"
  have k: "kinv ?e" "obj_type (blks ?e ob) \<noteq> RHINO_MUTEX_OBJ_TYPE" using goodD(1) [OF g] ty by simp_all
  note u = obj_unlink_spec [OF k]
  have "reg_ok (sem_unlink ob ?e)"
    by (rule reg_ok_swap [where s = ?e and f = "\<lambda>g. g\<lparr>sem_head := remove1 ob (sem_head g)\<rparr>" and ob = ob
          and ty = RHINO_OBJ_TYPE_NONE])
       (use k(1) u(4,7) ty in \<open>auto simp: kinv_def sem_unlink_def Let_def\<close>)
  then show ?thesis
    by (intro good_delete [OF g _ psr refl])
       (use ty in \<open>simp_all add: sem_unlink_def Let_def sysview_def same_run_def\<close>)
qed

lemma krhino_sem_del_good: "good s \<Longrightarrow> good (fst (krhino_sem_del sem s))"
  by (simp add: krhino_sem_del_def Let_def good_return sem_unlink_good split: option.split)

lemma krhino_sem_dyn_del_good: "good s \<Longrightarrow> good (fst (krhino_sem_dyn_del sem s))"
  by (simp add: krhino_sem_dyn_del_def Let_def good_return sem_unlink_good krhino_mm_free_good
      split: option.split)

lemma krhino_sem_dyn_create_good:
  assumes "good s" "\<And>ob. alloc = Some ob \<Longrightarrow> obj_type (blks s ob) = RHINO_OBJ_TYPE_NONE"
  shows "good (fst (krhino_sem_dyn_create out alloc name cnt s))"
  using assms sem_create_good [OF assms(1), of alloc name cnt K_OBJ_DYN_ALLOC]
  by (auto simp: krhino_sem_dyn_create_def krhino_mm_free_good split: option.split prod.split)

lemma upd_sem_twice: "upd_sem x f (upd_sem x g s) = upd_sem x (\<lambda>m. f (g m)) s"
  by (simp add: upd_sem_def)

lemma sem_give_good:
  assumes "good s"
  shows "good (fst (sem_give sem al s))"
proof -
  have "good (RHINO_CRITICAL_EXIT (irq_off s) (upd_sem sem (\<lambda>m. m\<lparr>count := count m + 1\<rparr>) (RHINO_CRITICAL_ENTER s)))"
    if "obj_type (blks s sem) = RHINO_SEM_OBJ_TYPE" "waiters s sem = []"
      "\<not> count (sems s sem) + 1 > peak_count (sems s sem)"
    using that by (intro good_upd_sem [OF assms]) (simp_all add: sem_ok_def not_less)
  moreover have "good (RHINO_CRITICAL_EXIT (irq_off s)
      (upd_sem sem (\<lambda>m. m\<lparr>count := count m + 1, peak_count := count m + 1\<rparr>) (RHINO_CRITICAL_ENTER s)))"
    if "obj_type (blks s sem) = RHINO_SEM_OBJ_TYPE" "waiters s sem = []"
    using that by (intro good_upd_sem [OF assms]) (simp_all add: sem_ok_def)
  ultimately show ?thesis
    using assms by (auto simp: sem_give_def Let_def good_return upd_sem_twice upd_sem_sems
        good_wake [where ob = sem] good_wake_all)
qed

lemma krhino_sem_give_good: "good s \<Longrightarrow> good (fst (krhino_sem_give sem s))"
  by (simp add: krhino_sem_give_def sem_give_good split: option.split)

lemma krhino_sem_give_all_good: "good s \<Longrightarrow> good (fst (krhino_sem_give_all sem s))"
  by (simp add: krhino_sem_give_all_def sem_give_good split: option.split)

lemma sem_block_good:
  assumes g: "good s" and idle: "g_active_task s \<noteq> g_idle_task"
    and ty: "obj_type (blks s ob) = RHINO_SEM_OBJ_TYPE" and c: "\<not> count (sems s ob) > 0"
    and n: "g_intrpt_nested_level s = 0" "g_sched_lock s = 0"
  shows "good (RHINO_CRITICAL_EXIT_SCHED (irq_off s)
    (pend_to_blk_obj ob (g_active_task s) ticks (RHINO_CRITICAL_ENTER s)))"
proof (rule good_block [OF g _ _ _ n idle])
  show "obj_ok (pend_to_blk_obj ob (g_active_task s) ticks (RHINO_CRITICAL_ENTER s)) ob"
    using ty c sem_obj_ok [OF goodD(1) [OF g] ty]
    by (simp add: obj_ok_def sem_ok_def word_pos)
qed (use goodD(1) [OF g] ty in \<open>simp_all add: same_run_def\<close>)

lemma krhino_sem_take_good:
  assumes g: "good s" and idle: "g_active_task s \<noteq> g_idle_task"
  shows "good (fst (krhino_sem_take sem ticks s))"
proof (cases sem)
  case (Some ob)
  let ?e = "RHINO_CRITICAL_ENTER s"
  have dec: "good (RHINO_CRITICAL_EXIT (irq_off s) (upd_sem ob (\<lambda>m. m\<lparr>count := count m - 1\<rparr>) ?e))"
    if "obj_type (blks s ob) = RHINO_SEM_OBJ_TYPE" "count (sems s ob) > 0"
  proof (rule good_upd_sem [OF g that(1)])
    have "sem_ok (sems s ob) (waiters s ob)" using sem_obj_ok [OF goodD(1) [OF g]] that by simp
    moreover have "count (sems s ob) - 1 \<le> count (sems s ob)"
      using that(2) by (simp add: word_gt_0 word_le_nat_alt unat_minus_one)
    ultimately show "sem_ok (sems s ob\<lparr>count := count (sems s ob) - 1\<rparr>) (waiters s ob)"
      using that(2) by (auto simp: sem_ok_def)
  qed simp
  note blk = sem_block_good [OF g idle]
  show ?thesis
    using Some g dec blk
    by (simp add: krhino_sem_take_def Let_def good_return good_block_return word_pos)
qed (simp add: krhino_sem_take_def g)

lemma krhino_sem_count_set_good:
  assumes "good s"
  shows "good (fst (krhino_sem_count_set sem c s))"
proof (cases sem)
  case (Some ob)
  have "good (RHINO_CRITICAL_EXIT (irq_off s) (upd_sem ob f (RHINO_CRITICAL_ENTER s)))"
    if "obj_type (blks s ob) = RHINO_SEM_OBJ_TYPE" "count (sems s ob) = 0 \<longrightarrow> waiters s ob = []"
      "f (sems s ob) = sems s ob\<lparr>count := c\<rparr> \<and> c \<le> peak_count (sems s ob)
       \<or> f (sems s ob) = sems s ob\<lparr>count := c, peak_count := c\<rparr>" for f
    using that sem_obj_ok [OF goodD(1) [OF assms] that(1)]
    by (intro good_upd_sem [OF assms]) (auto simp: sem_ok_def)
  then show ?thesis
    using Some assms by (auto simp: krhino_sem_count_set_def Let_def good_return upd_sem_twice upd_sem_sems not_less)
qed (simp add: krhino_sem_count_set_def assms)

end
