(* ===== verification/Mutex.thy ===== *)
theory Mutex
  imports Tick_Update Sem
begin

text \<open>
  Mutexes with priority inheritance, \<^verbatim>\<open>core/k_mutex.c\<close>. The functions that compute priorities are in
  theory \<open>Prio_Inherit\<close>; here are the creation and deletion of a mutex, locking and unlocking. The
  main result is that the invariant of the scheduler's data, which contains that every task has
  exactly its effective priority, is kept by all of them.
\<close>

section \<open>The code\<close>

definition upd_mutex :: "oid \<Rightarrow> (kmutex_t \<Rightarrow> kmutex_t) \<Rightarrow> kstate \<Rightarrow> kstate" where
  "upd_mutex m f s = s\<lparr>mutexes := (mutexes s)(m := f (mutexes s m))\<rparr>"

definition mutex_create :: "oid option \<Rightarrow> string option \<Rightarrow> mm_alloc_flag_t \<Rightarrow> kstate \<Rightarrow> kstate \<times> kstat" where
  "mutex_create mutex name mm_alloc_flag s = (case (mutex, name) of
     (Some m, Some name) \<Rightarrow>
       (let s1 = upd_blk m (\<lambda>b. b\<lparr>blk_list := [], blk_policy := BLK_POLICY_PRI\<rparr>) s;
            s2 = upd_mutex m (\<lambda>x. x\<lparr>mutex_task := None, mutex_mm_alloc_flag := mm_alloc_flag\<rparr>) s1;
            psr = irq_off s2; s3 = RHINO_CRITICAL_ENTER s2;
            s4 = s3\<lparr>g_kobj_list := (g_kobj_list s3)\<lparr>mutex_head := mutex_head (g_kobj_list s3) @ [m]\<rparr>\<rparr>;
            s5 = RHINO_CRITICAL_EXIT psr s4
        in (upd_blk m (\<lambda>b. b\<lparr>obj_type := RHINO_MUTEX_OBJ_TYPE\<rparr>) s5, RHINO_SUCCESS))
   | _ \<Rightarrow> (s, RHINO_NULL_PTR))"

definition krhino_mutex_create :: "oid option \<Rightarrow> string option \<Rightarrow> kstate \<Rightarrow> kstate \<times> kstat" where
  "krhino_mutex_create mutex name s = mutex_create mutex name K_OBJ_STATIC_ALLOC s"

definition mutex_unlink :: "oid \<Rightarrow> kstate \<Rightarrow> kstate" where
  "mutex_unlink m s =
     (let s1 = upd_blk m (\<lambda>b. b\<lparr>obj_type := RHINO_OBJ_TYPE_NONE\<rparr>) s;
          s2 = (case mutex_task (mutexes s1 m) of None \<Rightarrow> s1 | Some t \<Rightarrow> mutex_release t (Some m) s1);
          s3 = pend_all_rm m s2
      in s3\<lparr>g_kobj_list := (g_kobj_list s3)\<lparr>mutex_head := remove1 m (mutex_head (g_kobj_list s3))\<rparr>\<rparr>)"

definition krhino_mutex_del :: "oid option \<Rightarrow> kstate \<Rightarrow> kstate \<times> kstat" where
  "krhino_mutex_del mutex s = (case mutex of None \<Rightarrow> (s, RHINO_NULL_PTR) | Some m \<Rightarrow>
     (let psr = irq_off s; s0 = RHINO_CRITICAL_ENTER s in
      if g_intrpt_nested_level s0 > 0 then (RHINO_CRITICAL_EXIT psr s0, RHINO_NOT_CALLED_BY_INTRPT)
      else if obj_type (blks s0 m) \<noteq> RHINO_MUTEX_OBJ_TYPE
      then (RHINO_CRITICAL_EXIT psr s0, RHINO_KOBJ_TYPE_ERR)
      else if mutex_mm_alloc_flag (mutexes s0 m) \<noteq> K_OBJ_STATIC_ALLOC
      then (RHINO_CRITICAL_EXIT psr s0, RHINO_KOBJ_DEL_ERR)
      else (RHINO_CRITICAL_EXIT_SCHED psr (mutex_unlink m s0), RHINO_SUCCESS)))"

definition krhino_mutex_dyn_create ::
  "bool \<Rightarrow> oid option \<Rightarrow> string option \<Rightarrow> kstate \<Rightarrow> kstate \<times> kstat \<times> oid option" where
  "krhino_mutex_dyn_create mutex_out alloc name s =
     (if \<not> mutex_out then (s, RHINO_NULL_PTR, None)
      else case alloc of
        None \<Rightarrow> (s, RHINO_NO_MEM, None)
      | Some mutex_obj \<Rightarrow>
          (case mutex_create (Some mutex_obj) name K_OBJ_DYN_ALLOC s of (s1, stat) \<Rightarrow>
             if stat \<noteq> RHINO_SUCCESS then (krhino_mm_free mutex_obj s1, stat, None)
             else (s1, stat, Some mutex_obj)))"

definition krhino_mutex_dyn_del :: "oid option \<Rightarrow> kstate \<Rightarrow> kstate \<times> kstat" where
  "krhino_mutex_dyn_del mutex s = (case mutex of None \<Rightarrow> (s, RHINO_NULL_PTR) | Some m \<Rightarrow>
     (let psr = irq_off s; s0 = RHINO_CRITICAL_ENTER s in
      if g_intrpt_nested_level s0 > 0 then (RHINO_CRITICAL_EXIT psr s0, RHINO_NOT_CALLED_BY_INTRPT)
      else if obj_type (blks s0 m) \<noteq> RHINO_MUTEX_OBJ_TYPE
      then (RHINO_CRITICAL_EXIT psr s0, RHINO_KOBJ_TYPE_ERR)
      else if mutex_mm_alloc_flag (mutexes s0 m) \<noteq> K_OBJ_DYN_ALLOC
      then (RHINO_CRITICAL_EXIT psr s0, RHINO_KOBJ_DEL_ERR)
      else (krhino_mm_free m (RHINO_CRITICAL_EXIT_SCHED psr (mutex_unlink m s0)), RHINO_SUCCESS)))"

text \<open>Taking a free mutex: the caller becomes the owner and the mutex the first of its chain.\<close>

definition mutex_get :: "tid \<Rightarrow> oid \<Rightarrow> kstate \<Rightarrow> kstate" where
  "mutex_get t m s = upd_mutex m (\<lambda>x. x\<lparr>mutex_task := Some t, owner_nested := 1\<rparr>)
     (upd_task t (\<lambda>x. x\<lparr>mutex_list := m # mutex_list x\<rparr>) s)"

definition krhino_mutex_lock :: "oid option \<Rightarrow> u64 \<Rightarrow> kstate \<Rightarrow> kstate \<times> kret" where
  "krhino_mutex_lock mutex ticks s = (case mutex of None \<Rightarrow> (s, Ret RHINO_NULL_PTR) | Some m \<Rightarrow>
     if g_sys_stat s = RHINO_STOPPED then (s, Ret RHINO_SUCCESS)
     else (let psr = irq_off s; s0 = RHINO_CRITICAL_ENTER s; t = g_active_task s0 in
      if g_intrpt_nested_level s0 > 0
      then (RHINO_CRITICAL_EXIT psr s0, Ret RHINO_NOT_CALLED_BY_INTRPT)
      else if obj_type (blks s0 m) \<noteq> RHINO_MUTEX_OBJ_TYPE
      then (RHINO_CRITICAL_EXIT psr s0, Ret RHINO_KOBJ_TYPE_ERR)
      else if Some t = mutex_task (mutexes s0 m) then
        (if owner_nested (mutexes s0 m) = - 1
         then (RHINO_CRITICAL_EXIT psr (k_err_proc RHINO_MUTEX_NESTED_OVF s0), Ret RHINO_MUTEX_NESTED_OVF)
         else (RHINO_CRITICAL_EXIT psr (upd_mutex m (\<lambda>x. x\<lparr>owner_nested := owner_nested x + 1\<rparr>) s0),
               Ret RHINO_MUTEX_OWNER_NESTED))
      else (case mutex_task (mutexes s0 m) of
          None \<Rightarrow> (RHINO_CRITICAL_EXIT psr (mutex_get t m s0), Ret RHINO_SUCCESS)
        | Some mt \<Rightarrow>
            if ticks = RHINO_NO_WAIT then (RHINO_CRITICAL_EXIT psr s0, Ret RHINO_NO_PEND_WAIT)
            else if g_sched_lock s0 > 0 then (RHINO_CRITICAL_EXIT psr s0, Ret RHINO_SCHED_DISABLE)
            else (let s1 = (if prio (tasks s0 t) < prio (tasks s0 mt)
                            then fst (task_pri_change mt (prio (tasks s0 t)) s0) else s0)
                  in block_return t (RHINO_CRITICAL_EXIT_SCHED psr (pend_to_blk_obj m t ticks s1))))))"

definition krhino_mutex_unlock :: "oid option \<Rightarrow> kstate \<Rightarrow> kstate \<times> kstat" where
  "krhino_mutex_unlock mutex s = (case mutex of None \<Rightarrow> (s, RHINO_NULL_PTR) | Some m \<Rightarrow>
     if g_sys_stat s = RHINO_STOPPED then (s, RHINO_SUCCESS)
     else (let psr = irq_off s; s0 = RHINO_CRITICAL_ENTER s; t = g_active_task s0 in
      if g_intrpt_nested_level s0 > 0 then (RHINO_CRITICAL_EXIT psr s0, RHINO_NOT_CALLED_BY_INTRPT)
      else if obj_type (blks s0 m) \<noteq> RHINO_MUTEX_OBJ_TYPE
      then (RHINO_CRITICAL_EXIT psr s0, RHINO_KOBJ_TYPE_ERR)
      else if Some t \<noteq> mutex_task (mutexes s0 m)
      then (RHINO_CRITICAL_EXIT psr s0, RHINO_MUTEX_NOT_RELEASED_BY_OWNER)
      else (let s1 = upd_mutex m (\<lambda>x. x\<lparr>owner_nested := owner_nested x - 1\<rparr>) s0 in
        if owner_nested (mutexes s1 m) > 0 then (RHINO_CRITICAL_EXIT psr s1, RHINO_MUTEX_OWNER_NESTED)
        else (let s2 = mutex_release t (Some m) s1 in
          if waiters s2 m = []
          then (RHINO_CRITICAL_EXIT psr (upd_mutex m (\<lambda>x. x\<lparr>mutex_task := None\<rparr>) s2), RHINO_SUCCESS)
          else (let task = hd (waiters s2 m)
                in (RHINO_CRITICAL_EXIT_SCHED psr (mutex_get task m (pend_task_wakeup task s2)),
                    RHINO_SUCCESS))))))"

section \<open>Frames\<close>

lemma upd_mutex_frame [simp, kframe]:
  "tasks (upd_mutex m f s) = tasks s" "blks (upd_mutex m f s) = blks s"
  "sems (upd_mutex m f s) = sems s" "events (upd_mutex m f s) = events s"
  "queues (upd_mutex m f s) = queues s" "buf_queues (upd_mutex m f s) = buf_queues s"
  "g_ready_queue (upd_mutex m f s) = g_ready_queue s"
  "g_kobj_list (upd_mutex m f s) = g_kobj_list s" "g_tick_head (upd_mutex m f s) = g_tick_head s"
  "g_tick_count (upd_mutex m f s) = g_tick_count s"
  "g_active_task (upd_mutex m f s) = g_active_task s"
  "g_preferred_ready_task (upd_mutex m f s) = g_preferred_ready_task s"
  "g_sched_lock (upd_mutex m f s) = g_sched_lock s"
  "g_intrpt_nested_level (upd_mutex m f s) = g_intrpt_nested_level s"
  "g_sys_stat (upd_mutex m f s) = g_sys_stat s"
  "g_idle_task_spawned (upd_mutex m f s) = g_idle_task_spawned s"
  "g_res_list (upd_mutex m f s) = g_res_list s" "mm_freed (upd_mutex m f s) = mm_freed s"
  "irq_off (upd_mutex m f s) = irq_off s" "tspend (upd_mutex m f s) = tspend s"
  "k_faults (upd_mutex m f s) = k_faults s"
  by (simp_all add: upd_mutex_def)

lemma mutex_get_frame [simp, kframe]:
  "blks (mutex_get t m s) = blks s" "sems (mutex_get t m s) = sems s"
  "events (mutex_get t m s) = events s" "queues (mutex_get t m s) = queues s"
  "buf_queues (mutex_get t m s) = buf_queues s" "g_ready_queue (mutex_get t m s) = g_ready_queue s"
  "g_kobj_list (mutex_get t m s) = g_kobj_list s" "g_tick_head (mutex_get t m s) = g_tick_head s"
  "g_tick_count (mutex_get t m s) = g_tick_count s"
  "g_active_task (mutex_get t m s) = g_active_task s"
  "g_preferred_ready_task (mutex_get t m s) = g_preferred_ready_task s"
  "g_sched_lock (mutex_get t m s) = g_sched_lock s"
  "g_intrpt_nested_level (mutex_get t m s) = g_intrpt_nested_level s"
  "g_sys_stat (mutex_get t m s) = g_sys_stat s"
  "g_idle_task_spawned (mutex_get t m s) = g_idle_task_spawned s"
  "g_res_list (mutex_get t m s) = g_res_list s" "mm_freed (mutex_get t m s) = mm_freed s"
  "irq_off (mutex_get t m s) = irq_off s" "tspend (mutex_get t m s) = tspend s"
  "k_faults (mutex_get t m s) = k_faults s"
  by (simp_all add: mutex_get_def)

lemma mutex_get_tasks [simp, kframe]:
  "suspend_count (tasks (mutex_get t m s) u) = suspend_count (tasks s u)"
  "tick_match (tasks (mutex_get t m s) u) = tick_match (tasks s u)"
  "tick_remain (tasks (mutex_get t m s) u) = tick_remain (tasks s u)"
  "tick_head (tasks (mutex_get t m s) u) = tick_head (tasks s u)"
  "msg (tasks (mutex_get t m s) u) = msg (tasks s u)"
  "bq_msg_size (tasks (mutex_get t m s) u) = bq_msg_size (tasks s u)"
  "task_state (tasks (mutex_get t m s) u) = task_state (tasks s u)"
  "blk_state (tasks (mutex_get t m s) u) = blk_state (tasks s u)"
  "blk_obj (tasks (mutex_get t m s) u) = blk_obj (tasks s u)"
  "task_sem_obj (tasks (mutex_get t m s) u) = task_sem_obj (tasks s u)"
  "task_time_slice (tasks (mutex_get t m s) u) = task_time_slice (tasks s u)"
  "time_total (tasks (mutex_get t m s) u) = time_total (tasks s u)"
  "pend_flags (tasks (mutex_get t m s) u) = pend_flags (tasks s u)"
  "pend_info (tasks (mutex_get t m s) u) = pend_info (tasks s u)"
  "pend_option (tasks (mutex_get t m s) u) = pend_option (tasks s u)"
  "sched_policy (tasks (mutex_get t m s) u) = sched_policy (tasks s u)"
  "prio (tasks (mutex_get t m s) u) = prio (tasks s u)"
  "b_prio (tasks (mutex_get t m s) u) = b_prio (tasks s u)"
  "task_mm_alloc_flag (tasks (mutex_get t m s) u) = task_mm_alloc_flag (tasks s u)"
  "runtime (tasks (mutex_get t m s) u) = runtime (tasks s u)"
  by (simp_all add: mutex_get_def)

lemma mutex_get_owned [simp]:
  "mutex_list (tasks (mutex_get t m s) u) = (if u = t then m # mutex_list (tasks s t) else mutex_list (tasks s u))"
  "mutexes (mutex_get t m s) x = (if x = m then (mutexes s m)\<lparr>mutex_task := Some t, owner_nested := 1\<rparr> else mutexes s x)"
  by (simp_all add: mutex_get_def upd_mutex_def)

lemma upd_mutex_mutexes [simp]:
  "mutexes (upd_mutex m f s) x = (if x = m then f (mutexes s m) else mutexes s x)"
  by (simp add: upd_mutex_def)

section \<open>The scheduler's data\<close>

lemma ksys_build:
  assumes k: "ksys s" and h: "task_head (g_kobj_list s') = task_head (g_kobj_list s)"
    and c: "core (all_tasks s) s'" and e: "all_eff (base s) (all_tasks s) s'"
    and b: "\<And>u. u \<in> all_tasks s \<Longrightarrow> b_prio (tasks s' u) = b_prio (tasks s u)"
    and t: "tick_inv s'" "\<And>u. u \<in> all_tasks s \<Longrightarrow> task_ok (tasks s' u)" and f: "k_faults s' = []"
  shows "ksys s'"
proof -
  have "all_eff (base s') (all_tasks s) s'"
    using e b by (simp add: all_eff_def is_eff_def)
  moreover have "prio (tasks s' g_idle_task) = RHINO_IDLE_PRI"
    using idle_prio [OF c e] idle_prio [OF ksysD(1,2) [OF k]] ksysD(12) [OF k] by simp
  ultimately show ?thesis using assms k by (simp add: ksys_def)
qed

lemma ksys_nested:
  assumes k: "ksys s" and n: "owner_nested (f (mutexes s m)) > 0" "mutex_task (f (mutexes s m)) = mutex_task (mutexes s m)"
  shows "ksys (upd_mutex m f s)"
proof (rule ksys_build [OF k])
  let ?s = "upd_mutex m f s"
  have "mutex_ok (all_tasks s) ?s"
    unfolding mutex_ok_def using ksysD(8) [OF k] n by (auto simp: mutex_ok_def)
  moreover have "rq_inv R ?s \<longleftrightarrow> rq_inv R s" "wait_inv W ?s \<longleftrightarrow> wait_inv W s" for R W
    by (rule rq_inv_cong wait_inv_cong; simp)+
  ultimately show "core (all_tasks s) ?s" using ksysD(1) [OF k] by (simp add: core_def)
  show "all_eff (base s) (all_tasks s) ?s"
    using ksysD(2) [OF k] by (simp add: all_eff_def is_eff_def donors_def)
  show "tick_inv ?s" using ksysD(3) [OF k] by (subst tick_inv_cong [of _ s]) auto
qed (use ksysD(4,5) [OF k] in simp_all)

text \<open>A free mutex has no waiters, so that taking it changes no effective priority.\<close>

lemma mutex_get_core:
  assumes c: "core T s" and t: "t \<in> T" "t \<noteq> g_idle_task" "t \<notin> set (waiters s m)"
    and m: "obj_type (blks s m) = RHINO_MUTEX_OBJ_TYPE" "mutex_task (mutexes s m) = None"
  shows "core T (mutex_get t m s)"
proof -
  let ?s = "mutex_get t m s"
  have mo: "mutex_ok T s" using c by (simp add: core_def)
  have nl: "m \<notin> set (mutex_list (tasks s u))" if "u \<in> T" for u
    using core_owned [OF c that] m(2) by simp
  have "mutex_ok T ?s"
    unfolding mutex_ok_def
  proof (intro conjI ballI allI impI)
    fix u assume u: "u \<in> T"
    show "distinct (mutex_list (tasks ?s u))" using mo nl [OF u] u t(1) nl [OF t(1)] by (auto simp: mutex_ok_def)
    show "x \<in> set (mutex_list (tasks ?s u)) \<longleftrightarrow>
        obj_type (blks ?s x) = RHINO_MUTEX_OBJ_TYPE \<and> mutex_task (mutexes ?s x) = Some u" for x
      using core_owned [OF c u, of x] nl [OF u] m t by (cases "x = m") auto
  next
    fix x assume x: "obj_type (blks ?s x) = RHINO_MUTEX_OBJ_TYPE"
    show "blk_policy (blks ?s x) = BLK_POLICY_PRI" using mo x by (simp add: mutex_ok_def)
    show "mutex_task (mutexes ?s x) \<noteq> None" if "waiters ?s x \<noteq> []" using mo x that by (simp add: mutex_ok_def)
    fix u assume "mutex_task (mutexes ?s x) = Some u"
    then show "u \<in> T" "u \<notin> set (waiters ?s x)" "0 < owner_nested (mutexes ?s x)"
      using mo x t by (auto simp: mutex_ok_def split: if_splits)
  qed
  moreover have "rq_inv R ?s \<longleftrightarrow> rq_inv R s" "wait_inv W ?s \<longleftrightarrow> wait_inv W s" for R W
    by (rule rq_inv_cong wait_inv_cong; simp)+
  ultimately show ?thesis using c t(2) by (simp add: core_def waiting_def)
qed

lemma core_no_owner:
  assumes "core T s" "obj_type (blks s m) = RHINO_MUTEX_OBJ_TYPE" "mutex_task (mutexes s m) = None"
  shows "waiters s m = []"
  using assms by (auto simp: core_def mutex_ok_def)

lemma ksys_mutex_get:
  assumes k: "ksys s" and t: "t \<in> all_tasks s" "t \<noteq> g_idle_task"
    and m: "obj_type (blks s m) = RHINO_MUTEX_OBJ_TYPE" "mutex_task (mutexes s m) = None"
  shows "ksys (mutex_get t m s)"
proof (rule ksys_build [OF k])
  let ?s = "mutex_get t m s"
  have w: "waiters s m = []" by (rule core_no_owner [OF ksysD(1) [OF k] m])
  show "core (all_tasks s) ?s" by (rule mutex_get_core [OF ksysD(1) [OF k] t _ m]) (simp add: w)
  have "donors ?s x = donors s x" for x using w by (simp add: donors_def)
  then show "all_eff (base s) (all_tasks s) ?s" using ksysD(2) [OF k] by (simp add: all_eff_def is_eff_def)
  show "tick_inv ?s" using ksysD(3) [OF k] by (subst tick_inv_cong [of _ s]) auto
qed (use ksysD(4,5) [OF k] in \<open>simp_all add: task_ok_def waiting_def sleeping_def suspended_def\<close>)

text \<open>While priorities are raised, only tasks below the new priority change, and they get it.\<close>

lemma pri_change_raise:
  "p \<le> prio (tasks s t) \<Longrightarrow> prio (tasks (fst (pri_change_loop n t p s)) x) = prio (tasks s x)
    \<or> p < prio (tasks s x) \<and> prio (tasks (fst (pri_change_loop n t p s)) x) = p"
proof (induction n arbitrary: t s)
  case 0
  then show ?case by simp
next
  case (Suc n)
  show ?case
  proof (cases "prio (tasks s t) = p")
    case True
    then show ?thesis by (simp add: pri_change_same)
  next
    case False
    then have lt: "p < prio (tasks s t)" using Suc.prems by simp
    show ?thesis
    proof (cases rule: task_cases [of "tasks s t"])
      case 1
      then show ?thesis using lt by (auto simp: pri_change_rdy [OF False 1] Let_def)
    next
      case 2
      then show ?thesis using lt pri_change_off [OF False 2] by simp
    next
      case 3
      note e = pri_change_wait [OF False 3, of n, unfolded forget_tasks(10) [OF forget_reprio]
          forget_blks(1) [OF forget_reprio] forget_fields(2) [OF forget_reprio]]
      have r: "prio (tasks (reprio t p s) y) = (if y = t then p else prio (tasks s y))" for y
        by (simp add: reprio_tasks)
      show ?thesis
      proof (cases "blk_obj (tasks s t)")
        case None
        then show ?thesis using lt e by (simp add: r)
      next
        case (Some ob)
        show ?thesis
        proof (cases "\<exists>mt. mutex_task (mutexes s ob) = Some mt \<and> p < prio (tasks (reprio t p s) mt)
            \<and> obj_type (blks s ob) = RHINO_MUTEX_OBJ_TYPE")
          case True
          then obtain mt where mt: "mutex_task (mutexes s ob) = Some mt" "p < prio (tasks (reprio t p s) mt)"
            "obj_type (blks s ob) = RHINO_MUTEX_OBJ_TYPE" by blast
          then have "fst (pri_change_loop (Suc n) t p s) = fst (pri_change_loop n mt p (reprio t p s))"
            using e Some r [of t] by simp
          then show ?thesis using Suc.IH [of "reprio t p s" mt] mt(2) r lt by (auto split: if_splits)
        next
          case no: False
          then have "prio (tasks (fst (pri_change_loop (Suc n) t p s)) x) = prio (tasks (reprio t p s) x)"
            using e Some lt by (auto split: option.split if_splits simp: r)
          then show ?thesis using lt by (simp add: r)
        qed
      qed
    next
      case 4
      then show ?thesis using pri_change_bad [OF False 4] by (simp add: k_err_proc_def)
    qed
  qed
qed

text \<open>
  Blocking on a mutex. \<open>B\<close> are the base priorities with that of the owner lowered to the priority of
  the caller: with respect to them the owner is repaired before the caller is in the wait list.
\<close>

lemma core_block_mutex:
  assumes c: "core T s" and T: "T = all_tasks s" and t: "t \<in> T" "task_state (tasks s t) = K_RDY" "t \<noteq> g_idle_task"
    and tk: "tick_inv s" "\<not> tick_head (tasks s t)"
    and m: "obj_type (blks s m) = RHINO_MUTEX_OBJ_TYPE" "mutex_task (mutexes s m) = Some x" "x \<noteq> t"
  shows "core T (pend_to_blk_obj m t n s)" "tick_inv (pend_to_blk_obj m t n s)"
    "k_faults (pend_to_blk_obj m t n s) = k_faults s"
    "\<And>y. y \<in> T \<Longrightarrow> donors (pend_to_blk_obj m t n s) y = (if y = x then insert t (donors s y) else donors s y)"
proof -
  let ?s = "pend_to_blk_obj m t n s"
  let ?R = "{u \<in> T. task_state (tasks s u) = K_RDY}" and ?W = "{u \<in> T. waiting (tasks s u)}"
  have R: "t \<in> ?R" "?R - {t} \<noteq> {}" "t \<notin> ?W" "rq_inv ?R s" "wait_inv ?W s"
    using t c by (auto simp: waiting_def core_def)
  note sp = pend_to_blk_obj_spec [OF R(4,1,2,5,3) tk(1) _ tk(2), of m n]
  have tT: "t \<in> all_tasks s" using t(1) T by simp
  note pt = pend_to_blk_obj_task [of m t n s]
  have st: "task_state (tasks ?s u) = (if u = t then K_PEND else task_state (tasks s u))" for u
    using pt(1) by simp
  have RW: "{u \<in> T. task_state (tasks ?s u) = K_RDY} = ?R - {t}" "{u \<in> T. waiting (tasks ?s u)} = insert t ?W"
    using t(1) by (auto simp: st waiting_def)
  have w: "set (waiters ?s y) = (if y = m then insert t (set (waiters s m)) else set (waiters s y))" for y
    using pend_to_blk_obj_waiters [of m t n s] by simp
  have "mutex_ok T ?s"
  proof -
    have mo: "mutex_ok T s" using c by (simp add: core_def)
    have "waiters ?s y \<noteq> [] \<Longrightarrow> waiters s y \<noteq> [] \<or> y = m" for y using w [of y] by (auto split: if_splits)
    then show ?thesis using mo m w unfolding mutex_ok_def by auto
  qed
  then show "core T ?s"
    using sp(1,2) [OF tT] c t(3) unfolding core_def RW by (simp add: st)
  show "tick_inv ?s" "k_faults ?s = k_faults s" using sp(3,4) [OF tT] by simp_all
  show "donors ?s y = (if y = x then insert t (donors s y) else donors s y)" if "y \<in> T" for y
    using core_owned [OF c that, of m] m(1,2) w by (auto simp: donors_def)
qed

lemma ksys_lock_block:
  assumes k: "ksys s" and t: "t \<in> all_tasks s" "task_state (tasks s t) = K_RDY" "t \<noteq> g_idle_task"
    and m: "obj_type (blks s m) = RHINO_MUTEX_OBJ_TYPE" "mutex_task (mutexes s m) = Some x" "x \<noteq> t"
    and s1: "s1 = (if prio (tasks s t) < prio (tasks s x)
      then fst (task_pri_change x (prio (tasks s t)) s) else s)"
  shows "ksys (pend_to_blk_obj m t n s1)" "forget s1 = forget s" "core (all_tasks s) s1"
proof -
  let ?T = "all_tasks s" and ?p = "prio (tasks s t)" and ?s = "pend_to_blk_obj m t n s1"
  note c = ksysD(1) [OF k] and e = ksysD(2) [OF k]
  have x: "x \<in> ?T" "x \<noteq> g_idle_task"
  proof -
    show xT: "x \<in> ?T" using c m(1,2) by (auto simp: core_def mutex_ok_def)
    show "x \<noteq> g_idle_task" using core_owned [OF c xT, of m] m ksysD(11) [OF k] by auto
  qed
  define B where "B = (base s)(x := min (base s x) ?p)"
  have "core ?T s1 \<and> all_eff B ?T s1 \<and> k_faults s1 = []"
  proof (cases "?p < prio (tasks s x)")
    case True
    have "is_eff B s y (prio (tasks s y))" if "y \<in> ?T" "y \<noteq> x" for y
      using e that by (simp add: all_eff_def B_def is_eff_def)
    moreover have "is_eff B s x ?p"
      using e x(1) True by (fastforce simp: all_eff_def B_def is_eff_def)
    ultimately show ?thesis
      using task_pri_change_spec [OF c order_refl x ksysD(14) [OF k t(1)], of B] True ksysD(5) [OF k]
      by (auto simp: s1)
  next
    case False
    then have "is_eff B s x (prio (tasks s x))"
      using e x(1) by (auto simp: all_eff_def B_def is_eff_def min_def)
    then show ?thesis using False c e ksysD(5) [OF k] by (auto simp: s1 all_eff_def B_def is_eff_def)
  qed
  then have a: "core ?T s1" "all_eff B ?T s1" "k_faults s1 = []" by auto
  show fg: "forget s1 = forget s" by (simp add: s1)
  note ft = forget_tasks [OF fg] and ff = forget_fields [OF fg] and fb = forget_blks [OF fg]
  have pt: "prio (tasks s1 t) = ?p"
    using pri_change_raise [of ?p s x "length (task_head (g_kobj_list s)) + 1" t]
    by (simp add: s1 task_pri_change_def)
  have nt: "\<not> tick_head (tasks s t)"
    using ksysD(4) [OF k t(1)] t(2) by (auto simp: task_ok_def waiting_def sleeping_def)
  have tk: "tick_inv s1" using ksysD(3) [OF k] ff ft by (subst tick_inv_cong [of s1 s]) auto
  have T1: "?T = all_tasks s1" using ff by simp
  have t1: "task_state (tasks s1 t) = K_RDY" "\<not> tick_head (tasks s1 t)" using ft t(2) nt by simp_all
  have m1: "obj_type (blks s1 m) = RHINO_MUTEX_OBJ_TYPE" "mutex_task (mutexes s1 m) = Some x"
    using fb ff m by simp_all
  note b = core_block_mutex [OF a(1) T1 t(1) t1(1) t(3) tk t1(2) m1 m(3), where n = n]
  show "core (all_tasks s) s1" by (rule a(1))
  show "ksys ?s"
  proof (rule ksys_build [OF k])
    show "core ?T ?s" by (rule b(1))
    show "tick_inv ?s" by (rule b(2))
    show "k_faults ?s = []" using b(3) a(3) by simp
    show "all_eff (base s) ?T ?s"
      unfolding all_eff_def
    proof
      fix y assume y: "y \<in> ?T"
      have e1: "is_eff B s1 y (prio (tasks s1 y))" using a(2) y by (simp add: all_eff_def)
      show "is_eff (base s) ?s y (prio (tasks ?s y))"
        using e1 pt unfolding is_eff_def b(4) [OF y] by (auto simp: B_def min_def split: if_splits)
    qed
    show "task_ok (tasks ?s u)" if "u \<in> ?T" for u
    proof (cases "u = t")
      case True
      have "suspend_count (tasks s1 t) = 0"
        using ksysD(4) [OF k t(1)] t(2) ft(1) by (simp add: task_ok_def suspended_def word_gt_0)
      then show ?thesis using True pend_to_blk_obj_task [of m t n s1] t1(2)
        by (simp add: task_ok_def waiting_def sleeping_def suspended_def)
    next
      case False
      then show ?thesis using ksysD(4) [OF k that] ft [of u]
        by (simp add: task_ok_def waiting_def sleeping_def suspended_def)
    qed
  qed (use ff ft in simp_all)
qed

text \<open>
  Unlocking. \<open>s2\<close> is the state after \<open>mutex_release\<close>: the mutex has left the chain of its owner, who
  has the effective priority that goes with the rest of the chain.
\<close>

definition released :: "tid \<Rightarrow> oid \<Rightarrow> nat \<Rightarrow> kstate \<Rightarrow> kstate \<Rightarrow> bool" where
  "released t m p s s2 \<longleftrightarrow>
     tasks s2 = (tasks s)(t := (tasks s t)\<lparr>mutex_list := filter (\<lambda>x. x \<noteq> m) (mutex_list (tasks s t)), prio := p\<rparr>)
     \<and> blks s2 = blks s \<and> (\<forall>x. x \<noteq> m \<longrightarrow> mutexes s2 x = mutexes s x)
     \<and> rq_inv {u \<in> all_tasks s. task_state (tasks s u) = K_RDY} s2 \<and> k_faults s2 = []
     \<and> p < 62 \<and> is_eff (base s) s2 t p \<and> (p = prio (tasks s t) \<longrightarrow> g_ready_queue s2 = g_ready_queue s)"

lemma mutex_release_rdy:
  assumes k: "ksys s" and t: "t \<in> all_tasks s" "task_state (tasks s t) = K_RDY" "t \<noteq> g_idle_task"
    and s2: "s2 = mutex_release t (Some m) (upd_mutex m f s)"
  shows "\<exists>p. released t m p s s2 \<and> forget s2 = forget (upd_task t (\<lambda>x. x\<lparr>mutex_list := filter (\<lambda>x. x \<noteq> m) (mutex_list x)\<rparr>) (upd_mutex m f s))"
proof -
  let ?s1 = "upd_mutex m f s" and ?R = "{u \<in> all_tasks s. task_state (tasks s u) = K_RDY}"
  define L where "L = fst (mutex_pri_look t (Some m) ?s1)"
  define p where "p = snd (mutex_pri_look t (Some m) ?s1)"
  have L: "L = upd_task t (\<lambda>x. x\<lparr>mutex_list := filter (\<lambda>x. x \<noteq> m) (mutex_list x)\<rparr>) ?s1"
    by (simp add: L_def mutex_pri_look_def Let_def pri_look_loop_chain) (simp add: upd_task_def upd_mutex_def)
  have r: "s2 = (if p \<noteq> prio (tasks L t) then fst (task_pri_change t p L) else L)"
    by (simp add: s2 mutex_release_def L_def p_def split: prod.split)
  have "prio_sorted ?s1 x" if "x \<in> set (mutex_list (tasks ?s1 t))" for x
    using core_owned_sorted [OF ksysD(1) [OF k] t(1)] that by (simp add: prio_sorted_def)
  from look_rel_eff [where t = t and s = ?s1 and r = m, OF this] have e: "is_eff (base s) L t p"
    by (simp add: L_def p_def)
  have p: "p < 62" using e ksysD(15) [OF k t(1)] by (auto simp: is_eff_def)
  have R: "rq_inv ?R L" "t \<in> ?R" "?R - {t} \<noteq> {}"
    using ksysD(6,9,10) [OF k] t by (auto simp: L rq_inv_cong [of "upd_task _ _ (upd_mutex _ _ s)" s])
  have tl: "task_state (tasks L t) = K_RDY" "k_faults L = []" using t(2) ksysD(5) [OF k] by (simp_all add: L)
  have "tasks s2 = (tasks L)(t := (tasks L t)\<lparr>prio := p\<rparr>) \<and> blks s2 = blks L \<and> rq_inv ?R s2 \<and> k_faults s2 = []"
  proof (cases "p = prio (tasks L t)")
    case True
    then show ?thesis using R(1) tl(2) by (auto simp: r)
  next
    case False
    then have ne: "prio (tasks L t) \<noteq> p" by simp
    note q = pri_change_rdy_spec [OF R p ne tl(1) refl, of "length (task_head (g_kobj_list L))"]
    have "s2 = fst (pri_change_loop (Suc (length (task_head (g_kobj_list L)))) t p L)"
      using False by (simp add: r task_pri_change_def)
    then show ?thesis using q tl(2) by simp
  qed
  moreover have fg: "forget s2 = forget L" by (simp add: r)
  moreover have "is_eff (base s) s2 t p"
  proof -
    have nd: "t \<notin> donors L t"
      using core_donor [OF ksysD(1) [OF k] t(1), of t] t(2) by (auto simp: donors_def L waiting_def)
    have "donors s2 t = donors L t" using calculation(1) by (simp add: donors_def)
    moreover have "prio (tasks s2 u) = prio (tasks L u)" if "u \<in> donors L t" for u
      using that nd \<open>tasks s2 = _ \<and> _\<close> by auto
    ultimately show ?thesis using e by (simp add: is_eff_def)
  qed
  ultimately have "released t m p s s2"
    unfolding released_def using p forget_fields(2) [OF fg] r by (auto simp: L upd_task_def upd_mutex_def)
  then show ?thesis using fg by (auto simp: L)
qed

lemma released_donors:
  assumes k: "ksys s" and t: "t \<in> all_tasks s" "task_state (tasks s t) = K_RDY"
    and m: "obj_type (blks s m) = RHINO_MUTEX_OBJ_TYPE" "mutex_task (mutexes s m) = Some t"
    and r: "released t m p s s2"
  shows "\<And>x. x \<in> all_tasks s \<Longrightarrow> x \<noteq> t \<Longrightarrow> donors s2 x = donors s x \<and> m \<notin> set (mutex_list (tasks s x))"
    "\<And>x. x \<in> all_tasks s \<Longrightarrow> is_eff (base s) s2 x (prio (tasks s2 x))"
    "waiters s m = [] \<Longrightarrow> prio (tasks s t) = p"
proof -
  note c = ksysD(1) [OF k]
  show d: "donors s2 x = donors s x \<and> m \<notin> set (mutex_list (tasks s x))" if "x \<in> all_tasks s" "x \<noteq> t" for x
    using r that core_owned [OF c that(1), of m] m by (auto simp: released_def donors_def)
  have nd: "u \<noteq> t" if "u \<in> donors s x" "x \<in> all_tasks s" for u x
    using core_donor [OF c that(2)] that(1) t(2) by (auto simp: waiting_def)
  show "is_eff (base s) s2 x (prio (tasks s2 x))" if "x \<in> all_tasks s" for x
  proof (cases "x = t")
    case True
    then show ?thesis using r by (simp add: released_def)
  next
    case False
    have "is_eff (base s) s x (prio (tasks s x))" using ksysD(2) [OF k] that by (simp add: all_eff_def)
    moreover have "prio (tasks s2 u) = prio (tasks s u)" if "u \<noteq> t" for u using r that by (simp add: released_def)
    ultimately show ?thesis
      using False d [OF that False] nd [OF _ that]
      by (subst is_eff_cong [where B = "base s" and s = s]) auto
  qed
  show "prio (tasks s t) = p" if w: "waiters s m = []"
  proof (rule is_eff_unique)
    show "is_eff (base s) s t (prio (tasks s t))" using ksysD(2) [OF k] t(1) by (simp add: all_eff_def)
    have "donors s2 t = donors s t" using r w by (auto simp: released_def donors_def)
    moreover have "prio (tasks s2 u) = prio (tasks s u)" if "u \<in> donors s t" for u
      using r nd [OF that t(1)] by (simp add: released_def)
    ultimately show "is_eff (base s) s t p" using r by (simp add: released_def is_eff_def)
  qed
qed

lemma released_core:
  assumes k: "ksys s" and t: "t \<in> all_tasks s" "task_state (tasks s t) = K_RDY" and r: "released t m p s s2"
  shows "rq_inv {u \<in> all_tasks s. task_state (tasks s2 u) = K_RDY} s2"
    "wait_inv {u \<in> all_tasks s. waiting (tasks s2 u)} s2"
    "\<And>u. u \<in> all_tasks s \<Longrightarrow> task_state (tasks s2 u) \<notin> {K_SEED, K_DELETED} \<and> prio (tasks s2 u) < 62
      \<and> b_prio (tasks s2 u) < 62"
    "g_idle_task \<in> all_tasks s" "task_state (tasks s2 g_idle_task) = K_RDY"
    "mutex_list (tasks s2 g_idle_task) = []"
proof -
  have ts: "tasks s2 = (tasks s)(t := (tasks s t)\<lparr>mutex_list := filter (\<lambda>x. x \<noteq> m) (mutex_list (tasks s t)), prio := p\<rparr>)"
    using r by (simp add: released_def)
  have st: "task_state (tasks s2 u) = task_state (tasks s u)" for u by (simp add: ts)
  then have wt: "waiting (tasks s2 u) = waiting (tasks s u)" for u by (simp add: waiting_def)
  show "rq_inv {u \<in> all_tasks s. task_state (tasks s2 u) = K_RDY} s2" using r unfolding released_def st by blast
  have "\<not> waiting (tasks s t)" using t(2) by (simp add: waiting_def)
  then show "wait_inv {u \<in> all_tasks s. waiting (tasks s2 u)} s2"
    using ksysD(7) [OF k] r unfolding wt by (subst wait_inv_cong [of s2 s]) (auto simp: released_def)
  show "task_state (tasks s2 u) \<notin> {K_SEED, K_DELETED} \<and> prio (tasks s2 u) < 62 \<and> b_prio (tasks s2 u) < 62"
    if "u \<in> all_tasks s" for u
    using ksysD(13,14,15) [OF k that] r by (cases "u = t") (simp_all add: released_def)
  show "g_idle_task \<in> all_tasks s" "task_state (tasks s2 g_idle_task) = K_RDY" "mutex_list (tasks s2 g_idle_task) = []"
    using ksysD(9,10,11) [OF k] by (simp_all add: ts)
qed

lemma released_task_ok: "ksys s \<Longrightarrow> released t m p s s2 \<Longrightarrow> u \<in> all_tasks s \<Longrightarrow> task_ok (tasks s2 u)"
  using ksysD(4) [of s u]
  by (cases "u = t") (simp_all add: released_def task_ok_def waiting_def sleeping_def suspended_def)

text \<open>Nobody waits: the mutex becomes free.\<close>

lemma ksys_unlock_free:
  assumes k: "ksys s" and t: "t \<in> all_tasks s" "task_state (tasks s t) = K_RDY"
    and m: "obj_type (blks s m) = RHINO_MUTEX_OBJ_TYPE" "mutex_task (mutexes s m) = Some t" "waiters s m = []"
    and r: "released t m p s s2" and fr: "g_kobj_list s2 = g_kobj_list s" "g_tick_head s2 = g_tick_head s"
      "g_tick_count s2 = g_tick_count s"
  shows "ksys (upd_mutex m (\<lambda>x. x\<lparr>mutex_task := None\<rparr>) s2)"
proof (rule ksys_build [OF k])
  let ?s = "upd_mutex m (\<lambda>x. x\<lparr>mutex_task := None\<rparr>) s2" and ?T = "all_tasks s"
  note c = released_core [OF k t r] and d = released_donors [OF k t m(1,2) r]
  have b: "blks ?s = blks s" "\<And>x. x \<noteq> m \<Longrightarrow> mutexes ?s x = mutexes s x"
    "\<And>u. mutex_list (tasks ?s u) = (if u = t then filter (\<lambda>x. x \<noteq> m) (mutex_list (tasks s t)) else mutex_list (tasks s u))"
    using r by (simp_all add: released_def)
  have "mutex_ok ?T ?s"
    unfolding mutex_ok_def
  proof (intro conjI ballI allI impI)
    fix u assume u: "u \<in> ?T"
    show "distinct (mutex_list (tasks ?s u))" using ksysD(8) [OF k] u t(1) b(3) by (auto simp: mutex_ok_def)
    show "x \<in> set (mutex_list (tasks ?s u)) \<longleftrightarrow>
        obj_type (blks ?s x) = RHINO_MUTEX_OBJ_TYPE \<and> mutex_task (mutexes ?s x) = Some u" for x
      using core_owned [OF ksysD(1) [OF k] u, of x] core_owned [OF ksysD(1) [OF k] t(1), of x] d(1) [OF u] b
      by (cases "x = m") auto
  next
    fix x assume x: "obj_type (blks ?s x) = RHINO_MUTEX_OBJ_TYPE"
    show "blk_policy (blks ?s x) = BLK_POLICY_PRI" using ksysD(8) [OF k] x b by (simp add: mutex_ok_def)
    show "mutex_task (mutexes ?s x) \<noteq> None" if "waiters ?s x \<noteq> []"
      using ksysD(8) [OF k] x that b m(3) by (cases "x = m") (auto simp: mutex_ok_def)
    fix u assume "mutex_task (mutexes ?s x) = Some u"
    then show "u \<in> ?T" "u \<notin> set (waiters ?s x)" "0 < owner_nested (mutexes ?s x)"
      using ksysD(8) [OF k] x b by (cases "x = m"; simp add: mutex_ok_def)+
  qed
  moreover have "rq_inv R ?s \<longleftrightarrow> rq_inv R s2" "wait_inv W ?s \<longleftrightarrow> wait_inv W s2" for R W
    by (rule rq_inv_cong wait_inv_cong; simp)+
  ultimately show "core ?T ?s" using c by (simp add: core_def)
  show "all_eff (base s) ?T ?s" using d(2) by (simp add: all_eff_def is_eff_def donors_def)
  show "tick_inv ?s"
    using ksysD(3) [OF k] fr r by (subst tick_inv_cong [of _ s]) (auto simp: released_def)
qed (use fr r released_task_ok [OF k r] in \<open>auto simp: released_def\<close>)

text \<open>
  \<open>passed t h m s S\<close>: the mutex \<open>m\<close> has gone from its owner \<open>t\<close> to the first waiting task \<open>h\<close>, which has
  the highest priority of the waiters.
\<close>

definition passed :: "tid \<Rightarrow> tid \<Rightarrow> oid \<Rightarrow> kstate \<Rightarrow> kstate \<Rightarrow> bool" where
  "passed t h m s S \<longleftrightarrow> (\<forall>x. waiters S x = remove1 h (waiters s x) \<and> obj_type (blks S x) = obj_type (blks s x)
       \<and> blk_policy (blks S x) = blk_policy (blks s x))
     \<and> (\<forall>x. x \<noteq> m \<longrightarrow> mutexes S x = mutexes s x)
     \<and> mutex_task (mutexes S m) = Some h \<and> owner_nested (mutexes S m) > 0
     \<and> (\<forall>u. mutex_list (tasks S u) = (if u = t then filter (\<lambda>x. x \<noteq> m) (mutex_list (tasks s t))
          else if u = h then m # mutex_list (tasks s h) else mutex_list (tasks s u)))
     \<and> (\<forall>u. u \<noteq> t \<longrightarrow> prio (tasks S u) = prio (tasks s u))"

lemma passed_hd:
  assumes c: "core T s" and t: "t \<in> T" and m: "obj_type (blks s m) = RHINO_MUTEX_OBJ_TYPE"
      "mutex_task (mutexes s m) = Some t" "waiters s m \<noteq> []" and h: "h = hd (waiters s m)"
  shows "h \<in> set (waiters s m)" "h \<in> T" "waiting (tasks s h)" "blk_obj (tasks s h) = Some m" "h \<noteq> t"
    "h \<noteq> g_idle_task" "m \<notin> set (mutex_list (tasks s h))"
    "\<And>u. u \<in> set (waiters s m) \<Longrightarrow> prio (tasks s h) \<le> prio (tasks s u)"
    "\<And>x. x \<noteq> m \<Longrightarrow> remove1 h (waiters s x) = waiters s x"
proof -
  show hw: "h \<in> set (waiters s m)" using m(3) h by simp
  then show w: "h \<in> T" "waiting (tasks s h)" "blk_obj (tasks s h) = Some m" using core_waiter [OF c] by auto
  show ht: "h \<noteq> t" using hw c m by (auto simp: core_def mutex_ok_def)
  show "h \<noteq> g_idle_task" using w(2) c by (auto simp: core_def waiting_def)
  show "m \<notin> set (mutex_list (tasks s h))" using core_owned [OF c w(1)] m(2) ht by auto
  show "\<And>u. u \<in> set (waiters s m) \<Longrightarrow> prio (tasks s h) \<le> prio (tasks s u)"
    using prio_sorted_hd [OF core_sorted [OF c m(1)]] h by simp
  show "\<And>x. x \<noteq> m \<Longrightarrow> remove1 h (waiters s x) = waiters s x"
    using core_waiter [OF c, of h] w(3) by (intro remove1_idem) auto
qed

lemma passed_mutex_ok:
  assumes c: "core T s" and t: "t \<in> T" and m: "obj_type (blks s m) = RHINO_MUTEX_OBJ_TYPE"
      "mutex_task (mutexes s m) = Some t" "waiters s m \<noteq> []" and h: "h = hd (waiters s m)"
    and p: "passed t h m s S"
  shows "mutex_ok T S"
proof -
  note hd = passed_hd [OF c t m h]
  have mo: "mutex_ok T s" using c by (simp add: core_def)
  have dw: "distinct (waiters s m)" using c wait_inv_distinct by (auto simp: core_def)
  have b: "\<And>x. waiters S x = remove1 h (waiters s x)" "\<And>x. obj_type (blks S x) = obj_type (blks s x)"
    "\<And>x. blk_policy (blks S x) = blk_policy (blks s x)" "\<And>x. x \<noteq> m \<Longrightarrow> mutexes S x = mutexes s x"
    "mutex_task (mutexes S m) = Some h" "owner_nested (mutexes S m) > 0"
    "\<And>u. mutex_list (tasks S u) = (if u = t then filter (\<lambda>x. x \<noteq> m) (mutex_list (tasks s t))
          else if u = h then m # mutex_list (tasks s h) else mutex_list (tasks s u))"
    using p by (simp_all add: passed_def)
  show ?thesis
    unfolding mutex_ok_def
  proof (intro conjI ballI allI impI)
    fix u assume u: "u \<in> T"
    show "distinct (mutex_list (tasks S u))" using mo u t hd(2,7) b(7) by (auto simp: mutex_ok_def)
    show "x \<in> set (mutex_list (tasks S u)) \<longleftrightarrow>
        obj_type (blks S x) = RHINO_MUTEX_OBJ_TYPE \<and> mutex_task (mutexes S x) = Some u" for x
      using core_owned [OF c u, of x] b(2,4,5) m(1,2) hd(5) by (cases "x = m") (auto simp: b(7))
  next
    fix x assume x: "obj_type (blks S x) = RHINO_MUTEX_OBJ_TYPE"
    show "blk_policy (blks S x) = BLK_POLICY_PRI" using mo x b(2,3) by (simp add: mutex_ok_def)
    show "mutex_task (mutexes S x) \<noteq> None" if "waiters S x \<noteq> []"
      using mo x that b(1,2,4,5) hd(9) [of x] by (cases "x = m") (auto simp: mutex_ok_def)
    fix u assume u: "mutex_task (mutexes S x) = Some u"
    show "u \<in> T" "u \<notin> set (waiters S x)" "0 < owner_nested (mutexes S x)"
      using mo x u b(1,2,4,5,6) hd(2) hd(9) [of x] dw by (cases "x = m"; auto simp: mutex_ok_def)+
  qed
qed

lemma passed_eff:
  assumes c: "core T s" and t: "t \<in> T" and m: "obj_type (blks s m) = RHINO_MUTEX_OBJ_TYPE"
      "mutex_task (mutexes s m) = Some t" "waiters s m \<noteq> []" and h: "h = hd (waiters s m)"
    and p: "passed t h m s S" and pt: "\<not> waiting (tasks s t) \<or> prio (tasks S t) = prio (tasks s t)"
    and x: "x \<in> T" "x \<noteq> t" and e: "is_eff B s x (prio (tasks s x))"
  shows "is_eff B S x (prio (tasks S x))"
proof -
  note hd = passed_hd [OF c t m h]
  have b: "\<And>x. waiters S x = remove1 h (waiters s x)"
    "\<And>u. mutex_list (tasks S u) = (if u = t then filter (\<lambda>x. x \<noteq> m) (mutex_list (tasks s t))
          else if u = h then m # mutex_list (tasks s h) else mutex_list (tasks s u))"
    "prio (tasks S x) = prio (tasks s x)"
    using p x(2) by (simp_all add: passed_def)
  have pd: "prio (tasks S u) = prio (tasks s u)" if "waiting (tasks s u)" for u
    using p pt that by (cases "u = t") (auto simp: passed_def)
  have nm: "m \<notin> set (mutex_list (tasks s x))" using core_owned [OF c x(1)] m(2) x(2) by auto
  have d: "donors S x = donors s x \<union> (if x = h then set (remove1 h (waiters s m)) else {})"
  proof -
    have "waiters S y = waiters s y" if "y \<in> set (mutex_list (tasks s x))" for y
      using that nm b(1) hd(9) [of y] by metis
    then have "(\<Union>y \<in> set (mutex_list (tasks s x)). set (waiters S y)) = donors s x" by (simp add: donors_def)
    then show ?thesis using b(1) [of m] b(2) [of x] x(2) by (auto simp: donors_def)
  qed
  have "waiting (tasks s u)" if "u \<in> donors s x" for u using core_donor [OF c x(1)] that by simp
  moreover have "waiting (tasks s u) \<and> prio (tasks s h) \<le> prio (tasks s u)"
    if "u \<in> set (remove1 h (waiters s m))" for u
    using that notin_set_remove1 [of u] hd(8) core_waiter [OF c] by fast
  moreover have "x = h \<Longrightarrow> prio (tasks s x) = prio (tasks s h)" by simp
  ultimately show ?thesis
    using e unfolding is_eff_def d b(3) by (cases "x = h") (auto simp: pd Bex_def)
qed

text \<open>The run queue and the wait lists when the new owner \<open>h\<close> is woken.\<close>

lemma passed_core:
  assumes c: "rq_inv {u \<in> T. task_state (tasks s u) = K_RDY} s" "wait_inv {u \<in> T. waiting (tasks s u)} s"
    and h: "h \<in> T" "waiting (tasks s h)" "prio (tasks s h) < 62"
    and q: "g_ready_queue S = g_ready_queue (pend_task_wakeup h s)" "blks S = blks (pend_task_wakeup h s)"
    and t: "\<And>u. prio (tasks S u) = prio (tasks s u)" "\<And>u. u \<noteq> h \<Longrightarrow> blk_obj (tasks S u) = blk_obj (tasks s u)"
      "\<And>u. task_state (tasks S u) = (if u = h then woken_state (task_state (tasks s h)) else task_state (tasks s u))"
  shows "rq_inv {u \<in> T. task_state (tasks S u) = K_RDY} S" "wait_inv {u \<in> T. waiting (tasks S u)} S"
proof -
  let ?s = "pend_task_wakeup h s"
  note tk = wakeup.wake_task [OF h(2)]
  have hR: "h \<notin> {u \<in> T. task_state (tasks s u) = K_RDY}" using h(2) by (auto simp: waiting_def)
  have R: "{u \<in> T. task_state (tasks S u) = K_RDY} = (if task_state (tasks s h) = K_PEND
      then insert h {u \<in> T. task_state (tasks s u) = K_RDY} else {u \<in> T. task_state (tasks s u) = K_RDY})"
    using h(1,2) hR by (auto simp: t(3) woken_state_def waiting_def)
  have W: "{u \<in> T. waiting (tasks S u)} = {u \<in> T. waiting (tasks s u)} - {h}"
    using h(2) by (auto simp: waiting_def t(3) woken_state_def)
  show "rq_inv {u \<in> T. task_state (tasks S u) = K_RDY} S"
    unfolding R using wakeup.wake_rq [OF c(1) hR h(2,3)] t(1) q(1) by (subst rq_inv_cong [of S ?s]) simp_all
  show "wait_inv {u \<in> T. waiting (tasks S u)} S"
    unfolding W using wakeup.wake_wait [OF c(2) h(2)] t(1,2) q(2)
    by (subst wait_inv_cong [of S ?s]) (simp_all add: tk)
qed

lemma ksys_unlock_pass:
  assumes k: "ksys s" and t: "t \<in> all_tasks s" "task_state (tasks s t) = K_RDY"
    and m: "obj_type (blks s m) = RHINO_MUTEX_OBJ_TYPE" "mutex_task (mutexes s m) = Some t" "waiters s m \<noteq> []"
    and r: "released t m p s s2" and fr: "g_kobj_list s2 = g_kobj_list s" "g_tick_head s2 = g_tick_head s"
      "g_tick_count s2 = g_tick_count s" and h: "h = hd (waiters s m)"
  shows "ksys (mutex_get h m (pend_task_wakeup h s2))"
proof -
  let ?T = "all_tasks s" and ?s3 = "pend_task_wakeup h s2"
  define S where "S = mutex_get h m (pend_task_wakeup h s2)"
  note c = released_core [OF k t r] and d = released_donors [OF k t m(1,2) r]
  note hd = passed_hd [OF ksysD(1) [OF k] t(1) m h]
  have s2: "tasks s2 = (tasks s)(t := (tasks s t)\<lparr>mutex_list := filter (\<lambda>x. x \<noteq> m) (mutex_list (tasks s t)), prio := p\<rparr>)"
    "blks s2 = blks s" using r by (simp_all add: released_def)
  have wh: "waiting (tasks s2 h)" using hd(3,5) s2(1) by simp
  note f = wakeup.wake_fields [OF wh] and tk = wakeup.wake_task [OF wh]
  have ps: "passed t h m s S"
    using f r hd(5) by (auto simp: passed_def released_def tk S_def)
  have st: "task_state (tasks S u) = (if u = h then woken_state (task_state (tasks s2 h)) else task_state (tasks s2 u))" for u
    by (simp add: tk S_def)
  have pS: "prio (tasks S u) = prio (tasks s2 u)" "b_prio (tasks S u) = b_prio (tasks s2 u)" for u by (simp_all add: S_def)
  note pc = passed_core [OF c(1,2) hd(2) wh, of S]
  have co: "core ?T S"
    unfolding core_def
  proof (intro conjI)
    show "rq_inv {u \<in> ?T. task_state (tasks S u) = K_RDY} S" "wait_inv {u \<in> ?T. waiting (tasks S u)} S"
      by (rule pc; use c(3) [OF hd(2)] st in \<open>simp add: S_def tk\<close>)+
    show "mutex_ok ?T S" by (rule passed_mutex_ok [OF ksysD(1) [OF k] t(1) m h ps])
    show "\<forall>u\<in>?T. task_state (tasks S u) \<notin> {K_SEED, K_DELETED} \<and> prio (tasks S u) < 62 \<and> b_prio (tasks S u) < 62"
      using c(3) by (simp add: st pS woken_state_def)
    show "g_idle_task \<in> ?T" "task_state (tasks S g_idle_task) = K_RDY" using c(4,5) hd(6) st by simp_all
    show "mutex_list (tasks S g_idle_task) = []" using c(6) hd(6) by (simp add: S_def)
  qed
  have eff: "is_eff (base s) S x (prio (tasks S x))" if x: "x \<in> ?T" for x
  proof (cases "x = t")
    case False
    have "is_eff (base s) s x (prio (tasks s x))" using ksysD(2) [OF k] x by (simp add: all_eff_def)
    then show ?thesis
      using t(2) by (intro passed_eff [OF ksysD(1) [OF k] t(1) m h ps _ x False]) (auto simp: waiting_def)
  next
    case True
    have "remove1 h (waiters s y) = waiters s y" if "y \<in> set (mutex_list (tasks s2 t))" for y
      using that hd(9) [of y] s2(1) by auto
    then have "donors S t = donors s2 t" using f(1) hd(5) s2(2) by (simp add: donors_def S_def)
    then show ?thesis using d(2) [OF x] True unfolding is_eff_def pS by simp
  qed
  have "ksys S"
  proof (rule ksys_build [OF k _ co])
    show "all_eff (base s) ?T S" using eff by (simp add: all_eff_def)
    have "tick_inv s2" using ksysD(3) [OF k] fr r by (subst tick_inv_cong [of _ s]) (auto simp: released_def)
    from wakeup.wake_tick [OF this _ wh] hd(2) fr have "tick_inv ?s3" by simp
    then show "tick_inv S" by (subst tick_inv_cong [of _ ?s3]) (auto simp: S_def)
    show "task_ok (tasks S u)" if "u \<in> ?T" for u
    proof -
      have "task_ok (tasks ?s3 u)"
        using released_task_ok [OF k r that] wh
        by (auto simp: tk task_ok_def waiting_def sleeping_def suspended_def woken_state_def)
      then show ?thesis by (simp add: S_def task_ok_def waiting_def sleeping_def suspended_def)
    qed
    show "k_faults S = []" using f(4) r by (simp add: released_def S_def)
  qed (use fr f(5) s2 in \<open>auto simp: S_def\<close>)
  then show ?thesis by (simp add: S_def)
qed

text \<open>Deleting a mutex: it loses its type and its place in the chain of its owner.\<close>

lemma filter_neq_idem: "m \<notin> set xs \<Longrightarrow> filter (\<lambda>x. x \<noteq> m) xs = xs"
  by (induction xs) auto

lemma core_dispose:
  assumes k: "ksys s" and m: "obj_type (blks s m) = RHINO_MUTEX_OBJ_TYPE"
    and L: "blks L = (blks s)(m := (blks s m)\<lparr>obj_type := RHINO_OBJ_TYPE_NONE\<rparr>)" "mutexes L = mutexes s"
      "g_ready_queue L = g_ready_queue s"
      "\<And>u. prio (tasks L u) = prio (tasks s u) \<and> b_prio (tasks L u) = b_prio (tasks s u)
        \<and> task_state (tasks L u) = task_state (tasks s u) \<and> blk_obj (tasks L u) = blk_obj (tasks s u)"
      "\<And>u. u \<in> all_tasks s \<Longrightarrow> mutex_list (tasks L u) = filter (\<lambda>x. x \<noteq> m) (mutex_list (tasks s u))"
  shows "core (all_tasks s) L"
    "\<And>y. y \<in> all_tasks s \<Longrightarrow> mutex_task (mutexes s m) \<noteq> Some y \<Longrightarrow> is_eff (base s) L y (prio (tasks L y))"
proof -
  let ?T = "all_tasks s"
  note c = ksysD(1) [OF k]
  have w: "waiters L x = waiters s x" for x using L(1) by simp
  have "rq_inv R L \<longleftrightarrow> rq_inv R s" "wait_inv W L \<longleftrightarrow> wait_inv W s" for R W
    by (rule rq_inv_cong wait_inv_cong; use L in simp)+
  moreover have "mutex_ok ?T L"
    using ksysD(8) [OF k] L(2,5) w unfolding mutex_ok_def L(1) by auto
  moreover have "mutex_list (tasks L g_idle_task) = []" using L(5) ksysD(9,11) [OF k] by simp
  ultimately show "core ?T L" using c L(4) by (simp add: core_def waiting_def)
  fix y assume y: "y \<in> ?T" "mutex_task (mutexes s m) \<noteq> Some y"
  then have "m \<notin> set (mutex_list (tasks s y))" using core_owned [OF c y(1), of m] by simp
  then have "mutex_list (tasks L y) = mutex_list (tasks s y)"
    using L(5) [OF y(1)] by (simp add: filter_neq_idem)
  then have "donors L y = donors s y" using w by (simp add: donors_def)
  then show "is_eff (base s) L y (prio (tasks L y))"
    using ksysD(2) [OF k] y(1) L(4) by (simp add: all_eff_def is_eff_def)
qed

definition mutex_dispose :: "oid \<Rightarrow> kstate \<Rightarrow> kstate" where
  "mutex_dispose m s = (let s1 = upd_blk m (\<lambda>b. b\<lparr>obj_type := RHINO_OBJ_TYPE_NONE\<rparr>) s
     in case mutex_task (mutexes s1 m) of None \<Rightarrow> s1 | Some t \<Rightarrow> mutex_release t (Some m) s1)"

lemma ksys_mutex_dispose:
  assumes k: "ksys s" and m: "obj_type (blks s m) = RHINO_MUTEX_OBJ_TYPE"
  shows "ksys (mutex_dispose m s)"
    "\<exists>u f. forget (mutex_dispose m s) = forget (upd_task u (\<lambda>x. x\<lparr>mutex_list := f x\<rparr>)
        (upd_blk m (\<lambda>b. b\<lparr>obj_type := RHINO_OBJ_TYPE_NONE\<rparr>) s))"
proof -
  let ?T = "all_tasks s" and ?s1 = "upd_blk m (\<lambda>b. b\<lparr>obj_type := RHINO_OBJ_TYPE_NONE\<rparr>) s"
  have "\<exists>L. core ?T (mutex_dispose m s) \<and> all_eff (base s) ?T (mutex_dispose m s) \<and> k_faults (mutex_dispose m s) = []
    \<and> forget (mutex_dispose m s) = forget L \<and> (\<exists>u f. L = upd_task u (\<lambda>x. x\<lparr>mutex_list := f x\<rparr>) ?s1)"
  proof (cases "mutex_task (mutexes s m)")
    case None
    have e: "mutex_dispose m s = ?s1" using None by (simp add: mutex_dispose_def Let_def)
    have nl: "m \<notin> set (mutex_list (tasks s u))" if "u \<in> ?T" for u
      using core_owned [OF ksysD(1) [OF k] that, of m] None by simp
    have "mutex_list (tasks s u) = filter (\<lambda>x. x \<noteq> m) (mutex_list (tasks s u))" if "u \<in> ?T" for u
      using nl [OF that] by (simp add: filter_neq_idem)
    then have "core ?T ?s1" "all_eff (base s) ?T ?s1"
      using core_dispose [OF k m, of ?s1] None by (auto simp: all_eff_def upd_blk_def)
    moreover have "upd_task 0 (\<lambda>x. x\<lparr>mutex_list := mutex_list x\<rparr>) ?s1 = ?s1" by (simp add: upd_task_def)
    ultimately show ?thesis unfolding e using ksysD(5) [OF k] by (metis upd_blk_frame(21))
  next
    case (Some x)
    have x: "x \<in> ?T" using ksysD(8) [OF k] m Some by (auto simp: mutex_ok_def)
    have xi: "x \<noteq> g_idle_task" using core_owned [OF ksysD(1) [OF k] x, of m] m Some ksysD(11) [OF k] by auto
    define L where "L = fst (mutex_pri_look x (Some m) ?s1)"
    define p where "p = snd (mutex_pri_look x (Some m) ?s1)"
    have L: "L = upd_task x (\<lambda>x. x\<lparr>mutex_list := filter (\<lambda>x. x \<noteq> m) (mutex_list x)\<rparr>) ?s1"
      by (simp add: L_def mutex_pri_look_def Let_def pri_look_loop_chain) (simp add: upd_task_def upd_blk_def)
    have r: "mutex_dispose m s = (if p \<noteq> prio (tasks L x) then fst (task_pri_change x p L) else L)"
      using Some by (simp add: mutex_dispose_def Let_def mutex_release_def L_def p_def split: prod.split)
    have "prio_sorted ?s1 y" if "y \<in> set (mutex_list (tasks ?s1 x))" for y
      using core_owned_sorted [OF ksysD(1) [OF k] x] that by (cases "y = m") (simp_all add: prio_sorted_def)
    from look_rel_eff [where t = x and s = ?s1 and r = m, OF this] have e: "is_eff (base s) L x p"
      by (simp add: L_def p_def)
    have p: "p < 62" using e ksysD(15) [OF k x] by (auto simp: is_eff_def)
    have ml: "mutex_list (tasks L u) = filter (\<lambda>x. x \<noteq> m) (mutex_list (tasks s u))" if "u \<in> ?T" for u
    proof (cases "u = x")
      case False
      then have "m \<notin> set (mutex_list (tasks s u))" using core_owned [OF ksysD(1) [OF k] that, of m] Some by simp
      then show ?thesis using False by (simp add: L filter_neq_idem)
    qed (simp add: L)
    have c: "core ?T L" "\<And>y. y \<in> ?T \<Longrightarrow> y \<noteq> x \<Longrightarrow> is_eff (base s) L y (prio (tasks L y))"
      using core_dispose [OF k m, of L] ml Some by (auto simp: L upd_blk_def)
    have bL: "\<forall>y\<in>?T. base s y = base L y" by (auto simp: L)
    have T: "?T \<subseteq> all_tasks L" by (simp add: L)
    have f: "k_faults L = []" using ksysD(5) [OF k] by (simp add: L)
    note q = task_pri_change_spec [OF c(1) T x xi p c(2) e bL]
    have "all_eff (base s) ?T L" if "p = prio (tasks L x)"
      unfolding all_eff_def using c(2) e that by metis
    then have "core ?T (mutex_dispose m s) \<and> all_eff (base s) ?T (mutex_dispose m s) \<and> k_faults (mutex_dispose m s) = []"
      using q c(1) f by (auto simp: r)
    moreover have "forget (mutex_dispose m s) = forget L" by (simp add: r)
    moreover have "\<exists>u f. L = upd_task u (\<lambda>x. x\<lparr>mutex_list := f x\<rparr>) ?s1"
      unfolding L by (intro exI [of _ x] exI [of _ "\<lambda>x. filter (\<lambda>y. y \<noteq> m) (mutex_list x)"]) simp
    ultimately show ?thesis by blast
  qed
  then obtain u f where a: "core ?T (mutex_dispose m s)" "all_eff (base s) ?T (mutex_dispose m s)"
    "k_faults (mutex_dispose m s) = []"
    and fg: "forget (mutex_dispose m s) = forget (upd_task u (\<lambda>x. x\<lparr>mutex_list := f x\<rparr>) ?s1)" by blast
  show "\<exists>u f. forget (mutex_dispose m s) = forget (upd_task u (\<lambda>x. x\<lparr>mutex_list := f x\<rparr>) ?s1)" using fg by blast
  note ff = forget_fields [OF fg] and ft = forget_tasks [OF fg]
  show "ksys (mutex_dispose m s)"
  proof (rule ksys_build [OF k _ a(1,2)])
    show "tick_inv (mutex_dispose m s)" using ksysD(3) [OF k] ff ft by (subst tick_inv_cong [of _ s]) auto
    show "task_ok (tasks (mutex_dispose m s) v)" if "v \<in> ?T" for v
      using ksysD(4) [OF k that] ft(1,5,8) [of v]
      by (cases "v = u") (simp_all add: task_ok_def waiting_def sleeping_def suspended_def)
    show "b_prio (tasks (mutex_dispose m s) v) = b_prio (tasks s v)" if "v \<in> ?T" for v
      using ft(18) [of v] by (cases "v = u") simp_all
  qed (use ff a(3) in simp_all)
qed

section \<open>Every call keeps the kernel in order\<close>

text \<open>The invariant after an operation that changes tasks and mutexes but no other object.\<close>

lemma kinv_tasks:
  assumes k: "kinv s" and s': "ksys s'" "reg_ok s'" "g_kobj_list s' = g_kobj_list s \<or> task_head (g_kobj_list s') = task_head (g_kobj_list s)"
    and ty: "\<And>x. obj_type (blks s' x) \<notin> {RHINO_MUTEX_OBJ_TYPE, RHINO_OBJ_TYPE_NONE} \<Longrightarrow> obj_type (blks s' x) = obj_type (blks s x)"
    and nw: "\<And>x. obj_type (blks s' x) = RHINO_OBJ_TYPE_NONE \<Longrightarrow> waiters s' x = []"
    and o: "sems s' = sems s" "events s' = events s" "queues s' = queues s" "buf_queues s' = buf_queues s"
    and w: "\<And>u x. u \<in> all_tasks s \<Longrightarrow> obj_type (blks s' x) \<noteq> RHINO_MUTEX_OBJ_TYPE
      \<Longrightarrow> waiting (tasks s' u) \<Longrightarrow> blk_obj (tasks s' u) = Some x \<Longrightarrow> waiting (tasks s u) \<and> blk_obj (tasks s u) = Some x"
    and f: "\<And>u. u \<in> all_tasks s \<Longrightarrow> pend_flags (tasks s' u) = pend_flags (tasks s u)
      \<and> pend_option (tasks s' u) = pend_option (tasks s u) \<and> blk_state (tasks s' u) \<noteq> BLK_INVALID"
  shows "kinv s'"
  unfolding kinv_def
proof (intro conjI allI ballI)
  have T: "all_tasks s' = all_tasks s" using s'(3) by auto
  fix x
  show "obj_ok s' x"
  proof (cases "obj_type (blks s' x) \<in> {RHINO_MUTEX_OBJ_TYPE, RHINO_OBJ_TYPE_NONE}")
    case True
    then show ?thesis using nw by (auto simp: obj_ok_def)
  next
    case False
    have sub: "set (waiters s' x) \<subseteq> set (waiters s x)"
    proof
      fix u assume u: "u \<in> set (waiters s' x)"
      then have "u \<in> all_tasks s" "waiting (tasks s u)" "blk_obj (tasks s u) = Some x"
        using ksys_waiter(1-3) [OF s'(1) u] w [of u x] False T by auto
      then show "u \<in> set (waiters s x)" using core_waiter [OF ksysD(1)] k by (simp add: kinv_def)
    qed
    have "u \<in> all_tasks s" if "u \<in> set (waiters s' x)" for u using ksys_waiter(1) [OF s'(1) that] T by simp
    then show ?thesis
      by (intro obj_ok_mono [OF kinv_obj [OF k, of x]]) (use False ty sub o f in auto)
  qed
next
  show "blk_state (tasks s' t) \<noteq> BLK_INVALID" if "t \<in> all_tasks s'" for t using that f s'(3) by auto
qed (use s' in simp_all)

lemma mutex_create_good:
  assumes "good s" "\<And>ob. mutex = Some ob \<Longrightarrow> obj_type (blks s ob) = RHINO_OBJ_TYPE_NONE"
  shows "good (fst (mutex_create mutex name fl s))"
proof (cases "\<exists>ob n. mutex = Some ob \<and> name = Some n")
  case True
  then obtain ob n where e: "mutex = Some ob" "name = Some n" by blast
  let ?s = "fst (mutex_create mutex name fl s)"
  note d = mutex_create_def e Let_def upd_blk_def upd_mutex_def
  have ty: "obj_type (blks s ob) = RHINO_OBJ_TYPE_NONE" using assms(2) e by simp
  have bk: "blks ?s = (blks s)(ob := (blks s ob)\<lparr>blk_list := [], blk_policy := BLK_POLICY_PRI,
      obj_type := RHINO_MUTEX_OBJ_TYPE\<rparr>)"
    by (simp add: d)
  have kl: "g_kobj_list ?s = (g_kobj_list s)\<lparr>mutex_head := mutex_head (g_kobj_list s) @ [ob]\<rparr>"
    by (simp add: d)
  have "reg_ok ?s"
    by (rule reg_ok_swap [where f = "\<lambda>g. g\<lparr>mutex_head := mutex_head g @ [ob]\<rparr>" and ob = ob
          and ty = RHINO_MUTEX_OBJ_TYPE])
       (use goodD(1) [OF assms(1)] kl bk ty in \<open>auto simp: kinv_def\<close>)
  moreover have "obj_ok ?s ob" by (simp add: obj_ok_def bk)
  moreover have "same_run s ?s"
    using goodD(7) [OF assms(1)]
    by (simp add: d same_run_def cpu_intrpt_restore_def tspend_handler_def cpu_intrpt_save_def)
  ultimately show ?thesis
    by (intro good_create [OF assms(1) _ ty bk]) (simp_all add: mutex_create_def e Let_def)
next
  case False
  then show ?thesis using assms(1) by (auto simp: mutex_create_def split: option.split)
qed

lemma krhino_mutex_dyn_create_good:
  assumes "good s" "\<And>ob. alloc = Some ob \<Longrightarrow> obj_type (blks s ob) = RHINO_OBJ_TYPE_NONE"
  shows "good (fst (krhino_mutex_dyn_create out alloc name s))"
  using assms mutex_create_good [OF assms(1), of alloc name K_OBJ_DYN_ALLOC]
  by (auto simp: krhino_mutex_dyn_create_def krhino_mm_free_good split: option.split prod.split)

lemma mutex_unlink_good:
  assumes g: "good s" and ty: "obj_type (blks s m) = RHINO_MUTEX_OBJ_TYPE" and psr: "psr = irq_off s"
  shows "good (RHINO_CRITICAL_EXIT_SCHED psr (mutex_unlink m (RHINO_CRITICAL_ENTER s)))"
proof -
  let ?e = "RHINO_CRITICAL_ENTER s"
  define d where "d = mutex_dispose m ?e"
  define w where "w = pend_all_rm m d"
  define u where "u = w\<lparr>g_kobj_list := (g_kobj_list w)\<lparr>mutex_head := remove1 m (mutex_head (g_kobj_list w))\<rparr>\<rparr>"
  have e: "mutex_unlink m ?e = u"
    by (simp add: mutex_unlink_def mutex_dispose_def d_def w_def u_def Let_def split: option.split)
  have k: "kinv ?e" "ksys ?e" using goodD(1,2) [OF g] by simp_all
  have tm: "obj_type (blks ?e m) = RHINO_MUTEX_OBJ_TYPE" using ty by simp
  note D = ksys_mutex_dispose [OF k(2) tm, folded d_def]
  from D(2) obtain v f where fg: "forget d = forget (upd_task v (\<lambda>x. x\<lparr>mutex_list := f x\<rparr>)
        (upd_blk m (\<lambda>b. b\<lparr>obj_type := RHINO_OBJ_TYPE_NONE\<rparr>) ?e))" by blast
  note ff = forget_fields [OF fg] and ft = forget_tasks [OF fg] and fb = forget_blks [OF fg]
  have td: "obj_type (blks d x) = (if x = m then RHINO_OBJ_TYPE_NONE else obj_type (blks s x))" for x
    using fb(1) [of x] by simp
  have st: "task_state (tasks d y) = task_state (tasks s y)" "blk_obj (tasks d y) = blk_obj (tasks s y)"
    "blk_state (tasks d y) = blk_state (tasks s y)" "pend_flags (tasks d y) = pend_flags (tasks s y)"
    "pend_option (tasks d y) = pend_option (tasks s y)" for y
    using ft(8,9,10,14,16) [of y] by (cases "y = v"; simp)+
  have wt: "waiting (tasks d y) = waiting (tasks s y)" for y using st(1) by (simp add: waiting_def)
  note W = wakerm.wake_all_ksys [OF D(1), of m "length (waiters d m)"]
  have kw: "ksys w" "waiters w m = []" "\<And>x. x \<noteq> m \<Longrightarrow> waiters w x = waiters d x"
    "\<And>x. obj_type (blks w x) = obj_type (blks d x)"
    "\<And>u. task_state (tasks d u) = K_RDY \<Longrightarrow> tasks w u = tasks d u"
    "\<And>u. blk_state (tasks d u) \<noteq> BLK_INVALID \<Longrightarrow> blk_state (tasks w u) \<noteq> BLK_INVALID"
    "g_kobj_list w = g_kobj_list d"
    using W td by (simp_all add: w_def pend_all_rm_def)
  have ku: "ksys u" using kw(1) by (subst ksys_view [of u w]) (simp_all add: u_def sysview_def)
  have ru: "reg_ok u"
    by (rule reg_ok_swap [where s = s and f = "\<lambda>g. g\<lparr>mutex_head := remove1 m (mutex_head g)\<rparr>" and ob = m
          and ty = RHINO_OBJ_TYPE_NONE])
       (use goodD(1) [OF g] kw(4,7) td ty ff(6) in \<open>auto simp: kinv_def u_def\<close>)
  have wf: "sems w = sems s" "events w = events s" "queues w = queues s" "buf_queues w = buf_queues s"
    "same_run s w" "\<And>y. pend_flags (tasks w y) = pend_flags (tasks s y)" "\<And>y. pend_option (tasks w y) = pend_option (tasks s y)"
    using ff st(4,5) by (simp_all add: w_def pend_all_rm_def same_run_def)
  have hd: "all_tasks d = all_tasks s" using ff(6) by simp
  have "kinv u"
  proof (rule kinv_one_object [where ob = m])
    show "ksys u" "reg_ok u" by (fact ku ru)+
    show "obj_ok u m" using kw(2,4) td by (simp add: obj_ok_def u_def)
    show "obj_ok u x" if "x \<noteq> m" for x
    proof (rule obj_ok_mono [OF kinv_obj [OF goodD(1) [OF g], of x]])
      have "y \<in> set (waiters s x)" if "y \<in> set (waiters d x)" for y
        using that core_waiter [OF ksysD(1) [OF D(1)]] core_waiter [OF ksysD(1) [OF goodD(2) [OF g]]] wt st(2) hd by simp
      then show "set (waiters u x) \<subseteq> set (waiters s x)" using kw(3) [OF that] by (auto simp: u_def)
    qed (use that kw(4) td wf in \<open>simp_all add: u_def\<close>)
    show "blk_state (tasks u t) \<noteq> BLK_INVALID" if "t \<in> all_tasks u" for t
      using that kw(6) [of t] st(3) [of t] goodD(1) [OF g] hd by (simp add: u_def kw(7) kinv_def)
  qed
  moreover have "same_run s u" using wf(5) by (simp add: same_run_def u_def)
  moreover have "task_state (tasks u (g_active_task s)) = K_RDY" if "g_sched_lock s > 0"
    using goodD(6) [OF g that] kw(5) [of "g_active_task s"] st(1) by (simp add: u_def)
  moreover have "g_active_task s \<in> all_tasks u" using goodD(4) [OF g] hd by (simp add: u_def kw(7))
  ultimately show ?thesis unfolding e using g psr by (intro good_EXIT_SCHED [of s]) simp_all
qed

lemma krhino_mutex_del_good: "good s \<Longrightarrow> good (fst (krhino_mutex_del m s))"
  by (simp add: krhino_mutex_del_def Let_def good_return mutex_unlink_good split: option.split)

lemma krhino_mutex_dyn_del_good: "good s \<Longrightarrow> good (fst (krhino_mutex_dyn_del m s))"
  by (simp add: krhino_mutex_dyn_del_def Let_def good_return mutex_unlink_good krhino_mm_free_good
      split: option.split)

text \<open>Locking and unlocking by a task.\<close>

lemma good_mutex_change:
  assumes g: "good s" and k: "ksys s'" and r: "same_run s s'" and l: "g_kobj_list s' = g_kobj_list s"
    and ty: "\<And>x. obj_type (blks s' x) = obj_type (blks s x)"
    and o: "sems s' = sems s" "events s' = events s" "queues s' = queues s" "buf_queues s' = buf_queues s"
    and w: "\<And>u x. u \<in> all_tasks s \<Longrightarrow> obj_type (blks s x) \<noteq> RHINO_MUTEX_OBJ_TYPE
      \<Longrightarrow> waiting (tasks s' u) \<Longrightarrow> blk_obj (tasks s' u) = Some x \<Longrightarrow> waiting (tasks s u) \<and> blk_obj (tasks s u) = Some x"
    and f: "\<And>u. u \<in> all_tasks s \<Longrightarrow> pend_flags (tasks s' u) = pend_flags (tasks s u)
      \<and> pend_option (tasks s' u) = pend_option (tasks s u) \<and> blk_state (tasks s' u) \<noteq> BLK_INVALID"
  shows "kinv s'"
proof (rule kinv_tasks [OF goodD(1) [OF g] k])
  show "reg_ok s'" using goodD(1) [OF g] reg_ok_cong [OF l ty] by (simp add: kinv_def)
  fix x assume x: "obj_type (blks s' x) = RHINO_OBJ_TYPE_NONE"
  show "waiters s' x = []"
  proof (rule ccontr)
    assume "waiters s' x \<noteq> []"
    then obtain u where u: "u \<in> set (waiters s' x)" by fastforce
    then have "u \<in> set (waiters s x)"
      using ksys_waiter(1-3) [OF k u] w [of u x] x ty l core_waiter [OF ksysD(1) [OF goodD(2) [OF g]]] by simp
    then show False using kinv_obj [OF goodD(1) [OF g], of x] x ty by (simp add: obj_ok_def)
  qed
qed (use l ty o w f in auto)

lemma mutex_nested_good:
  assumes g: "good s" and n: "owner_nested (f (mutexes s m)) > 0" "mutex_task (f (mutexes s m)) = mutex_task (mutexes s m)"
    and psr: "psr = irq_off s"
  shows "good (RHINO_CRITICAL_EXIT psr (upd_mutex m f (RHINO_CRITICAL_ENTER s)))"
proof (rule good_EXIT [OF g])
  have "ksys (upd_mutex m f (RHINO_CRITICAL_ENTER s))" by (rule ksys_nested) (use goodD(2) [OF g] n in simp_all)
  then show "kinv (upd_mutex m f (RHINO_CRITICAL_ENTER s))"
    by (rule good_mutex_change [OF g]) (use goodD(1) [OF g] in \<open>auto simp: same_run_def kinv_def\<close>)
qed (use goodD(4) [OF g] psr in \<open>simp_all add: same_run_def\<close>)

lemma mutex_block_good:
  assumes g: "good s" and idle: "g_active_task s \<noteq> g_idle_task"
    and ty: "obj_type (blks s m) = RHINO_MUTEX_OBJ_TYPE" and x: "mutex_task (mutexes s m) = Some x" "x \<noteq> g_active_task s"
    and n: "g_intrpt_nested_level s = 0" "g_sched_lock s = 0"
  shows "good (RHINO_CRITICAL_EXIT_SCHED (irq_off s) (pend_to_blk_obj m (g_active_task s) ticks
      (if prio (tasks s (g_active_task s)) < prio (tasks s x)
       then fst (task_pri_change x (prio (tasks s (g_active_task s))) (RHINO_CRITICAL_ENTER s)) else RHINO_CRITICAL_ENTER s)))"
proof -
  let ?e = "RHINO_CRITICAL_ENTER s" and ?t = "g_active_task s"
  define s1 where "s1 = (if prio (tasks ?e ?t) < prio (tasks ?e x) then fst (task_pri_change x (prio (tasks ?e ?t)) ?e) else ?e)"
  have ke: "ksys ?e" "?t \<in> all_tasks ?e" "task_state (tasks ?e ?t) = K_RDY"
    "obj_type (blks ?e m) = RHINO_MUTEX_OBJ_TYPE" "mutex_task (mutexes ?e m) = Some x"
    using goodD(2,4,5) [OF g] n ty x by simp_all
  note b = ksys_lock_block [OF ke(1-3) idle ke(4,5) x(2) s1_def]
  note ff = forget_fields [OF b(2)] and ft = forget_tasks [OF b(2)] and fb = forget_blks [OF b(2)]
  let ?s = "pend_to_blk_obj m ?t ticks s1"
  have st: "task_state (tasks ?s u) = (if u = ?t then K_PEND else task_state (tasks s u))"
    "blk_obj (tasks ?s u) = (if u = ?t then Some m else blk_obj (tasks s u))" for u
    using pend_to_blk_obj_task(1,2) [of m ?t ticks s1] ft(8,10) [of u] by simp_all
  have "kinv ?s"
  proof (rule good_mutex_change [OF g b(1)])
    show "same_run s ?s" using ff by (simp add: same_run_def)
    show "waiting (tasks s u) \<and> blk_obj (tasks s u) = Some y"
      if "u \<in> all_tasks s" "obj_type (blks s y) \<noteq> RHINO_MUTEX_OBJ_TYPE" "waiting (tasks ?s u)" "blk_obj (tasks ?s u) = Some y" for u y
      using that ty by (auto simp: waiting_def st split: if_splits)
  qed (use ff ft fb goodD(1) [OF g] in \<open>auto simp: kinv_def\<close>)
  moreover have "same_run s ?s" using ff by (simp add: same_run_def)
  ultimately have "good (RHINO_CRITICAL_EXIT_SCHED (irq_off s) ?s)"
    using n by (intro good_EXIT_SCHED [OF g]) simp_all
  then show ?thesis unfolding s1_def by (simp only: cpu_intrpt_save_frame)
qed

text \<open>The owner locks a mutex for which its nesting counter has no room: the call that ends in \<open>k_err_proc\<close>.\<close>

definition lock_overflows :: "oid option \<Rightarrow> kstate \<Rightarrow> bool" where
  "lock_overflows mutex s = (case mutex of None \<Rightarrow> False | Some m \<Rightarrow> g_intrpt_nested_level s = 0
     \<and> obj_type (blks s m) = RHINO_MUTEX_OBJ_TYPE \<and> mutex_task (mutexes s m) = Some (g_active_task s)
     \<and> owner_nested (mutexes s m) = - 1)"

lemma krhino_mutex_lock_report:
  assumes "lock_overflows mutex s" "g_sys_stat s = RHINO_RUNNING"
  shows "k_faults (fst (krhino_mutex_lock mutex ticks s)) = k_faults s @ [KErr RHINO_MUTEX_NESTED_OVF]"
    "snd (krhino_mutex_lock mutex ticks s) = Ret RHINO_MUTEX_NESTED_OVF"
  using assms by (auto simp: lock_overflows_def krhino_mutex_lock_def Let_def k_err_proc_def fault_def split: option.splits)

lemma krhino_mutex_lock_good:
  assumes g: "good s" and idle: "g_active_task s \<noteq> g_idle_task" and nest: "\<not> lock_overflows mutex s"
  shows "good (fst (krhino_mutex_lock mutex ticks s))"
proof (cases mutex)
  case (Some m)
  let ?e = "RHINO_CRITICAL_ENTER s" and ?t = "g_active_task s"
  have inc: "good (RHINO_CRITICAL_EXIT (irq_off s) (upd_mutex m (\<lambda>x. x\<lparr>owner_nested := owner_nested x + 1\<rparr>) ?e))"
    if "owner_nested (mutexes s m) \<noteq> - 1"
    by (rule mutex_nested_good [OF g])
       (use that in \<open>simp_all add: word_gt_0 add_eq_0_iff2\<close>)
  have get: "good (RHINO_CRITICAL_EXIT (irq_off s) (mutex_get ?t m ?e))"
    if ty: "obj_type (blks s m) = RHINO_MUTEX_OBJ_TYPE" and n: "mutex_task (mutexes s m) = None"
  proof (rule good_EXIT [OF g])
    have "ksys (mutex_get ?t m ?e)"
      by (rule ksys_mutex_get) (use goodD(2,4) [OF g] idle ty n in simp_all)
    then show "kinv (mutex_get ?t m ?e)"
      by (rule good_mutex_change [OF g]) (use goodD(1) [OF g] in \<open>auto simp: same_run_def kinv_def waiting_def\<close>)
  qed (use goodD(4) [OF g] in \<open>simp_all add: same_run_def\<close>)
  have blk: "good (RHINO_CRITICAL_EXIT_SCHED (irq_off s) (pend_to_blk_obj m ?t ticks
      (if prio (tasks s ?t) < prio (tasks s x) then fst (task_pri_change x (prio (tasks s ?t)) ?e) else ?e)))"
    if "obj_type (blks s m) = RHINO_MUTEX_OBJ_TYPE" "mutex_task (mutexes s m) = Some x" "x \<noteq> ?t"
      "g_intrpt_nested_level s = 0" "g_sched_lock s = 0" for x
    by (rule mutex_block_good [OF g idle that])
  show ?thesis
    using Some g inc get blk nest
    by (auto simp: lock_overflows_def krhino_mutex_lock_def Let_def good_return good_block_return word_pos split: option.split)
qed (simp add: krhino_mutex_lock_def g)

lemma krhino_mutex_unlock_good:
  assumes g: "good s" and idle: "g_active_task s \<noteq> g_idle_task"
  shows "good (fst (krhino_mutex_unlock mutex s))"
proof (cases "\<exists>m. mutex = Some m \<and> g_sys_stat s \<noteq> RHINO_STOPPED \<and> g_intrpt_nested_level s = 0
    \<and> obj_type (blks s m) = RHINO_MUTEX_OBJ_TYPE \<and> mutex_task (mutexes s m) = Some (g_active_task s)")
  case False
  then show ?thesis using g
    by (auto simp: krhino_mutex_unlock_def Let_def good_return word_pos split: option.split)
next
  case True
  then obtain m where m: "mutex = Some m" "g_sys_stat s \<noteq> RHINO_STOPPED" "g_intrpt_nested_level s = 0"
    "obj_type (blks s m) = RHINO_MUTEX_OBJ_TYPE" "mutex_task (mutexes s m) = Some (g_active_task s)" by blast
  let ?e = "RHINO_CRITICAL_ENTER s" and ?t = "g_active_task s" and ?dec = "\<lambda>x. x\<lparr>owner_nested := owner_nested x - 1\<rparr>"
  have ke: "ksys ?e" "?t \<in> all_tasks ?e" "task_state (tasks ?e ?t) = K_RDY"
    "obj_type (blks ?e m) = RHINO_MUTEX_OBJ_TYPE" "mutex_task (mutexes ?e m) = Some ?t"
    using goodD(2,4,5) [OF g] m by simp_all
  define s2 where "s2 = mutex_release ?t (Some m) (upd_mutex m ?dec ?e)"
  from mutex_release_rdy [OF ke(1-3) idle s2_def] obtain p where r: "released ?t m p ?e s2"
    and fg: "forget s2 = forget (upd_task ?t (\<lambda>x. x\<lparr>mutex_list := filter (\<lambda>x. x \<noteq> m) (mutex_list x)\<rparr>) (upd_mutex m ?dec ?e))"
    by blast
  note ff = forget_fields [OF fg] and ft = forget_tasks [OF fg] and fb = forget_blks [OF fg]
  have f2: "g_kobj_list s2 = g_kobj_list ?e" "g_tick_head s2 = g_tick_head ?e" "g_tick_count s2 = g_tick_count ?e"
    "same_run s s2" "sems s2 = sems s" "events s2 = events s" "queues s2 = queues s" "buf_queues s2 = buf_queues s"
    using ff by (simp_all add: same_run_def)
  have b2: "blks s2 = blks s" using r by (simp add: released_def)
  have t2: "task_state (tasks s2 u) = task_state (tasks s u)" "blk_obj (tasks s2 u) = blk_obj (tasks s u)"
    "pend_flags (tasks s2 u) = pend_flags (tasks s u)" "pend_option (tasks s2 u) = pend_option (tasks s u)"
    "blk_state (tasks s2 u) = blk_state (tasks s u)" for u
    using r by (auto simp: released_def)
  have nest: "good (RHINO_CRITICAL_EXIT (irq_off s) (upd_mutex m ?dec ?e))"
    if "owner_nested (mutexes s m) - 1 > 0"
    by (rule mutex_nested_good [OF g]) (use that in simp_all)
  have free: "good (RHINO_CRITICAL_EXIT (irq_off s) (upd_mutex m (\<lambda>x. x\<lparr>mutex_task := None\<rparr>) s2))"
    if w: "waiters s m = []"
  proof (rule good_EXIT [OF g])
    have we: "waiters ?e m = []" using w by simp
    have "ksys (upd_mutex m (\<lambda>x. x\<lparr>mutex_task := None\<rparr>) s2)"
      by (rule ksys_unlock_free [OF ke(1-5) we r f2(1-3)])
    then show "kinv (upd_mutex m (\<lambda>x. x\<lparr>mutex_task := None\<rparr>) s2)"
      by (rule good_mutex_change [OF g])
         (use f2 b2 t2 goodD(1) [OF g] in \<open>auto simp: same_run_def kinv_def waiting_def\<close>)
    have "p = prio (tasks ?e ?t)" using released_donors(3) [OF ke r we] by simp
    then show "g_ready_queue (upd_mutex m (\<lambda>x. x\<lparr>mutex_task := None\<rparr>) s2) = g_ready_queue s"
      using r by (simp add: released_def)
  qed (use f2 t2 goodD(4) [OF g] in \<open>simp_all add: same_run_def\<close>)
  have pass: "good (RHINO_CRITICAL_EXIT_SCHED (irq_off s) (mutex_get h m (pend_task_wakeup h s2)))"
    if w: "waiters s m \<noteq> []" and h: "h = hd (waiters s m)" for h
  proof -
    have we: "waiters ?e m \<noteq> []" "h = hd (waiters ?e m)" using w h by simp_all
    let ?s = "mutex_get h m (pend_task_wakeup h s2)"
    have hw: "h \<in> set (waiters s m)" using w h by simp
    have wh: "waiting (tasks s2 h)" using ksys_waiter(2) [OF goodD(2) [OF g] hw] t2(1) by (simp add: waiting_def)
    note tk = wakeup.wake_task [OF wh] and f = wakeup.wake_fields [OF wh]
    have k: "ksys ?s" by (rule ksys_unlock_pass [OF ke we(1) r f2(1-3) we(2)])
    have "kinv ?s"
    proof (rule good_mutex_change [OF g k])
      show "waiting (tasks s u) \<and> blk_obj (tasks s u) = Some y"
        if "u \<in> all_tasks s" "obj_type (blks s y) \<noteq> RHINO_MUTEX_OBJ_TYPE" "waiting (tasks ?s u)" "blk_obj (tasks ?s u) = Some y" for u y
        using that t2(1,2) [of u] by (auto simp: waiting_def tk split: if_splits)
    qed (use f f2 b2 t2 tk goodD(1) [OF g] in \<open>auto simp: same_run_def kinv_def\<close>)
    moreover have "task_state (tasks ?s ?t) = K_RDY"
      using goodD(5) [OF g m(3)] t2(1) [of ?t] wh by (auto simp: tk waiting_def)
    ultimately show ?thesis
      using f2 f goodD(4) [OF g] by (intro good_EXIT_SCHED [OF g]) (auto simp: same_run_def)
  qed
  show ?thesis
    using m g nest free pass b2
    by (simp add: krhino_mutex_unlock_def Let_def s2_def [symmetric] word_pos)
qed

end
