(* ===== verification/Task.thy ===== *)
theory Task
  imports Mutex
begin

text \<open>
  The operations on tasks of \<^verbatim>\<open>core/k_task.c\<close>: creation, sleep, yield, suspension and resumption, change
  of priority, time slice and policy. Deletion is in theory \<open>Task_Del\<close>. The contents of a task's stack are
  not part of the kernel's state; \<open>krhino_task_stack_min_free\<close> takes the words of the stack as an argument.
\<close>

section \<open>The code\<close>

text \<open>The control block after \<open>memset\<close> and the assignments of \<open>task_create\<close>.\<close>

definition new_task :: "nat \<Rightarrow> nat \<Rightarrow> nat \<Rightarrow> u64 \<Rightarrow> bool \<Rightarrow> mm_alloc_flag_t \<Rightarrow> ktask_t" where
  "new_task stack_buf stk_size pri ticks autorun mm_alloc_flag =
     (let total = (if ticks > 0 then ucast ticks else RHINO_CONFIG_TIME_SLICE_DEFAULT) in
      \<lparr>task_stack_base = stack_buf, stack_size = stk_size, suspend_count = if autorun then 0 else 1,
       mutex_list = [], tick_match = 0, tick_remain = 0, tick_head = False, msg = [], bq_msg_size = 0,
       task_state = if autorun then K_RDY else K_SUSPENDED, blk_state = BLK_FINISH, blk_obj = None,
       task_sem_obj = None, task_time_slice = total, time_total = total, pend_flags = 0, pend_info = 0,
       pend_option = 0, sched_policy = KSCHED_RR, prio = pri, b_prio = pri,
       task_mm_alloc_flag = mm_alloc_flag, runtime = 0\<rparr>)"

definition task_create :: "tid option \<Rightarrow> string option \<Rightarrow> nat \<Rightarrow> u64 \<Rightarrow> nat option \<Rightarrow> nat \<Rightarrow> bool \<Rightarrow> bool
    \<Rightarrow> mm_alloc_flag_t \<Rightarrow> kstate \<Rightarrow> kstate \<times> kstat" where
  "task_create task name pri ticks stack_buf stk_size entry autorun mm_alloc_flag s =
     (case (task, name, stack_buf) of
        (Some t, Some name, Some stk) \<Rightarrow>
          if \<not> entry then (s, RHINO_NULL_PTR)
          else if stk_size = 0 then (s, RHINO_TASK_INV_STACK_SIZE)
          else if pri \<ge> RHINO_CONFIG_PRI_MAX then (s, RHINO_BEYOND_MAX_PRI)
          else (let psr = irq_off s; s0 = RHINO_CRITICAL_ENTER s in
            if g_intrpt_nested_level s0 > 0 then (RHINO_CRITICAL_EXIT psr s0, RHINO_NOT_CALLED_BY_INTRPT)
            else if pri = RHINO_IDLE_PRI \<and> g_idle_task_spawned s0
            then (RHINO_CRITICAL_EXIT psr s0, RHINO_IDLE_TASK_EXIST)
            else (let s1 = (if pri = RHINO_IDLE_PRI then s0\<lparr>g_idle_task_spawned := True\<rparr> else s0);
                      s2 = RHINO_CRITICAL_EXIT psr s1;
                      s3 = upd_task t (\<lambda>x. new_task stk stk_size pri ticks autorun mm_alloc_flag) s2;
                      psr = irq_off s3; s4 = RHINO_CRITICAL_ENTER s3;
                      s5 = s4\<lparr>g_kobj_list := (g_kobj_list s4)\<lparr>task_head := task_head (g_kobj_list s4) @ [t]\<rparr>\<rparr>
                  in if autorun then
                       (let s6 = ready_list_add_tail t s5 in
                        if g_sys_stat s6 = RHINO_RUNNING then (RHINO_CRITICAL_EXIT_SCHED psr s6, RHINO_SUCCESS)
                        else (RHINO_CRITICAL_EXIT psr s6, RHINO_SUCCESS))
                     else (RHINO_CRITICAL_EXIT psr s5, RHINO_SUCCESS)))
      | _ \<Rightarrow> (s, RHINO_NULL_PTR))"

definition krhino_task_create :: "tid option \<Rightarrow> string option \<Rightarrow> nat \<Rightarrow> u64 \<Rightarrow> nat option \<Rightarrow> nat \<Rightarrow> bool \<Rightarrow> bool
    \<Rightarrow> kstate \<Rightarrow> kstate \<times> kstat" where
  "krhino_task_create task name pri ticks stack_buf stk_size entry autorun s =
     task_create task name pri ticks stack_buf stk_size entry autorun K_OBJ_STATIC_ALLOC s"

text \<open>
  One allocation holds the stack and, behind it, the control block; \<open>alloc\<close> gives the two addresses.
\<close>

definition task_dyn_create :: "bool \<Rightarrow> (nat \<times> tid) option \<Rightarrow> string option \<Rightarrow> nat \<Rightarrow> u64 \<Rightarrow> nat \<Rightarrow> bool \<Rightarrow> bool
    \<Rightarrow> kstate \<Rightarrow> kstate \<times> kstat \<times> tid option" where
  "task_dyn_create task_out alloc name pri ticks stack entry autorun s =
     (if \<not> task_out then (s, RHINO_NULL_PTR, None)
      else if stack = 0 then (s, RHINO_INV_PARAM, None)
      else (case alloc of
          None \<Rightarrow> (s, RHINO_NO_MEM, None)
        | Some (task_stack, task_obj) \<Rightarrow>
            (case task_create (Some task_obj) name pri ticks (Some task_stack) stack entry autorun K_OBJ_DYN_ALLOC s
             of (s1, ret) \<Rightarrow>
               if ret \<noteq> RHINO_SUCCESS \<and> ret \<noteq> RHINO_STOPPED then (krhino_mm_free task_stack s1, ret, None)
               else (s1, ret, Some task_obj))))"

definition krhino_task_dyn_create :: "bool \<Rightarrow> (nat \<times> tid) option \<Rightarrow> string option \<Rightarrow> nat \<Rightarrow> u64 \<Rightarrow> nat \<Rightarrow> bool \<Rightarrow> bool
    \<Rightarrow> kstate \<Rightarrow> kstate \<times> kstat \<times> tid option" where
  "krhino_task_dyn_create task_out alloc name pri ticks stack entry autorun s =
     task_dyn_create task_out alloc name pri ticks stack entry autorun s"

text \<open>The active task goes to sleep; the rest of the call runs when it is active again.\<close>

definition task_to_sleep :: "tid \<Rightarrow> u64 \<Rightarrow> kstate \<Rightarrow> kstate" where
  "task_to_sleep t ticks s =
     ready_list_rm t (tick_list_insert t ticks (upd_task t (\<lambda>x. x\<lparr>task_state := K_SLEEP\<rparr>) s))"

definition krhino_task_sleep :: "u64 \<Rightarrow> kstate \<Rightarrow> kstate \<times> kret" where
  "krhino_task_sleep ticks s =
     (if ticks = 0 then (s, Ret RHINO_INV_PARAM)
      else (let psr = irq_off s; s0 = RHINO_CRITICAL_ENTER s in
        if g_intrpt_nested_level s0 > 0 then (RHINO_CRITICAL_EXIT psr s0, Ret RHINO_NOT_CALLED_BY_INTRPT)
        else if g_sched_lock s0 > 0 then (RHINO_CRITICAL_EXIT psr s0, Ret RHINO_SCHED_DISABLE)
        else block_return (g_active_task s0)
               (RHINO_CRITICAL_EXIT_SCHED psr (task_to_sleep (g_active_task s0) ticks s0))))"

definition krhino_task_yield :: "kstate \<Rightarrow> kstate \<times> kstat" where
  "krhino_task_yield s = (let psr = irq_off s; s0 = RHINO_CRITICAL_ENTER s in
     (RHINO_CRITICAL_EXIT_SCHED psr (ready_list_head_to_tail (g_active_task s0) s0), RHINO_SUCCESS))"

definition krhino_cur_task_get :: "kstate \<Rightarrow> kstate \<times> tid" where
  "krhino_cur_task_get s = (let psr = irq_off s; s0 = RHINO_CRITICAL_ENTER s
     in (RHINO_CRITICAL_EXIT psr s0, g_active_task s0))"

text \<open>For the active task the saved mask is changed so that the exit opens interrupts.\<close>

definition task_suspend :: "tid \<Rightarrow> kstate \<Rightarrow> kstate \<times> kstat" where
  "task_suspend task s =
     (let s0 = RHINO_CRITICAL_ENTER s; psr = (if task = g_active_task s0 then False else irq_off s);
          set_state = (\<lambda>st. upd_task task (\<lambda>x. x\<lparr>suspend_count := 1, task_state := st\<rparr>) s0)
      in if task = g_active_task s0 \<and> g_sched_lock s0 > 0 then (RHINO_CRITICAL_EXIT psr s0, RHINO_SCHED_DISABLE)
      else (case task_state (tasks s0 task) of
          K_RDY \<Rightarrow> (RHINO_CRITICAL_EXIT_SCHED psr (ready_list_rm task (set_state K_SUSPENDED)), RHINO_SUCCESS)
        | K_SLEEP \<Rightarrow> (RHINO_CRITICAL_EXIT_SCHED psr (set_state K_SLEEP_SUSPENDED), RHINO_SUCCESS)
        | K_PEND \<Rightarrow> (RHINO_CRITICAL_EXIT_SCHED psr (set_state K_PEND_SUSPENDED), RHINO_SUCCESS)
        | K_SEED \<Rightarrow> (RHINO_CRITICAL_EXIT psr s0, RHINO_INV_TASK_STATE)
        | K_DELETED \<Rightarrow> (RHINO_CRITICAL_EXIT psr s0, RHINO_INV_TASK_STATE)
        | _ \<Rightarrow> if suspend_count (tasks s0 task) = - 1
               then (RHINO_CRITICAL_EXIT psr s0, RHINO_SUSPENDED_COUNT_OVF)
               else (RHINO_CRITICAL_EXIT_SCHED psr
                       (upd_task task (\<lambda>x. x\<lparr>suspend_count := suspend_count x + 1\<rparr>) s0), RHINO_SUCCESS)))"

definition krhino_task_suspend :: "tid option \<Rightarrow> kstate \<Rightarrow> kstate \<times> kstat" where
  "krhino_task_suspend task s = (case task of None \<Rightarrow> (s, RHINO_NULL_PTR) | Some t \<Rightarrow>
     if prio (tasks s t) = RHINO_IDLE_PRI then (s, RHINO_TASK_SUSPEND_NOT_ALLOWED) else task_suspend t s)"

definition task_resume :: "tid \<Rightarrow> kstate \<Rightarrow> kstate \<times> kstat" where
  "task_resume task s =
     (let psr = irq_off s; s0 = RHINO_CRITICAL_ENTER s;
          s1 = upd_task task (\<lambda>x. x\<lparr>suspend_count := suspend_count x - 1\<rparr>) s0;
          up = suspend_count (tasks s1 task) = 0
      in case task_state (tasks s0 task) of
          K_SUSPENDED \<Rightarrow> (RHINO_CRITICAL_EXIT_SCHED psr
             (if up then ready_list_add task (upd_task task (\<lambda>x. x\<lparr>task_state := K_RDY\<rparr>) s1) else s1), RHINO_SUCCESS)
        | K_SLEEP_SUSPENDED \<Rightarrow> (RHINO_CRITICAL_EXIT_SCHED psr
             (if up then upd_task task (\<lambda>x. x\<lparr>task_state := K_SLEEP\<rparr>) s1 else s1), RHINO_SUCCESS)
        | K_PEND_SUSPENDED \<Rightarrow> (RHINO_CRITICAL_EXIT_SCHED psr
             (if up then upd_task task (\<lambda>x. x\<lparr>task_state := K_PEND\<rparr>) s1 else s1), RHINO_SUCCESS)
        | K_SEED \<Rightarrow> (RHINO_CRITICAL_EXIT psr s0, RHINO_INV_TASK_STATE)
        | K_DELETED \<Rightarrow> (RHINO_CRITICAL_EXIT psr s0, RHINO_INV_TASK_STATE)
        | _ \<Rightarrow> (RHINO_CRITICAL_EXIT psr s0, RHINO_TASK_NOT_SUSPENDED))"

definition krhino_task_resume :: "tid option \<Rightarrow> kstate \<Rightarrow> kstate \<times> kstat" where
  "krhino_task_resume task s = (case task of None \<Rightarrow> (s, RHINO_NULL_PTR) | Some t \<Rightarrow> task_resume t s)"

text \<open>
  The stack grows downwards; word 0 is the overflow mark, so the count of untouched words starts at
  word 1. \<open>None\<close> in the last component: the scan leaves the stack.
\<close>

fun zero_words :: "u32 list \<Rightarrow> nat option" where
  "zero_words [] = None"
| "zero_words (w # ws) = (if w = 0 then map_option Suc (zero_words ws) else Some 0)"

definition krhino_task_stack_min_free :: "tid option \<Rightarrow> bool \<Rightarrow> u32 list \<Rightarrow> kstate \<Rightarrow> kstat \<times> nat option" where
  "krhino_task_stack_min_free task free_out stack s = (case task of None \<Rightarrow> (RHINO_NULL_PTR, None) | Some t \<Rightarrow>
     if \<not> free_out then (RHINO_NULL_PTR, None)
     else if task_state (tasks s t) = K_DELETED then (RHINO_INV_TASK_STATE, None)
     else (RHINO_SUCCESS, zero_words (drop 1 stack)))"

definition krhino_task_pri_change :: "tid option \<Rightarrow> nat \<Rightarrow> bool \<Rightarrow> kstate \<Rightarrow> kstate \<times> kstat \<times> nat option" where
  "krhino_task_pri_change task pri old_pri s = (case task of None \<Rightarrow> (s, RHINO_NULL_PTR, None) | Some t \<Rightarrow>
     if \<not> old_pri then (s, RHINO_NULL_PTR, None)
     else if prio (tasks s t) \<ge> RHINO_IDLE_PRI then (s, RHINO_PRI_CHG_NOT_ALLOWED, None)
     else if pri \<ge> RHINO_IDLE_PRI then (s, RHINO_PRI_CHG_NOT_ALLOWED, None)
     else if task_state (tasks s t) = K_DELETED then (s, RHINO_INV_TASK_STATE, None)
     else (let psr = irq_off s; s0 = RHINO_CRITICAL_ENTER s in
       if g_intrpt_nested_level s0 > 0 then (RHINO_CRITICAL_EXIT psr s0, RHINO_NOT_CALLED_BY_INTRPT, None)
       else (let pri_limit = mutex_pri_limit t pri s0;
                 s1 = upd_task t (\<lambda>x. x\<lparr>b_prio := pri\<rparr>) s0;
                 old = prio (tasks s1 t)
             in case task_pri_change t pri_limit s1 of (s2, error) \<Rightarrow>
                  if error \<noteq> RHINO_SUCCESS then (RHINO_CRITICAL_EXIT psr s2, error, Some old)
                  else (RHINO_CRITICAL_EXIT_SCHED psr s2, RHINO_SUCCESS, Some old))))"

definition krhino_task_time_slice_set :: "tid option \<Rightarrow> nat \<Rightarrow> kstate \<Rightarrow> kstate \<times> kstat" where
  "krhino_task_time_slice_set task new_slice s = (case task of None \<Rightarrow> (s, RHINO_NULL_PTR) | Some t \<Rightarrow>
     (let psr = irq_off s; s0 = RHINO_CRITICAL_ENTER s in
      if g_intrpt_nested_level s0 > 0 then (RHINO_CRITICAL_EXIT psr s0, RHINO_NOT_CALLED_BY_INTRPT)
      else (let s1 = upd_task t (\<lambda>x. x\<lparr>time_total :=
                      if new_slice > 0 then of_nat new_slice else RHINO_CONFIG_TIME_SLICE_DEFAULT\<rparr>) s0;
                s2 = upd_task t (\<lambda>x. x\<lparr>task_time_slice := time_total x\<rparr>) s1
            in (RHINO_CRITICAL_EXIT psr s2, RHINO_SUCCESS))))"

definition krhino_sched_policy_set :: "tid option \<Rightarrow> u8 \<Rightarrow> kstate \<Rightarrow> kstate \<times> kstat" where
  "krhino_sched_policy_set task policy s = (case task of None \<Rightarrow> (s, RHINO_NULL_PTR) | Some t \<Rightarrow>
     if policy \<noteq> KSCHED_FIFO \<and> policy \<noteq> KSCHED_RR then (s, RHINO_INV_SCHED_WAY)
     else (let psr = irq_off s; s0 = RHINO_CRITICAL_ENTER s in
       if g_intrpt_nested_level s0 > 0 then (RHINO_CRITICAL_EXIT psr s0, RHINO_NOT_CALLED_BY_INTRPT)
       else (RHINO_CRITICAL_EXIT psr (upd_task t (\<lambda>x. x\<lparr>sched_policy := policy\<rparr>) s0), RHINO_SUCCESS)))"

definition krhino_sched_policy_get :: "tid option \<Rightarrow> bool \<Rightarrow> kstate \<Rightarrow> kstate \<times> kstat \<times> u8 option" where
  "krhino_sched_policy_get task policy_out s = (case task of None \<Rightarrow> (s, RHINO_NULL_PTR, None) | Some t \<Rightarrow>
     if \<not> policy_out then (s, RHINO_NULL_PTR, None)
     else (let psr = irq_off s; s0 = RHINO_CRITICAL_ENTER s in
       if g_intrpt_nested_level s0 > 0 then (RHINO_CRITICAL_EXIT psr s0, RHINO_NOT_CALLED_BY_INTRPT, None)
       else (RHINO_CRITICAL_EXIT psr s0, RHINO_SUCCESS, Some (sched_policy (tasks s0 t)))))"

section \<open>Creation\<close>

text \<open>A task whose control block is new joins the system.\<close>

lemma ksys_new_task:
  assumes k: "ksys s" and t: "t \<notin> all_tasks s"
    and s': "tasks s' = (tasks s)(t := x)" "blks s' = blks s" "mutexes s' = mutexes s"
      "task_head (g_kobj_list s') = task_head (g_kobj_list s) @ [t]"
      "g_tick_head s' = g_tick_head s" "g_tick_count s' = g_tick_count s" "k_faults s' = k_faults s"
    and x: "prio x < 62" "b_prio x = prio x" "mutex_list x = []" "\<not> tick_head x"
      "task_state x = K_RDY \<or> task_state x = K_SUSPENDED" "task_ok x"
    and rq: "rq_inv {u \<in> insert t (all_tasks s). task_state (tasks s' u) = K_RDY} s'"
  shows "ksys s'"
proof -
  let ?T = "all_tasks s"
  have T: "all_tasks s' = insert t ?T" using s'(4) by simp
  have old: "u \<noteq> t" if "u \<in> ?T" for u using that t by auto
  have W: "{u \<in> insert t ?T. waiting (tasks s' u)} = {u \<in> ?T. waiting (tasks s u)}"
    using x(5) t by (auto simp: s'(1) waiting_def)
  have "wait_inv {u \<in> ?T. waiting (tasks s u)} s'"
    using ksysD(7) [OF k] old s' by (subst wait_inv_cong [of s' s]) auto
  moreover have "mutex_ok (insert t ?T) s'"
    using ksysD(8) [OF k] t x(3) unfolding mutex_ok_def s'(1-3) by (auto split: if_splits)
  moreover have "task_state (tasks s' u) \<notin> {K_SEED, K_DELETED} \<and> prio (tasks s' u) < 62 \<and> b_prio (tasks s' u) < 62"
    if "u \<in> insert t ?T" for u
    using that x(1,2,5) ksysD(13-15) [OF k, of u] by (auto simp: s'(1))
  moreover have "g_idle_task \<noteq> t" using old ksysD(9) [OF k] by auto
  ultimately have c: "core (insert t ?T) s'"
    unfolding core_def W using rq ksysD(9-11) [OF k] by (simp add: s'(1))
  have "is_eff (base s') s' u (prio (tasks s' u))" if u: "u \<in> insert t ?T" for u
  proof (cases "u = t")
    case True
    then show ?thesis using x(2,3) by (simp add: is_eff_def donors_def s'(1))
  next
    case False
    then have uT: "u \<in> ?T" using u by simp
    have "is_eff (base s) s u (prio (tasks s u))" using ksysD(2) [OF k] uT by (simp add: all_eff_def)
    moreover have "donors s' u = donors s u" using False by (simp add: donors_def s'(1,2))
    moreover have "v \<noteq> t" if "v \<in> donors s u" for v using core_donor [OF ksysD(1) [OF k] uT] that old by auto
    ultimately show ?thesis using False by (subst is_eff_cong [where B = "base s" and s = s]) (auto simp: s'(1))
  qed
  moreover have "tick_inv s'"
  proof -
    have hd: "u \<noteq> t" if "u \<in> set (g_tick_head s)" for u
      using that tick_inv_sub [OF ksysD(3) [OF k]] old by auto
    then have "sorted_wrt (\<lambda>a b. tick_left s' a \<le> tick_left s' b) (g_tick_head s)
        = sorted_wrt (\<lambda>a b. tick_left s a \<le> tick_left s b) (g_tick_head s)"
      by (intro sorted_wrt_key_cong) (auto simp: tick_left_def s')
    moreover have "{u \<in> insert t ?T. tick_head (tasks s' u)} = {u \<in> ?T. tick_head (tasks s u)}"
      using x(4) t by (auto simp: s'(1))
    ultimately show ?thesis
      using ksysD(3) [OF k] hd unfolding tick_inv_def T s'(5) by (auto simp: tick_left_def s'(1,6))
  qed
  moreover have "task_ok (tasks s' u)" if "u \<in> insert t ?T" for u
    using that x(6) ksysD(4) [OF k, of u] by (auto simp: s'(1))
  ultimately show ?thesis
    using c ksysD(5,12,16) [OF k] t \<open>g_idle_task \<noteq> t\<close> unfolding ksys_def T by (simp add: all_eff_def s'(1,4,7))
qed

lemma kinv_new_task:
  assumes k: "kinv s" and n: "ksys s'" and t: "t \<notin> all_tasks s" and s': "tasks s' = (tasks s)(t := x)"
      "blks s' = blks s" "g_kobj_list s' = (g_kobj_list s)\<lparr>task_head := task_head (g_kobj_list s) @ [t]\<rparr>"
      "sems s' = sems s" "events s' = events s" "queues s' = queues s" "buf_queues s' = buf_queues s"
    and x: "blk_state x \<noteq> BLK_INVALID"
  shows "kinv s'"
  unfolding kinv_def
proof (intro conjI allI ballI)
  have ks: "ksys s" using k by (simp add: kinv_def)
  show "obj_ok s' ob" for ob
  proof (rule obj_ok_mono [OF kinv_obj [OF k, of ob]])
    fix u assume "u \<in> set (waiters s' ob)"
    then have "u \<noteq> t" using ksys_waiter(1) [OF ks, of u ob] t s'(2) by auto
    then show "pend_flags (tasks s' u) = pend_flags (tasks s u) \<and> pend_option (tasks s' u) = pend_option (tasks s u)"
      by (simp add: s'(1))
  qed (use s' in simp_all)
  show "reg_ok s'" using k by (simp add: kinv_def reg_ok_def Let_def s'(2,3))
  show "blk_state (tasks s' u) \<noteq> BLK_INVALID" if "u \<in> all_tasks s'" for u
    using that k x by (auto simp: s'(1,3) kinv_def)
qed (rule n)

lemma new_task_fields:
  "prio (new_task b n p k a f) = p" "b_prio (new_task b n p k a f) = p" "mutex_list (new_task b n p k a f) = []"
  "\<not> tick_head (new_task b n p k a f)" "blk_state (new_task b n p k a f) = BLK_FINISH"
  "task_state (new_task b n p k a f) = (if a then K_RDY else K_SUSPENDED)"
  "task_ok (new_task b n p k a f)"
  by (simp_all add: new_task_def Let_def task_ok_def waiting_def sleeping_def suspended_def)

lemma kinv_spawned [simp]: "kinv (s\<lparr>g_idle_task_spawned := b\<rparr>) = kinv s"
  by (rule kinv_view) (simp_all add: sysview_def)

text \<open>
  Creating a task in a running system. The memory of the control block must not be in use by a live
  task, which the caller guarantees.
\<close>

lemma kinv_task_join:
  assumes k: "kinv s" and t: "t \<notin> all_tasks s" and p: "p < 62"
    and s1: "s1 = cpu_intrpt_save (upd_task t (\<lambda>_. new_task stk n p ticks a f) s)"
    and s2: "s2 = s1\<lparr>g_kobj_list := (g_kobj_list s1)\<lparr>task_head := task_head (g_kobj_list s1) @ [t]\<rparr>\<rparr>"
  shows "kinv (if a then ready_list_add_tail t s2 else s2)"
proof -
  let ?s = "if a then ready_list_add_tail t s2 else s2" and ?x = "new_task stk n p ticks a f"
  have ks: "ksys s" using k by (simp add: kinv_def)
  have tk: "tasks ?s = (tasks s)(t := ?x)" by (simp add: s1 s2) (simp add: upd_task_def)
  let ?R = "{u \<in> all_tasks s. task_state (tasks s u) = K_RDY}"
  have r2: "rq_inv ?R s2" using ksysD(6) [OF ks] t by (subst rq_inv_cong [of s2 s]) (auto simp: s1 s2)
  have "rq_inv (insert t ?R) (ready_list_add_tail t s2)"
    using t p by (intro rq_inv_add_tail [OF r2]) (auto simp: s1 s2 new_task_fields)
  moreover have "{u \<in> insert t (all_tasks s). task_state (tasks ?s u) = K_RDY} = (if a then insert t ?R else ?R)"
    using t by (auto simp: tk new_task_fields)
  ultimately have rq: "rq_inv {u \<in> insert t (all_tasks s). task_state (tasks ?s u) = K_RDY} ?s" using r2 by simp
  have "ksys ?s"
    by (rule ksys_new_task [OF ks t tk]) (use rq p in \<open>simp_all add: s1 s2 new_task_fields\<close>)
  then show ?thesis
    by (rule kinv_new_task [OF k _ t tk]) (simp_all add: s1 s2 new_task_fields)
qed

lemma task_create_good:
  assumes g: "good s" and run: "g_sys_stat s = RHINO_RUNNING" and t: "\<And>t. task = Some t \<Longrightarrow> t \<notin> all_tasks s"
  shows "good (fst (task_create task name pri ticks stk n entry autorun f s))"
proof -
  let ?good = "\<lambda>t stk. good (fst (task_create (Some t) (Some (the name)) pri ticks (Some stk) n True autorun f s))"
  have main: "?good t stk'" if t: "t \<notin> all_tasks s" for t stk'
  proof (cases "n = 0 \<or> pri \<ge> 62 \<or> g_intrpt_nested_level s > 0 \<or> pri = 61 \<and> g_idle_task_spawned s")
    case True
    then show ?thesis using g by (auto simp: task_create_def Let_def good_return)
  next
    case False
    define s1 where "s1 = (if pri = 61 then (cpu_intrpt_save s)\<lparr>g_idle_task_spawned := True\<rparr> else cpu_intrpt_save s)"
    define s2 where "s2 = cpu_intrpt_restore (irq_off s) s1"
    have fr: "tasks s1 = tasks s" "g_kobj_list s1 = g_kobj_list s" "g_ready_queue s1 = g_ready_queue s"
      "g_sys_stat s2 = g_sys_stat s" "same_run s s1" "g_kobj_list s2 = g_kobj_list s" "tasks s2 = tasks s"
      by (simp_all add: s1_def s2_def same_run_def)
    have "kinv s1" using goodD(1) [OF g] by (simp add: s1_def)
    then have g2: "good s2"
      unfolding s2_def using g fr goodD(4) [OF g] by (intro good_EXIT [of s]) simp_all
    define s3 where "s3 = cpu_intrpt_save (upd_task t (\<lambda>_. new_task stk' n pri ticks autorun f) s2)"
    define s4 where "s4 = s3\<lparr>g_kobj_list := (g_kobj_list s3)\<lparr>task_head := task_head (g_kobj_list s3) @ [t]\<rparr>\<rparr>"
    define s5 where "s5 = (if autorun then ready_list_add_tail t s4 else s4)"
    have at: "g_active_task s2 \<in> all_tasks s2" "g_active_task s2 \<noteq> t" using goodD(4) [OF g2] t fr(6) by auto
    have "kinv s2" "t \<notin> all_tasks s2" using goodD(1) [OF g2] t fr(6) by simp_all
    from kinv_task_join [OF this _ s3_def s4_def] False have k5: "kinv s5" by (simp add: s5_def)
    have f5: "same_run s2 s5" "g_active_task s2 \<in> all_tasks s5" "g_sys_stat s5 = RHINO_RUNNING"
      "tasks s5 (g_active_task s2) = tasks s2 (g_active_task s2)"
      using at fr run by (simp_all add: s5_def s4_def s3_def same_run_def)
    have e: "fst (task_create (Some t) (Some (the name)) pri ticks (Some stk') n True autorun f s)
        = (if autorun then RHINO_CRITICAL_EXIT_SCHED (irq_off s2) s5 else RHINO_CRITICAL_EXIT (irq_off s2) s5)"
      using False run by (auto simp: task_create_def Let_def s5_def s4_def s3_def s2_def s1_def)
    show ?thesis
    proof (cases autorun)
      case True
      show ?thesis unfolding e using True f5 goodD(6) [OF g2]
        by simp (rule good_EXIT_SCHED [OF g2 k5 f5(1)]; simp)
    next
      case a: False
      show ?thesis unfolding e using a f5
        by simp (rule good_EXIT [OF g2 k5 f5(1)]; simp add: s5_def s4_def s3_def a)
    qed
  qed
  then show ?thesis
    using g t by (cases task; cases name; cases stk; cases entry) (auto simp: task_create_def)
qed

lemma krhino_task_create_good:
  assumes "good s" "g_sys_stat s = RHINO_RUNNING" "\<And>t. task = Some t \<Longrightarrow> t \<notin> all_tasks s"
  shows "good (fst (krhino_task_create task name pri ticks stk n entry autorun s))"
  using task_create_good [OF assms] by (simp add: krhino_task_create_def)

lemma krhino_task_dyn_create_good:
  assumes "good s" "g_sys_stat s = RHINO_RUNNING" "\<And>stk t. alloc = Some (stk, t) \<Longrightarrow> t \<notin> all_tasks s"
  shows "good (fst (krhino_task_dyn_create out alloc name pri ticks n entry autorun s))"
proof (cases alloc)
  case (Some a)
  obtain stk t where a: "a = (stk, t)" by fastforce
  have "good (fst (task_create (Some t) name pri ticks (Some stk) n entry autorun K_OBJ_DYN_ALLOC s))"
    using assms Some a by (intro task_create_good) auto
  then show ?thesis
    using assms(1) Some a krhino_mm_free_good
    by (auto simp: krhino_task_dyn_create_def task_dyn_create_def split: prod.split)
qed (use assms in \<open>simp add: krhino_task_dyn_create_def task_dyn_create_def\<close>)

section \<open>Sleep and yield\<close>

lemma task_to_sleep_frame:
  "blks (task_to_sleep t n s) = blks s" "mutexes (task_to_sleep t n s) = mutexes s"
  "sems (task_to_sleep t n s) = sems s" "events (task_to_sleep t n s) = events s"
  "queues (task_to_sleep t n s) = queues s" "buf_queues (task_to_sleep t n s) = buf_queues s"
  "g_kobj_list (task_to_sleep t n s) = g_kobj_list s" "same_run s (task_to_sleep t n s)"
  "u \<noteq> t \<Longrightarrow> tasks (task_to_sleep t n s) u = tasks s u"
  "prio (tasks (task_to_sleep t n s) u) = prio (tasks s u)"
  "b_prio (tasks (task_to_sleep t n s) u) = b_prio (tasks s u)"
  "mutex_list (tasks (task_to_sleep t n s) u) = mutex_list (tasks s u)"
  "task_state (tasks (task_to_sleep t n s) u) = (if u = t then K_SLEEP else task_state (tasks s u))"
  "pend_flags (tasks (task_to_sleep t n s) u) = pend_flags (tasks s u)"
  "pend_option (tasks (task_to_sleep t n s) u) = pend_option (tasks s u)"
  "blk_state (tasks (task_to_sleep t n s) u) = blk_state (tasks s u)"
  "suspend_count (tasks (task_to_sleep t n s) u) = suspend_count (tasks s u)"
  "blk_obj (tasks (task_to_sleep t n s) u) = blk_obj (tasks s u)"
  by (simp_all add: task_to_sleep_def same_run_def)

lemma ksys_sleep:
  assumes k: "ksys s" and t: "t \<in> all_tasks s" "task_state (tasks s t) = K_RDY" "t \<noteq> g_idle_task" and n: "n \<noteq> 0"
  shows "ksys (task_to_sleep t n s)"
proof -
  let ?s = "task_to_sleep t n s" and ?T = "all_tasks s"
  define s1 where "s1 = upd_task t (\<lambda>x. x\<lparr>task_state := K_SLEEP\<rparr>) s"
  define s2 where "s2 = tick_list_insert t n s1"
  have s: "?s = ready_list_rm t s2" by (simp add: task_to_sleep_def s1_def s2_def)
  have nh: "\<not> tick_head (tasks s t)" and sc: "suspend_count (tasks s t) = 0"
    using ksysD(4) [OF k t(1)] t(2)
    by (auto simp: task_ok_def waiting_def sleeping_def suspended_def word_gt_0)
  have R: "{u \<in> ?T. task_state (tasks ?s u) = K_RDY} = {u \<in> ?T. task_state (tasks s u) = K_RDY} - {t}"
    by (auto simp: task_to_sleep_frame)
  have W: "{u \<in> ?T. waiting (tasks ?s u)} = {u \<in> ?T. waiting (tasks s u)}"
    using t(2) by (auto simp: waiting_def task_to_sleep_frame)
  have "rq_inv {u \<in> ?T. task_state (tasks s u) = K_RDY} s2"
    using ksysD(6) [OF k] by (subst rq_inv_cong [of s2 s]) (auto simp: s2_def s1_def)
  note rm = rq_inv_rm [OF this, of t]
  have tk: "tick_inv s1" using ksysD(3) [OF k] by (subst tick_inv_cong [of s1 s]) (auto simp: s1_def)
  have hd: "tick_head (tasks ?s t)" using n by (simp add: s s2_def tick_list_insert_def Let_def word_gt_0)
  show ?thesis
  proof (rule ksys_assemble [OF k])
    show "rq_inv {u \<in> ?T. task_state (tasks ?s u) = K_RDY} ?s"
      unfolding R using rm(1) t ksysD(9,10) [OF k] s by auto
    show "wait_inv {u \<in> ?T. waiting (tasks ?s u)} ?s"
      unfolding W using ksysD(7) [OF k] t(2)
      by (subst wait_inv_cong [of ?s s]) (auto simp: task_to_sleep_frame waiting_def)
    have "tick_inv s2" using tick_inv_insert [OF tk, of t n] t(1) nh by (simp add: s1_def s2_def)
    then show "tick_inv ?s" unfolding s by (subst tick_inv_cong [of _ s2]) auto
    show "k_faults ?s = []" using rm(2) t ksysD(5,9,10) [OF k] by (auto simp: s s2_def s1_def)
  next
    fix u assume u: "u \<in> ?T"
    have "task_ok (tasks ?s u) \<and> task_state (tasks ?s u) \<notin> {K_SEED, K_DELETED}"
      using ksysD(4,13) [OF k u] hd sc
      by (cases "u = t") (auto simp: task_to_sleep_frame task_ok_def waiting_def sleeping_def suspended_def)
    then show "task_ok (tasks ?s u) \<and> task_state (tasks ?s u) \<notin> {K_SEED, K_DELETED}
      \<and> prio (tasks ?s u) = prio (tasks s u) \<and> b_prio (tasks ?s u) = b_prio (tasks s u)
      \<and> mutex_list (tasks ?s u) = mutex_list (tasks s u)" by (simp add: task_to_sleep_frame)
  qed (use t ksysD(10) [OF k] in \<open>simp_all add: task_to_sleep_frame\<close>)
qed

lemma sleep_block_good:
  assumes g: "good s" and idle: "g_active_task s \<noteq> g_idle_task"
    and n: "g_intrpt_nested_level s = 0" "g_sched_lock s = 0" "ticks \<noteq> 0"
  shows "good (RHINO_CRITICAL_EXIT_SCHED (irq_off s) (task_to_sleep (g_active_task s) ticks (RHINO_CRITICAL_ENTER s)))"
proof -
  let ?e = "cpu_intrpt_save s" and ?t = "g_active_task s"
  let ?s = "task_to_sleep ?t ticks ?e"
  have ke: "kinv ?e" "ksys ?e" using goodD(1,2) [OF g] by simp_all
  have "ksys ?s"
    by (rule ksys_sleep [OF ke(2)]) (use goodD(4,5) [OF g] n idle in simp_all)
  then have "kinv ?s"
    by (rule kinv_step [OF ke(1)]) (use ke(1) in \<open>simp_all add: task_to_sleep_frame kinv_def\<close>)
  moreover have "same_run s ?s" using task_to_sleep_frame(8) [of ?e ?t ticks] by (simp add: same_run_def)
  ultimately show ?thesis using n by (intro good_EXIT_SCHED [OF g]) simp_all
qed

lemma krhino_task_sleep_good:
  assumes g: "good s" and idle: "g_active_task s \<noteq> g_idle_task"
  shows "good (fst (krhino_task_sleep ticks s))"
proof (cases "ticks = 0 \<or> g_intrpt_nested_level s > 0 \<or> g_sched_lock s > 0")
  case True
  then show ?thesis using g good_return by (auto simp: krhino_task_sleep_def Let_def)
next
  case False
  then have "g_intrpt_nested_level s = 0" "g_sched_lock s = 0" "ticks \<noteq> 0" by (simp_all add: word_pos)
  from sleep_block_good [OF g idle this] show ?thesis
    using False by (simp add: krhino_task_sleep_def Let_def good_block_return)
qed

lemma krhino_task_yield_good:
  assumes g: "good s" and a: "task_state (tasks s (g_active_task s)) = K_RDY"
  shows "good (fst (krhino_task_yield s))"
proof -
  have "kinv (ready_list_head_to_tail (g_active_task s) (cpu_intrpt_save s))"
    using goodD(1,4) [OF g] a by (intro kinv_rotate) simp_all
  then show ?thesis
    using goodD(4) [OF g] a unfolding krhino_task_yield_def Let_def
    by (simp, intro good_EXIT_SCHED [OF g]) (simp_all add: same_run_def)
qed

lemma krhino_cur_task_get_good: "good s \<Longrightarrow> good (fst (krhino_cur_task_get s))"
  by (simp add: krhino_cur_task_get_def Let_def good_return)

section \<open>Suspension\<close>

text \<open>
  The change of one task between a state and its suspended variant, \<open>s'\<close>; only the ready lists, of the
  lists, may change.
\<close>

lemma kinv_resuspend:
  assumes k: "kinv s" and t: "t \<in> all_tasks s" "t \<noteq> g_idle_task"
    and s': "tasks s' = (tasks s)(t := (tasks s t)\<lparr>suspend_count := n, task_state := st\<rparr>)"
      "blks s' = blks s" "mutexes s' = mutexes s" "g_kobj_list s' = g_kobj_list s" "g_tick_head s' = g_tick_head s"
      "g_tick_count s' = g_tick_count s" "k_faults s' = k_faults s" "sems s' = sems s" "events s' = events s"
      "queues s' = queues s" "buf_queues s' = buf_queues s"
    and st: "waiting (tasks s' t) \<longleftrightarrow> waiting (tasks s t)" "task_ok (tasks s' t)" "st \<notin> {K_SEED, K_DELETED}"
    and rq: "rq_inv {u \<in> all_tasks s. task_state (tasks s' u) = K_RDY} s'"
  shows "kinv s'"
proof (rule kinv_step [OF k])
  have ks: "ksys s" using k by (simp add: kinv_def)
  show "ksys s'"
  proof (rule ksys_assemble [OF ks _ rq])
    have "{u \<in> all_tasks s. waiting (tasks s' u)} = {u \<in> all_tasks s. waiting (tasks s u)}"
      using st(1) by (auto simp: s'(1))
    then show "wait_inv {u \<in> all_tasks s. waiting (tasks s' u)} s'"
      using ksysD(7) [OF ks] s' by (simp, subst wait_inv_cong [of s' s]) auto
    show "tick_inv s'" using ksysD(3) [OF ks] s' by (subst tick_inv_cong [of s' s]) auto
    fix u assume "u \<in> all_tasks s"
    then show "task_ok (tasks s' u) \<and> task_state (tasks s' u) \<notin> {K_SEED, K_DELETED}
      \<and> prio (tasks s' u) = prio (tasks s u) \<and> b_prio (tasks s' u) = b_prio (tasks s u)
      \<and> mutex_list (tasks s' u) = mutex_list (tasks s u)"
      using ksysD(4,13) [OF ks, of u] st(2,3) by (cases "u = t") (auto simp: s'(1))
  qed (use s' t ksysD(5,10) [OF ks] in simp_all)
qed (use k s' in \<open>auto simp: kinv_def\<close>)

lemma upd_suspend_tasks:
  "tasks (upd_task t (\<lambda>x. x\<lparr>suspend_count := n, task_state := st\<rparr>) s)
    = (tasks s)(t := (tasks s t)\<lparr>suspend_count := n, task_state := st\<rparr>)"
  "tasks (upd_task t (\<lambda>x. x\<lparr>task_state := st\<rparr>) (upd_task t (\<lambda>x. x\<lparr>suspend_count := suspend_count x - 1\<rparr>) s))
    = (tasks s)(t := (tasks s t)\<lparr>suspend_count := suspend_count (tasks s t) - 1, task_state := st\<rparr>)"
  "tasks (upd_task t (\<lambda>x. x\<lparr>suspend_count := f (suspend_count x)\<rparr>) s)
    = (tasks s)(t := (tasks s t)\<lparr>suspend_count := f (suspend_count (tasks s t)), task_state := task_state (tasks s t)\<rparr>)"
  by (simp_all add: upd_task_def)

lemma kinv_suspend:
  assumes k: "kinv s" and t: "t \<in> all_tasks s" "t \<noteq> g_idle_task"
  shows "task_state (tasks s t) = K_RDY
      \<Longrightarrow> kinv (ready_list_rm t (upd_task t (\<lambda>x. x\<lparr>suspend_count := 1, task_state := K_SUSPENDED\<rparr>) s))"
    "task_state (tasks s t) = K_SLEEP
      \<Longrightarrow> kinv (upd_task t (\<lambda>x. x\<lparr>suspend_count := 1, task_state := K_SLEEP_SUSPENDED\<rparr>) s)"
    "task_state (tasks s t) = K_PEND
      \<Longrightarrow> kinv (upd_task t (\<lambda>x. x\<lparr>suspend_count := 1, task_state := K_PEND_SUSPENDED\<rparr>) s)"
    "suspended (tasks s t) \<Longrightarrow> suspend_count (tasks s t) \<noteq> - 1
      \<Longrightarrow> kinv (upd_task t (\<lambda>x. x\<lparr>suspend_count := suspend_count x + 1\<rparr>) s)"
proof -
  have ks: "ksys s" using k by (simp add: kinv_def)
  note ok = ksysD(4) [OF ks t(1)]
  let ?R = "{u \<in> all_tasks s. task_state (tasks s u) = K_RDY}"
  { assume r: "task_state (tasks s t) = K_RDY"
    let ?s1 = "upd_task t (\<lambda>x. x\<lparr>suspend_count := 1, task_state := K_SUSPENDED\<rparr>) s"
    have "rq_inv ?R ?s1" using ksysD(6) [OF ks] by (subst rq_inv_cong [of ?s1 s]) auto
    note rm = rq_inv_rm [OF this, of t]
    have R: "{u \<in> all_tasks s. task_state (tasks (ready_list_rm t ?s1) u) = K_RDY} = ?R - {t}" by auto
    show "kinv (ready_list_rm t ?s1)"
    proof (rule kinv_resuspend [OF k t])
      show "rq_inv {u \<in> all_tasks s. task_state (tasks (ready_list_rm t ?s1) u) = K_RDY} (ready_list_rm t ?s1)"
        unfolding R using rm(1) r t ksysD(9,10) [OF ks] by auto
      show "k_faults (ready_list_rm t ?s1) = k_faults s" using rm(2) r t ksysD(9,10) [OF ks] by auto
      show "tasks (ready_list_rm t ?s1) = (tasks s)(t := (tasks s t)\<lparr>suspend_count := 1, task_state := K_SUSPENDED\<rparr>)"
        by (simp add: upd_suspend_tasks)
    qed (use ok r in \<open>auto simp: task_ok_def waiting_def sleeping_def suspended_def\<close>) }
  { fix f n st assume a: "tasks (upd_task t f s) = (tasks s)(t := (tasks s t)\<lparr>suspend_count := n, task_state := st\<rparr>)"
      "waiting (tasks (upd_task t f s) t) \<longleftrightarrow> waiting (tasks s t)" "task_ok (tasks (upd_task t f s) t)"
      "st \<notin> {K_SEED, K_DELETED, K_RDY}" "task_state (tasks s t) \<noteq> K_RDY"
    have "{u \<in> all_tasks s. task_state (tasks (upd_task t f s) u) = K_RDY} = ?R"
      using a(4,5) unfolding a(1) by auto
    then have "rq_inv {u \<in> all_tasks s. task_state (tasks (upd_task t f s) u) = K_RDY} (upd_task t f s)"
      using ksysD(6) [OF ks] a(1) by (simp, subst rq_inv_cong [of _ s]) auto
    then have "kinv (upd_task t f s)" by (intro kinv_resuspend [OF k t a(1)]) (use a in simp_all) }
  note * = this
  show "task_state (tasks s t) = K_SLEEP
      \<Longrightarrow> kinv (upd_task t (\<lambda>x. x\<lparr>suspend_count := 1, task_state := K_SLEEP_SUSPENDED\<rparr>) s)"
    "task_state (tasks s t) = K_PEND
      \<Longrightarrow> kinv (upd_task t (\<lambda>x. x\<lparr>suspend_count := 1, task_state := K_PEND_SUSPENDED\<rparr>) s)"
    using ok by (auto intro!: * [OF upd_suspend_tasks(1)] simp: task_ok_def waiting_def sleeping_def suspended_def)
  assume su: "suspended (tasks s t)" "suspend_count (tasks s t) \<noteq> - 1"
  have "suspend_count (tasks s t) + 1 > 0" using su(2) by (simp add: word_pos add_eq_0_iff2)
  then show "kinv (upd_task t (\<lambda>x. x\<lparr>suspend_count := suspend_count x + 1\<rparr>) s)"
    using ok su
    by (intro * [OF upd_suspend_tasks(3) [where f = "\<lambda>c. c + 1"]])
       (auto simp: task_ok_def waiting_def sleeping_def suspended_def)
qed

lemma task_state_upd [simp]: "task_state (x\<lparr>suspend_count := n, task_state := st\<rparr>) = st" by simp

text \<open>What a caller may pass: a live task, or a control block that is deleted or was never used.\<close>

definition task_ptr :: "kstate \<Rightarrow> tid \<Rightarrow> bool" where
  "task_ptr s t \<longleftrightarrow> t \<in> all_tasks s \<or> task_state (tasks s t) \<in> {K_SEED, K_DELETED}"

lemma good_task_EXIT_SCHED:
  assumes g: "good s" and k: "kinv s'" and r: "same_run s s'" "g_kobj_list s' = g_kobj_list s"
    and psr: "g_intrpt_nested_level s = 0 \<Longrightarrow> psr = irq_off s"
    and a: "g_sched_lock s > 0 \<Longrightarrow> task_state (tasks s' (g_active_task s)) = task_state (tasks s (g_active_task s))"
  shows "good (RHINO_CRITICAL_EXIT_SCHED psr s')"
  using goodD(4,6) [OF g] r(2) a by (intro good_EXIT_SCHED [OF g k r(1) psr]) simp_all

lemma task_suspend_good:
  assumes g: "good s" and t: "task_ptr s t" "prio (tasks s t) \<noteq> RHINO_IDLE_PRI"
  shows "good (fst (task_suspend t s))"
proof -
  let ?e = "cpu_intrpt_save s"
  define psr where "psr = (if t = g_active_task s then False else irq_off s)"
  have ti: "t \<noteq> g_idle_task" using t(2) ksysD(12) [OF goodD(2) [OF g]] by auto
  have p: "g_intrpt_nested_level s = 0 \<Longrightarrow> psr = irq_off s" using goodD(8) [OF g] by (simp add: psr_def)
  have ret: "good (RHINO_CRITICAL_EXIT psr ?e)"
    using goodD(1,4) [OF g] p by (intro good_EXIT [OF g]) (simp_all add: same_run_def)
  have sched: "good (RHINO_CRITICAL_EXIT_SCHED psr s')"
    if "kinv s'" "same_run s s'" "g_kobj_list s' = g_kobj_list s" "\<And>u. u \<noteq> t \<Longrightarrow> tasks s' u = tasks s u"
      "\<not> (t = g_active_task s \<and> g_sched_lock s > 0)" for s'
    by (rule good_task_EXIT_SCHED [OF g that(1-3) p]) (use that(4,5) in auto)
  have kt: "kinv ?e" "t \<in> all_tasks ?e" if "task_state (tasks s t) \<notin> {K_SEED, K_DELETED}"
    using goodD(1) [OF g] t(1) that by (auto simp: task_ptr_def)
  show ?thesis
  proof (cases "t = g_active_task s \<and> g_sched_lock s > 0")
    case True
    then show ?thesis using ret by (simp add: task_suspend_def Let_def psr_def)
  next
    case False
    then have "\<not> (t = g_active_task s \<and> g_sched_lock s > 0)" .
    then show ?thesis
      using ret kinv_suspend [OF kt ti]
      by (cases "task_state (tasks s t)")
         (auto simp: task_suspend_def Let_def psr_def [symmetric] same_run_def suspended_def intro!: sched)
  qed
qed

lemma krhino_task_suspend_good:
  assumes "good s" "\<And>t. task = Some t \<Longrightarrow> task_ptr s t"
  shows "good (fst (krhino_task_suspend task s))"
  using assms by (auto simp: krhino_task_suspend_def task_suspend_good split: option.split)

lemma kinv_resume:
  assumes k: "kinv s" and t: "t \<in> all_tasks s" "t \<noteq> g_idle_task" "suspended (tasks s t)"
    and s1: "s1 = upd_task t (\<lambda>x. x\<lparr>suspend_count := suspend_count x - 1\<rparr>) s"
  shows "suspend_count (tasks s1 t) \<noteq> 0 \<Longrightarrow> kinv s1"
    "suspend_count (tasks s1 t) = 0 \<Longrightarrow> task_state (tasks s t) = K_SUSPENDED
      \<Longrightarrow> kinv (ready_list_add t (upd_task t (\<lambda>x. x\<lparr>task_state := K_RDY\<rparr>) s1))"
    "suspend_count (tasks s1 t) = 0 \<Longrightarrow> task_state (tasks s t) = K_SLEEP_SUSPENDED
      \<Longrightarrow> kinv (upd_task t (\<lambda>x. x\<lparr>task_state := K_SLEEP\<rparr>) s1)"
    "suspend_count (tasks s1 t) = 0 \<Longrightarrow> task_state (tasks s t) = K_PEND_SUSPENDED
      \<Longrightarrow> kinv (upd_task t (\<lambda>x. x\<lparr>task_state := K_PEND\<rparr>) s1)"
proof -
  have ks: "ksys s" using k by (simp add: kinv_def)
  note ok = ksysD(4) [OF ks t(1)]
  let ?R = "{u \<in> all_tasks s. task_state (tasks s u) = K_RDY}" and ?c = "suspend_count (tasks s t) - 1"
  have nr: "task_state (tasks s t) \<noteq> K_RDY" using t(3) by (auto simp: suspended_def)
  have sc: "suspend_count (tasks s1 t) = ?c" by (simp add: s1)
  { fix s' st assume a: "tasks s' = (tasks s)(t := (tasks s t)\<lparr>suspend_count := ?c, task_state := st\<rparr>)"
      "waiting (tasks s' t) \<longleftrightarrow> waiting (tasks s t)" "task_ok (tasks s' t)" "st \<notin> {K_SEED, K_DELETED, K_RDY}"
      and q: "sysview s' = sysview (s\<lparr>tasks := tasks s'\<rparr>)" "g_kobj_list s' = g_kobj_list s"
        "sems s' = sems s" "events s' = events s" "queues s' = queues s" "buf_queues s' = buf_queues s"
    have "{u \<in> all_tasks s. task_state (tasks s' u) = K_RDY} = ?R" using a(4) nr unfolding a(1) by auto
    then have "rq_inv {u \<in> all_tasks s. task_state (tasks s' u) = K_RDY} s'"
      using ksysD(6) [OF ks] a(1) q(1) by (simp, subst rq_inv_cong [of _ s]) (auto simp: sysview_def)
    then have "kinv s'" by (intro kinv_resuspend [OF k t(1,2) a(1)]) (use a q in \<open>simp_all add: sysview_def\<close>) }
  note * = this
  show "kinv s1" if "suspend_count (tasks s1 t) \<noteq> 0"
    unfolding s1
    by (rule * [OF upd_suspend_tasks(3) [where f = "\<lambda>c. c - 1"]])
       (use ok that sc t(3) in \<open>auto simp: task_ok_def waiting_def sleeping_def suspended_def sysview_def word_pos\<close>)
  show "kinv (upd_task t (\<lambda>x. x\<lparr>task_state := K_SLEEP\<rparr>) s1)"
    if "suspend_count (tasks s1 t) = 0" "task_state (tasks s t) = K_SLEEP_SUSPENDED"
    unfolding s1
    by (rule * [OF upd_suspend_tasks(2)])
       (use ok that sc in \<open>auto simp: task_ok_def waiting_def sleeping_def suspended_def sysview_def word_pos\<close>)
  show "kinv (upd_task t (\<lambda>x. x\<lparr>task_state := K_PEND\<rparr>) s1)"
    if "suspend_count (tasks s1 t) = 0" "task_state (tasks s t) = K_PEND_SUSPENDED"
    unfolding s1
    by (rule * [OF upd_suspend_tasks(2)])
       (use ok that sc in \<open>auto simp: task_ok_def waiting_def sleeping_def suspended_def sysview_def word_pos\<close>)
  assume z: "suspend_count (tasks s1 t) = 0" "task_state (tasks s t) = K_SUSPENDED"
  let ?s2 = "upd_task t (\<lambda>x. x\<lparr>task_state := K_RDY\<rparr>) s1"
  have r2: "rq_inv ?R ?s2" using ksysD(6) [OF ks] by (subst rq_inv_cong [of ?s2 s]) (auto simp: s1)
  have R: "{u \<in> all_tasks s. task_state (tasks (ready_list_add t ?s2) u) = K_RDY} = insert t ?R"
    using t(1) by (auto simp: s1)
  show "kinv (ready_list_add t ?s2)"
  proof (rule kinv_resuspend [OF k t(1,2)])
    show "tasks (ready_list_add t ?s2) = (tasks s)(t := (tasks s t)\<lparr>suspend_count := ?c, task_state := K_RDY\<rparr>)"
      by (simp add: s1 upd_suspend_tasks)
    show "rq_inv {u \<in> all_tasks s. task_state (tasks (ready_list_add t ?s2) u) = K_RDY} (ready_list_add t ?s2)"
      unfolding R using nr ksysD(14) [OF ks t(1)] by (intro rq_inv_add [OF r2]) (auto simp: s1)
  qed (use ok z sc in \<open>auto simp: s1 task_ok_def waiting_def sleeping_def suspended_def word_pos\<close>)
qed

lemma task_resume_good:
  assumes g: "good s" and t: "task_ptr s t"
  shows "good (fst (task_resume t s))"
proof -
  let ?e = "cpu_intrpt_save s"
  have kt: "kinv ?e" "t \<in> all_tasks ?e" "t \<noteq> g_idle_task" if "suspended (tasks ?e t)"
    using goodD(1) [OF g] t that ksysD(10) [OF goodD(2) [OF g]] by (auto simp: task_ptr_def suspended_def)
  note r = kinv_resume [OF kt _ refl]
  have sched: "good (RHINO_CRITICAL_EXIT_SCHED (irq_off s) s')"
    if "suspended (tasks s t)" "kinv s'" "same_run s s'" "g_kobj_list s' = g_kobj_list s"
      "\<And>u. u \<noteq> t \<Longrightarrow> tasks s' u = tasks s u" for s'
  proof (rule good_task_EXIT_SCHED [OF g that(2-4) refl])
    assume "g_sched_lock s > 0"
    then have "g_active_task s \<noteq> t" using goodD(6) [OF g] that(1) by (auto simp: suspended_def)
    then show "task_state (tasks s' (g_active_task s)) = task_state (tasks s (g_active_task s))" using that(5) by simp
  qed
  show ?thesis
    using good_return [OF g refl] r
    by (cases "task_state (tasks s t)")
       (auto simp: task_resume_def Let_def same_run_def suspended_def intro!: sched)
qed

lemma krhino_task_resume_good:
  assumes "good s" "\<And>t. task = Some t \<Longrightarrow> task_ptr s t"
  shows "good (fst (krhino_task_resume task s))"
  using assms by (auto simp: krhino_task_resume_def task_resume_good split: option.split)

section \<open>Priority\<close>

text \<open>
  The new base priority takes effect at once, unless a task that waits for a mutex of the task has a
  higher priority; either way all priorities are effective afterwards.
\<close>

lemma core_b_prio:
  assumes c: "core T s" and p: "p < 62"
  shows "core T (upd_task t (\<lambda>x. x\<lparr>b_prio := p\<rparr>) s)"
proof -
  let ?s = "upd_task t (\<lambda>x. x\<lparr>b_prio := p\<rparr>) s"
  have "{u \<in> T. task_state (tasks ?s u) = K_RDY} = {u \<in> T. task_state (tasks s u) = K_RDY}"
    "{u \<in> T. waiting (tasks ?s u)} = {u \<in> T. waiting (tasks s u)}" by (auto simp: waiting_def)
  moreover have "rq_inv R ?s \<longleftrightarrow> rq_inv R s" "wait_inv W ?s \<longleftrightarrow> wait_inv W s" "mutex_ok T ?s \<longleftrightarrow> mutex_ok T s" for R W
    by (rule rq_inv_cong wait_inv_cong mutex_ok_cong; simp)+
  ultimately show ?thesis using c p unfolding core_def by simp
qed

lemma ksys_pri_change:
  assumes k: "ksys s" and t: "t \<in> all_tasks s" "t \<noteq> g_idle_task" and p: "pri < 62"
    and s1: "s1 = upd_task t (\<lambda>x. x\<lparr>b_prio := pri\<rparr>) s"
    and r: "r = task_pri_change t (mutex_pri_limit t pri s) s1"
  shows "ksys (fst r)" "snd r = RHINO_SUCCESS" "forget (fst r) = forget s1"
    "\<And>x. set (waiters (fst r) x) = set (waiters s x)" "is_eff (base s1) (fst r) t (prio (tasks (fst r) t))"
proof -
  let ?T = "all_tasks s" and ?lim = "mutex_pri_limit t pri s" and ?s = "fst r"
  have c1: "core ?T s1" unfolding s1 using core_b_prio [OF ksysD(1) [OF k] p] .
  have d: "donors s1 x = donors s x" "prio (tasks s1 x) = prio (tasks s x)" for x
    by (simp_all add: donors_def s1)
  have H: "is_eff (base s1) s1 x (prio (tasks s1 x))" if "x \<in> ?T" "x \<noteq> t" for x
    using ksysD(2) [OF k] that unfolding all_eff_def is_eff_def d by (simp add: s1)
  have "is_eff ((base s)(t := pri)) s t ?lim"
    using core_owned_sorted [OF ksysD(1) [OF k] t(1)] by (intro mutex_pri_limit_eff) auto
  then have L: "is_eff (base s1) s1 t ?lim" unfolding is_eff_def d by (simp add: s1)
  then have "?lim < 62" using p by (auto simp: is_eff_def s1)
  from task_pri_change_spec [OF c1 _ t this H L] have sp: "core ?T ?s" "all_eff (base s1) ?T ?s"
    "snd r = RHINO_SUCCESS" "k_faults ?s = []" using ksysD(5) [OF k] by (simp_all add: r s1)
  show "snd r = RHINO_SUCCESS" by (rule sp(3))
  show "is_eff (base s1) ?s t (prio (tasks ?s t))" using sp(2) t(1) by (simp add: all_eff_def)
  show fg: "forget ?s = forget s1" by (simp add: r)
  note ft = forget_tasks [OF fg] and ff = forget_fields [OF fg]
  have "base ?s = base s1" using ft(18) by (simp add: fun_eq_iff)
  then have e2: "all_eff (base ?s) ?T ?s" using sp(2) by simp
  have tk2: "tick_inv ?s"
    using ksysD(3) [OF k] ft(3,5) ff(6,7,8) by (subst tick_inv_cong [of ?s s]) (auto simp: s1)
  have ok2: "task_ok (tasks ?s u)" if "u \<in> ?T" for u
    using ksysD(4) [OF k that] ft(1,5,8) [of u]
    by (cases "u = t") (auto simp: s1 task_ok_def waiting_def sleeping_def suspended_def)
  have "b_prio (tasks ?s g_idle_task) = b_prio (tasks s g_idle_task)" using ft(18) t(2) by (simp add: s1)
  then have "prio (tasks ?s g_idle_task) = 61"
    using idle_prio [OF sp(1) e2] idle_prio [OF ksysD(1,2) [OF k]] ksysD(12) [OF k] by simp
  then show "ksys ?s"
    unfolding ksys_def using sp e2 tk2 ok2 ff(6) ksysD(16) [OF k] by (simp add: s1)
  show "set (waiters ?s x) = set (waiters s x)" for x
    using core_waiter [OF sp(1)] core_waiter [OF ksysD(1) [OF k]] ft(8,10)
    by (auto simp: s1 waiting_def split: if_splits)
qed

lemma krhino_task_pri_change_good:
  assumes g: "good s" and t: "\<And>t. task = Some t \<Longrightarrow> t \<in> all_tasks s"
  shows "good (fst (krhino_task_pri_change task pri old s))"
proof (cases "\<exists>t. task = Some t \<and> old \<and> prio (tasks s t) < 61 \<and> pri < 61 \<and> task_state (tasks s t) \<noteq> K_DELETED
    \<and> g_intrpt_nested_level s = 0")
  case False
  then show ?thesis
    using g good_return [OF g refl] by (cases task) (auto simp: krhino_task_pri_change_def Let_def word_pos)
next
  case True
  then obtain t where tk: "task = Some t" and c: "old" "prio (tasks s t) < 61" "pri < 61"
    "task_state (tasks s t) \<noteq> K_DELETED" "g_intrpt_nested_level s = 0" by blast
  define e where "e = cpu_intrpt_save s"
  define s1 where "s1 = upd_task t (\<lambda>x. x\<lparr>b_prio := pri\<rparr>) e"
  define r where "r = task_pri_change t (mutex_pri_limit t pri e) s1"
  have "ksys e" "t \<in> all_tasks e" "t \<noteq> g_idle_task" "pri < 62"
    using goodD(2) [OF g] t tk c(2,3) ksysD(12) [OF goodD(2) [OF g]] by (auto simp: e_def)
  note kr = ksys_pri_change [OF this s1_def r_def]
  note ft = forget_tasks [OF kr(3)] and ff = forget_fields [OF kr(3)] and fb = forget_blks [OF kr(3)]
  have f2: "task_state (tasks (fst r) u) = task_state (tasks s u)" "pend_flags (tasks (fst r) u) = pend_flags (tasks s u)"
    "pend_option (tasks (fst r) u) = pend_option (tasks s u)" "blk_state (tasks (fst r) u) = blk_state (tasks s u)" for u
    using ft(8,9,14,16) [of u] by (cases "u = t"; simp add: s1_def e_def)+
  have "kinv (fst r)"
    by (rule kinv_step [OF goodD(1) [OF g] kr(1)])
       (use goodD(1) [OF g] ff fb kr(4) f2 in \<open>simp_all add: e_def s1_def kinv_def\<close>)
  then have "good (RHINO_CRITICAL_EXIT_SCHED (irq_off s) (fst r))"
    using f2 ff by (intro good_task_EXIT_SCHED [OF g]) (simp_all add: same_run_def s1_def e_def)
  moreover have "fst (krhino_task_pri_change task pri old s) = RHINO_CRITICAL_EXIT_SCHED (irq_off s) (fst r)"
  proof -
    have "g_intrpt_nested_level e = 0" using c(5) by (simp add: e_def)
    then show ?thesis
      using c kr(2) by (cases r) (simp add: krhino_task_pri_change_def Let_def tk e_def [symmetric]
        s1_def [symmetric] r_def [symmetric])
  qed
  ultimately show ?thesis by simp
qed

section \<open>Attributes\<close>

lemma good_inert:
  assumes g: "good s" and f: "inert f"
  shows "good (RHINO_CRITICAL_EXIT (irq_off s) (upd_task t f (RHINO_CRITICAL_ENTER s)))"
proof -
  have "task_state (f x) = task_state x" for x using f by (simp add: inert_def task_view_def)
  then show ?thesis
    using kinv_inert [OF _ f] goodD(1,4) [OF g] by (intro good_EXIT [OF g]) (simp_all add: same_run_def)
qed

lemma krhino_task_time_slice_set_good: "good s \<Longrightarrow> good (fst (krhino_task_time_slice_set task n s))"
proof -
  assume g: "good s"
  have "upd_task t (\<lambda>x. x\<lparr>task_time_slice := time_total x\<rparr>) (upd_task t (\<lambda>x. x\<lparr>time_total := w\<rparr>) r)
      = upd_task t (\<lambda>x. x\<lparr>time_total := w, task_time_slice := w\<rparr>) r" for t w r by (simp add: upd_task_def)
  moreover have "inert (\<lambda>x. x\<lparr>time_total := w, task_time_slice := w\<rparr>)" for w by (simp add: inert_def task_view_def)
  ultimately show ?thesis
    using g good_return [OF g refl] by (auto simp: krhino_task_time_slice_set_def Let_def good_inert split: option.split)
qed

lemma krhino_sched_policy_set_good: "good s \<Longrightarrow> good (fst (krhino_sched_policy_set task p s))"
proof -
  assume g: "good s"
  have "inert (\<lambda>x. x\<lparr>sched_policy := p\<rparr>)" by (simp add: inert_def task_view_def)
  then show ?thesis
    using g good_return [OF g refl] by (auto simp: krhino_sched_policy_set_def Let_def good_inert split: option.split)
qed

lemma krhino_sched_policy_get_good: "good s \<Longrightarrow> good (fst (krhino_sched_policy_get task b s))"
  by (auto simp: krhino_sched_policy_get_def Let_def good_return split: option.split)

end
