(* ===== verification/Task_Del.thy ===== *)
theory Task_Del
  imports Task
begin

text \<open>
  The deletion of tasks, \<^verbatim>\<open>core/k_task.c\<close>, and the task that frees the memory of deleted tasks,
  \<^verbatim>\<open>core/k_dyn_mem_proc.c\<close>. A deleted task passes each of its mutexes to the first task that waits
  for it, leaves the list it is on, and the priority it gave to the owner of a mutex is taken back.
\<close>

section \<open>The code\<close>

text \<open>
  The loop reads the next mutex of the chain before it changes the current one, so it visits the
  mutexes of the chain as it was at the start. The chain pointer of the task itself is left as it is.
\<close>

fun mutex_free_loop :: "oid list \<Rightarrow> kstate \<Rightarrow> kstate" where
  "mutex_free_loop [] s = s"
| "mutex_free_loop (m # ms) s = mutex_free_loop ms
     (if waiters s m \<noteq> [] then
        (let next_task = hd (waiters s m);
             s1 = pend_task_wakeup next_task s;
             s2 = upd_mutex m (\<lambda>x. x\<lparr>mutex_task := Some next_task\<rparr>) s1
         in upd_task next_task (\<lambda>x. x\<lparr>mutex_list := m # mutex_list x\<rparr>) s2)
      else upd_mutex m (\<lambda>x. x\<lparr>mutex_task := None\<rparr>) s)"

definition task_mutex_free :: "tid \<Rightarrow> kstate \<Rightarrow> kstate" where
  "task_mutex_free task s = mutex_free_loop (mutex_list (tasks s task)) s"

text \<open>The \<open>switch\<close> on the state of the deleted task, for the states that have a case of their own.\<close>

definition task_detach :: "tid \<Rightarrow> kstate \<Rightarrow> kstate" where
  "task_detach t s = (let del = upd_task t (\<lambda>x. x\<lparr>task_state := K_DELETED\<rparr>) in
     case task_state (tasks s t) of
       K_RDY \<Rightarrow> del (ready_list_rm t s)
     | K_SUSPENDED \<Rightarrow> del s
     | K_SLEEP \<Rightarrow> del (tick_list_rm t s)
     | K_SLEEP_SUSPENDED \<Rightarrow> del (tick_list_rm t s)
     | K_PEND \<Rightarrow> mutex_task_pri_reset t (del (task_list_rm t (tick_list_rm t s)))
     | K_PEND_SUSPENDED \<Rightarrow> mutex_task_pri_reset t (del (task_list_rm t (tick_list_rm t s)))
     | _ \<Rightarrow> s)"

definition task_unregister :: "tid \<Rightarrow> kstate \<Rightarrow> kstate" where
  "task_unregister t s = s\<lparr>g_kobj_list := (g_kobj_list s)\<lparr>task_head := remove1 t (task_head (g_kobj_list s))\<rparr>\<rparr>"

text \<open>The return for the idle task has no \<open>RHINO_CRITICAL_EXIT\<close>: interrupts stay masked.\<close>

definition krhino_task_del :: "tid option \<Rightarrow> kstate \<Rightarrow> kstate \<times> kstat" where
  "krhino_task_del task s = (let psr = irq_off s; s0 = RHINO_CRITICAL_ENTER s in
     if g_intrpt_nested_level s0 > 0 then (RHINO_CRITICAL_EXIT psr s0, RHINO_NOT_CALLED_BY_INTRPT)
     else (let t = (case task of None \<Rightarrow> g_active_task s0 | Some t \<Rightarrow> t) in
       if prio (tasks s0 t) = RHINO_IDLE_PRI then (s0, RHINO_TASK_DEL_NOT_ALLOWED)
       else if task_mm_alloc_flag (tasks s0 t) \<noteq> K_OBJ_STATIC_ALLOC
       then (RHINO_CRITICAL_EXIT psr s0, RHINO_KOBJ_DEL_ERR)
       else if t = g_active_task s0 \<and> g_sched_lock s0 > 0 then (RHINO_CRITICAL_EXIT psr s0, RHINO_SCHED_DISABLE)
       else (let s1 = task_mutex_free t s0 in
         if task_state (tasks s1 t) \<in> {K_SEED, K_DELETED} then (RHINO_CRITICAL_EXIT psr s1, RHINO_INV_TASK_STATE)
         else (RHINO_CRITICAL_EXIT_SCHED psr (task_unregister t (task_detach t s1)), RHINO_SUCCESS))))"

text \<open>
  \<open>g_res_list\<close> holds the stack addresses of the \<open>res_free_t\<close> records, which lie in the stacks themselves.
\<close>

definition krhino_task_dyn_del :: "tid option \<Rightarrow> kstate \<Rightarrow> kstate \<times> kstat" where
  "krhino_task_dyn_del task s = (let psr = irq_off s; s0 = RHINO_CRITICAL_ENTER s in
     if g_intrpt_nested_level s0 > 0 then (RHINO_CRITICAL_EXIT psr s0, RHINO_NOT_CALLED_BY_INTRPT)
     else (let t = (case task of None \<Rightarrow> g_active_task s0 | Some t \<Rightarrow> t) in
       if prio (tasks s0 t) = RHINO_IDLE_PRI then (RHINO_CRITICAL_EXIT psr s0, RHINO_TASK_DEL_NOT_ALLOWED)
       else if task_mm_alloc_flag (tasks s0 t) \<noteq> K_OBJ_DYN_ALLOC
       then (RHINO_CRITICAL_EXIT psr s0, RHINO_KOBJ_DEL_ERR)
       else if t = g_active_task s0 \<and> g_sched_lock s0 > 0 then (RHINO_CRITICAL_EXIT psr s0, RHINO_SCHED_DISABLE)
       else if task_state (tasks s0 t) = K_DELETED then (RHINO_CRITICAL_EXIT psr s0, RHINO_INV_TASK_STATE)
       else (let s1 = s0\<lparr>g_sched_lock := g_sched_lock s0 + 1, g_res_list := g_res_list s0 @ [task_stack_base (tasks s0 t)]\<rparr>
             in case krhino_sem_give (Some g_res_sem) s1 of (s2, ret) \<Rightarrow>
               (let s3 = s2\<lparr>g_sched_lock := g_sched_lock s2 - 1\<rparr> in
                if ret \<noteq> RHINO_SUCCESS then (k_err_proc RHINO_SYS_SP_ERR (RHINO_CRITICAL_EXIT psr s3), ret)
                else (RHINO_CRITICAL_EXIT_SCHED psr (task_unregister t (task_detach t (task_mutex_free t s3))),
                      RHINO_SUCCESS)))))"

definition krhino_task_deathbed :: "kstate \<Rightarrow> kstate" where
  "krhino_task_deathbed s = (case krhino_cur_task_get s of (s1, task) \<Rightarrow>
     if task_mm_alloc_flag (tasks s1 task) = K_OBJ_DYN_ALLOC then fst (krhino_task_dyn_del None s1)
     else fst (krhino_task_del None s1))"

text \<open>
  One round of the inner loop of \<open>dyn_mem_proc_task\<close>, and the loop: it ends when the list is empty.
  The fuel is the length of the list, which only this task shortens.
\<close>

definition res_free_one :: "kstate \<Rightarrow> kstate \<times> bool" where
  "res_free_one s = (let psr = irq_off s; s0 = RHINO_CRITICAL_ENTER s in
     case g_res_list s0 of
       [] \<Rightarrow> (RHINO_CRITICAL_EXIT psr s0, False)
     | r # rs \<Rightarrow> (krhino_mm_free r (RHINO_CRITICAL_EXIT psr (s0\<lparr>g_res_list := rs\<rparr>)), True))"

fun res_free_loop :: "nat \<Rightarrow> kstate \<Rightarrow> kstate" where
  "res_free_loop 0 s = fault KHang s"
| "res_free_loop (Suc n) s = (case res_free_one s of (s1, again) \<Rightarrow> if again then res_free_loop n s1 else s1)"

text \<open>One turn of the outer loop, up to the next wait on \<open>g_res_sem\<close>.\<close>

definition dyn_mem_proc_task :: "kret \<Rightarrow> kstate \<Rightarrow> kstate" where
  "dyn_mem_proc_task ret s =
     (let s1 = (if ret \<noteq> Ret RHINO_SUCCESS then k_err_proc RHINO_DYN_MEM_PROC_ERR s else s)
      in res_free_loop (length (g_res_list s1) + 1) s1)"

section \<open>Passing on the mutexes\<close>

text \<open>
  In the loop the task \<open>t\<close> owns the mutexes \<open>ms\<close> that are left. Its own priority may be higher than
  what it is entitled to; all other tasks have their effective priority.
\<close>

definition free_inv :: "tid \<Rightarrow> oid list \<Rightarrow> kstate \<Rightarrow> bool" where
  "free_inv t ms s \<longleftrightarrow> core (all_tasks s) (upd_task t (\<lambda>x. x\<lparr>mutex_list := ms\<rparr>) s)
     \<and> (\<forall>x\<in>all_tasks s. x \<noteq> t \<longrightarrow> is_eff (base s) s x (prio (tasks s x))) \<and> tick_inv s
     \<and> (\<forall>u\<in>all_tasks s. task_ok (tasks s u)) \<and> distinct (task_head (g_kobj_list s))
     \<and> prio (tasks s g_idle_task) = RHINO_IDLE_PRI \<and> k_faults s = [] \<and> t \<in> all_tasks s \<and> t \<noteq> g_idle_task"

lemma core_mutex_list:
  "core T (upd_task t (\<lambda>x. x\<lparr>mutex_list := ms\<rparr>) s) \<longleftrightarrow> rq_inv {u \<in> T. task_state (tasks s u) = K_RDY} s
     \<and> wait_inv {u \<in> T. waiting (tasks s u)} s \<and> mutex_ok T (upd_task t (\<lambda>x. x\<lparr>mutex_list := ms\<rparr>) s)
     \<and> (\<forall>u\<in>T. task_state (tasks s u) \<notin> {K_SEED, K_DELETED} \<and> prio (tasks s u) < 62 \<and> b_prio (tasks s u) < 62)
     \<and> g_idle_task \<in> T \<and> task_state (tasks s g_idle_task) = K_RDY
     \<and> (if t = g_idle_task then ms else mutex_list (tasks s g_idle_task)) = []"
proof -
  let ?G = "upd_task t (\<lambda>x. x\<lparr>mutex_list := ms\<rparr>) s"
  have f: "task_state (tasks ?G u) = task_state (tasks s u)" "prio (tasks ?G u) = prio (tasks s u)"
    "b_prio (tasks ?G u) = b_prio (tasks s u)" "blk_obj (tasks ?G u) = blk_obj (tasks s u)"
    "mutex_list (tasks ?G u) = (if u = t then ms else mutex_list (tasks s u))" for u by simp_all
  then have "waiting (tasks ?G u) = waiting (tasks s u)" for u by (simp add: waiting_def)
  moreover have "rq_inv R ?G \<longleftrightarrow> rq_inv R s" "wait_inv W ?G \<longleftrightarrow> wait_inv W s" for R W
    by (rule rq_inv_cong wait_inv_cong; simp)+
  ultimately show ?thesis unfolding core_def f by auto
qed

lemma free_inv_start:
  assumes "ksys s" "t \<in> all_tasks s" "t \<noteq> g_idle_task"
  shows "free_inv t (mutex_list (tasks s t)) s"
proof -
  have "upd_task t (\<lambda>x. x\<lparr>mutex_list := mutex_list (tasks s t)\<rparr>) s = s"
    by (simp add: upd_task_def)
  then show ?thesis using ksysD [OF assms(1)] assms by (simp add: free_inv_def all_eff_def)
qed

lemma free_inv_head:
  assumes "free_inv t (m # ms) s"
  shows "obj_type (blks s m) = RHINO_MUTEX_OBJ_TYPE" "mutex_task (mutexes s m) = Some t" "m \<notin> set ms"
proof -
  let ?G = "upd_task t (\<lambda>x. x\<lparr>mutex_list := m # ms\<rparr>) s"
  have c: "core (all_tasks s) ?G" "t \<in> all_tasks s" using assms by (simp_all add: free_inv_def)
  from core_owned [OF c, of m] show "obj_type (blks s m) = RHINO_MUTEX_OBJ_TYPE" "mutex_task (mutexes s m) = Some t"
    by simp_all
  show "m \<notin> set ms" using c by (auto simp: core_def mutex_ok_def)
qed

text \<open>Nobody waits for the mutex.\<close>

lemma free_inv_drop:
  assumes i: "free_inv t (m # ms) s" and w: "waiters s m = []"
  shows "free_inv t ms (upd_mutex m (\<lambda>x. x\<lparr>mutex_task := None\<rparr>) s)"
proof -
  let ?T = "all_tasks s" and ?G = "upd_task t (\<lambda>x. x\<lparr>mutex_list := m # ms\<rparr>) s"
  let ?S = "upd_mutex m (\<lambda>x. x\<lparr>mutex_task := None\<rparr>) s"
  let ?H = "upd_task t (\<lambda>x. x\<lparr>mutex_list := ms\<rparr>) ?S"
  note hd = free_inv_head [OF i]
  have c: "core ?T ?G" using i by (simp add: free_inv_def)
  have mo: "mutex_ok ?T ?G" using c by (simp add: core_def)
  have own: "x \<in> set (mutex_list (tasks ?H u)) \<longleftrightarrow>
      obj_type (blks ?H x) = RHINO_MUTEX_OBJ_TYPE \<and> mutex_task (mutexes ?H x) = Some u" if "u \<in> ?T" for u x
    using core_owned [OF c that, of x] hd by (cases "x = m"; cases "u = t") auto
  have "mutex_ok ?T ?H"
    using mo own w unfolding mutex_ok_def by (auto split: if_splits)
  moreover have "rq_inv R ?S \<longleftrightarrow> rq_inv R s" "wait_inv W ?S \<longleftrightarrow> wait_inv W s" for R W
    by (rule rq_inv_cong wait_inv_cong; simp)+
  ultimately have "core ?T ?H" using c unfolding core_mutex_list by auto
  moreover have "donors ?S x = donors s x" for x by (simp add: donors_def)
  then have "is_eff (base ?S) ?S x p \<longleftrightarrow> is_eff (base s) s x p" for x p by (simp add: is_eff_def)
  moreover have "tick_inv ?S \<longleftrightarrow> tick_inv s" by (rule tick_inv_cong) simp_all
  ultimately show ?thesis using i by (simp add: free_inv_def)
qed

text \<open>The first waiting task becomes the owner.\<close>

lemma free_inv_pass:
  assumes i: "free_inv t (m # ms) s" and w: "waiters s m \<noteq> []" and h: "h = hd (waiters s m)"
    and S: "S = upd_task h (\<lambda>x. x\<lparr>mutex_list := m # mutex_list x\<rparr>)
      (upd_mutex m (\<lambda>x. x\<lparr>mutex_task := Some h\<rparr>) (pend_task_wakeup h s))"
  shows "free_inv t ms S"
proof -
  let ?T = "all_tasks s" and ?G = "upd_task t (\<lambda>x. x\<lparr>mutex_list := m # ms\<rparr>) s"
  let ?H = "upd_task t (\<lambda>x. x\<lparr>mutex_list := ms\<rparr>) S"
  note mt = free_inv_head [OF i]
  have c: "core ?T ?G" and tT: "t \<in> ?T" "t \<noteq> g_idle_task" using i by (simp_all add: free_inv_def)
  note cs = c [unfolded core_mutex_list]
  have g: "obj_type (blks ?G m) = RHINO_MUTEX_OBJ_TYPE" "mutex_task (mutexes ?G m) = Some t" "waiters ?G m \<noteq> []"
    "h = hd (waiters ?G m)" using mt w h by simp_all
  note hd = passed_hd [OF c tT(1) g]
  have wh: "waiting (tasks s h)" using hd(3,5) by simp
  note f = wakeup.wake_fields [OF wh] and tk = wakeup.wake_task [OF wh]
  have nest: "owner_nested (mutexes s m) > 0" using cs mt by (auto simp: mutex_ok_def)
  have ft: "filter (\<lambda>x. x \<noteq> m) ms = ms" using mt(3) by (simp add: filter_neq_idem)
  have ps: "passed t h m ?G ?H"
    using f hd(5) nest ft by (auto simp: passed_def S tk)
  have TS: "all_tasks S = ?T" using f(5) by (simp add: S)
  have st: "task_state (tasks S u) = (if u = h then woken_state (task_state (tasks s h)) else task_state (tasks s u))"
    "prio (tasks S u) = prio (tasks s u)" "b_prio (tasks S u) = b_prio (tasks s u)"
    "u \<noteq> h \<Longrightarrow> tasks S u = tasks s u" for u
    by (simp_all add: S tk)
  have ps62: "prio (tasks s h) < 62" using cs hd(2) by auto
  have rw: "rq_inv {u \<in> ?T. task_state (tasks S u) = K_RDY} S" "wait_inv {u \<in> ?T. waiting (tasks S u)} S"
    by (rule passed_core [OF _ _ hd(2) wh ps62]; use cs st in \<open>simp add: S tk\<close>)+
  have "mutex_ok ?T ?H" by (rule passed_mutex_ok [OF c tT(1) g ps])
  then have co: "core ?T ?H"
    unfolding core_mutex_list using rw cs hd(6) tT(2) st by (auto simp: woken_state_def)
  have eff: "is_eff (base S) S x (prio (tasks S x))" if x: "x \<in> ?T" "x \<noteq> t" for x
  proof -
    have "donors ?G x = donors s x" "prio (tasks ?G u) = prio (tasks s u)" for u using x(2) by (simp_all add: donors_def)
    then have e: "is_eff (base s) ?G x (prio (tasks ?G x))" using i x by (simp add: free_inv_def is_eff_def)
    have "is_eff (base s) ?H x (prio (tasks ?H x))"
      by (rule passed_eff [OF c tT(1) g ps _ x e]) (simp add: st)
    moreover have "donors ?H x = donors S x" "prio (tasks ?H u) = prio (tasks S u)" "base S = base s" for u
      using x(2) st(3) by (simp_all add: donors_def fun_eq_iff)
    ultimately show ?thesis by (simp add: is_eff_def)
  qed
  have "tick_inv (pend_task_wakeup h s)" using wakeup.wake_tick [OF _ hd(2) wh] i by (simp add: free_inv_def)
  then have tick: "tick_inv S" by (subst tick_inv_cong [of _ "pend_task_wakeup h s"]) (auto simp: S)
  have ok: "task_ok (tasks S u)" if "u \<in> ?T" for u
  proof -
    have "task_ok (tasks s u)" using i that by (simp add: free_inv_def)
    then show ?thesis using wh
      by (cases "u = h") (auto simp: S tk task_ok_def waiting_def sleeping_def suspended_def woken_state_def)
  qed
  have kf: "k_faults S = k_faults s" "g_kobj_list S = g_kobj_list s" using f(4,5) by (simp_all add: S)
  show ?thesis
    using i co eff tick ok st(2) [of g_idle_task] by (simp add: free_inv_def kf)
qed

text \<open>What the loop leaves alone.\<close>

definition freed :: "tid \<Rightarrow> kstate \<Rightarrow> kstate \<Rightarrow> bool" where
  "freed t s s' \<longleftrightarrow> g_kobj_list s' = g_kobj_list s \<and> same_run s s' \<and> sems s' = sems s \<and> events s' = events s
     \<and> queues s' = queues s \<and> buf_queues s' = buf_queues s
     \<and> (\<forall>x. obj_type (blks s' x) = obj_type (blks s x) \<and> set (waiters s' x) \<subseteq> set (waiters s x))
     \<and> (\<forall>u. pend_flags (tasks s' u) = pend_flags (tasks s u) \<and> pend_option (tasks s' u) = pend_option (tasks s u)
          \<and> (blk_state (tasks s u) \<noteq> BLK_INVALID \<longrightarrow> blk_state (tasks s' u) \<noteq> BLK_INVALID))
     \<and> (\<forall>u. task_state (tasks s u) = K_RDY \<longrightarrow> task_state (tasks s' u) = K_RDY)
     \<and> task_state (tasks s' t) = task_state (tasks s t) \<and> blk_obj (tasks s' t) = blk_obj (tasks s t)"

lemma freed_trans: "freed t s s1 \<Longrightarrow> freed t s1 s2 \<Longrightarrow> freed t s s2"
  by (auto simp: freed_def same_run_def)

lemma mutex_free_loop_spec:
  "free_inv t ms s \<Longrightarrow> free_inv t [] (mutex_free_loop ms s) \<and> freed t s (mutex_free_loop ms s)"
proof (induction ms arbitrary: s)
  case Nil
  then show ?case by (simp add: freed_def same_run_def)
next
  case (Cons m ms)
  show ?case
  proof (cases "waiters s m = []")
    case True
    have "freed t s (upd_mutex m (\<lambda>x. x\<lparr>mutex_task := None\<rparr>) s)" by (simp add: freed_def same_run_def)
    then show ?thesis
      using Cons.IH [OF free_inv_drop [OF Cons.prems True]] True freed_trans by (auto simp del: upd_mutex_frame)
  next
    case False
    let ?h = "hd (waiters s m)"
    let ?S = "upd_task ?h (\<lambda>x. x\<lparr>mutex_list := m # mutex_list x\<rparr>)
      (upd_mutex m (\<lambda>x. x\<lparr>mutex_task := Some ?h\<rparr>) (pend_task_wakeup ?h s))"
    let ?G = "upd_task t (\<lambda>x. x\<lparr>mutex_list := m # ms\<rparr>) s"
    have c: "core (all_tasks s) ?G" "t \<in> all_tasks s" using Cons.prems by (simp_all add: free_inv_def)
    have g: "obj_type (blks ?G m) = RHINO_MUTEX_OBJ_TYPE" "mutex_task (mutexes ?G m) = Some t" "waiters ?G m \<noteq> []"
      "?h = hd (waiters ?G m)" using free_inv_head [OF Cons.prems] False by simp_all
    note hd = passed_hd [OF c g]
    have wh: "waiting (tasks s ?h)" using hd(3,5) by simp
    note f = wakeup.wake_fields [OF wh] and tk = wakeup.wake_task [OF wh]
    have "freed t s ?S"
      using f hd(5) wh by (auto simp: freed_def same_run_def tk waiting_def dest: set_remove1_subset [THEN subsetD])
    then show ?thesis
      using Cons.IH [OF free_inv_pass [OF Cons.prems False refl refl]] False freed_trans by (auto simp: Let_def)
  qed
qed

lemma task_mutex_free_spec:
  assumes "ksys s" "t \<in> all_tasks s" "t \<noteq> g_idle_task"
  shows "free_inv t [] (task_mutex_free t s)" "freed t s (task_mutex_free t s)"
  using mutex_free_loop_spec [OF free_inv_start [OF assms]] by (simp_all add: task_mutex_free_def)

section \<open>Leaving the lists\<close>

text \<open>The invariant does not depend on the control block of a task outside the system.\<close>

lemma core_outside:
  assumes "t \<notin> T"
  shows "core T (upd_task t f s) \<longleftrightarrow> core T s"
proof -
  let ?s = "upd_task t f s" and ?R = "{u \<in> T. task_state (tasks s u) = K_RDY}" and ?W = "{u \<in> T. waiting (tasks s u)}"
  have f: "tasks ?s u = tasks s u" if "u \<in> T" for u using that assms by auto
  have RW: "{u \<in> T. task_state (tasks ?s u) = K_RDY} = ?R" "{u \<in> T. waiting (tasks ?s u)} = ?W" using assms by auto
  have q: "rq_inv ?R ?s \<longleftrightarrow> rq_inv ?R s" "wait_inv ?W ?s \<longleftrightarrow> wait_inv ?W s" "mutex_ok T ?s \<longleftrightarrow> mutex_ok T s"
    by (rule rq_inv_cong wait_inv_cong mutex_ok_cong; use f in simp)+
  show ?thesis
  proof (cases "g_idle_task \<in> T")
    case True
    show ?thesis unfolding core_def RW q f [OF True] using f by (simp cong: ball_cong)
  qed (simp add: core_def)
qed

lemma is_eff_outside:
  assumes "core T s" "t \<notin> T" "x \<in> T"
  shows "is_eff (base (upd_task t f s)) (upd_task t f s) x p \<longleftrightarrow> is_eff (base s) s x p"
proof (rule is_eff_cong)
  have xt: "x \<noteq> t" using assms by auto
  then show "base (upd_task t f s) x = base s x" "donors (upd_task t f s) x = donors s x" by (simp_all add: donors_def)
  show "prio (tasks (upd_task t f s) u) = prio (tasks s u)" if "u \<in> donors s x" for u
    using core_donor [OF assms(1,3)] that assms(2) by auto
qed

lemma ksys_drop:
  assumes i: "free_inv t ms s" and T': "T' = all_tasks s - {t}"
    and c: "core T' s2" "all_eff (base s2) T' s2" "k_faults s2 = []" and fg: "forget s2 = forget s1"
    and s1: "\<And>u. u \<noteq> t \<Longrightarrow> tasks s1 u = tasks s u" "g_tick_head s1 = remove1 t (g_tick_head s)"
      "g_tick_count s1 = g_tick_count s" "g_kobj_list s1 = g_kobj_list s"
  shows "ksys (task_unregister t s2)" "all_tasks (task_unregister t s2) = T'"
proof -
  let ?s = "task_unregister t s2"
  note ft = forget_tasks [OF fg] and ff = forget_fields [OF fg]
  have d: "distinct (task_head (g_kobj_list s))" "tick_inv s" "t \<noteq> g_idle_task"
    "\<And>u. u \<in> all_tasks s \<Longrightarrow> task_ok (tasks s u)" using i by (simp_all add: free_inv_def)
  show T: "all_tasks ?s = T'" using d(1) ff(6) s1(4) T' by (simp add: task_unregister_def)
  have o: "task_state (tasks s2 u) = task_state (tasks s u)" "tick_head (tasks s2 u) = tick_head (tasks s u)"
    "tick_match (tasks s2 u) = tick_match (tasks s u)" "suspend_count (tasks s2 u) = suspend_count (tasks s u)"
    "b_prio (tasks s2 u) = b_prio (tasks s u)" if "u \<in> T'" for u
    using ft(1,3,5,8,18) [of u] s1(1) [of u] that T' by auto
  have v: "tasks ?s = tasks s2" "blks ?s = blks s2" "mutexes ?s = mutexes s2" "g_ready_queue ?s = g_ready_queue s2"
    "k_faults ?s = k_faults s2" by (simp_all add: task_unregister_def)
  have "rq_inv R ?s \<longleftrightarrow> rq_inv R s2" "wait_inv R ?s \<longleftrightarrow> wait_inv R s2" "mutex_ok T' ?s \<longleftrightarrow> mutex_ok T' s2" for R
    by (rule rq_inv_cong wait_inv_cong mutex_ok_cong; simp add: v)+
  then have core: "core T' ?s" using c(1) by (simp add: core_def v)
  have eff: "all_eff (base ?s) T' ?s"
    using c(2) by (simp add: all_eff_def is_eff_def donors_def v)
  have tick: "tick_inv ?s"
  proof -
    have h: "g_tick_head ?s = remove1 t (g_tick_head s)" "g_tick_count ?s = g_tick_count s"
      using ff(7,8) s1(2,3) by (simp_all add: task_unregister_def)
    have set: "set (remove1 t (g_tick_head s)) = {u \<in> T'. tick_head (tasks s u)}"
      using d(2) T' by (auto simp: tick_inv_def)
    have l: "tick_left ?s u = tick_left s u" if "u \<in> set (remove1 t (g_tick_head s))" for u
      using that o(3) [of u] h(2) unfolding set by (simp add: tick_left_def v)
    have "sorted_wrt (\<lambda>a b. tick_left ?s a \<le> tick_left ?s b) (remove1 t (g_tick_head s))"
      using d(2) l by (subst sorted_wrt_key_cong [of _ _ "tick_left s"]) (auto simp: tick_inv_def sorted_wrt_remove1)
    moreover have "{u \<in> T'. tick_head (tasks ?s u)} = {u \<in> T'. tick_head (tasks s u)}" using o(2) by (auto simp: v)
    ultimately show ?thesis
      using d(2) l set unfolding tick_inv_def T h(1) by (auto dest: set_remove1_subset [THEN subsetD])
  qed
  have ok: "task_ok (tasks ?s u)" if "u \<in> T'" for u
    using d(4) [of u] o [OF that] that T'
    by (simp add: v task_ok_def waiting_def sleeping_def suspended_def)
  have "b_prio (tasks s g_idle_task) = 61"
  proof -
    have "core (all_tasks s) (upd_task t (\<lambda>x. x\<lparr>mutex_list := ms\<rparr>) s)" "prio (tasks s g_idle_task) = 61"
      "is_eff (base s) s g_idle_task (prio (tasks s g_idle_task))"
      using i by (auto simp: free_inv_def core_def)
    then show ?thesis using d(3) by (simp add: core_mutex_list is_eff_def donors_def)
  qed
  then have "prio (tasks ?s g_idle_task) = 61"
    using idle_prio [OF core eff] o(5) [of g_idle_task] core by (simp add: v core_def)
  then show "ksys ?s"
    using core eff tick ok d(1) c(3) ff(6) s1(4) unfolding ksys_def T by (simp add: v task_unregister_def)
qed

text \<open>A task that waits for nothing.\<close>

lemma detach_idle:
  assumes i: "free_inv t [] s" and T': "T' = all_tasks s - {t}" and nw: "\<not> waiting (tasks s t)"
    and s1: "\<And>u. u \<noteq> t \<Longrightarrow> tasks s1 u = tasks s u" "blks s1 = blks s" "mutexes s1 = mutexes s"
    and rq: "rq_inv {u \<in> T'. task_state (tasks s u) = K_RDY} s1"
  shows "core T' s1" "all_eff (base s1) T' s1"
proof -
  let ?T = "all_tasks s" and ?G = "upd_task t (\<lambda>x. x\<lparr>mutex_list := []\<rparr>) s"
  have c: "core ?T ?G" and tT: "t \<in> ?T" "t \<noteq> g_idle_task" using i by (simp_all add: free_inv_def)
  note cs = c [unfolded core_mutex_list]
  have o: "tasks s1 u = tasks s u" if "u \<in> T'" for u using s1(1) that T' by auto
  have W: "{u \<in> ?T. waiting (tasks s u)} = {u \<in> T'. waiting (tasks s1 u)}"
    using nw T' o by (metis (no_types, lifting) Collect_cong DiffE DiffI singletonD singletonI)
  have R: "{u \<in> T'. task_state (tasks s1 u) = K_RDY} = {u \<in> T'. task_state (tasks s u) = K_RDY}" using o by auto
  have "wait_inv {u \<in> T'. waiting (tasks s1 u)} s1"
    using cs W o s1(2) by (subst wait_inv_cong [of s1 s]) auto
  moreover have "mutex_task (mutexes s m) \<noteq> Some t" if "obj_type (blks s m) = RHINO_MUTEX_OBJ_TYPE" for m
    using core_owned [OF c tT(1), of m] that by simp
  then have "mutex_ok T' s1"
    using cs T' s1 unfolding mutex_ok_def by (auto split: if_splits)
  ultimately show co: "core T' s1"
    using cs rq tT(2) T' o unfolding core_def R by auto
  have nd: "t \<notin> donors s x" if "x \<in> T'" for x
  proof -
    have "donors ?G x = donors s x" using that T' by (auto simp: donors_def)
    then show ?thesis using core_donor [OF c, of x t] that T' nw by (auto simp: waiting_def)
  qed
  have "is_eff (base s1) s1 x (prio (tasks s1 x))" if x: "x \<in> T'" for x
  proof (subst is_eff_cong [where B = "base s" and s = s])
    show "is_eff (base s) s x (prio (tasks s1 x))" using i x T' o by (auto simp: free_inv_def)
    show "prio (tasks s1 u) = prio (tasks s u)" if "u \<in> donors s x" for u
      using nd [OF x] that s1(1) by (metis)
  qed (use o [OF x] s1(2) in \<open>simp_all add: donors_def\<close>)
  then show "all_eff (base s1) T' s1" by (simp add: all_eff_def)
qed

text \<open>A waiting task; the owner of the mutex it waits for may lose priority.\<close>

lemma detach_wait:
  assumes i: "free_inv t [] s" and T': "T' = all_tasks s - {t}" and w: "waiting (tasks s t)"
    and s1: "s1 = upd_task t (\<lambda>x. x\<lparr>task_state := K_DELETED\<rparr>) (task_list_rm t (tick_list_rm t s))"
    and s2: "s2 = mutex_task_pri_reset t s1"
  shows "core T' s2" "all_eff (base s2) T' s2" "k_faults s2 = []" "forget s2 = forget s1"
proof -
  let ?T = "all_tasks s" and ?f = "\<lambda>x. x\<lparr>mutex_list := []\<rparr>"
  let ?G = "upd_task t ?f s" and ?G1 = "upd_task t ?f s1"
  have c: "core ?T ?G" and tT: "t \<in> ?T" "t \<noteq> g_idle_task" and nf: "k_faults s = []"
    using i by (simp_all add: free_inv_def)
  have nt: "t \<notin> T'" using T' by simp
  have wG: "waiting (tasks ?G t)" using w by (simp add: waiting_def)
  obtain ob where ob: "blk_obj (tasks ?G t) = Some ob" using core_blk_obj [OF c tT(1) wG] by blast
  have eG: "is_eff (base ?G) ?G x (prio (tasks ?G x))" if "x \<in> T'" for x
  proof -
    have x: "x \<in> ?T" "x \<noteq> t" using that T' by auto
    have "donors ?G x = donors s x" "base ?G = base s" "prio (tasks ?G u) = prio (tasks s u)" for u
      using x(2) by (simp_all add: donors_def fun_eq_iff)
    then show ?thesis using i x by (simp add: free_inv_def is_eff_def)
  qed
  have R: "rq_inv {u \<in> T'. task_state (tasks ?G1 u) = K_RDY} ?G1"
  proof -
    have "{u \<in> T'. task_state (tasks ?G1 u) = K_RDY} = {u \<in> ?T. task_state (tasks s u) = K_RDY}"
      using w T' by (auto simp: s1 waiting_def)
    then show ?thesis
      using c [unfolded core_mutex_list] by (simp, subst rq_inv_cong [of _ s]) (auto simp: s1)
  qed
  have st: "task_state (tasks s1 t) = K_DELETED" by (simp add: s1)
  note u = core_unwait [OF c eG tT(1) wG tT(2) ob, of T' ?G1]
  have g: "core T' ?G1" "blk_obj (tasks ?G1 t) = Some ob"
    "obj_type (blks ?G1 ob) = RHINO_MUTEX_OBJ_TYPE \<Longrightarrow> \<exists>x. mutex_task (mutexes ?G1 ob) = Some x"
    "\<And>x. x \<in> T' \<Longrightarrow> \<not> (obj_type (blks ?G1 ob) = RHINO_MUTEX_OBJ_TYPE
        \<and> mutex_task (mutexes ?G1 ob) = Some x \<and> prio (tasks ?G1 x) = prio (tasks ?G1 t))
      \<Longrightarrow> is_eff (base ?G1) ?G1 x (prio (tasks ?G1 x))"
    by (rule u; use R T' nt st in \<open>simp add: s1 waiting_def\<close>)+
  have c1: "core T' s1" using g(1) core_outside [OF nt] by blast
  have "prio (tasks ?G1 y) = prio (tasks s1 y)" "blks ?G1 = blks s1" "mutexes ?G1 = mutexes s1" for y by simp_all
  then have H: "is_eff (base s1) s1 x (prio (tasks s1 x))" if "x \<in> T'"
      "\<not> (obj_type (blks s1 ob) = RHINO_MUTEX_OBJ_TYPE \<and> mutex_task (mutexes s1 ob) = Some x
         \<and> prio (tasks s1 x) = prio (tasks s1 t))" for x
    using g(4) [OF that(1)] that(2) is_eff_outside [OF c1 nt that(1)] by metis
  have p: "T' \<subseteq> all_tasks s1" "blk_obj (tasks s1 t) = Some ob"
    "obj_type (blks s1 ob) = RHINO_MUTEX_OBJ_TYPE \<Longrightarrow> \<exists>x. mutex_task (mutexes s1 ob) = Some x"
    using T' g(2,3) by (auto simp: s1)
  note r = mutex_task_pri_reset_spec [OF c1 p H, folded s2]
  show "core T' s2" "forget s2 = forget s1" using r by blast+
  have "base s2 = base s1" using forget_tasks(18) [OF r(4)] by (simp add: fun_eq_iff)
  then show "all_eff (base s2) T' s2" using r(2) by simp
  show "k_faults s2 = []" using r(3) nf by (simp add: s1)
qed

text \<open>\<open>gone t s s'\<close>: what the deletion of \<open>t\<close> leaves of the other tasks and of the objects.\<close>

definition gone :: "tid \<Rightarrow> kstate \<Rightarrow> kstate \<Rightarrow> bool" where
  "gone t s s' \<longleftrightarrow> same_run s s' \<and> sems s' = sems s \<and> events s' = events s \<and> queues s' = queues s
     \<and> buf_queues s' = buf_queues s \<and> g_kobj_list s' = g_kobj_list s
     \<and> (\<forall>x. obj_type (blks s' x) = obj_type (blks s x))
     \<and> (\<forall>u. u \<noteq> t \<longrightarrow> task_state (tasks s' u) = task_state (tasks s u) \<and> blk_obj (tasks s' u) = blk_obj (tasks s u)
          \<and> pend_flags (tasks s' u) = pend_flags (tasks s u) \<and> pend_option (tasks s' u) = pend_option (tasks s u)
          \<and> blk_state (tasks s' u) = blk_state (tasks s u)) \<and> task_state (tasks s' t) = K_DELETED"

lemma gone_forget:
  assumes fg: "forget s2 = forget s1" and s1: "\<And>u. u \<noteq> t \<Longrightarrow> tasks s1 u = tasks s u" "task_state (tasks s1 t) = K_DELETED"
    "\<And>x. obj_type (blks s1 x) = obj_type (blks s x)" "same_run s s1" "sems s1 = sems s" "events s1 = events s"
    "queues s1 = queues s" "buf_queues s1 = buf_queues s" "g_kobj_list s1 = g_kobj_list s"
  shows "gone t s s2"
  using s1 forget_tasks [OF fg] forget_fields [OF fg] forget_blks [OF fg] by (simp add: gone_def same_run_def)

lemma task_detach_spec:
  assumes i: "free_inv t [] s" and T': "T' = all_tasks s - {t}" and s2: "s2 = task_detach t s"
  shows "core T' s2" "gone t s s2" "ksys (task_unregister t s2)" "all_tasks (task_unregister t s2) = T'"
proof -
  let ?T = "all_tasks s" and ?del = "upd_task t (\<lambda>x. x\<lparr>task_state := K_DELETED\<rparr>)"
  have cs: "core ?T (upd_task t (\<lambda>x. x\<lparr>mutex_list := []\<rparr>) s)" "t \<in> ?T" "t \<noteq> g_idle_task" "tick_inv s"
    "task_ok (tasks s t)" "k_faults s = []" using i by (simp_all add: free_inv_def)
  note c = cs(1) [unfolded core_mutex_list]
  have th: "tick_head (tasks s t) \<longleftrightarrow> t \<in> set (g_tick_head s)" using tick_inv_sub [OF cs(4)] cs(2) by simp
  have tl: "g_tick_head (tick_list_rm t s) = remove1 t (g_tick_head s)" by (rule tick_list_rm_head_list [OF th])
  have nh: "remove1 t (g_tick_head s) = g_tick_head s" if "\<not> tick_head (tasks s t)"
    using that th by (simp add: remove1_idem)
  have sn: "task_state (tasks s t) \<notin> {K_SEED, K_DELETED}" using c cs(2) by blast
  have "\<exists>s1. core T' s2 \<and> all_eff (base s2) T' s2 \<and> k_faults s2 = [] \<and> forget s2 = forget s1
    \<and> (\<forall>u. u \<noteq> t \<longrightarrow> tasks s1 u = tasks s u) \<and> g_tick_head s1 = remove1 t (g_tick_head s)
    \<and> g_tick_count s1 = g_tick_count s \<and> g_kobj_list s1 = g_kobj_list s \<and> gone t s s2"
  proof (cases "waiting (tasks s t)")
    case True
    let ?s1 = "?del (task_list_rm t (tick_list_rm t s))"
    have e: "s2 = mutex_task_pri_reset t ?s1"
      using True by (auto simp: s2 task_detach_def Let_def waiting_def split: task_stat_t.split)
    note d = detach_wait [OF i T' True refl e]
    have "gone t s s2" by (rule gone_forget [OF d(4)]) (simp_all add: same_run_def)
    then show ?thesis using d tl by (intro exI [of _ ?s1]) simp
  next
    case False
    let ?R = "{u \<in> ?T. task_state (tasks s u) = K_RDY}"
    define x where "x = (if task_state (tasks s t) = K_RDY then ready_list_rm t s
      else if task_state (tasks s t) = K_SUSPENDED then s else tick_list_rm t s)"
    have e: "s2 = ?del x"
      using False sn by (auto simp: s2 x_def task_detach_def Let_def waiting_def split: task_stat_t.split)
    have R: "{u \<in> T'. task_state (tasks s u) = K_RDY} = ?R - {t}" using T' by auto
    have rm: "rq_inv (?R - {t}) (ready_list_rm t s)" "k_faults (ready_list_rm t s) = k_faults s"
      if "task_state (tasks s t) = K_RDY"
      using rq_inv_rm [of ?R s t] that c cs(2,3) by auto
    have rq: "rq_inv {u \<in> T'. task_state (tasks s u) = K_RDY} s2"
    proof (cases "task_state (tasks s t) = K_RDY")
      case True
      then show ?thesis unfolding R using rm(1) by (subst rq_inv_cong [of _ "ready_list_rm t s"]) (auto simp: e x_def)
    next
      case nr: False
      then have "?R - {t} = ?R" by auto
      then show ?thesis unfolding R using c nr by (subst rq_inv_cong [of _ s]) (auto simp: e x_def)
    qed
    have o: "tasks s2 u = tasks s u" if "u \<noteq> t" for u using that by (simp add: e x_def)
    have b: "blks s2 = blks s" "mutexes s2 = mutexes s" "g_kobj_list s2 = g_kobj_list s"
      "g_tick_count s2 = g_tick_count s" "k_faults s2 = []"
      using rm(2) cs(6) by (simp_all add: e x_def)
    have "g_tick_head s2 = remove1 t (g_tick_head s)"
      using tl nh cs(5) False by (auto simp: e x_def task_ok_def sleeping_def waiting_def)
    moreover have "gone t s s2" by (rule gone_forget [OF refl]) (simp_all add: e x_def same_run_def)
    ultimately show ?thesis
      using detach_idle [OF i T' False o b(1,2) rq] b o by (intro exI [of _ s2]) simp
  qed
  then show "core T' s2" "gone t s s2" "ksys (task_unregister t s2)" "all_tasks (task_unregister t s2) = T'"
    using ksys_drop [OF i T'] by blast+
qed

lemma kinv_task_rm:
  assumes k: "kinv s" and t: "t \<in> all_tasks s" "t \<noteq> g_idle_task"
    and s': "s' = task_unregister t (task_detach t (task_mutex_free t s))"
  shows "kinv s'" "same_run s s'" "all_tasks s' = all_tasks s - {t}"
    "\<And>u. u \<noteq> t \<Longrightarrow> task_state (tasks s u) = K_RDY \<Longrightarrow> task_state (tasks s' u) = K_RDY" "task_state (tasks s' t) = K_DELETED"
proof -
  define s1 where "s1 = task_mutex_free t s"
  define s2 where "s2 = task_detach t s1"
  let ?T = "all_tasks s"
  have ks: "ksys s" using k by (simp add: kinv_def)
  have i: "free_inv t [] s1" and f: "freed t s s1" using task_mutex_free_spec [OF ks t] by (simp_all add: s1_def)
  have T1: "?T - {t} = all_tasks s1 - {t}" using f by (simp add: freed_def)
  note d = task_detach_spec [OF i T1 s2_def]
  have e: "s' = task_unregister t s2" by (simp add: s' s1_def s2_def)
  have v: "tasks s' = tasks s2" "blks s' = blks s2" "sems s' = sems s2" "events s' = events s2" "queues s' = queues s2"
    "buf_queues s' = buf_queues s2" "same_run s2 s'"
    "g_kobj_list s' = (g_kobj_list s2)\<lparr>task_head := remove1 t (task_head (g_kobj_list s2))\<rparr>"
    by (simp_all add: e task_unregister_def same_run_def)
  show "all_tasks s' = ?T - {t}" using d(4) e by simp
  show "same_run s s'" using f d(2) v(7) by (simp add: freed_def gone_def same_run_def)
  show rdy: "task_state (tasks s' u) = K_RDY" if "u \<noteq> t" "task_state (tasks s u) = K_RDY" for u
    using f d(2) that by (simp add: freed_def gone_def v)
  show "task_state (tasks s' t) = K_DELETED" using d(2) by (simp add: gone_def v)
  have w: "set (waiters s2 x) \<subseteq> set (waiters s x)" for x
  proof -
    have "core (all_tasks s1) (upd_task t (\<lambda>x. x\<lparr>mutex_list := []\<rparr>) s1)" using i by (simp add: free_inv_def)
    from core_waiter [OF this] have "u \<in> set (waiters s1 x)"
      if "u \<in> all_tasks s1" "u \<noteq> t" "waiting (tasks s1 u)" "blk_obj (tasks s1 u) = Some x" for u
      using that by (simp add: waiting_def)
    moreover have "u \<in> all_tasks s1 \<and> u \<noteq> t \<and> waiting (tasks s1 u) \<and> blk_obj (tasks s1 u) = Some x"
      if "u \<in> set (waiters s2 x)" for u
      using that core_waiter [OF d(1)] d(2) T1 by (auto simp: gone_def waiting_def)
    ultimately show ?thesis using f by (auto simp: freed_def)
  qed
  show "kinv s'"
    unfolding kinv_def
  proof (intro conjI allI ballI)
    show "ksys s'" using d(3) e by simp
    show "obj_ok s' ob" for ob
    proof (rule obj_ok_mono [OF kinv_obj [OF k, of ob]])
      fix u assume "u \<in> set (waiters s' ob)"
      then have "u \<noteq> t" using core_waiter [OF d(1)] by (simp add: v)
      then show "pend_flags (tasks s' u) = pend_flags (tasks s u) \<and> pend_option (tasks s' u) = pend_option (tasks s u)"
        using f d(2) by (simp add: freed_def gone_def v)
    qed (use f d(2) w in \<open>simp_all add: freed_def gone_def v\<close>)
    show "reg_ok s'" using k f d(2) by (simp add: kinv_def reg_ok_def Let_def freed_def gone_def v)
    show "blk_state (tasks s' u) \<noteq> BLK_INVALID" if "u \<in> all_tasks s'" for u
    proof -
      have "u \<in> ?T" "u \<noteq> t" using that d(4) e by auto
      then show ?thesis using k f d(2) by (simp add: kinv_def freed_def gone_def v)
    qed
  qed
qed

section \<open>Deletion keeps the kernel in order\<close>

lemma krhino_task_del_good:
  assumes g: "good s" and t: "t = (case task of None \<Rightarrow> g_active_task s | Some t \<Rightarrow> t)"
    and live: "t \<in> all_tasks s" and idle: "prio (tasks s t) \<noteq> RHINO_IDLE_PRI"
  shows "good (fst (krhino_task_del task s))"
proof -
  have te: "(case task of None \<Rightarrow> g_active_task (cpu_intrpt_save s) | Some t \<Rightarrow> t) = t" by (simp add: t split: option.split)
  show ?thesis
  proof (cases "g_intrpt_nested_level s > 0 \<or> task_mm_alloc_flag (tasks s t) \<noteq> K_OBJ_STATIC_ALLOC
      \<or> t = g_active_task s \<and> g_sched_lock s > 0")
    case True
    then show ?thesis
      unfolding krhino_task_del_def Let_def te using good_return [OF g refl] idle by auto
  next
    case False
    let ?e = "cpu_intrpt_save s"
    define s' where "s' = task_unregister t (task_detach t (task_mutex_free t ?e))"
    have ti: "t \<noteq> g_idle_task" using idle ksysD(12) [OF goodD(2) [OF g]] by auto
    have "kinv ?e" "t \<in> all_tasks ?e" using goodD(1) [OF g] live by simp_all
    note r = kinv_task_rm [OF this ti s'_def]
    have "ksys ?e" using goodD(2) [OF g] by simp
    from task_mutex_free_spec(2) [OF this _ ti] live
    have "task_state (tasks (task_mutex_free t ?e) t) = task_state (tasks s t)" by (simp add: freed_def)
    moreover have "task_state (tasks s t) \<notin> {K_SEED, K_DELETED}" using ksysD(13) [OF goodD(2) [OF g] live] .
    ultimately have e: "fst (krhino_task_del task s) = RHINO_CRITICAL_EXIT_SCHED (irq_off s) s'"
      unfolding krhino_task_del_def Let_def te using False idle by (auto simp: s'_def)
    show ?thesis unfolding e
    proof (rule good_EXIT_SCHED [OF g r(1)])
      show "same_run s s'" using r(2) by (simp add: same_run_def)
      assume "g_intrpt_nested_level s > 0 \<or> g_sched_lock s > 0"
      then show "g_active_task s \<in> all_tasks s'" using False r(3) goodD(4) [OF g] by auto
    next
      assume "g_sched_lock s > 0"
      then show "task_state (tasks s' (g_active_task s)) = K_RDY" using False r(4) goodD(6) [OF g] by auto
    qed simp
  qed
qed

text \<open>
  \<open>krhino_sem_give\<close> inside the critical section of \<open>krhino_task_dyn_del\<close>, with the scheduler locked: the
  semaphore is counted up or its first waiter is woken, and the caller goes on.
\<close>

lemma kinv_upd_sem:
  assumes k: "kinv s" and sem: "obj_type (blks s sem) = RHINO_SEM_OBJ_TYPE"
    and ok: "sem_ok (f (sems s sem)) (waiters s sem)"
  shows "kinv (upd_sem sem f s)"
  by (rule kinv_payload [OF k, where ob = sem]) (use sem ok in \<open>simp_all add: upd_sem_def obj_ok_def\<close>)

lemma sem_give_locked:
  assumes k: "kinv s" and l: "g_sched_lock s > 0" "irq_off s" "\<not> tspend s"
    and sem: "obj_type (blks s sem) = RHINO_SEM_OBJ_TYPE" "waiters s sem = [] \<Longrightarrow> count (sems s sem) \<noteq> - 1"
    and r: "r = krhino_sem_give (Some sem) s"
  shows "snd r = RHINO_SUCCESS" "kinv (fst r)" "same_run s (fst r)" "irq_off (fst r)" "g_kobj_list (fst r) = g_kobj_list s"
    "\<And>u. task_state (tasks s u) = K_RDY \<Longrightarrow> tasks (fst r) u = tasks s u"
proof -
  let ?e = "cpu_intrpt_save s"
  have ke: "kinv ?e" using k by simp
  have "snd r = RHINO_SUCCESS \<and> kinv (fst r) \<and> same_run s (fst r) \<and> irq_off (fst r) \<and> g_kobj_list (fst r) = g_kobj_list s
    \<and> (\<forall>u. task_state (tasks s u) = K_RDY \<longrightarrow> tasks (fst r) u = tasks s u)"
  proof (cases "waiters s sem = []")
    case True
    define f where "f = (\<lambda>m. if count m + 1 > peak_count m then m\<lparr>count := count m + 1, peak_count := count m + 1\<rparr>
      else (m :: ksem_t)\<lparr>count := count m + 1\<rparr>)"
    have e: "r = (RHINO_CRITICAL_EXIT True (upd_sem sem f ?e), RHINO_SUCCESS)"
      using True sem l(2) by (auto simp: r krhino_sem_give_def sem_give_def Let_def f_def upd_sem_twice upd_sem_sems)
        (auto simp: upd_sem_def)
    have "kinv (upd_sem sem f ?e)"
      using sem True by (intro kinv_upd_sem [OF ke]) (auto simp: f_def sem_ok_def)
    then show ?thesis by (simp add: e same_run_def) (simp add: upd_sem_def cpu_intrpt_restore_def)
  next
    case False
    let ?h = "hd (waiters s sem)"
    have e: "r = (RHINO_CRITICAL_EXIT_SCHED True (pend_task_wakeup ?h ?e), RHINO_SUCCESS)"
      using False sem l(2) by (simp add: r krhino_sem_give_def sem_give_def Let_def)
    have "?h \<in> set (waiters ?e sem)" "obj_type (blks ?e sem) \<noteq> RHINO_MUTEX_OBJ_TYPE" using False sem by simp_all
    note w = kinv_wake [OF ke this]
    have "g_active_task (fst r) = g_active_task s" "tspend (fst r) = tspend s"
      using EXIT_SCHED_stay [of "pend_task_wakeup ?h ?e" True] l
      by (simp_all add: e) (auto simp: RHINO_CRITICAL_EXIT_SCHED_def core_sched_def Let_def cpu_intrpt_restore_def cpu_intrpt_save_def)
    then show ?thesis using kinv_EXIT_SCHED [OF w(1)] w(2) by (simp add: e same_run_def)
  qed
  then show "snd r = RHINO_SUCCESS" "kinv (fst r)" "same_run s (fst r)" "irq_off (fst r)" "g_kobj_list (fst r) = g_kobj_list s"
    "\<And>u. task_state (tasks s u) = K_RDY \<Longrightarrow> tasks (fst r) u = tasks s u" by auto
qed

lemma kinv_lock [simp]: "kinv (s\<lparr>g_sched_lock := n\<rparr>) = kinv s"
  by (rule kinv_view) simp_all

text \<open>
  \<open>dyn_deletes t s\<close>: \<open>krhino_task_dyn_del\<close> passes its checks for the task \<open>t\<close>. \<open>res_sem_ok\<close>: the semaphore of the memory task is
  still there and below its limit; the deletion relies on it and ends in \<open>k_err_proc\<close> otherwise.
\<close>

definition dyn_deletes :: "tid \<Rightarrow> kstate \<Rightarrow> bool" where
  "dyn_deletes t s \<longleftrightarrow> g_intrpt_nested_level s = 0 \<and> prio (tasks s t) \<noteq> RHINO_IDLE_PRI
     \<and> task_mm_alloc_flag (tasks s t) = K_OBJ_DYN_ALLOC \<and> \<not> (t = g_active_task s \<and> g_sched_lock s > 0)
     \<and> task_state (tasks s t) \<noteq> K_DELETED"

definition res_sem_ok :: "kstate \<Rightarrow> bool" where
  "res_sem_ok s \<longleftrightarrow> obj_type (blks s g_res_sem) = RHINO_SEM_OBJ_TYPE \<and> count (sems s g_res_sem) \<noteq> - 1"

lemma krhino_task_dyn_del_report:
  assumes g: "good s" and d: "dyn_deletes (case task of None \<Rightarrow> g_active_task s | Some t \<Rightarrow> t) s" "\<not> res_sem_ok s"
  shows "k_faults (fst (krhino_task_dyn_del task s)) = [KErr RHINO_SYS_SP_ERR]"
    "snd (krhino_task_dyn_del task s) \<noteq> RHINO_SUCCESS"
proof -
  have k0: "k_faults s = []" using ksysD(5) [OF goodD(2) [OF g]] .
  have "waiters s g_res_sem = []" if "obj_type (blks s g_res_sem) = RHINO_SEM_OBJ_TYPE"
  proof -
    have "obj_ok s g_res_sem" using goodD(1) [OF g] by (simp add: kinv_def)
    then show ?thesis using that d(2) by (auto simp: res_sem_ok_def obj_ok_def sem_ok_def)
  qed
  then have w: "obj_type (blks s g_res_sem) \<noteq> RHINO_SEM_OBJ_TYPE \<or> waiters s g_res_sem = [] \<and> count (sems s g_res_sem) = - 1"
    using d(2) by (auto simp: res_sem_ok_def)
  show "k_faults (fst (krhino_task_dyn_del task s)) = [KErr RHINO_SYS_SP_ERR]"
    "snd (krhino_task_dyn_del task s) \<noteq> RHINO_SUCCESS"
    using d(1) w k0
    by (auto simp: krhino_task_dyn_del_def dyn_deletes_def Let_def krhino_sem_give_def sem_give_def k_err_proc_def fault_def split: option.splits)
qed

lemma krhino_task_dyn_del_good:
  assumes g: "good s" and t: "t = (case task of None \<Rightarrow> g_active_task s | Some t \<Rightarrow> t)"
    and live: "t \<in> all_tasks s" and lock: "g_sched_lock s \<noteq> - 1" and res: "dyn_deletes t s \<Longrightarrow> res_sem_ok s"
  shows "good (fst (krhino_task_dyn_del task s))"
proof -
  have te: "(case task of None \<Rightarrow> g_active_task (cpu_intrpt_save s) | Some t \<Rightarrow> t) = t"
    by (simp add: t split: option.split)
  show ?thesis
  proof (cases "g_intrpt_nested_level s > 0 \<or> prio (tasks s t) = RHINO_IDLE_PRI
      \<or> task_mm_alloc_flag (tasks s t) \<noteq> K_OBJ_DYN_ALLOC \<or> t = g_active_task s \<and> g_sched_lock s > 0
      \<or> task_state (tasks s t) = K_DELETED")
    case True
    then show ?thesis
      unfolding krhino_task_dyn_del_def Let_def te using good_return [OF g refl] by auto
  next
    case False
    then have sem: "obj_type (blks s g_res_sem) = RHINO_SEM_OBJ_TYPE" "count (sems s g_res_sem) \<noteq> - 1"
      using res by (auto simp: dyn_deletes_def res_sem_ok_def word_pos)
    define s1 where "s1 = (cpu_intrpt_save s)\<lparr>g_sched_lock := g_sched_lock s + 1,
      g_res_list := g_res_list s @ [task_stack_base (tasks s t)]\<rparr>"
    define r where "r = krhino_sem_give (Some g_res_sem) s1"
    define s3 where "s3 = (fst r)\<lparr>g_sched_lock := g_sched_lock (fst r) - 1\<rparr>"
    define s' where "s' = task_unregister t (task_detach t (task_mutex_free t s3))"
    have n: "g_intrpt_nested_level s = 0" using False by (simp add: word_pos)
    have "g_sched_lock s1 > 0" using lock by (simp add: s1_def word_pos add_eq_0_iff2)
    moreover have "kinv s1"
      unfolding s1_def using goodD(1) [OF g] by (subst kinv_view [of _ "cpu_intrpt_save s"]) (simp_all add: sysview_def)
    moreover have "irq_off s1" "\<not> tspend s1" using goodD(7) [OF g n] by (simp_all add: s1_def)
    ultimately have gv: "snd r = RHINO_SUCCESS" "kinv (fst r)" "same_run s1 (fst r)" "g_kobj_list (fst r) = g_kobj_list s1"
        "\<And>u. task_state (tasks s1 u) = K_RDY \<Longrightarrow> tasks (fst r) u = tasks s1 u"
      using sem_give_locked [OF _ _ _ _ _ _ r_def] sem by (simp_all add: s1_def)
    have ti: "t \<noteq> g_idle_task" using False ksysD(12) [OF goodD(2) [OF g]] by auto
    have "kinv s3" "t \<in> all_tasks s3" using gv(2,4) live by (simp_all add: s3_def s1_def)
    note d = kinv_task_rm [OF this ti s'_def]
    have sr: "same_run s s'" using d(2) gv(3) by (simp add: same_run_def s3_def s1_def)
    have T: "all_tasks s' = all_tasks s - {t}" using d(3) gv(4) by (simp add: s3_def s1_def)
    have e: "fst (krhino_task_dyn_del task s) = RHINO_CRITICAL_EXIT_SCHED (irq_off s) s'"
      unfolding krhino_task_dyn_del_def Let_def te using False gv(1)
      by (cases r) (auto simp: s1_def [symmetric] r_def [symmetric] s'_def s3_def)
    show ?thesis unfolding e
    proof (rule good_EXIT_SCHED [OF g d(1) sr])
      assume "g_intrpt_nested_level s > 0 \<or> g_sched_lock s > 0"
      then show "g_active_task s \<in> all_tasks s'" using False T goodD(4) [OF g] by auto
    next
      assume l: "g_sched_lock s > 0"
      then have "task_state (tasks s (g_active_task s)) = K_RDY" "g_active_task s \<noteq> t" using False goodD(6) [OF g] by auto
      then show "task_state (tasks s' (g_active_task s)) = K_RDY"
        using d(4) [of "g_active_task s"] gv(5) [of "g_active_task s"] by (simp add: s3_def s1_def)
    qed simp
  qed
qed

lemma krhino_task_deathbed_good:
  assumes g: "good s" and idle: "prio (tasks s (g_active_task s)) \<noteq> RHINO_IDLE_PRI" and lock: "g_sched_lock s \<noteq> - 1"
    and res: "dyn_deletes (g_active_task s) s \<Longrightarrow> res_sem_ok s"
  shows "good (krhino_task_deathbed s)"
proof -
  let ?s = "RHINO_CRITICAL_EXIT (irq_off s) (RHINO_CRITICAL_ENTER s)"
  have gs: "good ?s" using good_return [OF g refl] .
  have a: "g_active_task ?s = g_active_task s"
    using goodD(7) [OF g] by (auto simp: cpu_intrpt_restore_def cpu_intrpt_save_def)
  then show ?thesis
    using krhino_task_dyn_del_good [OF gs, of "g_active_task s" None] krhino_task_del_good [OF gs, of "g_active_task s" None]
      goodD(4) [OF g] idle lock res
    by (simp add: dyn_deletes_def res_sem_ok_def krhino_task_deathbed_def krhino_cur_task_get_def Let_def)
qed

section \<open>Freeing the memory of deleted tasks\<close>

lemma kinv_res_list [simp]: "kinv (s\<lparr>g_res_list := l\<rparr>) = kinv s"
  by (rule kinv_view) simp_all

lemma res_free_one_good: "good s \<Longrightarrow> good (fst (res_free_one s))"
proof -
  assume g: "good s"
  have "good (RHINO_CRITICAL_EXIT (irq_off s) ((RHINO_CRITICAL_ENTER s)\<lparr>g_res_list := rs\<rparr>))" for rs
    using goodD(1,4) [OF g] by (intro good_EXIT [OF g]) (simp_all add: same_run_def)
  then show ?thesis
    using good_return [OF g refl] by (simp add: res_free_one_def Let_def krhino_mm_free_good split: list.split)
qed

text \<open>The loop ends, in order and with the list empty, and has freed what the list named, in that order.\<close>

lemma res_free_loop_spec:
  assumes "good s" "length (g_res_list s) < n"
  shows "good (res_free_loop n s) \<and> g_res_list (res_free_loop n s) = []
    \<and> mm_freed (res_free_loop n s) = mm_freed s @ g_res_list s"
  using assms
proof (induction n arbitrary: s)
  case (Suc n)
  show ?case
  proof (cases "g_res_list s")
    case Nil
    then show ?thesis using good_return [OF Suc.prems(1) refl] by (simp add: res_free_one_def Let_def)
  next
    case (Cons r rs)
    let ?s = "fst (res_free_one s)"
    have e: "res_free_one s = (?s, True)" "g_res_list ?s = rs" "mm_freed ?s = mm_freed s @ [r]"
      using Cons by (simp_all add: res_free_one_def Let_def krhino_mm_free_def)
    have "res_free_loop (Suc n) s = res_free_loop n ?s" unfolding res_free_loop.simps by (subst e(1)) simp
    then show ?thesis
      using Suc.IH [of ?s] res_free_one_good [OF Suc.prems(1)] Suc.prems(2) Cons e(2,3) by simp
  qed
qed simp

end
