(* ===== verification/Event.thy ===== *)
theory Event
  imports Sem
begin

unbundle bit_operations_syntax

text \<open>
  Event flags, \<^verbatim>\<open>core/k_event.c\<close>. A task waits for all or for any of a set of flags and may ask that
  they are cleared when it gets them. The cell \<open>*actl_flags\<close> of a waiting task is the field
  \<open>pend_info\<close> of the task; \<open>krhino_event_get\<close> returns its value when it does not block.
\<close>

section \<open>The code\<close>

definition RHINO_AND :: u8 where "RHINO_AND = 0x02"
definition RHINO_AND_CLEAR :: u8 where "RHINO_AND_CLEAR = 0x03"
definition RHINO_OR :: u8 where "RHINO_OR = 0x00"
definition RHINO_OR_CLEAR :: u8 where "RHINO_OR_CLEAR = 0x01"

definition upd_event :: "oid \<Rightarrow> (kevent_t \<Rightarrow> kevent_t) \<Rightarrow> kstate \<Rightarrow> kstate" where
  "upd_event ev f s = s\<lparr>events := (events s)(ev := f (events s ev))\<rparr>"

definition event_create :: "oid option \<Rightarrow> string option \<Rightarrow> u32 \<Rightarrow> mm_alloc_flag_t \<Rightarrow> kstate \<Rightarrow> kstate \<times> kstat" where
  "event_create ev name fl mm_alloc_flag s = (case (ev, name) of
     (Some ev, Some name) \<Rightarrow>
       (let s1 = upd_blk ev (\<lambda>b. b\<lparr>blk_list := [], blk_policy := BLK_POLICY_PRI\<rparr>) s;
            s2 = upd_event ev (\<lambda>e. e\<lparr>flags := fl, event_mm_alloc_flag := mm_alloc_flag\<rparr>) s1;
            psr = irq_off s2; s3 = RHINO_CRITICAL_ENTER s2;
            s4 = s3\<lparr>g_kobj_list := (g_kobj_list s3)\<lparr>event_head := event_head (g_kobj_list s3) @ [ev]\<rparr>\<rparr>;
            s5 = RHINO_CRITICAL_EXIT psr s4
        in (upd_blk ev (\<lambda>b. b\<lparr>obj_type := RHINO_EVENT_OBJ_TYPE\<rparr>) s5, RHINO_SUCCESS))
   | _ \<Rightarrow> (s, RHINO_NULL_PTR))"

definition krhino_event_create :: "oid option \<Rightarrow> string option \<Rightarrow> u32 \<Rightarrow> kstate \<Rightarrow> kstate \<times> kstat" where
  "krhino_event_create ev name fl s = event_create ev name fl K_OBJ_STATIC_ALLOC s"

definition event_unlink :: "oid \<Rightarrow> kstate \<Rightarrow> kstate" where
  "event_unlink ev s = (let s1 = upd_event ev (\<lambda>e. e\<lparr>flags := 0\<rparr>) (obj_unlink ev s) in
     s1\<lparr>g_kobj_list := (g_kobj_list s1)\<lparr>event_head := remove1 ev (event_head (g_kobj_list s1))\<rparr>\<rparr>)"

definition krhino_event_del :: "oid option \<Rightarrow> kstate \<Rightarrow> kstate \<times> kstat" where
  "krhino_event_del ev s = (case ev of None \<Rightarrow> (s, RHINO_NULL_PTR) | Some ev \<Rightarrow>
     (let psr = irq_off s; s0 = RHINO_CRITICAL_ENTER s in
      if g_intrpt_nested_level s0 > 0 then (RHINO_CRITICAL_EXIT psr s0, RHINO_NOT_CALLED_BY_INTRPT)
      else if obj_type (blks s0 ev) \<noteq> RHINO_EVENT_OBJ_TYPE
      then (RHINO_CRITICAL_EXIT psr s0, RHINO_KOBJ_TYPE_ERR)
      else if event_mm_alloc_flag (events s0 ev) \<noteq> K_OBJ_STATIC_ALLOC
      then (RHINO_CRITICAL_EXIT psr s0, RHINO_KOBJ_DEL_ERR)
      else (RHINO_CRITICAL_EXIT_SCHED psr (event_unlink ev s0), RHINO_SUCCESS)))"

definition krhino_event_dyn_create ::
  "bool \<Rightarrow> oid option \<Rightarrow> string option \<Rightarrow> u32 \<Rightarrow> kstate \<Rightarrow> kstate \<times> kstat \<times> oid option" where
  "krhino_event_dyn_create event_out alloc name fl s =
     (if \<not> event_out then (s, RHINO_NULL_PTR, None)
      else case alloc of
        None \<Rightarrow> (s, RHINO_NO_MEM, None)
      | Some event_obj \<Rightarrow>
          (case event_create (Some event_obj) name fl K_OBJ_DYN_ALLOC s of (s1, stat) \<Rightarrow>
             if stat \<noteq> RHINO_SUCCESS then (krhino_mm_free event_obj s1, stat, None)
             else (s1, stat, Some event_obj)))"

definition krhino_event_dyn_del :: "oid option \<Rightarrow> kstate \<Rightarrow> kstate \<times> kstat" where
  "krhino_event_dyn_del ev s = (case ev of None \<Rightarrow> (s, RHINO_NULL_PTR) | Some ev \<Rightarrow>
     (let psr = irq_off s; s0 = RHINO_CRITICAL_ENTER s in
      if g_intrpt_nested_level s0 > 0 then (RHINO_CRITICAL_EXIT psr s0, RHINO_NOT_CALLED_BY_INTRPT)
      else if obj_type (blks s0 ev) \<noteq> RHINO_EVENT_OBJ_TYPE
      then (RHINO_CRITICAL_EXIT psr s0, RHINO_KOBJ_TYPE_ERR)
      else if event_mm_alloc_flag (events s0 ev) \<noteq> K_OBJ_DYN_ALLOC
      then (RHINO_CRITICAL_EXIT psr s0, RHINO_KOBJ_DEL_ERR)
      else (krhino_mm_free ev (RHINO_CRITICAL_EXIT_SCHED psr (event_unlink ev s0)), RHINO_SUCCESS)))"

definition no_event_opt :: "u8 \<Rightarrow> bool" where
  "no_event_opt opt \<longleftrightarrow>
     opt \<noteq> RHINO_AND \<and> opt \<noteq> RHINO_OR \<and> opt \<noteq> RHINO_AND_CLEAR \<and> opt \<noteq> RHINO_OR_CLEAR"

definition krhino_event_get ::
  "oid option \<Rightarrow> u32 \<Rightarrow> u8 \<Rightarrow> bool \<Rightarrow> u64 \<Rightarrow> kstate \<Rightarrow> kstate \<times> kret \<times> u32 option" where
  "krhino_event_get ev fl opt actl_out ticks s = (case ev of
     None \<Rightarrow> (s, Ret RHINO_NULL_PTR, None)
   | Some ev \<Rightarrow>
     if \<not> actl_out then (s, Ret RHINO_NULL_PTR, None)
     else if no_event_opt opt then (s, Ret RHINO_NO_THIS_EVENT_OPT, None)
     else (let psr = irq_off s; s0 = RHINO_CRITICAL_ENTER s in
      if g_intrpt_nested_level s0 > 0
      then (RHINO_CRITICAL_EXIT psr s0, Ret RHINO_NOT_CALLED_BY_INTRPT, None)
      else if obj_type (blks s0 ev) \<noteq> RHINO_EVENT_OBJ_TYPE
      then (RHINO_CRITICAL_EXIT psr s0, Ret RHINO_KOBJ_TYPE_ERR, None)
      else if flags_met (flags (events s0 ev)) fl opt then
        (let actl = flags (events s0 ev);
             s1 = (if opt AND RHINO_FLAGS_CLEAR_MASK \<noteq> 0
                   then upd_event ev (\<lambda>e. e\<lparr>flags := flags e AND NOT fl\<rparr>) s0 else s0)
         in (RHINO_CRITICAL_EXIT psr s1, Ret RHINO_SUCCESS, Some actl))
      else if ticks = RHINO_NO_WAIT then (RHINO_CRITICAL_EXIT psr s0, Ret RHINO_NO_PEND_WAIT, None)
      else if g_sched_lock s0 > 0 then (RHINO_CRITICAL_EXIT psr s0, Ret RHINO_SCHED_DISABLE, None)
      else (let s1 = upd_task (g_active_task s0) (\<lambda>t. t\<lparr>pend_option := opt, pend_flags := fl\<rparr>) s0
            in case block_return (g_active_task s0)
                 (RHINO_CRITICAL_EXIT_SCHED psr (pend_to_blk_obj ev (g_active_task s0) ticks s1))
               of (s2, r) \<Rightarrow> (s2, r, None))))"

text \<open>
  The walk over the waiters: \<open>cur\<close> is \<open>cur_event_flags\<close>, read once before the loop; the list is the
  one at the start, since the loop takes the successor before it wakes a task.
\<close>

fun event_scan :: "oid \<Rightarrow> u32 \<Rightarrow> tid list \<Rightarrow> kstate \<Rightarrow> kstate" where
  "event_scan ev cur [] s = s"
| "event_scan ev cur (task # rest) s =
     (if flags_met cur (pend_flags (tasks s task)) (pend_option (tasks s task)) then
        (let s1 = upd_task task (\<lambda>t. t\<lparr>pend_info := cur\<rparr>) s;
             s2 = pend_task_wakeup task s1;
             s3 = (if pend_option (tasks s2 task) AND RHINO_FLAGS_CLEAR_MASK \<noteq> 0
                   then upd_event ev (\<lambda>e. e\<lparr>flags := flags e AND NOT (pend_flags (tasks s2 task))\<rparr>) s2
                   else s2)
         in event_scan ev cur rest s3)
      else event_scan ev cur rest s)"

definition event_set :: "oid \<Rightarrow> u32 \<Rightarrow> u8 \<Rightarrow> kstate \<Rightarrow> kstate \<times> kstat" where
  "event_set ev fl opt s = (let psr = irq_off s; s0 = RHINO_CRITICAL_ENTER s in
     if obj_type (blks s0 ev) \<noteq> RHINO_EVENT_OBJ_TYPE
     then (RHINO_CRITICAL_EXIT psr s0, RHINO_KOBJ_TYPE_ERR)
     else if opt AND RHINO_FLAGS_AND_MASK \<noteq> 0
     then (RHINO_CRITICAL_EXIT psr (upd_event ev (\<lambda>e. e\<lparr>flags := flags e AND fl\<rparr>) s0), RHINO_SUCCESS)
     else (let s1 = upd_event ev (\<lambda>e. e\<lparr>flags := flags e OR fl\<rparr>) s0
           in (RHINO_CRITICAL_EXIT_SCHED psr (event_scan ev (flags (events s1 ev)) (waiters s1 ev) s1),
               RHINO_SUCCESS)))"

definition krhino_event_set :: "oid option \<Rightarrow> u32 \<Rightarrow> u8 \<Rightarrow> kstate \<Rightarrow> kstate \<times> kstat" where
  "krhino_event_set ev fl opt s = (case ev of None \<Rightarrow> (s, RHINO_NULL_PTR) | Some ev \<Rightarrow>
     if opt \<noteq> RHINO_AND \<and> opt \<noteq> RHINO_OR then (s, RHINO_NO_THIS_EVENT_OPT) else event_set ev fl opt s)"

section \<open>Every call keeps the kernel in order\<close>

lemma event_create_good:
  assumes "good s" "\<And>ob. ev = Some ob \<Longrightarrow> obj_type (blks s ob) = RHINO_OBJ_TYPE_NONE"
  shows "good (fst (event_create ev name fl mf s))"
proof (cases "\<exists>ob n. ev = Some ob \<and> name = Some n")
  case True
  then obtain ob n where e: "ev = Some ob" "name = Some n" by blast
  let ?s = "fst (event_create ev name fl mf s)"
  have ty: "obj_type (blks s ob) = RHINO_OBJ_TYPE_NONE" using assms(2) e by simp
  have bk: "blks ?s = (blks s)(ob := (blks s ob)\<lparr>blk_list := [], blk_policy := BLK_POLICY_PRI,
      obj_type := RHINO_EVENT_OBJ_TYPE\<rparr>)"
    by (simp add: event_create_def e Let_def upd_blk_def upd_event_def)
  have kl: "g_kobj_list ?s = (g_kobj_list s)\<lparr>event_head := event_head (g_kobj_list s) @ [ob]\<rparr>"
    by (simp add: event_create_def e Let_def upd_blk_def upd_event_def)
  have "reg_ok ?s"
    by (rule reg_ok_swap [where f = "\<lambda>g. g\<lparr>event_head := event_head g @ [ob]\<rparr>" and ob = ob
          and ty = RHINO_EVENT_OBJ_TYPE])
       (use goodD(1) [OF assms(1)] kl bk ty in \<open>auto simp: kinv_def\<close>)
  moreover have "obj_ok ?s ob"
    by (simp add: event_create_def e Let_def upd_blk_def upd_event_def obj_ok_def event_ok_def)
  moreover have "same_run s ?s"
    using goodD(7) [OF assms(1)]
    by (simp add: event_create_def e Let_def upd_blk_def upd_event_def same_run_def cpu_intrpt_restore_def
        tspend_handler_def cpu_intrpt_save_def)
  ultimately show ?thesis
    by (intro good_create [OF assms(1) _ ty bk]) (simp_all add: event_create_def e Let_def upd_event_def)
next
  case False
  then show ?thesis using assms(1) by (auto simp: event_create_def split: option.split)
qed

lemma krhino_event_dyn_create_good:
  assumes "good s" "\<And>ob. alloc = Some ob \<Longrightarrow> obj_type (blks s ob) = RHINO_OBJ_TYPE_NONE"
  shows "good (fst (krhino_event_dyn_create out alloc name fl s))"
  using assms event_create_good [OF assms(1), of alloc name fl K_OBJ_DYN_ALLOC]
  by (auto simp: krhino_event_dyn_create_def krhino_mm_free_good split: option.split prod.split)

lemma event_unlink_good:
  assumes g: "good s" and ty: "obj_type (blks s ob) = RHINO_EVENT_OBJ_TYPE" and psr: "psr = irq_off s"
  shows "good (RHINO_CRITICAL_EXIT_SCHED psr (event_unlink ob (RHINO_CRITICAL_ENTER s)))"
proof -
  let ?e = "RHINO_CRITICAL_ENTER s"
  have k: "kinv ?e" "obj_type (blks ?e ob) \<noteq> RHINO_MUTEX_OBJ_TYPE" using goodD(1) [OF g] ty by simp_all
  note u = obj_unlink_spec [OF k]
  have "reg_ok (event_unlink ob ?e)"
    by (rule reg_ok_swap [where s = ?e and f = "\<lambda>g. g\<lparr>event_head := remove1 ob (event_head g)\<rparr>" and ob = ob
          and ty = RHINO_OBJ_TYPE_NONE])
       (use k(1) u(4,7) ty in \<open>auto simp: kinv_def event_unlink_def upd_event_def Let_def\<close>)
  then show ?thesis
    by (intro good_delete [OF g _ psr refl])
       (use ty in \<open>auto simp: event_unlink_def upd_event_def Let_def sysview_def same_run_def\<close>)
qed

lemma krhino_event_del_good: "good s \<Longrightarrow> good (fst (krhino_event_del ev s))"
  by (simp add: krhino_event_del_def Let_def good_return event_unlink_good split: option.split)

lemma krhino_event_dyn_del_good: "good s \<Longrightarrow> good (fst (krhino_event_dyn_del ev s))"
  by (simp add: krhino_event_dyn_del_def Let_def good_return event_unlink_good krhino_mm_free_good
      split: option.split)

lemma good_upd_event:
  assumes g: "good s" and ty: "obj_type (blks s ev) = RHINO_EVENT_OBJ_TYPE"
    and ok: "event_ok s (f (events s ev)) (waiters s ev)" and psr: "psr = irq_off s"
  shows "good (RHINO_CRITICAL_EXIT psr (upd_event ev f (RHINO_CRITICAL_ENTER s)))"
proof (rule good_payload [OF g])
  let ?s = "upd_event ev f (RHINO_CRITICAL_ENTER s)"
  show "same_tasks s ?s" by (simp add: same_tasks_def upd_event_def)
  show "same_run s ?s" by (simp add: same_run_def upd_event_def)
  show "obj_ok ?s ev" using ty ok by (simp add: obj_ok_def upd_event_def event_ok_def)
qed (simp_all add: psr upd_event_def)

text \<open>Clearing flags never satisfies a waiting task.\<close>

lemma flags_met_less:
  assumes "\<not> flags_met a want opt" "b = a AND m"
  shows "\<not> flags_met b want opt"
proof
  assume met: "flags_met b want opt"
  have ab: "b AND want = (a AND want) AND m" by (simp add: assms(2) ac_simps)
  show False
  proof (cases "opt AND RHINO_FLAGS_AND_MASK \<noteq> 0")
    case True
    then have "want = (a AND want) AND m" using met ab by (simp add: flags_met_def)
    then have "a AND want = want" by (metis and.assoc and.left_idem)
    then show ?thesis using True assms(1) by (simp add: flags_met_def)
  next
    case False
    then show ?thesis using met ab assms(1) by (auto simp: flags_met_def word_pos)
  qed
qed

lemma event_obj_ok:
  "kinv s \<Longrightarrow> obj_type (blks s ev) = RHINO_EVENT_OBJ_TYPE \<Longrightarrow> event_ok s (events s ev) (waiters s ev)"
  using kinv_obj [of s ev] by (simp add: obj_ok_def)

text \<open>
  The walk of \<open>event_set\<close>. \<open>scan_inv\<close> holds before each waiter: those passed are not satisfied by
  \<open>cur\<close>, and the event's flags are part of \<open>cur\<close>.
\<close>

definition scan_inv :: "oid \<Rightarrow> u32 \<Rightarrow> tid list \<Rightarrow> kstate \<Rightarrow> bool" where
  "scan_inv ev cur rest s \<longleftrightarrow> ksys s \<and> reg_ok s \<and> obj_type (blks s ev) = RHINO_EVENT_OBJ_TYPE
     \<and> (\<forall>x. x \<noteq> ev \<longrightarrow> obj_ok s x) \<and> (\<forall>t\<in>all_tasks s. blk_state (tasks s t) \<noteq> BLK_INVALID)
     \<and> distinct rest \<and> set rest \<subseteq> set (waiters s ev)
     \<and> (\<forall>t \<in> set (waiters s ev) - set rest. \<not> flags_met cur (pend_flags (tasks s t)) (pend_option (tasks s t)))
     \<and> (\<exists>m. flags (events s ev) = cur AND m)"

lemma scan_inv_wake:
  assumes inv: "scan_inv ev cur (t # rest) s"
    and s2: "s2 = pend_task_wakeup t (upd_task t (\<lambda>t. t\<lparr>pend_info := cur\<rparr>) s)"
    and s3: "s3 = s2 \<or> (\<exists>m. s3 = upd_event ev (\<lambda>e. e\<lparr>flags := flags e AND m\<rparr>) s2)"
  shows "scan_inv ev cur rest s3" "same_run s s3" "g_kobj_list s3 = g_kobj_list s"
    "\<And>u. task_state (tasks s u) = K_RDY \<Longrightarrow> task_state (tasks s3 u) = K_RDY"
proof -
  let ?s1 = "upd_task t (\<lambda>t. t\<lparr>pend_info := cur\<rparr>) s"
  have v: "sysview ?s1 = sysview s" by (rule sysview_upd_task) (simp add: task_view_def)
  have k1: "ksys ?s1" using inv ksys_view [OF v] by (simp add: scan_inv_def)
  have t1: "t \<in> set (waiters ?s1 ev)" "obj_type (blks ?s1 ev) \<noteq> RHINO_MUTEX_OBJ_TYPE"
    using inv by (simp_all add: scan_inv_def)
  have w: "waiting (tasks ?s1 t)" using ksys_waiter(2) [OF k1 t1(1)] .
  note f = wakeup.wake_fields [OF w, folded s2] and tk = wakeup.wake_task [OF w, folded s2]
  have k2: "ksys s2" unfolding s2 by (rule wakeup.ksys_wake [OF k1 t1])
  have e3: "blks s3 = blks s2" "tasks s3 = tasks s2" "g_kobj_list s3 = g_kobj_list s2" "sysview s3 = sysview s2"
    "sems s3 = sems s" "queues s3 = queues s" "buf_queues s3 = buf_queues s"
    "\<And>x. x \<noteq> ev \<Longrightarrow> events s3 x = events s x"
    "\<exists>m. flags (events s3 ev) = cur AND m"
  proof -
    have s2f: "sems s2 = sems s" "queues s2 = queues s" "buf_queues s2 = buf_queues s" "events s2 = events s"
      by (simp_all add: s2)
    show "blks s3 = blks s2" "tasks s3 = tasks s2" "g_kobj_list s3 = g_kobj_list s2" "sysview s3 = sysview s2"
      "sems s3 = sems s" "queues s3 = queues s" "buf_queues s3 = buf_queues s"
      "\<And>x. x \<noteq> ev \<Longrightarrow> events s3 x = events s x"
      using s3 s2f by (auto simp: upd_event_def)
    obtain m where m: "flags (events s ev) = cur AND m" using inv by (auto simp: scan_inv_def)
    show "\<exists>m. flags (events s3 ev) = cur AND m"
      using s3 s2f m by (auto simp: upd_event_def and.assoc)
  qed
  have wt: "waiters s3 x = (if x = ev then remove1 t (waiters s ev) else waiters s x)" for x
    using f(1) [of x] e3(1) wakeup.wake_waiters_other [OF k1 t1(1), of x] by (simp add: s2)
  have dt: "distinct (waiters s ev)" using inv ksysD(7) wait_inv_distinct by (auto simp: scan_inv_def)
  show "g_kobj_list s3 = g_kobj_list s" using e3(3) by (simp add: s2)
  have pf: "pend_flags (tasks s3 u) = pend_flags (tasks s u)" "pend_option (tasks s3 u) = pend_option (tasks s u)" for u
    using e3(2) by (simp_all add: s2)
  show "scan_inv ev cur rest s3"
    unfolding scan_inv_def
  proof (intro conjI allI ballI impI)
    show "ksys s3" using k2 ksys_view [OF e3(4)] by simp
    show "reg_ok s3"
      using inv reg_ok_cong [of s3 s] e3(1,3) f(2) by (simp add: scan_inv_def s2)
    show "obj_type (blks s3 ev) = RHINO_EVENT_OBJ_TYPE" using inv e3(1) f(2) by (simp add: scan_inv_def)
    show "obj_ok s3 x" if "x \<noteq> ev" for x
    proof (rule obj_ok_mono [of s])
      show "obj_ok s x" using inv that by (simp add: scan_inv_def)
    qed (use that e3 f(2) wt pf in simp_all)
    show "blk_state (tasks s3 u) \<noteq> BLK_INVALID" if "u \<in> all_tasks s3" for u
      using inv that e3(2,3) tk by (simp add: scan_inv_def s2)
    show "distinct rest" using inv by (simp add: scan_inv_def)
    show "set rest \<subseteq> set (waiters s3 ev)" using inv wt dt by (auto simp: scan_inv_def)
    show "\<exists>m. flags (events s3 ev) = cur AND m" by (rule e3(9))
    fix u assume "u \<in> set (waiters s3 ev) - set rest"
    then have "u \<in> set (waiters s ev) - set (t # rest)" using wt dt by auto
    then show "\<not> flags_met cur (pend_flags (tasks s3 u)) (pend_option (tasks s3 u))"
      using inv pf by (simp add: scan_inv_def)
  qed
  show "same_run s s3" using s3 by (auto simp: same_run_def s2 upd_event_def)
  show "task_state (tasks s3 u) = K_RDY" if "task_state (tasks s u) = K_RDY" for u
    using that e3(2) tk w by (auto simp: waiting_def)
qed

lemma event_scan_inv:
  assumes "scan_inv ev cur rest s"
  shows "scan_inv ev cur [] (event_scan ev cur rest s) \<and> same_run s (event_scan ev cur rest s)
    \<and> g_kobj_list (event_scan ev cur rest s) = g_kobj_list s
    \<and> (\<forall>u. task_state (tasks s u) = K_RDY \<longrightarrow> task_state (tasks (event_scan ev cur rest s) u) = K_RDY)"
  using assms
proof (induction rest arbitrary: s)
  case (Cons t rest)
  show ?case
  proof (cases "flags_met cur (pend_flags (tasks s t)) (pend_option (tasks s t))")
    case True
    define s2 where "s2 = pend_task_wakeup t (upd_task t (\<lambda>t. t\<lparr>pend_info := cur\<rparr>) s)"
    define s3 where "s3 = (if pend_option (tasks s2 t) AND RHINO_FLAGS_CLEAR_MASK \<noteq> 0
      then upd_event ev (\<lambda>e. e\<lparr>flags := flags e AND NOT (pend_flags (tasks s2 t))\<rparr>) s2 else s2)"
    have "s3 = s2 \<or> (\<exists>m. s3 = upd_event ev (\<lambda>e. e\<lparr>flags := flags e AND m\<rparr>) s2)"
      by (auto simp: s3_def)
    note st = scan_inv_wake [OF Cons.prems s2_def this]
    have e: "event_scan ev cur (t # rest) s = event_scan ev cur rest s3"
      using True by (simp only: event_scan.simps if_True Let_def s3_def s2_def)
    show ?thesis using Cons.IH [OF st(1)] st unfolding e by (auto simp: same_run_def)
  next
    case False
    have "scan_inv ev cur rest s" using Cons.prems False by (auto simp: scan_inv_def)
    from Cons.IH [OF this] False show ?thesis by simp
  qed
qed (simp add: same_run_def)

lemma scan_inv_end: "scan_inv ev cur [] s \<Longrightarrow> kinv s"
proof -
  assume i: "scan_inv ev cur [] s"
  then obtain m where m: "flags (events s ev) = cur AND m" by (auto simp: scan_inv_def)
  have "obj_ok s ev"
    using i flags_met_less [OF _ m] by (auto simp: scan_inv_def obj_ok_def event_ok_def)
  then show "kinv s" using i by (intro kinv_one_object [where ob = ev]) (auto simp: scan_inv_def)
qed

lemma event_set_good:
  assumes g: "good s"
  shows "good (fst (event_set ev fl opt s))"
proof (cases "obj_type (blks s ev) = RHINO_EVENT_OBJ_TYPE")
  case ty: True
  let ?e = "RHINO_CRITICAL_ENTER s"
  have ok: "event_ok s (events s ev) (waiters s ev)" using event_obj_ok [OF goodD(1) [OF g] ty] .
  have "good (RHINO_CRITICAL_EXIT (irq_off s) (upd_event ev (\<lambda>e. e\<lparr>flags := flags e AND fl\<rparr>) ?e))"
    using ok flags_met_less by (intro good_upd_event [OF g ty]) (fastforce simp: event_ok_def)+
  moreover have "good (RHINO_CRITICAL_EXIT_SCHED (irq_off s) (event_scan ev cur (waiters s ev) s1))"
    if s1: "s1 = upd_event ev (\<lambda>e. e\<lparr>flags := flags e OR fl\<rparr>) ?e" and cur: "cur = flags (events s1 ev)" for s1 cur
  proof -
    have v: "sysview s1 = sysview s" "tasks s1 = tasks s" "g_kobj_list s1 = g_kobj_list s" "blks s1 = blks s"
      "\<And>x. x \<noteq> ev \<Longrightarrow> events s1 x = events s x"
      by (auto simp: s1 upd_event_def)
    have "scan_inv ev cur (waiters s ev) s1"
      unfolding scan_inv_def
    proof (intro conjI allI ballI impI)
      show "ksys s1" using goodD(2) [OF g] ksys_view [OF v(1)] by simp
      show "reg_ok s1" using goodD(1) [OF g] reg_ok_cong [of s1 s] v by (simp add: kinv_def)
      show "obj_ok s1 x" if "x \<noteq> ev" for x
        by (rule obj_ok_mono [OF kinv_obj [OF goodD(1) [OF g], of x]]) (use v that in \<open>simp_all add: s1 upd_event_def\<close>)
      show "distinct (waiters s ev)" using ksysD(7) [OF goodD(2) [OF g]] wait_inv_distinct by blast
      show "\<exists>m. flags (events s1 ev) = cur AND m" using cur by (metis and.idem)
    qed (use ty v goodD(1) [OF g] in \<open>auto simp: kinv_def\<close>)
    from event_scan_inv [OF this] scan_inv_end show ?thesis
      using g goodD(4,6) [OF g] v by (intro good_EXIT_SCHED [of s]) (auto simp: same_run_def s1 upd_event_def)
  qed
  ultimately show ?thesis using g ty by (simp add: event_set_def Let_def upd_event_def)
qed (use g in \<open>simp add: event_set_def Let_def good_return\<close>)

lemma krhino_event_set_good: "good s \<Longrightarrow> good (fst (krhino_event_set ev fl opt s))"
  by (simp add: krhino_event_set_def event_set_good split: option.split)

lemma krhino_event_get_good:
  assumes g: "good s" and idle: "g_active_task s \<noteq> g_idle_task"
  shows "good (fst (krhino_event_get ev fl opt out ticks s))"
proof (cases ev)
  case (Some ob)
  let ?e = "RHINO_CRITICAL_ENTER s" and ?t = "g_active_task s"
  let ?s1 = "upd_task ?t (\<lambda>t. t\<lparr>pend_option := opt, pend_flags := fl\<rparr>) ?e"
  have clr: "good (RHINO_CRITICAL_EXIT (irq_off s) (upd_event ob (\<lambda>e. e\<lparr>flags := flags e AND NOT fl\<rparr>) ?e))"
    if "obj_type (blks s ob) = RHINO_EVENT_OBJ_TYPE"
    using event_obj_ok [OF goodD(1) [OF g] that] flags_met_less
    by (intro good_upd_event [OF g that]) (fastforce simp: event_ok_def)+
  have blk: "good (RHINO_CRITICAL_EXIT_SCHED (irq_off s) (pend_to_blk_obj ob ?t ticks
      ?s1))"
    if ty: "obj_type (blks s ob) = RHINO_EVENT_OBJ_TYPE" and m: "\<not> flags_met (flags (events s ob)) fl opt"
      and n: "g_intrpt_nested_level s = 0" "g_sched_lock s = 0"
  proof (rule good_block [OF g _ _ _ n idle])
    have v: "sysview ?s1 = sysview ?e" by (rule sysview_upd_task) (simp add: task_view_def)
    then show "sysview ?s1 = sysview s" by simp
    have "?t \<notin> set (waiters s x)" for x
      using ksys_waiter(2) [OF goodD(2) [OF g], of ?t x] goodD(5) [OF g n(1)] by (auto simp: waiting_def)
    then have nw: "u \<noteq> ?t" if "u \<in> set (waiters s x)" for u x using that by blast
    show "kinv ?s1"
      unfolding kinv_def
    proof (intro conjI allI ballI)
      show "ksys ?s1" using ksys_view [OF v] goodD(2) [OF g] by simp
      show "obj_ok ?s1 x" for x
        by (rule obj_ok_mono [OF kinv_obj [OF goodD(1) [OF g], of x]]) (use nw in auto)
    qed (use goodD(1) [OF g] reg_ok_cong [of ?s1 s] in \<open>auto simp: kinv_def\<close>)
    show "obj_ok (pend_to_blk_obj ob ?t ticks ?s1) ob"
      using ty m event_obj_ok [OF goodD(1) [OF g] ty] nw
      by (auto simp: obj_ok_def event_ok_def pend_to_blk_obj_waiters)
  qed (use ty in \<open>simp_all add: same_run_def\<close>)
  show ?thesis
    using Some g clr blk
    by (simp add: krhino_event_get_def Let_def good_return good_block_return word_pos case_prod_beta)
qed (simp add: krhino_event_get_def g)

end
