(* ===== verification/Queue.thy ===== *)
theory Queue
  imports Event
begin

unbundle bit_operations_syntax

text \<open>
  Queues of pointers, \<^verbatim>\<open>core/k_queue.c\<close>. A pointer message is its four bytes. The argument \<open>start\<close>
  of the creation functions is the address of the message buffer together with the bytes there; the
  results of the two allocations of \<open>krhino_queue_dyn_create\<close> are arguments too. The value written to
  \<open>*msg\<close> is the last component of the result of \<open>krhino_queue_recv\<close>, \<open>None\<close> when nothing is written.
\<close>

section \<open>The code\<close>

definition NULL_MSG :: "u8 list" where "NULL_MSG = [0, 0, 0, 0]"

definition upd_queue :: "oid \<Rightarrow> (kqueue_t \<Rightarrow> kqueue_t) \<Rightarrow> kstate \<Rightarrow> kstate" where
  "upd_queue q f s = s\<lparr>queues := (queues s)(q := f (queues s q))\<rparr>"

definition upd_msg_q :: "(msg_q_t \<Rightarrow> msg_q_t) \<Rightarrow> kqueue_t \<Rightarrow> kqueue_t" where
  "upd_msg_q f q = q\<lparr>msg_q := f (msg_q q)\<rparr>"

definition task_msg_recv :: "u8 list \<Rightarrow> tid \<Rightarrow> kstate \<Rightarrow> kstate" where
  "task_msg_recv m task s = pend_task_wakeup task (upd_task task (\<lambda>t. t\<lparr>msg := m\<rparr>) s)"

definition queue_create :: "oid option \<Rightarrow> string option \<Rightarrow> (nat \<times> u8 list) option \<Rightarrow> nat \<Rightarrow> mm_alloc_flag_t
    \<Rightarrow> kstate \<Rightarrow> kstate \<times> kstat" where
  "queue_create queue name start msg_num mm_alloc_flag s = (case (queue, start, name) of
     (Some q, Some (addr, mem), Some name) \<Rightarrow>
       if msg_num = 0 then (s, RHINO_INV_PARAM)
       else
       (let s1 = upd_blk q (\<lambda>b. b\<lparr>blk_list := [], blk_policy := BLK_POLICY_PRI\<rparr>) s;
            s2 = upd_queue q (\<lambda>x. x\<lparr>
                   ringbuf := ringbuf_init (take (msg_num * 4 mod 2 ^ 32) mem) RINGBUF_TYPE_FIX 4,
                   msg_q := \<lparr>queue_start = addr, q_size = msg_num, cur_num = 0, peak_num = 0\<rparr>,
                   queue_mm_alloc_flag := mm_alloc_flag\<rparr>) s1;
            psr = irq_off s2; s3 = RHINO_CRITICAL_ENTER s2;
            s4 = s3\<lparr>g_kobj_list := (g_kobj_list s3)\<lparr>queue_head := queue_head (g_kobj_list s3) @ [q]\<rparr>\<rparr>;
            s5 = RHINO_CRITICAL_EXIT psr s4
        in (upd_blk q (\<lambda>b. b\<lparr>obj_type := RHINO_QUEUE_OBJ_TYPE\<rparr>) s5, RHINO_SUCCESS))
   | _ \<Rightarrow> (s, RHINO_NULL_PTR))"

definition krhino_queue_create :: "oid option \<Rightarrow> string option \<Rightarrow> (nat \<times> u8 list) option \<Rightarrow> nat
    \<Rightarrow> kstate \<Rightarrow> kstate \<times> kstat" where
  "krhino_queue_create queue name start msg_num s =
     queue_create queue name start msg_num K_OBJ_STATIC_ALLOC s"

definition queue_unlink :: "oid \<Rightarrow> kstate \<Rightarrow> kstate" where
  "queue_unlink q s = (let s1 = obj_unlink q s;
       s2 = s1\<lparr>g_kobj_list := (g_kobj_list s1)\<lparr>queue_head := remove1 q (queue_head (g_kobj_list s1))\<rparr>\<rparr>
     in upd_queue q (\<lambda>x. x\<lparr>ringbuf := ringbuf_reset (ringbuf x)\<rparr>) s2)"

definition krhino_queue_del :: "oid option \<Rightarrow> kstate \<Rightarrow> kstate \<times> kstat" where
  "krhino_queue_del queue s = (case queue of None \<Rightarrow> (s, RHINO_NULL_PTR) | Some q \<Rightarrow>
     (let psr = irq_off s; s0 = RHINO_CRITICAL_ENTER s in
      if g_intrpt_nested_level s0 > 0 then (RHINO_CRITICAL_EXIT psr s0, RHINO_NOT_CALLED_BY_INTRPT)
      else if obj_type (blks s0 q) \<noteq> RHINO_QUEUE_OBJ_TYPE
      then (RHINO_CRITICAL_EXIT psr s0, RHINO_KOBJ_TYPE_ERR)
      else if queue_mm_alloc_flag (queues s0 q) \<noteq> K_OBJ_STATIC_ALLOC
      then (RHINO_CRITICAL_EXIT psr s0, RHINO_KOBJ_DEL_ERR)
      else (RHINO_CRITICAL_EXIT_SCHED psr (queue_unlink q s0), RHINO_SUCCESS)))"

definition krhino_queue_dyn_create :: "bool \<Rightarrow> oid option \<Rightarrow> (nat \<times> u8 list) option \<Rightarrow> string option \<Rightarrow> nat
    \<Rightarrow> kstate \<Rightarrow> kstate \<times> kstat \<times> oid option" where
  "krhino_queue_dyn_create queue_out alloc alloc_msg name msg_num s =
     (if \<not> queue_out then (s, RHINO_NULL_PTR, None)
      else case alloc of
        None \<Rightarrow> (s, RHINO_NO_MEM, None)
      | Some queue_obj \<Rightarrow>
        (case alloc_msg of
           None \<Rightarrow> (krhino_mm_free queue_obj s, RHINO_NO_MEM, None)
         | Some (msg_start, mem) \<Rightarrow>
             (case queue_create (Some queue_obj) name (Some (msg_start, mem)) msg_num K_OBJ_DYN_ALLOC s of
                (s1, stat) \<Rightarrow>
                  if stat \<noteq> RHINO_SUCCESS
                  then (krhino_mm_free queue_obj (krhino_mm_free msg_start s1), stat, None)
                  else (s1, stat, Some queue_obj))))"

definition krhino_queue_dyn_del :: "oid option \<Rightarrow> kstate \<Rightarrow> kstate \<times> kstat" where
  "krhino_queue_dyn_del queue s = (case queue of None \<Rightarrow> (s, RHINO_NULL_PTR) | Some q \<Rightarrow>
     (let psr = irq_off s; s0 = RHINO_CRITICAL_ENTER s in
      if g_intrpt_nested_level s0 > 0 then (RHINO_CRITICAL_EXIT psr s0, RHINO_NOT_CALLED_BY_INTRPT)
      else if obj_type (blks s0 q) \<noteq> RHINO_QUEUE_OBJ_TYPE
      then (RHINO_CRITICAL_EXIT psr s0, RHINO_KOBJ_TYPE_ERR)
      else if queue_mm_alloc_flag (queues s0 q) \<noteq> K_OBJ_DYN_ALLOC
      then (RHINO_CRITICAL_EXIT psr s0, RHINO_KOBJ_DEL_ERR)
      else (let s1 = RHINO_CRITICAL_EXIT_SCHED psr (queue_unlink q s0)
            in (krhino_mm_free q (krhino_mm_free (queue_start (msg_q (queues s1 q))) s1), RHINO_SUCCESS))))"

definition msg_send :: "oid option \<Rightarrow> u8 list \<Rightarrow> bool \<Rightarrow> kstate \<Rightarrow> kstate \<times> kstat" where
  "msg_send p_q p_void opt_wake_all s = (case p_q of None \<Rightarrow> (s, RHINO_NULL_PTR) | Some q \<Rightarrow>
     (let psr = irq_off s; s0 = RHINO_CRITICAL_ENTER s in
      if obj_type (blks s0 q) \<noteq> RHINO_QUEUE_OBJ_TYPE
      then (RHINO_CRITICAL_EXIT psr s0, RHINO_KOBJ_TYPE_ERR)
      else if cur_num (msg_q (queues s0 q)) \<ge> q_size (msg_q (queues s0 q))
      then (RHINO_CRITICAL_EXIT psr s0, RHINO_QUEUE_FULL)
      else if waiters s0 q = [] then
        (let s1 = upd_queue q (upd_msg_q (\<lambda>m. m\<lparr>cur_num := cur_num m + 1\<rparr>)) s0;
             s2 = (if cur_num (msg_q (queues s1 q)) > peak_num (msg_q (queues s1 q))
                   then upd_queue q (upd_msg_q (\<lambda>m. m\<lparr>peak_num := cur_num m\<rparr>)) s1 else s1);
             s3 = upd_queue q (\<lambda>x. x\<lparr>ringbuf := fst (ringbuf_push p_void 4 (ringbuf x))\<rparr>) s2
         in (RHINO_CRITICAL_EXIT psr s3, RHINO_SUCCESS))
      else if opt_wake_all
      then (RHINO_CRITICAL_EXIT_SCHED psr
              (wake_all (length (waiters s0 q)) (task_msg_recv p_void) q s0), RHINO_SUCCESS)
      else (RHINO_CRITICAL_EXIT_SCHED psr (task_msg_recv p_void (hd (waiters s0 q)) s0), RHINO_SUCCESS)))"

definition krhino_queue_back_send :: "oid option \<Rightarrow> u8 list \<Rightarrow> kstate \<Rightarrow> kstate \<times> kstat" where
  "krhino_queue_back_send queue m s = msg_send queue m False s"

definition krhino_queue_all_send :: "oid option \<Rightarrow> u8 list \<Rightarrow> kstate \<Rightarrow> kstate \<times> kstat" where
  "krhino_queue_all_send queue m s = msg_send queue m True s"

text \<open>The part of \<open>krhino_queue_recv\<close> after the scheduling point.\<close>

definition queue_pend_return :: "kstate \<Rightarrow> kstate \<times> kret \<times> u8 list option" where
  "queue_pend_return s = (let psr = irq_off s; s0 = cpu_intrpt_save s; task = g_active_task s0 in
     case pend_state_end_proc task s0 of (s1, ret) \<Rightarrow>
       (cpu_intrpt_restore psr s1, Ret ret,
        Some (if ret = RHINO_SUCCESS then msg (tasks s1 task) else NULL_MSG)))"

definition krhino_queue_recv ::
  "oid option \<Rightarrow> u64 \<Rightarrow> bool \<Rightarrow> kstate \<Rightarrow> kstate \<times> kret \<times> u8 list option" where
  "krhino_queue_recv queue ticks msg_out s = (case queue of
     None \<Rightarrow> (s, Ret RHINO_NULL_PTR, None)
   | Some q \<Rightarrow>
     if \<not> msg_out then (s, Ret RHINO_NULL_PTR, None)
     else (let psr = irq_off s; s0 = RHINO_CRITICAL_ENTER s in
      if g_intrpt_nested_level s0 > 0 \<and> ticks \<noteq> RHINO_NO_WAIT
      then (RHINO_CRITICAL_EXIT psr s0, Ret RHINO_NOT_CALLED_BY_INTRPT, None)
      else if obj_type (blks s0 q) \<noteq> RHINO_QUEUE_OBJ_TYPE
      then (RHINO_CRITICAL_EXIT psr s0, Ret RHINO_KOBJ_TYPE_ERR, None)
      else if cur_num (msg_q (queues s0 q)) > 0 then
        (case ringbuf_pop (ringbuf (queues s0 q)) of (rb, st, m) \<Rightarrow>
          (let s1 = upd_queue q (\<lambda>x. x\<lparr>ringbuf := rb\<rparr>) s0;
               s2 = upd_queue q (upd_msg_q (\<lambda>m. m\<lparr>cur_num := cur_num m - 1\<rparr>)) s1
           in (RHINO_CRITICAL_EXIT psr s2, Ret RHINO_SUCCESS, if st = RHINO_SUCCESS then Some m else None)))
      else if ticks = RHINO_NO_WAIT
      then (RHINO_CRITICAL_EXIT psr s0, Ret RHINO_NO_PEND_WAIT, Some NULL_MSG)
      else if g_sched_lock s0 > 0
      then (RHINO_CRITICAL_EXIT psr s0, Ret RHINO_SCHED_DISABLE, Some NULL_MSG)
      else (let task = g_active_task s0;
                s1 = RHINO_CRITICAL_EXIT_SCHED psr (pend_to_blk_obj q task ticks s0)
            in if g_active_task s1 = task then queue_pend_return s1 else (s1, Blocks, None))))"

definition krhino_queue_is_full :: "oid option \<Rightarrow> kstate \<Rightarrow> kstate \<times> kstat" where
  "krhino_queue_is_full queue s = (case queue of None \<Rightarrow> (s, RHINO_NULL_PTR) | Some q \<Rightarrow>
     (let psr = irq_off s; s0 = RHINO_CRITICAL_ENTER s in
      if obj_type (blks s0 q) \<noteq> RHINO_QUEUE_OBJ_TYPE
      then (RHINO_CRITICAL_EXIT psr s0, RHINO_KOBJ_TYPE_ERR)
      else (RHINO_CRITICAL_EXIT psr s0,
            if cur_num (msg_q (queues s0 q)) \<ge> q_size (msg_q (queues s0 q))
            then RHINO_QUEUE_FULL else RHINO_QUEUE_NOT_FULL)))"

definition krhino_queue_flush :: "oid option \<Rightarrow> kstate \<Rightarrow> kstate \<times> kstat" where
  "krhino_queue_flush queue s = (case queue of None \<Rightarrow> (s, RHINO_NULL_PTR) | Some q \<Rightarrow>
     (let psr = irq_off s; s0 = RHINO_CRITICAL_ENTER s in
      if g_intrpt_nested_level s0 > 0 then (RHINO_CRITICAL_EXIT psr s0, RHINO_NOT_CALLED_BY_INTRPT)
      else if obj_type (blks s0 q) \<noteq> RHINO_QUEUE_OBJ_TYPE
      then (RHINO_CRITICAL_EXIT psr s0, RHINO_KOBJ_TYPE_ERR)
      else (let s1 = upd_queue q (upd_msg_q (\<lambda>m. m\<lparr>cur_num := 0\<rparr>)) s0;
                s2 = upd_queue q (\<lambda>x. x\<lparr>ringbuf := ringbuf_reset (ringbuf x)\<rparr>) s1
            in (RHINO_CRITICAL_EXIT psr s2, RHINO_SUCCESS))))"

text \<open>\<open>msg_info_t\<close>: the queue's counters and the first waiting task.\<close>

definition krhino_queue_info_get ::
  "oid option \<Rightarrow> bool \<Rightarrow> kstate \<Rightarrow> kstate \<times> kstat \<times> (msg_q_t \<times> tid option) option" where
  "krhino_queue_info_get queue info_out s = (case queue of
     None \<Rightarrow> (s, RHINO_NULL_PTR, None)
   | Some q \<Rightarrow>
     if \<not> info_out then (s, RHINO_NULL_PTR, None)
     else (let psr = irq_off s; s0 = cpu_intrpt_save s in
      if obj_type (blks s0 q) \<noteq> RHINO_QUEUE_OBJ_TYPE
      then (cpu_intrpt_restore psr s0, RHINO_KOBJ_TYPE_ERR, None)
      else (cpu_intrpt_restore psr s0, RHINO_SUCCESS,
            Some (msg_q (queues s0 q),
                  case waiters s0 q of [] \<Rightarrow> None | t # _ \<Rightarrow> Some t))))"

section \<open>Every call keeps the kernel in order\<close>

lemma queue_obj_ok: "kinv s \<Longrightarrow> obj_type (blks s q) = RHINO_QUEUE_OBJ_TYPE \<Longrightarrow> queue_ok (queues s q) (waiters s q)"
  using kinv_obj [of s q] by (simp add: obj_ok_def)

lemma good_upd_queue:
  assumes g: "good s" and ty: "obj_type (blks s q) = RHINO_QUEUE_OBJ_TYPE"
    and ok: "queue_ok (f (queues s q)) (waiters s q)" and psr: "psr = irq_off s"
  shows "good (RHINO_CRITICAL_EXIT psr (upd_queue q f (RHINO_CRITICAL_ENTER s)))"
proof (rule good_payload [OF g])
  let ?s = "upd_queue q f (RHINO_CRITICAL_ENTER s)"
  show "same_tasks s ?s" by (simp add: same_tasks_def upd_queue_def)
  show "same_run s ?s" by (simp add: same_run_def upd_queue_def)
  show "obj_ok ?s q" using ty ok by (simp add: obj_ok_def upd_queue_def)
qed (simp_all add: psr upd_queue_def)

lemma upd_queue_twice: "upd_queue x f (upd_queue x g s) = upd_queue x (\<lambda>q. f (g q)) s"
  by (simp add: upd_queue_def)

lemma upd_queue_queues: "queues (upd_queue q f s) x = (if x = q then f (queues s q) else queues s x)"
  by (simp add: upd_queue_def)

text \<open>What the caller of the creation functions must provide: the buffer it announces.\<close>

definition queue_mem :: "(nat \<times> u8 list) option \<Rightarrow> nat \<Rightarrow> bool" where
  "queue_mem start n \<longleftrightarrow> n * 4 < 2 ^ 32 \<and> (\<forall>a mem. start = Some (a, mem) \<longrightarrow> n * 4 \<le> length mem)"

lemma queue_ok_fresh:
  assumes "queue_mem (Some (a, mem)) n" "n \<noteq> 0"
  shows "queue_ok (x\<lparr>ringbuf := ringbuf_init (take (n * 4 mod 2 ^ 32) mem) RINGBUF_TYPE_FIX 4,
      msg_q := \<lparr>queue_start = a, q_size = n, cur_num = 0, peak_num = 0\<rparr>, queue_mm_alloc_flag := fl\<rparr>) []"
proof -
  have l: "n * 4 mod 2 ^ 32 = n * 4" "length (take (n * 4) mem) = n * 4"
    using assms by (simp_all add: queue_mem_def)
  have "fix_holds 4 (ringbuf_init (take (n * 4) mem) RINGBUF_TYPE_FIX 4) []"
    using l(2) assms(2) by (intro ringbuf_init_fix) auto
  moreover have "rb_end (ringbuf_init (take (n * 4) mem) RINGBUF_TYPE_FIX 4) = 4 * n"
    using l(2) by (simp add: rb_end_def ringbuf_init_def ringbuf_reset_def)
  ultimately show ?thesis unfolding queue_ok_def l(1) by auto
qed

lemma queue_create_good:
  assumes g: "good s" "\<And>ob. queue = Some ob \<Longrightarrow> obj_type (blks s ob) = RHINO_OBJ_TYPE_NONE"
    and mem: "queue_mem start n"
  shows "good (fst (queue_create queue name start n mf s))"
proof (cases "\<exists>ob a mem nm. queue = Some ob \<and> start = Some (a, mem) \<and> name = Some nm \<and> n \<noteq> 0")
  case True
  then obtain ob a m nm where e: "queue = Some ob" "start = Some (a, m)" "name = Some nm" "n \<noteq> 0" by blast
  let ?s = "fst (queue_create queue name start n mf s)"
  note d = queue_create_def e Let_def upd_blk_def upd_queue_def
  have ty: "obj_type (blks s ob) = RHINO_OBJ_TYPE_NONE" using assms(2) e by simp
  have bk: "blks ?s = (blks s)(ob := (blks s ob)\<lparr>blk_list := [], blk_policy := BLK_POLICY_PRI,
      obj_type := RHINO_QUEUE_OBJ_TYPE\<rparr>)"
    by (simp add: d)
  have kl: "g_kobj_list ?s = (g_kobj_list s)\<lparr>queue_head := queue_head (g_kobj_list s) @ [ob]\<rparr>"
    by (simp add: d)
  have "reg_ok ?s"
    by (rule reg_ok_swap [where f = "\<lambda>g. g\<lparr>queue_head := queue_head g @ [ob]\<rparr>" and ob = ob
          and ty = RHINO_QUEUE_OBJ_TYPE])
       (use goodD(1) [OF g(1)] kl bk ty in \<open>auto simp: kinv_def\<close>)
  moreover have "obj_ok ?s ob"
    using queue_ok_fresh [OF mem [unfolded e(2)] e(4)] by (simp add: d obj_ok_def)
  moreover have "same_run s ?s"
    using goodD(7) [OF g(1)]
    by (simp add: d same_run_def cpu_intrpt_restore_def tspend_handler_def cpu_intrpt_save_def)
  ultimately show ?thesis
    by (intro good_create [OF g(1) _ ty bk]) (simp_all add: queue_create_def e Let_def upd_queue_def)
next
  case False
  then show ?thesis using g(1) by (auto simp: queue_create_def split: option.split)
qed

lemma krhino_queue_dyn_create_good:
  assumes "good s" "\<And>ob. alloc = Some ob \<Longrightarrow> obj_type (blks s ob) = RHINO_OBJ_TYPE_NONE" "queue_mem alloc_msg n"
  shows "good (fst (krhino_queue_dyn_create out alloc alloc_msg name n s))"
  using assms queue_create_good [OF assms(1) _ assms(3), of alloc name K_OBJ_DYN_ALLOC]
  by (auto simp: krhino_queue_dyn_create_def krhino_mm_free_good split: option.split prod.split)

lemma queue_unlink_good:
  assumes g: "good s" and ty: "obj_type (blks s ob) = RHINO_QUEUE_OBJ_TYPE" and psr: "psr = irq_off s"
  shows "good (RHINO_CRITICAL_EXIT_SCHED psr (queue_unlink ob (RHINO_CRITICAL_ENTER s)))"
proof -
  let ?e = "RHINO_CRITICAL_ENTER s"
  have k: "kinv ?e" "obj_type (blks ?e ob) \<noteq> RHINO_MUTEX_OBJ_TYPE" using goodD(1) [OF g] ty by simp_all
  note u = obj_unlink_spec [OF k]
  have "reg_ok (queue_unlink ob ?e)"
    by (rule reg_ok_swap [where s = ?e and f = "\<lambda>g. g\<lparr>queue_head := remove1 ob (queue_head g)\<rparr>" and ob = ob
          and ty = RHINO_OBJ_TYPE_NONE])
       (use k(1) u(4,7) ty in \<open>auto simp: kinv_def queue_unlink_def upd_queue_def Let_def\<close>)
  then show ?thesis
    by (intro good_delete [OF g _ psr refl])
       (use ty in \<open>auto simp: queue_unlink_def upd_queue_def Let_def sysview_def same_run_def\<close>)
qed

lemma krhino_queue_del_good: "good s \<Longrightarrow> good (fst (krhino_queue_del q s))"
  by (simp add: krhino_queue_del_def Let_def good_return queue_unlink_good split: option.split)

lemma krhino_queue_dyn_del_good: "good s \<Longrightarrow> good (fst (krhino_queue_dyn_del q s))"
  by (simp add: krhino_queue_dyn_del_def Let_def good_return queue_unlink_good krhino_mm_free_good
      split: option.split)

text \<open>
  Handing something to waiting tasks: \<open>f\<close> stores it in the task before the wakeup. \<open>wake_inv\<close> holds
  from the entry \<open>s0\<close> of the call on.
\<close>

definition wake_inv :: "oid \<Rightarrow> kstate \<Rightarrow> kstate \<Rightarrow> bool" where
  "wake_inv ob s0 s \<longleftrightarrow> kinv s \<and> same_run s0 s \<and> g_kobj_list s = g_kobj_list s0
     \<and> obj_type (blks s ob) \<noteq> RHINO_MUTEX_OBJ_TYPE
     \<and> (\<forall>u. task_state (tasks s0 u) = K_RDY \<longrightarrow> task_state (tasks s u) = K_RDY)"

lemma wake_inv_give:
  assumes w: "wake_inv ob s0 s" and t: "t \<in> set (waiters s ob)" and f: "inert f"
    and s': "s' = pend_task_wakeup t (upd_task t f s)"
  shows "wake_inv ob s0 s'" "waiters s' ob = remove1 t (waiters s ob)" "msg (tasks s' u) = msg (tasks (upd_task t f s) u)"
    "length (waiters s' ob) < length (waiters s ob)"
proof -
  let ?e = "upd_task t f s"
  have k: "kinv ?e" "ksys ?e" using kinv_inert [OF _ f] w by (simp_all add: wake_inv_def kinv_def)
  have t1: "t \<in> set (waiters ?e ob)" "obj_type (blks ?e ob) \<noteq> RHINO_MUTEX_OBJ_TYPE"
    using t w by (simp_all add: wake_inv_def)
  have wt: "waiting (tasks ?e t)" using ksys_waiter(2) [OF k(2) t1(1)] .
  note fl = wakeup.wake_fields [OF wt, folded s']
  note tk = wakeup.wake_task [OF wt, folded s']
  have "kinv s'"
  proof (rule kinv_step [OF k(1)])
    show "ksys s'" unfolding s' by (rule wakeup.ksys_wake [OF k(2) t1])
    show "obj_type (blks s' x) = obj_type (blks ?e x) \<and> set (waiters s' x) \<subseteq> set (waiters ?e x)" for x
      using fl(1,2) by (simp add: set_remove1_subset)
    fix u assume "u \<in> all_tasks ?e"
    then show "pend_flags (tasks s' u) = pend_flags (tasks ?e u)
      \<and> pend_option (tasks s' u) = pend_option (tasks ?e u) \<and> blk_state (tasks s' u) \<noteq> BLK_INVALID"
      using k(1) unfolding tk kinv_def by (auto simp: fun_upd_def)
  qed (simp_all add: s')
  moreover have "task_state (tasks s' u) = K_RDY" if "task_state (tasks s0 u) = K_RDY" for u
  proof -
    have "task_state (tasks s u) = K_RDY" using w that by (simp add: wake_inv_def)
    moreover have "\<not> waiting (tasks s u)" if "task_state (tasks s u) = K_RDY" for u
      using that by (simp add: waiting_def)
    ultimately show ?thesis
      using f wt by (cases "u = t") (auto simp: tk inert_def task_view_def waiting_def)
  qed
  ultimately show "wake_inv ob s0 s'"
    using w fl(2,5) by (simp add: wake_inv_def same_run_def s')
  show "waiters s' ob = remove1 t (waiters s ob)" using fl(1) [of ob] by simp
  then show "length (waiters s' ob) < length (waiters s ob)"
    using t length_pos_if_in_set [OF t] by (simp add: length_remove1)
  show "msg (tasks s' u) = msg (tasks (upd_task t f s) u)" by (simp add: tk)
qed

lemma wake_inv_start:
  "good s \<Longrightarrow> obj_type (blks s ob) \<noteq> RHINO_MUTEX_OBJ_TYPE \<Longrightarrow> wake_inv ob s (RHINO_CRITICAL_ENTER s)"
  by (simp add: wake_inv_def same_run_def goodD(1))

lemma wake_inv_end:
  assumes "good s" "wake_inv ob s s'" "psr = irq_off s"
  shows "good (RHINO_CRITICAL_EXIT_SCHED psr s')"
  using assms goodD(4,6) [OF assms(1)] by (intro good_EXIT_SCHED [of s]) (auto simp: wake_inv_def)

lemma inert_msg [simp]: "inert (\<lambda>t. t\<lparr>msg := m\<rparr>)"
  by (simp add: inert_def task_view_def)

lemma queue_wakeup_good:
  assumes g: "good s" and ty: "obj_type (blks s q) = RHINO_QUEUE_OBJ_TYPE"
  shows "good (RHINO_CRITICAL_EXIT_SCHED (irq_off s)
      (wake_all (length (waiters s q)) (task_msg_recv m) q (RHINO_CRITICAL_ENTER s)))"
    "waiters s q \<noteq> [] \<Longrightarrow> good (RHINO_CRITICAL_EXIT_SCHED (irq_off s)
      (task_msg_recv m (hd (waiters s q)) (RHINO_CRITICAL_ENTER s)))"
proof -
  have i: "wake_inv q s (RHINO_CRITICAL_ENTER s)" using g ty by (intro wake_inv_start) simp_all
  have "wake_inv q s (wake_all (length (waiters s q)) (task_msg_recv m) q (RHINO_CRITICAL_ENTER s))
    \<and> waiters (wake_all (length (waiters s q)) (task_msg_recv m) q (RHINO_CRITICAL_ENTER s)) q = []"
  proof (rule wake_all_rule [where P = "wake_inv q s", OF i])
    fix s' assume p: "wake_inv q s s'" and ne: "waiters s' q \<noteq> []"
    then show "wake_inv q s (task_msg_recv m (hd (waiters s' q)) s')
      \<and> length (waiters (task_msg_recv m (hd (waiters s' q)) s') q) < length (waiters s' q)"
      using wake_inv_give(1,4) [OF p _ inert_msg [of m]] by (simp add: task_msg_recv_def)
  qed simp
  then show "good (RHINO_CRITICAL_EXIT_SCHED (irq_off s)
      (wake_all (length (waiters s q)) (task_msg_recv m) q (RHINO_CRITICAL_ENTER s)))"
    using wake_inv_end [OF g] by blast
  show "good (RHINO_CRITICAL_EXIT_SCHED (irq_off s)
      (task_msg_recv m (hd (waiters s q)) (RHINO_CRITICAL_ENTER s)))" if "waiters s q \<noteq> []"
    by (rule wake_inv_end [OF g wake_inv_give(1) [OF i _ inert_msg [of m] task_msg_recv_def]])
       (use that in simp_all)
qed

text \<open>A queue that holds \<open>ms\<close>: what the ring and the counter say together.\<close>

definition queue_holds :: "kqueue_t \<Rightarrow> u8 list list \<Rightarrow> bool" where
  "queue_holds q ms \<longleftrightarrow> fix_holds 4 (ringbuf q) ms \<and> length ms = cur_num (msg_q q)
     \<and> rb_end (ringbuf q) = 4 * q_size (msg_q q)"

lemma queue_ok_holds: "queue_ok q w \<longleftrightarrow> (\<exists>ms. queue_holds q ms \<and> (w \<noteq> [] \<longrightarrow> ms = []))"
  by (auto simp: queue_ok_def queue_holds_def)

lemma fix_room:
  assumes h: "fix_holds b rb ms" and e: "rb_end rb = b * n" and l: "length ms < n"
  shows "b \<le> rb_freesize rb"
proof -
  have "rb_used rb = length ms * b"
    using h ring_used_holds [of rb "concat ms"] length_concat_blocks [of ms b] by (simp add: fix_holds_def)
  moreover have "rb_freesize rb \<le> rb_end rb" using h by (simp add: fix_holds_def rb_inv_def)
  moreover have "length ms * b + b \<le> b * n"
    using mult_le_mono2 [of "Suc (length ms)" n b] l by (simp add: mult.commute)
  ultimately show ?thesis using e unfolding rb_used_def by linarith
qed

lemma queue_push:
  assumes h: "queue_holds q ms" and m: "length m = 4" and n: "cur_num (msg_q q) < q_size (msg_q q)"
    and q': "ringbuf q' = fst (ringbuf_push m 4 (ringbuf q))" "cur_num (msg_q q') = cur_num (msg_q q) + 1"
      "q_size (msg_q q') = q_size (msg_q q)"
  shows "queue_holds q' (ms @ [m])"
proof -
  have f: "fix_holds 4 (ringbuf q) ms" using h by (simp add: queue_holds_def)
  have "4 \<le> rb_freesize (ringbuf q)" using h n by (intro fix_room [OF f]) (auto simp: queue_holds_def)
  from push_fix_spec [OF f m this] show ?thesis using h m q' by (auto simp: queue_holds_def)
qed

lemma queue_pop:
  assumes h: "queue_holds q (m # ms)"
  shows "\<exists>rb. ringbuf_pop (ringbuf q) = (rb, RHINO_SUCCESS, m)
    \<and> queue_holds (upd_msg_q (\<lambda>m. m\<lparr>cur_num := cur_num m - 1\<rparr>) (q\<lparr>ringbuf := rb\<rparr>)) ms"
proof -
  have f: "fix_holds 4 (ringbuf q) (m # ms)" using h by (simp add: queue_holds_def)
  from pop_fix_spec [OF f] show ?thesis using h by (auto simp: queue_holds_def upd_msg_q_def)
qed

lemma msg_send_good:
  assumes g: "good s" and m: "length m = 4"
  shows "good (fst (msg_send queue m al s))"
proof (cases queue)
  case (Some q)
  let ?e = "RHINO_CRITICAL_ENTER s"
  have "good (RHINO_CRITICAL_EXIT (irq_off s) (upd_queue q f ?e))"
    if ty: "obj_type (blks s q) = RHINO_QUEUE_OBJ_TYPE" and w: "waiters s q = []"
      and n: "cur_num (msg_q (queues s q)) < q_size (msg_q (queues s q))"
      and f: "ringbuf (f (queues s q)) = fst (ringbuf_push m 4 (ringbuf (queues s q)))"
        "cur_num (msg_q (f (queues s q))) = cur_num (msg_q (queues s q)) + 1"
        "q_size (msg_q (f (queues s q))) = q_size (msg_q (queues s q))" for f
  proof (rule good_upd_queue [OF g ty _ refl])
    obtain ms where "queue_holds (queues s q) ms"
      using queue_obj_ok [OF goodD(1) [OF g] ty] by (auto simp: queue_ok_holds)
    from queue_push [OF this m n f] show "queue_ok (f (queues s q)) (waiters s q)"
      using w by (auto simp: queue_ok_holds)
  qed
  then show ?thesis
    using Some g queue_wakeup_good [OF g, of q m]
    by (simp add: msg_send_def Let_def good_return upd_queue_twice upd_queue_queues upd_msg_q_def not_le)
qed (simp add: msg_send_def g)

lemma queue_pend_return_fst: "fst (queue_pend_return s) = fst (pend_return s)"
  by (simp add: queue_pend_return_def pend_return_def Let_def split: prod.split)

lemma queue_block_good:
  assumes g: "good s" and idle: "g_active_task s \<noteq> g_idle_task"
    and ty: "obj_type (blks s q) = RHINO_QUEUE_OBJ_TYPE" and c: "cur_num (msg_q (queues s q)) = 0"
    and n: "g_intrpt_nested_level s = 0" "g_sched_lock s = 0"
  shows "good (RHINO_CRITICAL_EXIT_SCHED (irq_off s)
    (pend_to_blk_obj q (g_active_task s) ticks (RHINO_CRITICAL_ENTER s)))"
proof (rule good_block [OF g _ _ _ n idle])
  show "obj_ok (pend_to_blk_obj q (g_active_task s) ticks (RHINO_CRITICAL_ENTER s)) q"
    using ty c queue_obj_ok [OF goodD(1) [OF g] ty] by (auto simp: obj_ok_def queue_ok_def)
qed (use goodD(1) [OF g] ty in \<open>simp_all add: same_run_def\<close>)

lemma krhino_queue_recv_good:
  assumes g: "good s" and idle: "g_active_task s \<noteq> g_idle_task"
  shows "good (fst (krhino_queue_recv queue ticks out s))"
proof (cases queue)
  case (Some q)
  let ?e = "RHINO_CRITICAL_ENTER s"
  let ?pop = "\<lambda>rb. upd_queue q (\<lambda>x. upd_msg_q (\<lambda>m. m\<lparr>cur_num := cur_num m - 1\<rparr>) (x\<lparr>ringbuf := rb\<rparr>)) ?e"
  have pop: "good (RHINO_CRITICAL_EXIT (irq_off s) (?pop rb))"
    if ty: "obj_type (blks s q) = RHINO_QUEUE_OBJ_TYPE" and c: "0 < cur_num (msg_q (queues s q))"
      and rb: "ringbuf_pop (ringbuf (queues s q)) = (rb, st, m)" for rb st m
  proof (rule good_upd_queue [OF g ty _ refl])
    obtain ms where ms: "queue_holds (queues s q) ms" "waiters s q \<noteq> [] \<longrightarrow> ms = []"
      using queue_obj_ok [OF goodD(1) [OF g] ty] by (auto simp: queue_ok_holds)
    then obtain m' ms' where e: "ms = m' # ms'" using c by (cases ms) (auto simp: queue_holds_def)
    show "queue_ok (upd_msg_q (\<lambda>m. m\<lparr>cur_num := cur_num m - 1\<rparr>) ((queues s q)\<lparr>ringbuf := rb\<rparr>)) (waiters s q)"
      using queue_pop [OF ms(1) [unfolded e]] rb ms(2) e by (auto simp: queue_ok_holds)
  qed
  note blk = queue_block_good [OF g idle]
  have eq: "fst (krhino_queue_recv queue ticks out s) =
    (if \<not> out then s
     else if g_intrpt_nested_level s > 0 \<and> ticks \<noteq> RHINO_NO_WAIT then RHINO_CRITICAL_EXIT (irq_off s) ?e
     else if obj_type (blks s q) \<noteq> RHINO_QUEUE_OBJ_TYPE then RHINO_CRITICAL_EXIT (irq_off s) ?e
     else if cur_num (msg_q (queues s q)) > 0
       then RHINO_CRITICAL_EXIT (irq_off s) (?pop (fst (ringbuf_pop (ringbuf (queues s q)))))
     else if ticks = RHINO_NO_WAIT \<or> g_sched_lock s > 0 then RHINO_CRITICAL_EXIT (irq_off s) ?e
     else fst (block_return (g_active_task s)
        (RHINO_CRITICAL_EXIT_SCHED (irq_off s) (pend_to_blk_obj q (g_active_task s) ticks ?e))))"
    by (simp add: krhino_queue_recv_def Some Let_def upd_queue_twice block_return_def queue_pend_return_fst
        split: prod.split)
  obtain rb st m where rb: "ringbuf_pop (ringbuf (queues s q)) = (rb, st, m)" by (metis prod_cases3)
  show ?thesis
    unfolding eq using g blk pop [OF _ _ rb] by (simp add: rb good_return good_block_return word_pos)
qed (simp add: krhino_queue_recv_def g)

lemma queue_reset: "queue_holds q ms \<Longrightarrow> cur_num (msg_q q') = 0 \<Longrightarrow> q_size (msg_q q') = q_size (msg_q q)
    \<Longrightarrow> ringbuf q' = ringbuf_reset (ringbuf q) \<Longrightarrow> queue_holds q' []"
  by (auto simp: queue_holds_def fix_holds_def ringbuf_reset_def rb_inv_def rb_used_def ring_bytes_def)

lemma krhino_queue_flush_good:
  assumes g: "good s"
  shows "good (fst (krhino_queue_flush queue s))"
proof (cases queue)
  case (Some q)
  have "good (RHINO_CRITICAL_EXIT (irq_off s) (upd_queue q
      (\<lambda>x. (upd_msg_q (\<lambda>m. m\<lparr>cur_num := 0\<rparr>) x)\<lparr>ringbuf := ringbuf_reset (ringbuf x)\<rparr>) (RHINO_CRITICAL_ENTER s)))"
    if ty: "obj_type (blks s q) = RHINO_QUEUE_OBJ_TYPE"
  proof (rule good_upd_queue [OF g ty _ refl])
    obtain ms where "queue_holds (queues s q) ms"
      using queue_obj_ok [OF goodD(1) [OF g] ty] by (auto simp: queue_ok_holds)
    then have "queue_holds ((upd_msg_q (\<lambda>m. m\<lparr>cur_num := 0\<rparr>) (queues s q))
        \<lparr>ringbuf := ringbuf_reset (ringbuf (queues s q))\<rparr>) []"
      by (rule queue_reset) (simp_all add: upd_msg_q_def)
    then show "queue_ok ((upd_msg_q (\<lambda>m. m\<lparr>cur_num := 0\<rparr>) (queues s q))
        \<lparr>ringbuf := ringbuf_reset (ringbuf (queues s q))\<rparr>) (waiters s q)"
      by (auto simp: queue_ok_holds)
  qed
  then show ?thesis
    using Some g by (simp add: krhino_queue_flush_def Let_def good_return upd_queue_twice upd_msg_q_def)
qed (simp add: krhino_queue_flush_def g)

lemma krhino_queue_queries_good:
  "good s \<Longrightarrow> good (fst (krhino_queue_is_full queue s))"
  "good s \<Longrightarrow> good (fst (krhino_queue_info_get queue out s))"
  by (simp_all add: krhino_queue_is_full_def krhino_queue_info_get_def Let_def good_return split: option.split)

end
