(* ===== verification/Buf_Queue.thy ===== *)
theory Buf_Queue
  imports Queue
begin

unbundle bit_operations_syntax

text \<open>
  Queues of byte messages, \<^verbatim>\<open>core/k_buf_queue.c\<close>. A buffer argument is its address and the bytes
  there. A message to send is the memory at \<open>msg\<close>, of which the call reads the first \<open>msg_size\<close>
  bytes (a queue of blocks reads a whole block). The field \<open>msg\<close> of a waiting task stands for the
  receiver's buffer. The last component of the result of \<open>krhino_buf_queue_recv\<close> is the receiver's
  buffer after the call and the value of \<open>*size\<close>, \<open>None\<close> when neither is written.
\<close>

section \<open>The code\<close>

definition upd_bq :: "oid \<Rightarrow> (kbuf_queue_t \<Rightarrow> kbuf_queue_t) \<Rightarrow> kstate \<Rightarrow> kstate" where
  "upd_bq q f s = s\<lparr>buf_queues := (buf_queues s)(q := f (buf_queues s q))\<rparr>"

definition buf_queue_create :: "oid option \<Rightarrow> string option \<Rightarrow> (nat \<times> u8 list) option \<Rightarrow> nat \<Rightarrow> nat
    \<Rightarrow> mm_alloc_flag_t \<Rightarrow> ringbuf_type \<Rightarrow> kstate \<Rightarrow> kstate \<times> kstat" where
  "buf_queue_create queue name buf sz max_msg mm_alloc_flag type s = (case (queue, buf, name) of
     (Some q, Some (addr, mem), Some name) \<Rightarrow>
       if max_msg = 0 then (s, RHINO_INV_PARAM)
       else if sz = 0 then (s, RHINO_BUF_QUEUE_SIZE_ZERO)
       else
       (let s1 = upd_blk q (\<lambda>b. b\<lparr>blk_list := [], blk_policy := BLK_POLICY_PRI\<rparr>) s;
            s2 = upd_bq q (\<lambda>x. x\<lparr>bq_buf := addr, bq_cur_num := 0, bq_peak_num := 0,
                   max_msg_size := max_msg, bq_mm_alloc_flag := mm_alloc_flag\<rparr>) s1;
            psr = irq_off s2; s3 = RHINO_CRITICAL_ENTER s2;
            s4 = s3\<lparr>g_kobj_list := (g_kobj_list s3)\<lparr>buf_queue_head := buf_queue_head (g_kobj_list s3) @ [q]\<rparr>\<rparr>;
            s5 = RHINO_CRITICAL_EXIT psr s4;
            s6 = upd_blk q (\<lambda>b. b\<lparr>obj_type := RHINO_BUF_QUEUE_OBJ_TYPE\<rparr>) s5;
            s7 = upd_bq q (\<lambda>x. x\<lparr>bq_ringbuf := ringbuf_init (take sz mem) type max_msg\<rparr>) s6;
            s8 = upd_bq q (\<lambda>x. x\<lparr>min_free_buf_size := rb_freesize (bq_ringbuf x)\<rparr>) s7
        in (s8, RHINO_SUCCESS))
   | _ \<Rightarrow> (s, RHINO_NULL_PTR))"

definition krhino_buf_queue_create :: "oid option \<Rightarrow> string option \<Rightarrow> (nat \<times> u8 list) option \<Rightarrow> nat \<Rightarrow> nat
    \<Rightarrow> kstate \<Rightarrow> kstate \<times> kstat" where
  "krhino_buf_queue_create queue name buf sz max_msg s =
     buf_queue_create queue name buf sz max_msg K_OBJ_STATIC_ALLOC RINGBUF_TYPE_DYN s"

definition krhino_fix_buf_queue_create :: "oid option \<Rightarrow> string option \<Rightarrow> (nat \<times> u8 list) option \<Rightarrow> nat \<Rightarrow> nat
    \<Rightarrow> kstate \<Rightarrow> kstate \<times> kstat" where
  "krhino_fix_buf_queue_create queue name buf msg_size msg_num s =
     buf_queue_create queue name buf (msg_size * msg_num mod 2 ^ 32) msg_size K_OBJ_STATIC_ALLOC
       RINGBUF_TYPE_FIX s"

definition buf_queue_unlink :: "oid \<Rightarrow> kstate \<Rightarrow> kstate" where
  "buf_queue_unlink q s = (let s1 = obj_unlink q s;
       s2 = s1\<lparr>g_kobj_list := (g_kobj_list s1)\<lparr>buf_queue_head := remove1 q (buf_queue_head (g_kobj_list s1))\<rparr>\<rparr>
     in upd_bq q (\<lambda>x. x\<lparr>bq_ringbuf := ringbuf_reset (bq_ringbuf x)\<rparr>) s2)"

definition krhino_buf_queue_del :: "oid option \<Rightarrow> kstate \<Rightarrow> kstate \<times> kstat" where
  "krhino_buf_queue_del queue s = (case queue of None \<Rightarrow> (s, RHINO_NULL_PTR) | Some q \<Rightarrow>
     (let psr = irq_off s; s0 = RHINO_CRITICAL_ENTER s in
      if g_intrpt_nested_level s0 > 0 then (RHINO_CRITICAL_EXIT psr s0, RHINO_NOT_CALLED_BY_INTRPT)
      else if obj_type (blks s0 q) \<noteq> RHINO_BUF_QUEUE_OBJ_TYPE
      then (RHINO_CRITICAL_EXIT psr s0, RHINO_KOBJ_TYPE_ERR)
      else if bq_mm_alloc_flag (buf_queues s0 q) \<noteq> K_OBJ_STATIC_ALLOC
      then (RHINO_CRITICAL_EXIT psr s0, RHINO_KOBJ_DEL_ERR)
      else (RHINO_CRITICAL_EXIT_SCHED psr (buf_queue_unlink q s0), RHINO_SUCCESS)))"

definition krhino_buf_queue_dyn_create :: "bool \<Rightarrow> oid option \<Rightarrow> (nat \<times> u8 list) option \<Rightarrow> string option \<Rightarrow> nat
    \<Rightarrow> nat \<Rightarrow> kstate \<Rightarrow> kstate \<times> kstat \<times> oid option" where
  "krhino_buf_queue_dyn_create queue_out alloc alloc_buf name sz max_msg s =
     (if \<not> queue_out then (s, RHINO_NULL_PTR, None)
      else if sz = 0 then (s, RHINO_BUF_QUEUE_SIZE_ZERO, None)
      else case alloc of
        None \<Rightarrow> (s, RHINO_NO_MEM, None)
      | Some queue_obj \<Rightarrow>
        (case alloc_buf of
           None \<Rightarrow> (krhino_mm_free queue_obj s, RHINO_NO_MEM, None)
         | Some (buf, mem) \<Rightarrow>
             (case buf_queue_create (Some queue_obj) name (Some (buf, mem)) sz max_msg K_OBJ_DYN_ALLOC
                     RINGBUF_TYPE_DYN s of
                (s1, stat) \<Rightarrow>
                  if stat \<noteq> RHINO_SUCCESS
                  then (krhino_mm_free queue_obj (krhino_mm_free buf s1), stat, None)
                  else (s1, RHINO_SUCCESS, Some queue_obj))))"

definition krhino_buf_queue_dyn_del :: "oid option \<Rightarrow> kstate \<Rightarrow> kstate \<times> kstat" where
  "krhino_buf_queue_dyn_del queue s = (case queue of None \<Rightarrow> (s, RHINO_NULL_PTR) | Some q \<Rightarrow>
     (let psr = irq_off s; s0 = RHINO_CRITICAL_ENTER s in
      if g_intrpt_nested_level s0 > 0 then (RHINO_CRITICAL_EXIT psr s0, RHINO_NOT_CALLED_BY_INTRPT)
      else if obj_type (blks s0 q) \<noteq> RHINO_BUF_QUEUE_OBJ_TYPE
      then (RHINO_CRITICAL_EXIT psr s0, RHINO_KOBJ_TYPE_ERR)
      else if bq_mm_alloc_flag (buf_queues s0 q) \<noteq> K_OBJ_DYN_ALLOC
      then (RHINO_CRITICAL_EXIT psr s0, RHINO_KOBJ_DEL_ERR)
      else (let s1 = RHINO_CRITICAL_EXIT_SCHED psr (buf_queue_unlink q s0)
            in (krhino_mm_free q (krhino_mm_free (bq_buf (buf_queues s1 q)) s1), RHINO_SUCCESS))))"

text \<open>\<open>memcpy(dst, src, n)\<close> on the bytes at \<open>dst\<close>.\<close>

definition memcpy :: "u8 list \<Rightarrow> u8 list \<Rightarrow> nat \<Rightarrow> u8 list" where
  "memcpy dst src n = take n src @ drop n dst"

definition buf_queue_send :: "oid \<Rightarrow> u8 list \<Rightarrow> nat \<Rightarrow> kstate \<Rightarrow> kstate \<times> kstat" where
  "buf_queue_send q data msg_size s = (let psr = irq_off s; s0 = RHINO_CRITICAL_ENTER s in
     if obj_type (blks s0 q) \<noteq> RHINO_BUF_QUEUE_OBJ_TYPE
     then (RHINO_CRITICAL_EXIT psr s0, RHINO_KOBJ_TYPE_ERR)
     else if msg_size > max_msg_size (buf_queues s0 q)
     then (RHINO_CRITICAL_EXIT psr s0, RHINO_BUF_QUEUE_MSG_SIZE_OVERFLOW)
     else if msg_size = 0 then (RHINO_CRITICAL_EXIT psr s0, RHINO_INV_PARAM)
     else if waiters s0 q = [] then
       (case ringbuf_push data msg_size (bq_ringbuf (buf_queues s0 q)) of (rb, err) \<Rightarrow>
         (let s1 = upd_bq q (\<lambda>x. x\<lparr>bq_ringbuf := rb\<rparr>) s0 in
          if err \<noteq> RHINO_SUCCESS
          then (RHINO_CRITICAL_EXIT psr s1, if err = RHINO_RINGBUF_FULL then RHINO_BUF_QUEUE_FULL else err)
          else
          (let s2 = upd_bq q (\<lambda>x. x\<lparr>bq_cur_num := bq_cur_num x + 1\<rparr>) s1;
               s3 = (if bq_peak_num (buf_queues s2 q) < bq_cur_num (buf_queues s2 q)
                     then upd_bq q (\<lambda>x. x\<lparr>bq_peak_num := bq_cur_num x\<rparr>) s2 else s2);
               s4 = (if min_free_buf_size (buf_queues s3 q) > rb_freesize (bq_ringbuf (buf_queues s3 q))
                     then upd_bq q (\<lambda>x. x\<lparr>min_free_buf_size := rb_freesize (bq_ringbuf x)\<rparr>) s3 else s3)
           in (RHINO_CRITICAL_EXIT psr s4, RHINO_SUCCESS))))
     else
       (let task = hd (waiters s0 q);
            s1 = upd_task task (\<lambda>t. t\<lparr>msg := memcpy (msg t) data msg_size, bq_msg_size := msg_size\<rparr>) s0
        in (RHINO_CRITICAL_EXIT_SCHED psr (pend_task_wakeup task s1), RHINO_SUCCESS)))"

definition krhino_buf_queue_send :: "oid option \<Rightarrow> u8 list option \<Rightarrow> nat \<Rightarrow> kstate \<Rightarrow> kstate \<times> kstat" where
  "krhino_buf_queue_send queue data sz s = (case (queue, data) of
     (Some q, Some data) \<Rightarrow> buf_queue_send q data sz s
   | _ \<Rightarrow> (s, RHINO_NULL_PTR))"

text \<open>The part of \<open>krhino_buf_queue_recv\<close> after the scheduling point.\<close>

definition bq_pend_return :: "kstate \<Rightarrow> kstate \<times> kret \<times> (u8 list \<times> nat) option" where
  "bq_pend_return s = (let psr = irq_off s; s0 = cpu_intrpt_save s; task = g_active_task s0 in
     case pend_state_end_proc task s0 of (s1, ret) \<Rightarrow>
       (cpu_intrpt_restore psr s1, Ret ret,
        Some (msg (tasks s1 task), if ret = RHINO_SUCCESS then bq_msg_size (tasks s1 task) else 0)))"

definition krhino_buf_queue_recv :: "oid option \<Rightarrow> u64 \<Rightarrow> u8 list option \<Rightarrow> bool \<Rightarrow> kstate
    \<Rightarrow> kstate \<times> kret \<times> (u8 list \<times> nat) option" where
  "krhino_buf_queue_recv queue ticks msg_buf size_out s = (case (queue, msg_buf) of
     (Some q, Some buf) \<Rightarrow>
     if \<not> size_out then (s, Ret RHINO_NULL_PTR, None)
     else (let psr = irq_off s; s0 = RHINO_CRITICAL_ENTER s in
      if g_intrpt_nested_level s0 > 0 \<and> ticks \<noteq> RHINO_NO_WAIT
      then (RHINO_CRITICAL_EXIT psr s0, Ret RHINO_NOT_CALLED_BY_INTRPT, None)
      else if obj_type (blks s0 q) \<noteq> RHINO_BUF_QUEUE_OBJ_TYPE
      then (RHINO_CRITICAL_EXIT psr s0, Ret RHINO_KOBJ_TYPE_ERR, None)
      else if \<not> ringbuf_is_empty (bq_ringbuf (buf_queues s0 q)) then
        (case ringbuf_pop (bq_ringbuf (buf_queues s0 q)) of (rb, st, m) \<Rightarrow>
          (let s1 = upd_bq q (\<lambda>x. x\<lparr>bq_ringbuf := rb\<rparr>) s0;
               s2 = upd_bq q (\<lambda>x. x\<lparr>bq_cur_num := bq_cur_num x - 1\<rparr>) s1
           in (RHINO_CRITICAL_EXIT psr s2, Ret RHINO_SUCCESS,
               if st = RHINO_SUCCESS then Some (memcpy buf m (length m), length m) else None)))
      else if ticks = RHINO_NO_WAIT
      then (RHINO_CRITICAL_EXIT psr s0, Ret RHINO_NO_PEND_WAIT, Some (buf, 0))
      else if g_sched_lock s0 > 0
      then (RHINO_CRITICAL_EXIT psr s0, Ret RHINO_SCHED_DISABLE, Some (buf, 0))
      else (let task = g_active_task s0;
                s1 = upd_task task (\<lambda>t. t\<lparr>msg := buf\<rparr>) s0;
                s2 = RHINO_CRITICAL_EXIT_SCHED psr (pend_to_blk_obj q task ticks s1)
            in if g_active_task s2 = task then bq_pend_return s2 else (s2, Blocks, None)))
   | _ \<Rightarrow> (s, Ret RHINO_NULL_PTR, None))"

definition krhino_buf_queue_flush :: "oid option \<Rightarrow> kstate \<Rightarrow> kstate \<times> kstat" where
  "krhino_buf_queue_flush queue s = (case queue of None \<Rightarrow> (s, RHINO_NULL_PTR) | Some q \<Rightarrow>
     (let psr = irq_off s; s0 = RHINO_CRITICAL_ENTER s in
      if g_intrpt_nested_level s0 > 0 then (RHINO_CRITICAL_EXIT psr s0, RHINO_NOT_CALLED_BY_INTRPT)
      else if obj_type (blks s0 q) \<noteq> RHINO_BUF_QUEUE_OBJ_TYPE
      then (RHINO_CRITICAL_EXIT psr s0, RHINO_KOBJ_TYPE_ERR)
      else (let s1 = upd_bq q (\<lambda>x. x\<lparr>bq_ringbuf := ringbuf_reset (bq_ringbuf x)\<rparr>) s0;
                s2 = upd_bq q (\<lambda>x. x\<lparr>bq_cur_num := 0, bq_peak_num := 0\<rparr>) s1;
                s3 = upd_bq q (\<lambda>x. x\<lparr>min_free_buf_size := rb_freesize (bq_ringbuf x)\<rparr>) s2
            in (RHINO_CRITICAL_EXIT psr s3, RHINO_SUCCESS))))"

record kbuf_queue_info_t =
  info_free_buf_size :: nat
  info_min_free_buf_size :: nat
  info_buf_size :: nat
  info_max_msg_size :: nat
  info_cur_num :: nat
  info_peak_num :: nat

definition krhino_buf_queue_info_get ::
  "oid option \<Rightarrow> bool \<Rightarrow> kstate \<Rightarrow> kstate \<times> kstat \<times> kbuf_queue_info_t option" where
  "krhino_buf_queue_info_get queue info_out s = (case queue of
     None \<Rightarrow> (s, RHINO_NULL_PTR, None)
   | Some q \<Rightarrow>
     if \<not> info_out then (s, RHINO_NULL_PTR, None)
     else (let psr = irq_off s; s0 = RHINO_CRITICAL_ENTER s; x = buf_queues s0 q in
      if obj_type (blks s0 q) \<noteq> RHINO_BUF_QUEUE_OBJ_TYPE
      then (RHINO_CRITICAL_EXIT psr s0, RHINO_KOBJ_TYPE_ERR, None)
      else (RHINO_CRITICAL_EXIT psr s0, RHINO_SUCCESS,
            Some \<lparr>info_free_buf_size = rb_freesize (bq_ringbuf x),
              info_min_free_buf_size = min_free_buf_size x, info_buf_size = rb_end (bq_ringbuf x),
              info_max_msg_size = max_msg_size x, info_cur_num = bq_cur_num x,
              info_peak_num = bq_peak_num x\<rparr>)))"

section \<open>Every call keeps the kernel in order\<close>

definition bq_holds :: "kbuf_queue_t \<Rightarrow> u8 list list \<Rightarrow> bool" where
  "bq_holds q ms \<longleftrightarrow> ring_holds (bq_ringbuf q) ms \<and> length ms = bq_cur_num q
     \<and> rb_blk_size (bq_ringbuf q) = max_msg_size q"

lemma bq_ok_holds: "buf_queue_ok q w \<longleftrightarrow> (\<exists>ms. bq_holds q ms \<and> (w \<noteq> [] \<longrightarrow> ms = []))"
  by (auto simp: buf_queue_ok_def bq_holds_def)

lemma bq_obj_ok:
  "kinv s \<Longrightarrow> obj_type (blks s q) = RHINO_BUF_QUEUE_OBJ_TYPE \<Longrightarrow> buf_queue_ok (buf_queues s q) (waiters s q)"
  using kinv_obj [of s q] by (simp add: obj_ok_def)

lemma good_upd_bq:
  assumes g: "good s" and ty: "obj_type (blks s q) = RHINO_BUF_QUEUE_OBJ_TYPE"
    and ok: "buf_queue_ok (f (buf_queues s q)) (waiters s q)" and psr: "psr = irq_off s"
  shows "good (RHINO_CRITICAL_EXIT psr (upd_bq q f (RHINO_CRITICAL_ENTER s)))"
proof (rule good_payload [OF g])
  let ?s = "upd_bq q f (RHINO_CRITICAL_ENTER s)"
  show "same_tasks s ?s" by (simp add: same_tasks_def upd_bq_def)
  show "same_run s ?s" by (simp add: same_run_def upd_bq_def)
  show "obj_ok ?s q" using ty ok by (simp add: obj_ok_def upd_bq_def)
qed (simp_all add: psr upd_bq_def)

lemma upd_bq_twice: "upd_bq x f (upd_bq x g s) = upd_bq x (\<lambda>q. f (g q)) s"
  by (simp add: upd_bq_def)

lemma upd_bq_bqs: "buf_queues (upd_bq q f s) x = (if x = q then f (buf_queues s q) else buf_queues s x)"
  by (simp add: upd_bq_def)

text \<open>What the caller of the creation functions must provide: the buffer it announces.\<close>

definition bq_mem :: "(nat \<times> u8 list) option \<Rightarrow> nat \<Rightarrow> bool" where
  "bq_mem buf n \<longleftrightarrow> (\<forall>a mem. buf = Some (a, mem) \<longrightarrow> n \<le> length mem)"

lemma bq_ok_fresh:
  assumes "bq_mem (Some (a, mem)) n" "n \<noteq> 0" "b \<noteq> 0" "ty = RINGBUF_TYPE_FIX \<Longrightarrow> b dvd n"
    "bq_ringbuf x = ringbuf_init (take n mem) ty b" "bq_cur_num x = 0" "max_msg_size x = b"
  shows "buf_queue_ok x []"
proof -
  have l: "length (take n mem) = n" using assms by (simp add: bq_mem_def)
  then have ne: "take n mem \<noteq> []" using assms(2) by auto
  have "ring_holds (bq_ringbuf x) []"
    using ringbuf_init_dyn [OF ne, of b] ringbuf_init_fix [OF ne, of b] l assms(3-5)
    by (cases ty) (auto simp: ring_holds_def ringbuf_init_def ringbuf_reset_def)
  then show ?thesis
    using assms by (auto simp: buf_queue_ok_def ringbuf_init_def ringbuf_reset_def)
qed

lemma buf_queue_create_good:
  assumes g: "good s" "\<And>ob. queue = Some ob \<Longrightarrow> obj_type (blks s ob) = RHINO_OBJ_TYPE_NONE"
    and mem: "bq_mem buf n" "type = RINGBUF_TYPE_FIX \<Longrightarrow> b dvd n"
  shows "good (fst (buf_queue_create queue name buf n b mf type s))"
proof (cases "\<exists>ob a mem nm. queue = Some ob \<and> buf = Some (a, mem) \<and> name = Some nm \<and> n \<noteq> 0 \<and> b \<noteq> 0")
  case True
  then obtain ob a m nm where e: "queue = Some ob" "buf = Some (a, m)" "name = Some nm" "n \<noteq> 0" "b \<noteq> 0"
    by blast
  let ?s = "fst (buf_queue_create queue name buf n b mf type s)"
  note d = buf_queue_create_def e Let_def upd_blk_def upd_bq_def
  have ty: "obj_type (blks s ob) = RHINO_OBJ_TYPE_NONE" using assms(2) e by simp
  have bk: "blks ?s = (blks s)(ob := (blks s ob)\<lparr>blk_list := [], blk_policy := BLK_POLICY_PRI,
      obj_type := RHINO_BUF_QUEUE_OBJ_TYPE\<rparr>)"
    by (simp add: d)
  have kl: "g_kobj_list ?s = (g_kobj_list s)\<lparr>buf_queue_head := buf_queue_head (g_kobj_list s) @ [ob]\<rparr>"
    by (simp add: d)
  have "reg_ok ?s"
    by (rule reg_ok_swap [where f = "\<lambda>g. g\<lparr>buf_queue_head := buf_queue_head g @ [ob]\<rparr>" and ob = ob
          and ty = RHINO_BUF_QUEUE_OBJ_TYPE])
       (use goodD(1) [OF g(1)] kl bk ty in \<open>auto simp: kinv_def\<close>)
  moreover have "buf_queue_ok (buf_queues ?s ob) []"
    by (rule bq_ok_fresh [OF mem(1) [unfolded e(2)] e(4,5) mem(2)]) (simp_all add: d)
  then have "obj_ok ?s ob" by (simp add: obj_ok_def bk)
  moreover have "same_run s ?s"
    using goodD(7) [OF g(1)]
    by (simp add: d same_run_def cpu_intrpt_restore_def tspend_handler_def cpu_intrpt_save_def)
  ultimately show ?thesis
    by (intro good_create [OF g(1) _ ty bk]) (simp_all add: buf_queue_create_def e Let_def upd_bq_def)
next
  case False
  then show ?thesis using g(1) by (auto simp: buf_queue_create_def split: option.split)
qed

lemma krhino_buf_queue_dyn_create_good:
  assumes "good s" "\<And>ob. alloc = Some ob \<Longrightarrow> obj_type (blks s ob) = RHINO_OBJ_TYPE_NONE" "bq_mem alloc_buf n"
  shows "good (fst (krhino_buf_queue_dyn_create out alloc alloc_buf name n b s))"
  using assms buf_queue_create_good [OF assms(1) _ assms(3), of alloc RINGBUF_TYPE_DYN b name K_OBJ_DYN_ALLOC]
  by (auto simp: krhino_buf_queue_dyn_create_def krhino_mm_free_good split: option.split prod.split)

lemma buf_queue_unlink_good:
  assumes g: "good s" and ty: "obj_type (blks s ob) = RHINO_BUF_QUEUE_OBJ_TYPE" and psr: "psr = irq_off s"
  shows "good (RHINO_CRITICAL_EXIT_SCHED psr (buf_queue_unlink ob (RHINO_CRITICAL_ENTER s)))"
proof -
  let ?e = "RHINO_CRITICAL_ENTER s"
  have k: "kinv ?e" "obj_type (blks ?e ob) \<noteq> RHINO_MUTEX_OBJ_TYPE" using goodD(1) [OF g] ty by simp_all
  note u = obj_unlink_spec [OF k]
  have "reg_ok (buf_queue_unlink ob ?e)"
    by (rule reg_ok_swap [where s = ?e and f = "\<lambda>g. g\<lparr>buf_queue_head := remove1 ob (buf_queue_head g)\<rparr>"
          and ob = ob and ty = RHINO_OBJ_TYPE_NONE])
       (use k(1) u(4,7) ty in \<open>auto simp: kinv_def buf_queue_unlink_def upd_bq_def Let_def\<close>)
  then show ?thesis
    by (intro good_delete [OF g _ psr refl])
       (use ty in \<open>auto simp: buf_queue_unlink_def upd_bq_def Let_def sysview_def same_run_def\<close>)
qed

lemma krhino_buf_queue_del_good: "good s \<Longrightarrow> good (fst (krhino_buf_queue_del q s))"
  by (simp add: krhino_buf_queue_del_def Let_def good_return buf_queue_unlink_good split: option.split)

lemma krhino_buf_queue_dyn_del_good: "good s \<Longrightarrow> good (fst (krhino_buf_queue_dyn_del q s))"
  by (simp add: krhino_buf_queue_dyn_del_def Let_def good_return buf_queue_unlink_good krhino_mm_free_good
      split: option.split)

text \<open>
  The bytes a send reads: \<open>sent\<close> is the message the ring stores, a whole block for a queue of blocks.
  \<open>readable\<close> says that the memory at \<open>msg\<close> reaches that far.
\<close>

definition sent :: "k_ringbuf_t \<Rightarrow> u8 list \<Rightarrow> nat \<Rightarrow> u8 list" where
  "sent rb data n = (if rb_type rb = RINGBUF_TYPE_FIX then take (rb_blk_size rb) data else take n data)"

definition readable :: "k_ringbuf_t \<Rightarrow> u8 list \<Rightarrow> nat \<Rightarrow> bool" where
  "readable rb data n \<longleftrightarrow>
     (if rb_type rb = RINGBUF_TYPE_FIX then rb_blk_size rb \<le> length data else n \<le> length data)"

lemma ring_frame [simp]:
  "rb_blk_size (norm_tail rb) = rb_blk_size rb" "rb_type (norm_tail rb) = rb_type rb"
  "rb_blk_size (copy_in bs rb) = rb_blk_size rb" "rb_type (copy_in bs rb) = rb_type rb"
  "rb_blk_size (norm_head rb) = rb_blk_size rb" "rb_type (norm_head rb) = rb_type rb"
  by (simp_all add: norm_tail_def norm_head_def copy_in_def Let_def put_tail_def)

lemma push_frame:
  "rb_blk_size (fst (ringbuf_push data n rb)) = rb_blk_size rb"
  "rb_type (fst (ringbuf_push data n rb)) = rb_type rb"
  by (simp_all add: ringbuf_push_def Let_def put_tail_def split: option.split)

lemma ring_push:
  assumes h: "ring_holds rb ms" and r: "readable rb data n"
    and p: "ringbuf_push data n rb = (rb', st)"
  shows "if st = RHINO_SUCCESS then ring_holds rb' (ms @ [sent rb data n]) else rb' = rb"
    "rb_blk_size rb' = rb_blk_size rb" "rb_type rb' = rb_type rb"
proof -
  have fr: "rb_blk_size rb' = rb_blk_size rb \<and> rb_type rb' = rb_type rb"
    using push_frame [of data n rb] p by simp
  then show "rb_blk_size rb' = rb_blk_size rb" "rb_type rb' = rb_type rb" by simp_all
  show "if st = RHINO_SUCCESS then ring_holds rb' (ms @ [sent rb data n]) else rb' = rb"
  proof (cases "st = RHINO_SUCCESS")
    case False
    then show ?thesis using p by (auto simp: ringbuf_push_def Let_def split: if_splits option.splits)
  next
    case True
    show ?thesis
    proof (cases "rb_type rb")
      case RINGBUF_TYPE_FIX
      let ?m = "take (rb_blk_size rb) data"
      have l: "length ?m = rb_blk_size rb" using r RINGBUF_TYPE_FIX by (simp add: readable_def)
      have "push_msg ?m rb = (rb', RHINO_SUCCESS)"
        using p True RINGBUF_TYPE_FIX by (auto simp: ringbuf_push_def split: if_splits)
      from fixed.push_ok [OF _ l this, of ms] show ?thesis
        using h RINGBUF_TYPE_FIX True fr by (simp add: ring_holds_def sent_def)
    next
      case RINGBUF_TYPE_DYN
      let ?m = "take n data"
      have l: "length ?m = n" using r RINGBUF_TYPE_DYN by (simp add: readable_def)
      have "push_msg ?m rb = (rb', RHINO_SUCCESS)"
        using p True RINGBUF_TYPE_DYN l by (auto simp: ringbuf_push_def Let_def split: if_splits option.splits)
      moreover have "dyn_fits ?m"
        using p True RINGBUF_TYPE_DYN l
        by (auto simp: ringbuf_push_def dyn_fits_def ringbuf_headlen_compress_def COMPRESS_LEN_def
            split: if_splits option.splits)
      ultimately show ?thesis
        using dyn.push_ok [of rb ms ?m rb'] h RINGBUF_TYPE_DYN True fr by (simp add: ring_holds_def sent_def)
    qed
  qed
qed

lemma ring_empty: "ring_holds rb ms \<Longrightarrow> ringbuf_is_empty rb \<longleftrightarrow> ms = []"
  by (auto simp: ring_holds_def empty_dyn_iff empty_fix_iff split: if_splits)

lemma ring_pop:
  assumes h: "ring_holds rb (m # ms)"
  shows "\<exists>rb'. ringbuf_pop rb = (rb', RHINO_SUCCESS, m) \<and> ring_holds rb' ms \<and> rb_blk_size rb' = rb_blk_size rb"
proof (cases "rb_type rb")
  case RINGBUF_TYPE_FIX
  then have f: "fix_holds (rb_blk_size rb) rb (m # ms)" using h by (simp add: ring_holds_def)
  then obtain rb' where "ringbuf_pop rb = (rb', RHINO_SUCCESS, m)" "fix_holds (rb_blk_size rb) rb' ms"
    using fixed.pop_first by blast
  then show ?thesis by (intro exI [of _ rb']) (auto simp: ring_holds_def fix_holds_def)
next
  case RINGBUF_TYPE_DYN
  then have "dyn_holds rb (m # ms)" using h by (simp add: ring_holds_def)
  then obtain rb' where r: "ringbuf_pop rb = (rb', RHINO_SUCCESS, m)" "dyn_holds rb' ms"
    using dyn.pop_first by blast
  have "rb_blk_size (fst (ringbuf_pop rb)) = rb_blk_size rb"
    by (simp add: ringbuf_pop_def get_head_def copy_out_header_def copy_out_data_def Let_def split: option.split)
  then show ?thesis using r by (intro exI [of _ rb']) (auto simp: ring_holds_def dyn_holds_def)
qed

lemma ring_reset: "ring_holds rb ms \<Longrightarrow> ring_holds (ringbuf_reset rb) []"
  by (auto simp: ring_holds_def dyn_holds_def fix_holds_def ringbuf_reset_def rb_inv_def rb_used_def
      ring_bytes_def)

lemma inert_bq [simp]: "inert (\<lambda>t. t\<lparr>msg := f (msg t), bq_msg_size := n\<rparr>)"
  by (simp add: inert_def task_view_def)

lemma buf_queue_send_good:
  assumes g: "good s" and r: "n \<le> max_msg_size (buf_queues s q) \<Longrightarrow> readable (bq_ringbuf (buf_queues s q)) data n"
  shows "good (fst (buf_queue_send q data n s))"
proof -
  let ?e = "RHINO_CRITICAL_ENTER s" and ?q = "buf_queues s q"
  obtain rb st where p: "ringbuf_push data n (bq_ringbuf ?q) = (rb, st)" by fastforce
  have push: "good (RHINO_CRITICAL_EXIT (irq_off s) (upd_bq q f ?e))"
    if ty: "obj_type (blks s q) = RHINO_BUF_QUEUE_OBJ_TYPE" and w: "waiters s q = []"
      and n: "n \<le> max_msg_size ?q"
      and f: "bq_ringbuf (f ?q) = rb" "bq_cur_num (f ?q) = (if st = RHINO_SUCCESS then bq_cur_num ?q + 1 else bq_cur_num ?q)"
        "max_msg_size (f ?q) = max_msg_size ?q" for f
  proof (rule good_upd_bq [OF g ty _ refl])
    obtain ms where ms: "bq_holds ?q ms"
      using bq_obj_ok [OF goodD(1) [OF g] ty] by (auto simp: bq_ok_holds)
    then have "ring_holds (bq_ringbuf ?q) ms" by (simp add: bq_holds_def)
    note rp = ring_push [OF this r [OF n] p]
    have "bq_holds (f ?q) (if st = RHINO_SUCCESS then ms @ [sent (bq_ringbuf ?q) data n] else ms)"
      using ms rp f by (simp add: bq_holds_def)
    then show "buf_queue_ok (f ?q) (waiters s q)" using w by (auto simp: bq_ok_holds)
  qed
  have wake: "good (RHINO_CRITICAL_EXIT_SCHED (irq_off s) (pend_task_wakeup (hd (waiters s q))
      (upd_task (hd (waiters s q)) (\<lambda>t. t\<lparr>msg := memcpy (msg t) data n, bq_msg_size := n\<rparr>) ?e)))"
    if "obj_type (blks s q) = RHINO_BUF_QUEUE_OBJ_TYPE" "waiters s q \<noteq> []"
    by (rule wake_inv_end [OF g wake_inv_give(1) [OF wake_inv_start [OF g, of q] _ inert_bq refl] refl])
       (use that in simp_all)
  show ?thesis
    using g push wake
    by (simp add: buf_queue_send_def Let_def good_return p upd_bq_twice upd_bq_bqs not_less)
qed

lemma krhino_buf_queue_send_good:
  assumes "good s" "\<And>q d. queue = Some q \<Longrightarrow> data = Some d \<Longrightarrow> n \<le> max_msg_size (buf_queues s q)
    \<Longrightarrow> readable (bq_ringbuf (buf_queues s q)) d n"
  shows "good (fst (krhino_buf_queue_send queue data n s))"
  using assms by (simp add: krhino_buf_queue_send_def buf_queue_send_good split: option.split)

lemma bq_pend_return_fst: "fst (bq_pend_return s) = fst (pend_return s)"
  by (simp add: bq_pend_return_def pend_return_def Let_def split: prod.split)

lemma krhino_buf_queue_recv_good:
  assumes g: "good s" and idle: "g_active_task s \<noteq> g_idle_task"
  shows "good (fst (krhino_buf_queue_recv queue ticks msg_buf out s))"
proof (cases "\<exists>q buf. queue = Some q \<and> msg_buf = Some buf")
  case True
  then obtain q buf where e: "queue = Some q" "msg_buf = Some buf" by blast
  let ?e = "RHINO_CRITICAL_ENTER s" and ?t = "g_active_task s" and ?q = "buf_queues s q"
  let ?pop = "\<lambda>rb. upd_bq q (\<lambda>x. x\<lparr>bq_ringbuf := rb, bq_cur_num := bq_cur_num x - 1\<rparr>) ?e"
  let ?s1 = "upd_task ?t (\<lambda>t. t\<lparr>msg := buf\<rparr>) ?e"
  have pop: "good (RHINO_CRITICAL_EXIT (irq_off s) (?pop rb))"
    if ty: "obj_type (blks s q) = RHINO_BUF_QUEUE_OBJ_TYPE" and c: "\<not> ringbuf_is_empty (bq_ringbuf ?q)"
      and rb: "ringbuf_pop (bq_ringbuf ?q) = (rb, st, m)" for rb st m
  proof (rule good_upd_bq [OF g ty _ refl])
    obtain ms where ms: "bq_holds ?q ms" "waiters s q \<noteq> [] \<longrightarrow> ms = []"
      using bq_obj_ok [OF goodD(1) [OF g] ty] by (auto simp: bq_ok_holds)
    then obtain m' ms' where e: "ms = m' # ms'"
      using c ring_empty by (cases ms) (auto simp: bq_holds_def)
    then show "buf_queue_ok (?q\<lparr>bq_ringbuf := rb, bq_cur_num := bq_cur_num ?q - 1\<rparr>) (waiters s q)"
      using ring_pop [of "bq_ringbuf ?q" m' ms'] rb ms by (auto simp: bq_ok_holds bq_holds_def)
  qed
  have blk: "good (RHINO_CRITICAL_EXIT_SCHED (irq_off s) (pend_to_blk_obj q ?t ticks ?s1))"
    if ty: "obj_type (blks s q) = RHINO_BUF_QUEUE_OBJ_TYPE" and c: "ringbuf_is_empty (bq_ringbuf ?q)"
      and n: "g_intrpt_nested_level s = 0" "g_sched_lock s = 0"
  proof (rule good_block [OF g _ _ _ n idle])
    show "kinv ?s1" using kinv_inert [OF _ inert_msg] goodD(1) [OF g] by simp
    have "sysview ?s1 = sysview ?e" by (rule sysview_upd_task) (simp add: task_view_def)
    then show "sysview ?s1 = sysview s" by simp
    obtain ms where ms: "bq_holds ?q ms" using bq_obj_ok [OF goodD(1) [OF g] ty] by (auto simp: bq_ok_holds)
    then have "ms = []" using c ring_empty by (auto simp: bq_holds_def)
    then show "obj_ok (pend_to_blk_obj q ?t ticks ?s1) q"
      using ty ms by (auto simp: obj_ok_def bq_ok_holds)
  qed (use ty in \<open>simp_all add: same_run_def\<close>)
  have eq: "fst (krhino_buf_queue_recv queue ticks msg_buf out s) =
    (if \<not> out then s
     else if g_intrpt_nested_level s > 0 \<and> ticks \<noteq> RHINO_NO_WAIT then RHINO_CRITICAL_EXIT (irq_off s) ?e
     else if obj_type (blks s q) \<noteq> RHINO_BUF_QUEUE_OBJ_TYPE then RHINO_CRITICAL_EXIT (irq_off s) ?e
     else if \<not> ringbuf_is_empty (bq_ringbuf ?q)
       then RHINO_CRITICAL_EXIT (irq_off s) (?pop (fst (ringbuf_pop (bq_ringbuf ?q))))
     else if ticks = RHINO_NO_WAIT \<or> g_sched_lock s > 0 then RHINO_CRITICAL_EXIT (irq_off s) ?e
     else fst (block_return ?t (RHINO_CRITICAL_EXIT_SCHED (irq_off s) (pend_to_blk_obj q ?t ticks ?s1))))"
    by (simp add: krhino_buf_queue_recv_def e Let_def upd_bq_twice block_return_def bq_pend_return_fst
        split: prod.split)
  obtain rb st m where rb: "ringbuf_pop (bq_ringbuf ?q) = (rb, st, m)" by (metis prod_cases3)
  show ?thesis
    unfolding eq using g blk pop [OF _ _ rb] by (simp add: rb good_return good_block_return word_pos)
qed (auto simp: krhino_buf_queue_recv_def g split: option.split)

lemma krhino_buf_queue_flush_good:
  assumes g: "good s"
  shows "good (fst (krhino_buf_queue_flush queue s))"
proof (cases queue)
  case (Some q)
  have "good (RHINO_CRITICAL_EXIT (irq_off s) (upd_bq q f (RHINO_CRITICAL_ENTER s)))"
    if ty: "obj_type (blks s q) = RHINO_BUF_QUEUE_OBJ_TYPE"
      and f: "\<And>x. bq_ringbuf (f x) = ringbuf_reset (bq_ringbuf x) \<and> bq_cur_num (f x) = 0
        \<and> max_msg_size (f x) = max_msg_size x" for f
  proof (rule good_upd_bq [OF g ty _ refl])
    obtain ms where ms: "bq_holds (buf_queues s q) ms"
      using bq_obj_ok [OF goodD(1) [OF g] ty] by (auto simp: bq_ok_holds)
    then have "bq_holds (f (buf_queues s q)) []"
      using f [of "buf_queues s q"] ring_reset by (auto simp: bq_holds_def ringbuf_reset_def)
    then show "buf_queue_ok (f (buf_queues s q)) (waiters s q)" by (auto simp: bq_ok_holds)
  qed
  then show ?thesis
    using Some g by (simp add: krhino_buf_queue_flush_def Let_def good_return upd_bq_twice)
qed (simp add: krhino_buf_queue_flush_def g)

lemma krhino_buf_queue_info_get_good: "good s \<Longrightarrow> good (fst (krhino_buf_queue_info_get queue out s))"
  by (simp add: krhino_buf_queue_info_get_def Let_def good_return split: option.split)

end
