(* ===== verification/Irq.thy ===== *)
theory Irq
  imports Sem
begin

text \<open>
  The scheduler lock, interrupt entry and exit, and the task semaphores keep the kernel in order; the
  operations themselves are defined in theories \<open>Sched\<close> and \<open>Sem\<close>. An interrupt is taken with interrupts
  masked, by the processor, before \<open>krhino_intrpt_enter\<close> runs.
\<close>

section \<open>Interrupts\<close>

definition intrpt_take :: "kstate \<Rightarrow> kstate \<times> kstat" where
  "intrpt_take s = krhino_intrpt_enter (s\<lparr>irq_off := True\<rparr>)"

lemma kinv_cpu [simp]:
  "kinv (s\<lparr>irq_off := b\<rparr>) = kinv s" "kinv (s\<lparr>tspend := b\<rparr>) = kinv s"
  "kinv (s\<lparr>g_intrpt_nested_level := n\<rparr>) = kinv s" "kinv (s\<lparr>g_sched_lock := m\<rparr>) = kinv s"
  "kinv (s\<lparr>g_active_task := t\<rparr>) = kinv s" "kinv (s\<lparr>g_preferred_ready_task := t\<rparr>) = kinv s"
  by (rule kinv_view; simp)+

lemma inc_nonzero: "(n :: 'a::len word) < k \<Longrightarrow> n + 1 \<noteq> 0"
  by (metis add_eq_0_iff2 leD word_order.extremum)

lemma intrpt_take_good:
  assumes g: "good s" and n: "g_intrpt_nested_level s < RHINO_CONFIG_INTRPT_MAX_NESTED_LEVEL"
  shows "good (fst (intrpt_take s))" "snd (intrpt_take s) = RHINO_SUCCESS"
    "g_intrpt_nested_level (fst (intrpt_take s)) = g_intrpt_nested_level s + 1"
proof -
  have nz: "g_intrpt_nested_level s + 1 \<noteq> 0"
    using n inc_nonzero by blast
  have e: "intrpt_take s = (s\<lparr>irq_off := True, g_intrpt_nested_level := g_intrpt_nested_level s + 1\<rparr>, RHINO_SUCCESS)"
    using n by (simp add: intrpt_take_def krhino_intrpt_enter_def Let_def cpu_intrpt_save_def cpu_intrpt_restore_def
        not_le)
  show "good (fst (intrpt_take s))"
    using goodD(1,4,6) [OF g] nz by (simp add: e good_def run_ok_def)
  show "snd (intrpt_take s) = RHINO_SUCCESS"
    "g_intrpt_nested_level (fst (intrpt_take s)) = g_intrpt_nested_level s + 1" by (simp_all add: e)
qed

text \<open>
  The return from an interrupt. At the outermost level, unless the scheduler is locked, the best ready
  task runs afterwards, whatever the handler has done.
\<close>

lemma intrpt_return_good:
  assumes g: "good s" and n: "g_intrpt_nested_level s > 0"
  shows "good (intrpt_return s)"
    "g_intrpt_nested_level (intrpt_return s) = g_intrpt_nested_level s - 1"
    "g_sched_lock (intrpt_return s) = g_sched_lock s"
proof -
  let ?n = "g_intrpt_nested_level s - 1"
  have nz: "g_intrpt_nested_level s \<noteq> 0" using n by (simp add: word_pos)
  define s2 where "s2 = s\<lparr>irq_off := True, g_intrpt_nested_level := ?n\<rparr>"
  have k2: "kinv s2" using goodD(1) [OF g] by (simp add: s2_def)
  then have ks: "ksys s2" by (simp add: kinv_def)
  have a: "g_active_task s \<in> all_tasks s" "g_sched_lock s > 0 \<Longrightarrow> task_state (tasks s (g_active_task s)) = K_RDY"
    using goodD(4,6) [OF g] by auto
  have ex: "krhino_intrpt_exit s = (if ?n > 0 \<or> g_sched_lock s > 0 then cpu_intrpt_restore (irq_off s) s2
      else (let s3 = s2\<lparr>g_preferred_ready_task := best s2\<rparr> in
        if best s2 = g_active_task s then cpu_intrpt_restore (irq_off s) s3
        else cpu_intrpt_restore (irq_off s) (cpu_intrpt_switch s3)))"
    using nz ksys_preferred [OF ks] unfolding s2_def
    by (simp add: krhino_intrpt_exit_def Let_def cpu_intrpt_save_def)
  have bs: "best s2 = best s" by (rule best_cong) (simp add: s2_def)
  have "kinv (intrpt_return s)" "g_intrpt_nested_level (intrpt_return s) = ?n" "g_sched_lock (intrpt_return s) = g_sched_lock s"
    unfolding intrpt_return_def ex using k2 by (simp_all add: s2_def cpu_intrpt_switch_def Let_def)
  moreover have "run_ok (intrpt_return s)"
  proof -
    have kl: "all_tasks (intrpt_return s) = all_tasks s" "tasks (intrpt_return s) = tasks s" "irq_off (intrpt_return s) = False"
      "best (intrpt_return s) = best s"
      unfolding intrpt_return_def ex by (simp_all add: s2_def cpu_intrpt_switch_def Let_def best_def)
    have ba: "best s \<in> all_tasks s" "task_state (tasks s (best s)) = K_RDY"
      using ksys_best(1,2) [OF goodD(2) [OF g]] by auto
    have act: "g_active_task (intrpt_return s) = (if ?n > 0 \<or> g_sched_lock s > 0 then g_active_task s else best s)"
      "?n = 0 \<Longrightarrow> \<not> tspend (intrpt_return s)"
      unfolding intrpt_return_def ex bs
      by (auto simp: s2_def cpu_intrpt_switch_def Let_def cpu_intrpt_restore_def tspend_handler_def word_pos)
    show ?thesis
      using a ba act calculation(2,3) unfolding run_ok_def kl by (auto simp: word_pos)
  qed
  ultimately show "good (intrpt_return s)" "g_intrpt_nested_level (intrpt_return s) = ?n"
    "g_sched_lock (intrpt_return s) = g_sched_lock s" by (simp_all add: good_def)
qed

section \<open>The scheduler lock\<close>

lemma krhino_sched_disable_good:
  assumes g: "good s"
  shows "good (fst (krhino_sched_disable s))"
    "g_sched_lock s \<le> SCHED_MAX_LOCK_COUNT \<Longrightarrow> g_sched_lock (fst (krhino_sched_disable s)) \<le> SCHED_MAX_LOCK_COUNT"
proof -
  have "good (RHINO_CRITICAL_EXIT (irq_off s) ((cpu_intrpt_save s)\<lparr>g_sched_lock := g_sched_lock s + 1\<rparr>))"
    if n: "g_intrpt_nested_level s = 0" and l: "g_sched_lock s < 200"
  proof -
    have "g_sched_lock s + 1 \<noteq> 0" using l by (rule inc_nonzero)
    moreover have "\<not> tspend s" "\<not> irq_off s" using goodD(7,8) [OF g n] by simp_all
    ultimately show ?thesis
      using goodD(1,4) [OF g] goodD(5) [OF g n] n
      by (simp add: good_def run_ok_def cpu_intrpt_restore_def cpu_intrpt_save_def)
  qed
  then show "good (fst (krhino_sched_disable s))"
    using good_return [OF g refl]
    by (auto simp: krhino_sched_disable_def Let_def word_pos not_le SCHED_MAX_LOCK_COUNT_def)
  assume "g_sched_lock s \<le> SCHED_MAX_LOCK_COUNT"
  then show "g_sched_lock (fst (krhino_sched_disable s)) \<le> SCHED_MAX_LOCK_COUNT"
    by (auto simp: krhino_sched_disable_def Let_def not_le inc_le)
qed

lemma krhino_sched_enable_good:
  assumes g: "good s"
  shows "good (fst (krhino_sched_enable s))"
    "g_sched_lock s \<le> SCHED_MAX_LOCK_COUNT \<Longrightarrow> g_sched_lock (fst (krhino_sched_enable s)) \<le> SCHED_MAX_LOCK_COUNT"
proof -
  let ?s1 = "(cpu_intrpt_save s)\<lparr>g_sched_lock := g_sched_lock s - 1\<rparr>"
  have k1: "kinv ?s1" using goodD(1) [OF g] by simp
  then have ks: "ksys ?s1" by (simp add: kinv_def)
  have ex: "good (RHINO_CRITICAL_EXIT (irq_off s) ?s1)" if n: "g_intrpt_nested_level s = 0" and l: "g_sched_lock s - 1 > 0"
  proof -
    have "\<not> tspend s" "\<not> irq_off s" using goodD(7,8) [OF g n] by simp_all
    then show ?thesis
      using goodD(1,4) [OF g] goodD(5) [OF g n] n l
      by (simp add: good_def run_ok_def cpu_intrpt_restore_def cpu_intrpt_save_def word_pos)
  qed
  have sc: "good (RHINO_CRITICAL_EXIT_SCHED (irq_off s) ?s1)" if n: "g_intrpt_nested_level s = 0" and l: "g_sched_lock s - 1 = 0"
  proof -
    have *: "\<not> tspend ?s1" "\<not> irq_off s" "g_intrpt_nested_level ?s1 = 0" "g_sched_lock ?s1 = 0"
      using goodD(7,8) [OF g n] n l by simp_all
    have "best (RHINO_CRITICAL_EXIT_SCHED (irq_off s) ?s1) = best ?s1" by (rule best_cong) simp
    then show ?thesis
      using EXIT_SCHED_active [OF ks *] ksys_best(1,2) [OF ks] kinv_EXIT_SCHED [OF k1] *
      by (simp add: good_def run_ok_def)
  qed
  show "good (fst (krhino_sched_enable s))"
    using good_return [OF g refl] ex sc
    by (auto simp: krhino_sched_enable_def Let_def word_pos)
  assume l: "g_sched_lock s \<le> SCHED_MAX_LOCK_COUNT"
  have "g_sched_lock s - 1 \<le> g_sched_lock s" if "g_sched_lock s \<noteq> 0"
    using that by (simp add: word_gt_0 word_le_nat_alt unat_minus_one)
  then show "g_sched_lock (fst (krhino_sched_enable s)) \<le> SCHED_MAX_LOCK_COUNT"
    using l by (auto simp: krhino_sched_enable_def Let_def intro: order_trans)
qed

section \<open>Task semaphores\<close>

lemma krhino_task_sem_create_good:
  assumes "good s" "\<And>ob. sem = Some ob \<Longrightarrow> obj_type (blks s ob) = RHINO_OBJ_TYPE_NONE"
  shows "good (fst (krhino_task_sem_create task sem name cnt s))"
proof -
  have i: "inert (\<lambda>t. t\<lparr>task_sem_obj := o'\<rparr>)" for o' by (simp add: inert_def task_view_def)
  have "good (upd_task t (\<lambda>t. t\<lparr>task_sem_obj := o'\<rparr>) r)" if "good r" for t o' r
    using kinv_inert [OF goodD(1) [OF that] i] goodD(3) [OF that] by (auto simp: good_def run_ok_def best_def)
  then show ?thesis
    using assms sem_create_good [OF assms]
    by (auto simp: krhino_task_sem_create_def krhino_sem_create_def split: option.split prod.split)
      (metis fst_conv)+
qed

lemma krhino_task_sem_good:
  assumes "good s"
  shows "good (fst (krhino_task_sem_del task s))" "good (fst (krhino_task_sem_give task s))"
    "g_active_task s \<noteq> g_idle_task \<Longrightarrow> good (fst (krhino_task_sem_take ticks s))"
    "good (fst (krhino_task_sem_count_set task cnt s))"
  using assms krhino_sem_take_good krhino_sem_count_set_good
  by (simp_all add: krhino_task_sem_del_def krhino_task_sem_give_def krhino_task_sem_take_def
      krhino_task_sem_count_set_def krhino_sem_del_good krhino_sem_give_good split: option.split)

end
