(* ===== verification/Boot.thy ===== *)
theory Boot
  imports Task_Del Buf_Queue Irq
begin

text \<open>
  System start, \<^verbatim>\<open>core/k_sys.c\<close> with the initialisations it calls (\<open>kobj_list_init\<close> of
  \<^verbatim>\<open>core/k_stats.c\<close>, \<open>dyn_mem_proc_task_start\<close>, the kernel objects of \<open>ktimer_init\<close>). The globals of
  \<^verbatim>\<open>core/k_obj.c\<close> lie in zeroed memory, \<open>bss\<close>. The state in which the first task runs satisfies the
  invariant of the kernel, so every statement about states that satisfy it is about states the system
  really has.
\<close>

section \<open>The code\<close>

definition g_dyn_task :: tid where
  "g_dyn_task = 1"

definition g_timer_task :: tid where
  "g_timer_task = 2"

definition g_timer_queue :: oid where
  "g_timer_queue = 1"

text \<open>The addresses of the three static stacks and of the message buffer of the timer queue.\<close>

definition g_idle_task_stack :: nat where
  "g_idle_task_stack = 0x1000"

definition g_dyn_task_stack :: nat where
  "g_dyn_task_stack = 0x2000"

definition g_timer_task_stack :: nat where
  "g_timer_task_stack = 0x3000"

definition timer_queue_cb :: nat where
  "timer_queue_cb = 0x4000"

definition RHINO_CONFIG_IDLE_TASK_STACK_SIZE :: nat where
  "RHINO_CONFIG_IDLE_TASK_STACK_SIZE = 64"

definition RHINO_CONFIG_K_DYN_TASK_STACK :: nat where
  "RHINO_CONFIG_K_DYN_TASK_STACK = 64"

definition RHINO_CONFIG_TIMER_TASK_STACK_SIZE :: nat where
  "RHINO_CONFIG_TIMER_TASK_STACK_SIZE = 200"

definition RHINO_CONFIG_USER_PRI_MAX :: nat where
  "RHINO_CONFIG_USER_PRI_MAX = RHINO_CONFIG_PRI_MAX - 2"

definition RHINO_CONFIG_TIMER_TASK_PRI :: nat where
  "RHINO_CONFIG_TIMER_TASK_PRI = 5"

definition RHINO_CONFIG_TIMER_MSG_NUM :: nat where
  "RHINO_CONFIG_TIMER_MSG_NUM = 10"

text \<open>\<open>sizeof(k_timer_queue_cb)\<close>: a pointer, a byte and padding, two 64-bit words.\<close>

definition TIMER_CB_SIZE :: nat where
  "TIMER_CB_SIZE = 24"

definition kobj_list_init :: "kstate \<Rightarrow> kstate" where
  "kobj_list_init s = s\<lparr>g_kobj_list := \<lparr>task_head = [], mutex_head = [], sem_head = [], queue_head = [],
     event_head = [], buf_queue_head = []\<rparr>\<rparr>"

definition dyn_mem_proc_task_start :: "kstate \<Rightarrow> kstate" where
  "dyn_mem_proc_task_start s =
     fst (krhino_task_create (Some g_dyn_task) (Some ''dyn_mem'') RHINO_CONFIG_USER_PRI_MAX 0
            (Some g_dyn_task_stack) RHINO_CONFIG_K_DYN_TASK_STACK True True s)"

text \<open>The queue and the task of the software timers; the list of timers is in theory \<open>Timer\<close>.\<close>

definition ktimer_init :: "kstate \<Rightarrow> kstate" where
  "ktimer_init s =
     (let s1 = fst (krhino_fix_buf_queue_create (Some g_timer_queue) (Some ''timer_queue'')
                 (Some (timer_queue_cb, replicate (TIMER_CB_SIZE * RHINO_CONFIG_TIMER_MSG_NUM) 0))
                 TIMER_CB_SIZE RHINO_CONFIG_TIMER_MSG_NUM s)
      in fst (krhino_task_create (Some g_timer_task) (Some ''timer_task'') RHINO_CONFIG_TIMER_TASK_PRI 0
            (Some g_timer_task_stack) RHINO_CONFIG_TIMER_TASK_STACK_SIZE True True s1))"

definition krhino_init :: "kstate \<Rightarrow> kstate \<times> kstat" where
  "krhino_init s =
     (let s1 = kobj_list_init (tick_list_init (runqueue_init (s\<lparr>g_sys_stat := RHINO_STOPPED\<rparr>)));
          s2 = fst (krhino_sem_create (Some g_res_sem) (Some ''res_sem'') 0 (s1\<lparr>g_res_list := []\<rparr>));
          s3 = dyn_mem_proc_task_start s2;
          s4 = fst (krhino_task_create (Some g_idle_task) (Some ''idle_task'') RHINO_IDLE_PRI 0
                 (Some g_idle_task_stack) RHINO_CONFIG_IDLE_TASK_STACK_SIZE True True s3)
      in (ktimer_init s4, RHINO_SUCCESS))"

text \<open>The first task starts with the status register of a new stack, which has interrupts open.\<close>

definition cpu_first_task_start :: "kstate \<Rightarrow> kstate" where
  "cpu_first_task_start s = s\<lparr>g_active_task := g_preferred_ready_task s, irq_off := False\<rparr>"

definition krhino_start :: "kstate \<Rightarrow> kstate \<times> kstat" where
  "krhino_start s =
     (if g_sys_stat s = RHINO_STOPPED then
        (let s1 = preferred_cpu_ready_task_get s;
             s2 = s1\<lparr>g_active_task := g_preferred_ready_task s1\<rparr>
         in (cpu_first_task_start (s2\<lparr>g_sys_stat := RHINO_RUNNING\<rparr>), RHINO_SYS_FATAL_ERR))
      else (s, RHINO_RUNNING))"

section \<open>Zeroed memory\<close>

definition zero_task :: ktask_t where
  "zero_task = \<lparr>task_stack_base = 0, stack_size = 0, suspend_count = 0, mutex_list = [], tick_match = 0,
     tick_remain = 0, tick_head = False, msg = [], bq_msg_size = 0, task_state = K_SEED,
     blk_state = BLK_FINISH, blk_obj = None, task_sem_obj = None, task_time_slice = 0, time_total = 0,
     pend_flags = 0, pend_info = 0, pend_option = 0, sched_policy = 0, prio = 0, b_prio = 0,
     task_mm_alloc_flag = K_OBJ_STATIC_ALLOC, runtime = 0\<rparr>"

definition zero_ring :: k_ringbuf_t where
  "zero_ring = \<lparr>rb_mem = [], rb_head = 0, rb_tail = 0, rb_freesize = 0, rb_type = RINGBUF_TYPE_FIX, rb_blk_size = 0\<rparr>"

definition bss :: kstate where
  "bss = \<lparr>tasks = \<lambda>_. zero_task,
     blks = \<lambda>_. \<lparr>blk_list = [], blk_policy = BLK_POLICY_PRI, obj_type = RHINO_OBJ_TYPE_NONE\<rparr>,
     sems = \<lambda>_. \<lparr>count = 0, peak_count = 0, sem_mm_alloc_flag = K_OBJ_STATIC_ALLOC\<rparr>,
     mutexes = \<lambda>_. \<lparr>mutex_task = None, owner_nested = 0, mutex_mm_alloc_flag = K_OBJ_STATIC_ALLOC\<rparr>,
     events = \<lambda>_. \<lparr>flags = 0, event_mm_alloc_flag = K_OBJ_STATIC_ALLOC\<rparr>,
     queues = \<lambda>_. \<lparr>ringbuf = zero_ring, msg_q = \<lparr>queue_start = 0, q_size = 0, cur_num = 0, peak_num = 0\<rparr>,
       queue_mm_alloc_flag = K_OBJ_STATIC_ALLOC\<rparr>,
     buf_queues = \<lambda>_. \<lparr>bq_buf = 0, bq_ringbuf = zero_ring, max_msg_size = 0, bq_cur_num = 0, bq_peak_num = 0,
       min_free_buf_size = 0, bq_mm_alloc_flag = K_OBJ_STATIC_ALLOC\<rparr>,
     g_ready_queue = \<lparr>cur_list_item = \<lambda>_. [], task_bit_map = replicate NUM_WORDS 0, highest_pri = 0\<rparr>,
     g_kobj_list = \<lparr>task_head = [], mutex_head = [], sem_head = [], queue_head = [], event_head = [],
       buf_queue_head = []\<rparr>,
     g_tick_head = [], g_tick_count = 0, g_active_task = 0, g_preferred_ready_task = 0, g_sched_lock = 0,
     g_intrpt_nested_level = 0, g_sys_stat = RHINO_SUCCESS, g_idle_task_spawned = False, g_res_list = [],
     mm_freed = [], irq_off = True, tspend = False, k_faults = []\<rparr>"

definition boot_state :: kstate where
  "boot_state = fst (krhino_start (fst (krhino_init bss)))"

section \<open>The boot state\<close>

lemmas boot_consts = g_idle_task_def g_dyn_task_def g_timer_task_def g_res_sem_def g_timer_queue_def
  RHINO_CONFIG_USER_PRI_MAX_def RHINO_CONFIG_TIMER_TASK_PRI_def RHINO_CONFIG_TIMER_MSG_NUM_def
  TIMER_CB_SIZE_def RHINO_CONFIG_IDLE_TASK_STACK_SIZE_def RHINO_CONFIG_K_DYN_TASK_STACK_def
  RHINO_CONFIG_TIMER_TASK_STACK_SIZE_def

text \<open>Creating a task before the system runs: it only joins the lists.\<close>

definition joined :: "tid \<Rightarrow> ktask_t \<Rightarrow> kstate \<Rightarrow> kstate" where
  "joined t x s = ready_list_add_tail t (s\<lparr>tasks := (tasks s)(t := x),
     g_kobj_list := (g_kobj_list s)\<lparr>task_head := task_head (g_kobj_list s) @ [t]\<rparr>\<rparr>)"

lemma masked: "irq_off s \<Longrightarrow> cpu_intrpt_save s = s" "irq_off s \<Longrightarrow> cpu_intrpt_restore True s = s"
  by (simp_all add: cpu_intrpt_save_def cpu_intrpt_restore_def)

lemma task_create_stopped:
  assumes "g_sys_stat s = RHINO_STOPPED" "g_intrpt_nested_level s = 0" "\<not> tspend s" "irq_off s"
    "pri < 62" "pri = 61 \<Longrightarrow> \<not> g_idle_task_spawned s" "n \<noteq> 0"
  shows "fst (krhino_task_create (Some t) (Some nm) pri ticks (Some stk) n True True s) =
    joined t (new_task stk n pri ticks True K_OBJ_STATIC_ALLOC)
      (if pri = 61 then s\<lparr>g_idle_task_spawned := True\<rparr> else s)"
proof -
  let ?x = "new_task stk n pri ticks True K_OBJ_STATIC_ALLOC"
  define S where "S = (if pri = 61 then s\<lparr>g_idle_task_spawned := True\<rparr> else s)"
  have f: "g_sys_stat S = RHINO_STOPPED" "\<not> tspend S" "irq_off S" "g_intrpt_nested_level S = 0"
    using assms by (simp_all add: S_def)
  have "fst (krhino_task_create (Some t) (Some nm) pri ticks (Some stk) n True True s) =
      (let s4 = cpu_intrpt_save (upd_task t (\<lambda>_. ?x) S) in
       cpu_intrpt_restore True (ready_list_add_tail t
         (s4\<lparr>g_kobj_list := (g_kobj_list s4)\<lparr>task_head := task_head (g_kobj_list s4) @ [t]\<rparr>\<rparr>)))"
    using assms by (cases "pri = 61") (simp_all add: krhino_task_create_def task_create_def Let_def masked S_def)
  also have "\<dots> = joined t ?x S"
    using f by (simp add: joined_def Let_def upd_task_def masked)
  finally show ?thesis unfolding S_def .
qed


lemma joined_frame [simp]:
  "tasks (joined t x s) = (tasks s)(t := x)" "blks (joined t x s) = blks s" "sems (joined t x s) = sems s"
  "mutexes (joined t x s) = mutexes s" "events (joined t x s) = events s" "queues (joined t x s) = queues s"
  "buf_queues (joined t x s) = buf_queues s" "g_tick_head (joined t x s) = g_tick_head s"
  "g_kobj_list (joined t x s) = (g_kobj_list s)\<lparr>task_head := task_head (g_kobj_list s) @ [t]\<rparr>"
  "g_tick_count (joined t x s) = g_tick_count s" "g_active_task (joined t x s) = g_active_task s"
  "g_preferred_ready_task (joined t x s) = g_preferred_ready_task s"
  "g_sched_lock (joined t x s) = g_sched_lock s" "g_sys_stat (joined t x s) = g_sys_stat s"
  "g_intrpt_nested_level (joined t x s) = g_intrpt_nested_level s" "irq_off (joined t x s) = irq_off s"
  "tspend (joined t x s) = tspend s" "k_faults (joined t x s) = k_faults s" "g_res_list (joined t x s) = g_res_list s"
  "g_idle_task_spawned (joined t x s) = g_idle_task_spawned s" "mm_freed (joined t x s) = mm_freed s"
  by (simp_all add: joined_def)

lemma joined_rq:
  assumes "rq_inv R s" "t \<notin> R" "prio x < 62"
  shows "rq_inv (insert t R) (joined t x s)"
proof -
  have "rq_inv R (s\<lparr>tasks := (tasks s)(t := x),
     g_kobj_list := (g_kobj_list s)\<lparr>task_head := task_head (g_kobj_list s) @ [t]\<rparr>\<rparr>)"
    using assms(1,2) by (subst rq_inv_cong [where s = s]) auto
  then show ?thesis unfolding joined_def by (rule rq_inv_add_tail) (use assms in simp_all)
qed

text \<open>The state before the tasks: the run queue is empty and the semaphore \<open>g_res_sem\<close> exists.\<close>

definition boot_sem :: kstate where
  "boot_sem = fst (krhino_sem_create (Some g_res_sem) (Some ''res_sem'') 0
     ((kobj_list_init (tick_list_init (runqueue_init (bss\<lparr>g_sys_stat := RHINO_STOPPED\<rparr>))))\<lparr>g_res_list := []\<rparr>))"

lemma boot_sem_fields:
  "tasks boot_sem = (\<lambda>_. zero_task)" "g_sys_stat boot_sem = RHINO_STOPPED" "g_intrpt_nested_level boot_sem = 0"
  "\<not> tspend boot_sem" "irq_off boot_sem" "\<not> g_idle_task_spawned boot_sem" "g_tick_head boot_sem = []"
  "g_kobj_list boot_sem = \<lparr>task_head = [], mutex_head = [], sem_head = [g_res_sem], queue_head = [],
     event_head = [], buf_queue_head = []\<rparr>"
  "blks boot_sem = (blks bss)(g_res_sem :=
     \<lparr>blk_list = [], blk_policy = BLK_POLICY_PRI, obj_type = RHINO_SEM_OBJ_TYPE\<rparr>)"
  "sems boot_sem = sems bss" "mutexes boot_sem = mutexes bss" "k_faults boot_sem = []"
  "g_ready_queue boot_sem = \<lparr>cur_list_item = \<lambda>_. [], task_bit_map = replicate 2 0, highest_pri = 62\<rparr>"
  "g_tick_count boot_sem = 0" "g_sched_lock boot_sem = 0" "g_res_list boot_sem = []"
  by (simp_all add: boot_sem_def krhino_sem_create_def sem_create_def Let_def kobj_list_init_def tick_list_init_def
      runqueue_init_def bss_def upd_rq_def upd_blk_def upd_sem_def masked fun_eq_iff)

text \<open>The whole start as one expression.\<close>

definition boot_task :: "nat \<Rightarrow> nat \<Rightarrow> nat \<Rightarrow> ktask_t" where
  "boot_task stk n p = new_task stk n p 0 True K_OBJ_STATIC_ALLOC"

definition boot_two :: kstate where
  "boot_two = joined g_idle_task (boot_task g_idle_task_stack 64 61)
     ((joined g_dyn_task (boot_task g_dyn_task_stack 64 60) boot_sem)\<lparr>g_idle_task_spawned := True\<rparr>)"

definition boot_queue :: kstate where
  "boot_queue = fst (krhino_fix_buf_queue_create (Some g_timer_queue) (Some ''timer_queue'')
     (Some (timer_queue_cb, replicate 240 0)) TIMER_CB_SIZE RHINO_CONFIG_TIMER_MSG_NUM boot_two)"

lemma boot_two_fields:
  "g_sys_stat boot_two = RHINO_STOPPED" "g_intrpt_nested_level boot_two = 0" "\<not> tspend boot_two" "irq_off boot_two"
  "rq_inv {g_idle_task, g_dyn_task} boot_two"
  "tasks boot_two = (\<lambda>_. zero_task)(g_dyn_task := boot_task g_dyn_task_stack 64 60,
     g_idle_task := boot_task g_idle_task_stack 64 61)"
  "blks boot_two = blks boot_sem" "sems boot_two = sems bss" "mutexes boot_two = mutexes bss"
  "g_kobj_list boot_two = \<lparr>task_head = [g_dyn_task, g_idle_task], mutex_head = [], sem_head = [g_res_sem],
     queue_head = [], event_head = [], buf_queue_head = []\<rparr>"
  "g_tick_head boot_two = []" "k_faults boot_two = []" "g_sched_lock boot_two = 0" "g_tick_count boot_two = 0"
  "g_res_list boot_two = []"
proof -
  have "rq_inv {} boot_sem"
    by (auto simp: rq_inv_def boot_sem_fields bitmap_test_def numeral_2_eq_2 nth_Cons split: nat.split)
  then have "rq_inv {g_dyn_task} (joined g_dyn_task (boot_task g_dyn_task_stack 64 60) boot_sem)"
    by (rule joined_rq) (simp_all add: boot_task_def new_task_fields)
  then have "rq_inv {g_dyn_task} ((joined g_dyn_task (boot_task g_dyn_task_stack 64 60) boot_sem)\<lparr>g_idle_task_spawned := True\<rparr>)"
    by (subst rq_inv_cong) auto
  then show "rq_inv {g_idle_task, g_dyn_task} boot_two" unfolding boot_two_def
    by (rule joined_rq) (simp_all add: boot_task_def new_task_fields boot_consts)
qed (simp_all add: boot_two_def boot_sem_fields boot_consts)

lemma boot_queue_fields:
  "g_sys_stat boot_queue = RHINO_STOPPED" "g_intrpt_nested_level boot_queue = 0" "\<not> tspend boot_queue" "irq_off boot_queue"
  "tasks boot_queue = tasks boot_two" "sems boot_queue = sems boot_two" "mutexes boot_queue = mutexes boot_two"
  "g_ready_queue boot_queue = g_ready_queue boot_two" "g_tick_head boot_queue = []" "k_faults boot_queue = []"
  "blks boot_queue = (blks bss)(g_res_sem := \<lparr>blk_list = [], blk_policy = BLK_POLICY_PRI, obj_type = RHINO_SEM_OBJ_TYPE\<rparr>,
     g_timer_queue := \<lparr>blk_list = [], blk_policy = BLK_POLICY_PRI, obj_type = RHINO_BUF_QUEUE_OBJ_TYPE\<rparr>)"
  "g_kobj_list boot_queue = \<lparr>task_head = [g_dyn_task, g_idle_task], mutex_head = [], sem_head = [g_res_sem],
     queue_head = [], event_head = [], buf_queue_head = [g_timer_queue]\<rparr>"
  "buf_queue_ok (buf_queues boot_queue g_timer_queue) []" "g_sched_lock boot_queue = 0" "g_tick_count boot_queue = 0"
  "g_res_list boot_queue = []"
proof -
  have m: "bq_mem (Some (timer_queue_cb, replicate 240 0)) 240" by (simp add: bq_mem_def)
  show "buf_queue_ok (buf_queues boot_queue g_timer_queue) []"
    by (rule bq_ok_fresh [OF m, of 24 RINGBUF_TYPE_FIX])
       (simp_all add: boot_queue_def krhino_fix_buf_queue_create_def buf_queue_create_def Let_def upd_bq_def boot_consts)
  show "blks boot_queue = (blks bss)(g_res_sem := \<lparr>blk_list = [], blk_policy = BLK_POLICY_PRI, obj_type = RHINO_SEM_OBJ_TYPE\<rparr>,
     g_timer_queue := \<lparr>blk_list = [], blk_policy = BLK_POLICY_PRI, obj_type = RHINO_BUF_QUEUE_OBJ_TYPE\<rparr>)"
    by (simp add: boot_queue_def krhino_fix_buf_queue_create_def buf_queue_create_def Let_def upd_bq_def upd_blk_def
      boot_consts masked boot_two_fields boot_sem_fields bss_def)
qed (simp_all add: boot_queue_def krhino_fix_buf_queue_create_def buf_queue_create_def Let_def upd_bq_def upd_blk_def
      boot_consts masked boot_two_fields)

definition boot_three :: kstate where
  "boot_three = joined g_timer_task (boot_task g_timer_task_stack 200 5) boot_queue"

lemma krhino_init_bss: "krhino_init bss = (boot_three, RHINO_SUCCESS)"
proof -
  have 1: "fst (krhino_sem_create (Some g_res_sem) (Some ''res_sem'') 0
     ((kobj_list_init (tick_list_init (runqueue_init (bss\<lparr>g_sys_stat := RHINO_STOPPED\<rparr>))))\<lparr>g_res_list := []\<rparr>)) = boot_sem"
    by (simp add: boot_sem_def)
  have 2: "dyn_mem_proc_task_start boot_sem = joined g_dyn_task (boot_task g_dyn_task_stack 64 60) boot_sem"
    unfolding dyn_mem_proc_task_start_def
    by (subst task_create_stopped) (simp_all add: boot_sem_fields boot_task_def boot_consts)
  have 3: "fst (krhino_task_create (Some g_idle_task) (Some ''idle_task'') RHINO_IDLE_PRI 0 (Some g_idle_task_stack)
      RHINO_CONFIG_IDLE_TASK_STACK_SIZE True True (joined g_dyn_task (boot_task g_dyn_task_stack 64 60) boot_sem)) = boot_two"
    by (subst task_create_stopped) (simp_all add: boot_sem_fields boot_task_def boot_two_def boot_consts)
  have q: "fst (krhino_fix_buf_queue_create (Some g_timer_queue) (Some ''timer_queue'')
      (Some (timer_queue_cb, replicate (TIMER_CB_SIZE * RHINO_CONFIG_TIMER_MSG_NUM) 0))
      TIMER_CB_SIZE RHINO_CONFIG_TIMER_MSG_NUM boot_two) = boot_queue"
    by (simp add: boot_queue_def boot_consts)
  have 4: "ktimer_init boot_two = boot_three"
    unfolding ktimer_init_def Let_def q
    by (subst task_create_stopped) (simp_all add: boot_queue_fields boot_three_def boot_task_def
        RHINO_CONFIG_TIMER_TASK_PRI_def RHINO_CONFIG_TIMER_TASK_STACK_SIZE_def)
  show ?thesis unfolding krhino_init_def Let_def 1 2 3 4 ..
qed

lemma boot_three_rq: "rq_inv {g_idle_task, g_dyn_task, g_timer_task} boot_three"
proof -
  have "rq_inv {g_idle_task, g_dyn_task} boot_queue"
    using boot_two_fields(5) by (subst rq_inv_cong [where s = boot_two]) (simp_all add: boot_queue_fields)
  then have "rq_inv (insert g_timer_task {g_idle_task, g_dyn_task}) boot_three" unfolding boot_three_def
    by (rule joined_rq) (simp_all add: boot_consts boot_task_def new_task_fields)
  then show ?thesis by (simp add: insert_commute)
qed

lemma boot_three_tasks:
  "tasks boot_three = (\<lambda>_. zero_task)(g_dyn_task := boot_task g_dyn_task_stack 64 60,
     g_idle_task := boot_task g_idle_task_stack 64 61, g_timer_task := boot_task g_timer_task_stack 200 5)"
  "all_tasks boot_three = {g_idle_task, g_dyn_task, g_timer_task}"
  by (simp_all add: boot_three_def boot_queue_fields boot_two_fields insert_commute)

lemma boot_task_fields [simp]:
  "prio (boot_task a n p) = p" "b_prio (boot_task a n p) = p" "mutex_list (boot_task a n p) = []"
  "\<not> tick_head (boot_task a n p)" "blk_state (boot_task a n p) = BLK_FINISH" "task_state (boot_task a n p) = K_RDY"
  "task_ok (boot_task a n p)" "\<not> waiting (boot_task a n p)"
  by (simp_all add: boot_task_def new_task_fields waiting_def)

lemma boot_three_best: "best boot_three = g_timer_task"
proof -
  have "best boot_three \<in> {g_idle_task, g_dyn_task, g_timer_task}"
    "prio (tasks boot_three (best boot_three)) \<le> prio (tasks boot_three g_timer_task)"
    using rq_inv_best(1,3) [OF boot_three_rq] by simp_all
  then show ?thesis by (elim insertE) (simp_all add: boot_three_tasks boot_consts)
qed

lemma kinv_boot_three: "kinv boot_three"
proof -
  let ?T = "{g_idle_task, g_dyn_task, g_timer_task}"
  have tk: "task_state (tasks boot_three t) = K_RDY \<and> \<not> waiting (tasks boot_three t) \<and> task_ok (tasks boot_three t)
      \<and> mutex_list (tasks boot_three t) = [] \<and> \<not> tick_head (tasks boot_three t) \<and> prio (tasks boot_three t) < 62
      \<and> b_prio (tasks boot_three t) = prio (tasks boot_three t) \<and> blk_state (tasks boot_three t) = BLK_FINISH"
    if "t \<in> ?T" for t
    using that by (elim insertE) (simp_all add: boot_three_tasks boot_consts)
  have bk: "waiters boot_three ob = []" "obj_type (blks boot_three ob) \<noteq> RHINO_MUTEX_OBJ_TYPE" for ob
    by (simp_all add: boot_three_def boot_queue_fields bss_def)
  have rdy: "{t \<in> ?T. task_state (tasks boot_three t) = K_RDY} = ?T" using tk by fastforce
  have w: "{t \<in> ?T. waiting (tasks boot_three t)} = {}" using tk by fastforce
  have m: "mutex_ok ?T boot_three" unfolding mutex_ok_def using tk bk by fastforce
  have c: "core ?T boot_three"
    unfolding core_def rdy w using boot_three_rq m bk tk by (fastforce simp: wait_inv_def)
  have "all_eff (base boot_three) ?T boot_three"
    using tk by (fastforce simp: all_eff_def is_eff_def donors_def)
  moreover have "tick_inv boot_three"
    using tk boot_three_tasks(2) by (fastforce simp: tick_inv_def boot_three_def boot_queue_fields)
  moreover have "task_ok (tasks boot_three t)" if "t \<in> ?T" for t using tk that by fastforce
  moreover have "distinct (task_head (g_kobj_list boot_three))"
    "prio (tasks boot_three g_idle_task) = RHINO_IDLE_PRI" "k_faults boot_three = []"
    by (simp_all add: boot_three_def boot_queue_fields boot_two_fields boot_consts)
  ultimately have k: "ksys boot_three" using c by (simp add: ksys_def boot_three_tasks(2))
  have "obj_ok boot_three ob" for ob
    using boot_queue_fields(13)
    by (auto simp: obj_ok_def boot_three_def boot_queue_fields boot_two_fields bss_def sem_ok_def)
  moreover have "reg_ok boot_three"
    by (auto simp: reg_ok_def boot_three_def boot_queue_fields bss_def boot_consts)
  moreover have "blk_state (tasks boot_three t) \<noteq> BLK_INVALID" if "t \<in> ?T" for t using tk that by fastforce
  ultimately show ?thesis using k by (simp add: kinv_def boot_three_tasks(2))
qed

lemma boot_state_eq:
  "boot_state = boot_three\<lparr>g_preferred_ready_task := g_timer_task, g_active_task := g_timer_task,
      g_sys_stat := RHINO_RUNNING, irq_off := False\<rparr>"
proof -
  have run: "g_sys_stat boot_three = RHINO_STOPPED" by (simp add: boot_three_def boot_queue_fields)
  have "ksys boot_three" using kinv_boot_three by (simp add: kinv_def)
  then show ?thesis
    using run ksys_preferred boot_three_best
    by (simp add: boot_state_def krhino_init_bss krhino_start_def cpu_first_task_start_def Let_def)
qed

lemma boot_state_fields [simp]:
  "g_active_task boot_state = g_timer_task" "g_sys_stat boot_state = RHINO_RUNNING" "tasks boot_state = tasks boot_three"
  "all_tasks boot_state = {g_idle_task, g_dyn_task, g_timer_task}" "g_sched_lock boot_state = 0"
  "g_intrpt_nested_level boot_state = 0" "\<not> irq_off boot_state" "\<not> tspend boot_state" "g_res_list boot_state = []"
  "blks boot_state = (blks bss)(g_res_sem := \<lparr>blk_list = [], blk_policy = BLK_POLICY_PRI, obj_type = RHINO_SEM_OBJ_TYPE\<rparr>,
     g_timer_queue := \<lparr>blk_list = [], blk_policy = BLK_POLICY_PRI, obj_type = RHINO_BUF_QUEUE_OBJ_TYPE\<rparr>)"
  "sems boot_state = sems bss" "mutexes boot_state = mutexes bss" "g_tick_head boot_state = []"
  "g_tick_count boot_state = 0" "k_faults boot_state = []"
  by (simp_all add: boot_state_eq boot_three_tasks(2)) (simp_all add: boot_three_def boot_queue_fields boot_two_fields)

lemma boot_good: "good boot_state"
proof -
  have run: "g_intrpt_nested_level boot_three = 0" "\<not> tspend boot_three"
    by (simp_all add: boot_three_def boot_queue_fields)
  have "kinv boot_state"
    using kinv_boot_three kinv_view [of boot_state boot_three] by (simp add: boot_state_eq sysview_def)
  moreover have "best boot_state = best boot_three" by (rule best_cong) (simp add: boot_state_eq)
  ultimately show ?thesis
    using run boot_three_best boot_three_tasks by (simp add: good_def run_ok_def boot_state_eq)
qed

text \<open>
  C9: After \<open>krhino_init\<close> and \<open>krhino_start\<close> on zeroed memory the system runs the timer task, the
  task of the highest priority, three tasks are ready, and the invariant of the whole kernel holds.
\<close>

theorem boot_state_good:
  "good boot_state \<and> g_active_task boot_state = g_timer_task \<and> g_sys_stat boot_state = RHINO_RUNNING
    \<and> all_tasks boot_state = {g_idle_task, g_dyn_task, g_timer_task}"
  by (simp add: boot_good)

end
