(* ===== verification/Ktime.thy ===== *)
theory Ktime
  imports Tick_Update Boot
begin

text \<open>
  Reading the tick counter and converting between milliseconds and ticks (\<^verbatim>\<open>core/k_time.c\<close>). With 1000
  ticks per second the two units are the same; the padding that rounds up to a whole tick is zero.
\<close>

section \<open>The code\<close>

definition krhino_sys_tick_get :: "kstate \<Rightarrow> kstate \<times> u64" where
  "krhino_sys_tick_get s = (let psr = irq_off s; s0 = cpu_intrpt_save s; tick_tmp = g_tick_count s0
     in (cpu_intrpt_restore psr s0, tick_tmp))"

definition krhino_sys_time_get :: "kstate \<Rightarrow> kstate \<times> u64" where
  "krhino_sys_time_get s = (case krhino_sys_tick_get s of (s1, tick) \<Rightarrow>
     (s1, tick * 1000 div of_nat RHINO_CONFIG_TICKS_PER_SECOND))"

text \<open>
  \<open>surplus\<close> and \<open>padding\<close> are 16-bit variables here, promoted to \<open>int\<close> in the last expression; they are
  at most 1998, so that the product fits.
\<close>

definition krhino_ms_to_ticks :: "u64 \<Rightarrow> u64" where
  "krhino_ms_to_ticks ms =
     (let hz = RHINO_CONFIG_TICKS_PER_SECOND;
          surplus = unat (ms mod 1000);
          ticks = (ms div 1000) * of_nat hz;
          padding = (1000 div hz);
          padding = (if padding > 0 then padding - 1 else 0)
      in ticks + of_nat (((surplus + padding) * hz) div 1000))"

definition krhino_ticks_to_ms :: "u64 \<Rightarrow> u64" where
  "krhino_ticks_to_ms ticks =
     (let hz = RHINO_CONFIG_TICKS_PER_SECOND;
          surplus = unat (ticks mod of_nat hz);
          tm = (ticks div of_nat hz) * 1000;
          padding = hz div 1000;
          padding = (if padding > 0 then padding - 1 else 0)
      in tm + of_nat (((surplus + padding) * 1000) div hz))"

section \<open>Facts\<close>

lemma of_nat_unat_mod: "(of_nat (unat (w mod (k::u64))) :: u64) = w mod k"
  by simp

lemma ms_to_ticks_id [simp]: "krhino_ms_to_ticks ms = ms"
proof -
  have "(ms div 1000) * 1000 + ms mod 1000 = ms" by (rule div_mult_mod_eq)
  then show ?thesis
    by (simp add: krhino_ms_to_ticks_def Let_def RHINO_CONFIG_TICKS_PER_SECOND_def)
qed

lemma ticks_to_ms_id [simp]: "krhino_ticks_to_ms ticks = ticks"
proof -
  have "(ticks div 1000) * 1000 + ticks mod 1000 = ticks" by (rule div_mult_mod_eq)
  then show ?thesis
    by (simp add: krhino_ticks_to_ms_def Let_def RHINO_CONFIG_TICKS_PER_SECOND_def)
qed

text \<open>Reading the counter leaves the state of the kernel alone.\<close>

lemma tick_get_good: "good s \<Longrightarrow> krhino_sys_tick_get s = (s, g_tick_count s)"
  using goodD(7,8) [of s]
  by (cases "g_intrpt_nested_level s = 0")
     (auto simp: krhino_sys_tick_get_def Let_def cpu_intrpt_restore_def cpu_intrpt_save_def)

lemma tick_get_frame [simp]:
  "snd (krhino_sys_tick_get s) = g_tick_count s" "g_tick_count (fst (krhino_sys_tick_get s)) = g_tick_count s"
  by (simp_all add: krhino_sys_tick_get_def Let_def)

text \<open>
  The conversions between milliseconds and ticks are inverse to each other and exact on the whole 64-bit range, and
  the system time in milliseconds is the tick counter, as long as its multiplication by 1000 does not wrap.
\<close>

theorem ms_ticks_roundtrip:
  "krhino_ticks_to_ms (krhino_ms_to_ticks ms) = ms \<and> krhino_ms_to_ticks (krhino_ticks_to_ms ticks) = ticks
    \<and> (unat (g_tick_count s) * 1000 < 2 ^ 64 \<longrightarrow> snd (krhino_sys_time_get s) = g_tick_count s)"
proof -
  have "g_tick_count s * 1000 div 1000 = g_tick_count s" if "unat (g_tick_count s) * 1000 < 2 ^ 64"
  proof -
    have "unat (g_tick_count s * 1000) = unat (g_tick_count s) * 1000"
      using that unat_mult_lem [of "g_tick_count s" 1000] by simp
    then show ?thesis by (simp add: word_unat_eq_iff unat_div)
  qed
  then show ?thesis
    by (simp add: krhino_sys_time_get_def split_beta RHINO_CONFIG_TICKS_PER_SECOND_def)
qed

theorem ms_ticks_roundtrip_witness:
  "krhino_ticks_to_ms (krhino_ms_to_ticks 1234) = 1234 \<and> snd (krhino_sys_time_get boot_state) = 0"
  using ms_ticks_roundtrip [of 1234 0 boot_state] by simp

end
