(* ===== verification/Steps.thy ===== *)
theory Steps
  imports Boot Event Queue
begin

text \<open>
  The kernel as a transition system. A step is one call of an API function by the running task or by an
  interrupt handler, the end of a blocking call, the arrival or the end of an interrupt, or the tick.
  The premises of a rule are obligations. Of the caller: memory given to a creation function holds no live object and is as large as announced, messages are readable in their
  length, task pointers are valid, the idle task does not block and is not deleted (\<open>krhino_task_del\<close> would return with interrupts masked), a handler that suspended the interrupted task does not
  yield. Of the system: no call and no interrupt ends in \<open>k_err_proc\<close>, which resets the processor: a mutex is not locked beyond the nesting limit, interrupts stay below the
  limit of nesting, and a dynamically created task is deleted only while the semaphore of the memory task can count. The calls outside these obligations are functions of the model all the
  same; the first property of the root theory says what they report, and exactly when.

  \<open>mode\<close>: the scheduler lock and the system status, which most functions leave alone. \<open>isr_ctx\<close>: the interrupted task.
\<close>

section \<open>What most functions leave alone\<close>

text \<open>
  A part \<open>view\<close> of the state that the primitive operations leave alone is left alone by the API functions too: what they change they
  change through these operations. The laws are those of the primitive operations; \<open>forget\<close> hides what \<open>task_pri_change\<close> changes.
\<close>

locale kernel_view =
  fixes view :: "kstate \<Rightarrow> 'v"
  assumes view_basic [simp]:
  "view (cpu_intrpt_save s) = view s" "view (cpu_intrpt_restore psr s) = view s"
  "view (RHINO_CRITICAL_EXIT_SCHED psr s) = view s" "view (upd_blk ob fb s) = view s" "view (upd_task t ft s) = view s"
  "view (upd_sem ob fs s) = view s" "view (upd_mutex ob fm s) = view s" "view (upd_event ob fe s) = view s"
  "view (upd_bq ob fq s) = view s" "view (krhino_mm_free p s) = view s" "view (s\<lparr>g_kobj_list := gk\<rparr>) = view s"
  "view (pend_task_wakeup t s) = view s" "view (pend_task_rm t s) = view s" "view (fault ff s) = view s"
  "view (pend_to_blk_obj ob t tk s) = view s" "view (k_err_proc er s) = view s" "view (upd_queue ob fk s) = view s"
  "view (ready_list_rm t s) = view s" "view (ready_list_add t s) = view s" "view (ready_list_add_head t s) = view s"
  "view (ready_list_add_tail t s) = view s" "view (ready_list_head_to_tail t s) = view s"
  "view (s\<lparr>g_idle_task_spawned := b\<rparr>) = view s" "view (tick_list_insert t tk s) = view s"
  "view (tick_list_rm t s) = view s" "view (task_list_rm t s) = view s" "view (s\<lparr>g_res_list := rl\<rparr>) = view s"
  "view (s\<lparr>g_tick_count := tc\<rparr>) = view s" "view (s\<lparr>irq_off := io\<rparr>) = view s"
  "view (preferred_cpu_ready_task_get s) = view s" "view (cpu_intrpt_switch s) = view s"
    and view_forget: "forget s' = forget s \<Longrightarrow> view s' = view s"
    and view_unlock: "view s' = view (s0\<lparr>g_sched_lock := l + 1, g_res_list := r\<rparr>) \<Longrightarrow> view s0 = view s \<Longrightarrow> g_sched_lock s0 = l
      \<Longrightarrow> view (s'\<lparr>g_sched_lock := g_sched_lock s' - 1\<rparr>) = view s"
begin

lemma view_wake_all [simp]: "(\<And>t s. view (wake t s) = view s) \<Longrightarrow> view (wake_all n wake ob s) = view s"
  by (induction n arbitrary: s) simp_all

lemma view_pri_change [simp]: "view (fst (task_pri_change t p s)) = view s"
  by (rule view_forget) simp

lemma view_release [simp]: "view (mutex_release t m s) = view s"
  by (simp add: mutex_release_def mutex_pri_look_def Let_def)

lemma view_compound [simp]:
  "view (pend_all_rm ob s) = view s" "view (obj_unlink ob s) = view s"
  "view (mutex_task_pri_reset t s) = view s" "view (task_msg_recv m t s) = view s"
  "view (mutex_get t ob s) = view s" "view (mutex_unlink ob s) = view s" "view (fst (pend_state_end_proc t s)) = view s"
  by (simp_all add: pend_all_rm_def obj_unlink_def mutex_task_pri_reset_def task_msg_recv_def mutex_get_def mutex_unlink_def
      pend_state_end_proc_def Let_def split: option.split blk_state_t.split)

lemma view_event_scan [simp]: "view (event_scan ev cur ts s) = view s"
  by (induction ts arbitrary: s) (auto simp: Let_def)

lemma view_mutex_free [simp]: "view (task_mutex_free t s) = view s"
proof -
  have "view (mutex_free_loop ms s) = view s" for ms
    by (induction ms arbitrary: s) (auto simp: Let_def)
  then show ?thesis by (simp add: task_mutex_free_def)
qed

lemma view_detach [simp]: "view (task_detach t s) = view s" "view (task_unregister t s) = view s"
  by (auto simp: task_detach_def task_unregister_def Let_def split: task_stat_t.split)

lemma view_pend_return [simp]: "view (fst (pend_return s)) = view s" "view (fst (block_return t s)) = view s"
  by (auto simp: pend_return_def block_return_def Let_def split: prod.split)
     (metis fst_conv view_basic(1) view_compound(7))+

lemma view_create [simp]:
  "view (fst (sem_create sem nm c f s)) = view s" "view (fst (mutex_create mt nm f s)) = view s"
  "view (fst (event_create ev nm fl f s)) = view s" "view (fst (queue_create q nm st n f s)) = view s"
  "view (fst (buf_queue_create bq nm bf n mm f ty s)) = view s"
  by (simp_all add: sem_create_def mutex_create_def event_create_def queue_create_def buf_queue_create_def Let_def
      split: option.split prod.split)

lemma view_dyn_create [simp]:
  "view (fst (krhino_sem_dyn_create out al nm c s)) = view s" "view (fst (krhino_mutex_dyn_create out al nm s)) = view s"
  "view (fst (krhino_event_dyn_create out al nm fl s)) = view s" "view (fst (krhino_queue_dyn_create out al st nm n s)) = view s"
  "view (fst (krhino_buf_queue_dyn_create out al bf nm n mm s)) = view s"
  by (simp_all add: krhino_sem_dyn_create_def krhino_mutex_dyn_create_def krhino_event_dyn_create_def
      krhino_queue_dyn_create_def krhino_buf_queue_dyn_create_def split_beta split: option.split)

lemma view_del [simp]:
  "view (fst (krhino_sem_del ob s)) = view s" "view (fst (krhino_sem_dyn_del ob s)) = view s"
  "view (fst (krhino_mutex_del ob s)) = view s" "view (fst (krhino_mutex_dyn_del ob s)) = view s"
  "view (fst (krhino_event_del ob s)) = view s" "view (fst (krhino_event_dyn_del ob s)) = view s"
  "view (fst (krhino_queue_del ob s)) = view s" "view (fst (krhino_queue_dyn_del ob s)) = view s"
  "view (fst (krhino_buf_queue_del ob s)) = view s" "view (fst (krhino_buf_queue_dyn_del ob s)) = view s"
  by (simp_all add: krhino_sem_del_def krhino_sem_dyn_del_def krhino_mutex_del_def krhino_mutex_dyn_del_def
      krhino_event_del_def krhino_event_dyn_del_def krhino_queue_del_def krhino_queue_dyn_del_def
      krhino_buf_queue_del_def krhino_buf_queue_dyn_del_def sem_unlink_def event_unlink_def queue_unlink_def
      buf_queue_unlink_def Let_def split: option.split)

lemma view_sem [simp]:
  "view (fst (sem_give sem al s)) = view s" "view (fst (krhino_sem_take so tk s)) = view s"
  "view (fst (krhino_sem_count_set so c s)) = view s"
  by (simp_all add: sem_give_def krhino_sem_take_def krhino_sem_count_set_def Let_def split: option.split)

lemma view_mutex [simp]:
  "view (fst (krhino_mutex_lock mo tk s)) = view s" "view (fst (krhino_mutex_unlock mo s)) = view s"
  by (simp_all add: krhino_mutex_lock_def krhino_mutex_unlock_def Let_def split: option.split)

lemma view_event [simp]: "view (fst (event_set ev fl op s)) = view s" "view (fst (krhino_event_get eo fl op out tk s)) = view s"
  by (simp_all add: event_set_def krhino_event_get_def Let_def split_beta split: option.split)

lemma view_queue [simp]:
  "view (fst (msg_send q m al s)) = view s" "view (fst (krhino_queue_recv q tk out s)) = view s"
  "view (fst (krhino_queue_flush q s)) = view s" "view (fst (krhino_queue_is_full q s)) = view s"
  "view (fst (krhino_queue_info_get q out s)) = view s"
  by (simp_all add: msg_send_def krhino_queue_recv_def krhino_queue_flush_def krhino_queue_is_full_def
      krhino_queue_info_get_def queue_pend_return_fst block_return_def Let_def split_beta split: option.split)

lemma view_buf_queue [simp]:
  "view (fst (krhino_buf_queue_send q d n s)) = view s" "view (fst (krhino_buf_queue_recv q tk bf out s)) = view s"
  "view (fst (krhino_buf_queue_flush q s)) = view s" "view (fst (krhino_buf_queue_info_get q out s)) = view s"
  by (simp_all add: krhino_buf_queue_send_def buf_queue_send_def krhino_buf_queue_recv_def krhino_buf_queue_flush_def
      krhino_buf_queue_info_get_def bq_pend_return_fst Let_def split_beta split: option.split)

lemma view_task [simp]:
  "view (fst (task_create t nm p tk st n e a f s)) = view s" "view (fst (krhino_task_dyn_create out al nm p tk n e a s)) = view s"
  "view (fst (krhino_task_sleep tk s)) = view s" "view (fst (krhino_task_yield s)) = view s"
  "view (fst (krhino_cur_task_get s)) = view s" "view (fst (krhino_task_suspend t s)) = view s"
  "view (fst (krhino_task_resume t s)) = view s" "view (fst (krhino_task_pri_change t p out s)) = view s"
  "view (fst (krhino_task_time_slice_set t sl s)) = view s" "view (fst (krhino_sched_policy_set t pol s)) = view s"
  "view (fst (krhino_sched_policy_get t out s)) = view s"
proof -
  show c: "view (fst (task_create t nm p tk st n e a f s)) = view s" for t nm p tk st n e a f
    by (simp add: task_create_def Let_def split: option.split)
  show "view (fst (krhino_task_dyn_create out al nm p tk n e a s)) = view s"
    by (simp add: krhino_task_dyn_create_def task_dyn_create_def c split_beta split: option.split)
  show "view (fst (krhino_task_sleep tk s)) = view s"
    by (simp add: krhino_task_sleep_def task_to_sleep_def Let_def)
  show "view (fst (krhino_task_suspend t s)) = view s"
    by (simp add: krhino_task_suspend_def task_suspend_def Let_def split: option.split task_stat_t.split)
  show "view (fst (krhino_task_resume t s)) = view s"
    by (simp add: krhino_task_resume_def task_resume_def Let_def split: option.split task_stat_t.split)
  show "view (fst (krhino_task_pri_change t p out s)) = view s"
    by (simp add: krhino_task_pri_change_def Let_def split_beta split: option.split)
qed (simp_all add: krhino_task_yield_def krhino_cur_task_get_def krhino_task_time_slice_set_def
      krhino_sched_policy_set_def krhino_sched_policy_get_def Let_def split: option.split)

lemma view_give_locked:
  fixes s and r
  defines "s1 \<equiv> (RHINO_CRITICAL_ENTER s)\<lparr>g_sched_lock := g_sched_lock s + 1, g_res_list := r\<rparr>"
  shows "view ((fst (krhino_sem_give ob s1))\<lparr>g_sched_lock := g_sched_lock (fst (krhino_sem_give ob s1)) - 1\<rparr>) = view s"
proof -
  have "view (fst (krhino_sem_give ob s1)) = view s1" by (simp add: krhino_sem_give_def split: option.split)
  then show ?thesis unfolding s1_def by (rule view_unlock [OF _ view_basic(1)]) simp
qed

lemma view_task_del [simp]:
  "view (fst (krhino_task_del t s)) = view s" "view (fst (krhino_task_dyn_del t s)) = view s"
  "view (krhino_task_deathbed s) = view s"
proof -
  show d: "view (fst (krhino_task_del t s)) = view s" for t s
    by (simp add: krhino_task_del_def Let_def)
  show y: "view (fst (krhino_task_dyn_del t s)) = view s" for t s
    by (simp add: krhino_task_dyn_del_def Let_def split_beta view_give_locked)
  show "view (krhino_task_deathbed s) = view s"
    by (simp add: krhino_task_deathbed_def split_beta d y)
qed

lemma view_res_free [simp]: "view (fst (res_free_one s)) = view s"
  by (simp add: res_free_one_def Let_def split: list.split)

lemma view_tick [simp]: "view (krhino_tick_proc s) = view s"
proof -
  have "view (tick_expire t s) = view s" for t s by (simp add: tick_expire_def Let_def)
  then have "view (tick_scan ts s) = view s" for ts s by (induction ts arbitrary: s) simp_all
  then have "view (tick_list_update 1 s) = view s" for s by (simp add: tick_list_update_def Let_def)
  moreover have "view (time_slice_update s) = view s" for s by (simp add: time_slice_update_def Let_def)
  ultimately show ?thesis by (simp add: krhino_tick_proc_def)
qed

end

subsection \<open>The mode\<close>

definition mode :: "kstate \<Rightarrow> u8 \<times> kstat" where
  "mode s = (g_sched_lock s, g_sys_stat s)"

interpretation mode: kernel_view mode
proof unfold_locales
  show "mode s' = mode s" if "forget s' = forget s" for s s'
    unfolding mode_def using forget_fields(11,13) [OF that] by simp
qed (simp_all add: mode_def upd_sem_def upd_mutex_def upd_event_def upd_bq_def upd_queue_def krhino_mm_free_def k_err_proc_def)

lemmas mode_forget = mode.view_forget

lemma mode_irq [simp]: "mode (fst (intrpt_take s)) = mode s" "mode (intrpt_return s) = mode s"
  by (simp_all add: mode_def intrpt_take_def krhino_intrpt_enter_def intrpt_return_def krhino_intrpt_exit_def Let_def k_err_proc_def)

subsection \<open>The interrupted task\<close>

text \<open>
  The nesting level of interrupts and, inside an interrupt, the interrupted task: only the beginning and the end of an interrupt change them.
\<close>

definition isr_ctx :: "kstate \<Rightarrow> u8 \<times> tid option" where
  "isr_ctx s = (g_intrpt_nested_level s, if g_intrpt_nested_level s > 0 then Some (g_active_task s) else None)"

interpretation isr_ctx: kernel_view isr_ctx
proof unfold_locales
  show "isr_ctx s' = isr_ctx s" if "forget s' = forget s" for s s'
    unfolding isr_ctx_def using forget_fields(9,12) [OF that] by simp
  show "isr_ctx (RHINO_CRITICAL_EXIT_SCHED psr s) = isr_ctx s" for psr s
  proof -
    have "g_active_task (RHINO_CRITICAL_EXIT_SCHED psr s) = g_active_task s" if "g_intrpt_nested_level s > 0"
      using that by (simp add: RHINO_CRITICAL_EXIT_SCHED_def core_sched_def cpu_intrpt_restore_def Let_def word_pos)
    then show ?thesis by (simp add: isr_ctx_def)
  qed
  show "isr_ctx (s'\<lparr>g_sched_lock := g_sched_lock s' - 1\<rparr>) = isr_ctx s"
    if "isr_ctx s' = isr_ctx (s0\<lparr>g_sched_lock := l + 1, g_res_list := r\<rparr>)" "isr_ctx s0 = isr_ctx s" "g_sched_lock s0 = l" for s' s0 l r s
    using that by (auto simp: isr_ctx_def split: if_splits)
qed (simp_all add: isr_ctx_def upd_sem_def upd_mutex_def upd_event_def upd_bq_def upd_queue_def krhino_mm_free_def k_err_proc_def)

section \<open>Steps\<close>

text \<open>
  \<open>unused ob\<close>: the memory at \<open>ob\<close> holds no live object.
\<close>

definition unused :: "kstate \<Rightarrow> oid option \<Rightarrow> bool" where
  "unused s ob \<longleftrightarrow> (\<forall>x. ob = Some x \<longrightarrow> obj_type (blks s x) = RHINO_OBJ_TYPE_NONE)"

abbreviation del_target :: "kstate \<Rightarrow> tid option \<Rightarrow> tid" where
  "del_target s task \<equiv> (case task of None \<Rightarrow> g_active_task s | Some t \<Rightarrow> t)"

text \<open>One rule per call; the premises are the caller's obligations.\<close>

inductive kernel_step :: "kstate \<Rightarrow> kstate \<Rightarrow> bool" where
  step_sem_create: "unused s sem \<Longrightarrow> kernel_step s (fst (krhino_sem_create sem nm c s))"
| step_sem_dyn_create: "unused s sem \<Longrightarrow> kernel_step s (fst (krhino_sem_dyn_create out sem nm c s))"
| step_sem_del: "kernel_step s (fst (krhino_sem_del ob s))"
| step_sem_dyn_del: "kernel_step s (fst (krhino_sem_dyn_del ob s))"
| step_sem_give: "kernel_step s (fst (krhino_sem_give ob s))"
| step_sem_give_all: "kernel_step s (fst (krhino_sem_give_all ob s))"
| step_sem_take: "g_active_task s \<noteq> g_idle_task \<Longrightarrow>
      kernel_step s (fst (krhino_sem_take ob tk s))"
| step_sem_count_set: "kernel_step s (fst (krhino_sem_count_set ob c s))"
| step_task_sem_create: "unused s sem \<Longrightarrow> kernel_step s (fst (krhino_task_sem_create t sem nm c s))"
| step_task_sem_del: "kernel_step s (fst (krhino_task_sem_del t s))"
| step_task_sem_give: "kernel_step s (fst (krhino_task_sem_give t s))"
| step_task_sem_take: "g_active_task s \<noteq> g_idle_task \<Longrightarrow>
      kernel_step s (fst (krhino_task_sem_take tk s))"
| step_task_sem_count_set: "kernel_step s (fst (krhino_task_sem_count_set t c s))"
| step_mutex_create: "unused s ob \<Longrightarrow> kernel_step s (fst (krhino_mutex_create ob nm s))"
| step_mutex_dyn_create: "unused s ob \<Longrightarrow> kernel_step s (fst (krhino_mutex_dyn_create out ob nm s))"
| step_mutex_del: "kernel_step s (fst (krhino_mutex_del ob s))"
| step_mutex_dyn_del: "kernel_step s (fst (krhino_mutex_dyn_del ob s))"
| step_mutex_lock: "g_active_task s \<noteq> g_idle_task \<Longrightarrow> \<not> lock_overflows ob s \<Longrightarrow>
      kernel_step s (fst (krhino_mutex_lock ob tk s))"
| step_mutex_unlock: "g_active_task s \<noteq> g_idle_task \<Longrightarrow>
      kernel_step s (fst (krhino_mutex_unlock ob s))"
| step_event_create: "unused s ob \<Longrightarrow> kernel_step s (fst (krhino_event_create ob nm fl s))"
| step_event_dyn_create: "unused s ob \<Longrightarrow> kernel_step s (fst (krhino_event_dyn_create out ob nm fl s))"
| step_event_del: "kernel_step s (fst (krhino_event_del ob s))"
| step_event_dyn_del: "kernel_step s (fst (krhino_event_dyn_del ob s))"
| step_event_get: "g_active_task s \<noteq> g_idle_task \<Longrightarrow>
      kernel_step s (fst (krhino_event_get ob fl op out tk s))"
| step_event_set: "kernel_step s (fst (krhino_event_set ob fl op s))"
| step_queue_create: "unused s ob \<Longrightarrow> queue_mem st n \<Longrightarrow>
      kernel_step s (fst (krhino_queue_create ob nm st n s))"
| step_queue_dyn_create: "unused s ob \<Longrightarrow> queue_mem st n \<Longrightarrow>
      kernel_step s (fst (krhino_queue_dyn_create out ob st nm n s))"
| step_queue_del: "kernel_step s (fst (krhino_queue_del ob s))"
| step_queue_dyn_del: "kernel_step s (fst (krhino_queue_dyn_del ob s))"
| step_queue_back_send: "length m = 4 \<Longrightarrow> kernel_step s (fst (krhino_queue_back_send ob m s))"
| step_queue_all_send: "length m = 4 \<Longrightarrow> kernel_step s (fst (krhino_queue_all_send ob m s))"
| step_queue_recv: "g_active_task s \<noteq> g_idle_task \<Longrightarrow>
      kernel_step s (fst (krhino_queue_recv ob tk out s))"
| step_queue_is_full: "kernel_step s (fst (krhino_queue_is_full ob s))"
| step_queue_flush: "kernel_step s (fst (krhino_queue_flush ob s))"
| step_queue_info_get: "kernel_step s (fst (krhino_queue_info_get ob out s))"
| step_buf_queue_create: "unused s ob \<Longrightarrow> bq_mem bf n \<Longrightarrow>
      kernel_step s (fst (krhino_buf_queue_create ob nm bf n mm s))"
| step_fix_buf_queue_create: "unused s ob \<Longrightarrow> bq_mem bf (mm * num) \<Longrightarrow> mm * num < 2 ^ 32 \<Longrightarrow>
      kernel_step s (fst (krhino_fix_buf_queue_create ob nm bf mm num s))"
| step_buf_queue_dyn_create: "unused s ob \<Longrightarrow> bq_mem bf n \<Longrightarrow>
      kernel_step s (fst (krhino_buf_queue_dyn_create out ob bf nm n mm s))"
| step_buf_queue_del: "kernel_step s (fst (krhino_buf_queue_del ob s))"
| step_buf_queue_dyn_del: "kernel_step s (fst (krhino_buf_queue_dyn_del ob s))"
| step_buf_queue_send: "\<forall>q d. ob = Some q \<longrightarrow> data = Some d \<longrightarrow> n \<le> max_msg_size (buf_queues s q)
      \<longrightarrow> readable (bq_ringbuf (buf_queues s q)) d n \<Longrightarrow>
      kernel_step s (fst (krhino_buf_queue_send ob data n s))"
| step_buf_queue_recv: "g_active_task s \<noteq> g_idle_task \<Longrightarrow>
      kernel_step s (fst (krhino_buf_queue_recv ob tk rb out s))"
| step_buf_queue_flush: "kernel_step s (fst (krhino_buf_queue_flush ob s))"
| step_buf_queue_info_get: "kernel_step s (fst (krhino_buf_queue_info_get ob out s))"
| step_task_create: "\<forall>x. t = Some x \<longrightarrow> x \<notin> all_tasks s \<Longrightarrow>
      kernel_step s (fst (krhino_task_create t nm p tk stk n e a s))"
| step_task_dyn_create: "\<forall>stk x. al = Some (stk, x) \<longrightarrow> x \<notin> all_tasks s \<Longrightarrow>
      kernel_step s (fst (krhino_task_dyn_create out al nm p tk n e a s))"
| step_task_del: "del_target s t \<in> all_tasks s \<Longrightarrow> prio (tasks s (del_target s t)) \<noteq> RHINO_IDLE_PRI \<Longrightarrow>
      kernel_step s (fst (krhino_task_del t s))"
| step_task_dyn_del: "del_target s t \<in> all_tasks s \<Longrightarrow> (dyn_deletes (del_target s t) s \<longrightarrow> res_sem_ok s) \<Longrightarrow>
      kernel_step s (fst (krhino_task_dyn_del t s))"
| step_task_deathbed: "active_prio s \<noteq> RHINO_IDLE_PRI \<Longrightarrow> (dyn_deletes (g_active_task s) s \<longrightarrow> res_sem_ok s) \<Longrightarrow>
      kernel_step s (krhino_task_deathbed s)"
| step_task_sleep: "g_active_task s \<noteq> g_idle_task \<Longrightarrow>
      kernel_step s (fst (krhino_task_sleep tk s))"
| step_task_yield: "task_state (tasks s (g_active_task s)) = K_RDY \<Longrightarrow> kernel_step s (fst (krhino_task_yield s))"
| step_cur_task_get: "kernel_step s (fst (krhino_cur_task_get s))"
| step_task_suspend: "\<forall>x. t = Some x \<longrightarrow> task_ptr s x \<Longrightarrow>
      kernel_step s (fst (krhino_task_suspend t s))"
| step_task_resume: "\<forall>x. t = Some x \<longrightarrow> task_ptr s x \<Longrightarrow>
      kernel_step s (fst (krhino_task_resume t s))"
| step_task_pri_change: "\<forall>x. t = Some x \<longrightarrow> x \<in> all_tasks s \<Longrightarrow>
      kernel_step s (fst (krhino_task_pri_change t p out s))"
| step_time_slice_set: "kernel_step s (fst (krhino_task_time_slice_set t n s))"
| step_policy_set: "kernel_step s (fst (krhino_sched_policy_set t pol s))"
| step_policy_get: "kernel_step s (fst (krhino_sched_policy_get t out s))"
| step_res_free: "kernel_step s (fst (res_free_one s))"
| step_sched_disable: "kernel_step s (fst (krhino_sched_disable s))"
| step_sched_enable: "kernel_step s (fst (krhino_sched_enable s))"
| step_call_end: "g_intrpt_nested_level s = 0 \<Longrightarrow> kernel_step s (fst (pend_return s))"
| step_irq_take: "g_intrpt_nested_level s < RHINO_CONFIG_INTRPT_MAX_NESTED_LEVEL \<Longrightarrow>
      kernel_step s (fst (intrpt_take s))"
| step_tick: "g_intrpt_nested_level s > 0 \<Longrightarrow> kernel_step s (krhino_tick_proc s)"
| step_irq_return: "g_intrpt_nested_level s > 0 \<Longrightarrow> kernel_step s (intrpt_return s)"

text \<open>What every step keeps.\<close>

definition sys_ok :: "kstate \<Rightarrow> bool" where
  "sys_ok s \<longleftrightarrow> good s \<and> g_sched_lock s \<le> SCHED_MAX_LOCK_COUNT \<and> g_sys_stat s = RHINO_RUNNING"

lemma sys_okI: "good s' \<Longrightarrow> sys_ok s \<Longrightarrow> mode s' = mode s \<Longrightarrow> sys_ok s'"
  by (simp add: sys_ok_def mode_def)

lemma lock_count_small: "\<not> (- 1 :: u8) \<le> SCHED_MAX_LOCK_COUNT"
  by code_simp

lemma sys_ok_lock: "sys_ok s \<Longrightarrow> g_sched_lock s \<noteq> - 1"
  using lock_count_small by (auto simp: sys_ok_def)

lemma step_mode:
  assumes "kernel_step s s'"
  shows "mode s' = mode s \<or> s' = fst (krhino_sched_disable s) \<or> s' = fst (krhino_sched_enable s)"
  using assms
  by (cases rule: kernel_step.cases)
     (simp_all add: krhino_sem_create_def krhino_sem_give_def krhino_sem_give_all_def krhino_task_sem_create_def
      krhino_task_sem_del_def krhino_task_sem_give_def krhino_task_sem_take_def krhino_task_sem_count_set_def
      krhino_mutex_create_def krhino_event_create_def krhino_event_set_def krhino_queue_create_def
      krhino_queue_back_send_def krhino_queue_all_send_def krhino_buf_queue_create_def
      krhino_fix_buf_queue_create_def krhino_task_create_def split_beta split: option.split)

lemma step_isr_ctx:
  assumes "kernel_step s s'"
  shows "isr_ctx s' = isr_ctx s \<or> s' = fst (intrpt_take s) \<or> s' = intrpt_return s"
proof -
  have l: "isr_ctx (fst (krhino_sched_disable s)) = isr_ctx s" "isr_ctx (fst (krhino_sched_enable s)) = isr_ctx s"
    by (simp_all add: krhino_sched_disable_def krhino_sched_enable_def Let_def) (simp_all add: isr_ctx_def)
  show ?thesis
    using assms
    by (cases rule: kernel_step.cases)
       (simp_all add: l krhino_sem_create_def krhino_sem_give_def krhino_sem_give_all_def krhino_task_sem_create_def
        krhino_task_sem_del_def krhino_task_sem_give_def krhino_task_sem_take_def krhino_task_sem_count_set_def
        krhino_mutex_create_def krhino_event_create_def krhino_event_set_def krhino_queue_create_def
        krhino_queue_back_send_def krhino_queue_all_send_def krhino_buf_queue_create_def
        krhino_fix_buf_queue_create_def krhino_task_create_def split_beta split: option.split)
qed

lemmas api_good = krhino_sem_dyn_create_good krhino_sem_del_good krhino_sem_dyn_del_good krhino_sem_give_good
  krhino_sem_give_all_good krhino_sem_take_good krhino_sem_count_set_good krhino_task_sem_create_good
  krhino_task_sem_good krhino_mutex_dyn_create_good krhino_mutex_del_good krhino_mutex_dyn_del_good
  krhino_mutex_lock_good krhino_mutex_unlock_good krhino_event_dyn_create_good krhino_event_del_good
  krhino_event_dyn_del_good krhino_event_get_good krhino_event_set_good krhino_queue_dyn_create_good
  krhino_queue_del_good krhino_queue_dyn_del_good krhino_queue_recv_good krhino_queue_flush_good
  krhino_queue_queries_good krhino_buf_queue_dyn_create_good krhino_buf_queue_del_good
  krhino_buf_queue_dyn_del_good krhino_buf_queue_send_good krhino_buf_queue_recv_good krhino_buf_queue_flush_good
  krhino_buf_queue_info_get_good krhino_task_create_good krhino_task_dyn_create_good
  krhino_task_del_good [OF _ refl] krhino_task_dyn_del_good [OF _ refl] krhino_task_deathbed_good krhino_task_sleep_good
  krhino_task_yield_good krhino_cur_task_get_good krhino_task_suspend_good krhino_task_resume_good
  krhino_task_pri_change_good krhino_task_time_slice_set_good krhino_sched_policy_set_good
  krhino_sched_policy_get_good res_free_one_good krhino_sched_disable_good(1) krhino_sched_enable_good(1)
  good_pend_return(1) intrpt_take_good(1) krhino_tick_proc_good intrpt_return_good(1)

lemma step_good:
  assumes "kernel_step s s'" "sys_ok s"
  shows "good s'"
proof -
  have g: "good s" "g_sys_stat s = RHINO_RUNNING" "g_sched_lock s \<noteq> - 1"
    using assms(2) sys_ok_lock by (auto simp: sys_ok_def)
  from assms(1) show ?thesis
    by (cases rule: kernel_step.cases)
       (use g goodD(5) [OF g(1)] in \<open>auto simp: unused_def krhino_sem_create_def krhino_mutex_create_def
          krhino_event_create_def krhino_queue_create_def krhino_buf_queue_create_def krhino_fix_buf_queue_create_def
          krhino_queue_back_send_def krhino_queue_all_send_def
          intro!: api_good sem_create_good mutex_create_good event_create_good queue_create_good buf_queue_create_good
          msg_send_good\<close>)
qed

lemma step_sys_ok:
  assumes "kernel_step s s'" "sys_ok s"
  shows "sys_ok s'"
proof -
  have g: "good s" "g_sched_lock s \<le> SCHED_MAX_LOCK_COUNT" "g_sys_stat s = RHINO_RUNNING"
    using assms(2) by (auto simp: sys_ok_def)
  have st: "g_sys_stat (fst (krhino_sched_disable s)) = g_sys_stat s" "g_sys_stat (fst (krhino_sched_enable s)) = g_sys_stat s"
    by (simp_all add: krhino_sched_disable_def krhino_sched_enable_def Let_def)
  from step_mode [OF assms(1)] step_good [OF assms] show ?thesis
    using sys_okI [OF _ assms(2)] krhino_sched_disable_good(2) [OF g(1,2)] krhino_sched_enable_good(2) [OF g(1,2)] g st
    by (auto simp: sys_ok_def)
qed

section \<open>Reachable states\<close>

text \<open>
  An invariant of a transition system: it holds at the start and every step keeps it. The client's
  conclusion is that it holds in every reachable state.
\<close>

locale invariant_system =
  fixes step :: "'s \<Rightarrow> 's \<Rightarrow> bool" and init :: 's and inv :: "'s \<Rightarrow> bool"
  assumes inv_init: "inv init"
    and inv_step: "step s s' \<Longrightarrow> inv s \<Longrightarrow> inv s'"
begin

lemma inv_reachable: "step\<^sup>*\<^sup>* init s \<Longrightarrow> inv s"
  by (induction rule: rtranclp_induct) (auto intro: inv_init inv_step)

lemma inv_run: "inv s \<Longrightarrow> step\<^sup>*\<^sup>* s s' \<Longrightarrow> inv s'"
  by (rotate_tac, induction rule: rtranclp_induct) (auto intro: inv_step)

end

interpretation kernel: invariant_system kernel_step boot_state sys_ok
  by (unfold_locales, simp add: sys_ok_def boot_good) (rule step_sys_ok)

inductive reachable :: "kstate \<Rightarrow> bool" where
  reach_boot: "reachable boot_state"
| reach_step: "reachable s \<Longrightarrow> kernel_step s s' \<Longrightarrow> reachable s'"

lemma reachable_iff: "reachable s \<longleftrightarrow> kernel_step\<^sup>*\<^sup>* boot_state s"
proof
  show "reachable s \<Longrightarrow> kernel_step\<^sup>*\<^sup>* boot_state s"
    by (induction rule: reachable.induct) auto
  show "kernel_step\<^sup>*\<^sup>* boot_state s \<Longrightarrow> reachable s"
    by (induction rule: rtranclp_induct) (auto intro: reachable.intros)
qed

lemma reachable_ok: "reachable s \<Longrightarrow> sys_ok s"
  using kernel.inv_reachable by (simp add: reachable_iff)

end
