(* ===== verification/Contracts.thy ===== *)
theory Contracts
  imports Steps Tick_Update
begin

text \<open>
  What the API functions promise, branch by branch, for states that satisfy the invariant of the kernel:
  semaphores as an abstract counting semaphore, hand-over of mutexes, expiry of timeouts, suspension,
  deletion, and the calls that are refused in an interrupt handler.
\<close>

section \<open>Entering and leaving\<close>

text \<open>A critical section in which nothing happens changes nothing.\<close>

lemma enter_exit [simp]: "good s \<Longrightarrow> RHINO_CRITICAL_EXIT (irq_off s) (RHINO_CRITICAL_ENTER s) = s"
  using goodD(7,8) [of s]
  by (cases "g_intrpt_nested_level s = 0") (auto simp: cpu_intrpt_restore_def cpu_intrpt_save_def)

lemma exit_active:
  assumes "good s" "tspend s' = tspend s" "g_intrpt_nested_level s' = g_intrpt_nested_level s"
  shows "g_active_task (RHINO_CRITICAL_EXIT psr s') = g_active_task s'"
  using goodD(7) [OF assms(1)] assms(2,3) by (auto simp: cpu_intrpt_restore_def)

text \<open>A task that has been put on a wait list is switched out before the call goes on.\<close>

lemma blocks:
  assumes "good r" "g_intrpt_nested_level r = 0" "task_state (tasks r t) \<noteq> K_RDY"
  shows "block_return t r = (r, Blocks)"
  using goodD(5) [OF assms(1,2)] assms(3) by (auto simp: block_return_def)

section \<open>Semaphores\<close>

text \<open>
  The abstract semaphore: units available and the queue of waiting tasks. Giving hands the unit to the first
  waiter or adds it to the units, and fails at the top of the range; taking uses a unit or queues the task.
\<close>

type_synonym asem = "nat \<times> tid list"

definition asem_of :: "kstate \<Rightarrow> oid \<Rightarrow> asem" where
  "asem_of s sem = (unat (count (sems s sem)), waiters s sem)"

definition asem_give :: "asem \<Rightarrow> asem option" where
  "asem_give a = (case a of (n, w) \<Rightarrow>
     if w \<noteq> [] then Some (n, tl w) else if n < 2 ^ 32 - 1 then Some (n + 1, []) else None)"

definition asem_take :: "asem \<Rightarrow> asem option" where
  "asem_take a = (case a of (n, w) \<Rightarrow> if n > 0 then Some (n - 1, w) else None)"

lemma unat_inc32: "(c::u32) \<noteq> - 1 \<Longrightarrow> unat (c + 1) = unat c + 1 \<and> unat c < 2 ^ 32 - 1"
proof -
  assume "c \<noteq> - 1"
  then have "c + 1 \<noteq> 0" by (simp add: add_eq_0_iff2)
  then have "unat (c + 1) = unat c + 1" by (metis unatSuc Suc_eq_plus1 add.commute)
  moreover have "unat (c + 1) < 2 ^ 32" using unsigned_less [of "c + 1", where ?'a = nat] by simp
  ultimately show ?thesis by simp
qed

lemma unat_max32: "unat (- 1 :: u32) = 2 ^ 32 - 1"
  by (simp add: unsigned_minus_1_eq_mask mask_eq_exp_minus_1)

lemma wakeup_waiters_hd:
  assumes "ksys s" "waiters s ob \<noteq> []"
  shows "waiters (pend_task_wakeup (hd (waiters s ob)) s) ob = tl (waiters s ob)"
    "x \<noteq> ob \<Longrightarrow> waiters (pend_task_wakeup (hd (waiters s ob)) s) x = waiters s x"
proof -
  have h: "hd (waiters s ob) \<in> set (waiters s ob)" using assms(2) by simp
  have w: "waiting (tasks s (hd (waiters s ob)))" using ksys_waiter(2) [OF assms(1) h] .
  show "waiters (pend_task_wakeup (hd (waiters s ob)) s) ob = tl (waiters s ob)"
    using wakeup.wake_fields(1) [OF w, of ob] assms(2) by (cases "waiters s ob") simp_all
  show "x \<noteq> ob \<Longrightarrow> waiters (pend_task_wakeup (hd (waiters s ob)) s) x = waiters s x"
    using wakeup.wake_waiters_other [OF assms(1) h] by simp
qed

text \<open>
  C12: \<open>krhino_sem_give\<close> implements the abstract operation: it succeeds exactly when the abstract semaphore can
  take the unit, changes it accordingly, and at the top of the range returns \<open>RHINO_SEM_OVF\<close> and
  changes nothing at all.
\<close>

theorem sem_give_refines:
  assumes "good s" "obj_type (blks s sem) = RHINO_SEM_OBJ_TYPE"
  shows "case asem_give (asem_of s sem) of
      Some a \<Rightarrow> snd (krhino_sem_give (Some sem) s) = RHINO_SUCCESS
        \<and> asem_of (fst (krhino_sem_give (Some sem) s)) sem = a
    | None \<Rightarrow> krhino_sem_give (Some sem) s = (s, RHINO_SEM_OVF)"
proof (cases "waiters s sem = []")
  case True
  show ?thesis
  proof (cases "count (sems s sem) = - 1")
    case c: True
    then show ?thesis using True assms
      by (simp add: asem_give_def asem_of_def unat_max32 krhino_sem_give_def sem_give_def Let_def)
  next
    case False
    then show ?thesis using True assms unat_inc32 [OF False]
      by (simp add: asem_give_def asem_of_def krhino_sem_give_def sem_give_def Let_def upd_sem_def)
  qed
next
  case False
  have "ksys (RHINO_CRITICAL_ENTER s)" using goodD(2) [OF assms(1)] by simp
  from wakeup_waiters_hd(1) [OF this, of sem] False assms show ?thesis
    by (simp add: asem_give_def asem_of_def krhino_sem_give_def sem_give_def Let_def)
qed

theorem sem_give_refines_witness:
  "asem_of (fst (krhino_sem_give (Some g_res_sem) boot_state)) g_res_sem = (1, [])"
  using sem_give_refines [OF boot_good, of g_res_sem]
  by (simp add: asem_give_def asem_of_def boot_consts bss_def)

lemma sem_take_blocks:
  assumes g: "good s" and ty: "obj_type (blks s sem) = RHINO_SEM_OBJ_TYPE" and n: "g_intrpt_nested_level s = 0"
    and idle: "g_active_task s \<noteq> g_idle_task" and c: "\<not> count (sems s sem) > 0" and t: "ticks \<noteq> RHINO_NO_WAIT"
    and l: "g_sched_lock s = 0"
  defines "b \<equiv> RHINO_CRITICAL_EXIT_SCHED (irq_off s)
      (pend_to_blk_obj sem (g_active_task s) ticks (RHINO_CRITICAL_ENTER s))"
  shows "krhino_sem_take (Some sem) ticks s = (b, Blocks)" "good b"
    "set (waiters b sem) = insert (g_active_task s) (set (waiters s sem))" "sems b = sems s"
    "task_state (tasks b (g_active_task s)) = K_PEND" "g_active_task b \<noteq> g_active_task s"
    "g_intrpt_nested_level b = 0"
proof -
  show st: "task_state (tasks b (g_active_task s)) = K_PEND" "g_intrpt_nested_level b = 0"
    using n by (simp_all add: b_def pend_to_blk_obj_task)
  show gb: "good b" unfolding b_def by (rule sem_block_good [OF g idle ty c n l])
  have "krhino_sem_take (Some sem) ticks s = block_return (g_active_task s) b"
    using ty n c t l by (simp add: krhino_sem_take_def Let_def b_def)
  then show "krhino_sem_take (Some sem) ticks s = (b, Blocks)" using blocks [OF gb st(2)] st(1) by simp
  show "g_active_task b \<noteq> g_active_task s" using goodD(5) [OF gb st(2)] st(1) by auto
  show "set (waiters b sem) = insert (g_active_task s) (set (waiters s sem))" "sems b = sems s"
    by (simp_all add: b_def pend_to_blk_obj_waiters)
qed

text \<open>
  C13: \<open>krhino_sem_take\<close> outside interrupt handlers: with a unit available it takes it at once; without one it
  returns \<open>RHINO_NO_PEND_WAIT\<close> when asked not to wait and \<open>RHINO_SCHED_DISABLE\<close> under the scheduler lock,
  changing nothing; otherwise the caller is queued and switched out, and the units stay as they are.
\<close>

theorem sem_take_refines:
  assumes "good s" "obj_type (blks s sem) = RHINO_SEM_OBJ_TYPE" "g_intrpt_nested_level s = 0"
    and "g_active_task s \<noteq> g_idle_task" and r: "krhino_sem_take (Some sem) ticks s = (s', ret)"
  shows "case asem_take (asem_of s sem) of
      Some a \<Rightarrow> ret = Ret RHINO_SUCCESS \<and> asem_of s' sem = a \<and> g_active_task s' = g_active_task s
    | None \<Rightarrow>
        if ticks = RHINO_NO_WAIT then (s', ret) = (s, Ret RHINO_NO_PEND_WAIT)
        else if g_sched_lock s > 0 then (s', ret) = (s, Ret RHINO_SCHED_DISABLE)
        else ret = Blocks \<and> set (waiters s' sem) = insert (g_active_task s) (set (waiters s sem))
          \<and> sems s' = sems s \<and> task_state (tasks s' (g_active_task s)) = K_PEND
          \<and> g_active_task s' \<noteq> g_active_task s"
proof (cases "count (sems s sem) > 0")
  case True
  then have "krhino_sem_take (Some sem) ticks s = (RHINO_CRITICAL_EXIT (irq_off s)
      (upd_sem sem (\<lambda>m. m\<lparr>count := count m - 1\<rparr>) (RHINO_CRITICAL_ENTER s)), Ret RHINO_SUCCESS)"
    using assms(2,3) by (simp add: krhino_sem_take_def Let_def)
  moreover have "g_active_task (RHINO_CRITICAL_EXIT (irq_off s)
      (upd_sem sem (\<lambda>m. m\<lparr>count := count m - 1\<rparr>) (RHINO_CRITICAL_ENTER s))) = g_active_task s"
    by (subst exit_active [OF assms(1)]) (simp_all add: upd_sem_def)
  ultimately show ?thesis
    using r True by (auto simp: asem_take_def asem_of_def upd_sem_def unat_minus_one word_pos unat_gt_0)
next
  case False
  then have c: "count (sems s sem) = 0" by (simp add: word_pos)
  show ?thesis
  proof (cases "ticks = RHINO_NO_WAIT \<or> g_sched_lock s > 0")
    case True
    then show ?thesis using r c assms by (auto simp: krhino_sem_take_def Let_def asem_take_def asem_of_def)
  next
    case w: False
    have "\<not> count (sems s sem) > 0" "ticks \<noteq> RHINO_NO_WAIT" "g_sched_lock s = 0" using c w by (auto simp: word_pos)
    note b = sem_take_blocks [OF assms(1-4) this]
    then show ?thesis
      using r b(1) c w by (auto simp: asem_take_def asem_of_def)
  qed
qed

text \<open>A reachable state in which a task waits: the timer task of the boot state takes \<open>g_res_sem\<close>.\<close>

definition boot_blocked :: kstate where
  "boot_blocked = fst (krhino_sem_take (Some g_res_sem) RHINO_WAIT_FOREVER boot_state)"

lemma boot_blocked_facts:
  "reachable boot_blocked" "good boot_blocked" "waiters boot_blocked g_res_sem = [g_timer_task]"
  "g_active_task boot_blocked = g_dyn_task" "obj_type (blks boot_blocked g_res_sem) = RHINO_SEM_OBJ_TYPE"
  "g_intrpt_nested_level boot_blocked = 0" "g_sched_lock boot_blocked = 0"
proof -
  have "\<not> count (sems boot_state g_res_sem) > 0" "(RHINO_WAIT_FOREVER :: u64) \<noteq> RHINO_NO_WAIT"
    by (simp_all add: bss_def)
  note b = sem_take_blocks [OF boot_good _ _ _ this]
  have e: "boot_blocked = RHINO_CRITICAL_EXIT_SCHED (irq_off boot_state)
      (pend_to_blk_obj g_res_sem g_timer_task RHINO_WAIT_FOREVER (RHINO_CRITICAL_ENTER boot_state))"
    using b(1) by (simp add: boot_blocked_def boot_consts)
  show "reachable boot_blocked" unfolding boot_blocked_def
    by (rule reach_step [OF reach_boot step_sem_take]) (simp add: boot_consts)
  show g: "good boot_blocked" using b(2) by (simp add: e boot_consts)
  show ty: "obj_type (blks boot_blocked g_res_sem) = RHINO_SEM_OBJ_TYPE" "g_intrpt_nested_level boot_blocked = 0"
    "g_sched_lock boot_blocked = 0"
    by (simp_all add: e boot_consts)
  show "waiters boot_blocked g_res_sem = [g_timer_task]"
    by (simp add: e pend_to_blk_obj_def Let_def boot_consts bss_def)
  have "task_state (tasks boot_blocked g_dyn_task) = K_RDY" "g_dyn_task \<in> all_tasks boot_blocked"
    "prio (tasks boot_blocked g_dyn_task) = 60"
    by (simp_all add: e boot_three_tasks boot_consts)
  moreover have "all_tasks boot_blocked = {g_idle_task, g_dyn_task, g_timer_task}" by (simp add: e)
  moreover have "prio (tasks boot_blocked g_idle_task) = 61" by (simp add: e boot_three_tasks boot_consts)
  moreover have "task_state (tasks boot_blocked g_timer_task) = K_PEND" by (simp add: e pend_to_blk_obj_task)
  ultimately show "g_active_task boot_blocked = g_dyn_task"
    using ksys_best [OF goodD(2) [OF g]] goodD(9) [OF g ty(2,3)] by force
qed

theorem sem_take_refines_witness:
  "snd (krhino_sem_take (Some g_res_sem) RHINO_WAIT_FOREVER boot_state) = Blocks
    \<and> set (waiters boot_blocked g_res_sem) = {g_timer_task} \<and> g_active_task boot_blocked \<noteq> g_timer_task"
  using sem_take_refines [OF boot_good, of g_res_sem RHINO_WAIT_FOREVER boot_blocked
      "snd (krhino_sem_take (Some g_res_sem) RHINO_WAIT_FOREVER boot_state)"]
  by (simp add: asem_take_def asem_of_def boot_consts bss_def boot_blocked_def)

text \<open>
  Taking after giving, with nobody waiting, restores the units.
\<close>

theorem sem_give_take_roundtrip:
  assumes "good s" "obj_type (blks s sem) = RHINO_SEM_OBJ_TYPE" "g_intrpt_nested_level s = 0"
    and "waiters s sem = []" "count (sems s sem) \<noteq> - 1"
    and "s1 = fst (krhino_sem_give (Some sem) s)" "krhino_sem_take (Some sem) ticks s1 = (s2, ret)"
  shows "ret = Ret RHINO_SUCCESS \<and> asem_of s2 sem = asem_of s sem \<and> tasks s2 = tasks s"
proof -
  have nz: "count (sems s sem) + 1 \<noteq> 0" using assms(5) by (simp add: add_eq_0_iff2)
  have s1: "s1 = RHINO_CRITICAL_EXIT (irq_off s) (upd_sem sem (\<lambda>m. m\<lparr>count := count m + 1,
      peak_count := if count m + 1 > peak_count m then count m + 1 else peak_count m\<rparr>) (RHINO_CRITICAL_ENTER s))"
    using assms by (simp add: krhino_sem_give_def sem_give_def Let_def upd_sem_def fun_upd_idem)
  have f: "count (sems s1 sem) = count (sems s sem) + 1" "waiters s1 sem = []" "tasks s1 = tasks s"
    "obj_type (blks s1 sem) = RHINO_SEM_OBJ_TYPE" "g_intrpt_nested_level s1 = 0"
    unfolding s1 using assms(1-5) by (simp_all add: upd_sem_def)
  show ?thesis
    using assms(4,7) f nz
    by (auto simp: krhino_sem_take_def Let_def asem_of_def upd_sem_def word_pos)
qed

theorem sem_give_take_roundtrip_witness:
  "asem_of (fst (krhino_sem_take (Some g_res_sem) 0 (fst (krhino_sem_give (Some g_res_sem) boot_state)))) g_res_sem
    = asem_of boot_state g_res_sem"
  using sem_give_take_roundtrip [OF boot_good, of g_res_sem "fst (krhino_sem_give (Some g_res_sem) boot_state)" 0
      "fst (krhino_sem_take (Some g_res_sem) 0 (fst (krhino_sem_give (Some g_res_sem) boot_state)))"
      "snd (krhino_sem_take (Some g_res_sem) 0 (fst (krhino_sem_give (Some g_res_sem) boot_state)))"]
  by (simp add: bss_def boot_consts)

section \<open>Mutexes\<close>

text \<open>
  C14: Releasing a mutex that others wait for passes it to the waiter with the highest priority: the first of the
  wait list becomes the owner with nesting one and leaves the list, the old owner no longer owns it, and no
  waiter had a higher priority than the new owner.
\<close>

theorem mutex_unlock_handover:
  assumes g: "good s" "g_sys_stat s = RHINO_RUNNING" "g_intrpt_nested_level s = 0" "g_active_task s \<noteq> g_idle_task"
    and m: "obj_type (blks s m) = RHINO_MUTEX_OBJ_TYPE" "mutex_task (mutexes s m) = Some (g_active_task s)"
      "owner_nested (mutexes s m) = 1" "waiters s m \<noteq> []"
    and h: "h = hd (waiters s m)" and s': "s' = fst (krhino_mutex_unlock (Some m) s)"
  shows "snd (krhino_mutex_unlock (Some m) s) = RHINO_SUCCESS \<and> mutex_task (mutexes s' m) = Some h
    \<and> owner_nested (mutexes s' m) = 1 \<and> m \<in> set (mutex_list (tasks s' h))
    \<and> m \<notin> set (mutex_list (tasks s' (g_active_task s))) \<and> waiters s' m = tl (waiters s m)
    \<and> (\<forall>u\<in>set (waiters s m). prio (tasks s h) \<le> prio (tasks s u))"
proof -
  let ?e = "RHINO_CRITICAL_ENTER s" and ?t = "g_active_task s" and ?dec = "\<lambda>x. x\<lparr>owner_nested := owner_nested x - 1\<rparr>"
  have ke: "ksys ?e" "?t \<in> all_tasks ?e" "task_state (tasks ?e ?t) = K_RDY"
    using goodD(2,4,5) [OF g(1)] g by simp_all
  define s2 where "s2 = mutex_release ?t (Some m) (upd_mutex m ?dec ?e)"
  from mutex_release_rdy [OF ke g(4) s2_def] obtain p where r: "released ?t m p ?e s2" by blast
  have w2: "waiters s2 m = waiters s m" using r by (simp add: released_def)
  note ph = passed_hd [OF ksysD(1) [OF goodD(2) [OF g(1)]] goodD(4) [OF g(1)] m(1,2,4) h]
  have ht: "tasks s2 h = tasks s h" "h \<noteq> ?t" using r ph(5) by (simp_all add: released_def)
  have "waiting (tasks s2 h)" using ph(3) ht by simp
  note wf = wakeup.wake_fields [OF this]
  have res: "krhino_mutex_unlock (Some m) s = (RHINO_CRITICAL_EXIT_SCHED (irq_off s)
      (mutex_get h m (pend_task_wakeup h s2)), RHINO_SUCCESS)"
    using g m w2 h by (simp add: krhino_mutex_unlock_def Let_def s2_def [symmetric] upd_mutex_def [of m ?dec ?e])
      (simp add: s2_def upd_mutex_def)
  have "waiters (pend_task_wakeup h s2) m = tl (waiters s m)"
    using wf(1) [of m] w2 m(4) h by (cases "waiters s m") simp_all
  moreover have "mutex_list (tasks s2 ?t) = filter (\<lambda>x. x \<noteq> m) (mutex_list (tasks s ?t))"
    using r by (simp add: released_def)
  ultimately show ?thesis
    unfolding s' res using ph(8) ht(2) by (simp add: mutex_get_def upd_mutex_def)
qed

lemma mutex_lock_free:
  assumes "good s" "g_sys_stat s = RHINO_RUNNING" "g_intrpt_nested_level s = 0"
    and "obj_type (blks s m) = RHINO_MUTEX_OBJ_TYPE" "mutex_task (mutexes s m) = None"
  defines "b \<equiv> RHINO_CRITICAL_EXIT (irq_off s) (mutex_get (g_active_task s) m (RHINO_CRITICAL_ENTER s))"
  shows "krhino_mutex_lock (Some m) ticks s = (b, Ret RHINO_SUCCESS)" "g_active_task b = g_active_task s"
proof -
  show "krhino_mutex_lock (Some m) ticks s = (b, Ret RHINO_SUCCESS)"
    using assms by (simp add: krhino_mutex_lock_def Let_def)
  show "g_active_task b = g_active_task s"
    unfolding b_def by (subst exit_active [OF assms(1)]) (simp_all add: mutex_get_def)
qed

lemma mutex_lock_blocks:
  assumes g: "good s" "g_sys_stat s = RHINO_RUNNING" "g_intrpt_nested_level s = 0" "g_sched_lock s = 0"
    and idle: "g_active_task s \<noteq> g_idle_task" and t: "ticks \<noteq> RHINO_NO_WAIT"
    and m: "obj_type (blks s m) = RHINO_MUTEX_OBJ_TYPE" "mutex_task (mutexes s m) = Some x" "x \<noteq> g_active_task s"
  defines "b \<equiv> fst (krhino_mutex_lock (Some m) ticks s)"
  shows "krhino_mutex_lock (Some m) ticks s = (b, Blocks)" "good b" "g_active_task b \<noteq> g_active_task s"
    "task_state (tasks b (g_active_task s)) = K_PEND" "g_active_task s \<in> set (waiters b m)"
    "mutexes b = mutexes s" "mode b = mode s" "g_intrpt_nested_level b = 0" "obj_type (blks b m) = RHINO_MUTEX_OBJ_TYPE"
    "g_kobj_list b = g_kobj_list s" "b_prio (tasks b u) = b_prio (tasks s u)"
    "u \<noteq> g_active_task s \<Longrightarrow> task_state (tasks b u) = task_state (tasks s u)"
proof -
  define s1 where "s1 = (if prio (tasks s (g_active_task s)) < prio (tasks s x)
       then fst (task_pri_change x (prio (tasks s (g_active_task s))) (RHINO_CRITICAL_ENTER s)) else RHINO_CRITICAL_ENTER s)"
  have fg: "forget s1 = forget (RHINO_CRITICAL_ENTER s)" by (simp add: s1_def)
  note ff = forget_fields [OF fg] and ft = forget_tasks [OF fg]
  define c where "c = RHINO_CRITICAL_EXIT_SCHED (irq_off s) (pend_to_blk_obj m (g_active_task s) ticks s1)"
  have st0: "task_state (tasks c (g_active_task s)) = K_PEND" "g_intrpt_nested_level c = 0"
    using g(3) ff by (simp_all add: c_def pend_to_blk_obj_task)
  have gc: "good c" unfolding c_def s1_def by (rule mutex_block_good [OF g(1) idle m g(3,4)])
  have "krhino_mutex_lock (Some m) ticks s = block_return (g_active_task s) c"
    using g m t by (simp add: krhino_mutex_lock_def Let_def c_def s1_def)
  then have r: "krhino_mutex_lock (Some m) ticks s = (c, Blocks)" using blocks [OF gc st0(2)] st0(1) by simp
  then have bc: "b = c" by (simp add: b_def)
  show "krhino_mutex_lock (Some m) ticks s = (b, Blocks)" using r bc by simp
  show gb: "good b" using gc bc by simp
  note b = bc [unfolded c_def]
  show st: "task_state (tasks b (g_active_task s)) = K_PEND" "g_intrpt_nested_level b = 0"
    using g(3) ff by (simp_all add: b pend_to_blk_obj_task)
  show "g_active_task b \<noteq> g_active_task s" using goodD(5) [OF gb st(2)] st(1) by auto
  show "g_active_task s \<in> set (waiters b m)" by (simp add: b pend_to_blk_obj_waiters)
  show "mutexes b = mutexes s" "g_kobj_list b = g_kobj_list s" using ff by (simp_all add: b)
  show "b_prio (tasks b u) = b_prio (tasks s u)" using ft by (simp add: b)
  show "u \<noteq> g_active_task s \<Longrightarrow> task_state (tasks b u) = task_state (tasks s u)" using ft by (simp add: b)
  show "mode b = mode s" using mode_forget [OF fg] by (simp add: b)
  show "obj_type (blks b m) = RHINO_MUTEX_OBJ_TYPE" using forget_blks(1) [OF fg, of m] m(1) by (simp add: b)
qed

text \<open>
  C15: A task that waits for a mutex lends its priority to the owner at once: when \<open>krhino_mutex_lock\<close> blocks
  the caller, the owner runs from then on with at least the caller's priority, the caller is on the wait list and no
  longer runs, and the mutex keeps its owner.
\<close>

theorem mutex_lock_inherits:
  assumes g: "good s" "g_sys_stat s = RHINO_RUNNING" "g_intrpt_nested_level s = 0" "g_sched_lock s = 0"
    and idle: "g_active_task s \<noteq> g_idle_task" and t: "ticks \<noteq> RHINO_NO_WAIT"
    and m: "obj_type (blks s m) = RHINO_MUTEX_OBJ_TYPE" "mutex_task (mutexes s m) = Some x" "x \<noteq> g_active_task s"
    and s': "s' = fst (krhino_mutex_lock (Some m) ticks s)"
  shows "snd (krhino_mutex_lock (Some m) ticks s) = Blocks \<and> g_active_task s \<in> set (waiters s' m)
    \<and> mutex_task (mutexes s' m) = Some x \<and> g_active_task s' \<noteq> g_active_task s
    \<and> prio (tasks s' x) \<le> prio (tasks s' (g_active_task s))"
proof -
  note b = mutex_lock_blocks [OF g idle t m, folded s']
  have k: "ksys s'" and f: "mutex_task (mutexes s' m) = Some x" "obj_type (blks s' m) = RHINO_MUTEX_OBJ_TYPE"
    "g_active_task s \<in> set (waiters s' m)"
    using goodD(2) [OF b(2)] b m by simp_all
  have x: "x \<in> all_tasks s'" using ksysD(8) [OF k] f by (auto simp: mutex_ok_def)
  then have "m \<in> set (mutex_list (tasks s' x))" using core_owned [OF ksysD(1) [OF k]] f by simp
  then have "g_active_task s \<in> donors s' x" using f(3) by (auto simp: donors_def)
  then have "prio (tasks s' x) \<le> prio (tasks s' (g_active_task s))"
    using ksysD(2) [OF k] x by (auto simp: all_eff_def is_eff_def)
  then show ?thesis using b f by simp
qed

subsection \<open>A contended mutex\<close>

text \<open>
  From the boot state: the timer task waits on \<open>g_res_sem\<close>, the memory task creates a mutex and locks it, gives the
  semaphore, and the timer task then waits for the mutex.
\<close>

abbreviation the_mutex :: oid where
  "the_mutex \<equiv> 5"

definition sc_made :: kstate where
  "sc_made = fst (krhino_mutex_create (Some the_mutex) (Some ''m'') boot_blocked)"

definition sc_owned :: kstate where
  "sc_owned = fst (krhino_mutex_lock (Some the_mutex) RHINO_WAIT_FOREVER sc_made)"

definition sc_woken :: kstate where
  "sc_woken = fst (krhino_sem_give (Some g_res_sem) sc_owned)"

definition sc_contended :: kstate where
  "sc_contended = fst (krhino_mutex_lock (Some the_mutex) RHINO_WAIT_FOREVER sc_woken)"

lemma reachable_run: "reachable s \<Longrightarrow> good s \<and> g_sys_stat s = RHINO_RUNNING"
  using reachable_ok by (auto simp: sys_ok_def)

lemma boot_blocked_frame:
  "boot_blocked = RHINO_CRITICAL_EXIT_SCHED (irq_off boot_state)
      (pend_to_blk_obj g_res_sem g_timer_task RHINO_WAIT_FOREVER (RHINO_CRITICAL_ENTER boot_state))"
proof -
  have "\<not> count (sems boot_state g_res_sem) > 0" "(RHINO_WAIT_FOREVER :: u64) \<noteq> RHINO_NO_WAIT"
    by (simp_all add: bss_def)
  from sem_take_blocks(1) [OF boot_good _ _ _ this] show ?thesis by (simp add: boot_blocked_def boot_consts)
qed

lemma sc_made_facts:
  "reachable sc_made" "g_active_task sc_made = g_dyn_task" "obj_type (blks sc_made the_mutex) = RHINO_MUTEX_OBJ_TYPE"
  "mutex_task (mutexes sc_made the_mutex) = None" "g_intrpt_nested_level sc_made = 0" "g_sched_lock sc_made = 0"
  "waiters sc_made g_res_sem = [g_timer_task]" "obj_type (blks sc_made g_res_sem) = RHINO_SEM_OBJ_TYPE"
  "tasks sc_made = tasks boot_blocked" "all_tasks sc_made = {g_idle_task, g_dyn_task, g_timer_task}"
proof -
  have ne: "(5::nat) \<noteq> g_res_sem" by (simp add: boot_consts)
  have ob: "obj_type (blks boot_blocked 5) = RHINO_OBJ_TYPE_NONE"
    by (simp add: boot_blocked_frame boot_consts bss_def)
  show r: "reachable sc_made" unfolding sc_made_def
    by (rule reach_step [OF boot_blocked_facts(1) step_mutex_create]) (simp add: unused_def ob)
  have f: "sc_made = upd_blk 5 (\<lambda>b. b\<lparr>obj_type := RHINO_MUTEX_OBJ_TYPE\<rparr>) (RHINO_CRITICAL_EXIT (irq_off boot_blocked)
     (let s3 = RHINO_CRITICAL_ENTER (upd_mutex 5 (\<lambda>m. m\<lparr>mutex_task := None, mutex_mm_alloc_flag := K_OBJ_STATIC_ALLOC\<rparr>)
         (upd_blk 5 (\<lambda>b. b\<lparr>blk_list := [], blk_policy := BLK_POLICY_PRI\<rparr>) boot_blocked))
      in s3\<lparr>g_kobj_list := (g_kobj_list s3)\<lparr>mutex_head := mutex_head (g_kobj_list s3) @ [5]\<rparr>\<rparr>))"
    by (simp add: sc_made_def krhino_mutex_create_def mutex_create_def Let_def)
  show "g_active_task sc_made = g_dyn_task"
    unfolding f upd_blk_frame by (subst exit_active [OF boot_blocked_facts(2)])
      (simp_all add: Let_def boot_blocked_facts)
  show "waiters sc_made g_res_sem = [g_timer_task]" "obj_type (blks sc_made g_res_sem) = RHINO_SEM_OBJ_TYPE"
    using ne by (simp_all add: f Let_def boot_blocked_facts)
  have "all_tasks boot_blocked = {g_idle_task, g_dyn_task, g_timer_task}" by (simp add: boot_blocked_frame)
  then show "all_tasks sc_made = {g_idle_task, g_dyn_task, g_timer_task}" by (simp add: f Let_def)
qed (simp_all add: sc_made_def krhino_mutex_create_def mutex_create_def Let_def boot_blocked_facts upd_mutex_def)

lemma sc_owned_facts:
  "reachable sc_owned" "g_active_task sc_owned = g_dyn_task" "obj_type (blks sc_owned the_mutex) = RHINO_MUTEX_OBJ_TYPE"
  "mutex_task (mutexes sc_owned the_mutex) = Some g_dyn_task" "owner_nested (mutexes sc_owned the_mutex) = 1"
  "g_intrpt_nested_level sc_owned = 0" "g_sched_lock sc_owned = 0" "waiters sc_owned g_res_sem = [g_timer_task]"
  "obj_type (blks sc_owned g_res_sem) = RHINO_SEM_OBJ_TYPE" "all_tasks sc_owned = {g_idle_task, g_dyn_task, g_timer_task}"
  "task_state (tasks sc_owned t) = task_state (tasks boot_blocked t)" "prio (tasks sc_owned t) = prio (tasks boot_blocked t)"
  "b_prio (tasks sc_owned t) = b_prio (tasks boot_blocked t)"
proof -
  have g: "good sc_made" "g_sys_stat sc_made = RHINO_RUNNING" using reachable_run [OF sc_made_facts(1)] by auto
  note l = mutex_lock_free [OF g sc_made_facts(5,3,4)]
  have e: "sc_owned = RHINO_CRITICAL_EXIT (irq_off sc_made) (mutex_get g_dyn_task the_mutex (RHINO_CRITICAL_ENTER sc_made))"
    unfolding sc_owned_def using l(1) by (simp add: sc_made_facts(2))
  have "owner_nested (mutexes sc_made the_mutex) = 0"
    by (simp add: sc_made_def krhino_mutex_create_def mutex_create_def Let_def upd_mutex_def boot_blocked_frame bss_def)
  then show "reachable sc_owned" unfolding sc_owned_def
    by (intro reach_step [OF sc_made_facts(1) step_mutex_lock]) (simp_all add: lock_overflows_def sc_made_facts(2) boot_consts)
  show "g_active_task sc_owned = g_dyn_task" using l(2) by (simp add: e sc_made_facts(2))
qed (simp_all add: sc_owned_def mutex_lock_free(1) [OF conjunct1 [OF reachable_run [OF sc_made_facts(1)]]
      conjunct2 [OF reachable_run [OF sc_made_facts(1)]] sc_made_facts(5,3,4)] sc_made_facts mutex_get_def upd_mutex_def)

lemma sc_woken_facts:
  "reachable sc_woken" "g_active_task sc_woken = g_timer_task" "obj_type (blks sc_woken the_mutex) = RHINO_MUTEX_OBJ_TYPE"
  "mutex_task (mutexes sc_woken the_mutex) = Some g_dyn_task" "owner_nested (mutexes sc_woken the_mutex) = 1"
  "g_intrpt_nested_level sc_woken = 0" "g_sched_lock sc_woken = 0"
  "all_tasks sc_woken = {g_idle_task, g_dyn_task, g_timer_task}" "prio (tasks sc_woken t) = prio (tasks boot_state t)"
  "b_prio (tasks sc_woken t) = b_prio (tasks boot_state t)" "task_state (tasks sc_woken g_dyn_task) = K_RDY"
proof -
  have e: "sc_woken = RHINO_CRITICAL_EXIT_SCHED (irq_off sc_owned) (pend_task_wakeup g_timer_task (RHINO_CRITICAL_ENTER sc_owned))"
    by (simp add: sc_woken_def krhino_sem_give_def sem_give_def Let_def sc_owned_facts)
  show r: "reachable sc_woken" unfolding sc_woken_def by (rule reach_step [OF sc_owned_facts(1) step_sem_give])
  show f: "g_intrpt_nested_level sc_woken = 0" "g_sched_lock sc_woken = 0"
    "all_tasks sc_woken = {g_idle_task, g_dyn_task, g_timer_task}" "mutex_task (mutexes sc_woken the_mutex) = Some g_dyn_task"
    "owner_nested (mutexes sc_woken the_mutex) = 1"
    by (simp_all add: e sc_owned_facts)
  have kw: "ksys (RHINO_CRITICAL_ENTER sc_owned)" "waiting (tasks sc_owned g_timer_task)"
    using goodD(2) [of sc_owned] reachable_run [OF sc_owned_facts(1)] ksys_waiter(2) [of sc_owned g_timer_task g_res_sem]
    by (simp_all add: sc_owned_facts(8))
  note wf = wakeup.wake_fields [OF kw(2)]
  show "obj_type (blks sc_woken the_mutex) = RHINO_MUTEX_OBJ_TYPE"
    using wakeup.wake_fields(2) [of "RHINO_CRITICAL_ENTER sc_owned" g_timer_task the_mutex] kw(2)
    by (simp add: e sc_owned_facts(3))
  show p: "prio (tasks sc_woken t) = prio (tasks boot_state t)" for t
    by (simp add: e sc_owned_facts(12) boot_blocked_frame)
  show "b_prio (tasks sc_woken t) = b_prio (tasks boot_state t)" for t
    by (simp add: e sc_owned_facts(13) boot_blocked_frame)
  have "tasks (pend_task_wakeup g_timer_task (RHINO_CRITICAL_ENTER sc_owned)) g_dyn_task = tasks sc_owned g_dyn_task"
    using wakeup.wake_task [of "RHINO_CRITICAL_ENTER sc_owned" g_timer_task] kw(2) by (simp add: boot_consts)
  then show "task_state (tasks sc_woken g_dyn_task) = K_RDY"
    by (simp add: e sc_owned_facts(11) boot_blocked_frame boot_three_tasks boot_consts)
  have "task_state (tasks sc_owned g_timer_task) = K_PEND"
    by (simp add: sc_owned_facts(11) boot_blocked_frame pend_to_blk_obj_task)
  then have "task_state (tasks sc_woken g_timer_task) = K_RDY"
    using wakeup.wake_task [of "RHINO_CRITICAL_ENTER sc_owned" g_timer_task] kw(2)
    by (simp add: e woken_state_def)
  note rdy = this
  note k = goodD(2) [OF conjunct1 [OF reachable_run [OF r]]]
  have "best sc_woken \<in> {g_idle_task, g_dyn_task, g_timer_task}" using ksys_best(1) [OF k] f(3) by simp
  moreover have "prio (tasks sc_woken (best sc_woken)) \<le> prio (tasks sc_woken g_timer_task)"
    by (rule ksys_best(3) [OF k _ rdy]) (simp add: f(3))
  then have "prio (tasks boot_state (best sc_woken)) \<le> prio (tasks boot_state g_timer_task)" unfolding p .
  ultimately have "best sc_woken = g_timer_task" by (elim insertE) (simp_all add: boot_three_tasks boot_consts)
  then show "g_active_task sc_woken = g_timer_task"
    using goodD(9) [OF conjunct1 [OF reachable_run [OF r]] f(1,2)] by simp
qed

lemma sc_contended_facts:
  "reachable sc_contended" "g_active_task sc_contended = g_dyn_task" "waiters sc_contended the_mutex = [g_timer_task]"
  "obj_type (blks sc_contended the_mutex) = RHINO_MUTEX_OBJ_TYPE" "mutex_task (mutexes sc_contended the_mutex) = Some g_dyn_task"
  "owner_nested (mutexes sc_contended the_mutex) = 1" "g_intrpt_nested_level sc_contended = 0"
proof -
  have g: "good sc_woken" "g_sys_stat sc_woken = RHINO_RUNNING" using reachable_run [OF sc_woken_facts(1)] by auto
  have idle: "g_active_task sc_woken \<noteq> g_idle_task" "(RHINO_WAIT_FOREVER :: u64) \<noteq> RHINO_NO_WAIT"
    "g_dyn_task \<noteq> g_active_task sc_woken" by (simp_all add: sc_woken_facts(2) boot_consts)
  note b = mutex_lock_blocks [OF g sc_woken_facts(6,7) idle(1,2) sc_woken_facts(3,4) idle(3), folded sc_contended_def]
  have f: "good sc_contended" "g_intrpt_nested_level sc_contended = 0" "g_sched_lock sc_contended = 0"
    "g_active_task sc_contended \<noteq> g_timer_task" "task_state (tasks sc_contended g_timer_task) = K_PEND"
    "g_timer_task \<in> set (waiters sc_contended the_mutex)" "mutexes sc_contended = mutexes sc_woken"
    "obj_type (blks sc_contended the_mutex) = RHINO_MUTEX_OBJ_TYPE"
    "all_tasks sc_contended = {g_idle_task, g_dyn_task, g_timer_task}"
    using b sc_woken_facts(2,7,8) by (simp_all add: mode_def)
  show "reachable sc_contended" unfolding sc_contended_def
    by (rule reach_step [OF sc_woken_facts(1) step_mutex_lock]) (use idle sc_woken_facts(5) in \<open>simp_all add: lock_overflows_def\<close>)
  show "obj_type (blks sc_contended the_mutex) = RHINO_MUTEX_OBJ_TYPE" "mutex_task (mutexes sc_contended the_mutex) = Some g_dyn_task"
    "owner_nested (mutexes sc_contended the_mutex) = 1" "g_intrpt_nested_level sc_contended = 0"
    using f sc_woken_facts by simp_all
  note k = goodD(2) [OF f(1)]
  have "set (waiters sc_contended the_mutex) \<subseteq> {g_timer_task}"
  proof
    fix u assume u: "u \<in> set (waiters sc_contended the_mutex)"
    have "u \<noteq> g_dyn_task" using ksysD(8) [OF k] f(7,8) sc_woken_facts(4) u by (auto simp: mutex_ok_def)
    then show "u \<in> {g_timer_task}" using ksys_waiter(1,5) [OF k u] f(9) by auto
  qed
  then show "waiters sc_contended the_mutex = [g_timer_task]"
    using f(6) wait_inv_distinct [OF ksysD(7) [OF k], of the_mutex]
    by (cases "waiters sc_contended the_mutex") (auto simp: subset_singleton_iff)
  have d: "task_state (tasks sc_contended g_dyn_task) = K_RDY" "b_prio (tasks sc_contended g_dyn_task) = 60"
    using b(11,12) [of g_dyn_task] sc_woken_facts(2,10,11) by (simp_all add: boot_three_tasks boot_consts)
  have "prio (tasks sc_contended g_dyn_task) \<le> 60"
    using ksysD(2) [OF k] d(2) f(9) by (auto simp: all_eff_def is_eff_def)
  moreover have "prio (tasks sc_contended g_idle_task) = 61" using ksysD(12) [OF k] by simp
  ultimately have "g_active_task sc_contended \<noteq> g_idle_task"
    using ksys_best(3) [OF k _ d(1)] goodD(9) [OF f(1-3)] f(9) by fastforce
  then show "g_active_task sc_contended = g_dyn_task" using goodD(4) [OF f(1)] f(4,9) by auto
qed

theorem mutex_unlock_handover_witness:
  "mutex_task (mutexes (fst (krhino_mutex_unlock (Some the_mutex) sc_contended)) the_mutex) = Some g_timer_task"
proof -
  have "good sc_contended" "g_sys_stat sc_contended = RHINO_RUNNING" using reachable_run [OF sc_contended_facts(1)] by auto
  from mutex_unlock_handover [OF this sc_contended_facts(7) _ sc_contended_facts(4) _ sc_contended_facts(6) _ refl refl]
  show ?thesis by (simp add: sc_contended_facts boot_consts)
qed

theorem mutex_lock_inherits_witness:
  "prio (tasks sc_contended g_dyn_task) \<le> prio (tasks sc_contended g_timer_task)"
proof -
  have g: "good sc_woken" "g_sys_stat sc_woken = RHINO_RUNNING" using reachable_run [OF sc_woken_facts(1)] by auto
  from mutex_lock_inherits [OF g sc_woken_facts(6,7) _ _ sc_woken_facts(3,4) _ sc_contended_def]
  show ?thesis by (simp add: sc_woken_facts(2) boot_consts)
qed

section \<open>Time\<close>

text \<open>
  The tick handler compares signed differences, so a timeout of more than \<open>2 ^ 63\<close> ticks looks expired;
  \<open>in_range\<close> excludes it.
\<close>

definition in_range :: "kstate \<Rightarrow> bool" where
  "in_range s \<longleftrightarrow> (\<forall>t\<in>set (g_tick_head s). tick_left s t \<le> 2 ^ 63)"

lemma sint_small:
  assumes "0 < (w::u64)" "w \<le> 2 ^ 63"
  shows "sint (w - 1) \<le> 0 \<longleftrightarrow> w = 1"
proof -
  have "unat (w - 1) = unat w - 1" "unat w \<noteq> 0" using assms(1) by (simp_all add: unat_minus_one word_gt_0 unat_eq_0)
  then have "int (unat (w - 1)) = int (unat w) - 1" by linarith
  then have u: "uint (w - 1) = uint w - 1" by simp
  have "uint w \<le> 2 ^ 63" using assms(2) by (simp add: word_le_def)
  then have "uint (w - 1) < 2 ^ 63" using u by simp
  moreover have "0 \<le> uint (w - 1)" by (rule unsigned_greater_eq)
  ultimately have "sint (w - 1) = uint w - 1"
    using u signed_take_bit_int_eq_self [of 63 "uint (w - 1)"] by (simp add: sint_uint)
  then show ?thesis using assms(1) by (auto simp: word_less_def word_uint_eq_iff)
qed

lemma slice_frame:
  "g_tick_head (time_slice_update s) = g_tick_head s" "g_tick_count (time_slice_update s) = g_tick_count s"
  "tick_match (tasks (time_slice_update s) t) = tick_match (tasks s t)"
  "blk_state (tasks (time_slice_update s) t) = blk_state (tasks s t)"
  by (simp_all add: time_slice_update_def Let_def)

lemma tick_proc_spec:
  assumes g: "good s" and r: "in_range s" and n: "g_intrpt_nested_level s > 0"
  defines "s' \<equiv> krhino_tick_proc s"
  shows "set (g_tick_head s') = {t \<in> set (g_tick_head s). tick_left s t \<noteq> 1}"
    "t \<in> set (g_tick_head s) \<Longrightarrow> tick_left s t = 1 \<Longrightarrow>
      task_state (tasks s' t) = (if suspended (tasks s t) then K_SUSPENDED else K_RDY)
      \<and> blk_state (tasks s' t) = (if waiting (tasks s t) then BLK_TIMEOUT else BLK_FINISH)"
    "t \<notin> set (g_tick_head s) \<or> tick_left s t \<noteq> 1 \<Longrightarrow>
      task_state (tasks s' t) = task_state (tasks s t) \<and> blk_state (tasks s' t) = blk_state (tasks s t)"
    "tick_left s' t = tick_left s t - 1" "g_tick_count s' = g_tick_count s + 1"
    "g_intrpt_nested_level s' = g_intrpt_nested_level s" "g_kobj_list s' = g_kobj_list s"
proof -
  define s1 where "s1 = cpu_intrpt_save s\<lparr>g_tick_count := g_tick_count s + 1\<rparr>"
  define s2 where "s2 = tick_scan (g_tick_head s) s1"
  have s': "s' = time_slice_update (cpu_intrpt_restore (irq_off s) s2)"
    by (simp add: s'_def krhino_tick_proc_def tick_list_update_def Let_def s2_def s1_def)
  note k = goodD(2) [OF g]
  note t = tick_scan_one [OF k s1_def s2_def]
  have f: "tasks s1 = tasks s" "g_tick_count s1 = g_tick_count s + 1" "g_intrpt_nested_level s1 = g_intrpt_nested_level s"
    "g_kobj_list s1 = g_kobj_list s" by (simp_all add: s1_def)
  have ti: "sorted_wrt (\<lambda>a b. tick_left s a \<le> tick_left s b) (g_tick_head s)" "\<And>t. t \<in> set (g_tick_head s) \<Longrightarrow> 0 < tick_left s t"
    "distinct (g_tick_head s)"
    using ksysD(3) [OF k] by (auto simp: tick_inv_def)
  have one: "sint (tick_left s t - 1) \<le> 0 \<longleftrightarrow> tick_left s t = 1" if "t \<in> set (g_tick_head s)" for t
    using sint_small [OF ti(2)] r that by (simp add: in_range_def)
  have sp: "set (takeWhile (\<lambda>t. sint (tick_left s t - 1) \<le> 0) l) = {t \<in> set l. tick_left s t = 1}
      \<and> set (dropWhile (\<lambda>t. sint (tick_left s t - 1) \<le> 0) l) = {t \<in> set l. tick_left s t \<noteq> 1}"
    if "sorted_wrt (\<lambda>a b. tick_left s a \<le> tick_left s b) l" "set l \<subseteq> set (g_tick_head s)" for l
    using that
  proof (induction l)
    case (Cons a l)
    have "tick_left s u \<noteq> 1" if "tick_left s a \<noteq> 1" "u \<in> set l" for u
    proof -
      have "0 < tick_left s a" "tick_left s a \<le> tick_left s u" using Cons.prems ti(2) that by auto
      then show ?thesis using that(1) by (auto simp: word_le_nat_alt word_less_nat_alt word_unat_eq_iff)
    qed
    then show ?case using Cons one [of a] by auto
  qed simp
  have E: "expires s = {t \<in> set (g_tick_head s). tick_left s t = 1}" using sp [OF ti(1)] by (simp add: expires_def)
  show "set (g_tick_head s') = {t \<in> set (g_tick_head s). tick_left s t \<noteq> 1}"
    using t(3) sp [OF ti(1)] by (simp add: s' slice_frame)
  show "t \<in> set (g_tick_head s) \<Longrightarrow> tick_left s t = 1 \<Longrightarrow>
      task_state (tasks s' t) = (if suspended (tasks s t) then K_SUSPENDED else K_RDY)
      \<and> blk_state (tasks s' t) = (if waiting (tasks s t) then BLK_TIMEOUT else BLK_FINISH)"
    using t(2) by (simp add: s' slice_frame time_slice_update_frame expired_all_def E f)
  show "t \<notin> set (g_tick_head s) \<or> tick_left s t \<noteq> 1 \<Longrightarrow>
      task_state (tasks s' t) = task_state (tasks s t) \<and> blk_state (tasks s' t) = blk_state (tasks s t)"
    using t(2) by (simp add: s' slice_frame time_slice_update_frame expired_all_def E f)
  show "tick_left s' t = tick_left s t - 1" "g_tick_count s' = g_tick_count s + 1"
    using t(2) by (simp_all add: s' slice_frame tick_left_def expired_all_def f)
  show "g_kobj_list s' = g_kobj_list s" using t(2) by (simp add: s' time_slice_update_frame expired_all_def f)
  have "g_intrpt_nested_level s2 = g_intrpt_nested_level s" using t(2) f by (simp add: expired_all_def same_run_def)
  then show "g_intrpt_nested_level s' = g_intrpt_nested_level s"
    using time_slice_update_frame(3) [of "cpu_intrpt_restore (irq_off s) s2"] n by (simp add: s' same_run_def)
qed

text \<open>
  C10: One tick expires exactly the timeouts that have one tick left: those tasks become ready (or suspended, when they
  are suspended too), a pending one with the result \<open>BLK_TIMEOUT\<close>; no other task changes its state and every
  other timeout loses one tick.
\<close>

theorem tick_expiry_exact:
  assumes "good s" "in_range s" "g_intrpt_nested_level s > 0"
  shows "let s' = krhino_tick_proc s in g_tick_count s' = g_tick_count s + 1
    \<and> set (g_tick_head s') = {t \<in> set (g_tick_head s). tick_left s t \<noteq> 1}
    \<and> (\<forall>t. if t \<in> set (g_tick_head s) \<and> tick_left s t = 1
         then task_state (tasks s' t) = (if suspended (tasks s t) then K_SUSPENDED else K_RDY)
           \<and> blk_state (tasks s' t) = (if waiting (tasks s t) then BLK_TIMEOUT else BLK_FINISH)
         else task_state (tasks s' t) = task_state (tasks s t) \<and> tick_left s' t = tick_left s t - 1)"
  using tick_proc_spec [OF assms] by (simp add: Let_def)

lemma in_range_tick:
  assumes "good s" "in_range s" "g_intrpt_nested_level s > 0"
  shows "in_range (krhino_tick_proc s)"
proof -
  have "tick_left s t - 1 \<le> 2 ^ 63" if "t \<in> set (g_tick_head s)" for t
  proof -
    have "0 < tick_left s t" using ksysD(3) [OF goodD(2) [OF assms(1)]] that by (auto simp: tick_inv_def)
    then have "tick_left s t - 1 \<le> tick_left s t" by (simp add: word_le_nat_alt unat_minus_one word_gt_0)
    then show ?thesis using assms(2) that by (force simp: in_range_def)
  qed
  then show ?thesis using tick_proc_spec(1,4) [OF assms] by (simp add: in_range_def)
qed

text \<open>
  C11: A sleeping task is woken by exactly the right tick: with \<open>n + 1\<close> ticks left it still sleeps after \<open>k \<le> n\<close>
  ticks and is ready after \<open>n + 1\<close>.
\<close>

theorem sleep_wakes_on_time:
  assumes "good s" "in_range s" "g_intrpt_nested_level s > 0"
    and "t \<in> all_tasks s" "task_state (tasks s t) = K_SLEEP" "unat (tick_left s t) = n + 1"
  shows "(\<forall>k\<le>n. task_state (tasks ((krhino_tick_proc ^^ k) s) t) = K_SLEEP)
    \<and> task_state (tasks ((krhino_tick_proc ^^ (n + 1)) s) t) = K_RDY"
  using assms
proof (induction n arbitrary: s)
  case 0
  have h: "t \<in> set (g_tick_head s)" using ksysD(3,4) [OF goodD(2) [OF 0(1)]] 0(4,5)
    by (auto simp: tick_inv_def task_ok_def sleeping_def)
  have "tick_left s t = 1" using 0(6) by (simp add: word_unat_eq_iff)
  then show ?case using tick_proc_spec(2) [OF 0(1-3) h] 0(5) by (simp add: suspended_def)
next
  case (Suc n)
  let ?s = "krhino_tick_proc s"
  have l: "tick_left s t \<noteq> 1" "tick_left s t \<noteq> 0" using Suc.prems(6) by auto
  have st: "task_state (tasks ?s t) = K_SLEEP" using tick_proc_spec(3) [OF Suc.prems(1-3)] l Suc.prems(5) by simp
  have "unat (tick_left ?s t) = n + 1"
    using tick_proc_spec(4) [OF Suc.prems(1-3)] l Suc.prems(6) by (simp add: unat_minus_one)
  with Suc.IH [OF krhino_tick_proc_good [OF Suc.prems(1,3)] in_range_tick [OF Suc.prems(1-3)]] st
    tick_proc_spec(6,7) [OF Suc.prems(1-3)] Suc.prems(3,4)
  have ih: "\<forall>k\<le>n. task_state (tasks ((krhino_tick_proc ^^ k) ?s) t) = K_SLEEP"
    "task_state (tasks ((krhino_tick_proc ^^ (n + 1)) ?s) t) = K_RDY" by simp_all
  show ?case
  proof (intro conjI allI impI)
    fix k assume "k \<le> Suc n"
    then show "task_state (tasks ((krhino_tick_proc ^^ k) s) t) = K_SLEEP"
      using ih(1) Suc.prems(5) by (cases k) (simp_all add: funpow_swap1)
  next
    show "task_state (tasks ((krhino_tick_proc ^^ (Suc n + 1)) s) t) = K_RDY"
      using ih(2) by (simp add: funpow_swap1)
  qed
qed

subsection \<open>A sleeping task\<close>

text \<open>The timer task of the boot state sleeps for three ticks; then an interrupt arrives.\<close>

definition sc_sleep :: kstate where
  "sc_sleep = fst (krhino_task_sleep 3 boot_state)"

definition sc_isr :: kstate where
  "sc_isr = fst (intrpt_take sc_sleep)"

lemma sc_sleep_frame:
  "sc_sleep = RHINO_CRITICAL_EXIT_SCHED False (task_to_sleep g_timer_task 3 (RHINO_CRITICAL_ENTER boot_state))"
proof -
  define b where "b = RHINO_CRITICAL_EXIT_SCHED False (task_to_sleep g_timer_task 3 (RHINO_CRITICAL_ENTER boot_state))"
  have st: "task_state (tasks b g_timer_task) \<noteq> K_RDY" "g_intrpt_nested_level b = 0"
    by (simp_all add: b_def task_to_sleep_def tick_list_insert_def Let_def)
  have "good b" using sleep_block_good [OF boot_good, of 3] by (simp add: b_def boot_consts)
  from blocks [OF this st(2,1)] show ?thesis
    by (simp add: sc_sleep_def krhino_task_sleep_def Let_def b_def)
qed

lemma sc_isr_facts:
  "good sc_isr" "g_intrpt_nested_level sc_isr = 1" "g_tick_head sc_isr = [g_timer_task]" "tick_left sc_isr g_timer_task = 3"
  "task_state (tasks sc_isr g_timer_task) = K_SLEEP" "g_timer_task \<in> all_tasks sc_isr"
proof -
  have g: "good sc_sleep" unfolding sc_sleep_def by (rule krhino_task_sleep_good [OF boot_good]) (simp add: boot_consts)
  have n: "g_intrpt_nested_level sc_sleep = 0" by (simp add: sc_sleep_frame task_to_sleep_def)
  then have l: "g_intrpt_nested_level sc_sleep < RHINO_CONFIG_INTRPT_MAX_NESTED_LEVEL"
    by (simp add: RHINO_CONFIG_INTRPT_MAX_NESTED_LEVEL_def)
  show "good sc_isr" "g_intrpt_nested_level sc_isr = 1" using intrpt_take_good(1,3) [OF g l] n by (simp_all add: sc_isr_def)
  have f: "tasks sc_isr = tasks sc_sleep" "g_tick_head sc_isr = g_tick_head sc_sleep"
    "g_tick_count sc_isr = g_tick_count sc_sleep" "g_kobj_list sc_isr = g_kobj_list sc_sleep"
    by (simp_all add: sc_isr_def intrpt_take_def krhino_intrpt_enter_def Let_def k_err_proc_def)
  show "g_tick_head sc_isr = [g_timer_task]" "tick_left sc_isr g_timer_task = 3"
    "task_state (tasks sc_isr g_timer_task) = K_SLEEP" "g_timer_task \<in> all_tasks sc_isr"
    by (simp_all add: tick_left_def f sc_sleep_frame task_to_sleep_def tick_list_insert_def Let_def)
qed

theorem tick_expiry_exact_witness:
  "set (g_tick_head (krhino_tick_proc sc_isr)) = {g_timer_task}"
  using tick_expiry_exact [of sc_isr] by (auto simp: sc_isr_facts in_range_def Let_def)

theorem sleep_wakes_on_time_witness:
  "task_state (tasks ((krhino_tick_proc ^^ 3) sc_isr) g_timer_task) = K_RDY"
  using sleep_wakes_on_time [OF sc_isr_facts(1) _ _ sc_isr_facts(6,5), of 2]
  by (simp add: sc_isr_facts in_range_def)

end
