(* ===== verification/Calls.thy ===== *)
theory Calls
  imports Contracts
begin

text \<open>
  More of what the API functions promise: the queues as bounded first-in first-out buffers, the deletion of
  objects and tasks, suspension, the scheduler lock, and the calls that are refused in an interrupt handler.
\<close>

section \<open>Interrupt handlers\<close>




section \<open>Queues\<close>

text \<open>
  C21: A queue of pointers without waiting receivers is a bounded first-in first-out buffer: sending appends the message
  when there is room and otherwise returns \<open>RHINO_QUEUE_FULL\<close> without a change; receiving delivers the oldest
  message, and \<open>RHINO_NO_PEND_WAIT\<close> on an empty queue when asked not to wait.
\<close>

theorem queue_fifo:
  assumes "good s" "obj_type (blks s q) = RHINO_QUEUE_OBJ_TYPE" "waiters s q = []" "length m = 4"
    and h: "queue_holds (queues s q) ms"
  shows "(if length ms < q_size (msg_q (queues s q))
      then snd (krhino_queue_back_send (Some q) m s) = RHINO_SUCCESS
        \<and> queue_holds (queues (fst (krhino_queue_back_send (Some q) m s)) q) (ms @ [m])
      else krhino_queue_back_send (Some q) m s = (s, RHINO_QUEUE_FULL))
    \<and> (case ms of
        [] \<Rightarrow> krhino_queue_recv (Some q) RHINO_NO_WAIT True s = (s, Ret RHINO_NO_PEND_WAIT, Some NULL_MSG)
      | x # xs \<Rightarrow> snd (krhino_queue_recv (Some q) RHINO_NO_WAIT True s) = (Ret RHINO_SUCCESS, Some x)
          \<and> queue_holds (queues (fst (krhino_queue_recv (Some q) RHINO_NO_WAIT True s)) q) xs)"
proof -
  have n: "length ms = cur_num (msg_q (queues s q))" using h by (simp add: queue_holds_def)
  have "queue_holds (queues (fst (krhino_queue_back_send (Some q) m s)) q) (ms @ [m])"
    if "length ms < q_size (msg_q (queues s q))"
    by (rule queue_push [OF h assms(4)])
       (use that assms n in \<open>simp_all add: krhino_queue_back_send_def msg_send_def Let_def upd_queue_def upd_msg_q_def\<close>)
  moreover have "\<exists>rb. ringbuf_pop (ringbuf (queues s q)) = (rb, RHINO_SUCCESS, x)
    \<and> queue_holds (upd_msg_q (\<lambda>m. m\<lparr>cur_num := cur_num m - 1\<rparr>) ((queues s q)\<lparr>ringbuf := rb\<rparr>)) xs" if "ms = x # xs" for x xs
    using queue_pop h that by simp
  ultimately show ?thesis
    using assms n
    by (auto simp: krhino_queue_back_send_def msg_send_def krhino_queue_recv_def Let_def upd_queue_def split: list.split)
qed

definition sc_queue :: kstate where
  "sc_queue = fst (krhino_queue_create (Some 7) (Some ''q'') (Some (0x5000, replicate 8 0)) 2 boot_state)"

lemma sc_queue_facts:
  "good sc_queue" "obj_type (blks sc_queue 7) = RHINO_QUEUE_OBJ_TYPE" "waiters sc_queue 7 = []"
  "queue_holds (queues sc_queue 7) []" "q_size (msg_q (queues sc_queue 7)) = 2"
proof -
  show g: "good sc_queue" unfolding sc_queue_def krhino_queue_create_def
    by (rule queue_create_good [OF boot_good]) (auto simp: queue_mem_def boot_consts bss_def)
  show f: "obj_type (blks sc_queue 7) = RHINO_QUEUE_OBJ_TYPE" "waiters sc_queue 7 = []" "q_size (msg_q (queues sc_queue 7)) = 2"
    by (simp_all add: sc_queue_def krhino_queue_create_def queue_create_def Let_def upd_queue_def upd_msg_q_def)
  have "cur_num (msg_q (queues sc_queue 7)) = 0"
    by (simp add: sc_queue_def krhino_queue_create_def queue_create_def Let_def upd_queue_def upd_msg_q_def)
  then show "queue_holds (queues sc_queue 7) []"
    using queue_obj_ok [OF goodD(1) [OF g] f(1)] f(2) by (auto simp: queue_ok_holds queue_holds_def)
qed

theorem queue_fifo_witness:
  "queue_holds (queues (fst (krhino_queue_back_send (Some 7) [1, 2, 3, 4] sc_queue)) 7) [[1, 2, 3, 4]]"
  using queue_fifo [OF sc_queue_facts(1-3) _ sc_queue_facts(4), of "[1, 2, 3, 4]"] by (simp add: sc_queue_facts)

text \<open>
  C22: Sending to a queue with waiting receivers gives the message to the receiver with the highest priority: it is no
  longer on the wait list, has the message, and is ready unless it is suspended; nothing is stored in the queue.
\<close>

theorem queue_send_to_waiter:
  assumes "good s" "obj_type (blks s q) = RHINO_QUEUE_OBJ_TYPE" "waiters s q = t # ts"
    and "cur_num (msg_q (queues s q)) < q_size (msg_q (queues s q))"
    and s': "s' = fst (krhino_queue_back_send (Some q) m s)"
  shows "snd (krhino_queue_back_send (Some q) m s) = RHINO_SUCCESS \<and> waiters s' q = ts \<and> queues s' = queues s
    \<and> msg (tasks s' t) = m \<and> blk_state (tasks s' t) = BLK_FINISH
    \<and> task_state (tasks s' t) = (if task_state (tasks s t) = K_PEND then K_RDY else K_SUSPENDED)"
proof -
  have t: "t \<in> set (waiters s q)" using assms(3) by simp
  define s1 where "s1 = upd_task t (\<lambda>x. x\<lparr>msg := m\<rparr>) (RHINO_CRITICAL_ENTER s)"
  have w: "waiting (tasks s1 t)" "waiting (tasks s t)"
    using ksys_waiter(2) [OF goodD(2) [OF assms(1)] t] by (simp_all add: s1_def waiting_def)
  have r: "krhino_queue_back_send (Some q) m s = (RHINO_CRITICAL_EXIT_SCHED (irq_off s) (pend_task_wakeup t s1), RHINO_SUCCESS)"
    using assms by (simp add: krhino_queue_back_send_def msg_send_def Let_def task_msg_recv_def s1_def)
  have "waiters (pend_task_wakeup t s1) q = ts" using wakeup.wake_fields(1) [OF w(1), of q] assms(3) by (simp add: s1_def)
  moreover have "task_state (tasks s t) = K_PEND \<or> task_state (tasks s t) = K_PEND_SUSPENDED" using w(2) by (simp add: waiting_def)
  ultimately show ?thesis
    using wakeup.wake_task [OF w(1)] unfolding s' r by (auto simp: s1_def woken_state_def)
qed

definition sc_qwait :: kstate where
  "sc_qwait = fst (krhino_queue_recv (Some 7) RHINO_WAIT_FOREVER True sc_queue)"

lemma sc_qwait_facts:
  "good sc_qwait" "obj_type (blks sc_qwait 7) = RHINO_QUEUE_OBJ_TYPE" "waiters sc_qwait 7 = [g_timer_task]"
  "q_size (msg_q (queues sc_qwait 7)) = 2" "cur_num (msg_q (queues sc_qwait 7)) = 0"
  "task_state (tasks sc_qwait g_timer_task) = K_PEND"
proof -
  have f: "g_sched_lock sc_queue = 0" "g_intrpt_nested_level sc_queue = 0" "cur_num (msg_q (queues sc_queue 7)) = 0"
    "tasks sc_queue = tasks boot_state"
    by (simp_all add: sc_queue_def krhino_queue_create_def queue_create_def Let_def upd_queue_def upd_msg_q_def)
  have a: "g_active_task sc_queue = g_timer_task"
    unfolding sc_queue_def krhino_queue_create_def queue_create_def
    by (simp add: Let_def) (subst exit_active [OF boot_good], simp_all add: upd_queue_def)
  define c where "c = RHINO_CRITICAL_EXIT_SCHED (irq_off sc_queue)
      (pend_to_blk_obj 7 g_timer_task RHINO_WAIT_FOREVER (RHINO_CRITICAL_ENTER sc_queue))"
  have gc: "good c" unfolding c_def a [symmetric]
    by (rule queue_block_good [OF sc_queue_facts(1) _ sc_queue_facts(2) f(3) f(2,1)]) (simp add: a boot_consts)
  have st: "task_state (tasks c g_timer_task) = K_PEND" "g_intrpt_nested_level c = 0"
    by (simp_all add: c_def pend_to_blk_obj_task f)
  have "g_active_task c \<noteq> g_timer_task" using goodD(5) [OF gc st(2)] st(1) by auto
  then have e: "sc_qwait = c"
    using sc_queue_facts(2) f a by (simp add: sc_qwait_def krhino_queue_recv_def Let_def c_def)
  show "good sc_qwait" "task_state (tasks sc_qwait g_timer_task) = K_PEND" using gc st by (simp_all add: e)
  show "obj_type (blks sc_qwait 7) = RHINO_QUEUE_OBJ_TYPE" "q_size (msg_q (queues sc_qwait 7)) = 2"
    "cur_num (msg_q (queues sc_qwait 7)) = 0"
    using sc_queue_facts f by (simp_all add: e c_def)
  show "waiters sc_qwait 7 = [g_timer_task]"
    using sc_queue_facts(3) by (simp add: e c_def pend_to_blk_obj_def Let_def)
qed

theorem queue_send_to_waiter_witness:
  "msg (tasks (fst (krhino_queue_back_send (Some 7) [1, 2, 3, 4] sc_qwait)) g_timer_task) = [1, 2, 3, 4]
    \<and> task_state (tasks (fst (krhino_queue_back_send (Some 7) [1, 2, 3, 4] sc_qwait)) g_timer_task) = K_RDY"
  using queue_send_to_waiter [OF sc_qwait_facts(1-3) _ refl, of "[1, 2, 3, 4]"] by (simp add: sc_qwait_facts)

text \<open>
  \<open>slot rb n\<close>: the bytes of the ring buffer that a message of \<open>n\<close> bytes takes, a block in a fixed ring and the message with its compressed length
  in a dynamic one. \<open>ring_room\<close>: the stored messages \<open>ms\<close> leave room for another one of \<open>n\<close> bytes.
\<close>

definition slot :: "k_ringbuf_t \<Rightarrow> nat \<Rightarrow> nat" where
  "slot rb n = (if rb_type rb = RINGBUF_TYPE_FIX then rb_blk_size rb
     else n + (if n \<le> 0x7f then 1 else if n \<le> 0x3fff then 2 else 3))"

definition ring_room :: "k_ringbuf_t \<Rightarrow> u8 list list \<Rightarrow> nat \<Rightarrow> bool" where
  "ring_room rb ms n \<longleftrightarrow> sum_list (map (\<lambda>m. slot rb (length m)) ms) + slot rb n \<le> rb_end rb"

lemma length_enc: "rb_type rb = RINGBUF_TYPE_DYN \<Longrightarrow> length m \<le> 0x3fffff \<Longrightarrow> length (enc m) = slot rb (length m)"
  by (auto simp: enc_def slot_def ringbuf_headlen_compress_def COMPRESS_LEN_def)

lemma ring_room_free:
  assumes "ring_holds rb ms"
  shows "ring_room rb ms n \<longleftrightarrow> slot rb n \<le> rb_freesize rb"
proof -
  have u: "sum_list (map (\<lambda>m. slot rb (length m)) ms) = rb_used rb"
  proof (cases "rb_type rb")
    case RINGBUF_TYPE_DYN
    then have h: "dyn_holds rb ms" using assms by (simp add: ring_holds_def)
    have e: "map (\<lambda>m. slot rb (length m)) ms = map (length \<circ> enc) ms"
      using h by (intro map_cong refl) (simp add: length_enc [OF RINGBUF_TYPE_DYN] dyn_holds_def dyn_fits_def)
    show ?thesis unfolding e using h ring_used_holds [of rb] by (simp add: dyn_holds_def length_concat)
  next
    case RINGBUF_TYPE_FIX
    then have h: "fix_holds (rb_blk_size rb) rb ms" using assms by (simp add: ring_holds_def)
    have e: "map (\<lambda>m. slot rb (length m)) ms = map length ms"
      using h by (intro map_cong refl) (simp add: slot_def fix_holds_def)
    show ?thesis unfolding e using h ring_used_holds [of rb] by (simp add: fix_holds_def length_concat)
  qed
  have "rb_freesize rb \<le> rb_end rb" using assms by (auto simp: ring_holds_def dyn_holds_def fix_holds_def rb_inv_def split: if_splits)
  then show ?thesis unfolding ring_room_def u by (auto simp: rb_used_def)
qed

lemma ring_push_status:
  assumes h: "ring_holds rb ms" and n: "0 < n" "rb_type rb = RINGBUF_TYPE_DYN \<longrightarrow> n \<le> 0x3fffff"
  shows "snd (ringbuf_push d n rb) = (if ring_room rb ms n then RHINO_SUCCESS else RHINO_RINGBUF_FULL)"
proof (cases "rb_type rb")
  case RINGBUF_TYPE_FIX
  then show ?thesis unfolding ring_room_free [OF h] by (simp add: slot_def ringbuf_push_def ringbuf_is_full_def)
next
  case RINGBUF_TYPE_DYN
  then have "\<exists>c. ringbuf_headlen_compress n = Some c \<and> length c + n = slot rb n"
    using n by (simp add: slot_def ringbuf_headlen_compress_def COMPRESS_LEN_def)
  then obtain c where c: "ringbuf_headlen_compress n = Some c" "length c + n = slot rb n" by blast
  have "2 \<le> slot rb n" using n(1) RINGBUF_TYPE_DYN by (simp add: slot_def)
  then show ?thesis unfolding ring_room_free [OF h]
    using RINGBUF_TYPE_DYN c by (auto simp: ringbuf_push_def ringbuf_is_full_def Let_def)
qed

lemma bq_send_holds:
  assumes g: "good s" "obj_type (blks s q) = RHINO_BUF_QUEUE_OBJ_TYPE" "waiters s q = []"
    and h: "bq_holds (buf_queues s q) ms" and r: "readable (bq_ringbuf (buf_queues s q)) d n"
    and n: "0 < n" "n \<le> max_msg_size (buf_queues s q)" "rb_type (bq_ringbuf (buf_queues s q)) = RINGBUF_TYPE_DYN \<longrightarrow> n \<le> 0x3fffff"
  shows "if ring_room (bq_ringbuf (buf_queues s q)) ms n
      then snd (krhino_buf_queue_send (Some q) (Some d) n s) = RHINO_SUCCESS
        \<and> bq_holds (buf_queues (fst (krhino_buf_queue_send (Some q) (Some d) n s)) q) (ms @ [sent (bq_ringbuf (buf_queues s q)) d n])
      else krhino_buf_queue_send (Some q) (Some d) n s = (s, RHINO_BUF_QUEUE_FULL)"
proof -
  let ?q = "buf_queues s q"
  obtain rb st where p: "ringbuf_push d n (bq_ringbuf ?q) = (rb, st)" by (cases "ringbuf_push d n (bq_ringbuf ?q)")
  have rh: "ring_holds (bq_ringbuf ?q) ms" "length ms = bq_cur_num ?q" "rb_blk_size (bq_ringbuf ?q) = max_msg_size ?q"
    using h by (simp_all add: bq_holds_def)
  have st: "st = (if ring_room (bq_ringbuf ?q) ms n then RHINO_SUCCESS else RHINO_RINGBUF_FULL)"
    using ring_push_status [OF rh(1) n(1,3), of d] p by simp
  have same: "upd_bq q (\<lambda>x. x\<lparr>bq_ringbuf := bq_ringbuf ?q\<rparr>) (RHINO_CRITICAL_ENTER s) = RHINO_CRITICAL_ENTER s"
    by (simp add: upd_bq_def)
  show ?thesis
  proof (cases "ring_room (bq_ringbuf ?q) ms n")
    case True
    then show ?thesis using g n(1,2) rh ring_push [OF rh(1) r p] st
      by (simp add: krhino_buf_queue_send_def buf_queue_send_def Let_def p upd_bq_def bq_holds_def)
  next
    case False
    then have "rb = bq_ringbuf ?q" using ring_push(1) [OF rh(1) r p] st by simp
    then show ?thesis using g n(1,2) False st
      by (simp add: krhino_buf_queue_send_def buf_queue_send_def Let_def p same)
  qed
qed

lemma bq_send_size: "max_msg_size (buf_queues (fst (krhino_buf_queue_send qo d n s)) q) = max_msg_size (buf_queues s q)"
  by (simp add: krhino_buf_queue_send_def buf_queue_send_def Let_def split_beta upd_bq_def split: option.split)

lemma bq_recv_holds:
  assumes g: "good s" "obj_type (blks s q) = RHINO_BUF_QUEUE_OBJ_TYPE" and h: "bq_holds (buf_queues s q) (x # xs)"
    and tk: "g_intrpt_nested_level s = 0 \<or> tk = RHINO_NO_WAIT"
  shows "snd (krhino_buf_queue_recv (Some q) tk (Some buf) True s) = (Ret RHINO_SUCCESS, Some (memcpy buf x (length x), length x))
    \<and> bq_holds (buf_queues (fst (krhino_buf_queue_recv (Some q) tk (Some buf) True s)) q) xs"
proof -
  let ?q = "buf_queues s q"
  have rh: "ring_holds (bq_ringbuf ?q) (x # xs)" "Suc (length xs) = bq_cur_num ?q" "rb_blk_size (bq_ringbuf ?q) = max_msg_size ?q"
    using h by (simp_all add: bq_holds_def)
  obtain rb' where "ringbuf_pop (bq_ringbuf ?q) = (rb', RHINO_SUCCESS, x)" "ring_holds rb' xs"
    "rb_blk_size rb' = rb_blk_size (bq_ringbuf ?q)"
    using ring_pop rh(1) by blast
  then show ?thesis
    using ring_empty [OF rh(1)] g rh tk by (auto simp: krhino_buf_queue_recv_def Let_def upd_bq_def bq_holds_def)
qed

lemma bq_recv_empty:
  assumes g: "good s" "obj_type (blks s q) = RHINO_BUF_QUEUE_OBJ_TYPE" and h: "bq_holds (buf_queues s q) []"
  shows "krhino_buf_queue_recv (Some q) RHINO_NO_WAIT (Some buf) True s = (s, Ret RHINO_NO_PEND_WAIT, Some (buf, 0))"
  using ring_empty [of "bq_ringbuf (buf_queues s q)" "[]"] g h by (simp add: krhino_buf_queue_recv_def Let_def bq_holds_def)

text \<open>
  C23: A buffer queue without waiting receivers is a bounded first-in first-out buffer of messages. A message of 1 up to \<open>max_msg_size\<close> bytes
  (and, in a dynamic ring, at most \<open>0x3fffff\<close> bytes, the longest length a header can hold) is accepted exactly when the buffer has room for it beside
  the stored ones, and is appended; otherwise the call returns \<open>RHINO_BUF_QUEUE_FULL\<close> and changes nothing. A longer message and an empty one are
  refused without a change. Receiving delivers the oldest message with its length.
\<close>

theorem buf_queue_fifo:
  assumes g: "good s" "obj_type (blks s q) = RHINO_BUF_QUEUE_OBJ_TYPE" "waiters s q = []"
    and h: "bq_holds (buf_queues s q) ms" and r: "readable (bq_ringbuf (buf_queues s q)) d n"
  shows "(if n > max_msg_size (buf_queues s q) then krhino_buf_queue_send (Some q) (Some d) n s = (s, RHINO_BUF_QUEUE_MSG_SIZE_OVERFLOW)
      else if n = 0 then krhino_buf_queue_send (Some q) (Some d) n s = (s, RHINO_INV_PARAM)
      else rb_type (bq_ringbuf (buf_queues s q)) = RINGBUF_TYPE_FIX \<or> n \<le> 0x3fffff \<longrightarrow>
        (if ring_room (bq_ringbuf (buf_queues s q)) ms n
         then snd (krhino_buf_queue_send (Some q) (Some d) n s) = RHINO_SUCCESS
           \<and> bq_holds (buf_queues (fst (krhino_buf_queue_send (Some q) (Some d) n s)) q)
               (ms @ [sent (bq_ringbuf (buf_queues s q)) d n])
         else krhino_buf_queue_send (Some q) (Some d) n s = (s, RHINO_BUF_QUEUE_FULL)))
    \<and> (case ms of
        [] \<Rightarrow> krhino_buf_queue_recv (Some q) RHINO_NO_WAIT (Some buf) True s = (s, Ret RHINO_NO_PEND_WAIT, Some (buf, 0))
      | x # xs \<Rightarrow> snd (krhino_buf_queue_recv (Some q) RHINO_NO_WAIT (Some buf) True s)
            = (Ret RHINO_SUCCESS, Some (memcpy buf x (length x), length x))
          \<and> bq_holds (buf_queues (fst (krhino_buf_queue_recv (Some q) RHINO_NO_WAIT (Some buf) True s)) q) xs)"
proof -
  have "krhino_buf_queue_send (Some q) (Some d) n s = (s, RHINO_BUF_QUEUE_MSG_SIZE_OVERFLOW)" if "n > max_msg_size (buf_queues s q)"
    using g that by (simp add: krhino_buf_queue_send_def buf_queue_send_def Let_def)
  moreover have "krhino_buf_queue_send (Some q) (Some d) n s = (s, RHINO_INV_PARAM)" if "n = 0"
    using g that by (simp add: krhino_buf_queue_send_def buf_queue_send_def Let_def)
  moreover note bq_send_holds [OF g h r]
  ultimately show ?thesis using bq_recv_empty [OF g(1,2)] bq_recv_holds [OF g(1,2), of _ _ RHINO_NO_WAIT buf] h
    by (cases ms; cases "rb_type (bq_ringbuf (buf_queues s q))") auto
qed

text \<open>The queue of the timer task in the boot state.\<close>

lemma boot_timer_queue:
  "obj_type (blks boot_state g_timer_queue) = RHINO_BUF_QUEUE_OBJ_TYPE" "waiters boot_state g_timer_queue = []"
  "bq_holds (buf_queues boot_state g_timer_queue) []" "max_msg_size (buf_queues boot_state g_timer_queue) = 24"
  "rb_type (bq_ringbuf (buf_queues boot_state g_timer_queue)) = RINGBUF_TYPE_FIX"
  "24 \<le> rb_end (bq_ringbuf (buf_queues boot_state g_timer_queue))"
proof -
  show f: "obj_type (blks boot_state g_timer_queue) = RHINO_BUF_QUEUE_OBJ_TYPE" "waiters boot_state g_timer_queue = []"
    by (simp_all add: boot_consts)
  have b: "buf_queues boot_state = buf_queues boot_queue" by (simp add: boot_state_eq boot_three_def)
  show "max_msg_size (buf_queues boot_state g_timer_queue) = 24"
    "rb_type (bq_ringbuf (buf_queues boot_state g_timer_queue)) = RINGBUF_TYPE_FIX"
    "24 \<le> rb_end (bq_ringbuf (buf_queues boot_state g_timer_queue))"
    by (simp_all add: b boot_queue_def krhino_fix_buf_queue_create_def buf_queue_create_def Let_def upd_bq_def boot_consts
        ringbuf_init_def ringbuf_reset_def rb_end_def)
  have "bq_cur_num (buf_queues boot_state g_timer_queue) = 0"
    by (simp add: b boot_queue_def krhino_fix_buf_queue_create_def buf_queue_create_def Let_def upd_bq_def boot_consts)
  then show "bq_holds (buf_queues boot_state g_timer_queue) []"
    using bq_obj_ok [OF goodD(1) [OF boot_good] f(1)] f(2) by (auto simp: bq_ok_holds bq_holds_def)
qed

text \<open>A message of exactly the maximal size goes into that queue and comes out again.\<close>

definition sc_cmd :: kstate where
  "sc_cmd = fst (krhino_buf_queue_send (Some g_timer_queue) (Some (replicate 24 7)) 24 boot_state)"

theorem buf_queue_fifo_witness:
  "snd (krhino_buf_queue_send (Some g_timer_queue) (Some (replicate 24 7)) 24 boot_state) = RHINO_SUCCESS
    \<and> snd (krhino_buf_queue_recv (Some g_timer_queue) RHINO_NO_WAIT (Some (replicate 24 0)) True sc_cmd)
        = (Ret RHINO_SUCCESS, Some (replicate 24 7, 24))"
proof -
  let ?d = "replicate 24 (7 :: u8)" and ?rb = "bq_ringbuf (buf_queues boot_state g_timer_queue)"
  have r: "readable ?rb ?d 24" using boot_timer_queue(3,4,5) by (simp add: readable_def bq_holds_def)
  have room: "ring_room ?rb [] 24" using boot_timer_queue(3-6) by (simp add: ring_room_def slot_def bq_holds_def)
  have sn: "sent ?rb ?d 24 = ?d" using boot_timer_queue(3,4,5) by (simp add: sent_def bq_holds_def)
  have f: "snd (krhino_buf_queue_send (Some g_timer_queue) (Some ?d) 24 boot_state) = RHINO_SUCCESS"
    "bq_holds (buf_queues sc_cmd g_timer_queue) [?d]"
    using buf_queue_fifo [OF boot_good boot_timer_queue(1-3) r, of "[]"] room boot_timer_queue(4,5) unfolding sn sc_cmd_def by simp_all
  have g: "good sc_cmd" unfolding sc_cmd_def by (rule krhino_buf_queue_send_good [OF boot_good]) (use r in auto)
  have o: "obj_type (blks sc_cmd g_timer_queue) = RHINO_BUF_QUEUE_OBJ_TYPE" "waiters sc_cmd g_timer_queue = []"
    using boot_timer_queue(1,2) by (simp_all add: sc_cmd_def krhino_buf_queue_send_def buf_queue_send_def Let_def split_beta upd_bq_def)
  have r': "readable (bq_ringbuf (buf_queues sc_cmd g_timer_queue)) ?d 24" if "rb_blk_size (bq_ringbuf (buf_queues sc_cmd g_timer_queue)) \<le> 24"
    using that by (simp add: readable_def)
  have "rb_blk_size (bq_ringbuf (buf_queues sc_cmd g_timer_queue)) = 24"
    using f(2) boot_timer_queue(4) by (simp add: bq_holds_def sc_cmd_def bq_send_size)
  from buf_queue_fifo [OF g o f(2) r', of "replicate 24 0"] this f(1) show ?thesis by (simp add: memcpy_def)
qed

section \<open>Deletion\<close>

context wake_fun
begin

text \<open>Everyone who waits is woken with the reason.\<close>

lemma wake_all_reason:
  assumes "ksys s" "obj_type (blks s ob) \<noteq> RHINO_MUTEX_OBJ_TYPE" "length (waiters s ob) \<le> n" "u \<in> set (waiters s ob)"
  shows "blk_state (tasks (wake_all n wake ob s) u) = reason
    \<and> task_state (tasks (wake_all n wake ob s) u) = woken_state (task_state (tasks s u))"
proof -
  define P where "P s' \<longleftrightarrow> ksys s' \<and> obj_type (blks s' ob) \<noteq> RHINO_MUTEX_OBJ_TYPE \<and>
    (\<forall>u\<in>set (waiters s ob). if u \<in> set (waiters s' ob) then task_state (tasks s' u) = task_state (tasks s u)
       else blk_state (tasks s' u) = reason \<and> task_state (tasks s' u) = woken_state (task_state (tasks s u)))" for s'
  have "P (wake_all n wake ob s) \<and> waiters (wake_all n wake ob s) ob = []"
  proof (rule wake_all_rule)
    show "P s" using assms(1,2) by (simp add: P_def)
    fix s' assume p: "P s'" and ne: "waiters s' ob \<noteq> []"
    let ?t = "hd (waiters s' ob)" and ?s = "wake (hd (waiters s' ob)) s'"
    have k: "ksys s'" "obj_type (blks s' ob) \<noteq> RHINO_MUTEX_OBJ_TYPE" "?t \<in> set (waiters s' ob)" using p ne by (simp_all add: P_def)
    have w: "waiting (tasks s' ?t)" using ksys_waiter(2) [OF k(1,3)] .
    have wt: "waiters ?s ob = remove1 ?t (waiters s' ob)" using wake_fields(1) [OF w] .
    have d: "distinct (waiters s' ob)" using wait_inv_distinct [OF ksysD(7) [OF k(1)]] .
    have "P ?s" using p ksys_wake [OF k(1,3,2)] wake_fields(2) [OF w, of ob] wake_task [OF w] wt d k(3)
      by (auto simp: P_def)
    moreover have "length (waiters ?s ob) < length (waiters s' ob)" using wt k(3) ne by (simp add: length_remove1)
    ultimately show "P ?s \<and> length (waiters ?s ob) < length (waiters s' ob)" by blast
  qed (rule assms(3))
  then show ?thesis using assms(4) by (simp add: P_def)
qed

end

text \<open>
  C16: Deleting a semaphore wakes everyone who waits on it: afterwards the memory holds no object, nobody waits, and each
  former waiter is ready (or still suspended) with the reason \<open>BLK_DEL\<close>, so that its call returns
  \<open>RHINO_BLK_DEL\<close>.
\<close>

theorem sem_del_wakes_all:
  assumes "good s" "g_intrpt_nested_level s = 0" "obj_type (blks s sem) = RHINO_SEM_OBJ_TYPE"
    and "sem_mm_alloc_flag (sems s sem) = K_OBJ_STATIC_ALLOC" and s': "s' = fst (krhino_sem_del (Some sem) s)"
  shows "snd (krhino_sem_del (Some sem) s) = RHINO_SUCCESS \<and> obj_type (blks s' sem) = RHINO_OBJ_TYPE_NONE
    \<and> waiters s' sem = [] \<and> (\<forall>u\<in>set (waiters s sem). blk_state (tasks s' u) = BLK_DEL
      \<and> task_state (tasks s' u) = (if task_state (tasks s u) = K_PEND then K_RDY else K_SUSPENDED)
      \<and> snd (pend_state_end_proc u s') = RHINO_BLK_DEL)"
proof -
  define s1 where "s1 = upd_blk sem (\<lambda>b. b\<lparr>obj_type := RHINO_OBJ_TYPE_NONE\<rparr>) (RHINO_CRITICAL_ENTER s)"
  have k: "ksys s1" unfolding s1_def by (rule ksys_obj_type) (use goodD(2) [OF assms(1)] assms(3) in simp_all)
  have o: "obj_type (blks s1 sem) \<noteq> RHINO_MUTEX_OBJ_TYPE" "waiters s1 sem = waiters s sem" "tasks s1 = tasks s"
    by (simp_all add: s1_def)
  define s2 where "s2 = wake_all (length (waiters s sem)) pend_task_rm sem s1"
  have e: "obj_unlink sem (RHINO_CRITICAL_ENTER s) = s2" by (simp add: obj_unlink_def pend_all_rm_def s1_def s2_def)
  have r: "krhino_sem_del (Some sem) s = (RHINO_CRITICAL_EXIT_SCHED (irq_off s) (sem_unlink sem (RHINO_CRITICAL_ENTER s)), RHINO_SUCCESS)"
    using assms by (simp add: krhino_sem_del_def Let_def)
  note w = wakerm.wake_all_ksys [OF k o(1), of "length (waiters s sem)", folded s2_def]
  have f: "waiters s2 sem = []" "obj_type (blks s2 sem) = RHINO_OBJ_TYPE_NONE" using w(2,4) o by (simp_all add: s1_def)
  have u: "blk_state (tasks s2 u) = BLK_DEL \<and> task_state (tasks s2 u) = (if task_state (tasks s u) = K_PEND then K_RDY else K_SUSPENDED)"
    if "u \<in> set (waiters s sem)" for u
    using wakerm.wake_all_reason [OF k o(1), of "length (waiters s sem)" u] that o
      ksys_waiter(2) [OF goodD(2) [OF assms(1)] that] by (auto simp: s2_def woken_state_def waiting_def)
  show ?thesis unfolding s' r using f u
    by (simp add: sem_unlink_def Let_def e pend_state_end_proc_def)
qed

theorem sem_del_wakes_all_witness:
  "blk_state (tasks (fst (krhino_sem_del (Some g_res_sem) boot_blocked)) g_timer_task) = BLK_DEL"
  using sem_del_wakes_all [OF boot_blocked_facts(2,6,5) _ refl] boot_blocked_facts(3)
  by (simp add: boot_blocked_frame bss_def)

end
