(* ===== verification/Timer.thy ===== *)
theory Timer
  imports Ktime Calls
begin

unbundle bit_operations_syntax

text \<open>
  Software timers (\<^verbatim>\<open>core/k_timer.c\<close>). The API functions send commands of 24 bytes through the buffer queue
  \<open>g_timer_queue\<close>; the timer task receives them, keeps the active timers in \<open>g_timer_head\<close> in the order of expiry, and
  calls the callbacks. Only the timer task changes the list, so the functions here are the pieces of the task between
  two receives, and the API functions act on the kernel's queue.

  The callback is code of the application: it is the parameter \<open>env\<close> of the definitions, with the address, the timer and
  the argument it is called with. What the properties rely on is \<open>tidy_cb\<close>: a callback leaves the timers and the
  list alone, as every function of the timer API does; for the moment of expiry \<open>quiet_cb\<close>: no tick passes meanwhile.
\<close>

section \<open>The code\<close>

type_synonym tmid = u32

datatype k_timer_state_t = TIMER_DEACTIVE | TIMER_ACTIVE

record ktimer_t =
  to_head :: bool
  cb :: nat
  timer_cb_arg :: u32
  match :: u64
  remain :: u64
  init_count :: u64
  round_ticks :: u64
  tmr_obj_type :: kobj_type_t
  timer_state :: k_timer_state_t
  tmr_mm_alloc_flag :: mm_alloc_flag_t

text \<open>
  The kernel with the timers: \<open>tpc\<close> says in which of its two receives the timer task is, \<open>cb_msg\<close> is its message buffer,
  and \<open>cb_calls\<close> lists the timers whose callbacks have been called.
\<close>

datatype timer_pc = AtCmd | AtDelay

record tsys =
  kern :: kstate
  timers :: "tmid \<Rightarrow> ktimer_t"
  g_timer_head :: "tmid list"
  g_timer_count :: u64
  cb_msg :: "u8 list"
  tpc :: timer_pc
  cb_calls :: "tmid list"

type_synonym cb_env = "nat \<Rightarrow> tmid \<Rightarrow> u32 \<Rightarrow> tsys \<Rightarrow> tsys"

definition upd_timer :: "tmid \<Rightarrow> (ktimer_t \<Rightarrow> ktimer_t) \<Rightarrow> tsys \<Rightarrow> tsys" where
  "upd_timer t f s = s\<lparr>timers := (timers s)(t := f (timers s t))\<rparr>"

definition upd_kern :: "(kstate \<Rightarrow> kstate) \<Rightarrow> tsys \<Rightarrow> tsys" where
  "upd_kern f s = s\<lparr>kern := f (kern s)\<rparr>"

definition MAX_TIMER_TICKS :: u64 where
  "MAX_TIMER_TICKS = drop_bit 1 (- 1)"

subsection \<open>Commands\<close>

text \<open>
  A \<open>k_timer_queue_cb\<close> in memory, little endian: the timer at offset 0, the command at 4, \<open>first\<close> at 8 and the
  union of \<open>round\<close> and \<open>arg\<close> at 16. The variable is not initialised: \<open>junk\<close> is what the stack held before.
\<close>

fun le_bytes :: "nat \<Rightarrow> 'a::len word \<Rightarrow> u8 list" where
  "le_bytes 0 w = []"
| "le_bytes (Suc n) w = ucast w # le_bytes n (drop_bit 8 w)"

fun le_word :: "u8 list \<Rightarrow> 'a::len word" where
  "le_word [] = 0"
| "le_word (b # bs) = ucast b OR push_bit 8 (le_word bs)"

definition TIMER_CMD_START :: u8 where "TIMER_CMD_START = 1"
definition TIMER_CMD_STOP :: u8 where "TIMER_CMD_STOP = 2"
definition TIMER_CMD_CHG :: u8 where "TIMER_CMD_CHG = 3"
definition TIMER_ARG_CHG :: u8 where "TIMER_ARG_CHG = 4"
definition TIMER_ARG_CHG_AUTO :: u8 where "TIMER_ARG_CHG_AUTO = 5"
definition TIMER_CMD_DEL :: u8 where "TIMER_CMD_DEL = 6"
definition TIMER_CMD_DYN_DEL :: u8 where "TIMER_CMD_DYN_DEL = 7"

definition set_timer :: "tmid \<Rightarrow> u8 list \<Rightarrow> u8 list" where
  "set_timer t m = mem_put m 0 (le_bytes 4 t)"

definition set_cb_num :: "u8 \<Rightarrow> u8 list \<Rightarrow> u8 list" where
  "set_cb_num c m = mem_put m 4 [c]"

definition set_first :: "u64 \<Rightarrow> u8 list \<Rightarrow> u8 list" where
  "set_first w m = mem_put m 8 (le_bytes 8 w)"

definition set_round :: "u64 \<Rightarrow> u8 list \<Rightarrow> u8 list" where
  "set_round w m = mem_put m 16 (le_bytes 8 w)"

definition set_arg :: "u32 \<Rightarrow> u8 list \<Rightarrow> u8 list" where
  "set_arg w m = mem_put m 16 (le_bytes 4 w)"

definition get_timer :: "u8 list \<Rightarrow> tmid" where
  "get_timer m = le_word (mem_get m 0 4)"

definition get_cb_num :: "u8 list \<Rightarrow> u8" where
  "get_cb_num m = m ! 4"

definition get_first :: "u8 list \<Rightarrow> u64" where
  "get_first m = le_word (mem_get m 8 8)"

definition get_round :: "u8 list \<Rightarrow> u64" where
  "get_round m = le_word (mem_get m 16 8)"

definition get_arg :: "u8 list \<Rightarrow> u32" where
  "get_arg m = le_word (mem_get m 16 4)"

subsection \<open>The functions of the API\<close>

definition timer_send :: "u8 list \<Rightarrow> kstate \<Rightarrow> kstate \<times> kstat" where
  "timer_send m s = krhino_buf_queue_send (Some g_timer_queue) (Some m) TIMER_CB_SIZE s"

definition krhino_timer_start :: "u8 list \<Rightarrow> tmid option \<Rightarrow> kstate \<Rightarrow> kstate \<times> kstat" where
  "krhino_timer_start junk timer s = (case timer of None \<Rightarrow> (s, RHINO_NULL_PTR)
     | Some t \<Rightarrow> timer_send (set_cb_num TIMER_CMD_START (set_timer t junk)) s)"

definition krhino_timer_stop :: "u8 list \<Rightarrow> tmid option \<Rightarrow> kstate \<Rightarrow> kstate \<times> kstat" where
  "krhino_timer_stop junk timer s = (case timer of None \<Rightarrow> (s, RHINO_NULL_PTR)
     | Some t \<Rightarrow> timer_send (set_cb_num TIMER_CMD_STOP (set_timer t junk)) s)"

definition krhino_timer_del :: "u8 list \<Rightarrow> tmid option \<Rightarrow> kstate \<Rightarrow> kstate \<times> kstat" where
  "krhino_timer_del junk timer s = (case timer of None \<Rightarrow> (s, RHINO_NULL_PTR)
     | Some t \<Rightarrow> timer_send (set_cb_num TIMER_CMD_DEL (set_timer t junk)) s)"

definition krhino_timer_dyn_del :: "u8 list \<Rightarrow> tmid option \<Rightarrow> kstate \<Rightarrow> kstate \<times> kstat" where
  "krhino_timer_dyn_del junk timer s = (case timer of None \<Rightarrow> (s, RHINO_NULL_PTR)
     | Some t \<Rightarrow> timer_send (set_cb_num TIMER_CMD_DYN_DEL (set_timer t junk)) s)"

definition krhino_timer_change :: "u8 list \<Rightarrow> tmid option \<Rightarrow> u64 \<Rightarrow> u64 \<Rightarrow> kstate \<Rightarrow> kstate \<times> kstat" where
  "krhino_timer_change junk timer first round s = (case timer of None \<Rightarrow> (s, RHINO_NULL_PTR)
     | Some t \<Rightarrow>
         if first \<ge> - 1 then (s, RHINO_INV_PARAM)
         else if round \<ge> - 1 then (s, RHINO_INV_PARAM)
         else timer_send (set_cb_num TIMER_CMD_CHG (set_round round (set_first first (set_timer t junk)))) s)"

definition krhino_timer_arg_change :: "u8 list \<Rightarrow> tmid option \<Rightarrow> u32 \<Rightarrow> kstate \<Rightarrow> kstate \<times> kstat" where
  "krhino_timer_arg_change junk timer arg s = (case timer of None \<Rightarrow> (s, RHINO_NULL_PTR)
     | Some t \<Rightarrow> timer_send (set_cb_num TIMER_ARG_CHG (set_arg arg (set_timer t junk))) s)"

definition krhino_timer_arg_change_auto :: "u8 list \<Rightarrow> tmid option \<Rightarrow> u32 \<Rightarrow> kstate \<Rightarrow> kstate \<times> kstat" where
  "krhino_timer_arg_change_auto junk timer arg s = (case timer of None \<Rightarrow> (s, RHINO_NULL_PTR)
     | Some t \<Rightarrow> timer_send (set_cb_num TIMER_ARG_CHG_AUTO (set_arg arg (set_timer t junk))) s)"

definition timer_create :: "u8 list \<Rightarrow> tmid option \<Rightarrow> string option \<Rightarrow> nat option \<Rightarrow> u64 \<Rightarrow> u64 \<Rightarrow> u32 \<Rightarrow> bool
    \<Rightarrow> mm_alloc_flag_t \<Rightarrow> tsys \<Rightarrow> tsys \<times> kstat" where
  "timer_create junk timer name callback first round arg auto_run flag s = (case (timer, name, callback) of
     (Some t, Some n, Some c) \<Rightarrow>
       if first = 0 then (s, RHINO_INV_PARAM)
       else if first \<ge> MAX_TIMER_TICKS then (s, RHINO_INV_PARAM)
       else if round \<ge> MAX_TIMER_TICKS then (s, RHINO_INV_PARAM)
       else (let s1 = upd_timer t (\<lambda>x. \<lparr>to_head = False, cb = c, timer_cb_arg = arg, match = 0, remain = 0,
                init_count = first, round_ticks = round, tmr_obj_type = RHINO_TIMER_OBJ_TYPE,
                timer_state = TIMER_DEACTIVE, tmr_mm_alloc_flag = flag\<rparr>) s
             in if auto_run
                then (case krhino_timer_start junk (Some t) (kern s1) of (k, err) \<Rightarrow> (s1\<lparr>kern := k\<rparr>, err))
                else (s1, RHINO_SUCCESS))
   | _ \<Rightarrow> (s, RHINO_NULL_PTR))"

definition krhino_timer_create :: "u8 list \<Rightarrow> tmid option \<Rightarrow> string option \<Rightarrow> nat option \<Rightarrow> u64 \<Rightarrow> u64 \<Rightarrow> u32 \<Rightarrow> bool
    \<Rightarrow> tsys \<Rightarrow> tsys \<times> kstat" where
  "krhino_timer_create junk timer name callback first round arg auto_run s =
     timer_create junk timer name callback first round arg auto_run K_OBJ_STATIC_ALLOC s"

text \<open>\<open>alloc\<close> is the result of \<open>krhino_mm_alloc\<close>.\<close>

definition krhino_timer_dyn_create :: "u8 list \<Rightarrow> bool \<Rightarrow> tmid option \<Rightarrow> string option \<Rightarrow> nat option \<Rightarrow> u64 \<Rightarrow> u64 \<Rightarrow> u32
    \<Rightarrow> bool \<Rightarrow> tsys \<Rightarrow> tsys \<times> kstat \<times> tmid option" where
  "krhino_timer_dyn_create junk out alloc name callback first round arg auto_run s =
     (if \<not> out then (s, RHINO_NULL_PTR, None)
      else if first \<ge> MAX_TIMER_TICKS then (s, RHINO_INV_PARAM, None)
      else if round \<ge> MAX_TIMER_TICKS then (s, RHINO_INV_PARAM, None)
      else (case alloc of None \<Rightarrow> (s, RHINO_NO_MEM, None)
       | Some t \<Rightarrow>
           (case timer_create junk (Some t) name callback first round arg auto_run K_OBJ_DYN_ALLOC s of (s1, ret) \<Rightarrow>
             if ret \<noteq> RHINO_SUCCESS then (upd_kern (krhino_mm_free (unat t)) s1, ret, None)
             else (s1, ret, Some t))))"

subsection \<open>The list of active timers\<close>

definition timer_left :: "tsys \<Rightarrow> tmid \<Rightarrow> u64" where
  "timer_left s t = match (timers s t) - g_timer_count s"

fun timer_list_pri_insert :: "tsys \<Rightarrow> u64 \<Rightarrow> tmid \<Rightarrow> tmid list \<Rightarrow> tmid list" where
  "timer_list_pri_insert s val t [] = [t]"
| "timer_list_pri_insert s val t (q # qs) =
     (if timer_left s q > val then t # q # qs else q # timer_list_pri_insert s val t qs)"

definition timer_list_insert :: "tmid \<Rightarrow> tsys \<Rightarrow> tsys" where
  "timer_list_insert t s = s\<lparr>g_timer_head := timer_list_pri_insert s (remain (timers s t)) t (g_timer_head s)\<rparr>"

definition timer_list_rm :: "tmid \<Rightarrow> tsys \<Rightarrow> tsys" where
  "timer_list_rm t s = (if to_head (timers s t)
     then upd_timer t (\<lambda>x. x\<lparr>to_head := False\<rparr>) (s\<lparr>g_timer_head := remove1 t (g_timer_head s)\<rparr>) else s)"

subsection \<open>Expiry\<close>

text \<open>The successor of a node. An unlinked node keeps its pointer to its former successor.\<close>

fun next_of :: "'a \<Rightarrow> 'a list \<Rightarrow> 'a option" where
  "next_of x [] = None"
| "next_of x (y # ys) = (if x = y then (case ys of [] \<Rightarrow> None | z # zs \<Rightarrow> Some z) else next_of x ys)"

definition timer_call :: "cb_env \<Rightarrow> tmid \<Rightarrow> tsys \<Rightarrow> tsys" where
  "timer_call env t s = (let s1 = env (cb (timers s t)) t (timer_cb_arg (timers s t)) s
     in s1\<lparr>cb_calls := cb_calls s1 @ [t]\<rparr>)"

definition timer_fire :: "cb_env \<Rightarrow> tmid \<Rightarrow> tsys \<Rightarrow> tsys \<times> tmid option" where
  "timer_fire env t s =
     (let s1 = timer_call env t s; nxt = next_of t (g_timer_head s1); s2 = timer_list_rm t s1 in
      if round_ticks (timers s2 t) > 0
      then (let s3 = upd_timer t (\<lambda>x. x\<lparr>remain := round_ticks x, match := g_timer_count s2 + round_ticks x, to_head := True\<rparr>) s2;
                s4 = timer_list_insert t s3
            in (s4, next_of t (g_timer_head s4)))
      else (upd_timer t (\<lambda>x. x\<lparr>timer_state := TIMER_DEACTIVE\<rparr>) s2, nxt))"

fun timer_cb_loop :: "cb_env \<Rightarrow> nat \<Rightarrow> tmid option \<Rightarrow> tsys \<Rightarrow> tsys" where
  "timer_cb_loop env n None s = s"
| "timer_cb_loop env 0 (Some t) s = upd_kern (fault KHang) s"
| "timer_cb_loop env (Suc n) (Some t) s =
     (if sint (match (timers s t) - g_timer_count s) \<le> 0
      then (case timer_fire env t s of (s1, nxt) \<Rightarrow> timer_cb_loop env n nxt s1) else s)"

text \<open>
  Every timer is visited at most once more than it is on the list: \<open>timer_pass\<close> of theory \<open>Timer_Expiry\<close> shows that the fuel is enough as long as
  periods are at most \<open>MAX_TIMER_TICKS\<close> and the task is not late. Otherwise the loop of the source may visit more nodes
  (\<open>timer_change_spins\<close>); the function then stops with \<open>KHang\<close>. Theory \<open>Timer_Run\<close> has the loop as single steps, without a bound.
\<close>

definition timer_cb_proc :: "cb_env \<Rightarrow> tsys \<Rightarrow> tsys" where
  "timer_cb_proc env s = timer_cb_loop env (length (g_timer_head s) + 1)
     (case g_timer_head s of [] \<Rightarrow> None | t # ts \<Rightarrow> Some t) s"

subsection \<open>Commands in the timer task\<close>

definition cmd_start :: "tmid \<Rightarrow> tsys \<Rightarrow> tsys" where
  "cmd_start t s = (if tmr_obj_type (timers s t) \<noteq> RHINO_TIMER_OBJ_TYPE then s
     else if timer_state (timers s t) = TIMER_ACTIVE then s
     else (let s1 = upd_timer t (\<lambda>x. x\<lparr>match := g_timer_count s + init_count x, remain := init_count x, to_head := True\<rparr>) s
           in upd_timer t (\<lambda>x. x\<lparr>timer_state := TIMER_ACTIVE\<rparr>) (timer_list_insert t s1)))"

definition cmd_stop :: "tmid \<Rightarrow> tsys \<Rightarrow> tsys" where
  "cmd_stop t s = (if tmr_obj_type (timers s t) \<noteq> RHINO_TIMER_OBJ_TYPE then s
     else if timer_state (timers s t) = TIMER_DEACTIVE then s
     else upd_timer t (\<lambda>x. x\<lparr>timer_state := TIMER_DEACTIVE\<rparr>) (timer_list_rm t s))"

definition cmd_chg :: "tmid \<Rightarrow> u64 \<Rightarrow> u64 \<Rightarrow> tsys \<Rightarrow> tsys" where
  "cmd_chg t first round s = (if first = 0 then s
     else if tmr_obj_type (timers s t) \<noteq> RHINO_TIMER_OBJ_TYPE then s
     else (let s1 = (if timer_state (timers s t) \<noteq> TIMER_DEACTIVE
                     then upd_timer t (\<lambda>x. x\<lparr>timer_state := TIMER_DEACTIVE\<rparr>) (timer_list_rm t s) else s)
           in upd_timer t (\<lambda>x. x\<lparr>init_count := first, round_ticks := round\<rparr>) s1))"

definition cmd_arg_chg :: "tmid \<Rightarrow> u32 \<Rightarrow> tsys \<Rightarrow> tsys" where
  "cmd_arg_chg t arg s = (if tmr_obj_type (timers s t) \<noteq> RHINO_TIMER_OBJ_TYPE then s
     else if timer_state (timers s t) \<noteq> TIMER_DEACTIVE then s
     else upd_timer t (\<lambda>x. x\<lparr>timer_cb_arg := arg\<rparr>) s)"

definition cmd_del :: "mm_alloc_flag_t \<Rightarrow> tmid \<Rightarrow> tsys \<Rightarrow> tsys" where
  "cmd_del flag t s = (if tmr_obj_type (timers s t) \<noteq> RHINO_TIMER_OBJ_TYPE then s
     else if timer_state (timers s t) \<noteq> TIMER_DEACTIVE then s
     else if tmr_mm_alloc_flag (timers s t) \<noteq> flag then s
     else (let s1 = upd_timer t (\<lambda>x. x\<lparr>tmr_obj_type := RHINO_OBJ_TYPE_NONE\<rparr>) s
           in if flag = K_OBJ_DYN_ALLOC then upd_kern (krhino_mm_free (unat t)) s1 else s1))"

definition cmd_proc :: "u8 list \<Rightarrow> u8 \<Rightarrow> tsys \<Rightarrow> tsys" where
  "cmd_proc m cmd s = (let t = get_timer m in
     if cmd = TIMER_CMD_START then cmd_start t s
     else if cmd = TIMER_CMD_STOP then cmd_stop t s
     else if cmd = TIMER_CMD_CHG then cmd_chg t (get_first m) (get_round m) s
     else if cmd = TIMER_ARG_CHG then cmd_arg_chg t (get_arg m) s
     else if cmd = TIMER_CMD_DEL then cmd_del K_OBJ_STATIC_ALLOC t s
     else if cmd = TIMER_CMD_DYN_DEL then cmd_del K_OBJ_DYN_ALLOC t s
     else upd_kern (k_err_proc RHINO_SYS_FATAL_ERR) s)"

definition timer_cmd_proc :: "u8 list \<Rightarrow> tsys \<Rightarrow> tsys" where
  "timer_cmd_proc m s = (if get_cb_num m = TIMER_ARG_CHG_AUTO
     then cmd_proc m TIMER_CMD_START (cmd_proc m TIMER_ARG_CHG (cmd_proc m TIMER_CMD_STOP s))
     else cmd_proc m (get_cb_num m) s)"

subsection \<open>The timer task\<close>

text \<open>
  \<open>timer_loop\<close> is the inner \<open>while\<close>: it ends in a receive with a timeout, or, with an empty list, in the receive at the
  top of the outer loop. \<open>None\<close>: the fuel is used up. The second component is the number of ticks to wait.
\<close>

fun timer_loop :: "cb_env \<Rightarrow> nat \<Rightarrow> tsys \<Rightarrow> (tsys \<times> u64) option" where
  "timer_loop env 0 s = None"
| "timer_loop env (Suc n) s = (case g_timer_head s of
     [] \<Rightarrow> Some (s\<lparr>tpc := AtCmd\<rparr>, RHINO_WAIT_FOREVER)
   | t # ts \<Rightarrow>
       (case krhino_sys_tick_get (kern s) of (k, tick_start) \<Rightarrow>
         (let s1 = s\<lparr>kern := k\<rparr>; delta = match (timers s1 t) - tick_start in
          if sint delta > 0 then Some (s1\<lparr>tpc := AtDelay\<rparr>, delta)
          else timer_loop env n (timer_cb_proc env (s1\<lparr>g_timer_count := tick_start\<rparr>)))))"

text \<open>What the task does when the receive returns \<open>err\<close>, at the first and at the second place.\<close>

definition timer_got_cmd :: "kstat \<Rightarrow> tsys \<Rightarrow> tsys" where
  "timer_got_cmd err s = (case krhino_sys_tick_get (kern s) of (k, tick_end) \<Rightarrow>
     (let s1 = s\<lparr>kern := k\<rparr>;
          s2 = (if err = RHINO_SUCCESS then s1\<lparr>g_timer_count := tick_end\<rparr>
                else upd_kern (k_err_proc RHINO_SYS_FATAL_ERR) s1)
      in timer_cmd_proc (cb_msg s2) s2))"

definition timer_got_delay :: "kstat \<Rightarrow> tsys \<Rightarrow> tsys" where
  "timer_got_delay err s = (case krhino_sys_tick_get (kern s) of (k, tick_end) \<Rightarrow>
     (let s1 = s\<lparr>kern := k\<rparr> in
      if err = RHINO_BLK_TIMEOUT then s1\<lparr>g_timer_count := tick_end\<rparr>
      else if err = RHINO_SUCCESS then timer_cmd_proc (cb_msg s1) (s1\<lparr>g_timer_count := tick_end\<rparr>)
      else upd_kern (k_err_proc RHINO_SYS_FATAL_ERR) s1))"

text \<open>
  The timer task from the return of one receive, with the message in the buffer, to the next receive, as one function: time passes in it only
  inside the callbacks. Theory \<open>Timer_Run\<close> cuts the turn into its parts, with ticks and other tasks between them.
\<close>

definition timer_task :: "cb_env \<Rightarrow> nat \<Rightarrow> kstat \<Rightarrow> tsys \<Rightarrow> (tsys \<times> u64) option" where
  "timer_task env n err s = (case tpc s of
     AtCmd \<Rightarrow> timer_loop env n (timer_got_cmd err s)
   | AtDelay \<Rightarrow> timer_loop env n (timer_cb_proc env (timer_got_delay err s)))"

end
