(* ===== verification/Timer_Expiry.thy ===== *)
theory Timer_Expiry
  imports Timer_Facts
begin

text \<open>
  Expiry of timers. As long as the timer task is not late, the list is ordered by the time that is left, and every
  timer that is due is called exactly once before the task waits for the next one. Two theorems at the end show what
  happens otherwise.
\<close>

section \<open>The list of active timers\<close>

interpretation timer_ins: ordered_insert "timer_left s" "timer_list_pri_insert s" for s
  by unfold_locales simp_all

definition timer_inv :: "tsys \<Rightarrow> bool" where
  "timer_inv s \<longleftrightarrow> distinct (g_timer_head s)
     \<and> (\<forall>t. t \<in> set (g_timer_head s) \<longleftrightarrow> tmr_obj_type (timers s t) = RHINO_TIMER_OBJ_TYPE \<and> to_head (timers s t))
     \<and> (\<forall>t. tmr_obj_type (timers s t) = RHINO_TIMER_OBJ_TYPE \<longrightarrow> (to_head (timers s t) \<longleftrightarrow> timer_state (timers s t) = TIMER_ACTIVE))"

text \<open>
  What a callback may do. \<open>tidy_cb\<close>: anything but to the list and to the timers that exist; it may create timers, call the functions of
  the API and take time. \<open>quiet_cb\<close>: moreover no tick passes while it runs, and it reports no error; what is said about the moment of an
  expiry rests on it.
\<close>

definition tidy_cb :: "cb_env \<Rightarrow> bool" where
  "tidy_cb env \<longleftrightarrow> (\<forall>c t a s. g_timer_head (env c t a s) = g_timer_head s
     \<and> (\<forall>u. if tmr_obj_type (timers s u) = RHINO_TIMER_OBJ_TYPE then timers (env c t a s) u = timers s u
          else tmr_obj_type (timers (env c t a s) u) = RHINO_TIMER_OBJ_TYPE \<longrightarrow>
            \<not> to_head (timers (env c t a s) u) \<and> timer_state (timers (env c t a s) u) = TIMER_DEACTIVE))"

definition quiet_cb :: "cb_env \<Rightarrow> bool" where
  "quiet_cb env \<longleftrightarrow> (\<forall>c t a s. g_timer_head (env c t a s) = g_timer_head s \<and> g_timer_count (env c t a s) = g_timer_count s
     \<and> cb_calls (env c t a s) = cb_calls s \<and> g_tick_count (kern (env c t a s)) = g_tick_count (kern s)
     \<and> k_faults (kern (env c t a s)) = k_faults (kern s)
     \<and> (\<forall>u. if tmr_obj_type (timers s u) = RHINO_TIMER_OBJ_TYPE then timers (env c t a s) u = timers s u
          else tmr_obj_type (timers (env c t a s) u) = RHINO_TIMER_OBJ_TYPE \<longrightarrow>
            \<not> to_head (timers (env c t a s) u) \<and> timer_state (timers (env c t a s) u) = TIMER_DEACTIVE))"

lemma quiet_tidy: "quiet_cb env \<Longrightarrow> tidy_cb env"
  unfolding quiet_cb_def tidy_cb_def by metis

lemma timer_invD:
  assumes "timer_inv s"
  shows "distinct (g_timer_head s)" "t \<in> set (g_timer_head s) \<Longrightarrow> tmr_obj_type (timers s t) = RHINO_TIMER_OBJ_TYPE"
    "t \<in> set (g_timer_head s) \<Longrightarrow> to_head (timers s t)"
    "tmr_obj_type (timers s t) = RHINO_TIMER_OBJ_TYPE \<Longrightarrow> to_head (timers s t) \<Longrightarrow> t \<in> set (g_timer_head s)"
    "tmr_obj_type (timers s t) = RHINO_TIMER_OBJ_TYPE \<Longrightarrow> to_head (timers s t) \<longleftrightarrow> timer_state (timers s t) = TIMER_ACTIVE"
  using assms by (simp_all add: timer_inv_def)

lemma upd_timer_simps [simp]:
  "timers (upd_timer t f s) u = (if u = t then f (timers s t) else timers s u)" "kern (upd_timer t f s) = kern s"
  "g_timer_head (upd_timer t f s) = g_timer_head s" "g_timer_count (upd_timer t f s) = g_timer_count s"
  "cb_msg (upd_timer t f s) = cb_msg s" "tpc (upd_timer t f s) = tpc s" "cb_calls (upd_timer t f s) = cb_calls s"
  by (simp_all add: upd_timer_def)

lemma upd_kern_simps [simp]:
  "timers (upd_kern g s) = timers s" "kern (upd_kern g s) = g (kern s)"
  "g_timer_head (upd_kern g s) = g_timer_head s" "g_timer_count (upd_kern g s) = g_timer_count s"
  "cb_msg (upd_kern g s) = cb_msg s" "tpc (upd_kern g s) = tpc s" "cb_calls (upd_kern g s) = cb_calls s"
  by (simp_all add: upd_kern_def)

lemma timer_list_simps [simp]:
  "timers (timer_list_insert t s) = timers s" "kern (timer_list_insert t s) = kern s"
  "g_timer_count (timer_list_insert t s) = g_timer_count s" "cb_calls (timer_list_insert t s) = cb_calls s"
  "tpc (timer_list_insert t s) = tpc s" "cb_msg (timer_list_insert t s) = cb_msg s"
  "set (g_timer_head (timer_list_insert t s)) = insert t (set (g_timer_head s))"
  "distinct (g_timer_head (timer_list_insert t s)) \<longleftrightarrow> t \<notin> set (g_timer_head s) \<and> distinct (g_timer_head s)"
  "kern (timer_list_rm t s) = kern s" "g_timer_count (timer_list_rm t s) = g_timer_count s" "tpc (timer_list_rm t s) = tpc s"
  "cb_calls (timer_list_rm t s) = cb_calls s" "cb_msg (timer_list_rm t s) = cb_msg s"
  "g_timer_head (timer_list_rm t s) = (if to_head (timers s t) then remove1 t (g_timer_head s) else g_timer_head s)"
  "timers (timer_list_rm t s) u = (if u = t then (timers s t)\<lparr>to_head := False\<rparr> else timers s u)"
  by (simp_all add: timer_list_insert_def timer_list_rm_def timer_ins.set_ins timer_ins.distinct_ins)

text \<open>The commands keep the list consistent.\<close>

lemma timer_inv_cmds:
  assumes "timer_inv s"
  shows "timer_inv (cmd_start t s)" "timer_inv (cmd_stop t s)" "timer_inv (cmd_chg t f r s)" "timer_inv (cmd_arg_chg t a s)"
    "timer_inv (cmd_del fl t s)"
  using assms
  by (auto simp: timer_inv_def cmd_start_def cmd_stop_def cmd_chg_def cmd_arg_chg_def cmd_del_def Let_def)

lemma timer_inv_kern: "timer_inv (upd_kern g s) = timer_inv s" "timer_inv (s\<lparr>kern := k\<rparr>) = timer_inv s"
  "timer_inv (s\<lparr>g_timer_count := c\<rparr>) = timer_inv s" "timer_inv (s\<lparr>tpc := p\<rparr>) = timer_inv s"
  by (simp_all add: timer_inv_def)

lemma timer_inv_cmd_proc: "timer_inv s \<Longrightarrow> timer_inv (cmd_proc m c s)"
  by (simp add: cmd_proc_def Let_def timer_inv_cmds timer_inv_kern)

lemma timer_inv_timer_cmd_proc: "timer_inv s \<Longrightarrow> timer_inv (timer_cmd_proc m s)"
  by (simp add: timer_cmd_proc_def timer_inv_cmd_proc)

lemma timer_inv_call:
  assumes "timer_inv s" "tidy_cb env"
  shows "timer_inv (timer_call env t s)" "g_timer_head (timer_call env t s) = g_timer_head s"
    "u \<in> set (g_timer_head s) \<Longrightarrow> timers (timer_call env t s) u = timers s u"
proof -
  let ?e = "env (cb (timers s t)) t (timer_cb_arg (timers s t)) s"
  note q = assms(2) [unfolded tidy_cb_def, rule_format, of "cb (timers s t)" t "timer_cb_arg (timers s t)" s]
  have tm: "if tmr_obj_type (timers s u) = RHINO_TIMER_OBJ_TYPE then timers ?e u = timers s u
      else tmr_obj_type (timers ?e u) = RHINO_TIMER_OBJ_TYPE \<longrightarrow> \<not> to_head (timers ?e u) \<and> timer_state (timers ?e u) = TIMER_DEACTIVE" for u
    using q by blast
  show "timer_inv (timer_call env t s)" unfolding timer_inv_def
  proof (intro conjI allI impI)
    show "distinct (g_timer_head (timer_call env t s))" using timer_invD(1) [OF assms(1)] q by (simp add: timer_call_def Let_def)
  next
    fix u
    show "u \<in> set (g_timer_head (timer_call env t s)) \<longleftrightarrow> tmr_obj_type (timers (timer_call env t s) u) = RHINO_TIMER_OBJ_TYPE \<and> to_head (timers (timer_call env t s) u)"
      using timer_invD(2-4) [OF assms(1), of u] q tm [of u] by (auto simp: timer_call_def Let_def split: if_splits)
    assume "tmr_obj_type (timers (timer_call env t s) u) = RHINO_TIMER_OBJ_TYPE"
    then show "to_head (timers (timer_call env t s) u) \<longleftrightarrow> timer_state (timers (timer_call env t s) u) = TIMER_ACTIVE"
      using timer_invD(5) [OF assms(1), of u] tm [of u] by (auto simp: timer_call_def Let_def split: if_splits)
  qed
  show "g_timer_head (timer_call env t s) = g_timer_head s" using q by (simp add: timer_call_def Let_def)
  show "u \<in> set (g_timer_head s) \<Longrightarrow> timers (timer_call env t s) u = timers s u"
    using tm [of u] timer_invD(2) [OF assms(1)] by (simp add: timer_call_def Let_def)
qed

lemma quiet_call:
  assumes "quiet_cb env"
  shows "g_timer_count (timer_call env t s) = g_timer_count s" "cb_calls (timer_call env t s) = cb_calls s @ [t]"
    "g_tick_count (kern (timer_call env t s)) = g_tick_count (kern s)" "k_faults (kern (timer_call env t s)) = k_faults (kern s)"
  using assms by (simp_all add: quiet_cb_def timer_call_def Let_def)

section \<open>One timer expires\<close>

lemma next_of_mem: "next_of x xs = Some y \<Longrightarrow> y \<in> set xs"
  by (induction xs) (auto split: if_splits list.splits)

lemma next_of_neq: "next_of x xs = Some y \<Longrightarrow> distinct xs \<Longrightarrow> y \<noteq> x"
  by (induction xs) (auto split: if_splits list.splits dest: next_of_mem)

lemma next_of_split: "distinct (ys @ x # zs) \<Longrightarrow> next_of x (ys @ x # zs) = (case zs of [] \<Rightarrow> None | z # _ \<Rightarrow> Some z)"
  by (induction ys) auto

lemma timer_fire_inv:
  assumes i: "timer_inv s" and q: "tidy_cb env" and t: "t \<in> set (g_timer_head s)" and f: "timer_fire env t s = (s', nxt)"
  shows "timer_inv s'" "nxt = Some u \<Longrightarrow> u \<in> set (g_timer_head s')"
proof -
  define s1 where "s1 = timer_call env t s"
  note c = timer_inv_call [OF i q, of t, folded s1_def]
  have t1: "t \<in> set (g_timer_head s1)" "to_head (timers s1 t)" using c(2) t timer_invD(3) [OF c(1)] by auto
  note inv1 = c(1) [unfolded timer_inv_def]
  show "timer_inv s'" using f inv1 t1 unfolding timer_fire_def s1_def [symmetric]
    by (auto simp: timer_inv_def Let_def split: if_splits)
  show "u \<in> set (g_timer_head s')" if "nxt = Some u"
    using f that inv1 t1 next_of_neq [of t "g_timer_head s1" u] next_of_mem [of t "g_timer_head s1" u]
    unfolding timer_fire_def s1_def [symmetric]
    by (auto simp: Let_def in_set_remove1 dest!: next_of_mem split: if_splits)
qed

section \<open>A timer task that is not late\<close>

definition timer_ok :: "tsys \<Rightarrow> bool" where
  "timer_ok s \<longleftrightarrow> timer_inv s \<and> sorted_wrt (\<lambda>a b. timer_left s a \<le> timer_left s b) (g_timer_head s)
     \<and> (\<forall>t\<in>set (g_timer_head s). timer_left s t \<le> MAX_TIMER_TICKS \<and> round_ticks (timers s t) \<le> MAX_TIMER_TICKS)"

definition due :: "tsys \<Rightarrow> tmid set" where
  "due s = {t \<in> set (g_timer_head s). timer_left s t = 0}"

text \<open>The timers \<open>cs\<close> have been called, in this order; a periodic one is on the list again.\<close>

definition fired :: "tmid list \<Rightarrow> tsys \<Rightarrow> tsys \<Rightarrow> bool" where
  "fired cs s s' \<longleftrightarrow> timer_ok s' \<and> g_timer_count s' = g_timer_count s \<and> g_tick_count (kern s') = g_tick_count (kern s)
     \<and> k_faults (kern s') = k_faults (kern s) \<and> cb_calls s' = cb_calls s @ cs \<and> distinct cs \<and> set cs \<subseteq> due s
     \<and> set (g_timer_head s') = {t \<in> set (g_timer_head s). t \<in> set cs \<longrightarrow> round_ticks (timers s t) > 0}
     \<and> (\<forall>t\<in>set (g_timer_head s'). round_ticks (timers s' t) = round_ticks (timers s t)
          \<and> match (timers s' t) = (if t \<in> set cs then g_timer_count s + round_ticks (timers s t) else match (timers s t)))"

lemma max_ticks: "MAX_TIMER_TICKS = 2 ^ 63 - 1"
  unfolding MAX_TIMER_TICKS_def by code_simp

lemma soon_due:
  assumes "(w::u64) \<le> MAX_TIMER_TICKS"
  shows "sint w \<le> 0 \<longleftrightarrow> w = 0"
proof -
  have "uint w < 2 ^ 63" using assms unfolding max_ticks by (simp add: word_le_def)
  moreover have "- (2 ^ 63) \<le> uint w" by (rule order_trans [OF _ unsigned_greater_eq]) simp
  ultimately have "sint w = uint w" using signed_take_bit_int_eq_self [of 63 "uint w"] by (simp add: sint_uint)
  then show ?thesis by (auto simp: word_uint_eq_iff uint_le_0_iff)
qed

lemma far_due:
  assumes "MAX_TIMER_TICKS < (w::u64)"
  shows "sint w \<le> 0"
proof (rule ccontr)
  assume p: "\<not> sint w \<le> 0"
  have "sint w < 2 ^ 63" using sint_lt [of w] by simp
  then have "uint w < 2 ^ 63" using p by (simp add: uint_sint take_bit_int_eq_self)
  moreover have "uint (2 ^ 63 - 1 :: u64) = 2 ^ 63 - 1" by code_simp
  ultimately show False using assms unfolding max_ticks word_less_def by linarith
qed

lemma timer_okD:
  assumes "timer_ok s"
  shows "timer_inv s" "sorted_wrt (\<lambda>a b. timer_left s a \<le> timer_left s b) (g_timer_head s)"
    "t \<in> set (g_timer_head s) \<Longrightarrow> timer_left s t \<le> MAX_TIMER_TICKS" "t \<in> set (g_timer_head s) \<Longrightarrow> round_ticks (timers s t) \<le> MAX_TIMER_TICKS"
  using assms by (auto simp: timer_ok_def)

lemma fired_refl: "timer_ok s \<Longrightarrow> fired [] s s"
  by (simp add: fired_def)

lemma fired_due: "fired cs s s' \<Longrightarrow> due s' = due s - set cs"
  by (auto simp: fired_def due_def timer_left_def split: if_splits)

lemma fired_trans:
  assumes "fired cs s s'" "fired ds s' s''"
  shows "fired (cs @ ds) s s''"
  using assms fired_due [OF assms(1)]
  by (auto simp: fired_def)

lemma timer_fire_due:
  assumes ok: "timer_ok s" and q: "quiet_cb env" and h: "g_timer_head s = t # ts" and z: "timer_left s t = 0"
    and f: "timer_fire env t s = (s', nxt)"
  shows "fired [t] s s'"
    "round_ticks (timers s t) = 0 \<Longrightarrow> g_timer_head s' = ts \<and> nxt = (case ts of [] \<Rightarrow> None | u # _ \<Rightarrow> Some u)"
    "round_ticks (timers s t) > 0 \<Longrightarrow> (case nxt of None \<Rightarrow> True | Some u \<Rightarrow> u \<in> set (g_timer_head s') \<and> timer_left s' u \<noteq> 0)"
proof -
  define s1 where "s1 = timer_call env t s"
  note i = timer_okD(1) [OF ok]
  note c = timer_inv_call(1,2) [OF i quiet_tidy [OF q], where t = t, folded s1_def] quiet_call [OF q, where t = t and s = s, folded s1_def]
    timer_inv_call(3) [OF i quiet_tidy [OF q], where t = t, folded s1_def]
  have d: "distinct (t # ts)" using timer_invD(1) [OF i] h by simp
  have h1: "g_timer_head s1 = t # ts" "to_head (timers s1 t)" using c(2) h timer_invD(3) [OF c(1), of t] by simp_all
  have same: "timers s1 u = timers s u" if "u \<in> set (t # ts)" for u using c(7) h that by simp
  have left: "timer_left s1 u = timer_left s u" if "u \<in> set (t # ts)" for u using same [OF that] c(3) by (simp add: timer_left_def)
  define s2 where "s2 = timer_list_rm t s1"
  have h2: "g_timer_head s2 = ts" "\<And>u. timers s2 u = (if u = t then (timers s1 t)\<lparr>to_head := False\<rparr> else timers s1 u)"
    using h1 by (simp_all add: s2_def)
  define s4 where "s4 = timer_list_insert t (upd_timer t (\<lambda>x. x\<lparr>remain := round_ticks x, match := g_timer_count s2 + round_ticks x, to_head := True\<rparr>) s2)"
  let ?r = "round_ticks (timers s t)"
  have h4: "g_timer_head s4 = timer_list_pri_insert s4 ?r t ts" "\<And>u. u \<in> set ts \<Longrightarrow> timer_left s4 u = timer_left s u"
    "timer_left s4 t = ?r" "g_timer_count s4 = g_timer_count s" "\<And>u. u \<in> set ts \<Longrightarrow> timers s4 u = timers s u"
    "match (timers s4 t) = g_timer_count s + ?r" "round_ticks (timers s4 t) = ?r"
  proof -
    have k: "timer_list_pri_insert a v t l = timer_list_pri_insert b v t l" if "\<And>u. u \<in> set l \<Longrightarrow> timer_left a u = timer_left b u" for a b v l
      using that by (induction l) auto
    show tm: "timers s4 u = timers s u" "timer_left s4 u = timer_left s u" if "u \<in> set ts" for u
      using that d same [of u] c(3) by (auto simp: s4_def s2_def timer_left_def)
    show "timer_left s4 t = ?r" "g_timer_count s4 = g_timer_count s" "match (timers s4 t) = g_timer_count s + ?r" "round_ticks (timers s4 t) = ?r"
      using same [of t] c(3) by (simp_all add: s4_def s2_def timer_left_def)
    have "g_timer_head s4 = timer_list_pri_insert (upd_timer t (\<lambda>x. x\<lparr>remain := round_ticks x, match := g_timer_count s2 + round_ticks x, to_head := True\<rparr>) s2) ?r t ts"
      using same [of t] h2(1) by (simp add: s4_def timer_list_insert_def s2_def)
    also have "\<dots> = timer_list_pri_insert s4 ?r t ts"
      by (rule k) (use d in \<open>auto simp: s4_def timer_left_def\<close>)
    finally show "g_timer_head s4 = timer_list_pri_insert s4 ?r t ts" .
  qed
  have f': "timer_fire env t s = (if ?r > 0 then (s4, next_of t (g_timer_head s4))
      else (upd_timer t (\<lambda>x. x\<lparr>timer_state := TIMER_DEACTIVE\<rparr>) s2, next_of t (t # ts)))"
    using same [of t] h1(1) by (simp add: timer_fire_def Let_def s1_def [symmetric] s2_def [symmetric] s4_def [symmetric])
  have inv': "timer_inv s'" using timer_fire_inv(1) [OF i quiet_tidy [OF q] _ f] h by simp
  have srt: "sorted_wrt (\<lambda>a b. timer_left s a \<le> timer_left s b) ts" using timer_okD(2) [OF ok] h by simp
  have frame: "g_tick_count (kern s4) = g_tick_count (kern s)" "k_faults (kern s4) = k_faults (kern s)" "cb_calls s4 = cb_calls s @ [t]"
    "g_tick_count (kern s2) = g_tick_count (kern s)" "k_faults (kern s2) = k_faults (kern s)" "cb_calls s2 = cb_calls s @ [t]"
    "g_timer_count s2 = g_timer_count s"
    using c by (simp_all add: s4_def s2_def)
  have bound: "timer_left s u \<le> MAX_TIMER_TICKS" "round_ticks (timers s u) \<le> MAX_TIMER_TICKS" if "u \<in> set (t # ts)" for u
    using timer_okD(3,4) [OF ok, of u] that h by simp_all
  show "fired [t] s s'"
  proof (cases "?r > 0")
    case True
    then have s': "s' = s4" using f f' by simp
    have "sorted_wrt (\<lambda>a b. timer_left s4 a \<le> timer_left s4 b) ts"
      using srt sorted_wrt_key_cong [of ts "timer_left s4" "timer_left s"] h4(2) by blast
    then have "sorted_wrt (\<lambda>a b. timer_left s4 a \<le> timer_left s4 b) (g_timer_head s4)"
      unfolding h4(1) by (rule timer_ins.sorted_ins) (rule h4(3))
    moreover have hs: "set (g_timer_head s4) = set (t # ts)" unfolding h4(1) by (simp add: timer_ins.set_ins)
    ultimately have "timer_ok s4" using inv' h4 bound unfolding timer_ok_def s' hs by auto
    then show ?thesis using True h hs h4 z frame d by (auto simp: fired_def s' due_def)
  next
    case False
    then have s': "s' = upd_timer t (\<lambda>x. x\<lparr>timer_state := TIMER_DEACTIVE\<rparr>) s2" using f f' by simp
    have hs: "g_timer_head s' = ts" "g_timer_count s' = g_timer_count s" "\<And>u. u \<in> set ts \<Longrightarrow> timers s' u = timers s u"
      using h2 d same frame by (auto simp: s')
    then have l: "timer_left s' u = timer_left s u" if "u \<in> set ts" for u using that by (simp add: timer_left_def)
    then have "sorted_wrt (\<lambda>a b. timer_left s' a \<le> timer_left s' b) ts"
      using srt sorted_wrt_key_cong [of ts "timer_left s'" "timer_left s"] by blast
    then have "timer_ok s'" using inv' hs l bound by (auto simp: timer_ok_def)
    then show ?thesis using False h hs z frame d by (auto simp: fired_def due_def) (auto simp: s' frame)
  qed
  show "g_timer_head s' = ts \<and> nxt = (case ts of [] \<Rightarrow> None | u # _ \<Rightarrow> Some u)" if "?r = 0"
    using that f f' h2(1) by auto
  show "case nxt of None \<Rightarrow> True | Some u \<Rightarrow> u \<in> set (g_timer_head s') \<and> timer_left s' u \<noteq> 0" if "?r > 0"
  proof -
    have s': "s' = s4" "nxt = next_of t (g_timer_head s4)" using f f' that by auto
    let ?p = "takeWhile (\<lambda>y. timer_left s4 y \<le> ?r) ts" and ?d = "dropWhile (\<lambda>y. timer_left s4 y \<le> ?r) ts"
    have sp: "g_timer_head s4 = ?p @ t # ?d" unfolding h4(1) by (rule timer_ins.ins_split)
    have "distinct (?p @ t # ?d)" using timer_invD(1) [OF inv'] s' sp by simp
    from next_of_split [OF this] have "nxt = (case ?d of [] \<Rightarrow> None | u # _ \<Rightarrow> Some u)" using s' sp by simp
    then show ?thesis using s' sp hd_dropWhile [of "\<lambda>y. timer_left s4 y \<le> ?r" ts] that by (cases ?d) auto
  qed
qed

text \<open>One pass over the list ends, within its fuel, and calls at least the first timer when that is due.\<close>

lemma timer_pass:
  assumes "timer_ok s" "quiet_cb env" "length (g_timer_head s) < n"
    and "nxt = (case g_timer_head s of [] \<Rightarrow> None | t # _ \<Rightarrow> Some t)"
  shows "\<exists>cs. fired cs s (timer_cb_loop env n nxt s) \<and> (g_timer_head s \<noteq> [] \<and> timer_left s (hd (g_timer_head s)) = 0 \<longrightarrow> cs \<noteq> [])"
  using assms
proof (induction n arbitrary: s nxt)
  case (Suc n)
  show ?case
  proof (cases "g_timer_head s")
    case Nil
    then show ?thesis using fired_refl [OF Suc.prems(1)] Suc.prems(4) by auto
  next
    case (Cons t ts)
    have t: "t \<in> set (g_timer_head s)" using Cons by simp
    note z = soon_due [OF timer_okD(3) [OF Suc.prems(1) t], folded]
    obtain s1 nx where f: "timer_fire env t s = (s1, nx)" by (cases "timer_fire env t s")
    show ?thesis
    proof (cases "timer_left s t = 0")
      case False
      then have "timer_cb_loop env (Suc n) nxt s = s" using z Suc.prems(4) Cons by (simp add: timer_left_def)
      then show ?thesis using fired_refl [OF Suc.prems(1)] False Cons by auto
    next
      case True
      note fd = timer_fire_due [OF Suc.prems(1,2) Cons True f]
      have lp: "timer_cb_loop env (Suc n) nxt s = timer_cb_loop env n nx s1"
        using z True Suc.prems(4) Cons f by (simp add: timer_left_def)
      have ok1: "timer_ok s1" using fd(1) by (simp add: fired_def)
      show ?thesis
      proof (cases "round_ticks (timers s t) = 0")
        case True
        have "length (g_timer_head s1) < n" using fd(2) [OF True] Suc.prems(3) Cons by simp
        with Suc.IH [OF ok1 Suc.prems(2), of nx] fd(2) [OF True] obtain cs where "fired cs s1 (timer_cb_loop env n nx s1)" by auto
        from fired_trans [OF fd(1) this] show ?thesis using lp by auto
      next
        case False
        then have per: "case nx of None \<Rightarrow> True | Some u \<Rightarrow> u \<in> set (g_timer_head s1) \<and> timer_left s1 u \<noteq> 0"
          using fd(3) by (simp add: word_gt_0)
        have "n > 0" using Suc.prems(3) Cons by simp
        then obtain k where k: "n = Suc k" by (cases n) simp_all
        have "timer_cb_loop env n nx s1 = s1"
          using per soon_due timer_okD(3) [OF ok1] unfolding k by (cases nx) (auto simp: timer_left_def)
        then show ?thesis using fd(1) lp by auto
      qed
    qed
  qed
qed simp

lemma timer_cb_proc_fired:
  assumes "timer_ok s" "quiet_cb env"
  shows "\<exists>cs. fired cs s (timer_cb_proc env s) \<and> (g_timer_head s \<noteq> [] \<and> timer_left s (hd (g_timer_head s)) = 0 \<longrightarrow> cs \<noteq> [])"
  unfolding timer_cb_proc_def by (rule timer_pass [OF assms]) simp_all

lemma tick_get_faults [simp]: "k_faults (fst (krhino_sys_tick_get s)) = k_faults s"
  by (simp add: krhino_sys_tick_get_def Let_def)

text \<open>The inner loop ends with nothing due, and each timer that was due has been called once.\<close>

lemma timer_loop_fired:
  assumes "timer_ok s" "quiet_cb env" "g_timer_count s = g_tick_count (kern s)" "card (due s) < n"
  shows "\<exists>s' w cs. timer_loop env n s = Some (s', w) \<and> fired cs s s' \<and> set cs = due s
    \<and> w = (if g_timer_head s' = [] then RHINO_WAIT_FOREVER else timer_left s' (hd (g_timer_head s')))"
  using assms
proof (induction n arbitrary: s)
  case (Suc n)
  have fin: "finite (due s)" by (simp add: due_def)
  let ?k = "fst (krhino_sys_tick_get (kern s))"
  have same: "fired [] s (s\<lparr>kern := ?k, tpc := p\<rparr>)" for p
    using Suc.prems(1) by (auto simp: fired_def timer_ok_def timer_inv_def timer_left_def)
  show ?case
  proof (cases "g_timer_head s")
    case Nil
    have "fired [] s (s\<lparr>tpc := AtCmd\<rparr>)" using Suc.prems(1) by (auto simp: fired_def timer_ok_def timer_inv_def timer_left_def)
    then show ?thesis using Nil by (auto simp: due_def)
  next
    case (Cons t ts)
    have t: "t \<in> set (g_timer_head s)" using Cons by simp
    have z: "sint (timer_left s t) \<le> 0 \<longleftrightarrow> timer_left s t = 0" using soon_due timer_okD(3) [OF Suc.prems(1) t] by blast
    have cnt: "s\<lparr>kern := ?k, g_timer_count := g_tick_count (kern s)\<rparr> = s\<lparr>kern := ?k\<rparr>"
      using Suc.prems(3) [symmetric] by (cases s) simp
    have lp: "timer_loop env (Suc n) s = (if sint (timer_left s t) > 0 then Some (s\<lparr>kern := ?k, tpc := AtDelay\<rparr>, timer_left s t)
        else timer_loop env n (timer_cb_proc env (s\<lparr>kern := ?k\<rparr>)))"
      using Cons Suc.prems(3) by (simp add: Let_def timer_left_def split_beta cnt)
    show ?thesis
    proof (cases "timer_left s t = 0")
      case False
      have "timer_left s u \<noteq> 0" if "u \<in> set (g_timer_head s)" for u
        using sorted_wrt_hd_least [OF timer_okD(2) [OF Suc.prems(1)] that] False Cons by auto
      then have "due s = {}" by (auto simp: due_def)
      moreover have "timer_left (s\<lparr>kern := ?k, tpc := AtDelay\<rparr>) t = timer_left s t" by (simp add: timer_left_def)
      ultimately show ?thesis using lp z False same [of AtDelay] Cons by auto
    next
      case True
      let ?s = "s\<lparr>kern := ?k\<rparr>"
      have s0: "fired [] s ?s" using Suc.prems(1) by (auto simp: fired_def timer_ok_def timer_inv_def timer_left_def)
      then have ok0: "timer_ok ?s" by (simp add: fired_def)
      obtain cs where cs: "fired cs ?s (timer_cb_proc env ?s)" "cs \<noteq> []"
        using timer_cb_proc_fired [OF ok0 Suc.prems(2)] True Cons by (auto simp: timer_left_def)
      define s1 where "s1 = timer_cb_proc env ?s"
      have f1: "fired cs s s1" using fired_trans [OF s0 cs(1)] by (simp add: s1_def)
      have d1: "due s1 = due s - set cs" "set cs \<subseteq> due s" using fired_due [OF f1] f1 by (auto simp: fired_def)
      obtain c where "c \<in> set cs" using cs(2) by (cases cs) auto
      then have "card (due s1) < card (due s)" using d1 fin by (intro psubset_card_mono) auto
      then have "card (due s1) < n" using Suc.prems(4) by simp
      moreover have "timer_ok s1" "g_timer_count s1 = g_tick_count (kern s1)" using f1 Suc.prems(3) by (auto simp: fired_def)
      ultimately obtain s' w ds where r: "timer_loop env n s1 = Some (s', w)" "fired ds s1 s'" "set ds = due s1"
        "w = (if g_timer_head s' = [] then RHINO_WAIT_FOREVER else timer_left s' (hd (g_timer_head s')))"
        using Suc.IH [OF _ Suc.prems(2)] by blast
      have "timer_loop env (Suc n) s = timer_loop env n s1" using lp z True by (simp add: s1_def)
      moreover have "fired (cs @ ds) s s'" "set (cs @ ds) = due s" using fired_trans [OF f1 r(2)] r(3) d1 by auto
      ultimately show ?thesis using r(1,4) by metis
    qed
  qed
qed simp

text \<open>A turn of a task that is not late, from the timeout to the next receive.\<close>

lemma timer_turn:
  assumes "timer_ok s" "quiet_cb env" "tpc s = AtDelay" and T: "T = g_tick_count (kern s)"
    and late: "\<forall>t\<in>set (g_timer_head s). T - g_timer_count s \<le> timer_left s t" and n: "length (g_timer_head s) < n"
  defines "s1 \<equiv> timer_got_delay RHINO_BLK_TIMEOUT s"
  shows "\<exists>s' w cs. timer_task env n RHINO_BLK_TIMEOUT s = Some (s', w) \<and> fired cs s1 s' \<and> set cs = due s1
    \<and> w = (if g_timer_head s' = [] then RHINO_WAIT_FOREVER else timer_left s' (hd (g_timer_head s')))"
    "timers s1 = timers s" "g_timer_head s1 = g_timer_head s" "g_timer_count s1 = T" "cb_calls s1 = cb_calls s"
    "k_faults (kern s1) = k_faults (kern s)"
proof -
  show f: "timers s1 = timers s" "g_timer_head s1 = g_timer_head s" "g_timer_count s1 = T" "cb_calls s1 = cb_calls s"
    "k_faults (kern s1) = k_faults (kern s)"
    using T by (simp_all add: s1_def timer_got_delay_def split_beta Let_def)
  have tk: "g_tick_count (kern s1) = T" using T by (simp add: s1_def timer_got_delay_def split_beta Let_def)
  have left: "timer_left s1 t = timer_left s t - (T - g_timer_count s)" for t by (simp add: timer_left_def f)
  have mono: "timer_left s1 a \<le> timer_left s1 b \<longleftrightarrow> timer_left s a \<le> timer_left s b"
    if "a \<in> set (g_timer_head s)" "b \<in> set (g_timer_head s)" for a b
    using bspec [OF late that(1)] bspec [OF late that(2)] unfolding left by (simp add: word_le_nat_alt unat_sub le_diff_iff)
  have "sorted_wrt (\<lambda>a b. timer_left s1 a \<le> timer_left s1 b) (g_timer_head s)"
    using timer_okD(2) [OF assms(1)] mono by (metis (no_types, lifting) sorted_wrt_mono_rel)
  moreover have "timer_left s1 t \<le> MAX_TIMER_TICKS" if "t \<in> set (g_timer_head s)" for t
    using timer_okD(3) [OF assms(1) that] late that unfolding left by (auto simp: word_le_nat_alt unat_sub)
  ultimately have ok1: "timer_ok s1"
    using assms(1) f by (auto simp: timer_ok_def timer_inv_def)
  obtain cs where cs: "fired cs s1 (timer_cb_proc env s1)" using timer_cb_proc_fired [OF ok1 assms(2)] by blast
  define s2 where "s2 = timer_cb_proc env s1"
  have f2: "timer_ok s2" "g_timer_count s2 = g_tick_count (kern s2)" using cs f tk by (auto simp: fired_def s2_def)
  have "card (due s2) \<le> card (set (g_timer_head s))"
    using fired_due [OF cs] f(2) by (intro card_mono) (auto simp: s2_def due_def)
  also have "\<dots> < n" using n card_length [of "g_timer_head s"] by linarith
  finally obtain s' w ds where r: "timer_loop env n s2 = Some (s', w)" "fired ds s2 s'" "set ds = due s2"
    "w = (if g_timer_head s' = [] then RHINO_WAIT_FOREVER else timer_left s' (hd (g_timer_head s')))"
    using timer_loop_fired [OF f2(1) assms(2) f2(2)] by blast
  have "set (cs @ ds) = due s1" using r(3) fired_due [OF cs] cs by (auto simp: s2_def fired_def)
  moreover have "timer_task env n RHINO_BLK_TIMEOUT s = Some (s', w)" using r(1) assms(3) by (simp add: timer_task_def s1_def s2_def)
  ultimately show "\<exists>s' w cs. timer_task env n RHINO_BLK_TIMEOUT s = Some (s', w) \<and> fired cs s1 s' \<and> set cs = due s1
    \<and> w = (if g_timer_head s' = [] then RHINO_WAIT_FOREVER else timer_left s' (hd (g_timer_head s')))"
    using fired_trans [OF cs [folded s2_def] r(2)] r(4) by blast
qed

text \<open>
  C29: Timers are called on time. When the timer task wakes up no later than the next expiry, it calls the timers whose time has come, each
  exactly once and no other; afterwards the periodic ones among them are on the list again, one period later, the others are
  off the list, and the task waits for exactly the time that is left until the next expiry, or for a command when no timer
  is active. The turn ends: its loops need no more rounds than there are active timers. No tick passes during the turn (\<open>quiet_cb\<close> asks
  it of the callbacks).
\<close>

theorem timer_task_on_time:
  assumes "timer_ok s" "quiet_cb env" "tpc s = AtDelay" and T: "T = g_tick_count (kern s)"
    and late: "\<forall>t\<in>set (g_timer_head s). T - g_timer_count s \<le> timer_left s t" and "length (g_timer_head s) < n"
  shows "\<exists>s' w cs. timer_task env n RHINO_BLK_TIMEOUT s = Some (s', w)
    \<and> cb_calls s' = cb_calls s @ cs \<and> distinct cs \<and> set cs = {t \<in> set (g_timer_head s). match (timers s t) = T}
    \<and> set (g_timer_head s') = {t \<in> set (g_timer_head s). match (timers s t) = T \<longrightarrow> round_ticks (timers s t) > 0}
    \<and> (\<forall>t\<in>set (g_timer_head s'). match (timers s' t) = (if match (timers s t) = T then T + round_ticks (timers s t) else match (timers s t))
         \<and> w \<le> match (timers s' t) - T)
    \<and> 0 < w \<and> (g_timer_head s' \<noteq> [] \<longrightarrow> w = match (timers s' (hd (g_timer_head s'))) - T)
    \<and> k_faults (kern s') = k_faults (kern s)"
proof -
  define s1 where "s1 = timer_got_delay RHINO_BLK_TIMEOUT s"
  note tt = timer_turn [OF assms, folded s1_def]
  obtain s' w cs where r: "timer_task env n RHINO_BLK_TIMEOUT s = Some (s', w)" "fired cs s1 s'" "set cs = due s1"
    "w = (if g_timer_head s' = [] then RHINO_WAIT_FOREVER else timer_left s' (hd (g_timer_head s')))"
    using tt(1) by blast
  have due: "due s1 = {t \<in> set (g_timer_head s). match (timers s t) = T}" by (auto simp: due_def timer_left_def tt)
  have e: "due s' = {}" "g_timer_count s' = T" using fired_due [OF r(2)] r tt by (auto simp: fired_def)
  have ok': "timer_ok s'" using r(2) by (simp add: fired_def)
  have w: "w \<le> match (timers s' t) - T" if "t \<in> set (g_timer_head s')" for t
    using sorted_wrt_hd_least [OF timer_okD(2) [OF ok'] that] that r(4) e(2) by (auto simp: timer_left_def)
  have "w \<noteq> 0" using r(4) e(1) hd_in_set [of "g_timer_head s'"] by (auto simp: due_def split: if_splits)
  then have w0: "0 < w" by (simp add: word_gt_0)
  show ?thesis
    using r due w w0 e(2) unfolding fired_def tt(2-6) by (intro exI [of _ s'] exI [of _ w] exI [of _ cs]) (auto simp: timer_left_def)
qed

section \<open>Three timers\<close>

definition no_cb :: cb_env where
  "no_cb c t a s = s"

lemma quiet_no_cb: "quiet_cb no_cb"
  by (auto simp: quiet_cb_def no_cb_def)

definition a_timer :: "u64 \<Rightarrow> u64 \<Rightarrow> ktimer_t" where
  "a_timer m r = \<lparr>to_head = True, cb = 0x800, timer_cb_arg = 0, match = m, remain = 0, init_count = 1000, round_ticks = r,
     tmr_obj_type = RHINO_TIMER_OBJ_TYPE, timer_state = TIMER_ACTIVE, tmr_mm_alloc_flag = K_OBJ_STATIC_ALLOC\<rparr>"

definition no_timer :: ktimer_t where
  "no_timer = \<lparr>to_head = False, cb = 0, timer_cb_arg = 0, match = 0, remain = 0, init_count = 0, round_ticks = 0,
     tmr_obj_type = RHINO_OBJ_TYPE_NONE, timer_state = TIMER_DEACTIVE, tmr_mm_alloc_flag = K_OBJ_STATIC_ALLOC\<rparr>"

text \<open>At tick 10 a periodic and a one-shot timer are due, and a third has two ticks left.\<close>

definition three_timers :: tsys where
  "three_timers = \<lparr>kern = boot_state\<lparr>g_tick_count := 10\<rparr>,
     timers = (\<lambda>_. no_timer)(1 := a_timer 10 5, 2 := a_timer 10 0, 3 := a_timer 12 0),
     g_timer_head = [1, 2, 3], g_timer_count = 7, cb_msg = replicate 24 0, tpc = AtDelay, cb_calls = []\<rparr>"

lemma three_timers_ok: "timer_ok three_timers"
proof -
  have "timer_inv three_timers"
    by (auto simp: timer_inv_def three_timers_def a_timer_def no_timer_def)
  moreover have "(5::u64) \<le> MAX_TIMER_TICKS" "(3::u64) \<le> MAX_TIMER_TICKS" "(0::u64) \<le> MAX_TIMER_TICKS"
    unfolding max_ticks by code_simp+
  ultimately show ?thesis
    by (simp add: timer_ok_def three_timers_def a_timer_def timer_left_def)
qed

theorem timer_task_on_time_witness:
  "\<exists>s' w cs. timer_task no_cb 4 RHINO_BLK_TIMEOUT three_timers = Some (s', w) \<and> cb_calls s' = cs \<and> distinct cs \<and> set cs = {1, 2}
    \<and> set (g_timer_head s') = {1, 3}"
proof -
  let ?s = three_timers
  have f: "set (g_timer_head ?s) = {1, 2, 3}" "tpc ?s = AtDelay" "g_tick_count (kern ?s) = 10" "cb_calls ?s = []" "length (g_timer_head ?s) < 4"
    by (simp_all add: three_timers_def)
  have m: "match (timers ?s 1) = 10" "match (timers ?s 2) = 10" "match (timers ?s 3) = 12" "round_ticks (timers ?s 1) = 5"
    "round_ticks (timers ?s 2) = 0"
    by (simp_all add: three_timers_def a_timer_def)
  have l: "\<forall>t\<in>set (g_timer_head ?s). 10 - g_timer_count ?s \<le> timer_left ?s t"
    by (simp add: three_timers_def timer_left_def a_timer_def)
  have d: "{t \<in> set (g_timer_head ?s). match (timers ?s t) = 10} = {1, 2}"
    "{t \<in> set (g_timer_head ?s). match (timers ?s t) = 10 \<longrightarrow> round_ticks (timers ?s t) > 0} = {1, 3}"
    using m by (auto simp: f(1))
  from timer_task_on_time [OF three_timers_ok quiet_no_cb f(2) f(3) [symmetric] l f(5)]
  show ?thesis unfolding d f(4) by auto
qed

section \<open>A timer task that is late\<close>

text \<open>
  When the timer task runs late, an overdue timer can be put off for a long time. At tick 11 a timer is overdue since tick 10;
  the task receives the command to start another one with 1000 ticks, puts it in front of the overdue one, because the
  negative time left is compared as an unsigned number, and waits for 1000 ticks without calling the overdue timer.
\<close>

theorem timer_overdue_starved:
  fixes s :: tsys
  defines "s \<equiv> \<lparr>kern = boot_state\<lparr>g_tick_count := 11\<rparr>,
     timers = (\<lambda>_. no_timer)(1 := a_timer 10 0, 2 := (a_timer 0 0)\<lparr>to_head := False, timer_state := TIMER_DEACTIVE\<rparr>),
     g_timer_head = [1], g_timer_count = 7, cb_msg = set_cb_num TIMER_CMD_START (set_timer 2 (replicate 24 0)), tpc = AtDelay, cb_calls = []\<rparr>"
  shows "\<exists>s'. timer_task no_cb 4 RHINO_SUCCESS s = Some (s', 1000) \<and> cb_calls s' = [] \<and> g_timer_head s' = [2, 1]"
proof -
  have m: "timer_cmd_proc (set_cb_num 1 (set_timer 2 (replicate 24 0))) = cmd_start 2"
    by (simp add: fun_eq_iff timer_cmd_proc_def cmd_proc_def Let_def)
  let ?k = "fst (krhino_sys_tick_get (boot_state\<lparr>g_tick_count := 11\<rparr>))"
  have left: "\<not> (- 1 :: u64) \<le> 1000" "\<not> sint (1000 :: u64) \<le> 0" by code_simp+
  define s1 where "s1 = timer_got_delay RHINO_SUCCESS s"
  have h: "g_timer_head s1 = [2, 1]" "match (timers s1 2) = 1011" "g_timer_count s1 = 11" "cb_calls s1 = []" "kern s1 = ?k" "tpc s1 = AtDelay"
    using left
    by (simp_all add: s1_def timer_got_delay_def s_def split_beta Let_def m cmd_start_def a_timer_def timer_list_insert_def timer_left_def not_le)
  have p: "timer_cb_proc no_cb s1 = s1" using h left by (simp add: timer_cb_proc_def)
  have "tpc s = AtDelay" by (simp add: s_def)
  then have "timer_task no_cb 4 RHINO_SUCCESS s = timer_loop no_cb 4 s1" by (simp add: timer_task_def s1_def [symmetric] p)
  then show ?thesis
    using h left by (simp add: eval_nat_numeral split_beta Let_def not_le)
qed

text \<open>
  A period of more than \<open>MAX_TIMER_TICKS\<close> stops the timer task: the creation functions refuse it, but \<open>krhino_timer_change\<close> sends
  it, and once such a timer has expired the inner loop of the task never reaches a receive again, for any number of rounds.
\<close>

theorem timer_change_spins:
  assumes "timer_inv s" "quiet_cb env" "g_timer_head s = [t]" and r: "MAX_TIMER_TICKS < round" "round < - 1"
    and "round_ticks (timers s t) = round" "sint (match (timers s t) - g_tick_count (kern s)) \<le> 0"
  shows "timer_loop env n s = None
    \<and> snd (krhino_timer_create junk (Some t) (Some nm) (Some c) 1 round arg auto_run s') = RHINO_INV_PARAM
    \<and> krhino_timer_change junk (Some t) 1 round k = timer_send (set_cb_num TIMER_CMD_CHG (set_round round (set_first 1 (set_timer t junk)))) k"
proof -
  have neg: "sint round \<le> 0" "0 < round" using far_due [OF r(1)] r(1) word_gt_0 by (blast, force)
  have "timer_loop env n s = None"
    using assms(1,3,6,7)
  proof (induction n arbitrary: s)
    case (Suc n)
    define s0 where "s0 = s\<lparr>kern := fst (krhino_sys_tick_get (kern s)), g_timer_count := g_tick_count (kern s)\<rparr>"
    have f0: "timer_inv s0" "g_timer_head s0 = [t]" "timers s0 = timers s" "g_timer_count s0 = g_tick_count (kern s)" "g_tick_count (kern s0) = g_tick_count (kern s)"
      using Suc.prems(1,2) by (simp_all add: s0_def timer_inv_def)
    obtain s1 nx where fi: "timer_fire env t s0 = (s1, nx)" by (cases "timer_fire env t s0")
    define c1 where "c1 = timer_call env t s0"
    note c = timer_inv_call(1,2) [OF f0(1) quiet_tidy [OF assms(2)], where t = t, folded c1_def] quiet_call [OF assms(2), where t = t and s = s0, folded c1_def]
      timer_inv_call(3) [OF f0(1) quiet_tidy [OF assms(2)], where t = t, folded c1_def]
    have th: "to_head (timers s0 t)" using timer_invD(3) [OF f0(1)] f0(2) by simp
    have s1: "g_timer_head s1 = [t]" "nx = None" "round_ticks (timers s1 t) = round" "match (timers s1 t) = g_tick_count (kern s) + round"
      "g_tick_count (kern s1) = g_tick_count (kern s)"
      using fi c f0 th neg Suc.prems(3) by (auto simp: timer_fire_def c1_def [symmetric] Let_def timer_list_insert_def)
    have i1: "timer_inv s1" using timer_fire_inv(1) [OF f0(1) quiet_tidy [OF assms(2)] _ fi] f0(2) by simp
    have p: "timer_cb_proc env s0 = s1" using f0 Suc.prems(4) fi s1(2) by (simp add: timer_cb_proc_def eval_nat_numeral)
    have "timer_loop env (Suc n) s = timer_loop env n (timer_cb_proc env s0)"
      using Suc.prems(2,4) by (simp add: split_beta Let_def s0_def)
    also have "\<dots> = None" unfolding p using Suc.IH [OF i1 s1(1,3)] s1(4,5) neg by simp
    finally show ?case .
  qed simp
  moreover have "\<not> - 1 \<le> round" "MAX_TIMER_TICKS \<le> round" "\<not> (- 1 :: u64) \<le> 1"
    using r by (simp_all only: not_le less_imp_le) code_simp
  ultimately show ?thesis
    by (simp add: krhino_timer_create_def timer_create_def krhino_timer_change_def)
qed

theorem timer_change_spins_witness:
  "timer_loop no_cb 1000 \<lparr>kern = boot_state, timers = (\<lambda>_. no_timer)(1 := a_timer 0 (2 ^ 63)), g_timer_head = [1], g_timer_count = 0,
     cb_msg = [], tpc = AtDelay, cb_calls = []\<rparr> = None" (is "timer_loop no_cb 1000 ?s = None")
proof -
  have i: "timer_inv ?s" by (auto simp: timer_inv_def a_timer_def no_timer_def)
  have h: "g_timer_head ?s = [1]" "round_ticks (timers ?s 1) = 2 ^ 63" "sint (match (timers ?s 1) - g_tick_count (kern ?s)) \<le> 0"
    by (simp_all add: a_timer_def)
  have b: "MAX_TIMER_TICKS < (2 ^ 63 :: u64)" "(2 ^ 63 :: u64) < - 1" unfolding max_ticks by code_simp+
  show ?thesis using timer_change_spins [OF i quiet_no_cb h(1) b h(2,3), of 1000] by (rule conjunct1)
qed

end
