(* ===== verification/Mblk.thy ===== *)
theory Mblk
  imports Kernel_Types
begin

text \<open>
  Pools of memory blocks of one size (\<^verbatim>\<open>core/k_mm_blk.c\<close>). The free blocks of a pool are chained through their own
  first four bytes: \<open>mb_mem\<close> is the memory, byte by byte, and a link is read and written as a 32-bit word with the least
  significant byte first, so that a write to a block changes whatever other link it overlaps. The functions run inside a
  critical section, or before anybody else knows the pool; the state here is the pools and the memory. The pool is the parameter
  of the functions of the CSI adapter (theory \<open>Csi\<close>).
\<close>

section \<open>Words in memory\<close>

definition load32 :: "(u32 \<Rightarrow> u8) \<Rightarrow> u32 \<Rightarrow> u32" where
  "load32 mem a = or (ucast (mem a)) (or (push_bit 8 (ucast (mem (a + 1))))
     (or (push_bit 16 (ucast (mem (a + 2)))) (push_bit 24 (ucast (mem (a + 3))))))"

definition store32 :: "u32 \<Rightarrow> u32 \<Rightarrow> (u32 \<Rightarrow> u8) \<Rightarrow> u32 \<Rightarrow> u8" where
  "store32 a v mem = mem(a := ucast v, a + 1 := ucast (drop_bit 8 v), a + 2 := ucast (drop_bit 16 v), a + 3 := ucast (drop_bit 24 v))"

lemma word_of_bytes:
  "or (ucast (ucast v :: u8)) (or (push_bit 8 (ucast (ucast (drop_bit 8 v) :: u8)))
     (or (push_bit 16 (ucast (ucast (drop_bit 16 v) :: u8))) (push_bit 24 (ucast (ucast (drop_bit 24 v) :: u8))))) = (v :: u32)"
proof (rule bit_word_eqI)
  fix n assume n: "n < LENGTH(32)"
  consider "n < 8" | "8 \<le> n" "n < 16" | "16 \<le> n" "n < 24" | "24 \<le> n" by linarith
  then show "bit (or (ucast (ucast v :: u8)) (or (push_bit 8 (ucast (ucast (drop_bit 8 v) :: u8)))
     (or (push_bit 16 (ucast (ucast (drop_bit 16 v) :: u8))) (push_bit 24 (ucast (ucast (drop_bit 24 v) :: u8))))) :: u32) n = bit v n"
    using n by cases (simp_all add: bit_simps less_diff_conv2)
qed

text \<open>Two words do not overlap, and neither runs over the end of the memory.\<close>

definition no_overlap :: "u32 \<Rightarrow> u32 \<Rightarrow> bool" where
  "no_overlap a b \<longleftrightarrow> unat a + 4 \<le> unat b \<and> unat b + 4 \<le> 2 ^ 32 \<or> unat b + 4 \<le> unat a \<and> unat a + 4 \<le> 2 ^ 32"

lemma no_overlap_sym: "no_overlap a b \<Longrightarrow> no_overlap b a"
  by (auto simp: no_overlap_def)

lemma load_store_same [simp]: "load32 (store32 a v mem) a = v"
  by (simp add: load32_def store32_def word_of_bytes)

lemma load_store_apart:
  assumes "no_overlap a b"
  shows "load32 (store32 a v mem) b = load32 mem b"
proof -
  have f: "unat a + 4 \<le> 2 ^ 32" "unat b + 4 \<le> 2 ^ 32" using assms by (auto simp: no_overlap_def)
  have i: "unat (x + 1) = unat x + 1" "unat (x + 2) = unat x + 2" "unat (x + 3) = unat x + 3" if "unat x + 4 \<le> 2 ^ 32" for x :: u32
    using that by (simp_all add: unat_word_ariths)
  have "store32 a v mem c = mem c" if "\<forall>i<4. unat c \<noteq> unat a + i" for c
  proof -
    have "unat c \<noteq> unat a" "unat c \<noteq> unat a + 1" "unat c \<noteq> unat a + 2" "unat c \<noteq> unat a + 3"
      using that [rule_format, of 0] that [rule_format, of 1] that [rule_format, of 2] that [rule_format, of 3] by simp_all
    then show ?thesis using i [OF f(1)] by (auto simp: store32_def)
  qed
  moreover have "\<forall>i<4. unat b + j \<noteq> unat a + i" if "j < 4" for j using assms that by (auto simp: no_overlap_def)
  ultimately have "store32 a v mem c = mem c" if "unat c = unat b + j" "j < 4" for c j using that by simp
  from this [of b 0] this [of "b + 1" 1] this [of "b + 2" 2] this [of "b + 3" 3] show ?thesis
    using i [OF f(2)] by (simp add: load32_def)
qed

section \<open>The code\<close>

record mblk_pool_t =
  mb_obj_type :: kobj_type_t
  blk_size :: u32
  blk_avail :: u32
  blk_whole :: u32
  avail_list :: u32

record mbsys =
  mb_pools :: "u32 \<Rightarrow> mblk_pool_t"
  mb_mem :: "u32 \<Rightarrow> u8"
  mblkpool_head :: "u32 list"

text \<open>The loop that chains the blocks: the memory, the number of blocks and the last two pointers. \<open>None\<close>: the fuel is used up.\<close>

fun mblk_chain :: "nat \<Rightarrow> u32 \<Rightarrow> u32 \<Rightarrow> u32 \<Rightarrow> u32 \<Rightarrow> u32 \<Rightarrow> (u32 \<Rightarrow> u8) \<Rightarrow> ((u32 \<Rightarrow> u8) \<times> u32 \<times> u32 \<times> u32) option" where
  "mblk_chain n sz pool_end blks blk_cur blk_next mem =
     (if blk_next < pool_end
      then (case n of 0 \<Rightarrow> None
            | Suc m \<Rightarrow> mblk_chain m sz pool_end (blks + 1) blk_next (blk_next + sz) (store32 blk_cur blk_next mem))
      else Some (mem, blks, blk_cur, blk_next))"

text \<open>A null pool, name or start address is refused by the parameter checks; \<open>None\<close> is a call that has not returned within the fuel.\<close>

definition krhino_mblk_pool_init :: "nat \<Rightarrow> u32 option \<Rightarrow> string option \<Rightarrow> u32 \<Rightarrow> u32 \<Rightarrow> u32 \<Rightarrow> mbsys \<Rightarrow> (mbsys \<times> kstat) option" where
  "krhino_mblk_pool_init n pool name pool_start sz pool_size s = (case (pool, name) of
     (Some p, Some nm) \<Rightarrow>
       if pool_start = 0 then Some (s, RHINO_NULL_PTR)
       else if pool_size < push_bit 1 sz then Some (s, RHINO_BLK_POOL_SIZE_ERR)
       else if and pool_start 3 > 0 then Some (s, RHINO_INV_ALIGN)
       else if and sz 3 > 0 then Some (s, RHINO_INV_ALIGN)
       else if and pool_size 3 > 0 then Some (s, RHINO_INV_ALIGN)
       else (case mblk_chain n sz (pool_start + pool_size) 0 pool_start (pool_start + sz) (mb_mem s) of
           None \<Rightarrow> None
         | Some (mem, blks, blk_cur, blk_next) \<Rightarrow>
             (let blks = (if blk_next = pool_start + pool_size then blks + 1 else blks);
                  x = \<lparr>mb_obj_type = RHINO_MM_BLK_OBJ_TYPE, blk_size = sz, blk_avail = blks, blk_whole = blks,
                       avail_list = pool_start\<rparr>
              in Some (s\<lparr>mb_mem := store32 blk_cur 0 mem, mb_pools := (mb_pools s)(p := x),
                         mblkpool_head := mblkpool_head s @ [p]\<rparr>, RHINO_SUCCESS)))
   | _ \<Rightarrow> Some (s, RHINO_NULL_PTR))"

text \<open>The last component is what the call writes to \<open>blk\<close>, 0 for a null pointer.\<close>

definition krhino_mblk_alloc :: "u32 option \<Rightarrow> bool \<Rightarrow> mbsys \<Rightarrow> mbsys \<times> kstat \<times> u32 option" where
  "krhino_mblk_alloc pool blk_out s = (case pool of None \<Rightarrow> (s, RHINO_NULL_PTR, None) | Some p \<Rightarrow>
     if \<not> blk_out then (s, RHINO_NULL_PTR, None)
     else if mb_obj_type (mb_pools s p) \<noteq> RHINO_MM_BLK_OBJ_TYPE then (s, RHINO_KOBJ_TYPE_ERR, None)
     else if blk_avail (mb_pools s p) > 0
     then (let avail_blk = avail_list (mb_pools s p);
               x = (mb_pools s p)\<lparr>avail_list := load32 (mb_mem s) avail_blk, blk_avail := blk_avail (mb_pools s p) - 1\<rparr>
           in (s\<lparr>mb_pools := (mb_pools s)(p := x)\<rparr>, RHINO_SUCCESS, Some avail_blk))
     else (s, RHINO_NO_MEM, Some 0))"

definition krhino_mblk_free :: "u32 option \<Rightarrow> u32 \<Rightarrow> mbsys \<Rightarrow> mbsys \<times> kstat" where
  "krhino_mblk_free pool blk s = (case pool of None \<Rightarrow> (s, RHINO_NULL_PTR) | Some p \<Rightarrow>
     if blk = 0 then (s, RHINO_NULL_PTR)
     else if mb_obj_type (mb_pools s p) \<noteq> RHINO_MM_BLK_OBJ_TYPE then (s, RHINO_KOBJ_TYPE_ERR)
     else (let x = (mb_pools s p)\<lparr>avail_list := blk, blk_avail := blk_avail (mb_pools s p) + 1\<rparr>
           in (s\<lparr>mb_mem := store32 blk (avail_list (mb_pools s p)) (mb_mem s), mb_pools := (mb_pools s)(p := x)\<rparr>, RHINO_SUCCESS)))"

declare mblk_chain.simps [simp del]

section \<open>The chain of free blocks\<close>

fun chained :: "(u32 \<Rightarrow> u8) \<Rightarrow> u32 \<Rightarrow> u32 list \<Rightarrow> bool" where
  "chained mem a [] \<longleftrightarrow> True"
| "chained mem a (b # bs) \<longleftrightarrow> a = b \<and> chained mem (load32 mem b) bs"

text \<open>
  \<open>pool_free s p bs\<close>: the blocks \<open>bs\<close>, whose links do not overlap, are the free blocks of the pool \<open>p\<close>, in the order in which they
  will be handed out.
\<close>

definition pool_free :: "mbsys \<Rightarrow> u32 \<Rightarrow> u32 list \<Rightarrow> bool" where
  "pool_free s p bs \<longleftrightarrow> mb_obj_type (mb_pools s p) = RHINO_MM_BLK_OBJ_TYPE \<and> chained (mb_mem s) (avail_list (mb_pools s p)) bs
     \<and> distinct bs \<and> (\<forall>x\<in>set bs. \<forall>y\<in>set bs. x \<noteq> y \<longrightarrow> no_overlap x y) \<and> 0 \<notin> set bs \<and> length bs < 2 ^ 32 \<and> blk_avail (mb_pools s p) = of_nat (length bs)"

lemma chained_upd: "\<forall>x\<in>set bs. no_overlap b x \<Longrightarrow> chained (store32 b v mem) a bs = chained mem a bs"
  by (induction bs arbitrary: a) (auto simp: load_store_apart)

lemma chained_upd_last: "\<forall>x\<in>set xs. no_overlap b x \<Longrightarrow> chained (store32 b v mem) a (xs @ [b]) = chained mem a (xs @ [b])"
  by (induction xs arbitrary: a) (auto simp: load_store_apart)

lemma chained_append: "chained mem a (xs @ [b]) \<longleftrightarrow> chained mem a xs \<and> b = (if xs = [] then a else load32 mem (last xs))"
  by (induction xs arbitrary: a) auto

lemma pool_avail_0: "pool_free s p bs \<Longrightarrow> blk_avail (mb_pools s p) > 0 \<longleftrightarrow> bs \<noteq> []"
  by (auto simp: pool_free_def word_less_nat_alt unat_of_nat take_bit_nat_eq_self)

lemma mblk_alloc_spec:
  assumes "pool_free s p bs"
  shows "case bs of
      [] \<Rightarrow> krhino_mblk_alloc (Some p) True s = (s, RHINO_NO_MEM, Some 0)
    | b # bs' \<Rightarrow> \<exists>s'. krhino_mblk_alloc (Some p) True s = (s', RHINO_SUCCESS, Some b) \<and> pool_free s' p bs' \<and> mb_mem s' = mb_mem s"
  using assms pool_avail_0 [OF assms] by (cases bs) (auto simp: krhino_mblk_alloc_def Let_def pool_free_def)

lemma mblk_free_spec:
  assumes "pool_free s p bs" "b \<noteq> 0" "\<forall>x\<in>set bs. no_overlap b x" "length bs < 2 ^ 32 - 1"
  shows "\<exists>s'. krhino_mblk_free (Some p) b s = (s', RHINO_SUCCESS) \<and> pool_free s' p (b # bs)"
proof -
  have "b \<notin> set bs" using assms(3) by (auto simp: no_overlap_def)
  then show ?thesis using assms no_overlap_sym [of b] by (auto simp: krhino_mblk_free_def Let_def pool_free_def chained_upd)
qed

section \<open>Initialisation\<close>

definition blk_addr :: "u32 \<Rightarrow> u32 \<Rightarrow> nat \<Rightarrow> u32" where
  "blk_addr start sz i = start + of_nat i * sz"

lemma unat_blk_addr: "unat start + i * unat sz < 2 ^ 32 \<Longrightarrow> unat (blk_addr start sz i) = unat start + i * unat sz"
  by (simp add: blk_addr_def unat_word_ariths unat_of_nat take_bit_nat_def mod_mult_left_eq mod_add_right_eq)

lemma blk_addr_Suc: "blk_addr start sz i + sz = blk_addr start sz (Suc i)"
  by (simp add: blk_addr_def algebra_simps)

lemma blk_addr_apart:
  assumes "4 \<le> unat sz" "i < j" "unat start + j * unat sz + unat sz \<le> 2 ^ 32"
  shows "no_overlap (blk_addr start sz i) (blk_addr start sz j)"
proof -
  have "Suc i * unat sz \<le> j * unat sz" using assms(2) by (intro mult_le_mono1) simp
  then show ?thesis using assms by (simp add: no_overlap_def unat_blk_addr)
qed

text \<open>From block \<open>i\<close> on, the loop links each block to the next one as long as that one starts inside the pool.\<close>

lemma mblk_chain_spec:
  assumes sz: "4 \<le> unat sz" and fit: "unat start + unat psize + unat sz < 2 ^ 32" and i: "i * unat sz < unat psize"
    and n: "unat psize - i * unat sz \<le> n" and c: "chained mem start (map (blk_addr start sz) [0..<Suc i])"
  shows "\<exists>mem' k. mblk_chain n sz (start + psize) (of_nat i) (blk_addr start sz i) (blk_addr start sz (Suc i)) mem
      = Some (mem', of_nat k, blk_addr start sz k, blk_addr start sz (Suc k))
    \<and> k * unat sz < unat psize \<and> unat psize \<le> Suc k * unat sz \<and> chained mem' start (map (blk_addr start sz) [0..<Suc k])"
  using i n c
proof (induction n arbitrary: i mem)
  case (Suc n)
  have ue: "unat (start + psize) = unat start + unat psize" using fit by (simp add: unat_word_ariths)
  have ua: "unat (blk_addr start sz (Suc i)) = unat start + Suc i * unat sz"
    using fit Suc.prems(1) by (intro unat_blk_addr) simp
  show ?case
  proof (cases "Suc i * unat sz < unat psize")
    case True
    have ni: "\<forall>x\<in>set (map (blk_addr start sz) [0..<i]). no_overlap (blk_addr start sz i) x"
    proof
      fix x assume "x \<in> set (map (blk_addr start sz) [0..<i])"
      then obtain j where j: "j < i" "x = blk_addr start sz j" by auto
      have "unat start + i * unat sz + unat sz \<le> 2 ^ 32" using fit Suc.prems(1) by linarith
      then show "no_overlap (blk_addr start sz i) x" unfolding j(2) using blk_addr_apart [OF sz j(1)] no_overlap_sym by blast
    qed
    let ?mem = "store32 (blk_addr start sz i) (blk_addr start sz (Suc i)) mem"
    have "chained mem start (map (blk_addr start sz) [0..<i] @ [blk_addr start sz i])" using Suc.prems(3) by simp
    then have "chained ?mem start (map (blk_addr start sz) [0..<i] @ [blk_addr start sz i])"
      by (simp only: chained_upd_last [OF ni])
    then have c': "chained ?mem start (map (blk_addr start sz) [0..<Suc (Suc i)])"
      using chained_append [of ?mem start "map (blk_addr start sz) [0..<Suc i]" "blk_addr start sz (Suc i)"] by simp
    have "unat psize - Suc i * unat sz \<le> n" using Suc.prems(2) sz True by simp
    note ih = Suc.IH [OF True this c']
    have "blk_addr start sz (Suc i) < start + psize" using True ua ue by (simp add: word_less_nat_alt)
    then have "mblk_chain (Suc n) sz (start + psize) (of_nat i) (blk_addr start sz i) (blk_addr start sz (Suc i)) mem
        = mblk_chain n sz (start + psize) (of_nat (Suc i)) (blk_addr start sz (Suc i)) (blk_addr start sz (Suc (Suc i))) ?mem"
      by (subst mblk_chain.simps) (simp add: blk_addr_Suc add.commute [of 1])
    then show ?thesis using ih by (simp only:)
  next
    case False
    then have "\<not> blk_addr start sz (Suc i) < start + psize" using ua ue by (simp add: word_less_nat_alt)
    then have "mblk_chain (Suc n) sz (start + psize) (of_nat i) (blk_addr start sz i) (blk_addr start sz (Suc i)) mem
        = Some (mem, of_nat i, blk_addr start sz i, blk_addr start sz (Suc i))" by (subst mblk_chain.simps) simp
    then show ?thesis using Suc.prems(1,3) False by (intro exI [of _ mem] exI [of _ i] conjI) simp_all
  qed
qed simp

text \<open>The last word written by \<open>krhino_mblk_pool_init\<close> ends the chain behind its last block.\<close>

lemma aligned_ge_4: "and sz 3 = 0 \<Longrightarrow> sz \<noteq> 0 \<Longrightarrow> 4 \<le> unat (sz :: u32)"
proof (rule ccontr)
  assume a: "and sz 3 = 0" "sz \<noteq> 0" "\<not> 4 \<le> unat sz"
  then have "unat sz = 1 \<or> unat sz = 2 \<or> unat sz = 3" using unat_gt_0 [of sz] by linarith
  then have "sz = 1 \<or> sz = 2 \<or> sz = 3" by (simp add: word_unat_eq_iff)
  then show False using a(1) by auto
qed

lemma blk_addr_distinct:
  assumes "0 < unat sz" "unat start + k * unat sz < 2 ^ 32"
  shows "distinct (map (blk_addr start sz) [0..<Suc k])"
proof -
  have "unat (blk_addr start sz j) = unat start + j * unat sz" if "j \<le> k" for j
    using mult_le_mono1 [OF that, of "unat sz"] assms(2) by (intro unat_blk_addr) linarith
  then have "inj_on (blk_addr start sz) (set [0..<Suc k])" using assms(1)
    by (intro inj_onI) (metis add_left_cancel atLeastLessThan_iff less_Suc_eq_le mult_cancel2 not_less_zero set_upt)
  then show ?thesis by (simp add: distinct_map)
qed

lemma mblk_pool_init_spec:
  assumes a: "start \<noteq> 0" "and start 3 = 0" "and sz 3 = 0" "and psize 3 = 0" "sz \<noteq> 0" "2 * unat sz \<le> unat psize"
    and fit: "unat start + unat psize + unat sz < 2 ^ 32" and n: "unat psize \<le> n"
  shows "\<exists>s'. krhino_mblk_pool_init n (Some p) (Some nm) start sz psize s = Some (s', RHINO_SUCCESS)
    \<and> pool_free s' p (map (blk_addr start sz) [0..<unat psize div unat sz])"
proof -
  have sz: "4 \<le> unat sz" using a(3,5) by (rule aligned_ge_4)
  have i: "0 * unat sz < unat psize" "unat psize - 0 * unat sz \<le> n" "chained (mb_mem s) start (map (blk_addr start sz) [0..<Suc 0])"
    using a(6) sz n by (simp_all add: blk_addr_def)
  obtain mem k where c: "mblk_chain n sz (start + psize) 0 start (start + sz) (mb_mem s)
        = Some (mem, of_nat k, blk_addr start sz k, blk_addr start sz (Suc k))"
    and k: "k * unat sz < unat psize" "unat psize \<le> Suc k * unat sz" and ch: "chained mem start (map (blk_addr start sz) [0..<Suc k])"
    using mblk_chain_spec [OF sz fit i] by (auto simp: blk_addr_def)
  have ue: "unat (start + psize) = unat start + unat psize" using fit by (simp add: unat_word_ariths)
  have ua: "unat (blk_addr start sz (Suc k)) = unat start + Suc k * unat sz" using fit k(1) by (intro unat_blk_addr) simp
  have e: "blk_addr start sz (Suc k) = start + psize \<longleftrightarrow> Suc k * unat sz = unat psize" using ue ua by (simp add: word_unat_eq_iff)
  define m where "m = unat psize div unat sz"
  have m: "m = (if Suc k * unat sz = unat psize then Suc k else k)"
  proof (cases "Suc k * unat sz = unat psize")
    case True
    then show ?thesis unfolding m_def True [symmetric] using sz by simp
  next
    case False
    then have "unat psize < Suc k * unat sz" using k(2) by simp
    then have "m = k" unfolding m_def using k(1) by (intro div_nat_eqI) (simp_all add: mult.commute)
    then show ?thesis using False by simp
  qed
  have ap: "no_overlap (blk_addr start sz i) (blk_addr start sz j)" if "i < j" "j \<le> k" for i j
  proof (rule blk_addr_apart [OF sz that(1)])
    have "j * unat sz \<le> k * unat sz" using that(2) by (rule mult_le_mono1)
    then show "unat start + j * unat sz + unat sz \<le> 2 ^ 32" using k(1) fit by linarith
  qed
  have d: "distinct (map (blk_addr start sz) [0..<Suc k])" using k(1) fit sz by (intro blk_addr_distinct) linarith+
  have up: "chained (store32 (blk_addr start sz k) 0 mem) start (map (blk_addr start sz) [0..<Suc k])"
    using ch ap no_overlap_sym chained_upd_last [of "map (blk_addr start sz) [0..<k]" "blk_addr start sz k"] by simp
  have chm: "chained (store32 (blk_addr start sz k) 0 mem) start (map (blk_addr start sz) [0..<m])"
    using up by (auto simp: m chained_append)
  have dm: "distinct (map (blk_addr start sz) [0..<m])" using d by (auto simp: m)
  have am: "\<forall>x\<in>set (map (blk_addr start sz) [0..<m]). \<forall>y\<in>set (map (blk_addr start sz) [0..<m]). x \<noteq> y \<longrightarrow> no_overlap x y"
  proof -
    have "no_overlap (blk_addr start sz i) (blk_addr start sz j)" if "i < m" "j < m" "i \<noteq> j" for i j
      using ap [of i j] no_overlap_sym [OF ap [of j i]] that by (cases "i < j") (auto simp: m split: if_splits)
    then show ?thesis by (force simp: set_upt)
  qed
  have nz: "0 \<notin> set (map (blk_addr start sz) [0..<m])"
  proof
    assume "0 \<in> set (map (blk_addr start sz) [0..<m])"
    then obtain j where "j < m" "blk_addr start sz j = 0" by auto
    moreover have "m \<le> Suc k" using m by simp
    ultimately have j: "j \<le> k" "blk_addr start sz j = 0" by simp_all
    have "unat (blk_addr start sz j) = unat start + j * unat sz"
      using mult_le_mono1 [OF j(1), of "unat sz"] k(1) fit by (intro unat_blk_addr) linarith
    then show False using j(2) a(1) by (simp add: unat_eq_0)
  qed
  have "m \<le> unat psize" by (simp add: m_def)
  then have lm: "m < 2 ^ 32" using fit by linarith
  have "\<not> psize < push_bit 1 sz"
  proof -
    have "unat (push_bit 1 sz) = 2 * unat sz" using a(6) fit by (simp add: push_bit_eq_mult unat_word_ariths)
    then show ?thesis using a(6) by (simp add: word_less_nat_alt)
  qed
  then show ?thesis
    using a c e chm dm am nz lm by (simp add: krhino_mblk_pool_init_def Let_def pool_free_def m_def [symmetric]) (simp add: m)
qed

section \<open>Properties\<close>

text \<open>
  C35: Initialising a pool returns, and the pool then offers the \<open>pool_size / blk_size\<close> blocks that fit, in ascending order; each block
  lies inside the memory of the pool and no two blocks overlap.
\<close>

theorem mblk_pool_init_blocks:
  assumes "start \<noteq> 0" "and start 3 = 0" "and sz 3 = 0" "and psize 3 = 0" "sz \<noteq> 0" "2 * unat sz \<le> unat psize"
    and "unat start + unat psize + unat sz < 2 ^ 32" and "unat psize \<le> n"
  shows "\<exists>s' bs. krhino_mblk_pool_init n (Some p) (Some nm) start sz psize s = Some (s', RHINO_SUCCESS)
    \<and> pool_free s' p bs \<and> length bs = unat psize div unat sz
    \<and> (\<forall>i < length bs. unat (bs ! i) = unat start + i * unat sz \<and> unat (bs ! i) + unat sz \<le> unat start + unat psize)"
proof -
  let ?m = "unat psize div unat sz"
  have b: "unat (blk_addr start sz i) = unat start + i * unat sz \<and> unat (blk_addr start sz i) + unat sz \<le> unat start + unat psize"
    if "i < ?m" for i
  proof -
    have "Suc i * unat sz \<le> ?m * unat sz" using that by (intro mult_le_mono1) simp
    also have "\<dots> \<le> unat psize" by (simp add: div_times_less_eq_dividend)
    finally have i: "Suc i * unat sz \<le> unat psize" .
    then have "unat (blk_addr start sz i) = unat start + i * unat sz" using assms(7) by (intro unat_blk_addr) simp
    then show ?thesis using i by simp
  qed
  obtain s' where s': "krhino_mblk_pool_init n (Some p) (Some nm) start sz psize s = Some (s', RHINO_SUCCESS)"
    "pool_free s' p (map (blk_addr start sz) [0..<?m])" using mblk_pool_init_spec [OF assms, of p nm s] by blast
  show ?thesis by (rule exI [of _ s'], rule exI [of _ "map (blk_addr start sz) [0..<?m]"]) (use s' b in \<open>intro conjI allI impI; simp\<close>)
qed

definition no_pools :: mbsys where
  "no_pools = \<lparr>mb_pools = (\<lambda>p. \<lparr>mb_obj_type = RHINO_OBJ_TYPE_NONE, blk_size = 0, blk_avail = 0, blk_whole = 0, avail_list = 0\<rparr>),
     mb_mem = (\<lambda>a. 0), mblkpool_head = []\<rparr>"

theorem mblk_pool_init_blocks_witness:
  "\<exists>s' bs. krhino_mblk_pool_init 100 (Some 8) (Some ''mp'') 0x1000 16 100 no_pools = Some (s', RHINO_SUCCESS)
    \<and> pool_free s' 8 bs \<and> length bs = 6"
  using mblk_pool_init_blocks [where start = "0x1000" and sz = 16 and psize = 100 and n = 100 and p = 8 and nm = "''mp''" and s = no_pools]
  by auto

text \<open>
  C34: The pool hands out free blocks in the order of its chain and takes returned blocks back at the front: an allocation returns the
  first free block, or \<open>RHINO_NO_MEM\<close> when there is none, and freeing a block whose first word overlaps the link of no free block
  makes it the next one to be handed out and keeps all links, so that a block in use is never handed out again.
\<close>

theorem mblk_refines_free_list:
  assumes "pool_free s p bs"
  shows "(case krhino_mblk_alloc (Some p) True s of (s', st, b) \<Rightarrow>
      (case bs of [] \<Rightarrow> s' = s \<and> st = RHINO_NO_MEM \<and> b = Some 0
       | x # xs \<Rightarrow> st = RHINO_SUCCESS \<and> b = Some x \<and> x \<notin> set xs \<and> pool_free s' p xs))
    \<and> (b \<noteq> 0 \<and> (\<forall>x\<in>set bs. no_overlap b x) \<and> length bs < 2 ^ 32 - 1 \<longrightarrow>
        (case krhino_mblk_free (Some p) b s of (s', st) \<Rightarrow> st = RHINO_SUCCESS \<and> pool_free s' p (b # bs)))"
proof -
  have "distinct bs" using assms by (simp add: pool_free_def)
  then show ?thesis using mblk_alloc_spec [OF assms] mblk_free_spec [OF assms, of b] by (cases bs) auto
qed

definition one_pool :: mbsys where
  "one_pool = no_pools\<lparr>mb_pools := (\<lambda>p. \<lparr>mb_obj_type = RHINO_MM_BLK_OBJ_TYPE, blk_size = 16, blk_avail = 2, blk_whole = 2, avail_list = 64\<rparr>),
     mb_mem := store32 64 80 (\<lambda>a. 0)\<rparr>"

theorem mblk_refines_free_list_witness:
  "pool_free (fst (krhino_mblk_free (Some 8) 96 one_pool)) 8 [96, 64, 80]"
proof -
  have "pool_free one_pool 8 [64, 80]" by (simp add: pool_free_def one_pool_def no_overlap_def)
  from mblk_refines_free_list [OF this, of 96] show ?thesis by (simp add: split_beta no_overlap_def)
qed

text \<open>
  The premise on overlapping is needed: \<open>krhino_mblk_free\<close> does not check the address. With the free blocks 64 and 80, freeing
  the address 66 overwrites half of the link of block 64, which then leads to the address \<open>0x400050\<close> instead of 80.
\<close>

theorem mblk_free_overlap:
  "pool_free one_pool 8 [64, 80] \<and> load32 (mb_mem (fst (krhino_mblk_free (Some 8) 66 one_pool))) 64 = 0x400050"
  by (simp add: pool_free_def one_pool_def no_pools_def no_overlap_def krhino_mblk_free_def load32_def store32_def)

text \<open>With a block size of zero the loop of \<open>krhino_mblk_pool_init\<close> never ends: its pointer does not move.\<close>

theorem mblk_zero_size_hangs:
  assumes "start \<noteq> 0" "and start 3 = 0" "and psize 3 = 0" "start < start + psize"
  shows "krhino_mblk_pool_init n (Some p) (Some nm) start 0 psize s = None"
proof -
  have "mblk_chain n 0 (start + psize) i start start mem = None" for i mem
    using assms(4) by (induction n arbitrary: i mem) (simp_all add: mblk_chain.simps)
  then show ?thesis using assms by (simp add: krhino_mblk_pool_init_def)
qed

end
