(* ===== verification/Csi.thy ===== *)
theory Csi
  imports Timer_Expiry Mblk
begin

text \<open>
  The CSI kernel interface (\<^verbatim>\<open>adapter/csi_rhino.c\<close>): the functions the SDK calls, each of them a check of its parameters, one
  or two calls of the kernel, and a translation of the status into an error number. A handle that may be null is an option; the results
  of \<open>krhino_mm_alloc\<close> are the arguments named \<open>alloc\<close>. A call that blocks returns later: \<open>CBlocks\<close>, and \<open>csi_wait_status\<close> is the
  translation that is applied to the status when it does.
\<close>

section \<open>Status codes\<close>

definition EPERM :: int where "EPERM = 1"
definition EINVAL :: int where "EINVAL = 22"
definition EOPNOTSUPP :: int where "EOPNOTSUPP = 95"
definition ETIMEDOUT :: int where "ETIMEDOUT = 110"

lemmas errnos = EPERM_def EINVAL_def EOPNOTSUPP_def ETIMEDOUT_def

datatype csi_ret = CRet int | CBlocks

text \<open>The translation at the end of most functions, and that of the functions which wait.\<close>

definition csi_status :: "kstat \<Rightarrow> int" where
  "csi_status ret = (if ret = RHINO_SUCCESS then 0 else - EPERM)"

definition csi_wait_status :: "kstat \<Rightarrow> int" where
  "csi_wait_status ret = (if ret = RHINO_SUCCESS then 0 else if ret = RHINO_BLK_TIMEOUT then - ETIMEDOUT else - EPERM)"

definition csi_mutex_status :: "kstat \<Rightarrow> int" where
  "csi_mutex_status ret = (if ret = RHINO_SUCCESS \<or> ret = RHINO_MUTEX_OWNER_NESTED then 0
     else if ret = RHINO_BLK_TIMEOUT then - ETIMEDOUT else - EPERM)"

definition csi_ret_of :: "(kstat \<Rightarrow> int) \<Rightarrow> kret \<Rightarrow> csi_ret" where
  "csi_ret_of f r = (case r of Ret st \<Rightarrow> CRet (f st) | Blocks \<Rightarrow> CBlocks)"

definition csi_timeout :: "int \<Rightarrow> u64" where
  "csi_timeout timeout = (if timeout < 0 then RHINO_WAIT_FOREVER else of_int timeout)"

section \<open>Kernel\<close>

datatype k_sched_stat_t = KSCHED_ST_INACTIVE | KSCHED_ST_READY | KSCHED_ST_RUNNING | KSCHED_ST_LOCKED | KSCHED_ST_SUSPEND | KSCHED_ST_ERROR

definition csi_kernel_init :: "kstate \<Rightarrow> kstate \<times> int" where
  "csi_kernel_init s = (case krhino_init s of (s1, ret) \<Rightarrow> (s1, csi_status ret))"

definition csi_kernel_start :: "kstate \<Rightarrow> kstate \<times> int" where
  "csi_kernel_start s = (case krhino_start s of (s1, ret) \<Rightarrow> (s1, csi_status ret))"

definition csi_kernel_get_stat :: "kstate \<Rightarrow> k_sched_stat_t" where
  "csi_kernel_get_stat s = (if g_sys_stat s = RHINO_STOPPED then KSCHED_ST_INACTIVE
     else if g_sys_stat s = RHINO_RUNNING then KSCHED_ST_RUNNING else KSCHED_ST_ERROR)"

definition csi_kernel_sched_lock :: int where "csi_kernel_sched_lock = - EOPNOTSUPP"
definition csi_kernel_sched_unlock :: int where "csi_kernel_sched_unlock = - EOPNOTSUPP"
definition csi_kernel_sched_restore_lock :: int where "csi_kernel_sched_restore_lock = - EOPNOTSUPP"

definition csi_kernel_sched_suspend :: "kstate \<Rightarrow> kstate" where
  "csi_kernel_sched_suspend s = (if g_sys_stat s \<noteq> RHINO_RUNNING then s else fst (krhino_sched_disable s))"

definition csi_kernel_sched_resume :: "kstate \<Rightarrow> kstate" where
  "csi_kernel_sched_resume s = (if g_sys_stat s \<noteq> RHINO_RUNNING then s else fst (krhino_sched_enable s))"

section \<open>Tasks\<close>

definition KPRIO_IDLE :: int where "KPRIO_IDLE = 0"
definition KPRIO_REALTIME7 :: int where "KPRIO_REALTIME7 = 48"
definition KPRIO_ERROR :: int where "KPRIO_ERROR = 50"

datatype k_task_stat_t = KTASK_ST_INACTIVE | KTASK_ST_READY | KTASK_ST_RUNNING | KTASK_ST_BLOCKED | KTASK_ST_TERMINATED | KTASK_ST_ERROR

text \<open>\<open>prio_trans\<close> is an 8-bit variable; the guard has already limited \<open>prio\<close> to 1 \<open>\<dots>\<close> 48.\<close>

definition csi_kernel_task_new :: "bool \<Rightarrow> string option \<Rightarrow> int \<Rightarrow> u32 \<Rightarrow> nat option \<Rightarrow> nat \<Rightarrow> bool \<Rightarrow> (nat \<times> tid) option
    \<Rightarrow> kstate \<Rightarrow> kstate \<times> int \<times> tid option" where
  "csi_kernel_task_new task name pri time_quanta stack stack_sz task_handle alloc s =
     (if \<not> task_handle \<or> stack_sz mod 4 \<noteq> 0 \<or> (stack_sz = 0 \<and> stack = None) \<or> pri \<le> KPRIO_IDLE \<or> pri > KPRIO_REALTIME7
      then (s, - EINVAL, None)
      else (let prio_trans = nat (int RHINO_CONFIG_USER_PRI_MAX - pri); s1 = csi_kernel_sched_suspend s in
        case krhino_task_dyn_create task_handle alloc (case name of Some n \<Rightarrow> Some n | None \<Rightarrow> Some ''user_task'')
               prio_trans (ucast time_quanta) (stack_sz div 4) task True s1 of
          (s2, ret, out) \<Rightarrow> (csi_kernel_sched_resume s2, csi_status ret, out)))"

definition csi_kernel_task_del :: "tid option \<Rightarrow> kstate \<Rightarrow> kstate \<times> int" where
  "csi_kernel_task_del task_handle s = (case task_handle of None \<Rightarrow> (s, - EINVAL)
     | Some t \<Rightarrow> (case krhino_task_dyn_del (Some t) s of (s1, ret) \<Rightarrow> (s1, csi_status ret)))"

definition csi_kernel_task_get_cur :: "kstate \<Rightarrow> tid" where
  "csi_kernel_task_get_cur s = g_active_task s"

definition csi_kernel_task_get_stat :: "tid option \<Rightarrow> kstate \<Rightarrow> k_task_stat_t" where
  "csi_kernel_task_get_stat task_handle s = (case task_handle of None \<Rightarrow> KTASK_ST_ERROR | Some t \<Rightarrow>
     if csi_kernel_task_get_cur s = t then KTASK_ST_RUNNING
     else (case task_state (tasks s t) of
         K_PEND \<Rightarrow> KTASK_ST_BLOCKED | K_SUSPENDED \<Rightarrow> KTASK_ST_BLOCKED | K_PEND_SUSPENDED \<Rightarrow> KTASK_ST_BLOCKED
       | K_SLEEP \<Rightarrow> KTASK_ST_BLOCKED | K_SLEEP_SUSPENDED \<Rightarrow> KTASK_ST_BLOCKED
       | K_DELETED \<Rightarrow> KTASK_ST_TERMINATED | K_RDY \<Rightarrow> KTASK_ST_READY | _ \<Rightarrow> KTASK_ST_ERROR))"

definition csi_kernel_task_set_prio :: "tid option \<Rightarrow> int \<Rightarrow> kstate \<Rightarrow> kstate \<times> int" where
  "csi_kernel_task_set_prio task_handle priority s =
     (if task_handle = None \<or> priority \<le> KPRIO_IDLE \<or> priority > KPRIO_REALTIME7 then (s, - EINVAL)
      else (case krhino_task_pri_change task_handle (nat (int RHINO_CONFIG_USER_PRI_MAX - priority)) True s of
          (s1, ret, old) \<Rightarrow> (s1, csi_status ret)))"

definition csi_kernel_task_get_prio :: "tid option \<Rightarrow> kstate \<Rightarrow> int" where
  "csi_kernel_task_get_prio task_handle s = (case task_handle of None \<Rightarrow> KPRIO_ERROR | Some t \<Rightarrow>
     (let ret = prio (tasks s t) in
      if ret \<le> RHINO_CONFIG_USER_PRI_MAX then int (RHINO_CONFIG_USER_PRI_MAX - ret) else int (RHINO_CONFIG_PRI_MAX - ret)))"

definition csi_kernel_task_suspend :: "tid option \<Rightarrow> kstate \<Rightarrow> kstate \<times> int" where
  "csi_kernel_task_suspend task_handle s = (case task_handle of None \<Rightarrow> (s, - EINVAL)
     | Some t \<Rightarrow> (case krhino_task_suspend (Some t) s of (s1, ret) \<Rightarrow> (s1, csi_status ret)))"

definition csi_kernel_task_resume :: "tid option \<Rightarrow> kstate \<Rightarrow> kstate \<times> int" where
  "csi_kernel_task_resume task_handle s = (case task_handle of None \<Rightarrow> (s, - EINVAL)
     | Some t \<Rightarrow> (case krhino_task_resume (Some t) s of (s1, ret) \<Rightarrow> (s1, csi_status ret)))"

definition csi_kernel_task_terminate :: "tid option \<Rightarrow> kstate \<Rightarrow> kstate \<times> int" where
  "csi_kernel_task_terminate task_handle s = csi_kernel_task_del task_handle s"

definition csi_kernel_task_exit :: "kstate \<Rightarrow> kstate" where
  "csi_kernel_task_exit s = fst (csi_kernel_task_del (Some (csi_kernel_task_get_cur s)) s)"

definition csi_kernel_task_yield :: "kstate \<Rightarrow> kstate \<times> int" where
  "csi_kernel_task_yield s = (case krhino_task_yield s of (s1, ret) \<Rightarrow> (s1, csi_status ret))"

definition csi_kernel_task_get_count :: "kstate \<Rightarrow> u32" where
  "csi_kernel_task_get_count s = foldl (\<lambda>ret t. ret + 1) 0 (task_head (g_kobj_list s))"

definition csi_kernel_task_get_stack_size :: "tid option \<Rightarrow> kstate \<Rightarrow> nat" where
  "csi_kernel_task_get_stack_size task_handle s = (case task_handle of None \<Rightarrow> 0 | Some t \<Rightarrow> 4 * stack_size (tasks s t))"

definition csi_kernel_task_get_stack_space :: "tid option \<Rightarrow> u32 list \<Rightarrow> kstate \<Rightarrow> nat option" where
  "csi_kernel_task_get_stack_space task_handle stack s = (case task_handle of None \<Rightarrow> Some 0 | Some t \<Rightarrow>
     (case krhino_task_stack_min_free (Some t) True stack s of (ret, stack_free) \<Rightarrow>
       if ret = RHINO_SUCCESS then map_option (\<lambda>n. 4 * n) stack_free else Some 0))"

text \<open>
  \<open>task_array\<close> is the memory from the address the caller passes: its first \<open>array_items\<close> entries belong to the caller. The loops of the
  source: the first one counts, the second one writes.
\<close>

fun task_list_write :: "tid list \<Rightarrow> u32 \<Rightarrow> nat \<Rightarrow> nat list \<Rightarrow> nat list" where
  "task_list_write [] real_tsk_num tk_tmp mem = mem"
| "task_list_write (t # ts) real_tsk_num tk_tmp mem =
     (if real_tsk_num \<ge> 1 then task_list_write ts real_tsk_num (tk_tmp + 1) (mem[tk_tmp := t]) else mem)"

definition csi_kernel_task_list :: "nat list option \<Rightarrow> u32 \<Rightarrow> kstate \<Rightarrow> nat list \<times> u32" where
  "csi_kernel_task_list task_array array_items s = (case task_array of None \<Rightarrow> ([], 0) | Some mem \<Rightarrow>
     if array_items = 0 then (mem, 0)
     else (let real_tsk_num = csi_kernel_task_get_count s;
               real_tsk_num = (if array_items < real_tsk_num then array_items else real_tsk_num)
           in (task_list_write (task_head (g_kobj_list s)) real_tsk_num 0 mem, real_tsk_num)))"

text \<open>The rows of the run-time table; the name of a task is not part of its record here.\<close>

record os_task_info =
  ti_id :: u32
  ti_time :: u32
  ti_stack :: nat
  ti_prio :: nat
  ti_arg :: nat

fun task_runtime_loop :: "tid list \<Rightarrow> u32 \<Rightarrow> u32 \<Rightarrow> os_task_info list \<Rightarrow> kstate \<Rightarrow> kstate \<times> os_task_info list \<times> u32" where
  "task_runtime_loop [] ret cnt rows s = (s, rows, ret)"
| "task_runtime_loop (t # ts) ret cnt rows s =
     (if ret < cnt
      then task_runtime_loop ts (ret + 1) cnt
             (rows[unat ret := \<lparr>ti_id = ret, ti_time = runtime (tasks s t), ti_stack = stack_size (tasks s t),
                ti_prio = prio (tasks s t), ti_arg = t\<rparr>])
             (upd_task t (\<lambda>x. x\<lparr>runtime := 0\<rparr>) s)
      else (s, rows, ret))"

definition csi_kernel_task_runtime :: "os_task_info list \<Rightarrow> u32 \<Rightarrow> kstate \<Rightarrow> kstate \<times> os_task_info list \<times> u32" where
  "csi_kernel_task_runtime tsk_runtime cnt s = task_runtime_loop (task_head (g_kobj_list s)) 0 cnt tsk_runtime s"

section \<open>Interrupts and time\<close>

definition csi_kernel_intrpt_enter :: "kstate \<Rightarrow> kstate \<times> int" where
  "csi_kernel_intrpt_enter s = (case krhino_intrpt_enter s of (s1, ret) \<Rightarrow> (s1, csi_status ret))"

definition csi_kernel_intrpt_exit :: "kstate \<Rightarrow> kstate \<times> int" where
  "csi_kernel_intrpt_exit s = (krhino_intrpt_exit s, 0)"

definition RHINO_OS_MS_PERIOD_TICK :: nat where
  "RHINO_OS_MS_PERIOD_TICK = 1000 div RHINO_CONFIG_TICKS_PER_SECOND"

definition csi_kernel_delay :: "u32 \<Rightarrow> kstate \<Rightarrow> kstate \<times> csi_ret" where
  "csi_kernel_delay ticks s = (case krhino_task_sleep (ucast ticks) s of (s1, ret) \<Rightarrow> (s1, csi_ret_of csi_status ret))"

definition csi_kernel_delay_until :: int where "csi_kernel_delay_until = - EOPNOTSUPP"

definition csi_kernel_tick2ms :: "u32 \<Rightarrow> u64" where
  "csi_kernel_tick2ms ticks = ucast ticks * of_nat RHINO_OS_MS_PERIOD_TICK"

definition csi_kernel_ms2tick :: "u32 \<Rightarrow> u64" where
  "csi_kernel_ms2tick ms = (if ms < of_nat RHINO_OS_MS_PERIOD_TICK then 0 else ucast ms div of_nat RHINO_OS_MS_PERIOD_TICK)"

definition csi_kernel_delay_ms :: "u32 \<Rightarrow> kstate \<Rightarrow> kstate \<times> csi_ret" where
  "csi_kernel_delay_ms ms s =
     (let ms_get = (if ms < of_nat RHINO_OS_MS_PERIOD_TICK \<and> ms \<noteq> 0 then of_nat RHINO_OS_MS_PERIOD_TICK else ms);
          ticks = csi_kernel_ms2tick ms_get
      in case krhino_task_sleep ticks s of (s1, ret) \<Rightarrow> (s1, csi_ret_of csi_status ret))"

definition csi_kernel_get_ticks :: "kstate \<Rightarrow> kstate \<times> u64" where
  "csi_kernel_get_ticks s = krhino_sys_tick_get s"

definition csi_kernel_get_tick_freq :: u32 where "csi_kernel_get_tick_freq = of_nat RHINO_CONFIG_TICKS_PER_SECOND"

text \<open>
  The second tick counter and the wall clock of \<^verbatim>\<open>driver/systick.c\<close>; \<open>long\<close> has 32 bits. \<open>systick_handler\<close> is the handler of the
  tick interrupt; \<open>csi_kernel_update_tick\<close> makes up for the time of a sleep.
\<close>

record systick =
  g_sys_tick_count :: u64
  tv_sec :: u32
  tv_msec :: u32

definition systick_clock :: "systick \<Rightarrow> systick" where
  "systick_clock c = (let c1 = c\<lparr>g_sys_tick_count := g_sys_tick_count c + 1, tv_msec := tv_msec c + of_nat RHINO_OS_MS_PERIOD_TICK\<rparr>
     in if 1000 <s tv_msec c1 then c1\<lparr>tv_sec := tv_sec c1 + 1, tv_msec := 0\<rparr> else c1)"

definition systick_handler :: "systick \<times> kstate \<Rightarrow> systick \<times> kstate" where
  "systick_handler cs = (systick_clock (fst cs), krhino_tick_proc (snd cs))"

definition csi_kernel_update_tick :: "u32 \<Rightarrow> systick \<Rightarrow> systick" where
  "csi_kernel_update_tick ms c =
     (let ticks = ms * of_nat RHINO_CONFIG_TICKS_PER_SECOND div 1000;
          c1 = c\<lparr>g_sys_tick_count := g_sys_tick_count c + ucast ticks, tv_msec := ucast (scast (tv_msec c) + csi_kernel_tick2ms ticks)\<rparr>
      in if 1000 <s tv_msec c1
         then c1\<lparr>tv_sec := tv_sec c1 + of_int (sint (tv_msec c1) div 1000), tv_msec := of_int (sint (tv_msec c1) mod 1000)\<rparr> else c1)"

section \<open>Timers\<close>

text \<open>
  The adapter wraps a kernel timer in a \<open>tmr_ad_t\<close>, whose member \<open>tmr\<close> follows the four bytes of the function pointer, and hands the
  kernel a \<open>tmr_arg_t\<close> with the argument and a pointer back. \<open>tmr_cb\<close> is the address of \<open>tmr_adapt_cb\<close>.
\<close>

record csys =
  tsys_of :: tsys
  ad_func :: "u32 \<Rightarrow> nat"
  arg_arg :: "u32 \<Rightarrow> u32"
  arg_above :: "u32 \<Rightarrow> u32"

definition ad_tmr :: "u32 \<Rightarrow> tmid" where
  "ad_tmr handle_ad = handle_ad + 4"

definition tmr_cb :: nat where
  "tmr_cb = 1"

text \<open>The function the callback calls, and the argument it passes.\<close>

definition tmr_adapt_cb :: "tmid \<Rightarrow> csys \<Rightarrow> nat \<times> u32" where
  "tmr_adapt_cb timer s = (let a = timer_cb_arg (timers (tsys_of s) timer); tmr_above = arg_above s a
     in (ad_func s tmr_above, arg_arg s a))"

definition TMR_ONE_SHOT_DLY :: u64 where "TMR_ONE_SHOT_DLY = 10"
definition TMR_PERIODIC_PERIOD :: u64 where "TMR_PERIODIC_PERIOD = 10"
definition KTIMER_TYPE_ONCE :: int where "KTIMER_TYPE_ONCE = 0"

abbreviation on_kern :: "(kstate \<Rightarrow> kstate) \<Rightarrow> csys \<Rightarrow> csys" where
  "on_kern f s \<equiv> s\<lparr>tsys_of := upd_kern f (tsys_of s)\<rparr>"

definition csi_kernel_timer_new :: "u8 list \<Rightarrow> nat option \<Rightarrow> int \<Rightarrow> u32 \<Rightarrow> u32 option \<Rightarrow> u32 option \<Rightarrow> csys \<Rightarrow> csys \<times> u32 option" where
  "csi_kernel_timer_new junk func type arg alloc alloc_arg s =
     (if type < 0 \<or> type > 3 \<or> func = None then (s, None)
      else (let first = TMR_ONE_SHOT_DLY; round = (if type = KTIMER_TYPE_ONCE then 0 else TMR_PERIODIC_PERIOD) in
        case alloc of None \<Rightarrow> (s, None) | Some handle_ad \<Rightarrow>
          (case alloc_arg of None \<Rightarrow> (on_kern (krhino_mm_free (unat handle_ad)) s, None) | Some argp \<Rightarrow>
            (let s1 = s\<lparr>arg_arg := (arg_arg s)(argp := arg)\<rparr> in
             case krhino_timer_create junk (Some (ad_tmr handle_ad)) (Some ''UserTmr'') (Some tmr_cb) first round argp False (tsys_of s1) of
               (t1, ret) \<Rightarrow>
                 (let s2 = s1\<lparr>tsys_of := t1\<rparr> in
                  if ret = RHINO_SUCCESS
                  then (s2\<lparr>ad_func := (ad_func s2)(handle_ad := the func), arg_above := (arg_above s2)(argp := handle_ad)\<rparr>,
                        Some handle_ad)
                  else (on_kern (krhino_mm_free (unat argp)) (on_kern (krhino_mm_free (unat handle_ad)) s2), None))))))"

definition csi_kernel_timer_del :: "u8 list \<Rightarrow> u32 option \<Rightarrow> csys \<Rightarrow> csys \<times> int" where
  "csi_kernel_timer_del junk timer_handle s = (case timer_handle of None \<Rightarrow> (s, - EINVAL) | Some handle_ad \<Rightarrow>
     (case krhino_timer_del junk (Some (ad_tmr handle_ad)) (kern (tsys_of s)) of (k, ret) \<Rightarrow>
       (let s1 = s\<lparr>tsys_of := (tsys_of s)\<lparr>kern := k\<rparr>\<rparr> in
        if ret = RHINO_SUCCESS
        then (on_kern (krhino_mm_free (unat handle_ad))
               (on_kern (krhino_mm_free (unat (timer_cb_arg (timers (tsys_of s1) (ad_tmr handle_ad))))) s1), 0)
        else (s1, - EPERM))))"

definition csi_kernel_timer_start :: "u8 list \<Rightarrow> u8 list \<Rightarrow> u32 option \<Rightarrow> u32 \<Rightarrow> csys \<Rightarrow> csys \<times> int" where
  "csi_kernel_timer_start junk1 junk2 timer_handle ticks s = (case timer_handle of None \<Rightarrow> (s, - EINVAL) | Some handle_ad \<Rightarrow>
     if ticks = 0 then (s, - EINVAL)
     else (let handle = ad_tmr handle_ad; round = round_ticks (timers (tsys_of s) handle);
               tf = ucast ticks; tr = (if round \<noteq> 0 then ucast ticks else 0)
           in case krhino_timer_change junk1 (Some handle) tf tr (kern (tsys_of s)) of (k1, ret1) \<Rightarrow>
             (let s1 = s\<lparr>tsys_of := (tsys_of s)\<lparr>kern := k1\<rparr>\<rparr> in
              if ret1 = RHINO_SUCCESS
              then (case krhino_timer_start junk2 (Some handle) k1 of (k2, ret2) \<Rightarrow>
                      (s1\<lparr>tsys_of := (tsys_of s1)\<lparr>kern := k2\<rparr>\<rparr>, csi_status ret2))
              else (s1, - EPERM))))"

definition csi_kernel_timer_stop :: "u8 list \<Rightarrow> u32 option \<Rightarrow> csys \<Rightarrow> csys \<times> int" where
  "csi_kernel_timer_stop junk timer_handle s = (case timer_handle of None \<Rightarrow> (s, - EINVAL) | Some handle_ad \<Rightarrow>
     (case krhino_timer_stop junk (Some (ad_tmr handle_ad)) (kern (tsys_of s)) of (k, ret) \<Rightarrow>
       (s\<lparr>tsys_of := (tsys_of s)\<lparr>kern := k\<rparr>\<rparr>, csi_status ret)))"

datatype k_timer_stat_t = KTIMER_ST_INACTIVE | KTIMER_ST_ACTIVE

definition csi_kernel_timer_get_stat :: "u32 option \<Rightarrow> csys \<Rightarrow> k_timer_stat_t" where
  "csi_kernel_timer_get_stat timer_handle s = (case timer_handle of None \<Rightarrow> KTIMER_ST_INACTIVE | Some handle_ad \<Rightarrow>
     if timer_state (timers (tsys_of s) (ad_tmr handle_ad)) = TIMER_DEACTIVE then KTIMER_ST_INACTIVE else KTIMER_ST_ACTIVE)"

section \<open>Events\<close>

definition csi_kernel_event_new :: "oid option \<Rightarrow> kstate \<Rightarrow> kstate \<times> oid option" where
  "csi_kernel_event_new alloc s = (case alloc of None \<Rightarrow> (s, None) | Some handle \<Rightarrow>
     (case krhino_event_create (Some handle) (Some ''UserEvent'') 0 s of (s1, ret) \<Rightarrow>
       (s1, if ret = RHINO_SUCCESS then Some handle else None)))"

definition csi_kernel_event_del :: "oid option \<Rightarrow> kstate \<Rightarrow> kstate \<times> int" where
  "csi_kernel_event_del ev_handle s = (case ev_handle of None \<Rightarrow> (s, - EINVAL) | Some ev \<Rightarrow>
     (case krhino_event_del (Some ev) s of (s1, ret) \<Rightarrow>
       if ret = RHINO_SUCCESS then (krhino_mm_free ev s1, 0) else (s1, - EPERM)))"

definition csi_kernel_event_set :: "oid option \<Rightarrow> u32 \<Rightarrow> bool \<Rightarrow> kstate \<Rightarrow> kstate \<times> int \<times> u32 option" where
  "csi_kernel_event_set ev_handle fl ret_flags s = (case ev_handle of None \<Rightarrow> (s, - EINVAL, None) | Some ev \<Rightarrow>
     if \<not> ret_flags then (s, - EINVAL, None)
     else (case krhino_event_set (Some ev) fl RHINO_OR s of (s1, ret) \<Rightarrow>
       if ret = RHINO_SUCCESS then (s1, 0, Some (flags (events s1 ev))) else (s1, - EPERM, None)))"

definition csi_kernel_event_clear :: int where "csi_kernel_event_clear = - EOPNOTSUPP"

definition csi_kernel_event_get :: "oid option \<Rightarrow> bool \<Rightarrow> kstate \<Rightarrow> int \<times> u32 option" where
  "csi_kernel_event_get ev_handle ret_flags s = (case ev_handle of None \<Rightarrow> (- EINVAL, None) | Some ev \<Rightarrow>
     if \<not> ret_flags then (- EINVAL, None) else (0, Some (flags (events s ev))))"

definition KEVENT_OPT_SET_ANY :: int where "KEVENT_OPT_SET_ANY = 0"
definition KEVENT_OPT_SET_ALL :: int where "KEVENT_OPT_SET_ALL = 1"
definition KEVENT_OPT_CLR_ANY :: int where "KEVENT_OPT_CLR_ANY = 2"
definition KEVENT_OPT_CLR_ALL :: int where "KEVENT_OPT_CLR_ALL = 3"

definition csi_event_opt :: "int \<Rightarrow> u8 \<Rightarrow> u8" where
  "csi_event_opt options clr_on_exit =
     (if options = KEVENT_OPT_SET_ANY then (if clr_on_exit = 1 then RHINO_OR_CLEAR else RHINO_OR)
      else if options = KEVENT_OPT_SET_ALL then (if clr_on_exit = 1 then RHINO_AND_CLEAR else RHINO_AND)
      else 0)"

definition csi_kernel_event_wait :: "oid option \<Rightarrow> u32 \<Rightarrow> int \<Rightarrow> u8 \<Rightarrow> bool \<Rightarrow> int \<Rightarrow> kstate \<Rightarrow> kstate \<times> csi_ret \<times> u32 option" where
  "csi_kernel_event_wait ev_handle fl options clr_on_exit actl_flags timeout s =
     (if ev_handle = None \<or> \<not> actl_flags \<or> (clr_on_exit \<noteq> 0 \<and> clr_on_exit \<noteq> 1) then (s, CRet (- EINVAL), None)
      else if options = KEVENT_OPT_CLR_ANY \<or> options = KEVENT_OPT_CLR_ALL then (s, CRet (- EOPNOTSUPP), None)
      else (case krhino_event_get ev_handle fl (csi_event_opt options clr_on_exit) actl_flags (csi_timeout timeout) s of
          (s1, ret, actl) \<Rightarrow> (s1, csi_ret_of csi_wait_status ret, actl)))"

section \<open>Mutexes\<close>

definition csi_kernel_mutex_new :: "oid option \<Rightarrow> kstate \<Rightarrow> kstate \<times> oid option" where
  "csi_kernel_mutex_new alloc s = (case alloc of None \<Rightarrow> (s, None) | Some handle \<Rightarrow>
     (case krhino_mutex_create (Some handle) (Some ''UserMutex'') s of (s1, ret) \<Rightarrow>
       (s1, if ret = RHINO_SUCCESS then Some handle else None)))"

definition csi_kernel_mutex_del :: "oid option \<Rightarrow> kstate \<Rightarrow> kstate \<times> int" where
  "csi_kernel_mutex_del mutex_handle s = (case mutex_handle of None \<Rightarrow> (s, - EINVAL) | Some m \<Rightarrow>
     (case krhino_mutex_del (Some m) s of (s1, ret) \<Rightarrow>
       if ret = RHINO_SUCCESS then (krhino_mm_free m s1, 0) else (s1, - EPERM)))"

definition csi_kernel_mutex_lock :: "oid option \<Rightarrow> int \<Rightarrow> kstate \<Rightarrow> kstate \<times> csi_ret" where
  "csi_kernel_mutex_lock mutex_handle timeout s = (case mutex_handle of None \<Rightarrow> (s, CRet (- EINVAL)) | Some m \<Rightarrow>
     (case krhino_mutex_lock (Some m) (csi_timeout timeout) s of (s1, ret) \<Rightarrow> (s1, csi_ret_of csi_mutex_status ret)))"

definition csi_kernel_mutex_unlock :: "oid option \<Rightarrow> kstate \<Rightarrow> kstate \<times> int" where
  "csi_kernel_mutex_unlock mutex_handle s = (case mutex_handle of None \<Rightarrow> (s, - EINVAL) | Some m \<Rightarrow>
     (case krhino_mutex_unlock (Some m) s of (s1, ret) \<Rightarrow>
       (s1, if ret = RHINO_SUCCESS \<or> ret = RHINO_MUTEX_OWNER_NESTED then 0 else - EPERM)))"

definition csi_kernel_mutex_get_owner :: "oid option \<Rightarrow> kstate \<Rightarrow> tid option" where
  "csi_kernel_mutex_get_owner mutex_handle s = (case mutex_handle of None \<Rightarrow> None | Some m \<Rightarrow> mutex_task (mutexes s m))"

section \<open>Semaphores\<close>

definition csi_kernel_sem_new :: "int \<Rightarrow> int \<Rightarrow> oid option \<Rightarrow> kstate \<Rightarrow> kstate \<times> oid option" where
  "csi_kernel_sem_new max_count initial_count alloc s =
     (if max_count \<le> 0 \<or> initial_count < 0 then (s, None)
      else if max_count < initial_count then (s, None)
      else (case alloc of None \<Rightarrow> (s, None) | Some handle \<Rightarrow>
        (case krhino_sem_create (Some handle) (Some ''UserSem'') (of_int initial_count) s of (s1, ret) \<Rightarrow>
          (s1, if ret = RHINO_SUCCESS then Some handle else None))))"

definition csi_kernel_sem_del :: "oid option \<Rightarrow> kstate \<Rightarrow> kstate \<times> int" where
  "csi_kernel_sem_del sem_handle s = (case sem_handle of None \<Rightarrow> (s, - EINVAL) | Some m \<Rightarrow>
     (case krhino_sem_del (Some m) s of (s1, ret) \<Rightarrow>
       if ret = RHINO_SUCCESS then (krhino_mm_free m s1, 0) else (s1, - EPERM)))"

definition csi_kernel_sem_wait :: "oid option \<Rightarrow> int \<Rightarrow> kstate \<Rightarrow> kstate \<times> csi_ret" where
  "csi_kernel_sem_wait sem_handle timeout s = (case sem_handle of None \<Rightarrow> (s, CRet (- EINVAL)) | Some m \<Rightarrow>
     (case krhino_sem_take (Some m) (csi_timeout timeout) s of (s1, ret) \<Rightarrow> (s1, csi_ret_of csi_wait_status ret)))"

definition csi_kernel_sem_post :: "oid option \<Rightarrow> kstate \<Rightarrow> kstate \<times> int" where
  "csi_kernel_sem_post sem_handle s = (case sem_handle of None \<Rightarrow> (s, - EINVAL) | Some m \<Rightarrow>
     (case krhino_sem_give (Some m) s of (s1, ret) \<Rightarrow> (s1, csi_status ret)))"

definition csi_kernel_sem_get_count :: "oid option \<Rightarrow> kstate \<Rightarrow> int" where
  "csi_kernel_sem_get_count sem_handle s = (case sem_handle of None \<Rightarrow> - EINVAL | Some m \<Rightarrow>
     (case krhino_sem_count_get (Some m) True s of (ret, cnt) \<Rightarrow>
       if ret = RHINO_SUCCESS then sint (the cnt) else - EPERM))"

section \<open>Memory pools\<close>

text \<open>\<open>block_count * block_size\<close> is a product of two 32-bit integers; the fuel is that of \<open>krhino_mblk_pool_init\<close>.\<close>

definition csi_kernel_mpool_new :: "nat \<Rightarrow> u32 \<Rightarrow> int \<Rightarrow> int \<Rightarrow> u32 option \<Rightarrow> mbsys \<Rightarrow> (mbsys \<times> u32 option) option" where
  "csi_kernel_mpool_new n p_addr block_count block_size alloc s =
     (if p_addr = 0 \<or> block_count < 0 \<or> block_size \<le> 0 \<or> block_size mod 4 \<noteq> 0 then Some (s, None)
      else (case alloc of None \<Rightarrow> Some (s, None) | Some handle \<Rightarrow>
        (case krhino_mblk_pool_init n (Some handle) (Some ''UserMp'') p_addr (of_int block_size) (of_int (block_count * block_size)) s of
           None \<Rightarrow> None
         | Some (s1, ret) \<Rightarrow> Some (s1, if ret = RHINO_SUCCESS then Some handle else None))))"

text \<open>The freed handle is the second component.\<close>

definition csi_kernel_mpool_del :: "u32 option \<Rightarrow> mbsys \<Rightarrow> mbsys \<times> u32 option \<times> int" where
  "csi_kernel_mpool_del mp_handle s = (case mp_handle of None \<Rightarrow> (s, None, - EINVAL) | Some p \<Rightarrow>
     (s\<lparr>mb_pools := (mb_pools s)(p := \<lparr>mb_obj_type = RHINO_OBJ_TYPE_NONE, blk_size = 0, blk_avail = 0, blk_whole = 0, avail_list = 0\<rparr>)\<rparr>,
      Some p, 0))"

definition csi_kernel_mpool_alloc :: "u32 option \<Rightarrow> mbsys \<Rightarrow> mbsys \<times> u32 option" where
  "csi_kernel_mpool_alloc mp_handle s = (case mp_handle of None \<Rightarrow> (s, None) | Some p \<Rightarrow>
     (case krhino_mblk_alloc (Some p) True s of (s1, ret, blk) \<Rightarrow> (s1, if ret = RHINO_SUCCESS then blk else None)))"

definition csi_kernel_mpool_free :: "u32 option \<Rightarrow> u32 \<Rightarrow> mbsys \<Rightarrow> mbsys \<times> int" where
  "csi_kernel_mpool_free mp_handle block s = (case mp_handle of None \<Rightarrow> (s, - EINVAL) | Some p \<Rightarrow>
     if block = 0 then (s, - EINVAL)
     else (case krhino_mblk_free (Some p) block s of (s1, ret) \<Rightarrow> (s1, csi_status ret)))"

definition csi_kernel_mpool_get_count :: "u32 option \<Rightarrow> mbsys \<Rightarrow> int" where
  "csi_kernel_mpool_get_count mp_handle s = (case mp_handle of None \<Rightarrow> 0 | Some p \<Rightarrow>
     sint (blk_whole (mb_pools s p) - blk_avail (mb_pools s p)))"

definition csi_kernel_mpool_get_capacity :: "u32 option \<Rightarrow> mbsys \<Rightarrow> u32" where
  "csi_kernel_mpool_get_capacity mp_handle s = (case mp_handle of None \<Rightarrow> 0 | Some p \<Rightarrow> blk_whole (mb_pools s p))"

definition csi_kernel_mpool_get_block_size :: "u32 option \<Rightarrow> mbsys \<Rightarrow> u32" where
  "csi_kernel_mpool_get_block_size mp_handle s = (case mp_handle of None \<Rightarrow> 0 | Some p \<Rightarrow> blk_size (mb_pools s p))"

section \<open>Message queues\<close>

text \<open>A handle is the address of the adapter's record, passed together with the record.\<close>

record mq_adapter_t =
  buf_q :: oid
  mq_msg_size :: int
  mq_msg_count :: int

text \<open>
  \<open>alloc\<close> is the memory for the adapter's record, \<open>alloc_q\<close> and \<open>alloc_buf\<close> that of the queue. The result is the handle with its record.
\<close>

definition csi_kernel_msgq_new :: "int \<Rightarrow> int \<Rightarrow> nat option \<Rightarrow> oid option \<Rightarrow> (nat \<times> u8 list) option \<Rightarrow> kstate
    \<Rightarrow> kstate \<times> (nat \<times> mq_adapter_t) option" where
  "csi_kernel_msgq_new msg_count msg_sz alloc alloc_q alloc_buf s =
     (if msg_count \<le> 0 \<or> msg_sz \<le> 0 then (s, None)
      else (case alloc of None \<Rightarrow> (s, None) | Some handle \<Rightarrow>
        (case krhino_buf_queue_dyn_create True alloc_q alloc_buf (Some ''UserMsgQ'') (unat (of_int (msg_sz * (msg_count + 1)) :: u32)) (nat msg_sz) s of
          (s1, ret, out) \<Rightarrow>
            if ret = RHINO_SUCCESS
            then (s1, Some (handle, \<lparr>buf_q = the out, mq_msg_size = msg_sz, mq_msg_count = msg_count\<rparr>))
            else (krhino_mm_free handle s1, None))))"

definition csi_kernel_msgq_del :: "(nat \<times> mq_adapter_t) option \<Rightarrow> kstate \<Rightarrow> kstate \<times> int" where
  "csi_kernel_msgq_del mq_handle s = (case mq_handle of None \<Rightarrow> (s, - EINVAL) | Some (handle, mq) \<Rightarrow>
     (case krhino_buf_queue_dyn_del (Some (buf_q mq)) s of (s1, ret) \<Rightarrow>
       if ret = RHINO_SUCCESS then (krhino_mm_free handle s1, 0) else (s1, - EPERM)))"

definition csi_kernel_msgq_put :: "(nat \<times> mq_adapter_t) option \<Rightarrow> u8 list option \<Rightarrow> u8 \<Rightarrow> int \<Rightarrow> kstate \<Rightarrow> kstate \<times> int" where
  "csi_kernel_msgq_put mq_handle msg_ptr front_or_back timeout s =
     (case mq_handle of None \<Rightarrow> (s, - EINVAL) | Some (handle, mq) \<Rightarrow>
       if msg_ptr = None \<or> (front_or_back \<noteq> 0 \<and> front_or_back \<noteq> 1) then (s, - EINVAL)
       else if front_or_back = 0
       then (case krhino_buf_queue_send (Some (buf_q mq)) msg_ptr (nat (mq_msg_size mq)) s of (s1, ret) \<Rightarrow> (s1, csi_status ret))
       else (case krhino_buf_queue_send (Some (buf_q mq)) msg_ptr (nat (mq_msg_size mq)) s of (s1, ret) \<Rightarrow> (s1, csi_status ret)))"

definition csi_kernel_msgq_get :: "(nat \<times> mq_adapter_t) option \<Rightarrow> u8 list option \<Rightarrow> int \<Rightarrow> kstate
    \<Rightarrow> kstate \<times> csi_ret \<times> (u8 list \<times> nat) option" where
  "csi_kernel_msgq_get mq_handle msg_ptr timeout s =
     (case mq_handle of None \<Rightarrow> (s, CRet (- EINVAL), None) | Some (handle, mq) \<Rightarrow>
       if msg_ptr = None then (s, CRet (- EINVAL), None)
       else (case krhino_buf_queue_recv (Some (buf_q mq)) (csi_timeout timeout) msg_ptr True s of
           (s1, ret, out) \<Rightarrow> (s1, csi_ret_of csi_wait_status ret, out)))"

definition csi_kernel_msgq_get_count :: "(nat \<times> mq_adapter_t) option \<Rightarrow> kstate \<Rightarrow> kstate \<times> int" where
  "csi_kernel_msgq_get_count mq_handle s = (case mq_handle of None \<Rightarrow> (s, - EINVAL) | Some (handle, mq) \<Rightarrow>
     (case krhino_buf_queue_info_get (Some (buf_q mq)) True s of (s1, ret, info) \<Rightarrow>
       (s1, if ret = RHINO_SUCCESS then int (info_cur_num (the info)) else - EPERM)))"

definition csi_kernel_msgq_get_capacity :: "(nat \<times> mq_adapter_t) option \<Rightarrow> int" where
  "csi_kernel_msgq_get_capacity mq_handle = (case mq_handle of None \<Rightarrow> 0 | Some (handle, mq) \<Rightarrow> mq_msg_count mq)"

definition csi_kernel_msgq_get_msg_size :: "(nat \<times> mq_adapter_t) option \<Rightarrow> kstate \<Rightarrow> nat" where
  "csi_kernel_msgq_get_msg_size mq_handle s = (case mq_handle of None \<Rightarrow> 0 | Some (handle, mq) \<Rightarrow> max_msg_size (buf_queues s (buf_q mq)))"

definition csi_kernel_msgq_flush :: "(nat \<times> mq_adapter_t) option \<Rightarrow> kstate \<Rightarrow> kstate \<times> int" where
  "csi_kernel_msgq_flush mq_handle s = (case mq_handle of None \<Rightarrow> (s, - EINVAL) | Some (handle, mq) \<Rightarrow>
     (case krhino_buf_queue_flush (Some (buf_q mq)) s of (s1, ret) \<Rightarrow> (s1, csi_status ret)))"

section \<open>The heap\<close>

definition csi_kernel_malloc :: "int \<Rightarrow> nat option \<Rightarrow> kstate \<Rightarrow> kstate \<times> nat option" where
  "csi_kernel_malloc sz alloc s = (if sz < 1 then (s, None) else (csi_kernel_sched_resume (csi_kernel_sched_suspend s), alloc))"

definition csi_kernel_free :: "nat \<Rightarrow> kstate \<Rightarrow> kstate" where
  "csi_kernel_free ptr s = csi_kernel_sched_resume (krhino_mm_free ptr (csi_kernel_sched_suspend s))"

end
