(* ===== verification/Csi_Facts.thy ===== *)
theory Csi_Facts
  imports Csi
begin

text \<open>
  What the CSI functions do with the kernel: every call keeps the invariant of the kernel, priorities are set and read on the same scale,
  a started timer is armed when the timer task has processed the commands. Theorems at the end of the sections state behaviour that the
  callers of the interface will not expect.
\<close>

section \<open>CSI calls and the invariant of the kernel\<close>

text \<open>One rule per function that changes the kernel; the premises are the caller's obligations, as in \<open>kernel_step\<close>.\<close>

inductive csi_call :: "kstate \<Rightarrow> kstate \<Rightarrow> bool" where
  csi_suspend: "csi_call s (csi_kernel_sched_suspend s)"
| csi_resume: "csi_call s (csi_kernel_sched_resume s)"
| csi_task_new: "\<forall>stk x. al = Some (stk, x) \<longrightarrow> x \<notin> all_tasks s \<Longrightarrow>
      csi_call s (fst (csi_kernel_task_new tk nm pri tq st sz out al s))"
| csi_task_del: "\<forall>x. t = Some x \<longrightarrow> x \<in> all_tasks s \<Longrightarrow> res_sem_ok s \<Longrightarrow> csi_call s (fst (csi_kernel_task_del t s))"
| csi_task_exit: "g_active_task s \<in> all_tasks s \<Longrightarrow> res_sem_ok s \<Longrightarrow> csi_call s (csi_kernel_task_exit s)"
| csi_task_set_prio: "\<forall>x. t = Some x \<longrightarrow> x \<in> all_tasks s \<Longrightarrow> csi_call s (fst (csi_kernel_task_set_prio t pri s))"
| csi_task_suspend: "\<forall>x. t = Some x \<longrightarrow> task_ptr s x \<Longrightarrow> csi_call s (fst (csi_kernel_task_suspend t s))"
| csi_task_resume: "\<forall>x. t = Some x \<longrightarrow> task_ptr s x \<Longrightarrow> csi_call s (fst (csi_kernel_task_resume t s))"
| csi_task_yield: "task_state (tasks s (g_active_task s)) = K_RDY \<Longrightarrow> csi_call s (fst (csi_kernel_task_yield s))"
| csi_task_runtime: "csi_call s (fst (csi_kernel_task_runtime rows n s))"
| csi_delay: "g_active_task s \<noteq> g_idle_task \<Longrightarrow> csi_call s (fst (csi_kernel_delay ticks s))"
| csi_delay_ms: "g_active_task s \<noteq> g_idle_task \<Longrightarrow> csi_call s (fst (csi_kernel_delay_ms ms s))"
| csi_event_new: "unused s al \<Longrightarrow> csi_call s (fst (csi_kernel_event_new al s))"
| csi_event_del: "csi_call s (fst (csi_kernel_event_del ob s))"
| csi_event_set: "csi_call s (fst (csi_kernel_event_set ob fl out s))"
| csi_event_wait: "g_active_task s \<noteq> g_idle_task \<Longrightarrow> csi_call s (fst (csi_kernel_event_wait ob fl opt clr out tmo s))"
| csi_mutex_new: "unused s al \<Longrightarrow> csi_call s (fst (csi_kernel_mutex_new al s))"
| csi_mutex_del: "csi_call s (fst (csi_kernel_mutex_del ob s))"
| csi_mutex_lock: "g_active_task s \<noteq> g_idle_task \<Longrightarrow> \<not> lock_overflows ob s \<Longrightarrow>
      csi_call s (fst (csi_kernel_mutex_lock ob tmo s))"
| csi_mutex_unlock: "g_active_task s \<noteq> g_idle_task \<Longrightarrow> csi_call s (fst (csi_kernel_mutex_unlock ob s))"
| csi_sem_new: "unused s al \<Longrightarrow> csi_call s (fst (csi_kernel_sem_new mx ic al s))"
| csi_sem_del: "csi_call s (fst (csi_kernel_sem_del ob s))"
| csi_sem_wait: "g_active_task s \<noteq> g_idle_task \<Longrightarrow> csi_call s (fst (csi_kernel_sem_wait ob tmo s))"
| csi_sem_post: "csi_call s (fst (csi_kernel_sem_post ob s))"
| csi_msgq_new: "unused s alq \<Longrightarrow> bq_mem bf (unat (of_int (sz * (cnt + 1)) :: u32)) \<Longrightarrow>
      csi_call s (fst (csi_kernel_msgq_new cnt sz al alq bf s))"
| csi_msgq_del: "csi_call s (fst (csi_kernel_msgq_del mq s))"
| csi_msgq_put: "\<forall>h m d. mq = Some (h, m) \<longrightarrow> data = Some d \<longrightarrow> nat (mq_msg_size m) \<le> max_msg_size (buf_queues s (buf_q m))
      \<longrightarrow> readable (bq_ringbuf (buf_queues s (buf_q m))) d (nat (mq_msg_size m)) \<Longrightarrow>
      csi_call s (fst (csi_kernel_msgq_put mq data fb tmo s))"
| csi_msgq_get: "g_active_task s \<noteq> g_idle_task \<Longrightarrow> csi_call s (fst (csi_kernel_msgq_get mq buf tmo s))"
| csi_msgq_get_count: "csi_call s (fst (csi_kernel_msgq_get_count mq s))"
| csi_msgq_flush: "csi_call s (fst (csi_kernel_msgq_flush mq s))"
| csi_malloc: "csi_call s (fst (csi_kernel_malloc sz al s))"
| csi_free: "csi_call s (csi_kernel_free p s)"

lemma sys_ok_free: "sys_ok s \<Longrightarrow> sys_ok (krhino_mm_free p s)"
  by (rule sys_okI) (auto simp: sys_ok_def intro: krhino_mm_free_good)

lemma sys_ok_suspend: "sys_ok s \<Longrightarrow> sys_ok (csi_kernel_sched_suspend s)"
  by (auto simp: csi_kernel_sched_suspend_def intro: step_sys_ok [OF step_sched_disable])

lemma sys_ok_resume: "sys_ok s \<Longrightarrow> sys_ok (csi_kernel_sched_resume s)"
  by (auto simp: csi_kernel_sched_resume_def intro: step_sys_ok [OF step_sched_enable])

lemma all_tasks_suspend [simp]: "all_tasks (csi_kernel_sched_suspend s) = all_tasks s"
  by (simp add: csi_kernel_sched_suspend_def krhino_sched_disable_def Let_def)

lemma csi_task_new_ok:
  assumes "\<forall>stk x. al = Some (stk, x) \<longrightarrow> x \<notin> all_tasks s" "sys_ok s"
  shows "sys_ok (fst (csi_kernel_task_new tk nm pri tq st sz out al s))"
proof -
  have "sys_ok (fst (krhino_task_dyn_create out al n p q z e a (csi_kernel_sched_suspend s)))" for n p q z e a
    by (rule step_sys_ok [OF step_task_dyn_create sys_ok_suspend]) (use assms in simp_all)
  then show ?thesis using assms(2) by (auto simp: csi_kernel_task_new_def Let_def split_beta intro: sys_ok_resume)
qed

lemma runtime_reset_ok:
  assumes "sys_ok s"
  shows "sys_ok (upd_task t (\<lambda>x. x\<lparr>runtime := 0\<rparr>) s)"
proof -
  let ?s = "upd_task t (\<lambda>x. x\<lparr>runtime := 0\<rparr>) s"
  have g: "good s" using assms by (simp add: sys_ok_def)
  have "inert (\<lambda>x. x\<lparr>runtime := 0\<rparr>)" by (simp add: inert_def task_view_def)
  then have "kinv ?s" using kinv_inert goodD(1) [OF g] by blast
  moreover have "best ?s = best s" by (rule best_cong) simp
  ultimately have "good ?s" using g by (auto simp: good_def run_ok_def)
  then show ?thesis using assms by (rule sys_okI) simp
qed

lemma task_runtime_ok: "sys_ok s \<Longrightarrow> sys_ok (fst (task_runtime_loop ts r c rows s))"
  by (induction ts arbitrary: r rows s) (simp_all add: runtime_reset_ok)

lemmas csi_call_defs = csi_kernel_task_del_def csi_kernel_task_exit_def csi_kernel_task_set_prio_def csi_kernel_task_suspend_def
  csi_kernel_task_resume_def csi_kernel_task_yield_def csi_kernel_delay_def csi_kernel_delay_ms_def csi_kernel_event_new_def
  csi_kernel_event_del_def csi_kernel_event_set_def csi_kernel_event_wait_def csi_kernel_mutex_new_def csi_kernel_mutex_del_def
  csi_kernel_mutex_lock_def csi_kernel_mutex_unlock_def csi_kernel_sem_new_def csi_kernel_sem_del_def csi_kernel_sem_wait_def
  csi_kernel_sem_post_def csi_kernel_msgq_new_def csi_kernel_msgq_del_def csi_kernel_msgq_put_def csi_kernel_msgq_get_def
  csi_kernel_msgq_get_count_def csi_kernel_msgq_flush_def csi_kernel_malloc_def csi_kernel_free_def csi_kernel_task_get_cur_def
  csi_kernel_task_runtime_def

lemma csi_call_ok:
  assumes "csi_call s s'" "sys_ok s"
  shows "sys_ok s'"
proof -
  have st: "sys_ok s'" if "kernel_step s s'" for s' using step_sys_ok [OF that assms(2)] .
  have del: "sys_ok (fst (krhino_task_dyn_del (Some x) s))" if "x \<in> all_tasks s" "res_sem_ok s" for x
    by (rule st, rule step_task_dyn_del) (use that in simp_all)
  have send: "sys_ok (fst (krhino_buf_queue_send (Some q) (Some d) n s))"
    if "n \<le> max_msg_size (buf_queues s q) \<longrightarrow> readable (bq_ringbuf (buf_queues s q)) d n" for q d n
    by (rule st, rule step_buf_queue_send) (use that in simp)
  from assms show ?thesis
    by (cases rule: csi_call.cases)
       (auto simp: csi_call_defs Let_def split_beta split: option.split
          intro!: del send sys_ok_free sys_ok_suspend sys_ok_resume csi_task_new_ok task_runtime_ok intro: st kernel_step.intros)
qed

text \<open>The system with both kinds of steps: calls through the adapter, and calls of the kernel, interrupts and ticks.\<close>

definition csi_step :: "kstate \<Rightarrow> kstate \<Rightarrow> bool" where
  "csi_step s s' \<longleftrightarrow> csi_call s s' \<or> kernel_step s s'"

interpretation csi: invariant_system csi_step boot_state sys_ok
  by unfold_locales (auto simp: sys_ok_def boot_good csi_step_def dest: csi_call_ok step_sys_ok [unfolded sys_ok_def])

text \<open>
  C31: The CSI functions keep the kernel consistent: in every state that a running system reaches with any mixture of CSI calls, kernel calls,
  interrupts and ticks the invariant of the kernel holds and no fault has been recorded; \<open>csi_kernel_get_stat\<close> reports a running kernel, and the current task, as
  \<open>csi_kernel_task_get_cur\<close> reports it, is the ready task with the highest priority unless an interrupt is being served or scheduling is suspended.
\<close>

theorem csi_reachable_ok:
  assumes "csi_step\<^sup>*\<^sup>* boot_state s"
  shows "good s \<and> k_faults s = [] \<and> csi_kernel_get_stat s = KSCHED_ST_RUNNING
    \<and> (g_intrpt_nested_level s = 0 \<and> g_sched_lock s = 0 \<longrightarrow>
        csi_kernel_task_get_cur s = best s \<and> csi_kernel_task_get_stat (Some (best s)) s = KTASK_ST_RUNNING)"
proof -
  have k: "sys_ok s" using csi.inv_reachable [OF assms] .
  then have g: "good s" by (simp add: sys_ok_def)
  have "k_faults s = []" using ksysD(5) [OF goodD(2) [OF g]] .
  moreover have "g_intrpt_nested_level s = 0 \<and> g_sched_lock s = 0 \<longrightarrow> g_active_task s = best s" using goodD(3) [OF g] by (simp add: run_ok_def)
  ultimately show ?thesis
    using k g by (simp add: sys_ok_def csi_kernel_get_stat_def csi_kernel_task_get_cur_def csi_kernel_task_get_stat_def)
qed

theorem csi_reachable_ok_witness:
  "good (fst (csi_kernel_sem_new 3 1 (Some 7) boot_state))"
proof -
  have "unused boot_state (Some 7)" by (auto simp: unused_def boot_consts bss_def)
  then have "csi_step boot_state (fst (csi_kernel_sem_new 3 1 (Some 7) boot_state))" by (simp add: csi_step_def csi_sem_new)
  then show ?thesis using csi_reachable_ok [OF r_into_rtranclp] by blast
qed

section \<open>Priorities\<close>

lemma user_pri_max: "RHINO_CONFIG_USER_PRI_MAX = 60"
  by (simp add: RHINO_CONFIG_USER_PRI_MAX_def)

lemma pri_change_effect:
  assumes g: "good s" and t: "t \<in> all_tasks s" "prio (tasks s t) < RHINO_IDLE_PRI" "task_state (tasks s t) \<noteq> K_DELETED"
    and n: "g_intrpt_nested_level s = 0" and p: "pri < RHINO_IDLE_PRI" and r: "krhino_task_pri_change (Some t) pri True s = (s', st, old)"
  shows "st = RHINO_SUCCESS" "donors s' t = donors s t" "is_eff (\<lambda>x. pri) s' t (prio (tasks s' t))"
proof -
  define e where "e = cpu_intrpt_save s"
  define s1 where "s1 = upd_task t (\<lambda>x. x\<lparr>b_prio := pri\<rparr>) e"
  define q where "q = task_pri_change t (mutex_pri_limit t pri e) s1"
  have "ksys e" "t \<in> all_tasks e" "t \<noteq> g_idle_task" "pri < 62"
    using goodD(2) [OF g] t p ksysD(12) [OF goodD(2) [OF g]] by (auto simp: e_def)
  note kr = ksys_pri_change [OF this s1_def q_def]
  have "g_intrpt_nested_level e = 0" using n by (simp add: e_def)
  then have s': "st = RHINO_SUCCESS" "tasks s' = tasks (fst q)" "blks s' = blks (fst q)"
    using r t p kr(2) by (cases q; simp add: krhino_task_pri_change_def Let_def e_def [symmetric] s1_def [symmetric] q_def [symmetric]; auto)+
  show "st = RHINO_SUCCESS" by (rule s'(1))
  have d: "donors s' t = donors (fst q) t" by (simp add: donors_def s'(2,3))
  have "mutex_list (tasks (fst q) t) = mutex_list (tasks s t)" using forget_tasks(2) [OF kr(3), of t] by (simp add: s1_def e_def)
  then show "donors s' t = donors s t" unfolding d using kr(4) by (simp add: donors_def e_def)
  show "is_eff (\<lambda>x. pri) s' t (prio (tasks s' t))" using kr(5) unfolding is_eff_def d by (simp add: s'(2) s1_def)
qed

text \<open>The two scales: a smaller number in the kernel is a larger one in the interface; the result for the idle priority is the lowest.\<close>

lemma get_prio_num: "prio (tasks s t) \<le> 60 \<Longrightarrow> csi_kernel_task_get_prio (Some t) s = 60 - int (prio (tasks s t))"
  by (simp add: csi_kernel_task_get_prio_def user_pri_max Let_def of_nat_diff)

lemma get_prio_low: "60 < prio (tasks s t) \<Longrightarrow> csi_kernel_task_get_prio (Some t) s \<le> 1"
  by (simp add: csi_kernel_task_get_prio_def user_pri_max RHINO_CONFIG_PRI_MAX_def Let_def)

lemma get_prio_eff:
  assumes "is_eff (\<lambda>x. p) s t (prio (tasks s t))" "p < 60"
  shows "csi_kernel_task_get_prio (Some t) s = Max (insert (60 - int p) ((\<lambda>u. csi_kernel_task_get_prio (Some u) s) ` donors s t))"
proof (rule Max_eqI [symmetric])
  have e: "prio (tasks s t) \<le> p" "\<And>u. u \<in> donors s t \<Longrightarrow> prio (tasks s t) \<le> prio (tasks s u)"
    "prio (tasks s t) = p \<or> (\<exists>u \<in> donors s t. prio (tasks s t) = prio (tasks s u))"
    using assms(1) by (auto simp: is_eff_def)
  have g: "csi_kernel_task_get_prio (Some t) s = 60 - int (prio (tasks s t))" using e(1) assms(2) by (intro get_prio_num) simp
  show "finite (insert (60 - int p) ((\<lambda>u. csi_kernel_task_get_prio (Some u) s) ` donors s t))" by (simp add: donors_def)
  fix y assume "y \<in> insert (60 - int p) ((\<lambda>u. csi_kernel_task_get_prio (Some u) s) ` donors s t)"
  then consider "y = 60 - int p" | u where "u \<in> donors s t" "y = csi_kernel_task_get_prio (Some u) s" by blast
  then show "y \<le> csi_kernel_task_get_prio (Some t) s"
  proof cases
    case 1
    then show ?thesis using e(1) by (simp add: g)
  next
    case 2
    then show ?thesis using e(2) [of u] e(1) assms(2) get_prio_num [of s u] get_prio_low [of s u]
      by (cases "prio (tasks s u) \<le> 60") (simp_all add: g)
  qed
next
  have e: "prio (tasks s t) \<le> p" "prio (tasks s t) = p \<or> (\<exists>u \<in> donors s t. prio (tasks s t) = prio (tasks s u))"
    using assms(1) by (auto simp: is_eff_def)
  have num: "prio (tasks s t) \<le> 60" using e(1) assms(2) by simp
  from e(2) show "csi_kernel_task_get_prio (Some t) s \<in> insert (60 - int p) ((\<lambda>u. csi_kernel_task_get_prio (Some u) s) ` donors s t)"
  proof
    assume "prio (tasks s t) = p"
    then show ?thesis using get_prio_num [OF num] by simp
  next
    assume "\<exists>u\<in>donors s t. prio (tasks s t) = prio (tasks s u)"
    then obtain u where u: "u \<in> donors s t" "prio (tasks s u) = prio (tasks s t)" by metis
    then have "csi_kernel_task_get_prio (Some t) s = csi_kernel_task_get_prio (Some u) s" using num by (simp add: get_prio_num)
    then show ?thesis using u(1) by blast
  qed
qed

text \<open>
  C38: Priorities are set and read on the same scale: for each of the 48 priorities of the interface \<open>csi_kernel_task_set_prio\<close> succeeds on a live
  task other than the idle task, and \<open>csi_kernel_task_get_prio\<close> then returns the highest of that priority and the priorities of the tasks that
  wait for the mutexes the task owns, which the call leaves waiting; so it returns exactly the priority that was set unless a waiting task lends
  a higher one. Priorities outside the scale are refused without a change.
\<close>

theorem csi_prio_roundtrip:
  assumes "good s" "t \<in> all_tasks s" "prio (tasks s t) < RHINO_IDLE_PRI" "task_state (tasks s t) \<noteq> K_DELETED"
    and "g_intrpt_nested_level s = 0"
  shows "case csi_kernel_task_set_prio (Some t) pri s of (s', ret) \<Rightarrow>
     if KPRIO_IDLE < pri \<and> pri \<le> KPRIO_REALTIME7
     then ret = 0 \<and> donors s' t = donors s t
       \<and> csi_kernel_task_get_prio (Some t) s' = Max (insert pri ((\<lambda>u. csi_kernel_task_get_prio (Some u) s') ` donors s' t))
     else ret = - EINVAL \<and> s' = s"
proof (cases "KPRIO_IDLE < pri \<and> pri \<le> KPRIO_REALTIME7")
  case True
  define p where "p = nat (60 - pri)"
  have p: "pri = 60 - int p" "p < 60" using True by (auto simp: p_def KPRIO_IDLE_def KPRIO_REALTIME7_def)
  then have p61: "p < RHINO_IDLE_PRI" by simp
  obtain s' st old where r: "krhino_task_pri_change (Some t) p True s = (s', st, old)" by (metis prod_cases3)
  note e = pri_change_effect [OF assms p61 r]
  have "csi_kernel_task_set_prio (Some t) pri s = (s', 0)"
    using True r e(1) by (simp add: csi_kernel_task_set_prio_def user_pri_max p_def csi_status_def)
  then show ?thesis using True e(2) get_prio_eff [OF e(3) p(2)] by (simp add: p(1))
next
  case False
  then show ?thesis by (auto simp: csi_kernel_task_set_prio_def)
qed

text \<open>The task that owns a mutex nobody waits for is lowered to priority 20.\<close>

theorem csi_prio_roundtrip_witness:
  "the_mutex \<in> set (mutex_list (tasks sc_owned g_dyn_task))
    \<and> csi_kernel_task_get_prio (Some g_dyn_task) (fst (csi_kernel_task_set_prio (Some g_dyn_task) 20 sc_owned)) = 20"
proof -
  have k: "good sc_owned" using reachable_ok [OF sc_owned_facts(1)] by (simp add: sys_ok_def)
  note c = ksysD(1) [OF goodD(2) [OF k]]
  have own: "m \<in> set (mutex_list (tasks sc_owned g_dyn_task)) \<longleftrightarrow>
      obj_type (blks sc_owned m) = RHINO_MUTEX_OBJ_TYPE \<and> mutex_task (mutexes sc_owned m) = Some g_dyn_task" for m
    by (rule core_owned [OF c]) (simp add: sc_owned_facts)
  have "u \<notin> set (waiters sc_owned m)" if "m \<noteq> g_res_sem" for u m
  proof
    assume "u \<in> set (waiters sc_owned m)"
    then have u: "u \<in> all_tasks sc_owned" "waiting (tasks sc_owned u)" "blk_obj (tasks sc_owned u) = Some m" using core_waiter [OF c] by auto
    have "blk_obj (tasks sc_owned g_timer_task) = Some g_res_sem" using core_waiter [OF c, of g_timer_task g_res_sem] sc_owned_facts(8) by simp
    moreover have "\<not> waiting (tasks sc_owned g_idle_task)" "\<not> waiting (tasks sc_owned g_dyn_task)"
      using ksysD(10) [OF goodD(2) [OF k]] goodD(5) [OF k sc_owned_facts(6)] sc_owned_facts(2) by (simp_all add: waiting_def)
    ultimately show False using u that by (auto simp: sc_owned_facts(10))
  qed
  moreover have "m \<noteq> g_res_sem" if "m \<in> set (mutex_list (tasks sc_owned g_dyn_task))" for m
    using own [of m] that sc_owned_facts(9) by auto
  ultimately have d: "donors sc_owned g_dyn_task = {}" unfolding donors_def by fast
  have "prio (tasks sc_owned g_dyn_task) < RHINO_IDLE_PRI" "task_state (tasks sc_owned g_dyn_task) \<noteq> K_DELETED"
    by (simp_all add: sc_owned_facts boot_blocked_frame boot_three_tasks boot_task_def new_task_def boot_consts)
  then show ?thesis
    using csi_prio_roundtrip [OF k, of g_dyn_task 20] own d sc_owned_facts
    by (simp add: split_beta KPRIO_IDLE_def KPRIO_REALTIME7_def)
qed

section \<open>Enumerating tasks\<close>

lemma foldl_count: "foldl (\<lambda>r t. r + 1) (c :: u32) ts = c + of_nat (length ts)"
  by (induction ts arbitrary: c) simp_all

lemma task_list_write_all:
  assumes "1 \<le> n" "k + length ts \<le> length mem"
  shows "task_list_write ts n k mem = take k mem @ ts @ drop (k + length ts) mem"
  using assms
proof (induction ts arbitrary: k mem)
  case (Cons t ts)
  then have "task_list_write (t # ts) n k mem = take (k + 1) (mem[k := t]) @ ts @ drop (k + 1 + length ts) (mem[k := t])" by simp
  moreover have "take (k + 1) (mem[k := t]) = take k mem @ [t]" using Cons.prems(2) by (simp add: take_Suc_conv_app_nth)
  ultimately show ?case using Cons.prems(2) by simp
qed simp

text \<open>
  \<open>csi_kernel_task_list\<close> writes the handle of every task, however few entries the caller's array has: it reports the smaller of the two
  numbers, but the loop that writes is not bounded by it, so that an array of fewer entries than there are tasks is overrun.
\<close>

theorem csi_task_list_overruns:
  assumes "array_items \<noteq> 0" and "0 < length (task_head (g_kobj_list s))" "length (task_head (g_kobj_list s)) < 2 ^ 32"
    and "length (task_head (g_kobj_list s)) \<le> length mem"
  shows "csi_kernel_task_list (Some mem) array_items s =
    (task_head (g_kobj_list s) @ drop (length (task_head (g_kobj_list s))) mem,
     min array_items (of_nat (length (task_head (g_kobj_list s)))))"
proof -
  let ?n = "of_nat (length (task_head (g_kobj_list s))) :: u32"
  have "unat ?n = length (task_head (g_kobj_list s))" using assms(3) by (simp add: unat_of_nat take_bit_nat_eq_self)
  then have n0: "?n \<noteq> 0" using assms(2) by (metis less_not_refl unat_0)
  have c: "csi_kernel_task_get_count s = ?n" by (simp add: csi_kernel_task_get_count_def foldl_count)
  define m where "m = (if array_items < ?n then array_items else ?n)"
  have "1 \<le> m" using n0 assms(1) by (simp add: m_def word_less_1 linorder_not_less [symmetric])
  then have "task_list_write (task_head (g_kobj_list s)) m 0 mem = task_head (g_kobj_list s) @ drop (length (task_head (g_kobj_list s))) mem"
    using task_list_write_all [of m 0] assms(4) by simp
  moreover have "m = min array_items ?n" by (auto simp: m_def min_def)
  ultimately show ?thesis using assms(1) by (simp add: csi_kernel_task_list_def c Let_def m_def [symmetric])
qed

theorem csi_task_list_overruns_witness:
  "fst (csi_kernel_task_list (Some [100, 101, 102, 103]) 1 (boot_state\<lparr>g_kobj_list := (g_kobj_list boot_state)\<lparr>task_head := [0, 1, 2]\<rparr>\<rparr>))
    = [0, 1, 2, 103]"
  using csi_task_list_overruns [of 1 "boot_state\<lparr>g_kobj_list := (g_kobj_list boot_state)\<lparr>task_head := [0, 1, 2]\<rparr>\<rparr>" "[100, 101, 102, 103]"]
  by simp

section \<open>The clock\<close>

lemma sint_of_nat32: "n < 2 ^ 31 \<Longrightarrow> sint (of_nat n :: u32) = int n"
  using signed_take_bit_int_eq_self [of 31 "int n"] by (simp add: sint_uint unsigned_of_nat take_bit_nat_eq_self)

lemma clock_step:
  assumes "k \<le> 1000" "tv_msec c = of_nat k"
  shows "systick_clock c = c\<lparr>g_sys_tick_count := g_sys_tick_count c + 1,
      tv_sec := (if k = 1000 then tv_sec c + 1 else tv_sec c), tv_msec := (if k = 1000 then 0 else of_nat (Suc k))\<rparr>"
proof -
  have "sint (of_nat (Suc k) :: u32) = int (Suc k)" using assms(1) by (intro sint_of_nat32) simp
  then have "(1000 :: u32) <s of_nat (Suc k) \<longleftrightarrow> k = 1000" using assms(1) by (auto simp: word_sless_alt)
  then show ?thesis using assms(2)
    by (simp add: systick_clock_def Let_def RHINO_OS_MS_PERIOD_TICK_def RHINO_CONFIG_TICKS_PER_SECOND_def add.commute)
qed

text \<open>
  The clock that the tick interrupt keeps is slow: the seconds advance once in 1001 ticks of one millisecond, because the handler
  compares with \<open>> 1000\<close> and then starts again at zero. After \<open>n\<close> ticks the clock shows \<open>n / 1001\<close> seconds and \<open>n mod 1001\<close> milliseconds.
\<close>

theorem systick_clock_slow:
  "(systick_clock ^^ n) \<lparr>g_sys_tick_count = 0, tv_sec = 0, tv_msec = 0\<rparr>
    = \<lparr>g_sys_tick_count = of_nat n, tv_sec = of_nat (n div 1001), tv_msec = of_nat (n mod 1001)\<rparr>"
proof (induction n)
  case (Suc n)
  have k: "n mod 1001 \<le> 1000" using mod_less_divisor [of 1001 n] by simp
  have "Suc n div 1001 = (if n mod 1001 = 1000 then Suc (n div 1001) else n div 1001)"
    "Suc n mod 1001 = (if n mod 1001 = 1000 then 0 else Suc (n mod 1001))"
    by (simp_all add: div_Suc mod_Suc)
  then show ?case using Suc.IH clock_step [OF k] by (simp add: add.commute)
qed simp

text \<open>Making up for a sleep of 4294968 milliseconds, a little over 71 minutes, adds no tick at all: the product overflows.\<close>

theorem update_tick_overflow:
  "csi_kernel_update_tick 4294968 \<lparr>g_sys_tick_count = 5, tv_sec = 0, tv_msec = 0\<rparr> = \<lparr>g_sys_tick_count = 5, tv_sec = 0, tv_msec = 0\<rparr>"
  by code_simp

section \<open>Timers\<close>

lemma timer_send_keeps:
  assumes "timer_queue_ok k ms" "length m = 24" "timer_send m k = (k', RHINO_SUCCESS)"
  shows "timer_queue_ok k' (ms @ [m])"
proof -
  note q = assms(1) [unfolded timer_queue_ok_def]
  have k': "k' = fst (krhino_buf_queue_send (Some g_timer_queue) (Some m) TIMER_CB_SIZE k)"
    using assms(3) by (simp add: timer_send_def)
  have "readable (bq_ringbuf (buf_queues k g_timer_queue)) m TIMER_CB_SIZE"
    using q assms(2) by (simp add: readable_def bq_holds_def timer_cb_size)
  then have "good k'" unfolding k' using q by (intro krhino_buf_queue_send_good) auto
  moreover have "obj_type (blks k' g_timer_queue) = RHINO_BUF_QUEUE_OBJ_TYPE" "waiters k' g_timer_queue = []"
    "max_msg_size (buf_queues k' g_timer_queue) = TIMER_CB_SIZE" "rb_type (bq_ringbuf (buf_queues k' g_timer_queue)) = RINGBUF_TYPE_FIX"
    using q push_frame [of m TIMER_CB_SIZE "bq_ringbuf (buf_queues k g_timer_queue)"]
    by (simp_all add: k' krhino_buf_queue_send_def buf_queue_send_def Let_def split_beta upd_bq_def)
  ultimately show ?thesis using timer_send_holds [OF assms] by (simp add: timer_queue_ok_def)
qed

abbreviation timer_room :: "kstate \<Rightarrow> nat" where
  "timer_room k \<equiv> rb_freesize (bq_ringbuf (buf_queues k g_timer_queue))"

lemma timer_send_room:
  assumes "timer_queue_ok k ms" "length m = 24" "24 \<le> timer_room k"
  shows "\<exists>k'. timer_send m k = (k', RHINO_SUCCESS) \<and> timer_room k' = timer_room k - 24"
proof -
  let ?rb = "bq_ringbuf (buf_queues k g_timer_queue)"
  note q = assms(1) [unfolded timer_queue_ok_def]
  have h: "fix_holds 24 ?rb ms" using q by (auto simp: bq_holds_def ring_holds_def timer_cb_size)
  obtain rb where "push_msg m ?rb = (rb, RHINO_SUCCESS)" "rb_freesize rb = rb_freesize ?rb - 24"
    using push_fix_spec [OF h assms(2,3)] by blast
  then show ?thesis using q assms(2)
    by (simp add: timer_send_def krhino_buf_queue_send_def buf_queue_send_def Let_def timer_cb_size upd_bq_def)
qed

lemma ucast_small: "\<not> (- 1 :: u64) \<le> ucast (w :: u32)" "(ucast w :: u64) = 0 \<longleftrightarrow> w = 0"
proof -
  have l: "unat w < 2 ^ 32" using unsigned_less [of w, where ?'a = nat] by simp
  then have "take_bit 64 (unat w) = unat w" by (intro take_bit_nat_eq_self) simp
  then have "unat (ucast w :: u64) = unat w" by (simp add: unsigned_ucast_eq)
  moreover note l
  moreover have "unat (- 1 :: u64) = 2 ^ 64 - 1" by (simp add: unsigned_minus_1_eq_mask mask_eq_exp_minus_1)
  ultimately show "\<not> (- 1 :: u64) \<le> ucast w" "(ucast w :: u64) = 0 \<longleftrightarrow> w = 0"
    by (simp_all add: word_le_nat_alt word_unat_eq_iff)
qed

text \<open>The effect of the two commands of \<open>csi_kernel_timer_start\<close> on the timers, whatever happens between them and the call.\<close>

lemma chg_start_arms:
  assumes "tmr_obj_type (timers T t) = RHINO_TIMER_OBJ_TYPE" "first \<noteq> 0" "T' = cmd_start t (cmd_chg t first round T)"
  shows "timer_state (timers T' t) = TIMER_ACTIVE \<and> match (timers T' t) = g_timer_count T + first \<and> round_ticks (timers T' t) = round
    \<and> t \<in> set (g_timer_head T')"
  using assms by (auto simp: cmd_start_def cmd_chg_def Let_def timer_list_insert_def timer_list_rm_def timer_ins.set_ins)

text \<open>
  \<open>csi_kernel_timer_start\<close> arms the timer: with room for two commands it returns 0, and the commands it has queued make the timer task put the timer on the list of active
  timers, to expire after \<open>ticks\<close> ticks and, if it is periodic, every \<open>ticks\<close> ticks from then on, whether or not the timer was running before.
\<close>

theorem csi_timer_start_arms:
  assumes q: "timer_queue_ok (kern (tsys_of s)) ms" and j: "length junk1 = 24" "length junk2 = 24"
    and room: "48 \<le> timer_room (kern (tsys_of s))" and t0: "ticks \<noteq> 0"
    and r: "csi_kernel_timer_start junk1 junk2 (Some h) ticks s = (s', ret)"
  shows "ret = 0 \<and> (\<exists>m1 m2. bq_holds (buf_queues (kern (tsys_of s')) g_timer_queue) (ms @ [m1, m2])
    \<and> (\<forall>T T'. tmr_obj_type (timers T (ad_tmr h)) = RHINO_TIMER_OBJ_TYPE \<and> T' = timer_cmd_proc m2 (timer_cmd_proc m1 T) \<longrightarrow>
        timer_state (timers T' (ad_tmr h)) = TIMER_ACTIVE \<and> match (timers T' (ad_tmr h)) = g_timer_count T + ucast ticks
      \<and> round_ticks (timers T' (ad_tmr h)) = (if round_ticks (timers (tsys_of s) (ad_tmr h)) = 0 then 0 else ucast ticks)
      \<and> ad_tmr h \<in> set (g_timer_head T')))"
proof -
  let ?t = "ad_tmr h" and ?k = "kern (tsys_of s)"
  define tr :: u64 where "tr = (if round_ticks (timers (tsys_of s) ?t) = 0 then 0 else ucast ticks)"
  define m1 where "m1 = set_cb_num TIMER_CMD_CHG (set_round tr (set_first (ucast ticks) (set_timer ?t junk1)))"
  define m2 where "m2 = set_cb_num TIMER_CMD_START (set_timer ?t junk2)"
  have len: "length m1 = 24" "length m2 = 24" using j by (simp_all add: m1_def m2_def)
  have big: "\<not> - 1 \<le> tr" "\<not> (- 1 :: u64) \<le> 0" using ucast_small(1) [of ticks] ucast_small(1) [of 0] by (simp_all add: tr_def)
  have c1: "krhino_timer_change junk1 (Some ?t) (ucast ticks) tr ?k = timer_send m1 ?k"
    using big ucast_small(1) [of ticks] by (simp add: krhino_timer_change_def m1_def)
  have c2: "krhino_timer_start junk2 (Some ?t) k = timer_send m2 k" for k by (simp add: krhino_timer_start_def m2_def)
  obtain k1 where k1: "timer_send m1 ?k = (k1, RHINO_SUCCESS)" "24 \<le> timer_room k1"
    using timer_send_room [OF q len(1)] room by force
  note q1 = timer_send_keeps [OF q len(1) k1(1)]
  obtain k2 where k2: "timer_send m2 k1 = (k2, RHINO_SUCCESS)" using timer_send_room [OF q1 len(2) k1(2)] by blast
  have ok: "ret = 0" "kern (tsys_of s') = k2"
    using r t0 c1 [unfolded tr_def] k1
    by (cases "round_ticks (timers (tsys_of s) ?t) = 0"; auto simp: csi_kernel_timer_start_def Let_def c2 k2 csi_status_def errnos split: if_splits)+
  have "bq_holds (buf_queues k2 g_timer_queue) ((ms @ [m1]) @ [m2])"
    using timer_send_holds [OF q1 len(2) k2] .
  moreover have "timer_cmd_proc m1 = cmd_chg ?t (ucast ticks) tr" "timer_cmd_proc m2 = cmd_start ?t"
    using j by (simp_all add: fun_eq_iff m1_def m2_def timer_cmd_proc_def cmd_proc_def Let_def)
  moreover have "(ucast ticks :: u64) \<noteq> 0" using t0 ucast_small(2) [of ticks] by simp
  ultimately show ?thesis using chg_start_arms [of _ ?t "ucast ticks" _ tr] ok
    by (intro conjI exI [of _ m1] exI [of _ m2]) (simp_all add: tr_def)
qed

text \<open>A system after start-up with one timer, that of the handle 0x20000100.\<close>

definition one_timer :: csys where
  "one_timer = \<lparr>tsys_of = \<lparr>kern = boot_state, timers = (\<lambda>_. no_timer)(0x20000104 := a_timer 10 0), g_timer_head = [0x20000104],
     g_timer_count = 0, cb_msg = [], tpc = AtDelay, cb_calls = []\<rparr>, ad_func = (\<lambda>_. 0), arg_arg = (\<lambda>_. 0), arg_above = (\<lambda>_. 0)\<rparr>"

lemma boot_timer_queue_ok: "timer_queue_ok boot_state []" "timer_room boot_state = 240"
proof -
  show q: "timer_queue_ok boot_state []" using boot_timer_queue boot_good by (simp add: timer_queue_ok_def timer_cb_size)
  show "timer_room boot_state = 240"
    by (simp add: boot_state_eq boot_three_def boot_queue_def krhino_fix_buf_queue_create_def buf_queue_create_def Let_def upd_bq_def boot_consts
        ringbuf_init_def ringbuf_reset_def rb_end_def)
qed

theorem csi_timer_start_arms_witness:
  "snd (csi_kernel_timer_start (replicate 24 1) (replicate 24 2) (Some 0x20000100) 50 one_timer) = 0"
proof -
  have k: "kern (tsys_of one_timer) = boot_state" by (simp add: one_timer_def)
  obtain s' ret where r: "csi_kernel_timer_start (replicate 24 1) (replicate 24 2) (Some 0x20000100) 50 one_timer = (s', ret)"
    by (cases "csi_kernel_timer_start (replicate 24 1) (replicate 24 2) (Some 0x20000100) 50 one_timer")
  have q: "timer_queue_ok (kern (tsys_of one_timer)) []" "48 \<le> timer_room (kern (tsys_of one_timer))"
    using boot_timer_queue_ok unfolding k by simp_all
  have l: "length (replicate 24 (1::u8)) = 24" "length (replicate 24 (2::u8)) = 24" "(50 :: u32) \<noteq> 0" by simp_all
  show ?thesis using csi_timer_start_arms [OF q(1) l(1,2) q(2) l(3) r] unfolding r by (simp only: snd_conv)
qed

text \<open>
  \<open>csi_kernel_timer_del\<close> frees a timer that is still in use: it returns 0 and gives the memory of the timer back as soon as the delete
  command is queued, and when the timer task reaches the command while the timer is active, it leaves the timer on its list.
\<close>

theorem csi_timer_del_frees_linked:
  assumes q: "timer_queue_ok (kern (tsys_of s)) []" and j: "length junk = 24"
    and r: "csi_kernel_timer_del junk (Some h) s = (s', ret)"
  shows "ret = 0 \<and> unat h \<in> set (mm_freed (kern (tsys_of s')))
    \<and> (\<exists>m. bq_holds (buf_queues (kern (tsys_of s')) g_timer_queue) [m]
        \<and> (\<forall>T. timer_state (timers T (ad_tmr h)) = TIMER_ACTIVE \<and> ad_tmr h \<in> set (g_timer_head T) \<longrightarrow>
            ad_tmr h \<in> set (g_timer_head (timer_cmd_proc m T)) \<and> timers (timer_cmd_proc m T) (ad_tmr h) = timers T (ad_tmr h)))"
proof -
  let ?k = "kern (tsys_of s)"
  define m where "m = set_cb_num TIMER_CMD_DEL (set_timer (ad_tmr h) junk)"
  have len: "length m = 24" using j by (simp add: m_def)
  obtain k' where k': "timer_send m ?k = (k', RHINO_SUCCESS)" using timer_send_ok [OF q, of m] by (metis prod.collapse)
  have "krhino_timer_del junk (Some (ad_tmr h)) ?k = (k', RHINO_SUCCESS)" using k' by (simp add: krhino_timer_del_def m_def)
  then have s': "ret = 0" "unat h \<in> set (mm_freed (kern (tsys_of s')))" "buf_queues (kern (tsys_of s')) = buf_queues k'"
    using r by (auto simp: csi_kernel_timer_del_def Let_def krhino_mm_free_def)
  have "timer_cmd_proc m = cmd_del K_OBJ_STATIC_ALLOC (ad_tmr h)"
    using j by (simp add: fun_eq_iff m_def timer_cmd_proc_def cmd_proc_def Let_def)
  moreover have "bq_holds (buf_queues k' g_timer_queue) [m]" using timer_send_holds [OF q len k'] by simp
  ultimately show ?thesis using s' by (auto simp: cmd_del_def)
qed

theorem csi_timer_del_frees_linked_witness:
  "unat (0x20000100 :: u32) \<in> set (mm_freed (kern (tsys_of (fst (csi_kernel_timer_del (replicate 24 1) (Some 0x20000100) one_timer)))))"
proof -
  have k: "kern (tsys_of one_timer) = boot_state" by (simp add: one_timer_def)
  obtain s' ret where r: "csi_kernel_timer_del (replicate 24 1) (Some 0x20000100) one_timer = (s', ret)" by (cases "csi_kernel_timer_del (replicate 24 1) (Some 0x20000100) one_timer")
  have q: "timer_queue_ok (kern (tsys_of one_timer)) []" using boot_timer_queue_ok(1) unfolding k .
  have l: "length (replicate 24 (1::u8)) = 24" by simp
  show ?thesis using csi_timer_del_frees_linked [OF q l r] unfolding r by (simp only: fst_conv)
qed

section \<open>Message queues\<close>

text \<open>A message of at most 127 bytes is stored behind one byte for its length.\<close>

lemma length_enc_small: "length m \<le> 127 \<Longrightarrow> length (enc m) = Suc (length m)"
  by (simp add: enc_def ringbuf_headlen_compress_def COMPRESS_LEN_def)

lemma same_size_room:
  assumes "dyn_holds rb ms" "\<forall>m\<in>set ms. length m = n" "n \<le> 127"
  shows "rb_freesize rb = rb_end rb - length ms * Suc n" "length ms * Suc n \<le> rb_end rb"
proof -
  have "length (concat (map enc ms)) = length ms * Suc n"
    using assms(2,3) by (induction ms) (simp_all add: length_enc_small)
  then have "rb_used rb = length ms * Suc n" using assms(1) ring_used_holds [of rb] by (simp add: dyn_holds_def)
  then show "rb_freesize rb = rb_end rb - length ms * Suc n" "length ms * Suc n \<le> rb_end rb"
    using assms(1) by (auto simp: rb_used_def dyn_holds_def rb_inv_def)
qed

text \<open>
  C39: How many messages a CSI message queue holds. The queue is created for \<open>cnt\<close> messages of \<open>n\<close> bytes with a buffer of \<open>n (cnt + 1)\<close> bytes, but every
  message takes \<open>n + 1\<close> bytes of it: with \<open>k\<close> messages in the queue and no waiting receiver another one is accepted exactly when
  \<open>(k + 1) (n + 1) \<le> n (cnt + 1)\<close>. For \<open>cnt > n\<close> the queue is full before it holds the \<open>cnt\<close> messages that
  \<open>csi_kernel_msgq_get_capacity\<close> reports.
\<close>

theorem csi_msgq_room:
  assumes "good s" "obj_type (blks s q) = RHINO_BUF_QUEUE_OBJ_TYPE" "waiters s q = []" "bq_holds (buf_queues s q) ms"
    and "rb_type (bq_ringbuf (buf_queues s q)) = RINGBUF_TYPE_DYN" "max_msg_size (buf_queues s q) = n"
    and "rb_end (bq_ringbuf (buf_queues s q)) = n * (cnt + 1)" "\<forall>m\<in>set ms. length m = n" "0 < n" "n \<le> 127"
    and "length d = n" "mq = \<lparr>buf_q = q, mq_msg_size = int n, mq_msg_count = int cnt\<rparr>"
  shows "snd (csi_kernel_msgq_put (Some (h, mq)) (Some d) 0 tmo s) = (if (length ms + 1) * (n + 1) \<le> n * (cnt + 1) then 0 else - EPERM)
    \<and> (n < cnt \<and> length ms = cnt - 1 \<longrightarrow> snd (csi_kernel_msgq_put (Some (h, mq)) (Some d) 0 tmo s) = - EPERM)
    \<and> csi_kernel_msgq_get_capacity (Some (h, mq)) = int cnt"
proof -
  let ?rb = "bq_ringbuf (buf_queues s q)"
  have dh: "dyn_holds ?rb ms" using assms(4,5) by (simp add: bq_holds_def ring_holds_def)
  note f = same_size_room [OF dh assms(8,10), unfolded assms(7)]
  have fit: "dyn_fits d" "length (enc d) = Suc n" using assms(10,11) by (simp_all add: dyn_fits_def length_enc_small)
  have c: "Suc n \<le> rb_freesize ?rb \<longleftrightarrow> (length ms + 1) * (n + 1) \<le> n * (cnt + 1)" using f by auto
  have "snd (push_msg d ?rb) = (if (length ms + 1) * (n + 1) \<le> n * (cnt + 1) then RHINO_SUCCESS else RHINO_RINGBUF_FULL)"
    using push_dyn_spec [OF dh fit(1)] push_dyn_full [OF dh fit(1)] c assms(9) fit(2) by (auto simp: not_le)
  then have put: "snd (csi_kernel_msgq_put (Some (h, mq)) (Some d) 0 tmo s) = (if (length ms + 1) * (n + 1) \<le> n * (cnt + 1) then 0 else - EPERM)"
    using assms(1-3,6,9,11,12)
    by (simp add: csi_kernel_msgq_put_def krhino_buf_queue_send_def buf_queue_send_def Let_def split_beta csi_status_def)
  moreover have "snd (csi_kernel_msgq_put (Some (h, mq)) (Some d) 0 tmo s) = - EPERM" if a: "n < cnt" "length ms = cnt - 1"
  proof -
    obtain c where "cnt = Suc c" using a(1) by (cases cnt) simp_all
    then have "\<not> (length ms + 1) * (n + 1) \<le> n * (cnt + 1)" using a by (simp add: algebra_simps)
    then show ?thesis unfolding put by (simp only: if_False)
  qed
  moreover have "csi_kernel_msgq_get_capacity (Some (h, mq)) = int cnt" using assms(12) by (simp add: csi_kernel_msgq_get_capacity_def)
  ultimately show ?thesis by blast
qed

definition sc_msgq :: kstate where
  "sc_msgq = fst (csi_kernel_msgq_new 10 4 (Some 0x100) (Some 9) (Some (0x200, replicate 44 0)) boot_state)"

theorem csi_msgq_room_witness:
  "snd (csi_kernel_msgq_put (Some (0x100, \<lparr>buf_q = 9, mq_msg_size = 4, mq_msg_count = 10\<rparr>)) (Some [1, 2, 3, 4]) 0 0 sc_msgq) = 0"
proof -
  have "csi_call boot_state sc_msgq" unfolding sc_msgq_def by (rule csi_msgq_new) (auto simp: unused_def bq_mem_def boot_consts bss_def)
  then have g: "good sc_msgq" using csi_call_ok boot_good by (simp add: sys_ok_def)
  have e: "sc_msgq = fst (buf_queue_create (Some 9) (Some ''UserMsgQ'') (Some (0x200, replicate 44 0)) 44 4 K_OBJ_DYN_ALLOC RINGBUF_TYPE_DYN boot_state)"
    by (simp add: sc_msgq_def csi_kernel_msgq_new_def krhino_buf_queue_dyn_create_def buf_queue_create_def Let_def)
  have f: "obj_type (blks sc_msgq 9) = RHINO_BUF_QUEUE_OBJ_TYPE" "waiters sc_msgq 9 = []" "bq_cur_num (buf_queues sc_msgq 9) = 0"
    "rb_type (bq_ringbuf (buf_queues sc_msgq 9)) = RINGBUF_TYPE_DYN" "max_msg_size (buf_queues sc_msgq 9) = 4"
    "rb_end (bq_ringbuf (buf_queues sc_msgq 9)) = 4 * (10 + 1)"
    by (simp_all add: e buf_queue_create_def Let_def upd_bq_def ringbuf_init_def ringbuf_reset_def rb_end_def)
  have "bq_holds (buf_queues sc_msgq 9) []" using bq_obj_ok [OF goodD(1) [OF g] f(1)] f(2,3) by (auto simp: bq_ok_holds bq_holds_def)
  from csi_msgq_room [OF g f(1,2) this f(4,5,6), of "[1, 2, 3, 4]"] show ?thesis by simp
qed

end
