(* ===== verification/Workqueue.thy ===== *)
theory Workqueue
  imports Timer_Expiry
begin

text \<open>
  Work queues (\<^verbatim>\<open>core/k_workqueue.c\<close>): a worker task per queue takes works from a list, one per token of a semaphore, and calls their functions; a delayed work is put
  on the list by the callback of its timer. The firmware's configuration leaves them out of the kernel; the model follows the source with
  \<open>RHINO_CONFIG_WORKQUEUE\<close> set. Works and queues live in stores by address; the worker task and the semaphore are members of the queue, at the addresses
  \<open>worker\<close> and \<open>wsem\<close>. \<open>wts\<close> is the kernel with its timers.
\<close>

section \<open>The code\<close>

type_synonym wid = u32
type_synonym wqid = u32

record kwork_t =
  work_handle :: nat
  work_arg :: u32
  work_dly :: u64
  work_timer :: "tmid option"
  work_wq :: "wqid option"
  work_exit :: bool

record kworkqueue_t =
  work_list :: "wid list"
  work_current :: "wid option"
  worker :: tid
  wsem :: oid

record wqsys =
  wts :: tsys
  works :: "wid \<Rightarrow> kwork_t"
  wqs :: "wqid \<Rightarrow> kworkqueue_t"
  g_workqueue_list_head :: "wqid list"
  timer_priv :: "tmid \<Rightarrow> wid"

type_synonym work_env = "nat \<Rightarrow> u32 \<Rightarrow> wqsys \<Rightarrow> wqsys"

definition upd_work :: "wid \<Rightarrow> (kwork_t \<Rightarrow> kwork_t) \<Rightarrow> wqsys \<Rightarrow> wqsys" where
  "upd_work w f s = s\<lparr>works := (works s)(w := f (works s w))\<rparr>"

definition upd_wq :: "wqid \<Rightarrow> (kworkqueue_t \<Rightarrow> kworkqueue_t) \<Rightarrow> wqsys \<Rightarrow> wqsys" where
  "upd_wq q f s = s\<lparr>wqs := (wqs s)(q := f (wqs s q))\<rparr>"

definition on_kernel :: "(kstate \<Rightarrow> kstate) \<Rightarrow> wqsys \<Rightarrow> wqsys" where
  "on_kernel f s = s\<lparr>wts := upd_kern f (wts s)\<rparr>"

abbreviation wkern :: "wqsys \<Rightarrow> kstate" where
  "wkern s \<equiv> kern (wts s)"

text \<open>A critical section around changes of the works and queues only.\<close>

definition critical :: "(wqsys \<Rightarrow> wqsys) \<Rightarrow> wqsys \<Rightarrow> wqsys" where
  "critical f s = (let psr = irq_off (wkern s) in on_kernel (RHINO_CRITICAL_EXIT psr) (f (on_kernel RHINO_CRITICAL_ENTER s)))"

text \<open>\<open>klist_rm_init(&work->work_node)\<close>: a node that is on no list is linked to itself and stays so.\<close>

definition work_unlink :: "wid \<Rightarrow> wqsys \<Rightarrow> wqsys" where
  "work_unlink w s = s\<lparr>wqs := \<lambda>q. (wqs s q)\<lparr>work_list := remove1 w (work_list (wqs s q))\<rparr>\<rparr>"

definition workqueue_is_exist :: "wqid \<Rightarrow> wqsys \<Rightarrow> wqsys \<times> kstat" where
  "workqueue_is_exist q s = (critical (\<lambda>s. s) s, if q \<in> set (g_workqueue_list_head s) then RHINO_WORKQUEUE_EXIST else RHINO_WORKQUEUE_NOT_EXIST)"

text \<open>The worker between the return of \<open>krhino_sem_take\<close> and the next take; an empty list would make it treat the list head as a work.\<close>

definition worker_get :: "wqid \<Rightarrow> kstat \<Rightarrow> wqsys \<Rightarrow> wqsys" where
  "worker_get q ret s = (let s1 = (if ret \<noteq> RHINO_SUCCESS then on_kernel (k_err_proc ret) s else s) in
     critical (\<lambda>s. case work_list (wqs s q) of
         [] \<Rightarrow> on_kernel (fault KNull) s
       | w # ws \<Rightarrow> upd_work w (\<lambda>x. x\<lparr>work_exit := False\<rparr>) (upd_wq q (\<lambda>x. x\<lparr>work_current := Some w\<rparr>) (work_unlink w s))) s1)"

definition worker_done :: "wqid \<Rightarrow> wqsys \<Rightarrow> wqsys" where
  "worker_done q s = critical (upd_wq q (\<lambda>x. x\<lparr>work_current := None\<rparr>)) s"

definition worker_task :: "work_env \<Rightarrow> wqid \<Rightarrow> kstat \<Rightarrow> wqsys \<Rightarrow> wqsys" where
  "worker_task env q ret s = (let s1 = worker_get q ret s in case work_current (wqs s1 q) of
       None \<Rightarrow> worker_done q s1
     | Some w \<Rightarrow> worker_done q (env (work_handle (works s1 w)) (work_arg (works s1 w)) s1))"

text \<open>The fields that the creation sets, and the entry in the list of queues; other tasks may run between these parts.\<close>

definition workqueue_new :: "wqid \<Rightarrow> wqsys \<Rightarrow> wqsys" where
  "workqueue_new q s = upd_wq q (\<lambda>x. x\<lparr>work_list := [], work_current := None\<rparr>) s"

definition workqueue_register :: "wqid \<Rightarrow> wqsys \<Rightarrow> wqsys" where
  "workqueue_register q s = critical (\<lambda>s. s\<lparr>g_workqueue_list_head := g_workqueue_list_head s @ [q]\<rparr>) s"

definition workqueue_unregister :: "wqid \<Rightarrow> wqsys \<Rightarrow> wqsys" where
  "workqueue_unregister q s = critical (\<lambda>s. s\<lparr>g_workqueue_list_head := remove1 q (g_workqueue_list_head s)\<rparr>) s"

definition krhino_workqueue_create :: "wqid option \<Rightarrow> string option \<Rightarrow> nat \<Rightarrow> nat option \<Rightarrow> nat \<Rightarrow> wqsys \<Rightarrow> wqsys \<times> kstat" where
  "krhino_workqueue_create workqueue name pri stack_buf stack_sz s = (case (workqueue, name, stack_buf) of
     (Some q, Some nm, Some stk) \<Rightarrow>
       if pri \<ge> RHINO_CONFIG_PRI_MAX then (s, RHINO_BEYOND_MAX_PRI)
       else if stack_sz = 0 then (s, RHINO_TASK_INV_STACK_SIZE)
       else (case workqueue_is_exist q s of (s1, ret) \<Rightarrow>
         if ret = RHINO_WORKQUEUE_EXIST then (s1, RHINO_WORKQUEUE_EXIST)
         else (let s2 = workqueue_new q s1 in
           case krhino_sem_create (Some (wsem (wqs s2 q))) (Some ''WORKQUEUE-SEM'') 0 (wkern s2) of (k3, ret) \<Rightarrow>
             (let s3 = on_kernel (\<lambda>_. k3) s2 in
              if ret \<noteq> RHINO_SUCCESS then (s3, ret)
              else (let s4 = workqueue_register q s3 in
                case krhino_task_create (Some (worker (wqs s4 q))) name pri 0 stack_buf stack_sz True True (wkern s4) of (k5, ret) \<Rightarrow>
                  (let s5 = on_kernel (\<lambda>_. k5) s4 in
                   if ret \<noteq> RHINO_SUCCESS
                   then (let s6 = workqueue_unregister q s5
                         in (on_kernel (\<lambda>k. fst (krhino_sem_del (Some (wsem (wqs s6 q))) k)) s6, ret))
                   else (s5, RHINO_SUCCESS))))))
   | _ \<Rightarrow> (s, RHINO_NULL_PTR))"

text \<open>
  The deletion leaves its critical section between the check that the queue is idle and the deletion of the worker; these are its two parts.
  \<open>RHINO_SUCCESS\<close> of the first one means that the call goes on.
\<close>

definition workqueue_del_check :: "wqid \<Rightarrow> wqsys \<Rightarrow> wqsys \<times> kstat" where
  "workqueue_del_check q s = (case workqueue_is_exist q s of (s1, ret) \<Rightarrow>
     if ret = RHINO_WORKQUEUE_NOT_EXIST then (s1, RHINO_WORKQUEUE_NOT_EXIST)
     else (let s2 = critical (\<lambda>s. s) s1 in
       if work_list (wqs s2 q) \<noteq> [] then (s2, RHINO_WORKQUEUE_BUSY)
       else if work_current (wqs s2 q) \<noteq> None then (s2, RHINO_WORKQUEUE_BUSY)
       else (s2, RHINO_SUCCESS)))"

definition workqueue_del_rest :: "wqid \<Rightarrow> wqsys \<Rightarrow> wqsys \<times> kstat" where
  "workqueue_del_rest q s = (case krhino_task_del (Some (worker (wqs s q))) (wkern s) of (k3, ret) \<Rightarrow>
     (let s3 = on_kernel (\<lambda>_. k3) s in
      if ret \<noteq> RHINO_SUCCESS then (s3, ret)
      else (case krhino_sem_del (Some (wsem (wqs s3 q))) (wkern s3) of (k4, ret) \<Rightarrow>
        (let s4 = on_kernel (\<lambda>_. k4) s3 in
         if ret \<noteq> RHINO_SUCCESS then (s4, ret) else (workqueue_unregister q s4, RHINO_SUCCESS)))))"

definition krhino_workqueue_del :: "wqid option \<Rightarrow> wqsys \<Rightarrow> wqsys \<times> kstat" where
  "krhino_workqueue_del workqueue s = (case workqueue of None \<Rightarrow> (s, RHINO_NULL_PTR) | Some q \<Rightarrow>
     (case workqueue_del_check q s of (s1, ret) \<Rightarrow> if ret \<noteq> RHINO_SUCCESS then (s1, ret) else workqueue_del_rest q s1))"

text \<open>The common tail of \<open>work_timer_cb\<close> and \<open>krhino_work_run\<close>: the work goes to the end of the list.\<close>

definition work_enqueue :: "wqid \<Rightarrow> wid \<Rightarrow> wqsys \<Rightarrow> wqsys" where
  "work_enqueue q w s = (let s1 = work_unlink w s; s2 = upd_wq q (\<lambda>x. x\<lparr>work_list := work_list x @ [w]\<rparr>) s1
     in upd_work w (\<lambda>x. x\<lparr>work_wq := Some q, work_exit := True\<rparr>) s2)"

text \<open>The callback reads the work from the timer before its critical section.\<close>

definition work_timer_put :: "wqid \<Rightarrow> wid \<Rightarrow> wqsys \<Rightarrow> wqsys" where
  "work_timer_put q w s = (if work_current (wqs s q) = Some w then critical (\<lambda>s. s) s
     else if work_exit (works s w) then critical (\<lambda>s. s) s
     else (let s1 = critical (work_enqueue q w) s in on_kernel (\<lambda>k. fst (krhino_sem_give (Some (wsem (wqs s1 q))) k)) s1))"

definition work_timer_cb :: "tmid \<Rightarrow> wqid \<Rightarrow> wqsys \<Rightarrow> wqsys" where
  "work_timer_cb timer q s = work_timer_put q (timer_priv s timer) s"

definition krhino_work_init :: "u8 list \<Rightarrow> nat \<Rightarrow> wid option \<Rightarrow> nat option \<Rightarrow> u32 \<Rightarrow> u64 \<Rightarrow> tmid option \<Rightarrow> wqsys \<Rightarrow> wqsys \<times> kstat" where
  "krhino_work_init junk cb_addr work handle arg dly alloc s = (case (work, handle) of
     (Some w, Some h) \<Rightarrow>
       (let s1 = upd_work w (\<lambda>x. \<lparr>work_handle = h, work_arg = arg, work_dly = dly, work_timer = None, work_wq = None, work_exit = False\<rparr>) s in
        if dly > 0
        then (case krhino_timer_dyn_create junk True alloc (Some ''WORK-TIMER'') (Some cb_addr) dly 0 w False (wts s1) of (t2, ret, out) \<Rightarrow>
                (let s2 = s1\<lparr>wts := t2\<rparr> in
                 if ret \<noteq> RHINO_SUCCESS then (s2, ret)
                 else (upd_work w (\<lambda>x. x\<lparr>work_timer := out\<rparr>) s2, RHINO_SUCCESS)))
        else (s1, RHINO_SUCCESS))
   | _ \<Rightarrow> (s, RHINO_NULL_PTR))"

definition krhino_work_run :: "u8 list \<Rightarrow> wqid option \<Rightarrow> wid option \<Rightarrow> wqsys \<Rightarrow> wqsys \<times> kstat" where
  "krhino_work_run junk workqueue work s = (case (workqueue, work) of
     (Some q, Some w) \<Rightarrow>
       if work_dly (works s w) = 0 then
         (if work_current (wqs s q) = Some w then (critical (\<lambda>s. s) s, RHINO_WORKQUEUE_WORK_RUNNING)
          else if work_exit (works s w) then (critical (\<lambda>s. s) s, RHINO_WORKQUEUE_WORK_EXIST)
          else (let s1 = critical (work_enqueue q w) s in
            case krhino_sem_give (Some (wsem (wqs s1 q))) (wkern s1) of (k2, ret) \<Rightarrow>
              (on_kernel (\<lambda>_. k2) s1, if ret \<noteq> RHINO_SUCCESS then ret else RHINO_SUCCESS)))
       else (case work_timer (works s w) of
           None \<Rightarrow> (on_kernel (fault KNull) s, RHINO_NULL_PTR)
         | Some t \<Rightarrow>
             (let s1 = critical (\<lambda>s. s\<lparr>timer_priv := (timer_priv s)(t := w)\<rparr>) s in
              case krhino_timer_arg_change_auto junk (Some t) q (wkern s1) of (k2, ret) \<Rightarrow>
                (on_kernel (\<lambda>_. k2) s1, if ret \<noteq> RHINO_SUCCESS then ret else RHINO_SUCCESS)))
   | _ \<Rightarrow> (s, RHINO_NULL_PTR))"

definition g_workqueue_default :: wqid where
  "g_workqueue_default = 1"

definition krhino_work_sched :: "u8 list \<Rightarrow> wid option \<Rightarrow> wqsys \<Rightarrow> wqsys \<times> kstat" where
  "krhino_work_sched junk work s = krhino_work_run junk (Some g_workqueue_default) work s"

text \<open>The queue is read before the critical section of \<open>krhino_work_cancel\<close>; this is the section.\<close>

definition work_cancel_at :: "wqid \<Rightarrow> wid \<Rightarrow> wqsys \<Rightarrow> wqsys \<times> kstat" where
  "work_cancel_at q w s =
     (if work_current (wqs s q) = Some w then (critical (\<lambda>s. s) s, RHINO_WORKQUEUE_WORK_RUNNING)
      else if work_exit (works s w) then (critical (\<lambda>s. s) s, RHINO_WORKQUEUE_WORK_EXIST)
      else (critical (\<lambda>s. upd_work w (\<lambda>x. x\<lparr>work_wq := None\<rparr>) (work_unlink w s)) s, RHINO_SUCCESS))"

definition krhino_work_cancel :: "u8 list \<Rightarrow> wid option \<Rightarrow> wqsys \<Rightarrow> wqsys \<times> kstat" where
  "krhino_work_cancel junk work s = (case work of None \<Rightarrow> (s, RHINO_NULL_PTR) | Some w \<Rightarrow>
     (case work_wq (works s w) of
        None \<Rightarrow> (if work_dly (works s w) > 0
                 then on_kernel (\<lambda>k. fst (krhino_timer_stop junk (work_timer (works s w)) k)) s else s, RHINO_SUCCESS)
      | Some q \<Rightarrow> work_cancel_at q w s))"

definition RHINO_CONFIG_WORKQUEUE_TASK_PRIO :: nat where "RHINO_CONFIG_WORKQUEUE_TASK_PRIO = 9"
definition RHINO_CONFIG_WORKQUEUE_STACK_SIZE :: nat where "RHINO_CONFIG_WORKQUEUE_STACK_SIZE = 512"

definition workqueue_init :: "nat \<Rightarrow> wqsys \<Rightarrow> wqsys" where
  "workqueue_init stk s = fst (krhino_workqueue_create (Some g_workqueue_default) (Some ''DEFAULT-WORKQUEUE'')
     RHINO_CONFIG_WORKQUEUE_TASK_PRIO (Some stk) RHINO_CONFIG_WORKQUEUE_STACK_SIZE (s\<lparr>g_workqueue_list_head := []\<rparr>))"

section \<open>Facts\<close>

lemma on_kernel_simps [simp]:
  "works (on_kernel f s) = works s" "wqs (on_kernel f s) = wqs s" "g_workqueue_list_head (on_kernel f s) = g_workqueue_list_head s"
  "timer_priv (on_kernel f s) = timer_priv s" "wkern (on_kernel f s) = f (wkern s)"
  "on_kernel g (on_kernel f s) = on_kernel (\<lambda>k. g (f k)) s"
  by (simp_all add: on_kernel_def upd_kern_def)

lemma upd_wq_simps [simp]:
  "works (upd_wq q f s) = works s" "wqs (upd_wq q f s) = (wqs s)(q := f (wqs s q))" "g_workqueue_list_head (upd_wq q f s) = g_workqueue_list_head s"
  "works (upd_work w g s) = (works s)(w := g (works s w))" "wqs (upd_work w g s) = wqs s"
  "g_workqueue_list_head (upd_work w g s) = g_workqueue_list_head s"
  "works (work_unlink w s) = works s" "g_workqueue_list_head (work_unlink w s) = g_workqueue_list_head s"
  "work_list (wqs (work_unlink w s) q) = remove1 w (work_list (wqs s q))" "work_current (wqs (work_unlink w s) q) = work_current (wqs s q)"
  "wsem (wqs (work_unlink w s) q) = wsem (wqs s q)"
  by (simp_all add: upd_wq_def upd_work_def work_unlink_def)

text \<open>
  The invariant: every queued work is on exactly one list, once, knows its queue and is marked; a marked work is queued; the work a
  worker is executing is not on its list.
\<close>

definition wq_inv :: "wqsys \<Rightarrow> bool" where
  "wq_inv s \<longleftrightarrow> (\<forall>q. distinct (work_list (wqs s q)))
     \<and> (\<forall>q w. w \<in> set (work_list (wqs s q)) \<longrightarrow> work_exit (works s w) \<and> work_wq (works s w) = Some q)
     \<and> (\<forall>w. work_exit (works s w) \<longrightarrow> (\<exists>q. w \<in> set (work_list (wqs s q))))
     \<and> (\<forall>q w. work_current (wqs s q) = Some w \<longrightarrow> w \<notin> set (work_list (wqs s q)))"

text \<open>It does not speak of the kernel, the timers and the list of queues.\<close>

lemma wq_inv_cong:
  "works s' = works s \<Longrightarrow> wqs s' = wqs s \<Longrightarrow> wq_inv s' = wq_inv s"
  by (simp add: wq_inv_def)

lemma wq_inv_kernel [simp]: "wq_inv (on_kernel f s) = wq_inv s" "wq_inv (s\<lparr>wts := t\<rparr>) = wq_inv s" "wq_inv (s\<lparr>timer_priv := p\<rparr>) = wq_inv s"
  "wq_inv (s\<lparr>g_workqueue_list_head := h\<rparr>) = wq_inv s"
  by (simp_all add: wq_inv_def)

lemma wq_inv_critical: "(\<And>s. wq_inv s \<Longrightarrow> P s \<Longrightarrow> wq_inv (f s)) \<Longrightarrow> wq_inv s \<Longrightarrow> P (on_kernel RHINO_CRITICAL_ENTER s) \<Longrightarrow> wq_inv (critical f s)"
  by (simp add: critical_def Let_def)

lemma critical_simps [simp]:
  "works (critical (\<lambda>s. s) s) = works s" "wqs (critical (\<lambda>s. s) s) = wqs s"
  "g_workqueue_list_head (critical (\<lambda>s. s) s) = g_workqueue_list_head s" "wq_inv (critical (\<lambda>s. s) s) = wq_inv s"
  by (simp_all add: critical_def Let_def)

lemma critical_fields:
  "works (critical f s) = works (f (on_kernel RHINO_CRITICAL_ENTER s))" "wqs (critical f s) = wqs (f (on_kernel RHINO_CRITICAL_ENTER s))"
  "g_workqueue_list_head (critical f s) = g_workqueue_list_head (f (on_kernel RHINO_CRITICAL_ENTER s))"
  "wq_inv (critical f s) = wq_inv (f (on_kernel RHINO_CRITICAL_ENTER s))"
  by (simp_all add: critical_def Let_def)

lemma not_queued: "wq_inv s \<Longrightarrow> \<not> work_exit (works s w) \<Longrightarrow> w \<notin> set (work_list (wqs s q))"
  by (auto simp: wq_inv_def)

lemma enqueue_inv:
  assumes i: "wq_inv s" and w: "\<not> work_exit (works s w)" "work_current (wqs s q) \<noteq> Some w"
  shows "wq_inv (work_enqueue q w s)"
proof -
  have n: "w \<notin> set (work_list (wqs s p))" for p using not_queued [OF i w(1)] .
  then have l: "work_list (wqs (work_enqueue q w s) p) = work_list (wqs s p) @ (if p = q then [w] else [])"
    "work_current (wqs (work_enqueue q w s) p) = work_current (wqs s p)" for p
    by (simp_all add: work_enqueue_def Let_def remove1_idem)
  have f: "works (work_enqueue q w s) = (works s)(w := (works s w)\<lparr>work_wq := Some q, work_exit := True\<rparr>)"
    "g_workqueue_list_head (work_enqueue q w s) = g_workqueue_list_head s" by (simp_all add: work_enqueue_def Let_def)
  show ?thesis using i w n unfolding wq_inv_def l f by (auto split: if_splits)
qed

lemma worker_get_inv:
  assumes "wq_inv s"
  shows "wq_inv (worker_get q ret s)"
proof -
  have "wq_inv (case work_list (wqs s q) of [] \<Rightarrow> on_kernel (fault KNull) s
       | w # ws \<Rightarrow> upd_work w (\<lambda>x. x\<lparr>work_exit := False\<rparr>) (upd_wq q (\<lambda>x. x\<lparr>work_current := Some w\<rparr>) (work_unlink w s)))"
    if i: "wq_inv s" for s
  proof (cases "work_list (wqs s q)")
    case (Cons w ws)
    let ?s = "upd_work w (\<lambda>x. x\<lparr>work_exit := False\<rparr>) (upd_wq q (\<lambda>x. x\<lparr>work_current := Some w\<rparr>) (work_unlink w s))"
    have o: "w \<notin> set (work_list (wqs s p))" if "p \<noteq> q" for p
      using i Cons that unfolding wq_inv_def by (metis list.set_intros(1) option.inject)
    have d: "distinct (work_list (wqs s p))" for p using i by (simp add: wq_inv_def)
    have l: "work_list (wqs ?s p) = (if p = q then ws else work_list (wqs s p))" for p
      using Cons o [of p] by (auto simp: remove1_idem)
    have c: "work_current (wqs ?s p) = (if p = q then Some w else work_current (wqs s p))" for p by simp
    have m: "works ?s = (works s)(w := (works s w)\<lparr>work_exit := False\<rparr>)" "g_workqueue_list_head ?s = g_workqueue_list_head s" by simp_all
    have nw: "w \<notin> set ws" "distinct ws" using d [of q] Cons by simp_all
    have e: "work_exit (works s v) \<and> work_wq (works s v) = Some q" if "v \<in> set ws" for v
    proof -
      have "v \<in> set (work_list (wqs s q))" using Cons that by simp
      then show ?thesis using i unfolding wq_inv_def by blast
    qed
    have x: "\<exists>p. v \<in> set (if p = q then ws else work_list (wqs s p))" if xv: "work_exit (works s v)" "v \<noteq> w" for v
    proof -
      obtain p where "v \<in> set (work_list (wqs s p))" using i xv(1) by (auto simp: wq_inv_def)
      then show ?thesis using Cons xv(2) by (intro exI [of _ p]) auto
    qed
    have "wq_inv ?s" unfolding wq_inv_def l c m
    proof (intro conjI allI impI)
      fix p v assume "v \<in> set (if p = q then ws else work_list (wqs s p))"
      then show "work_exit (((works s)(w := (works s w)\<lparr>work_exit := False\<rparr>)) v)" "work_wq (((works s)(w := (works s w)\<lparr>work_exit := False\<rparr>)) v) = Some p"
        using e [of v] nw o [of p] i by (auto simp: wq_inv_def split: if_splits)
    next
      fix v assume "work_exit (((works s)(w := (works s w)\<lparr>work_exit := False\<rparr>)) v)"
      then have "work_exit (works s v)" "v \<noteq> w" by (simp_all split: if_splits)
      then show "\<exists>p. v \<in> set (if p = q then ws else work_list (wqs s p))" by (rule x)
    qed (use i o nw d x in \<open>auto simp: wq_inv_def split: if_splits\<close>)
    then show ?thesis by (simp add: Cons)
  qed (simp add: i)
  then show ?thesis unfolding worker_get_def Let_def critical_fields(4) using assms by (simp only: wq_inv_kernel(1) split: if_split) simp
qed

lemma work_run_inv: "wq_inv s \<Longrightarrow> wq_inv (fst (krhino_work_run junk workqueue work s))"
  using enqueue_inv by (auto simp: krhino_work_run_def Let_def split_beta critical_fields(4) split: option.split)

lemma timer_put_inv: "wq_inv s \<Longrightarrow> wq_inv (work_timer_put q w s)"
  using enqueue_inv by (auto simp: work_timer_put_def Let_def critical_fields(4))

lemma cancel_at_inv:
  assumes i: "wq_inv s"
  shows "wq_inv (fst (work_cancel_at q w s))"
proof -
  have "wq_inv (upd_work w (\<lambda>x. x\<lparr>work_wq := None\<rparr>) (work_unlink w s))" if "wq_inv s" "\<not> work_exit (works s w)" for s w
  proof -
    have "work_list (wqs (work_unlink w s) p) = work_list (wqs s p)" for p using not_queued [OF that] by (simp add: remove1_idem)
    then show ?thesis using that not_queued [OF that] by (auto simp: wq_inv_def)
  qed
  then show ?thesis using i by (auto simp: work_cancel_at_def critical_fields(4))
qed

lemma work_cancel_inv: "wq_inv s \<Longrightarrow> wq_inv (fst (krhino_work_cancel junk work s))"
  using cancel_at_inv by (auto simp: krhino_work_cancel_def split: option.split)

lemma work_init_inv:
  assumes i: "wq_inv s" and w: "\<forall>w. work = Some w \<longrightarrow> \<not> work_exit (works s w)"
  shows "wq_inv (fst (krhino_work_init junk cba work handle arg dly alloc s))"
proof -
  have "wq_inv (upd_work w f s)" if "wq_inv s" "\<not> work_exit (works s w)" "\<And>x. \<not> work_exit (f x)" for w f s
    using that not_queued [OF that(1,2)] by (auto simp: wq_inv_def)
  moreover have "wq_inv (upd_work w f s)" if "wq_inv s" "\<And>x. work_exit (f x) = work_exit x \<and> work_wq (f x) = work_wq x" for w f s
    using that by (auto simp: wq_inv_def)
  ultimately show ?thesis using i w by (auto simp: krhino_work_init_def Let_def split_beta split: option.split)
qed

lemma exist_simps [simp]:
  "works (fst (workqueue_is_exist q s)) = works s" "wqs (fst (workqueue_is_exist q s)) = wqs s"
  "g_workqueue_list_head (fst (workqueue_is_exist q s)) = g_workqueue_list_head s" "wq_inv (fst (workqueue_is_exist q s)) = wq_inv s"
  "snd (workqueue_is_exist q s) = (if q \<in> set (g_workqueue_list_head s) then RHINO_WORKQUEUE_EXIST else RHINO_WORKQUEUE_NOT_EXIST)"
  by (simp_all add: workqueue_is_exist_def)

text \<open>\<open>no_marked q s\<close>: no work is marked as queued on \<open>q\<close>. Then the creation of \<open>q\<close> loses nothing.\<close>

definition no_marked :: "wqid \<Rightarrow> wqsys \<Rightarrow> bool" where
  "no_marked q s \<longleftrightarrow> (\<forall>w. work_exit (works s w) \<longrightarrow> work_wq (works s w) \<noteq> Some q)"

lemma no_marked_empty: "wq_inv s \<Longrightarrow> no_marked q s \<Longrightarrow> work_list (wqs s q) = []"
  unfolding wq_inv_def no_marked_def by (metis list.set_sel(1))

lemma workqueue_new_inv:
  assumes "wq_inv s" "no_marked q s"
  shows "wq_inv (workqueue_new q s)"
proof -
  have n: "work_list (wqs s q) = []" using no_marked_empty [OF assms] .
  have l: "work_list (wqs (workqueue_new q s) p) = work_list (wqs s p)" "works (workqueue_new q s) = works s"
    "work_current (wqs (workqueue_new q s) p) = (if p = q then None else work_current (wqs s p))" for p
    by (simp_all add: workqueue_new_def n)
  show ?thesis using assms(1) unfolding wq_inv_def l by (simp split: if_splits)
qed

section \<open>Works and workers as a transition system\<close>

text \<open>
  A step is a part of a call that changes the lists, the works or the list of queues, or anything that happens in the kernel and the timers, the rest of
  these calls included (\<open>wq_kernel\<close>). The parts of \<open>krhino_workqueue_create\<close> and \<open>krhino_workqueue_del\<close> are steps of their own, so that other
  tasks run between them, and even without the checks that come first. Obligations: a work that is queued is not initialised again, and a queue is not created
  (again) while a work is marked as queued on it.
\<close>

inductive wq_step :: "wqsys \<Rightarrow> wqsys \<Rightarrow> bool" where
  wq_exist: "wq_step s (fst (workqueue_is_exist q s))"
| wq_new: "no_marked q s \<Longrightarrow> wq_step s (workqueue_new q s)"
| wq_register: "wq_step s (workqueue_register q s)"
| wq_unregister: "wq_step s (workqueue_unregister q s)"
| wq_busy: "wq_step s (critical (\<lambda>s. s) s)"
| wq_init: "\<forall>w. work = Some w \<longrightarrow> \<not> work_exit (works s w) \<Longrightarrow> wq_step s (fst (krhino_work_init junk cba work handle arg dly alloc s))"
| wq_init_timer: "wq_step s (upd_work w (\<lambda>x. x\<lparr>work_timer := t\<rparr>) s)"
| wq_run: "wq_step s (fst (krhino_work_run junk workqueue work s))"
| wq_sched: "wq_step s (fst (krhino_work_sched junk work s))"
| wq_cancel: "wq_step s (fst (krhino_work_cancel junk work s))"
| wq_cancel_at: "wq_step s (fst (work_cancel_at q w s))"
| wq_timer: "wq_step s (work_timer_put q w s)"
| wq_get: "wq_step s (worker_get q ret s)"
| wq_done: "wq_step s (worker_done q s)"
| wq_kernel: "wq_step s (s\<lparr>wts := t\<rparr>)"

lemma wq_step_inv: "wq_step s s' \<Longrightarrow> wq_inv s \<Longrightarrow> wq_inv s'"
proof (induction rule: wq_step.induct)
  case (wq_sched s junk work)
  then show ?case unfolding krhino_work_sched_def by (intro work_run_inv)
next
  case (wq_done s q)
  have "wq_inv (upd_wq q (\<lambda>x. x\<lparr>work_current := None\<rparr>) s)" if "wq_inv s" for s using that by (auto simp: wq_inv_def)
  then show ?case using wq_done by (simp add: worker_done_def critical_fields(4))
next
  case (wq_init_timer s w t)
  then show ?case by (auto simp: wq_inv_def)
qed (simp_all add: workqueue_new_inv workqueue_register_def workqueue_unregister_def critical_fields(4) work_init_inv work_run_inv work_cancel_inv
    cancel_at_inv timer_put_inv worker_get_inv)

text \<open>The calls are sequences of these steps: a deletion always, a creation when no work is marked as queued on the queue.\<close>

lemma steps_kernel: "wq_step\<^sup>*\<^sup>* s s' \<Longrightarrow> wq_step\<^sup>*\<^sup>* s (on_kernel f s')"
  unfolding on_kernel_def by (erule rtranclp.rtrancl_into_rtrancl) (rule wq_kernel)

lemmas steps_more = rtranclp.rtrancl_into_rtrancl [where r = wq_step]

lemma del_check_steps: "wq_step\<^sup>*\<^sup>* s (fst (workqueue_del_check q s))"
proof -
  have e: "wq_step\<^sup>*\<^sup>* s (fst (workqueue_is_exist q s))" by (intro r_into_rtranclp wq_exist)
  show ?thesis using e steps_more [OF e wq_busy] by (simp add: workqueue_del_check_def split_beta Let_def)
qed

lemma del_rest_steps: "wq_step\<^sup>*\<^sup>* s (fst (workqueue_del_rest q s))"
proof -
  have k: "wq_step\<^sup>*\<^sup>* s (on_kernel f s)" for f by (rule steps_kernel) simp
  then show ?thesis using steps_more [OF k wq_unregister] by (simp add: workqueue_del_rest_def split_beta Let_def)
qed

lemma workqueue_del_steps: "wq_step\<^sup>*\<^sup>* s (fst (krhino_workqueue_del workqueue s))"
  using del_check_steps rtranclp_trans [OF del_check_steps del_rest_steps]
  by (simp add: krhino_workqueue_del_def split_beta split: option.split)

lemma workqueue_create_steps:
  assumes "\<forall>q. workqueue = Some q \<longrightarrow> no_marked q s"
  shows "wq_step\<^sup>*\<^sup>* s (fst (krhino_workqueue_create workqueue name pri stk sz s))"
proof (cases workqueue)
  case (Some q)
  have e: "wq_step\<^sup>*\<^sup>* s (fst (workqueue_is_exist q s))" by (intro r_into_rtranclp wq_exist)
  have "no_marked q (fst (workqueue_is_exist q s))" using assms Some by (simp add: no_marked_def)
  note n = steps_more [OF e wq_new [OF this]]
  have k: "wq_step\<^sup>*\<^sup>* s (on_kernel f (workqueue_new q (fst (workqueue_is_exist q s))))" for f by (rule steps_kernel [OF n])
  have r: "wq_step\<^sup>*\<^sup>* s (on_kernel g (workqueue_register q (on_kernel f (workqueue_new q (fst (workqueue_is_exist q s))))))" for f g
    by (rule steps_kernel [OF steps_more [OF k wq_register]])
  have u: "wq_step\<^sup>*\<^sup>* s (on_kernel h (workqueue_unregister q (on_kernel g (workqueue_register q (on_kernel f (workqueue_new q (fst (workqueue_is_exist q s))))))))" for f g h
    by (rule steps_kernel [OF steps_more [OF r wq_unregister]])
  show ?thesis using e k r u by (auto simp: Some krhino_workqueue_create_def split_beta Let_def split: option.split)
qed (simp add: krhino_workqueue_create_def)

text \<open>The system before \<open>workqueue_init\<close>: no queue, no work.\<close>

definition no_work :: kwork_t where
  "no_work = \<lparr>work_handle = 0, work_arg = 0, work_dly = 0, work_timer = None, work_wq = None, work_exit = False\<rparr>"

definition wq_boot :: wqsys where
  "wq_boot = \<lparr>wts = \<lparr>kern = boot_state, timers = (\<lambda>_. no_timer), g_timer_head = [], g_timer_count = 0, cb_msg = [], tpc = AtCmd, cb_calls = []\<rparr>,
     works = (\<lambda>_. no_work), wqs = (\<lambda>q. \<lparr>work_list = [], work_current = None, worker = 100 + unat q, wsem = 100 + unat q\<rparr>),
     g_workqueue_list_head = [], timer_priv = (\<lambda>_. 0)\<rparr>"

interpretation wq: invariant_system wq_step wq_boot wq_inv
  by (unfold_locales, simp add: wq_inv_def wq_boot_def no_work_def) (rule wq_step_inv)

text \<open>
  C32: In every reachable state each work is on at most one list, and there at most once; it is on one exactly when it is marked as queued, and then it is the list
  of the queue it is assigned to; and the work that a worker is executing is not waiting in the same queue again. The steps interleave the parts of the calls, those of
  the creation and the deletion of a queue included. The callers do not initialise a work again while it is queued, and do not create a queue again while a work is
  marked as queued on it.
\<close>

theorem workqueue_lists_exact:
  assumes "wq_step\<^sup>*\<^sup>* wq_boot s"
  shows "(work_exit (works s w) \<longleftrightarrow> (\<exists>q. w \<in> set (work_list (wqs s q)))) \<and> distinct (work_list (wqs s q))
    \<and> (w \<in> set (work_list (wqs s q)) \<longrightarrow> work_wq (works s w) = Some q \<and> work_current (wqs s q) \<noteq> Some w)"
  using wq.inv_reachable [OF assms] unfolding wq_inv_def by metis

text \<open>After \<open>workqueue_init\<close> the works 3 and 4 are run, and the worker takes the first one.\<close>

definition wq_started :: wqsys where
  "wq_started = workqueue_init 0x900 wq_boot"

definition wq_two :: wqsys where
  "wq_two = fst (krhino_work_sched [] (Some 4) (fst (krhino_work_sched [] (Some 3) wq_started)))"

theorem workqueue_lists_exact_witness:
  "work_exit (works wq_two 3) \<and> work_exit (works wq_two 4) \<and> \<not> work_exit (works (worker_get 1 RHINO_SUCCESS wq_two) 3)
    \<and> work_exit (works (worker_get 1 RHINO_SUCCESS wq_two) 4) \<and> work_wq (works (worker_get 1 RHINO_SUCCESS wq_two) 4) = Some 1"
proof -
  have b: "no_marked q wq_boot" for q by (simp add: no_marked_def wq_boot_def no_work_def)
  have h: "wq_boot\<lparr>g_workqueue_list_head := []\<rparr> = wq_boot" by (simp add: wq_boot_def)
  have r0: "wq_step\<^sup>*\<^sup>* wq_boot wq_started"
    unfolding wq_started_def workqueue_init_def h by (rule workqueue_create_steps) (simp add: b)
  have f0: "works wq_started = works wq_boot" "work_list (wqs wq_started p) = []" "work_current (wqs wq_started p) = None" for p
    unfolding wq_started_def workqueue_init_def h
    by (auto simp: krhino_workqueue_create_def split_beta Let_def workqueue_new_def workqueue_register_def workqueue_unregister_def critical_fields
        wq_boot_def)
  have r: "wq_step\<^sup>*\<^sup>* wq_boot wq_two" unfolding wq_two_def by (rule steps_more [OF steps_more [OF r0 wq_sched] wq_sched])
  have "work_list (wqs wq_two p) = (if p = 1 then [3, 4] else [])" for p
    using f0 by (simp add: wq_two_def krhino_work_sched_def g_workqueue_default_def krhino_work_run_def Let_def split_beta critical_fields work_enqueue_def
        wq_boot_def no_work_def)
  note l = this
  have l': "work_list (wqs (worker_get 1 RHINO_SUCCESS wq_two) p) = (if p = 1 then [4] else [])" for p
    using l by (simp add: worker_get_def critical_fields)
  show ?thesis
    using workqueue_lists_exact [OF r, of 3 1] workqueue_lists_exact [OF r, of 4 1]
      workqueue_lists_exact [OF steps_more [OF r wq_get [where q = 1 and ret = RHINO_SUCCESS]], of 3 1]
      workqueue_lists_exact [OF steps_more [OF r wq_get [where q = 1 and ret = RHINO_SUCCESS]], of 4 1]
    by (simp add: l l')
qed

text \<open>
  The obligation on the creation matters, because a work can be lost between the two parts of a deletion: after the check that the queue is idle another
  task runs a work on it, then the worker is deleted. The work stays marked and is never executed; when the queue is created again, the work is on no list any more and
  still marked, so that every later attempt to run it is refused.
\<close>

theorem workqueue_del_loses_work:
  assumes i: "wq_inv s" and w: "\<not> work_exit (works s w)" "work_dly (works s w) = 0"
    and c: "workqueue_del_check q s = (s1, RHINO_SUCCESS)" and s2: "s2 = fst (krhino_work_run junk (Some q) (Some w) s1)"
    and r: "workqueue_del_rest q s2 = (s3, RHINO_SUCCESS)" and d: "distinct (g_workqueue_list_head s)"
    and a: "pri < RHINO_CONFIG_PRI_MAX" "sz \<noteq> 0" and s4: "s4 = fst (krhino_workqueue_create (Some q) (Some nm) pri (Some stk) sz s3)"
  shows "work_exit (works s4 w) \<and> w \<notin> set (work_list (wqs s4 p))
    \<and> snd (krhino_work_run junk' (Some p) (Some w) s4) \<in> {RHINO_WORKQUEUE_WORK_EXIST, RHINO_WORKQUEUE_WORK_RUNNING}"
proof -
  have e: "q \<in> set (g_workqueue_list_head s)" "work_list (wqs s q) = []" "work_current (wqs s q) = None"
    "works s1 = works s" "wqs s1 = wqs s" "g_workqueue_list_head s1 = g_workqueue_list_head s"
    using c by (auto simp: workqueue_del_check_def split_beta Let_def split: if_splits)
  have n: "w \<notin> set (work_list (wqs s p))" for p using not_queued [OF i w(1)] .
  have f2: "work_exit (works s2 w)" "work_dly (works s2 w) = 0" "work_list (wqs s2 p) = work_list (wqs s p) @ (if p = q then [w] else [])"
    "g_workqueue_list_head s2 = g_workqueue_list_head s" for p
    using w n by (simp_all add: s2 krhino_work_run_def e Let_def split_beta critical_fields work_enqueue_def remove1_idem)
  have f3: "works s3 = works s2" "wqs s3 = wqs s2" "g_workqueue_list_head s3 = remove1 q (g_workqueue_list_head s2)"
    using r by (auto simp: workqueue_del_rest_def split_beta Let_def workqueue_unregister_def critical_fields split: if_splits)
  have "q \<notin> set (g_workqueue_list_head s3)" using d by (simp add: f3 f2)
  then have f4: "works s4 = works s3" "work_list (wqs s4 p) = (if p = q then [] else work_list (wqs s3 p))" for p
    using a by (auto simp: s4 krhino_workqueue_create_def split_beta Let_def workqueue_new_def workqueue_register_def workqueue_unregister_def critical_fields)
  show ?thesis using f2 n by (auto simp: f4 f3 krhino_work_run_def)
qed

text \<open>
  A work queue is a queue: running a work that is neither queued nor being executed by the queue's worker appends it to the list and gives exactly one token to the worker, and a
  worker that has taken a token executes the oldest work; running a work that is already queued, or being executed, is refused with a status that says so, and without a change.
\<close>

theorem workqueue_fifo:
  assumes i: "wq_inv s" and d: "work_dly (works s w) = 0" and r: "krhino_work_run junk (Some q) (Some w) s = (s', ret)"
  shows "(if work_current (wqs s q) = Some w then ret = RHINO_WORKQUEUE_WORK_RUNNING \<and> works s' = works s \<and> wqs s' = wqs s
      else if work_exit (works s w) then ret = RHINO_WORKQUEUE_WORK_EXIST \<and> works s' = works s \<and> wqs s' = wqs s
      else work_list (wqs s' q) = work_list (wqs s q) @ [w] \<and> (\<forall>p. p \<noteq> q \<longrightarrow> work_list (wqs s' p) = work_list (wqs s p))
        \<and> (wkern s', ret) = krhino_sem_give (Some (wsem (wqs s q))) (RHINO_CRITICAL_EXIT (irq_off (wkern s)) (RHINO_CRITICAL_ENTER (wkern s))))
    \<and> (case work_list (wqs s q) of [] \<Rightarrow> True
       | x # xs \<Rightarrow> work_current (wqs (worker_get q RHINO_SUCCESS s) q) = Some x \<and> work_list (wqs (worker_get q RHINO_SUCCESS s) q) = xs)"
proof -
  have "work_list (wqs (critical (work_enqueue q w) s) p) = work_list (wqs s p) @ (if p = q then [w] else [])
    \<and> wsem (wqs (critical (work_enqueue q w) s) p) = wsem (wqs s p)" if "\<not> work_exit (works s w)" for p
    using not_queued [OF i that] by (simp add: critical_fields work_enqueue_def Let_def remove1_idem)
  moreover have "wkern (critical (work_enqueue q w) s) = RHINO_CRITICAL_EXIT (irq_off (wkern s)) (RHINO_CRITICAL_ENTER (wkern s))"
    by (simp add: critical_def Let_def work_enqueue_def upd_work_def upd_wq_def work_unlink_def on_kernel_def)
  moreover have "case work_list (wqs s q) of [] \<Rightarrow> True
       | x # xs \<Rightarrow> work_current (wqs (worker_get q RHINO_SUCCESS s) q) = Some x \<and> work_list (wqs (worker_get q RHINO_SUCCESS s) q) = xs"
    by (simp add: worker_get_def critical_fields split: list.split)
  moreover obtain k st where "krhino_sem_give (Some (wsem (wqs s q))) (RHINO_CRITICAL_EXIT (irq_off (wkern s)) (RHINO_CRITICAL_ENTER (wkern s))) = (k, st)"
    by (cases "krhino_sem_give (Some (wsem (wqs s q))) (RHINO_CRITICAL_EXIT (irq_off (wkern s)) (RHINO_CRITICAL_ENTER (wkern s)))")
  ultimately show ?thesis using d r by (auto simp: krhino_work_run_def Let_def split: if_splits)
qed

theorem workqueue_fifo_witness:
  "work_list (wqs (fst (krhino_work_run [] (Some 1) (Some 3) wq_boot)) 1) = [3]"
proof -
  have i: "wq_inv wq_boot" using wq.inv_init .
  have f: "work_dly (works wq_boot 3) = 0" "work_current (wqs wq_boot 1) = None" "\<not> work_exit (works wq_boot 3)" "work_list (wqs wq_boot 1) = []"
    by (simp_all add: wq_boot_def no_work_def)
  obtain s' ret where r: "krhino_work_run [] (Some 1) (Some 3) wq_boot = (s', ret)" by (cases "krhino_work_run [] (Some 1) (Some 3) wq_boot")
  show ?thesis using workqueue_fifo [OF i f(1) r] by (simp add: r f)
qed

text \<open>
  Cancelling does not work: a queued work is never taken from its list, the call returns \<open>RHINO_WORKQUEUE_WORK_EXIST\<close>; and a delayed work that has been executed
  before, and whose timer has been started again, is reported as cancelled without a command to the timer, which will run it all the same.
\<close>

theorem work_cancel_ineffective:
  assumes i: "wq_inv s"
  shows "w \<in> set (work_list (wqs s q)) \<Longrightarrow> snd (krhino_work_cancel junk (Some w) s) = RHINO_WORKQUEUE_WORK_EXIST \<and> wqs (fst (krhino_work_cancel junk (Some w) s)) = wqs s"
    "work_wq (works s w) = Some q \<Longrightarrow> work_current (wqs s q) \<noteq> Some w \<Longrightarrow> \<not> work_exit (works s w) \<Longrightarrow>
      snd (krhino_work_cancel junk (Some w) s) = RHINO_SUCCESS \<and> timers (wts (fst (krhino_work_cancel junk (Some w) s))) = timers (wts s)
      \<and> buf_queues (wkern (fst (krhino_work_cancel junk (Some w) s))) = buf_queues (wkern s)"
proof -
  assume "w \<in> set (work_list (wqs s q))"
  then have "work_exit (works s w)" "work_wq (works s w) = Some q" "work_current (wqs s q) \<noteq> Some w" using i by (auto simp: wq_inv_def)
  then show "snd (krhino_work_cancel junk (Some w) s) = RHINO_WORKQUEUE_WORK_EXIST \<and> wqs (fst (krhino_work_cancel junk (Some w) s)) = wqs s"
    by (simp add: krhino_work_cancel_def work_cancel_at_def)
qed (simp add: krhino_work_cancel_def work_cancel_at_def critical_def Let_def on_kernel_def upd_work_def work_unlink_def upd_kern_def)

end
