(* ===== verification/Timer_Run.thy ===== *)
theory Timer_Run
  imports Timer_Expiry
begin

text \<open>
  The timers as a transition system. The timer task goes from one part of its loops to the next; between two parts anything else may
  happen: kernel calls of other tasks, interrupts and ticks, commands, the creation of timers. There is no bound on the loops here and no assumption
  on how late the task runs.
\<close>

section \<open>The steps\<close>

text \<open>
  Where the timer task is: in one of its receives (which one is \<open>tpc\<close>), at the head of the inner loop, or in the loop of
  \<open>timer_cb_proc\<close> at a timer, \<open>None\<close> at the end of the list.
\<close>

datatype timer_ctl = Receiving | Turning | Passing "tmid option"

definition first_timer :: "tsys \<Rightarrow> tmid option" where
  "first_timer s = (case g_timer_head s of [] \<Rightarrow> None | t # ts \<Rightarrow> Some t)"

text \<open>The memory at \<open>t\<close> holds no live timer.\<close>

definition no_live_timer :: "tsys \<Rightarrow> tmid option \<Rightarrow> bool" where
  "no_live_timer s t \<longleftrightarrow> (\<forall>x. t = Some x \<longrightarrow> tmr_obj_type (timers s x) \<noteq> RHINO_TIMER_OBJ_TYPE)"

inductive timer_step :: "cb_env \<Rightarrow> tsys \<times> timer_ctl \<Rightarrow> tsys \<times> timer_ctl \<Rightarrow> bool" for env where
  ts_kernel: "kernel_step (kern s) k \<Longrightarrow> timer_step env (s, c) (s\<lparr>kern := k\<rparr>, c)"
| ts_start: "timer_step env (s, c) (s\<lparr>kern := fst (krhino_timer_start junk t (kern s))\<rparr>, c)"
| ts_stop: "timer_step env (s, c) (s\<lparr>kern := fst (krhino_timer_stop junk t (kern s))\<rparr>, c)"
| ts_change: "timer_step env (s, c) (s\<lparr>kern := fst (krhino_timer_change junk t fst_ticks rnd (kern s))\<rparr>, c)"
| ts_arg_change: "timer_step env (s, c) (s\<lparr>kern := fst (krhino_timer_arg_change junk t a (kern s))\<rparr>, c)"
| ts_arg_change_auto: "timer_step env (s, c) (s\<lparr>kern := fst (krhino_timer_arg_change_auto junk t a (kern s))\<rparr>, c)"
| ts_del: "timer_step env (s, c) (s\<lparr>kern := fst (krhino_timer_del junk t (kern s))\<rparr>, c)"
| ts_dyn_del: "timer_step env (s, c) (s\<lparr>kern := fst (krhino_timer_dyn_del junk t (kern s))\<rparr>, c)"
| ts_create: "no_live_timer s t \<Longrightarrow>
      timer_step env (s, c) (fst (krhino_timer_create junk t nm cbk fst_ticks rnd a auto_run s), c)"
| ts_dyn_create: "no_live_timer s t \<Longrightarrow>
      timer_step env (s, c) (fst (krhino_timer_dyn_create junk out t nm cbk fst_ticks rnd a auto_run s), c)"
| ts_message: "timer_step env (s, Receiving) (s\<lparr>cb_msg := m\<rparr>, Receiving)"
| ts_got_cmd: "tpc s = AtCmd \<Longrightarrow> timer_step env (s, Receiving) (timer_got_cmd err s, Turning)"
| ts_got_delay: "tpc s = AtDelay \<Longrightarrow>
      timer_step env (s, Receiving) (timer_got_delay err s, Passing (first_timer (timer_got_delay err s)))"
| ts_fire: "sint (match (timers s t) - g_timer_count s) \<le> 0 \<Longrightarrow>
      timer_step env (s, Passing (Some t)) (fst (timer_fire env t s), Passing (snd (timer_fire env t s)))"
| ts_not_due: "\<not> sint (match (timers s t) - g_timer_count s) \<le> 0 \<Longrightarrow> timer_step env (s, Passing (Some t)) (s, Turning)"
| ts_list_end: "timer_step env (s, Passing None) (s, Turning)"
| ts_idle: "g_timer_head s = [] \<Longrightarrow> timer_step env (s, Turning) (s\<lparr>tpc := AtCmd\<rparr>, Receiving)"
| ts_wait: "g_timer_head s = t # ts \<Longrightarrow> krhino_sys_tick_get (kern s) = (k, tick_start) \<Longrightarrow> sint (match (timers s t) - tick_start) > 0 \<Longrightarrow>
      timer_step env (s, Turning) (s\<lparr>kern := k, tpc := AtDelay\<rparr>, Receiving)"
| ts_due: "g_timer_head s = t # ts \<Longrightarrow> krhino_sys_tick_get (kern s) = (k, tick_start) \<Longrightarrow> \<not> sint (match (timers s t) - tick_start) > 0 \<Longrightarrow>
      timer_step env (s, Turning) (s\<lparr>kern := k, g_timer_count := tick_start\<rparr>, Passing (Some t))"

section \<open>The invariant\<close>

text \<open>The list is consistent, and the loop of \<open>timer_cb_proc\<close> stands on a timer of the list.\<close>

definition timers_ok :: "tsys \<times> timer_ctl \<Rightarrow> bool" where
  "timers_ok sc \<longleftrightarrow> timer_inv (fst sc) \<and> (\<forall>t. snd sc = Passing (Some t) \<longrightarrow> t \<in> set (g_timer_head (fst sc)))"

lemma timer_inv_new:
  assumes "timer_inv s" "no_live_timer s t"
  shows "timer_inv (fst (timer_create junk t nm cbk f r a auto_run fl s))"
    "g_timer_head (fst (timer_create junk t nm cbk f r a auto_run fl s)) = g_timer_head s"
  using assms by (auto simp: timer_create_def no_live_timer_def timer_inv_def Let_def split_beta split: option.split)

lemma timer_inv_got:
  assumes "timer_inv s"
  shows "timer_inv (timer_got_cmd err s)" "timer_inv (timer_got_delay err s)"
  using assms by (simp_all add: timer_got_cmd_def timer_got_delay_def split_beta Let_def timer_inv_kern timer_inv_timer_cmd_proc)

lemma timer_step_ok:
  assumes "timer_step env sc sc'" "tidy_cb env" "timers_ok sc"
  shows "timers_ok sc'"
  using assms(1,3)
proof cases
  case (ts_create s t c junk nm cbk f r a auto_run)
  then show ?thesis using assms(3) timer_inv_new [of s t junk nm cbk f r a auto_run K_OBJ_STATIC_ALLOC]
    by (auto simp: timers_ok_def krhino_timer_create_def)
next
  case (ts_dyn_create s t c junk out nm cbk f r a auto_run)
  then show ?thesis using assms(3) timer_inv_new [of s t junk nm cbk f r a auto_run K_OBJ_DYN_ALLOC]
    by (auto simp: timers_ok_def krhino_timer_dyn_create_def split_beta timer_inv_kern split: option.split)
next
  case (ts_fire s t)
  then have "timer_inv s" "t \<in> set (g_timer_head s)" using assms(3) by (simp_all add: timers_ok_def)
  from timer_fire_inv [OF this(1) assms(2) this(2) prod.collapse [symmetric]] show ?thesis by (simp add: ts_fire timers_ok_def)
next
  case (ts_got_delay s err)
  then have "timer_inv (timer_got_delay err s)" using assms(3) timer_inv_got(2) by (simp add: timers_ok_def)
  then show ?thesis by (auto simp: ts_got_delay timers_ok_def first_timer_def split: list.splits)
next
  case (ts_message s m)
  then show ?thesis using assms(3) by (simp add: timers_ok_def timer_inv_def)
qed (use assms(3) timer_inv_got(1) in \<open>auto simp: timers_ok_def timer_inv_kern\<close>)

text \<open>The start: the kernel after boot, no timer, the task in its first receive.\<close>

definition timer_boot :: tsys where
  "timer_boot = \<lparr>kern = boot_state, timers = (\<lambda>_. no_timer), g_timer_head = [], g_timer_count = 0, cb_msg = replicate 24 0,
     tpc = AtCmd, cb_calls = []\<rparr>"

definition tidy_step :: "tsys \<times> timer_ctl \<Rightarrow> tsys \<times> timer_ctl \<Rightarrow> bool" where
  "tidy_step sc sc' \<longleftrightarrow> (\<exists>env. tidy_cb env \<and> timer_step env sc sc')"

interpretation timer_system: invariant_system tidy_step "(timer_boot, Receiving)" timers_ok
proof unfold_locales
  show "timers_ok (timer_boot, Receiving)" by (simp add: timers_ok_def timer_inv_def timer_boot_def no_timer_def)
  show "timers_ok sc'" if "tidy_step sc sc'" "timers_ok sc" for sc sc'
    using that timer_step_ok unfolding tidy_step_def by blast
qed

section \<open>The list of active timers\<close>

text \<open>
  C30: At every moment, from the boot of the kernel on, the list of active timers holds exactly the timers that are active, each once: after any
  creation of timers, any commands in any order, any results of the receives and any callbacks, with ticks, interrupts and calls of other tasks between
  the parts of the timer task, and however late the task runs. The loop over the expired timers always stands on a timer of the list. A timer is created in
  memory that holds no live timer, and the callbacks leave the list and the live timers alone (\<open>tidy_cb\<close>).
\<close>

theorem timer_list_consistent:
  assumes "tidy_step\<^sup>*\<^sup>* (timer_boot, Receiving) (s, c)"
  shows "distinct (g_timer_head s)
    \<and> (\<forall>t. t \<in> set (g_timer_head s) \<longleftrightarrow> tmr_obj_type (timers s t) = RHINO_TIMER_OBJ_TYPE \<and> timer_state (timers s t) = TIMER_ACTIVE)
    \<and> (\<forall>t. c = Passing (Some t) \<longrightarrow> t \<in> set (g_timer_head s))"
proof -
  have "timers_ok (s, c)" by (rule timer_system.inv_reachable [OF assms])
  then show ?thesis by (auto simp: timers_ok_def timer_inv_def)
qed

text \<open>A callback that starts its own timer again is one of those allowed.\<close>

definition restart_cb :: "u8 list \<Rightarrow> cb_env" where
  "restart_cb junk c t a s = s\<lparr>kern := fst (krhino_timer_start junk (Some t) (kern s))\<rparr>"

lemma tidy_restart_cb: "tidy_cb (restart_cb junk)"
  by (auto simp: tidy_cb_def restart_cb_def)

text \<open>A timer is created after boot, and the command to start it arrives.\<close>

definition one_created :: tsys where
  "one_created = fst (krhino_timer_create (replicate 24 0) (Some 1) (Some ''t'') (Some 0x800) 10 5 0 False timer_boot)"

definition one_started :: tsys where
  "one_started = timer_got_cmd RHINO_SUCCESS (one_created\<lparr>cb_msg := set_cb_num TIMER_CMD_START (set_timer 1 (replicate 24 0))\<rparr>)"

theorem timer_list_consistent_witness:
  "distinct (g_timer_head one_started) \<and> set (g_timer_head one_started) = {1}"
proof -
  let ?env = "restart_cb (replicate 24 0)"
  have "tidy_step (timer_boot, Receiving) (one_created, Receiving)" unfolding tidy_step_def one_created_def
    using tidy_restart_cb by (intro exI [of _ ?env] conjI ts_create) (simp_all add: no_live_timer_def timer_boot_def no_timer_def)
  moreover have "tidy_step (one_created, Receiving) (one_created\<lparr>cb_msg := m\<rparr>, Receiving)" for m
    unfolding tidy_step_def using tidy_restart_cb by (intro exI [of _ ?env] conjI ts_message)
  moreover have at: "tpc (one_created\<lparr>cb_msg := m\<rparr>) = AtCmd" for m
    by (simp add: one_created_def krhino_timer_create_def timer_create_def timer_boot_def Let_def)
  then have "tidy_step (one_created\<lparr>cb_msg := m\<rparr>, Receiving) (timer_got_cmd RHINO_SUCCESS (one_created\<lparr>cb_msg := m\<rparr>), Turning)" for m
    unfolding tidy_step_def using tidy_restart_cb by (intro exI [of _ ?env] conjI ts_got_cmd)
  ultimately have "tidy_step\<^sup>*\<^sup>* (timer_boot, Receiving) (one_started, Turning)"
    unfolding one_started_def by (meson converse_rtranclp_into_rtranclp r_into_rtranclp)
  note c = timer_list_consistent [OF this]
  have cp: "timer_cmd_proc (set_cb_num 1 (set_timer 1 (replicate 24 0))) = cmd_start 1"
    by (simp add: fun_eq_iff timer_cmd_proc_def cmd_proc_def Let_def)
  have m: "\<not> MAX_TIMER_TICKS \<le> 10" "\<not> MAX_TIMER_TICKS \<le> 5" unfolding max_ticks by code_simp+
  have "timers one_started t = (if t = 1 then \<lparr>to_head = True, cb = 0x800, timer_cb_arg = 0, match = g_tick_count boot_state + 10, remain = 10,
      init_count = 10, round_ticks = 5, tmr_obj_type = RHINO_TIMER_OBJ_TYPE, timer_state = TIMER_ACTIVE,
      tmr_mm_alloc_flag = K_OBJ_STATIC_ALLOC\<rparr> else no_timer)" for t
    using m by (simp add: one_started_def timer_got_cmd_def split_beta Let_def cp cmd_start_def one_created_def krhino_timer_create_def
        timer_create_def timer_boot_def)
  then have "t \<in> set (g_timer_head one_started) \<longleftrightarrow> t = 1" for t using c by (simp add: no_timer_def)
  then show ?thesis using c by blast
qed

end
