(* ===== verification/Sdk_String.thy ===== *)
theory Sdk_String
  imports Rhino_Prelude
begin

unbundle bit_operations_syntax

text \<open>
  String functions of the SDK (\<^verbatim>\<open>sdk/lib/common/string.c\<close>, \<^verbatim>\<open>sdk/lib/common/common.c\<close>): hexadecimal numbers, MAC addresses, splitting a
  command line, and comparison without regard to case. A \<open>char *\<close> is the list of the bytes of the memory it points into, from that address on; reading past the
  end of this list is the result \<open>None\<close>. The functions are the ones the AT commands and the network configuration are parsed with.
\<close>

section \<open>Hexadecimal numbers\<close>

definition hexchr2int :: "u8 \<Rightarrow> int" where
  "hexchr2int c = (if 0x30 \<le> c \<and> c \<le> 0x39 then uint c - 0x30
     else if 0x61 \<le> c \<and> c \<le> 0x66 then uint c - 0x61 + 10
     else if 0x41 \<le> c \<and> c \<le> 0x46 then uint c - 0x41 + 10 else - 1)"

fun hex2char :: "u8 list \<Rightarrow> int option" where
  "hex2char [] = None"
| "hex2char (c # s) =
     (if hexchr2int c < 0 then Some (- 1)
      else (case s of [] \<Rightarrow> None
            | d # _ \<Rightarrow> Some (if hexchr2int d < 0 then - 1 else push_bit 4 (hexchr2int c) OR hexchr2int d)))"

text \<open>\<open>strlen\<close>: the number of bytes before the first zero byte.\<close>

fun os_strlen :: "u8 list \<Rightarrow> nat option" where
  "os_strlen [] = None"
| "os_strlen (c # s) = (if c = 0 then Some 0 else map_option Suc (os_strlen s))"

text \<open>The loop of \<open>hex2bin\<close>: the bytes stored so far, in order, and the position in the string.\<close>

fun hex2bin_loop :: "nat \<Rightarrow> nat \<Rightarrow> nat \<Rightarrow> u8 list \<Rightarrow> u8 list option" where
  "hex2bin_loop 0 i str_len ipos = Some []"
| "hex2bin_loop (Suc n) i str_len ipos =
     (if i * 2 + 2 \<le> str_len
      then (case hex2char ipos of None \<Rightarrow> None
            | Some a \<Rightarrow> if a < 0 then Some [] else map_option (\<lambda>bs. of_int a # bs) (hex2bin_loop n (i + 1) str_len (drop 2 ipos)))
      else Some [])"

text \<open>The bytes written to \<open>bin\<close>; the function returns their number. A null pointer gives 0.\<close>

definition hex2bin :: "u8 list option \<Rightarrow> bool \<Rightarrow> nat \<Rightarrow> u8 list option" where
  "hex2bin hex_str bin len = (case hex_str of None \<Rightarrow> Some [] | Some s \<Rightarrow>
     if \<not> bin then Some []
     else (case os_strlen s of None \<Rightarrow> None | Some str_len \<Rightarrow> hex2bin_loop len 0 str_len s))"

definition str2mac :: "u8 list \<Rightarrow> u8 list option" where
  "str2mac macstr = (case (hex2char macstr, hex2char (drop 3 macstr), hex2char (drop 6 macstr), hex2char (drop 9 macstr),
       hex2char (drop 12 macstr), hex2char (drop 15 macstr)) of
     (Some a, Some b, Some c, Some d, Some e, Some f) \<Rightarrow> Some (map of_int [a, b, c, d, e, f])
   | _ \<Rightarrow> None)"

fun atoh_loop :: "nat \<Rightarrow> u64 \<Rightarrow> u8 list \<Rightarrow> u64 option" where
  "atoh_loop n val [] = None"
| "atoh_loop n val (c # s) =
     (if c = 0 then Some val
      else (case n of 0 \<Rightarrow> Some val
            | Suc m \<Rightarrow> if hexchr2int c = - 1 then Some val else atoh_loop m (push_bit 4 val + of_int (hexchr2int c)) s))"

definition os_atoh_n :: "u8 list \<Rightarrow> nat \<Rightarrow> u64 option" where
  "os_atoh_n str cnt = (case os_strlen str of None \<Rightarrow> None | Some n \<Rightarrow>
     atoh_loop cnt 0 (if n > 2 \<and> str ! 0 = 0x30 \<and> (str ! 1 = 0x78 \<or> str ! 1 = 0x58) then drop 2 str else str))"

definition os_atoh :: "u8 list \<Rightarrow> u32 option" where
  "os_atoh str = map_option ucast (os_atoh_n str 8)"

definition os_atohl :: "u8 list \<Rightarrow> u64 option" where
  "os_atohl str = os_atoh_n str 16"

text \<open>\<open>sprintf("%02x")\<close> of a byte, and \<open>key_str\<close>: the buffer after the call. Each step also writes a terminating zero, which the next one overwrites.\<close>

definition hex_digit :: "nat \<Rightarrow> u8" where
  "hex_digit d = (if d < 10 then of_nat (0x30 + d) else of_nat (0x61 + (d - 10)))"

definition sprintf_02x :: "u8 \<Rightarrow> u8 list" where
  "sprintf_02x b = [hex_digit (unat b div 16), hex_digit (unat b mod 16)]"

fun key_str_loop :: "nat \<Rightarrow> u8 list \<Rightarrow> u8 list \<Rightarrow> u8 list" where
  "key_str_loop i [] str_buf = str_buf"
| "key_str_loop i (b # key) str_buf =
     key_str_loop (i + 1) key (take (i * 2) str_buf @ (sprintf_02x b @ [0]) @ drop (i * 2 + 3) str_buf)"

definition key_str :: "u8 list \<Rightarrow> u8 list \<Rightarrow> u8 list" where
  "key_str key str_buf = key_str_loop 0 key str_buf"

section \<open>Comparison without regard to case\<close>

definition case_match :: "u8 \<Rightarrow> u8 \<Rightarrow> bool" where
  "case_match a b \<longleftrightarrow> a = b \<or> uint a + 32 = uint b \<or> uint a - 32 = uint b"

fun strcasecmp :: "u8 list \<Rightarrow> u8 list \<Rightarrow> int option" where
  "strcasecmp (a # s1) (b # s2) =
     (if a \<noteq> 0 \<or> b \<noteq> 0 then (if case_match a b then strcasecmp s1 s2 else Some (- 1)) else Some 0)"
| "strcasecmp _ _ = None"

fun ncasecmp_loop :: "nat \<Rightarrow> u8 list \<Rightarrow> u8 list \<Rightarrow> nat option" where
  "ncasecmp_loop 0 s1 s2 = Some 0"
| "ncasecmp_loop (Suc n) [] s2 = None"
| "ncasecmp_loop (Suc n) (a # s1) s2 =
     (if a = 0 then Some 0
      else (case s2 of [] \<Rightarrow> None
            | b # s2 \<Rightarrow> if b \<noteq> 0 \<and> case_match a b then map_option Suc (ncasecmp_loop n s1 s2) else Some 0))"

text \<open>The number of positions that match; the result says whether it differs from \<open>n\<close>, which is not negative here.\<close>

definition strncasecmp :: "u8 list \<Rightarrow> u8 list \<Rightarrow> nat \<Rightarrow> int option" where
  "strncasecmp s1 s2 n = map_option (\<lambda>i. if i \<noteq> n then 1 else 0) (ncasecmp_loop n s1 s2)"

section \<open>Splitting\<close>

text \<open>The string at an offset of the buffer, and \<open>strstr\<close> in it: the offset of the first occurrence.\<close>

definition c_str :: "u8 list \<Rightarrow> nat \<Rightarrow> u8 list" where
  "c_str mem off = takeWhile (\<lambda>c. c \<noteq> 0) (drop off mem)"

fun find_sub :: "u8 list \<Rightarrow> u8 list \<Rightarrow> nat option" where
  "find_sub sep [] = (if sep = [] then Some 0 else None)"
| "find_sub sep (c # s) = (if take (length sep) (c # s) = sep then Some 0 else map_option Suc (find_sub sep s))"

definition os_strstr :: "u8 list \<Rightarrow> nat \<Rightarrow> u8 list \<Rightarrow> nat option" where
  "os_strstr mem off sep = map_option (\<lambda>i. off + i) (find_sub sep (c_str mem off))"

text \<open>The loop: the buffer and the offsets stored in \<open>argv\<close>; \<open>n\<close> is the number of free entries.\<close>

fun strtok_loop :: "nat \<Rightarrow> u8 list \<Rightarrow> nat option \<Rightarrow> u8 list \<Rightarrow> nat list \<Rightarrow> u8 list \<times> nat list" where
  "strtok_loop 0 sep ptr mem argv = (mem, argv)"
| "strtok_loop (Suc n) sep None mem argv = (mem, argv)"
| "strtok_loop (Suc n) sep (Some ptr) mem argv =
     (let mem = mem[ptr := 0]; ptr = ptr + length sep in
      if c_str mem ptr = [] then (mem, argv) else strtok_loop n sep (os_strstr mem ptr sep) mem (argv @ [ptr]))"

definition os_strtok :: "u8 list option \<Rightarrow> u8 list option \<Rightarrow> bool \<Rightarrow> int \<Rightarrow> u8 list \<times> nat list" where
  "os_strtok str separator argv argv_size = (case (str, separator) of
     (Some mem, Some sep) \<Rightarrow> if \<not> argv \<or> argv_size \<le> 0 then (mem, [])
       else strtok_loop (nat argv_size - 1) sep (os_strstr mem 0 sep) mem [0]
   | _ \<Rightarrow> ([], []))"

section \<open>Facts\<close>

text \<open>The digits and the two characters of a byte, by evaluation.\<close>

lemma hexchr_digit: "d < 16 \<Longrightarrow> hexchr2int (hex_digit d) = int d \<and> hex_digit d \<noteq> 0"
proof -
  have "\<forall>d<16. hexchr2int (hex_digit d) = int d \<and> hex_digit d \<noteq> 0" by code_simp
  then show "d < 16 \<Longrightarrow> hexchr2int (hex_digit d) = int d \<and> hex_digit d \<noteq> 0" by blast
qed

lemma nibbles: "push_bit 4 (int (n div 16)) OR int (n mod 16) = int n"
proof -
  have "push_bit 4 (drop_bit 4 m) OR take_bit 4 m = m" for m :: int
    by (rule bit_eqI) (auto simp: bit_or_iff bit_push_bit_iff bit_drop_bit_eq bit_take_bit_iff not_le)
  from this [of "int n"] show ?thesis using drop_bit_eq_div [of 4 "int n"] take_bit_eq_mod [of 4 "int n"] by (simp add: zdiv_int zmod_int)
qed

lemma hex2char_byte: "hex2char (sprintf_02x b @ s) = Some (uint b)"
proof -
  have u: "unat b < 256" using unsigned_less [of b, where ?'a = nat] by simp
  show ?thesis
    using hexchr_digit [of "unat b div 16"] hexchr_digit [of "unat b mod 16"] nibbles [of "unat b"] u
    by (simp add: sprintf_02x_def less_mult_imp_div_less)
qed

lemma sprintf_02x_nz: "length (sprintf_02x b) = 2" "0 \<notin> set (sprintf_02x b)"
proof -
  have u: "unat b < 256" using unsigned_less [of b, where ?'a = nat] by simp
  then show "length (sprintf_02x b) = 2" "0 \<notin> set (sprintf_02x b)"
    using hexchr_digit [of "unat b div 16"] hexchr_digit [of "unat b mod 16"]
    by (auto simp: sprintf_02x_def less_mult_imp_div_less)
qed

lemma strlen_append: "0 \<notin> set s \<Longrightarrow> os_strlen (s @ 0 # r) = Some (length s)"
  by (induction s) auto

lemma length_hex: "length (concat (map sprintf_02x key)) = 2 * length key" "0 \<notin> set (concat (map sprintf_02x key))"
  using sprintf_02x_nz by (induction key) auto

lemma hex2bin_loop_bytes:
  "hex2bin_loop n i (2 * i + 2 * length key) (concat (map sprintf_02x key) @ r) = Some (take n key)"
proof (induction key arbitrary: n i)
  case Nil
  then show ?case by (cases n) simp_all
next
  case (Cons b key)
  show ?case
  proof (cases n)
    case (Suc m)
    have "drop 2 (sprintf_02x b @ concat (map sprintf_02x key) @ r) = concat (map sprintf_02x key) @ r" by (simp add: sprintf_02x_def)
    then show ?thesis using Cons.IH [of m "i + 1"] hex2char_byte [of b "concat (map sprintf_02x key) @ r"] Suc by simp
  qed simp
qed

lemma key_str_bytes:
  assumes "2 * i + 2 * length key < length buf"
  shows "key_str_loop i key buf = take (2 * i) buf @ concat (map sprintf_02x key) @ (if key = [] then drop (2 * i) buf else 0 # drop (2 * i + 2 * length key + 1) buf)"
  using assms
proof (induction key arbitrary: i buf)
  case (Cons b key)
  define B where "B = take (i * 2) buf @ (sprintf_02x b @ [0]) @ drop (i * 2 + 3) buf"
  have l: "length B = length buf" using Cons.prems sprintf_02x_nz(1) [of b] by (simp add: B_def)
  have t: "take (2 * (i + 1)) B = take (2 * i) buf @ sprintf_02x b" "drop (2 * (i + 1)) B = 0 # drop (2 * i + 3) buf"
    using Cons.prems sprintf_02x_nz(1) [of b] by (simp_all add: mult.commute B_def)
  have "drop (2 * (i + 1) + 2 * length key + 1) B = drop (2 * length key) (drop 1 (drop (2 * (i + 1)) B))" by (simp add: add.commute)
  also have "\<dots> = drop (2 * i + 2 * length (b # key) + 1) buf" unfolding t(2) by (simp add: add.commute add.left_commute eval_nat_numeral)
  finally have tl: "drop (2 * (i + 1) + 2 * length key + 1) B = drop (2 * i + 2 * length (b # key) + 1) buf" .
  have "2 * (i + 1) + 2 * length key < length B" using Cons.prems l by simp
  note Cons.IH [OF this, unfolded t tl]
  moreover have "key_str_loop i (b # key) buf = key_str_loop (i + 1) key B" by (simp add: B_def)
  moreover have "drop (2 * i + 3) buf = drop (2 * i + 2 * length (b # key) + 1) buf" if "key = []" using that by (simp add: eval_nat_numeral)
  ultimately show ?case by (simp only: if_False list.distinct(1) list.map(2) concat.simps(2) append_assoc split: if_split) simp
qed simp

section \<open>Properties\<close>

text \<open>
  C40: Printing and parsing hexadecimal bytes are inverse: \<open>key_str\<close> writes two digits per byte and a terminating zero into a buffer of at least
  \<open>2 n + 1\<close> bytes and leaves the rest of the buffer alone, and \<open>hex2bin\<close> reads the same bytes back from it, up to the number the caller asked for.
\<close>

theorem hex_roundtrip:
  assumes "2 * length key + 1 \<le> length buf" "key \<noteq> []"
  shows "os_strlen (key_str key buf) = Some (2 * length key) \<and> hex2bin (Some (key_str key buf)) True n = Some (take n key)
    \<and> length (key_str key buf) = length buf \<and> drop (2 * length key + 1) (key_str key buf) = drop (2 * length key + 1) buf"
proof -
  have e: "key_str key buf = concat (map sprintf_02x key) @ 0 # drop (2 * length key + 1) buf"
    using key_str_bytes [of 0 key buf] assms by (simp add: key_str_def)
  have "os_strlen (key_str key buf) = Some (2 * length key)"
    unfolding e using strlen_append [OF length_hex(2)] length_hex(1) by simp
  moreover have "hex2bin_loop n 0 (2 * length key) (key_str key buf) = Some (take n key)"
    unfolding e using hex2bin_loop_bytes [of n 0 key] by simp
  ultimately show ?thesis using length_hex(1) assms(1) by (simp add: hex2bin_def) (simp add: e)
qed

theorem hex_roundtrip_witness:
  "hex2bin (Some (key_str [0x0a, 0xff] [9, 9, 9, 9, 9, 9])) True 2 = Some [0x0a, 0xff]"
  using hex_roundtrip [of "[0x0a, 0xff]" "[9, 9, 9, 9, 9, 9]" 2] by simp

text \<open>Letters, and the comparison of two strings of letters.\<close>

definition is_letter :: "u8 \<Rightarrow> bool" where
  "is_letter c \<longleftrightarrow> (0x41 \<le> c \<and> c \<le> 0x5a) \<or> (0x61 \<le> c \<and> c \<le> 0x7a)"

definition to_lower :: "u8 \<Rightarrow> u8" where
  "to_lower c = (if 0x41 \<le> c \<and> c \<le> 0x5a then c + 32 else c)"

lemma case_match_letter:
  assumes "is_letter a" "is_letter b"
  shows "case_match a b \<longleftrightarrow> to_lower a = to_lower b" "a \<noteq> 0"
proof -
  have up: "uint (c + 32) = uint c + 32" if "c \<le> 0x7a" for c :: u8
  proof -
    have "unat (c + 32) = unat c + 32" using that by (simp add: unat_word_ariths word_le_nat_alt)
    then show ?thesis by (metis uint_nat of_nat_add of_nat_numeral)
  qed
  show "case_match a b \<longleftrightarrow> to_lower a = to_lower b"
    using assms up [of a] up [of b]
    by (auto simp: case_match_def is_letter_def to_lower_def word_le_def word_uint_eq_iff)
  show "a \<noteq> 0" using assms(1) by (auto simp: is_letter_def)
qed

text \<open>
  For two strings of letters \<open>strcasecmp\<close> decides equality without regard to case, that is, equality of the strings in lower case; it
  reads nothing behind the terminating zero.
\<close>

theorem strcasecmp_letters:
  assumes "\<forall>c\<in>set s1. is_letter c" "\<forall>c\<in>set s2. is_letter c"
  shows "strcasecmp (s1 @ [0]) (s2 @ [0]) = Some (if map to_lower s1 = map to_lower s2 then 0 else - 1)"
  using assms
proof (induction s1 arbitrary: s2)
  case Nil
  show ?case
  proof (cases s2)
    case (Cons b t)
    then have "is_letter b" using Nil.prems by simp
    then have "\<not> case_match 0 b" "b \<noteq> 0" by (auto simp: case_match_def is_letter_def word_le_def)
    then show ?thesis using Cons by simp
  qed simp
next
  case (Cons a s1)
  note la = Cons.prems(1) [THEN bspec, OF list.set_intros(1)]
  show ?case
  proof (cases s2)
    case Nil
    have "\<not> case_match a 0" "a \<noteq> 0" using la by (auto simp: case_match_def is_letter_def word_le_def)
    then show ?thesis using Nil by simp
  next
    case (Cons b t)
    then show ?thesis using Cons.IH [of t] Cons.prems case_match_letter [OF la, of b] by simp
  qed
qed

theorem strcasecmp_letters_witness:
  "strcasecmp ([0x41, 0x62] @ [0]) ([0x61, 0x42] @ [0]) = Some 0"
  using strcasecmp_letters [of "[0x41, 0x62]" "[0x61, 0x42]"] by (simp add: is_letter_def to_lower_def)

text \<open>
  Outside the letters the comparison is wrong: the digit \<open>0\<close> equals the letter \<open>P\<close>, and a string equals its extension by a blank, after which the comparison
  goes on behind the end of the shorter string. \<open>strncasecmp\<close> reports a difference for equal strings shorter than \<open>n\<close>.
\<close>

theorem strcasecmp_confusions:
  "strcasecmp [0x30, 0] [0x50, 0] = Some 0" "strcasecmp [0x61, 0] [0x61, 0x20, 0] = None" "strncasecmp [0x61, 0] [0x61, 0] 2 = Some 1"
  by code_simp+

text \<open>\<open>os_strtok\<close> stores at most \<open>argv_size\<close> tokens, at increasing offsets, the first at the start of the string, and never changes the length of the buffer.\<close>

lemma os_strstr_ge: "os_strstr mem off sep = Some p \<Longrightarrow> off \<le> p"
  by (auto simp: os_strstr_def)

lemma strtok_loop_bounds:
  assumes "sep \<noteq> []" "strtok_loop n sep ptr mem argv = (mem', argv')" "sorted_wrt (<) argv" "\<And>p a. ptr = Some p \<Longrightarrow> a \<in> set argv \<Longrightarrow> a \<le> p"
  shows "length mem' = length mem \<and> length argv' \<le> length argv + n \<and> sorted_wrt (<) argv'"
  using assms(2-4)
proof (induction n arbitrary: ptr mem argv)
  case (Suc n)
  show ?case
  proof (cases ptr)
    case (Some p)
    let ?mem = "mem[p := 0]" and ?q = "p + length sep"
    have lt: "a < ?q" if "a \<in> set argv" for a
      using Suc.prems(3) [OF Some that] assms(1) by (cases sep) simp_all
    show ?thesis
    proof (cases "c_str ?mem ?q = []")
      case True
      then show ?thesis using Suc.prems(1,2) Some by (auto simp: Let_def)
    next
      case False
      have "length mem' = length ?mem \<and> length argv' \<le> length (argv @ [?q]) + n \<and> sorted_wrt (<) argv'"
      proof (rule Suc.IH)
        show "strtok_loop n sep (os_strstr ?mem ?q sep) ?mem (argv @ [?q]) = (mem', argv')" using Suc.prems(1) Some False by (simp add: Let_def)
        show "sorted_wrt (<) (argv @ [?q])" using Suc.prems(2) lt by (simp add: sorted_wrt_append)
        show "a \<le> r" if "os_strstr ?mem ?q sep = Some r" "a \<in> set (argv @ [?q])" for a r
          using os_strstr_ge [OF that(1)] that(2) lt [of a] by auto
      qed
      then show ?thesis by simp
    qed
  qed (use Suc.prems(1,2) in auto)
qed simp

theorem os_strtok_bounds:
  assumes "os_strtok (Some mem) (Some sep) True argv_size = (mem', argv)" "sep \<noteq> []" "0 < argv_size"
  shows "length mem' = length mem \<and> int (length argv) \<le> argv_size \<and> sorted_wrt (<) argv"
  using strtok_loop_bounds [OF assms(2), of "nat argv_size - 1" "os_strstr mem 0 sep" mem "[0]" mem' argv] assms(1,3)
  by (auto simp: os_strtok_def)

end
