(* ===== verification/Sleepdata.thy ===== *)
theory Sleepdata
  imports Rhino_Prelude
begin

text \<open>
  The memory that survives deep sleep (\<^verbatim>\<open>sdk/lib/common/dsleepdata.c\<close>): a header with two magic numbers at the start of the area, and behind it the regions
  that the parts of the firmware request by number, each at most once. The bounds of the area are symbols of the linker and therefore arguments.
  The functions run with interrupts disabled.
\<close>

section \<open>The code\<close>

definition SYSTEM_SLEEPDATA_ID_MAX :: nat where "SYSTEM_SLEEPDATA_ID_MAX = 6"

record system_sleepdata =
  magic1 :: u32
  cur_addr :: u32
  regions :: "u32 list"
  magic2 :: u32

text \<open>The area: the header and the bytes behind it, by address.\<close>

record sleep_area =
  sdata :: system_sleepdata
  sl_mem :: "u32 \<Rightarrow> u8"

definition sizeof_sleepdata :: u32 where "sizeof_sleepdata = 36"

definition sys_sleepdata_init :: "u32 \<Rightarrow> sleep_area \<Rightarrow> sleep_area" where
  "sys_sleepdata_init start s =
     (if magic1 (sdata s) \<noteq> 0x1A2B3C4D \<or> magic2 (sdata s) \<noteq> 0xD4C3B2A1
      then s\<lparr>sdata := \<lparr>magic1 = 0x1A2B3C4D, cur_addr = start + sizeof_sleepdata, regions = replicate SYSTEM_SLEEPDATA_ID_MAX 0,
                magic2 = 0xD4C3B2A1\<rparr>\<rparr>
      else s)"

definition ALIGN4 :: "u32 \<Rightarrow> u32" where
  "ALIGN4 n = and (n + 3) (not 3)"

definition zero_bytes :: "u32 \<Rightarrow> u32 \<Rightarrow> (u32 \<Rightarrow> u8) \<Rightarrow> u32 \<Rightarrow> u8" where
  "zero_bytes p n mem = (\<lambda>a. if a - p < n then 0 else mem a)"

text \<open>The address 0 is the null pointer.\<close>

definition sys_sleepdata_request :: "u32 \<Rightarrow> nat \<Rightarrow> u32 \<Rightarrow> sleep_area \<Rightarrow> sleep_area \<times> u32" where
  "sys_sleepdata_request stop rid sz s =
     (let sz = ALIGN4 sz in
      if rid < SYSTEM_SLEEPDATA_ID_MAX
      then (let s1 = (if regions (sdata s) ! rid = 0 \<and> cur_addr (sdata s) + sz < stop
                      then s\<lparr>sl_mem := zero_bytes (cur_addr (sdata s)) sz (sl_mem s),
                             sdata := (sdata s)\<lparr>regions := (regions (sdata s))[rid := cur_addr (sdata s)],
                                                cur_addr := cur_addr (sdata s) + sz\<rparr>\<rparr>
                      else s)
            in (s1, regions (sdata s1) ! rid))
      else (s, 0))"

definition sys_sleepdata_reset :: "sleep_area \<Rightarrow> sleep_area" where
  "sys_sleepdata_reset s = s\<lparr>sdata := (sdata s)\<lparr>magic1 := 0\<rparr>\<rparr>"

definition sys_sleepdata_freesize :: "u32 \<Rightarrow> sleep_area \<Rightarrow> u32" where
  "sys_sleepdata_freesize stop s = stop - cur_addr (sdata s)"

definition sys_sleepdata_get :: "nat \<Rightarrow> sleep_area \<Rightarrow> u32" where
  "sys_sleepdata_get rid s = (if rid < SYSTEM_SLEEPDATA_ID_MAX then regions (sdata s) ! rid else 0)"

section \<open>Facts\<close>

text \<open>The regions handed out lie between the header and \<open>cur_addr\<close>, which lies inside the area.\<close>

definition sleep_inv :: "u32 \<Rightarrow> u32 \<Rightarrow> sleep_area \<Rightarrow> bool" where
  "sleep_inv start stop s \<longleftrightarrow> 0 < start \<and> unat start + 36 \<le> unat (cur_addr (sdata s)) \<and> cur_addr (sdata s) \<le> stop
     \<and> length (regions (sdata s)) = 6
     \<and> (\<forall>r\<in>set (regions (sdata s)). r \<noteq> 0 \<longrightarrow> unat start + 36 \<le> unat r \<and> r \<le> cur_addr (sdata s))"

lemma align4: "unat sz \<le> 2 ^ 32 - 4 \<Longrightarrow> unat (ALIGN4 sz) = (unat sz + 3) div 4 * 4"
proof -
  assume a: "unat sz \<le> 2 ^ 32 - 4"
  have m: "(3 :: u32) = mask 2" by (simp add: mask_eq_exp_minus_1)
  have "and (sz + 3) (not (mask 2)) = push_bit 2 (drop_bit 2 (sz + 3))"
  proof (rule bit_word_eqI)
    fix n
    have "2 \<le> n \<Longrightarrow> Suc (Suc (n - 2)) = n" by arith
    then show "n < LENGTH(32) \<Longrightarrow> bit (and (sz + 3) (not (mask 2))) n = bit (push_bit 2 (drop_bit 2 (sz + 3))) n"
      by (cases "2 \<le> n") (simp_all add: bit_and_iff bit_not_iff bit_mask_iff bit_push_bit_iff bit_drop_bit_eq)
  qed
  then have "ALIGN4 sz = push_bit 2 (drop_bit 2 (sz + 3))" by (simp add: ALIGN4_def m)
  moreover have "unat (drop_bit 2 (sz + 3)) = (unat sz + 3) div 4"
    using a by (simp add: unsigned_drop_bit_eq drop_bit_eq_div unat_word_ariths)
  moreover have "(unat sz + 3) div 4 * 4 < 2 ^ 32" using a by (simp add: less_mult_imp_div_less)
  ultimately show ?thesis by (simp add: push_bit_eq_mult unat_word_ariths)
qed

lemma sleep_init_inv:
  assumes "0 < start" "unat start + 36 \<le> unat stop" "magic1 (sdata s) \<noteq> 0x1A2B3C4D"
  shows "sleep_inv start stop (sys_sleepdata_init start s)"
proof -
  have "unat (start + 36) = unat start + 36" using assms(2) unsigned_less [of stop, where ?'a = nat] by (simp add: unat_word_ariths)
  then show ?thesis using assms
    by (simp add: sleep_inv_def sys_sleepdata_init_def sizeof_sleepdata_def SYSTEM_SLEEPDATA_ID_MAX_def word_le_nat_alt)
qed

section \<open>Properties\<close>

text \<open>
  Requests keep the regions apart: in an initialised area a request with a number that has no region yet, and a size that fits, returns the old end of the used
  part, inside the area and behind every earlier region; the bytes from there to the new end are zero, the bytes before it unchanged. A number that has a
  region gets the same region again, whatever the size, and a request that does not fit changes nothing. The invariant is kept.
\<close>

theorem sleepdata_request_fits:
  assumes i: "sleep_inv start stop s" and rid: "rid < SYSTEM_SLEEPDATA_ID_MAX" and sz: "unat sz \<le> 2 ^ 32 - 4"
    and nw: "unat (cur_addr (sdata s)) + (unat sz + 3) div 4 * 4 < 2 ^ 32"
    and r: "sys_sleepdata_request stop rid sz s = (s', p)"
  shows "sleep_inv start stop s' \<and> p = sys_sleepdata_get rid s'
    \<and> (regions (sdata s) ! rid \<noteq> 0 \<longrightarrow> s' = s)
    \<and> (regions (sdata s) ! rid = 0 \<and> unat (cur_addr (sdata s)) + (unat sz + 3) div 4 * 4 < unat stop \<longrightarrow>
        p = cur_addr (sdata s) \<and> unat start + 36 \<le> unat p \<and> unat p + unat sz \<le> unat (cur_addr (sdata s')) \<and> cur_addr (sdata s') < stop
      \<and> (\<forall>q\<in>set (regions (sdata s)). q \<le> p)
      \<and> (\<forall>a. sl_mem s' a = (if p \<le> a \<and> a < cur_addr (sdata s') then 0 else sl_mem s a)))
    \<and> (regions (sdata s) ! rid = 0 \<and> \<not> unat (cur_addr (sdata s)) + (unat sz + 3) div 4 * 4 < unat stop \<longrightarrow> s' = s \<and> p = 0)"
proof -
  let ?c = "cur_addr (sdata s)" and ?m = "ALIGN4 sz"
  have c: "unat (?c + ?m) = unat ?c + (unat sz + 3) div 4 * 4" using nw align4 [OF sz] by (simp add: unat_word_ariths)
  have ge: "unat sz \<le> (unat sz + 3) div 4 * 4" by linarith
  have rid6: "rid < 6" using rid by (simp add: SYSTEM_SLEEPDATA_ID_MAX_def)
  have mem: "a - ?c < ?m \<longleftrightarrow> ?c \<le> a \<and> a < ?c + ?m" for a
  proof (cases "?c \<le> a")
    case True
    then show ?thesis using c align4 [OF sz] unat_sub [OF True] by (auto simp: word_less_nat_alt word_le_nat_alt)
  next
    case False
    then have "unat a < unat ?c" by (simp add: word_le_nat_alt)
    then have "unat (a - ?c) = 2 ^ 32 + unat a - unat ?c" using unat_sub_if' [of a ?c] by simp
    then show ?thesis using False nw align4 [OF sz] by (auto simp: word_less_nat_alt)
  qed
  show ?thesis
  proof (cases "regions (sdata s) ! rid = 0 \<and> ?c + ?m < stop")
    case True
    then have s': "s' = s\<lparr>sl_mem := zero_bytes ?c ?m (sl_mem s), sdata := (sdata s)\<lparr>regions := (regions (sdata s))[rid := ?c], cur_addr := ?c + ?m\<rparr>\<rparr>" "p = ?c"
      using r i rid rid6 by (auto simp: sys_sleepdata_request_def Let_def sleep_inv_def)
    have "?c \<le> ?c + ?m" using c by (simp add: word_le_nat_alt)
    then have "sleep_inv start stop s'"
      using i True c unfolding sleep_inv_def s' by (auto dest!: set_update_subset_insert [THEN subsetD] intro: order.trans simp: word_le_nat_alt word_less_nat_alt)
    moreover have "\<forall>q\<in>set (regions (sdata s)). q \<le> ?c" using i by (auto simp: sleep_inv_def)
    ultimately show ?thesis
      using True i c ge rid rid6 mem by (auto simp: s' sys_sleepdata_get_def sleep_inv_def word_less_nat_alt zero_bytes_def)
  next
    case False
    then have "s' = s" "p = regions (sdata s) ! rid" using r rid by (auto simp: sys_sleepdata_request_def Let_def split: if_splits)
    then show ?thesis using False i c rid by (auto simp: sys_sleepdata_get_def word_less_nat_alt)
  qed
qed

definition fresh_area :: sleep_area where
  "fresh_area = sys_sleepdata_init 0x20001000 \<lparr>sdata = \<lparr>magic1 = 0, cur_addr = 0, regions = [], magic2 = 0\<rparr>, sl_mem = (\<lambda>a. 7)\<rparr>"

theorem sleepdata_request_fits_witness:
  "snd (sys_sleepdata_request 0x20002000 2 10 fresh_area) = 0x20001024"
proof -
  have i: "sleep_inv 0x20001000 0x20002000 fresh_area" unfolding fresh_area_def by (rule sleep_init_inv) simp_all
  have f: "cur_addr (sdata fresh_area) = 0x20001024" "regions (sdata fresh_area) = replicate 6 0"
    by (simp_all add: fresh_area_def sys_sleepdata_init_def sizeof_sleepdata_def SYSTEM_SLEEPDATA_ID_MAX_def)
  obtain s' p where r: "sys_sleepdata_request 0x20002000 2 10 fresh_area = (s', p)" by (cases "sys_sleepdata_request 0x20002000 2 10 fresh_area")
  show ?thesis using sleepdata_request_fits [OF i _ _ _ r] by (auto simp: r f SYSTEM_SLEEPDATA_ID_MAX_def)
qed

text \<open>The check against the end of the area wraps around: a request of almost 4 GB is granted and moves the end of the used part back over the header.\<close>

theorem sleepdata_request_wraps:
  "snd (sys_sleepdata_request 0x20002000 2 0xFFFFF000 fresh_area) = 0x20001024
    \<and> cur_addr (sdata (fst (sys_sleepdata_request 0x20002000 2 0xFFFFF000 fresh_area))) = 0x20000024"
  by (simp add: fresh_area_def sys_sleepdata_init_def sys_sleepdata_request_def sizeof_sleepdata_def SYSTEM_SLEEPDATA_ID_MAX_def ALIGN4_def Let_def)

end
