(* ===== verification/Atomic.thy ===== *)
theory Atomic
  imports Rhino_Prelude
begin

unbundle bit_operations_syntax

text \<open>
  Atomic operations on 32-bit variables (\<^verbatim>\<open>common/k_atomic.c\<close>). Each runs with interrupts disabled, so that on the single core no other code runs in
  between: an operation is one function of the memory, which gives the new memory and the value returned.
\<close>

section \<open>The code\<close>

type_synonym amem = "u32 \<Rightarrow> u32"

definition rhino_atomic_add :: "u32 \<Rightarrow> u32 \<Rightarrow> amem \<Rightarrow> amem \<times> u32" where
  "rhino_atomic_add target value m = (let old_value = m target in (m(target := m target + value), old_value))"

definition rhino_atomic_sub :: "u32 \<Rightarrow> u32 \<Rightarrow> amem \<Rightarrow> amem \<times> u32" where
  "rhino_atomic_sub target value m = (let old_value = m target in (m(target := m target - value), old_value))"

definition rhino_atomic_inc :: "u32 \<Rightarrow> amem \<Rightarrow> amem \<times> u32" where
  "rhino_atomic_inc target m = (let old_value = m target in (m(target := m target + 1), old_value))"

definition rhino_atomic_dec :: "u32 \<Rightarrow> amem \<Rightarrow> amem \<times> u32" where
  "rhino_atomic_dec target m = (let old_value = m target in (m(target := m target - 1), old_value))"

definition rhino_atomic_set :: "u32 \<Rightarrow> u32 \<Rightarrow> amem \<Rightarrow> amem \<times> u32" where
  "rhino_atomic_set target value m = (let old_value = m target in (m(target := value), old_value))"

definition rhino_atomic_get :: "u32 \<Rightarrow> amem \<Rightarrow> u32" where
  "rhino_atomic_get target m = m target"

definition rhino_atomic_or :: "u32 \<Rightarrow> u32 \<Rightarrow> amem \<Rightarrow> amem \<times> u32" where
  "rhino_atomic_or target value m = (let old_value = m target in (m(target := m target OR value), old_value))"

definition rhino_atomic_xor :: "u32 \<Rightarrow> u32 \<Rightarrow> amem \<Rightarrow> amem \<times> u32" where
  "rhino_atomic_xor target value m = (let old_value = m target in (m(target := m target XOR value), old_value))"

definition rhino_atomic_and :: "u32 \<Rightarrow> u32 \<Rightarrow> amem \<Rightarrow> amem \<times> u32" where
  "rhino_atomic_and target value m = (let old_value = m target in (m(target := m target AND value), old_value))"

definition rhino_atomic_nand :: "u32 \<Rightarrow> u32 \<Rightarrow> amem \<Rightarrow> amem \<times> u32" where
  "rhino_atomic_nand target value m = (let old_value = m target in (m(target := NOT (m target AND value)), old_value))"

definition rhino_atomic_clear :: "u32 \<Rightarrow> amem \<Rightarrow> amem \<times> u32" where
  "rhino_atomic_clear target m = (let old_value = m target in (m(target := 0), old_value))"

definition rhino_atomic_cas :: "u32 \<Rightarrow> u32 \<Rightarrow> u32 \<Rightarrow> amem \<Rightarrow> amem \<times> int" where
  "rhino_atomic_cas target old_value new_value m = (if m target = old_value then (m(target := new_value), 1) else (m, 0))"

lemmas atomic_defs = rhino_atomic_add_def rhino_atomic_sub_def rhino_atomic_inc_def rhino_atomic_dec_def rhino_atomic_set_def rhino_atomic_get_def
  rhino_atomic_or_def rhino_atomic_xor_def rhino_atomic_and_def rhino_atomic_nand_def rhino_atomic_clear_def rhino_atomic_cas_def

section \<open>Interleaved counters and locks\<close>

text \<open>
  A ticket: each of several tasks takes the old value of a counter with \<open>rhino_atomic_inc\<close>. In whatever order the calls happen, the \<open>i\<close>-th call gets the \<open>i\<close>-th value,
  so that fewer than \<open>2 ^ 32\<close> calls never give the same value twice.
\<close>

fun tickets :: "nat \<Rightarrow> u32 \<Rightarrow> amem \<Rightarrow> amem \<times> u32 list" where
  "tickets 0 target m = (m, [])"
| "tickets (Suc n) target m = (case rhino_atomic_inc target m of (m1, v) \<Rightarrow> case tickets n target m1 of (m2, vs) \<Rightarrow> (m2, v # vs))"

lemma tickets_values: "snd (tickets n target m) = map (\<lambda>i. m target + of_nat i) [0..<n]"
proof (induction n arbitrary: m)
  case (Suc n)
  then show ?case by (simp add: rhino_atomic_inc_def split_beta upt_conv_Cons map_Suc_upt [symmetric] add.assoc del: upt_Suc)
qed simp

theorem tickets_distinct:
  assumes "n \<le> 2 ^ 32"
  shows "distinct (snd (tickets n target m))"
proof -
  have "inj_on (\<lambda>i. m target + of_nat i) {0..<n}"
  proof (rule inj_onI)
    fix i j assume ij: "i \<in> {0..<n}" "j \<in> {0..<n}" and e: "m target + of_nat i = m target + (of_nat j :: u32)"
    then have "(of_nat i :: u32) = of_nat j" by simp
    then have "unat (of_nat i :: u32) = unat (of_nat j :: u32)" by simp
    then show "i = j" using ij assms by (simp add: unat_of_nat take_bit_nat_eq_self)
  qed
  then show ?thesis by (simp add: tickets_values distinct_map)
qed

text \<open>A try-lock with \<open>rhino_atomic_cas\<close> succeeds for exactly one of the calls between two releases.\<close>

fun trylocks :: "nat \<Rightarrow> u32 \<Rightarrow> amem \<Rightarrow> amem \<times> int list" where
  "trylocks 0 target m = (m, [])"
| "trylocks (Suc n) target m = (case rhino_atomic_cas target 0 1 m of (m1, r) \<Rightarrow> case trylocks n target m1 of (m2, rs) \<Rightarrow> (m2, r # rs))"

lemma trylocks_taken: "m target = 1 \<Longrightarrow> trylocks n target m = (m, replicate n 0)"
  by (induction n) (simp_all add: rhino_atomic_cas_def)

theorem trylock_one_winner:
  assumes "m target = 0"
  shows "snd (trylocks (Suc n) target m) = 1 # replicate n 0" "fst (trylocks (Suc n) target m) = m(target := 1)"
  using assms trylocks_taken [of "m(target := 1)" target n] by (simp_all add: rhino_atomic_cas_def)

end
