(* ===== verification/Mm.thy ===== *)
theory Mm
  imports Bitmap Mblk
begin

unbundle bit_operations_syntax

text \<open>
  The heap of the kernel (\<^verbatim>\<open>core/k_mm.c\<close>): a two-level segregated-fit allocator, with a pool of blocks of 32 bytes for small requests. It is the kernel's own
  \<open>krhino_mm_alloc\<close>; the firmware's build replaces it by a library (\<open>MPOOL_ALLOC\<close>). The configuration is that of \<^verbatim>\<open>k_config.h\<close> and \<^verbatim>\<open>k_default_config.h\<close>: blocks of less than
  \<open>2 ^ 20\<close> bytes, statistics on, no debug fields, interrupts masked during every operation.

  Pointers and sizes are 32-bit words. The headers of the blocks are a store by address, \<open>mblks\<close>; what the owners keep in their blocks is \<open>mbytes\<close>, the control blocks and the chain
  of the pool are those of theory \<open>Mblk\<close>. That headers and contents never overlap is what the invariant of theory \<open>Mm_Inv\<close> says. A null pointer is 0.
\<close>

section \<open>Constants and types\<close>

definition MAX_MM_BIT :: nat where "MAX_MM_BIT = 20"
definition MIN_FLT_BIT :: nat where "MIN_FLT_BIT = 7"
definition MAX_LOG2_SLT :: nat where "MAX_LOG2_SLT = 5"
definition FLT_SIZE :: nat where "FLT_SIZE = MAX_MM_BIT - MIN_FLT_BIT + 1"
definition SLT_SIZE :: nat where "SLT_SIZE = 2 ^ MAX_LOG2_SLT"
definition MIN_FLT_SIZE :: u32 where "MIN_FLT_SIZE = push_bit MIN_FLT_BIT 1"
definition MAX_MM_SIZE :: u32 where "MAX_MM_SIZE = push_bit MAX_MM_BIT 1"
definition DEF_FIX_BLK_SIZE :: u32 where "DEF_FIX_BLK_SIZE = 32"
definition MIN_FREE_MEMORY_SIZE :: u32 where "MIN_FREE_MEMORY_SIZE = 1024"
definition RHINO_CONFIG_MM_TLF_BLK_SIZE :: u32 where "RHINO_CONFIG_MM_TLF_BLK_SIZE = 4096"
definition AOS_MM_TLF_ALLOC_MIN_LENGTH :: u32 where "AOS_MM_TLF_ALLOC_MIN_LENGTH = 8"
definition RHINO_MM_BLKSIZE_MASK :: u32 where "RHINO_MM_BLKSIZE_MASK = 0xFFFFFFFF - 3"
definition RHINO_MM_PRESTAT_MASK :: u32 where "RHINO_MM_PRESTAT_MASK = 2"
definition RHINO_MM_FREE :: u32 where "RHINO_MM_FREE = 1"
definition RHINO_MM_PREVFREE :: u32 where "RHINO_MM_PREVFREE = 2"

text \<open>The sizes of the structures: \<open>k_mm_list_t\<close> without the pointers of the free list, with them, \<open>k_mm_region_info_t\<close>, \<open>k_mm_head\<close> and \<open>mblk_pool_t\<close>.\<close>

definition MMLIST_HEAD_SIZE :: u32 where "MMLIST_HEAD_SIZE = 8"
definition sizeof_mm_list :: u32 where "sizeof_mm_list = 16"
definition sizeof_region_info :: u32 where "sizeof_region_info = 8"
definition sizeof_mm_head :: u32 where "sizeof_mm_head = 1952"
definition sizeof_mblk_pool :: u32 where "sizeof_mblk_pool = 32"

definition MM_ALIGN_UP :: "u32 \<Rightarrow> u32" where "MM_ALIGN_UP a = (a + 3) AND NOT 3"
definition MM_ALIGN_DOWN :: "u32 \<Rightarrow> u32" where "MM_ALIGN_DOWN a = a AND NOT 3"

definition MMREGION_USED_SIZE :: u32 where
  "MMREGION_USED_SIZE = MM_ALIGN_UP sizeof_region_info + 3 * MMLIST_HEAD_SIZE"

record k_mm_list_t =
  mm_prev :: u32
  mm_size :: u32
  free_prev :: u32
  free_next :: u32

record k_mm_region_info_t =
  rg_end :: u32
  rg_next :: u32

record k_mm_head =
  regioninfo :: u32
  fixedmblk :: u32
  used_size :: u32
  maxused_size :: u32
  free_size :: u32
  mm_size_stats :: "u32 list"
  fl_bitmap :: u32
  sl_bitmap :: "u32 list"
  mm_tbl :: "u32 list list"

record mmsys =
  mh :: k_mm_head
  mblks :: "u32 \<Rightarrow> k_mm_list_t"
  mregs :: "u32 \<Rightarrow> k_mm_region_info_t"
  mpool :: mbsys
  mbytes :: "u32 \<Rightarrow> u8"
  mm_errs :: "kstat list"

datatype SEARCH_ACTION = ACTION_INSERT | ACTION_GET

definition upd_head :: "(k_mm_head \<Rightarrow> k_mm_head) \<Rightarrow> mmsys \<Rightarrow> mmsys" where
  "upd_head f s = s\<lparr>mh := f (mh s)\<rparr>"

definition upd_mblk :: "u32 \<Rightarrow> (k_mm_list_t \<Rightarrow> k_mm_list_t) \<Rightarrow> mmsys \<Rightarrow> mmsys" where
  "upd_mblk b f s = s\<lparr>mblks := (mblks s)(b := f (mblks s b))\<rparr>"

definition set_size :: "u32 \<Rightarrow> u32 \<Rightarrow> mmsys \<Rightarrow> mmsys" where
  "set_size b v = upd_mblk b (\<lambda>x. x\<lparr>mm_size := v\<rparr>)"

definition set_mprev :: "u32 \<Rightarrow> u32 \<Rightarrow> mmsys \<Rightarrow> mmsys" where
  "set_mprev b v = upd_mblk b (\<lambda>x. x\<lparr>mm_prev := v\<rparr>)"

definition set_fprev :: "u32 \<Rightarrow> u32 \<Rightarrow> mmsys \<Rightarrow> mmsys" where
  "set_fprev b v = upd_mblk b (\<lambda>x. x\<lparr>free_prev := v\<rparr>)"

definition set_fnext :: "u32 \<Rightarrow> u32 \<Rightarrow> mmsys \<Rightarrow> mmsys" where
  "set_fnext b v = upd_mblk b (\<lambda>x. x\<lparr>free_next := v\<rparr>)"

abbreviation sizew :: "mmsys \<Rightarrow> u32 \<Rightarrow> u32" where
  "sizew s b \<equiv> mm_size (mblks s b)"

text \<open>\<open>b->size & RHINO_MM_BLKSIZE_MASK\<close>, the buffer of a block, and the block \<open>r\<close> bytes behind the start of the buffer of \<open>b\<close>.\<close>

definition bsize :: "mmsys \<Rightarrow> u32 \<Rightarrow> u32" where
  "bsize s b = sizew s b AND RHINO_MM_BLKSIZE_MASK"

definition buffer :: "u32 \<Rightarrow> u32" where
  "buffer b = b + MMLIST_HEAD_SIZE"

definition NEXT_MM_BLK :: "u32 \<Rightarrow> u32 \<Rightarrow> u32" where
  "NEXT_MM_BLK addr r = addr + r"

section \<open>Size classes\<close>

text \<open>
  \<open>31 - krhino_find_first_bit(&w)\<close>. For \<open>w = 0\<close> the search of the source leaves the variable and reads the words behind it; the number it returns is then beyond the last bit,
  which is all the callers use of it.
\<close>

definition top_bit :: "u32 \<Rightarrow> u32" where
  "top_bit w = (case krhino_find_first_bit [w] of Some n \<Rightarrow> 31 - of_nat n | None \<Rightarrow> - 1)"

definition sizetoindex :: "u32 \<Rightarrow> u32" where
  "sizetoindex sz = top_bit sz"

definition addsize :: "u32 \<Rightarrow> u32 \<Rightarrow> mmsys \<Rightarrow> mmsys" where
  "addsize sz req_size s = upd_head (\<lambda>h.
     (let h1 = h\<lparr>free_size := (if free_size h > sz then free_size h - sz else 0)\<rparr>;
          h2 = h1\<lparr>used_size := used_size h1 + sz\<rparr>;
          h3 = (if used_size h2 > maxused_size h2 then h2\<lparr>maxused_size := used_size h2\<rparr> else h2);
          index = sizetoindex (req_size - 1);
          index = (if index > of_nat MAX_MM_BIT then of_nat MAX_MM_BIT else index);
          index = (if index < 1 then 1 else index);
          i = unat (index - 1)
      in h3\<lparr>mm_size_stats := (mm_size_stats h3)[i := mm_size_stats h3 ! i + 1]\<rparr>)) s"

definition removesize :: "u32 \<Rightarrow> mmsys \<Rightarrow> mmsys" where
  "removesize sz s = upd_head (\<lambda>h.
     (let h1 = h\<lparr>used_size := (if used_size h > sz then used_size h - sz else 0)\<rparr>
      in h1\<lparr>free_size := free_size h1 + sz\<rparr>)) s"

text \<open>The indices are \<open>size_t\<close>. A shift by a negative number, which is undefined in C, happens here only after the sum has wrapped around.\<close>

definition bitmap_search :: "u32 \<Rightarrow> SEARCH_ACTION \<Rightarrow> u32 \<times> u32 \<times> kstat" where
  "bitmap_search sz action =
     (let (flt, slt) =
        (if sz < MIN_FLT_SIZE then (0, drop_bit (MIN_FLT_BIT - MAX_LOG2_SLT) sz)
         else (let firstbit = top_bit sz;
                   (tmp_size, firstbit) =
                     (if action = ACTION_GET
                      then (let tmp_size = sz + (push_bit (unat (firstbit - of_nat MAX_LOG2_SLT)) 1 - 1) in (tmp_size, top_bit tmp_size))
                      else (sz, firstbit))
               in (firstbit - of_nat MIN_FLT_BIT + 1,
                   drop_bit (unat (firstbit - of_nat MAX_LOG2_SLT)) (tmp_size - push_bit (unat firstbit) 1))))
      in (flt, slt, if flt \<ge> of_nat FLT_SIZE \<or> slt \<ge> of_nat SLT_SIZE then RHINO_MM_FREE_ADDR_ERR else RHINO_SUCCESS))"

definition find_last_bit :: "u32 \<Rightarrow> u32" where
  "find_last_bit bitmap = (if bitmap = 0 then 0 else top_bit (bitmap AND - bitmap))"

section \<open>Free lists\<close>

text \<open>The bit functions work on an array that starts at the word.\<close>

definition word_set :: "u32 \<Rightarrow> nat \<Rightarrow> u32" where
  "word_set w nr = hd (krhino_bitmap_set [w] nr)"

definition word_clear :: "u32 \<Rightarrow> nat \<Rightarrow> u32" where
  "word_clear w nr = hd (krhino_bitmap_clear [w] nr)"

definition tbl :: "mmsys \<Rightarrow> nat \<Rightarrow> nat \<Rightarrow> u32" where
  "tbl s flt slt = mm_tbl (mh s) ! flt ! slt"

definition set_tbl :: "nat \<Rightarrow> nat \<Rightarrow> u32 \<Rightarrow> mmsys \<Rightarrow> mmsys" where
  "set_tbl flt slt v = upd_head (\<lambda>h. h\<lparr>mm_tbl := (mm_tbl h)[flt := (mm_tbl h ! flt)[slt := v]]\<rparr>)"

definition bitmaps_set :: "nat \<Rightarrow> nat \<Rightarrow> mmsys \<Rightarrow> mmsys" where
  "bitmaps_set flt slt = upd_head (\<lambda>h.
     h\<lparr>sl_bitmap := (sl_bitmap h)[flt := word_set (sl_bitmap h ! flt) (31 - slt)], fl_bitmap := word_set (fl_bitmap h) (31 - flt)\<rparr>)"

definition bitmaps_clear :: "nat \<Rightarrow> nat \<Rightarrow> mmsys \<Rightarrow> mmsys" where
  "bitmaps_clear flt slt = upd_head (\<lambda>h.
     (let h1 = h\<lparr>sl_bitmap := (sl_bitmap h)[flt := word_clear (sl_bitmap h ! flt) (31 - slt)]\<rparr>
      in if sl_bitmap h1 ! flt = 0 then h1\<lparr>fl_bitmap := word_clear (fl_bitmap h1) (31 - flt)\<rparr> else h1))"

definition insert_block :: "u32 \<Rightarrow> nat \<Rightarrow> nat \<Rightarrow> mmsys \<Rightarrow> mmsys" where
  "insert_block b flt slt s =
     (let s1 = set_fnext b (tbl s flt slt) (set_fprev b 0 s);
          s2 = (if tbl s1 flt slt \<noteq> 0 then set_fprev (tbl s1 flt slt) b s1 else s1)
      in bitmaps_set flt slt (set_tbl flt slt b s2))"

definition get_block :: "u32 \<Rightarrow> nat \<Rightarrow> nat \<Rightarrow> mmsys \<Rightarrow> mmsys" where
  "get_block b flt slt s =
     (let nx = free_next (mblks s b);
          s1 = (if nx \<noteq> 0 then set_fprev nx (free_prev (mblks s b)) s else s);
          pv = free_prev (mblks s1 b);
          s2 = (if pv \<noteq> 0 then set_fnext pv (free_next (mblks s1 b)) s1 else s1);
          s3 = (if tbl s2 flt slt = b
                then (let s3 = set_tbl flt slt (free_next (mblks s2 b)) s2
                      in if tbl s3 flt slt = 0 then bitmaps_clear flt slt s3 else s3)
                else s2)
      in set_fnext b 0 (set_fprev b 0 s3))"

definition findblk_byidx :: "u32 \<Rightarrow> u32 \<Rightarrow> mmsys \<Rightarrow> u32 \<times> u32 \<times> u32" where
  "findblk_byidx flt slt s =
     (let tmp = sl_bitmap (mh s) ! unat flt AND push_bit (unat slt) (- 1) in
      if tmp \<noteq> 0 then (let slt = find_last_bit tmp in (tbl s (unat flt) (unat slt), flt, slt))
      else (let flt = find_last_bit (fl_bitmap (mh s) AND push_bit (unat (flt + 1)) (- 1)) in
            if flt > 0 then (let slt = find_last_bit (sl_bitmap (mh s) ! unat flt) in (tbl s (unat flt) (unat slt), flt, slt))
            else (0, flt, slt)))"

section \<open>Allocation\<close>

definition k_mm_smallblk_alloc :: "u32 \<Rightarrow> mmsys \<Rightarrow> mmsys \<times> u32" where
  "k_mm_smallblk_alloc sz s = (case krhino_mblk_alloc (Some (buffer (fixedmblk (mh s)))) True (mpool s) of (p, sta, tmp) \<Rightarrow>
     if sta \<noteq> RHINO_SUCCESS then (s\<lparr>mpool := p\<rparr>, 0)
     else (addsize DEF_FIX_BLK_SIZE sz (s\<lparr>mpool := p\<rparr>), case tmp of Some a \<Rightarrow> a | None \<Rightarrow> 0))"

definition k_mm_smallblk_free :: "u32 \<Rightarrow> mmsys \<Rightarrow> mmsys" where
  "k_mm_smallblk_free ptr s = (if ptr = 0 then s else
     (case krhino_mblk_free (Some (buffer (fixedmblk (mh s)))) ptr (mpool s) of (p, sta) \<Rightarrow>
        (let s1 = s\<lparr>mpool := p\<rparr>;
             s2 = (if sta \<noteq> RHINO_SUCCESS then s1\<lparr>mm_errs := mm_errs s1 @ [RHINO_SYS_FATAL_ERR]\<rparr> else s1)
         in removesize DEF_FIX_BLK_SIZE s2)))"

text \<open>Taking the first block of a list, as \<open>k_mm_alloc\<close> does it.\<close>

definition take_first :: "u32 \<Rightarrow> nat \<Rightarrow> nat \<Rightarrow> mmsys \<Rightarrow> mmsys" where
  "take_first b fl sl s =
     (let s1 = set_tbl fl sl (free_next (mblks s b)) s;
          s2 = (if tbl s1 fl sl \<noteq> 0 then set_fprev (tbl s1 fl sl) 0 s1 else bitmaps_clear fl sl s1)
      in set_fnext b 0 (set_fprev b 0 s2))"

text \<open>
  The second half of a block becomes a free block: \<open>tmp_size\<close> bytes behind the first \<open>sz\<close> are left over, \<open>next_b\<close> is the block behind. \<open>k_mm_realloc\<close> marks \<open>next_b\<close> in between,
  \<open>k_mm_alloc\<close> finds it marked.
\<close>

definition split_block :: "u32 \<Rightarrow> u32 \<Rightarrow> u32 \<Rightarrow> u32 \<Rightarrow> bool \<Rightarrow> mmsys \<Rightarrow> mmsys" where
  "split_block b next_b sz tmp_size mark s =
     (let tmp_size = tmp_size - MMLIST_HEAD_SIZE;
          b2 = NEXT_MM_BLK (buffer b) sz;
          s1 = set_size b2 (tmp_size OR RHINO_MM_FREE) s;
          s2 = set_mprev next_b b2 s1;
          s3 = (if mark then set_size next_b (sizew s2 next_b OR RHINO_MM_PREVFREE) s2 else s2)
      in case bitmap_search tmp_size ACTION_INSERT of (fl, sl, _) \<Rightarrow>
         (let s4 = insert_block b2 (unat fl) (unat sl) s3
          in set_size b (sz OR (sizew s4 b AND RHINO_MM_PRESTAT_MASK)) s4))"

definition alloc_size :: "u32 \<Rightarrow> u32" where
  "alloc_size sz = (let sz = MM_ALIGN_UP sz in if sz < AOS_MM_TLF_ALLOC_MIN_LENGTH then AOS_MM_TLF_ALLOC_MIN_LENGTH else sz)"

definition tlf_alloc :: "u32 \<Rightarrow> mmsys \<Rightarrow> mmsys \<times> u32" where
  "tlf_alloc req_size s =
     (let sz = alloc_size req_size in
      case bitmap_search sz ACTION_GET of (fl, sl, st) \<Rightarrow>
        if st \<noteq> RHINO_SUCCESS then (s, 0)
        else (case findblk_byidx fl sl s of (b, fl, sl) \<Rightarrow>
          if b = 0 then (s, 0)
          else (let s1 = take_first b (unat fl) (unat sl) s;
                    next_b = NEXT_MM_BLK (buffer b) (bsize s1 b);
                    tmp_size = bsize s1 b - sz;
                    s2 = (if tmp_size \<ge> sizeof_mm_list then split_block b next_b sz tmp_size False s1
                          else (let s2 = set_size next_b (sizew s1 next_b AND NOT RHINO_MM_PREVFREE) s1
                                in set_size b (sizew s2 b AND NOT RHINO_MM_FREE) s2))
                in (addsize (bsize s2 b + MMLIST_HEAD_SIZE) req_size s2, buffer b))))"

definition k_mm_alloc :: "bool \<Rightarrow> u32 \<Rightarrow> mmsys \<Rightarrow> mmsys \<times> u32" where
  "k_mm_alloc mmhead sz s =
     (if \<not> mmhead then (s, 0)
      else if sz = 0 then (s, 0)
      else if fixedmblk (mh s) \<noteq> 0 \<and> sz \<le> DEF_FIX_BLK_SIZE \<and> blk_avail (mb_pools (mpool s) (buffer (fixedmblk (mh s)))) > 0
      then (case k_mm_smallblk_alloc sz s of (s1, retptr) \<Rightarrow> if retptr \<noteq> 0 then (s1, retptr) else tlf_alloc sz s1)
      else tlf_alloc sz s)"

section \<open>Freeing\<close>

definition ISFIXEDBLK :: "mmsys \<Rightarrow> u32 \<Rightarrow> bool" where
  "ISFIXEDBLK s ptr \<longleftrightarrow> fixedmblk (mh s) \<noteq> 0 \<and> ptr > buffer (fixedmblk (mh s))
     \<and> ptr < buffer (fixedmblk (mh s)) + sizew s (fixedmblk (mh s))"

text \<open>The block \<open>b\<close> takes in its free successor, and then its free predecessor; the result is the block that is left.\<close>

definition merge_next :: "u32 \<Rightarrow> mmsys \<Rightarrow> mmsys" where
  "merge_next b s =
     (let tmp_b = NEXT_MM_BLK (buffer b) (bsize s b) in
      if sizew s tmp_b AND RHINO_MM_FREE \<noteq> 0
      then (case bitmap_search (bsize s tmp_b) ACTION_INSERT of (fl, sl, _) \<Rightarrow>
             (let s1 = get_block tmp_b (unat fl) (unat sl) s
              in set_size b (sizew s1 b + (bsize s1 tmp_b + MMLIST_HEAD_SIZE)) s1))
      else s)"

definition merge_prev :: "u32 \<Rightarrow> mmsys \<Rightarrow> mmsys \<times> u32" where
  "merge_prev b s =
     (if sizew s b AND RHINO_MM_PREVFREE \<noteq> 0
      then (let tmp_b = mm_prev (mblks s b) in
            case bitmap_search (bsize s tmp_b) ACTION_INSERT of (fl, sl, _) \<Rightarrow>
             (let s1 = get_block tmp_b (unat fl) (unat sl) s
              in (set_size tmp_b (sizew s1 tmp_b + (bsize s1 b + MMLIST_HEAD_SIZE)) s1, tmp_b)))
      else (s, b))"

definition tlf_free :: "u32 \<Rightarrow> mmsys \<Rightarrow> mmsys" where
  "tlf_free b s =
     (let s1 = set_size b (sizew s b OR RHINO_MM_FREE) s;
          s2 = removesize (bsize s1 b + MMLIST_HEAD_SIZE) s1;
          s3 = merge_next b s2
      in case merge_prev b s3 of (s4, b) \<Rightarrow>
         (case bitmap_search (bsize s4 b) ACTION_INSERT of (fl, sl, _) \<Rightarrow>
           (let s5 = insert_block b (unat fl) (unat sl) s4;
                tmp_b = NEXT_MM_BLK (buffer b) (bsize s5 b);
                s6 = set_size tmp_b (sizew s5 tmp_b OR RHINO_MM_PREVFREE) s5
            in set_mprev tmp_b b s6)))"

definition k_mm_free :: "bool \<Rightarrow> u32 \<Rightarrow> mmsys \<Rightarrow> mmsys" where
  "k_mm_free mmhead ptr s =
     (if ptr = 0 \<or> \<not> mmhead then s
      else if ISFIXEDBLK s ptr then k_mm_smallblk_free ptr s
      else tlf_free (ptr - MMLIST_HEAD_SIZE) s)"

section \<open>Resizing\<close>

text \<open>Resizing a block in use without a heap (\<open>mmhead\<close> null) is undefined in C; all theorems have a heap.\<close>

text \<open>\<open>memcpy\<close> of the contents of blocks that do not overlap.\<close>

definition copy_bytes :: "u32 \<Rightarrow> u32 \<Rightarrow> u32 \<Rightarrow> mmsys \<Rightarrow> mmsys" where
  "copy_bytes dst src n s = s\<lparr>mbytes := (\<lambda>x. if x - dst < n then mbytes s (src + (x - dst)) else mbytes s x)\<rparr>"

definition realloc_size :: "u32 \<Rightarrow> u32" where
  "realloc_size new_size = (if new_size < sizeof_mm_list then sizeof_mm_list else MM_ALIGN_UP new_size)"

text \<open>The new size fits into the block: what is left over, with a free block behind, becomes a free block.\<close>

definition realloc_shrink :: "u32 \<Rightarrow> u32 \<Rightarrow> u32 \<Rightarrow> mmsys \<Rightarrow> mmsys \<times> u32" where
  "realloc_shrink b new_size req_size s =
     (let tmp_size = bsize s b;
          next_b = NEXT_MM_BLK (buffer b) (bsize s b);
          s1 = removesize (bsize s b + MMLIST_HEAD_SIZE) s;
          (s2, tmp_size, next_b) =
            (if sizew s1 next_b AND RHINO_MM_FREE \<noteq> 0
             then (case bitmap_search (bsize s1 next_b) ACTION_INSERT of (fl, sl, _) \<Rightarrow>
                    (let s2 = get_block next_b (unat fl) (unat sl) s1
                     in (s2, tmp_size + (bsize s2 next_b + MMLIST_HEAD_SIZE), NEXT_MM_BLK (buffer next_b) (bsize s2 next_b))))
             else (s1, tmp_size, next_b));
          tmp_size = tmp_size - new_size;
          s3 = (if tmp_size \<ge> sizeof_mm_list then split_block b next_b new_size tmp_size True s2 else s2)
      in (addsize (bsize s3 b + MMLIST_HEAD_SIZE) req_size s3, buffer b))"

text \<open>The new size fits into the block together with the free block behind it.\<close>

definition realloc_grow :: "u32 \<Rightarrow> u32 \<Rightarrow> u32 \<Rightarrow> mmsys \<Rightarrow> mmsys \<times> u32" where
  "realloc_grow b new_size req_size s =
     (let next_b = NEXT_MM_BLK (buffer b) (bsize s b);
          s1 = removesize (bsize s b + MMLIST_HEAD_SIZE) s
      in case bitmap_search (bsize s1 next_b) ACTION_INSERT of (fl, sl, _) \<Rightarrow>
        (let s2 = get_block next_b (unat fl) (unat sl) s1;
             s3 = set_size b (sizew s2 b + (bsize s2 next_b + MMLIST_HEAD_SIZE)) s2;
             next_b = NEXT_MM_BLK (buffer b) (bsize s3 b);
             s4 = set_mprev next_b b s3;
             s5 = set_size next_b (sizew s4 next_b AND NOT RHINO_MM_PREVFREE) s4;
             tmp_size = bsize s5 b - new_size;
             s6 = (if tmp_size \<ge> sizeof_mm_list then split_block b next_b new_size tmp_size True s5 else s5)
         in (addsize (bsize s6 b + MMLIST_HEAD_SIZE) req_size s6, buffer b)))"

definition k_mm_realloc :: "bool \<Rightarrow> u32 \<Rightarrow> u32 \<Rightarrow> mmsys \<Rightarrow> mmsys \<times> u32" where
  "k_mm_realloc mmhead oldmem new_size s =
     (if oldmem = 0 then (if new_size \<noteq> 0 then k_mm_alloc mmhead new_size s else (s, 0))
      else if new_size = 0 then (k_mm_free mmhead oldmem s, 0)
      else if ISFIXEDBLK s oldmem
      then (if new_size \<le> DEF_FIX_BLK_SIZE then (s, oldmem)
            else (case k_mm_alloc mmhead new_size s of (s1, ptr_aux) \<Rightarrow>
                   if ptr_aux \<noteq> 0 then (k_mm_smallblk_free oldmem (copy_bytes ptr_aux oldmem DEF_FIX_BLK_SIZE s1), ptr_aux) else (s1, 0)))
      else (let req_size = new_size;
                b = oldmem - MMLIST_HEAD_SIZE;
                tmp_size = bsize s b;
                next_b = NEXT_MM_BLK (buffer b) (bsize s b);
                new_size = realloc_size new_size
            in if new_size \<le> tmp_size then realloc_shrink b new_size req_size s
               else if sizew s next_b AND RHINO_MM_FREE \<noteq> 0 \<and> new_size \<le> tmp_size + bsize s next_b then realloc_grow b new_size req_size s
               else (case k_mm_alloc mmhead new_size s of (s1, ptr_aux) \<Rightarrow>
                  if ptr_aux = 0 then (s1, 0)
                  else (let cpsize = (if bsize s1 b > new_size then new_size else bsize s1 b)
                        in (k_mm_free mmhead oldmem (copy_bytes ptr_aux oldmem cpsize s1), ptr_aux)))))"

section \<open>Regions and initialisation\<close>

definition set_region :: "u32 \<Rightarrow> k_mm_region_info_t \<Rightarrow> mmsys \<Rightarrow> mmsys" where
  "set_region r v s = s\<lparr>mregs := (mregs s)(r := v)\<rparr>"

definition init_mm_region :: "u32 \<Rightarrow> u32 \<Rightarrow> mmsys \<Rightarrow> mmsys \<times> u32" where
  "init_mm_region regionaddr len s =
     (let firstblk = regionaddr;
          s1 = set_size firstblk (MM_ALIGN_UP sizeof_region_info) s;
          curblk = buffer firstblk + bsize s1 firstblk;
          s2 = set_size curblk (MM_ALIGN_DOWN (len - MMREGION_USED_SIZE)) s1;
          s3 = set_fnext curblk 0 (set_fprev curblk 0 s2);
          lastblk = NEXT_MM_BLK (buffer curblk) (bsize s3 curblk);
          s4 = set_mprev lastblk curblk s3;
          s5 = set_size lastblk RHINO_MM_PREVFREE s4
      in (set_region (buffer firstblk) \<lparr>rg_end = lastblk, rg_next = 0\<rparr> s5, firstblk))"

text \<open>The head after \<open>memset\<close>.\<close>

definition zero_head :: k_mm_head where
  "zero_head = \<lparr>regioninfo = 0, fixedmblk = 0, used_size = 0, maxused_size = 0, free_size = 0, mm_size_stats = replicate MAX_MM_BIT 0,
     fl_bitmap = 0, sl_bitmap = replicate FLT_SIZE 0, mm_tbl = replicate FLT_SIZE (replicate SLT_SIZE 0)\<rparr>"

text \<open>The pool for small requests at the start of the new heap. The fuel of the loop of \<open>krhino_mblk_pool_init\<close> is the length of the pool; \<open>None\<close> would be a loop that needs more.\<close>

definition init_fixed_pool :: "mmsys \<Rightarrow> mmsys option" where
  "init_fixed_pool s = (case k_mm_alloc True (RHINO_CONFIG_MM_TLF_BLK_SIZE + MM_ALIGN_UP sizeof_mblk_pool) s of (s1, mmblk_pool) \<Rightarrow>
     if mmblk_pool = 0 then Some s1
     else (let curblk = mmblk_pool - MMLIST_HEAD_SIZE in
       case krhino_mblk_pool_init (unat RHINO_CONFIG_MM_TLF_BLK_SIZE) (Some mmblk_pool) (Some ''fixed_mm_blk'') (mmblk_pool + MM_ALIGN_UP sizeof_mblk_pool)
          DEF_FIX_BLK_SIZE RHINO_CONFIG_MM_TLF_BLK_SIZE (mpool s1) of
         None \<Rightarrow> None
       | Some (p, stat) \<Rightarrow>
           (let s2 = s1\<lparr>mpool := p\<rparr>;
                s3 = (if stat = RHINO_SUCCESS then upd_head (\<lambda>h. h\<lparr>fixedmblk := curblk\<rparr>) s2 else k_mm_free True mmblk_pool s2)
            in Some (removesize RHINO_CONFIG_MM_TLF_BLK_SIZE s3))))"

definition krhino_init_mm_head :: "bool \<Rightarrow> u32 \<Rightarrow> u32 \<Rightarrow> mmsys \<Rightarrow> (mmsys \<times> kstat) option" where
  "krhino_init_mm_head ppmmhead addr len s =
     (if \<not> ppmmhead \<or> addr = 0 then Some (s, RHINO_NULL_PTR)
      else (let orig_addr = addr;
                addr = MM_ALIGN_UP addr;
                len = MM_ALIGN_DOWN (len - (addr - orig_addr))
            in if addr AND 3 \<noteq> 0 \<or> len \<noteq> MM_ALIGN_DOWN len then Some (s, RHINO_INV_ALIGN)
               else if len = 0 \<or> len < MIN_FREE_MEMORY_SIZE + RHINO_CONFIG_MM_TLF_BLK_SIZE \<or> len > MAX_MM_SIZE then Some (s, RHINO_MM_POOL_SIZE_ERR)
               else (let s1 = upd_head (\<lambda>_. zero_head) s in
                 case init_mm_region (addr + MM_ALIGN_UP sizeof_mm_head) (MM_ALIGN_DOWN (len - sizeof_mm_head)) s1 of (s2, firstblk) \<Rightarrow>
                   (let s3 = upd_head (\<lambda>h. h\<lparr>regioninfo := buffer firstblk\<rparr>) s2;
                        nextblk = NEXT_MM_BLK (buffer firstblk) (bsize s3 firstblk);
                        s4 = k_mm_free True (buffer nextblk) s3;
                        s5 = upd_head (\<lambda>h. h\<lparr>free_size := bsize s4 nextblk, used_size := len - bsize s4 nextblk,
                               maxused_size := len - bsize s4 nextblk, fixedmblk := 0\<rparr>) s4
                    in case init_fixed_pool s5 of None \<Rightarrow> None | Some s6 \<Rightarrow> Some (s6, RHINO_SUCCESS)))))"

definition krhino_deinit_mm_head :: "mmsys \<Rightarrow> mmsys \<times> kstat" where
  "krhino_deinit_mm_head s = (upd_head (\<lambda>_. zero_head) s, RHINO_SUCCESS)"

text \<open>
  The loop of \<open>krhino_add_mm_region\<close> over the known regions: the new area takes in the regions that touch it, at its end or at its start. \<open>None\<close>: the list of regions is longer than the fuel.
\<close>

definition unlink_region :: "u32 \<Rightarrow> u32 \<Rightarrow> mmsys \<Rightarrow> mmsys" where
  "unlink_region ptr ptr_prev s =
     (if regioninfo (mh s) = ptr then upd_head (\<lambda>h. h\<lparr>regioninfo := rg_next (mregs s ptr)\<rparr>) s
      else set_region ptr_prev ((mregs s ptr_prev)\<lparr>rg_next := rg_next (mregs s ptr)\<rparr>) s)"

fun merge_regions :: "nat \<Rightarrow> u32 \<Rightarrow> u32 \<Rightarrow> u32 \<Rightarrow> u32 \<Rightarrow> u32 \<Rightarrow> mmsys \<Rightarrow> (mmsys \<times> u32 \<times> u32 \<times> u32) option" where
  "merge_regions n ptr ptr_prev ib0 b0 lb0 s =
     (if ptr = 0 then Some (s, ib0, b0, lb0)
      else (case n of 0 \<Rightarrow> None | Suc n \<Rightarrow>
       (let ib1 = ptr - MMLIST_HEAD_SIZE;
            b1 = NEXT_MM_BLK (buffer ib1) (bsize s ib1);
            lb1 = rg_end (mregs s ptr);
            next = rg_next (mregs s ptr)
        in if ib1 = lb0 + MMLIST_HEAD_SIZE
           then (let s1 = unlink_region ptr ptr_prev s;
                     s2 = set_size b0 (MM_ALIGN_DOWN (bsize s1 b0 + bsize s1 ib1 + 2 * MMLIST_HEAD_SIZE)) s1
                 in merge_regions n next ptr_prev ib0 b0 lb1 (set_mprev b1 b0 s2))
           else if buffer lb1 = ib0
           then (let s1 = unlink_region ptr ptr_prev s;
                     s2 = set_size lb1 (MM_ALIGN_DOWN (bsize s1 b0 + bsize s1 ib0 + 2 * MMLIST_HEAD_SIZE) OR (sizew s1 lb1 AND RHINO_MM_PRESTAT_MASK)) s1;
                     next_b = NEXT_MM_BLK (buffer lb1) (bsize s2 lb1)
                 in merge_regions n next ptr_prev ib1 lb1 lb0 (set_mprev next_b lb1 s2))
           else merge_regions n next ptr ib0 b0 lb0 s)))"

definition zero_memory :: "u32 \<Rightarrow> u32 \<Rightarrow> mmsys \<Rightarrow> mmsys" where
  "zero_memory addr len s = s\<lparr>mbytes := (\<lambda>x. if x - addr < len then 0 else mbytes s x),
     mblks := (\<lambda>x. if x - addr < len then \<lparr>mm_prev = 0, mm_size = 0, free_prev = 0, free_next = 0\<rparr> else mblks s x)\<rparr>"

definition krhino_add_mm_region :: "nat \<Rightarrow> bool \<Rightarrow> u32 \<Rightarrow> u32 \<Rightarrow> mmsys \<Rightarrow> (mmsys \<times> kstat) option" where
  "krhino_add_mm_region n mmhead addr len s =
     (if \<not> mmhead \<or> addr = 0 then Some (s, RHINO_NULL_PTR)
      else if addr AND 3 \<noteq> 0 \<or> len \<noteq> MM_ALIGN_DOWN len then Some (s, RHINO_INV_ALIGN)
      else if len = 0 \<or> len < sizeof_region_info + sizeof_mm_list * 2 then Some (s, RHINO_MM_POOL_SIZE_ERR)
      else (case init_mm_region addr len (zero_memory addr len s) of (s1, ib0) \<Rightarrow>
        (let b0 = NEXT_MM_BLK (buffer ib0) (bsize s1 ib0);
             lb0 = NEXT_MM_BLK (buffer b0) (bsize s1 b0)
         in case merge_regions n (regioninfo (mh s1)) 0 ib0 b0 lb0 s1 of
              None \<Rightarrow> None
            | Some (s2, ib0, b0, lb0) \<Rightarrow>
                (let s3 = set_region (buffer ib0) \<lparr>rg_end = lb0, rg_next = regioninfo (mh s2)\<rparr> s2;
                     s4 = upd_head (\<lambda>h. h\<lparr>regioninfo := buffer ib0, used_size := used_size h + (bsize s3 b0 + MMLIST_HEAD_SIZE)\<rparr>) s3
                 in Some (k_mm_free True (buffer b0) s4, RHINO_SUCCESS)))))"

text \<open>The heap from a list of memory areas.\<close>

fun add_regions :: "nat \<Rightarrow> bool \<Rightarrow> (u32 \<times> u32) list \<Rightarrow> mmsys \<Rightarrow> mmsys option" where
  "add_regions n g_kmm_head [] s = Some s"
| "add_regions n g_kmm_head ((start, len) # rs) s =
     (case krhino_add_mm_region n g_kmm_head start len s of None \<Rightarrow> None | Some (s', _) \<Rightarrow> add_regions n g_kmm_head rs s')"

text \<open>The result says whether \<open>g_kmm_head\<close> has been set, which only a successful \<open>krhino_init_mm_head\<close> does; there is always a first area.\<close>

definition k_mm_init :: "nat \<Rightarrow> u32 \<times> u32 \<Rightarrow> (u32 \<times> u32) list \<Rightarrow> mmsys \<Rightarrow> (mmsys \<times> bool) option" where
  "k_mm_init n region0 rs s =
     (case krhino_init_mm_head True (fst region0) (snd region0) s of None \<Rightarrow> None
      | Some (s1, r) \<Rightarrow> (case add_regions n (r = RHINO_SUCCESS) rs s1 of None \<Rightarrow> None | Some s2 \<Rightarrow> Some (s2, r = RHINO_SUCCESS)))"

section \<open>The entry points\<close>

text \<open>\<open>g_kmm_head\<close> is set once the heap has been initialised; there is no hook and no owner in this configuration.\<close>

definition krhino_mm_alloc_heap :: "bool \<Rightarrow> u32 \<Rightarrow> mmsys \<Rightarrow> mmsys \<times> u32" where
  "krhino_mm_alloc_heap g_kmm_head sz s = (if sz = 0 then (s, 0) else k_mm_alloc g_kmm_head sz s)"

definition krhino_mm_free_heap :: "bool \<Rightarrow> u32 \<Rightarrow> mmsys \<Rightarrow> mmsys" where
  "krhino_mm_free_heap g_kmm_head ptr s = k_mm_free g_kmm_head ptr s"

definition krhino_mm_realloc_heap :: "bool \<Rightarrow> u32 \<Rightarrow> u32 \<Rightarrow> mmsys \<Rightarrow> mmsys \<times> u32" where
  "krhino_mm_realloc_heap g_kmm_head oldmem newsize s = k_mm_realloc g_kmm_head oldmem newsize s"

end
