(* ===== verification/Mm_Class.thy ===== *)
theory Mm_Class
  imports Mm
begin

unbundle bit_operations_syntax

text \<open>
  The size classes of the heap: what \<open>bitmap_search\<close> computes, as a function \<open>cls\<close> on natural numbers, with the least size \<open>class_base\<close> of each class. A block found in the class that is searched
  for, or in a greater one, is large enough; and a block that is larger than the rounded request is in such a class.
\<close>

section \<open>The position of the highest and the lowest bit\<close>

fun lg2 :: "nat \<Rightarrow> nat" where
  "lg2 n = (if n < 2 then 0 else Suc (lg2 (n div 2)))"

declare lg2.simps [simp del]

lemma lg2_bounds: "0 < n \<Longrightarrow> 2 ^ lg2 n \<le> n \<and> n < 2 ^ Suc (lg2 n)"
proof (induction n rule: lg2.induct)
  case (1 n)
  show ?case
  proof (cases "n < 2")
    case False
    then have "2 ^ lg2 (n div 2) \<le> n div 2 \<and> n div 2 < 2 ^ Suc (lg2 (n div 2))" using 1 by simp
    then show ?thesis using False by (subst (1 2) lg2.simps) auto
  qed (use 1 in \<open>simp add: lg2.simps\<close>)
qed

lemma lg2_unique: assumes "2 ^ k \<le> n" "n < 2 ^ Suc k" shows "lg2 n = k"
proof -
  have "0 < n" using assms(1) by (meson less_le_trans zero_less_numeral zero_less_power)
  note b = lg2_bounds [OF this]
  have "(2::nat) ^ lg2 n < 2 ^ Suc k" "(2::nat) ^ k < 2 ^ Suc (lg2 n)" using b assms by linarith+
  then have "lg2 n < Suc k" "k < Suc (lg2 n)" by (meson one_less_numeral_iff power_less_imp_less_exp semiring_norm(76))+
  then show ?thesis by simp
qed

lemma top_bit_spec:
  assumes "w \<noteq> 0"
  shows "top_bit w = of_nat (lg2 (unat w))" "lg2 (unat w) < 32"
proof -
  have "\<exists>n. bitmap_test [w] n"
  proof -
    obtain i where "bit w i" using assms by (metis bit_0_eq bit_eqI bot_apply bot_bool_def)
    then show ?thesis by (intro exI [of _ "31 - i"]) (use bit_imp_le_length [of w i] in \<open>auto simp: bitmap_test_def\<close>)
  qed
  then obtain n where n: "krhino_find_first_bit [w] = Some n" using find_first_bit_None [of "[w]"] by fastforce
  note f = find_first_bit_Some [OF n]
  then have n31: "n < 32" by (simp add: bitmap_test_def div_eq_0_iff)
  then have b: "bit w (31 - n)" using f by (simp add: bitmap_test_def)
  have up: "\<not> bit w i" if "31 - n < i" for i
  proof (cases "i < 32")
    case True
    then have "\<not> bitmap_test [w] (31 - i)" using f that n31 by auto
    then show ?thesis using True by (simp add: bitmap_test_def)
  qed (use bit_imp_le_length in fastforce)
  have "unat w < 2 ^ Suc (31 - n)"
  proof -
    have "take_bit (Suc (31 - n)) w = w"
      by (rule bit_eqI) (use up in \<open>auto simp: bit_take_bit_iff intro: ccontr\<close>)
    then show ?thesis by (metis take_bit_nat_less_exp unsigned_take_bit_eq)
  qed
  moreover have "2 ^ (31 - n) \<le> unat w"
  proof -
    have "odd (unat w div 2 ^ (31 - n))" using b by (simp add: bit_unsigned_iff bit_iff_odd [symmetric])
    then show ?thesis by (cases "unat w < 2 ^ (31 - n)") auto
  qed
  ultimately have l: "lg2 (unat w) = 31 - n" by (intro lg2_unique)
  show "lg2 (unat w) < 32" using l by simp
  show "top_bit w = of_nat (lg2 (unat w))" using n n31 l by (simp add: top_bit_def of_nat_diff)
qed

lemma lowest_bit:
  assumes "bit w j" "\<forall>i<j. \<not> bit w i" "j < 32"
  shows "w AND - w = push_bit j (1 :: u32)"
proof -
  define x where "x = drop_bit j w"
  have w: "w = push_bit j x"
  proof (rule bit_eqI)
    fix n assume "possible_bit TYPE(u32) n"
    then show "bit w n = bit (push_bit j x) n"
      using assms(2) by (cases "n < j") (auto simp: x_def bit_push_bit_iff bit_drop_bit_eq dest: bit_imp_le_length)
  qed
  have x0: "bit x 0" using assms(1) by (simp add: x_def bit_drop_bit_eq)
  have "- x = NOT x OR 1"
  proof -
    have "- x = NOT x + 1" by (simp add: not_eq_complement)
    moreover have "NOT x AND 1 = 0" using x0 by (intro bit_eqI) (auto simp: bit_and_iff bit_not_iff bit_1_iff)
    ultimately show ?thesis by (simp add: disjunctive_add_eq_or)
  qed
  then have "x AND - x = 1" using x0 by (intro bit_eqI) (auto simp: bit_and_iff bit_or_iff bit_not_iff bit_1_iff)
  moreover have "- w = push_bit j (- x)" by (simp add: w push_bit_eq_mult)
  ultimately show ?thesis by (simp add: w push_bit_and [symmetric])
qed

lemma lg2_pow: "lg2 (2 ^ k) = k"
  by (rule lg2_unique) simp_all

lemma unat_2p: assumes "j < 32" shows "unat (push_bit j 1 :: u32) = 2 ^ j"
proof -
  have "(2::nat) ^ j < 2 ^ 32" using assms by (intro power_strict_increasing) auto
  then have "unat (of_nat (2 ^ j) :: u32) = 2 ^ j" by (simp only: unat_of_nat) (simp add: take_bit_nat_eq_self)
  then show ?thesis by (simp add: push_bit_eq_mult)
qed

lemma find_last_bit_spec:
  assumes "w \<noteq> 0"
  shows "\<exists>j<32. find_last_bit w = of_nat j \<and> bit w j \<and> (\<forall>i<j. \<not> bit w i)"
proof -
  obtain i where i: "bit w i" using assms by (metis bit_0_eq bit_eqI bot_apply bot_bool_def)
  define j where "j = (LEAST i. bit w i)"
  have j: "bit w j" "\<forall>i<j. \<not> bit w i" using LeastI [of "bit w" i] i not_less_Least by (auto simp: j_def)
  then have j32: "j < 32" using bit_imp_le_length by fastforce
  have "find_last_bit w = of_nat j"
    using assms lowest_bit [OF j j32] top_bit_spec [of "push_bit j 1"] unat_2p [OF j32] j32 by (cases "push_bit j 1 = (0 :: u32)") (simp_all add: find_last_bit_def lg2_pow)
  then show ?thesis using j j32 by blast
qed

section \<open>Classes\<close>

definition cls :: "nat \<Rightarrow> nat \<times> nat" where
  "cls n = (if n < 128 then (0, n div 4) else (lg2 n - 6, (n - 2 ^ lg2 n) div 2 ^ (lg2 n - 5)))"

definition class_base :: "nat \<Rightarrow> nat \<Rightarrow> nat" where
  "class_base i j = (if i = 0 then 4 * j else 2 ^ (i + 6) + j * 2 ^ (i + 1))"

definition le2 :: "nat \<times> nat \<Rightarrow> nat \<times> nat \<Rightarrow> bool" where
  "le2 p q \<longleftrightarrow> fst p < fst q \<or> fst p = fst q \<and> snd p \<le> snd q"

lemma lg2_large: assumes "128 \<le> n" shows "7 \<le> lg2 n"
proof -
  have "(2::nat) ^ 7 < 2 ^ Suc (lg2 n)" using lg2_bounds [of n] assms by simp
  then have "7 < Suc (lg2 n)" by (meson one_less_numeral_iff power_less_imp_less_exp semiring_norm(76))
  then show ?thesis by simp
qed

lemma lg2_less: assumes "0 < n" "n < 2 ^ k" shows "lg2 n < k"
proof -
  have "(2::nat) ^ lg2 n < 2 ^ k" using lg2_bounds [OF assms(1)] assms(2) by linarith
  then show ?thesis by (meson one_less_numeral_iff power_less_imp_less_exp semiring_norm(76))
qed

lemma cls_large:
  assumes "128 \<le> n" "cls n = (i, j)"
  shows "lg2 n = i + 6" "1 \<le> i" "j = (n - 2 ^ (i + 6)) div 2 ^ (i + 1)"
proof -
  show l: "lg2 n = i + 6" "1 \<le> i" using assms lg2_large [OF assms(1)] by (auto simp: cls_def)
  show "j = (n - 2 ^ (i + 6)) div 2 ^ (i + 1)" using assms by (simp add: cls_def l(1))
qed

lemma cls_bounds:
  assumes "cls n = (i, j)"
  shows "j < 32" "class_base i j \<le> n" "n < class_base i (Suc j)" "n < 2 ^ (i + 7)"
proof -
  have "j < 32 \<and> class_base i j \<le> n \<and> n < class_base i (Suc j) \<and> n < 2 ^ (i + 7)"
  proof (cases "n < 128")
    case True
    then show ?thesis using assms by (auto simp: cls_def class_base_def)
  next
    case False
    define w :: nat where "w = 2 ^ (i + 1)"
    have l: "lg2 n = i + 6" "1 \<le> i" and j: "j = (n - 2 ^ (i + 6)) div w" using cls_large [OF _ assms] False by (simp_all add: w_def)
    have b: "2 ^ (i + 6) \<le> n" "n < 2 ^ (i + 7)" using lg2_bounds [of n] False l(1) by (simp_all add: add.commute)
    have p: "(2::nat) ^ (i + 6) = 32 * w" "(2::nat) ^ (i + 7) = 64 * w" "0 < w" by (simp_all add: w_def power_add)
    have "j < 32" using b by (simp add: j p div_less_iff_less_mult mult.commute)
    moreover have "j * w \<le> n - 32 * w" "n - 32 * w < Suc j * w"
      using j p(3) by (simp_all add: p(1) dividend_less_times_div mult.commute add.commute)
    moreover have "class_base i j = 32 * w + j * w" "class_base i (Suc j) = 32 * w + Suc j * w" using l(2) by (simp_all add: class_base_def w_def power_add)
    ultimately show ?thesis using b unfolding p(1) by (intro conjI) (assumption | simp | linarith)+
  qed
  then show "j < 32" "class_base i j \<le> n" "n < class_base i (Suc j)" "n < 2 ^ (i + 7)" by auto
qed

lemma base_mono: assumes "le2 (i, j) (i', j')" "j < 32" shows "class_base i j \<le> class_base i' j'"
proof (cases "i < i'")
  case True
  have "class_base i j \<le> 2 ^ (i + 7)" using assms(2) by (cases "i = 0") (auto simp: class_base_def power_add)
  also have "\<dots> \<le> (2::nat) ^ (i' + 6)" using True by (intro power_increasing) auto
  also have "\<dots> \<le> class_base i' j'" using True by (simp add: class_base_def)
  finally show ?thesis .
next
  case False
  then show ?thesis using assms(1) by (auto simp: le2_def class_base_def)
qed

lemma cls_mono: assumes "m \<le> n" shows "le2 (cls m) (cls n)"
proof (rule ccontr)
  assume a: "\<not> le2 (cls m) (cls n)"
  obtain i j i' j' where c: "cls m = (i, j)" "cls n = (i', j')" by (metis surj_pair)
  have "n < class_base i j"
  proof (cases "i' < i")
    case True
    have "n < 2 ^ (i' + 7)" by (rule cls_bounds(4) [OF c(2)])
    also have "\<dots> \<le> (2::nat) ^ (i + 6)" using True by (intro power_increasing) auto
    also have "\<dots> \<le> class_base i j" using True by (simp add: class_base_def)
    finally show ?thesis .
  next
    case False
    then have "i = i'" "j' < j" using a c by (auto simp: le2_def)
    then have "class_base i' (Suc j') \<le> class_base i j" using cls_bounds(1) [OF c(1)] by (intro base_mono) (auto simp: le2_def)
    then show ?thesis using cls_bounds(3) [OF c(2)] by simp
  qed
  then show False using cls_bounds(2) [OF c(1)] assms by simp
qed

lemma cls_fst_less: assumes "0 < n" "n < 2 ^ 20" "cls n = (i, j)" shows "i < 14"
proof (cases "n < 128")
  case False
  then show ?thesis using cls_large(1) [OF _ assms(3)] lg2_less [OF assms(1,2)] by simp
qed (use assms in \<open>simp add: cls_def\<close>)

section \<open>What \<open>bitmap_search\<close> computes\<close>

lemma small_word [simp]: "n < 32 \<Longrightarrow> unat (of_nat n :: u32) = n"
  by (simp add: unat_of_nat take_bit_nat_eq_self)

text \<open>The computation behind the case distinction, for a word \<open>t\<close> with the highest bit \<open>k\<close>.\<close>

lemma class_word:
  assumes "128 \<le> unat (t :: u32)" "k = lg2 (unat t)"
  shows "of_nat k - of_nat MIN_FLT_BIT + 1 = (of_nat (k - 6) :: u32)"
    "drop_bit (unat (of_nat k - of_nat MAX_LOG2_SLT :: u32)) (t - push_bit (unat (of_nat k :: u32)) 1)
      = (of_nat ((unat t - 2 ^ k) div 2 ^ (k - 5)) :: u32)"
proof -
  have k: "7 \<le> k" "k < 32" "2 ^ k \<le> unat t"
    using lg2_large [OF assms(1)] lg2_less [of "unat t" 32] unsigned_less [of t, where ?'a = nat] lg2_bounds [of "unat t"] assms by auto
  show "of_nat k - of_nat MIN_FLT_BIT + 1 = (of_nat (k - 6) :: u32)" using k by (simp add: MIN_FLT_BIT_def of_nat_diff)
  have e: "of_nat k - of_nat MAX_LOG2_SLT = (of_nat (k - 5) :: u32)" using k by (simp add: MAX_LOG2_SLT_def of_nat_diff)
  have s: "unat (of_nat k - of_nat MAX_LOG2_SLT :: u32) = k - 5" unfolding e by (rule small_word) (use k in simp)
  have u: "unat (t - push_bit k 1) = unat t - 2 ^ k" using k unat_2p [of k] by (simp add: unat_sub word_le_nat_alt)
  show "drop_bit (unat (of_nat k - of_nat MAX_LOG2_SLT :: u32)) (t - push_bit (unat (of_nat k :: u32)) 1)
      = (of_nat ((unat t - 2 ^ k) div 2 ^ (k - 5)) :: u32)"
  proof -
    have "(unat t - 2 ^ k) div 2 ^ (k - 5) \<le> unat t - 2 ^ k" by (rule div_le_dividend)
    also have "\<dots> < 2 ^ 32" using unsigned_less [of t, where ?'a = nat] by (simp add: less_imp_diff_less)
    finally have "unat (of_nat ((unat t - 2 ^ k) div 2 ^ (k - 5)) :: u32) = (unat t - 2 ^ k) div 2 ^ (k - 5)"
      by (simp only: unat_of_nat) (simp add: take_bit_nat_eq_self)
    moreover have "unat (drop_bit (k - 5) (t - push_bit k 1)) = (unat t - 2 ^ k) div 2 ^ (k - 5)"
      unfolding unsigned_drop_bit_eq u using unsigned_less [of t, where ?'a = nat] by (simp add: take_bit_nat_eq_self drop_bit_eq_div)
    ultimately show ?thesis unfolding s small_word [OF k(2)] word_unat_eq_iff by simp
  qed
qed

lemma small_class: assumes "unat (sz :: u32) < 128" shows "drop_bit (MIN_FLT_BIT - MAX_LOG2_SLT) sz = of_nat (unat sz div 4)"
  using assms by (simp add: MIN_FLT_BIT_def MAX_LOG2_SLT_def word_unat_eq_iff unsigned_drop_bit_eq drop_bit_eq_div unat_div)

lemma min_flt_size: "sz < MIN_FLT_SIZE \<longleftrightarrow> unat sz < 128"
  by (simp add: MIN_FLT_SIZE_def MIN_FLT_BIT_def word_less_nat_alt)

lemma sizes_num: "FLT_SIZE = 14" "SLT_SIZE = 32"
  by (simp_all add: FLT_SIZE_def SLT_SIZE_def MAX_MM_BIT_def MIN_FLT_BIT_def MAX_LOG2_SLT_def)

lemma class_status:
  assumes "i < 32" "j < 32"
  shows "(if (of_nat i :: u32) \<ge> of_nat FLT_SIZE \<or> (of_nat j :: u32) \<ge> of_nat SLT_SIZE then RHINO_MM_FREE_ADDR_ERR else RHINO_SUCCESS)
    = (if i < 14 then RHINO_SUCCESS else RHINO_MM_FREE_ADDR_ERR)"
  using assms by (simp add: sizes_num word_le_nat_alt unat_of_nat take_bit_nat_eq_self)

definition rounded :: "nat \<Rightarrow> nat" where
  "rounded n = (if n < 128 then n else n + (2 ^ (lg2 n - 5) - 1))"

lemma rounded_ge: "n \<le> rounded n"
  unfolding rounded_def by (cases "n < 128") (simp_all only: if_True if_False le_add1 order_refl)

lemma bitmap_search_insert:
  assumes "cls (unat sz) = (i, j)"
  shows "bitmap_search sz ACTION_INSERT = (of_nat i, of_nat j, if i < 14 then RHINO_SUCCESS else RHINO_MM_FREE_ADDR_ERR)" "i < 32" "j < 32"
proof -
  show j: "j < 32" using cls_bounds(1) [OF assms] .
  have lt: "unat sz < 2 ^ 32" using unsigned_less [of sz, where ?'a = nat] by simp
  show i: "i < 32"
    using assms cls_large(1) [OF _ assms] lg2_less [of "unat sz" 32] lt by (cases "unat sz < 128") (auto simp: cls_def)
  show "bitmap_search sz ACTION_INSERT = (of_nat i, of_nat j, if i < 14 then RHINO_SUCCESS else RHINO_MM_FREE_ADDR_ERR)"
  proof (cases "unat sz < 128")
    case True
    then have "i = 0" "j = unat sz div 4" using assms by (auto simp: cls_def)
    then show ?thesis using True class_status [OF i j] by (simp add: bitmap_search_def min_flt_size small_class)
  next
    case False
    then have "sz \<noteq> 0" "i = lg2 (unat sz) - 6" "j = (unat sz - 2 ^ lg2 (unat sz)) div 2 ^ (lg2 (unat sz) - 5)" using assms by (auto simp: cls_def)
    then show ?thesis
      using False class_status [OF i j] class_word [of sz, OF _ refl] by (simp add: bitmap_search_def min_flt_size top_bit_spec Let_def)
  qed
qed

lemma bitmap_search_get:
  assumes "unat sz \<le> 2 ^ 31" "cls (rounded (unat sz)) = (i, j)"
  shows "bitmap_search sz ACTION_GET = (of_nat i, of_nat j, if i < 14 then RHINO_SUCCESS else RHINO_MM_FREE_ADDR_ERR)" "i < 32" "j < 32"
proof -
  show j: "j < 32" using cls_bounds(1) [OF assms(2)] .
  define k where "k = lg2 (unat sz)"
  define t where "t = sz + (2 ^ (k - 5) - 1)"
  have t: "unat t = rounded (unat sz)" "k < 32" "sz \<noteq> 0" if "128 \<le> unat sz"
  proof -
    show s0: "sz \<noteq> 0" using that by auto
    show k: "k < 32" using top_bit_spec(2) [OF s0] by (simp add: k_def)
    have "unat (2 ^ (k - 5) - 1 :: u32) = 2 ^ (k - 5) - 1" using k unat_2p [of "k - 5"] by (subst unat_sub) (auto simp: word_le_nat_alt)
    moreover have "(2::nat) ^ (k - 5) \<le> 2 ^ 26" using k by (intro power_increasing) auto
    ultimately show "unat t = rounded (unat sz)"
      using assms(1) that by (simp add: t_def rounded_def k_def [symmetric] unat_word_ariths)
  qed
  have "rounded (unat sz) < 2 ^ 32"
    using t(1) unsigned_less [of t, where ?'a = nat] by (cases "unat sz < 128") (auto simp: rounded_def)
  then show i: "i < 32"
    using assms cls_large(1) [OF _ assms(2)] lg2_less [of "rounded (unat sz)" 32] by (cases "rounded (unat sz) < 128") (auto simp: cls_def)
  show "bitmap_search sz ACTION_GET = (of_nat i, of_nat j, if i < 14 then RHINO_SUCCESS else RHINO_MM_FREE_ADDR_ERR)"
  proof (cases "unat sz < 128")
    case True
    then have "i = 0" "j = unat sz div 4" using assms by (auto simp: cls_def rounded_def)
    then show ?thesis using True class_status [OF i j] by (simp add: bitmap_search_def min_flt_size small_class)
  next
    case False
    note t = t [OF leI [OF False]]
    have t128: "128 \<le> unat t" "t \<noteq> 0" using False rounded_ge [of "unat sz"] unfolding t(1) [symmetric] by auto
    have "7 \<le> k" using lg2_large [of "unat sz"] False by (simp add: k_def)
    then have e: "of_nat k - of_nat MAX_LOG2_SLT = (of_nat (k - 5) :: u32)" by (simp add: MAX_LOG2_SLT_def of_nat_diff)
    have "unat (top_bit sz - of_nat MAX_LOG2_SLT) = k - 5"
      unfolding top_bit_spec [OF t(3)] k_def [symmetric] e by (rule small_word) (use t(2) in simp)
    moreover have "i = lg2 (unat t) - 6" "j = (unat t - 2 ^ lg2 (unat t)) div 2 ^ (lg2 (unat t) - 5)"
      using assms(2) t128 by (auto simp: cls_def t(1))
    ultimately show ?thesis
      using False class_status [OF i j] class_word [OF t128(1) refl] t128(2)
      by (simp add: bitmap_search_def min_flt_size t_def [symmetric] top_bit_spec Let_def)
  qed
qed

section \<open>A block from a searched class fits\<close>

lemma base_rounded:
  assumes "n < 128 \<Longrightarrow> 4 dvd n" "cls (rounded n) = (i, j)"
  shows "n \<le> class_base i j"
proof (cases "n < 128")
  case True
  then have "i = 0" "j = n div 4" using assms(2) by (auto simp: cls_def rounded_def)
  then show ?thesis using assms(1) True by (simp add: class_base_def)
next
  case False
  define k w where "k = lg2 n" and "w = (2::nat) ^ (k - 5)"
  have k: "7 \<le> k" "2 ^ k \<le> n" "n < 2 ^ Suc k" using lg2_large [of n] lg2_bounds [of n] False by (simp_all add: k_def)
  define r where "r = n + (w - 1)"
  have r: "rounded n = r" "n \<le> r" using False by (simp_all only: rounded_def r_def w_def k_def if_False le_add1)
  then have r128: "128 \<le> r" using False by simp
  have w: "0 < w" "(2::nat) ^ k = 32 * w"
  proof -
    have "(2::nat) ^ k = 2 ^ 5 * 2 ^ (k - 5)" using k(1) by (simp only: power_add [symmetric]) simp
    then show "(2::nat) ^ k = 32 * w" by (simp add: w_def)
  qed (simp add: w_def)
  note c = cls_large [OF r128 assms(2) [unfolded r(1)]]
  show ?thesis
  proof (cases "r < 2 ^ Suc k")
    case True
    then have ik: "i + 6 = k" using lg2_unique [of k r] k(2) r(2) c(1) by simp
    then have e: "2 ^ (i + 1) = w" by (simp add: w_def flip: ik)
    have j: "j = (r - 2 ^ k) div w" using c(3) by (simp only: ik e)
    have "r - 2 ^ k < (j + 1) * w" using dividend_less_div_times [OF w(1), of "r - 2 ^ k"] by (simp add: j)
    then have "n < 2 ^ k + j * w + 1" using r(2) k(2) w(1) unfolding r_def by (simp add: algebra_simps)
    then show ?thesis using c(2) by (simp only: class_base_def ik e) simp
  next
    case False
    have "lg2 r = i + 6" by (rule c(1))
    then have "r < 2 ^ Suc (i + 6)" using lg2_bounds [of r] r128 by simp
    then have "(2::nat) ^ Suc k < 2 ^ Suc (i + 6)" using False by simp
    then have "Suc k < Suc (i + 6)" by (meson one_less_numeral_iff power_less_imp_less_exp semiring_norm(76))
    then have "(2::nat) ^ Suc k \<le> 2 ^ (i + 6)" by (intro power_increasing) auto
    then show ?thesis using k(3) c(2) by (simp add: class_base_def)
  qed
qed

lemma class_fits:
  assumes "n < 128 \<Longrightarrow> 4 dvd n" "le2 (cls (rounded n)) (cls m)"
  shows "n \<le> m"
proof -
  obtain i j i' j' where c: "cls (rounded n) = (i, j)" "cls m = (i', j')" by (metis surj_pair)
  have "n \<le> class_base i j" by (rule base_rounded [OF assms(1) c(1)])
  also have "\<dots> \<le> class_base i' j'" using assms(2) c cls_bounds(1) [OF c(1)] by (intro base_mono) simp_all
  also have "\<dots> \<le> m" by (rule cls_bounds(2) [OF c(2)])
  finally show ?thesis .
qed

text \<open>The rounding costs at most a thirty-second part of the request.\<close>

lemma rounded_le: "rounded n \<le> n + n div 32"
proof (cases "n < 128")
  case False
  have "2 ^ lg2 n \<le> n" "7 \<le> lg2 n" using lg2_bounds [of n] lg2_large [of n] False by simp_all
  moreover have "(2::nat) ^ lg2 n = 2 ^ (lg2 n - 5) * 2 ^ 5" if "5 \<le> lg2 n" using that by (simp only: power_add [symmetric]) simp
  ultimately have "2 ^ (lg2 n - 5) * 32 \<le> n" by simp
  then have "2 ^ (lg2 n - 5) \<le> n div 32" by (simp add: less_eq_div_iff_mult_less_eq)
  then show ?thesis using False by (simp add: rounded_def)
qed (simp add: rounded_def)

end
