(* ===== verification/Mm_Inv.thy ===== *)
theory Mm_Inv
  imports Mm_Class
begin

unbundle bit_operations_syntax

text \<open>
  What holds of the heap between two operations. The list \<open>B\<close> of triples (address, size, free) describes the blocks in memory, region after region; each region ends with a block of size 0.
  \<open>seg\<close> says that the headers agree with the list, that neighbours are adjacent in memory and never both free, and that a block behind a free one points back to it. \<open>tables\<close> says that the
  free lists \<open>L\<close>, the table of their heads and the two levels of bitmaps agree.
\<close>

section \<open>The size word of a header\<close>

definition mk :: "u32 \<Rightarrow> bool \<Rightarrow> bool \<Rightarrow> u32" where
  "mk n f p = n + (of_bool f + 2 * of_bool p)"

lemma mm_masks: "RHINO_MM_BLKSIZE_MASK = - 4" "RHINO_MM_FREE = 1" "RHINO_MM_PREVFREE = 2" "RHINO_MM_PRESTAT_MASK = 2"
  by (simp_all add: RHINO_MM_BLKSIZE_MASK_def RHINO_MM_FREE_def RHINO_MM_PREVFREE_def RHINO_MM_PRESTAT_MASK_def)

lemma al_mask: "n AND 3 = 0 \<Longrightarrow> n AND - 4 = (n :: u32)"
proof -
  assume "n AND 3 = 0"
  then have "(n AND 3) OR (n AND NOT 3) = n AND NOT 3" by simp
  then show ?thesis by (simp add: bit.conj_disj_distrib [symmetric])
qed

lemma mk_or: assumes "n AND 3 = 0" shows "mk n f p = n OR (of_bool f OR (if p then 2 else 0))"
proof -
  have "n AND c = 0" if "c AND 3 = c" for c
  proof -
    have "n AND c = n AND (3 AND c)" using that by (simp add: and.commute)
    then show ?thesis using assms by (simp add: and.assoc [symmetric])
  qed
  then have "n AND 1 = 0" "n AND 2 = 0" "n AND 3 = 0" by simp_all
  then have "n + 1 = n OR 1" "n + 2 = n OR 2" "n + 3 = n OR 3" by (simp_all add: disjunctive_add_eq_or)
  then show ?thesis by (cases f; cases p) (simp_all add: mk_def)
qed

lemma mk_bits [simp]:
  assumes "n AND 3 = 0"
  shows "mk n f p AND - 4 = n" "mk n f p AND 1 = of_bool f" "mk n f p AND 2 = (if p then 2 else 0)"
    "mk n f p OR 1 = mk n True p" "mk n f p OR 2 = mk n f True" "mk n f p AND - 2 = mk n False p" "mk n f p AND - 3 = mk n f False"
    "n OR 1 = mk n True False" "n OR (if p then 2 else 0) = mk n False p"
proof -
  have n: "n AND 1 = 0" "n AND 2 = 0" "n AND - 2 = n" "n AND - 3 = n"
  proof -
    have e: "n AND c = n AND (- 4 AND c)" for c by (simp only: and.assoc [symmetric] al_mask [OF assms])
    show "n AND 1 = 0" "n AND 2 = 0" by (subst e, simp)+
    show "n AND - 2 = n" "n AND - 3 = n" by (subst e, simp add: al_mask [OF assms])+
  qed
  note d = bit.conj_disj_distrib2
  show "mk n f p AND - 4 = n" by (cases f; cases p) (simp_all add: mk_or [OF assms] d al_mask [OF assms])
  show "mk n f p AND 1 = of_bool f" by (cases f; cases p) (simp_all add: mk_or [OF assms] d n)
  show "mk n f p AND 2 = (if p then 2 else 0)" by (cases f; cases p) (simp_all add: mk_or [OF assms] d n)
  show "mk n f p OR 1 = mk n True p" by (cases f; cases p) (simp_all add: mk_or [OF assms] or.assoc)
  show "mk n f p OR 2 = mk n f True" by (cases f; cases p) (simp_all add: mk_or [OF assms] or.assoc)
  show "mk n f p AND - 2 = mk n False p" by (cases f; cases p) (simp_all add: mk_or [OF assms] d n)
  show "mk n f p AND - 3 = mk n f False" by (cases f; cases p) (simp_all add: mk_or [OF assms] d n)
  show "n OR 1 = mk n True False" by (simp add: mk_or [OF assms])
  show "n OR (if p then 2 else 0) = mk n False p" by (cases p) (simp_all add: mk_or [OF assms])
qed

section \<open>Projections\<close>

lemma upd_mblk_proj [simp]:
  "mh (upd_mblk b f s) = mh s" "mpool (upd_mblk b f s) = mpool s" "mbytes (upd_mblk b f s) = mbytes s" "mregs (upd_mblk b f s) = mregs s"
  "mm_errs (upd_mblk b f s) = mm_errs s" "mblks (upd_mblk b f s) x = (if x = b then f (mblks s b) else mblks s x)"
  by (simp_all add: upd_mblk_def)

lemma upd_head_proj [simp]:
  "mh (upd_head f s) = f (mh s)" "mpool (upd_head f s) = mpool s" "mbytes (upd_head f s) = mbytes s" "mregs (upd_head f s) = mregs s"
  "mm_errs (upd_head f s) = mm_errs s" "mblks (upd_head f s) = mblks s"
  by (simp_all add: upd_head_def)

lemmas set_defs = set_size_def set_mprev_def set_fprev_def set_fnext_def

lemma stats_proj [simp]:
  "mblks (addsize a b s) = mblks s" "mblks (removesize a s) = mblks s" "mpool (addsize a b s) = mpool s" "mpool (removesize a s) = mpool s"
  "mbytes (addsize a b s) = mbytes s" "mbytes (removesize a s) = mbytes s" "mregs (addsize a b s) = mregs s" "mregs (removesize a s) = mregs s"
  "mm_errs (addsize a b s) = mm_errs s" "mm_errs (removesize a s) = mm_errs s"
  "fixedmblk (mh (addsize a b s)) = fixedmblk (mh s)" "fixedmblk (mh (removesize a s)) = fixedmblk (mh s)" "regioninfo (mh (addsize a b s)) = regioninfo (mh s)" "regioninfo (mh (removesize a s)) = regioninfo (mh s)" "mregs (addsize a b s) = mregs s" "mregs (removesize a s) = mregs s"
  "mm_tbl (mh (addsize a b s)) = mm_tbl (mh s)" "mm_tbl (mh (removesize a s)) = mm_tbl (mh s)"
  "sl_bitmap (mh (addsize a b s)) = sl_bitmap (mh s)" "sl_bitmap (mh (removesize a s)) = sl_bitmap (mh s)"
  "fl_bitmap (mh (addsize a b s)) = fl_bitmap (mh s)" "fl_bitmap (mh (removesize a s)) = fl_bitmap (mh s)"
  by (simp_all add: addsize_def removesize_def Let_def)

section \<open>Doubly linked lists\<close>

definition hdd :: "u32 list \<Rightarrow> u32 \<Rightarrow> u32" where
  "hdd xs q = (case xs of [] \<Rightarrow> q | x # _ \<Rightarrow> x)"

lemma hdd_simps [simp]: "hdd [] q = q" "hdd (x # xs) q = x"
  by (simp_all add: hdd_def)

text \<open>The list \<open>xs\<close>, linked in both directions, between \<open>p\<close> and \<open>q\<close>.\<close>

fun dll :: "(u32 \<Rightarrow> k_mm_list_t) \<Rightarrow> u32 \<Rightarrow> u32 list \<Rightarrow> u32 \<Rightarrow> bool" where
  "dll H p [] q \<longleftrightarrow> True"
| "dll H p (x # xs) q \<longleftrightarrow> free_prev (H x) = p \<and> free_next (H x) = hdd xs q \<and> dll H x xs q"

lemma dll_append: "dll H p (xs @ ys) q \<longleftrightarrow> dll H p xs (hdd ys q) \<and> dll H (if xs = [] then p else last xs) ys q"
  by (induction xs arbitrary: p) (auto simp: hdd_def split: list.splits)

lemma dll_cong:
  assumes "\<And>x. x \<in> set xs \<Longrightarrow> free_prev (H' x) = free_prev (H x) \<and> free_next (H' x) = free_next (H x)"
  shows "dll H' p xs q = dll H p xs q"
  using assms by (induction xs arbitrary: p) auto

text \<open>Changing what is in front of the list changes only the back link of its first node, and what is behind only the link of its last.\<close>

lemma dll_front:
  assumes "dll H p xs q" "distinct xs" "\<And>x. x \<in> set xs \<Longrightarrow> free_next (H' x) = free_next (H x)"
    "\<And>x. x \<in> set xs \<Longrightarrow> free_prev (H' x) = (if x = hd xs then p' else free_prev (H x))"
  shows "dll H' p' xs q"
proof (cases xs)
  case (Cons y ys)
  have "dll H' y ys q = dll H y ys q" using assms(2-4) Cons by (intro dll_cong) auto
  then show ?thesis using assms(1,3,4) Cons by simp
qed simp

lemma dll_back:
  assumes "dll H p xs q" "distinct xs" "\<And>x. x \<in> set xs \<Longrightarrow> free_prev (H' x) = free_prev (H x)"
    "\<And>x. x \<in> set xs \<Longrightarrow> free_next (H' x) = (if x = last xs then q' else free_next (H x))"
  shows "dll H' p xs q'"
proof (cases xs rule: rev_cases)
  case (snoc ys y)
  have "dll H' p ys y = dll H p ys y" using assms(2-4) snoc by (intro dll_cong) auto
  then show ?thesis using assms(1,3,4) snoc by (simp add: dll_append)
qed simp

section \<open>The tables of the free lists\<close>

type_synonym flists = "nat \<Rightarrow> nat \<Rightarrow> u32 list"

definition on_lists :: "flists \<Rightarrow> u32 \<Rightarrow> bool" where
  "on_lists L b \<longleftrightarrow> (\<exists>i<14. \<exists>j<32. b \<in> set (L i j))"

definition upd_list :: "nat \<Rightarrow> nat \<Rightarrow> u32 list \<Rightarrow> flists \<Rightarrow> flists" where
  "upd_list i j xs L = L(i := (L i)(j := xs))"

lemma upd_list_app [simp]: "upd_list i j xs L k l = (if k = i \<and> l = j then xs else L k l)"
  by (simp add: upd_list_def)

lemma word_set_bit: assumes "j < 32" shows "bit (word_set w (31 - j)) k \<longleftrightarrow> k = j \<or> bit w k"
proof (cases "k < 32")
  case True
  have "31 - (31 - j) mod 32 = j" using assms by simp
  then show ?thesis using True bit_BITMAP_MASK [of k "31 - j"] by (auto simp: word_set_def krhino_bitmap_set_def BITMAP_WORD_div bit_or_iff)
qed (use assms bit_imp_le_length in fastforce)

lemma word_clear_bit: assumes "j < 32" shows "bit (word_clear w (31 - j)) k \<longleftrightarrow> k \<noteq> j \<and> bit w k"
proof (cases "k < 32")
  case True
  have "31 - (31 - j) mod 32 = j" using assms by simp
  then show ?thesis using True bit_BITMAP_MASK [of k "31 - j"]
    by (auto simp: word_clear_def krhino_bitmap_clear_def BITMAP_WORD_div bit_and_iff bit_not_iff)
qed (use bit_imp_le_length in fastforce)

lemma word_nonzero: "w \<noteq> 0 \<longleftrightarrow> (\<exists>j<32. bit (w :: u32) j)"
proof
  assume "w \<noteq> 0"
  then obtain i where "bit w i" by (metis bit_0_eq bit_eqI bot_apply bot_bool_def)
  then show "\<exists>j<32. bit w j" using bit_imp_le_length [of w i] by auto
qed auto

text \<open>The two bitmaps after an insertion, and after the last block of a list is gone.\<close>

definition bitmaps_ok :: "k_mm_head \<Rightarrow> flists \<Rightarrow> bool" where
  "bitmaps_ok h L \<longleftrightarrow> length (sl_bitmap h) = 14 \<and> (\<forall>i<14. \<forall>j<32. bit (sl_bitmap h ! i) j \<longleftrightarrow> L i j \<noteq> [])
     \<and> (\<forall>i. bit (fl_bitmap h) i \<longleftrightarrow> i < 14 \<and> sl_bitmap h ! i \<noteq> 0)"

lemma bitmaps_set_ok:
  assumes "bitmaps_ok (mh s) L" "i < 14" "j < 32" "xs \<noteq> []"
  shows "bitmaps_ok (mh (bitmaps_set i j s)) (upd_list i j xs L)"
proof -
  let ?w = "word_set (sl_bitmap (mh s) ! i) (31 - j)"
  have "?w \<noteq> 0" using assms(3) by (auto simp: word_nonzero word_set_bit)
  moreover have "bit (word_set (fl_bitmap (mh s)) (31 - i)) k \<longleftrightarrow> k = i \<or> bit (fl_bitmap (mh s)) k" for k
    using assms(2) by (intro word_set_bit) simp
  ultimately show ?thesis
    using assms by (auto simp: bitmaps_ok_def bitmaps_set_def nth_list_update word_set_bit)
qed

lemma bitmaps_clear_ok:
  assumes "bitmaps_ok (mh s) L" "i < 14" "j < 32"
  shows "bitmaps_ok (mh (bitmaps_clear i j s)) (upd_list i j [] L)"
proof -
  let ?w = "word_clear (sl_bitmap (mh s) ! i) (31 - j)"
  have "bit (word_clear (fl_bitmap (mh s)) (31 - i)) k \<longleftrightarrow> k \<noteq> i \<and> bit (fl_bitmap (mh s)) k" for k
    using assms(2) by (intro word_clear_bit) simp
  moreover have "?w \<noteq> 0 \<Longrightarrow> sl_bitmap (mh s) ! i \<noteq> 0" using assms(3) by (auto simp: word_nonzero word_clear_bit)
  moreover have "L i k = []" if "?w = 0" "k \<noteq> j" "k < 32" for k
    using word_clear_bit [OF assms(3), of "sl_bitmap (mh s) ! i" k] that assms(1,2) by (simp add: bitmaps_ok_def)
  ultimately show ?thesis
    using assms by (auto simp: bitmaps_ok_def bitmaps_clear_def Let_def nth_list_update word_clear_bit)
qed

lemma bitmaps_keep:
  assumes "bitmaps_ok h L" "i < 14" "j < 32" "L i j \<noteq> []" "xs \<noteq> []"
  shows "bitmaps_ok h (upd_list i j xs L)"
  using assms by (auto simp: bitmaps_ok_def)

lemma bitmaps_proj [simp]:
  "mm_tbl (mh (bitmaps_set i j s)) = mm_tbl (mh s)" "mm_tbl (mh (bitmaps_clear i j s)) = mm_tbl (mh s)"
  "fixedmblk (mh (bitmaps_set i j s)) = fixedmblk (mh s)" "fixedmblk (mh (bitmaps_clear i j s)) = fixedmblk (mh s)" "regioninfo (mh (bitmaps_set i j s)) = regioninfo (mh s)" "regioninfo (mh (bitmaps_clear i j s)) = regioninfo (mh s)" "mregs (bitmaps_set i j s) = mregs s" "mregs (bitmaps_clear i j s) = mregs s"
  "mblks (bitmaps_set i j s) = mblks s" "mblks (bitmaps_clear i j s) = mblks s"
  "mpool (bitmaps_set i j s) = mpool s" "mpool (bitmaps_clear i j s) = mpool s"
  "mbytes (bitmaps_set i j s) = mbytes s" "mbytes (bitmaps_clear i j s) = mbytes s"
  "mm_errs (bitmaps_set i j s) = mm_errs s" "mm_errs (bitmaps_clear i j s) = mm_errs s"
  "tbl (bitmaps_set i j s) = tbl s" "tbl (bitmaps_clear i j s) = tbl s"
  by (auto simp: bitmaps_set_def bitmaps_clear_def Let_def tbl_def fun_eq_iff)

lemma set_tbl_proj [simp]:
  "sl_bitmap (mh (set_tbl i j v s)) = sl_bitmap (mh s)" "fl_bitmap (mh (set_tbl i j v s)) = fl_bitmap (mh s)"
  "fixedmblk (mh (set_tbl i j v s)) = fixedmblk (mh s)" "mblks (set_tbl i j v s) = mblks s" "mpool (set_tbl i j v s) = mpool s" "regioninfo (mh (set_tbl i j v s)) = regioninfo (mh s)" "mregs (set_tbl i j v s) = mregs s"
  "mbytes (set_tbl i j v s) = mbytes s" "mm_errs (set_tbl i j v s) = mm_errs s" "length (mm_tbl (mh (set_tbl i j v s))) = length (mm_tbl (mh s))"
  by (simp_all add: set_tbl_def)

text \<open>The table of heads, with its dimensions.\<close>

definition heads_ok :: "mmsys \<Rightarrow> flists \<Rightarrow> bool" where
  "heads_ok s L \<longleftrightarrow> length (mm_tbl (mh s)) = 14 \<and> (\<forall>i<14. length (mm_tbl (mh s) ! i) = 32) \<and> (\<forall>i<14. \<forall>j<32. tbl s i j = hdd (L i j) 0)"

lemma heads_set:
  assumes "heads_ok s L" "i < 14" "j < 32"
  shows "heads_ok (set_tbl i j (hdd xs 0) s) (upd_list i j xs L)" "tbl (set_tbl i j v s) i j = v"
  using assms by (auto simp: heads_ok_def set_tbl_def tbl_def nth_list_update)

definition links_ok :: "(u32 \<Rightarrow> k_mm_list_t) \<Rightarrow> flists \<Rightarrow> bool" where
  "links_ok H L \<longleftrightarrow> (\<forall>i<14. \<forall>j<32. dll H 0 (L i j) 0 \<and> distinct (L i j) \<and> 0 \<notin> set (L i j))
     \<and> (\<forall>i<14. \<forall>j<32. \<forall>k<14. \<forall>l<32. (i, j) \<noteq> (k, l) \<longrightarrow> set (L i j) \<inter> set (L k l) = {})"

definition tables :: "mmsys \<Rightarrow> flists \<Rightarrow> bool" where
  "tables s L \<longleftrightarrow> bitmaps_ok (mh s) L \<and> heads_ok s L \<and> links_ok (mblks s) L"

text \<open>A change of one list: the other lists are not touched when the nodes whose links change are on that list, or on none.\<close>

lemma links_upd:
  assumes "links_ok H L" "i < 14" "j < 32" "dll H' 0 xs 0" "distinct xs" "0 \<notin> set xs"
    and "\<And>x. x \<in> set xs \<Longrightarrow> x \<in> set (L i j) \<or> \<not> on_lists L x"
    and "\<And>x. on_lists L x \<Longrightarrow> x \<notin> set (L i j) \<Longrightarrow> free_prev (H' x) = free_prev (H x) \<and> free_next (H' x) = free_next (H x)"
  shows "links_ok H' (upd_list i j xs L)"
proof -
  have o: "dll H' 0 (L k l) 0" if "k < 14" "l < 32" "(k, l) \<noteq> (i, j)" for k l
  proof -
    have "free_prev (H' x) = free_prev (H x) \<and> free_next (H' x) = free_next (H x)" if "x \<in> set (L k l)" for x
      using that \<open>k < 14\<close> \<open>l < 32\<close> \<open>(k, l) \<noteq> (i, j)\<close> assms(1-3,8) unfolding links_ok_def on_lists_def by blast
    then have "dll H' 0 (L k l) 0 = dll H 0 (L k l) 0" by (intro dll_cong) simp
    then show ?thesis using assms(1) that(1,2) by (simp add: links_ok_def)
  qed
  have d: "set xs \<inter> set (L k l) = {}" if "k < 14" "l < 32" "(k, l) \<noteq> (i, j)" for k l
    using assms(1-3,7) that unfolding links_ok_def on_lists_def by blast
  show ?thesis
    unfolding links_ok_def upd_list_app
  proof (intro conjI allI impI, goal_cases)
    case (1 k l) then show ?case using o assms(4) by auto
  next
    case (2 k l) then show ?case using assms(1,5) by (auto simp: links_ok_def)
  next
    case (3 k l) then show ?case using assms(1,6) by (auto simp: links_ok_def)
  next
    case (4 k l m n)
    then show ?case using d assms(1) unfolding links_ok_def by (cases "k = i \<and> l = j"; cases "m = i \<and> n = j") (auto simp: Int_commute)
  qed
qed

lemma heads_cong: "mm_tbl (mh s') = mm_tbl (mh s) \<Longrightarrow> heads_ok s' L = heads_ok s L"
  by (simp add: heads_ok_def tbl_def)

lemma bitmaps_cong: "sl_bitmap h' = sl_bitmap h \<Longrightarrow> fl_bitmap h' = fl_bitmap h \<Longrightarrow> bitmaps_ok h' L = bitmaps_ok h L"
  by (simp add: bitmaps_ok_def)

lemma tbl_upd_mblk [simp]: "tbl (upd_mblk b f s) = tbl s"
  by (simp add: tbl_def fun_eq_iff)

text \<open>What the list operations leave alone: sizes and back pointers of all blocks, the pool, the contents.\<close>

definition only_links :: "mmsys \<Rightarrow> mmsys \<Rightarrow> bool" where
  "only_links s s' \<longleftrightarrow> (\<forall>x. mm_size (mblks s' x) = mm_size (mblks s x) \<and> mm_prev (mblks s' x) = mm_prev (mblks s x))
     \<and> mpool s' = mpool s \<and> mbytes s' = mbytes s \<and> mm_errs s' = mm_errs s \<and> fixedmblk (mh s') = fixedmblk (mh s)
     \<and> mregs s' = mregs s \<and> regioninfo (mh s') = regioninfo (mh s)"

lemma only_links_size: "only_links s s' \<Longrightarrow> sizew s' x = sizew s x" "only_links s s' \<Longrightarrow> mm_prev (mblks s' x) = mm_prev (mblks s x)"
  "only_links s s' \<Longrightarrow> bsize s' x = bsize s x"
  by (simp_all add: only_links_def bsize_def)

lemma only_links_intros:
  "only_links s s"
  "only_links s s' \<Longrightarrow> only_links s (set_fprev b v s')" "only_links s s' \<Longrightarrow> only_links s (set_fnext b v s')"
  "only_links s s' \<Longrightarrow> only_links s (set_tbl i j v s')"
  "only_links s s' \<Longrightarrow> only_links s (bitmaps_set i j s')" "only_links s s' \<Longrightarrow> only_links s (bitmaps_clear i j s')"
  "only_links s s' \<Longrightarrow> only_links s s'' \<Longrightarrow> only_links s (if c then s' else s'')"
  by (simp_all add: only_links_def set_defs)

lemma insert_block_links: "only_links s (insert_block b i j s)"
  unfolding insert_block_def Let_def by (intro only_links_intros)

lemma get_block_links: "only_links s (get_block b i j s)"
  unfolding get_block_def Let_def by (intro only_links_intros)

lemma insert_block_tables:
  assumes "tables s L" "i < 14" "j < 32" "b \<noteq> 0" "\<not> on_lists L b"
  shows "tables (insert_block b i j s) (upd_list i j (b # L i j) L)"
proof -
  let ?h = "hdd (L i j) 0" and ?s = "insert_block b i j s"
  have t: "tbl s i j = ?h" and d: "dll (mblks s) 0 (L i j) 0" "distinct (L i j)" "0 \<notin> set (L i j)"
    using assms(1-3) by (auto simp: tables_def heads_ok_def links_ok_def)
  have b: "b \<notin> set (L i j)" using assms(2,3,5) by (auto simp: on_lists_def)
  have hb: "?h \<noteq> b" using b assms(4) by (cases "L i j") auto
  have h0: "?h = 0 \<longleftrightarrow> L i j = []" using d(3) by (cases "L i j") auto
  have H: "free_next (mblks ?s x) = (if x = b then ?h else free_next (mblks s x))"
    "free_prev (mblks ?s x) = (if x = b then 0 else if x = ?h \<and> ?h \<noteq> 0 then b else free_prev (mblks s x))" for x
    using hb by (auto simp: insert_block_def Let_def set_defs t)
  have "dll (mblks ?s) b (L i j) 0"
    using d(1,2) by (rule dll_front) (use b h0 in \<open>auto simp: H hdd_def split: list.splits\<close>)
  then have "dll (mblks ?s) 0 (b # L i j) 0" using hb by (simp add: H)
  then have "links_ok (mblks ?s) (upd_list i j (b # L i j) L)"
    using assms b d(2,3)
    by (intro links_upd [where H = "mblks s"]) (auto simp: tables_def H hdd_def split: list.splits)
  moreover have "heads_ok ?s (upd_list i j (b # L i j) L)"
  proof -
    define s2 where "s2 = (let s1 = set_fnext b (tbl s i j) (set_fprev b 0 s) in if tbl s1 i j \<noteq> 0 then set_fprev (tbl s1 i j) b s1 else s1)"
    have "heads_ok s2 L" using assms(1) heads_cong [of s2 s] by (simp add: tables_def s2_def Let_def set_defs)
    note heads_set(1) [OF this assms(2,3), of "b # L i j"]
    moreover have "?s = bitmaps_set i j (set_tbl i j b s2)" by (simp add: insert_block_def s2_def Let_def)
    ultimately show ?thesis using heads_cong [of ?s "set_tbl i j b s2"] by simp
  qed
  moreover have "bitmaps_ok (mh ?s) (upd_list i j (b # L i j) L)"
  proof -
    have "bitmaps_ok (mh (set_tbl i j b s2)) L" if "mh s2 = mh s" for s2
      using assms(1) that bitmaps_cong [of "mh (set_tbl i j b s2)" "mh s"] by (simp add: tables_def)
    then show ?thesis using assms(2,3) unfolding insert_block_def Let_def by (intro bitmaps_set_ok) (simp_all add: set_defs)
  qed
  ultimately show ?thesis by (simp add: tables_def)
qed

lemma get_block_tables:
  assumes "tables s L" "i < 14" "j < 32" "b \<in> set (L i j)"
  shows "tables (get_block b i j s) (upd_list i j (remove1 b (L i j)) L)"
proof -
  let ?s = "get_block b i j s"
  have t: "tbl s i j = hdd (L i j) 0" and d: "dll (mblks s) 0 (L i j) 0" "distinct (L i j)" "0 \<notin> set (L i j)"
    using assms(1-3) by (auto simp: tables_def heads_ok_def links_ok_def)
  obtain xs ys where xy: "L i j = xs @ b # ys" "remove1 b (L i j) = xs @ ys" using remove1_split [OF assms(4) d(2)] by blast
  define pv nx where "pv = (if xs = [] then 0 else last xs)" and "nx = hdd ys 0"
  have l: "free_prev (mblks s b) = pv" "free_next (mblks s b) = nx" "dll (mblks s) 0 xs b" "dll (mblks s) b ys 0"
    using d(1) by (auto simp: xy dll_append pv_def nx_def split: if_splits)
  have "last xs \<noteq> 0" if "xs \<noteq> []" using last_in_set [OF that] d(3) by (auto simp: xy(1))
  then have nz: "pv = 0 \<longleftrightarrow> xs = []" "nx = 0 \<longleftrightarrow> ys = []" using d(3) by (auto simp: xy pv_def nx_def hdd_def split: list.splits)
  have i: "pv \<in> insert 0 (set xs)" "nx \<in> insert 0 (set ys)" by (auto simp: pv_def nx_def hdd_def split: list.splits)
  have ne: "pv \<noteq> b" "nx \<noteq> b" "pv \<noteq> nx \<or> pv = 0" "pv \<notin> set ys" "nx \<notin> set xs"
    using d(2,3) i by (auto simp: xy)
  have H: "free_prev (mblks ?s x) = (if x = b then 0 else if x = nx \<and> nx \<noteq> 0 then pv else free_prev (mblks s x))"
    "free_next (mblks ?s x) = (if x = b then 0 else if x = pv \<and> pv \<noteq> 0 then nx else free_next (mblks s x))" for x
    using ne by (auto simp: get_block_def Let_def set_defs l)
  have xs: "distinct xs" "distinct ys" "b \<notin> set xs" "b \<notin> set ys" using d(2) by (auto simp: xy(1))
  have "dll (mblks ?s) 0 xs nx"
  proof (rule dll_back [OF l(3) xs(1)])
    fix x assume x: "x \<in> set xs"
    then have "xs \<noteq> []" by (cases xs) simp_all
    then have "pv = last xs" by (simp only: pv_def if_False)
    moreover have "pv \<noteq> 0" unfolding nz(1) by (rule \<open>xs \<noteq> []\<close>)
    moreover have "x \<noteq> b" "x \<noteq> nx" using x ne(5) xs(3) by metis+
    ultimately show "free_prev (mblks ?s x) = free_prev (mblks s x)" "free_next (mblks ?s x) = (if x = last xs then nx else free_next (mblks s x))"
      by (simp_all add: H)
  qed
  moreover have "dll (mblks ?s) pv ys 0"
  proof (rule dll_front [OF l(4) xs(2)])
    fix x assume x: "x \<in> set ys"
    then have "nx = hd ys" by (cases ys) (simp_all add: nx_def)
    moreover have "nx \<noteq> 0" using x nz(2) by (cases ys) simp_all
    moreover have "x \<noteq> b" "x \<noteq> pv" using x ne(4) xs(4) by metis+
    ultimately show "free_next (mblks ?s x) = free_next (mblks s x)" "free_prev (mblks ?s x) = (if x = hd ys then pv else free_prev (mblks s x))"
      by (simp_all add: H)
  qed
  ultimately have "dll (mblks ?s) 0 (xs @ ys) 0" by (simp add: dll_append nx_def pv_def)
  moreover have "x = b \<or> x = nx \<or> x = pv \<Longrightarrow> x \<noteq> 0 \<Longrightarrow> x \<in> set (L i j)" for x
    by (auto simp: xy pv_def nx_def hdd_def split: list.splits if_splits)
  ultimately have "links_ok (mblks ?s) (upd_list i j (xs @ ys) L)"
    using assms d(2,3) by (intro links_upd [where H = "mblks s"]) (auto simp: tables_def H xy)
  moreover have "heads_ok ?s (upd_list i j (xs @ ys) L) \<and> bitmaps_ok (mh ?s) (upd_list i j (xs @ ys) L)"
  proof -
    define s2 where "s2 = (let s1 = (if nx \<noteq> 0 then set_fprev nx pv s else s) in if pv \<noteq> 0 then set_fnext pv nx s1 else s1)"
    have s2: "mh s2 = mh s" "heads_ok s2 L" "free_next (mblks s2 b) = nx" "tbl s2 i j = hdd (L i j) 0"
      using assms(1) heads_cong [of s2 s] ne t l by (auto simp: tables_def s2_def Let_def set_defs)
    have g: "?s = set_fnext b 0 (set_fprev b 0 (if hdd (L i j) 0 = b
        then (let s3 = set_tbl i j nx s2 in if nx = 0 then bitmaps_clear i j s3 else s3) else s2))"
      using ne heads_set(2) [OF s2(2) assms(2,3)] s2(3,4) by (auto simp: get_block_def Let_def l s2_def set_defs split: if_splits)
    show ?thesis
    proof (cases "xs = []")
      case True
      then have hb: "hdd (L i j) 0 = b" by (simp add: xy)
      let ?s3 = "set_tbl i j nx s2"
      have h3: "heads_ok ?s3 (upd_list i j (xs @ ys) L)" using heads_set(1) [OF s2(2) assms(2,3), of ys] True by (simp add: nx_def)
      have b3: "bitmaps_ok (mh ?s3) L" using assms(1) bitmaps_cong [of "mh ?s3" "mh s"] by (simp add: tables_def s2)
      show ?thesis
      proof (cases "nx = 0")
        case z: True
        have "bitmaps_ok (mh (bitmaps_clear i j ?s3)) (upd_list i j [] L)" by (rule bitmaps_clear_ok [OF b3 assms(2,3)])
        then show ?thesis using h3 hb z True nz(2) heads_cong [of "?s" ?s3] by (simp add: g set_defs)
      next
        case False
        have "bitmaps_ok (mh ?s3) (upd_list i j ys L)" using b3 assms(2-4) False nz(2) by (intro bitmaps_keep) auto
        then show ?thesis using h3 hb False True heads_cong [of "?s" ?s3] by (simp add: g set_defs)
      qed
    next
      case False
      then have hb: "hdd (L i j) 0 \<noteq> b" "hdd (xs @ ys) 0 = hdd (L i j) 0" using d(2) by (cases xs; auto simp: xy(1))+
      have "bitmaps_ok (mh s) (upd_list i j (xs @ ys) L)" using assms False by (intro bitmaps_keep) (auto simp: tables_def)
      moreover have "heads_ok s2 (upd_list i j (xs @ ys) L)" using s2(2) hb(2) by (auto simp: heads_ok_def)
      ultimately show ?thesis using hb(1) heads_cong [of "?s" s2] by (simp add: g set_defs s2(1))
    qed
  qed
  ultimately show ?thesis by (simp add: tables_def xy(2))
qed

section \<open>The blocks in memory\<close>

type_synonym mmblk = "u32 \<times> u32 \<times> bool"

text \<open>
  Where a walk through memory stands: between two regions, or inside a region that starts at \<open>r\<close>, in front of the block at \<open>a\<close>, behind the block \<open>pa\<close>, which is free or not (\<open>pf\<close>).
\<close>

type_synonym place = "(bool \<times> u32 \<times> u32 \<times> u32) option"

definition fits :: "u32 \<Rightarrow> u32 \<Rightarrow> u32 \<Rightarrow> bool" where
  "fits r b n \<longleftrightarrow> unat r \<le> unat b \<and> unat b + 8 + unat n \<le> unat r + 2 ^ 20 \<and> unat b + 8 + unat n < 2 ^ 32"

definition wf_blk :: "mmblk \<Rightarrow> bool" where
  "wf_blk x \<longleftrightarrow> (case x of (b, n, f) \<Rightarrow> b \<noteq> 0 \<and> b AND 3 = 0 \<and> n AND 3 = 0 \<and> (n = 0 \<and> \<not> f \<or> 8 \<le> unat n))"

definition blk_at :: "(u32 \<Rightarrow> k_mm_list_t) \<Rightarrow> place \<Rightarrow> mmblk \<Rightarrow> bool" where
  "blk_at H st x \<longleftrightarrow> wf_blk x \<and> (case (x, st) of
       ((b, n, f), None) \<Rightarrow> mm_size (H b) = mk n f False \<and> fits b b n
     | ((b, n, f), Some (pf, pa, a, r)) \<Rightarrow> b = a \<and> mm_size (H b) = mk n f pf \<and> (pf \<longrightarrow> mm_prev (H b) = pa \<and> \<not> f) \<and> fits r b n)"

definition after :: "place \<Rightarrow> mmblk \<Rightarrow> place" where
  "after st x = (case x of (b, n, f) \<Rightarrow>
     if n = 0 then None else Some (f, b, b + 8 + n, case st of None \<Rightarrow> b | Some (pf, pa, a, r) \<Rightarrow> r))"

fun seg :: "(u32 \<Rightarrow> k_mm_list_t) \<Rightarrow> place \<Rightarrow> mmblk list \<Rightarrow> place \<Rightarrow> bool" where
  "seg H st [] st' \<longleftrightarrow> st' = st"
| "seg H st (x # xs) st' \<longleftrightarrow> blk_at H st x \<and> seg H (after st x) xs st'"

lemma seg_append: "seg H st (xs @ ys) st'' \<longleftrightarrow> (\<exists>st'. seg H st xs st' \<and> seg H st' ys st'')"
  by (induction xs arbitrary: st) auto

lemma blk_at_cong:
  "mm_size (H' (fst x)) = mm_size (H (fst x)) \<Longrightarrow> mm_prev (H' (fst x)) = mm_prev (H (fst x)) \<Longrightarrow> blk_at H' st x = blk_at H st x"
  by (auto simp: blk_at_def split: prod.splits option.splits)

lemma seg_cong:
  assumes "\<And>x. x \<in> set xs \<Longrightarrow> mm_size (H' (fst x)) = mm_size (H (fst x)) \<and> mm_prev (H' (fst x)) = mm_prev (H (fst x))"
  shows "seg H' st xs st' = seg H st xs st'"
  using assms
proof (induction xs arbitrary: st)
  case (Cons x xs)
  then show ?case using blk_at_cong [of H' x H st] by simp
qed simp

lemma blk_at_wf: "blk_at H st x \<Longrightarrow> wf_blk x"
  by (simp add: blk_at_def)

lemma seg_wf: "seg H st xs st' \<Longrightarrow> x \<in> set xs \<Longrightarrow> wf_blk x"
  by (induction xs arbitrary: st) (auto simp: blk_at_def)

lemma blk_at_fits: "blk_at H st (b, n, f) \<Longrightarrow> unat b + 8 + unat n < 2 ^ 32 \<and> unat n < 2 ^ 20"
  by (auto simp: blk_at_def fits_def split: option.splits)

lemma seg_fits: "seg H st xs st' \<Longrightarrow> (b, n, f) \<in> set xs \<Longrightarrow> unat b + 8 + unat n < 2 ^ 32 \<and> unat n < 2 ^ 20"
  by (induction xs arbitrary: st) (auto dest: blk_at_fits)

lemma seg_size:
  assumes "seg H st xs st'" "(b, n, f) \<in> set xs"
  shows "\<exists>pf. mm_size (H b) = mk n f pf" "n AND 3 = 0"
  using assms by (induction xs arbitrary: st) (auto simp: blk_at_def wf_blk_def split: option.splits)

text \<open>Cutting the walk at a block that does not end a region: there is a block behind it.\<close>

lemma seg_cut:
  assumes "seg H None (xs @ (b, m, f) # ys) None" "m \<noteq> 0"
  obtains st pf pa r c k g zs where "ys = (c, k, g) # zs" "c = b + 8 + m" "seg H None xs st" "blk_at H st (b, m, f)"
    "after st (b, m, f) = Some (f, b, c, r)" "blk_at H (Some (f, b, c, r)) (c, k, g)" "seg H (after (Some (f, b, c, r)) (c, k, g)) zs None"
    "case st of None \<Rightarrow> \<not> pf \<and> r = b | Some t \<Rightarrow> t = (pf, pa, b, r)" "mm_size (H b) = mk m f pf" "fits r b m" "pf \<longrightarrow> mm_prev (H b) = pa \<and> \<not> f"
proof -
  obtain st where st: "seg H None xs st" "blk_at H st (b, m, f)" "seg H (after st (b, m, f)) ys None" using assms(1) by (auto simp: seg_append)
  obtain r where r: "after st (b, m, f) = Some (f, b, b + 8 + m, r)" using assms(2) by (simp add: after_def)
  then obtain c k g zs where ys: "ys = (c, k, g) # zs" using st(3) by (cases ys) auto
  then have c: "c = b + 8 + m" "blk_at H (Some (f, b, c, r)) (c, k, g)" "seg H (after (Some (f, b, c, r)) (c, k, g)) zs None"
    using st(3) r by (auto simp: blk_at_def)
  define pf pa where "pf = (case st of None \<Rightarrow> False | Some (pf, pa, a, r) \<Rightarrow> pf)" and "pa = (case st of None \<Rightarrow> 0 | Some (pf, pa, a, r) \<Rightarrow> pa)"
  have "case st of None \<Rightarrow> \<not> pf \<and> r = b | Some t \<Rightarrow> t = (pf, pa, b, r)" "mm_size (H b) = mk m f pf" "fits r b m" "pf \<longrightarrow> mm_prev (H b) = pa \<and> \<not> f"
    using st(2) r assms(2) by (auto simp: pf_def pa_def after_def blk_at_def split: option.splits)
  then show ?thesis using that [of c k g zs st r pf pa] ys c st(1,2) r by simp
qed

section \<open>Extents\<close>

definition ext :: "mmblk \<Rightarrow> nat set" where
  "ext x = (case x of (b, n, f) \<Rightarrow> {unat b..<unat b + 8 + unat n})"

lemma ext_simp [simp]: "ext (b, n, f) = {unat b..<unat b + 8 + unat n}"
  by (simp add: ext_def)

text \<open>Two blocks that share no byte.\<close>

definition sep :: "mmblk \<Rightarrow> mmblk \<Rightarrow> bool" where
  "sep x y \<longleftrightarrow> ext x \<inter> ext y = {}"

lemma sep_sym: "sep x y \<Longrightarrow> sep y x"
  by (simp add: sep_def Int_commute)

lemma sep_addr: "sep x y \<Longrightarrow> fst x \<noteq> fst y"
  by (cases x; cases y) (auto simp: sep_def)

lemma sep_sub: "ext y \<subseteq> ext x \<Longrightarrow> sep x z \<Longrightarrow> sep y z"
  unfolding sep_def by (metis Int_mono empty_subsetI order_refl subset_antisym)

lemma sep_Un:
  assumes "ext y \<subseteq> ext x \<union> ext x'" "sep x z" "sep x' z"
  shows "sep y z"
proof -
  have "(ext x \<union> ext x') \<inter> ext z = {}" using assms(2,3) unfolding sep_def by (simp only: Int_Un_distrib2 Un_empty_left)
  then show ?thesis using assms(1) Int_mono [OF assms(1) subset_refl, of "ext z"] unfolding sep_def by (simp only: subset_empty)
qed

lemma ivl_apart: assumes "0 < n" "0 < (m::nat)" shows "{a..<a + n} \<inter> {b..<b + m} = {} \<longleftrightarrow> a + n \<le> b \<or> b + m \<le> a"
proof (cases "a + n \<le> b \<or> b + m \<le> a")
  case False
  then have "max a b \<in> {a..<a + n} \<inter> {b..<b + m}" using assms by auto
  then show ?thesis using False by blast
qed auto

lemma sep_simp: "sep (a, n, f) (b, m, g) \<longleftrightarrow> unat a + 8 + unat n \<le> unat b \<or> unat b + 8 + unat m \<le> unat a"
  unfolding sep_def ext_simp add.assoc by (rule ivl_apart) simp_all

definition apart :: "mmblk list \<Rightarrow> bool" where
  "apart B \<longleftrightarrow> sorted_wrt sep B"

lemma apart_append: "apart (xs @ ys) \<longleftrightarrow> apart xs \<and> apart ys \<and> (\<forall>x\<in>set xs. \<forall>y\<in>set ys. sep x y)"
  by (simp add: apart_def sorted_wrt_append)

lemma apart_Cons [simp]: "apart (x # xs) \<longleftrightarrow> (\<forall>y\<in>set xs. sep x y) \<and> apart xs" "apart []"
  by (simp_all add: apart_def)

lemma apart_replace:
  assumes "apart (xs @ M @ ys)" "apart M'" "\<And>z x. x \<in> set M' \<Longrightarrow> \<forall>y\<in>set M. sep y z \<Longrightarrow> sep x z"
  shows "apart (xs @ M' @ ys)"
proof -
  have o: "\<forall>y\<in>set M. sep y z" if "z \<in> set xs \<union> set ys" for z
    using assms(1) that sep_sym unfolding apart_append set_append by blast
  have "sep x z" if "x \<in> set M'" "z \<in> set xs \<union> set ys" for x z
    by (rule assms(3) [OF that(1) o [OF that(2)]])
  then show ?thesis using assms(1,2) sep_sym unfolding apart_append set_append by blast
qed

lemma apart_addr: assumes "apart (xs @ x # ys)" "y \<in> set xs \<union> set ys" shows "fst y \<noteq> fst x"
proof -
  have "sep x y" using assms sep_sym unfolding apart_append apart_Cons by (metis Un_iff list.set_intros(1))
  then show ?thesis using sep_addr by metis
qed

lemma apart_same: assumes "apart B" "(b, n, f) \<in> set B" "(b, m, g) \<in> set B" shows "n = m \<and> f = g"
proof -
  obtain xs ys where "B = xs @ (b, n, f) # ys" using assms(2) by (meson split_list)
  then show ?thesis using apart_addr [of xs "(b, n, f)" ys "(b, m, g)"] assms by auto
qed

section \<open>The free blocks are on the lists\<close>

definition frees :: "mmblk list \<Rightarrow> (u32 \<times> u32) set" where
  "frees B = {(a, n). (a, n, True) \<in> set B}"

definition covers :: "(u32 \<times> u32) set \<Rightarrow> flists \<Rightarrow> bool" where
  "covers F L \<longleftrightarrow> (\<forall>i<14. \<forall>j<32. set (L i j) = {a. \<exists>n. (a, n) \<in> F \<and> cls (unat n) = (i, j)})"

lemma coversD: "covers F L \<Longrightarrow> i < 14 \<Longrightarrow> j < 32 \<Longrightarrow> a \<in> set (L i j) \<longleftrightarrow> (\<exists>n. (a, n) \<in> F \<and> cls (unat n) = (i, j))"
  by (simp add: covers_def)

lemma coversI: "(\<And>i j a. i < 14 \<Longrightarrow> j < 32 \<Longrightarrow> a \<in> set (L i j) \<longleftrightarrow> (\<exists>n. (a, n) \<in> F \<and> cls (unat n) = (i, j))) \<Longrightarrow> covers F L"
  unfolding covers_def by (intro allI impI set_eqI) simp

lemma covers_remove:
  assumes "covers F L" "\<And>n. (b, n) \<in> F \<Longrightarrow> n = m" "cls (unat m) = (i, j)" "distinct (L i j)"
  shows "covers (F - {(b, m)}) (upd_list i j (remove1 b (L i j)) L)"
proof (rule coversI)
  fix k l a assume kl: "k < (14::nat)" "l < (32::nat)"
  note e = coversD [OF assms(1) kl, of a]
  show "a \<in> set (upd_list i j (remove1 b (L i j)) L k l) \<longleftrightarrow> (\<exists>n. (a, n) \<in> F - {(b, m)} \<and> cls (unat n) = (k, l))"
  proof (cases "a = b")
    case True
    then have "(\<exists>n. (a, n) \<in> F - {(b, m)} \<and> cls (unat n) = (k, l)) \<longleftrightarrow> False" using assms(2) by (metis Diff_iff insertI1)
    moreover have "a \<notin> set (L k l)" if "(k, l) \<noteq> (i, j)" using e that assms(2,3) True by metis
    ultimately show ?thesis using assms(4) True by (auto simp: set_remove1_eq)
  next
    case False
    then have "(a, n) \<in> F - {(b, m)} \<longleftrightarrow> (a, n) \<in> F" for n by simp
    then show ?thesis using e False by auto
  qed
qed

lemma covers_insert:
  assumes "covers F L" "cls (unat m) = (i, j)"
  shows "covers (insert (b, m) F) (upd_list i j (b # L i j) L)"
proof (rule coversI)
  fix k l a assume kl: "k < (14::nat)" "l < (32::nat)"
  show "a \<in> set (upd_list i j (b # L i j) L k l) \<longleftrightarrow> (\<exists>n. (a, n) \<in> insert (b, m) F \<and> cls (unat n) = (k, l))"
    using coversD [OF assms(1) kl, of a] assms(2) by (auto simp: conj_disj_distribR ex_disj_distrib)
qed

end
