(* ===== verification/Mm_Ops.thy ===== *)
theory Mm_Ops
  imports Mm_Inv
begin

unbundle bit_operations_syntax

text \<open>
  What the operations of the heap do to the blocks in memory: an allocation turns one free block into a used one, and maybe a smaller free one behind it; freeing joins the block with its
  free neighbours; resizing moves the border of the block or moves the block.
\<close>

section \<open>Searching the tables\<close>

lemma tables_heads: "tables s L \<Longrightarrow> i < 14 \<Longrightarrow> j < 32 \<Longrightarrow> tbl s i j = hdd (L i j) 0"
  by (simp add: tables_def heads_ok_def)

lemma tables_sl: "tables s L \<Longrightarrow> i < 14 \<Longrightarrow> j < 32 \<Longrightarrow> bit (sl_bitmap (mh s) ! i) j \<longleftrightarrow> L i j \<noteq> []"
  by (simp add: tables_def bitmaps_ok_def)

lemma tables_fl: "tables s L \<Longrightarrow> bit (fl_bitmap (mh s)) i \<longleftrightarrow> i < 14 \<and> (\<exists>j<32. L i j \<noteq> [])"
  by (auto simp: tables_def bitmaps_ok_def word_nonzero)

lemma bit_from: "bit (w AND NOT (mask n)) k \<longleftrightarrow> bit (w :: u32) k \<and> n \<le> k"
  using bit_imp_le_length [of w k] by (auto simp: bit_and_iff bit_not_iff bit_mask_iff)

lemma find_last_bit_none: "find_last_bit 0 = 0"
  by (simp add: find_last_bit_def)

text \<open>The first non-empty list at or above a class, if there is one.\<close>

lemma findblk_spec:
  assumes "tables s L" "i < 14" "j < 32"
  shows "(\<exists>k l b ys. findblk_byidx (of_nat i) (of_nat j) s = (b, of_nat k, of_nat l) \<and> k < 14 \<and> l < 32 \<and> le2 (i, j) (k, l) \<and> L k l = b # ys)
    \<or> fst (findblk_byidx (of_nat i) (of_nat j) s) = 0 \<and> (\<forall>k<14. \<forall>l<32. le2 (i, j) (k, l) \<longrightarrow> L k l = [])"
proof (cases "sl_bitmap (mh s) ! i AND NOT (mask j) = 0")
  case False
  then obtain l where l: "l < 32" "find_last_bit (sl_bitmap (mh s) ! i AND NOT (mask j)) = of_nat l"
    "bit (sl_bitmap (mh s) ! i AND NOT (mask j)) l" using find_last_bit_spec by blast
  then have "L i l \<noteq> []" "j \<le> l" using tables_sl [OF assms(1,2) l(1)] by (simp_all add: bit_from)
  then show ?thesis using False assms l tables_heads [OF assms(1,2) l(1)]
    by (intro disjI1 exI [of _ i] exI [of _ l]) (auto simp: findblk_byidx_def Let_def le2_def neq_Nil_conv)
next
  case True
  have e0: "L i l = []" if "j \<le> l" "l < 32" for l
  proof (rule ccontr)
    assume "L i l \<noteq> []"
    then have "bit (sl_bitmap (mh s) ! i AND NOT (mask j)) l" using that tables_sl [OF assms(1,2) that(2)] by (simp add: bit_from)
    then show False using True by simp
  qed
  have si: "unat (of_nat i + 1 :: u32) = i + 1" using assms(2) small_word [of "i + 1"] by (simp add: add.commute)
  let ?w = "fl_bitmap (mh s) AND NOT (mask (i + 1))"
  show ?thesis
  proof (cases "?w = 0")
    case w: True
    have "L k l = []" if "k < 14" "l < 32" "le2 (i, j) (k, l)" for k l
    proof (cases "k = i")
      case False
      then have "i + 1 \<le> k" using that(3) by (simp add: le2_def)
      then show ?thesis using w that(1,2) tables_fl [OF assms(1), of k] bit_from [of "fl_bitmap (mh s)" "i + 1" k] by auto
    qed (use that e0 in \<open>simp add: le2_def\<close>)
    then show ?thesis using True w assms(2,3) by (simp add: findblk_byidx_def Let_def si find_last_bit_none)
  next
    case False
    then obtain k where k: "k < 32" "find_last_bit ?w = of_nat k" "bit ?w k" using find_last_bit_spec by blast
    then have k2: "i + 1 \<le> k" "k < 14" "sl_bitmap (mh s) ! k \<noteq> 0" using assms(1) by (simp_all add: bit_from tables_def bitmaps_ok_def)
    then obtain l where l: "l < 32" "find_last_bit (sl_bitmap (mh s) ! k) = of_nat l" "bit (sl_bitmap (mh s) ! k) l" using find_last_bit_spec by blast
    then have "L k l \<noteq> []" using tables_sl [OF assms(1) k2(2) l(1)] by simp
    moreover have "(of_nat k :: u32) > 0" using k(1) k2(1) by (simp add: word_less_nat_alt)
    moreover have "findblk_byidx (of_nat i) (of_nat j) s = (hdd (L k l) 0, of_nat k, of_nat l)"
      using True assms(2,3) k(1,2) l(1,2) tables_heads [OF assms(1) k2(2) l(1)] calculation(2) by (simp add: findblk_byidx_def Let_def si)
    ultimately show ?thesis using k2 l(1) by (intro disjI1 exI [of _ k] exI [of _ l]) (auto simp: le2_def neq_Nil_conv)
  qed
qed

lemma set_tbl_commute: "set_tbl i j v (upd_mblk b g s) = upd_mblk b g (set_tbl i j v s)"
  by (simp add: set_tbl_def upd_head_def upd_mblk_def)

lemma take_first_get:
  assumes "tables s L" "i < 14" "j < 32" "L i j = b # ys"
  shows "take_first b i j s = get_block b i j s"
proof -
  have "dll (mblks s) 0 (L i j) 0" "distinct (L i j)" "0 \<notin> set (L i j)" using assms(1-3) by (simp_all add: tables_def links_ok_def)
  then have d: "free_prev (mblks s b) = 0" "free_next (mblks s b) = hdd ys 0" "b \<notin> set ys" "tbl s i j = b" "b \<noteq> 0"
    using tables_heads [OF assms(1-3)] by (auto simp: assms(4))
  have ne: "hdd ys 0 \<noteq> b" using d(3,5) by (cases ys) auto
  have h: "tbl (set_tbl i j v s) i j = v" for v using assms(1-3) heads_set(2) [of s L i j v] by (simp add: tables_def)
  show ?thesis
    using d(1,2,4) ne by (auto simp: take_first_def get_block_def Let_def h set_defs set_tbl_commute)
qed

section \<open>What does not touch the lists\<close>

lemma tables_cong:
  assumes "mm_tbl (mh s') = mm_tbl (mh s)" "sl_bitmap (mh s') = sl_bitmap (mh s)" "fl_bitmap (mh s') = fl_bitmap (mh s)"
    "\<And>x. free_prev (mblks s' x) = free_prev (mblks s x) \<and> free_next (mblks s' x) = free_next (mblks s x)"
  shows "tables s' L = tables s L"
proof -
  have "dll (mblks s') 0 xs 0 = dll (mblks s) 0 xs 0" for xs by (rule dll_cong) (rule assms(4))
  then show ?thesis using assms(1-3) by (simp add: tables_def heads_ok_def tbl_def bitmaps_ok_def links_ok_def)
qed

lemma tables_set [simp]:
  "tables (set_size b v s) L = tables s L" "tables (set_mprev b v s) L = tables s L"
  "tables (addsize n r s) L = tables s L" "tables (removesize n s) L = tables s L"
  by (rule tables_cong; simp add: set_defs)+

section \<open>The free lists hold a set of blocks\<close>

definition lists_ok :: "mmsys \<Rightarrow> (u32 \<times> u32) set \<Rightarrow> bool" where
  "lists_ok s F \<longleftrightarrow> (\<exists>L. tables s L \<and> covers F L)"

lemma lists_ok_set [simp]:
  "lists_ok (set_size b v s) F = lists_ok s F" "lists_ok (set_mprev b v s) F = lists_ok s F"
  "lists_ok (addsize n r s) F = lists_ok s F" "lists_ok (removesize n s) F = lists_ok s F"
  by (simp_all add: lists_ok_def)

definition size_ok :: "u32 \<Rightarrow> bool" where
  "size_ok m \<longleftrightarrow> 0 < unat m \<and> unat m < 2 ^ 20"

lemma search_insert:
  assumes "size_ok m" "bitmap_search m ACTION_INSERT = (fl, sl, st)"
  shows "cls (unat m) = (unat fl, unat sl)" "unat fl < 14" "unat sl < 32"
proof -
  obtain i j where c: "cls (unat m) = (i, j)" by (metis surj_pair)
  note b = bitmap_search_insert [OF c]
  have "i < 14" using cls_fst_less [OF _ _ c] assms(1) by (simp add: size_ok_def)
  then show "cls (unat m) = (unat fl, unat sl)" "unat fl < 14" "unat sl < 32" using assms(2) b c by auto
qed

lemma lists_get:
  assumes "lists_ok s F" "(b, m) \<in> F" "\<And>n. (b, n) \<in> F \<Longrightarrow> n = m" "size_ok m" "bitmap_search m ACTION_INSERT = (fl, sl, st)"
  shows "lists_ok (get_block b (unat fl) (unat sl) s) (F - {(b, m)})"
proof -
  obtain L where L: "tables s L" "covers F L" using assms(1) by (auto simp: lists_ok_def)
  note c = search_insert [OF assms(4,5)]
  have "b \<in> set (L (unat fl) (unat sl))" using coversD [OF L(2) c(2,3)] assms(2) c(1) by blast
  note t = get_block_tables [OF L(1) c(2,3) this]
  have "distinct (L (unat fl) (unat sl))" using L(1) c(2,3) by (simp add: tables_def links_ok_def)
  note covers_remove [OF L(2) assms(3) c(1) this]
  then show ?thesis using t unfolding lists_ok_def by blast
qed

lemma lists_insert:
  assumes "lists_ok s F" "\<And>n. (b, n) \<notin> F" "b \<noteq> 0" "size_ok m" "bitmap_search m ACTION_INSERT = (fl, sl, st)"
  shows "lists_ok (insert_block b (unat fl) (unat sl) s) (insert (b, m) F)"
proof -
  obtain L where L: "tables s L" "covers F L" using assms(1) by (auto simp: lists_ok_def)
  note c = search_insert [OF assms(4,5)]
  have "\<not> on_lists L b" unfolding on_lists_def using coversD [OF L(2)] assms(2) by metis
  note t = insert_block_tables [OF L(1) c(2,3) assms(3) this]
  note covers_insert [OF L(2) c(1)]
  then show ?thesis using t unfolding lists_ok_def by blast
qed

section \<open>Windows\<close>

text \<open>A window is a part of a region: one or more blocks without the final one. What an operation does to the blocks of a window leaves the others alone.\<close>

definition stands :: "place \<Rightarrow> u32 \<Rightarrow> bool \<Rightarrow> u32 \<Rightarrow> u32 \<Rightarrow> bool" where
  "stands st a pf pa r \<longleftrightarrow> (case st of None \<Rightarrow> \<not> pf \<and> r = a | Some t \<Rightarrow> t = (pf, pa, a, r))"

lemma stands_Some [simp]: "stands (Some (f, b, c, r)) c f b r"
  by (simp add: stands_def)

lemma stands_after: "stands st b pf pa r \<Longrightarrow> n \<noteq> 0 \<Longrightarrow> after st (b, n, f) = Some (f, b, b + 8 + n, r)"
  by (auto simp: stands_def after_def split: option.splits)

lemma blk_at_stands:
  "stands st b pf pa r \<Longrightarrow> blk_at H st (b, n, f) \<longleftrightarrow>
     wf_blk (b, n, f) \<and> mm_size (H b) = mk n f pf \<and> (pf \<longrightarrow> mm_prev (H b) = pa \<and> \<not> f) \<and> fits r b n"
  by (auto simp: stands_def blk_at_def split: option.splits)

lemma blk_at_addr: "blk_at H (Some (f, b, c, r)) x \<Longrightarrow> fst x = c"
  by (auto simp: blk_at_def split: prod.splits)

lemma unat_next: "unat b + 8 + unat n < 2 ^ 32 \<Longrightarrow> unat (b + 8 + n :: u32) = unat b + 8 + unat n"
proof -
  assume a: "unat b + 8 + unat n < 2 ^ 32"
  then have "unat (b + 8) = unat b + 8" by (subst unat_add_lem [THEN iffD1]) simp_all
  then show ?thesis using a by (subst unat_add_lem [THEN iffD1]) simp_all
qed

definition sized :: "mmblk list \<Rightarrow> bool" where
  "sized W \<longleftrightarrow> (\<forall>x\<in>set W. fst (snd x) \<noteq> 0)"

lemma sized_simps [simp]: "sized []" "sized ((b, n, f) # W) \<longleftrightarrow> n \<noteq> 0 \<and> sized W" "sized (V @ W) \<longleftrightarrow> sized V \<and> sized W"
  by (auto simp: sized_def)

lemma seg_span:
  assumes "seg H st W (Some (f, p, d, r'))" "stands st a pf pa r" "W \<noteq> []" "fst (hd W) = a" "sized W"
  shows "r' = r \<and> unat r \<le> unat a \<and> unat a + 16 \<le> unat d \<and> unat d \<le> unat r + 2 ^ 20 \<and> unat d < 2 ^ 32
    \<and> \<Union> (ext ` set W) = {unat a..<unat d} \<and> apart W"
  using assms
proof (induction W arbitrary: st a pf pa)
  case (Cons x W)
  obtain n g where x: "x = (a, n, g)" using Cons.prems(4) by (cases x) simp
  have n: "n \<noteq> 0" using Cons.prems(5) x by simp
  have b: "wf_blk (a, n, g)" "fits r a n" using Cons.prems(1,2) by (simp_all add: x blk_at_stands)
  have n8: "8 \<le> unat n" using b(1) n by (auto simp: wf_blk_def)
  let ?c = "a + 8 + n"
  have c: "unat ?c = unat a + 8 + unat n" using b(2) unat_next by (simp add: fits_def)
  have af: "after st x = Some (g, a, ?c, r)" unfolding x using Cons.prems(2) n by (rule stands_after)
  show ?case
  proof (cases "W = []")
    case True
    then have "d = ?c" "r' = r" using Cons.prems(1) af by auto
    then show ?thesis using b(2) c n8 x True by (simp add: fits_def)
  next
    case False
    have s: "seg H (Some (g, a, ?c, r)) W (Some (f, p, d, r'))" using Cons.prems(1) af by simp
    moreover have "fst (hd W) = ?c" using s False blk_at_addr by (cases W) auto
    ultimately have IH: "r' = r \<and> unat r \<le> unat ?c \<and> unat ?c + 16 \<le> unat d \<and> unat d \<le> unat r + 2 ^ 20 \<and> unat d < 2 ^ 32
        \<and> \<Union> (ext ` set W) = {unat ?c..<unat d} \<and> apart W"
      using Cons.IH [OF _ stands_Some False] Cons.prems(5) x by simp
    have "sep x y" if "y \<in> set W" for y
    proof -
      have "ext y \<subseteq> {unat ?c..<unat d}" using IH that by blast
      moreover have "ext x \<inter> {unat ?c..<unat d} = {}" unfolding x ext_simp c by auto
      ultimately show ?thesis unfolding sep_def by blast
    qed
    moreover have "\<Union> (ext ` set (x # W)) = {unat a..<unat ?c} \<union> {unat ?c..<unat d}" using IH unfolding x c by simp
    moreover have "\<dots> = {unat a..<unat d}" using IH c by (intro ivl_disj_un_two(3)) simp_all
    ultimately show ?thesis using IH b(2) c by (auto simp: fits_def)
  qed
qed simp

text \<open>The window \<open>W\<close> starts at \<open>a\<close>; the block in front of it is free or not (\<open>pf\<close>). Behind it is the block \<open>(d, k, g)\<close>, and \<open>p\<close> is its last block, free or not (\<open>f\<close>).\<close>

definition win :: "(u32 \<Rightarrow> k_mm_list_t) \<Rightarrow> mmblk list \<Rightarrow> mmblk list \<Rightarrow> mmblk \<Rightarrow> mmblk list \<Rightarrow> place \<Rightarrow> u32 \<Rightarrow> bool \<Rightarrow> u32 \<Rightarrow> u32 \<Rightarrow> bool \<Rightarrow> u32 \<Rightarrow> bool" where
  "win H xs W x zs st a pf pa r f p \<longleftrightarrow> seg H None xs st \<and> seg H st W (Some (f, p, fst x, r)) \<and> blk_at H (Some (f, p, fst x, r)) x
     \<and> seg H (after (Some (f, p, fst x, r)) x) zs None \<and> apart (xs @ W @ x # zs) \<and> stands st a pf pa r \<and> W \<noteq> [] \<and> fst (hd W) = a \<and> sized W"

lemma winD:
  assumes "win H xs W (d, k, g) zs st a pf pa r f p"
  shows "seg H None xs st" "seg H st W (Some (f, p, d, r))" "blk_at H (Some (f, p, d, r)) (d, k, g)" "seg H (after (Some (f, p, d, r)) (d, k, g)) zs None"
    "apart (xs @ W @ (d, k, g) # zs)" "stands st a pf pa r" "W \<noteq> []" "fst (hd W) = a" "sized W"
    "mm_size (H d) = mk k g f" "f \<longrightarrow> mm_prev (H d) = p \<and> \<not> g" "k AND 3 = 0"
  using assms by (simp_all add: win_def blk_at_stands [OF stands_Some] wf_blk_def)

lemma win_span:
  assumes "win H xs W (d, k, g) zs st a pf pa r f p"
  shows "unat r \<le> unat a" "unat a + 16 \<le> unat d" "unat d \<le> unat r + 2 ^ 20" "unat d < 2 ^ 32" "\<Union> (ext ` set W) = {unat a..<unat d}"
  using seg_span [OF winD(2,6,7,8,9) [OF assms]] by simp_all

lemma win_change:
  assumes "win H xs W (d, k, g) zs st a pf pa r f p"
    and W': "seg H' st W' (Some (f', p', d, r))" "W' \<noteq> []" "fst (hd W') = a" "sized W'"
    and d: "mm_size (H' d) = mk k g f'" "f' \<longrightarrow> mm_prev (H' d) = p' \<and> \<not> g"
    and o: "\<And>x. unat x \<notin> {unat a..<unat d} \<Longrightarrow> x \<noteq> d \<Longrightarrow> mm_size (H' x) = mm_size (H x) \<and> mm_prev (H' x) = mm_prev (H x)"
  shows "win H' xs W' (d, k, g) zs st a pf pa r f' p'"
proof -
  note w = winD [OF assms(1)]
  note s = seg_span [OF w(2,6-9)] and s' = seg_span [OF W'(1) w(6) W'(2-4)]
  have u: "x \<in> set xs \<union> set zs \<Longrightarrow> mm_size (H' (fst x)) = mm_size (H (fst x)) \<and> mm_prev (H' (fst x)) = mm_prev (H (fst x))" for x
  proof (rule o)
    assume x: "x \<in> set xs \<union> set zs"
    have "sep y x" if "y \<in> set W" for y using w(5) x that sep_sym [of x y] by (auto simp: apart_append)
    then have "\<Union> (ext ` set W) \<inter> ext x = {}" unfolding sep_def by blast
    moreover have "unat (fst x) \<in> ext x" by (cases x) simp
    ultimately show "unat (fst x) \<notin> {unat a..<unat d}" using s by blast
    show "fst x \<noteq> d" using apart_addr [of "xs @ W" "(d, k, g)" zs x] w(5) x by auto
  qed
  have "seg H' None xs st" using w(1) seg_cong [of xs H' H] u by simp
  moreover have "blk_at H' (Some (f', p', d, r)) (d, k, g)" using w(3) d by (simp add: blk_at_stands [OF stands_Some])
  moreover have "seg H' (after (Some (f', p', d, r)) (d, k, g)) zs None"
  proof -
    have "after (Some (f', p', d, r)) (d, k, g) = after (Some (f, p, d, r)) (d, k, g)" by (simp add: after_def)
    then show ?thesis using w(4) seg_cong [of zs H' H] u by simp
  qed
  moreover have "apart (xs @ W' @ (d, k, g) # zs)"
  proof (rule apart_replace [OF w(5)])
    fix z x assume x: "x \<in> set W'" "\<forall>y\<in>set W. sep y z"
    have "ext x \<subseteq> \<Union> (ext ` set W)" using s s' x(1) by blast
    moreover have "\<Union> (ext ` set W) \<inter> ext z = {}" using x(2) unfolding sep_def by blast
    ultimately show "sep x z" unfolding sep_def by blast
  qed (use s' in simp)
  ultimately show ?thesis using W' w(6) by (simp add: win_def)
qed

lemma win_seg: assumes "win H xs W x zs st a pf pa r f p" shows "seg H None (xs @ W @ x # zs) None" "apart (xs @ W @ x # zs)"
proof -
  have "seg H None xs st" "seg H st W (Some (f, p, fst x, r))" "blk_at H (Some (f, p, fst x, r)) x" "seg H (after (Some (f, p, fst x, r)) x) zs None"
    using assms by (simp_all add: win_def)
  then show "seg H None (xs @ W @ x # zs) None" unfolding seg_append seg.simps by metis
  show "apart (xs @ W @ x # zs)" using assms by (simp add: win_def)
qed

text \<open>A window can be extended to both sides.\<close>

lemma win_right:
  assumes "win H xs W (d, k, g) zs st a pf pa r f p" "k \<noteq> 0"
  obtains e l h zs' where "zs = (e, l, h) # zs'" "e = d + 8 + k" "win H xs (W @ [(d, k, g)]) (e, l, h) zs' st a pf pa r g d"
proof -
  note w = winD [OF assms(1)]
  have af: "after (Some (f, p, d, r)) (d, k, g) = Some (g, d, d + 8 + k, r)" using assms(2) by (simp add: after_def)
  then obtain x zs' where zs: "zs = x # zs'" using w(4) by (cases zs) auto
  obtain e l h where x: "x = (e, l, h)" by (cases x)
  have b: "blk_at H (Some (g, d, d + 8 + k, r)) (e, l, h)" "seg H (after (Some (g, d, d + 8 + k, r)) (e, l, h)) zs' None"
    using w(4) unfolding zs x af by simp_all
  have e: "e = d + 8 + k" using blk_at_addr [OF b(1)] by simp
  have "seg H st (W @ [(d, k, g)]) (Some (g, d, e, r))" unfolding seg_append using w(2,3) af e by auto
  then have "win H xs (W @ [(d, k, g)]) (e, l, h) zs' st a pf pa r g d"
    using w b e assms(2) by (simp add: win_def zs x)
  then show thesis using that zs x e by blast
qed

lemma win_left:
  assumes "win H (ys @ [(b, n, f0)]) W x zs st a pf pa r f p" "n \<noteq> 0"
  obtains st' pf' pa' where "win H ys ((b, n, f0) # W) x zs st' b pf' pa' r f p" "a = b + 8 + n" "pf = f0"
    "mm_size (H b) = mk n f0 pf'" "pf' \<longrightarrow> mm_prev (H b) = pa' \<and> \<not> f0" "f0 \<Longrightarrow> pa = b"
proof -
  have w: "seg H None (ys @ [(b, n, f0)]) st" "seg H st W (Some (f, p, fst x, r))" "stands st a pf pa r" "apart (ys @ ((b, n, f0) # W) @ x # zs)"
    using assms(1) by (simp_all add: win_def)
  obtain st' where st': "seg H None ys st'" "blk_at H st' (b, n, f0)" "after st' (b, n, f0) = st" using w(1) by (auto simp: seg_append)
  obtain pf' pa' r' where t: "stands st' b pf' pa' r'" using st'(2) by (cases st') (auto simp: stands_def blk_at_def split: prod.splits)
  have st: "st = Some (f0, b, b + 8 + n, r')" using stands_after [OF t assms(2)] st'(3) by simp
  then have e: "a = b + 8 + n" "pf = f0" "r' = r" "pa = b" using w(3) by (auto simp: stands_def)
  have "win H ys ((b, n, f0) # W) x zs st' b pf' pa' r f p"
    using assms st' t w(4) st e by (simp add: win_def)
  then show thesis using that e st'(2) t by (simp add: blk_at_stands [OF t])
qed

lemma frees_append [simp]:
  "frees (xs @ ys) = frees xs \<union> frees ys" "frees ((b, n, f) # xs) = (if f then insert (b, n) (frees xs) else frees xs)" "frees [] = {}"
  by (auto simp: frees_def)

lemma frees_apart: assumes "apart (xs @ (b, m, f) # ys)" shows "(b, n) \<notin> frees xs" "(b, n) \<notin> frees ys"
  using apart_addr [OF assms, of "(b, n, True)"] by (auto simp: frees_def)

definition mm_ok :: "mmsys \<Rightarrow> mmblk list \<Rightarrow> bool" where
  "mm_ok s B \<longleftrightarrow> seg (mblks s) None B None \<and> apart B \<and> lists_ok s (frees B)"

section \<open>Alignment\<close>

lemma and_3_dvd: "n AND 3 = 0 \<longleftrightarrow> 4 dvd unat (n :: u32)"
proof -
  have "(3 :: u32) = mask 2" by (simp add: mask_eq_exp_minus_1)
  then have e: "n AND 3 = take_bit 2 n" by (simp only: take_bit_eq_mask)
  have "take_bit 2 n = 0 \<longleftrightarrow> unat (take_bit 2 n) = 0" by (simp add: word_unat_eq_iff)
  also have "\<dots> \<longleftrightarrow> 4 dvd unat n" by (simp add: unsigned_take_bit_eq take_bit_eq_mod dvd_eq_mod_eq_0 unat_mod)
  finally show ?thesis by (simp only: e)
qed

lemma unat_rest: "unat sz + 16 \<le> unat m \<Longrightarrow> unat (m - sz - 8 :: u32) = unat m - unat sz - 8"
proof -
  assume a: "unat sz + 16 \<le> unat m"
  then have "unat (m - sz) = unat m - unat sz" by (intro unat_sub) (simp add: word_le_nat_alt)
  then show ?thesis using a by (subst unat_sub) (simp_all add: word_le_nat_alt)
qed

section \<open>Allocation\<close>

lemmas op_defs = set_defs bsize_def buffer_def NEXT_MM_BLK_def MMLIST_HEAD_SIZE_def mm_masks

text \<open>The pieces of a heap around a block that does not end its region.\<close>

lemma mm_cut:
  assumes "mm_ok s (xs @ (b, m, f) # ys)" "m \<noteq> 0"
  obtains st pf pa r c k g zs where "ys = (c, k, g) # zs" "c = b + 8 + m" "win (mblks s) xs [(b, m, f)] (c, k, g) zs st b pf pa r f b"
    "sizew s b = mk m f pf" "pf \<longrightarrow> mm_prev (mblks s b) = pa \<and> \<not> f" "fits r b m" "wf_blk (b, m, f)"
proof -
  have a: "seg (mblks s) None (xs @ (b, m, f) # ys) None" "apart (xs @ (b, m, f) # ys)" using assms(1) by (simp_all add: mm_ok_def)
  show ?thesis
  proof (rule seg_cut [OF a(1) assms(2)])
    fix st pf pa r c k g zs
    assume q: "ys = (c, k, g) # zs" "c = b + 8 + m" "seg (mblks s) None xs st" "blk_at (mblks s) st (b, m, f)"
      "after st (b, m, f) = Some (f, b, c, r)" "blk_at (mblks s) (Some (f, b, c, r)) (c, k, g)" "seg (mblks s) (after (Some (f, b, c, r)) (c, k, g)) zs None"
      "case st of None \<Rightarrow> \<not> pf \<and> r = b | Some t \<Rightarrow> t = (pf, pa, b, r)" "sizew s b = mk m f pf" "fits r b m" "pf \<longrightarrow> mm_prev (mblks s b) = pa \<and> \<not> f"
    have "win (mblks s) xs [(b, m, f)] (c, k, g) zs st b pf pa r f b"
      using q(3-8) a(2) assms(2) by (simp add: win_def stands_def q(1))
    then show thesis using that q(1,2,9,10,11) blk_at_wf [OF q(4)] by blast
  qed
qed

lemma next_neq: "fits r b m \<Longrightarrow> b + 8 + m \<noteq> b"
proof -
  assume "fits r b m"
  then have "unat (b + 8 + m) \<noteq> unat b" using unat_next [of b m] by (simp add: fits_def)
  then show ?thesis by metis
qed

lemma mm_okI: "win (mblks s) xs W x zs st a pf pa r f p \<Longrightarrow> lists_ok s (frees (xs @ W @ x # zs)) \<Longrightarrow> mm_ok s (xs @ W @ x # zs)"
  using win_seg by (simp add: mm_ok_def)

lemma mm_take:
  assumes "mm_ok s (xs @ (b, m, True) # ys)" "cls (unat m) = (i, j)"
  shows "lists_ok (get_block b i j s) (frees xs \<union> frees ys)" "size_ok m"
proof -
  have a: "seg (mblks s) None (xs @ (b, m, True) # ys) None" "apart (xs @ (b, m, True) # ys)" "lists_ok s (frees (xs @ (b, m, True) # ys))"
    using assms(1) by (simp_all add: mm_ok_def)
  have "wf_blk (b, m, True)" using seg_wf [OF a(1)] by simp
  then show sz: "size_ok m" using seg_fits [OF a(1), of b m True] by (auto simp: wf_blk_def size_ok_def)
  obtain fl sl st where b: "bitmap_search m ACTION_INSERT = (fl, sl, st)" by (metis surj_pair)
  have u: "n = m" if "(b, n) \<in> frees (xs @ (b, m, True) # ys)" for n using frees_apart [OF a(2)] that by auto
  have "lists_ok (get_block b (unat fl) (unat sl) s) (frees (xs @ (b, m, True) # ys) - {(b, m)})"
    by (rule lists_get [OF a(3) _ u sz b]) simp
  moreover have "frees (xs @ (b, m, True) # ys) - {(b, m)} = frees xs \<union> frees ys" using frees_apart [OF a(2)] by auto
  ultimately show "lists_ok (get_block b i j s) (frees xs \<union> frees ys)" using search_insert(1) [OF sz b] assms(2) by simp
qed

lemma alloc_whole:
  assumes "mm_ok s (xs @ (b, m, True) # ys)" "cls (unat m) = (i, j)" "s1 = get_block b i j s" "s2 = set_size (b + 8 + m) (sizew s1 (b + 8 + m) AND NOT 2) s1"
    "s3 = set_size b (sizew s2 b AND NOT 1) s2"
  shows "mm_ok s3 (xs @ (b, m, False) # ys)"
proof -
  note t = mm_take [OF assms(1,2)]
  have m: "m \<noteq> 0" using t(2) by (auto simp: size_ok_def)
  obtain st pf pa r c k g zs where q: "ys = (c, k, g) # zs" "c = b + 8 + m" "win (mblks s) xs [(b, m, True)] (c, k, g) zs st b pf pa r True b"
    "sizew s b = mk m True pf" "pf \<longrightarrow> mm_prev (mblks s b) = pa \<and> \<not> True" "fits r b m" "wf_blk (b, m, True)" using mm_cut [OF assms(1) m] by metis
  note w = winD [OF q(3)]
  have m3: "m AND 3 = 0" using q(7) by (simp add: wf_blk_def)
  have bc: "b \<noteq> c" using next_neq [OF q(6)] q(2) by simp
  note ol = only_links_size [OF get_block_links [of s b i j, folded assms(3)]]
  have H: "mm_size (mblks s3 x) = (if x = b then mk m False pf else if x = c then mk k g False else sizew s x)"
    "mm_prev (mblks s3 x) = mm_prev (mblks s x)" for x
    using bc q(4) w(10,12) m3 by (simp_all add: assms(4,5) set_defs ol flip: q(2))
  have "seg (mblks s3) st [(b, m, False)] (Some (False, b, c, r))"
    using q(2,5,6,7) m by (simp add: blk_at_stands [OF w(6)] stands_after [OF w(6)] H wf_blk_def)
  then have "win (mblks s3) xs [(b, m, False)] (c, k, g) zs st b pf pa r False b"
    by (rule win_change [OF q(3)]) (use m bc win_span(2) [OF q(3)] in \<open>auto simp: H\<close>)
  then show ?thesis using mm_okI [of s3 xs "[(b, m, False)]"] t(1) q(1) assms(3-5) by simp
qed

text \<open>
  Splitting: the window is taken off the lists, and becomes a used block of \<open>sz\<close> bytes and a free one. The state \<open>s1\<close> is \<open>s\<close> up to the links,
  the size word of the first block and the header behind the window.
\<close>

lemma split_win:
  assumes "win (mblks s) xs W (c, k, False) zs st b pf pa r f p" "b \<noteq> 0" "b AND 3 = 0" "c AND 3 = 0"
    and s1: "\<And>x. x \<noteq> b \<Longrightarrow> x \<noteq> c \<Longrightarrow> sizew s1 x = sizew s x" "\<And>x. x \<noteq> c \<Longrightarrow> mm_prev (mblks s1 x) = mm_prev (mblks s x)"
      "sizew s1 b AND 2 = (if pf then 2 else 0)" "pf \<longrightarrow> mm_prev (mblks s b) = pa" "lists_ok s1 (frees xs \<union> frees zs)"
      "sizew s1 c = mk k False f0" "mark \<or> f0"
    and sz: "sz AND 3 = 0" "8 \<le> unat sz" "unat b + 8 + unat sz + 16 \<le> unat c"
    and t: "tmp = c - b - 8 - sz" "s2 = split_block b c sz tmp mark s1"
  shows "mm_ok s2 (xs @ [(b, sz, False), (b + 8 + sz, tmp - 8, True)] @ (c, k, False) # zs)"
proof -
  note w = winD [OF assms(1)] and sp = win_span [OF assms(1)]
  define b2 n where "b2 = b + 8 + sz" and "n = tmp - 8"
  have b2: "unat b2 = unat b + 8 + unat sz" using unat_next [of b sz] sz sp by (simp add: b2_def)
  have "n = c - b2 - 8" by (simp add: n_def t b2_def)
  moreover have "unat (c - b2) = unat c - unat b2" using b2 sz(3) by (intro unat_sub) (simp add: word_le_nat_alt)
  ultimately have n: "unat n = unat c - unat b2 - 8" using b2 sz(3) by (simp add: unat_sub word_le_nat_alt)
  have ne: "b2 \<noteq> b" "b2 \<noteq> c" "b \<noteq> c" "b2 \<noteq> 0" using b2 sz(3) by auto
  have d: "4 dvd unat b" "4 dvd unat c" "4 dvd unat sz" using assms(3,4) sz(1) by (simp_all only: and_3_dvd)
  then have "4 dvd unat b2" unfolding b2 by (intro dvd_add) simp_all
  then have b23: "b2 AND 3 = 0" by (simp only: and_3_dvd)
  have "4 dvd unat n" unfolding n using d(2) \<open>4 dvd unat b2\<close> by (intro dvd_diff_nat) simp_all
  then have n3: "n AND 3 = 0" by (simp only: and_3_dvd)
  have n8: "8 \<le> unat n" using n b2 sz(3) by simp
  have cn: "b2 + 8 + n = c" by (simp add: n_def t b2_def)
  obtain fl sl sta where bs: "bitmap_search n ACTION_INSERT = (fl, sl, sta)" by (metis surj_pair)
  have so: "size_ok n" using n8 n b2 sz sp by (simp add: size_ok_def)
  define s3 where "s3 = (let sa = set_mprev c b2 (set_size b2 (n OR 1) s1) in if mark then set_size c (sizew sa c OR 2) sa else sa)"
  define s4 where "s4 = insert_block b2 (unat fl) (unat sl) s3"
  have s2: "s2 = set_size b (sz OR (sizew s4 b AND 2)) s4"
    unfolding t(2) split_block_def s4_def s3_def by (simp add: NEXT_MM_BLK_def buffer_def MMLIST_HEAD_SIZE_def mm_masks bs n_def [symmetric] b2_def [symmetric] Let_def)
  note ol = only_links_size [OF insert_block_links [of s3 b2 "unat fl" "unat sl", folded s4_def]]
  have H: "mm_size (mblks s2 x) = (if x = b then mk sz False pf else if x = b2 then mk n True False else if x = c then mk k False True else sizew s x)"
    "mm_prev (mblks s2 x) = (if x = c then b2 else mm_prev (mblks s x))" for x
    using ne s1(1,2,3,6,7) w(12) sz(1) n3 by (auto simp: s2 set_defs ol s3_def Let_def)
  have nz: "sz \<noteq> 0" "n \<noteq> 0" using sz(2) n8 by auto
  have "after st (b, sz, False) = Some (False, b, b2, r)" "after (Some (False, b, b2, r)) (b2, n, True) = Some (True, b2, c, r)"
    using stands_after [OF w(6) nz(1)] stands_after [OF stands_Some nz(2)] cn by (simp_all add: b2_def)
  moreover have "blk_at (mblks s2) st (b, sz, False)" using sz sp s1(4) assms(2,3) ne by (auto simp: blk_at_stands [OF w(6)] H wf_blk_def fits_def)
  moreover have "blk_at (mblks s2) (Some (False, b, b2, r)) (b2, n, True)"
    using n8 n b2 sp sz(3) b23 n3 ne by (simp add: blk_at_stands [OF stands_Some] H wf_blk_def fits_def)
  ultimately have "seg (mblks s2) st [(b, sz, False), (b2, n, True)] (Some (True, b2, c, r))" by simp
  then have w2: "win (mblks s2) xs [(b, sz, False), (b2, n, True)] (c, k, False) zs st b pf pa r True b2"
    by (rule win_change [OF assms(1)]) (use nz ne b2 sp sz(3) in \<open>auto simp: H\<close>)
  have "(b2, l) \<notin> frees xs \<union> frees zs" for l
    using frees_apart [of "xs @ [(b, sz, False)]" b2 n True "(c, k, False) # zs" l] win_seg(2) [OF w2] by simp
  note lists_insert [OF _ this ne(4) so bs]
  moreover have "lists_ok s3 (frees xs \<union> frees zs)" using s1(5) by (simp add: s3_def Let_def)
  ultimately have "lists_ok s2 (insert (b2, n) (frees xs \<union> frees zs))" by (simp add: s2 s4_def)
  then have "mm_ok s2 (xs @ [(b, sz, False), (b2, n, True)] @ (c, k, False) # zs)" by (intro mm_okI [OF w2]) simp
  then show ?thesis by (simp add: b2_def n_def)
qed

text \<open>What the operations on the blocks leave alone.\<close>

definition quiet :: "mmsys \<Rightarrow> mmsys \<Rightarrow> bool" where
  "quiet s s' \<longleftrightarrow> mpool s' = mpool s \<and> mbytes s' = mbytes s \<and> mm_errs s' = mm_errs s \<and> fixedmblk (mh s') = fixedmblk (mh s)
     \<and> mregs s' = mregs s \<and> regioninfo (mh s') = regioninfo (mh s)"

lemma quiet_set [simp]:
  "quiet s (set_size b v s') = quiet s s'" "quiet s (set_mprev b v s') = quiet s s'" "quiet s (addsize n q s') = quiet s s'"
  "quiet s (removesize n s') = quiet s s'" "quiet s (get_block b i j s') = quiet s s'" "quiet s (insert_block b i j s') = quiet s s'" "quiet s s"
  using get_block_links [of s' b i j] insert_block_links [of s' b i j] by (simp_all add: quiet_def only_links_def set_defs)

lemma split_block_quiet [simp]: "quiet s (split_block b c sz n mark s') = quiet s s'"
  by (simp add: split_block_def Let_def split: prod.splits)

text \<open>The size of the block for a request: a multiple of 4, and at least 8.\<close>

definition need :: "nat \<Rightarrow> nat" where
  "need n = max 8 ((n + 3) div 4 * 4)"

lemma unat_and_not3: "unat (a AND NOT 3 :: u32) = unat a div 4 * 4"
proof -
  have m: "(3 :: u32) = mask 2" by (simp add: mask_eq_exp_minus_1)
  have "a AND NOT (mask 2) = push_bit 2 (drop_bit 2 a)"
  proof (rule bit_eqI)
    fix n assume that: "possible_bit TYPE(u32) n"
    show "bit (a AND NOT (mask 2)) n = bit (push_bit 2 (drop_bit 2 a)) n"
    proof (cases "2 \<le> n")
      case True
      then obtain k where "n = 2 + k" using le_Suc_ex by blast
      then show ?thesis using that by (simp add: bit_push_bit_iff bit_drop_bit_eq bit_and_iff bit_not_iff bit_mask_iff)
    qed (simp add: bit_push_bit_iff bit_and_iff bit_not_iff bit_mask_iff)
  qed
  then have "a AND NOT 3 = push_bit 2 (drop_bit 2 a)" by (simp only: m)
  moreover have "unat (push_bit 2 (drop_bit 2 a)) = unat a div 4 * 4"
  proof -
    have "unat (drop_bit 2 a) = unat a div 4" by (simp add: unsigned_drop_bit_eq drop_bit_eq_div unat_div)
    moreover have "unat a div 4 * 4 < 2 ^ 32"
      using le_less_trans [OF div_times_less_eq_dividend [of "unat a" 4]] unsigned_less [of a, where ?'a = nat] by simp
    ultimately show ?thesis by (simp add: push_bit_eq_mult unat_word_ariths)
  qed
  ultimately show ?thesis by simp
qed

lemma unat_align_up: "unat a + 3 < 2 ^ 32 \<Longrightarrow> unat (MM_ALIGN_UP a) = (unat a + 3) div 4 * 4"
proof -
  assume "unat a + 3 < 2 ^ 32"
  then have "unat (a + 3) = unat a + 3" by (subst unat_add_lem [THEN iffD1]) simp_all
  then show ?thesis by (simp only: MM_ALIGN_UP_def unat_and_not3)
qed

lemma alloc_size_spec:
  assumes "unat n + 3 < 2 ^ 32"
  shows "unat (alloc_size n) = need (unat n)" "alloc_size n AND 3 = 0"
proof -
  show e: "unat (alloc_size n) = need (unat n)"
    using unat_align_up [OF assms] by (auto simp: alloc_size_def Let_def need_def AOS_MM_TLF_ALLOC_MIN_LENGTH_def word_less_nat_alt max_def)
  have "4 dvd unat (alloc_size n)" unfolding e need_def max_def by simp
  then show "alloc_size n AND 3 = 0" by (simp only: and_3_dvd)
qed

lemma need_bounds: "n \<le> need n" "need n \<le> max 8 (n + 3)" "8 \<le> need n"
  by (auto simp: need_def max_def)

text \<open>The blocks after an allocation.\<close>

definition carve :: "u32 \<Rightarrow> u32 \<Rightarrow> u32 \<Rightarrow> mmblk list" where
  "carve b m sz = (if unat m < unat sz + 16 then [(b, m, False)] else [(b, sz, False), (b + 8 + sz, m - sz - 8, True)])"

lemma alloc_block:
  assumes "mm_ok s (xs @ (b, m, True) # ys)" "cls (unat m) = (i, j)" "sz AND 3 = 0" "8 \<le> unat sz" "unat sz \<le> unat m"
    and s1: "s1 = get_block b i j s"
    and s2: "s2 = (if bsize s1 b - sz \<ge> sizeof_mm_list then split_block b (NEXT_MM_BLK (buffer b) (bsize s1 b)) sz (bsize s1 b - sz) False s1
        else (let s2 = set_size (NEXT_MM_BLK (buffer b) (bsize s1 b)) (sizew s1 (NEXT_MM_BLK (buffer b) (bsize s1 b)) AND NOT RHINO_MM_PREVFREE) s1
              in set_size b (sizew s2 b AND NOT RHINO_MM_FREE) s2))"
  shows "mm_ok s2 (xs @ carve b m sz @ ys)" "quiet s s2"
proof -
  note t = mm_take [OF assms(1,2)]
  have m: "m \<noteq> 0" using t(2) by (auto simp: size_ok_def)
  obtain st pf pa r c k g zs where q: "ys = (c, k, g) # zs" "c = b + 8 + m" "win (mblks s) xs [(b, m, True)] (c, k, g) zs st b pf pa r True b"
    "sizew s b = mk m True pf" "pf \<longrightarrow> mm_prev (mblks s b) = pa \<and> \<not> True" "fits r b m" "wf_blk (b, m, True)" using mm_cut [OF assms(1) m] by metis
  note w = winD [OF q(3)]
  have m3: "m AND 3 = 0" "b AND 3 = 0" "b \<noteq> 0" using q(7) by (simp_all add: wf_blk_def)
  note ol = only_links_size [OF get_block_links [of s b i j, folded s1]]
  have bs: "bsize s1 b = m" "NEXT_MM_BLK (buffer b) m = b + 8 + m" by (simp_all add: bsize_def NEXT_MM_BLK_def buffer_def MMLIST_HEAD_SIZE_def ol q(4) mm_masks m3)
  have le: "bsize s1 b - sz \<ge> sizeof_mm_list \<longleftrightarrow> unat sz + 16 \<le> unat m"
    using assms(5) by (simp add: bs sizeof_mm_list_def word_le_nat_alt unat_sub) linarith
  show "quiet s s2" by (simp add: s2 s1 Let_def)
  show "mm_ok s2 (xs @ carve b m sz @ ys)"
  proof (cases "unat sz + 16 \<le> unat m")
    case False
    then have "s2 = set_size b (sizew (set_size c (sizew s1 c AND NOT 2) s1) b AND NOT 1) (set_size c (sizew s1 c AND NOT 2) s1)"
      using le q(2) by (simp add: s2 bs Let_def mm_masks)
    then show ?thesis using alloc_whole [OF assms(1,2) s1 refl refl] False q(2) by (simp add: carve_def)
  next
    case True
    have g: "\<not> g" using w(11) by simp
    have "wf_blk (c, k, g)" using w(3) by (rule blk_at_wf)
    then have c3: "c AND 3 = 0" by (simp add: wf_blk_def)
    have e: "s2 = split_block b c sz (m - sz) False s1" using True le q(2) by (simp add: s2 bs)
    have d: "m - sz = c - b - 8 - sz" by (simp add: q(2))
    have l: "unat b + 8 + unat sz + 16 \<le> unat c" using True unat_next [of b m] q(2,6) by (simp add: fits_def)
    have f: "lists_ok s1 (frees xs \<union> frees zs)" using t(1) g by (simp add: s1 q(1))
    have p: "sizew s1 b AND 2 = (if pf then 2 else 0)" using m3(1) by (simp add: ol q(4))
    have "win (mblks s) xs [(b, m, True)] (c, k, False) zs st b pf pa r True b" using q(3) g by simp
    from split_win [OF this m3(3,2) c3 ol(1,2) p _ f _ _ assms(3,4) l d e, of True] q(5) w(10) g
    have "mm_ok s2 (xs @ [(b, sz, False), (b + 8 + sz, m - sz - 8, True)] @ (c, k, False) # zs)" by (simp add: ol)
    then show ?thesis using True g by (simp add: carve_def q(1))
  qed
qed

lemma in_list_block:
  assumes "mm_ok s B" "tables s L" "covers (frees B) L" "i < 14" "j < 32" "b \<in> set (L i j)"
  obtains xs m ys where "B = xs @ (b, m, True) # ys" "cls (unat m) = (i, j)"
proof -
  obtain m where m: "(b, m) \<in> frees B" "cls (unat m) = (i, j)" using coversD [OF assms(3-5)] assms(6) by blast
  then have "(b, m, True) \<in> set B" by (simp add: frees_def)
  then show thesis using that m(2) split_list by metis
qed

lemma in_list_class:
  assumes "covers (frees B) L" "(b, m, True) \<in> set B" "cls (unat m) = (i, j)" "i < 14" "j < 32"
  shows "L i j \<noteq> []"
  using coversD [OF assms(1,4,5), of b] assms(2,3) by (auto simp: frees_def)

text \<open>
  A request is refused, without a trace, only when no free block has a size in or above the class of the rounded-up request. Otherwise one free block is carved.
\<close>

lemma tlf_alloc_spec:
  assumes "mm_ok s B" "need (unat n) \<le> 2 ^ 31" "tlf_alloc n s = (s', p)"
  shows "p = 0 \<and> s' = s \<and> (\<forall>b m. (b, m, True) \<in> set B \<longrightarrow> \<not> le2 (cls (rounded (need (unat n)))) (cls (unat m)))
    \<or> (\<exists>xs b m ys. B = xs @ (b, m, True) # ys \<and> p = b + 8 \<and> need (unat n) \<le> unat m \<and> le2 (cls (rounded (need (unat n)))) (cls (unat m))
        \<and> mm_ok s' (xs @ carve b m (alloc_size n) @ ys) \<and> quiet s s')"
proof -
  let ?n = "need (unat n)" and ?sz = "alloc_size n"
  have lt: "unat n + 3 < 2 ^ 32" using assms(2) need_bounds(1) [of "unat n"] by simp
  note sz = alloc_size_spec [OF lt]
  have dv: "4 dvd ?n" by (simp add: need_def max_def)
  obtain i j where c: "cls (rounded ?n) = (i, j)" by (metis surj_pair)
  have "bitmap_search ?sz ACTION_GET = (of_nat i, of_nat j, if i < 14 then RHINO_SUCCESS else RHINO_MM_FREE_ADDR_ERR)" "i < 32" "j < 32"
    using bitmap_search_get [of ?sz i j] sz(1) assms(2) c by simp_all
  note b = this
  obtain L where L: "tables s L" "covers (frees B) L" using assms(1) by (auto simp: mm_ok_def lists_ok_def)
  have cm: "fst (cls (unat m)) < 14 \<and> snd (cls (unat m)) < 32" if "(x, m, True) \<in> set B" for x m
  proof -
    obtain k l where kl: "cls (unat m) = (k, l)" by (metis surj_pair)
    have g: "seg (mblks s) None B None" using assms(1) by (simp add: mm_ok_def)
    have "0 < unat m" "unat m < 2 ^ 20" using seg_wf [OF g that] seg_fits [OF g that] by (auto simp: wf_blk_def)
    then show ?thesis using cls_fst_less [OF _ _ kl] cls_bounds(1) [OF kl] kl by simp
  qed
  show ?thesis
  proof (cases "i < 14")
    case False
    have "\<not> le2 (i, j) (cls (unat m))" if "(x, m, True) \<in> set B" for x m
      using cm [OF that] False by (simp add: le2_def)
    moreover have "tlf_alloc n s = (s, 0)" using b(1) False by (simp add: tlf_alloc_def Let_def)
    ultimately show ?thesis using assms(3) c by auto
  next
    case i: True
    from findblk_spec [OF L(1) i b(3)] show ?thesis
    proof (elim disjE exE conjE)
      fix k l x ys' assume f: "findblk_byidx (of_nat i) (of_nat j) s = (x, of_nat k, of_nat l)" "k < 14" "l < 32" "le2 (i, j) (k, l)" "L k l = x # ys'"
      have "x \<in> set (L k l)" using f(5) by simp
      then obtain xs m ys where B: "B = xs @ (x, m, True) # ys" "cls (unat m) = (k, l)" using in_list_block [OF assms(1) L f(2,3)] by metis
      have "?n \<le> unat m" using class_fits [of ?n "unat m"] dv c f(4) B(2) by simp
      have "0 \<notin> set (L k l)" using L(1) f(2,3) by (simp add: tables_def links_ok_def)
      then have x0: "x \<noteq> 0" by (auto simp: f(5))
      define s1 where "s1 = get_block x k l s"
      define s2 where "s2 = (if bsize s1 x - ?sz \<ge> sizeof_mm_list then split_block x (NEXT_MM_BLK (buffer x) (bsize s1 x)) ?sz (bsize s1 x - ?sz) False s1
        else (let s2 = set_size (NEXT_MM_BLK (buffer x) (bsize s1 x)) (sizew s1 (NEXT_MM_BLK (buffer x) (bsize s1 x)) AND NOT RHINO_MM_PREVFREE) s1
              in set_size x (sizew s2 x AND NOT RHINO_MM_FREE) s2))"
      have ok: "mm_ok s2 (xs @ carve x m ?sz @ ys)" "quiet s s2"
        using alloc_block [OF assms(1) [unfolded B(1)] B(2) sz(2) _ _ s1_def s2_def] sz(1) need_bounds(3) \<open>?n \<le> unat m\<close> by simp_all
      have "tlf_alloc n s = (addsize (bsize s2 x + MMLIST_HEAD_SIZE) n s2, buffer x)"
        using b(1) i f(1-3) x0 take_first_get [OF L(1) f(2,3,5)] by (simp add: tlf_alloc_def Let_def s2_def s1_def)
      then have "s' = addsize (bsize s2 x + MMLIST_HEAD_SIZE) n s2" "p = x + 8" using assms(3) by (simp_all add: buffer_def MMLIST_HEAD_SIZE_def)
      moreover have "mm_ok (addsize u v s2) B' = mm_ok s2 B'" for u v B' by (simp add: mm_ok_def)
      moreover have "le2 (cls (rounded ?n)) (cls (unat m))" using c f(4) B(2) by simp
      ultimately show ?thesis using ok B(1) \<open>?n \<le> unat m\<close> by auto
    next
      assume f: "fst (findblk_byidx (of_nat i) (of_nat j) s) = 0" "\<forall>k<14. \<forall>l<32. le2 (i, j) (k, l) \<longrightarrow> L k l = []"
      have "\<not> le2 (i, j) (cls (unat m))" if "(x, m, True) \<in> set B" for x m
      proof -
        obtain k l where kl: "cls (unat m) = (k, l)" by (metis surj_pair)
        then show ?thesis using in_list_class [OF L(2) that kl] f(2) cm [OF that] by auto
      qed
      moreover obtain k l where "findblk_byidx (of_nat i) (of_nat j) s = (0, k, l)" using f(1) by (metis prod.collapse)
      then have "tlf_alloc n s = (s, 0)" using b(1) i by (simp add: tlf_alloc_def Let_def)
      ultimately show ?thesis using assms(3) c by auto
    qed
  qed
qed

section \<open>Freeing\<close>

text \<open>The blocks after a block \<open>(b, m)\<close> between \<open>xs\<close> and \<open>ys\<close> has been freed: the free neighbours are taken in.\<close>

definition join_right :: "u32 \<Rightarrow> mmblk list \<Rightarrow> u32 \<times> mmblk list" where
  "join_right m ys = (case ys of (c, k, g) # zs \<Rightarrow> if g then (m + 8 + k, zs) else (m, ys) | [] \<Rightarrow> (m, ys))"

definition coalesce :: "mmblk list \<Rightarrow> u32 \<Rightarrow> u32 \<Rightarrow> mmblk list \<Rightarrow> mmblk list" where
  "coalesce xs b m ys = (case join_right m ys of (m', ys') \<Rightarrow>
     if xs \<noteq> [] \<and> snd (snd (last xs)) then butlast xs @ (fst (last xs), fst (snd (last xs)) + 8 + m', True) # ys' else xs @ (b, m', True) # ys')"

lemma mk_add: "mk m f p + (k + 8) = mk (m + 8 + k) f p"
  by (simp add: mk_def)

lemma merge_next_ok:
  assumes "mm_ok s (xs @ (b, m, False) # ys)" "m \<noteq> 0"
    and s2: "s2 = removesize v (set_size b (sizew s b OR 1) s)" and s3: "s3 = merge_next b s2"
  obtains W d l zs st pf pa r f p where "win (mblks s) xs W (d, l, False) zs st b pf pa r f p" "join_right m ys = (d - b - 8, (d, l, False) # zs)"
    "sizew s3 b = mk (d - b - 8) True pf" "\<And>x. x \<noteq> b \<Longrightarrow> sizew s3 x = sizew s x" "\<And>x. mm_prev (mblks s3 x) = mm_prev (mblks s x)"
    "lists_ok s3 (frees xs \<union> frees zs)" "quiet s s3" "pf \<longrightarrow> mm_prev (mblks s b) = pa" "b \<noteq> 0" "b AND 3 = 0" "d AND 3 = 0"
proof -
  obtain st pf pa r c k g zs where q: "ys = (c, k, g) # zs" "c = b + 8 + m" "win (mblks s) xs [(b, m, False)] (c, k, g) zs st b pf pa r False b"
    "sizew s b = mk m False pf" "pf \<longrightarrow> mm_prev (mblks s b) = pa \<and> \<not> False" "fits r b m" "wf_blk (b, m, False)" using mm_cut [OF assms(1,2)] by metis
  note w = winD [OF q(3)]
  have b: "b \<noteq> 0" "b AND 3 = 0" "m AND 3 = 0" using q(7) by (simp_all add: wf_blk_def)
  have bc: "b \<noteq> c" using next_neq [OF q(6)] q(2) by simp
  have l: "lists_ok s2 (frees xs \<union> frees ys)" using assms(1) by (simp add: mm_ok_def s2)
  have S: "sizew s2 x = (if x = b then mk m True pf else sizew s x)" "mm_prev (mblks s2 x) = mm_prev (mblks s x)" for x
    using q(4) b(3) by (simp_all add: s2 set_defs)
  have k3: "k AND 3 = 0" by (rule w(12))
  have cw: "wf_blk (c, k, g)" using w(3) by (rule blk_at_wf)
  have mn: "s3 = (if g then (case bitmap_search k ACTION_INSERT of (fl, sl, _) \<Rightarrow>
      (let s1 = get_block c (unat fl) (unat sl) s2 in set_size b (sizew s1 b + (bsize s1 c + 8)) s1)) else s2)"
    using b(3) bc w(10) k3 by (simp add: s3 merge_next_def op_defs S q(2) [symmetric])
  show thesis
  proof (cases g)
    case False
    then have "s3 = s2" "c - b - 8 = m" "c AND 3 = 0" using mn cw by (simp_all add: q(2) wf_blk_def)
    then show ?thesis using that [of "[(b, m, False)]" c k zs st pf pa r False b] False q(1,3,5) S l b by (simp add: join_right_def s2)
  next
    case True
    have k: "k \<noteq> 0" using True cw by (auto simp: wf_blk_def)
    obtain e n h zs' where z: "zs = (e, n, h) # zs'" "e = c + 8 + k" "win (mblks s) xs ([(b, m, False)] @ [(c, k, g)]) (e, n, h) zs' st b pf pa r g c"
      using win_right [OF q(3) k] by metis
    have h: "\<not> h" using winD(11) [OF z(3)] True by simp
    have e3: "e AND 3 = 0" using blk_at_wf [OF winD(3) [OF z(3)]] by (simp add: wf_blk_def)
    obtain fl sl sta where bs: "bitmap_search k ACTION_INSERT = (fl, sl, sta)" by (metis surj_pair)
    have so: "size_ok k" using seg_fits [of "mblks s" None _ None c k g] assms(1) k cw
      by (auto simp: size_ok_def mm_ok_def q(1) wf_blk_def simp del: seg_append)
    define s1 where "s1 = get_block c (unat fl) (unat sl) s2"
    note ol = only_links_size [OF get_block_links [of s2 c "unat fl" "unat sl", folded s1_def]]
    have e: "s3 = set_size b (mk m True pf + (k + 8)) s1" using mn True bs bc w(10) k3 by (simp add: s1_def [symmetric] ol bsize_def S mm_masks)
    have ap: "apart ((xs @ [(b, m, False)]) @ (c, k, True) # zs)" using w(5) True by simp
    have "lists_ok s1 (frees xs \<union> frees ys - {(c, k)})"
      unfolding s1_def by (rule lists_get [OF l _ _ so bs]) (use frees_apart [OF ap] True in \<open>auto simp: q(1)\<close>)
    moreover have "frees xs \<union> frees ys - {(c, k)} = frees xs \<union> frees zs'" using frees_apart [OF ap] True h by (auto simp: q(1) z(1))
    ultimately have F: "lists_ok s3 (frees xs \<union> frees zs')" by (simp add: e)
    have m: "e - b - 8 = m + 8 + k" by (simp add: z(2) q(2))
    have X: "sizew s3 b = mk (e - b - 8) True pf" "\<And>x. x \<noteq> b \<Longrightarrow> sizew s3 x = sizew s x" "\<And>x. mm_prev (mblks s3 x) = mm_prev (mblks s x)"
      unfolding m e by (simp_all only: mk_add) (simp_all add: set_defs ol S)
    have "quiet s s3" by (simp add: e s1_def s2)
    moreover have "win (mblks s) xs [(b, m, False), (c, k, g)] (e, n, False) zs' st b pf pa r g c" using z(3) h by simp
    moreover have "join_right m ys = (e - b - 8, (e, n, False) # zs')" using True h unfolding m by (simp add: join_right_def q(1) z(1))
    ultimately show ?thesis using that [OF _ _ X F _ _ b(1,2) e3] q(5) by blast
  qed
qed

lemma win_rest:
  assumes "win H xs W (d, l, g) zs st a pf pa r f p" "a AND 3 = 0" "d AND 3 = 0"
  shows "unat (d - a - 8) = unat d - unat a - 8" "d - a - 8 AND 3 = 0"
proof -
  note sp = win_span [OF assms(1)]
  have "unat (d - a) = unat d - unat a" using sp by (intro unat_sub) (simp add: word_le_nat_alt)
  then show e: "unat (d - a - 8) = unat d - unat a - 8" using sp by (simp add: unat_sub word_le_nat_alt)
  have "4 dvd unat a" "4 dvd unat d" using assms(2,3) by (simp_all only: and_3_dvd)
  then have "4 dvd unat (d - a - 8)" unfolding e by (intro dvd_diff_nat) simp_all
  then show "d - a - 8 AND 3 = 0" by (simp only: and_3_dvd)
qed

text \<open>The joined window goes to its list, and the block behind learns of it.\<close>

lemma join_win:
  assumes "win (mblks s) xs W (d, l, False) zs st a False pa r f p" "a \<noteq> 0" "a AND 3 = 0" "d AND 3 = 0"
    and s4: "sizew s4 a = mk t True False" "\<And>x. unat x \<notin> {unat a..<unat d} \<Longrightarrow> sizew s4 x = sizew s x" "\<And>x. mm_prev (mblks s4 x) = mm_prev (mblks s x)"
      "lists_ok s4 (frees xs \<union> frees zs)"
    and t: "t = d - a - 8" "bitmap_search t ACTION_INSERT = (fl, sl, sta)" "s5 = insert_block a (unat fl) (unat sl) s4"
      "s6 = set_mprev d a (set_size d (sizew s5 d OR 2) s5)"
  shows "mm_ok s6 (xs @ (a, t, True) # (d, l, False) # zs)" "NEXT_MM_BLK (buffer a) t = d"
proof -
  note w = winD [OF assms(1)] and sp = win_span [OF assms(1)]
  have tn: "unat t = unat d - unat a - 8" and t3: "t AND 3 = 0" unfolding t(1) by (rule win_rest [OF assms(1,3,4)])+
  have so: "size_ok t" using tn sp by (simp add: size_ok_def)
  show nx: "NEXT_MM_BLK (buffer a) t = d" by (simp add: t(1) NEXT_MM_BLK_def buffer_def MMLIST_HEAD_SIZE_def)
  have ad: "a \<noteq> d" using sp by auto
  note ol = only_links_size [OF insert_block_links [of s4 a "unat fl" "unat sl", folded t(3)]]
  have dk: "sizew s4 d = mk l False f" using s4(2) [of d] w(10) by simp
  have H: "mm_size (mblks s6 x) = (if x = d then mk l False True else sizew s4 x)" "mm_prev (mblks s6 x) = (if x = d then a else mm_prev (mblks s x))" for x
    using dk w(12) s4(3) by (auto simp: t(4) set_defs ol)
  have tz: "t \<noteq> 0" using so by (auto simp: size_ok_def)
  have "seg (mblks s6) st [(a, t, True)] (Some (True, a, d, r))"
    using tz tn sp t3 assms(2,3) ad s4(1) nx
    by (simp add: blk_at_stands [OF w(6)] stands_after [OF w(6)] H wf_blk_def fits_def NEXT_MM_BLK_def buffer_def MMLIST_HEAD_SIZE_def)
  then have w6: "win (mblks s6) xs [(a, t, True)] (d, l, False) zs st a False pa r True a"
    by (rule win_change [OF assms(1)]) (use tz s4(2,3) in \<open>auto simp: H\<close>)
  have "(a, n) \<notin> frees xs \<union> frees zs" for n
    using frees_apart [of xs a t True "(d, l, False) # zs" n] win_seg(2) [OF w6] by simp
  from lists_insert [OF s4(4) this assms(2) so t(2)]
  have "lists_ok s6 (frees (xs @ [(a, t, True)] @ (d, l, False) # zs))" by (simp add: t(3,4))
  then show "mm_ok s6 (xs @ (a, t, True) # (d, l, False) # zs)" using mm_okI [OF w6] by simp
qed

lemma last_free:
  assumes "seg H None xs st" "stands st b pf pa r"
  shows "xs \<noteq> [] \<and> snd (snd (last xs)) \<longleftrightarrow> pf"
proof (cases xs rule: rev_cases)
  case Nil
  then show ?thesis using assms by (simp add: stands_def)
next
  case (snoc us x)
  obtain a n f where x: "x = (a, n, f)" by (cases x)
  obtain st' where "blk_at H st' (a, n, f)" "st = after st' (a, n, f)" using assms(1) by (auto simp: snoc x seg_append)
  then show ?thesis using assms(2) blk_at_wf [of H st' "(a, n, f)"] by (auto simp: snoc x after_def stands_def wf_blk_def split: if_splits)
qed

lemma merge_prev_ok:
  assumes q: "win (mblks s) xs W (d, l, False) zs st b pf pa r f p"
    "sizew s3 b = mk (d - b - 8) True pf" "\<And>x. x \<noteq> b \<Longrightarrow> sizew s3 x = sizew s x" "\<And>x. mm_prev (mblks s3 x) = mm_prev (mblks s x)"
    "lists_ok s3 (frees xs \<union> frees zs)" "quiet s s3" "pf \<longrightarrow> mm_prev (mblks s b) = pa" "b \<noteq> 0" "b AND 3 = 0" "d AND 3 = 0"
  obtains s4 a us V st' pa' where "merge_prev b s3 = (s4, a)" "win (mblks s) us V (d, l, False) zs st' a False pa' r f p" "a \<noteq> 0" "a AND 3 = 0"
    "sizew s4 a = mk (d - a - 8) True False" "\<And>x. unat x \<notin> {unat a..<unat d} \<Longrightarrow> sizew s4 x = sizew s x"
    "\<And>x. mm_prev (mblks s4 x) = mm_prev (mblks s x)" "lists_ok s4 (frees us \<union> frees zs)" "quiet s s4"
    "us @ (a, d - a - 8, True) # ys = (if xs \<noteq> [] \<and> snd (snd (last xs)) then butlast xs @ (fst (last xs), fst (snd (last xs)) + 8 + (d - b - 8), True) # ys
      else xs @ (b, d - b - 8, True) # ys)"
proof -
  note w = winD [OF q(1)] and sp = win_span [OF q(1)]
  note t3 = win_rest(2) [OF q(1,9,10)]
  have lf: "xs \<noteq> [] \<and> snd (snd (last xs)) \<longleftrightarrow> pf" by (rule last_free [OF w(1,6)])
  show thesis
  proof (cases pf)
    case False
    then have "merge_prev b s3 = (s3, b)" using q(2) t3 by (simp add: merge_prev_def mm_masks)
    moreover have "sizew s3 x = sizew s x" if "unat x \<notin> {unat b..<unat d}" for x using that q(3) [of x] sp by (cases "x = b") auto
    moreover have "win (mblks s) xs W (d, l, False) zs st b False pa r f p" "sizew s3 b = mk (d - b - 8) True False" using q(1,2) False by simp_all
    ultimately show ?thesis using that [of s3 b xs W st pa] q(4-6,8,9) lf False by auto
  next
    case True
    then obtain us a n where us: "xs = us @ [(a, n, True)]" using lf by (metis append_butlast_last_id prod.collapse)
    have aw: "wf_blk (a, n, True)" using seg_wf [OF w(1)] by (simp add: us)
    then have n: "n \<noteq> 0" "n AND 3 = 0" "a \<noteq> 0" "a AND 3 = 0" by (auto simp: wf_blk_def)
    obtain st' pf' pa' where v: "win (mblks s) us ((a, n, True) # W) (d, l, False) zs st' a pf' pa' r f p" "b = a + 8 + n"
      "sizew s a = mk n True pf'" "pf' \<longrightarrow> mm_prev (mblks s a) = pa' \<and> \<not> True" "pa = a" using win_left [OF q(1) [unfolded us] n(1)] by metis
    have pf': "\<not> pf'" using v(4) by simp
    have fa: "fits r a n" using winD(2) [OF v(1)] by (simp add: blk_at_stands [OF winD(6) [OF v(1)]])
    then have ab: "a \<noteq> b" "unat a < unat b" using unat_next [of a n] next_neq [OF fa] by (simp_all add: v(2) fits_def)
    have so: "size_ok n" using fa aw by (auto simp: size_ok_def fits_def wf_blk_def)
    obtain fl sl sta where bs: "bitmap_search n ACTION_INSERT = (fl, sl, sta)" by (metis surj_pair)
    define g4 where "g4 = get_block a (unat fl) (unat sl) s3"
    define s4 where "s4 = set_size a (mk n True False + ((d - b - 8) + 8)) g4"
    note ol = only_links_size [OF get_block_links [of s3 a "unat fl" "unat sl", folded g4_def]]
    have m: "mk n True False + ((d - b - 8) + 8) = mk (d - a - 8) True False" unfolding mk_add by (simp add: v(2))
    have "merge_prev b s3 = (s4, a)"
      using True q(2,3,4,7) t3 ab v(3,5) n(2) pf' bs by (simp add: merge_prev_def mm_masks bsize_def Let_def g4_def [symmetric] ol s4_def MMLIST_HEAD_SIZE_def)
    moreover have "sizew s4 x = sizew s x" if "unat x \<notin> {unat a..<unat d}" for x using that q(3) [of x] sp ab by (cases "x = b") (auto simp: s4_def set_defs ol)
    moreover have "lists_ok s4 (frees us \<union> frees zs)"
    proof -
      have ap: "apart (us @ (a, n, True) # W @ (d, l, False) # zs)" using winD(5) [OF v(1)] by simp
      have "lists_ok g4 (frees xs \<union> frees zs - {(a, n)})"
        unfolding g4_def by (rule lists_get [OF q(5) _ _ so bs]) (use frees_apart [OF ap] in \<open>auto simp: us\<close>)
      moreover have "frees xs \<union> frees zs - {(a, n)} = frees us \<union> frees zs" using frees_apart [OF ap] by (auto simp: us)
      ultimately show ?thesis by (simp add: s4_def)
    qed
    moreover have "sizew s4 a = mk (d - a - 8) True False" "mm_prev (mblks s4 x) = mm_prev (mblks s x)" "quiet s s4" for x
      using m q(4,6) by (simp_all add: s4_def set_defs ol) (simp add: g4_def flip: set_size_def)
    moreover have "win (mblks s) us ((a, n, True) # W) (d, l, False) zs st' a False pa' r f p" using v(1) pf' by simp
    ultimately show ?thesis using that [of s4 a us "(a, n, True) # W" st' pa'] n(3,4) by (simp add: us v(2))
  qed
qed

lemma tlf_free_ok:
  assumes "mm_ok s (xs @ (b, m, False) # ys)" "m \<noteq> 0"
  shows "mm_ok (tlf_free b s) (coalesce xs b m ys)" "quiet s (tlf_free b s)"
proof -
  define s1 where "s1 = set_size b (sizew s b OR 1) s"
  define s2 where "s2 = removesize (bsize s1 b + MMLIST_HEAD_SIZE) s1"
  define s3 where "s3 = merge_next b s2"
  from merge_next_ok [OF assms s2_def [unfolded s1_def] s3_def]
  obtain W d l zs st pf pa r f p where q: "win (mblks s) xs W (d, l, False) zs st b pf pa r f p" "join_right m ys = (d - b - 8, (d, l, False) # zs)"
    "sizew s3 b = mk (d - b - 8) True pf" "\<And>x. x \<noteq> b \<Longrightarrow> sizew s3 x = sizew s x" "\<And>x. mm_prev (mblks s3 x) = mm_prev (mblks s x)"
    "lists_ok s3 (frees xs \<union> frees zs)" "quiet s s3" "pf \<longrightarrow> mm_prev (mblks s b) = pa" "b \<noteq> 0" "b AND 3 = 0" "d AND 3 = 0" by metis
  from merge_prev_ok [OF q(1,3-11), of "(d, l, False) # zs"]
  obtain s4 a us V st' pa' where v: "merge_prev b s3 = (s4, a)" "win (mblks s) us V (d, l, False) zs st' a False pa' r f p" "a \<noteq> 0" "a AND 3 = 0"
    "sizew s4 a = mk (d - a - 8) True False" "\<And>x. unat x \<notin> {unat a..<unat d} \<Longrightarrow> sizew s4 x = sizew s x"
    "\<And>x. mm_prev (mblks s4 x) = mm_prev (mblks s x)" "lists_ok s4 (frees us \<union> frees zs)" "quiet s s4"
    "us @ (a, d - a - 8, True) # (d, l, False) # zs = (if xs \<noteq> [] \<and> snd (snd (last xs))
      then butlast xs @ (fst (last xs), fst (snd (last xs)) + 8 + (d - b - 8), True) # (d, l, False) # zs else xs @ (b, d - b - 8, True) # (d, l, False) # zs)" by metis
  have co: "coalesce xs b m ys = us @ (a, d - a - 8, True) # (d, l, False) # zs" unfolding v(10) by (simp only: coalesce_def q(2) case_prod_conv)
  obtain fl sl sta where bs: "bitmap_search (d - a - 8) ACTION_INSERT = (fl, sl, sta)" by (metis surj_pair)
  note j = join_win [OF v(2-4) q(11) v(5-8) refl bs refl refl]
  have "bsize s4 a = d - a - 8" using v(5) win_rest(2) [OF v(2,4) q(11)] by (simp add: bsize_def mm_masks)
  moreover have "bsize (insert_block a i k s4) a = bsize s4 a" for i k by (rule only_links_size(3) [OF insert_block_links])
  ultimately have "tlf_free b s = (let s5 = insert_block a (unat fl) (unat sl) s4 in set_mprev d a (set_size d (sizew s5 d OR 2) s5))"
    using v(1) bs j(2) by (simp add: tlf_free_def Let_def mm_masks flip: s1_def s2_def s3_def)
  then show "mm_ok (tlf_free b s) (coalesce xs b m ys)" "quiet s (tlf_free b s)" using j(1) v(9) by (simp_all add: Let_def co)
qed

end
