(* ===== verification/Mm_Resize.thy ===== *)
theory Mm_Resize
  imports Mm_Ops
begin

unbundle bit_operations_syntax

text \<open>
  Resizing a block in place (\<open>k_mm_realloc\<close>): the block takes in a free block behind it and gives back what it does not need.
\<close>

definition resize :: "mmblk list \<Rightarrow> u32 \<Rightarrow> u32 \<Rightarrow> u32 \<Rightarrow> mmblk list \<Rightarrow> mmblk list" where
  "resize xs b m sz ys = (case join_right m ys of (t, ys') \<Rightarrow> xs @ carve b t sz @ ys')"

lemma only_links_quiet: "only_links s s' \<Longrightarrow> quiet s s'"
  by (simp add: only_links_def quiet_def)

lemma next_free:
  assumes "mm_ok s (xs @ (b, m, False) # ys)" "m \<noteq> 0" "sizew s c AND 1 \<noteq> 0" "c = b + 8 + m" "s1 = removesize v s"
    "bitmap_search (bsize s1 c) ACTION_INSERT = (fl, sl, sta)" "s2 = get_block c (unat fl) (unat sl) s1"
  obtains k d l zs st pf pa r where "ys = (c, k, True) # (d, l, False) # zs" "d = c + 8 + k"
    "win (mblks s) xs [(b, m, False), (c, k, True)] (d, l, False) zs st b pf pa r True c" "lists_ok s2 (frees xs \<union> frees zs)" "only_links s s2"
    "sizew s b = mk m False pf" "bsize s c = k" "pf \<longrightarrow> mm_prev (mblks s b) = pa" "wf_blk (b, m, False)" "d AND 3 = 0" "8 \<le> unat k" "k AND 3 = 0"
    "d - b - 8 = m + (k + 8)" "unat (d - b - 8) = unat m + 8 + unat k" "unat d = unat b + 16 + unat m + unat k"
proof -
  obtain st pf pa r k g zs where q: "ys = (c, k, g) # zs" "win (mblks s) xs [(b, m, False)] (c, k, g) zs st b pf pa r False b"
    "sizew s b = mk m False pf" "pf \<longrightarrow> mm_prev (mblks s b) = pa \<and> \<not> False" "wf_blk (b, m, False)" using mm_cut [OF assms(1,2)] assms(4) by metis
  note w = winD [OF q(2)]
  have g: g using assms(3) w(10,12) by (cases g) simp_all
  have cw: "wf_blk (c, k, True)" using blk_at_wf [OF w(3)] g by simp
  then have k: "k \<noteq> 0" "8 \<le> unat k" by (auto simp: wf_blk_def)
  obtain d l h zs' where z: "zs = (d, l, h) # zs'" "d = c + 8 + k" "win (mblks s) xs ([(b, m, False)] @ [(c, k, g)]) (d, l, h) zs' st b pf pa r g c"
    using win_right [OF q(2) k(1)] by metis
  have h: "\<not> h" using winD(11) [OF z(3)] g by simp
  have d3: "d AND 3 = 0" using blk_at_wf [OF winD(3) [OF z(3)]] by (simp add: wf_blk_def)
  have bk: "bsize s c = k" "bsize s1 c = k" using w(10,12) by (simp_all add: bsize_def mm_masks assms(5))
  have B: "xs @ (b, m, False) # ys = (xs @ [(b, m, False)]) @ (c, k, True) # zs" by (simp add: q(1) g)
  have mo: "mm_ok s1 ((xs @ [(b, m, False)]) @ (c, k, True) # zs)" using assms(1) unfolding B by (simp add: mm_ok_def assms(5))
  have "size_ok k" using seg_fits [of "mblks s" None "xs @ (b, m, False) # ys" None c k True] assms(1) k unfolding B by (auto simp: mm_ok_def size_ok_def)
  then have "cls (unat k) = (unat fl, unat sl)" using search_insert(1) assms(6) bk(2) by simp
  from mm_take(1) [OF mo this] have li: "lists_ok s2 (frees xs \<union> frees zs')" using h by (simp add: assms(7) z(1))
  have on: "only_links s s2"
    using get_block_links [of s1 c "unat fl" "unat sl", folded assms(7)] by (simp add: only_links_def assms(5))
  have W: "win (mblks s) xs [(b, m, False), (c, k, True)] (d, l, False) zs' st b pf pa r True c" using z(3) g h by simp
  have "fits r b m" "fits r c k" using winD(2) [OF W] assms(2,4)
    by (auto simp: blk_at_stands [OF winD(6) [OF W]] stands_after [OF winD(6) [OF W]] blk_at_stands [OF stands_Some])
  then have ud: "unat d = unat b + 16 + unat m + unat k" using unat_next [of c k] unat_next [of b m] by (simp add: z(2) fits_def assms(4))
  then have ut: "unat (d - b - 8) = unat m + 8 + unat k" using win_rest(1) [OF W _ d3] q(5) by (simp add: wf_blk_def)
  have et: "d - b - 8 = m + (k + 8)" by (simp add: z(2) assms(4))
  show thesis by (rule that [OF _ z(2) W li on q(3) bk(1) _ q(5) d3 k(2) w(12) et ut ud]) (use q(1,4) g z(1) h in simp_all)
qed

lemma mm_ok_addsize [simp]: "mm_ok (addsize u v s) B = mm_ok s B" "mm_ok (removesize v s) B = mm_ok s B"
  by (simp_all add: mm_ok_def)

lemma block_size:
  assumes "mm_ok s (xs @ (b, m, False) # ys)"
  shows "bsize s b = m" "b \<noteq> 0" "b AND 3 = 0" "m AND 3 = 0" "NEXT_MM_BLK (b + 8) m = b + 8 + m" "buffer b = b + 8"
proof -
  have a: "seg (mblks s) None (xs @ (b, m, False) # ys) None" "(b, m, False) \<in> set (xs @ (b, m, False) # ys)" using assms by (simp_all add: mm_ok_def)
  show "b \<noteq> 0" "b AND 3 = 0" and m: "m AND 3 = 0" using seg_wf [OF a] by (simp_all add: wf_blk_def)
  obtain pf where "sizew s b = mk m False pf" using seg_size(1) [OF a] by blast
  then show "bsize s b = m" using m by (simp add: bsize_def mm_masks)
qed (simp_all add: NEXT_MM_BLK_def buffer_def MMLIST_HEAD_SIZE_def)

lemma left_over: "unat sz \<le> unat m \<Longrightarrow> m - sz \<ge> sizeof_mm_list \<longleftrightarrow> unat sz + 16 \<le> unat (m :: u32)"
  by (simp add: sizeof_mm_list_def word_le_nat_alt unat_sub) linarith

lemma realloc_shrink_used:
  assumes "mm_ok s (xs @ (b, m, False) # ys)" "m \<noteq> 0" "sz AND 3 = 0" "8 \<le> unat sz" "unat sz \<le> unat m" "sizew s (b + 8 + m) AND 1 = 0"
  shows "\<exists>s'. realloc_shrink b sz q s = (s', b + 8) \<and> mm_ok s' (resize xs b m sz ys) \<and> quiet s s'"
proof -
  define c s1 where "c = b + 8 + m" and "s1 = removesize (m + MMLIST_HEAD_SIZE) s"
  obtain st pf pa r k g zs where w0: "ys = (c, k, g) # zs" "win (mblks s) xs [(b, m, False)] (c, k, g) zs st b pf pa r False b"
    "sizew s b = mk m False pf" "pf \<longrightarrow> mm_prev (mblks s b) = pa \<and> \<not> False" "fits r b m" "wf_blk (b, m, False)" using mm_cut [OF assms(1,2)] c_def by metis
  note b = block_size [OF assms(1)]
  have g: "\<not> g" using assms(6) winD(10,12) [OF w0(2)] by (cases g) (simp_all flip: c_def)
  define s3 where "s3 = (if m - sz \<ge> sizeof_mm_list then split_block b c sz (m - sz) True s1 else s1)"
  have e: "realloc_shrink b sz q s = (addsize (bsize s3 b + MMLIST_HEAD_SIZE) q s3, b + 8)"
    using assms(6) by (simp add: realloc_shrink_def Let_def b mm_masks s1_def s3_def c_def)
  have "mm_ok s3 (xs @ carve b m sz @ ys)"
  proof (cases "unat sz + 16 \<le> unat m")
    case False
    then show ?thesis using assms(1) left_over [OF assms(5)] by (simp add: s3_def carve_def s1_def)
  next
    case split: True
    have c3: "c AND 3 = 0" using blk_at_wf [OF winD(3) [OF w0(2)]] by (simp add: wf_blk_def)
    have l: "unat b + 8 + unat sz + 16 \<le> unat c" using split unat_next [of b m] w0(5) by (simp add: fits_def c_def)
    have win: "win (mblks s) xs [(b, m, False)] (c, k, False) zs st b pf pa r False b" using w0(2) g by simp
    have f: "lists_ok s1 (frees xs \<union> frees zs)" using assms(1) g by (simp add: s1_def mm_ok_def w0(1))
    have S: "sizew s1 x = sizew s x" "mm_prev (mblks s1 x) = mm_prev (mblks s x)" for x by (simp_all add: s1_def)
    have p2: "sizew s1 b AND 2 = (if pf then 2 else 0)" using b(4) by (simp add: S w0(3))
    have ck: "sizew s1 c = mk k False False" using winD(10) [OF win] by (simp add: S)
    have d: "m - sz = c - b - 8 - sz" by (simp add: c_def)
    from split_win [OF win b(2,3) c3 S(1,2) p2 _ f ck _ assms(3,4) l d, of True s3] w0(4) split left_over [OF assms(5)]
    show ?thesis using g by (simp add: s3_def carve_def w0(1))
  qed
  moreover have "quiet s s3" by (simp add: s3_def s1_def)
  moreover have "join_right m ys = (m, ys)" using g by (simp add: join_right_def w0(1))
  ultimately show ?thesis using e by (simp add: resize_def)
qed

text \<open>A free block behind is taken off its list first; \<open>s4\<close> is the state at the split, where the header behind may have been changed.\<close>

lemma realloc_split:
  assumes "mm_ok s (xs @ (b, m, False) # ys)" "m \<noteq> 0" "sizew s (b + 8 + m) AND 1 \<noteq> 0" "s1 = removesize v s"
    "bitmap_search (bsize s1 (b + 8 + m)) ACTION_INSERT = (fl, sl, sta)" "s2 = get_block (b + 8 + m) (unat fl) (unat sl) s1"
    and sz: "sz AND 3 = 0" "8 \<le> unat sz"
  obtains k d l zs where "ys = (b + 8 + m, k, True) # (d, l, False) # zs" "d = b + 8 + m + 8 + k" "only_links s s2" "bsize s (b + 8 + m) = k"
    "join_right m ys = (m + (k + 8), (d, l, False) # zs)" "unat (m + (k + 8)) = unat m + 8 + unat k" "8 \<le> unat k" "unat d = unat b + 16 + unat m + unat k"
    "unat sz + 16 \<le> unat m + 8 + unat k \<Longrightarrow> mm_ok (split_block b d sz (m + (k + 8) - sz) True s2) (resize xs b m sz ys)"
    "unat sz + 16 \<le> unat m + 8 + unat k \<Longrightarrow> mm_ok (split_block b d sz (m + (k + 8) - sz) True
        (set_size d (sizew s2 d AND NOT 2) (set_mprev d b (set_size b (sizew s2 b + (k + 8)) s2)))) (resize xs b m sz ys)"
    "unat m + 8 + unat k < unat sz + 16 \<Longrightarrow> mm_ok (set_size d (sizew s2 d AND NOT 2) (set_mprev d b (set_size b (sizew s2 b + (k + 8)) s2))) (resize xs b m sz ys)"
proof -
  define c where "c = b + 8 + m"
  obtain k d l zs st pf pa r where n: "ys = (c, k, True) # (d, l, False) # zs" "d = c + 8 + k"
    "win (mblks s) xs [(b, m, False), (c, k, True)] (d, l, False) zs st b pf pa r True c" "lists_ok s2 (frees xs \<union> frees zs)" "only_links s s2"
    "sizew s b = mk m False pf" "bsize s c = k" "pf \<longrightarrow> mm_prev (mblks s b) = pa" "wf_blk (b, m, False)" "d AND 3 = 0" "8 \<le> unat k" "k AND 3 = 0"
    "d - b - 8 = m + (k + 8)" "unat (d - b - 8) = unat m + 8 + unat k" "unat d = unat b + 16 + unat m + unat k"
    by (rule next_free [OF assms(1,2,3) refl assms(4-6)]) (rule that; simp add: c_def)
  note b = block_size [OF assms(1)] and ol = only_links_size [OF n(5)] and w = winD [OF n(3)] and t = n(13,14)
  define s4 where "s4 = set_size d (sizew s2 d AND NOT 2) (set_mprev d b (set_size b (sizew s2 b + (k + 8)) s2))"
  have jr: "join_right m ys = (m + (k + 8), (d, l, False) # zs)" by (simp add: join_right_def n(1))
  have bd: "b \<noteq> d" using n(15) by auto
  have t3: "m + (k + 8) AND 3 = 0" using win_rest(2) [OF n(3) b(3) n(10)] by (simp add: t(1))
  have ma: "mk m False pf + (k + 8) = mk (m + (k + 8)) False pf" by (simp add: mk_def)
  have S: "sizew s4 x = (if x = d then mk l False False else if x = b then mk (m + (k + 8)) False pf else sizew s x)"
    "mm_prev (mblks s4 x) = (if x = d then b else mm_prev (mblks s x))" for x
    using bd w(10,12) by (simp_all add: s4_def set_defs ol n(6) ma)
  have l4: "lists_ok s4 (frees xs \<union> frees zs)" using n(4) by (simp add: s4_def)
  have p2: "sizew s2 b AND 2 = (if pf then 2 else 0)" "sizew s4 b AND 2 = (if pf then 2 else 0)" using b(4) bd t3 by (simp_all add: ol n(6) S)
  have dk: "sizew s2 d = mk l False True" "sizew s4 d = mk l False False" using w(10) by (simp_all add: ol S)
  have e: "m + (k + 8) - sz = d - b - 8 - sz" by (simp add: t(1))
  have ut: "unat (m + (k + 8)) = unat m + 8 + unat k" using t(2) by (simp only: t(1))
  have sp: "mm_ok (split_block b d sz (m + (k + 8) - sz) True x) (resize xs b m sz ys)" if "unat sz + 16 \<le> unat m + 8 + unat k" "x = s2 \<or> x = s4" for x
  proof -
    have l: "unat b + 8 + unat sz + 16 \<le> unat d" using n(15) that(1) by simp
    have "mm_ok (split_block b d sz (m + (k + 8) - sz) True x) (xs @ [(b, sz, False), (b + 8 + sz, m + (k + 8) - sz - 8, True)] @ (d, l, False) # zs)"
      using that(2) split_win [OF n(3) b(2,3) n(10) ol(1,2) p2(1) n(8,4) dk(1) _ sz l e refl]
        split_win [OF n(3) b(2,3) n(10) _ _ p2(2) n(8) l4 dk(2) _ sz l e refl] by (auto simp: S)
    moreover have "\<not> unat (m + (k + 8)) < unat sz + 16" using that(1) ut by linarith
    ultimately show ?thesis by (simp only: resize_def jr carve_def case_prod_conv if_False not_False_eq_True)
  qed
  have wh: "mm_ok s4 (resize xs b m sz ys)" if "unat m + 8 + unat k < unat sz + 16"
  proof -
    have "unat (m + (k + 8)) \<noteq> 0" using ut by linarith
    then have tz: "m + (k + 8) \<noteq> 0" by (metis unat_0)
    have "seg (mblks s4) st [(b, m + (k + 8), False)] (Some (False, b, d, r))"
      using tz t t3 b bd n(8) win_span [OF n(3)] n(15) t(1)
      by (simp add: blk_at_stands [OF w(6)] stands_after [OF w(6)] S wf_blk_def fits_def) (simp add: n(2) c_def)
    then have w4: "win (mblks s4) xs [(b, m + (k + 8), False)] (d, l, False) zs st b pf pa r False b"
      by (rule win_change [OF n(3)]) (use tz bd n(15) in \<open>auto simp: S\<close>)
    have "unat (m + (k + 8)) < unat sz + 16" using that ut by linarith
    then show ?thesis using mm_okI [OF w4] l4 by (simp only: resize_def jr carve_def case_prod_conv if_True frees_append) simp
  qed
  show thesis by (rule that [OF n(1,2,5,7) [unfolded c_def] jr ut n(11,15)]) (use sp wh in \<open>simp_all add: s4_def\<close>)
qed

lemma realloc_shrink_ok:
  assumes "mm_ok s (xs @ (b, m, False) # ys)" "m \<noteq> 0" "sz AND 3 = 0" "8 \<le> unat sz" "unat sz \<le> unat m"
  shows "\<exists>s'. realloc_shrink b sz q s = (s', b + 8) \<and> mm_ok s' (resize xs b m sz ys) \<and> quiet s s'"
proof (cases "sizew s (b + 8 + m) AND 1 = 0")
  case True
  then show ?thesis using realloc_shrink_used [OF assms] by simp
next
  case False
  define c s1 where "c = b + 8 + m" and "s1 = removesize (m + MMLIST_HEAD_SIZE) s"
  obtain fl sl sta where bsr: "bitmap_search (bsize s1 c) ACTION_INSERT = (fl, sl, sta)" by (metis surj_pair)
  define s2 where "s2 = get_block c (unat fl) (unat sl) s1"
  note b = block_size [OF assms(1)]
  show ?thesis
  proof (rule realloc_split [OF assms(1,2) False s1_def bsr [unfolded c_def] s2_def [unfolded c_def] assms(3,4)])
    fix k d l zs
    assume q: "d = b + 8 + m + 8 + k" "only_links s s2" "bsize s (b + 8 + m) = k" "unat (m + (k + 8)) = unat m + 8 + unat k" "8 \<le> unat k"
      "unat sz + 16 \<le> unat m + 8 + unat k \<Longrightarrow> mm_ok (split_block b d sz (m + (k + 8) - sz) True s2) (resize xs b m sz ys)"
    define s3 where "s3 = split_block b d sz (m + (k + 8) - sz) True s2"
    have le: "sizeof_mm_list \<le> m + (k + 8) - sz" using left_over [of sz "m + (k + 8)"] q(4,5) assms(5) by simp
    have bc: "bsize s1 c = k" "bsize s2 c = k" using q(3) only_links_size(3) [OF q(2), of c] by (simp_all add: c_def s1_def bsize_def)
    have nx: "NEXT_MM_BLK (buffer c) k = d" by (simp add: q(1) c_def NEXT_MM_BLK_def buffer_def MMLIST_HEAD_SIZE_def)
    have "sizew s1 c AND 1 \<noteq> 0" using False by (simp add: s1_def c_def)
    then have "realloc_shrink b sz q s = (addsize (bsize s3 b + MMLIST_HEAD_SIZE) q s3, b + 8)"
      using bsr le by (simp add: realloc_shrink_def Let_def b mm_masks bc nx s3_def MMLIST_HEAD_SIZE_def flip: c_def s1_def [unfolded MMLIST_HEAD_SIZE_def] s2_def)
    moreover have "mm_ok s3 (resize xs b m sz ys)" using q(5,6) assms(5) by (simp add: s3_def)
    moreover have "quiet s s3" by (simp add: s3_def only_links_quiet [OF q(2)])
    ultimately show ?thesis by simp
  qed
qed

lemma realloc_grow_ok:
  assumes "mm_ok s (xs @ (b, m, False) # ys)" "m \<noteq> 0" "sz AND 3 = 0" "8 \<le> unat sz" "sizew s (b + 8 + m) AND 1 \<noteq> 0" "sz \<le> m + bsize s (b + 8 + m)"
  shows "\<exists>s'. realloc_grow b sz q s = (s', b + 8) \<and> mm_ok s' (resize xs b m sz ys) \<and> quiet s s' \<and> unat sz \<le> unat (fst (join_right m ys))"
proof -
  define c s1 where "c = b + 8 + m" and "s1 = removesize (m + MMLIST_HEAD_SIZE) s"
  obtain fl sl sta where bsr: "bitmap_search (bsize s1 c) ACTION_INSERT = (fl, sl, sta)" by (metis surj_pair)
  define s2 where "s2 = get_block c (unat fl) (unat sl) s1"
  note b = block_size [OF assms(1)]
  show ?thesis
  proof (rule realloc_split [OF assms(1,2,5) s1_def bsr [unfolded c_def] s2_def [unfolded c_def] assms(3,4)])
    fix k d l zs
    assume q: "d = b + 8 + m + 8 + k" "only_links s s2" "bsize s (b + 8 + m) = k" "join_right m ys = (m + (k + 8), (d, l, False) # zs)"
      "unat (m + (k + 8)) = unat m + 8 + unat k" "8 \<le> unat k" "unat d = unat b + 16 + unat m + unat k"
      "unat sz + 16 \<le> unat m + 8 + unat k \<Longrightarrow> mm_ok (split_block b d sz (m + (k + 8) - sz) True
        (set_size d (sizew s2 d AND NOT 2) (set_mprev d b (set_size b (sizew s2 b + (k + 8)) s2)))) (resize xs b m sz ys)"
      "unat m + 8 + unat k < unat sz + 16 \<Longrightarrow> mm_ok (set_size d (sizew s2 d AND NOT 2) (set_mprev d b (set_size b (sizew s2 b + (k + 8)) s2))) (resize xs b m sz ys)"
    have lt: "unat sz \<le> unat m + unat k"
    proof -
      have "unat (m + k) \<le> unat m + unat k" by (simp add: unat_word_ariths)
      then show ?thesis using assms(6) q(3) by (simp add: word_le_nat_alt)
    qed
    define s4 where "s4 = set_size d (sizew s2 d AND - 3) (set_mprev d b (set_size b (sizew s2 b + (k + 8)) s2))"
    define s3 where "s3 = (if sizeof_mm_list \<le> m + (k + 8) - sz then split_block b d sz (m + (k + 8) - sz) True s4 else s4)"
    have bd: "b \<noteq> d" using q(7) by auto
    have bc: "bsize s1 c = k" "bsize s2 c = k" "bsize s2 b = m" using q(3) only_links_size(3) [OF q(2)] b(1) by (simp_all add: c_def s1_def bsize_def)
    obtain pf where pf: "sizew s b = mk m False pf" using assms(1) seg_size(1) [of "mblks s" None "xs @ (b, m, False) # ys" None b m False] by (auto simp: mm_ok_def)
    have k3: "m + (k + 8) AND 3 = 0"
    proof -
      have "seg (mblks s) None (xs @ (b, m, False) # ys) None" using assms(1) by (simp add: mm_ok_def)
      then have "bsize s (b + 8 + m) AND 3 = 0" by (simp add: bsize_def mm_masks and.assoc)
      then have "4 dvd unat k" "4 dvd unat m" using b(4) q(3) by (simp_all only: and_3_dvd)
      then have "4 dvd unat (m + (k + 8))" unfolding q(5) by (intro dvd_add) simp_all
      then show ?thesis by (simp only: and_3_dvd)
    qed
    have "sizew s2 b + (k + 8) = mk (m + (k + 8)) False pf" using only_links_size(1) [OF q(2), of b] pf by (simp add: mk_def)
    then have b4: "bsize (set_size b (sizew s2 b + (k + 8)) s2) b = m + (k + 8)" "bsize s4 b = m + (k + 8)"
      using k3 bd by (simp_all add: bsize_def mm_masks set_defs s4_def)
    have nx: "NEXT_MM_BLK (b + 8) (m + (k + 8)) = d" by (simp add: q(1) NEXT_MM_BLK_def)
    have sd: "sizew (set_mprev d b (set_size b (sizew s2 b + (k + 8)) s2)) d = sizew s2 d" using bd by (simp add: set_defs)
    have "realloc_grow b sz q s = (addsize (bsize s3 b + MMLIST_HEAD_SIZE) q s3, b + 8)"
      using bsr by (simp add: realloc_grow_def Let_def b mm_masks bc b4 nx sd s3_def MMLIST_HEAD_SIZE_def flip: c_def s1_def [unfolded MMLIST_HEAD_SIZE_def] s2_def s4_def)
    moreover have "mm_ok s3 (resize xs b m sz ys)"
      using q(8,9) left_over [of sz "m + (k + 8)"] lt q(5) by (cases "unat sz + 16 \<le> unat m + 8 + unat k") (simp_all add: s3_def flip: s4_def)
    moreover have "quiet s s3" by (simp add: s3_def s4_def only_links_quiet [OF q(2)])
    moreover have "unat sz \<le> unat (fst (join_right m ys))" using lt q(4,5) by simp
    ultimately show ?thesis by simp
  qed
qed

end
