(* ===== verification/Mm_Heap.thy ===== *)
theory Mm_Heap
  imports Mm_Resize
begin

unbundle bit_operations_syntax

text \<open>
  The heap as its users see it: a map \<open>A\<close> from the pointers that have been handed out, and not yet been given back, to the sizes that were asked for. The pool for small requests lives in a used
  block of the heap; \<open>I\<close> is the set of the blocks that the heap uses itself.
\<close>

section \<open>The pool for small requests\<close>

definition pool_blocks :: "u32 \<Rightarrow> u32 list" where
  "pool_blocks fx = map (blk_addr (fx + 40) 32) [0..<128]"

lemma pool_block:
  assumes "unat fx + 8 + 4128 < 2 ^ 32" "p \<in> set (pool_blocks fx)"
  shows "\<exists>i<128. unat p = unat fx + 40 + i * 32"
proof -
  obtain i where i: "i < 128" "p = blk_addr (fx + 40) 32 i" using assms(2) by (auto simp: pool_blocks_def)
  have "unat (fx + 40) = unat fx + 40" using assms(1) by (subst unat_add_lem [THEN iffD1]) simp_all
  then have "unat p = unat fx + 40 + i * 32" using unat_blk_addr [of "fx + 40" i 32] i assms(1) by simp
  then show ?thesis using i by blast
qed

lemma pool_block_sep:
  assumes "unat fx + 8 + 4128 < 2 ^ 32" "p \<in> set (pool_blocks fx)" "q \<in> set (pool_blocks fx)" "p \<noteq> q"
  shows "unat p + 32 \<le> unat q \<or> unat q + 32 \<le> unat p"
proof -
  obtain i j where ij: "unat p = unat fx + 40 + i * 32" "unat q = unat fx + 40 + j * 32" using pool_block assms(1-3) by metis
  moreover have "i \<noteq> j" using assms(4) ij by (metis word_unat_eq_iff)
  ultimately show ?thesis by (cases "i < j") auto
qed

lemma pool_block_apart:
  assumes "unat fx + 8 + 4128 < 2 ^ 32" "p \<in> set (pool_blocks fx)" "q \<in> set (pool_blocks fx)" "p \<noteq> q"
  shows "no_overlap p q"
  using pool_block_sep [OF assms] pool_block [OF assms(1,2)] pool_block [OF assms(1,3)] assms(1) by (auto simp: no_overlap_def)

text \<open>The block that holds the pool, and the free blocks \<open>fs\<close> of the pool. There may be no pool.\<close>

definition pool_ok :: "mmsys \<Rightarrow> mmblk list \<Rightarrow> u32 list \<Rightarrow> bool" where
  "pool_ok s B fs \<longleftrightarrow> (let fx = fixedmblk (mh s) in if fx = 0 then fs = []
     else (\<exists>pm. (fx, pm, False) \<in> set B \<and> 4128 \<le> unat pm) \<and> pool_free (mpool s) (fx + 8) fs \<and> set fs \<subseteq> set (pool_blocks fx))"

definition small :: "mmsys \<Rightarrow> u32 \<Rightarrow> bool" where
  "small s p \<longleftrightarrow> fixedmblk (mh s) \<noteq> 0 \<and> p \<in> set (pool_blocks (fixedmblk (mh s)))"

lemma pool_room:
  assumes "mm_ok s B" "pool_ok s B fs" "fixedmblk (mh s) = fx" "fx \<noteq> 0"
  obtains pm pf where "(fx, pm, False) \<in> set B" "4128 \<le> unat pm" "unat fx + 8 + unat pm + 8 < 2 ^ 32" "sizew s fx = mk pm False pf" "pm AND 3 = 0" "fx AND 3 = 0"
proof -
  obtain pm where pm: "(fx, pm, False) \<in> set B" "4128 \<le> unat pm" using assms(2-4) by (auto simp: pool_ok_def Let_def)
  then obtain xs ys where B: "B = xs @ (fx, pm, False) # ys" by (meson split_list)
  have nz: "pm \<noteq> 0" using pm(2) by auto
  obtain st pf pa r c k g zs where q: "ys = (c, k, g) # zs" "c = fx + 8 + pm" "win (mblks s) xs [(fx, pm, False)] (c, k, g) zs st fx pf pa r False fx"
    "sizew s fx = mk pm False pf" "fits r fx pm" "wf_blk (fx, pm, False)" using mm_cut [OF assms(1) [unfolded B] nz] by metis
  have "fits r c k" using winD(3) [OF q(3)] by (simp add: blk_at_stands [OF stands_Some])
  then have "unat fx + 8 + unat pm + 8 < 2 ^ 32" using unat_next [of fx pm] q(2,5) by (simp add: fits_def)
  then show thesis using that pm q(4,6) by (simp add: wf_blk_def)
qed

text \<open>Where the blocks of the pool are.\<close>

lemma small_addr:
  assumes "mm_ok s B" "pool_ok s B fs" "small s p"
  shows "\<exists>pm. (fixedmblk (mh s), pm, False) \<in> set B \<and> unat (fixedmblk (mh s)) + 40 \<le> unat p \<and> unat p + 32 \<le> unat (fixedmblk (mh s)) + 8 + unat pm"
    "unat (fixedmblk (mh s)) + 8 + 4128 < 2 ^ 32" "p AND 3 = 0"
proof -
  have z: "fixedmblk (mh s) \<noteq> 0" and p: "p \<in> set (pool_blocks (fixedmblk (mh s)))" using assms(3) by (simp_all add: small_def)
  obtain pm pf where r: "(fixedmblk (mh s), pm, False) \<in> set B" "4128 \<le> unat pm" "unat (fixedmblk (mh s)) + 8 + unat pm + 8 < 2 ^ 32"
    "sizew s (fixedmblk (mh s)) = mk pm False pf" "pm AND 3 = 0" "fixedmblk (mh s) AND 3 = 0" using pool_room [OF assms(1,2) refl z] .
  then show f: "unat (fixedmblk (mh s)) + 8 + 4128 < 2 ^ 32" by linarith
  obtain l where l: "l < 128" "unat p = unat (fixedmblk (mh s)) + 40 + l * 32" using pool_block [OF f p] by blast
  moreover have "l * 32 + 32 \<le> 128 * 32" using l(1) by linarith
  ultimately have "unat (fixedmblk (mh s)) + 40 \<le> unat p \<and> unat p + 32 \<le> unat (fixedmblk (mh s)) + 8 + unat pm" using r(2) by linarith
  then show "\<exists>pm. (fixedmblk (mh s), pm, False) \<in> set B \<and> unat (fixedmblk (mh s)) + 40 \<le> unat p \<and> unat p + 32 \<le> unat (fixedmblk (mh s)) + 8 + unat pm"
    using r(1) by blast
  have "4 dvd unat (fixedmblk (mh s))" using r(6) by (simp only: and_3_dvd)
  then have "4 dvd unat p" unfolding l(2) by (intro dvd_add) simp_all
  then show "p AND 3 = 0" by (simp only: and_3_dvd)
qed

lemma ISFIXEDBLK_iff:
  assumes "mm_ok s B" "pool_ok s B fs" "fixedmblk (mh s) = fx" "fx \<noteq> 0"
  obtains pm where "(fx, pm, False) \<in> set B" "4128 \<le> unat pm" "unat fx + 8 + unat pm + 8 < 2 ^ 32" "fx AND 3 = 0"
    "\<And>p. unat fx + 8 < unat p \<Longrightarrow> unat p < unat fx + 8 + unat pm \<Longrightarrow> ISFIXEDBLK s p"
    "\<And>p. unat p \<le> unat fx + 8 \<or> unat fx + 8 + unat pm + 8 \<le> unat p \<Longrightarrow> \<not> ISFIXEDBLK s p"
proof -
  obtain pm pf where q: "(fx, pm, False) \<in> set B" "4128 \<le> unat pm" "unat fx + 8 + unat pm + 8 < 2 ^ 32" "sizew s fx = mk pm False pf" "pm AND 3 = 0" "fx AND 3 = 0"
    using pool_room [OF assms] .
  have m: "unat (mk pm False pf) = unat pm + (if pf then 2 else 0)" using q(3) by (cases pf) (simp_all add: mk_def unat_word_ariths)
  have u8: "unat (fx + 8) = unat fx + 8" using q(3) by (subst unat_add_lem [THEN iffD1]) simp_all
  then have u: "unat (fx + 8 + mk pm False pf) = unat fx + 8 + unat pm + (if pf then 2 else 0)" using q(3) m by (subst unat_add_lem [THEN iffD1]) simp_all
  have i: "ISFIXEDBLK s p \<longleftrightarrow> unat fx + 8 < unat p \<and> unat p < unat fx + 8 + unat pm + (if pf then 2 else 0)" for p
    using u u8 assms(3,4) q(4) by (simp add: ISFIXEDBLK_def buffer_def MMLIST_HEAD_SIZE_def word_less_nat_alt)
  show thesis
  proof (rule that [OF q(1-3,6)])
    show "ISFIXEDBLK s p" if "unat fx + 8 < unat p" "unat p < unat fx + 8 + unat pm" for p using that unfolding i by linarith
    show "\<not> ISFIXEDBLK s p" if "unat p \<le> unat fx + 8 \<or> unat fx + 8 + unat pm + 8 \<le> unat p" for p using that unfolding i by (cases pf) auto
  qed
qed

section \<open>The invariant\<close>

text \<open>
  What holds of the pointers in use: a small one is a block of the pool that is not free, any other one is the buffer of a used block that the heap does not need itself and that is large enough.
  Conversely every block that is not free, and not needed by the heap, belongs to a pointer in use.
\<close>

definition live :: "u32 set \<Rightarrow> mmsys \<Rightarrow> mmblk list \<Rightarrow> u32 list \<Rightarrow> u32 \<Rightarrow> u32 \<Rightarrow> bool" where
  "live I s B fs p n \<longleftrightarrow> (if small s p then p \<notin> set fs \<and> unat n \<le> 32 else p - 8 \<notin> I \<and> (\<exists>m. (p - 8, m, False) \<in> set B \<and> m \<noteq> 0 \<and> unat n \<le> unat m))"

definition heap_at :: "u32 set \<Rightarrow> mmsys \<Rightarrow> mmblk list \<Rightarrow> u32 list \<Rightarrow> (u32 \<rightharpoonup> u32) \<Rightarrow> bool" where
  "heap_at I s B fs A \<longleftrightarrow> mm_ok s B \<and> pool_ok s B fs \<and> (fixedmblk (mh s) \<noteq> 0 \<longrightarrow> fixedmblk (mh s) \<in> I) \<and> (\<forall>b\<in>I. \<exists>m. (b, m, False) \<in> set B)
     \<and> (\<forall>p n. A p = Some n \<longrightarrow> live I s B fs p n)
     \<and> (\<forall>p. small s p \<and> p \<notin> set fs \<longrightarrow> p \<in> dom A)
     \<and> (\<forall>b m. (b, m, False) \<in> set B \<and> m \<noteq> 0 \<and> b \<notin> I \<longrightarrow> b + 8 \<in> dom A)"

definition heap_inv :: "u32 set \<Rightarrow> mmsys \<Rightarrow> (u32 \<rightharpoonup> u32) \<Rightarrow> bool" where
  "heap_inv I s A \<longleftrightarrow> (\<exists>B fs. heap_at I s B fs A)"

lemma heap_atD:
  assumes "heap_at I s B fs A"
  shows "mm_ok s B" "pool_ok s B fs" "fixedmblk (mh s) \<noteq> 0 \<Longrightarrow> fixedmblk (mh s) \<in> I" "\<And>p n. A p = Some n \<Longrightarrow> live I s B fs p n"
    "\<And>p. small s p \<Longrightarrow> p \<notin> set fs \<Longrightarrow> p \<in> dom A" "\<And>b m. (b, m, False) \<in> set B \<Longrightarrow> m \<noteq> 0 \<Longrightarrow> b \<notin> I \<Longrightarrow> b + 8 \<in> dom A"
    "\<And>b. b \<in> I \<Longrightarrow> \<exists>m. (b, m, False) \<in> set B"
  using assms unfolding heap_at_def by blast+

lemma heap_atI:
  assumes "mm_ok s B" "pool_ok s B fs" "fixedmblk (mh s) \<noteq> 0 \<Longrightarrow> fixedmblk (mh s) \<in> I" "\<And>p n. A p = Some n \<Longrightarrow> live I s B fs p n"
    "\<And>p. small s p \<Longrightarrow> p \<notin> set fs \<Longrightarrow> p \<in> dom A" "\<And>b m. (b, m, False) \<in> set B \<Longrightarrow> m \<noteq> 0 \<Longrightarrow> b \<notin> I \<Longrightarrow> b + 8 \<in> dom A"
    "\<And>b. b \<in> I \<Longrightarrow> \<exists>m. (b, m, False) \<in> set B"
  shows "heap_at I s B fs A"
  using assms unfolding heap_at_def by blast

text \<open>The memory of a pointer in use, and of the blocks it may lie in.\<close>

lemma big_block:
  assumes "mm_ok s B" "(p - 8, m, f) \<in> set B"
  shows "unat p = unat (p - 8) + 8" "unat p + unat m < 2 ^ 32" "p AND 3 = 0" "p \<noteq> 0"
proof -
  have g: "seg (mblks s) None B None" using assms(1) by (simp add: mm_ok_def)
  have f: "unat (p - 8) + 8 + unat m < 2 ^ 32" and w: "(p - 8) AND 3 = 0" using seg_fits [OF g assms(2)] seg_wf [OF g assms(2)] by (simp_all add: wf_blk_def)
  have "unat ((p - 8) + 8) = unat (p - 8) + 8" using f by (subst unat_add_lem [THEN iffD1]) simp_all
  then show u: "unat p = unat (p - 8) + 8" by simp
  show "unat p + unat m < 2 ^ 32" using f u by simp
  have "4 dvd unat (p - 8)" using w by (simp only: and_3_dvd)
  then have "4 dvd unat p" unfolding u by (intro dvd_add) simp_all
  then show "p AND 3 = 0" by (simp only: and_3_dvd)
  show "p \<noteq> 0" using u by auto
qed

lemma apart_sep: assumes "apart B" "x \<in> set B" "y \<in> set B" "x \<noteq> y" shows "sep x y"
proof -
  obtain xs ys where B: "B = xs @ x # ys" using assms(2) by (meson split_list)
  then consider "y \<in> set xs" | "y \<in> set ys" using assms(3,4) by auto
  then show ?thesis using assms(1) sep_sym [of y x] by cases (auto simp: B apart_append)
qed

lemma big_sep:
  assumes "mm_ok s B" "(p - 8, m, f) \<in> set B" "(b, k, g) \<in> set B" "b \<noteq> p - 8"
  shows "unat p + unat m \<le> unat b \<or> unat b + 8 + unat k + 8 \<le> unat p"
proof -
  have "sep (p - 8, m, f) (b, k, g)" using assms apart_sep [of B "(p - 8, m, f)" "(b, k, g)"] by (auto simp: mm_ok_def)
  then show ?thesis using big_block(1) [OF assms(1,2)] unfolding sep_simp by linarith
qed

text \<open>How \<open>k_mm_free\<close> tells the pointers apart.\<close>

lemma live_fixed:
  assumes "heap_at I s B fs A" "live I s B fs p n"
  shows "ISFIXEDBLK s p \<longleftrightarrow> small s p" "p \<noteq> 0" "p AND 3 = 0" "unat p + unat n < 2 ^ 32"
proof -
  note h = heap_atD [OF assms(1)]
  have "(ISFIXEDBLK s p \<longleftrightarrow> small s p) \<and> p \<noteq> 0 \<and> p AND 3 = 0 \<and> unat p + unat n < 2 ^ 32"
  proof (cases "fixedmblk (mh s) = 0")
    case True
    then have "\<not> small s p" "\<not> ISFIXEDBLK s p" by (simp_all add: small_def ISFIXEDBLK_def)
    moreover obtain m where m: "(p - 8, m, False) \<in> set B" "unat n \<le> unat m" using calculation assms(2) by (auto simp: live_def)
    ultimately show ?thesis using big_block [OF h(1) m(1)] m(2) by auto
  next
    case False
    obtain pm where q: "(fixedmblk (mh s), pm, False) \<in> set B" "4128 \<le> unat pm" "unat (fixedmblk (mh s)) + 8 + unat pm + 8 < 2 ^ 32" "fixedmblk (mh s) AND 3 = 0"
      "\<And>p. unat (fixedmblk (mh s)) + 8 < unat p \<Longrightarrow> unat p < unat (fixedmblk (mh s)) + 8 + unat pm \<Longrightarrow> ISFIXEDBLK s p"
      "\<And>p. unat p \<le> unat (fixedmblk (mh s)) + 8 \<or> unat (fixedmblk (mh s)) + 8 + unat pm + 8 \<le> unat p \<Longrightarrow> \<not> ISFIXEDBLK s p"
      by (rule ISFIXEDBLK_iff [OF h(1,2) refl False]) (rule that)
    show ?thesis
    proof (cases "small s p")
      case True
      obtain pm' where r: "(fixedmblk (mh s), pm', False) \<in> set B" "unat (fixedmblk (mh s)) + 40 \<le> unat p" "unat p + 32 \<le> unat (fixedmblk (mh s)) + 8 + unat pm'"
        using small_addr(1) [OF h(1,2) True] by blast
      have "pm' = pm" using apart_same r(1) q(1) h(1) unfolding mm_ok_def by metis
      moreover have "unat n \<le> 32" using assms(2) True by (simp add: live_def)
      ultimately show ?thesis using True q(3) r(2,3) q(5) [of p] small_addr(3) [OF h(1,2) True] by auto
    next
      case F: False
      then obtain m where m: "(p - 8, m, False) \<in> set B" "p - 8 \<notin> I" "unat n \<le> unat m" using assms(2) by (auto simp: live_def)
      have "fixedmblk (mh s) \<noteq> p - 8" using h(3) [OF False] m(2) by auto
      then show ?thesis using big_sep [OF h(1) m(1) q(1)] big_block [OF h(1) m(1)] q(6) [of p] F m(3) by auto
    qed
  qed
  then show "ISFIXEDBLK s p \<longleftrightarrow> small s p" "p \<noteq> 0" "p AND 3 = 0" "unat p + unat n < 2 ^ 32" by simp_all
qed

lemma live_disjoint:
  assumes "heap_at I s B fs A" "live I s B fs p n" "live I s B fs q k" "p \<noteq> q"
  shows "unat p + unat n \<le> unat q \<or> unat q + unat k \<le> unat p"
proof -
  note h = heap_atD [OF assms(1)]
  have sb: "unat x + unat i \<le> unat y \<or> unat y + unat j \<le> unat x" if t: "small s x" "live I s B fs x i" "\<not> small s y" "live I s B fs y j" for x y i j
  proof -
    have z: "fixedmblk (mh s) \<noteq> 0" using t(1) by (simp add: small_def)
    obtain pm where r: "(fixedmblk (mh s), pm, False) \<in> set B" "unat (fixedmblk (mh s)) + 40 \<le> unat x" "unat x + 32 \<le> unat (fixedmblk (mh s)) + 8 + unat pm"
      using small_addr(1) [OF h(1,2) t(1)] by blast
    obtain m where m: "(y - 8, m, False) \<in> set B" "y - 8 \<notin> I" "unat j \<le> unat m" using t(3,4) by (auto simp: live_def)
    have ne: "fixedmblk (mh s) \<noteq> y - 8" using h(3) [OF z] m(2) by auto
    have "unat i \<le> 32" using t(1,2) by (simp add: live_def)
    then show ?thesis using big_sep [OF h(1) m(1) r(1) ne] r(2,3) m(3) by linarith
  qed
  show ?thesis
  proof (cases "small s p"; cases "small s q")
    assume a: "small s p" "small s q"
    have "unat n \<le> 32" "unat k \<le> 32" using a assms(2,3) by (simp_all add: live_def)
    then show ?thesis using pool_block_sep [OF small_addr(2) [OF h(1,2) a(1)], of p q] a assms(4) by (auto simp: small_def)
  next
    assume a: "\<not> small s p" "\<not> small s q"
    obtain m l where m: "(p - 8, m, False) \<in> set B" "unat n \<le> unat m" "(q - 8, l, False) \<in> set B" "unat k \<le> unat l"
      using a assms(2,3) by (auto simp: live_def)
    have "q - 8 \<noteq> p - 8" using assms(4) by simp
    from big_sep [OF h(1) m(1,3) this] show ?thesis using big_block(1) [OF h(1) m(3)] m(2,4) by linarith
  qed (use sb assms(2,3) in \<open>blast+\<close>)
qed

section \<open>Allocation and freeing\<close>

lemma mm_ok_pool [simp]: "mm_ok (s\<lparr>mpool := x\<rparr>) B = mm_ok s B" "mm_ok (s\<lparr>mbytes := y\<rparr>) B = mm_ok s B" "mm_ok (s\<lparr>mm_errs := z\<rparr>) B = mm_ok s B"
proof -
  have "tables (s\<lparr>mpool := x\<rparr>) L = tables s L" "tables (s\<lparr>mbytes := y\<rparr>) L = tables s L" "tables (s\<lparr>mm_errs := z\<rparr>) L = tables s L" for L
    by (rule tables_cong; simp)+
  then show "mm_ok (s\<lparr>mpool := x\<rparr>) B = mm_ok s B" "mm_ok (s\<lparr>mbytes := y\<rparr>) B = mm_ok s B" "mm_ok (s\<lparr>mm_errs := z\<rparr>) B = mm_ok s B"
    by (simp_all add: mm_ok_def lists_ok_def)
qed

text \<open>A change of the blocks outside of \<open>I\<close> and the pointers in use: one pointer may be exchanged for another.\<close>

lemma heap_at_big:
  assumes "heap_at I s B fs A" "mm_ok s' B'" "quiet s s'"
    and o: "\<And>a m. a \<noteq> p - 8 \<Longrightarrow> (a, m, False) \<in> set B' \<longleftrightarrow> (a, m, False) \<in> set B"
    and i: "p - 8 \<notin> I" "\<not> small s p"
    and A: "A' = A(p := x)" "case x of None \<Rightarrow> \<forall>m. m \<noteq> 0 \<longrightarrow> (p - 8, m, False) \<notin> set B' | Some n \<Rightarrow> \<exists>m. (p - 8, m, False) \<in> set B' \<and> m \<noteq> 0 \<and> unat n \<le> unat m"
  shows "heap_at I s' B' fs A'"
proof -
  note h = heap_atD [OF assms(1)]
  have f: "fixedmblk (mh s') = fixedmblk (mh s)" "mpool s' = mpool s" using assms(3) by (simp_all add: quiet_def)
  then have sm: "small s' q = small s q" for q by (simp add: small_def)
  have po: "pool_ok s' B' fs"
  proof (cases "fixedmblk (mh s) = 0")
    case False
    then have "fixedmblk (mh s) \<noteq> p - 8" using h(3) i(1) by auto
    then show ?thesis using h(2) f o by (simp add: pool_ok_def Let_def)
  qed (use h(2) f in \<open>simp add: pool_ok_def\<close>)
  have "live I s' B' fs q n" if "A' q = Some n" for q n
  proof (cases "q = p")
    case True
    then show ?thesis using that A i sm by (simp add: live_def)
  next
    case False
    then have "live I s B fs q n" "q - 8 \<noteq> p - 8" using that A(1) h(4) by simp_all
    then show ?thesis using o by (simp add: live_def sm)
  qed
  moreover have "q \<in> dom A'" if "small s' q" "q \<notin> set fs" for q using h(5) [of q] that sm i(2) A(1) by auto
  moreover have "b + 8 \<in> dom A'" if "(b, m, False) \<in> set B'" "m \<noteq> 0" "b \<notin> I" for b m
  proof (cases "b = p - 8")
    case True
    then show ?thesis using A that(1,2) by (cases x) (auto split: option.splits)
  next
    case False
    then have "b + 8 \<noteq> p" by (metis add_diff_cancel_right')
    then show ?thesis using h(6) [of b m] o [OF False] that A(1) by auto
  qed
  moreover have "\<exists>m. (b, m, False) \<in> set B'" if "b \<in> I" for b
  proof -
    have "b \<noteq> p - 8" using that i(1) by auto
    then show ?thesis using h(7) [OF that] o by blast
  qed
  ultimately show ?thesis using h(3) f(1) by (intro heap_atI assms(2) po) simp_all
qed

lemma big_not_small:
  assumes "mm_ok s B" "pool_ok s B fs" "(p - 8, m, f) \<in> set B" "p - 8 \<noteq> fixedmblk (mh s)"
  shows "\<not> small s p"
proof
  assume sm: "small s p"
  obtain pm where r: "(fixedmblk (mh s), pm, False) \<in> set B" "unat (fixedmblk (mh s)) + 40 \<le> unat p" "unat p + 32 \<le> unat (fixedmblk (mh s)) + 8 + unat pm"
    using small_addr(1) [OF assms(1,2) sm] by blast
  show False using big_sep [OF assms(1,3) r(1)] assms(4) r(2,3) by fastforce
qed

lemma free_not_live:
  assumes "heap_at I s B fs A" "(b, m, True) \<in> set B"
  shows "b \<notin> I" "\<not> small s (b + 8)" "A (b + 8) = None"
proof -
  note h = heap_atD [OF assms(1)]
  have no: "(b, k, False) \<notin> set B" for k using apart_same [of B b m True k False] h(1) assms(2) by (auto simp: mm_ok_def)
  then show "b \<notin> I" using h(7) by blast
  have "b \<noteq> fixedmblk (mh s)"
  proof
    assume b: "b = fixedmblk (mh s)"
    have "wf_blk (b, m, True)" using seg_wf [of "mblks s" None B None] h(1) assms(2) by (simp add: mm_ok_def)
    then have "fixedmblk (mh s) \<noteq> 0" using b by (simp add: wf_blk_def)
    then show False using h(3) \<open>b \<notin> I\<close> b by simp
  qed
  then show sm: "\<not> small s (b + 8)" using big_not_small [OF h(1,2), of "b + 8" m True] assms(2) by simp
  show "A (b + 8) = None"
  proof (rule ccontr)
    assume "A (b + 8) \<noteq> None"
    then obtain n where "A (b + 8) = Some n" by blast
    from h(4) [OF this] show False using sm no by (simp add: live_def)
  qed
qed

lemma tlf_alloc_heap:
  assumes "heap_at I s B fs A" "need (unat n) \<le> 2 ^ 31" "tlf_alloc n s = (s', p)"
  shows "p = 0 \<and> s' = s \<and> (\<forall>b m. (b, m, True) \<in> set B \<longrightarrow> \<not> le2 (cls (rounded (need (unat n)))) (cls (unat m)))
    \<or> p \<noteq> 0 \<and> A p = None \<and> quiet s s' \<and> (\<exists>B'. heap_at I s' B' fs (A(p \<mapsto> n)))"
proof -
  note h = heap_atD [OF assms(1)]
  from tlf_alloc_spec [OF h(1) assms(2,3)] show ?thesis
  proof (elim disjE exE conjE)
    fix xs b m ys assume q: "B = xs @ (b, m, True) # ys" "p = b + 8" "need (unat n) \<le> unat m" "le2 (cls (rounded (need (unat n)))) (cls (unat m))" "mm_ok s' (xs @ carve b m (alloc_size n) @ ys)" "quiet s s'"
    have bm: "(b, m, True) \<in> set B" by (simp add: q(1))
    note fr = free_not_live [OF assms(1) bm]
    have lt: "unat n + 3 < 2 ^ 32" using assms(2) need_bounds(1) [of "unat n"] by simp
    note sz = alloc_size_spec(1) [OF lt]
    have nz: "m \<noteq> 0" "alloc_size n \<noteq> 0" using need_bounds(3) [of "unat n"] q(3) sz by auto
    have ex: "\<exists>k. (p - 8, k, False) \<in> set (xs @ carve b m (alloc_size n) @ ys) \<and> k \<noteq> 0 \<and> unat n \<le> unat k"
      using q(2,3) need_bounds(1) [of "unat n"] sz nz by (cases "unat m < unat (alloc_size n) + 16") (auto simp: carve_def)
    have "heap_at I s' (xs @ carve b m (alloc_size n) @ ys) fs (A(p \<mapsto> n))"
    proof (rule heap_at_big [OF assms(1) q(5,6)])
      show "(a, k, False) \<in> set (xs @ carve b m (alloc_size n) @ ys) \<longleftrightarrow> (a, k, False) \<in> set B" if "a \<noteq> p - 8" for a k
        using that q(2) by (auto simp: q(1) carve_def)
    qed (use fr q(2) ex in auto)
    moreover have "p \<noteq> 0" using big_block(4) [OF h(1), of p m True] bm q(2) by simp
    ultimately show ?thesis using fr(3) q(2,6) by auto
  qed auto
qed

lemma small_alloc_heap:
  assumes "heap_at I s B fs A" "fixedmblk (mh s) \<noteq> 0" "unat n \<le> 32" "fs \<noteq> []" "k_mm_smallblk_alloc n s = (s', p)"
  shows "p \<noteq> 0 \<and> A p = None \<and> mbytes s' = mbytes s \<and> mm_errs s' = mm_errs s \<and> fixedmblk (mh s') = fixedmblk (mh s) \<and> (\<exists>fs'. heap_at I s' B fs' (A(p \<mapsto> n)))"
proof -
  note h = heap_atD [OF assms(1)]
  let ?fx = "fixedmblk (mh s)"
  have pf: "pool_free (mpool s) (?fx + 8) fs" "set fs \<subseteq> set (pool_blocks ?fx)" "\<exists>pm. (?fx, pm, False) \<in> set B \<and> 4128 \<le> unat pm"
    using h(2) assms(2) by (simp_all add: pool_ok_def Let_def)
  obtain q fs' where fs: "fs = q # fs'" using assms(4) by (cases fs) auto
  obtain x where x: "krhino_mblk_alloc (Some (?fx + 8)) True (mpool s) = (x, RHINO_SUCCESS, Some q)" "pool_free x (?fx + 8) fs'"
    using mblk_alloc_spec [OF pf(1)] by (auto simp: fs)
  then have s': "s' = addsize 32 n (s\<lparr>mpool := x\<rparr>)" "p = q"
    using assms(5) by (simp_all add: k_mm_smallblk_alloc_def buffer_def MMLIST_HEAD_SIZE_def DEF_FIX_BLK_SIZE_def)
  have d: "q \<noteq> 0" "q \<notin> set fs'" "distinct fs" using pf(1) by (auto simp: pool_free_def fs)
  have sm: "small s' r = small s r" for r by (simp add: small_def s')
  have sq: "small s q" using pf(2) assms(2) by (simp add: small_def fs)
  have nl: "A q = None"
  proof (rule ccontr)
    assume "A q \<noteq> None"
    then obtain k where "A q = Some k" by blast
    from h(4) [OF this] show False using sq by (simp add: live_def fs)
  qed
  have "heap_at I s' B fs' (A(p \<mapsto> n))"
  proof (rule heap_atI)
    show "mm_ok s' B" using h(1) by (simp add: s')
    show "pool_ok s' B fs'" using pf x(2) assms(2) by (simp add: pool_ok_def Let_def s' fs)
    show "live I s' B fs' r k" if "(A(p \<mapsto> n)) r = Some k" for r k
    proof (cases "r = q")
      case True
      then show ?thesis using that s'(2) sq d(2) assms(3) by (simp add: live_def sm)
    next
      case False
      then have "live I s B fs r k" using that h(4) s'(2) by simp
      then show ?thesis by (auto simp: live_def sm fs)
    qed
    show "r \<in> dom (A(p \<mapsto> n))" if "small s' r" "r \<notin> set fs'" for r using h(5) [of r] that s'(2) by (cases "r = q") (auto simp: sm fs)
  qed (use h(3,6,7) in \<open>auto simp: s'\<close>)
  then show ?thesis using d(1) nl s' by auto
qed

lemma alloc_heap:
  assumes "heap_at I s B fs A" "need (unat n) \<le> 2 ^ 31" "n \<noteq> 0" "k_mm_alloc True n s = (s', p)"
  shows "p = 0 \<and> s' = s \<and> (\<forall>b m. (b, m, True) \<in> set B \<longrightarrow> \<not> le2 (cls (rounded (need (unat n)))) (cls (unat m)))
    \<or> p \<noteq> 0 \<and> A p = None \<and> mbytes s' = mbytes s \<and> mm_errs s' = mm_errs s \<and> fixedmblk (mh s') = fixedmblk (mh s) \<and> (\<exists>B' fs'. heap_at I s' B' fs' (A(p \<mapsto> n)))"
proof (cases "fixedmblk (mh s) \<noteq> 0 \<and> n \<le> DEF_FIX_BLK_SIZE \<and> blk_avail (mb_pools (mpool s) (buffer (fixedmblk (mh s)))) > 0")
  case True
  obtain s1 q where sb: "k_mm_smallblk_alloc n s = (s1, q)" by fastforce
  have "pool_free (mpool s) (fixedmblk (mh s) + 8) fs" using heap_atD(2) [OF assms(1)] True by (simp add: pool_ok_def Let_def)
  then have fs: "fs \<noteq> []" using pool_avail_0 True by (simp add: buffer_def MMLIST_HEAD_SIZE_def)
  have "unat n \<le> 32" using True by (simp add: DEF_FIX_BLK_SIZE_def word_le_nat_alt)
  from small_alloc_heap [OF assms(1) _ this fs sb] True
  have q: "q \<noteq> 0 \<and> A q = None \<and> mbytes s1 = mbytes s \<and> mm_errs s1 = mm_errs s \<and> fixedmblk (mh s1) = fixedmblk (mh s) \<and> (\<exists>fs'. heap_at I s1 B fs' (A(q \<mapsto> n)))" by simp
  moreover have "s' = s1" "p = q" using assms(3,4) True sb q by (simp_all add: k_mm_alloc_def)
  ultimately show ?thesis by auto
next
  case False
  then have "k_mm_alloc True n s = tlf_alloc n s" using assms(3) by (auto simp: k_mm_alloc_def)
  then show ?thesis using tlf_alloc_heap [OF assms(1,2), of s' p] assms(4) unfolding quiet_def by auto
qed

lemma used_coalesce: "(a, k, False) \<in> set (coalesce xs b m ys) \<longleftrightarrow> (a, k, False) \<in> set xs \<union> set ys"
proof -
  obtain m' ys' where j: "join_right m ys = (m', ys')" by fastforce
  have y: "(a, k, False) \<in> set ys' \<longleftrightarrow> (a, k, False) \<in> set ys" using j by (auto simp: join_right_def split: list.splits if_splits)
  show ?thesis
  proof (cases "xs \<noteq> [] \<and> snd (snd (last xs))")
    case True
    then obtain us c n where "xs = us @ [(c, n, True)]" by (metis append_butlast_last_id prod.collapse)
    then show ?thesis using y by (simp add: coalesce_def j)
  next
    case False
    then show ?thesis using y by (auto simp: coalesce_def j)
  qed
qed

lemma tlf_free_heap:
  assumes "heap_at I s B fs A" "A p = Some n" "\<not> small s p"
  shows "\<exists>B'. heap_at I (tlf_free (p - 8) s) B' fs (A(p := None))" "quiet s (tlf_free (p - 8) s)"
proof -
  note h = heap_atD [OF assms(1)]
  obtain m where m: "(p - 8, m, False) \<in> set B" "m \<noteq> 0" "p - 8 \<notin> I" using h(4) [OF assms(2)] assms(3) by (auto simp: live_def)
  obtain xs ys where B: "B = xs @ (p - 8, m, False) # ys" using m(1) by (meson split_list)
  have ap: "apart (xs @ (p - 8, m, False) # ys)" using h(1) by (simp add: mm_ok_def B)
  have no: "(p - 8, k, False) \<notin> set xs \<union> set ys" for k using apart_addr [OF ap, of "(p - 8, k, False)"] by auto
  note t = tlf_free_ok [OF h(1) [unfolded B] m(2)]
  show "quiet s (tlf_free (p - 8) s)" by (rule t(2))
  have "heap_at I (tlf_free (p - 8) s) (coalesce xs (p - 8) m ys) fs (A(p := None))"
  proof (rule heap_at_big [OF assms(1) t _ m(3) assms(3) refl])
    show "(a, k, False) \<in> set (coalesce xs (p - 8) m ys) \<longleftrightarrow> (a, k, False) \<in> set B" if "a \<noteq> p - 8" for a k
      using that by (auto simp: used_coalesce B)
  qed (use no in \<open>simp add: used_coalesce\<close>)
  then show "\<exists>B'. heap_at I (tlf_free (p - 8) s) B' fs (A(p := None))" by blast
qed

lemma small_free_heap:
  assumes "heap_at I s B fs A" "A p = Some n" "small s p"
  shows "\<exists>fs'. heap_at I (k_mm_smallblk_free p s) B fs' (A(p := None))" "mbytes (k_mm_smallblk_free p s) = mbytes s" "mm_errs (k_mm_smallblk_free p s) = mm_errs s"
proof -
  note h = heap_atD [OF assms(1)]
  let ?fx = "fixedmblk (mh s)" and ?s = "k_mm_smallblk_free p s"
  have z: "?fx \<noteq> 0" using assms(3) by (simp add: small_def)
  then have pf: "pool_free (mpool s) (?fx + 8) fs" "set fs \<subseteq> set (pool_blocks ?fx)" "\<exists>pm. (?fx, pm, False) \<in> set B \<and> 4128 \<le> unat pm"
    using h(2) by (simp_all add: pool_ok_def Let_def)
  have p: "p \<notin> set fs" "p \<noteq> 0" using h(4) [OF assms(2)] assms(3) live_fixed(2) [OF assms(1) h(4) [OF assms(2)]] by (simp_all add: live_def)
  have "length fs = card (set fs)" using pf(1) by (simp add: pool_free_def distinct_card)
  also have "\<dots> \<le> card (set (pool_blocks ?fx))" using pf(2) by (intro card_mono) simp_all
  also have "\<dots> \<le> 128" using card_length [of "pool_blocks ?fx"] by (simp add: pool_blocks_def)
  finally have "length fs < 2 ^ 32 - 1" by simp
  moreover have "\<forall>x\<in>set fs. no_overlap p x"
  proof
    fix x assume x: "x \<in> set fs"
    have "unat ?fx + 8 + 4128 < 2 ^ 32" by (rule pool_room [OF h(1,2) refl z]) linarith
    moreover have "p \<in> set (pool_blocks ?fx)" "x \<in> set (pool_blocks ?fx)" "p \<noteq> x" using assms(3) x p(1) pf(2) by (auto simp: small_def)
    ultimately show "no_overlap p x" by (rule pool_block_apart)
  qed
  ultimately
  obtain x where x: "krhino_mblk_free (Some (?fx + 8)) p (mpool s) = (x, RHINO_SUCCESS)" "pool_free x (?fx + 8) (p # fs)"
    using mblk_free_spec [OF pf(1) p(2)] by blast
  then have s': "?s = removesize 32 (s\<lparr>mpool := x\<rparr>)"
    using p(2) by (simp add: k_mm_smallblk_free_def buffer_def MMLIST_HEAD_SIZE_def DEF_FIX_BLK_SIZE_def Let_def)
  then show "mbytes ?s = mbytes s" "mm_errs ?s = mm_errs s" by simp_all
  have sm: "small ?s r = small s r" for r by (simp add: small_def s')
  have "heap_at I ?s B (p # fs) (A(p := None))"
  proof (rule heap_atI)
    show "mm_ok ?s B" using h(1) by (simp add: s')
    show "pool_ok ?s B (p # fs)" using pf x(2) z assms(3) by (simp add: pool_ok_def Let_def s' small_def)
    show "live I ?s B (p # fs) r k" if "(A(p := None)) r = Some k" for r k
      using that h(4) [of r k] by (auto simp: live_def sm split: if_splits)
    show "r \<in> dom (A(p := None))" if "small ?s r" "r \<notin> set (p # fs)" for r using h(5) [of r] that by (auto simp: sm)
    show "b + 8 \<in> dom (A(p := None))" if "(b, m, False) \<in> set B" "m \<noteq> 0" "b \<notin> I" for b m
    proof -
      have "b \<noteq> ?fx" using h(3) [OF z] that(3) by auto
      then have "\<not> small s (b + 8)" using big_not_small [OF h(1,2), of "b + 8" m False] that(1) by simp
      then have "b + 8 \<noteq> p" using assms(3) by auto
      then show ?thesis using h(6) [OF that] by auto
    qed
  qed (use h(3,7) in \<open>auto simp: s'\<close>)
  then show "\<exists>fs'. heap_at I ?s B fs' (A(p := None))" by blast
qed

lemma free_heap:
  assumes "heap_at I s B fs A" "A p = Some n"
  shows "\<exists>B' fs'. heap_at I (k_mm_free True p s) B' fs' (A(p := None))" "mbytes (k_mm_free True p s) = mbytes s" "mm_errs (k_mm_free True p s) = mm_errs s"
proof -
  have l: "live I s B fs p n" using heap_atD(4) [OF assms(1)] assms(2) by blast
  note f = live_fixed [OF assms(1) l]
  have e: "k_mm_free True p s = (if small s p then k_mm_smallblk_free p s else tlf_free (p - 8) s)"
    using f(1,2) by (simp add: k_mm_free_def MMLIST_HEAD_SIZE_def)
  show "\<exists>B' fs'. heap_at I (k_mm_free True p s) B' fs' (A(p := None))"
    using small_free_heap(1) [OF assms] tlf_free_heap(1) [OF assms] unfolding e by (cases "small s p") (simp_all, blast+)
  show "mbytes (k_mm_free True p s) = mbytes s" "mm_errs (k_mm_free True p s) = mm_errs s"
    using small_free_heap(2,3) [OF assms] tlf_free_heap(2) [OF assms] unfolding e quiet_def by (cases "small s p"; simp)+
qed

end
