(* ===== verification/Mm_Realloc.thy ===== *)
theory Mm_Realloc
  imports Mm_Heap
begin

unbundle bit_operations_syntax

text \<open>
  \<open>k_mm_realloc\<close> on the heap as its users see it: the block keeps its contents, up to the smaller of the two sizes, wherever it ends up, and no other block changes.
\<close>

lemma heap_at_copy [simp]: "heap_at I (copy_bytes d x n s) B fs A = heap_at I s B fs A"
  by (simp add: heap_at_def copy_bytes_def pool_ok_def live_def small_def)

lemma copy_proj [simp]: "fixedmblk (mh (copy_bytes d x n s)) = fixedmblk (mh s)" "mm_errs (copy_bytes d x n s) = mm_errs s"
  by (simp_all add: copy_bytes_def)

text \<open>The size on record may be changed to any size that the block has room for.\<close>

lemma heap_at_resize:
  assumes "heap_at I s B fs A" "p \<in> dom A" "live I s B fs p n"
  shows "heap_at I s B fs (A(p \<mapsto> n))"
proof (rule heap_atI)
  note h = heap_atD [OF assms(1)]
  show "mm_ok s B" "pool_ok s B fs" by (rule h)+
  show "live I s B fs q k" if "(A(p \<mapsto> n)) q = Some k" for q k using that h(4) [of q k] assms(3) by (auto split: if_splits)
qed (use heap_atD [OF assms(1)] assms(2) in auto)

lemma live_le: "live I s B fs p n \<Longrightarrow> unat k \<le> unat n \<Longrightarrow> live I s B fs p k"
  unfolding live_def by (auto split: if_splits)

lemma word_outside:
  assumes "unat p + unat c < 2 ^ 32" "unat x < unat p \<or> unat p + unat c \<le> unat x"
  shows "\<not> x - p < (c :: u32)"
  using assms unsigned_less [of x, where ?'a = nat] by (auto simp: word_less_nat_alt unat_sub_if')

lemma realloc_size_spec:
  assumes "unat n + 3 < 2 ^ 32"
  shows "unat n \<le> unat (realloc_size n)" "16 \<le> unat (realloc_size n)" "realloc_size n AND 3 = 0" "unat (realloc_size n) \<le> max 16 (unat n + 3)"
    "need (unat (realloc_size n)) = unat (realloc_size n)"
proof -
  have e: "unat (realloc_size n) = (if unat n < 16 then 16 else (unat n + 3) div 4 * 4)"
    using unat_align_up [OF assms] by (simp add: realloc_size_def sizeof_mm_list_def word_less_nat_alt)
  show "unat n \<le> unat (realloc_size n)" "16 \<le> unat (realloc_size n)" "unat (realloc_size n) \<le> max 16 (unat n + 3)" unfolding e by auto
  have "4 dvd unat (realloc_size n)" unfolding e by simp
  then show "realloc_size n AND 3 = 0" "need (unat (realloc_size n)) = unat (realloc_size n)"
    using \<open>16 \<le> unat (realloc_size n)\<close> by (simp_all only: and_3_dvd) (auto simp: need_def max_def elim!: dvdE)
qed

text \<open>Copying into a new block leaves the blocks of the others alone.\<close>

lemma copy_others:
  assumes "heap_at I s B fs A" "A p = Some n" "A q = Some k" "p \<noteq> q" "unat c \<le> unat n" "unat i < unat k"
  shows "mbytes (copy_bytes p x c s) (q + i) = mbytes s (q + i)"
proof -
  note l = heap_atD(4) [OF assms(1)]
  have d: "unat p + unat n \<le> unat q \<or> unat q + unat k \<le> unat p" by (rule live_disjoint [OF assms(1) l [OF assms(2)] l [OF assms(3)] assms(4)])
  have "unat (q + i) = unat q + unat i" using live_fixed(4) [OF assms(1) l [OF assms(3)]] assms(6) by (subst unat_add_lem [THEN iffD1]) simp_all
  moreover have "unat p + unat c < 2 ^ 32" using live_fixed(4) [OF assms(1) l [OF assms(2)]] assms(5) by linarith
  ultimately have "\<not> q + i - p < c" using d assms(5,6) by (intro word_outside) linarith+
  then show ?thesis by (simp add: copy_bytes_def)
qed

lemma copy_own: "unat i < unat c \<Longrightarrow> mbytes (copy_bytes p x c s) (p + i) = mbytes s (x + i)"
  by (simp add: copy_bytes_def word_less_nat_alt)

text \<open>The contents after a call: those of the block under its new address, and those of all other blocks.\<close>

definition kept :: "(u32 \<rightharpoonup> u32) \<Rightarrow> u32 \<Rightarrow> u32 \<Rightarrow> u32 \<Rightarrow> u32 \<Rightarrow> mmsys \<Rightarrow> mmsys \<Rightarrow> bool" where
  "kept A p n p' n' s s' \<longleftrightarrow> (\<forall>i. unat i < unat n \<and> unat i < unat n' \<longrightarrow> mbytes s' (p' + i) = mbytes s (p + i))
     \<and> (\<forall>q k i. q \<noteq> p \<and> A q = Some k \<and> unat i < unat k \<longrightarrow> mbytes s' (q + i) = mbytes s (q + i))"

lemma kept_same: "mbytes s' = mbytes s \<Longrightarrow> kept A p n p n' s s'"
  by (simp add: kept_def)

lemma kept_moved:
  assumes "heap_at I s1 B fs (A(p' \<mapsto> k))" "A p = Some n" "A p' = None" "mbytes s1 = mbytes s" "mbytes s' = mbytes (copy_bytes p' p c s1)"
    "unat c \<le> unat k" "\<And>i. i < unat n \<Longrightarrow> i < unat n' \<Longrightarrow> i < unat c"
  shows "kept A p n p' n' s s'"
  unfolding kept_def
proof (intro conjI allI impI; elim conjE)
  fix i :: u32 assume "unat i < unat n" "unat i < unat n'"
  then show "mbytes s' (p' + i) = mbytes s (p + i)" using copy_own [of i c p' p s1] assms(4,5,7) by simp
next
  fix q l i :: u32 assume q: "q \<noteq> p" "A q = Some l" "unat i < unat l"
  then have "q \<noteq> p'" using assms(3) by auto
  then show "mbytes s' (q + i) = mbytes s (q + i)" using copy_others [OF assms(1), of p' k q l c i p] q(2,3) assms(4-6) by simp
qed

section \<open>In place\<close>

lemma used_resize:
  assumes "unat sz \<le> unat (fst (join_right m ys))"
  shows "a \<noteq> b \<Longrightarrow> (a, k, False) \<in> set (resize xs b m sz ys) \<longleftrightarrow> (a, k, False) \<in> set xs \<union> set ys"
    "sz \<noteq> 0 \<Longrightarrow> \<exists>k. (b, k, False) \<in> set (resize xs b m sz ys) \<and> k \<noteq> 0 \<and> unat sz \<le> unat k"
proof -
  obtain t ys' where j: "join_right m ys = (t, ys')" by fastforce
  have y: "(a, k, False) \<in> set ys' \<longleftrightarrow> (a, k, False) \<in> set ys" for a k using j by (auto simp: join_right_def split: list.splits if_splits)
  show "(a, k, False) \<in> set (resize xs b m sz ys) \<longleftrightarrow> (a, k, False) \<in> set xs \<union> set ys" if "a \<noteq> b" using that y by (auto simp: resize_def j carve_def)
  show "\<exists>k. (b, k, False) \<in> set (resize xs b m sz ys) \<and> k \<noteq> 0 \<and> unat sz \<le> unat k" if "sz \<noteq> 0"
  proof -
    have "t \<noteq> 0" using assms that j by (auto simp: unat_eq_0)
    then show ?thesis using assms that j by (cases "unat t < unat sz + 16") (auto simp: resize_def carve_def)
  qed
qed

lemma resize_heap:
  assumes "heap_at I s B fs A" "p - 8 \<notin> I" "\<not> small s p" "B = xs @ (p - 8, m, False) # ys"
    "mm_ok s' (resize xs (p - 8) m sz ys)" "quiet s s'" "unat sz \<le> unat (fst (join_right m ys))" "sz \<noteq> 0" "unat n \<le> unat sz"
  shows "heap_at I s' (resize xs (p - 8) m sz ys) fs (A(p \<mapsto> n))"
proof (rule heap_at_big [OF assms(1,5,6) _ assms(2,3) refl])
  show "(a, k, False) \<in> set (resize xs (p - 8) m sz ys) \<longleftrightarrow> (a, k, False) \<in> set B" if "a \<noteq> p - 8" for a k
    using used_resize(1) [OF assms(7) that] that by (auto simp: assms(4))
  show "case Some n of None \<Rightarrow> \<forall>k. k \<noteq> 0 \<longrightarrow> (p - 8, k, False) \<notin> set (resize xs (p - 8) m sz ys)
      | Some n \<Rightarrow> \<exists>k. (p - 8, k, False) \<in> set (resize xs (p - 8) m sz ys) \<and> k \<noteq> 0 \<and> unat n \<le> unat k"
    using used_resize(2) [OF assms(7,8)] assms(9) order_trans by fastforce
qed

lemma join_right_ge:
  assumes "mm_ok s (xs @ (b, m, False) # ys)" "m \<noteq> 0"
  shows "unat m \<le> unat (fst (join_right m ys))"
proof -
  obtain st pf pa r c k g zs where q: "ys = (c, k, g) # zs" "c = b + 8 + m" "win (mblks s) xs [(b, m, False)] (c, k, g) zs st b pf pa r False b" "fits r b m"
    using mm_cut [OF assms] by metis
  have "fits r c k" using winD(3) [OF q(3)] by (simp add: blk_at_stands [OF stands_Some])
  then have "unat b + 8 + unat m + 8 + unat k < 2 ^ 32" using unat_next [of b m] q(2,4) by (simp add: fits_def)
  then have "unat (m + 8 + k) = unat m + 8 + unat k" by (simp add: unat_word_ariths)
  then show ?thesis by (simp add: join_right_def q(1))
qed

section \<open>The whole function\<close>

lemma realloc_small:
  assumes "heap_at I s B fs A" "A p = Some n" "small s p" "k \<noteq> 0" "need (unat k) \<le> 2 ^ 31" "k_mm_realloc True p k s = (s', p')"
  shows "p' = 0 \<and> s' = s \<or> p' \<noteq> 0 \<and> (p' = p \<or> A p' = None) \<and> mm_errs s' = mm_errs s \<and> kept A p n p' k s s'
    \<and> (\<exists>B' fs'. heap_at I s' B' fs' ((A(p := None))(p' \<mapsto> k)))"
proof -
  have l: "live I s B fs p n" using heap_atD(4) [OF assms(1)] assms(2) by blast
  note f = live_fixed [OF assms(1) l]
  have fx: "ISFIXEDBLK s p" using f(1) assms(3) by simp
  show ?thesis
  proof (cases "k \<le> DEF_FIX_BLK_SIZE")
    case True
    then have "s' = s" "p' = p" using assms(4,6) f(2) fx by (simp_all add: k_mm_realloc_def)
    moreover have "live I s B fs p k" using l assms(3) True by (simp add: live_def DEF_FIX_BLK_SIZE_def word_le_nat_alt)
    then have "heap_at I s B fs (A(p \<mapsto> k))" using heap_at_resize [OF assms(1)] assms(2) by blast
    ultimately show ?thesis using f(2) kept_same [of s s A p n k] by auto
  next
    case False
    obtain s1 x where a: "k_mm_alloc True k s = (s1, x)" by fastforce
    have e: "(s', p') = (if x \<noteq> 0 then (k_mm_smallblk_free p (copy_bytes x p DEF_FIX_BLK_SIZE s1), x) else (s1, 0))"
      using assms(4,6) f(2) fx False a by (simp add: k_mm_realloc_def)
    from alloc_heap [OF assms(1,5,4) a] show ?thesis
    proof (elim disjE conjE exE)
      fix B' fs' assume q: "x \<noteq> 0" "A x = None" "mbytes s1 = mbytes s" "mm_errs s1 = mm_errs s" "fixedmblk (mh s1) = fixedmblk (mh s)" "heap_at I s1 B' fs' (A(x \<mapsto> k))"
      let ?s = "copy_bytes x p DEF_FIX_BLK_SIZE s1"
      have px: "p \<noteq> x" using assms(2) q(2) by auto
      have h: "heap_at I ?s B' fs' (A(x \<mapsto> k))" "(A(x \<mapsto> k)) p = Some n" "small ?s p" using q(5,6) px assms(2,3) by (simp_all add: small_def)
      note fr = small_free_heap [OF h]
      have "kept A p n x k s s'"
        by (rule kept_moved [OF q(6) assms(2) q(2,3), where c = DEF_FIX_BLK_SIZE])
          (use e q(1) fr(2) False l assms(3) in \<open>auto simp: DEF_FIX_BLK_SIZE_def word_le_nat_alt live_def\<close>)
      moreover have tw: "(A(x \<mapsto> k))(p := None) = (A(p := None))(x \<mapsto> k)" using px by (intro fun_upd_twist) simp
      have "\<exists>B' fs'. heap_at I s' B' fs' ((A(p := None))(x \<mapsto> k))" using fr(1) e q(1) unfolding tw by auto
      ultimately show ?thesis using e q(1,2,4) fr(3) by simp
    qed (use e in auto)
  qed
qed

lemma realloc_move:
  assumes "heap_at I s B fs A" "A p = Some n" "\<not> small s p" "unat k \<le> unat rs" "need (unat rs) \<le> 2 ^ 31" "rs \<noteq> 0" "k_mm_alloc True rs s = (s1, x)"
    and s': "s' = k_mm_free True p (copy_bytes x p (if bsize s1 (p - 8) > rs then rs else bsize s1 (p - 8)) s1)"
  shows "x = 0 \<and> s1 = s \<or> x \<noteq> 0 \<and> A x = None \<and> mm_errs s' = mm_errs s \<and> kept A p n x k s s'
    \<and> (\<exists>B' fs'. heap_at I s' B' fs' ((A(p := None))(x \<mapsto> k)))"
proof -
  define c where "c = (if bsize s1 (p - 8) > rs then rs else bsize s1 (p - 8))"
  have s': "s' = k_mm_free True p (copy_bytes x p c s1)" by (simp add: s' c_def)
  from alloc_heap [OF assms(1,5,6,7)] show ?thesis
  proof (elim disjE conjE exE)
    fix B' fs' assume q: "x \<noteq> 0" "A x = None" "mbytes s1 = mbytes s" "mm_errs s1 = mm_errs s" "fixedmblk (mh s1) = fixedmblk (mh s)" "heap_at I s1 B' fs' (A(x \<mapsto> rs))"
    have px: "p \<noteq> x" using assms(2) q(2) by auto
    have lp: "live I s1 B' fs' p n" using heap_atD(4) [OF q(6), of p n] px assms(2) by simp
    have "\<not> small s1 p" using assms(3) q(5) by (simp add: small_def)
    then obtain m1 where m1: "(p - 8, m1, False) \<in> set B'" "unat n \<le> unat m1" using lp by (auto simp: live_def)
    then obtain us vs where "B' = us @ (p - 8, m1, False) # vs" by (meson split_list)
    then have bs: "bsize s1 (p - 8) = m1" using block_size(1) heap_atD(1) [OF q(6)] by metis
    have c: "unat c \<le> unat rs" "\<And>i. i < unat n \<Longrightarrow> i < unat k \<Longrightarrow> i < unat c"
      using assms(4) m1(2) by (auto simp: c_def bs word_less_nat_alt)
    have lx: "heap_at I s1 B' fs' (A(x \<mapsto> k))"
      using heap_at_resize [OF q(6), of x k] live_le [OF heap_atD(4) [OF q(6), of x rs] assms(4)] by simp
    have hc: "heap_at I (copy_bytes x p c s1) B' fs' (A(x \<mapsto> k))" "(A(x \<mapsto> k)) p = Some n" using lx px assms(2) by simp_all
    note fr = free_heap [OF hc]
    have "kept A p n x k s s'" by (rule kept_moved [OF q(6) assms(2) q(2,3) _ c]) (simp_all add: s' fr(2))
    moreover have tw: "(A(x \<mapsto> k))(p := None) = (A(p := None))(x \<mapsto> k)" using px by (intro fun_upd_twist) simp
    have "\<exists>B' fs'. heap_at I s' B' fs' ((A(p := None))(x \<mapsto> k))" using fr(1) unfolding tw s' by blast
    ultimately show ?thesis using s' q(1,2,4) fr(3) by simp
  qed auto
qed

lemma realloc_big:
  assumes "heap_at I s B fs A" "A p = Some n" "\<not> small s p" "k \<noteq> 0" "unat k + 3 \<le> 2 ^ 31" "k_mm_realloc True p k s = (s', p')"
  shows "p' = 0 \<and> s' = s \<or> p' \<noteq> 0 \<and> (p' = p \<or> A p' = None) \<and> mm_errs s' = mm_errs s \<and> kept A p n p' k s s'
    \<and> (\<exists>B' fs'. heap_at I s' B' fs' ((A(p := None))(p' \<mapsto> k)))"
proof -
  note h = heap_atD [OF assms(1)]
  have l: "live I s B fs p n" using h(4) assms(2) by blast
  note f = live_fixed [OF assms(1) l]
  obtain m where m: "(p - 8, m, False) \<in> set B" "m \<noteq> 0" "p - 8 \<notin> I" "unat n \<le> unat m" using l assms(3) by (auto simp: live_def)
  obtain xs ys where B: "B = xs @ (p - 8, m, False) # ys" using m(1) by (meson split_list)
  note ok = h(1) [unfolded B]
  note b = block_size [OF ok]
  define rs where "rs = realloc_size k"
  have "unat k + 3 < 2 ^ 32" using assms(5) by simp
  note r = realloc_size_spec [OF this, folded rs_def]
  have rn: "rs \<noteq> 0" "8 \<le> unat rs" "need (unat rs) \<le> 2 ^ 31" using r(2,4,5) assms(5) by auto
  have in_place: ?thesis if "mm_ok s' (resize xs (p - 8) m rs ys)" "quiet s s'" "p' = p" "unat rs \<le> unat (fst (join_right m ys))"
  proof -
    have "heap_at I s' (resize xs (p - 8) m rs ys) fs (A(p \<mapsto> k))" by (rule resize_heap [OF assms(1) m(3) assms(3) B that(1,2,4) rn(1) r(1)])
    moreover have "kept A p n p' k s s'" using that(2,3) kept_same by (simp add: quiet_def)
    ultimately show ?thesis using that(2,3) f(2) by (auto simp: quiet_def)
  qed
  have nx: "NEXT_MM_BLK (buffer (p - 8)) m = p + m" by (simp add: NEXT_MM_BLK_def buffer_def MMLIST_HEAD_SIZE_def)
  obtain s1 x where a: "k_mm_alloc True rs s = (s1, x)" by fastforce
  have u: "k_mm_realloc True p k s = (if rs \<le> m then realloc_shrink (p - 8) rs k s
      else if sizew s (p + m) AND 1 \<noteq> 0 \<and> rs \<le> m + bsize s (p + m) then realloc_grow (p - 8) rs k s
      else if x = 0 then (s1, 0) else (k_mm_free True p (copy_bytes x p (if bsize s1 (p - 8) > rs then rs else bsize s1 (p - 8)) s1), x))"
    using assms(3,4) f(1,2) b(1) nx a by (simp add: k_mm_realloc_def Let_def MMLIST_HEAD_SIZE_def mm_masks flip: rs_def)
  consider (shrink) "rs \<le> m" | (grow) "\<not> rs \<le> m" "sizew s (p + m) AND 1 \<noteq> 0" "rs \<le> m + bsize s (p + m)"
    | (move) "\<not> rs \<le> m" "\<not> (sizew s (p + m) AND 1 \<noteq> 0 \<and> rs \<le> m + bsize s (p + m))" by blast
  then show ?thesis
  proof cases
    case shrink
    then have le: "unat rs \<le> unat m" by (simp add: word_le_nat_alt)
    obtain s2 where q: "realloc_shrink (p - 8) rs k s = (s2, p)" "mm_ok s2 (resize xs (p - 8) m rs ys)" "quiet s s2"
      using realloc_shrink_ok [OF ok m(2) r(3) rn(2) le, of k] by auto
    have "s' = s2" "p' = p" using assms(6) u shrink q(1) by simp_all
    then show ?thesis using q(2,3) join_right_ge [OF ok m(2)] le by (intro in_place) simp_all
  next
    case grow
    have "sizew s (p - 8 + 8 + m) AND 1 \<noteq> 0" "rs \<le> m + bsize s (p - 8 + 8 + m)" using grow by simp_all
    from realloc_grow_ok [OF ok m(2) r(3) rn(2) this, of k]
    obtain s2 where q: "realloc_grow (p - 8) rs k s = (s2, p)" "mm_ok s2 (resize xs (p - 8) m rs ys)" "quiet s s2" "unat rs \<le> unat (fst (join_right m ys))"
      by auto
    have "s' = s2" "p' = p" using assms(6) u grow q(1) by simp_all
    then show ?thesis using q(2-4) by (intro in_place) simp_all
  next
    case move
    define c where "c = (if bsize s1 (p - 8) > rs then rs else bsize s1 (p - 8))"
    have e: "(s', p') = (if x = 0 then (s1, 0) else (k_mm_free True p (copy_bytes x p c s1), x))"
      unfolding c_def assms(6) [symmetric] u using move by (simp only: if_False)
    from realloc_move [OF assms(1-3) r(1) rn(3,1) a refl, folded c_def]
    show ?thesis using e by (auto simp: c_def split: if_splits)
  qed
qed

end
