(* ===== verification/Mm_Init.thy ===== *)
theory Mm_Init
  imports Mm_Realloc
begin

unbundle bit_operations_syntax

text \<open>
  A new heap: one region, its first block for the description of the region, one free block, and the pool for small requests carved from it.
\<close>

section \<open>One region\<close>

definition no_lists :: flists where
  "no_lists = (\<lambda>_ _. [])"

lemma tables_zero: "mh s = h\<lparr>regioninfo := r\<rparr> \<Longrightarrow> h = zero_head \<Longrightarrow> tables s no_lists"
  by (simp add: tables_def bitmaps_ok_def heads_ok_def links_ok_def no_lists_def zero_head_def tbl_def sizes_num)

lemma lists_zero: "mh s = zero_head\<lparr>regioninfo := r\<rparr> \<Longrightarrow> lists_ok s {}"
  unfolding lists_ok_def using tables_zero [of s r zero_head] by (auto simp: covers_def no_lists_def)

lemma init_region_spec:
  assumes "init_mm_region a l s = (s', fb)" "a AND 3 = 0" "l AND 3 = 0" "40 \<le> unat l" "unat a + unat l < 2 ^ 32"
  shows "fb = a" "mh s' = mh s" "mpool s' = mpool s" "mm_errs s' = mm_errs s" "mbytes s' = mbytes s"
    "sizew s' x = (if x = a then 8 else if x = a + 16 then l - 32 else if x = a + l - 8 then 2 else sizew s x)"
    "x = a + l - 8 \<Longrightarrow> mm_prev (mblks s' x) = a + 16" "x \<notin> {a, a + 16, a + l - 8} \<Longrightarrow> mblks s' x = mblks s x"
    "mregs s' = (mregs s)(a + 8 := \<lparr>rg_end = a + l - 8, rg_next = 0\<rparr>)"
proof -
  have l32: "l - 32 AND 3 = 0"
  proof -
    have "4 dvd unat l" using assms(3) by (simp only: and_3_dvd)
    moreover have "unat (l - 32) = unat l - 32" using assms(4) by (simp add: unat_sub word_le_nat_alt)
    ultimately have "4 dvd unat (l - 32)" by (simp add: dvd_diff_nat)
    then show ?thesis by (simp only: and_3_dvd)
  qed
  have c: "MM_ALIGN_UP sizeof_region_info = 8" "MMREGION_USED_SIZE = 32" "MM_ALIGN_DOWN (l - 32) = l - 32"
    using al_mask [OF l32] by (simp_all add: MM_ALIGN_UP_def sizeof_region_info_def MMREGION_USED_SIZE_def MMLIST_HEAD_SIZE_def MM_ALIGN_DOWN_def)
  have ne: "a \<noteq> a + 16" "a \<noteq> a + l - 8" "a + 16 \<noteq> a + l - 8"
  proof -
    have "unat (a + l) = unat a + unat l" using assms(5) by (subst unat_add_lem [THEN iffD1]) simp_all
    then have "unat (a + l - 8) = unat a + unat l - 8" using assms(4) by (simp add: unat_sub word_le_nat_alt)
    moreover have "unat (a + 16) = unat a + 16" using assms(4,5) by (subst unat_add_lem [THEN iffD1]) simp_all
    ultimately show "a \<noteq> a + 16" "a \<noteq> a + l - 8" "a + 16 \<noteq> a + l - 8" using assms(4) by auto
  qed
  define cur lst where "cur = a + 16" and "lst = a + l - 8"
  define s1 where "s1 = set_size a 8 s"
  define s3 where "s3 = set_fnext cur 0 (set_fprev cur 0 (set_size cur (l - 32) s1))"
  have b1: "bsize s1 a = 8" "bsize s3 cur = l - 32" using al_mask [OF l32] by (simp_all add: s1_def s3_def bsize_def set_defs mm_masks)
  have nx: "buffer a + 8 = cur" "NEXT_MM_BLK (buffer cur) (l - 32) = lst"
    by (simp_all add: cur_def lst_def NEXT_MM_BLK_def buffer_def MMLIST_HEAD_SIZE_def)
  have s': "s' = set_region (buffer a) \<lparr>rg_end = lst, rg_next = 0\<rparr> (set_size lst 2 (set_mprev lst cur s3))" "fb = a"
    using assms(1) b1 by (auto simp: init_mm_region_def Let_def c nx mm_masks simp flip: s1_def s3_def)
  note ne = ne [folded cur_def lst_def]
  show "fb = a" by (rule s')
  show "mh s' = mh s" "mpool s' = mpool s" "mm_errs s' = mm_errs s" "mbytes s' = mbytes s" by (simp_all add: s' set_region_def s3_def s1_def set_defs)
  show "sizew s' x = (if x = a then 8 else if x = a + 16 then l - 32 else if x = a + l - 8 then 2 else sizew s x)"
    using ne by (simp add: s' set_region_def s3_def s1_def set_defs flip: cur_def lst_def)
  show "mblks s' x = mblks s x" if "x \<notin> {a, a + 16, a + l - 8}" using that by (simp add: s' set_region_def s3_def s1_def set_defs flip: cur_def lst_def)
  show "mregs s' = (mregs s)(a + 8 := \<lparr>rg_end = a + l - 8, rg_next = 0\<rparr>)"
    by (simp add: s' set_region_def s3_def s1_def set_defs buffer_def MMLIST_HEAD_SIZE_def add.commute flip: lst_def)
  show "mm_prev (mblks s' x) = a + 16" if "x = a + l - 8" using that ne by (simp add: s' set_region_def s3_def s1_def set_defs flip: cur_def lst_def)
qed

definition region_blocks :: "u32 \<Rightarrow> u32 \<Rightarrow> mmblk list" where
  "region_blocks a l = [(a, 8, False), (a + 16, l - 32, True), (a + l - 8, 0, False)]"

text \<open>The headers that \<open>init_mm_region\<close> writes are those of a region with one free block, except that this block is not yet marked; freeing it marks it.\<close>

lemma region_free:
  assumes "a AND 3 = 0" "l AND 3 = 0" "a \<noteq> 0" "40 \<le> unat l" "unat l \<le> 2 ^ 20" "unat a + unat l < 2 ^ 32"
    and s: "sizew s a = 8" "sizew s (a + 16) = l - 32" "sizew s (a + l - 8) = 2" "mm_prev (mblks s (a + l - 8)) = a + 16" "lists_ok s (frees B)"
    and B: "seg (mblks s) None B None" "apart B" "\<And>x. x \<in> set B \<Longrightarrow> ext x \<inter> {unat a..<unat a + unat l} = {}"
  shows "mm_ok (tlf_free (a + 16) s) (B @ region_blocks a l)" "quiet s (tlf_free (a + 16) s)" "bsize (tlf_free (a + 16) s) (a + 16) = l - 32"
proof -
  define b d n where "b = a + 16" and "d = a + l - 8" and "n = l - 32"
  have "unat (a + l) = unat a + unat l" using assms(6) by (subst unat_add_lem [THEN iffD1]) simp_all
  then have u: "unat d = unat a + unat l - 8" "unat b = unat a + 16" "unat n = unat l - 32"
    using assms(4,6) by (simp_all add: d_def b_def n_def unat_sub word_le_nat_alt unat_word_ariths)
  have v: "4 dvd unat a" "4 dvd unat l" using assms(1,2) by (simp_all only: and_3_dvd)
  have "4 dvd unat d" unfolding u(1) using v by (intro dvd_diff_nat dvd_add) simp_all
  moreover have "4 dvd unat b" unfolding u(2) using v by (intro dvd_add) simp_all
  moreover have "4 dvd unat n" unfolding u(3) using v by (intro dvd_diff_nat) simp_all
  ultimately have al: "d AND 3 = 0" "b AND 3 = 0" "n AND 3 = 0" by (simp_all only: and_3_dvd)
  have ne: "a \<noteq> b" "a \<noteq> d" "b \<noteq> d" "b \<noteq> 0" "d \<noteq> 0" "n \<noteq> 0" using u assms(4) by auto
  define s1 where "s1 = set_size b (mk n True False) s"
  have S: "sizew s1 a = mk 8 False False" "sizew s1 b = mk n True False" "sizew s1 d = mk 0 False True" "mm_prev (mblks s1 d) = b"
    using s ne by (simp_all add: s1_def set_defs mk_def flip: b_def d_def)
  have e8: "a + 8 + 8 = b" "b + 8 + n = d" by (simp_all add: b_def d_def n_def)
  have ou: "fst x \<noteq> b" if "x \<in> set B" for x
  proof -
    have "unat (fst x) \<in> ext x" by (cases x) simp
    moreover have "unat b \<in> {unat a..<unat a + unat l}" using u(2) assms(4) by simp
    ultimately show ?thesis using B(3) [OF that] by blast
  qed
  have "seg (mblks s1) None B None"
    using B(1) seg_cong [of B "mblks s1" "mblks s"] ou by (simp add: s1_def set_defs)
  moreover have "seg (mblks s1) None [(a, 8, False)] (Some (False, a, b, a))"
    using S(1) e8(1) assms(1,3,4,5,6) by (simp add: blk_at_def wf_blk_def fits_def after_def)
  ultimately have g0: "seg (mblks s1) None (B @ [(a, 8, False)]) (Some (False, a, b, a))" unfolding seg_append by blast
  have g1: "seg (mblks s1) (Some (False, a, b, a)) [(b, n, True)] (Some (True, b, d, a))" "blk_at (mblks s1) (Some (True, b, d, a)) (d, 0, False)"
    using S ne al assms(4,5,6) u e8(2) by (simp_all add: blk_at_stands [OF stands_Some] stands_after [OF stands_Some] wf_blk_def fits_def) auto
  have x3: "ext (a, 8, False) \<subseteq> {unat a..<unat a + unat l}" "ext (b, n, True) \<subseteq> {unat a..<unat a + unat l}" "ext (d, 0, False) \<subseteq> {unat a..<unat a + unat l}"
    using u assms(4) by auto
  have "sep x y" if "x \<in> set B" "ext y \<subseteq> {unat a..<unat a + unat l}" for x y using B(3) [OF that(1)] that(2) unfolding sep_def by blast
  moreover have "apart [(a, 8, False), (b, n, True), (d, 0, False)]" using u assms(4) by (simp add: sep_simp)
  ultimately have "apart (B @ [(a, 8, False), (b, n, True), (d, 0, False)])" using B(2) x3 unfolding apart_append by simp
  then have w: "win (mblks s1) (B @ [(a, 8, False)]) [(b, n, True)] (d, 0, False) [] (Some (False, a, b, a)) b False a a True b"
    using g0 g1 ne(6) by (simp add: win_def after_def)
  have bn: "sizew s b OR 1 = mk n True False" using s(2) al(3) by (simp add: b_def n_def)
  define s2 where "s2 = removesize (n + MMLIST_HEAD_SIZE) s1"
  have bs: "bsize s2 b = n" "bsize s1 b = n" using S(2) al(3) by (simp_all add: s2_def bsize_def mm_masks)
  obtain fl sl sta where bsr: "bitmap_search n ACTION_INSERT = (fl, sl, sta)" by (metis surj_pair)
  have dn: "d - b - 8 = n" by (simp add: d_def b_def n_def)
  have h: "sizew s2 b = mk n True False" "\<And>x. sizew s2 x = sizew s1 x" "\<And>x. mm_prev (mblks s2 x) = mm_prev (mblks s1 x)" "lists_ok s2 (frees (B @ [(a, 8, False)]) \<union> frees [])"
    using S(2) s(5) by (simp_all add: s2_def s1_def)
  note J = join_win [OF w ne(4) al(2,1) h dn [symmetric] bsr refl refl]
  have mn: "merge_next b s2 = s2" "merge_prev b s2 = (s2, b)"
    using bs(1) J(2) S(2,3) al(3) by (simp_all add: merge_next_def merge_prev_def Let_def mm_masks s2_def)
  have bi: "bsize (insert_block b i k s2) b = n" for i k using only_links_size(3) [OF insert_block_links [of s2 b i k]] bs(1) by simp
  have f: "tlf_free b s = set_mprev d b (set_size d (sizew (insert_block b (unat fl) (unat sl) s2) d OR 2) (insert_block b (unat fl) (unat sl) s2))"
    using bn mn bs bsr J(2) bi by (simp add: tlf_free_def Let_def mm_masks flip: s1_def s2_def)
  show "mm_ok (tlf_free (a + 16) s) (B @ region_blocks a l)" using J(1) f by (simp add: region_blocks_def flip: b_def d_def n_def)
  show "quiet s (tlf_free (a + 16) s)" using f by (simp add: s2_def s1_def flip: b_def)
  show "bsize (tlf_free (a + 16) s) (a + 16) = l - 32" using f bi ne(3) by (simp add: bsize_def set_defs flip: b_def n_def)
qed

section \<open>The whole initialisation\<close>

lemma mm_ok_head: "mm_tbl h = mm_tbl (mh s) \<Longrightarrow> sl_bitmap h = sl_bitmap (mh s) \<Longrightarrow> fl_bitmap h = fl_bitmap (mh s) \<Longrightarrow> mm_ok (s\<lparr>mh := h\<rparr>) B = mm_ok s B"
proof -
  assume h: "mm_tbl h = mm_tbl (mh s)" "sl_bitmap h = sl_bitmap (mh s)" "fl_bitmap h = fl_bitmap (mh s)"
  have "tables (s\<lparr>mh := h\<rparr>) L = tables s L" for L by (rule tables_cong) (simp_all add: h)
  then show ?thesis by (simp add: mm_ok_def lists_ok_def)
qed

text \<open>A heap without users: every block that is in use is one of the heap's own.\<close>

lemma heap_empty:
  assumes "mm_ok s B" "pool_ok s B fs" "fixedmblk (mh s) \<noteq> 0 \<Longrightarrow> fixedmblk (mh s) \<in> I" "\<And>p. small s p \<Longrightarrow> p \<in> set fs"
    "\<And>b m. (b, m, False) \<in> set B \<Longrightarrow> m \<noteq> 0 \<Longrightarrow> b \<in> I" "\<And>b. b \<in> I \<Longrightarrow> \<exists>m. (b, m, False) \<in> set B"
  shows "heap_at I s B fs Map.empty"
  by (rule heap_atI) (use assms in auto)

text \<open>The search for the pool's block: it succeeds when the free block has at least 4224 bytes.\<close>

lemma pool_class: "need 4128 = 4128" "cls (rounded 4128) = (6, 1)"
  by (simp_all add: need_def rounded_def cls_def lg2.simps)

lemma pool_room_needed: "le2 (cls (rounded (need 4128))) (cls m) \<longleftrightarrow> 4224 \<le> m"
proof
  obtain i j where c: "cls m = (i, j)" by (metis surj_pair)
  assume "le2 (cls (rounded (need 4128))) (cls m)"
  then have "class_base 6 1 \<le> class_base i j" unfolding pool_class c by (intro base_mono) simp_all
  then show "4224 \<le> m" using cls_bounds(2) [OF c] by (simp add: class_base_def)
next
  assume "4224 \<le> m"
  then have "le2 (cls 4224) (cls m)" by (rule cls_mono)
  moreover have "cls 4224 = (6, 1)" by (simp add: cls_def lg2.simps)
  ultimately show "le2 (cls (rounded (need 4128))) (cls m)" by (simp add: pool_class)
qed

lemma region_split:
  assumes "region_blocks r l = xs @ (b, m, True) # ys"
  shows "xs = [(r, 8, False)]" "b = r + 16" "m = l - 32" "ys = [(r + l - 8, 0, False)]"
  using assms by (auto simp: region_blocks_def Cons_eq_append_conv)

text \<open>The regions of the heap, each with its first address and its length, from the latest to the first; every block lies in one of them.\<close>

fun region_list :: "mmsys \<Rightarrow> u32 \<Rightarrow> (u32 \<times> u32) list \<Rightarrow> bool" where
  "region_list s p [] \<longleftrightarrow> p = 0"
| "region_list s p ((a, l) # rs) \<longleftrightarrow> p = a + 8 \<and> p \<noteq> 0 \<and> unat a + unat l < 2 ^ 32 \<and> rg_end (mregs s p) = a + l - 8 \<and> region_list s (rg_next (mregs s p)) rs"

definition within :: "(u32 \<times> u32) list \<Rightarrow> mmblk list \<Rightarrow> bool" where
  "within rs B \<longleftrightarrow> (\<forall>x\<in>set B. \<exists>(a, l)\<in>set rs. ext x \<subseteq> {unat a..<unat a + unat l})"

definition regions :: "mmsys \<Rightarrow> mmblk list \<Rightarrow> (u32 \<times> u32) list \<Rightarrow> bool" where
  "regions s B rs \<longleftrightarrow> region_list s (regioninfo (mh s)) rs \<and> within rs B"

lemma within_region:
  assumes "40 \<le> unat l" "unat r + unat l < 2 ^ 32"
  shows "within [(r, l)] (region_blocks r l)"
proof -
  have "unat (r + l) = unat r + unat l" using assms(2) by (subst unat_add_lem [THEN iffD1]) simp_all
  then have "unat (r + l - 8) = unat r + unat l - 8" "unat (r + 16) = unat r + 16" "unat (l - 32) = unat l - 32"
    using assms by (simp_all add: unat_sub word_le_nat_alt unat_word_ariths)
  then show ?thesis using assms by (auto simp: within_def region_blocks_def)
qed

lemma within_carve:
  assumes "within rs (xs @ (b, m, True) # ys)" "unat n + 16 \<le> unat m" "unat b + 8 + unat m < 2 ^ 32"
  shows "within rs (xs @ carve b m n @ ys)"
proof -
  obtain a l where q: "(a, l) \<in> set rs" "ext (b, m, True) \<subseteq> {unat a..<unat a + unat l}" using assms(1) by (auto simp: within_def)
  have "unat (b + 8 + n) = unat b + 8 + unat n" using assms(2,3) by (simp add: unat_word_ariths)
  moreover have "ext (b, n, False) \<subseteq> ext (b, m, True)" using assms(2) by auto
  moreover have "ext (b + 8 + n, m - n - 8, True) \<subseteq> ext (b, m, True)" using calculation(1) unat_rest [OF assms(2)] assms(2) by auto
  ultimately have "ext (b, n, False) \<subseteq> {unat a..<unat a + unat l}" "ext (b + 8 + n, m - n - 8, True) \<subseteq> {unat a..<unat a + unat l}" using q(2) by blast+
  then have "\<exists>(a, l)\<in>set rs. ext x \<subseteq> {unat a..<unat a + unat l}" if "x \<in> set (carve b m n)" for x
    using that assms(2) by (intro bexI [OF _ q(1)]) (auto simp: carve_def simp del: ext_simp)
  then show ?thesis using assms(1) by (simp add: within_def ball_Un)
qed

lemma init_pool:
  assumes "mm_ok s (region_blocks r l)" "fixedmblk (mh s) = 0" "unat r + unat l + 32 < 2 ^ 32" "40 \<le> unat l" "r AND 3 = 0"
  shows "\<exists>s' I B fs. init_fixed_pool s = Some s' \<and> heap_at I s' B fs Map.empty \<and> (fixedmblk (mh s') \<noteq> 0 \<longleftrightarrow> 4256 \<le> unat l) \<and> mm_errs s' = mm_errs s
    \<and> (\<exists>b m. (b, m, True) \<in> set B \<and> unat l \<le> unat m + 4168) \<and> within [(r, l)] B \<and> mregs s' = mregs s \<and> regioninfo (mh s') = regioninfo (mh s)"
proof -
  have un: "unat (l - 32) = unat l - 32" using assms(4) by (simp add: unat_sub word_le_nat_alt)
  obtain s1 p where a: "tlf_alloc 4128 s = (s1, p)" by fastforce
  have "k_mm_alloc True 4128 s = (s1, p)" using a assms(2) by (simp add: k_mm_alloc_def)
  note ini = init_fixed_pool_def [of s, unfolded RHINO_CONFIG_MM_TLF_BLK_SIZE_def MM_ALIGN_UP_def sizeof_mblk_pool_def, simplified, unfolded this, simplified]
  have "need (unat (4128 :: u32)) \<le> 2 ^ 31" by (simp add: pool_class)
  from tlf_alloc_spec [OF assms(1) this a] show ?thesis
  proof (elim disjE exE conjE)
    assume q: "p = 0" "s1 = s" "\<forall>b m. (b, m, True) \<in> set (region_blocks r l) \<longrightarrow> \<not> le2 (cls (rounded (need (unat (4128 :: u32))))) (cls (unat m))"
    have "\<not> 4224 \<le> unat l - 32" using q(3) un by (simp add: pool_room_needed region_blocks_def)
    moreover have "heap_at {r} s (region_blocks r l) [] Map.empty"
      using assms(1,2) by (intro heap_empty) (auto simp: pool_ok_def small_def region_blocks_def)
    moreover have "(r + 16, l - 32, True) \<in> set (region_blocks r l)" by (simp add: region_blocks_def)
    moreover have "unat l \<le> unat (l - 32) + 4168" using un by simp
    moreover have "within [(r, l)] (region_blocks r l)" using within_region assms(3,4) by simp
    ultimately show ?thesis using ini q(1,2) assms(2)
      by (intro exI [of _ s] exI [of _ "{r}"] exI [of _ "region_blocks r l"] exI [of _ "[]"]) auto
  next
    fix xs b m ys
    assume q: "region_blocks r l = xs @ (b, m, True) # ys" "p = b + 8" "need (unat (4128 :: u32)) \<le> unat m" "le2 (cls (rounded (need (unat (4128 :: u32))))) (cls (unat m))"
      "mm_ok s1 (xs @ carve b m (alloc_size 4128) @ ys)" "quiet s s1"
    note rs = region_split [OF q(1)]
    have m: "4224 \<le> unat m" using q(4) by (simp add: pool_room_needed)
    have as: "alloc_size 4128 = 4128" by (simp add: alloc_size_def MM_ALIGN_UP_def AOS_MM_TLF_ALLOC_MIN_LENGTH_def)
    have u: "unat m = unat l - 32" "unat b = unat r + 16" using un assms(3,4) by (simp_all add: rs unat_word_ariths)
    have ub: "unat (b + 40) = unat b + 40" "unat (b + 8) = unat b + 8" using u m assms(3) by (simp_all add: unat_word_ariths)
    have "4 dvd unat r" using assms(5) by (simp only: and_3_dvd)
    then have "4 dvd unat (b + 40)" unfolding ub u by (intro dvd_add) simp_all
    then have st: "b + 40 \<noteq> 0" "b + 40 AND 3 = 0" "unat (b + 40) + unat (4096 :: u32) + unat (32 :: u32) < 2 ^ 32"
      using ub u m assms(3) by (simp_all only: and_3_dvd) auto
    have b0: "b \<noteq> 0" "b + 8 \<noteq> 0" using u(2) ub(2) by auto
    obtain x where x: "krhino_mblk_pool_init 4096 (Some (b + 8)) (Some ''fixed_mm_blk'') (b + 40) 32 4096 (mpool s1) = Some (x, RHINO_SUCCESS)"
      "pool_free x (b + 8) (pool_blocks b)"
      using mblk_pool_init_spec [OF st(1,2) _ _ _ _ st(3), of 4096 "b + 8" "''fixed_mm_blk''" "mpool s1"] by (auto simp: pool_blocks_def)
    define s2 where "s2 = removesize 4096 (upd_head (\<lambda>h. h\<lparr>fixedmblk := b\<rparr>) (s1\<lparr>mpool := x\<rparr>))"
    have ini2: "init_fixed_pool s = Some s2" using ini x(1) [unfolded add.commute [of b 40]] q(2) b0 by (simp add: s2_def Let_def MMLIST_HEAD_SIZE_def DEF_FIX_BLK_SIZE_def)
    have "mm_ok s2 (xs @ carve b m 4128 @ ys)" using q(5) as by (simp add: s2_def upd_head_def mm_ok_head)
    moreover have "pool_ok s2 (xs @ carve b m 4128 @ ys) (pool_blocks b)"
      using x(2) b0(1) m by (cases "unat m < unat (4128 :: u32) + 16") (auto simp: pool_ok_def s2_def carve_def)
    ultimately have "heap_at {r, b} s2 (xs @ carve b m 4128 @ ys) (pool_blocks b) Map.empty"
      using b0(1) by (intro heap_empty) (auto simp: s2_def small_def carve_def rs split: if_splits)
    moreover have "fixedmblk (mh s2) = b" "mm_errs s2 = mm_errs s" "mregs s2 = mregs s" "regioninfo (mh s2) = regioninfo (mh s)" using q(6) by (simp_all add: s2_def quiet_def)
    moreover have "4256 \<le> unat l" using m u(1) by simp
    moreover have "unat (4128 :: u32) + 16 \<le> unat m" using m by simp
    note rest = unat_rest [OF this]
    have "within [(r, l)] (region_blocks r l)" using within_region assms(3,4) by simp
    from within_carve [OF this [unfolded q(1)], of 4128] have "within [(r, l)] (xs @ carve b m 4128 @ ys)" using m u assms(3) by simp
    moreover note rest
    then have "(b + 8 + 4128, m - 4128 - 8, True) \<in> set (xs @ carve b m 4128 @ ys) \<and> unat l \<le> unat (m - 4128 - 8) + 4168"
      using m u(1) by (simp add: carve_def)
    ultimately show ?thesis using ini2 b0(1) by blast
  qed
qed

lemma align_facts: "MM_ALIGN_UP x AND 3 = 0" "MM_ALIGN_DOWN x AND 3 = 0"
  by (simp_all add: MM_ALIGN_UP_def MM_ALIGN_DOWN_def and.assoc)

lemma align_down_id: "n AND 3 = 0 \<Longrightarrow> MM_ALIGN_DOWN n = n"
  using al_mask [of n] by (simp add: MM_ALIGN_DOWN_def)

lemma new_region:
  assumes al: "r AND 3 = 0" "n AND 3 = 0" and bn: "40 \<le> unat n" "unat n \<le> 2 ^ 20" "unat r + unat n < 2 ^ 32" "r \<noteq> 0"
    and i: "init_mm_region r n (upd_head (\<lambda>_. zero_head) s) = (s2, fb)" and s3: "s3 = upd_head (\<lambda>h. h\<lparr>regioninfo := buffer r\<rparr>) s2"
    and s4: "s4 = k_mm_free True (buffer (r + 16)) s3"
  shows "fb = r" "NEXT_MM_BLK (buffer r) (bsize s3 r) = r + 16" "mm_ok s4 (region_blocks r n)" "bsize s4 (r + 16) = n - 32" "mm_errs s4 = mm_errs s"
    "regions s4 (region_blocks r n) [(r, n)]"
proof -
  note ir = init_region_spec [OF i al bn(1,3)]
  have S3: "sizew s3 r = 8" "sizew s3 (r + 16) = n - 32" "sizew s3 (r + n - 8) = 2" "mm_prev (mblks s3 (r + n - 8)) = r + 16" "lists_ok s3 {}" "fixedmblk (mh s3) = 0"
  proof -
    have "unat (r + n) = unat r + unat n" using bn(3) by (subst unat_add_lem [THEN iffD1]) simp_all
    then have "unat (r + n - 8) = unat r + unat n - 8" using bn(1) by (simp add: unat_sub word_le_nat_alt)
    moreover have "unat (r + 16) = unat r + 16" using bn(1,3) by (subst unat_add_lem [THEN iffD1]) simp_all
    ultimately have "r + n - 8 \<noteq> r" "r + n - 8 \<noteq> r + 16" "r + 16 \<noteq> r" using bn(1) by auto
    then show "sizew s3 r = 8" "sizew s3 (r + 16) = n - 32" "sizew s3 (r + n - 8) = 2" "mm_prev (mblks s3 (r + n - 8)) = r + 16"
      using ir(6,7) by (simp_all add: s3)
    have "mh s3 = zero_head\<lparr>regioninfo := buffer r\<rparr>" using ir(2) by (simp add: s3)
    then show "lists_ok s3 {}" "fixedmblk (mh s3) = 0" using lists_zero by (simp_all add: zero_head_def)
  qed
  note rf = region_free [OF al bn(4,1,2,3) S3(1-4), of "[]", simplified, OF S3(5)]
  have k: "k_mm_free True (buffer (r + 16)) s3 = tlf_free (r + 16) s3"
  proof -
    have "buffer (r + 16) = r + 24" by (simp add: buffer_def MMLIST_HEAD_SIZE_def)
    moreover have "unat (r + 24) = unat r + 24" using bn(1,3) by (subst unat_add_lem [THEN iffD1]) simp_all
    then have "r + 24 \<noteq> 0" by auto
    ultimately show ?thesis using S3(6) by (simp add: k_mm_free_def ISFIXEDBLK_def MMLIST_HEAD_SIZE_def add.commute)
  qed
  show "fb = r" by (rule ir)
  show "NEXT_MM_BLK (buffer r) (bsize s3 r) = r + 16" using S3(1) by (simp add: bsize_def mm_masks NEXT_MM_BLK_def buffer_def MMLIST_HEAD_SIZE_def)
  show "mm_ok s4 (region_blocks r n)" "bsize s4 (r + 16) = n - 32" "mm_errs s4 = mm_errs s"
  proof -
    have "s4 = tlf_free (r + 16) s3" by (simp only: s4 k)
    moreover have "mm_errs s3 = mm_errs s" using ir(4) by (simp add: s3)
    ultimately show "mm_ok s4 (region_blocks r n)" "bsize s4 (r + 16) = n - 32" "mm_errs s4 = mm_errs s" using rf by (simp_all add: quiet_def)
  qed
  have "regioninfo (mh s4) = r + 8" "mregs s4 (r + 8) = \<lparr>rg_end = r + n - 8, rg_next = 0\<rparr>"
    using rf(2) [folded k, folded s4] ir(9) by (simp_all add: quiet_def s3 buffer_def MMLIST_HEAD_SIZE_def add.commute)
  moreover have "unat (r + 8) = unat r + 8" using bn(1,3) by (subst unat_add_lem [THEN iffD1]) simp_all
  then have "r + 8 \<noteq> 0" by auto
  ultimately show "regions s4 (region_blocks r n) [(r, n)]" using within_region [OF bn(1,3)] bn(3) by (simp add: regions_def)
qed

text \<open>The heap in the memory from the next multiple of 4 on: a head of 1952 bytes, then the region.\<close>

lemma init_heap:
  assumes "addr \<noteq> 0" "a = MM_ALIGN_UP addr" "l = MM_ALIGN_DOWN (len - (a - addr))" "5120 \<le> unat l" "unat l \<le> 2 ^ 20" "unat a + unat l + 32 < 2 ^ 32"
  shows "\<exists>s' I B fs. krhino_init_mm_head True addr len s = Some (s', RHINO_SUCCESS) \<and> heap_at I s' B fs Map.empty
    \<and> (fixedmblk (mh s') \<noteq> 0 \<longleftrightarrow> 6208 \<le> unat l) \<and> mm_errs s' = mm_errs s \<and> (\<exists>b m. (b, m, True) \<in> set B \<and> unat l \<le> unat m + 6120)
    \<and> regions s' B [(a + 1952, l - 1952)]"
proof -
  define r n where "r = a + 1952" and "n = l - 1952"
  have al: "a AND 3 = 0" "l AND 3 = 0" by (simp_all add: assms(2,3) align_facts)
  have u: "unat r = unat a + 1952" "unat n = unat l - 1952"
    using assms(4,6) by (simp_all add: r_def n_def unat_sub word_le_nat_alt unat_word_ariths)
  have v: "4 dvd unat a" "4 dvd unat l" using al by (simp_all only: and_3_dvd)
  then have "4 dvd unat r" "4 dvd unat n" unfolding u by (auto intro!: dvd_add dvd_diff_nat)
  then have al2: "r AND 3 = 0" "n AND 3 = 0" by (simp_all only: and_3_dvd)
  have bn: "40 \<le> unat n" "unat n \<le> 2 ^ 20" "unat r + unat n < 2 ^ 32" "unat r + unat n + 32 < 2 ^ 32" "r \<noteq> 0" using u assms(4-6) by auto
  define s1 where "s1 = upd_head (\<lambda>_. zero_head) s"
  obtain s2 fb where i: "init_mm_region r n s1 = (s2, fb)" by fastforce
  define s3 where "s3 = upd_head (\<lambda>h. h\<lparr>regioninfo := buffer r\<rparr>) s2"
  define s4 where "s4 = k_mm_free True (buffer (r + 16)) s3"
  note nr = new_region [OF al2 bn(1,2,3,5) i [unfolded s1_def] s3_def s4_def]
  define s5 where "s5 = upd_head (\<lambda>h. h\<lparr>free_size := n - 32, used_size := l - (n - 32), maxused_size := l - (n - 32), fixedmblk := 0\<rparr>) s4"
  have e: "krhino_init_mm_head True addr len s = (case init_fixed_pool s5 of None \<Rightarrow> None | Some s6 \<Rightarrow> Some (s6, RHINO_SUCCESS))"
  proof -
    have c: "MM_ALIGN_UP 1952 = 1952" "MM_ALIGN_DOWN (l - 1952) = n" "sizeof_mm_head = 1952"
      using align_down_id [OF al2(2)] by (simp_all add: MM_ALIGN_UP_def sizeof_mm_head_def n_def)
    have g: "\<not> (l = 0 \<or> l < MIN_FREE_MEMORY_SIZE + RHINO_CONFIG_MM_TLF_BLK_SIZE \<or> MAX_MM_SIZE < l)"
      using assms(4,5) by (auto simp: MIN_FREE_MEMORY_SIZE_def RHINO_CONFIG_MM_TLF_BLK_SIZE_def MAX_MM_SIZE_def MAX_MM_BIT_def word_less_nat_alt)
    show ?thesis
      unfolding krhino_init_mm_head_def Let_def assms(2) [symmetric] assms(3) [symmetric]
      using assms(1) al g i nr(1,2,4) align_down_id [OF al(2)] by (simp add: c s5_def flip: r_def s1_def s3_def s4_def)
  qed
  have "mm_ok s5 (region_blocks r n)" "fixedmblk (mh s5) = 0" using nr(3) by (simp_all add: s5_def upd_head_def mm_ok_head)
  from init_pool [OF this bn(4,1) al2(1)]
  obtain s6 I B fs b m where p: "init_fixed_pool s5 = Some s6" "heap_at I s6 B fs Map.empty" "fixedmblk (mh s6) \<noteq> 0 \<longleftrightarrow> 4256 \<le> unat n" "mm_errs s6 = mm_errs s5"
    "(b, m, True) \<in> set B" "unat n \<le> unat m + 4168" "within [(r, n)] B" "mregs s6 = mregs s5" "regioninfo (mh s6) = regioninfo (mh s5)" by blast
  have "krhino_init_mm_head True addr len s = Some (s6, RHINO_SUCCESS)" using e p(1) by simp
  moreover have "mm_errs s6 = mm_errs s" using p(4) nr(5) by (simp add: s5_def)
  moreover have "fixedmblk (mh s6) \<noteq> 0 \<longleftrightarrow> 6208 \<le> unat l" using p(3) u(2) by auto
  moreover have "unat l \<le> unat m + 6120" using p(6) u(2) by simp
  moreover have "regions s6 B [(a + 1952, l - 1952)]" using nr(6) p(7-9) by (auto simp: regions_def s5_def simp flip: r_def n_def)
  ultimately show ?thesis using p(2,5) by blast
qed

end
