(* ===== verification/Mm_Region.thy ===== *)
theory Mm_Region
  imports Mm_Init
begin

unbundle bit_operations_syntax

text \<open>
  Giving the heap more memory (\<open>krhino_add_mm_region\<close>): an area that touches no region of the heap becomes a region of its own with one free block.
\<close>

text \<open>Two areas of memory with at least one byte between them.\<close>

fun separate :: "u32 \<times> u32 \<Rightarrow> u32 \<times> u32 \<Rightarrow> bool" where
  "separate (a, l) (b, k) \<longleftrightarrow> unat a + unat l < unat b \<or> unat b + unat k < unat a"

declare merge_regions.simps [simp del]

lemma merge_regions_apart:
  assumes "region_list s p rs" "\<And>r. r \<in> set rs \<Longrightarrow> separate (ib0, len) r" "lb0 = ib0 + len - 8" "length rs \<le> n" "unat ib0 + unat len < 2 ^ 32"
  shows "merge_regions n p pp ib0 b0 lb0 s = Some (s, ib0, b0, lb0)"
  using assms(1,2,4)
proof (induction rs arbitrary: p pp n)
  case Nil
  then show ?case by (simp add: merge_regions.simps)
next
  case (Cons r rs)
  obtain a l where r: "r = (a, l)" by fastforce
  obtain m where n: "n = Suc m" "length rs \<le> m" using Cons.prems(3) by (cases n) auto
  have q: "p = a + 8" "p \<noteq> 0" "unat a + unat l < 2 ^ 32" "rg_end (mregs s p) = a + l - 8" "region_list s (rg_next (mregs s p)) rs" using Cons.prems(1) by (auto simp: r)
  have "unat (a + l) = unat a + unat l" using q(3) by (subst unat_add_lem [THEN iffD1]) simp_all
  moreover have "unat (ib0 + len) = unat ib0 + unat len" using assms(5) by (subst unat_add_lem [THEN iffD1]) simp_all
  moreover have "separate (ib0, len) (a, l)" using Cons.prems(2) [of r] unfolding r by simp
  ultimately have "a \<noteq> ib0 + len" "a + l \<noteq> ib0" by auto
  then have "merge_regions n p pp ib0 b0 lb0 s = merge_regions m (rg_next (mregs s p)) p ib0 b0 lb0 s"
    using q(1,2,4) n(1) by (subst merge_regions.simps) (simp add: assms(3) buffer_def MMLIST_HEAD_SIZE_def Let_def)
  also have "\<dots> = Some (s, ib0, b0, lb0)" using Cons.IH [OF q(5) _ n(2)] Cons.prems(2) by simp
  finally show ?case .
qed

lemma region_list_cong: "(\<And>a l. (a, l) \<in> set rs \<Longrightarrow> mregs s' (a + 8) = mregs s (a + 8)) \<Longrightarrow> region_list s' p rs = region_list s p rs"
proof (induction rs arbitrary: p)
  case (Cons r rs)
  obtain a l where r: "r = (a, l)" by fastforce
  have "mregs s' (a + 8) = mregs s (a + 8)" using Cons.prems [of a l] by (simp add: r)
  moreover have "region_list s' x rs = region_list s x rs" for x by (rule Cons.IH, rule Cons.prems) (erule list.set_intros(2))
  ultimately show ?case by (cases "p = a + 8") (simp_all add: r)
qed simp

lemma within_far:
  assumes "within rs B" "\<And>r. r \<in> set rs \<Longrightarrow> separate (addr, len) r" "x \<in> set B"
  shows "ext x \<inter> {unat addr..<unat addr + unat len} = {}"
proof -
  obtain a l where q: "(a, l) \<in> set rs" "ext x \<subseteq> {unat a..<unat a + unat l}" using assms(1,3) by (auto simp: within_def)
  have "separate (addr, len) (a, l)" by (rule assms(2) [OF q(1)])
  then have "{unat a..<unat a + unat l} \<inter> {unat addr..<unat addr + unat len} = {}" by auto
  then show ?thesis using q(2) by blast
qed

lemma within_append: "within rs B \<Longrightarrow> within [r] C \<Longrightarrow> within (r # rs) (B @ C)"
  by (auto simp: within_def)

lemma lists_ok_cong:
  assumes "lists_ok s F" "mh s' = mh s" "\<And>a n. (a, n) \<in> F \<Longrightarrow> mblks s' a = mblks s a"
  shows "lists_ok s' F"
proof -
  obtain L where L: "tables s L" "covers F L" using assms(1) by (auto simp: lists_ok_def)
  have "dll (mblks s') 0 (L i j) 0 = dll (mblks s) 0 (L i j) 0" if ij: "i < 14" "j < 32" for i j
  proof (rule dll_cong)
    fix x assume "x \<in> set (L i j)"
    then obtain n where "(x, n) \<in> F" using coversD [OF L(2) ij] by blast
    then show "free_prev (mblks s' x) = free_prev (mblks s x) \<and> free_next (mblks s' x) = free_next (mblks s x)" using assms(3) by simp
  qed
  then have "links_ok (mblks s') L" using L(1) by (simp add: tables_def links_ok_def)
  then have "tables s' L" using L(1) assms(2) by (simp add: tables_def heads_ok_def tbl_def)
  then show ?thesis using L(2) by (auto simp: lists_ok_def)
qed

text \<open>The headers outside of the area are not written.\<close>

lemma new_area:
  assumes i: "init_mm_region addr len (zero_memory addr len s) = (s1, fb)" and l: "addr AND 3 = 0" "len AND 3 = 0" "40 \<le> unat len" "unat addr + unat len < 2 ^ 32"
  shows "unat x \<notin> {unat addr..<unat addr + unat len} \<Longrightarrow> mblks s1 x = mblks s x"
    "sizew s1 addr = 8" "sizew s1 (addr + 16) = len - 32" "sizew s1 (addr + len - 8) = 2" "mm_prev (mblks s1 (addr + len - 8)) = addr + 16"
    "fb = addr" "mh s1 = mh s" "mpool s1 = mpool s" "mm_errs s1 = mm_errs s"
    "NEXT_MM_BLK (buffer addr) (bsize s1 addr) = addr + 16" "NEXT_MM_BLK (buffer (addr + 16)) (bsize s1 (addr + 16)) = addr + len - 8"
proof -
  note ir = init_region_spec [OF i l]
  have "unat (addr + len) = unat addr + unat len" using l(4) by (subst unat_add_lem [THEN iffD1]) simp_all
  then have ul: "unat (addr + len - 8) = unat addr + unat len - 8" using l(3) by (simp add: unat_sub word_le_nat_alt)
  have uc: "unat (addr + 16) = unat addr + 16" using l(3,4) by (subst unat_add_lem [THEN iffD1]) simp_all
  show "mblks s1 x = mblks s x" if "unat x \<notin> {unat addr..<unat addr + unat len}"
  proof -
    have "x \<notin> {addr, addr + 16, addr + len - 8}" using that ul uc l(3) by auto
    then have "mblks s1 x = mblks (zero_memory addr len s) x" by (rule ir(8))
    moreover have "\<not> x - addr < len" using that l(4) by (intro word_outside) auto
    ultimately show ?thesis by (simp add: zero_memory_def)
  qed
  have ne: "addr + len - 8 \<noteq> addr" "addr + len - 8 \<noteq> addr + 16" "addr + 16 \<noteq> addr" using ul uc l(3) by auto
  show z: "sizew s1 addr = 8" "sizew s1 (addr + 16) = len - 32" "sizew s1 (addr + len - 8) = 2" "mm_prev (mblks s1 (addr + len - 8)) = addr + 16"
    using ir(6,7) ne by simp_all
  show "fb = addr" "mh s1 = mh s" "mpool s1 = mpool s" "mm_errs s1 = mm_errs s" using ir(1-4) by (simp_all add: zero_memory_def)
  show "NEXT_MM_BLK (buffer addr) (bsize s1 addr) = addr + 16" using z(1) by (simp add: bsize_def mm_masks NEXT_MM_BLK_def buffer_def MMLIST_HEAD_SIZE_def)
  have "4 dvd unat len" using l(2) by (simp only: and_3_dvd)
  moreover have "unat (len - 32) = unat len - 32" using l(3) by (simp add: unat_sub word_le_nat_alt)
  ultimately have "4 dvd unat (len - 32)" by (simp add: dvd_diff_nat)
  then have "bsize s1 (addr + 16) = len - 32" using al_mask [of "len - 32"] z(2) by (simp only: bsize_def mm_masks and_3_dvd)
  then show "NEXT_MM_BLK (buffer (addr + 16)) (bsize s1 (addr + 16)) = addr + len - 8" by (simp add: NEXT_MM_BLK_def buffer_def MMLIST_HEAD_SIZE_def)
qed

lemma area_not_fixed:
  assumes "heap_at I s B fs A" "40 \<le> unat len" "unat addr + unat len < 2 ^ 32" "\<And>x. x \<in> set B \<Longrightarrow> ext x \<inter> {unat addr..<unat addr + unat len} = {}"
  shows "\<not> ISFIXEDBLK s (addr + 24)" "addr + 24 \<noteq> 0"
proof -
  note h = heap_atD [OF assms(1)]
  have u: "unat (addr + 24) = unat addr + 24" using assms(2,3) by (subst unat_add_lem [THEN iffD1]) simp_all
  then show "addr + 24 \<noteq> 0" by auto
  show "\<not> ISFIXEDBLK s (addr + 24)"
  proof (cases "fixedmblk (mh s) = 0")
    case False
    obtain pm where q: "(fixedmblk (mh s), pm, False) \<in> set B"
      "\<And>p. unat p \<le> unat (fixedmblk (mh s)) + 8 \<or> unat (fixedmblk (mh s)) + 8 + unat pm + 8 \<le> unat p \<Longrightarrow> \<not> ISFIXEDBLK s p"
      by (rule ISFIXEDBLK_iff [OF h(1,2) refl False]) (rule that)
    have "unat (fixedmblk (mh s)) + (8 + unat pm) \<le> unat addr \<or> unat addr + unat len \<le> unat (fixedmblk (mh s))"
      using assms(4) [OF q(1)] ivl_apart [of "8 + unat pm" "unat len" "unat (fixedmblk (mh s))" "unat addr"] assms(2) by (simp add: add.assoc)
    then show ?thesis using assms(2) u by (intro q(2)) linarith
  qed (simp add: ISFIXEDBLK_def)
qed

lemma heap_at_append:
  assumes "heap_at I s B fs A" "mm_ok s' (B @ region_blocks addr len)" "fixedmblk (mh s') = fixedmblk (mh s)" "mpool s' = mpool s" "\<And>x. x \<in> set B \<Longrightarrow> fst x \<noteq> addr"
  shows "heap_at (insert addr I) s' (B @ region_blocks addr len) fs A"
proof (rule heap_atI [OF assms(2)])
  note h = heap_atD [OF assms(1)]
  have sm: "small s' p = small s p" for p by (simp add: small_def assms(3))
  show "pool_ok s' (B @ region_blocks addr len) fs" using h(2) by (auto simp: pool_ok_def Let_def assms(3,4))
  show "live (insert addr I) s' (B @ region_blocks addr len) fs p k" if Ap: "A p = Some k" for p k
  proof (cases "small s p")
    case False
    then obtain m where m: "p - 8 \<notin> I" "(p - 8, m, False) \<in> set B" "m \<noteq> 0" "unat k \<le> unat m" using h(4) [OF Ap] by (auto simp: live_def)
    have "p - 8 \<noteq> addr" using assms(5) [OF m(2)] by simp
    then show ?thesis using m False by (auto simp: live_def sm)
  qed (use h(4) [OF Ap] in \<open>simp add: live_def sm\<close>)
  show "b + 8 \<in> dom A" if "(b, m, False) \<in> set (B @ region_blocks addr len)" "m \<noteq> 0" "b \<notin> insert addr I" for b m
    using that h(6) [of b m] by (auto simp: region_blocks_def)
  show "\<exists>m. (b, m, False) \<in> set (B @ region_blocks addr len)" if "b \<in> insert addr I" for b
    using that h(7) [of b] by (auto simp: region_blocks_def)
  show "p \<in> dom A" if "small s' p" "p \<notin> set fs" for p using that h(5) by (simp add: sm)
  show "fixedmblk (mh s') \<in> insert addr I" if "fixedmblk (mh s') \<noteq> 0" using that h(3) by (simp add: assms(3))
qed

lemma add_region_heap:
  assumes "heap_at I s B fs A" "addr \<noteq> 0" "addr AND 3 = 0" "len AND 3 = 0" "40 \<le> unat len" "unat len \<le> 2 ^ 20" "unat addr + unat len < 2 ^ 32"
    and rs: "regions s B rs" "\<And>r. r \<in> set rs \<Longrightarrow> separate (addr, len) r" "length rs \<le> n"
  shows "\<exists>s'. krhino_add_mm_region n True addr len s = Some (s', RHINO_SUCCESS) \<and> heap_at (insert addr I) s' (B @ region_blocks addr len) fs A
    \<and> mm_errs s' = mm_errs s \<and> fixedmblk (mh s') = fixedmblk (mh s) \<and> regions s' (B @ region_blocks addr len) ((addr, len) # rs)"
proof -
  note h = heap_atD [OF assms(1)]
  have w: "region_list s (regioninfo (mh s)) rs" "within rs B" using rs(1) by (simp_all add: regions_def)
  have far: "ext x \<inter> {unat addr..<unat addr + unat len} = {}" if "x \<in> set B" for x by (rule within_far [OF w(2) _ that]) (rule rs(2))
  obtain s1 fb where i: "init_mm_region addr len (zero_memory addr len s) = (s1, fb)" by fastforce
  note na = new_area [OF i assms(3-5,7)]
  have fst_out: "unat (fst x) \<notin> {unat addr..<unat addr + unat len}" if "x \<in> set B" for x
  proof -
    have "unat (fst x) \<in> ext x" by (cases x) simp
    then show ?thesis using far [OF that] by blast
  qed
  have ne: "a + 8 \<noteq> addr + 8" if "(a, l) \<in> set rs" for a l using rs(2) [OF that] by auto
  from ne have regs: "mregs s1 (a + 8) = mregs s (a + 8)" if "(a, l) \<in> set rs" for a l
    using that init_region_spec(9) [OF i assms(3-5,7)] by (auto simp: zero_memory_def)
  then have rl: "region_list s1 (regioninfo (mh s1)) rs" using w(1) region_list_cong [of rs s1 s] na(7) by simp
  define s4 where "s4 = upd_head (\<lambda>h. h\<lparr>regioninfo := buffer addr, used_size := used_size h + (bsize s1 (addr + 16) + MMLIST_HEAD_SIZE)\<rparr>)
    (set_region (buffer addr) \<lparr>rg_end = addr + len - 8, rg_next = regioninfo (mh s1)\<rparr> s1)"
  define s' where "s' = k_mm_free True (buffer (addr + 16)) s4"
  have "merge_regions n (regioninfo (mh s1)) 0 addr (addr + 16) (addr + len - 8) s1 = Some (s1, addr, addr + 16, addr + len - 8)"
    by (rule merge_regions_apart [OF rl rs(2) refl rs(3) assms(7)])
  moreover have "len = MM_ALIGN_DOWN len" "\<not> (len = 0 \<or> len < sizeof_region_info + sizeof_mm_list * 2)"
    using align_down_id [OF assms(4)] assms(5) by (auto simp: sizeof_region_info_def sizeof_mm_list_def word_less_nat_alt)
  moreover have "bsize (set_region u v s1) x = bsize s1 x" for u v x by (simp add: bsize_def set_region_def)
  ultimately have e: "krhino_add_mm_region n True addr len s = Some (s', RHINO_SUCCESS)"
    using assms(2,3) i na(6,10,11) by (simp add: krhino_add_mm_region_def Let_def s'_def s4_def)
  have m4: "mblks s4 = mblks s1" "mpool s4 = mpool s" "fixedmblk (mh s4) = fixedmblk (mh s)" using na(7,8) by (simp_all add: s4_def set_region_def)
  have b4: "mblks s4 (fst x) = mblks s (fst x)" if "x \<in> set B" for x using na(1) [OF fst_out [OF that]] m4(1) by simp
  have lo: "lists_ok s4 (frees B)"
  proof -
    have "lists_ok s (frees B)" using h(1) by (simp add: mm_ok_def)
    moreover have "mblks s4 a = mblks s a" if "(a, n) \<in> frees B" for a n using b4 [of "(a, n, True)"] that by (simp add: frees_def)
    ultimately have "lists_ok (s4\<lparr>mh := mh s\<rparr>) (frees B)" by (intro lists_ok_cong [where s = s and s' = "s4\<lparr>mh := mh s\<rparr>"]) simp_all
    moreover have "tables s4 L = tables (s4\<lparr>mh := mh s\<rparr>) L" for L by (rule tables_cong) (use na(7) in \<open>simp_all add: s4_def set_region_def\<close>)
    ultimately show ?thesis by (simp add: lists_ok_def)
  qed
  have sg: "seg (mblks s4) None B None" "apart B" using h(1) seg_cong [of B "mblks s4" "mblks s"] b4 by (simp_all add: mm_ok_def)
  note rf = region_free [OF assms(3,4,2,5,6,7) na(2-5) [folded m4(1)] lo sg far]
  have "ISFIXEDBLK s4 p = ISFIXEDBLK s p" for p
  proof (cases "fixedmblk (mh s) = 0")
    case False
    then obtain m where "(fixedmblk (mh s), m, False) \<in> set B" using h(2) by (auto simp: pool_ok_def Let_def)
    from b4 [OF this] show ?thesis by (simp add: ISFIXEDBLK_def m4(3))
  qed (simp add: ISFIXEDBLK_def m4(3))
  then have s': "s' = tlf_free (addr + 16) s4"
    using area_not_fixed [OF assms(1,5,7) far] by (simp add: s'_def k_mm_free_def buffer_def MMLIST_HEAD_SIZE_def add.commute)
  have "fst x \<noteq> addr" if "x \<in> set B" for x using fst_out [OF that] assms(5) by auto
  then have "heap_at (insert addr I) s' (B @ region_blocks addr len) fs A"
    using rf m4 by (intro heap_at_append [OF assms(1)]) (simp_all add: s' quiet_def)
  moreover have "regions s' (B @ region_blocks addr len) ((addr, len) # rs)"
  proof -
    have g: "mregs s' = (mregs s1)(addr + 8 := \<lparr>rg_end = addr + len - 8, rg_next = regioninfo (mh s1)\<rparr>)" "regioninfo (mh s') = addr + 8"
      using rf(2) by (simp_all add: s' quiet_def s4_def set_region_def buffer_def MMLIST_HEAD_SIZE_def add.commute)
    have "region_list s' (regioninfo (mh s1)) rs" using rl region_list_cong [of rs s' s1] ne g(1) by simp
    moreover have "unat (addr + 8) = unat addr + 8" using assms(5,7) by (subst unat_add_lem [THEN iffD1]) simp_all
    then have "addr + 8 \<noteq> 0" by auto
    ultimately show ?thesis using within_append [OF w(2) within_region [OF assms(5,7)]] g assms(7) by (simp add: regions_def)
  qed
  moreover have "mm_errs s' = mm_errs s" "fixedmblk (mh s') = fixedmblk (mh s)" using rf(2) na(9) m4(3) by (simp_all add: s' quiet_def s4_def set_region_def)
  ultimately show ?thesis using e by blast
qed

section \<open>Several areas\<close>

text \<open>What \<open>krhino_add_mm_region\<close> needs of an area.\<close>

fun good_area :: "u32 \<times> u32 \<Rightarrow> bool" where
  "good_area (a, l) \<longleftrightarrow> a \<noteq> 0 \<and> a AND 3 = 0 \<and> l AND 3 = 0 \<and> 40 \<le> unat l \<and> unat l \<le> 2 ^ 20 \<and> unat a + unat l < 2 ^ 32"

definition areas_blocks :: "(u32 \<times> u32) list \<Rightarrow> mmblk list" where
  "areas_blocks rs = concat (map (\<lambda>(a, l). region_blocks a l) rs)"

lemma separate_sym: "separate r q \<longleftrightarrow> separate q r"
  by (cases r; cases q) auto

lemma add_regions_heap:
  assumes "heap_at I s B fs A" "regions s B rs" "\<forall>r\<in>set qs. good_area r" "\<forall>r\<in>set qs. \<forall>q\<in>set rs. separate r q" "sorted_wrt separate qs" "length rs + length qs \<le> n"
  shows "\<exists>s'. add_regions n True qs s = Some s' \<and> heap_at (I \<union> fst ` set qs) s' (B @ areas_blocks qs) fs A \<and> mm_errs s' = mm_errs s
    \<and> fixedmblk (mh s') = fixedmblk (mh s)"
  using assms
proof (induction qs arbitrary: I s B rs)
  case Nil
  then show ?case by (simp add: areas_blocks_def)
next
  case (Cons r qs)
  obtain a l where r: "r = (a, l)" by fastforce
  have g: "a \<noteq> 0" "a AND 3 = 0" "l AND 3 = 0" "40 \<le> unat l" "unat l \<le> 2 ^ 20" "unat a + unat l < 2 ^ 32" using Cons.prems(3) by (auto simp: r)
  have sp: "separate (a, l) q" if "q \<in> set rs" for q using Cons.prems(4) that by (simp add: r del: separate.simps)
  have "length rs \<le> n" using Cons.prems(6) by simp
  from add_region_heap [OF Cons.prems(1) g Cons.prems(2) sp this]
  obtain s1 where s1: "krhino_add_mm_region n True a l s = Some (s1, RHINO_SUCCESS)" "heap_at (insert a I) s1 (B @ region_blocks a l) fs A"
    "mm_errs s1 = mm_errs s" "fixedmblk (mh s1) = fixedmblk (mh s)" "regions s1 (B @ region_blocks a l) ((a, l) # rs)" by blast
  have "\<forall>x\<in>set qs. \<forall>q\<in>set ((a, l) # rs). separate x q" using Cons.prems(4,5) separate_sym by (auto simp: r simp del: separate.simps)
  then obtain s2 where "add_regions n True qs s1 = Some s2" "heap_at (insert a I \<union> fst ` set qs) s2 ((B @ region_blocks a l) @ areas_blocks qs) fs A" "mm_errs s2 = mm_errs s1"
    "fixedmblk (mh s2) = fixedmblk (mh s1)" using Cons.IH [OF s1(2,5)] Cons.prems(3,5,6) by auto
  then show ?case using s1(1,3,4) by (simp add: r areas_blocks_def)
qed

text \<open>The start of the heap: the first area holds the head, the others only blocks.\<close>

lemma mm_init_heap:
  assumes "addr \<noteq> 0" "a = MM_ALIGN_UP addr" "l = MM_ALIGN_DOWN (len - (a - addr))" "5120 \<le> unat l" "unat l \<le> 2 ^ 20" "unat a + unat l + 32 < 2 ^ 32"
    and qs: "\<forall>r\<in>set qs. good_area r" "\<forall>r\<in>set qs. separate r (a, l)" "sorted_wrt separate qs" "length qs < n"
  shows "\<exists>s' I B fs. k_mm_init n (addr, len) qs s = Some (s', True) \<and> heap_at I s' B fs Map.empty \<and> mm_errs s' = mm_errs s
    \<and> (\<forall>(b, k)\<in>set qs. (b + 16, k - 32, True) \<in> set B) \<and> (\<exists>b m. (b, m, True) \<in> set B \<and> unat l \<le> unat m + 6120)
    \<and> (fixedmblk (mh s') \<noteq> 0 \<longleftrightarrow> 6208 \<le> unat l)"
proof -
  obtain s1 I B fs b m where i: "krhino_init_mm_head True addr len s = Some (s1, RHINO_SUCCESS)" "heap_at I s1 B fs Map.empty" "mm_errs s1 = mm_errs s"
    "(b, m, True) \<in> set B" "unat l \<le> unat m + 6120" "regions s1 B [(a + 1952, l - 1952)]" "fixedmblk (mh s1) \<noteq> 0 \<longleftrightarrow> 6208 \<le> unat l"
    using init_heap [OF assms(1-6), of s] by blast
  have u: "unat (a + 1952) = unat a + 1952" "unat (l - 1952) = unat l - 1952" using assms(4,6) by (simp_all add: unat_sub word_le_nat_alt unat_word_ariths)
  have "separate r (a + 1952, l - 1952)" if "r \<in> set qs" for r
    using bspec [OF qs(2) that] u assms(4) by (cases r) auto
  then obtain s2 where "add_regions n True qs s1 = Some s2" "heap_at (I \<union> fst ` set qs) s2 (B @ areas_blocks qs) fs Map.empty" "mm_errs s2 = mm_errs s1" "fixedmblk (mh s2) = fixedmblk (mh s1)"
    using add_regions_heap [OF i(2,6) qs(1) _ qs(3), of n] qs(4) by auto
  moreover have "(c + 16, k - 32, True) \<in> set (areas_blocks qs)" if "(c, k) \<in> set qs" for c k
    using that by (auto simp: areas_blocks_def region_blocks_def intro!: bexI [of _ "(c, k)"])
  ultimately show ?thesis using i(1,3-5,7)
    by (intro exI [of _ s2] exI [of _ "I \<union> fst ` set qs"] exI [of _ "B @ areas_blocks qs"] exI [of _ fs]) (auto simp: k_mm_init_def)
qed

end
