(* ===== verification/Mm_Run.thy ===== *)
theory Mm_Run
  imports Mm_Region Steps
begin

unbundle bit_operations_syntax

text \<open>
  The heap in use: any sequence of allocations, resizings and releases of pointers that are in use, and writes of the owners into their blocks, after an initialisation.
\<close>

section \<open>The transition system\<close>

text \<open>A state is the heap with the map of the pointers in use. A request is at most \<open>2 ^ 31 - 3\<close> bytes.\<close>

inductive mm_step :: "mmsys \<times> (u32 \<rightharpoonup> u32) \<Rightarrow> mmsys \<times> (u32 \<rightharpoonup> u32) \<Rightarrow> bool" where
  mm_alloc: "\<lbrakk>unat n + 3 \<le> 2 ^ 31; krhino_mm_alloc_heap True n s = (s', p)\<rbrakk> \<Longrightarrow> mm_step (s, A) (s', if p = 0 then A else A(p \<mapsto> n))"
| mm_free: "p = 0 \<or> p \<in> dom A \<Longrightarrow> mm_step (s, A) (krhino_mm_free_heap True p s, A(p := None))"
| mm_realloc: "\<lbrakk>p = 0 \<or> p \<in> dom A; unat k + 3 \<le> 2 ^ 31; krhino_mm_realloc_heap True p k s = (s', p')\<rbrakk>
    \<Longrightarrow> mm_step (s, A) (s', if p' \<noteq> 0 then (A(p := None))(p' \<mapsto> k) else if k = 0 then A(p := None) else A)"
| mm_write: "\<lbrakk>A p = Some n; unat i < unat n\<rbrakk> \<Longrightarrow> mm_step (s, A) (s\<lparr>mbytes := (mbytes s)(p + i := v)\<rparr>, A)"

definition mm_inv :: "mmsys \<times> (u32 \<rightharpoonup> u32) \<Rightarrow> bool" where
  "mm_inv st \<longleftrightarrow> (\<exists>I. heap_inv I (fst st) (snd st)) \<and> mm_errs (fst st) = []"

lemma heap_at_bytes: "heap_at I (s\<lparr>mbytes := f\<rparr>) B fs A = heap_at I s B fs A"
  by (simp add: heap_at_def pool_ok_def live_def small_def)

lemma heap_at_null: "heap_at I s B fs A \<Longrightarrow> A 0 = None"
  using live_fixed(2) heap_atD(4) by (metis not_Some_eq)

lemma need_le: "unat n + 3 \<le> 2 ^ 31 \<Longrightarrow> need (unat n) \<le> 2 ^ 31"
  using need_bounds(2) [of "unat n"] by simp

lemma mm_alloc_inv:
  assumes "heap_at I s B fs A" "unat n + 3 \<le> 2 ^ 31" "k_mm_alloc True n s = (s', p)"
  shows "heap_inv I s' (if p = 0 then A else A(p \<mapsto> n))" "mm_errs s' = mm_errs s"
proof -
  have "heap_inv I s' (if p = 0 then A else A(p \<mapsto> n)) \<and> mm_errs s' = mm_errs s"
  proof (cases "n = 0")
    case True
    then show ?thesis using assms(1,3) by (auto simp: k_mm_alloc_def heap_inv_def)
  next
    case False
    from alloc_heap [OF assms(1) need_le [OF assms(2)] False assms(3)] show ?thesis using assms(1) unfolding heap_inv_def by auto
  qed
  then show "heap_inv I s' (if p = 0 then A else A(p \<mapsto> n))" "mm_errs s' = mm_errs s" by simp_all
qed

lemma mm_free_inv:
  assumes "heap_at I s B fs A" "p = 0 \<or> p \<in> dom A"
  shows "heap_inv I (k_mm_free True p s) (A(p := None))" "mm_errs (k_mm_free True p s) = mm_errs s"
proof -
  have "heap_inv I (k_mm_free True p s) (A(p := None)) \<and> mm_errs (k_mm_free True p s) = mm_errs s"
  proof (cases "p = 0")
    case True
    then show ?thesis using assms(1) heap_at_null [OF assms(1)] by (auto simp: k_mm_free_def heap_inv_def fun_upd_idem)
  next
    case False
    then obtain n where "A p = Some n" using assms(2) by blast
    then show ?thesis using free_heap(1,3) [OF assms(1)] unfolding heap_inv_def by blast
  qed
  then show "heap_inv I (k_mm_free True p s) (A(p := None))" "mm_errs (k_mm_free True p s) = mm_errs s" by simp_all
qed

lemma realloc_heap:
  assumes "heap_at I s B fs A" "A p = Some n" "k \<noteq> 0" "unat k + 3 \<le> 2 ^ 31" "k_mm_realloc True p k s = (s', p')"
  shows "p' = 0 \<and> s' = s \<or> p' \<noteq> 0 \<and> (p' = p \<or> A p' = None) \<and> mm_errs s' = mm_errs s \<and> kept A p n p' k s s'
    \<and> heap_inv I s' ((A(p := None))(p' \<mapsto> k))"
proof (cases "small s p")
  case True
  from realloc_small [OF assms(1,2) True assms(3) need_le [OF assms(4)] assms(5)] show ?thesis by (simp add: heap_inv_def)
next
  case False
  from realloc_big [OF assms(1,2) False assms(3-5)] show ?thesis by (simp add: heap_inv_def)
qed

lemma mm_realloc_inv:
  assumes "heap_at I s B fs A" "p = 0 \<or> p \<in> dom A" "unat k + 3 \<le> 2 ^ 31" "k_mm_realloc True p k s = (s', p')"
  shows "heap_inv I s' (if p' \<noteq> 0 then (A(p := None))(p' \<mapsto> k) else if k = 0 then A(p := None) else A) \<and> mm_errs s' = mm_errs s"
proof -
  consider (null) "p = 0" | (zero) "p \<noteq> 0" "k = 0" | (big) n where "A p = Some n" "k \<noteq> 0" "p \<noteq> 0" using assms(2) by blast
  then show ?thesis
  proof cases
    case null
    have e: "A(p := None) = A" using null heap_at_null [OF assms(1)] by (simp add: fun_upd_idem)
    have "heap_inv I s A" using assms(1) heap_inv_def by blast
    then show ?thesis using mm_alloc_inv [OF assms(1,3), of s' p'] assms(4) null unfolding e by (cases "k = 0") (auto simp: k_mm_realloc_def)
  next
    case zero
    then show ?thesis using mm_free_inv [OF assms(1,2)] assms(4) by (simp add: k_mm_realloc_def)
  next
    case (big n)
    from realloc_heap [OF assms(1) big(1,2) assms(3,4)] show ?thesis using assms(1) big(2) by (auto simp: heap_inv_def)
  qed
qed

lemma mm_step_inv: "mm_step st st' \<Longrightarrow> mm_inv st \<Longrightarrow> mm_inv st'"
proof (induction rule: mm_step.induct)
  case (mm_alloc n s s' p A)
  then obtain I B fs where h: "heap_at I s B fs A" "mm_errs s = []" by (auto simp: mm_inv_def heap_inv_def)
  have "k_mm_alloc True n s = (s', p)" using mm_alloc(2) by (auto simp: krhino_mm_alloc_heap_def k_mm_alloc_def split: if_splits)
  then show ?case using mm_alloc_inv [OF h(1) mm_alloc(1)] h(2) unfolding mm_inv_def by auto
next
  case (mm_free p A s)
  then obtain I B fs where h: "heap_at I s B fs A" "mm_errs s = []" by (auto simp: mm_inv_def heap_inv_def)
  then show ?case using mm_free_inv [OF h(1) mm_free(1)] unfolding mm_inv_def by (auto simp: krhino_mm_free_heap_def)
next
  case (mm_realloc p A k s s' p')
  then obtain I B fs where h: "heap_at I s B fs A" "mm_errs s = []" by (auto simp: mm_inv_def heap_inv_def)
  then show ?case using mm_realloc_inv [OF h(1) mm_realloc(1,2)] mm_realloc(3) unfolding mm_inv_def krhino_mm_realloc_heap_def by fastforce
next
  case (mm_write A p n i s v)
  then show ?case by (simp add: mm_inv_def heap_inv_def heap_at_bytes)
qed

text \<open>A heap of 64 KiB in blank memory.\<close>

definition blank_mm :: mmsys where
  "blank_mm = \<lparr>mh = zero_head, mblks = (\<lambda>_. \<lparr>mm_prev = 0, mm_size = 0, free_prev = 0, free_next = 0\<rparr>), mregs = (\<lambda>_. \<lparr>rg_end = 0, rg_next = 0\<rparr>),
     mpool = no_pools, mbytes = (\<lambda>_. 0), mm_errs = []\<rparr>"

definition mm_boot :: mmsys where
  "mm_boot = fst (the (krhino_init_mm_head True 0x20000000 0x10000 blank_mm))"

lemma mm_boot_heap:
  "\<exists>I B fs b m. krhino_init_mm_head True 0x20000000 0x10000 blank_mm = Some (mm_boot, RHINO_SUCCESS) \<and> heap_at I mm_boot B fs Map.empty
    \<and> (b, m, True) \<in> set B \<and> 59416 \<le> unat m \<and> mm_errs mm_boot = []"
proof -
  have e: "MM_ALIGN_UP (0x20000000 :: u32) = 0x20000000" "MM_ALIGN_DOWN (0x10000 :: u32) = 0x10000" by (simp_all add: MM_ALIGN_UP_def MM_ALIGN_DOWN_def)
  obtain s' I B fs b m where "krhino_init_mm_head True 0x20000000 0x10000 blank_mm = Some (s', RHINO_SUCCESS)" "heap_at I s' B fs Map.empty"
    "(b, m, True) \<in> set B" "65536 \<le> unat m + 6120" "mm_errs s' = mm_errs blank_mm"
    using init_heap [of "0x20000000" "0x20000000" "0x10000" "0x10000" blank_mm] e by auto
  then show ?thesis by (simp add: mm_boot_def) (auto simp: blank_mm_def)
qed

interpretation heap: invariant_system mm_step "(mm_boot, Map.empty)" mm_inv
proof
  show "mm_inv (mm_boot, Map.empty)" using mm_boot_heap by (auto simp: mm_inv_def heap_inv_def)
qed (rule mm_step_inv)

text \<open>The first requests to this heap.\<close>

lemma boot_alloc:
  assumes "n \<noteq> 0" "unat n \<le> 1000"
  obtains I s p where "heap_inv I s [p \<mapsto> n]" "krhino_mm_alloc_heap True n mm_boot = (s, p)" "p \<noteq> 0"
proof -
  obtain I B fs b m where h: "heap_at I mm_boot B fs Map.empty" "(b, m, True) \<in> set B" "59416 \<le> unat m" using mm_boot_heap by blast
  have n: "need (unat n) \<le> 1003" using need_bounds(2) [of "unat n"] assms(2) by simp
  have "rounded (need (unat n)) \<le> unat m" using rounded_le [of "need (unat n)"] n h(3) by linarith
  then have le: "le2 (cls (rounded (need (unat n)))) (cls (unat m))" by (rule cls_mono)
  obtain s p where a: "k_mm_alloc True n mm_boot = (s, p)" by fastforce
  have "p \<noteq> 0 \<and> heap_inv I s [p \<mapsto> n]" using alloc_heap [OF h(1) _ assms(1) a] n h(2) le by (auto simp: heap_inv_def)
  then show thesis using that [of I s p] a assms(1) by (simp add: krhino_mm_alloc_heap_def)
qed

text \<open>An initialisation that reports success has checked the length, and what it leaves behind is a heap without users.\<close>

lemma init_success:
  assumes "krhino_init_mm_head True addr len s = Some (s', RHINO_SUCCESS)" "l = MM_ALIGN_DOWN (len - (MM_ALIGN_UP addr - addr))"
    "unat (MM_ALIGN_UP addr) + unat l + 32 < 2 ^ 32"
  shows "5120 \<le> unat l" "unat l \<le> 2 ^ 20" "\<exists>I B fs b m. heap_at I s' B fs Map.empty \<and> (b, m, True) \<in> set B \<and> unat l \<le> unat m + 6120"
    "fixedmblk (mh s') \<noteq> 0 \<longleftrightarrow> 6208 \<le> unat l" "mm_errs s' = mm_errs s"
proof -
  have a: "addr \<noteq> 0" and g: "\<not> l < MIN_FREE_MEMORY_SIZE + RHINO_CONFIG_MM_TLF_BLK_SIZE" "\<not> MAX_MM_SIZE < l"
    using assms(1) unfolding krhino_init_mm_head_def Let_def assms(2) [symmetric] by (auto split: if_splits)
  then show l: "5120 \<le> unat l" "unat l \<le> 2 ^ 20"
    by (simp_all add: MIN_FREE_MEMORY_SIZE_def RHINO_CONFIG_MM_TLF_BLK_SIZE_def MAX_MM_SIZE_def MAX_MM_BIT_def word_less_nat_alt)
  from init_heap [OF a refl assms(2) l assms(3), of s]
  show "\<exists>I B fs b m. heap_at I s' B fs Map.empty \<and> (b, m, True) \<in> set B \<and> unat l \<le> unat m + 6120"
    "fixedmblk (mh s') \<noteq> 0 \<longleftrightarrow> 6208 \<le> unat l" "mm_errs s' = mm_errs s" using assms(1) by auto
qed

section \<open>Properties\<close>

text \<open>
  C24: After a successful initialisation and any sequence of calls and writes, the blocks in use start at multiples of 4 and lie inside the address space, no two of them share a byte, and no
  error has been reported.
\<close>

theorem mm_blocks_disjoint:
  assumes "krhino_init_mm_head True addr len s0 = Some (s1, RHINO_SUCCESS)" "mm_errs s0 = []"
    "unat (MM_ALIGN_UP addr) + unat (MM_ALIGN_DOWN (len - (MM_ALIGN_UP addr - addr))) + 32 < 2 ^ 32" "mm_step\<^sup>*\<^sup>* (s1, Map.empty) (s, A)"
  shows "mm_errs s = [] \<and> (\<forall>p n. A p = Some n \<longrightarrow> p \<noteq> 0 \<and> p AND 3 = 0 \<and> unat p + unat n < 2 ^ 32)
    \<and> (\<forall>p n q k. A p = Some n \<and> A q = Some k \<and> p \<noteq> q \<longrightarrow> unat p + unat n \<le> unat q \<or> unat q + unat k \<le> unat p)"
proof -
  have "mm_inv (s1, Map.empty)" using init_success(3,5) [OF assms(1) refl assms(3)] assms(2) by (auto simp: mm_inv_def heap_inv_def)
  then have "mm_inv (s, A)" using heap.inv_run assms(4) by blast
  then obtain I B fs where h: "heap_at I s B fs A" "mm_errs s = []" by (auto simp: mm_inv_def heap_inv_def)
  note l = heap_atD(4) [OF h(1)]
  show ?thesis using h(2) live_fixed(2-4) [OF h(1) l] live_disjoint [OF h(1) l l] by blast
qed

theorem mm_blocks_disjoint_witness:
  "\<exists>s p. mm_step (mm_boot, Map.empty) (s, [p \<mapsto> 100]) \<and> p \<noteq> 0 \<and> p AND 3 = 0 \<and> unat p + 100 < 2 ^ 32"
proof -
  obtain I s p where a: "krhino_mm_alloc_heap True 100 mm_boot = (s, p)" "p \<noteq> 0" by (rule boot_alloc [of 100]) simp_all
  have st: "mm_step (mm_boot, Map.empty) (s, [p \<mapsto> 100])" using mm_alloc [of 100 mm_boot s p Map.empty] a by simp
  have "krhino_init_mm_head True 0x20000000 0x10000 blank_mm = Some (mm_boot, RHINO_SUCCESS)" "mm_errs blank_mm = []"
    using mm_boot_heap by (auto simp: blank_mm_def)
  note d = mm_blocks_disjoint [OF this _ r_into_rtranclp [where r = mm_step, OF st]]
  have "p AND 3 = 0" "unat p + unat (100 :: u32) < 2 ^ 32"
    using d [THEN conjunct2, THEN conjunct1, rule_format, of p 100] by (simp_all add: MM_ALIGN_UP_def MM_ALIGN_DOWN_def)
  then show ?thesis using st a(2) by auto
qed

text \<open>
  C25: A request is met whenever one free block has the needed size and a thirty-second part of it more: the search through the classes does not miss it. The new pointer was not in use.
\<close>

theorem mm_alloc_complete:
  assumes "heap_at I s B fs A" "(b, m, True) \<in> set B" "n \<noteq> 0" "need (unat n) + need (unat n) div 32 \<le> unat m"
  shows "\<exists>s' p. krhino_mm_alloc_heap True n s = (s', p) \<and> p \<noteq> 0 \<and> A p = None \<and> heap_inv I s' (A(p \<mapsto> n))"
proof -
  have "unat m < 2 ^ 20" using seg_fits [of "mblks s" None B None b m True] heap_atD(1) [OF assms(1)] assms(2) by (simp add: mm_ok_def)
  then have n: "need (unat n) \<le> 2 ^ 31" using assms(4) by simp
  have "rounded (need (unat n)) \<le> unat m" using rounded_le [of "need (unat n)"] assms(4) by linarith
  then have le: "le2 (cls (rounded (need (unat n)))) (cls (unat m))" by (rule cls_mono)
  obtain s' p where a: "k_mm_alloc True n s = (s', p)" by fastforce
  have "p \<noteq> 0 \<and> A p = None \<and> heap_inv I s' (A(p \<mapsto> n))"
    using alloc_heap [OF assms(1) n assms(3) a] assms(2) le by (auto simp: heap_inv_def)
  then show ?thesis using a assms(3) by (simp add: krhino_mm_alloc_heap_def)
qed

theorem mm_alloc_complete_witness:
  "\<exists>s p. krhino_mm_alloc_heap True 50000 mm_boot = (s, p) \<and> p \<noteq> 0"
proof -
  obtain I B fs b m where h: "heap_at I mm_boot B fs Map.empty" "(b, m, True) \<in> set B" "59416 \<le> unat m" using mm_boot_heap by blast
  have "need (unat (50000 :: u32)) + need (unat (50000 :: u32)) div 32 \<le> unat m" using h(3) by (simp add: need_def)
  from mm_alloc_complete [OF h(1,2) _ this] show ?thesis by auto
qed

text \<open>
  C26: Resizing a block in use either fails and changes nothing, or returns a block of the new size that holds the old contents, up to the smaller of the two sizes; it is the old block or one that was
  not in use, and the contents of all other blocks are what they were.
\<close>

theorem mm_realloc_keeps:
  assumes "heap_inv I s A" "A p = Some n" "k \<noteq> 0" "unat k + 3 \<le> 2 ^ 31" "krhino_mm_realloc_heap True p k s = (s', p')"
  shows "p' = 0 \<and> s' = s
    \<or> p' \<noteq> 0 \<and> (p' = p \<or> A p' = None) \<and> heap_inv I s' ((A(p := None))(p' \<mapsto> k))
      \<and> (\<forall>i. unat i < unat n \<and> unat i < unat k \<longrightarrow> mbytes s' (p' + i) = mbytes s (p + i))
      \<and> (\<forall>q j i. q \<noteq> p \<and> A q = Some j \<and> unat i < unat j \<longrightarrow> mbytes s' (q + i) = mbytes s (q + i))"
proof -
  obtain B fs where h: "heap_at I s B fs A" using assms(1) by (auto simp: heap_inv_def)
  from realloc_heap [OF h assms(2-4)] assms(5) show ?thesis by (auto simp: krhino_mm_realloc_heap_def kept_def)
qed

theorem mm_realloc_keeps_witness:
  "\<exists>s p. krhino_mm_alloc_heap True 100 mm_boot = (s, p) \<and> p \<noteq> 0
    \<and> (case krhino_mm_realloc_heap True p 200 s of (s', p') \<Rightarrow> p' = 0 \<and> s' = s \<or> p' \<noteq> 0 \<and> (\<forall>i. unat i < 100 \<longrightarrow> mbytes s' (p' + i) = mbytes s (p + i)))"
proof -
  obtain I s p where a: "heap_inv I s [p \<mapsto> 100]" "krhino_mm_alloc_heap True 100 mm_boot = (s, p)" "p \<noteq> 0" by (rule boot_alloc [of 100]) simp_all
  obtain s' p' where r: "krhino_mm_realloc_heap True p 200 s = (s', p')" by fastforce
  from mm_realloc_keeps [OF a(1) _ _ _ r, of 100] show ?thesis using a(2,3) r by auto
qed

lemma free_neighbours:
  assumes "mm_ok s (xs @ (b, m, True) # ys)"
  shows "\<not> (xs \<noteq> [] \<and> snd (snd (last xs)))" "\<exists>c k zs. ys = (c, k, False) # zs"
proof -
  have "size_ok m" by (rule mm_take(2) [OF assms surjective_pairing])
  then have m: "m \<noteq> 0" by (auto simp: size_ok_def)
  obtain st pf pa r c k g zs where q: "ys = (c, k, g) # zs" "win (mblks s) xs [(b, m, True)] (c, k, g) zs st b pf pa r True b" "pf \<longrightarrow> mm_prev (mblks s b) = pa \<and> \<not> True"
    using mm_cut [OF assms m] by metis
  show "\<not> (xs \<noteq> [] \<and> snd (snd (last xs)))" using last_free [OF winD(1,6) [OF q(2)]] q(3) by simp
  show "\<exists>c k zs. ys = (c, k, False) # zs" using winD(11) [OF q(2)] q(1) by simp
qed

text \<open>
  C28: Freeing what has just been allocated restores the blocks: the list of blocks, with their addresses, sizes and states, is the one from before the allocation.
\<close>

theorem mm_alloc_free_roundtrip:
  assumes "mm_ok s B" "unat n + 3 \<le> 2 ^ 31" "tlf_alloc n s = (s', p)" "p \<noteq> 0"
  shows "mm_ok (tlf_free (p - MMLIST_HEAD_SIZE) s') B"
proof -
  from tlf_alloc_spec [OF assms(1) need_le [OF assms(2)] assms(3)] assms(4)
  obtain xs b m ys where q: "B = xs @ (b, m, True) # ys" "p = b + 8" "need (unat n) \<le> unat m" "mm_ok s' (xs @ carve b m (alloc_size n) @ ys)" by blast
  have lt: "unat n + 3 < 2 ^ 32" using assms(2) by simp
  have nz: "alloc_size n \<noteq> 0" "m \<noteq> 0" using need_bounds(3) [of "unat n"] q(3) alloc_size_spec(1) [OF lt] by auto
  note nb = free_neighbours [OF assms(1) [unfolded q(1)]]
  have "mm_ok (tlf_free b s') B"
  proof (cases "unat m < unat (alloc_size n) + 16")
    case True
    then have "coalesce xs b m ys = B" using nb by (auto simp: coalesce_def join_right_def q(1))
    then show ?thesis using tlf_free_ok(1) [of s' xs b m ys] q(4) nz True by (simp add: carve_def)
  next
    case False
    then have "coalesce xs b (alloc_size n) ((b + 8 + alloc_size n, m - alloc_size n - 8, True) # ys) = B"
      using nb by (auto simp: coalesce_def join_right_def q(1))
    then show ?thesis using tlf_free_ok(1) [of s' xs b "alloc_size n" "(b + 8 + alloc_size n, m - alloc_size n - 8, True) # ys"] q(4) nz False by (simp add: carve_def)
  qed
  then show ?thesis by (simp add: q(2) MMLIST_HEAD_SIZE_def)
qed

theorem mm_alloc_free_roundtrip_witness:
  "\<exists>B s p. mm_ok mm_boot B \<and> tlf_alloc 1000 mm_boot = (s, p) \<and> p \<noteq> 0 \<and> mm_ok (tlf_free (p - MMLIST_HEAD_SIZE) s) B"
proof -
  obtain I B fs b m where h: "heap_at I mm_boot B fs Map.empty" "(b, m, True) \<in> set B" "59416 \<le> unat m" using mm_boot_heap by blast
  obtain s p where a: "tlf_alloc 1000 mm_boot = (s, p)" by fastforce
  have n: "need 1000 = 1000" by (simp add: need_def)
  have "rounded (need 1000) \<le> unat m" using rounded_le [of 1000] h(3) n by simp
  then have "le2 (cls (rounded (need 1000))) (cls (unat m))" by (rule cls_mono)
  then have "p \<noteq> 0" using tlf_alloc_heap [OF h(1) _ a] h(2) n by auto
  then show ?thesis using mm_alloc_free_roundtrip [OF heap_atD(1) [OF h(1)] _ a] heap_atD(1) [OF h(1)] a by auto
qed

text \<open>When nothing is in use, all 128 blocks of the pool are free, or there is no pool.\<close>

lemma unused_pool:
  assumes "heap_at I s B fs Map.empty"
  shows "fixedmblk (mh s) \<noteq> 0 \<Longrightarrow> set fs = set (pool_blocks (fixedmblk (mh s)))" "fixedmblk (mh s) = 0 \<Longrightarrow> fs = []"
proof -
  note p = heap_atD(2) [OF assms] and f = heap_atD(5) [OF assms]
  show "set fs = set (pool_blocks (fixedmblk (mh s)))" if "fixedmblk (mh s) \<noteq> 0"
    using that p f by (auto simp: pool_ok_def Let_def small_def)
  show "fs = []" if "fixedmblk (mh s) = 0" using that p by (simp add: pool_ok_def)
qed

text \<open>
  C27: The start of the heap over several areas, under these conditions: after the rounding to multiples of 4 the first area has from 5120 bytes up to 1 MiB and ends at least 32 bytes below the end of the
  address space; every other area is aligned, with a length from 40 bytes up to 1 MiB; and at least one byte lies between any two areas, so that no two of them are joined. Then the start succeeds without
  an error: the heap has no users, the first area gives one free block of its length less at most 6120 bytes, and every other area one free block of its length less 32 bytes.
  The pool for small requests is there, with all its 128 blocks of 32 bytes free, when the first area has 6208 bytes or more. From 5120 to 6207 bytes the start
  succeeds too, but without a pool, although the comment above the check of the length (\<open>k_mm.c\<close>, lines 162 to 165) demands the room for the pool and 1 KiB for the user.
\<close>

theorem mm_init_regions:
  assumes "addr \<noteq> 0" "a = MM_ALIGN_UP addr" "l = MM_ALIGN_DOWN (len - (a - addr))" "5120 \<le> unat l" "unat l \<le> 2 ^ 20" "unat a + unat l + 32 < 2 ^ 32"
    and "\<forall>r\<in>set qs. good_area r" "\<forall>r\<in>set qs. separate r (a, l)" "sorted_wrt separate qs" "length qs < n"
  shows "\<exists>s' I B fs. k_mm_init n (addr, len) qs s = Some (s', True) \<and> heap_at I s' B fs Map.empty \<and> mm_errs s' = mm_errs s
    \<and> (\<forall>(b, k)\<in>set qs. (b + 16, k - 32, True) \<in> set B) \<and> (\<exists>b m. (b, m, True) \<in> set B \<and> unat l \<le> unat m + 6120)
    \<and> (if 6208 \<le> unat l then fixedmblk (mh s') \<noteq> 0 \<and> set fs = set (pool_blocks (fixedmblk (mh s'))) else fixedmblk (mh s') = 0 \<and> fs = [])"
proof -
  from mm_init_heap [OF assms, of s] obtain s' I B fs where h: "k_mm_init n (addr, len) qs s = Some (s', True)" "heap_at I s' B fs Map.empty" "mm_errs s' = mm_errs s"
    "\<forall>(b, k)\<in>set qs. (b + 16, k - 32, True) \<in> set B" "\<exists>b m. (b, m, True) \<in> set B \<and> unat l \<le> unat m + 6120" "fixedmblk (mh s') \<noteq> 0 \<longleftrightarrow> 6208 \<le> unat l" by blast
  have "if 6208 \<le> unat l then fixedmblk (mh s') \<noteq> 0 \<and> set fs = set (pool_blocks (fixedmblk (mh s'))) else fixedmblk (mh s') = 0 \<and> fs = []"
    using unused_pool [OF h(2)] h(6) by auto
  with h(1-5) show ?thesis by blast
qed

text \<open>Three areas with a pool, and one area that is too short for it.\<close>

theorem mm_init_regions_witness:
  "(\<exists>s' I B fs. k_mm_init 3 (0x20000000, 0x10000) [(0x20020000, 0x8000), (0x20030000, 64)] blank_mm = Some (s', True) \<and> heap_at I s' B fs Map.empty
    \<and> (0x20020010, 0x7FE0, True) \<in> set B \<and> (0x20030010, 32, True) \<in> set B \<and> fixedmblk (mh s') \<noteq> 0 \<and> set fs = set (pool_blocks (fixedmblk (mh s'))))
   \<and> (\<exists>s' I B. k_mm_init 1 (0x20000000, 0x1800) [] blank_mm = Some (s', True) \<and> heap_at I s' B [] Map.empty \<and> fixedmblk (mh s') = 0)"
proof -
  have m: "MM_ALIGN_UP (0x20000000 :: u32) = 0x20000000" "MM_ALIGN_DOWN (0x10000 :: u32) = 0x10000" "MM_ALIGN_DOWN (0x1800 :: u32) = 0x1800"
    by (simp_all add: MM_ALIGN_UP_def MM_ALIGN_DOWN_def)
  obtain s' I B fs where a: "k_mm_init 3 (0x20000000, 0x10000) [(0x20020000, 0x8000), (0x20030000, 64)] blank_mm = Some (s', True)" "heap_at I s' B fs Map.empty"
    "\<forall>(b, k)\<in>set [(0x20020000, 0x8000), (0x20030000, 64)]. (b + 16, k - 32, True) \<in> set B" "fixedmblk (mh s') \<noteq> 0" "set fs = set (pool_blocks (fixedmblk (mh s')))"
    using mm_init_regions [of "0x20000000" "0x20000000" "0x10000" "0x10000" "[(0x20020000, 0x8000), (0x20030000, 64)]" 3 blank_mm] m by auto
  then have "(0x20020010, 0x7FE0, True) \<in> set B" "(0x20030010, 32, True) \<in> set B" by simp_all
  note big = a(1,2) this a(4,5)
  have "\<exists>s' I B. k_mm_init 1 (0x20000000, 0x1800) [] blank_mm = Some (s', True) \<and> heap_at I s' B [] Map.empty \<and> fixedmblk (mh s') = 0"
    using mm_init_regions [of "0x20000000" "0x20000000" "0x1800" "0x1800" "[]" 1 blank_mm] m by auto
  then show ?thesis by (rule conjI [rotated]) (intro exI conjI, (rule big)+)
qed

text \<open>A request of nearly the whole address space is rounded up to 0, and then to the least size: the caller gets a block of 8 bytes.\<close>

lemma alloc_size_wraps: "alloc_size 0xFFFFFFFF = 8" "alloc_size 0xFFFFFFFD = 8"
  by (simp_all add: alloc_size_def MM_ALIGN_UP_def AOS_MM_TLF_ALLOC_MIN_LENGTH_def)

text \<open>The same rounding in \<open>k_mm_realloc\<close> makes the new size 0, which fits into every block.\<close>

lemma realloc_size_wraps: "realloc_size 0xFFFFFFFF = 0" "realloc_size 0xFFFFFFFD = 0"
  by (simp_all add: realloc_size_def MM_ALIGN_UP_def sizeof_mm_list_def)

text \<open>The sum of the search wraps around: a request of nearly 4 GiB is looked for among the blocks of less than 300 bytes.\<close>

lemma bitmap_search_wraps: "bitmap_search 0xFC000104 ACTION_GET = (2, 0, RHINO_SUCCESS)"
proof -
  have "lg2 4227858692 = 31" "lg2 259 = 8" by (intro lg2_unique; simp)+
  then have "top_bit 0xFC000104 = 31" "top_bit 259 = 8" using top_bit_spec(1) [of "0xFC000104"] top_bit_spec(1) [of 259] by simp_all
  moreover have e: "(4294967555 :: u32) = 259" by simp
  ultimately show ?thesis
    by (simp add: e bitmap_search_def Let_def min_flt_size MAX_LOG2_SLT_def MIN_FLT_BIT_def sizes_num word_le_nat_alt drop_bit_eq_div)
qed

end
