(* ===== verification/Spec2Isabelle.thy ===== *)
theory Spec2Isabelle
  imports Klist Kfifo Csi_Facts Workqueue Timer_Run Sdk_String Sleepdata Atomic Mm_Run Calls
begin

text \<open>
  The Rhino kernel of the TXW8301 SDK.

  The program. \<open>src/csky/csi_kernel/rhino\<close> is the real-time kernel on which the firmware of the SDK runs: tasks with
  fixed priorities on one processor, mutexes with priority inheritance, semaphores, events, two kinds of message
  queues, timeouts, and software timers. The state is a set of global variables (\<open>core/k_obj.c\<close>) and the control blocks of
  tasks and objects, joined by intrusive lists. An API function masks interrupts, changes the lists, and leaves the
  critical section with or without a call of the scheduler; a switch of tasks is an exception that is raised
  at once or stays pending while interrupts are masked. The development models the configuration of
  \<open>arch/include/k_config.h\<close> and \<open>csky/configs/csi_config.h\<close>: one processor, 62 priorities, 1000 ticks per second, 64-bit
  tick counters, dynamic objects, timers, no user hooks, no statistics. Around the kernel it models the CSI interface of the SDK, the
  work queues, and the small libraries for bytes, blocks, atomic operations, strings and deep-sleep data.

  The state. The record \<open>kstate\<close> (theory \<open>Kernel_State\<close>) has a field per global variable; the control blocks are functions
  from task and object identifiers (\<open>tid\<close>, \<open>oid\<close>, which stand for addresses) to records, so that sharing and reuse of memory
  are visible. Intrusive lists are lists of identifiers; theory \<open>Klist\<close> justifies this: it models the
  pointer operations of \<open>k_list.h\<close> on an explicit store and shows that they implement the list operations. Integers
  keep their width where arithmetic can wrap (counts, nesting levels, ticks, flags). A C function that returns a
  status is a function from arguments and state to state and status; \<open>None\<close> is the null pointer. A blocking call
  ends in \<open>Blocks\<close> when its task is switched out; what the call does after its task runs again is
  \<open>pend_return\<close>. Errors inside the kernel (\<open>k_err_proc\<close>, a null pointer, a loop that exceeds its bound) are recorded in
  \<open>k_faults\<close>.

  The theories, with the files they model under \<open>core/\<close> unless said otherwise:
  \<^item> \<open>Rhino_Prelude\<close>: shared lemmas and collections of facts, the interface of ordered insertion.
  \<^item> \<open>Klist\<close>: \<open>include/k_list.h\<close>. The ring of pointers refines the list.
  \<^item> \<open>Bitmap\<close>: \<open>include/k_bitmap.h\<close>, \<open>common/k_ffs.c\<close>. The first set bit is the least set bit.
  \<^item> \<open>Ringbuf\<close>: \<open>k_ringbuf.c\<close>. Both kinds of ring buffers are bounded queues of messages.
  \<^item> \<open>Kernel_Types\<close>, \<open>Kernel_State\<close>: types, configuration, the state, the processor (\<open>arch/csky/ck803/port_s.S\<close>).
  \<^item> \<open>Sched\<close>: \<open>k_sched.c\<close>, interrupt entry and exit of \<open>k_sys.c\<close>. The run queue and its invariant \<open>rq_inv\<close>.
  \<^item> \<open>Tick\<close>, \<open>Tick_Update\<close>: \<open>k_tick.c\<close>, \<open>k_time.c\<close>. The tick list, its invariant \<open>tick_inv\<close>, expiry.
  \<^item> \<open>Pend\<close>: \<open>k_pend.c\<close>. Wait lists, their invariant \<open>wait_inv\<close>, the interface \<open>wake_fun\<close> of the functions that wake a task.
  \<^item> \<open>Prio_Inherit\<close>, \<open>Mutex\<close>: \<open>k_mutex.c\<close>, \<open>task_pri_change\<close> of \<open>k_task.c\<close>. Priorities along chains of owners.
  \<^item> \<open>Kernel_Inv\<close>, \<open>Kobj\<close>: the invariant of the kernel, \<open>good\<close>, and how each kind of change keeps it.
  \<^item> \<open>Sem\<close>, \<open>Event\<close>, \<open>Queue\<close>, \<open>Buf_Queue\<close>: \<open>k_sem.c\<close>, \<open>k_task_sem.c\<close>, \<open>k_event.c\<close>, \<open>k_queue.c\<close>, \<open>k_buf_queue.c\<close>.
  \<^item> \<open>Task\<close>, \<open>Task_Del\<close>: \<open>k_task.c\<close>, \<open>k_dyn_mem_proc.c\<close>.
  \<^item> \<open>Irq\<close>, \<open>Boot\<close>: an interrupt, and the way from zeroed memory to the first task (\<open>k_sys.c\<close>, \<open>k_stats.c\<close>).
  \<^item> \<open>Steps\<close>: one rule per API function, interrupt, tick; the states that can be reached from boot.
  \<^item> \<open>Contracts\<close>, \<open>Calls\<close>: what the functions promise to their callers, branch by branch.
  \<^item> \<open>Ktime\<close>: the tick counter and the conversions of \<open>k_time.c\<close>.
  \<^item> \<open>Timer\<close>, \<open>Timer_Facts\<close>, \<open>Timer_Expiry\<close>: \<open>k_timer.c\<close>. Commands as the bytes of a message, the list of active timers with its
    invariant \<open>timer_inv\<close>, and the timer task as a function from the return of one receive to the next; callbacks are a parameter.
  \<^item> \<open>Timer_Run\<close>: the timer task as a transition system from boot, interleaved with ticks, kernel calls, commands and creations of timers.
  \<^item> \<open>Kfifo\<close>: \<open>common/k_fifo.c\<close>. The byte queue, with counters that wrap, is a bounded queue of bytes.
  \<^item> \<open>Mblk\<close>: \<open>k_mm_blk.c\<close>. The chain of free blocks, linked by four-byte words in byte-addressed memory, is a stack of disjoint blocks; a free that
    overlaps a link breaks it (\<open>mblk_free_overlap\<close>).
  \<^item> \<open>Mm\<close>: \<open>k_mm.c\<close>, \<open>include/k_mm.h\<close>. The heap of the kernel, a two-level segregated-fit allocator with a pool for small requests; the firmware's build
    replaces it by a library (\<open>MPOOL_ALLOC\<close>), it is modelled as the file stands. Block headers, region descriptions, the pool and the contents of the blocks are separate stores by address.
  \<^item> \<open>Mm_Class\<close>, \<open>Mm_Inv\<close>, \<open>Mm_Ops\<close>, \<open>Mm_Resize\<close>: the size classes, the invariant \<open>mm_ok\<close> of the block list (adjacent headers that agree, no two free neighbours, every free
    block in the list of its class, the two bitmaps exact), and how splitting, joining and the list operations keep it.
  \<^item> \<open>Mm_Heap\<close>, \<open>Mm_Realloc\<close>: the invariant \<open>heap_at\<close>, which adds the pool and the pointers in use, and the effect of each operation of the interface on it.
  \<^item> \<open>Mm_Init\<close>, \<open>Mm_Region\<close>, \<open>Mm_Run\<close>: the start of the heap, more areas of memory, and the heap in use as a transition system.
  \<^item> \<open>Workqueue\<close>: \<open>k_workqueue.c\<close> (with \<open>RHINO_CONFIG_WORKQUEUE\<close> set). Works, queues and workers, their invariant \<open>wq_inv\<close>, the interleaving of the parts of their calls.
  \<^item> \<open>Atomic\<close>: \<open>common/k_atomic.c\<close>. Distinct tickets and a single winner from fetch-and-increment and compare-and-swap.
  \<^item> \<open>Csi\<close>, \<open>Csi_Facts\<close>: \<open>adapter/csi_rhino.c\<close>, \<open>driver/systick.c\<close>. The interface through which the SDK uses the kernel; its calls as
    steps beside those of \<open>Steps\<close>.
  \<^item> \<open>Sdk_String\<close>, \<open>Sleepdata\<close>: \<open>string.c\<close>, \<open>common.c\<close>, \<open>dsleepdata.c\<close> of \<open>src/sdk/lib/common\<close>. Strings are lists of bytes with the terminating
    zero; reading behind the end is \<open>None\<close>.

  Locales. \<open>invariant_system\<close> (reachability and invariants) is interpreted for the kernel, for the timers, for the system with the CSI interface, for the work
  queues and for the heap; \<open>kernel_view\<close> (a part of the state that the primitive operations leave alone) for the scheduler lock with the system status and for the interrupted task; the interface of ordered insertion for the tick list, the wait lists and the list of timers.

  What is shown. Every step of \<open>kernel_step\<close> keeps the invariant \<open>good\<close>, so it holds in every reachable state
  (the interpretation \<open>kernel\<close> of the locale \<open>invariant_system\<close>). From it follow the properties of this theory: no fault and exact error reports, the
  ready task with the highest priority runs, priority inheritance is exact, mutual exclusion, no lost wake-up, and the
  exact contents of run queue, wait lists and tick list. The contracts refine the code to abstract
  specifications: semaphores to counters with a queue of waiters, message queues and ring buffers to bounded queues, byte queues to
  queues of bytes, block pools to stacks of blocks. Around the kernel: timers are called on time and their list is exact, commands reach the
  timer task unchanged, the CSI calls keep the invariant, works are queued at most once. The blocks of the heap never overlap, a request is met when a free block
  is large enough, resizing keeps the contents, and freeing undoes an allocation.

  Obligations are the premises of the rules of \<open>kernel_step\<close>; these are all of them:
  \<^item> an object or task is created in memory that holds no live one, and the memory of a queue is as large as announced;
  \<^item> a message can be read in its whole length (four bytes for a queue of pointers, one block for a ring of fixed blocks);
  \<^item> a task pointer given to deletion, suspension, resumption or change of priority points to a task;
  \<^item> the idle task does not make calls that can block and does not return from its function;
  \<^item> \<open>krhino_task_del\<close> is not called on a task of the idle priority: line 739 of \<open>k_task.c\<close> returns with interrupts masked;
  \<^item> \<open>krhino_task_yield\<close> is called while the active task is ready, which only the handler of an interrupt that has suspended the interrupted task can violate;
  \<^item> a mutex is not locked again by its owner when the nesting counter is at its limit, an interrupt comes only below the limit of the nesting level, and a
    dynamically created task is deleted, or returns from its function, only while the semaphore of the memory task can count. Otherwise the code calls \<open>k_err_proc\<close>, which is
    \<open>soc_err_proc\<close> of \<open>driver/yoc_impl.c\<close> on this chip: it prints and resets the processor, so that a run ends there. The first property says exactly when this and the null pointer of
    a yield happen, and what is reported;
  \<^item> a blocking call ends, and a tick is processed, in the right context: outside and inside an interrupt.

  The end of an interrupt needs an interrupt. Results of the allocator (\<open>krhino_mm_alloc\<close>, redirected to a library of the SDK) are arguments of the functions.

  Bounds. \<open>task_pri_change\<close> follows a chain of owners; its fuel is the number of tasks plus one, and the invariant (the
  chain rises in priority or ends) shows that the fuel is never used up: running out would be the fault \<open>KHang\<close>, which
  the first property excludes. \<open>wake_all\<close> and \<open>res_free_loop\<close> have the length of the list they empty as fuel.
  \<open>timer_task\<close> is one turn of the timer task, from the return of one receive to the next, in which time passes only in the callbacks; its rounds are bounded by fuel, and a pass of \<open>timer_cb_proc\<close> that visits more
  timers than there are active ones is cut and recorded as \<open>KHang\<close>. The property on punctuality shows that the number of active timers is enough when no tick passes and the task is not late. \<open>Timer_Run\<close> has neither fuel nor
  this cut: there the parts of the loops are steps, with ticks and other calls between them, and the list of timers is exact all the time. The loop of \<open>krhino_mblk_pool_init\<close> by the size of
  the pool (4096 bytes for the pool of the heap), the loop over the regions of the heap by their number; the first two have counterexamples outside their premises (\<open>timer_change_spins\<close>, \<open>mblk_zero_size_hangs\<close>).

  Requests to the heap are at most \<open>2 ^ 31 - 3\<close> bytes in its theorems; beyond, the sizes wrap around (\<open>alloc_size_wraps\<close>, \<open>realloc_size_wraps\<close>, \<open>bitmap_search_wraps\<close>). The joining of
  an added area with regions that touch it is modelled (\<open>merge_regions\<close>); the theorem on added areas is for areas that touch no region. A first area of 5120 to 6207 bytes gives a heap without the pool for small requests, unlike the comment in the source.

  Work queues: the parts of creation and deletion are steps of their own, because other tasks run between them. The callers do not initialise a queued work again, and do not create a
  queue again while a work is marked as queued on it; \<open>workqueue_del_loses_work\<close> shows how a deletion that races with a new work leads there.

  Not modelled: register contents, stacks and the checks for stack overflow; the variants for several processors; code that
  the configuration leaves out (\<open>k_mm_debug.c\<close>, hooks, statistics, trace, \<open>krhino_task_wait_abort\<close>,
  \<open>krhino_task_info_set\<close>); functions that only print; the heap wrappers, AT commands and POSIX
  layer of the SDK, which rest on libraries without source; the drivers, the radio library and the vendored libraries of the SDK.
\<close>

section \<open>Properties of the whole kernel\<close>

text \<open>What the calls report that \<open>kernel_step\<close> leaves to the obligations of the callers.\<close>

lemma good_no_fault: "good s \<Longrightarrow> k_faults s = []"
  by (rule ksysD(5) [OF goodD(2)])

lemma intrpt_take_report:
  "k_faults (fst (intrpt_take s)) = k_faults s @
     (if RHINO_CONFIG_INTRPT_MAX_NESTED_LEVEL \<le> g_intrpt_nested_level s then [KErr RHINO_INTRPT_NESTED_LEVEL_OVERFLOW] else [])"
  by (simp add: intrpt_take_def krhino_intrpt_enter_def Let_def k_err_proc_def fault_def)

lemma deathbed_report:
  assumes g: "good s" and d: "dyn_deletes (g_active_task s) s" "\<not> res_sem_ok s"
  shows "k_faults (krhino_task_deathbed s) = [KErr RHINO_SYS_SP_ERR]"
proof -
  have e: "RHINO_CRITICAL_EXIT (irq_off s) (RHINO_CRITICAL_ENTER s) = s" using g by simp
  then show ?thesis using krhino_task_dyn_del_report(1) [OF g, of None] d
    by (simp add: krhino_task_deathbed_def krhino_cur_task_get_def Let_def dyn_deletes_def)
qed

lemma task_del_no_report:
  assumes "good s" "del_target s t \<in> all_tasks s"
  shows "k_faults (fst (krhino_task_del t s)) = []"
proof (cases "prio (tasks s (del_target s t)) = RHINO_IDLE_PRI")
  case True
  then show ?thesis using good_no_fault [OF assms(1)] by (cases t) (simp_all add: krhino_task_del_def Let_def)
next
  case False
  then show ?thesis using good_no_fault [OF krhino_task_del_good [OF assms(1) refl assms(2)]] by blast
qed

lemma yield_report:
  assumes "good s"
  shows "k_faults (fst (krhino_task_yield s)) = (if g_intrpt_nested_level s > 0 \<and> ready_at s (active_prio s) = [] then [KNull] else [])"
proof (cases "g_intrpt_nested_level s = 0")
  case True
  then show ?thesis using good_no_fault [OF krhino_task_yield_good [OF assms goodD(5) [OF assms]]] by simp
next
  case False
  then show ?thesis using good_no_fault [OF assms]
    by (simp add: krhino_task_yield_def Let_def RHINO_CRITICAL_EXIT_SCHED_def core_sched_def word_pos ready_list_head_to_tail_def
        fault_def upd_rq_def)
qed

text \<open>
  C1: When the kernel reports an error. In every reachable state no fault has been recorded: no null pointer was followed, no loop ran past its bound,
  no inconsistent list or state was found. The calls that \<open>kernel_step\<close> excludes because they end in \<open>k_err_proc\<close> do so exactly in
  these cases, with one report each: \<open>krhino_mutex_lock\<close> by the owner when the nesting counter is at its limit, an interrupt at the limit of the
  nesting level, and \<open>krhino_task_dyn_del\<close> (or the return from the function of a dynamically created task) when the deletion goes ahead and
  the semaphore of the memory task is gone or cannot count further. Deleting a task with \<open>krhino_task_del\<close>, also the idle task, reports nothing;
  yielding follows a null pointer exactly in an interrupt whose handler has left no ready task at the priority of the interrupted one. On this chip \<open>k_err_proc\<close> resets the processor, so that a run of the system ends with its first report.
\<close>

theorem reachable_no_fault:
  assumes "reachable s"
  shows "k_faults s = []
    \<and> (g_active_task s \<noteq> g_idle_task \<longrightarrow>
        k_faults (fst (krhino_mutex_lock ob tk s)) = (if lock_overflows ob s then [KErr RHINO_MUTEX_NESTED_OVF] else []))
    \<and> k_faults (fst (intrpt_take s)) = (if RHINO_CONFIG_INTRPT_MAX_NESTED_LEVEL \<le> g_intrpt_nested_level s
        then [KErr RHINO_INTRPT_NESTED_LEVEL_OVERFLOW] else [])
    \<and> (del_target s t \<in> all_tasks s \<longrightarrow>
        k_faults (fst (krhino_task_dyn_del t s)) = (if dyn_deletes (del_target s t) s \<and> \<not> res_sem_ok s then [KErr RHINO_SYS_SP_ERR] else [])
        \<and> k_faults (fst (krhino_task_del t s)) = [])
    \<and> (active_prio s \<noteq> RHINO_IDLE_PRI \<longrightarrow>
        k_faults (krhino_task_deathbed s) = (if dyn_deletes (g_active_task s) s \<and> \<not> res_sem_ok s then [KErr RHINO_SYS_SP_ERR] else []))
    \<and> k_faults (fst (krhino_task_yield s)) = (if g_intrpt_nested_level s > 0 \<and> ready_at s (active_prio s) = [] then [KNull] else [])"
proof -
  have g: "good s" "g_sys_stat s = RHINO_RUNNING" "g_sched_lock s \<noteq> - 1"
    using reachable_ok [OF assms] sys_ok_lock by (auto simp: sys_ok_def)
  note k0 = good_no_fault [OF g(1)]
  show ?thesis
  proof (intro conjI impI)
    assume "g_active_task s \<noteq> g_idle_task"
    then show "k_faults (fst (krhino_mutex_lock ob tk s)) = (if lock_overflows ob s then [KErr RHINO_MUTEX_NESTED_OVF] else [])"
      using good_no_fault [OF krhino_mutex_lock_good [OF g(1)]] krhino_mutex_lock_report(1) [OF _ g(2)] k0 by simp
  next
    assume d: "del_target s t \<in> all_tasks s"
    show "k_faults (fst (krhino_task_dyn_del t s)) = (if dyn_deletes (del_target s t) s \<and> \<not> res_sem_ok s then [KErr RHINO_SYS_SP_ERR] else [])"
      using good_no_fault [OF krhino_task_dyn_del_good [OF g(1) refl d g(3)]] krhino_task_dyn_del_report(1) [OF g(1), of t] by auto
    show "k_faults (fst (krhino_task_del t s)) = []" by (rule task_del_no_report [OF g(1) d])
  next
    assume "active_prio s \<noteq> RHINO_IDLE_PRI"
    then show "k_faults (krhino_task_deathbed s) = (if dyn_deletes (g_active_task s) s \<and> \<not> res_sem_ok s then [KErr RHINO_SYS_SP_ERR] else [])"
      using good_no_fault [OF krhino_task_deathbed_good [OF g(1) _ g(3)]] deathbed_report [OF g(1)] by auto
  qed (use k0 intrpt_take_report [of s] yield_report [OF g(1)] in simp_all)
qed

text \<open>
  A tick in an interrupt reports nothing; with the semaphore of the memory task deleted, the deletion of a dynamically created task does.
\<close>

definition sc_dyn :: kstate where
  "sc_dyn = fst (krhino_task_dyn_create True (Some (0x800, 40)) (Some ''t'') 20 0 64 True False boot_state)"

definition sc_no_sem :: kstate where
  "sc_no_sem = fst (krhino_sem_del (Some g_res_sem) sc_dyn)"

theorem reachable_no_fault_witness:
  "k_faults (krhino_tick_proc (fst (intrpt_take boot_state))) = []
    \<and> k_faults (fst (krhino_task_dyn_del (Some 40) sc_no_sem)) = [KErr RHINO_SYS_SP_ERR]"
proof -
  have "kernel_step boot_state (fst (intrpt_take boot_state))"
    by (rule step_irq_take) (simp add: RHINO_CONFIG_INTRPT_MAX_NESTED_LEVEL_def)
  then have r: "reachable (fst (intrpt_take boot_state))" by (rule reach_step [OF reach_boot])
  have "g_intrpt_nested_level (fst (intrpt_take boot_state)) = 1"
    using intrpt_take_good(3) [OF boot_good] by (simp add: RHINO_CONFIG_INTRPT_MAX_NESTED_LEVEL_def)
  then have "kernel_step (fst (intrpt_take boot_state)) (krhino_tick_proc (fst (intrpt_take boot_state)))"
    by (intro step_tick) simp
  note tick = reachable_no_fault [OF reach_step [OF r this]]
  have "kernel_step boot_state sc_dyn" unfolding sc_dyn_def by (rule step_task_dyn_create) (simp add: boot_three_tasks boot_consts)
  moreover have "kernel_step sc_dyn sc_no_sem" unfolding sc_no_sem_def by (rule step_sem_del)
  ultimately have r2: "reachable sc_no_sem" using reach_step [OF reach_step [OF reach_boot]] by blast
  have f: "g_intrpt_nested_level sc_dyn = 0" "40 \<in> all_tasks sc_dyn" "tasks sc_dyn 40 = new_task 0x800 64 20 0 False K_OBJ_DYN_ALLOC"
    "blks sc_dyn = blks boot_state" "sems sc_dyn = sems boot_state" "g_sched_lock sc_dyn = 0"
    by (simp_all add: sc_dyn_def krhino_task_dyn_create_def task_dyn_create_def task_create_def Let_def RHINO_CONFIG_PRI_MAX_def)
  have "waiters sc_dyn g_res_sem = []" "obj_type (blks sc_dyn g_res_sem) = RHINO_SEM_OBJ_TYPE"
    "sem_mm_alloc_flag (sems sc_dyn g_res_sem) = K_OBJ_STATIC_ALLOC"
    by (simp_all add: f boot_consts bss_def)
  then have e: "sc_no_sem = RHINO_CRITICAL_EXIT_SCHED (irq_off sc_dyn) (sem_unlink g_res_sem (RHINO_CRITICAL_ENTER sc_dyn))"
    "waiters sc_dyn g_res_sem = []"
    using f(1) by (simp_all add: sc_no_sem_def krhino_sem_del_def Let_def)
  have d: "dyn_deletes 40 sc_no_sem" "40 \<in> all_tasks sc_no_sem" "\<not> res_sem_ok sc_no_sem"
    using f e(2) by (simp_all add: e(1) sem_unlink_def obj_unlink_def pend_all_rm_def Let_def dyn_deletes_def new_task_def res_sem_ok_def)
  show ?thesis using tick reachable_no_fault [OF r2, of _ _ "Some 40"] d by simp
qed

text \<open>
  C2: Outside interrupt handlers and with the scheduler unlocked, the running task is ready and no ready task
  has a higher priority (a smaller number).
\<close>

theorem highest_priority_runs:
  assumes "reachable s" "g_intrpt_nested_level s = 0" "g_sched_lock s = 0"
    and "t \<in> all_tasks s" "task_state (tasks s t) = K_RDY"
  shows "task_state (tasks s (g_active_task s)) = K_RDY \<and> active_prio s \<le> prio (tasks s t)"
proof -
  have g: "good s" using reachable_ok [OF assms(1)] by (simp add: sys_ok_def)
  have "g_active_task s = best s" using goodD(9) [OF g assms(2,3)] .
  then show ?thesis using ksys_best [OF goodD(2) [OF g]] assms(4,5) by simp
qed

theorem highest_priority_runs_witness:
  "active_prio boot_state \<le> prio (tasks boot_state g_dyn_task)"
  using highest_priority_runs [OF reach_boot, of g_dyn_task]
  by (simp add: boot_three_tasks boot_consts)

text \<open>
  C3: Priority inheritance is exact in every reachable state: the priority of a task is the highest of its base
  priority and the priorities of the tasks that wait for a mutex it owns, neither higher nor lower.
\<close>

theorem priority_inheritance_exact:
  assumes "reachable s" "t \<in> all_tasks s"
  shows "prio (tasks s t) = Min (insert (b_prio (tasks s t)) ((\<lambda>u. prio (tasks s u)) ` donors s t))"
proof -
  have k: "ksys s" using reachable_ok [OF assms(1)] goodD(2) by (simp add: sys_ok_def)
  then have e: "is_eff (base s) s t (prio (tasks s t))"
    using ksysD(2) assms(2) by (simp add: all_eff_def)
  have "finite (donors s t)" by (simp add: donors_def)
  then show ?thesis using e unfolding is_eff_def by (intro Min_eqI [symmetric]) auto
qed

theorem priority_inheritance_exact_witness:
  "prio (tasks boot_state g_timer_task) = Min {b_prio (tasks boot_state g_timer_task)}"
  using priority_inheritance_exact [OF reach_boot, of g_timer_task]
  by (simp add: donors_def boot_three_tasks)

text \<open>
  C4: Mutual exclusion: in every reachable state a mutex has at most one owner, which is a live task that is not
  waiting for it; a task that waits for a mutex waits while another task owns it.
\<close>

theorem mutex_exclusion:
  assumes "reachable s" "obj_type (blks s m) = RHINO_MUTEX_OBJ_TYPE"
  shows "(\<forall>t\<in>all_tasks s. \<forall>u\<in>all_tasks s. m \<in> set (mutex_list (tasks s t)) \<and> m \<in> set (mutex_list (tasks s u)) \<longrightarrow> t = u)
    \<and> (\<forall>w\<in>set (waiters s m). \<exists>t\<in>all_tasks s. t \<noteq> w \<and> mutex_task (mutexes s m) = Some t
         \<and> m \<in> set (mutex_list (tasks s t)))"
proof -
  have k: "ksys s" using reachable_ok [OF assms(1)] goodD(2) by (simp add: sys_ok_def)
  have o: "m \<in> set (mutex_list (tasks s t)) \<longleftrightarrow> mutex_task (mutexes s m) = Some t" if "t \<in> all_tasks s" for t
    using core_owned [OF ksysD(1) [OF k] that] assms(2) by simp
  have "\<exists>t\<in>all_tasks s. t \<noteq> w \<and> mutex_task (mutexes s m) = Some t" if "w \<in> set (waiters s m)" for w
    using ksysD(8) [OF k] assms(2) that by (auto simp: mutex_ok_def)
  then show ?thesis using o by fastforce
qed

theorem mutex_exclusion_witness:
  "g_dyn_task \<noteq> g_timer_task \<and> waiters sc_contended the_mutex = [g_timer_task]
    \<and> the_mutex \<in> set (mutex_list (tasks sc_contended g_dyn_task))"
  using conjunct2 [OF mutex_exclusion [OF sc_contended_facts(1,4)]] sc_contended_facts(3,5) by force

text \<open>
  C5: No lost wake-up: whenever tasks wait on an object, what they wait for is not there. A semaphore with
  waiters has the count zero, a queue or buffer queue with waiters holds no message, and no waiter of an event
  is satisfied by its flags.
\<close>

theorem no_lost_wakeup:
  assumes "reachable s" "waiters s ob \<noteq> []"
  shows "(obj_type (blks s ob) = RHINO_SEM_OBJ_TYPE \<longrightarrow> count (sems s ob) = 0)
    \<and> (obj_type (blks s ob) = RHINO_QUEUE_OBJ_TYPE \<longrightarrow> cur_num (msg_q (queues s ob)) = 0)
    \<and> (obj_type (blks s ob) = RHINO_BUF_QUEUE_OBJ_TYPE \<longrightarrow> bq_cur_num (buf_queues s ob) = 0)
    \<and> (obj_type (blks s ob) = RHINO_EVENT_OBJ_TYPE \<longrightarrow> (\<forall>t\<in>set (waiters s ob).
         \<not> flags_met (flags (events s ob)) (pend_flags (tasks s t)) (pend_option (tasks s t))))"
proof -
  have "obj_ok s ob" using reachable_ok [OF assms(1)] goodD(1) by (simp add: sys_ok_def kinv_def)
  then show ?thesis using assms(2)
    by (auto simp: obj_ok_def sem_ok_def queue_ok_def buf_queue_ok_def event_ok_def split: kobj_type_t.splits)
qed

theorem no_lost_wakeup_witness:
  "obj_type (blks boot_blocked g_res_sem) = RHINO_SEM_OBJ_TYPE \<and> waiters boot_blocked g_res_sem = [g_timer_task]
    \<and> count (sems boot_blocked g_res_sem) = 0"
  using no_lost_wakeup [OF boot_blocked_facts(1), of g_res_sem] by (simp add: boot_blocked_facts)

text \<open>
  C6: In every reachable state the wait list of an object holds exactly the live tasks that are pending on it,
  each once, and the wait list of a mutex is ordered by priority.
\<close>

theorem wait_lists_exact:
  assumes "reachable s"
  shows "distinct (waiters s ob)
    \<and> set (waiters s ob) = {t \<in> all_tasks s. waiting (tasks s t) \<and> blk_obj (tasks s t) = Some ob}
    \<and> (obj_type (blks s ob) = RHINO_MUTEX_OBJ_TYPE \<longrightarrow>
        sorted_wrt (\<lambda>a b. prio (tasks s a) \<le> prio (tasks s b)) (waiters s ob))"
proof -
  have k: "ksys s" using reachable_ok [OF assms(1)] goodD(2) by (simp add: sys_ok_def)
  then show ?thesis using ksysD(7,8) [OF k] by (auto simp: wait_inv_def mutex_ok_def)
qed

theorem wait_lists_exact_witness:
  "{g_timer_task} = {t \<in> all_tasks boot_blocked. waiting (tasks boot_blocked t)
     \<and> blk_obj (tasks boot_blocked t) = Some g_res_sem}"
  using wait_lists_exact [OF boot_blocked_facts(1), of g_res_sem] by (simp add: boot_blocked_facts)

text \<open>
  C7: In every reachable state the run queue holds exactly the ready tasks, each once, in the list of its priority;
  the bitmap has a bit for every priority with a ready task and no other.
\<close>

theorem run_queue_exact:
  assumes "reachable s"
  shows "distinct (ready_at s p)
    \<and> set (ready_at s p) = {t \<in> all_tasks s. task_state (tasks s t) = K_RDY \<and> prio (tasks s t) = p}
    \<and> (bitmap_test (task_bit_map (g_ready_queue s)) p \<longleftrightarrow> ready_at s p \<noteq> [])"
proof -
  have k: "ksys s" using reachable_ok [OF assms(1)] goodD(2) by (simp add: sys_ok_def)
  then show ?thesis using ksysD(6) [OF k] by (auto simp: rq_inv_def)
qed

theorem run_queue_exact_witness:
  "bitmap_test (task_bit_map (g_ready_queue boot_state)) 5"
proof -
  have "g_timer_task \<in> set (ready_at boot_state 5)"
    using run_queue_exact [OF reach_boot, of 5] by (simp add: boot_three_tasks)
  then have "ready_at boot_state 5 \<noteq> []" by auto
  then show ?thesis using run_queue_exact [OF reach_boot, of 5] by simp
qed

text \<open>
  C8: In every reachable state the tick list holds exactly the tasks with a timeout, each with time left, in the
  order of expiry; a sleeping task is always on it.
\<close>

theorem tick_list_exact:
  assumes "reachable s"
  shows "distinct (g_tick_head s) \<and> set (g_tick_head s) = {t \<in> all_tasks s. tick_head (tasks s t)}
    \<and> sorted_wrt (\<lambda>a b. tick_left s a \<le> tick_left s b) (g_tick_head s)
    \<and> (\<forall>t\<in>all_tasks s. task_state (tasks s t) = K_SLEEP \<longrightarrow> t \<in> set (g_tick_head s) \<and> 0 < tick_left s t)"
proof -
  have k: "ksys s" using reachable_ok [OF assms(1)] goodD(2) by (simp add: sys_ok_def)
  then show ?thesis using ksysD(3) [OF k] ksysD(4) [OF k]
    by (auto simp: tick_inv_def task_ok_def sleeping_def)
qed

theorem tick_list_exact_witness:
  "g_timer_task \<in> set (g_tick_head sc_sleep) \<and> 0 < tick_left sc_sleep g_timer_task"
proof -
  have "kernel_step boot_state sc_sleep" unfolding sc_sleep_def by (rule step_task_sleep) (simp add: boot_consts)
  note tick_list_exact [OF reach_step [OF reach_boot this]]
  moreover have "task_state (tasks sc_sleep g_timer_task) = K_SLEEP" "g_timer_task \<in> all_tasks sc_sleep"
    by (simp_all add: sc_sleep_frame task_to_sleep_def)
  ultimately show ?thesis by blast
qed

end
